(* ===== verification/Prelude.thy ===== *)
theory Prelude
  imports Main "HOL-Library.Word" "HOL-Library.Monad_Syntax"
begin

text \<open>
  What every component of the firmware model shares: the machine integer types of the C code,
  arrays with bounds-checked access, and the generic facts about lists and words the component
  proofs use.

  A C operation that reads or writes memory returns an \<open>option\<close>: \<open>None\<close> is a run that leaves
  the defined behaviour of the code (an access outside an array, a failed \<open>RT_ASSERT\<close>, a null
  dereference); \<open>Some\<close> carries the value and the new state. Error codes the C code returns are
  ordinary values inside the \<open>Some\<close>.
\<close>

unbundle bit_operations_syntax

type_synonym u8 = "8 word"
type_synonym u16 = "16 word"
type_synonym u32 = "32 word"

named_theorems mem_defs "the bounds-checked array operations"
named_theorems inv_simps "consequences of a component's invariant, as rewrite rules"

subsection \<open>Arrays\<close>

text \<open>\<open>a[i]\<close>, read and written; \<open>memcpy\<close> out of and into an array at an offset.\<close>

definition rd :: "'a list \<Rightarrow> nat \<Rightarrow> 'a option" where
  "rd a i = (if i < length a then Some (a ! i) else None)"

definition wr :: "'a list \<Rightarrow> nat \<Rightarrow> 'a \<Rightarrow> 'a list option" where
  "wr a i v = (if i < length a then Some (a[i := v]) else None)"

definition subarr :: "'a list \<Rightarrow> nat \<Rightarrow> nat \<Rightarrow> 'a list option" where
  "subarr a off n = (if off + n \<le> length a then Some (take n (drop off a)) else None)"

definition blit :: "'a list \<Rightarrow> nat \<Rightarrow> 'a list \<Rightarrow> 'a list option" where
  "blit a off xs =
     (if off + length xs \<le> length a
      then Some (take off a @ xs @ drop (off + length xs) a) else None)"

text \<open>\<open>RT_ASSERT(b)\<close>: the kernel's handler does not return, so a failed assertion ends the run.\<close>

definition rt_assert :: "bool \<Rightarrow> unit option" where
  "rt_assert b = (if b then Some () else None)"

declare rd_def [mem_defs] wr_def [mem_defs] subarr_def [mem_defs] blit_def [mem_defs]

lemma rt_assert_True [simp]: "rt_assert True = Some ()"
  by (simp add: rt_assert_def)

lemma rt_assert_False [simp]: "rt_assert False = None"
  by (simp add: rt_assert_def)

lemma rt_assert_Some_iff [simp]: "rt_assert b = Some u \<longleftrightarrow> b"
  by (simp add: rt_assert_def)

lemma rd_Some [simp]: "i < length a \<Longrightarrow> rd a i = Some (a ! i)"
  by (simp add: rd_def)

lemma wr_Some [simp]: "i < length a \<Longrightarrow> wr a i v = Some (a[i := v])"
  by (simp add: wr_def)

lemma rd_Some_iff: "rd a i = Some v \<longleftrightarrow> i < length a \<and> a ! i = v"
  by (auto simp: rd_def)

lemma subarr_Some [simp]: "off + n \<le> length a \<Longrightarrow> subarr a off n = Some (take n (drop off a))"
  by (simp add: subarr_def)

lemma blit_Some:
  "off + length xs \<le> length a \<Longrightarrow> blit a off xs = Some (take off a @ xs @ drop (off + length xs) a)"
  by (simp add: blit_def)

lemma blit_length: "blit a off xs = Some b \<Longrightarrow> length b = length a"
  by (auto simp: blit_def split: if_splits)

lemma blit_nth:
  "blit a off xs = Some b \<Longrightarrow> i < length a \<Longrightarrow>
     b ! i = (if off \<le> i \<and> i < off + length xs then xs ! (i - off) else a ! i)"
  by (auto simp: blit_def nth_append split: if_splits)

lemma blit_whole: "length xs = length a \<Longrightarrow> blit a 0 xs = Some xs"
  by (simp add: blit_def)

subsection \<open>Words\<close>

lemma unat_sub_le: "b \<le> a \<Longrightarrow> unat (a - b) = unat a - unat b" for a b :: "'a::len word"
  by (simp add: unat_sub)

lemma unat_add_lt: "unat a + unat b < 2 ^ LENGTH('a) \<Longrightarrow> unat (a + b) = unat a + unat b"
  for a b :: "'a::len word"
  by (rule unat_add_lem [THEN iffD1])

lemma unat_min: "unat (min a b) = min (unat a) (unat b)" for a b :: "'a::len word"
  by (simp add: min_def word_le_nat_alt)

lemma unat_of_nat_lt: "n < 2 ^ LENGTH('a) \<Longrightarrow> unat (of_nat n :: 'a::len word) = n"
  by (simp add: unat_of_nat take_bit_nat_eq_self)

lemma word_of_nat_unat: "of_nat (unat w) = w" for w :: "'a::len word"
  by (simp add: word_unat_eq_iff unat_of_nat take_bit_nat_eq_self)

lemma u8_bound [simp]: "unat (x :: u8) < 256"
  using unsigned_less [of x, where ?'a = nat] by simp

lemma u16_bound [simp]: "unat (x :: u16) < 65536"
  using unsigned_less [of x, where ?'a = nat] by simp

lemma u32_bound [simp]: "unat (x :: u32) < 4294967296"
  using unsigned_less [of x, where ?'a = nat] by simp

lemma sint_neg_u32: "sint v < 0 \<longleftrightarrow> 2147483648 \<le> unat v" for v :: u32
proof -
  have b: "unat v < 4294967296" by simp
  have "sint v < 0 \<longleftrightarrow> bit v 31" by (simp add: sint_uint signed_take_bit_negative_iff bit_uint_iff)
  also have "\<dots> \<longleftrightarrow> bit (unat v) 31" by (simp add: bit_unsigned_iff)
  also have "\<dots> \<longleftrightarrow> odd (unat v div 2147483648)" by (simp add: bit_iff_odd)
  also have "\<dots> \<longleftrightarrow> 2147483648 \<le> unat v"
  proof (cases "2147483648 \<le> unat v")
    case True
    then have "unat v div 2147483648 = 1" using b by (intro div_nat_eqI) simp_all
    then show ?thesis using True by simp
  qed simp
  finally show ?thesis .
qed

lemma below_max16: "v < 0xffff \<longleftrightarrow> v \<noteq> 0xffff" for v :: u16
proof -
  obtain n where n: "n = unat v" "n < 65536" using order_less_le_trans [OF unsigned_less [of v], of 65536] by simp
  show ?thesis unfolding word_less_nat_alt word_unat_eq_iff n(1) [symmetric] using n(2) by auto
qed

lemma below_max8: "v < 0xff \<longleftrightarrow> v \<noteq> 0xff" for v :: u8
proof -
  obtain n where n: "n = unat v" "n < 256" using order_less_le_trans [OF unsigned_less [of v], of 256] by simp
  show ?thesis unfolding word_less_nat_alt word_unat_eq_iff n(1) [symmetric] using n(2) by auto
qed

lemma below_max8_Suc: "v \<noteq> 0xff \<Longrightarrow> v + 1 \<noteq> 0" for v :: u8
proof -
  have "(- 1 :: u8) = 0xff" by simp
  then show "v \<noteq> 0xff \<Longrightarrow> v + 1 \<noteq> 0" using eq_neg_iff_add_eq_0 [of v 1] by metis
qed

lemma unat_plus_1:
  fixes x n :: "'a::len word"
  assumes "x < n"
  shows "unat (x + 1) = unat x + 1"
proof -
  have "unat x < unat n" using assms by (simp add: word_less_nat_alt)
  moreover have "unat n < 2 ^ LENGTH('a)" by (rule unsigned_less)
  ultimately have "unat x + unat (1 :: 'a word) < 2 ^ LENGTH('a)" by (simp del: unsigned_less)
  then show ?thesis by (simp add: unat_add_lt)
qed

lemma below_max16_less: "x < n \<Longrightarrow> x \<noteq> 0xffff" for x n :: u16
  using u16_bound [of n] by (auto simp: word_less_nat_alt simp del: u16_bound)

lemma unat_ucast_up: "LENGTH('a) \<le> LENGTH('b) \<Longrightarrow> unat (ucast x :: 'b::len word) = unat x"
  for x :: "'a::len word"
proof -
  assume le: "LENGTH('a) \<le> LENGTH('b)"
  have "unat x < 2 ^ LENGTH('a)" by (rule unsigned_less)
  also have "\<dots> \<le> 2 ^ LENGTH('b)" using le by (intro power_increasing) simp_all
  finally have "take_bit LENGTH('b) (unat x) = unat x" by (rule take_bit_nat_eq_self)
  then show ?thesis by (simp add: unsigned_ucast_eq)
qed

lemma unat_drop_bit: "unat (drop_bit k v) = unat v div 2 ^ k" for v :: "'a::len word"
proof -
  have "take_bit LENGTH('a) (unat v) = unat v" by (rule take_bit_nat_eq_self) (rule unsigned_less)
  then show ?thesis unfolding unsigned_drop_bit_eq by (simp add: drop_bit_eq_div)
qed

lemma word_less_one: "x < 1 \<longleftrightarrow> x = 0" for x :: "'a::len word"
  by (auto simp: word_less_nat_alt word_unat_eq_iff)

lemma removeAll_filter: "removeAll x xs = filter (\<lambda>y. y \<noteq> x) xs"
  by (induction xs) auto

lemma and_not_mask: "v AND NOT (mask k) = push_bit k (drop_bit k v)" for v :: "'a::len word"
  by (rule bit_word_eqI) (auto simp: bit_and_iff bit_not_iff bit_mask_iff bit_push_bit_iff bit_drop_bit_eq)

lemma unat_and_not_3: "unat (v AND NOT 3) = unat v div 4 * 4" for v :: u32
proof -
  have "(3 :: u32) = mask 2" by (simp add: mask_eq_exp_minus_1)
  then have "v AND NOT 3 = push_bit 2 (drop_bit 2 v)" by (simp only: and_not_mask)
  then have "unat (v AND NOT 3) = unat (push_bit 2 (drop_bit 2 v))" by simp
  also have "\<dots> = unat (drop_bit 2 v) * 4"
  proof -
    have "unat (drop_bit 2 v) * unat (4 :: u32) < 2 ^ LENGTH(32)"
      using less_mult_imp_div_less [of "unat v" 1073741824 4] u32_bound [of v] by (simp add: unat_drop_bit)
    from unat_mult_lem [THEN iffD1, OF this] show ?thesis by (simp add: push_bit_eq_mult)
  qed
  also have "\<dots> = unat v div 4 * 4" by (simp add: unat_drop_bit)
  finally show ?thesis .
qed

end
