(* ===== verification/Circular.thy ===== *)
theory Circular
  imports Prelude
begin

text \<open>
  Arrays used as circles. Both ring buffers of the firmware (\<open>LwRB\<close> and the kernel's
  \<open>rt_ringbuffer\<close>) copy a block in at most two pieces: up to the end of the array, then from its
  start. \<open>circ\<close> is what such a read sees and \<open>circ_put\<close> what such a write leaves; the lemmas say
  how a write changes later reads, so that the components only have to show that their two
  \<open>memcpy\<close> calls are these two functions.
\<close>

definition circ :: "'a list \<Rightarrow> nat \<Rightarrow> nat \<Rightarrow> 'a list" where
  "circ a s n = map (\<lambda>i. a ! ((s + i) mod length a)) [0..<n]"

definition circ_put :: "'a list \<Rightarrow> nat \<Rightarrow> 'a list \<Rightarrow> 'a list" where
  "circ_put a s xs =
     map (\<lambda>p. let i = (p + length a - s) mod length a in if i < length xs then xs ! i else a ! p)
       [0..<length a]"

lemma length_circ [simp]: "length (circ a s n) = n"
  by (simp add: circ_def)

lemma length_circ_put [simp]: "length (circ_put a s xs) = length a"
  by (simp add: circ_put_def)

lemma circ_0 [simp]: "circ a s 0 = []"
  by (simp add: circ_def)

lemma circ_nth: "i < n \<Longrightarrow> circ a s n ! i = a ! ((s + i) mod length a)"
  by (simp add: circ_def)

lemma circ_append: "circ a s (m + n) = circ a s m @ circ a ((s + m) mod length a) n"
proof (rule nth_equalityI)
  fix i assume "i < length (circ a s (m + n))"
  then have i: "i < m + n" by simp
  show "circ a s (m + n) ! i = (circ a s m @ circ a ((s + m) mod length a) n) ! i"
  proof (cases "i < m")
    case False
    have "((s + m) mod length a + (i - m)) mod length a = (s + m + (i - m)) mod length a"
      by (rule mod_add_left_eq)
    also have "s + m + (i - m) = s + i" using False by simp
    finally show ?thesis using i False by (simp add: circ_nth nth_append)
  qed (use i in \<open>simp add: circ_nth nth_append\<close>)
qed simp

lemma circ_take: "k \<le> n \<Longrightarrow> take k (circ a s n) = circ a s k"
  by (rule nth_equalityI) (auto simp: circ_nth)

lemma circ_drop: "k \<le> n \<Longrightarrow> drop k (circ a s n) = circ a ((s + k) mod length a) (n - k)"
  using circ_append [of a s k "n - k"] by simp

subsection \<open>Distance on the circle\<close>

lemma wrap_mod: "s < N \<Longrightarrow> i \<le> N \<Longrightarrow> (s + i) mod N = (if s + i < N then s + i else s + i - N)"
  for N :: nat
  by (simp add: le_mod_geq)

lemma wrap_dist:
  fixes s p N :: nat
  assumes "s < N" "p < N"
  shows "(p + N - s) mod N = (if s \<le> p then p - s else p + N - s)"
proof (cases "s \<le> p")
  case True
  then have "(p + N - s) mod N = (p - s) mod N" using assms by (simp add: le_mod_geq)
  with True assms show ?thesis by simp
qed (use assms in simp)

lemma circ_dist:
  fixes s i N :: nat
  assumes "s < N" "i < N"
  shows "((s + i) mod N + N - s) mod N = i"
proof (cases "s + i < N")
  case True
  then show ?thesis using wrap_dist [of s N "s + i"] assms by simp
next
  case False
  then have "(s + i) mod N = s + i - N" using assms by (simp add: le_mod_geq)
  then show ?thesis using wrap_dist [of s N "s + i - N"] assms False by simp
qed

lemma circ_pos_inj: "s < N \<Longrightarrow> i < N \<Longrightarrow> j < N \<Longrightarrow> (s + i) mod N = (s + j) mod N \<Longrightarrow> i = j"
  for N :: nat
  by (metis circ_dist)

subsection \<open>Reading back a write\<close>

lemma circ_put_nth:
  "s < length a \<Longrightarrow> i < length a \<Longrightarrow>
     circ_put a s xs ! ((s + i) mod length a) =
       (if i < length xs then xs ! i else a ! ((s + i) mod length a))"
proof -
  assume s: "s < length a" and i: "i < length a"
  have "(s + i) mod length a < length a" using i by (intro mod_less_divisor) auto
  then show ?thesis using circ_dist [OF s i] by (simp add: circ_put_def Let_def)
qed

lemma circ_circ_put_same:
  "s < length a \<Longrightarrow> length xs \<le> length a \<Longrightarrow> circ (circ_put a s xs) s (length xs) = xs"
  by (rule nth_equalityI) (auto simp: circ_nth circ_put_nth)

lemma circ_circ_put_before:
  assumes s: "s < length a" and len: "n + length xs \<le> length a"
  shows "circ (circ_put a ((s + n) mod length a) xs) s n = circ a s n"
proof (rule nth_equalityI)
  fix i assume "i < length (circ (circ_put a ((s + n) mod length a) xs) s n)"
  then have i: "i < n" by simp
  let ?N = "length a" and ?t = "(s + n) mod length a"
  define j where "j = ?N - n + i"
  have N: "0 < ?N" and j: "j < ?N" "length xs \<le> j" using s len i by (auto simp: j_def)
  have "(?t + j) mod ?N = (s + n + j) mod ?N" by (simp add: mod_simps)
  also have "s + n + j = s + i + ?N" using len i by (simp add: j_def)
  finally have pos: "(?t + j) mod ?N = (s + i) mod ?N" by simp
  have "circ_put a ?t xs ! ((?t + j) mod ?N) = a ! ((?t + j) mod ?N)"
    using j N by (subst circ_put_nth) auto
  then show "circ (circ_put a ?t xs) s n ! i = circ a s n ! i"
    using i by (simp add: circ_nth pos)
qed simp

lemma circ_circ_put_append:
  assumes "s < length a" and "n + length xs \<le> length a"
  shows "circ (circ_put a ((s + n) mod length a) xs) s (n + length xs) = circ a s n @ xs"
proof -
  have "(s + n) mod length a < length a" using assms(1) by (intro mod_less_divisor) auto
  then show ?thesis
    using assms circ_circ_put_before [OF assms] circ_circ_put_same [of "(s + n) mod length a" a xs]
    by (simp add: circ_append)
qed

subsection \<open>The two-piece copies of the code\<close>

lemma circ_linear: "s + n \<le> length a \<Longrightarrow> s < length a \<Longrightarrow> circ a s n = take n (drop s a)"
  by (rule nth_equalityI) (auto simp: circ_nth)

lemma circ_wrap:
  assumes "s < length a" "length a \<le> s + n" "n \<le> length a"
  shows "circ a s n = drop s a @ take (n - (length a - s)) a"
proof (rule nth_equalityI)
  show "length (circ a s n) = length (drop s a @ take (n - (length a - s)) a)"
    using assms by simp
  fix i assume "i < length (circ a s n)"
  then show "circ a s n ! i = (drop s a @ take (n - (length a - s)) a) ! i"
    using assms wrap_mod [of s "length a" i] by (auto simp: circ_nth nth_append add.commute)
qed

lemma circ_put_linear:
  assumes "s < length a" "s + length xs \<le> length a"
  shows "circ_put a s xs = take s a @ xs @ drop (s + length xs) a"
proof (rule nth_equalityI)
  show "length (circ_put a s xs) = length (take s a @ xs @ drop (s + length xs) a)"
    using assms by simp
  fix p assume "p < length (circ_put a s xs)"
  then have p: "p < length a" by simp
  have "(p + length a - s) mod length a = (if s \<le> p then p - s else p + length a - s)"
    using p assms(1) by (simp add: wrap_dist)
  then show "circ_put a s xs ! p = (take s a @ xs @ drop (s + length xs) a) ! p"
    using p assms by (simp add: circ_put_def nth_append Let_def) linarith
qed

lemma circ_put_wrap:
  assumes "s < length a" "length a \<le> s + length xs" "length xs \<le> length a"
  shows "circ_put a s xs =
           drop (length a - s) xs @
           drop (length xs - (length a - s)) (take s a) @ take (length a - s) xs"
proof (rule nth_equalityI)
  show "length (circ_put a s xs) =
      length (drop (length a - s) xs @ drop (length xs - (length a - s)) (take s a) @
        take (length a - s) xs)"
    using assms by simp
  fix p assume "p < length (circ_put a s xs)"
  then have p: "p < length a" by simp
  have "(p + length a - s) mod length a = (if s \<le> p then p - s else p + length a - s)"
    using p assms(1) by (simp add: wrap_dist)
  then show "circ_put a s xs ! p =
      (drop (length a - s) xs @ drop (length xs - (length a - s)) (take s a) @
        take (length a - s) xs) ! p"
    using p assms by (auto simp: circ_put_def nth_append Let_def add.commute)
qed

text \<open>The write as the code performs it: one \<open>blit\<close>, or one up to the end and one from the start.\<close>

lemma blit_linear:
  "s < length a \<Longrightarrow> s + length xs \<le> length a \<Longrightarrow> blit a s xs = Some (circ_put a s xs)"
  by (simp add: blit_Some circ_put_linear)

lemma blit_wrap:
  assumes "s < length a" "length a \<le> s + length xs" "length xs \<le> length a"
  shows "do { b \<leftarrow> blit a s (take (length a - s) xs); blit b 0 (drop (length a - s) xs) }
           = Some (circ_put a s xs)"
proof -
  let ?k = "length a - s"
  have 1: "blit a s (take ?k xs) = Some (take s a @ take ?k xs)"
    using assms by (simp add: blit_def)
  have "blit (take s a @ take ?k xs) 0 (drop ?k xs) =
      Some (drop ?k xs @ drop (length xs - ?k) (take s a) @ take ?k xs)"
    using assms by (simp add: blit_def)
  then show ?thesis using assms 1 by (simp add: circ_put_wrap)
qed

text \<open>A two-piece copy out of the circle into an array, for the read and the peek.\<close>

lemma copy_out_wrap:
  assumes "s < length m" "length m < s + k" "k \<le> length m" "k \<le> length d"
  shows "do { x \<leftarrow> blit d 0 (drop s m); blit x (length m - s) (take (k - (length m - s)) m) }
           = Some (circ m s k @ drop k d)"
proof -
  let ?n = "length m - s"
  have n: "?n + (k - ?n) = k" using assms by simp
  have 1: "blit d 0 (drop s m) = Some (drop s m @ drop ?n d)" using assms by (simp add: blit_def)
  have "blit (drop s m @ drop ?n d) ?n (take (k - ?n) m) =
      Some (drop s m @ take (k - ?n) m @ drop (k - ?n) (drop ?n d))"
    using assms by (simp add: blit_def)
  moreover have "drop (k - ?n) (drop ?n d) = drop k d" using n by (simp only: drop_drop add.commute)
  ultimately show ?thesis using 1 assms by (simp add: circ_wrap)
qed

end
