(* ===== verification/Fifo_Spec.thy ===== *)
theory Fifo_Spec
  imports Prelude
begin

text \<open>
  The contract of a bounded byte queue, as its clients rely on it: a block write accepts the
  longest prefix that fits and appends it, a block read delivers the oldest bytes and removes
  them. \<open>fifo_run\<close> is a client: any interleaving of block writes and reads. The locale's lemmas
  say that such a run never faults, loses nothing it accepted, invents nothing and keeps the order.
  Both ring buffers of the firmware interpret the locale (theories Lwrb and Ringbuffer).
\<close>

datatype 'a fifo_op = Put "'a list" | Get nat

text \<open>
  A run of the client: the bytes the queue accepted, the bytes it delivered, the queue afterwards.
\<close>

fun fifo_run ::
  "('q \<Rightarrow> 'a list \<Rightarrow> (nat \<times> 'q) option) \<Rightarrow> ('q \<Rightarrow> nat \<Rightarrow> ('a list \<times> 'q) option) \<Rightarrow>
   'a fifo_op list \<Rightarrow> 'q \<Rightarrow> ('a list \<times> 'a list \<times> 'q) option" where
  "fifo_run put get [] q = Some ([], [], q)"
| "fifo_run put get (Put xs # ops) q =
     do { (k, q1) \<leftarrow> put q xs;
          (ins, outs, q2) \<leftarrow> fifo_run put get ops q1;
          Some (take k xs @ ins, outs, q2) }"
| "fifo_run put get (Get n # ops) q =
     do { (ys, q1) \<leftarrow> get q n;
          (ins, outs, q2) \<leftarrow> fifo_run put get ops q1;
          Some (ins, ys @ outs, q2) }"

fun op_size :: "'a fifo_op \<Rightarrow> nat" where
  "op_size (Put xs) = length xs"
| "op_size (Get n) = n"

locale byte_fifo =
  fixes inv :: "'q \<Rightarrow> bool"
    and content :: "'q \<Rightarrow> 'a list"
    and cap :: "'q \<Rightarrow> nat"
    and maxlen :: nat
    and put :: "'q \<Rightarrow> 'a list \<Rightarrow> (nat \<times> 'q) option"
    and get :: "'q \<Rightarrow> nat \<Rightarrow> ('a list \<times> 'q) option"
  assumes bounded: "inv q \<Longrightarrow> length (content q) \<le> cap q"
    and put_law: "inv q \<Longrightarrow> length xs \<le> maxlen \<Longrightarrow>
      \<exists>q'. put q xs = Some (min (length xs) (cap q - length (content q)), q') \<and> inv q' \<and>
           content q' = content q @ take (cap q - length (content q)) xs \<and> cap q' = cap q"
    and get_law: "inv q \<Longrightarrow> n \<le> maxlen \<Longrightarrow>
      \<exists>q'. get q n = Some (take n (content q), q') \<and> inv q' \<and>
           content q' = drop n (content q) \<and> cap q' = cap q"
begin

lemma put_fits:
  assumes "inv q" "length xs \<le> maxlen" "length (content q) + length xs \<le> cap q"
  shows "\<exists>q'. put q xs = Some (length xs, q') \<and> inv q' \<and> content q' = content q @ xs"
  using put_law [OF assms(1,2)] assms(3) by (auto simp: min_def)

lemma put_then_get:
  assumes "inv q" "content q = []" "length xs \<le> cap q" "length xs \<le> maxlen"
  shows "\<exists>q1 q2. put q xs = Some (length xs, q1) \<and> get q1 (length xs) = Some (xs, q2) \<and>
           inv q2 \<and> content q2 = []"
proof -
  obtain q1 where 1: "put q xs = Some (length xs, q1)" "inv q1" "content q1 = xs"
    using put_fits [OF assms(1,4)] assms(2,3) by auto
  obtain q2 where "get q1 (length xs) = Some (xs, q2)" "inv q2" "content q2 = []"
    using get_law [OF 1(2) assms(4)] 1(3) by auto
  with 1 show ?thesis by blast
qed

lemma fifo_run_order:
  "inv q \<Longrightarrow> (\<And>x. x \<in> set ops \<Longrightarrow> op_size x \<le> maxlen) \<Longrightarrow>
     \<exists>ins outs q'. fifo_run put get ops q = Some (ins, outs, q') \<and> inv q' \<and> cap q' = cap q \<and>
       content q @ ins = outs @ content q'"
proof (induction ops arbitrary: q)
  case (Cons x ops)
  show ?case
  proof (cases x)
    case (Put xs)
    then obtain q1 where q1: "put q xs = Some (min (length xs) (cap q - length (content q)), q1)"
      "inv q1" "content q1 = content q @ take (cap q - length (content q)) xs" "cap q1 = cap q"
      using put_law [OF Cons.prems(1)] Cons.prems(2) [of x] by auto
    obtain ins outs q2 where q2: "fifo_run put get ops q1 = Some (ins, outs, q2)" "inv q2"
      "cap q2 = cap q1" "content q1 @ ins = outs @ content q2"
      using Cons.IH [OF q1(2)] Cons.prems(2) by auto
    moreover have "take (min (length xs) k) xs = take k xs" for k by (simp add: min_def)
    ultimately show ?thesis using Put q1 by simp
  next
    case (Get n)
    then obtain q1 where q1: "get q n = Some (take n (content q), q1)" "inv q1"
      "content q1 = drop n (content q)" "cap q1 = cap q"
      using get_law [OF Cons.prems(1)] Cons.prems(2) [of x] by auto
    obtain ins outs q2 where q2: "fifo_run put get ops q1 = Some (ins, outs, q2)" "inv q2"
      "cap q2 = cap q1" "content q1 @ ins = outs @ content q2"
      using Cons.IH [OF q1(2)] Cons.prems(2) by auto
    have "content q @ ins = take n (content q) @ content q1 @ ins" by (simp add: q1(3))
    also have "\<dots> = (take n (content q) @ outs) @ content q2" by (simp add: q2(4))
    finally have *: "content q @ ins = (take n (content q) @ outs) @ content q2" .
    have "fifo_run put get (x # ops) q = Some (ins, take n (content q) @ outs, q2)"
      using q1(1) q2(1) Get by simp
    then show ?thesis using q2(2,3) q1(4) * by simp
  qed
qed simp

end

text \<open>A queue that can also be emptied in one step.\<close>

locale byte_fifo_reset = byte_fifo inv content cap maxlen put get
  for inv :: "'q \<Rightarrow> bool" and content :: "'q \<Rightarrow> 'a list" and cap :: "'q \<Rightarrow> nat"
    and maxlen :: nat and put :: "'q \<Rightarrow> 'a list \<Rightarrow> (nat \<times> 'q) option"
    and get :: "'q \<Rightarrow> nat \<Rightarrow> ('a list \<times> 'q) option" +
  fixes reset :: "'q \<Rightarrow> 'q"
  assumes reset_law: "inv q \<Longrightarrow> inv (reset q) \<and> content (reset q) = [] \<and> cap (reset q) = cap q"
begin

lemma reset_then_roundtrip:
  "inv q \<Longrightarrow> length xs \<le> cap q \<Longrightarrow> length xs \<le> maxlen \<Longrightarrow>
     \<exists>q1 q2. put (reset q) xs = Some (length xs, q1) \<and> get q1 (length xs) = Some (xs, q2)"
  using put_then_get [of "reset q" xs] reset_law [of q] by auto

end

end
