(* ===== verification/Lwrb.thy ===== *)
theory Lwrb
  imports Circular Fifo_Spec
begin

text \<open>
  The LwRB ring buffer (\<open>common/LwRB/lwrb.c\<close>, \<open>lwrb.h\<close>), which carries the bytes of UART2 to the
  history-record thread. \<open>lwrb\<close> is \<open>struct lwrb\<close>: the data array (\<open>None\<close> for a null \<open>buff\<close>
  pointer), its size, the read and write positions, whether an event callback is installed, the
  user argument, and the calls made to that callback so far. Handles are non-null, so the
  handle test of \<open>BUF_IS_VALID\<close> has no counterpart; a null data pointer is \<open>None\<close>. The atomic
  loads and stores are plain ones: the model is the sequential one.
\<close>

subsection \<open>State\<close>

datatype lwrb_evt_type_t = LWRB_EVT_READ | LWRB_EVT_WRITE | LWRB_EVT_RESET

record lwrb =
  lw_buff :: "u8 list option"
  lw_size :: u32
  lw_r :: u32
  lw_w :: u32
  lw_evt_fn :: bool
  lw_arg :: u32
  lw_evts :: "(lwrb_evt_type_t \<times> u32) list"

definition LWRB_FLAG_READ_ALL :: u16 where "LWRB_FLAG_READ_ALL = 1"
definition LWRB_FLAG_WRITE_ALL :: u16 where "LWRB_FLAG_WRITE_ALL = 1"

definition BUF_IS_VALID :: "lwrb \<Rightarrow> bool" where
  "BUF_IS_VALID b \<longleftrightarrow> lw_buff b \<noteq> None \<and> lw_size b > 0"

definition BUF_SEND_EVT :: "lwrb \<Rightarrow> lwrb_evt_type_t \<Rightarrow> u32 \<Rightarrow> lwrb" where
  "BUF_SEND_EVT b type bp =
     (if lw_evt_fn b then b\<lparr>lw_evts := lw_evts b @ [(type, bp)]\<rparr> else b)"

subsection \<open>Operations\<close>

definition lwrb_init :: "lwrb \<Rightarrow> u8 list option \<Rightarrow> u32 \<Rightarrow> u8 \<times> lwrb" where
  "lwrb_init b buffdata sz =
     (if buffdata = None \<or> sz = 0 then (0, b)
      else (1, b\<lparr>lw_evt_fn := False, lw_size := sz, lw_buff := buffdata, lw_w := 0, lw_r := 0\<rparr>))"

definition lwrb_is_ready :: "lwrb \<Rightarrow> u8" where
  "lwrb_is_ready b = (if BUF_IS_VALID b then 1 else 0)"

definition lwrb_free :: "lwrb \<Rightarrow> lwrb" where
  "lwrb_free b = (if BUF_IS_VALID b then b\<lparr>lw_buff := None\<rparr> else b)"

definition lwrb_set_evt_fn :: "lwrb \<Rightarrow> bool \<Rightarrow> lwrb" where
  "lwrb_set_evt_fn b evt_fn = (if BUF_IS_VALID b then b\<lparr>lw_evt_fn := evt_fn\<rparr> else b)"

definition lwrb_set_arg :: "lwrb \<Rightarrow> u32 \<Rightarrow> lwrb" where
  "lwrb_set_arg b arg = (if BUF_IS_VALID b then b\<lparr>lw_arg := arg\<rparr> else b)"

definition lwrb_get_arg :: "lwrb \<Rightarrow> u32" where
  "lwrb_get_arg b = lw_arg b"

definition lwrb_get_free :: "lwrb \<Rightarrow> u32" where
  "lwrb_get_free b =
     (if \<not> BUF_IS_VALID b then 0
      else let w = lw_w b; r = lw_r b;
               sz = (if w \<ge> r then lw_size b - (w - r) else r - w)
           in sz - 1)"

definition lwrb_get_full :: "lwrb \<Rightarrow> u32" where
  "lwrb_get_full b =
     (if \<not> BUF_IS_VALID b then 0
      else let w = lw_w b; r = lw_r b
           in if w \<ge> r then w - r else lw_size b - (r - w))"

text \<open>
  \<open>bw\<close> is the caller's counter, \<open>None\<close> for a null pointer. The result is the returned flag, the
  counter afterwards and the buffer; \<open>None\<close> if a copy left an array.
\<close>

definition lwrb_write_ex ::
  "lwrb \<Rightarrow> u8 list option \<Rightarrow> u32 \<Rightarrow> u32 option \<Rightarrow> u16 \<Rightarrow> (u8 \<times> u32 option \<times> lwrb) option" where
  "lwrb_write_ex b data btw bw flags =
     (case data of
        None \<Rightarrow> Some (0, bw, b)
      | Some d \<Rightarrow>
          if \<not> BUF_IS_VALID b \<or> btw = 0 then Some (0, bw, b)
          else
            let free = lwrb_get_free b in
            if free = 0 \<or> (free < btw \<and> flags AND LWRB_FLAG_WRITE_ALL \<noteq> 0) then Some (0, bw, b)
            else
              let btw = min free btw;
                  buff_w_ptr = lw_w b;
                  tocopy = min (lw_size b - buff_w_ptr) btw
              in do {
                   src \<leftarrow> subarr d 0 (unat tocopy);
                   m \<leftarrow> blit (the (lw_buff b)) (unat buff_w_ptr) src;
                   let buff_w_ptr = buff_w_ptr + tocopy;
                   let btw = btw - tocopy;
                   (m, buff_w_ptr) \<leftarrow>
                     (if btw > 0
                      then do { src \<leftarrow> subarr d (unat tocopy) (unat btw);
                                m \<leftarrow> blit m 0 src;
                                Some (m, btw) }
                      else Some (m, buff_w_ptr));
                   let buff_w_ptr = (if buff_w_ptr \<ge> lw_size b then 0 else buff_w_ptr);
                   Some (1, map_option (\<lambda>_. tocopy + btw) bw,
                         BUF_SEND_EVT (b\<lparr>lw_buff := Some m, lw_w := buff_w_ptr\<rparr>)
                           LWRB_EVT_WRITE (tocopy + btw)) })"

definition lwrb_write :: "lwrb \<Rightarrow> u8 list option \<Rightarrow> u32 \<Rightarrow> (u32 \<times> lwrb) option" where
  "lwrb_write b data btw =
     do { (ok, written, b) \<leftarrow> lwrb_write_ex b data btw (Some 0) 0;
          Some (if ok \<noteq> 0 then the written else 0, b) }"

text \<open>Reads return the caller's array after the copy.\<close>

definition lwrb_read_ex ::
  "lwrb \<Rightarrow> u8 list option \<Rightarrow> u32 \<Rightarrow> u32 option \<Rightarrow> u16 \<Rightarrow>
   (u8 \<times> u8 list option \<times> u32 option \<times> lwrb) option" where
  "lwrb_read_ex b data btr br flags =
     (case data of
        None \<Rightarrow> Some (0, data, br, b)
      | Some d \<Rightarrow>
          if \<not> BUF_IS_VALID b \<or> btr = 0 then Some (0, data, br, b)
          else
            let full = lwrb_get_full b in
            if full = 0 \<or> (full < btr \<and> flags AND LWRB_FLAG_READ_ALL \<noteq> 0) then Some (0, data, br, b)
            else
              let btr = min full btr;
                  buff_r_ptr = lw_r b;
                  tocopy = min (lw_size b - buff_r_ptr) btr
              in do {
                   src \<leftarrow> subarr (the (lw_buff b)) (unat buff_r_ptr) (unat tocopy);
                   d \<leftarrow> blit d 0 src;
                   let buff_r_ptr = buff_r_ptr + tocopy;
                   let btr = btr - tocopy;
                   (d, buff_r_ptr) \<leftarrow>
                     (if btr > 0
                      then do { src \<leftarrow> subarr (the (lw_buff b)) 0 (unat btr);
                                d \<leftarrow> blit d (unat tocopy) src;
                                Some (d, btr) }
                      else Some (d, buff_r_ptr));
                   let buff_r_ptr = (if buff_r_ptr \<ge> lw_size b then 0 else buff_r_ptr);
                   Some (1, Some d, map_option (\<lambda>_. tocopy + btr) br,
                         BUF_SEND_EVT (b\<lparr>lw_r := buff_r_ptr\<rparr>) LWRB_EVT_READ (tocopy + btr)) })"

definition lwrb_read :: "lwrb \<Rightarrow> u8 list option \<Rightarrow> u32 \<Rightarrow> (u32 \<times> u8 list option \<times> lwrb) option" where
  "lwrb_read b data btr =
     do { (ok, data, n, b) \<leftarrow> lwrb_read_ex b data btr (Some 0) 0;
          Some (if ok \<noteq> 0 then the n else 0, data, b) }"

definition lwrb_peek :: "lwrb \<Rightarrow> u32 \<Rightarrow> u8 list option \<Rightarrow> u32 \<Rightarrow> (u32 \<times> u8 list option) option" where
  "lwrb_peek b skip_count data btp =
     (case data of
        None \<Rightarrow> Some (0, data)
      | Some d \<Rightarrow>
          if \<not> BUF_IS_VALID b \<or> btp = 0 then Some (0, data)
          else
            let full = lwrb_get_full b in
            if skip_count \<ge> full then Some (0, data)
            else
              let r = lw_r b + skip_count;
                  full = full - skip_count;
                  r = (if r \<ge> lw_size b then r - lw_size b else r);
                  btp = min full btp
              in if btp = 0 then Some (0, data)
                 else
                   let tocopy = min (lw_size b - r) btp in
                   do {
                     src \<leftarrow> subarr (the (lw_buff b)) (unat r) (unat tocopy);
                     d \<leftarrow> blit d 0 src;
                     let btp = btp - tocopy;
                     d \<leftarrow> (if btp > 0
                           then do { src \<leftarrow> subarr (the (lw_buff b)) 0 (unat btp);
                                     blit d (unat tocopy) src }
                           else Some d);
                     Some (tocopy + btp, Some d) })"

definition lwrb_reset :: "lwrb \<Rightarrow> lwrb" where
  "lwrb_reset b =
     (if BUF_IS_VALID b then BUF_SEND_EVT (b\<lparr>lw_w := 0, lw_r := 0\<rparr>) LWRB_EVT_RESET 0 else b)"

text \<open>The linear-block addresses are offsets into the data array; \<open>None\<close> is the null pointer.\<close>

definition lwrb_get_linear_block_read_address :: "lwrb \<Rightarrow> u32 option" where
  "lwrb_get_linear_block_read_address b = (if \<not> BUF_IS_VALID b then None else Some (lw_r b))"

definition lwrb_get_linear_block_read_length :: "lwrb \<Rightarrow> u32" where
  "lwrb_get_linear_block_read_length b =
     (if \<not> BUF_IS_VALID b then 0
      else let w = lw_w b; r = lw_r b
           in if w > r then w - r else if r > w then lw_size b - r else 0)"

definition lwrb_skip :: "lwrb \<Rightarrow> u32 \<Rightarrow> u32 \<times> lwrb" where
  "lwrb_skip b len =
     (if \<not> BUF_IS_VALID b \<or> len = 0 then (0, b)
      else let full = lwrb_get_full b;
               len = min len full;
               r = lw_r b + len;
               r = (if r \<ge> lw_size b then r - lw_size b else r)
           in (len, BUF_SEND_EVT (b\<lparr>lw_r := r\<rparr>) LWRB_EVT_READ len))"

definition lwrb_get_linear_block_write_address :: "lwrb \<Rightarrow> u32 option" where
  "lwrb_get_linear_block_write_address b = (if \<not> BUF_IS_VALID b then None else Some (lw_w b))"

definition lwrb_get_linear_block_write_length :: "lwrb \<Rightarrow> u32" where
  "lwrb_get_linear_block_write_length b =
     (if \<not> BUF_IS_VALID b then 0
      else let w = lw_w b; r = lw_r b
           in if w \<ge> r then (let len = lw_size b - w in if r = 0 then len - 1 else len)
              else r - w - 1)"

definition lwrb_advance :: "lwrb \<Rightarrow> u32 \<Rightarrow> u32 \<times> lwrb" where
  "lwrb_advance b len =
     (if \<not> BUF_IS_VALID b \<or> len = 0 then (0, b)
      else let free = lwrb_get_free b;
               len = min len free;
               w = lw_w b + len;
               w = (if w \<ge> lw_size b then w - lw_size b else w)
           in (len, BUF_SEND_EVT (b\<lparr>lw_w := w\<rparr>) LWRB_EVT_WRITE len))"

text \<open>The inner loop of the search: compare the needle with the buffer from position \<open>r\<close>.\<close>

fun lwrb_match :: "u8 list \<Rightarrow> u32 \<Rightarrow> u32 \<Rightarrow> u8 list \<Rightarrow> nat \<Rightarrow> nat \<Rightarrow> bool option" where
  "lwrb_match m sz r needle i 0 = Some True"
| "lwrb_match m sz r needle i (Suc n) =
     do { v \<leftarrow> rd m (unat r);
          x \<leftarrow> rd needle i;
          if v \<noteq> x then Some False
          else lwrb_match m sz (if r + 1 \<ge> sz then 0 else r + 1) needle (Suc i) n }"

text \<open>
  The outer loop, from \<open>skip_x\<close> to \<open>max_x\<close>. It turns at most \<open>max_x - skip_x + 1\<close> times and tests
  once more; running out of fuel (a counter that wraps past \<open>max_x\<close>) is \<open>None\<close>.
\<close>

fun lwrb_find_loop ::
  "nat \<Rightarrow> lwrb \<Rightarrow> u8 list \<Rightarrow> u32 \<Rightarrow> u32 \<Rightarrow> u32 \<Rightarrow> (u8 \<times> u32) option" where
  "lwrb_find_loop 0 b needle len max_x skip_x = None"
| "lwrb_find_loop (Suc fuel) b needle len max_x skip_x =
     (if skip_x > max_x then Some (0, 0)
      else let r = lw_r b + skip_x;
               r = (if r \<ge> lw_size b then r - lw_size b else r)
           in do { found \<leftarrow> lwrb_match (the (lw_buff b)) (lw_size b) r needle 0 (unat len);
                   if found then Some (1, skip_x)
                   else lwrb_find_loop fuel b needle len max_x (skip_x + 1) })"

definition lwrb_find ::
  "lwrb \<Rightarrow> u8 list option \<Rightarrow> u32 \<Rightarrow> u32 \<Rightarrow> u32 option \<Rightarrow> (u8 \<times> u32 option) option" where
  "lwrb_find b bts len start_offset found_idx =
     (case bts of
        None \<Rightarrow> Some (0, found_idx)
      | Some needle \<Rightarrow>
          if \<not> BUF_IS_VALID b \<or> len = 0 \<or> found_idx = None then Some (0, found_idx)
          else
            let full = lwrb_get_full b in
            if full < len + start_offset then Some (0, Some 0)
            else do {
              let max_x = full - len;
              (found, idx) \<leftarrow> lwrb_find_loop (unat (max_x - start_offset) + 2) b needle len
                max_x start_offset;
              Some (found, Some idx) })"

subsection \<open>Invariant and abstraction\<close>

text \<open>
  A ready buffer: the array has \<open>size\<close> bytes and both positions lie in it. Its content is what a
  read would deliver, \<open>lwrb_get_full\<close> bytes round the array from \<open>r\<close>; one byte of the array is
  always unused, so the capacity is \<open>size - 1\<close>.
\<close>

definition lwrb_inv :: "lwrb \<Rightarrow> bool" where
  "lwrb_inv b \<longleftrightarrow>
     (case lw_buff b of None \<Rightarrow> False | Some m \<Rightarrow> length m = unat (lw_size b)) \<and>
     0 < unat (lw_size b) \<and> unat (lw_r b) < unat (lw_size b) \<and> unat (lw_w b) < unat (lw_size b)"

definition lwrb_cap :: "lwrb \<Rightarrow> nat" where
  "lwrb_cap b = unat (lw_size b) - 1"

definition lwrb_content :: "lwrb \<Rightarrow> u8 list" where
  "lwrb_content b = circ (the (lw_buff b)) (unat (lw_r b)) (unat (lwrb_get_full b))"

lemma lwrb_invE:
  assumes "lwrb_inv b"
  obtains m where "lw_buff b = Some m" "length m = unat (lw_size b)" "0 < unat (lw_size b)"
    "unat (lw_r b) < unat (lw_size b)" "unat (lw_w b) < unat (lw_size b)"
  using assms by (auto simp: lwrb_inv_def split: option.splits)

lemma lwrb_inv_valid [simp]: "lwrb_inv b \<Longrightarrow> BUF_IS_VALID b"
  by (erule lwrb_invE) (auto simp: BUF_IS_VALID_def word_greater_zero_iff)

lemma lwrb_inv_intro:
  "lw_buff b = Some m \<Longrightarrow> length m = unat (lw_size b) \<Longrightarrow> unat (lw_r b) < unat (lw_size b) \<Longrightarrow>
     unat (lw_w b) < unat (lw_size b) \<Longrightarrow> lwrb_inv b"
  by (simp add: lwrb_inv_def)

lemma unat_lwrb_get_full:
  assumes "lwrb_inv b"
  shows "unat (lwrb_get_full b) =
    (if unat (lw_r b) \<le> unat (lw_w b) then unat (lw_w b) - unat (lw_r b)
     else unat (lw_size b) - (unat (lw_r b) - unat (lw_w b)))"
proof -
  have v: "BUF_IS_VALID b" using assms by simp
  show ?thesis
  proof (cases "lw_r b \<le> lw_w b")
    case True
    then show ?thesis using v by (simp add: lwrb_get_full_def unat_sub_le word_le_nat_alt)
  next
    case False
    have le: "lw_w b \<le> lw_r b" using False by simp
    have "lw_r b - lw_w b \<le> lw_size b"
      using assms le by (elim lwrb_invE) (simp add: word_le_nat_alt unat_sub_le)
    then show ?thesis using v False le
      by (simp add: lwrb_get_full_def unat_sub_le word_le_nat_alt)
  qed
qed

lemma lwrb_full_le_cap:
  assumes "lwrb_inv b" shows "unat (lwrb_get_full b) \<le> lwrb_cap b"
  using assms by (elim lwrb_invE) (auto simp: unat_lwrb_get_full [OF assms] lwrb_cap_def)

lemma unat_lwrb_get_free:
  assumes "lwrb_inv b"
  shows "unat (lwrb_get_free b) = lwrb_cap b - unat (lwrb_get_full b)"
proof -
  let ?s = "if lw_w b \<ge> lw_r b then lw_size b - (lw_w b - lw_r b) else lw_r b - lw_w b"
  have s: "unat ?s = unat (lw_size b) - unat (lwrb_get_full b)"
  proof (cases "lw_r b \<le> lw_w b")
    case True
    have "lw_w b - lw_r b \<le> lw_size b"
      using assms True by (elim lwrb_invE) (simp add: word_le_nat_alt unat_sub_le)
    with True show ?thesis
      by (simp add: unat_lwrb_get_full [OF assms] unat_sub_le word_le_nat_alt)
  next
    case False
    then have "lw_w b \<le> lw_r b" by simp
    with False assms show ?thesis
      by (elim lwrb_invE)
        (simp add: unat_lwrb_get_full [OF assms] unat_sub_le word_le_nat_alt)
  qed
  have "0 < unat ?s"
    using s assms lwrb_full_le_cap [OF assms] by (elim lwrb_invE) (simp add: lwrb_cap_def)
  then have "(1::u32) \<le> ?s" by (simp add: word_le_nat_alt)
  then have "unat (?s - 1) = unat ?s - 1" by (simp add: unat_sub_le)
  then show ?thesis using assms s by (simp add: lwrb_get_free_def lwrb_cap_def Let_def)
qed

lemma length_lwrb_content [simp]: "length (lwrb_content b) = unat (lwrb_get_full b)"
  by (simp add: lwrb_content_def)

text \<open>The write position is where the content ends.\<close>

lemma lwrb_write_pos:
  assumes "lwrb_inv b"
  shows "unat (lw_w b) = (unat (lw_r b) + unat (lwrb_get_full b)) mod unat (lw_size b)"
proof -
  let ?r = "unat (lw_r b)" and ?w = "unat (lw_w b)" and ?N = "unat (lw_size b)"
  have b: "?r < ?N" "?w < ?N" using assms by (auto elim: lwrb_invE)
  show ?thesis
  proof (cases "?r \<le> ?w")
    case True
    then show ?thesis using b by (simp add: unat_lwrb_get_full [OF assms])
  next
    case False
    then have "?r + (?N - (?r - ?w)) = ?w + ?N" using b by simp
    then show ?thesis using b False by (simp add: unat_lwrb_get_full [OF assms])
  qed
qed

text \<open>Conversely, the positions determine how full the buffer is.\<close>

lemma lwrb_full_unique:
  assumes "lwrb_inv b" "n < unat (lw_size b)"
    "unat (lw_w b) = (unat (lw_r b) + n) mod unat (lw_size b)"
  shows "unat (lwrb_get_full b) = n"
proof -
  have "unat (lw_r b) < unat (lw_size b)" "unat (lwrb_get_full b) < unat (lw_size b)"
    using assms(1) lwrb_full_le_cap [OF assms(1)] by (auto simp: lwrb_cap_def elim!: lwrb_invE)
  from this assms(2) show ?thesis
    by (rule circ_pos_inj) (simp only: lwrb_write_pos [OF assms(1), symmetric] assms(3))
qed

lemma BUF_SEND_EVT_sel [simp]:
  "lw_buff (BUF_SEND_EVT b t n) = lw_buff b" "lw_size (BUF_SEND_EVT b t n) = lw_size b"
  "lw_r (BUF_SEND_EVT b t n) = lw_r b" "lw_w (BUF_SEND_EVT b t n) = lw_w b"
  "lw_evt_fn (BUF_SEND_EVT b t n) = lw_evt_fn b"
  by (simp_all add: BUF_SEND_EVT_def)

lemma BUF_SEND_EVT_inv [simp]: "lwrb_inv (BUF_SEND_EVT b t n) = lwrb_inv b"
  by (simp add: lwrb_inv_def split: option.split)

lemma BUF_SEND_EVT_full [simp]: "lwrb_get_full (BUF_SEND_EVT b t n) = lwrb_get_full b"
  by (simp add: lwrb_get_full_def BUF_IS_VALID_def Let_def)

lemma BUF_SEND_EVT_content [simp]: "lwrb_content (BUF_SEND_EVT b t n) = lwrb_content b"
  by (simp add: lwrb_content_def)

lemma BUF_SEND_EVT_cap [simp]: "lwrb_cap (BUF_SEND_EVT b t n) = lwrb_cap b"
  by (simp add: lwrb_cap_def)

subsection \<open>Moving the positions\<close>

text \<open>The position after a move of \<open>k\<close> bytes, as the code computes it with one comparison.\<close>

lemma wrap_u32:
  fixes p t sz :: u32
  assumes "unat p < unat sz" "unat t \<le> unat sz - unat p"
  shows "unat (if p + t \<ge> sz then 0 else p + t) = (unat p + unat t) mod unat sz"
proof -
  have "unat p + unat t < 4294967296" using assms u32_bound [of sz] by linarith
  then have "unat (p + t) = unat p + unat t" by (intro unat_add_lt) simp
  then show ?thesis
    using assms by (cases "unat p + unat t = unat sz") (auto simp: word_le_nat_alt)
qed

lemma wrap_sub_u32:
  fixes p t sz :: u32
  assumes "unat p < unat sz" "unat t < unat sz" "unat p + unat t < 4294967296"
  shows "unat (if p + t \<ge> sz then p + t - sz else p + t) = (unat p + unat t) mod unat sz"
proof -
  have "unat (p + t) = unat p + unat t" using assms by (intro unat_add_lt) simp
  then show ?thesis using assms by (auto simp: word_le_nat_alt unat_sub_le le_mod_geq)
qed

subsection \<open>Writing\<close>

text \<open>
  The two copies of \<open>lwrb_write_ex\<close> are one circular write of the accepted prefix, and the new
  write position is the old one moved round by its length.
\<close>

lemma lwrb_write_ex_accept:
  assumes inv: "lwrb_inv b" and m: "lw_buff b = Some m" and d: "unat btw \<le> length d"
    and k: "k = min (unat btw) (unat (lwrb_get_free b))" "0 < k"
    and all: "flags AND LWRB_FLAG_WRITE_ALL = 0 \<or> unat btw \<le> unat (lwrb_get_free b)"
  shows "\<exists>w'. lwrb_write_ex b (Some d) btw bw flags =
      Some (1, map_option (\<lambda>_. of_nat k) bw,
        BUF_SEND_EVT (b\<lparr>lw_buff := Some (circ_put m (unat (lw_w b)) (take k d)), lw_w := w'\<rparr>)
          LWRB_EVT_WRITE (of_nat k)) \<and>
      unat w' = (unat (lw_w b) + k) mod unat (lw_size b)"
proof -
  let ?N = "unat (lw_size b)" and ?w = "unat (lw_w b)"
  define kw where "kw = min (lwrb_get_free b) btw"
  define t where "t = min (lw_size b - lw_w b) kw"
  have m_len: "length m = ?N" and w: "?w < ?N" using inv m by (auto elim: lwrb_invE)
  have kw: "unat kw = k" by (simp add: kw_def k unat_min min.commute)
  have kw_nat: "kw = of_nat k" by (metis kw word_of_nat_unat)
  have k_N: "k \<le> ?N - 1" using k unat_lwrb_get_free [OF inv] by (simp add: lwrb_cap_def)
  have Nw: "unat (lw_size b - lw_w b) = ?N - ?w" using w by (simp add: unat_sub_le word_le_nat_alt)
  have t: "unat t = min (?N - ?w) k" by (simp add: t_def unat_min Nw kw)
  have t_le: "t \<le> kw" by (simp add: t_def)
  have rest: "unat (kw - t) = k - unat t" using t_le kw by (simp add: unat_sub_le)
  have tk: "t + (kw - t) = of_nat k" using kw_nat by simp
  have go: "lwrb_get_free b \<noteq> 0" "btw \<noteq> 0"
    "\<not> (lwrb_get_free b < btw \<and> flags AND LWRB_FLAG_WRITE_ALL \<noteq> 0)"
    using k all by (auto simp: word_less_nat_alt unat_gt_0)
  show ?thesis
  proof (cases "?w + k \<le> ?N")
    case True
    then have t': "unat t = k" "\<not> 0 < kw - t" using t rest by (auto simp: word_less_nat_alt)
    have wp: "unat (if lw_w b + t \<ge> lw_size b then 0 else lw_w b + t) = (?w + k) mod ?N"
      using wrap_u32 [of "lw_w b" "lw_size b" t] w True t' by simp
    have blit: "blit m ?w (take k d) = Some (circ_put m ?w (take k d))"
      using True w m_len d k by (intro blit_linear) auto
    have src: "subarr d 0 k = Some (take k d)" using d k by (simp add: subarr_def)
    show ?thesis
      by (intro exI [of _ "if lw_w b + t \<ge> lw_size b then 0 else lw_w b + t"] conjI wp)
        (simp add: lwrb_write_ex_def Let_def kw_def [symmetric] t_def [symmetric] inv m go t' src blit
          kw_nat [symmetric])
  next
    case False
    then have t': "unat t = ?N - ?w" using t by simp
    have nw: "?N - ?w < k" and kd: "k \<le> length d" using False w d k by auto
    then have pos: "0 < kw - t" using rest t' by (simp add: word_less_nat_alt)
    have le: "unat (kw - t) < ?N" using rest k_N w by simp
    have nle: "\<not> lw_size b \<le> kw - t" using le by (simp add: word_le_nat_alt)
    have src1: "subarr d 0 (unat t) = Some (take (?N - ?w) (take k d))"
      using t' nw kd by (simp add: subarr_def min_def)
    have src2: "subarr d (unat t) (unat (kw - t)) = Some (drop (?N - ?w) (take k d))"
      using t' rest nw kd by (simp add: subarr_def drop_take)
    have blit: "do { x \<leftarrow> blit m ?w (take (?N - ?w) (take k d)); blit x 0 (drop (?N - ?w) (take k d)) }
        = Some (circ_put m ?w (take k d))"
      using blit_wrap [of ?w m "take k d"] False w m_len d k k_N by simp
    then obtain x where x: "blit m ?w (take (?N - ?w) (take k d)) = Some x"
      "blit x 0 (drop (?N - ?w) (take k d)) = Some (circ_put m ?w (take k d))"
      by (auto split: bind_splits)
    have wp: "unat (kw - t) = (?w + k) mod ?N"
      using rest t' False w k_N by (simp add: le_mod_geq)
    show ?thesis
      by (intro exI [of _ "kw - t"] conjI wp)
        (simp add: lwrb_write_ex_def Let_def kw_def [symmetric] t_def [symmetric] inv m go src1 src2
          x [unfolded take_take] pos nle kw_nat [symmetric])
  qed
qed

lemma lwrb_write_ex_reject:
  "data = None \<or> \<not> BUF_IS_VALID b \<or> btw = 0 \<or> lwrb_get_free b = 0 \<or>
   (lwrb_get_free b < btw \<and> flags AND LWRB_FLAG_WRITE_ALL \<noteq> 0) \<Longrightarrow>
     lwrb_write_ex b data btw bw flags = Some (0, bw, b)"
  by (auto simp: lwrb_write_ex_def Let_def split: option.split)

lemma lwrb_write_law:
  assumes inv: "lwrb_inv b" and d: "unat btw \<le> length d"
  shows "\<exists>b'. lwrb_write b (Some d) btw =
      Some (of_nat (min (unat btw) (lwrb_cap b - length (lwrb_content b))), b') \<and> lwrb_inv b' \<and>
      lwrb_content b' =
        lwrb_content b @ take (lwrb_cap b - length (lwrb_content b)) (take (unat btw) d) \<and>
      lwrb_cap b' = lwrb_cap b \<and> lw_evt_fn b' = lw_evt_fn b"
proof (cases "btw = 0 \<or> lwrb_get_free b = 0")
  case True
  then show ?thesis
    using inv unat_lwrb_get_free [OF inv]
    by (auto simp: lwrb_write_def lwrb_write_ex_reject unat_0_iff [symmetric])
next
  case False
  define k where "k = min (unat btw) (unat (lwrb_get_free b))"
  have k: "0 < k" using False by (simp add: k_def unat_gt_0)
  obtain m where m: "lw_buff b = Some m" "length m = unat (lw_size b)"
    and r: "unat (lw_r b) < unat (lw_size b)" using inv by (auto elim: lwrb_invE)
  obtain w' where w: "lwrb_write_ex b (Some d) btw (Some 0) 0 =
      Some (1, Some (of_nat k),
        BUF_SEND_EVT (b\<lparr>lw_buff := Some (circ_put m (unat (lw_w b)) (take k d)), lw_w := w'\<rparr>)
          LWRB_EVT_WRITE (of_nat k))"
    "unat w' = (unat (lw_w b) + k) mod unat (lw_size b)"
    using lwrb_write_ex_accept [OF inv m(1) d k_def k, of 0 "Some 0"] by auto
  define b' where "b' = b\<lparr>lw_buff := Some (circ_put m (unat (lw_w b)) (take k d)), lw_w := w'\<rparr>"
  let ?N = "unat (lw_size b)" and ?full = "unat (lwrb_get_full b)"
  have inv': "lwrb_inv b'"
    using m r w(2)
    by (intro lwrb_inv_intro [where m = "circ_put m (unat (lw_w b)) (take k d)"]) (auto simp: b'_def)
  have len: "length (take k d) = k" using d by (simp add: k_def)
  have fits: "?full + k < ?N"
    using unat_lwrb_get_free [OF inv] lwrb_full_le_cap [OF inv] r by (simp add: k_def lwrb_cap_def)
  have full': "unat (lwrb_get_full b') = ?full + k"
    using inv' fits w(2) lwrb_write_pos [OF inv]
    by (intro lwrb_full_unique) (simp_all add: b'_def mod_simps add.assoc)
  have "lwrb_content b' = lwrb_content b @ take k d"
    using circ_circ_put_append [of "unat (lw_r b)" m ?full "take k d", unfolded len] m r fits
    by (simp add: lwrb_content_def full') (simp add: b'_def lwrb_write_pos [OF inv])
  moreover have "take k d = take (lwrb_cap b - length (lwrb_content b)) (take (unat btw) d)"
    by (simp add: k_def unat_lwrb_get_free [OF inv] min.commute)
  moreover have "lwrb_write b (Some d) btw = Some (of_nat k, BUF_SEND_EVT b' LWRB_EVT_WRITE (of_nat k))"
    by (simp add: lwrb_write_def w(1) b'_def)
  moreover have "lwrb_cap b' = lwrb_cap b" "lw_evt_fn b' = lw_evt_fn b"
    by (simp_all add: b'_def lwrb_cap_def)
  moreover have "k = min (unat btw) (lwrb_cap b - length (lwrb_content b))"
    by (simp add: k_def unat_lwrb_get_free [OF inv])
  ultimately show ?thesis using inv' by (intro exI [of _ "BUF_SEND_EVT b' LWRB_EVT_WRITE (of_nat k)"]) simp
qed

subsection \<open>Reading\<close>

lemma lwrb_read_ex_reject:
  "data = None \<or> \<not> BUF_IS_VALID b \<or> btr = 0 \<or> lwrb_get_full b = 0 \<or>
   (lwrb_get_full b < btr \<and> flags AND LWRB_FLAG_READ_ALL \<noteq> 0) \<Longrightarrow>
     lwrb_read_ex b data btr br flags = Some (0, data, br, b)"
  by (auto simp: lwrb_read_ex_def Let_def split: option.split)

lemma lwrb_read_ex_deliver:
  assumes inv: "lwrb_inv b" and m: "lw_buff b = Some m"
    and k: "k = min (unat btr) (unat (lwrb_get_full b))" "0 < k" and d: "k \<le> length d"
    and all: "flags AND LWRB_FLAG_READ_ALL = 0 \<or> unat btr \<le> unat (lwrb_get_full b)"
  shows "\<exists>r'. lwrb_read_ex b (Some d) btr br flags =
      Some (1, Some (circ m (unat (lw_r b)) k @ drop k d), map_option (\<lambda>_. of_nat k) br,
        BUF_SEND_EVT (b\<lparr>lw_r := r'\<rparr>) LWRB_EVT_READ (of_nat k)) \<and>
      unat r' = (unat (lw_r b) + k) mod unat (lw_size b)"
proof -
  let ?N = "unat (lw_size b)" and ?r = "unat (lw_r b)"
  define kw where "kw = min (lwrb_get_full b) btr"
  define t where "t = min (lw_size b - lw_r b) kw"
  have m_len: "length m = ?N" and r: "?r < ?N" using inv m by (auto elim: lwrb_invE)
  have kw: "unat kw = k" by (simp add: kw_def k unat_min min.commute)
  have kw_nat: "kw = of_nat k" by (metis kw word_of_nat_unat)
  have k_N: "k \<le> ?N - 1" using k lwrb_full_le_cap [OF inv] by (simp add: lwrb_cap_def)
  have Nr: "unat (lw_size b - lw_r b) = ?N - ?r" using r by (simp add: unat_sub_le word_le_nat_alt)
  have t: "unat t = min (?N - ?r) k" by (simp add: t_def unat_min Nr kw)
  have t_le: "t \<le> kw" by (simp add: t_def)
  have rest: "unat (kw - t) = k - unat t" using t_le kw by (simp add: unat_sub_le)
  have tk: "t + (kw - t) = of_nat k" using kw_nat by simp
  have go: "lwrb_get_full b \<noteq> 0" "btr \<noteq> 0"
    "\<not> (lwrb_get_full b < btr \<and> flags AND LWRB_FLAG_READ_ALL \<noteq> 0)"
    using k all by (auto simp: word_less_nat_alt unat_gt_0)
  show ?thesis
  proof (cases "?r + k \<le> ?N")
    case True
    then have t': "unat t = k" "\<not> 0 < kw - t" using t rest by (auto simp: word_less_nat_alt)
    have wp: "unat (if lw_r b + t \<ge> lw_size b then 0 else lw_r b + t) = (?r + k) mod ?N"
      using wrap_u32 [of "lw_r b" "lw_size b" t] r True t' by simp
    have "subarr m ?r k = Some (circ m ?r k)" using True r m_len by (simp add: circ_linear)
    moreover have "blit d 0 (circ m ?r k) = Some (circ m ?r k @ drop k d)"
      using d by (simp add: blit_def)
    ultimately show ?thesis
      by (intro exI [of _ "if lw_r b + t \<ge> lw_size b then 0 else lw_r b + t"] conjI wp)
        (simp add: lwrb_read_ex_def Let_def kw_def [symmetric] t_def [symmetric] inv m go t'
          kw_nat [symmetric])
  next
    case False
    then have t': "unat t = ?N - ?r" using t by simp
    have "?N - ?r < k" using False r by linarith
    then have pos: "0 < kw - t" using rest t' by (simp add: word_less_nat_alt)
    have nle: "\<not> lw_size b \<le> kw - t" using rest k_N r by (simp add: word_le_nat_alt)
    have src1: "subarr m ?r (unat t) = Some (drop ?r m)" using t' m_len r by (simp add: subarr_def)
    have src2: "subarr m 0 (unat (kw - t)) = Some (take (k - (?N - ?r)) m)"
      using t' rest k_N m_len by (simp add: subarr_def)
    have "do { x \<leftarrow> blit d 0 (drop ?r m); blit x (?N - ?r) (take (k - (?N - ?r)) m) }
        = Some (circ m ?r k @ drop k d)"
      using copy_out_wrap [of ?r m k d] False r m_len d k_N by simp
    then obtain x where x: "blit d 0 (drop ?r m) = Some x"
      "blit x (?N - ?r) (take (k - (?N - ?r)) m) = Some (circ m ?r k @ drop k d)"
      by (auto split: bind_splits)
    have x2: "blit x (unat t) (take (k - (?N - ?r)) m) = Some (circ m ?r k @ drop k d)"
      using x(2) t' by simp
    have wp: "unat (kw - t) = (?r + k) mod ?N"
      using rest t' False r k_N by (simp add: le_mod_geq)
    show ?thesis
      by (intro exI [of _ "kw - t"] conjI wp)
        (simp add: lwrb_read_ex_def Let_def kw_def [symmetric] t_def [symmetric] inv m go src1 src2
          x(1) x2 pos nle kw_nat [symmetric])
  qed
qed

lemma lwrb_read_law:
  assumes inv: "lwrb_inv b" and d: "min (unat btr) (length (lwrb_content b)) \<le> length d"
  shows "\<exists>d' b'. lwrb_read b (Some d) btr =
      Some (of_nat (min (unat btr) (length (lwrb_content b))), Some d', b') \<and>
      d' = take (unat btr) (lwrb_content b) @ drop (min (unat btr) (length (lwrb_content b))) d \<and>
      lwrb_inv b' \<and> lwrb_content b' = drop (unat btr) (lwrb_content b) \<and>
      lwrb_cap b' = lwrb_cap b \<and> lw_evt_fn b' = lw_evt_fn b"
proof (cases "btr = 0 \<or> lwrb_get_full b = 0")
  case True
  then show ?thesis
    using inv by (auto simp: lwrb_read_def lwrb_read_ex_reject lwrb_content_def unat_0_iff [symmetric])
next
  case False
  define k where "k = min (unat btr) (unat (lwrb_get_full b))"
  have k: "0 < k" using False by (simp add: k_def unat_gt_0)
  obtain m where m: "lw_buff b = Some m" "length m = unat (lw_size b)"
    and r: "unat (lw_r b) < unat (lw_size b)" "unat (lw_w b) < unat (lw_size b)"
    using inv by (auto elim: lwrb_invE)
  have dk: "k \<le> length d" using d by (simp add: k_def)
  obtain r' where w: "lwrb_read_ex b (Some d) btr (Some 0) 0 =
      Some (1, Some (circ m (unat (lw_r b)) k @ drop k d), Some (of_nat k),
        BUF_SEND_EVT (b\<lparr>lw_r := r'\<rparr>) LWRB_EVT_READ (of_nat k))"
    "unat r' = (unat (lw_r b) + k) mod unat (lw_size b)"
    using lwrb_read_ex_deliver [OF inv m(1) k_def k dk, of 0 "Some 0"] by auto
  define b' where "b' = b\<lparr>lw_r := r'\<rparr>"
  let ?N = "unat (lw_size b)" and ?full = "unat (lwrb_get_full b)"
  have inv': "lwrb_inv b'" using m r w(2) by (intro lwrb_inv_intro) (auto simp: b'_def)
  have kf: "k \<le> ?full" "?full < ?N"
    using lwrb_full_le_cap [OF inv] r by (auto simp: k_def lwrb_cap_def)
  have "(unat r' + (?full - k)) mod ?N = (unat (lw_r b) + k + (?full - k)) mod ?N"
    unfolding w(2) by (rule mod_add_left_eq)
  then have full': "unat (lwrb_get_full b') = ?full - k"
    using inv' kf lwrb_write_pos [OF inv] by (intro lwrb_full_unique) (simp_all add: b'_def)
  have "lwrb_content b' = drop k (lwrb_content b)"
    using circ_drop [of k ?full m "unat (lw_r b)"] kf m w(2)
    by (simp add: lwrb_content_def full') (simp add: b'_def)
  moreover have "drop k (lwrb_content b) = drop (unat btr) (lwrb_content b)"
    by (simp add: k_def min_def)
  moreover have "circ m (unat (lw_r b)) k = take (unat btr) (lwrb_content b)"
    using circ_take [of k ?full m "unat (lw_r b)"] kf m
    by (simp add: lwrb_content_def k_def min_def split: if_splits)
  moreover have "lwrb_read b (Some d) btr =
      Some (of_nat k, Some (circ m (unat (lw_r b)) k @ drop k d),
        BUF_SEND_EVT b' LWRB_EVT_READ (of_nat k))"
    by (simp add: lwrb_read_def w(1) b'_def)
  moreover have "lwrb_cap b' = lwrb_cap b" "lw_evt_fn b' = lw_evt_fn b"
    by (simp_all add: b'_def lwrb_cap_def)
  moreover have "k = min (unat btr) (length (lwrb_content b))" by (simp add: k_def)
  ultimately show ?thesis using inv' by auto
qed

subsection \<open>The queue interface\<close>

text \<open>
  The block write and read as the queue contract has them: write a list, read at most \<open>n\<close> bytes
  into an array of \<open>n\<close>. \<open>size_t\<close> bounds the blocks.
\<close>

definition lwrb_put :: "lwrb \<Rightarrow> u8 list \<Rightarrow> (nat \<times> lwrb) option" where
  "lwrb_put b xs =
     do { (n, b') \<leftarrow> lwrb_write b (Some xs) (of_nat (length xs)); Some (unat n, b') }"

definition lwrb_get :: "lwrb \<Rightarrow> nat \<Rightarrow> (u8 list \<times> lwrb) option" where
  "lwrb_get b n =
     do { (k, d, b') \<leftarrow> lwrb_read b (Some (replicate n 0)) (of_nat n);
          d \<leftarrow> d;
          Some (take (unat k) d, b') }"

lemma lwrb_put_law:
  assumes inv: "lwrb_inv b" and len: "length xs \<le> 4294967295"
  shows "\<exists>b'. lwrb_put b xs =
      Some (min (length xs) (lwrb_cap b - length (lwrb_content b)), b') \<and> lwrb_inv b' \<and>
      lwrb_content b' = lwrb_content b @ take (lwrb_cap b - length (lwrb_content b)) xs \<and>
      lwrb_cap b' = lwrb_cap b"
proof -
  have n: "unat (of_nat (length xs) :: u32) = length xs" using len by (intro unat_of_nat_lt) simp
  have m: "unat (of_nat (min (length xs) k) :: u32) = min (length xs) k" for k
    using len by (intro unat_of_nat_lt) simp
  obtain b' where "lwrb_write b (Some xs) (of_nat (length xs)) =
      Some (of_nat (min (length xs) (lwrb_cap b - length (lwrb_content b))), b')" "lwrb_inv b'"
    "lwrb_content b' = lwrb_content b @ take (lwrb_cap b - length (lwrb_content b)) xs"
    "lwrb_cap b' = lwrb_cap b"
    using lwrb_write_law [OF inv, of "of_nat (length xs)" xs] unfolding n by auto
  then show ?thesis by (simp add: lwrb_put_def m del: length_lwrb_content)
qed

lemma lwrb_get_law:
  assumes inv: "lwrb_inv b" and len: "n \<le> 4294967295"
  shows "\<exists>b'. lwrb_get b n = Some (take n (lwrb_content b), b') \<and> lwrb_inv b' \<and>
      lwrb_content b' = drop n (lwrb_content b) \<and> lwrb_cap b' = lwrb_cap b"
proof -
  have n: "unat (of_nat n :: u32) = n" using len by (intro unat_of_nat_lt) simp
  have m: "unat (of_nat (min n k) :: u32) = min n k" for k
    using len by (intro unat_of_nat_lt) simp
  obtain b' where "lwrb_read b (Some (replicate n 0)) (of_nat n) =
      Some (of_nat (min n (length (lwrb_content b))),
        Some (take n (lwrb_content b) @ drop (min n (length (lwrb_content b))) (replicate n 0)), b')"
    "lwrb_inv b'" "lwrb_content b' = drop n (lwrb_content b)" "lwrb_cap b' = lwrb_cap b"
    using lwrb_read_law [OF inv, of "of_nat n" "replicate n 0"] unfolding n by auto
  moreover have "take (min n (length xs)) xs = take n xs" for xs :: "u8 list"
    by (simp add: min_def)
  note this [of "lwrb_content b", unfolded length_lwrb_content]
  ultimately show ?thesis by (simp add: lwrb_get_def m)
qed

lemma lwrb_reset_law:
  "lwrb_inv b \<Longrightarrow>
     lwrb_inv (lwrb_reset b) \<and> lwrb_content (lwrb_reset b) = [] \<and> lwrb_cap (lwrb_reset b) = lwrb_cap b"
  by (auto simp: lwrb_reset_def lwrb_cap_def lwrb_content_def lwrb_get_full_def BUF_IS_VALID_def
      word_greater_zero_iff elim!: lwrb_invE intro!: lwrb_inv_intro)

interpretation lw: byte_fifo_reset lwrb_inv lwrb_content lwrb_cap 4294967295 lwrb_put lwrb_get
  lwrb_reset
proof unfold_locales
  show "length (lwrb_content b) \<le> lwrb_cap b" if "lwrb_inv b" for b
    using lwrb_full_le_cap [OF that] by simp
qed (fact lwrb_put_law lwrb_get_law lwrb_reset_law)+

subsection \<open>Peek, skip and advance\<close>

text \<open>\<open>lwrb_peek\<close> copies out the bytes of the content from offset \<open>skip\<close> on, as many as are asked for
  and present, and returns their number; the buffer itself is not an output, so it is unchanged.\<close>

theorem lwrb_peek_offset:
  assumes inv: "lwrb_inv b" and half: "unat (lw_size b) \<le> 2147483648"
    and k: "k = min (unat btp) (length (lwrb_content b) - unat skip)" "k \<le> length d"
  shows "lwrb_peek b skip (Some d) btp =
      Some (of_nat k, Some (take k (drop (unat skip) (lwrb_content b)) @ drop k d))"
proof (cases "k = 0")
  case True
  then show ?thesis using k
    by (auto simp: lwrb_peek_def Let_def word_le_nat_alt min_def unat_0_iff split: if_splits)
next
  case False
  obtain m where m: "lw_buff b = Some m" "length m = unat (lw_size b)"
    and r: "unat (lw_r b) < unat (lw_size b)"
    using inv by (auto elim: lwrb_invE)
  let ?N = "unat (lw_size b)" and ?full = "unat (lwrb_get_full b)"
  have full: "?full < ?N" using lwrb_full_le_cap [OF inv] r by (simp add: lwrb_cap_def)
  have sk: "unat skip < ?full" using False k by simp
  define kw where "kw = min (lwrb_get_full b - skip) btp"
  define p where "p = (if lw_r b + skip \<ge> lw_size b then lw_r b + skip - lw_size b else lw_r b + skip)"
  define t where "t = min (lw_size b - p) kw"
  have p: "unat p = (unat (lw_r b) + unat skip) mod ?N"
    unfolding p_def using r sk full half by (intro wrap_sub_u32) linarith+
  have pN: "unat p < ?N" unfolding p using r by (intro mod_less_divisor) linarith
  have kw: "unat kw = k"
    using sk k by (simp add: kw_def unat_min unat_sub_le word_le_nat_alt min.commute)
  have kw_nat: "kw = of_nat k" by (metis kw word_of_nat_unat)
  have Np: "unat (lw_size b - p) = ?N - unat p" using pN by (simp add: unat_sub_le word_le_nat_alt)
  have t: "unat t = min (?N - unat p) k" by (simp add: t_def unat_min Np kw)
  have rest: "unat (kw - t) = k - unat t" using kw t_def by (simp add: unat_sub_le)
  have kN: "k < ?N" "k \<le> ?full - unat skip" using k full by auto
  have out: "take k (drop (unat skip) (lwrb_content b)) = circ m (unat p) k"
    using sk kN m p by (simp add: lwrb_content_def circ_drop circ_take)
  have go: "\<not> lwrb_get_full b \<le> skip" "btp \<noteq> 0" "kw \<noteq> 0"
    using sk False k kw by (auto simp: word_le_nat_alt unat_0_iff [symmetric])
  show ?thesis
  proof (cases "unat p + k \<le> ?N")
    case True
    then have t': "unat t = k" "\<not> 0 < kw - t" using t rest by (auto simp: word_less_nat_alt)
    have "subarr m (unat p) k = Some (circ m (unat p) k)" using True pN m by (simp add: circ_linear)
    moreover have "blit d 0 (circ m (unat p) k) = Some (circ m (unat p) k @ drop k d)"
      using k by (simp add: blit_def)
    ultimately show ?thesis
      by (simp add: lwrb_peek_def Let_def kw_def [symmetric] p_def [symmetric] t_def [symmetric]
          inv m go t' out kw_nat [symmetric])
  next
    case False
    then have t': "unat t = ?N - unat p" using t by simp
    have "?N - unat p < k" using False pN by linarith
    then have pos: "0 < kw - t" using rest t' by (simp add: word_less_nat_alt)
    have src1: "subarr m (unat p) (unat t) = Some (drop (unat p) m)"
      using t' m pN by (simp add: subarr_def)
    have src2: "subarr m 0 (unat (kw - t)) = Some (take (k - (?N - unat p)) m)"
      using t' rest kN m by (simp add: subarr_def)
    have "do { x \<leftarrow> blit d 0 (drop (unat p) m); blit x (?N - unat p) (take (k - (?N - unat p)) m) }
        = Some (circ m (unat p) k @ drop k d)"
      using copy_out_wrap [of "unat p" m k d] False pN m k kN by simp
    then obtain x where x: "blit d 0 (drop (unat p) m) = Some x"
      "blit x (unat t) (take (k - (?N - unat p)) m) = Some (circ m (unat p) k @ drop k d)"
      unfolding t' by (auto split: bind_splits)
    show ?thesis
      by (simp add: lwrb_peek_def Let_def kw_def [symmetric] p_def [symmetric] t_def [symmetric]
          inv m go src1 src2 x pos out kw_nat [symmetric])
  qed
qed

text \<open>The move both \<open>lwrb_skip\<close> and \<open>lwrb_advance\<close> make, in a buffer of at most half the addresses.\<close>

lemma lwrb_move:
  fixes p t sz :: u32
  assumes "unat p < unat sz" "unat t < unat sz" "unat sz \<le> 2147483648"
  shows "unat (if p + t \<ge> sz then p + t - sz else p + t) = (unat p + unat t) mod unat sz"
  using assms by (intro wrap_sub_u32) linarith+

lemma lwrb_skip_law:
  assumes inv: "lwrb_inv b" and half: "unat (lw_size b) \<le> 2147483648"
  shows "\<exists>b'. lwrb_skip b len = (of_nat (min (unat len) (length (lwrb_content b))), b') \<and>
      lwrb_inv b' \<and> lwrb_content b' = drop (unat len) (lwrb_content b) \<and>
      lwrb_cap b' = lwrb_cap b \<and> lw_buff b' = lw_buff b"
proof (cases "len = 0")
  case True
  then show ?thesis using inv by (simp add: lwrb_skip_def)
next
  case False
  obtain m where m: "lw_buff b = Some m" "length m = unat (lw_size b)"
    and rw: "unat (lw_r b) < unat (lw_size b)" "unat (lw_w b) < unat (lw_size b)"
    using inv by (auto elim: lwrb_invE)
  let ?N = "unat (lw_size b)" and ?full = "unat (lwrb_get_full b)"
  define k where "k = min len (lwrb_get_full b)"
  define r' where "r' = (if lw_r b + k \<ge> lw_size b then lw_r b + k - lw_size b else lw_r b + k)"
  define b' where "b' = b\<lparr>lw_r := r'\<rparr>"
  have k: "unat k = min (unat len) ?full" by (simp add: k_def unat_min)
  have full: "?full < ?N" using lwrb_full_le_cap [OF inv] rw by (simp add: lwrb_cap_def)
  have r': "unat r' = (unat (lw_r b) + unat k) mod ?N"
    unfolding r'_def using rw full k half by (intro lwrb_move) auto
  have inv': "lwrb_inv b'"
    using m rw r' by (intro lwrb_inv_intro [where m = m]) (auto simp: b'_def)
  have "(unat r' + (?full - unat k)) mod ?N = (unat (lw_r b) + unat k + (?full - unat k)) mod ?N"
    unfolding r' by (rule mod_add_left_eq)
  then have full': "unat (lwrb_get_full b') = ?full - unat k"
    using inv' full k lwrb_write_pos [OF inv] by (intro lwrb_full_unique) (simp_all add: b'_def)
  have "lwrb_content b' = drop (unat k) (lwrb_content b)"
    using circ_drop [of "unat k" ?full m "unat (lw_r b)"] m r' k
    by (simp add: lwrb_content_def full') (simp add: b'_def)
  also have "\<dots> = drop (unat len) (lwrb_content b)" by (simp add: k min_def)
  finally have "lwrb_content b' = drop (unat len) (lwrb_content b)" .
  moreover have "lwrb_skip b len = (k, BUF_SEND_EVT b' LWRB_EVT_READ k)"
    using False inv by (simp add: lwrb_skip_def Let_def k_def b'_def r'_def)
  moreover have "k = of_nat (min (unat len) ?full)" by (metis k word_of_nat_unat)
  moreover have "lwrb_cap b' = lwrb_cap b" "lw_buff b' = lw_buff b"
    by (simp_all add: b'_def lwrb_cap_def)
  ultimately show ?thesis using inv' by simp
qed

text \<open>\<open>lwrb_advance\<close> takes into the content the bytes already in the array after its end.\<close>

lemma lwrb_advance_law:
  assumes inv: "lwrb_inv b" and half: "unat (lw_size b) \<le> 2147483648"
    and m: "lw_buff b = Some m" and k: "k = min (unat len) (lwrb_cap b - length (lwrb_content b))"
  shows "\<exists>b'. lwrb_advance b len = (of_nat k, b') \<and>
      lwrb_inv b' \<and> lwrb_content b' = lwrb_content b @ circ m (unat (lw_w b)) k \<and>
      lwrb_cap b' = lwrb_cap b \<and> lw_buff b' = lw_buff b"
proof (cases "len = 0")
  case True
  then show ?thesis using inv k by (simp add: lwrb_advance_def)
next
  case False
  have m': "length m = unat (lw_size b)"
    and rw: "unat (lw_r b) < unat (lw_size b)" "unat (lw_w b) < unat (lw_size b)"
    using inv m by (auto elim: lwrb_invE)
  let ?N = "unat (lw_size b)" and ?full = "unat (lwrb_get_full b)"
  define kw where "kw = min len (lwrb_get_free b)"
  define w' where "w' = (if lw_w b + kw \<ge> lw_size b then lw_w b + kw - lw_size b else lw_w b + kw)"
  define b' where "b' = b\<lparr>lw_w := w'\<rparr>"
  have kw: "unat kw = k" by (simp add: kw_def unat_min k unat_lwrb_get_free [OF inv])
  have full: "?full + k < ?N"
    using lwrb_full_le_cap [OF inv] rw k by (simp add: lwrb_cap_def)
  have w': "unat w' = (unat (lw_w b) + k) mod ?N"
    unfolding w'_def kw [symmetric] using rw full kw half by (intro lwrb_move) auto
  have inv': "lwrb_inv b'"
    using m m' rw w' by (intro lwrb_inv_intro [where m = m]) (auto simp: b'_def)
  have full': "unat (lwrb_get_full b') = ?full + k"
    using inv' full w' lwrb_write_pos [OF inv]
    by (intro lwrb_full_unique) (simp_all add: b'_def mod_simps add.assoc)
  have "lwrb_content b' = lwrb_content b @ circ m (unat (lw_w b)) k"
    using circ_append [of m "unat (lw_r b)" ?full k] m m'
    by (simp add: lwrb_content_def full') (simp add: b'_def lwrb_write_pos [OF inv])
  moreover have "lwrb_advance b len = (kw, BUF_SEND_EVT b' LWRB_EVT_WRITE kw)"
    using False inv by (simp add: lwrb_advance_def Let_def kw_def b'_def w'_def)
  moreover have "kw = of_nat k" by (metis kw word_of_nat_unat)
  moreover have "lwrb_cap b' = lwrb_cap b" "lw_buff b' = lw_buff b"
    by (simp_all add: b'_def lwrb_cap_def)
  ultimately show ?thesis using inv' by simp
qed

subsection \<open>Linear blocks\<close>

lemma unat_linear_read_length:
  assumes inv: "lwrb_inv b"
  shows "unat (lwrb_get_linear_block_read_length b) =
    min (unat (lwrb_get_full b)) (unat (lw_size b) - unat (lw_r b))"
proof -
  have "unat (lw_r b) < unat (lw_size b)" "unat (lw_w b) < unat (lw_size b)"
    using inv by (auto elim: lwrb_invE)
  then show ?thesis
    using inv by (auto simp: lwrb_get_linear_block_read_length_def Let_def unat_lwrb_get_full
        word_less_nat_alt unat_sub_le word_le_nat_alt word_unat_eq_iff)
qed

lemma unat_linear_write_length:
  assumes inv: "lwrb_inv b"
  shows "unat (lwrb_get_linear_block_write_length b) =
    min (unat (lwrb_get_free b)) (unat (lw_size b) - unat (lw_w b))"
proof -
  have b: "unat (lw_r b) < unat (lw_size b)" "unat (lw_w b) < unat (lw_size b)"
    using inv by (auto elim: lwrb_invE)
  have 1: "unat (x - 1) = unat x - 1" if "0 < unat x" for x :: u32
    using that by (intro trans [OF unat_sub_le]) (simp_all add: word_le_nat_alt)
  have 2: "unat (lw_size b - lw_w b) = unat (lw_size b) - unat (lw_w b)"
    using b by (simp add: unat_sub_le word_le_nat_alt)
  have 3: "unat (lw_r b - lw_w b) = unat (lw_r b) - unat (lw_w b)" if "lw_w b < lw_r b"
    using that by (simp add: unat_sub_le)
  have free: "unat (lwrb_get_free b) = unat (lw_size b) - 1 - unat (lwrb_get_full b)"
    using inv by (simp add: unat_lwrb_get_free lwrb_cap_def)
  show ?thesis
  proof (cases "lw_r b \<le> lw_w b")
    case True
    then show ?thesis
      using inv b 2 1 [of "lw_size b - lw_w b"]
      by (auto simp: lwrb_get_linear_block_write_length_def Let_def free unat_lwrb_get_full
          word_le_nat_alt unat_0_iff [symmetric])
  next
    case False
    then show ?thesis
      using inv b 3 1 [of "lw_r b - lw_w b"]
      by (auto simp: lwrb_get_linear_block_write_length_def Let_def free unat_lwrb_get_full
          word_le_nat_alt word_less_nat_alt)
  qed
qed

subsection \<open>Searching\<close>

lemma lwrb_match_circ:
  "length m = unat sz \<Longrightarrow> unat r < unat sz \<Longrightarrow> i + n \<le> length needle \<Longrightarrow>
     lwrb_match m sz r needle i n = Some (circ m (unat r) n = take n (drop i needle))"
proof (induction n arbitrary: r i)
  case (Suc n)
  let ?r' = "if r + 1 \<ge> sz then 0 else r + 1"
  have r': "unat ?r' = (unat r + 1) mod unat sz" using wrap_u32 [of r sz 1] Suc.prems by simp
  then have lt: "unat ?r' < unat sz" using Suc.prems by simp
  have "circ m (unat r) (Suc n) = m ! unat r # circ m (unat ?r') n"
    using circ_append [of m "unat r" 1 n] Suc.prems r' by (simp add: circ_def)
  moreover have "take (Suc n) (drop i needle) = needle ! i # take n (drop (Suc i) needle)"
    using Suc.prems by (simp add: Cons_nth_drop_Suc [symmetric])
  moreover have "lwrb_match m sz ?r' needle (Suc i) n =
      Some (circ m (unat ?r') n = take n (drop (Suc i) needle))"
    using Suc.prems lt by (intro Suc.IH) simp_all
  ultimately show ?case using Suc.prems by simp
qed simp

lemma lwrb_find_loop_first:
  assumes inv: "lwrb_inv b" and half: "unat (lw_size b) \<le> 2147483648"
    and m: "lw_buff b = Some m" and L: "0 < unat len" "unat len \<le> length needle"
    and mx: "unat max_x + unat len = unat (lwrb_get_full b)"
  shows "unat x \<le> unat max_x + 1 \<Longrightarrow> unat max_x + 2 \<le> fuel + unat x \<Longrightarrow>
    lwrb_find_loop fuel b needle len max_x x =
      Some (case List.find (\<lambda>i. take (unat len) (drop i (lwrb_content b)) = take (unat len) needle)
                  [unat x..<unat max_x + 1] of
              None \<Rightarrow> (0, 0)
            | Some i \<Rightarrow> (1, of_nat i))"
proof (induction fuel arbitrary: x)
  case (Suc fuel)
  let ?N = "unat (lw_size b)"
  have m': "length m = ?N" and r: "unat (lw_r b) < ?N" using inv m by (auto elim: lwrb_invE)
  have full: "unat (lwrb_get_full b) < ?N" using lwrb_full_le_cap [OF inv] r by (simp add: lwrb_cap_def)
  show ?case
  proof (cases "x > max_x")
    case True
    then show ?thesis by (simp add: word_less_nat_alt)
  next
    case False
    then have x: "unat x \<le> unat max_x" by (simp add: word_less_nat_alt)
    define p where "p = (if lw_r b + x \<ge> lw_size b then lw_r b + x - lw_size b else lw_r b + x)"
    have p: "unat p = (unat (lw_r b) + unat x) mod ?N"
      unfolding p_def using r full half mx x by (intro lwrb_move) auto
    then have pN: "unat p < ?N" using r by simp
    have "take (unat len) (drop (unat x) (lwrb_content b)) = circ m (unat p) (unat len)"
      using m m' p x mx by (simp add: lwrb_content_def circ_drop circ_take)
    then have match: "lwrb_match m (lw_size b) p needle 0 (unat len) =
        Some (take (unat len) (drop (unat x) (lwrb_content b)) = take (unat len) needle)"
      using lwrb_match_circ [OF m' pN, of 0 "unat len" needle] L by simp
    have x1: "unat (x + 1) = unat x + 1"
      using x mx full half by (intro trans [OF unat_add_lt]) auto
    have up: "[unat x..<unat max_x + 1] = unat x # [unat (x + 1)..<unat max_x + 1]"
      using x x1 by (simp add: upt_rec)
    have IH: "lwrb_find_loop fuel b needle len max_x (x + 1) =
      Some (case List.find (\<lambda>i. take (unat len) (drop i (lwrb_content b)) = take (unat len) needle)
                  [unat (x + 1)..<unat max_x + 1] of
              None \<Rightarrow> (0, 0)
            | Some i \<Rightarrow> (1, of_nat i))"
      using Suc.prems x x1 by (intro Suc.IH) simp_all
    show ?thesis
      unfolding up lwrb_find_loop.simps
      using False IH by (simp add: Let_def p_def [symmetric] m match word_of_nat_unat)
  qed
qed simp

text \<open>\<open>lwrb_find\<close> returns the first offset at or after \<open>start\<close> at which the needle occurs in the
  content, and reports failure exactly when there is none; the search always returns.\<close>

theorem lwrb_find_first:
  assumes inv: "lwrb_inv b" and half: "unat (lw_size b) \<le> 2147483648"
    and len: "0 < unat len" "unat len \<le> length needle"
    and fits: "unat len + unat start \<le> length (lwrb_content b)"
  shows "lwrb_find b (Some needle) len start (Some z) =
    Some (case List.find (\<lambda>i. take (unat len) (drop i (lwrb_content b)) = take (unat len) needle)
                [unat start..<length (lwrb_content b) - unat len + 1] of
            None \<Rightarrow> (0, Some 0)
          | Some i \<Rightarrow> (1, Some (of_nat i)))"
proof -
  obtain m where m: "lw_buff b = Some m" using inv by (auto elim: lwrb_invE)
  let ?full = "unat (lwrb_get_full b)"
  have full: "?full < 4294967296" by simp
  have sum: "unat (len + start) = unat len + unat start"
    using fits full by (intro unat_add_lt) (simp del: u32_bound)
  have mx: "unat (lwrb_get_full b - len) = ?full - unat len"
    using fits by (simp add: unat_sub_le word_le_nat_alt)
  have ms: "unat (lwrb_get_full b - len - start) = ?full - unat len - unat start"
    using fits mx by (intro trans [OF unat_sub_le]) (simp_all add: word_le_nat_alt)
  have "lwrb_find_loop (?full - unat len - unat start + 2) b needle len (lwrb_get_full b - len) start =
      Some (case List.find (\<lambda>i. take (unat len) (drop i (lwrb_content b)) = take (unat len) needle)
                  [unat start..<?full - unat len + 1] of
              None \<Rightarrow> (0, 0) | Some i \<Rightarrow> (1, of_nat i))"
    using fits by (intro trans [OF lwrb_find_loop_first [OF inv half m len]])
      (simp_all add: mx del: upt_Suc)
  moreover have "\<not> lwrb_get_full b < len + start" using sum fits by (simp add: word_less_nat_alt)
  moreover have "len \<noteq> 0" using len by auto
  ultimately show ?thesis
    using inv by (simp add: lwrb_find_def Let_def ms del: upt_Suc lwrb_find_loop.simps split: option.split)
qed

subsection \<open>Properties\<close>

text \<open>A buffer of four bytes, the byte 7 written and read, then 1, 2, 3 written round the end.\<close>

definition lwrb_blank :: lwrb where
  "lwrb_blank = \<lparr>lw_buff = None, lw_size = 0, lw_r = 0, lw_w = 0, lw_evt_fn = False, lw_arg = 0,
     lw_evts = []\<rparr>"

definition lwrb_sample :: lwrb where
  "lwrb_sample = lwrb_blank\<lparr>lw_buff := Some [3, 0, 1, 2], lw_size := 4, lw_r := 2, lw_w := 1\<rparr>"

lemma lwrb_sample_inv: "lwrb_inv lwrb_sample" "lwrb_content lwrb_sample = [1, 2, 3]"
  "lw_size lwrb_sample = 4" "lw_buff lwrb_sample = Some [3, 0, 1, 2]" "lw_w lwrb_sample = 1"
  by code_simp+

lemma lwrb_init_inv:
  assumes "0 < length m" "length m < 4294967296"
  shows "lwrb_inv (snd (lwrb_init b (Some m) (of_nat (length m))))"
    "lwrb_content (snd (lwrb_init b (Some m) (of_nat (length m)))) = []"
    "lwrb_cap (snd (lwrb_init b (Some m) (of_nat (length m)))) = length m - 1"
proof -
  have "unat (of_nat (length m) :: u32) = length m" using assms by (intro unat_of_nat_lt) simp
  moreover from this have "(of_nat (length m) :: u32) \<noteq> 0" using assms(1) by (metis unat_0 less_irrefl)
  ultimately show "lwrb_inv (snd (lwrb_init b (Some m) (of_nat (length m))))"
    "lwrb_content (snd (lwrb_init b (Some m) (of_nat (length m)))) = []"
    "lwrb_cap (snd (lwrb_init b (Some m) (of_nat (length m)))) = length m - 1"
    using assms
    by (simp_all add: lwrb_init_def lwrb_inv_def lwrb_content_def lwrb_cap_def lwrb_get_full_def)
qed

text \<open>C28: From \<open>lwrb_init\<close> on, any sequence of block writes and reads runs without leaving the array, and
  what the reads delivered followed by what is still in the buffer is what the writes accepted: no
  byte is lost, invented, duplicated or reordered.\<close>

theorem lwrb_fifo:
  assumes "0 < length m" "length m < 4294967296" "\<forall>x\<in>set ops. op_size x \<le> 4294967295"
  shows "\<exists>ins outs b'.
    fifo_run lwrb_put lwrb_get ops (snd (lwrb_init b (Some m) (of_nat (length m)))) = Some (ins, outs, b') \<and>
    ins = outs @ lwrb_content b' \<and> length (lwrb_content b') \<le> length m - 1"
proof -
  let ?b = "snd (lwrb_init b (Some m) (of_nat (length m)))"
  obtain ins outs b' where run: "fifo_run lwrb_put lwrb_get ops ?b = Some (ins, outs, b')" "lwrb_inv b'"
    "lwrb_cap b' = lwrb_cap ?b" "lwrb_content ?b @ ins = outs @ lwrb_content b'"
    using lw.fifo_run_order [OF lwrb_init_inv(1) [OF assms(1,2)]] assms(3) by blast
  then show ?thesis using lw.bounded [OF run(2)] lwrb_init_inv(2,3) [OF assms(1,2)] by simp
qed

theorem lwrb_fifo_witness:
  "\<exists>ins outs b'.
    fifo_run lwrb_put lwrb_get [Put [1, 2], Get 1, Put [3, 4, 5], Get 9]
      (snd (lwrb_init lwrb_blank (Some [0, 0, 0, 0]) (of_nat (length [0 :: u8, 0, 0, 0])))) = Some (ins, outs, b') \<and>
    ins = outs @ lwrb_content b' \<and> length (lwrb_content b') \<le> length [0 :: u8, 0, 0, 0] - 1"
  by (rule lwrb_fifo) simp_all

text \<open>With \<open>LWRB_FLAG_WRITE_ALL\<close> a write is all or nothing: a block that fits is appended whole and
  reported written, a block that does not leaves the buffer as it was and returns 0.\<close>

theorem lwrb_write_all_or_nothing:
  assumes inv: "lwrb_inv b" and d: "unat btw \<le> length d" "btw \<noteq> 0"
  shows "if length (lwrb_content b) + unat btw \<le> lwrb_cap b
         then \<exists>b'. lwrb_write_ex b (Some d) btw (Some z) LWRB_FLAG_WRITE_ALL = Some (1, Some btw, b') \<and>
                lwrb_inv b' \<and> lwrb_content b' = lwrb_content b @ take (unat btw) d
         else lwrb_write_ex b (Some d) btw (Some z) LWRB_FLAG_WRITE_ALL = Some (0, Some z, b)"
proof (cases "length (lwrb_content b) + unat btw \<le> lwrb_cap b")
  case True
  have k: "unat btw = min (unat btw) (unat (lwrb_get_free b))"
    using True unat_lwrb_get_free [OF inv] by simp
  have pos: "0 < unat btw" using d(2) by (simp add: unat_gt_0)
  obtain m where m: "lw_buff b = Some m" using inv by (auto elim: lwrb_invE)
  have all: "unat btw \<le> unat (lwrb_get_free b)" using k by simp
  obtain w1 where w1: "lwrb_write_ex b (Some d) btw (Some z) LWRB_FLAG_WRITE_ALL =
      Some (1, Some btw, BUF_SEND_EVT
        (b\<lparr>lw_buff := Some (circ_put m (unat (lw_w b)) (take (unat btw) d)), lw_w := w1\<rparr>) LWRB_EVT_WRITE btw)"
    "unat w1 = (unat (lw_w b) + unat btw) mod unat (lw_size b)"
    using lwrb_write_ex_accept [OF inv m d(1) k pos, of LWRB_FLAG_WRITE_ALL "Some z"] all
    by (auto simp: word_of_nat_unat)
  obtain w2 where w2: "lwrb_write_ex b (Some d) btw (Some 0) 0 =
      Some (1, Some btw, BUF_SEND_EVT
        (b\<lparr>lw_buff := Some (circ_put m (unat (lw_w b)) (take (unat btw) d)), lw_w := w2\<rparr>) LWRB_EVT_WRITE btw)"
    "unat w2 = (unat (lw_w b) + unat btw) mod unat (lw_size b)"
    using lwrb_write_ex_accept [OF inv m d(1) k pos, of 0 "Some 0"] by (auto simp: word_of_nat_unat)
  have "w1 = w2" using w1(2) w2(2) by (simp add: word_unat_eq_iff)
  then obtain b' where b': "lwrb_write b (Some d) btw = Some (btw, b')"
    "lwrb_write_ex b (Some d) btw (Some z) LWRB_FLAG_WRITE_ALL = Some (1, Some btw, b')"
    using w1 w2 by (simp add: lwrb_write_def)
  obtain b2 where "lwrb_write b (Some d) btw =
      Some (of_nat (min (unat btw) (lwrb_cap b - length (lwrb_content b))), b2)" "lwrb_inv b2"
    "lwrb_content b2 = lwrb_content b @ take (lwrb_cap b - length (lwrb_content b)) (take (unat btw) d)"
    using lwrb_write_law [OF inv d(1)] by blast
  moreover have "take (lwrb_cap b - length (lwrb_content b)) (take (unat btw) d) = take (unat btw) d"
    using True by (simp add: min_absorb2)
  ultimately have "b2 = b'" "lwrb_inv b'" "lwrb_content b' = lwrb_content b @ take (unat btw) d"
    using b'(1) by auto
  then show ?thesis using b'(2) True by auto
next
  case False
  then have "lwrb_get_free b < btw"
    using unat_lwrb_get_free [OF inv] lwrb_full_le_cap [OF inv] by (simp add: word_less_nat_alt)
  then have "lwrb_write_ex b (Some d) btw (Some z) LWRB_FLAG_WRITE_ALL = Some (0, Some z, b)"
    by (intro lwrb_write_ex_reject) (simp add: LWRB_FLAG_WRITE_ALL_def)
  then show ?thesis using False by simp
qed

theorem lwrb_write_all_or_nothing_witness:
  "if length (lwrb_content lwrb_sample) + unat (1 :: u32) \<le> lwrb_cap lwrb_sample
   then \<exists>b'. lwrb_write_ex lwrb_sample (Some [9]) 1 (Some 5) LWRB_FLAG_WRITE_ALL = Some (1, Some 1, b') \<and>
          lwrb_inv b' \<and> lwrb_content b' = lwrb_content lwrb_sample @ take (unat (1 :: u32)) [9]
   else lwrb_write_ex lwrb_sample (Some [9]) 1 (Some 5) LWRB_FLAG_WRITE_ALL = Some (0, Some 5, lwrb_sample)"
  by (rule lwrb_write_all_or_nothing) (simp_all add: lwrb_sample_inv)

theorem lwrb_peek_offset_witness:
  "lwrb_peek lwrb_sample 1 (Some [9, 9, 9]) 2 = Some (2, Some [2, 3, 9])"
proof -
  have "lwrb_peek lwrb_sample 1 (Some [9, 9, 9]) 2 =
      Some (of_nat 2, Some (take 2 (drop (unat (1 :: u32)) (lwrb_content lwrb_sample)) @ drop 2 [9, 9, 9]))"
    by (rule lwrb_peek_offset) (simp_all add: lwrb_sample_inv del: length_lwrb_content)
  then show ?thesis by (simp add: lwrb_sample_inv)
qed

theorem lwrb_find_first_witness:
  "lwrb_find lwrb_sample (Some [2, 3]) 2 0 (Some 9) = Some (1, Some 1)"
  using lwrb_find_first [of lwrb_sample 2 "[2, 3]" 0 9] by (simp add: lwrb_sample_inv upt_rec)

text \<open>
  The bound of \<open>lwrb_find\<close> adds \<open>len\<close> and \<open>start_offset\<close> in \<open>size_t\<close>. When the sum wraps the early
  return is missed and the loop reads far outside the array.
\<close>

lemma lwrb_find_offset_overflow:
  "lwrb_find (lwrb_sample\<lparr>lw_r := 0, lw_w := 3\<rparr>) (Some [0, 0, 0, 0]) 4 0xFFFFFFFD (Some 0) = None"
proof -
  have "lwrb_match [3, 0, 1, 2] 4 4294967289 needle 0 4 = None" for needle
    using lwrb_match.simps(2) [of "[3, 0, 1, 2]" 4 4294967289 needle 0 3] by (simp add: rd_def)
  then show ?thesis
    by (simp add: lwrb_sample_def lwrb_blank_def lwrb_find_def lwrb_get_full_def BUF_IS_VALID_def Let_def)
qed

text \<open>A block placed straight into the array at \<open>lwrb_get_linear_block_write_address\<close>, of at most
  \<open>lwrb_get_linear_block_write_length\<close> bytes (a DMA transfer), and announced with \<open>lwrb_advance\<close> is
  appended to the content like a written one.\<close>

theorem lwrb_dma_write:
  assumes inv: "lwrb_inv b" and half: "unat (lw_size b) \<le> 2147483648"
    and a: "lwrb_get_linear_block_write_address b = Some a"
    and xs: "length xs \<le> unat (lwrb_get_linear_block_write_length b)"
  shows "\<exists>m' b'. blit (the (lw_buff b)) (unat a) xs = Some m' \<and>
    lwrb_advance (b\<lparr>lw_buff := Some m'\<rparr>) (of_nat (length xs)) = (of_nat (length xs), b') \<and>
    lwrb_inv b' \<and> lwrb_content b' = lwrb_content b @ xs"
proof -
  obtain m where m: "lw_buff b = Some m" "length m = unat (lw_size b)"
    and rw: "unat (lw_r b) < unat (lw_size b)" "unat (lw_w b) < unat (lw_size b)"
    using inv by (auto elim: lwrb_invE)
  have aw: "a = lw_w b" using a by (simp add: lwrb_get_linear_block_write_address_def split: if_splits)
  have free: "length xs \<le> unat (lwrb_get_free b)"
    and lin: "unat (lw_w b) + length xs \<le> unat (lw_size b)"
    using xs rw unat_linear_write_length [OF inv] by auto
  define b1 where "b1 = b\<lparr>lw_buff := Some (circ_put m (unat a) xs)\<rparr>"
  have blit: "blit m (unat a) xs = Some (circ_put m (unat a) xs)"
    using rw lin m aw by (intro blit_linear) auto
  have full: "lwrb_get_full b1 = lwrb_get_full b" "lwrb_cap b1 = lwrb_cap b"
    using inv m by (simp_all add: b1_def lwrb_get_full_def BUF_IS_VALID_def lwrb_cap_def Let_def)
  have inv1: "lwrb_inv b1"
    using m rw by (intro lwrb_inv_intro [where m = "circ_put m (unat a) xs"]) (auto simp: b1_def)
  have fits: "unat (lwrb_get_full b) + length xs < unat (lw_size b)"
    using free unat_lwrb_get_free [OF inv] lwrb_full_le_cap [OF inv] rw by (simp add: lwrb_cap_def)
  have c: "lwrb_content b1 @ circ (circ_put m (unat a) xs) (unat (lw_w b)) (length xs) =
      lwrb_content b @ xs"
    using circ_circ_put_append [of "unat (lw_r b)" m "unat (lwrb_get_full b)" xs] rw m fits aw
      circ_append [of "circ_put m (unat a) xs" "unat (lw_r b)" "unat (lwrb_get_full b)" "length xs"]
    by (simp add: lwrb_content_def full lwrb_write_pos [OF inv, symmetric]) (simp add: b1_def)
  have n: "unat (of_nat (length xs) :: u32) = length xs"
    using lin u32_bound [of "lw_size b"] by (intro unat_of_nat_lt) (simp del: u32_bound)
  have k: "length xs = min (unat (of_nat (length xs) :: u32)) (lwrb_cap b1 - length (lwrb_content b1))"
    using free unat_lwrb_get_free [OF inv] by (simp add: n full)
  have half1: "unat (lw_size b1) \<le> 2147483648" and m1: "lw_buff b1 = Some (circ_put m (unat a) xs)"
    using half by (simp_all add: b1_def)
  obtain b' where "lwrb_advance b1 (of_nat (length xs)) = (of_nat (length xs), b')" "lwrb_inv b'"
    "lwrb_content b' = lwrb_content b1 @ circ (circ_put m (unat a) xs) (unat (lw_w b1)) (length xs)"
    using lwrb_advance_law [OF inv1 half1 m1 k] by blast
  then show ?thesis using blit m c by (simp add: b1_def)
qed

theorem lwrb_dma_write_witness:
  "\<exists>m' b'. blit (the (lw_buff (snd (lwrb_skip lwrb_sample 2)))) 1 [8] = Some m' \<and>
    lwrb_advance ((snd (lwrb_skip lwrb_sample 2))\<lparr>lw_buff := Some m'\<rparr>) 1 = (1, b') \<and>
    lwrb_inv b' \<and> lwrb_content b' = [3, 8]"
proof -
  let ?b = "snd (lwrb_skip lwrb_sample 2)"
  have b: "?b = lwrb_blank\<lparr>lw_buff := Some [3, 0, 1, 2], lw_size := 4, lw_r := 0, lw_w := 1\<rparr>"
    by (simp add: lwrb_sample_def lwrb_blank_def lwrb_skip_def lwrb_get_full_def BUF_IS_VALID_def
        BUF_SEND_EVT_def)
  have "lwrb_inv ?b" "lwrb_content ?b = [3]" "unat (lwrb_get_linear_block_write_length ?b) = 2"
    "lwrb_get_linear_block_write_address ?b = Some 1" "lw_size ?b = 4"
    by (simp_all add: b lwrb_blank_def lwrb_inv_def lwrb_content_def lwrb_get_full_def BUF_IS_VALID_def
        circ_def lwrb_get_linear_block_write_length_def lwrb_get_linear_block_write_address_def)
  then show ?thesis using lwrb_dma_write [of ?b 1 "[8]"] by simp
qed

text \<open>The bytes at \<open>lwrb_get_linear_block_read_address\<close>, \<open>lwrb_get_linear_block_read_length\<close> of them, lie
  in the array and are the oldest of the content, at least one if there is any; skipping them
  removes exactly them.\<close>

theorem lwrb_dma_read:
  assumes inv: "lwrb_inv b" and half: "unat (lw_size b) \<le> 2147483648"
    and a: "lwrb_get_linear_block_read_address b = Some a"
    and n: "n = lwrb_get_linear_block_read_length b"
  shows "\<exists>b'. subarr (the (lw_buff b)) (unat a) (unat n) = Some (take (unat n) (lwrb_content b)) \<and>
    (lwrb_content b \<noteq> [] \<longrightarrow> 0 < unat n) \<and>
    lwrb_skip b n = (n, b') \<and> lwrb_inv b' \<and> lwrb_content b' = drop (unat n) (lwrb_content b)"
proof -
  obtain m where m: "lw_buff b = Some m" "length m = unat (lw_size b)"
    and r: "unat (lw_r b) < unat (lw_size b)" using inv by (auto elim: lwrb_invE)
  have ar: "a = lw_r b" using a by (simp add: lwrb_get_linear_block_read_address_def split: if_splits)
  have len: "unat n = min (unat (lwrb_get_full b)) (unat (lw_size b) - unat (lw_r b))"
    unfolding n by (rule unat_linear_read_length [OF inv])
  have "subarr m (unat a) (unat n) = Some (circ m (unat a) (unat n))"
    using len r m ar by (simp add: circ_linear)
  moreover have "circ m (unat a) (unat n) = take (unat n) (lwrb_content b)"
    using len m ar by (simp add: lwrb_content_def circ_take)
  moreover have "lwrb_content b \<noteq> [] \<longrightarrow> 0 < unat (lwrb_get_full b)"
    by (metis length_greater_0_conv length_lwrb_content)
  then have "lwrb_content b \<noteq> [] \<longrightarrow> 0 < unat n" using len r by simp
  moreover have "min (unat n) (length (lwrb_content b)) = unat n" using len by simp
  then have "of_nat (min (unat n) (length (lwrb_content b))) = n" by (metis word_of_nat_unat)
  moreover obtain b' where "lwrb_skip b n = (of_nat (min (unat n) (length (lwrb_content b))), b')"
    "lwrb_inv b'" "lwrb_content b' = drop (unat n) (lwrb_content b)"
    using lwrb_skip_law [OF inv half] by blast
  ultimately show ?thesis using m by simp
qed

theorem lwrb_dma_read_witness:
  "\<exists>b'. subarr (the (lw_buff lwrb_sample)) (unat (2 :: u32)) (unat (2 :: u32)) =
      Some (take (unat (2 :: u32)) (lwrb_content lwrb_sample)) \<and>
    (lwrb_content lwrb_sample \<noteq> [] \<longrightarrow> 0 < unat (2 :: u32)) \<and>
    lwrb_skip lwrb_sample 2 = (2, b') \<and> lwrb_inv b' \<and>
    lwrb_content b' = drop (unat (2 :: u32)) (lwrb_content lwrb_sample)"
proof (rule lwrb_dma_read)
  show "lwrb_get_linear_block_read_address lwrb_sample = Some 2" by code_simp
  show "2 = lwrb_get_linear_block_read_length lwrb_sample" by code_simp
qed (simp_all add: lwrb_sample_inv)

end
