(* ===== verification/Lwutil.thy ===== *)
theory Lwutil
  imports Prelude
begin

text \<open>
  The LwUTIL helpers (\<open>common/LwUtil/lwutil.c\<close> and the inline functions and macros of
  \<open>lwutil.h\<close>): little- and big-endian loads and stores, hexadecimal digits, and the variable length
  integers whose seventh-bit groups carry a continuation flag. Memory is a list of bytes, a null
  pointer is \<open>None\<close> of the argument; the result \<open>None\<close> is an access outside the array, or a shift by 32
  or more, which C leaves undefined.
\<close>

subsection \<open>Bit macros\<close>

definition lwutil_bits_is_set_all :: "u32 \<Rightarrow> u32 \<Rightarrow> bool" where
  "lwutil_bits_is_set_all val bit_mask \<longleftrightarrow> val AND bit_mask = bit_mask"

definition lwutil_bits_is_set_any :: "u32 \<Rightarrow> u32 \<Rightarrow> bool" where
  "lwutil_bits_is_set_any val bit_mask \<longleftrightarrow> val AND bit_mask \<noteq> 0"

definition lwutil_bits_set :: "u32 \<Rightarrow> u32 \<Rightarrow> u32" where
  "lwutil_bits_set val bit_mask = val OR bit_mask"

definition lwutil_bits_clear :: "u32 \<Rightarrow> u32 \<Rightarrow> u32" where
  "lwutil_bits_clear val bit_mask = val AND NOT bit_mask"

definition lwutil_bits_toggle :: "u32 \<Rightarrow> u32 \<Rightarrow> u32" where
  "lwutil_bits_toggle val bit_mask = val XOR bit_mask"

subsection \<open>Byte order\<close>

text \<open>Byte \<open>(uint8_t)((val >> n) & 0xFF)\<close> of a word.\<close>

definition byte_at :: "'a::len word \<Rightarrow> nat \<Rightarrow> u8" where
  "byte_at val n = ucast (drop_bit n val AND 0xFF)"

definition lwutil_st_u16_le :: "u16 \<Rightarrow> u8 list \<Rightarrow> u8 list option" where
  "lwutil_st_u16_le val p =
     do { p \<leftarrow> wr p 0 (byte_at val 0);
          wr p 1 (byte_at val 8) }"

definition lwutil_st_u32_le :: "u32 \<Rightarrow> u8 list \<Rightarrow> u8 list option" where
  "lwutil_st_u32_le val p =
     do { p \<leftarrow> wr p 0 (byte_at val 0);
          p \<leftarrow> wr p 1 (byte_at val 8);
          p \<leftarrow> wr p 2 (byte_at val 16);
          wr p 3 (byte_at val 24) }"

definition lwutil_ld_u16_le :: "u8 list \<Rightarrow> u16 option" where
  "lwutil_ld_u16_le p =
     do { b1 \<leftarrow> rd p 1;
          b0 \<leftarrow> rd p 0;
          Some (push_bit 8 (ucast b1) OR ucast b0) }"

definition lwutil_ld_u32_le :: "u8 list \<Rightarrow> u32 option" where
  "lwutil_ld_u32_le p =
     do { b3 \<leftarrow> rd p 3;
          b2 \<leftarrow> rd p 2;
          b1 \<leftarrow> rd p 1;
          b0 \<leftarrow> rd p 0;
          Some (push_bit 24 (ucast b3) OR push_bit 16 (ucast b2) OR push_bit 8 (ucast b1) OR ucast b0) }"

definition lwutil_st_u16_be :: "u16 \<Rightarrow> u8 list \<Rightarrow> u8 list option" where
  "lwutil_st_u16_be val p =
     do { p \<leftarrow> wr p 0 (byte_at val 8);
          wr p 1 (byte_at val 0) }"

definition lwutil_st_u32_be :: "u32 \<Rightarrow> u8 list \<Rightarrow> u8 list option" where
  "lwutil_st_u32_be val p =
     do { p \<leftarrow> wr p 0 (byte_at val 24);
          p \<leftarrow> wr p 1 (byte_at val 16);
          p \<leftarrow> wr p 2 (byte_at val 8);
          wr p 3 (byte_at val 0) }"

definition lwutil_ld_u16_be :: "u8 list \<Rightarrow> u16 option" where
  "lwutil_ld_u16_be p =
     do { b0 \<leftarrow> rd p 0;
          b1 \<leftarrow> rd p 1;
          Some (push_bit 8 (ucast b0) OR ucast b1) }"

definition lwutil_ld_u32_be :: "u8 list \<Rightarrow> u32 option" where
  "lwutil_ld_u32_be p =
     do { b0 \<leftarrow> rd p 0;
          b1 \<leftarrow> rd p 1;
          b2 \<leftarrow> rd p 2;
          b3 \<leftarrow> rd p 3;
          Some (push_bit 24 (ucast b0) OR push_bit 16 (ucast b1) OR push_bit 8 (ucast b2) OR ucast b3) }"

subsection \<open>Hexadecimal digits\<close>

text \<open>
  The loop of the three conversions: \<open>n\<close> digits in all, the last \<open>idx\<close> of them still to write.
\<close>

definition hex_digit :: "u8 \<Rightarrow> u8" where
  "hex_digit aux = (if aux \<le> 9 then aux + 0x30 else aux + 0x57)"

fun hex_loop :: "u32 \<Rightarrow> nat \<Rightarrow> nat \<Rightarrow> u8 list \<Rightarrow> u8 list option" where
  "hex_loop hex n 0 ascii = Some ascii"
| "hex_loop hex n (Suc idx) ascii =
     do { let aux = ucast (drop_bit (4 * idx) hex) AND 0x0F;
          ascii \<leftarrow> wr ascii (n - Suc idx) (hex_digit aux);
          hex_loop hex n idx ascii }"

definition lwutil_u8_to_2asciis :: "u8 \<Rightarrow> u8 list \<Rightarrow> u8 list option" where
  "lwutil_u8_to_2asciis hex ascii =
     do { ascii \<leftarrow> hex_loop (ucast hex) 2 2 ascii; wr ascii 2 0 }"

definition lwutil_u16_to_4asciis :: "u16 \<Rightarrow> u8 list \<Rightarrow> u8 list option" where
  "lwutil_u16_to_4asciis hex ascii =
     do { ascii \<leftarrow> hex_loop (ucast hex) 4 4 ascii; wr ascii 4 0 }"

definition lwutil_u32_to_8asciis :: "u32 \<Rightarrow> u8 list \<Rightarrow> u8 list option" where
  "lwutil_u32_to_8asciis hex ascii =
     do { ascii \<leftarrow> hex_loop hex 8 8 ascii; wr ascii 8 0 }"

subsection \<open>Variable length integers\<close>

text \<open>
  The \<open>do\<close> loops, by recursion on what is left of \<open>ptr_len\<close>; they are entered with \<open>ptr_len > 0\<close>. The
  load returns the value, the count and the last byte; the store the array, what is left of the
  value and the count.
\<close>

fun ld_varint_loop :: "u8 list \<Rightarrow> nat \<Rightarrow> nat \<Rightarrow> u32 \<Rightarrow> (u32 \<times> nat \<times> u8) option" where
  "ld_varint_loop p 0 cnt val = None"
| "ld_varint_loop p (Suc ptr_len) cnt val =
     do { byt \<leftarrow> rd p cnt;
          rt_assert (cnt * 7 < 32);
          let val = val OR push_bit (cnt * 7) (ucast (byt AND 0x7F));
          if ptr_len > 0 \<and> byt AND 0x80 > 0 then ld_varint_loop p ptr_len (cnt + 1) val
          else Some (val, cnt + 1, byt) }"

definition lwutil_ld_u32_varint ::
  "u8 list option \<Rightarrow> u32 \<Rightarrow> u32 option \<Rightarrow> (u8 \<times> u32 option) option" where
  "lwutil_ld_u32_varint ptr ptr_len val_out =
     (if ptr = None \<or> ptr_len = 0 \<or> val_out = None then Some (0, val_out)
      else do { (val, cnt, byt) \<leftarrow> ld_varint_loop (the ptr) (unat ptr_len) 0 0;
                if byt AND 0x80 > 0 then Some (0, Some 0) else Some (of_nat cnt, Some val) })"

fun st_varint_loop :: "u32 \<Rightarrow> u8 list \<Rightarrow> nat \<Rightarrow> nat \<Rightarrow> (u8 list \<times> u32 \<times> nat) option" where
  "st_varint_loop val p 0 cnt = None"
| "st_varint_loop val p (Suc ptr_len) cnt =
     do { p \<leftarrow> wr p cnt (ucast ((val AND 0x7F) OR (if val > 0x7F then 0x80 else 0)));
          let val = drop_bit 7 val;
          if ptr_len > 0 \<and> val > 0 then st_varint_loop val p ptr_len (cnt + 1)
          else Some (p, val, cnt + 1) }"

definition lwutil_st_u32_varint :: "u32 \<Rightarrow> u8 list option \<Rightarrow> u32 \<Rightarrow> (u8 \<times> u8 list option) option" where
  "lwutil_st_u32_varint val ptr ptr_len =
     (if ptr = None \<or> ptr_len = 0 then Some (0, ptr)
      else do { (p, val, cnt) \<leftarrow> st_varint_loop val (the ptr) (unat ptr_len) 0;
                Some (if val > 0 then 0 else of_nat cnt, Some p) })"

subsection \<open>Byte order round trips\<close>

lemma byte_FF: "(0xFF :: 'a::len word) = mask 8"
  by (simp add: mask_eq_exp_minus_1)

lemma bit_byte_at: "bit (byte_at val n) i \<longleftrightarrow> i < 8 \<and> bit val (n + i)"
  by (auto simp: byte_at_def byte_FF bit_simps dest: bit_imp_le_length)

lemma bytes_u16: "push_bit 8 (ucast (byte_at val 8)) OR ucast (byte_at val 0) = (val :: u16)"
  by (rule bit_eqI) (auto simp: bit_simps bit_byte_at dest: bit_imp_le_length)

lemma bytes_u32:
  "push_bit 24 (ucast (byte_at val 24)) OR push_bit 16 (ucast (byte_at val 16)) OR
   push_bit 8 (ucast (byte_at val 8)) OR ucast (byte_at val 0) = (val :: u32)"
proof (rule bit_word_eqI)
  fix n assume "n < LENGTH(32)"
  consider "n < 8" | "8 \<le> n" "n < 16" | "16 \<le> n" "n < 24" | "24 \<le> n" by linarith
  then show "bit (push_bit 24 (ucast (byte_at val 24)) OR push_bit 16 (ucast (byte_at val 16)) OR
      push_bit 8 (ucast (byte_at val 8)) OR (ucast (byte_at val 0) :: u32)) n = bit val n"
    by cases (use \<open>n < LENGTH(32)\<close> in \<open>auto simp: bit_simps bit_byte_at\<close>)
qed

lemma bytes_u32_be:
  "push_bit 24 (ucast (byte_at val 24)) OR (push_bit 16 (ucast (byte_at val 16)) OR
   (push_bit 8 (ucast (byte_at val 8)) OR ucast (byte_at val 0))) = (val :: u32)"
  using bytes_u32 [of val] by (simp add: or.assoc)

text \<open>A stored 16- or 32-bit value is read back unchanged, in either byte order, from any array that
  has room for it; nothing else in the array changes.\<close>

theorem lwutil_byte_order_roundtrip:
  assumes "4 \<le> length p"
  shows "(\<exists>q. lwutil_st_u16_le v p = Some q \<and> lwutil_ld_u16_le q = Some v \<and> drop 2 q = drop 2 p) \<and>
    (\<exists>q. lwutil_st_u16_be v p = Some q \<and> lwutil_ld_u16_be q = Some v \<and> drop 2 q = drop 2 p) \<and>
    (\<exists>q. lwutil_st_u32_le w p = Some q \<and> lwutil_ld_u32_le q = Some w \<and> drop 4 q = drop 4 p) \<and>
    (\<exists>q. lwutil_st_u32_be w p = Some q \<and> lwutil_ld_u32_be q = Some w \<and> drop 4 q = drop 4 p)"
proof -
  obtain a b c d r where "p = a # b # c # d # r"
    using assms by (auto simp: numeral_eq_Suc Suc_le_length_iff)
  then show ?thesis
    by (simp add: lwutil_st_u16_le_def lwutil_ld_u16_le_def lwutil_st_u16_be_def lwutil_ld_u16_be_def
        lwutil_st_u32_le_def lwutil_ld_u32_le_def lwutil_st_u32_be_def lwutil_ld_u32_be_def
        bytes_u16 bytes_u32 or.assoc bytes_u32_be)
qed

theorem lwutil_byte_order_roundtrip_witness:
  "\<exists>q. lwutil_st_u32_be 0xDEADBEEF [0, 0, 0, 0, 7] = Some q \<and> lwutil_ld_u32_be q = Some 0xDEADBEEF \<and>
     drop 4 q = drop 4 [0, 0, 0, 0, 7]"
  by (rule lwutil_byte_order_roundtrip [THEN conjunct2, THEN conjunct2, THEN conjunct2]) simp

subsection \<open>Hexadecimal digits\<close>

text \<open>The value a reader gives a string of hexadecimal digits.\<close>

definition hex_char :: "u8 \<Rightarrow> bool" where
  "hex_char c \<longleftrightarrow> (0x30 \<le> c \<and> c \<le> 0x39) \<or> (0x61 \<le> c \<and> c \<le> 0x66)"

definition hex_char_value :: "u8 \<Rightarrow> nat" where
  "hex_char_value c = (if c \<le> 0x39 then unat c - 0x30 else unat c - 0x57)"

definition hex_value :: "u8 list \<Rightarrow> nat" where
  "hex_value = foldl (\<lambda>v c. 16 * v + hex_char_value c) 0"

lemma unat_nibble: "unat (ucast (drop_bit k v) AND 0x0F :: u8) = unat (v :: u32) div 2 ^ k mod 16"
proof -
  have m: "(0x0F :: u8) = mask 4" by (simp add: mask_eq_exp_minus_1)
  have "(ucast (drop_bit k v) AND mask 4 :: u8) = ucast (take_bit 4 (drop_bit k v))"
    by (rule bit_eqI) (auto simp: bit_simps dest: bit_imp_le_length)
  moreover have "unat (take_bit 4 (drop_bit k v)) = unat v div 2 ^ k mod 16"
    unfolding unsigned_take_bit_eq unsigned_drop_bit_eq by (simp add: take_bit_eq_mod drop_bit_eq_div)
  moreover have "\<dots> < 256" by (rule less_trans [of _ 16]) simp_all
  ultimately show ?thesis unfolding m by (simp add: unsigned_ucast_eq take_bit_nat_eq_self)
qed

lemma hex_digit_ok: "unat aux < 16 \<Longrightarrow> hex_char (hex_digit aux) \<and> hex_char_value (hex_digit aux) = unat aux"
proof -
  assume a: "unat aux < 16"
  have "unat aux \<in> set [0..<16]" using a by simp
  then have "aux \<in> of_nat ` set [0..<16]" using word_of_nat_unat [of aux] by (metis imageI)
  then show ?thesis
    by (auto simp: upt_rec hex_digit_def hex_char_def hex_char_value_def)
qed

text \<open>The digits the loop writes: from the most significant of the last \<open>n\<close> nibbles down.\<close>

fun hex_digits :: "u32 \<Rightarrow> nat \<Rightarrow> u8 list" where
  "hex_digits v 0 = []"
| "hex_digits v (Suc n) = hex_digit (ucast (drop_bit (4 * n) v) AND 0x0F) # hex_digits v n"

lemma length_hex_digits [simp]: "length (hex_digits v n) = n"
  by (induction n) simp_all

lemma hex_digits_char: "\<forall>c\<in>set (hex_digits v n). hex_char c"
proof (induction n)
  case (Suc n)
  have "unat (ucast (drop_bit (4 * n) v) AND 0x0F :: u8) < 16" by (simp add: unat_nibble)
  with Suc show ?case by (simp add: hex_digit_ok)
qed simp

lemma hex_value_foldl:
  "foldl (\<lambda>v c. 16 * v + hex_char_value c) a xs = a * 16 ^ length xs + hex_value xs"
proof (induction xs arbitrary: a)
  case (Cons x xs)
  have "hex_value (x # xs) = hex_char_value x * 16 ^ length xs + hex_value xs"
    using Cons [of "hex_char_value x"] unfolding hex_value_def by simp
  moreover have "foldl (\<lambda>v c. 16 * v + hex_char_value c) a (x # xs) =
      (16 * a + hex_char_value x) * 16 ^ length xs + hex_value xs"
    using Cons [of "16 * a + hex_char_value x"] by simp
  ultimately show ?case by (simp add: algebra_simps)
qed (simp add: hex_value_def)

lemma hex_value_Cons: "hex_value (c # cs) = hex_char_value c * 16 ^ length cs + hex_value cs"
  using hex_value_foldl [of "hex_char_value c" cs] by (simp add: hex_value_def)

lemma hex_value_digits: "hex_value (hex_digits v n) = unat v mod 16 ^ n"
proof (induction n)
  case (Suc n)
  have "unat (ucast (drop_bit (4 * n) v) AND 0x0F :: u8) = unat v div 16 ^ n mod 16"
    by (simp add: unat_nibble power_mult)
  then have "hex_char_value (hex_digit (ucast (drop_bit (4 * n) v) AND 0x0F)) = unat v div 16 ^ n mod 16"
    by (subst hex_digit_ok [THEN conjunct2]) simp_all
  moreover have "unat v mod 16 ^ Suc n = 16 ^ n * (unat v div 16 ^ n mod 16) + unat v mod 16 ^ n"
    by (simp only: power_Suc2 mod_mult2_eq)
  ultimately show ?case using Suc by (simp add: hex_value_Cons mult.commute)
qed (simp add: hex_value_def)

lemma hex_loop_digits:
  "i \<le> n \<Longrightarrow> n \<le> length a \<Longrightarrow> hex_loop v n i a = Some (take (n - i) a @ hex_digits v i @ drop n a)"
proof (induction i arbitrary: a)
  case (Suc i)
  let ?d = "hex_digit (ucast (drop_bit (4 * i) v) AND 0x0F)"
  have "hex_loop v n (Suc i) a = hex_loop v n i (a[n - Suc i := ?d])"
    using Suc.prems by (simp add: Let_def)
  also have "\<dots> = Some (take (n - i) (a[n - Suc i := ?d]) @ hex_digits v i @ drop n (a[n - Suc i := ?d]))"
    using Suc.prems by (intro Suc.IH) simp_all
  also have "take (n - i) (a[n - Suc i := ?d]) = take (n - Suc i) a @ [?d]"
    using Suc.prems take_Suc_conv_app_nth [of "n - Suc i" "a[n - Suc i := ?d]"]
    by (simp add: Suc_diff_Suc)
  finally show ?case using Suc.prems by simp
qed simp

lemma hex_string:
  assumes "n < length a"
  shows "do { a \<leftarrow> hex_loop v n n a; wr a n 0 } = Some (hex_digits v n @ 0 # drop (Suc n) a)"
  using assms by (simp add: hex_loop_digits list_update_append1 list_update_append Cons_nth_drop_Suc [symmetric])

text \<open>The three conversions write exactly the digits (lower case, most significant first) a reader of
  hexadecimal turns back into the value, and end the string with a zero byte.\<close>

theorem lwutil_hex_value:
  assumes "9 \<le> length a"
  shows "(\<exists>s. lwutil_u8_to_2asciis x a = Some (s @ 0 # drop 3 a) \<and> length s = 2 \<and>
      (\<forall>c\<in>set s. hex_char c) \<and> hex_value s = unat x) \<and>
    (\<exists>s. lwutil_u16_to_4asciis y a = Some (s @ 0 # drop 5 a) \<and> length s = 4 \<and>
      (\<forall>c\<in>set s. hex_char c) \<and> hex_value s = unat y) \<and>
    (\<exists>s. lwutil_u32_to_8asciis z a = Some (s @ 0 # drop 9 a) \<and> length s = 8 \<and>
      (\<forall>c\<in>set s. hex_char c) \<and> hex_value s = unat z)"
proof (intro conjI)
  have "unat (ucast x :: u32) = unat x" "unat (ucast y :: u32) = unat y"
    by (simp_all add: unat_ucast_up)
  then have v: "hex_value (hex_digits (ucast x) 2) = unat x" "hex_value (hex_digits (ucast y) 4) = unat y"
    "hex_value (hex_digits z 8) = unat z"
    by (simp_all add: hex_value_digits del: hex_digits.simps)
  show "\<exists>s. lwutil_u8_to_2asciis x a = Some (s @ 0 # drop 3 a) \<and> length s = 2 \<and>
      (\<forall>c\<in>set s. hex_char c) \<and> hex_value s = unat x"
    using assms hex_string [of 2 a "ucast x"] hex_digits_char [of "ucast x" 2] v
    by (intro exI [of _ "hex_digits (ucast x) 2"]) (simp add: lwutil_u8_to_2asciis_def)
  show "\<exists>s. lwutil_u16_to_4asciis y a = Some (s @ 0 # drop 5 a) \<and> length s = 4 \<and>
      (\<forall>c\<in>set s. hex_char c) \<and> hex_value s = unat y"
    using assms hex_string [of 4 a "ucast y"] hex_digits_char [of "ucast y" 4] v
    by (intro exI [of _ "hex_digits (ucast y) 4"]) (simp add: lwutil_u16_to_4asciis_def)
  show "\<exists>s. lwutil_u32_to_8asciis z a = Some (s @ 0 # drop 9 a) \<and> length s = 8 \<and>
      (\<forall>c\<in>set s. hex_char c) \<and> hex_value s = unat z"
    using assms hex_string [of 8 a z] hex_digits_char [of z 8] v
    by (intro exI [of _ "hex_digits z 8"]) (simp add: lwutil_u32_to_8asciis_def)
qed

theorem lwutil_hex_value_witness:
  "\<exists>s. lwutil_u32_to_8asciis 0xC0FFEE (replicate 9 1) = Some (s @ 0 # drop 9 (replicate 9 1)) \<and>
      length s = 8 \<and> (\<forall>c\<in>set s. hex_char c) \<and> hex_value s = unat (0xC0FFEE :: u32)"
  by (rule lwutil_hex_value [THEN conjunct2, THEN conjunct2]) simp

subsection \<open>Variable length integers\<close>

lemma unat_drop_bit_7: "unat (drop_bit 7 v) = unat (v :: u32) div 128"
  unfolding unat_drop_bit by simp

lemma bit_0x80: "bit (0x80 :: u8) i \<longleftrightarrow> i = 7"
proof -
  have "bit (push_bit 7 (1 :: u8)) i \<longleftrightarrow> i = 7" unfolding bit_push_bit_iff by (auto simp: bit_1_iff)
  then show ?thesis by simp
qed

lemma bit_0x7F: "bit (0x7F :: 'a::len word) i \<longleftrightarrow> i < 7 \<and> i < LENGTH('a)"
proof -
  have "(0x7F :: 'a word) = mask 7" by (simp add: mask_eq_exp_minus_1)
  then show ?thesis by (simp only: bit_mask_iff) auto
qed

lemmas varint_bits = bit_0x80 bit_0x7F bit_simps

text \<open>The encoding: seven bits a byte, least significant first, bit 7 set on all but the last.\<close>

function varint_bytes :: "u32 \<Rightarrow> u8 list" where
  "varint_bytes v =
     (if v > 0x7F then (ucast (v AND 0x7F) OR 0x80) # varint_bytes (drop_bit 7 v) else [ucast v])"
  by auto

termination
  by (relation "measure unat") (auto simp: word_less_nat_alt unat_drop_bit_7 simp del: drop_bit_numeral_bit1)

declare varint_bytes.simps [simp del]

lemma varint_step:
  shows "v > 0x7F \<Longrightarrow> varint_bytes v = (ucast (v AND 0x7F) OR 0x80) # varint_bytes (drop_bit 7 v)"
    and "\<not> v > 0x7F \<Longrightarrow> varint_bytes v = [ucast v]"
  by (subst varint_bytes.simps, simp)+

lemma varint_length: "0 < k \<Longrightarrow> length (varint_bytes v) \<le> k \<longleftrightarrow> unat v < 2 ^ (7 * k)"
proof (induction v arbitrary: k rule: varint_bytes.induct)
  case (1 v)
  have base: "2 ^ (7 * k) = 128 * (2 :: nat) ^ (7 * (k - 1))"
    using "1.prems" power_add [of "2 :: nat" 7 "7 * (k - 1)"] by (cases k) (simp_all add: algebra_simps)
  show ?case
  proof (cases "v > 0x7F")
    case True
    then have big: "127 < unat v" by (simp add: word_less_nat_alt)
    show ?thesis
    proof (cases "k = 1")
      case False
      then have k: "0 < k - 1" using "1.prems" by simp
      have "length (varint_bytes v) \<le> k \<longleftrightarrow> length (varint_bytes (drop_bit 7 v)) \<le> k - 1"
        using True "1.prems" by (auto simp: varint_step)
      also have "\<dots> \<longleftrightarrow> unat v div 128 < 2 ^ (7 * (k - 1))"
        using "1.IH" [OF True k] by (simp add: unat_drop_bit_7)
      also have "\<dots> \<longleftrightarrow> unat v < 2 ^ (7 * k)" unfolding base by (simp add: div_less_iff_less_mult mult.commute)
      finally show ?thesis .
    next
      case eq: True
      have "0 < length (varint_bytes (drop_bit 7 v))"
        by (subst varint_bytes.simps) simp
      then show ?thesis using True big eq by (simp add: varint_step)
    qed
  next
    case False
    then have "unat v < 128" by (simp add: word_less_nat_alt)
    moreover have "(128 :: nat) * 1 \<le> 128 * 2 ^ (7 * (k - 1))" by (intro mult_left_mono) simp_all
    ultimately have "unat v < 128 * 2 ^ (7 * (k - 1))" by linarith
    then show ?thesis unfolding base using varint_step(2) [OF False] "1.prems" by simp
  qed
qed

lemma varint_nonempty: "0 < length (varint_bytes v)"
  by (cases "v > 0x7F") (simp_all add: varint_step)

text \<open>The store writes the encoding when it fits, and is left with a nonzero rest when it does not.\<close>

lemma st_varint_fits:
  "length (varint_bytes v) \<le> n \<Longrightarrow> cnt + n \<le> length p \<Longrightarrow>
     st_varint_loop v p n cnt =
       Some (take cnt p @ varint_bytes v @ drop (cnt + length (varint_bytes v)) p, 0,
         cnt + length (varint_bytes v))"
proof (induction v arbitrary: n cnt p rule: varint_bytes.induct)
  case (1 v)
  then obtain n' where n: "n = Suc n'" using varint_nonempty [of v] by (cases n) auto
  show ?case
  proof (cases "v > 0x7F")
    case True
    let ?b = "ucast (v AND 0x7F) OR 0x80 :: u8"
    let ?p = "p[cnt := ?b]" and ?l = "length (varint_bytes (drop_bit 7 v))"
    have le: "?l \<le> n'" using "1.prems" True n by (simp add: varint_step)
    then have len: "?l \<le> n'" "0 < n'" using varint_nonempty [of "drop_bit 7 v"] by linarith+
    have b: "ucast ((v AND 0x7F) OR 0x80) = ?b"
      by (rule bit_word_eqI) (auto simp: bit_simps)
    have "0 < drop_bit 7 v" using True by (simp add: word_less_nat_alt unat_drop_bit_7)
    then have "st_varint_loop v p n cnt = st_varint_loop (drop_bit 7 v) ?p n' (cnt + 1)"
      using True n len "1.prems" b by (simp add: Let_def)
    also have "\<dots> = Some (take (cnt + 1) ?p @ varint_bytes (drop_bit 7 v) @ drop (cnt + 1 + ?l) ?p, 0,
        cnt + 1 + ?l)"
      using len "1.prems" n by (intro "1.IH" True) simp_all
    also have "take (cnt + 1) ?p = take cnt p @ [?b]"
      using "1.prems" n take_Suc_conv_app_nth [of cnt ?p] by simp
    finally show ?thesis using True by (simp add: varint_step)
  next
    case False
    then have "unat v < 128" by (simp add: word_less_nat_alt)
    then have 0: "drop_bit 7 v = 0" by (simp add: word_unat_eq_iff unat_drop_bit_7)
    have "v AND 0x7F = take_bit 7 v" by (simp add: take_bit_eq_mask mask_eq_exp_minus_1)
    also have "\<dots> = v" using \<open>unat v < 128\<close>
      by (simp add: word_unat_eq_iff unsigned_take_bit_eq take_bit_nat_eq_self)
    finally show ?thesis
      using False n 0 "1.prems" Cons_nth_drop_Suc [of cnt p] upd_conv_take_nth_drop [of cnt p]
      by (simp add: Let_def varint_step)
  qed
qed

lemma st_varint_overflow:
  "n < length (varint_bytes v) \<Longrightarrow> 0 < n \<Longrightarrow> cnt + n \<le> length p \<Longrightarrow>
     \<exists>p' v'. st_varint_loop v p n cnt = Some (p', v', cnt + n) \<and> 0 < v'"
proof (induction v arbitrary: n cnt p rule: varint_bytes.induct)
  case (1 v)
  then obtain n' where n: "n = Suc n'" by (cases n) auto
  have True: "v > 0x7F" using "1.prems" by (cases "v > 0x7F") (auto simp: varint_step)
  then have pos: "0 < drop_bit 7 v" by (simp add: word_less_nat_alt unat_drop_bit_7)
  show ?case
  proof (cases "n' = 0")
    case False
    let ?b = "ucast ((v AND 0x7F) OR 0x80) :: u8"
    have "st_varint_loop v p n cnt = st_varint_loop (drop_bit 7 v) (p[cnt := ?b]) n' (cnt + 1)"
      using True n False pos "1.prems" by (simp add: Let_def)
    moreover have "\<exists>p' v'. st_varint_loop (drop_bit 7 v) (p[cnt := ?b]) n' (cnt + 1) =
        Some (p', v', cnt + 1 + n') \<and> 0 < v'"
      using "1.prems" True n False by (intro "1.IH" True) (auto simp: varint_step)
    ultimately show ?thesis using n by simp
  qed (use n pos "1.prems" in \<open>simp add: Let_def\<close>)
qed

lemma varint_byte_bits:
  shows "ucast ((ucast (v AND 0x7F) OR 0x80 :: u8) AND 0x7F) = take_bit 7 (v :: u32)"
    and "(ucast (v AND 0x7F) OR 0x80 :: u8) AND 0x80 > 0"
proof -
  show "ucast ((ucast (v AND 0x7F) OR 0x80 :: u8) AND 0x7F) = take_bit 7 v"
    by (rule bit_word_eqI)
      (simp only: bit_unsigned_iff bit_and_iff bit_or_iff bit_0x7F bit_0x80 bit_take_bit_iff, auto)
  have "bit ((ucast (v AND 0x7F) OR 0x80 :: u8) AND 0x80) 7" by (simp add: varint_bits)
  then show "(ucast (v AND 0x7F) OR 0x80 :: u8) AND 0x80 > 0"
    by (auto simp: word_greater_zero_iff)
qed

lemma take_bit_grow:
  "take_bit (7 * c) V OR push_bit (c * 7) (take_bit 7 (drop_bit (7 * c) V)) = take_bit (7 * (c + 1)) V"
  for V :: u32
proof (rule bit_word_eqI)
  fix i assume "i < LENGTH(32)"
  then show "bit (take_bit (7 * c) V OR push_bit (c * 7) (take_bit 7 (drop_bit (7 * c) V))) i =
      bit (take_bit (7 * (c + 1)) V) i"
    by (cases "i < 7 * c") (auto simp: bit_simps mult.commute)
qed

lemma ld_varint_bytes:
  "v = drop_bit (7 * cnt) V \<Longrightarrow> 7 * cnt < 32 \<Longrightarrow> val = take_bit (7 * cnt) V \<Longrightarrow>
   drop cnt p = varint_bytes v @ rest \<Longrightarrow> length (varint_bytes v) \<le> n \<Longrightarrow>
     \<exists>byt. ld_varint_loop p n cnt val = Some (V, cnt + length (varint_bytes v), byt) \<and> byt AND 0x80 = 0"
proof (induction v arbitrary: n cnt val rule: varint_bytes.induct)
  case (1 v)
  then obtain n' where n: "n = Suc n'" using varint_nonempty [of v] by (cases n) auto
  have "cnt < length p" using "1.prems"(4) varint_nonempty [of v]
    by (metis add_gr_0 drop_all length_append length_greater_0_conv linorder_not_le)
  then have rdb: "rd p cnt = Some (hd (varint_bytes v))"
    using "1.prems"(4) varint_nonempty [of v] hd_drop_conv_nth [of cnt p] by simp
  show ?case
  proof (cases "v > 0x7F")
    case True
    let ?b = "ucast (v AND 0x7F) OR 0x80 :: u8"
    have le: "length (varint_bytes (drop_bit 7 v)) \<le> n'" using "1.prems"(5) True n by (simp add: varint_step)
    then have len: "length (varint_bytes (drop_bit 7 v)) \<le> n'" "0 < n'"
      using varint_nonempty [of "drop_bit 7 v"] by linarith+
    have "7 * (cnt + 1) < 32"
    proof (rule ccontr)
      assume "\<not> 7 * (cnt + 1) < 32"
      then have "28 \<le> 7 * cnt" by presburger
      then have "(2 :: nat) ^ 28 \<le> 2 ^ (7 * cnt)" by (intro power_increasing) simp_all
      then have "unat V div 2 ^ (7 * cnt) \<le> unat V div 2 ^ 28" by (intro div_le_mono2) simp_all
      also have "\<dots> < 16" using u32_bound [of V] by (simp add: div_less_iff_less_mult del: u32_bound)
      finally have "unat v < 16" unfolding "1.prems"(1) unat_drop_bit .
      then show False using True by (simp add: word_less_nat_alt)
    qed
    moreover have "drop_bit 7 v = drop_bit (7 * (cnt + 1)) V" using "1.prems"(1) by (simp add: add.commute)
    moreover have "drop (cnt + 1) p = varint_bytes (drop_bit 7 v) @ rest"
    proof -
      have "drop (cnt + 1) p = tl (drop cnt p)" by (simp add: drop_Suc tl_drop)
      then show ?thesis using "1.prems"(4) True by (simp add: varint_step)
    qed
    ultimately have IH: "\<exists>byt. ld_varint_loop p n' (cnt + 1) (take_bit (7 * (cnt + 1)) V) =
        Some (V, cnt + 1 + length (varint_bytes (drop_bit 7 v)), byt) \<and> byt AND 0x80 = 0"
      using len by (intro "1.IH" True) simp_all
    have "ld_varint_loop p n cnt val = ld_varint_loop p n' (cnt + 1) (take_bit (7 * (cnt + 1)) V)"
      using n len rdb True "1.prems" varint_byte_bits [of v] take_bit_grow [of cnt V]
      by (simp add: varint_step Let_def mult.commute)
    then show ?thesis using IH True by (simp add: varint_step)
  next
    case False
    then have small: "unat v < 128" by (simp add: word_less_nat_alt)
    have tb: "take_bit 7 v = v" using small
      by (simp add: word_unat_eq_iff unsigned_take_bit_eq take_bit_nat_eq_self)
    have "\<not> bit v 7" using tb by (metis bit_take_bit_iff less_irrefl)
    then have 80: "(ucast v :: u8) AND 0x80 = 0"
      by (intro bit_word_eqI) (simp only: bit_and_iff bit_0x80 bit_unsigned_iff, auto)
    have "ucast ((ucast v :: u8) AND 0x7F) = take_bit 7 v"
      by (rule bit_word_eqI) (simp only: bit_unsigned_iff bit_and_iff bit_0x7F bit_take_bit_iff, auto)
    then have val: "val OR push_bit (cnt * 7) (ucast ((ucast v :: u8) AND 0x7F)) = take_bit (7 * (cnt + 1)) V"
      using "1.prems"(1,3) take_bit_grow [of cnt V] by simp
    also have "\<dots> = V"
    proof (rule bit_word_eqI)
      fix i assume "i < LENGTH(32)"
      have "bit V i \<Longrightarrow> i < 7 * (cnt + 1)"
      proof (rule ccontr)
        assume "bit V i" "\<not> i < 7 * (cnt + 1)"
        then have "bit v (i - 7 * cnt)" "7 \<le> i - 7 * cnt" by (simp_all add: "1.prems"(1) bit_simps)
        then show False using tb by (metis bit_take_bit_iff linorder_not_le)
      qed
      then show "bit (take_bit (7 * (cnt + 1)) V) i = bit V i" by (auto simp: bit_simps)
    qed
    finally have val: "val OR push_bit (cnt * 7) (ucast ((ucast v :: u8) AND 0x7F)) = V" .
    have "ld_varint_loop p n cnt val = Some (V, cnt + 1, ucast v)"
      using n rdb False "1.prems"(2) 80 val by (simp add: varint_step Let_def)
    then show ?thesis using 80 False by (simp add: varint_step)
  qed
qed

text \<open>With room for it (\<open>ptr_len\<close> bytes hold the value iff it is below \<open>2 ^ (7 * ptr_len)\<close>), a stored
  variable length integer takes the fewest bytes that can hold it, at most five, is read back
  unchanged with the same count, and leaves the bytes after it alone; without room the store
  returns 0. Neither routine leaves the array.\<close>

theorem lwutil_varint_roundtrip:
  assumes "unat ptr_len \<le> length p" "0 < ptr_len"
  shows "if unat v < 2 ^ (7 * unat ptr_len)
    then \<exists>n q. lwutil_st_u32_varint v (Some p) ptr_len = Some (n, Some q) \<and>
           lwutil_ld_u32_varint (Some q) ptr_len (Some z) = Some (n, Some v) \<and>
           1 \<le> n \<and> n \<le> 5 \<and> unat v < 2 ^ (7 * unat n) \<and>
           (1 < n \<longrightarrow> 2 ^ (7 * (unat n - 1)) \<le> unat v) \<and> drop (unat n) q = drop (unat n) p
    else \<exists>q. lwutil_st_u32_varint v (Some p) ptr_len = Some (0, q)"
proof -
  let ?b = "varint_bytes v"
  have pos: "0 < unat ptr_len" using assms(2) by (simp add: word_less_nat_alt)
  have nz: "ptr_len \<noteq> 0" using assms(2) by auto
  show ?thesis
  proof (cases "unat v < 2 ^ (7 * unat ptr_len)")
    case True
    then have le: "length ?b \<le> unat ptr_len" using varint_length [OF pos] by simp
    have "unat v < 2 ^ (7 * 5)" by (rule less_trans [OF u32_bound]) simp
    then have le5: "length ?b \<le> 5" using varint_length [of 5 v] by simp
    define n where "n = (of_nat (length ?b) :: u8)"
    have n: "unat n = length ?b" unfolding n_def using le5 by (intro unat_of_nat_lt) simp
    define q where "q = ?b @ drop (length ?b) p"
    have st: "lwutil_st_u32_varint v (Some p) ptr_len = Some (n, Some q)"
      using st_varint_fits [OF le, of 0 p] assms nz
      by (simp add: lwutil_st_u32_varint_def n_def q_def)
    obtain byt where "ld_varint_loop q (unat ptr_len) 0 0 = Some (v, length ?b, byt)" "byt AND 0x80 = 0"
      using ld_varint_bytes [of v 0 v 0 q "drop (length ?b) p" "unat ptr_len"] le by (auto simp: q_def)
    then have ld: "lwutil_ld_u32_varint (Some q) ptr_len (Some z) = Some (n, Some v)"
      using nz by (simp add: lwutil_ld_u32_varint_def n_def)
    have fits: "unat v < 2 ^ (7 * unat n)"
      using varint_length [of "length ?b" v] varint_nonempty [of v] n by simp
    have least: "1 < n \<longrightarrow> 2 ^ (7 * (unat n - 1)) \<le> unat v"
    proof
      assume "1 < n"
      then have "0 < length ?b - 1" using n by (simp add: word_less_nat_alt)
      moreover from this have "\<not> length ?b \<le> length ?b - 1" by simp
      ultimately show "2 ^ (7 * (unat n - 1)) \<le> unat v"
        using varint_length [of "length ?b - 1" v] n by simp
    qed
    have "1 \<le> n" "n \<le> 5" using n le5 varint_nonempty [of v] by (simp_all add: word_le_nat_alt Suc_le_eq)
    then show ?thesis using True st ld fits least by (simp add: n q_def)
  next
    case False
    then have lt: "unat ptr_len < length ?b" using varint_length [OF pos, of v] by simp
    then obtain p' v' where "st_varint_loop v p (unat ptr_len) 0 = Some (p', v', unat ptr_len)" "0 < v'"
      using st_varint_overflow [OF lt pos, of 0 p] assms(1) by auto
    then show ?thesis using False nz by (simp add: lwutil_st_u32_varint_def)
  qed
qed

theorem lwutil_varint_roundtrip_witness:
  "if unat (300 :: u32) < 2 ^ (7 * unat (4 :: u32))
    then \<exists>n q. lwutil_st_u32_varint 300 (Some [0, 0, 0, 0]) 4 = Some (n, Some q) \<and>
           lwutil_ld_u32_varint (Some q) 4 (Some 0) = Some (n, Some 300) \<and>
           1 \<le> n \<and> n \<le> 5 \<and> unat (300 :: u32) < 2 ^ (7 * unat n) \<and>
           (1 < n \<longrightarrow> 2 ^ (7 * (unat n - 1)) \<le> unat (300 :: u32)) \<and>
           drop (unat n) q = drop (unat n) [0, 0, 0, 0]
    else \<exists>q. lwutil_st_u32_varint 300 (Some [0, 0, 0, 0]) 4 = Some (0, q)"
  by (rule lwutil_varint_roundtrip) simp_all

text \<open>
  A malformed input, six bytes that all carry the continuation bit, makes the load shift a 32-bit
  value by 35.
\<close>

lemma lwutil_ld_varint_long_input:
  "lwutil_ld_u32_varint (Some (replicate 6 0x80)) 6 (Some 0) = None"
  by code_simp

end
