(* ===== verification/Ringbuffer.thy ===== *)
theory Ringbuffer
  imports Circular Fifo_Spec
begin

text \<open>
  The kernel's ring buffer (\<open>rt-thread/components/drivers/ipc/ringbuffer.c\<close> and
  \<open>ipc/ringbuffer.h\<close>), the buffer of the UART device drivers. The two positions are 15-bit fields,
  each with a one-bit mirror that flips when the position goes round; equal positions mean empty when
  the mirrors agree and full when they differ. The size is a 16-bit signed field, and the code's
  arithmetic on it is that of \<open>int\<close>: \<open>rb_size\<close> is its value, \<open>to_size\<close> the conversion of an \<open>int\<close> to the
  \<open>size_t\<close> argument of a copy.
\<close>

subsection \<open>State\<close>

record rt_ringbuffer =
  buffer_ptr :: "u8 list"
  read_mirror :: bool
  read_index :: "15 word"
  write_mirror :: bool
  write_index :: "15 word"
  buffer_size :: u16

datatype rt_ringbuffer_state = RT_RINGBUFFER_EMPTY | RT_RINGBUFFER_FULL | RT_RINGBUFFER_HALFFULL

definition rb_size :: "rt_ringbuffer \<Rightarrow> int" where
  "rb_size rb = sint (buffer_size rb)"

definition to_size :: "int \<Rightarrow> nat" where
  "to_size i = unat (word_of_int i :: u32)"

subsection \<open>Operations\<close>

definition rt_ringbuffer_status :: "rt_ringbuffer \<Rightarrow> rt_ringbuffer_state" where
  "rt_ringbuffer_status rb =
     (if read_index rb = write_index rb
      then (if read_mirror rb = write_mirror rb then RT_RINGBUFFER_EMPTY else RT_RINGBUFFER_FULL)
      else RT_RINGBUFFER_HALFFULL)"

definition rt_ringbuffer_init :: "u8 list \<Rightarrow> u16 \<Rightarrow> rt_ringbuffer option" where
  "rt_ringbuffer_init pool sz =
     do { rt_assert (sint sz > 0);
          Some \<lparr>buffer_ptr = pool, read_mirror = False, read_index = 0, write_mirror = False,
                write_index = 0, buffer_size = sz AND NOT 3\<rparr> }"

definition rt_ringbuffer_data_len :: "rt_ringbuffer \<Rightarrow> u32" where
  "rt_ringbuffer_data_len rb =
     (case rt_ringbuffer_status rb of
        RT_RINGBUFFER_EMPTY \<Rightarrow> 0
      | RT_RINGBUFFER_FULL \<Rightarrow> word_of_int (rb_size rb)
      | RT_RINGBUFFER_HALFFULL \<Rightarrow>
          let wi = ucast (write_index rb); ri = ucast (read_index rb)
          in if wi > ri then wi - ri else word_of_int (rb_size rb) - (ri - wi))"

definition rt_ringbuffer_get_size :: "rt_ringbuffer \<Rightarrow> u16" where
  "rt_ringbuffer_get_size rb = buffer_size rb"

definition rt_ringbuffer_space_len :: "rt_ringbuffer \<Rightarrow> u32" where
  "rt_ringbuffer_space_len rb = word_of_int (rb_size rb) - rt_ringbuffer_data_len rb"

text \<open>
  The copy into the buffer, the same in both \<open>put\<close> routines: the buffer afterwards, and whether it
  went round.
\<close>

definition rb_copy_in :: "rt_ringbuffer \<Rightarrow> u8 list \<Rightarrow> u16 \<Rightarrow> (rt_ringbuffer \<times> bool) option" where
  "rb_copy_in rb ptr len =
     (let rest = rb_size rb - uint (write_index rb) in
      if rest > uint len
      then do { src \<leftarrow> subarr ptr 0 (unat len);
                m \<leftarrow> blit (buffer_ptr rb) (unat (write_index rb)) src;
                Some (rb\<lparr>buffer_ptr := m, write_index := write_index rb + ucast len\<rparr>, False) }
      else do { src \<leftarrow> subarr ptr 0 (to_size rest);
                m \<leftarrow> blit (buffer_ptr rb) (unat (write_index rb)) src;
                src \<leftarrow> subarr ptr (to_size rest) (to_size (uint len - rest));
                m \<leftarrow> blit m 0 src;
                Some (rb\<lparr>buffer_ptr := m, write_mirror := \<not> write_mirror rb,
                         write_index := word_of_int (uint len - rest)\<rparr>, True) })"

definition rt_ringbuffer_put ::
  "rt_ringbuffer \<Rightarrow> u8 list \<Rightarrow> u16 \<Rightarrow> (u32 \<times> rt_ringbuffer) option" where
  "rt_ringbuffer_put rb ptr len =
     (let sz = ucast (rt_ringbuffer_space_len rb) :: u16 in
      if sz = 0 then Some (0, rb)
      else let len = (if sz < len then sz else len) in
        do { (rb, _) \<leftarrow> rb_copy_in rb ptr len; Some (ucast len, rb) })"

definition rt_ringbuffer_put_force ::
  "rt_ringbuffer \<Rightarrow> u8 list \<Rightarrow> u16 \<Rightarrow> (u32 \<times> rt_ringbuffer) option" where
  "rt_ringbuffer_put_force rb ptr len =
     (let space_length = ucast (rt_ringbuffer_space_len rb) :: u16;
          (ptr, len) =
            (if uint len > rb_size rb
             then (drop (to_size (uint len - rb_size rb)) ptr, word_of_int (rb_size rb))
             else (ptr, len))
      in do {
        (rb, wrapped) \<leftarrow> rb_copy_in rb ptr len;
        if \<not> wrapped
        then Some (ucast len, if len > space_length then rb\<lparr>read_index := write_index rb\<rparr> else rb)
        else if len > space_length
        then let rb = (if write_index rb \<le> read_index rb
                       then rb\<lparr>read_mirror := \<not> read_mirror rb\<rparr> else rb)
             in Some (ucast len, rb\<lparr>read_index := write_index rb\<rparr>)
        else Some (ucast len, rb) })"

text \<open>Reads return the caller's array after the copy.\<close>

definition rt_ringbuffer_get ::
  "rt_ringbuffer \<Rightarrow> u8 list \<Rightarrow> u16 \<Rightarrow> (u32 \<times> u8 list \<times> rt_ringbuffer) option" where
  "rt_ringbuffer_get rb ptr len =
     (let sz = rt_ringbuffer_data_len rb in
      if sz = 0 then Some (0, ptr, rb)
      else
        let len = (if sz < ucast len then ucast sz else len);
            rest = rb_size rb - uint (read_index rb)
        in if rest > uint len
           then do { src \<leftarrow> subarr (buffer_ptr rb) (unat (read_index rb)) (unat len);
                     ptr \<leftarrow> blit ptr 0 src;
                     Some (ucast len, ptr, rb\<lparr>read_index := read_index rb + ucast len\<rparr>) }
           else do { src \<leftarrow> subarr (buffer_ptr rb) (unat (read_index rb)) (to_size rest);
                     ptr \<leftarrow> blit ptr 0 src;
                     src \<leftarrow> subarr (buffer_ptr rb) 0 (to_size (uint len - rest));
                     ptr \<leftarrow> blit ptr (to_size rest) src;
                     Some (ucast len, ptr,
                       rb\<lparr>read_mirror := \<not> read_mirror rb, read_index := word_of_int (uint len - rest)\<rparr>) })"

text \<open>The pointer \<open>rt_ringbuffer_peek\<close> returns is an offset into the buffer.\<close>

definition rt_ringbuffer_peek :: "rt_ringbuffer \<Rightarrow> u32 \<times> nat option \<times> rt_ringbuffer" where
  "rt_ringbuffer_peek rb =
     (let sz = rt_ringbuffer_data_len rb in
      if sz = 0 then (0, None, rb)
      else
        let ptr = Some (unat (read_index rb));
            rest = rb_size rb - uint (read_index rb)
        in if word_of_int rest > sz
           then (sz, ptr, rb\<lparr>read_index := read_index rb + ucast sz\<rparr>)
           else (word_of_int rest, ptr, rb\<lparr>read_mirror := \<not> read_mirror rb, read_index := 0\<rparr>))"

definition rt_ringbuffer_putchar :: "rt_ringbuffer \<Rightarrow> u8 \<Rightarrow> (u32 \<times> rt_ringbuffer) option" where
  "rt_ringbuffer_putchar rb ch =
     (if rt_ringbuffer_space_len rb = 0 then Some (0, rb)
      else do { m \<leftarrow> wr (buffer_ptr rb) (unat (write_index rb)) ch;
                let rb = rb\<lparr>buffer_ptr := m\<rparr>;
                Some (1,
                  if uint (write_index rb) = rb_size rb - 1
                  then rb\<lparr>write_mirror := \<not> write_mirror rb, write_index := 0\<rparr>
                  else rb\<lparr>write_index := write_index rb + 1\<rparr>) })"

definition rt_ringbuffer_putchar_force :: "rt_ringbuffer \<Rightarrow> u8 \<Rightarrow> (u32 \<times> rt_ringbuffer) option" where
  "rt_ringbuffer_putchar_force rb ch =
     (let old_state = rt_ringbuffer_status rb in
      do { m \<leftarrow> wr (buffer_ptr rb) (unat (write_index rb)) ch;
           let rb = rb\<lparr>buffer_ptr := m\<rparr>;
           if uint (write_index rb) = rb_size rb - 1
           then let rb = rb\<lparr>write_mirror := \<not> write_mirror rb, write_index := 0\<rparr>
                in Some (1, if old_state = RT_RINGBUFFER_FULL
                            then rb\<lparr>read_mirror := \<not> read_mirror rb, read_index := write_index rb\<rparr>
                            else rb)
           else let rb = rb\<lparr>write_index := write_index rb + 1\<rparr>
                in Some (1, if old_state = RT_RINGBUFFER_FULL
                            then rb\<lparr>read_index := write_index rb\<rparr> else rb) })"

definition rt_ringbuffer_getchar :: "rt_ringbuffer \<Rightarrow> u8 \<Rightarrow> (u32 \<times> u8 \<times> rt_ringbuffer) option" where
  "rt_ringbuffer_getchar rb ch =
     (if rt_ringbuffer_data_len rb = 0 then Some (0, ch, rb)
      else do { ch \<leftarrow> rd (buffer_ptr rb) (unat (read_index rb));
                Some (1, ch,
                  if uint (read_index rb) = rb_size rb - 1
                  then rb\<lparr>read_mirror := \<not> read_mirror rb, read_index := 0\<rparr>
                  else rb\<lparr>read_index := read_index rb + 1\<rparr>) })"


text \<open>
  \<open>rt_ringbuffer_create\<close>: whether the allocator has room for the object, and the block it gives for
  the pool of the rounded size. The inner \<open>None\<close> is the null pointer the function returns.
\<close>

definition rt_ringbuffer_create ::
  "bool \<Rightarrow> (u16 \<Rightarrow> u8 list option) \<Rightarrow> u16 \<Rightarrow> rt_ringbuffer option option" where
  "rt_ringbuffer_create malloc_rb malloc_pool sz =
     do { rt_assert (sz > 0);
          let sz = sz AND NOT 3;
          if \<not> malloc_rb then Some None
          else (case malloc_pool sz of
                  None \<Rightarrow> Some None
                | Some pool \<Rightarrow> map_option Some (rt_ringbuffer_init pool sz)) }"

subsection \<open>Invariant and abstraction\<close>

text \<open>
  The pool has the size's bytes and both positions lie in it; the reader is not ahead of the writer
  when the mirrors agree, nor behind it when they differ.
\<close>

definition rb_cap :: "rt_ringbuffer \<Rightarrow> nat" where
  "rb_cap rb = length (buffer_ptr rb)"

definition rb_inv :: "rt_ringbuffer \<Rightarrow> bool" where
  "rb_inv rb \<longleftrightarrow>
     rb_size rb = int (length (buffer_ptr rb)) \<and> 0 < length (buffer_ptr rb) \<and>
     unat (read_index rb) < length (buffer_ptr rb) \<and> unat (write_index rb) < length (buffer_ptr rb) \<and>
     (if read_mirror rb = write_mirror rb then read_index rb \<le> write_index rb
      else write_index rb \<le> read_index rb)"

definition rb_content :: "rt_ringbuffer \<Rightarrow> u8 list" where
  "rb_content rb =
     circ (buffer_ptr rb) (unat (read_index rb)) (unat (rt_ringbuffer_data_len rb))"

lemma length_rb_content [simp]: "length (rb_content rb) = unat (rt_ringbuffer_data_len rb)"
  by (simp add: rb_content_def)

lemma rb_size_bound: "rb_size rb < 32768"
  using sint_less [of "buffer_size rb"] by (simp add: rb_size_def)

lemma rb_invD:
  assumes "rb_inv rb"
  shows "rb_size rb = int (rb_cap rb)" "length (buffer_ptr rb) = rb_cap rb" "0 < rb_cap rb"
    "rb_cap rb < 32768" "unat (read_index rb) < rb_cap rb" "unat (write_index rb) < rb_cap rb"
  using assms rb_size_bound [of rb] by (auto simp: rb_inv_def rb_cap_def)

lemma to_size_of_nat: "k < 4294967296 \<Longrightarrow> to_size (int k) = k"
  by (simp add: to_size_def unat_of_nat_lt)

lemma rb_rest:
  "w \<le> n \<Longrightarrow> n < 4294967296 \<Longrightarrow> to_size (int n - int w) = n - w"
  using to_size_of_nat [of "n - w"] by (simp add: of_nat_diff)

text \<open>How full the buffer is, from the positions and mirrors.\<close>

definition rb_dist :: "rt_ringbuffer \<Rightarrow> nat" where
  "rb_dist rb =
     (if read_mirror rb = write_mirror rb then unat (write_index rb) - unat (read_index rb)
      else rb_cap rb - (unat (read_index rb) - unat (write_index rb)))"

lemma unat_data_len:
  assumes "rb_inv rb"
  shows "unat (rt_ringbuffer_data_len rb) = rb_dist rb"
proof -
  note d = rb_invD [OF assms]
  let ?r = "unat (read_index rb)" and ?w = "unat (write_index rb)"
  have u: "unat (ucast x :: u32) = unat x" for x :: "15 word" by (rule unat_ucast_up) simp
  have N: "unat (word_of_int (rb_size rb) :: u32) = rb_cap rb"
    using d by (simp add: unat_of_nat_lt)
  have ord: "if read_mirror rb = write_mirror rb then ?r \<le> ?w else ?w \<le> ?r"
    using assms by (simp add: rb_inv_def word_le_nat_alt split: if_splits)
  consider "?r = ?w" | "?r < ?w" | "?w < ?r" by linarith
  then show ?thesis
  proof cases
    case 1
    then have "read_index rb = write_index rb" by (simp add: word_unat_eq_iff)
    then show ?thesis
      using N by (simp add: rt_ringbuffer_data_len_def rt_ringbuffer_status_def rb_dist_def)
  next
    case 2
    have "(ucast (read_index rb) :: u32) \<le> ucast (write_index rb)"
      using 2 by (simp add: word_le_nat_alt u)
    with 2 ord show ?thesis
      by (auto simp: rt_ringbuffer_data_len_def rt_ringbuffer_status_def rb_dist_def Let_def
          word_less_nat_alt u unat_sub_le split: if_splits)
  next
    case 3
    have "(ucast (write_index rb) :: u32) \<le> ucast (read_index rb)"
      using 3 by (simp add: word_le_nat_alt u)
    then have s: "unat (ucast (read_index rb) - ucast (write_index rb) :: u32) = ?r - ?w"
      by (simp add: unat_sub_le u)
    then have "(ucast (read_index rb) - ucast (write_index rb) :: u32) \<le> word_of_int (rb_size rb)"
      unfolding word_le_nat_alt using N d by simp
    with 3 ord s N show ?thesis
      by (auto simp: rt_ringbuffer_data_len_def rt_ringbuffer_status_def rb_dist_def Let_def
          word_less_nat_alt u unat_sub_le split: if_splits)
  qed
qed

lemma rb_dist_facts:
  assumes "rb_inv rb"
  shows "rb_dist rb \<le> rb_cap rb"
    and "unat (write_index rb) = (unat (read_index rb) + rb_dist rb) mod rb_cap rb"
proof -
  note d = rb_invD [OF assms]
  let ?r = "unat (read_index rb)" and ?w = "unat (write_index rb)"
  have ord: "if read_mirror rb = write_mirror rb then ?r \<le> ?w else ?w \<le> ?r"
    using assms by (simp add: rb_inv_def word_le_nat_alt split: if_splits)
  show "rb_dist rb \<le> rb_cap rb" using d by (auto simp: rb_dist_def)
  show "?w = (?r + rb_dist rb) mod rb_cap rb"
  proof (cases "read_mirror rb = write_mirror rb")
    case False
    then have "?r + (rb_cap rb - (?r - ?w)) = ?w + rb_cap rb" using ord d by simp
    then show ?thesis using False d by (simp add: rb_dist_def)
  qed (use ord d in \<open>simp add: rb_dist_def\<close>)
qed

lemma unat_space_len:
  assumes "rb_inv rb"
  shows "unat (rt_ringbuffer_space_len rb) = rb_cap rb - rb_dist rb"
    and "unat (ucast (rt_ringbuffer_space_len rb) :: u16) = rb_cap rb - rb_dist rb"
proof -
  note d = rb_invD [OF assms]
  have N: "unat (word_of_int (rb_size rb) :: u32) = rb_cap rb"
    using d by (simp add: unat_of_nat_lt)
  have "rt_ringbuffer_data_len rb \<le> word_of_int (rb_size rb)"
    unfolding word_le_nat_alt N using unat_data_len [OF assms] rb_dist_facts [OF assms] by simp
  then show *: "unat (rt_ringbuffer_space_len rb) = rb_cap rb - rb_dist rb"
    by (simp add: rt_ringbuffer_space_len_def unat_sub_le N unat_data_len [OF assms])
  have "unat (ucast (rt_ringbuffer_space_len rb) :: u16) = take_bit 16 (rb_cap rb - rb_dist rb)"
    by (simp add: unsigned_ucast_eq *)
  then show "unat (ucast (rt_ringbuffer_space_len rb) :: u16) = rb_cap rb - rb_dist rb"
    using d by (simp add: take_bit_nat_eq_self)
qed

text \<open>
  The mirrors agree exactly when the content does not reach round the end; with the position of the
  writer this is the whole invariant.
\<close>

lemma rb_mirrors:
  assumes "rb_inv rb"
  shows "read_mirror rb = write_mirror rb \<longleftrightarrow> unat (read_index rb) + rb_dist rb < rb_cap rb"
proof -
  note d = rb_invD [OF assms]
  have ord: "if read_mirror rb = write_mirror rb then unat (read_index rb) \<le> unat (write_index rb)
      else unat (write_index rb) \<le> unat (read_index rb)"
    using assms by (simp add: rb_inv_def word_le_nat_alt split: if_splits)
  show ?thesis
  proof (cases "read_mirror rb = write_mirror rb")
    case True
    then show ?thesis using ord d by (simp add: rb_dist_def)
  next
    case False
    then show ?thesis using ord d by (simp add: rb_dist_def)
  qed
qed

lemma rb_intro:
  assumes "rb_size rb = int n" "length (buffer_ptr rb) = n" "unat (read_index rb) < n" "d \<le> n"
    and w: "unat (write_index rb) = (unat (read_index rb) + d) mod n"
    and mir: "read_mirror rb = write_mirror rb \<longleftrightarrow> unat (read_index rb) + d < n"
  shows "rb_inv rb" "rb_dist rb = d" "rb_content rb = circ (buffer_ptr rb) (unat (read_index rb)) d"
proof -
  let ?r = "unat (read_index rb)"
  have w': "unat (write_index rb) = (if ?r + d < n then ?r + d else ?r + d - n)"
    using w assms(3,4) by (simp add: le_mod_geq)
  have wn: "unat (write_index rb) < n" unfolding w using assms(3) by (intro mod_less_divisor) simp
  show inv: "rb_inv rb"
    using assms w' wn by (auto simp: rb_inv_def word_le_nat_alt split: if_splits)
  show dist: "rb_dist rb = d"
    using assms(1-4) mir w' by (auto simp: rb_dist_def rb_cap_def split: if_splits)
  show "rb_content rb = circ (buffer_ptr rb) ?r d"
    by (simp add: rb_content_def unat_data_len [OF inv] dist)
qed

lemma rb_contentD:
  assumes "rb_inv rb"
  shows "rb_content rb = circ (buffer_ptr rb) (unat (read_index rb)) (rb_dist rb)"
    "length (rb_content rb) = rb_dist rb"
  by (simp_all add: rb_content_def unat_data_len [OF assms])

subsection \<open>Writing\<close>

lemma unat_index:
  "n < 32768 \<Longrightarrow> unat (word_of_int (int n) :: 15 word) = n"
  by (simp add: unat_of_nat_lt)

lemma rb_copy_in_law:
  assumes inv: "rb_inv rb" and k: "unat len \<le> rb_cap rb" "unat len \<le> length ptr"
  defines "w \<equiv> unat (write_index rb)"
  shows "\<exists>w'. rb_copy_in rb ptr len =
      Some (rb\<lparr>buffer_ptr := circ_put (buffer_ptr rb) w (take (unat len) ptr), write_index := w',
               write_mirror := (write_mirror rb \<noteq> (rb_cap rb \<le> w + unat len))\<rparr>,
            rb_cap rb \<le> w + unat len) \<and>
      unat w' = (w + unat len) mod rb_cap rb"
proof -
  note d = rb_invD [OF inv]
  let ?m = "buffer_ptr rb" and ?N = "rb_cap rb" and ?k = "unat len"
  have w: "w < ?N" using d by (simp add: w_def)
  have cond: "uint len < rb_size rb - uint (write_index rb) \<longleftrightarrow> w + ?k < ?N"
    unfolding d(1) w_def by (simp add: uint_nat del: of_nat_unat) linarith
  show ?thesis
  proof (cases "w + ?k < ?N")
    case True
    have w15: "unat (write_index rb + ucast len) = w + ?k"
    proof -
      have "unat (ucast len :: 15 word) = ?k"
        using True d by (simp add: unsigned_ucast_eq take_bit_nat_eq_self)
      then show ?thesis using True d by (intro trans [OF unat_add_lt]) (simp_all add: w_def)
    qed
    have "blit ?m w (take ?k ptr) = Some (circ_put ?m w (take ?k ptr))"
      using True w d k by (intro blit_linear) auto
    moreover have "rb\<lparr>write_mirror := write_mirror rb\<rparr> = rb" by simp
    ultimately show ?thesis
      using True cond k w15
      by (intro exI [of _ "write_index rb + ucast len"]) (simp add: rb_copy_in_def w_def)
  next
    case False
    have rest: "to_size (rb_size rb - uint (write_index rb)) = ?N - w"
      using rb_rest [of w ?N] w d by (simp add: w_def)
    have le: "?N - w \<le> ?k" using False by simp
    have uk: "uint len - (rb_size rb - uint (write_index rb)) = int (?k - (?N - w))"
      using le w d by (simp add: w_def of_nat_diff)
    have rest2: "to_size (uint len - (rb_size rb - uint (write_index rb))) = ?k - (?N - w)"
      unfolding uk using k d by (intro to_size_of_nat) simp
    have w': "unat (word_of_int (uint len - (rb_size rb - uint (write_index rb))) :: 15 word) =
        (w + ?k) mod ?N"
    proof -
      have "?k - (?N - w) < 32768" "w + ?k - ?N < ?N" using k w d by simp_all
      then show ?thesis unfolding uk using False w by (simp only: unat_index) (simp add: le_mod_geq)
    qed
    have src: "take (?N - w) ptr = take (?N - w) (take ?k ptr)"
      "take (?k - (?N - w)) (drop (?N - w) ptr) = drop (?N - w) (take ?k ptr)"
      using le by (simp_all add: drop_take min_absorb1)
    have "do { b \<leftarrow> blit ?m w (take (?N - w) (take ?k ptr)); blit b 0 (drop (?N - w) (take ?k ptr)) } =
        Some (circ_put ?m w (take ?k ptr))"
      using blit_wrap [of w ?m "take ?k ptr"] w d k False by simp
    then obtain b where b: "blit ?m w (take (?N - w) ptr) = Some b"
      "blit b 0 (take (?k - (?N - w)) (drop (?N - w) ptr)) = Some (circ_put ?m w (take ?k ptr))"
      unfolding src by (auto split: bind_splits)
    have "subarr ptr 0 (?N - w) = Some (take (?N - w) ptr)"
      "subarr ptr (?N - w) (?k - (?N - w)) = Some (take (?k - (?N - w)) (drop (?N - w) ptr))"
      using le k by (simp_all add: subarr_def)
    then show ?thesis
      using False cond w' b
      by (intro exI [of _ "word_of_int (uint len - (rb_size rb - uint (write_index rb)))"])
        (simp add: rb_copy_in_def Let_def rest rest2 w_def [symmetric])
  qed
qed

lemma ucast_u16_u32: "(ucast l :: u32) = of_nat (unat (l :: u16))"
proof -
  have "unat l < 4294967296" by (rule less_trans [OF u16_bound]) simp
  then show ?thesis by (simp add: word_unat_eq_iff unat_ucast_up unat_of_nat_lt)
qed

text \<open>A write of \<open>k\<close> bytes into free space.\<close>

lemma rb_write_fits:
  assumes inv: "rb_inv rb" and k: "rb_dist rb + unat len \<le> rb_cap rb" "unat len \<le> length ptr"
  shows "\<exists>rb' wrapped. rb_copy_in rb ptr len = Some (rb', wrapped) \<and> rb_inv rb' \<and>
    rb_content rb' = rb_content rb @ take (unat len) ptr \<and> rb_cap rb' = rb_cap rb"
proof -
  note d = rb_invD [OF inv] and f = rb_dist_facts [OF inv]
  let ?r = "unat (read_index rb)" and ?w = "unat (write_index rb)" and ?N = "rb_cap rb"
  let ?m = "circ_put (buffer_ptr rb) ?w (take (unat len) ptr)"
  obtain w' where w': "rb_copy_in rb ptr len =
      Some (rb\<lparr>buffer_ptr := ?m, write_index := w',
               write_mirror := (write_mirror rb \<noteq> (?N \<le> ?w + unat len))\<rparr>, ?N \<le> ?w + unat len)"
    "unat w' = (?w + unat len) mod ?N"
    using rb_copy_in_law [OF inv _ k(2)] k(1) by auto
  define rb' where "rb' = rb\<lparr>buffer_ptr := ?m, write_index := w',
    write_mirror := (write_mirror rb \<noteq> (?N \<le> ?w + unat len))\<rparr>"
  have w: "?w = (if ?r + rb_dist rb < ?N then ?r + rb_dist rb else ?r + rb_dist rb - ?N)"
    using f d by (simp add: le_mod_geq)
  have "(?r + (rb_dist rb + unat len)) mod ?N = (?w + unat len) mod ?N"
    unfolding f(2) by (simp add: mod_simps add.assoc)
  then have "unat (write_index rb') = (unat (read_index rb') + (rb_dist rb + unat len)) mod ?N"
    using w' by (simp add: rb'_def)
  moreover have "read_mirror rb' = write_mirror rb' \<longleftrightarrow> ?r + (rb_dist rb + unat len) < ?N"
    using w rb_mirrors [OF inv] k d by (auto simp: rb'_def split: if_splits)
  ultimately have "rb_inv rb'" "rb_content rb' = circ ?m ?r (rb_dist rb + unat len)"
    using rb_intro [of rb' ?N "rb_dist rb + unat len"] k d by (simp_all add: rb'_def rb_size_def)
  moreover have "circ ?m ?r (rb_dist rb + unat len) = rb_content rb @ take (unat len) ptr"
    using circ_circ_put_append [of ?r "buffer_ptr rb" "rb_dist rb" "take (unat len) ptr"] k d f
      rb_contentD [OF inv] by simp
  moreover have "rb_cap rb' = ?N" by (simp add: rb'_def rb_cap_def)
  ultimately show ?thesis using w'(1) by (auto simp: rb'_def)
qed


text \<open>
  The forced write: what remains is the newest \<open>size\<close> bytes of the old content followed by the block.
\<close>

lemma rb_force_overrun:
  assumes inv: "rb_inv rb" and k: "rb_cap rb < rb_dist rb + unat len" "unat len \<le> rb_cap rb"
    "unat len \<le> length ptr"
    and copy: "rb_copy_in rb ptr len = Some (rb1, wrapped)"
  defines "flip \<equiv> wrapped \<and> write_index rb1 \<le> read_index rb1"
  defines "rb2 \<equiv> rb1\<lparr>read_mirror := (read_mirror rb1 \<noteq> flip), read_index := write_index rb1\<rparr>"
  shows "rb_inv rb2" "rb_cap rb2 = rb_cap rb"
    "rb_content rb2 = drop (rb_dist rb + unat len - rb_cap rb) (rb_content rb) @ take (unat len) ptr"
proof -
  note d = rb_invD [OF inv] and f = rb_dist_facts [OF inv]
  let ?r = "unat (read_index rb)" and ?w = "unat (write_index rb)" and ?N = "rb_cap rb"
  let ?a = "buffer_ptr rb" and ?xs = "take (unat len) ptr" and ?k = "unat len"
  let ?m = "circ_put ?a ?w ?xs"
  obtain w' where w': "rb1 = rb\<lparr>buffer_ptr := ?m, write_index := w',
               write_mirror := (write_mirror rb \<noteq> (?N \<le> ?w + ?k))\<rparr>" "wrapped = (?N \<le> ?w + ?k)"
    "unat w' = (?w + ?k) mod ?N"
    using rb_copy_in_law [OF inv k(2,3)] copy by auto
  have w: "?w = (if ?r + rb_dist rb < ?N then ?r + rb_dist rb else ?r + rb_dist rb - ?N)"
    using f d by (simp add: le_mod_geq)
  have w'': "unat w' = (if ?w + ?k < ?N then ?w + ?k else ?w + ?k - ?N)"
    using w'(3) k d by (simp add: le_mod_geq)
  have w'N: "unat w' < ?N" unfolding w'(3) using d by (intro mod_less_divisor) simp
  have mir: "read_mirror rb2 \<noteq> write_mirror rb2"
    using w w'' rb_mirrors [OF inv] k d f
    by (auto simp: rb2_def flip_def w'(1,2) word_le_nat_alt split: if_splits)
  have i: "rb_inv rb2" "rb_content rb2 = circ ?m (unat w') ?N"
    using rb_intro [of rb2 ?N ?N] mir w'N d
    by (simp_all add: rb2_def w'(1) rb_size_def)
  show "rb_inv rb2" by (rule i(1))
  show "rb_cap rb2 = ?N" by (simp add: rb2_def w'(1) rb_cap_def)
  have "(unat w' + (?N - ?k)) mod ?N = (?w + ?k + (?N - ?k)) mod ?N"
    unfolding w'(3) by (rule mod_add_left_eq)
  also have "\<dots> = ?w" using k d by simp
  finally have start: "(unat w' + (?N - ?k)) mod ?N = ?w" .
  have len: "length ?xs = ?k" using k by simp
  have "circ ?m (unat w') ?N = circ ?a (unat w') (?N - ?k) @ ?xs"
    using circ_circ_put_append [of "unat w'" ?a "?N - ?k" ?xs] w'N d k start len by simp
  moreover have "circ ?a (unat w') (?N - ?k) = drop (rb_dist rb + ?k - ?N) (rb_content rb)"
  proof -
    have "(?r + (rb_dist rb + ?k - ?N)) mod ?N = (?r + (rb_dist rb + ?k - ?N) + ?N) mod ?N" by simp
    also have "?r + (rb_dist rb + ?k - ?N) + ?N = ?r + rb_dist rb + ?k" using k by simp
    also have "(?r + rb_dist rb + ?k) mod ?N = (?w + ?k) mod ?N"
      unfolding f(2) by (simp add: mod_simps)
    finally have "(?r + (rb_dist rb + ?k - ?N)) mod ?N = unat w'" using w'(3) by simp
    moreover have "rb_dist rb - (rb_dist rb + ?k - ?N) = ?N - ?k" using k f by simp
    ultimately show ?thesis
      using circ_drop [of "rb_dist rb + ?k - ?N" "rb_dist rb" ?a ?r] k d rb_contentD(1) [OF inv] by simp
  qed
  ultimately show "rb_content rb2 = drop (rb_dist rb + ?k - ?N) (rb_content rb) @ ?xs" using i(2) by simp
qed

lemma rb_put_force_law:
  assumes inv: "rb_inv rb" and len: "unat len \<le> length ptr"
  shows "\<exists>rb'. rt_ringbuffer_put_force rb ptr len = Some (of_nat (min (unat len) (rb_cap rb)), rb') \<and>
    rb_inv rb' \<and> rb_cap rb' = rb_cap rb \<and>
    rb_content rb' = drop (length (rb_content rb) + unat len - rb_cap rb)
                       (rb_content rb @ take (unat len) ptr)"
proof -
  note d = rb_invD [OF inv] and f = rb_dist_facts [OF inv] and c = rb_contentD(2) [OF inv]
  let ?N = "rb_cap rb"
  define sp where "sp = (ucast (rt_ringbuffer_space_len rb) :: u16)"
  have sp: "unat sp = ?N - rb_dist rb" using unat_space_len(2) [OF inv] by (simp add: sp_def)
  define p l where "p = (if uint len > rb_size rb then drop (to_size (uint len - rb_size rb)) ptr else ptr)"
    and "l = (if uint len > rb_size rb then word_of_int (rb_size rb) else len)"
  have gt: "uint len > rb_size rb \<longleftrightarrow> ?N < unat len"
    unfolding d(1) uint_nat by (simp only: of_nat_less_iff)
  have l: "unat l = min (unat len) ?N"
    using gt d by (simp add: l_def unat_of_nat_lt)
  have off: "to_size (uint len - rb_size rb) = unat len - ?N" if "?N < unat len"
  proof -
    have "unat len < 4294967296" by (rule less_trans [OF u16_bound]) simp
    then show ?thesis using rb_rest [of ?N "unat len"] that d(1) by simp
  qed
  have p: "p = drop (unat len - ?N) ptr"
    using gt off by (simp add: p_def)
  have take_l: "take (unat l) p = drop (unat len - ?N) (take (unat len) ptr)"
    by (simp add: p l drop_take min_def)
  have pair: "(if uint len > rb_size rb
      then (drop (to_size (uint len - rb_size rb)) ptr, word_of_int (rb_size rb)) else (ptr, len)) = (p, l)"
    by (simp add: p_def l_def)
  have lN: "unat l \<le> ?N" and lp: "unat l \<le> length p" using l p len by auto
  have ul: "(ucast l :: u32) = of_nat (min (unat len) ?N)" unfolding l [symmetric] by (rule ucast_u16_u32)
  obtain rb1 wrapped where copy: "rb_copy_in rb p l = Some (rb1, wrapped)"
    using rb_copy_in_law [OF inv lN lp] by auto
  show ?thesis
  proof (cases "sp < l")
    case True
    define flip where "flip \<longleftrightarrow> wrapped \<and> write_index rb1 \<le> read_index rb1"
    define rb2 where "rb2 = rb1\<lparr>read_mirror := (read_mirror rb1 \<noteq> flip), read_index := write_index rb1\<rparr>"
    have over: "?N < rb_dist rb + unat l" using True sp by (simp add: word_less_nat_alt)
    have "rt_ringbuffer_put_force rb ptr len = Some (ucast l, rb2)"
      using copy True
      by (simp add: rt_ringbuffer_put_force_def Let_def sp_def [symmetric] pair rb2_def flip_def)
    moreover have "drop (rb_dist rb + unat l - ?N) (rb_content rb) @ take (unat l) p =
        drop (rb_dist rb + unat len - ?N) (rb_content rb @ take (unat len) ptr)"
      unfolding take_l using l f c by (cases "?N < unat len") simp_all
    ultimately show ?thesis
      using rb_force_overrun [OF inv over lN lp copy] c ul unfolding flip_def rb2_def by simp
  next
    case False
    then have fits: "rb_dist rb + unat l \<le> ?N" using sp f by (simp add: word_less_nat_alt)
    have "rt_ringbuffer_put_force rb ptr len = Some (ucast l, rb1)"
      using copy False by (simp add: rt_ringbuffer_put_force_def Let_def sp_def [symmetric] pair)
    moreover have "rb_inv rb1" "rb_cap rb1 = ?N" "rb_content rb1 = rb_content rb @ take (unat l) p"
      using rb_write_fits [OF inv fits lp] copy by auto
    moreover have "rb_content rb @ take (unat l) p =
        drop (rb_dist rb + unat len - ?N) (rb_content rb @ take (unat len) ptr)"
    proof (cases "?N < unat len")
      case True
      then have "rb_dist rb = 0" using fits l by simp
      then have "rb_content rb = []" using c by (simp only: length_0_conv)
      then show ?thesis using \<open>rb_dist rb = 0\<close> by (simp add: take_l)
    qed (use fits l c in \<open>simp add: p\<close>)
    ultimately show ?thesis using c ul by simp
  qed
qed

subsection \<open>Reading\<close>


subsection \<open>The queue interface\<close>








text \<open>A single byte.\<close>

lemma rb_copy_in_byte:
  assumes inv: "rb_inv rb" and m_def: "m = (buffer_ptr rb)[unat (write_index rb) := ch]"
  shows "rb_copy_in rb [ch] 1 =
    Some (if uint (write_index rb) = rb_size rb - 1
          then (rb\<lparr>buffer_ptr := m, write_mirror := \<not> write_mirror rb, write_index := 0\<rparr>, True)
          else (rb\<lparr>buffer_ptr := m, write_index := write_index rb + 1\<rparr>, False))"
proof -
  note d = rb_invD [OF inv]
  let ?w = "unat (write_index rb)"
  have uw: "uint (write_index rb) = int ?w" by (rule uint_nat)
  have blit: "blit (buffer_ptr rb) ?w [ch] = Some m"
    using d upd_conv_take_nth_drop [of ?w "buffer_ptr rb" ch] by (simp add: blit_def m_def)
  have empty: "blit m 0 [] = Some m" by (simp add: blit_def)
  show ?thesis
  proof (cases "?w = rb_cap rb - 1")
    case True
    then have "rb_size rb - uint (write_index rb) = 1" using d(1,3) uw by simp
    moreover from this have "uint (write_index rb) = rb_size rb - 1" by simp
    ultimately show ?thesis using blit empty by (simp add: rb_copy_in_def to_size_def subarr_def)
  next
    case False
    then have "?w + 1 < rb_cap rb" using d by simp
    then have "1 < rb_size rb - uint (write_index rb)" "uint (write_index rb) \<noteq> rb_size rb - 1"
      unfolding d(1) uw by linarith+
    then show ?thesis using blit by (simp add: rb_copy_in_def subarr_def)
  qed
qed

lemma rb_space_zero:
  assumes "rb_inv rb"
  shows "(ucast (rt_ringbuffer_space_len rb) :: u16) = 0 \<longleftrightarrow> rt_ringbuffer_space_len rb = 0"
  by (metis unat_space_len [OF assms] unat_0 word_unat_eq_iff)

lemma rb_full_space:
  assumes "rb_inv rb"
  shows "rt_ringbuffer_status rb = RT_RINGBUFFER_FULL \<longleftrightarrow> rt_ringbuffer_space_len rb = 0"
proof -
  note d = rb_invD [OF assms] and f = rb_dist_facts [OF assms]
  have "rt_ringbuffer_space_len rb = 0 \<longleftrightarrow> rb_dist rb = rb_cap rb"
    using unat_space_len(1) [OF assms] f by (auto simp: word_unat_eq_iff)
  also have "\<dots> \<longleftrightarrow> rt_ringbuffer_status rb = RT_RINGBUFFER_FULL"
    using d assms
    by (auto simp: rb_dist_def rt_ringbuffer_status_def word_unat_eq_iff rb_inv_def word_le_nat_alt
        split: if_splits)
  finally show ?thesis by simp
qed

subsection \<open>Properties\<close>

text \<open>A buffer of four bytes with content 1, 2, 3, wrapped round the end.\<close>

definition rb_sample :: rt_ringbuffer where
  "rb_sample = \<lparr>buffer_ptr = [3, 0, 1, 2], read_mirror = False, read_index = 2, write_mirror = True,
     write_index = 1, buffer_size = 4\<rparr>"

lemma rb_sample_inv: "rb_inv rb_sample" "rb_content rb_sample = [1, 2, 3]" "rb_cap rb_sample = 4"
  by code_simp+



text \<open>\<open>rt_ringbuffer_put_force\<close> always accepts the block, up to the size of the pool, and what the
  buffer holds afterwards is the newest bytes of the old content followed by the block: only the
  oldest bytes are overwritten, and none while there is room.\<close>

theorem rt_ringbuffer_put_force_newest:
  assumes "rb_inv rb" "unat len \<le> length ptr"
  shows "\<exists>rb'. rt_ringbuffer_put_force rb ptr len = Some (of_nat (min (unat len) (rb_cap rb)), rb') \<and>
    rb_inv rb' \<and> rb_cap rb' = rb_cap rb \<and>
    rb_content rb' = drop (length (rb_content rb) + unat len - rb_cap rb)
                       (rb_content rb @ take (unat len) ptr)"
  using assms by (rule rb_put_force_law)

theorem rt_ringbuffer_put_force_newest_witness:
  "\<exists>rb'. rt_ringbuffer_put_force rb_sample [7, 8, 9] 3 = Some (3, rb') \<and> rb_inv rb' \<and>
    rb_cap rb' = 4 \<and> rb_content rb' = [3, 7, 8, 9]"
  using rt_ringbuffer_put_force_newest [of rb_sample 3 "[7, 8, 9]"]
  by (simp add: rb_sample_inv del: length_rb_content)

text \<open>The single-byte routines are the block routines on blocks of one byte, in every state of the
  buffer: same result, same bytes, same positions and mirrors.\<close>

theorem rt_ringbuffer_char_ops:
  assumes inv: "rb_inv rb"
  shows "rt_ringbuffer_putchar rb ch = rt_ringbuffer_put rb [ch] 1 \<and>
    rt_ringbuffer_putchar_force rb ch = rt_ringbuffer_put_force rb [ch] 1 \<and>
    map_option (\<lambda>(n, c, rb'). (n, [c], rb')) (rt_ringbuffer_getchar rb ch) = rt_ringbuffer_get rb [ch] 1"
proof (intro conjI)
  note d = rb_invD [OF inv]
  have w: "wr (buffer_ptr rb) (unat (write_index rb)) ch =
      Some ((buffer_ptr rb)[unat (write_index rb) := ch])" using d by simp
  note copy = rb_copy_in_byte [OF inv refl]
  show "rt_ringbuffer_putchar rb ch = rt_ringbuffer_put rb [ch] 1"
    using w copy rb_space_zero [OF inv]
    by (simp add: rt_ringbuffer_putchar_def rt_ringbuffer_put_def Let_def rb_size_def word_less_one)
  have sp: "(ucast (rt_ringbuffer_space_len rb) :: u16) < 1 \<longleftrightarrow>
      rt_ringbuffer_status rb = RT_RINGBUFFER_FULL"
    unfolding word_less_one rb_full_space [OF inv] by (rule rb_space_zero [OF inv])
  have le: "\<not> 1 > rb_size rb" using d(1,3) by simp
  show "rt_ringbuffer_putchar_force rb ch = rt_ringbuffer_put_force rb [ch] 1"
    using w copy sp le
    by (simp add: rt_ringbuffer_putchar_force_def rt_ringbuffer_put_force_def Let_def rb_size_def)
  let ?r = "unat (read_index rb)"
  have ur: "uint (read_index rb) = int ?r" by (rule uint_nat)
  have len: "(if rt_ringbuffer_data_len rb < ucast (1 :: u16) then ucast (rt_ringbuffer_data_len rb) else 1) = (1 :: u16)"
    if "rt_ringbuffer_data_len rb \<noteq> 0"
    using that by (simp add: word_less_one)
  have take1: "take (Suc 0) (drop ?r (buffer_ptr rb)) = [buffer_ptr rb ! ?r]"
    using d by (simp add: take_Suc_conv_app_nth)
  show "map_option (\<lambda>(n, c, rb'). (n, [c], rb')) (rt_ringbuffer_getchar rb ch) = rt_ringbuffer_get rb [ch] 1"
  proof (cases "rt_ringbuffer_data_len rb = 0")
    case True
    then show ?thesis by (simp add: rt_ringbuffer_getchar_def rt_ringbuffer_get_def)
  next
    case False
    show ?thesis
    proof (cases "?r = rb_cap rb - 1")
      case True
      then have "rb_size rb - uint (read_index rb) = 1" using d(1,3) ur by simp
      moreover from this have "uint (read_index rb) = rb_size rb - 1" by simp
      ultimately show ?thesis using False d len [OF False] take1
        by (simp add: rt_ringbuffer_getchar_def rt_ringbuffer_get_def Let_def to_size_def subarr_def blit_def)
    next
      case no: False
      then have "?r + 1 < rb_cap rb" using d by simp
      then have "1 < rb_size rb - uint (read_index rb)" "uint (read_index rb) \<noteq> rb_size rb - 1"
        unfolding d(1) ur by linarith+
      then show ?thesis using False d len [OF False] take1
        by (simp add: rt_ringbuffer_getchar_def rt_ringbuffer_get_def Let_def subarr_def blit_def)
    qed
  qed
qed

theorem rt_ringbuffer_char_ops_witness:
  "rt_ringbuffer_putchar rb_sample 9 = rt_ringbuffer_put rb_sample [9] 1 \<and>
    rt_ringbuffer_putchar_force rb_sample 9 = rt_ringbuffer_put_force rb_sample [9] 1 \<and>
    map_option (\<lambda>(n, c, rb'). (n, [c], rb')) (rt_ringbuffer_getchar rb_sample 9) =
      rt_ringbuffer_get rb_sample [9] 1"
  using rb_sample_inv(1) by (rule rt_ringbuffer_char_ops)

text \<open>\<open>rt_ringbuffer_peek\<close> returns the address and length of the oldest bytes that lie in one piece,
  at least one if there is any, and, unlike what its name and comment say, removes them from the buffer.\<close>

theorem rt_ringbuffer_peek_consumes:
  assumes inv: "rb_inv rb" and ne: "rb_content rb \<noteq> []"
  shows "\<exists>n off rb'. rt_ringbuffer_peek rb = (n, Some off, rb') \<and> 0 < unat n \<and>
    subarr (buffer_ptr rb) off (unat n) = Some (take (unat n) (rb_content rb)) \<and>
    rb_inv rb' \<and> rb_content rb' = drop (unat n) (rb_content rb)"
proof -
  note d = rb_invD [OF inv] and f = rb_dist_facts [OF inv] and c = rb_contentD [OF inv]
  let ?r = "unat (read_index rb)" and ?N = "rb_cap rb" and ?m = "buffer_ptr rb" and ?d = "rb_dist rb"
  define sz where "sz = rt_ringbuffer_data_len rb"
  have sz: "unat sz = ?d" by (simp add: sz_def unat_data_len [OF inv])
  have d0: "0 < ?d" using ne c(2) by (metis length_greater_0_conv)
  have sz0: "sz \<noteq> 0" using sz d0 by auto
  have rest: "unat (word_of_int (rb_size rb - uint (read_index rb)) :: u32) = ?N - ?r"
    using rb_rest [of ?r ?N] d by (simp add: to_size_def)
  define k where "k = min ?d (?N - ?r)"
  have k: "0 < k" "k \<le> ?d" "?r + k \<le> ?N" using d0 d by (auto simp: k_def)
  have out: "subarr ?m ?r k = Some (take k (rb_content rb))"
    using k d by (simp add: c(1) circ_take circ_linear)
  obtain n rb' where pk: "rt_ringbuffer_peek rb = (n, Some ?r, rb')" "unat n = k"
    "write_index rb' = write_index rb" "write_mirror rb' = write_mirror rb" "buffer_ptr rb' = ?m"
    "rb_size rb' = rb_size rb" "unat (read_index rb') = (?r + k) mod ?N"
    "read_mirror rb' = (read_mirror rb \<noteq> (?N \<le> ?r + k))"
  proof (cases "?d < ?N - ?r")
    case True
    then have "sz < word_of_int (rb_size rb - uint (read_index rb))"
      using rest sz by (simp add: word_less_nat_alt)
    moreover have "unat (ucast sz :: 15 word) = ?d"
      using sz True d by (simp add: unsigned_ucast_eq take_bit_nat_eq_self)
    then have "unat (read_index rb + ucast sz) = ?r + ?d"
      using True d by (intro trans [OF unat_add_lt]) simp_all
    moreover have "\<not> ?N \<le> ?r + ?d" "k = ?d" using True by (simp_all add: k_def)
    ultimately show ?thesis
      using that [of sz "rb\<lparr>read_index := read_index rb + ucast sz\<rparr>"] True sz sz0
      by (simp add: rt_ringbuffer_peek_def sz_def [symmetric] k_def rb_size_def)
  next
    case False
    then have "\<not> sz < word_of_int (rb_size rb - uint (read_index rb))"
      using rest sz by (simp add: word_less_nat_alt)
    then show ?thesis
      using that [of "word_of_int (rb_size rb - uint (read_index rb))"
          "rb\<lparr>read_mirror := \<not> read_mirror rb, read_index := 0\<rparr>"] False rest sz0 d
      by (simp add: rt_ringbuffer_peek_def sz_def [symmetric] k_def rb_size_def)
  qed
  have r': "unat (read_index rb') = (if ?r + k < ?N then ?r + k else 0)"
    using pk(7) k d by auto
  have "(unat (read_index rb') + (?d - k)) mod ?N = (?r + k + (?d - k)) mod ?N"
    unfolding pk(7) by (rule mod_add_left_eq)
  then have wi: "unat (write_index rb') = (unat (read_index rb') + (?d - k)) mod ?N"
    using f k pk(3) by simp
  have mir: "read_mirror rb' = write_mirror rb' \<longleftrightarrow> unat (read_index rb') + (?d - k) < ?N"
    using rb_mirrors [OF inv] r' k f d pk(4,8) by (auto split: if_splits)
  have "unat (read_index rb') < ?N" unfolding pk(7) using d by (intro mod_less_divisor) simp
  then have "rb_inv rb'" "rb_content rb' = circ ?m (unat (read_index rb')) (?d - k)"
    using rb_intro [OF _ _ _ _ wi mir] d f pk(5,6) by simp_all
  moreover have "circ ?m (unat (read_index rb')) (?d - k) = drop k (rb_content rb)"
    using circ_drop [of k ?d ?m ?r] k c d pk(7) by simp
  ultimately show ?thesis using pk(1,2) k(1) out by auto
qed

theorem rt_ringbuffer_peek_consumes_witness:
  "\<exists>n off rb'. rt_ringbuffer_peek rb_sample = (n, Some off, rb') \<and> 0 < unat n \<and>
    subarr (buffer_ptr rb_sample) off (unat n) = Some (take (unat n) (rb_content rb_sample)) \<and>
    rb_inv rb' \<and> rb_content rb' = drop (unat n) (rb_content rb_sample)"
  by (rule rt_ringbuffer_peek_consumes) (simp_all add: rb_sample_inv)

end
