(* ===== verification/Rtc.thy ===== *)
theory Rtc
  imports Prelude
begin

text \<open>
  The calendar (\<open>bsp/src/bsp_rtc.c\<close>): the hardware counts seconds since 1970, and \<open>RTC_Get\<close> turns
  the counter into the fields of \<open>RtcDateTime\<close>. The state \<open>rtc\<close> holds the counter, the clock
  registers the driver sets up, the global \<open>RtcDateTime\<close> and the static \<open>daycnt\<close>, the day for which
  the date fields were last computed. The first part is the code; the second proves it against a
  reference calendar. The result \<open>None\<close> is a read outside one of the constant tables.
\<close>

subsection \<open>State\<close>

record TsRtcDateTime =
  second :: u8
  minute :: u8
  hour :: u8
  day :: u8
  month :: u8
  year :: u16
  rtc_wday :: u8
  week_day :: u32

record rtc =
  rtc_counter :: u32
  rtc_prescaler :: u32
  rtc_clk :: bool
  bkp_dr1 :: u16
  RtcDateTime :: TsRtcDateTime
  daycnt :: u16

definition RTC_FIRST_INIT_VALUE :: u16 where "RTC_FIRST_INIT_VALUE = 0x1314"

definition table_week :: "u8 list" where
  "table_week = [0, 3, 3, 6, 1, 4, 6, 2, 5, 0, 3, 5]"

definition mon_table :: "u8 list" where
  "mon_table = [31, 28, 31, 30, 31, 30, 31, 31, 30, 31, 30, 31]"

definition week :: "string list" where
  "week = [''Monday'', ''Tuesday'', ''Wednesday'', ''Thursday'', ''Friday'', ''Saturday'', ''Sunday'']"

subsection \<open>Operations\<close>

definition RTC_Get_Week :: "u16 \<Rightarrow> u8 \<Rightarrow> u8 \<Rightarrow> u8 option" where
  "RTC_Get_Week y m d =
     (let yearH = ucast (y div 100) :: u8;
          yearL = ucast (y mod 100) :: u8;
          yearL = (if yearH > 19 then yearL + 100 else yearL);
          temp2 = ucast yearL + ucast (yearL div 4) :: u16;
          temp2 = temp2 mod 7
      in do {
        rt_assert (m \<ge> 1);
        w \<leftarrow> rd table_week (unat m - 1);
        let temp2 = temp2 + ucast d + ucast w;
        let temp2 = (if yearL mod 4 = 0 \<and> m < 3 then temp2 - 1 else temp2);
        Some (ucast (temp2 mod 7)) })"

definition Is_Leap_Year :: "u16 \<Rightarrow> bool" where
  "Is_Leap_Year y =
     (if y mod 4 = 0 then (if y mod 100 = 0 then (if y mod 400 = 0 then True else False) else True)
      else False)"

text \<open>The two loops of \<open>RTC_Get\<close>: the year, then the month; both return the days left over.\<close>

function rtc_year_loop :: "u32 \<Rightarrow> u16 \<Rightarrow> u32 \<times> u16" where
  "rtc_year_loop temp temp1 =
     (if temp \<ge> 365
      then if Is_Leap_Year temp1
           then if temp \<ge> 366 then rtc_year_loop (temp - 366) (temp1 + 1) else (temp, temp1 + 1)
           else rtc_year_loop (temp - 365) (temp1 + 1)
      else (temp, temp1))"
  by auto

termination
  by (relation "measure (\<lambda>(temp, _). unat temp)") (auto simp: word_le_nat_alt unat_sub_le)

lemma mon_table_28: "i < 12 \<Longrightarrow> 28 \<le> unat (mon_table ! i)"
proof -
  assume "i < 12"
  then have "i \<in> set [0..<12]" by simp
  then show ?thesis by (auto simp: upt_rec mon_table_def)
qed

lemma length_mon_table [simp]: "length mon_table = 12"
  by (simp add: mon_table_def)

function rtc_month_loop :: "u16 \<Rightarrow> u32 \<Rightarrow> u16 \<Rightarrow> (u32 \<times> u16) option" where
  "rtc_month_loop y temp temp1 =
     (if temp \<ge> 28
      then if Is_Leap_Year y \<and> temp1 = 1
           then if temp \<ge> 29 then rtc_month_loop y (temp - 29) (temp1 + 1) else Some (temp, temp1)
           else if unat temp1 < length mon_table
                then if temp \<ge> ucast (mon_table ! unat temp1)
                     then rtc_month_loop y (temp - ucast (mon_table ! unat temp1)) (temp1 + 1)
                     else Some (temp, temp1)
                else None
      else Some (temp, temp1))"
  by pat_completeness auto

termination
proof (relation "measure (\<lambda>(_, temp, _). unat temp)")
  fix y temp temp1
  assume "temp \<ge> ucast (mon_table ! unat temp1)" "unat temp1 < length mon_table" "28 \<le> (temp :: u32)"
  moreover have "unat (ucast (mon_table ! unat temp1) :: u32) = unat (mon_table ! unat temp1)"
    by (rule unat_ucast_up) simp
  ultimately show "((y, temp - ucast (mon_table ! unat temp1), temp1 + 1), y, temp, temp1)
      \<in> measure (\<lambda>(_, temp, _). unat temp)"
    using mon_table_28 [of "unat temp1"] by (simp add: unat_sub_le word_le_nat_alt)
qed (auto simp: word_le_nat_alt unat_sub_le)

declare rtc_year_loop.simps [simp del] rtc_month_loop.simps [simp del]

definition RTC_Get :: "rtc \<Rightarrow> (u32 \<times> rtc) option" where
  "RTC_Get s =
     (let timecount = rtc_counter s;
          temp = timecount div 86400
      in do {
        s \<leftarrow> (if ucast (daycnt s) \<noteq> temp
              then let (temp', temp1) = rtc_year_loop temp 1970;
                       dt = (RtcDateTime s)\<lparr>year := temp1\<rparr>
                   in do {
                     (temp', temp1) \<leftarrow> rtc_month_loop (year dt) temp' 0;
                     Some (s\<lparr>daycnt := ucast temp,
                             RtcDateTime := dt\<lparr>month := ucast (temp1 + 1), day := ucast (temp' + 1)\<rparr>\<rparr>) }
              else Some s);
        let temp = timecount mod 86400;
        let dt = (RtcDateTime s)\<lparr>hour := ucast (temp div 3600), minute := ucast (temp mod 3600 div 60),
                                 second := ucast (temp mod 3600 mod 60)\<rparr>;
        w \<leftarrow> RTC_Get_Week (year dt) (month dt) (day dt);
        Some (timecount, s\<lparr>RtcDateTime := dt\<lparr>rtc_wday := w, week_day := ucast w - 1\<rparr>\<rparr>) })"

text \<open>The loops of \<open>RTC_Set\<close>: the years from \<open>t\<close> on, \<open>n\<close> of them; the months from \<open>t\<close> on.\<close>

fun rtc_set_years :: "nat \<Rightarrow> u16 \<Rightarrow> u32 \<Rightarrow> u32" where
  "rtc_set_years 0 t seccount = seccount"
| "rtc_set_years (Suc n) t seccount =
     rtc_set_years n (t + 1) (seccount + (if Is_Leap_Year t then 31622400 else 31536000))"

fun rtc_set_months :: "u16 \<Rightarrow> nat \<Rightarrow> nat \<Rightarrow> u32 \<Rightarrow> u32 option" where
  "rtc_set_months syear 0 t seccount = Some seccount"
| "rtc_set_months syear (Suc n) t seccount =
     do { l \<leftarrow> rd mon_table t;
          let seccount = seccount + ucast l * 86400;
          let seccount = (if Is_Leap_Year syear \<and> t = 1 then seccount + 86400 else seccount);
          rtc_set_months syear n (Suc t) seccount }"

definition RTC_Set ::
  "rtc \<Rightarrow> u16 \<Rightarrow> u8 \<Rightarrow> u8 \<Rightarrow> u8 \<Rightarrow> u8 \<Rightarrow> u8 \<Rightarrow> (u8 \<times> rtc) option" where
  "RTC_Set s syear smon sday h mi sec =
     (if syear < 1970 \<or> syear > 2099 then Some (1, s)
      else do {
        let seccount = rtc_set_years (unat syear - 1970) 1970 0;
        let smon = smon - 1;
        seccount \<leftarrow> rtc_set_months syear (unat smon) 0 seccount;
        let seccount = seccount + (ucast sday - 1) * 86400;
        let seccount = seccount + ucast h * 3600;
        let seccount = seccount + ucast mi * 60;
        let seccount = seccount + ucast sec;
        Some (0, s\<lparr>rtc_counter := seccount\<rparr>) })"

text \<open>The shell command, given the \<open>atoi\<close> values of its arguments.\<close>

definition BSP_Rtc_Set :: "rtc \<Rightarrow> int list \<Rightarrow> rtc option" where
  "BSP_Rtc_Set s argv =
     (if length argv = 6
      then map_option snd (RTC_Set s (word_of_int (argv ! 0)) (word_of_int (argv ! 1))
             (word_of_int (argv ! 2)) (word_of_int (argv ! 3)) (word_of_int (argv ! 4))
             (word_of_int (argv ! 5)))
      else Some s)"

text \<open>\<open>BSP_Get_RTC_Time\<close> prints the name of the day: the entry of \<open>week\<close> it passes to the log.\<close>

definition BSP_Get_RTC_Time :: "rtc \<Rightarrow> (string \<times> rtc) option" where
  "BSP_Get_RTC_Time s =
     do { (_, s) \<leftarrow> RTC_Get s;
          name \<leftarrow> rd week (unat (week_day (RtcDateTime s)));
          Some (name, s) }"

text \<open>
  The set-up. \<open>lse i\<close> is the oscillator's ready flag at its \<open>i\<close>-th reading in \<open>RTC_First_Init\<close>; the loop
  reads it at most 251 times.
\<close>

fun rtc_lse_wait :: "(nat \<Rightarrow> bool) \<Rightarrow> nat \<Rightarrow> nat \<Rightarrow> nat" where
  "rtc_lse_wait lse temp 0 = temp"
| "rtc_lse_wait lse temp (Suc n) =
     (if \<not> lse temp \<and> temp < 250 then rtc_lse_wait lse (Suc temp) n else temp)"

definition RTC_First_Init :: "(nat \<Rightarrow> bool) \<Rightarrow> rtc \<Rightarrow> u8 \<times> rtc" where
  "RTC_First_Init lse s =
     (if rtc_lse_wait lse 0 251 \<ge> 250 then (1, s)
      else (0, s\<lparr>rtc_clk := True, rtc_prescaler := 32767, bkp_dr1 := RTC_FIRST_INIT_VALUE\<rparr>))"

definition BSP_RTC_Init :: "bool \<Rightarrow> (nat \<Rightarrow> bool) \<Rightarrow> rtc \<Rightarrow> (string \<times> rtc) option" where
  "BSP_RTC_Init lserdy lse s =
     BSP_Get_RTC_Time
       (if \<not> lserdy \<or> bkp_dr1 s \<noteq> RTC_FIRST_INIT_VALUE then snd (RTC_First_Init lse s)
        else s\<lparr>rtc_clk := True\<rparr>)"

text \<open>The interrupt: the flags of the second and of the alarm.\<close>

definition RTC_IRQHandler :: "bool \<Rightarrow> bool \<Rightarrow> rtc \<Rightarrow> rtc option" where
  "RTC_IRQHandler sec alr s =
     do { s \<leftarrow> (if sec then map_option snd (RTC_Get s) else Some s);
          if alr then map_option snd (RTC_Get s) else Some s }"

subsection \<open>The reference calendar\<close>

text \<open>Gregorian years and months, and the number of the day since 1970-01-01.\<close>

definition leap :: "nat \<Rightarrow> bool" where
  "leap y \<longleftrightarrow> y mod 4 = 0 \<and> (y mod 100 \<noteq> 0 \<or> y mod 400 = 0)"

definition year_days :: "nat \<Rightarrow> nat" where
  "year_days y = (if leap y then 366 else 365)"

definition mon_days :: "nat \<Rightarrow> nat \<Rightarrow> nat" where
  "mon_days y m =
     (if leap y \<and> m = 2 then 29 else [31, 28, 31, 30, 31, 30, 31, 31, 30, 31, 30, 31] ! (m - 1))"

definition days_before_year :: "nat \<Rightarrow> nat" where
  "days_before_year y = (\<Sum>k = 1970..<y. year_days k)"

definition days_before_month :: "nat \<Rightarrow> nat \<Rightarrow> nat" where
  "days_before_month y m = (\<Sum>k = 1..<m. mon_days y k)"

definition day_number :: "nat \<Rightarrow> nat \<Rightarrow> nat \<Rightarrow> nat" where
  "day_number y m d = days_before_year y + days_before_month y m + (d - 1)"

definition valid_date :: "nat \<Rightarrow> nat \<Rightarrow> nat \<Rightarrow> bool" where
  "valid_date y m d \<longleftrightarrow> 1970 \<le> y \<and> y \<le> 2099 \<and> 1 \<le> m \<and> m \<le> 12 \<and> 1 \<le> d \<and> d \<le> mon_days y m"

lemma Is_Leap_Year_leap: "Is_Leap_Year y = leap (unat y)"
  by (auto simp: Is_Leap_Year_def leap_def word_unat_eq_iff unat_mod)

lemma month_cases: "1 \<le> m \<Longrightarrow> m \<le> 12 \<Longrightarrow>
    m = 1 \<or> m = 2 \<or> m = 3 \<or> m = 4 \<or> m = 5 \<or> m = 6 \<or> m = 7 \<or> m = 8 \<or> m = 9 \<or> m = 10 \<or> m = 11 \<or> m = (12 :: nat)"
  by arith

lemma days_before_month_table:
  "1 \<le> m \<Longrightarrow> m \<le> 12 \<Longrightarrow> days_before_month y m =
     [0, 31, 59, 90, 120, 151, 181, 212, 243, 273, 304, 334] ! (m - 1) + (if leap y \<and> 2 < m then 1 else 0)"
  by (drule (1) month_cases) (elim disjE; simp add: days_before_month_def mon_days_def
      numeral_eq_Suc atLeastLessThanSuc)

lemma days_before_month_Suc: "1 \<le> m \<Longrightarrow> days_before_month y (Suc m) = days_before_month y m + mon_days y m"
  by (simp add: days_before_month_def)

lemma days_before_year_Suc: "1970 \<le> y \<Longrightarrow> days_before_year (Suc y) = days_before_year y + year_days y"
  by (simp add: days_before_year_def)

lemma mon_days_bounds: "1 \<le> m \<Longrightarrow> m \<le> 12 \<Longrightarrow> 28 \<le> mon_days y m \<and> mon_days y m \<le> 31"
  by (drule (1) month_cases) (elim disjE; simp add: mon_days_def)

lemma year_months: "days_before_month y 12 + mon_days y 12 = year_days y"
  by (simp add: days_before_month_table mon_days_def year_days_def)

lemma days_before_month_mono: "1 \<le> m \<Longrightarrow> m \<le> m' \<Longrightarrow> days_before_month y m \<le> days_before_month y m'"
  unfolding days_before_month_def by (rule sum_mono2) auto

lemma days_before_year_mono: "y \<le> y' \<Longrightarrow> days_before_year y \<le> days_before_year y'"
  unfolding days_before_year_def by (rule sum_mono2) auto

lemma day_of_year:
  assumes "valid_date y m d"
  shows "days_before_month y m + (d - 1) < year_days y"
proof -
  have "days_before_month y m + (d - 1) < days_before_month y (Suc m)"
    using assms by (auto simp: valid_date_def days_before_month_Suc)
  also have "\<dots> \<le> days_before_month y 13"
    using assms by (intro days_before_month_mono) (auto simp: valid_date_def)
  also have "\<dots> = year_days y" using days_before_month_Suc [of 12 y] year_months [of y] by simp
  finally show ?thesis .
qed

lemma leap_mod_4: "1970 \<le> y \<Longrightarrow> y \<le> 2099 \<Longrightarrow> leap y \<longleftrightarrow> y mod 4 = 0"
proof (cases "y mod 100 = 0")
  case True
  assume y: "1970 \<le> y" "y \<le> 2099"
  have "y = 100 * (y div 100)" using True by (metis mod_0_imp_dvd dvd_mult_div_cancel)
  moreover from this have "y div 100 = 20" using y by linarith
  ultimately have "y = 2000" by simp
  then show ?thesis by (simp add: leap_def)
qed (simp add: leap_def)

lemma days_before_year_closed:
  "1970 \<le> y \<Longrightarrow> y \<le> 2100 \<Longrightarrow> days_before_year y = 365 * (y - 1970) + (y - 1969) div 4"
proof (induction y rule: dec_induct)
  case base
  then show ?case by (simp add: days_before_year_def)
next
  case (step y)
  have leap: "leap y \<longleftrightarrow> y mod 4 = 0" using step by (intro leap_mod_4) simp_all
  have "days_before_year y = 365 * (y - 1970) + (y - 1969) div 4" using step by simp
  moreover have "(Suc y - 1969) div 4 = (y - 1969) div 4 + (if y mod 4 = 0 then 1 else 0)"
  proof -
    have S: "Suc y - 1969 = Suc (y - 1969)" using step(1) by simp
    have "y = 4 * 492 + Suc (y - 1969)" using step(1) by simp
    then have "y mod 4 = (4 * 492 + Suc (y - 1969)) mod 4" by simp
    also have "\<dots> = Suc (y - 1969) mod 4" by (rule mod_mult_self4)
    finally show ?thesis unfolding S by (simp add: div_Suc)
  qed
  moreover have "365 * (Suc y - 1970) = 365 * (y - 1970) + 365" using step(1) by simp
  moreover have "days_before_year (Suc y) = days_before_year y + (if y mod 4 = 0 then 366 else 365)"
    using step(1) leap by (simp add: days_before_year_Suc year_days_def)
  ultimately show ?case by simp
qed

lemma day_number_inj:
  assumes "valid_date y m d" "valid_date y' m' d'" "day_number y m d = day_number y' m' d'"
  shows "y = y' \<and> m = m' \<and> d = d'"
proof -
  have year_lt: "day_number a b c < day_number a' b' c'" if "valid_date a b c" "valid_date a' b' c'" "a < a'"
    for a b c a' b' c'
  proof -
    have "day_number a b c < days_before_year (Suc a)"
      using day_of_year [OF that(1)] that(1) by (simp add: day_number_def days_before_year_Suc valid_date_def)
    also have "\<dots> \<le> days_before_year a'" using that(3) by (intro days_before_year_mono) simp
    also have "\<dots> \<le> day_number a' b' c'" by (simp add: day_number_def)
    finally show ?thesis .
  qed
  have mon_lt: "day_number a b c < day_number a b' c'" if "valid_date a b c" "valid_date a b' c'" "b < b'"
    for a b c b' c'
  proof -
    have "day_number a b c < days_before_year a + days_before_month a (Suc b)"
      using that(1) by (auto simp: day_number_def days_before_month_Suc valid_date_def)
    also have "\<dots> \<le> days_before_year a + days_before_month a b'"
      using that(3) by (simp add: days_before_month_mono)
    also have "\<dots> \<le> day_number a b' c'" by (simp add: day_number_def)
    finally show ?thesis .
  qed
  have y: "y = y'" using year_lt assms by (metis linorder_neqE_nat less_irrefl)
  have m: "m = m'" using mon_lt assms y by (metis linorder_neqE_nat less_irrefl)
  show ?thesis using assms y m by (auto simp: day_number_def valid_date_def)
qed

subsection \<open>The conversion loops\<close>

lemma rtc_word_le:
  fixes t :: u32
  shows "28 \<le> t \<longleftrightarrow> 28 \<le> unat t" "29 \<le> t \<longleftrightarrow> 29 \<le> unat t"
    "365 \<le> t \<longleftrightarrow> 365 \<le> unat t" "366 \<le> t \<longleftrightarrow> 366 \<le> unat t"
  by (simp_all add: word_le_nat_alt)

lemma unat_of_year: "y \<le> 2100 \<Longrightarrow> unat (of_nat y :: u16) = y"
  by (intro unat_of_nat_lt) simp

lemma rtc_year_loop_ok:
  "y + n = y' \<Longrightarrow> y' \<le> 2099 \<Longrightarrow> unat t = (\<Sum>k = y..<y'. year_days k) + doy \<Longrightarrow> doy < year_days y' \<Longrightarrow>
     rtc_year_loop t (of_nat y) =
       (if leap y' \<and> doy = 365 then (365, of_nat (y' + 1)) else (of_nat doy, of_nat y'))"
proof (induction n arbitrary: y t)
  case 0
  have y: "unat (of_nat y :: u16) = y" using 0 by (intro unat_of_year) simp
  have t: "unat t = doy" "t = of_nat doy" using 0 word_of_nat_unat [of t] by simp_all
  show ?case
  proof (cases "doy < 365")
    case True
    then show ?thesis using 0 t by (subst rtc_year_loop.simps) (simp add: rtc_word_le)
  next
    case False
    then have d: "doy = 365" "leap y" using 0 by (auto simp: year_days_def split: if_splits)
    have "rtc_year_loop t (of_nat y) = (t, of_nat y + 1)"
      using t(1) d y by (subst rtc_year_loop.simps) (simp add: rtc_word_le Is_Leap_Year_leap)
    then show ?thesis using 0 d t(2) by (simp add: add.commute)
  qed
next
  case (Suc n)
  have y: "unat (of_nat y :: u16) = y" using Suc.prems by (intro unat_of_year) simp
  have "(\<Sum>k = y..<y'. year_days k) = year_days y + (\<Sum>k = Suc y..<y'. year_days k)"
    using Suc.prems by (intro sum.atLeast_Suc_lessThan) simp
  then have t: "unat t = year_days y + ((\<Sum>k = Suc y..<y'. year_days k) + doy)" using Suc.prems by simp
  have IH: "rtc_year_loop t' (of_nat (Suc y)) =
      (if leap y' \<and> doy = 365 then (365, of_nat (y' + 1)) else (of_nat doy, of_nat y'))"
    if "unat t' = unat t - year_days y" for t'
    using Suc.prems that t by (intro Suc.IH) simp_all
  have "rtc_year_loop t (of_nat y) =
      (if leap y then rtc_year_loop (t - 366) (of_nat (Suc y)) else rtc_year_loop (t - 365) (of_nat (Suc y)))"
    using t y by (subst rtc_year_loop.simps)
      (simp add: Is_Leap_Year_leap year_days_def rtc_word_le add.commute)
  also have "\<dots> = (if leap y' \<and> doy = 365 then (365, of_nat (y' + 1)) else (of_nat doy, of_nat y'))"
    using t IH [of "t - 366"] IH [of "t - 365"]
    by (simp add: year_days_def unat_sub_le rtc_word_le split: if_splits)
  finally show ?case .
qed

lemma mon_table_days:
  "j < 12 \<Longrightarrow> \<not> (leap y \<and> j = 1) \<Longrightarrow> unat (mon_table ! j) = mon_days y (Suc j)"
proof -
  assume "j < 12" and nl: "\<not> (leap y \<and> j = 1)"
  then have "j \<in> set [0..<12]" by simp
  with nl show ?thesis by (auto simp: upt_rec mon_table_def mon_days_def)
qed

lemma rtc_month_loop_ok:
  "j + n = j' \<Longrightarrow> j' \<le> 12 \<Longrightarrow> unat t = (\<Sum>k = Suc j..<Suc j'. mon_days (unat y) k) + d \<Longrightarrow>
   (if j' = 12 then d = 0 else d < mon_days (unat y) (Suc j')) \<Longrightarrow>
     rtc_month_loop y t (of_nat j) = Some (of_nat d, of_nat j')"
proof (induction n arbitrary: j t)
  case 0
  have t: "unat t = d" "t = of_nat d" using 0 word_of_nat_unat [of t] by simp_all
  show ?case
  proof (cases "j' = 12")
    case False
    then have j: "unat (of_nat j :: u16) = j" "j < 12" using 0 by (simp_all add: unat_of_nat_lt)
    then have j1: "(of_nat j :: u16) = 1 \<longleftrightarrow> j = 1" by (auto simp: word_unat_eq_iff)
    have u: "unat (ucast (mon_table ! j) :: u32) = unat (mon_table ! j)" by (rule unat_ucast_up) simp
    show ?thesis
    proof (cases "leap (unat y) \<and> j = 1")
      case True
      then show ?thesis using 0 False t(1) j1
        by (subst rtc_month_loop.simps)
          (simp add: Is_Leap_Year_leap rtc_word_le mon_days_def t(2) [symmetric])
    next
      case nl: False
      have "unat t < unat (ucast (mon_table ! j) :: u32)"
        unfolding u t(1) mon_table_days [OF j(2) nl] using 0 False by simp
      then have "\<not> ucast (mon_table ! j) \<le> t" by (simp add: word_le_nat_alt)
      then show ?thesis using 0 nl j j1 t(2)
        by (subst rtc_month_loop.simps) (auto simp: Is_Leap_Year_leap)
    qed
  qed (use 0 t in \<open>subst rtc_month_loop.simps, simp add: rtc_word_le\<close>)
next
  case (Suc n)
  then have j: "unat (of_nat j :: u16) = j" "j < 12" by (simp_all add: unat_of_nat_lt)
  then have j1: "(of_nat j :: u16) = 1 \<longleftrightarrow> j = 1" by (auto simp: word_unat_eq_iff)
  let ?l = "mon_days (unat y) (Suc j)"
  have "(\<Sum>k = Suc j..<Suc j'. mon_days (unat y) k) =
      ?l + (\<Sum>k = Suc (Suc j)..<Suc j'. mon_days (unat y) k)"
    using Suc.prems by (intro sum.atLeast_Suc_lessThan) simp
  then have t: "unat t = ?l + ((\<Sum>k = Suc (Suc j)..<Suc j'. mon_days (unat y) k) + d)"
    using Suc.prems by simp
  have l28: "28 \<le> ?l" using mon_days_bounds [of "Suc j" "unat y"] j by simp
  have IH: "rtc_month_loop y t' (of_nat (Suc j)) = Some (of_nat d, of_nat j')"
    if "unat t' = unat t - ?l" for t'
    using Suc.prems that t by (intro Suc.IH) simp_all
  have u: "unat (ucast (mon_table ! j) :: u32) = unat (mon_table ! j)" by (rule unat_ucast_up) simp
  show ?case
  proof (cases "leap (unat y) \<and> j = 1")
    case True
    then have l: "?l = 29" by (simp add: mon_days_def)
    then have t29: "29 \<le> unat t" using t by linarith
    then have "29 \<le> t" by (simp only: rtc_word_le)
    then have "unat (t - 29) = unat t - 29" by (simp add: unat_sub_le)
    then have "rtc_month_loop y (t - 29) (of_nat (Suc j)) = Some (of_nat d, of_nat j')"
      by (intro IH) (simp only: l)
    then show ?thesis using True j1 t29
      by (subst rtc_month_loop.simps) (simp add: Is_Leap_Year_leap rtc_word_le add.commute)
  next
    case nl: False
    have m: "unat (mon_table ! j) = ?l" by (rule mon_table_days [OF j(2) nl])
    have "28 \<le> t" "ucast (mon_table ! j) \<le> t" using t l28 m by (simp_all add: word_le_nat_alt u)
    moreover from this have "unat (t - ucast (mon_table ! j)) = unat t - ?l" by (simp add: unat_sub_le u m)
    ultimately show ?thesis using nl j j1 IH
      by (subst rtc_month_loop.simps) (auto simp: Is_Leap_Year_leap add.commute)
  qed
qed

subsection \<open>The day of the week\<close>

lemma week_years:
  assumes "1970 \<le> y" "y \<le> 2099"
  shows "(y - 1900 + (y - 1900) div 4 + 1) mod 7 =
    (days_before_year y + 4 + (if leap y then 1 else 0)) mod 7"
proof -
  define q r where "q = (y - 1968) div 4" and "r = (y - 1968) mod 4"
  have y: "y = 1968 + (4 * q + r)" and r: "r < 4" using assms by (simp_all add: q_def r_def)
  have l: "leap y \<longleftrightarrow> r = 0"
  proof -
    have "y = 4 * (492 + q) + r" using y by simp
    then have "y mod 4 = (4 * (492 + q) + r) mod 4" by (rule arg_cong)
    also have "\<dots> = r mod 4" by (rule mod_mult_self4)
    also have "\<dots> = r" using r by simp
    finally show ?thesis using leap_mod_4 [OF assms] by simp
  qed
  have "y - 1900 = 4 * (q + 17) + r" by (simp add: y)
  then have yl: "y - 1900 + (y - 1900) div 4 = 5 * q + r + 85" using r by simp
  have "days_before_year y + (if leap y then 1 else 0) + 730 = 1461 * q + 365 * r"
  proof (cases "r = 0")
    case True
    then have "y - 1970 + 2 = 4 * q" "y - 1969 = 4 * (q - 1) + 3" "1 \<le> q" using assms y by simp_all
    then have "(y - 1969) div 4 + 1 = q" "365 * (y - 1970) + 730 = 1460 * q" by simp_all
    then show ?thesis using days_before_year_closed [of y] assms True l by simp
  next
    case False
    then have "y - 1969 = 4 * q + (r - 1)" "365 * (y - 1970) + 730 = 1460 * q + 365 * r"
      using assms y by simp_all
    moreover from this have "(y - 1969) div 4 = q" using r by simp
    ultimately show ?thesis using days_before_year_closed [of y] assms False l by simp
  qed
  then have "5 * q + r + 86 + 7 * (208 * q + 52 * r) =
      days_before_year y + 4 + (if leap y then 1 else 0) + 7 * 116" by simp
  then have "(5 * q + r + 86) mod 7 = (days_before_year y + 4 + (if leap y then 1 else 0)) mod 7"
    by (metis mod_mult_self2)
  moreover have "y - 1900 + (y - 1900) div 4 + 1 = 5 * q + r + 86" using yl by simp
  ultimately show ?thesis by (simp only:)
qed

definition week_table :: "nat \<Rightarrow> nat" where
  "week_table m = [0, 3, 3, 6, 1, 4, 6, 2, 5, 0, 3, 5] ! (m - 1)"

lemma week_table_months:
  "1 \<le> m \<Longrightarrow> m \<le> 12 \<Longrightarrow>
     days_before_month y m = week_table m + 7 * ([0, 4, 8, 12, 17, 21, 25, 30, 34, 39, 43, 47] ! (m - 1)) +
       (if leap y \<and> 2 < m then 1 else 0)"
  by (frule (1) month_cases) (elim disjE; simp add: days_before_month_table week_table_def)

lemma week_months:
  assumes v: "valid_date y m d"
    and A: "(a + 1) mod 7 = (days_before_year y + 4 + (if leap y then 1 else 0)) mod 7"
  shows "(a mod 7 + d + week_table m - (if leap y \<and> m < 3 then 1 else 0)) mod 7 =
    (day_number y m d + 4) mod 7"
proof -
  have m: "1 \<le> m" "m \<le> 12" and d: "1 \<le> d" using v by (auto simp: valid_date_def)
  obtain e where e: "d = Suc e" using d by (cases d) auto
  define s where "s = [0, 4, 8, 12, 17, 21, 25, 30, 34, 39, 43, 47 :: nat] ! (m - 1)"
  have s: "days_before_month y m = week_table m + 7 * s + (if leap y \<and> 2 < m then 1 else 0)"
    unfolding s_def by (rule week_table_months [OF m])
  define P Q k c where "P = a mod 7 + 1" and "Q = days_before_year y + 4 + (if leap y then 1 else 0 :: nat)"
    and "k = e + week_table m" and "c = (if leap y \<and> m < 3 then 1 else 0 :: nat)"
  have PQ: "P mod 7 = Q mod 7" using A by (simp add: P_def Q_def mod_simps)
  have shift: "(p - 1 + k) mod 7 = (q - 1 + k) mod 7" if "p mod 7 = q mod 7" "1 \<le> p" "1 \<le> q"
    for p q k :: nat
  proof -
    have "(p + (6 + k)) mod 7 = (q + (6 + k)) mod 7" using that(1) by (intro mod_add_cong) simp_all
    moreover have "p + (6 + k) = p - 1 + k + 7" "q + (6 + k) = q - 1 + k + 7" using that by simp_all
    ultimately show ?thesis by (metis mod_add_self2)
  qed
  have "(P + k - c) mod 7 = (Q + k - c) mod 7"
  proof (cases "c = 0")
    case True
    then show ?thesis using PQ by (metis diff_zero mod_add_cong)
  next
    case False
    then have c: "c = 1" by (simp add: c_def split: if_splits)
    have one: "1 \<le> P" "1 \<le> Q" by (simp_all add: P_def Q_def)
    then have "P + k - 1 = P - 1 + k" "Q + k - 1 = Q - 1 + k" by simp_all
    then show ?thesis using shift [OF PQ one, of k] unfolding c by simp
  qed
  also have "\<dots> = (Q + k - c + 7 * s) mod 7" by simp
  also have "Q + k - c + 7 * s = day_number y m d + 4"
    by (auto simp: Q_def k_def c_def day_number_def e s)
  also have "P + k = a mod 7 + d + week_table m" by (simp add: P_def k_def e)
  finally show ?thesis unfolding c_def .
qed

lemma RTC_Get_Week_ok:
  assumes v: "valid_date (unat y) (unat m) (unat d)"
  shows "RTC_Get_Week y m d = Some (of_nat ((day_number (unat y) (unat m) (unat d) + 4) mod 7))"
proof -
  let ?y = "unat y" and ?m = "unat m" and ?d = "unat d"
  have b: "1970 \<le> ?y" "?y \<le> 2099" "1 \<le> ?m" "?m \<le> 12" "1 \<le> ?d" "?d \<le> 31"
    using v mon_days_bounds [of ?m ?y] by (auto simp: valid_date_def)
  define yl where "yl = ?y - 1900"
  define yearH yearL0 where "yearH = (ucast (y div 100) :: u8)" and "yearL0 = (ucast (y mod 100) :: u8)"
  define yearL where "yearL = (if yearH > 19 then yearL0 + 100 else yearL0)"
  have H: "unat yearH = ?y div 100"
    using b by (simp add: yearH_def unsigned_ucast_eq unat_div take_bit_nat_eq_self)
  have L0: "unat yearL0 = ?y mod 100"
    by (simp add: yearL0_def unsigned_ucast_eq unat_mod) (rule take_bit_nat_eq_self, simp)
  have dm: "?y = ?y div 100 * 100 + ?y mod 100" by simp
  have L: "unat yearL = yl"
  proof (cases "?y div 100 = 19")
    case True
    then show ?thesis using H L0 dm by (simp add: yearL_def word_less_nat_alt yl_def)
  next
    case False
    then have c: "?y div 100 = 20" using b by linarith
    have "unat (yearL0 + 100) = ?y mod 100 + 100" using L0 by (intro trans [OF unat_add_lt]) simp_all
    then show ?thesis using H c dm by (simp add: yearL_def word_less_nat_alt yl_def)
  qed
  have yl200: "yl < 200" using b by (simp add: yl_def)
  define t where "t = (yl + yl div 4) mod 7"
  have t2: "unat ((ucast yearL + ucast (yearL div 4) :: u16) mod 7) = t"
  proof -
    have "unat (ucast yearL + ucast (yearL div 4) :: u16) = yl + yl div 4"
      using L yl200 by (intro trans [OF unat_add_lt]) (simp_all add: unat_ucast_up unat_div)
    then show ?thesis by (simp add: unat_mod t_def)
  qed
  define w where "w = week_table ?m"
  have wt: "unat (table_week ! (?m - 1)) = w" "w \<le> 6" "?m - 1 < length table_week"
    using month_cases [OF b(3,4)] by (elim disjE; simp add: table_week_def w_def week_table_def)+
  have s2: "unat ((ucast yearL + ucast (yearL div 4) :: u16) mod 7 + ucast d + ucast (table_week ! (?m - 1))) =
      t + ?d + w"
    using t2 wt b by (subst unat_add_lt; (subst unat_add_lt)?) (simp_all add: unat_ucast_up t_def)
  define c where "c \<longleftrightarrow> leap ?y \<and> ?m < 3"
  have yl4: "yl mod 4 = ?y mod 4"
  proof -
    have "?y = yl + 4 * 475" using b by (simp add: yl_def)
    then show ?thesis by (metis mod_mult_self2)
  qed
  have cond: "yearL mod 4 = 0 \<and> m < 3 \<longleftrightarrow> c"
    using leap_mod_4 [OF b(1,2)] L yl4
    by (simp add: c_def word_unat_eq_iff unat_mod word_less_nat_alt)
  define x where "x = (ucast yearL + ucast (yearL div 4) :: u16) mod 7 + ucast d + ucast (table_week ! (?m - 1))"
  have ux: "unat x = t + ?d + w" unfolding x_def by (rule s2)
  have x: "unat (if c then x - 1 else x) = t + ?d + w - (if c then 1 else 0)"
    using ux b by (simp add: unat_sub_le word_le_nat_alt)
  have fin: "(t + ?d + w - (if c then 1 else 0)) mod 7 = (day_number ?y ?m ?d + 4) mod 7"
    using week_months [OF v] week_years [OF b(1,2)] unfolding t_def w_def c_def yl_def by blast
  have "RTC_Get_Week y m d = Some (ucast ((if c then x - 1 else x) mod 7))"
    using wt b cond
    by (simp add: RTC_Get_Week_def Let_def yearH_def [symmetric] yearL0_def [symmetric]
        yearL_def [symmetric] x_def word_le_nat_alt)
  moreover have "ucast ((if c then x - 1 else x) mod 7) = (of_nat ((day_number ?y ?m ?d + 4) mod 7) :: u8)"
  proof -
    have tb: "take_bit 8 (n mod 7) = n mod 7" for n :: nat
      by (rule take_bit_nat_eq_self) (rule less_trans [of _ 7], simp_all)
    have "unat (ucast ((if c then x - 1 else x) mod 7) :: u8) = unat ((if c then x - 1 else x) mod 7)"
      by (simp add: unsigned_ucast_eq unat_mod tb)
    also have "\<dots> = (day_number ?y ?m ?d + 4) mod 7" unfolding unat_mod x using fin by simp
    finally show ?thesis by (metis word_of_nat_unat)
  qed
  ultimately show ?thesis by simp
qed

subsection \<open>Reading the clock\<close>

text \<open>
  The cached date: either \<open>daycnt\<close> is still 0, or the date fields are the date of day \<open>daycnt\<close>.
\<close>

definition date_fields :: "TsRtcDateTime \<Rightarrow> nat \<Rightarrow> nat \<Rightarrow> nat \<Rightarrow> bool" where
  "date_fields dt y m d \<longleftrightarrow> unat (year dt) = y \<and> unat (month dt) = m \<and> unat (day dt) = d"

definition time_fields :: "TsRtcDateTime \<Rightarrow> nat \<Rightarrow> nat \<Rightarrow> nat \<Rightarrow> bool" where
  "time_fields dt h mi sc \<longleftrightarrow> unat (hour dt) = h \<and> unat (minute dt) = mi \<and> unat (second dt) = sc"

definition rtc_cache_ok :: "rtc \<Rightarrow> bool" where
  "rtc_cache_ok s \<longleftrightarrow> daycnt s = 0 \<or>
     (\<exists>y m d. valid_date y m d \<and> day_number y m d = unat (daycnt s) \<and> date_fields (RtcDateTime s) y m d)"

definition leap_year_end :: "nat \<Rightarrow> nat \<Rightarrow> nat \<Rightarrow> bool" where
  "leap_year_end y m d \<longleftrightarrow> leap y \<and> m = 12 \<and> d = 31"

lemma day_number_bound: "valid_date y m d \<Longrightarrow> day_number y m d < 47482"
proof -
  assume v: "valid_date y m d"
  then have y: "1970 \<le> y" "y \<le> 2099" by (auto simp: valid_date_def)
  have "day_number y m d < days_before_year (Suc y)"
    using day_of_year [OF v] y by (simp add: day_number_def days_before_year_Suc)
  also have "\<dots> \<le> days_before_year 2100" using y by (intro days_before_year_mono) simp
  also have "\<dots> = 47482" by (subst days_before_year_closed) simp_all
  finally show ?thesis .
qed

text \<open>The two loops together: the date of a day.\<close>

lemma rtc_loops_date:
  assumes v: "valid_date y m d" and nl: "\<not> leap_year_end y m d"
    and t: "unat t = day_number y m d"
  shows "\<exists>doy. rtc_year_loop t 1970 = (doy, of_nat y) \<and>
    rtc_month_loop (of_nat y) doy 0 = Some (of_nat (d - 1), of_nat (m - 1))"
proof -
  have y: "1970 \<le> y" "y \<le> 2099" and m: "1 \<le> m" "m \<le> 12" and d: "1 \<le> d" "d \<le> mon_days y m"
    using v by (auto simp: valid_date_def)
  define doy where "doy = days_before_month y m + (d - 1)"
  have doy: "doy < year_days y" unfolding doy_def by (rule day_of_year [OF v])
  have not_end: "\<not> (leap y \<and> doy = 365)"
  proof
    assume l: "leap y \<and> doy = 365"
    have "m = 12"
    proof (rule ccontr)
      assume "m \<noteq> 12"
      then have "days_before_month y (Suc m) \<le> days_before_month y 12"
        using m by (intro days_before_month_mono) simp_all
      moreover have "days_before_month y 12 \<le> 335" by (simp add: days_before_month_table)
      moreover have "days_before_month y m + (d - 1) = 365" using l by (simp add: doy_def)
      moreover have "days_before_month y (Suc m) = days_before_month y m + mon_days y m"
        using m by (intro days_before_month_Suc) simp
      ultimately show False using d by linarith
    qed
    then have "d = 31" using l d by (auto simp: doy_def days_before_month_table)
    then show False using nl l \<open>m = 12\<close> by (simp add: leap_year_end_def)
  qed
  have "rtc_year_loop t (of_nat 1970) = (of_nat doy, of_nat y)"
    using rtc_year_loop_ok [of 1970 "y - 1970" y t doy] y t doy not_end
    by (auto simp: day_number_def days_before_year_def doy_def)
  moreover have "rtc_month_loop (of_nat y) (of_nat doy) (of_nat 0) = Some (of_nat (d - 1), of_nat (m - 1))"
  proof (rule rtc_month_loop_ok)
    have u: "unat (of_nat y :: u16) = y" using y by (intro unat_of_year) simp
    have "doy < 4294967296" using doy by (simp add: year_days_def split: if_splits)
    then have ud: "unat (of_nat doy :: u32) = doy" by (intro unat_of_nat_lt) simp
    show "unat (of_nat doy :: u32) =
        sum (mon_days (unat (of_nat y :: u16))) {Suc 0..<Suc (m - 1)} + (d - 1)"
      unfolding ud u using m by (simp add: doy_def days_before_month_def)
    show "if m - 1 = 12 then d - 1 = 0 else d - 1 < mon_days (unat (of_nat y :: u16)) (Suc (m - 1))"
    proof -
      have "m - 1 \<noteq> 12" "Suc (m - 1) = m" "d - 1 < mon_days y m" using m d by linarith+
      then show ?thesis unfolding u by simp
    qed
  qed (use m in simp_all)
  ultimately show ?thesis by auto
qed

text \<open>On the last day of a leap year the year loop leaves in the year after, 365 days into it.\<close>

lemma rtc_loops_leap_end:
  assumes y: "1970 \<le> y" "y \<le> 2099" "leap y" and t: "unat t = day_number y 12 31"
  shows "rtc_year_loop t 1970 = (365, of_nat (Suc y))"
    "rtc_month_loop (of_nat (Suc y)) 365 0 = Some (0, 12)"
proof -
  have "day_number y 12 31 = days_before_year y + 365"
    using y by (simp add: day_number_def days_before_month_table)
  then have "rtc_year_loop t (of_nat 1970) = (365, of_nat (y + 1))"
    using rtc_year_loop_ok [of 1970 "y - 1970" y t 365] y t
    by (simp add: days_before_year_def year_days_def)
  then show "rtc_year_loop t 1970 = (365, of_nat (Suc y))" by simp
  have u: "unat (of_nat (Suc y) :: u16) = Suc y" using y by (intro unat_of_year) simp
  have "y mod 4 = 0" using leap_mod_4 [OF y(1,2)] y(3) by simp
  then have "Suc y mod 4 \<noteq> 0" by presburger
  then have nl: "\<not> leap (Suc y)" by (simp add: leap_def)
  have "(\<Sum>k = Suc 0..<Suc 12. mon_days (Suc y) k) = 365"
    using days_before_month_Suc [of 12 "Suc y"] year_months [of "Suc y"] nl
    by (simp add: days_before_month_def year_days_def)
  then have "rtc_month_loop (of_nat (Suc y)) 365 (of_nat 0) = Some (of_nat 0, of_nat 12)"
    by (intro rtc_month_loop_ok) (simp_all only: u, simp_all)
  then show "rtc_month_loop (of_nat (Suc y)) 365 0 = Some (0, 12)" by simp
qed

text \<open>The weekday names: the code's weekday counts from Sunday, the table from Monday.\<close>

definition the_weekday :: "nat \<Rightarrow> nat" where
  "the_weekday n = (n + 4) mod 7"

definition rtc_reads :: "rtc \<Rightarrow> nat \<Rightarrow> nat \<Rightarrow> nat \<Rightarrow> nat \<Rightarrow> rtc \<Rightarrow> bool" where
  "rtc_reads s y m d sod s' \<longleftrightarrow>
     rtc_counter s' = rtc_counter s \<and> rtc_prescaler s' = rtc_prescaler s \<and> rtc_clk s' = rtc_clk s \<and>
     bkp_dr1 s' = bkp_dr1 s \<and>
     date_fields (RtcDateTime s') y m d \<and>
     time_fields (RtcDateTime s') (sod div 3600) (sod mod 3600 div 60) (sod mod 60) \<and>
     unat (rtc_wday (RtcDateTime s')) = the_weekday (day_number y m d) \<and>
     week_day (RtcDateTime s') = ucast (rtc_wday (RtcDateTime s')) - 1 \<and>
     unat (daycnt s') = day_number y m d"

lemma unat_u8_of_u32: "unat x < 256 \<Longrightarrow> unat (ucast x :: u8) = unat x" for x :: u32
  by (simp add: unsigned_ucast_eq take_bit_nat_eq_self)

lemma rtc_split:
  fixes c :: u32
  assumes "unat c = n * 86400 + sod" "sod < 86400"
  shows "unat (c div 86400) = n" "unat (c mod 86400) = sod"
  using assms by (simp_all add: unat_div unat_mod)

lemma RTC_Get_date:
  assumes v: "valid_date y m d" and nl: "\<not> leap_year_end y m d"
    and c: "unat (rtc_counter s) = day_number y m d * 86400 + sod" "sod < 86400"
    and cached: "unat (daycnt s) = day_number y m d \<longrightarrow> date_fields (RtcDateTime s) y m d"
  shows "\<exists>s'. RTC_Get s = Some (rtc_counter s, s') \<and> rtc_reads s y m d sod s'"
proof -
  have ym: "1970 \<le> y" "y \<le> 2099" "1 \<le> m" "m \<le> 12" "1 \<le> d" "d \<le> 31"
    using v mon_days_bounds [of m y] by (auto simp: valid_date_def)
  define temp where "temp = rtc_counter s div 86400"
  define rest where "rest = rtc_counter s mod 86400"
  have temp: "unat temp = day_number y m d" and rest: "unat rest = sod"
    using rtc_split [OF c] by (simp_all add: temp_def rest_def)
  have t16: "unat (ucast temp :: u16) = day_number y m d"
    using temp day_number_bound [OF v] by (simp add: unsigned_ucast_eq take_bit_nat_eq_self)
  have same: "(ucast (daycnt s) :: u32) = temp \<longleftrightarrow> unat (daycnt s) = day_number y m d"
    using temp by (simp add: word_unat_eq_iff unat_ucast_up)
  obtain doy where loops: "rtc_year_loop temp 1970 = (doy, of_nat y)"
    "rtc_month_loop (of_nat y) doy 0 = Some (of_nat (d - 1), of_nat (m - 1))"
    using rtc_loops_date [OF v nl temp] by auto
  define s1 where "s1 = (if unat (daycnt s) = day_number y m d then s
    else s\<lparr>daycnt := ucast temp, RtcDateTime := (RtcDateTime s)\<lparr>year := of_nat y,
      month := ucast (of_nat (m - 1) + 1 :: u16), day := ucast (of_nat (d - 1) + 1 :: u32)\<rparr>\<rparr>)"
  have "(of_nat (m - 1) + 1 :: u16) = of_nat m" "(of_nat (d - 1) + 1 :: u32) = of_nat d"
    using ym by (simp_all add: of_nat_diff)
  moreover have "unat (ucast (of_nat m :: u16) :: u8) = m" "unat (ucast (of_nat d :: u32) :: u8) = d"
    using ym by (simp_all add: unsigned_ucast_eq unat_of_nat_lt take_bit_nat_eq_self)
  moreover have "unat (of_nat y :: u16) = y" using ym by (intro unat_of_year) simp
  ultimately have d1: "date_fields (RtcDateTime s1) y m d"
    using cached by (auto simp: s1_def date_fields_def)
  have dc: "unat (daycnt s1) = day_number y m d" using t16 by (simp add: s1_def)
  define dt where "dt = (RtcDateTime s1)\<lparr>hour := ucast (rest div 3600),
    minute := ucast (rest mod 3600 div 60), second := ucast (rest mod 3600 mod 60)\<rparr>"
  have dt: "date_fields dt y m d" using d1 by (simp add: dt_def date_fields_def)
  have r: "unat (rest div 3600) = sod div 3600" "unat (rest mod 3600 div 60) = sod mod 3600 div 60"
    "unat (rest mod 3600 mod 60) = sod mod 60"
    using rest by (simp_all add: unat_div unat_mod mod_mod_cancel)
  have "sod div 3600 < 256" "sod mod 3600 div 60 < 256" "sod mod 60 < 256"
    using c(2) by (simp_all add: div_less_iff_less_mult less_trans [OF mod_less_divisor])
  then have tf: "time_fields dt (sod div 3600) (sod mod 3600 div 60) (sod mod 60)"
    by (simp add: time_fields_def dt_def unat_u8_of_u32 r)
  define w where "w = (of_nat ((day_number y m d + 4) mod 7) :: u8)"
  have uw: "unat w = the_weekday (day_number y m d)"
  proof -
    have "(day_number y m d + 4) mod 7 < 256" by (rule less_trans [of _ 7]) simp_all
    then show ?thesis unfolding w_def the_weekday_def by (intro unat_of_nat_lt) simp
  qed
  have week: "RTC_Get_Week (year dt) (month dt) (day dt) = Some w"
    using RTC_Get_Week_ok [of "year dt" "month dt" "day dt"] v dt by (simp add: date_fields_def w_def)
  have "RTC_Get s = Some (rtc_counter s,
      s1\<lparr>RtcDateTime := dt\<lparr>rtc_wday := w, week_day := ucast w - 1\<rparr>\<rparr>)"
    using loops week
    by (cases "unat (daycnt s) = day_number y m d")
      (simp_all add: RTC_Get_def Let_def temp_def [symmetric] rest_def [symmetric] same s1_def dt_def)
  moreover have "rtc_reads s y m d sod (s1\<lparr>RtcDateTime := dt\<lparr>rtc_wday := w, week_day := ucast w - 1\<rparr>\<rparr>)"
    using dt tf uw dc by (simp add: rtc_reads_def date_fields_def time_fields_def s1_def)
  ultimately show ?thesis by blast
qed

lemma rtc_reads_cache: "rtc_reads s y m d sod s' \<Longrightarrow> valid_date y m d \<Longrightarrow> rtc_cache_ok s'"
  by (auto simp: rtc_reads_def rtc_cache_ok_def)

lemma rtc_cache_hit:
  assumes "rtc_cache_ok s" "valid_date y m d" "0 < day_number y m d"
  shows "unat (daycnt s) = day_number y m d \<longrightarrow> date_fields (RtcDateTime s) y m d"
proof
  assume eq: "unat (daycnt s) = day_number y m d"
  then have "daycnt s \<noteq> 0" using assms(3) by auto
  then obtain y' m' d' where "valid_date y' m' d'" "day_number y' m' d' = day_number y m d"
    "date_fields (RtcDateTime s) y' m' d'"
    using assms(1) eq by (auto simp: rtc_cache_ok_def)
  then show "date_fields (RtcDateTime s) y m d" using day_number_inj [OF _ assms(2)] by blast
qed

subsection \<open>Properties\<close>

definition rtc_boot :: rtc where
  "rtc_boot = \<lparr>rtc_counter = 0, rtc_prescaler = 0, rtc_clk = False, bkp_dr1 = 0,
     RtcDateTime = \<lparr>second = 0, minute = 0, hour = 0, day = 0, month = 0, year = 0, rtc_wday = 0,
       week_day = 0\<rparr>, daycnt = 0\<rparr>"

lemma rtc_boot_cache: "rtc_cache_ok rtc_boot"
  by (simp add: rtc_cache_ok_def rtc_boot_def)

text \<open>C29: Reading the clock, on every second of every day from 1970-01-02 to 2099-12-31 except the last day
  of a leap year, terminates and fills \<open>RtcDateTime\<close> with the Gregorian date, the time of day and
  the day of the week; the cached day count stays consistent with the fields, so the next reading
  is right again.\<close>

theorem RTC_Get_calendar:
  assumes "rtc_cache_ok s" "valid_date y m d" "\<not> leap_year_end y m d" "0 < day_number y m d"
    and "unat (rtc_counter s) = day_number y m d * 86400 + sod" "sod < 86400"
  shows "\<exists>s'. RTC_Get s = Some (rtc_counter s, s') \<and> rtc_reads s y m d sod s' \<and> rtc_cache_ok s'"
  using RTC_Get_date [OF assms(2,3,5,6) rtc_cache_hit [OF assms(1,2,4)]] rtc_reads_cache [OF _ assms(2)]
  by blast

theorem RTC_Get_calendar_witness:
  "\<exists>s'. RTC_Get (rtc_boot\<lparr>rtc_counter := 951782400\<rparr>) = Some (951782400, s') \<and>
    rtc_reads (rtc_boot\<lparr>rtc_counter := 951782400\<rparr>) 2000 2 29 0 s' \<and> rtc_cache_ok s'"
proof -
  have n: "day_number 2000 2 29 = 11016"
    by (simp add: day_number_def days_before_year_closed days_before_month_table)
  have "\<exists>s'. RTC_Get (rtc_boot\<lparr>rtc_counter := 951782400\<rparr>) =
      Some (rtc_counter (rtc_boot\<lparr>rtc_counter := 951782400\<rparr>), s') \<and>
    rtc_reads (rtc_boot\<lparr>rtc_counter := 951782400\<rparr>) 2000 2 29 0 s' \<and> rtc_cache_ok s'"
    by (rule RTC_Get_calendar)
      (use rtc_boot_cache in \<open>simp_all add: n rtc_cache_ok_def rtc_boot_def valid_date_def leap_def
        mon_days_def leap_year_end_def\<close>)
  then show ?thesis by simp
qed

text \<open>On the last day of every leap year \<open>RTC_Get\<close>, when it has to convert the date, computes month 13 of
  the next year and reads past the end of the weekday table.\<close>

theorem RTC_Get_leap_year_end:
  assumes "1970 \<le> y" "y \<le> 2099" "leap y" "sod < 86400"
    and c: "unat (rtc_counter s) = day_number y 12 31 * 86400 + sod"
    and "unat (daycnt s) \<noteq> day_number y 12 31"
  shows "RTC_Get s = None"
proof -
  define temp where "temp = rtc_counter s div 86400"
  have temp: "unat temp = day_number y 12 31" using rtc_split [OF c assms(4)] by (simp add: temp_def)
  have same: "(ucast (daycnt s) :: u32) \<noteq> temp"
    using temp assms(6) by (simp add: word_unat_eq_iff unat_ucast_up)
  have "RTC_Get_Week (of_nat (Suc y)) 13 d = None" for d
    by (simp add: RTC_Get_Week_def Let_def rd_def table_week_def)
  then show ?thesis
    using same rtc_loops_leap_end [OF assms(1-3) temp]
    by (simp add: RTC_Get_def Let_def temp_def [symmetric])
qed

theorem RTC_Get_leap_year_end_witness: "RTC_Get (rtc_boot\<lparr>rtc_counter := 1735603200\<rparr>) = None"
proof (rule RTC_Get_leap_year_end)
  have n: "day_number 2024 12 31 = 20088"
    by (simp add: day_number_def days_before_year_closed days_before_month_table leap_def)
  show "unat (rtc_counter (rtc_boot\<lparr>rtc_counter := 1735603200\<rparr>)) = day_number 2024 12 31 * 86400 + 0"
    by (simp add: n)
  show "unat (daycnt (rtc_boot\<lparr>rtc_counter := 1735603200\<rparr>)) \<noteq> day_number 2024 12 31"
    by (simp add: n rtc_boot_def)
qed (simp_all add: leap_def)







text \<open>\<open>BSP_Get_RTC_Time\<close> reports the right name of the day from Monday to Saturday; on every Sunday the
  index it uses is minus one and the read leaves the table of names.\<close>

theorem BSP_Get_RTC_Time_names:
  assumes cache: "rtc_cache_ok s" and v: "valid_date y m d" and nl: "\<not> leap_year_end y m d"
    and pos: "0 < day_number y m d"
    and c: "unat (rtc_counter s) = day_number y m d * 86400 + sod" "sod < 86400"
  shows "if (day_number y m d + 4) mod 7 = 0 then BSP_Get_RTC_Time s = None
    else \<exists>s'. BSP_Get_RTC_Time s = Some (week ! ((day_number y m d + 3) mod 7), s')"
proof -
  let ?w = "(day_number y m d + 4) mod 7"
  obtain s' where s': "RTC_Get s = Some (rtc_counter s, s')" "rtc_reads s y m d sod s'"
    using RTC_Get_date [OF v nl c rtc_cache_hit [OF cache v pos]] by blast
  define wd where "wd = rtc_wday (RtcDateTime s')"
  have wd: "unat wd = ?w" using s'(2) by (simp add: rtc_reads_def the_weekday_def wd_def)
  have idx: "week_day (RtcDateTime s') = ucast wd - 1" using s'(2) by (simp add: rtc_reads_def wd_def)
  have u: "unat (ucast wd :: u32) = ?w" using wd by (simp add: unat_ucast_up)
  show ?thesis
  proof (cases "?w = 0")
    case True
    then have "(ucast wd :: u32) = 0" using u by (simp add: unat_0_iff)
    then have "week_day (RtcDateTime s') = - 1" using idx by simp
    then have "unat (week_day (RtcDateTime s')) = 4294967295" by (simp add: unsigned_minus_1_eq_mask mask_eq_exp_minus_1)
    then show ?thesis using True s'(1) by (simp add: BSP_Get_RTC_Time_def rd_def week_def)
  next
    case False
    have "(1 :: u32) \<le> ucast wd" using False u by (simp add: word_le_nat_alt)
    then have i: "unat (week_day (RtcDateTime s')) = ?w - 1" using idx u by (simp add: unat_sub_le)
    have S: "day_number y m d + 4 = Suc (day_number y m d + 3)" by simp
    then have "?w = Suc ((day_number y m d + 3) mod 7)"
      using False unfolding S mod_Suc by (simp split: if_splits)
    then have "?w - 1 = (day_number y m d + 3) mod 7" by simp
    moreover have "?w - 1 < length week" using mod_less_divisor [of 7 "day_number y m d + 4"]
      by (simp add: week_def del: mod_less_divisor)
    ultimately show ?thesis using False s'(1) i by (simp add: BSP_Get_RTC_Time_def)
  qed
qed

theorem BSP_Get_RTC_Time_names_witness:
  "if (day_number 2023 3 26 + 4) mod 7 = 0 then BSP_Get_RTC_Time (rtc_boot\<lparr>rtc_counter := 1679788800\<rparr>) = None
    else \<exists>s'. BSP_Get_RTC_Time (rtc_boot\<lparr>rtc_counter := 1679788800\<rparr>) =
      Some (week ! ((day_number 2023 3 26 + 3) mod 7), s')"
proof (rule BSP_Get_RTC_Time_names)
  have n: "day_number 2023 3 26 = 19442"
    by (simp add: day_number_def days_before_year_closed days_before_month_table leap_def)
  show "0 < day_number 2023 3 26" by (simp add: n)
  show "unat (rtc_counter (rtc_boot\<lparr>rtc_counter := 1679788800\<rparr>)) = day_number 2023 3 26 * 86400 + 0"
    by (simp add: n)
  show "rtc_cache_ok (rtc_boot\<lparr>rtc_counter := 1679788800\<rparr>)"
    by (simp add: rtc_cache_ok_def rtc_boot_def)
qed (simp_all add: valid_date_def leap_def mon_days_def leap_year_end_def)

text \<open>
  At power-up the static day count is 0 and so is a fresh counter: the date is never computed, and
  the weekday of month 0 is looked up before the start of the table.
\<close>

lemma RTC_Get_first_day: "rtc_counter s = of_nat n \<Longrightarrow> n < 86400 \<Longrightarrow> daycnt s = 0 \<Longrightarrow>
    month (RtcDateTime s) = 0 \<Longrightarrow> RTC_Get s = None"
proof -
  assume a: "rtc_counter s = of_nat n" "n < 86400" "daycnt s = 0" "month (RtcDateTime s) = 0"
  have "unat (of_nat n div 86400 :: u32) = 0" using a by (simp add: unat_div unat_of_nat_lt)
  then have "(of_nat n div 86400 :: u32) = 0" by (simp add: unat_0_iff)
  then show ?thesis using a by (simp add: RTC_Get_def Let_def RTC_Get_Week_def)
qed

text \<open>The oscillator wait: it gives up exactly when none of the first 250 readings is ready.\<close>

lemma rtc_lse_wait_first:
  "temp + n = 251 \<Longrightarrow> temp \<le> 250 \<Longrightarrow>
     rtc_lse_wait lse temp n \<ge> 250 \<longleftrightarrow> (\<forall>i. temp \<le> i \<and> i < 250 \<longrightarrow> \<not> lse i)"
proof (induction lse temp n rule: rtc_lse_wait.induct)
  case (2 lse temp n)
  show ?case
  proof (cases "\<not> lse temp \<and> temp < 250")
    case True
    then show ?thesis using 2 by (auto simp: le_Suc_eq Suc_le_eq) (metis le_neq_implies_less)
  next
    case False
    then show ?thesis using 2(3) by (cases "temp = 250") auto
  qed
qed simp

text \<open>The first set-up of the clock polls the oscillator at most 250 times; if it never gets ready the
  clock is left off and unmarked and 1 is returned, otherwise the clock runs with the prescaler for
  one tick a second and the backup register is marked, so that a later start with the oscillator
  running leaves the counter and the prescaler alone.\<close>

theorem RTC_First_Init_marks:
  "(case RTC_First_Init lse s of (r, s') \<Rightarrow>
      if \<forall>i<250. \<not> lse i then r = 1 \<and> s' = s
      else r = 0 \<and> rtc_clk s' \<and> rtc_prescaler s' = 32767 \<and> rtc_counter s' = rtc_counter s \<and>
           BSP_RTC_Init True lse' s' = BSP_Get_RTC_Time s')"
proof -
  have keep: "BSP_RTC_Init True lse' s' = BSP_Get_RTC_Time s'"
    if "rtc_clk s'" "bkp_dr1 s' = RTC_FIRST_INIT_VALUE" for s'
  proof -
    have "s'\<lparr>rtc_clk := True\<rparr> = s'" using that(1) by (cases s') simp
    then show ?thesis using that(2) by (simp add: BSP_RTC_Init_def)
  qed
  show ?thesis
    using rtc_lse_wait_first [of 0 251 lse] keep by (simp add: RTC_First_Init_def del: rtc_lse_wait.simps)
qed

end
