(* ===== verification/Flash.thy ===== *)
theory Flash
  imports Lwutil Rtc
begin

text \<open>
  The flash store (\<open>bsp/src/bsp_flash.c\<close>, \<open>bsp_flash.h\<close>): seven logs of time-stamped records and
  one page of configuration, at the end of the code flash. The device is its memory, a function from
  addresses to bytes, with the write lock and the interrupt enable that the driver's lock and unlock
  routines switch. The flash controller itself is the parameter \<open>hw\<close>: the half-word a page erase
  leaves in every cell, and what a half-word program leaves in a cell given its old value and the
  data. The proofs assume of it only \<open>flash_hw_ok\<close>: erased cells read 0xE339, as the driver itself
  checks, and programming an erased cell stores the data.
\<close>

subsection \<open>The device\<close>

record flash_hw =
  hw_erased :: u16
  hw_prog :: "u16 \<Rightarrow> u16 \<Rightarrow> u16"

definition flash_hw_ok :: "flash_hw \<Rightarrow> bool" where
  "flash_hw_ok hw \<longleftrightarrow> hw_erased hw = 0xE339 \<and> hw_prog hw 0xE339 = id"

record flash_dev =
  fl_mem :: "nat \<Rightarrow> u8"
  fl_locked :: bool
  fl_irq :: bool
  fl_saved_irq :: bool

text \<open>Half-words, least significant byte first.\<close>

definition half :: "(nat \<Rightarrow> u8) \<Rightarrow> nat \<Rightarrow> u16" where
  "half m a = push_bit 8 (ucast (m (a + 1))) OR ucast (m a)"

definition put_half :: "(nat \<Rightarrow> u8) \<Rightarrow> nat \<Rightarrow> u16 \<Rightarrow> nat \<Rightarrow> u8" where
  "put_half m a v = m(a := byte_at v 0, a + 1 := byte_at v 8)"

definition FLASH_ProgramHalfWord :: "flash_hw \<Rightarrow> flash_dev \<Rightarrow> nat \<Rightarrow> u16 \<Rightarrow> flash_dev" where
  "FLASH_ProgramHalfWord hw d addr data =
     (if fl_locked d then d
      else d\<lparr>fl_mem := put_half (fl_mem d) addr (hw_prog hw (half (fl_mem d) addr) data)\<rparr>)"

definition FLASH_ErasePage_Fast :: "flash_hw \<Rightarrow> flash_dev \<Rightarrow> nat \<Rightarrow> flash_dev" where
  "FLASH_ErasePage_Fast hw d addr =
     (let page = addr - addr mod 256 in
      if fl_locked d then d
      else d\<lparr>fl_mem := (\<lambda>a. if page \<le> a \<and> a < page + 256
                             then (if a mod 2 = 0 then byte_at (hw_erased hw) 0 else byte_at (hw_erased hw) 8)
                             else fl_mem d a)\<rparr>)"

definition BSP_Flash_UnLock :: "flash_dev \<Rightarrow> flash_dev" where
  "BSP_Flash_UnLock d = d\<lparr>fl_saved_irq := fl_irq d, fl_irq := False, fl_locked := False\<rparr>"

definition BSP_Flash_Lock :: "flash_dev \<Rightarrow> flash_dev" where
  "BSP_Flash_Lock d = d\<lparr>fl_locked := True, fl_irq := fl_saved_irq d\<rparr>"

definition BSP_Flash_FastUnLock :: "flash_dev \<Rightarrow> flash_dev" where
  "BSP_Flash_FastUnLock d = d\<lparr>fl_saved_irq := fl_irq d, fl_irq := False, fl_locked := False\<rparr>"

definition BSP_Flash_FastLock :: "flash_dev \<Rightarrow> flash_dev" where
  "BSP_Flash_FastLock d = d\<lparr>fl_locked := True, fl_irq := fl_saved_irq d\<rparr>"

definition Flash_Read :: "flash_dev \<Rightarrow> nat \<Rightarrow> nat \<Rightarrow> u8 list" where
  "Flash_Read d addr len = map (\<lambda>i. fl_mem d (addr + i)) [0..<len]"

text \<open>The write loop at byte \<open>i\<close>, with \<open>n\<close> half-words to go; a failed read-back returns 0.\<close>

fun flash_write_loop ::
  "flash_hw \<Rightarrow> nat \<Rightarrow> u8 list \<Rightarrow> nat \<Rightarrow> nat \<Rightarrow> flash_dev \<Rightarrow> (nat \<times> flash_dev) option" where
  "flash_write_loop hw addr buf i 0 d = Some (i, BSP_Flash_Lock d)"
| "flash_write_loop hw addr buf i (Suc n) d =
     do { b0 \<leftarrow> rd buf i;
          b1 \<leftarrow> rd buf (i + 1);
          let write_data = push_bit 8 (ucast b1) OR ucast b0;
          let d = FLASH_ProgramHalfWord hw d (addr + i) write_data;
          if half (fl_mem d) (addr + i) \<noteq> write_data then Some (0, BSP_Flash_Lock d)
          else flash_write_loop hw addr buf (i + 2) n d }"

definition Flash_Write :: "flash_hw \<Rightarrow> flash_dev \<Rightarrow> nat \<Rightarrow> u8 list \<Rightarrow> nat \<Rightarrow> (nat \<times> flash_dev) option" where
  "Flash_Write hw d addr buf len =
     (if addr mod 2 \<noteq> 0 then Some (0, d)
      else flash_write_loop hw addr buf 0 ((len + 1) div 2) (BSP_Flash_UnLock d))"

subsection \<open>The layout\<close>

definition FLASH_PAGE_SIZE :: nat where "FLASH_PAGE_SIZE = 256"
definition FLASH_PAGE_HR_RECORD_NUM :: nat where "FLASH_PAGE_HR_RECORD_NUM = 25"
definition FLASH_HR_ONE_RECORD_SIZE :: nat where "FLASH_HR_ONE_RECORD_SIZE = 10"
definition HR_RECORD_FRAME_HEADER :: u16 where "HR_RECORD_FRAME_HEADER = 0xAA55"
definition HR_RECORD_FRAME_LEN :: nat where "HR_RECORD_FRAME_LEN = 10"

datatype TeRecord = kRecordAlarm | kRecordAlarmRcy | kRecordFault | kRecordFaultRcy | kRecordPowerDown
  | kRecordPowerOn | kRecordSensoEndOfLife

text \<open>The records' numbers, \<open>record < kRecordSensoEndOfLife\<close> being a comparison of them.\<close>

fun record_nat :: "TeRecord \<Rightarrow> nat" where
  "record_nat kRecordAlarm = 0" | "record_nat kRecordAlarmRcy = 1" | "record_nat kRecordFault = 2"
| "record_nat kRecordFaultRcy = 3" | "record_nat kRecordPowerDown = 4" | "record_nat kRecordPowerOn = 5"
| "record_nat kRecordSensoEndOfLife = 6"

definition FLASH_LAST_PAGE_START_ADDR :: nat where
  "FLASH_LAST_PAGE_START_ADDR = 0x08000000 + 256 * 1024 - FLASH_PAGE_SIZE"

definition hr_record_pages :: "TeRecord \<Rightarrow> nat" where
  "hr_record_pages r = [9, 9, 5, 5, 3, 3, 1] ! record_nat r"

definition hr_record_max_num :: "TeRecord \<Rightarrow> nat" where
  "hr_record_max_num r = [200, 200, 100, 100, 50, 50, 1] ! record_nat r"

text \<open>Each region starts the sum of the later regions' pages before the configuration page.\<close>

definition hr_start_addr :: "TeRecord \<Rightarrow> nat" where
  "hr_start_addr r =
     (let sensor = FLASH_LAST_PAGE_START_ADDR - FLASH_PAGE_SIZE;
          power_on = sensor - FLASH_PAGE_SIZE * 3;
          power_failure = power_on - FLASH_PAGE_SIZE * 3;
          fault_rcy = power_failure - FLASH_PAGE_SIZE * 5;
          fault = fault_rcy - FLASH_PAGE_SIZE * 5;
          alarm_rcy = fault - FLASH_PAGE_SIZE * 9;
          alarm = alarm_rcy - FLASH_PAGE_SIZE * 9
      in [alarm, alarm_rcy, fault, fault_rcy, power_failure, power_on, sensor] ! record_nat r)"

record TsFlashHrRecordFrame =
  hr_header :: u16
  hr_index :: u16
  hr_year :: u16
  hr_month :: u8
  hr_day :: u8
  hr_hour :: u8
  hr_minute :: u8

text \<open>The two views of the union: the packed struct's bytes, and the struct of ten bytes.\<close>

definition hr_frame_buf :: "TsFlashHrRecordFrame \<Rightarrow> u8 list" where
  "hr_frame_buf f =
     [byte_at (hr_header f) 0, byte_at (hr_header f) 8, byte_at (hr_index f) 0, byte_at (hr_index f) 8,
      byte_at (hr_year f) 0, byte_at (hr_year f) 8, hr_month f, hr_day f, hr_hour f, hr_minute f]"

definition le16 :: "u8 list \<Rightarrow> nat \<Rightarrow> u16" where
  "le16 b i = push_bit 8 (ucast (b ! (i + 1))) OR ucast (b ! i)"

definition hr_frame_struct :: "u8 list \<Rightarrow> TsFlashHrRecordFrame" where
  "hr_frame_struct b =
     \<lparr>hr_header = le16 b 0, hr_index = le16 b 2, hr_year = le16 b 4, hr_month = b ! 6, hr_day = b ! 7,
      hr_hour = b ! 8, hr_minute = b ! 9\<rparr>"

subsection \<open>The record logs\<close>

text \<open>\<open>READY\<close> and \<open>NoREADY\<close> are \<open>True\<close> and \<open>False\<close>.\<close>

definition Flash_ErasePage_Records ::
  "flash_hw \<Rightarrow> flash_dev \<Rightarrow> TeRecord \<Rightarrow> u8 \<Rightarrow> bool \<times> flash_dev" where
  "Flash_ErasePage_Records hw d r page_offset =
     (let erase_page = (if unat page_offset \<le> hr_record_pages r - 1 then unat page_offset
                        else hr_record_pages r - 1);
          addr = hr_start_addr r + FLASH_PAGE_SIZE * erase_page;
          d = BSP_Flash_FastLock (FLASH_ErasePage_Fast hw (BSP_Flash_FastUnLock d) addr)
      in (list_all (\<lambda>i. half (fl_mem d) (addr + 2 * i) = 0xE339) [0..<FLASH_PAGE_SIZE div 2], d))"

fun erase_pages :: "flash_hw \<Rightarrow> TeRecord \<Rightarrow> nat \<Rightarrow> nat \<Rightarrow> flash_dev \<Rightarrow> flash_dev" where
  "erase_pages hw r page 0 d = d"
| "erase_pages hw r page (Suc n) d =
     erase_pages hw r (page + 1) n (snd (Flash_ErasePage_Records hw d r (of_nat page)))"

definition Flash_Erase_Records :: "flash_hw \<Rightarrow> flash_dev \<Rightarrow> TeRecord \<Rightarrow> flash_dev" where
  "Flash_Erase_Records hw d r = erase_pages hw r 0 (hr_record_pages r) d"

definition slot_addr :: "TeRecord \<Rightarrow> nat \<Rightarrow> nat \<Rightarrow> nat" where
  "slot_addr r page i = hr_start_addr r + FLASH_PAGE_SIZE * page + FLASH_HR_ONE_RECORD_SIZE * i"

definition Flash_GetMaxIndex_Records :: "flash_dev \<Rightarrow> TeRecord \<Rightarrow> u16" where
  "Flash_GetMaxIndex_Records d r =
     foldl (\<lambda>mx page.
       foldl (\<lambda>mx i.
         if half (fl_mem d) (slot_addr r page i) = HR_RECORD_FRAME_HEADER
         then max mx (half (fl_mem d) (slot_addr r page i + 2)) else mx)
       mx [0..<FLASH_PAGE_HR_RECORD_NUM])
     0 [0..<hr_record_pages r]"

definition Flash_GetNum_Records :: "flash_dev \<Rightarrow> TeRecord \<Rightarrow> u8" where
  "Flash_GetNum_Records d r =
     (let num_max = Flash_GetMaxIndex_Records d r in
      if unat num_max \<le> hr_record_max_num r then ucast num_max else of_nat (hr_record_max_num r))"

text \<open>
  \<open>(index - 1) / 25U\<close> and \<open>(index - 1) % 25U\<close> are computed in \<open>unsigned int\<close>; the page and the offset
  in it are stored in a byte.
\<close>

definition page_of :: "TeRecord \<Rightarrow> u32 \<Rightarrow> u8" where
  "page_of r index = ucast ((index - 1) div 25 mod of_nat (hr_record_pages r))"

definition in_page_of :: "u32 \<Rightarrow> u8" where
  "in_page_of index = ucast ((index - 1) mod 25 * 10)"

definition record_addr :: "TeRecord \<Rightarrow> u8 \<Rightarrow> u8 \<Rightarrow> nat" where
  "record_addr r page_offset in_page_offset =
     hr_start_addr r + FLASH_PAGE_SIZE * unat page_offset + unat in_page_offset"

definition Flash_Read_Record :: "flash_dev \<Rightarrow> TeRecord \<Rightarrow> u8 \<Rightarrow> u8 list" where
  "Flash_Read_Record d r index =
     (let index_max = Flash_GetMaxIndex_Records d r in
      if ucast index \<le> index_max
      then
        let (page_offset, in_page_offset) =
          (if unat index_max > hr_record_max_num r
           then if record_nat r < record_nat kRecordSensoEndOfLife
                then let index_redirect = index_max - (50 - ucast index)
                     in (page_of r (ucast index_redirect), in_page_of (ucast index_redirect))
                else (0, in_page_of (ucast index_max))
           else (page_of r (ucast index), in_page_of (ucast index)))
        in Flash_Read d (record_addr r page_offset in_page_offset) HR_RECORD_FRAME_LEN
      else replicate HR_RECORD_FRAME_LEN 0)"

definition Flash_Write_RecordIndex ::
  "flash_hw \<Rightarrow> flash_dev \<Rightarrow> TsFlashHrRecordFrame \<Rightarrow> TeRecord \<Rightarrow> u16 \<Rightarrow> flash_dev option" where
  "Flash_Write_RecordIndex hw d f r index =
     map_option snd
       (Flash_Write hw d (record_addr r (page_of r (ucast index)) (in_page_of (ucast index)))
         (hr_frame_buf f) HR_RECORD_FRAME_LEN)"

text \<open>The page \<open>Flash_Write_Record\<close> erases before it writes, if any.\<close>

definition write_record_erases :: "TeRecord \<Rightarrow> u16 \<Rightarrow> u8 option" where
  "write_record_erases r index_max =
     (let index_start_page_offset =
            (if unat index_max \<le> hr_record_max_num r then 0
             else page_of r (ucast (index_max - (of_nat (hr_record_max_num r) - 1))));
          index_max_page_offset = page_of r (ucast index_max);
          index_max_in_page_offset = ucast ((ucast index_max - 1 :: u32) mod 25) :: u8
      in if unat index_max_in_page_offset + 1 = FLASH_PAGE_HR_RECORD_NUM - 1 \<and>
            unat index_max_page_offset = hr_record_pages r - 1
         then Some 0
         else if unat index_max_in_page_offset + 1 = FLASH_PAGE_HR_RECORD_NUM - 1 \<and>
                 int (unat index_max_page_offset) = int (unat index_start_page_offset) - 1
         then Some (index_max_page_offset + 1)
         else None)"

definition record_now :: "u16 \<Rightarrow> TsRtcDateTime \<Rightarrow> TsFlashHrRecordFrame" where
  "record_now index dt =
     \<lparr>hr_header = HR_RECORD_FRAME_HEADER, hr_index = index, hr_year = year dt, hr_month = month dt,
      hr_day = day dt, hr_hour = hour dt, hr_minute = minute dt\<rparr>"

definition Flash_Write_Record ::
  "flash_hw \<Rightarrow> flash_dev \<times> rtc \<Rightarrow> TeRecord \<Rightarrow> (flash_dev \<times> rtc) option" where
  "Flash_Write_Record hw ds r =
     (case ds of (d, s) \<Rightarrow>
        let index_max = Flash_GetMaxIndex_Records d r;
            index_new = index_max + 1;
            d = (case write_record_erases r index_max of
                   None \<Rightarrow> d
                 | Some page \<Rightarrow> snd (Flash_ErasePage_Records hw d r page))
        in do { (_, s) \<leftarrow> BSP_Get_RTC_Time s;
                d \<leftarrow> Flash_Write_RecordIndex hw d (record_now index_new (RtcDateTime s)) r index_new;
                Some (d, s) })"

subsection \<open>The configuration page\<close>

record TsFlashProductTimeLimitFrame =
  pt_header :: u8
  pt_year :: u16
  pt_month :: u8
  pt_day :: u8
  pt_hour :: u8
  pt_minute :: u8
  pt_second :: u8

definition pt_frame_buf :: "TsFlashProductTimeLimitFrame \<Rightarrow> u8 list" where
  "pt_frame_buf f = [pt_header f, byte_at (pt_year f) 0, byte_at (pt_year f) 8, pt_month f, pt_day f,
     pt_hour f, pt_minute f, pt_second f]"

definition pt_frame_struct :: "u8 list \<Rightarrow> TsFlashProductTimeLimitFrame" where
  "pt_frame_struct b = \<lparr>pt_header = b ! 0, pt_year = le16 b 1, pt_month = b ! 3, pt_day = b ! 4,
     pt_hour = b ! 5, pt_minute = b ! 6, pt_second = b ! 7\<rparr>"

datatype TeFlashProductTimeLimitId = kFactoryTimeId | kExpirationTimeId

definition FLASH_CONFIG_INFO_START_ADDR :: nat where
  "FLASH_CONFIG_INFO_START_ADDR = FLASH_LAST_PAGE_START_ADDR"

definition FLASH_FACTORY_TIME_START_ADDR :: nat where
  "FLASH_FACTORY_TIME_START_ADDR = FLASH_CONFIG_INFO_START_ADDR"

definition FLASH_EXPIRATION_TIME_START_ADDR :: nat where
  "FLASH_EXPIRATION_TIME_START_ADDR = FLASH_FACTORY_TIME_START_ADDR + 8"

definition FLASH_ALARM_VALUE_ADDR :: nat where
  "FLASH_ALARM_VALUE_ADDR = FLASH_EXPIRATION_TIME_START_ADDR + 8"

definition FLASH_INIT_FLAG_ADDR :: nat where
  "FLASH_INIT_FLAG_ADDR = FLASH_CONFIG_INFO_START_ADDR + 254"

definition FLASH_FIRST_INIT_VALUE :: u16 where "FLASH_FIRST_INIT_VALUE = 0xA2A2"
definition FLASH_CONFIG_INFO_FRAME_HEADER :: u16 where "FLASH_CONFIG_INFO_FRAME_HEADER = 0xA5A5"
definition FLASH_PRODUCT_TIME_FRAME_HEADER :: u8 where "FLASH_PRODUCT_TIME_FRAME_HEADER = 0xA5"

definition Flash_ErasePage_ConfigInfo :: "flash_hw \<Rightarrow> flash_dev \<Rightarrow> flash_dev" where
  "Flash_ErasePage_ConfigInfo hw d =
     BSP_Flash_FastLock (FLASH_ErasePage_Fast hw (BSP_Flash_FastUnLock d) FLASH_CONFIG_INFO_START_ADDR)"

definition Flash_ErasePage_ReadConfigInfo :: "flash_hw \<Rightarrow> flash_dev \<Rightarrow> u8 list \<times> flash_dev" where
  "Flash_ErasePage_ReadConfigInfo hw d =
     (Flash_Read d FLASH_CONFIG_INFO_START_ADDR FLASH_PAGE_SIZE, Flash_ErasePage_ConfigInfo hw d)"

definition Flash_Write_ConfigInfo :: "flash_hw \<Rightarrow> flash_dev \<Rightarrow> u8 list \<Rightarrow> flash_dev option" where
  "Flash_Write_ConfigInfo hw d page_buf =
     map_option snd (Flash_Write hw d FLASH_CONFIG_INFO_START_ADDR page_buf FLASH_PAGE_SIZE)"

definition pt_addr :: "TeFlashProductTimeLimitId \<Rightarrow> nat" where
  "pt_addr i = (case i of kFactoryTimeId \<Rightarrow> FLASH_FACTORY_TIME_START_ADDR
                        | kExpirationTimeId \<Rightarrow> FLASH_EXPIRATION_TIME_START_ADDR)"

definition Flash_GetProductTimeLimit ::
  "flash_dev \<Rightarrow> TeFlashProductTimeLimitId \<Rightarrow> bool \<times> TsFlashProductTimeLimitFrame" where
  "Flash_GetProductTimeLimit d i =
     (let f = pt_frame_struct (Flash_Read d (pt_addr i) 8)
      in (pt_header f = FLASH_PRODUCT_TIME_FRAME_HEADER, f))"

definition Flash_SetProductTimeLimit ::
  "flash_hw \<Rightarrow> flash_dev \<Rightarrow> u16 \<Rightarrow> u8 \<Rightarrow> u8 \<Rightarrow> u8 \<Rightarrow> u8 \<Rightarrow> u8 \<Rightarrow> TeFlashProductTimeLimitId \<Rightarrow>
   flash_dev option" where
  "Flash_SetProductTimeLimit hw d y mon dy h mi sc i =
     (let (page_buf, d) = Flash_ErasePage_ReadConfigInfo hw d;
          f = \<lparr>pt_header = FLASH_PRODUCT_TIME_FRAME_HEADER, pt_year = y, pt_month = mon, pt_day = dy,
               pt_hour = h, pt_minute = mi, pt_second = sc\<rparr>
      in do { page_buf \<leftarrow> blit page_buf (pt_addr i - FLASH_CONFIG_INFO_START_ADDR) (pt_frame_buf f);
              Flash_Write_ConfigInfo hw d page_buf })"

definition Set_FactoryRtcTime :: "flash_hw \<Rightarrow> flash_dev \<times> rtc \<Rightarrow> (flash_dev \<times> rtc) option" where
  "Set_FactoryRtcTime hw ds =
     (case ds of (d, s) \<Rightarrow>
        do { (_, s) \<leftarrow> BSP_Get_RTC_Time s;
             let dt = RtcDateTime s;
             d \<leftarrow> Flash_SetProductTimeLimit hw d (year dt) (month dt) (day dt) (hour dt) (minute dt)
                    (second dt) kFactoryTimeId;
             Some (d, s) })"

definition Flash_Get_AlarmLel :: "flash_dev \<Rightarrow> u16" where
  "Flash_Get_AlarmLel d =
     (let b = Flash_Read d FLASH_ALARM_VALUE_ADDR 4
      in if le16 b 0 = FLASH_CONFIG_INFO_FRAME_HEADER then le16 b 2 else 0)"

definition Flash_Set_AlarmLel :: "flash_hw \<Rightarrow> flash_dev \<Rightarrow> u16 \<Rightarrow> flash_dev option" where
  "Flash_Set_AlarmLel hw d v =
     (let (page_buf, d) = Flash_ErasePage_ReadConfigInfo hw d;
          h = FLASH_CONFIG_INFO_FRAME_HEADER;
          buf = [byte_at h 0, byte_at h 8, byte_at v 0, byte_at v 8]
      in do { page_buf \<leftarrow> blit page_buf (FLASH_ALARM_VALUE_ADDR - FLASH_CONFIG_INFO_START_ADDR) buf;
              Flash_Write_ConfigInfo hw d page_buf })"

record TsTotalRecords =
  tr_alarm :: u8
  tr_alarm_rcy :: u8
  tr_fault :: u8
  tr_fault_rcy :: u8
  tr_power_failure :: u8
  tr_power_on :: u8
  tr_sensor_failure :: u8

definition Flash_GetTotalRecord :: "flash_dev \<Rightarrow> TsTotalRecords" where
  "Flash_GetTotalRecord d =
     \<lparr>tr_alarm = Flash_GetNum_Records d kRecordAlarm,
      tr_alarm_rcy = Flash_GetNum_Records d kRecordAlarmRcy,
      tr_fault = Flash_GetNum_Records d kRecordFault,
      tr_fault_rcy = Flash_GetNum_Records d kRecordFaultRcy,
      tr_power_failure = Flash_GetNum_Records d kRecordPowerDown,
      tr_power_on = Flash_GetNum_Records d kRecordPowerOn,
      tr_sensor_failure = Flash_GetNum_Records d kRecordSensoEndOfLife\<rparr>"

text \<open>
  \<open>Flash_GetRecord\<close>: the frame type is the record's number plus one; the six bytes of
  \<open>TsRecordsTime\<close>, or nothing when the type is none of a record.
\<close>

definition all_records :: "TeRecord list" where
  "all_records = [kRecordAlarm, kRecordAlarmRcy, kRecordFault, kRecordFaultRcy, kRecordPowerDown,
     kRecordPowerOn, kRecordSensoEndOfLife]"

definition Flash_GetRecord :: "flash_dev \<Rightarrow> nat \<Rightarrow> u8 \<Rightarrow> u8 list option" where
  "Flash_GetRecord d record_type index =
     (if 0 < record_type \<and> record_type < 8
      then let f = hr_frame_struct (Flash_Read_Record d (all_records ! (record_type - 1)) index)
           in Some [ucast (hr_year f div 256), ucast (hr_year f mod 256), hr_month f, hr_day f, hr_hour f,
                    hr_minute f]
      else None)"

definition BSP_Flash_EraseRecodrs :: "flash_hw \<Rightarrow> flash_dev \<Rightarrow> flash_dev" where
  "BSP_Flash_EraseRecodrs hw d =
     Flash_ErasePage_ConfigInfo hw
       (foldl (\<lambda>d r. erase_pages hw r 0 (hr_record_pages r) d) d all_records)"

definition BSP_Flash_Init :: "flash_hw \<Rightarrow> flash_dev \<Rightarrow> flash_dev option" where
  "BSP_Flash_Init hw d =
     (if half (fl_mem d) FLASH_INIT_FLAG_ADDR \<noteq> FLASH_FIRST_INIT_VALUE
      then do {
        let flag = [ucast (FLASH_FIRST_INIT_VALUE mod 256), ucast (FLASH_FIRST_INIT_VALUE div 256)];
        let d = BSP_Flash_EraseRecodrs hw d;
        (_, d) \<leftarrow> Flash_Write hw d FLASH_INIT_FLAG_ADDR flag 2;
        d \<leftarrow> Flash_SetProductTimeLimit hw d 2023 3 22 13 58 20 kFactoryTimeId;
        Flash_SetProductTimeLimit hw d 2028 3 22 13 58 20 kExpirationTimeId }
      else Some d)"

subsection \<open>Programming and erasing\<close>

definition overlay :: "(nat \<Rightarrow> u8) \<Rightarrow> nat \<Rightarrow> u8 list \<Rightarrow> nat \<Rightarrow> u8" where
  "overlay m a xs = (\<lambda>b. if a \<le> b \<and> b < a + length xs then xs ! (b - a) else m b)"

definition erased_byte :: "nat \<Rightarrow> u8" where
  "erased_byte a = (if a mod 2 = 0 then 0x39 else 0xE3)"

definition erase_at :: "(nat \<Rightarrow> u8) \<Rightarrow> nat \<Rightarrow> nat \<Rightarrow> u8" where
  "erase_at m page = (\<lambda>a. if page \<le> a \<and> a < page + 256 then erased_byte a else m a)"

lemma byte_at_half_0: "byte_at (push_bit 8 (ucast b1) OR ucast (b0 :: u8) :: u16) 0 = b0"
  by (rule bit_word_eqI) (auto simp: bit_byte_at bit_simps)

lemma byte_at_half_8: "byte_at (push_bit 8 (ucast (b1 :: u8)) OR ucast (b0 :: u8) :: u16) 8 = b1"
proof -
  have "\<not> bit (b0 :: u8) (8 + n)" for n using bit_imp_le_length [of b0 "8 + n"] by auto
  then show ?thesis by (intro bit_word_eqI) (auto simp: bit_byte_at bit_simps)
qed

lemma half_put_half [simp]: "half (put_half m a v) a = v"
  by (simp add: half_def put_half_def bytes_u16)

lemma put_half_overlay:
  "put_half m a (push_bit 8 (ucast b1) OR ucast b0) = overlay m a [b0, b1]"
  by (rule ext) (auto simp: put_half_def overlay_def byte_at_half_0 byte_at_half_8 [simplified] nth_Cons split: nat.split)

lemma overlay_append: "overlay (overlay m a xs) (a + length xs) ys = overlay m a (xs @ ys)"
  by (rule ext) (auto simp: overlay_def nth_append)

lemma overlay_nil [simp]: "overlay m a [] = m"
  by (rule ext) (auto simp: overlay_def)

lemma overlay_other: "b < a \<or> a + length xs \<le> b \<Longrightarrow> overlay m a xs b = m b"
  by (auto simp: overlay_def)

lemma overlay_in: "i < length xs \<Longrightarrow> overlay m a xs (a + i) = xs ! i"
  by (simp add: overlay_def)

lemma half_erased:
  assumes "a mod 2 = 0" "m a = erased_byte a" "m (a + 1) = erased_byte (a + 1)"
  shows "half m a = 0xE339"
proof -
  have "(a + 1) mod 2 = 1" using assms(1) by presburger
  then show ?thesis using assms by (simp add: half_def erased_byte_def)
qed

lemma FLASH_ErasePage_Fast_unlocked:
  assumes hw: "flash_hw_ok hw" and "\<not> fl_locked d" "page mod 256 = 0"
  shows "FLASH_ErasePage_Fast hw d page = d\<lparr>fl_mem := erase_at (fl_mem d) page\<rparr>"
proof -
  have e: "hw_erased hw = 0xE339" using hw by (simp add: flash_hw_ok_def)
  have "byte_at (0xE339 :: u16) 0 = 0x39" "byte_at (0xE339 :: u16) 8 = 0xE3"
    by (simp_all add: byte_at_def)
  with assms e show ?thesis
    by (simp add: FLASH_ErasePage_Fast_def Let_def erase_at_def erased_byte_def fun_eq_iff)
qed

text \<open>Cells that are erased take the data; the write loop stores the whole buffer.\<close>

lemma flash_write_loop_erased:
  assumes hw: "flash_hw_ok hw"
  shows "\<not> fl_locked d \<Longrightarrow> (addr + i) mod 2 = 0 \<Longrightarrow> i + 2 * n \<le> length buf \<Longrightarrow>
    (\<And>j. j < 2 * n \<Longrightarrow> fl_mem d (addr + i + j) = erased_byte (addr + i + j)) \<Longrightarrow>
      flash_write_loop hw addr buf i n d =
        Some (i + 2 * n, BSP_Flash_Lock (d\<lparr>fl_mem := overlay (fl_mem d) (addr + i) (take (2 * n) (drop i buf))\<rparr>))"
proof (induction n arbitrary: i d)
  case (Suc n)
  define v where "v = (push_bit 8 (ucast (buf ! (i + 1))) OR ucast (buf ! i) :: u16)"
  have "half (fl_mem d) (addr + i) = 0xE339"
    using Suc.prems(2) Suc.prems(4) [of 0] Suc.prems(4) [of 1] by (intro half_erased) simp_all
  then have prog: "FLASH_ProgramHalfWord hw d (addr + i) v = d\<lparr>fl_mem := put_half (fl_mem d) (addr + i) v\<rparr>"
    using hw Suc.prems(1) by (simp add: FLASH_ProgramHalfWord_def flash_hw_ok_def)
  define d' where "d' = d\<lparr>fl_mem := overlay (fl_mem d) (addr + i) [buf ! i, buf ! (i + 1)]\<rparr>"
  have d': "d\<lparr>fl_mem := put_half (fl_mem d) (addr + i) v\<rparr> = d'"
    by (simp add: d'_def v_def put_half_overlay)
  have "flash_write_loop hw addr buf i (Suc n) d = flash_write_loop hw addr buf (i + 2) n d'"
    using Suc.prems(3) prog by (simp add: Let_def v_def [symmetric, simplified] flip: d')
  also have "\<dots> = Some (i + 2 + 2 * n, BSP_Flash_Lock
      (d'\<lparr>fl_mem := overlay (fl_mem d') (addr + (i + 2)) (take (2 * n) (drop (i + 2) buf))\<rparr>))"
  proof (rule Suc.IH)
    show "(addr + (i + 2)) mod 2 = 0" using Suc.prems(2) by presburger
    fix j assume j: "j < 2 * n"
    have "fl_mem d (addr + i + (j + 2)) = erased_byte (addr + i + (j + 2))"
      using j by (intro Suc.prems(4)) simp
    then show "fl_mem d' (addr + (i + 2) + j) = erased_byte (addr + (i + 2) + j)"
      by (simp add: d'_def overlay_other add_ac)
  qed (use Suc.prems in \<open>simp_all add: d'_def\<close>)
  also have "overlay (fl_mem d') (addr + (i + 2)) (take (2 * n) (drop (i + 2) buf)) =
      overlay (fl_mem d) (addr + i) (take (2 * Suc n) (drop i buf))"
  proof -
    have "drop i buf = buf ! i # buf ! (i + 1) # drop (i + 2) buf"
      using Suc.prems(3) by (simp add: Cons_nth_drop_Suc)
    then show ?thesis
      using overlay_append [of "fl_mem d" "addr + i" "[buf ! i, buf ! (i + 1)]" "take (2 * n) (drop (i + 2) buf)"]
      by (simp add: d'_def)
  qed
  finally show ?case by (simp add: d'_def)
qed simp

lemma Flash_Write_erased:
  assumes "flash_hw_ok hw" "addr mod 2 = 0" "length buf = len" "len mod 2 = 0"
    and "\<And>j. j < len \<Longrightarrow> fl_mem d (addr + j) = erased_byte (addr + j)"
  shows "Flash_Write hw d addr buf len =
    Some (len, d\<lparr>fl_mem := overlay (fl_mem d) addr buf, fl_saved_irq := fl_irq d, fl_locked := True\<rparr>)"
proof -
  have n: "(len + 1) div 2 = len div 2" "2 * (len div 2) = len" using assms(4) by presburger+
  have "flash_write_loop hw addr buf 0 (len div 2) (BSP_Flash_UnLock d) =
      Some (0 + 2 * (len div 2), BSP_Flash_Lock ((BSP_Flash_UnLock d)\<lparr>fl_mem :=
        overlay (fl_mem (BSP_Flash_UnLock d)) (addr + 0) (take (2 * (len div 2)) (drop 0 buf))\<rparr>))"
    using assms n by (intro flash_write_loop_erased) (simp_all add: BSP_Flash_UnLock_def)
  then show ?thesis
    using assms(2,3) n by (simp add: Flash_Write_def BSP_Flash_UnLock_def BSP_Flash_Lock_def)
qed

lemma flash_fast_erase:
  assumes "flash_hw_ok hw" "page mod 256 = 0"
  shows "BSP_Flash_FastLock (FLASH_ErasePage_Fast hw (BSP_Flash_FastUnLock d) page) =
    d\<lparr>fl_mem := erase_at (fl_mem d) page, fl_saved_irq := fl_irq d, fl_locked := True\<rparr>"
  using assms by (simp add: FLASH_ErasePage_Fast_unlocked BSP_Flash_FastUnLock_def BSP_Flash_FastLock_def)

subsection \<open>The layout of a log\<close>

text \<open>
  A region of \<open>P\<close> pages is used as a circle of \<open>25 * P\<close> slots: record number \<open>k + 1\<close> goes into slot
  \<open>k mod (25 * P)\<close>, and the page after the current one is erased when the current one is almost full.
\<close>

definition slots :: "TeRecord \<Rightarrow> nat" where
  "slots r = 25 * hr_record_pages r"

definition slot_base :: "TeRecord \<Rightarrow> nat \<Rightarrow> nat" where
  "slot_base r p = hr_start_addr r + 256 * (p div 25) + 10 * (p mod 25)"

definition live_from :: "TeRecord \<Rightarrow> nat \<Rightarrow> nat" where
  "live_from r n =
     (if hr_record_pages r = 1 then 25 * (n div 25) - 1 else 25 * (n div 25 + 1 - hr_record_pages r))"

definition slot_erased :: "flash_dev \<Rightarrow> nat \<Rightarrow> bool" where
  "slot_erased d a \<longleftrightarrow> (\<forall>i<10. fl_mem d (a + i) = erased_byte (a + i))"

definition log_inv :: "TeRecord \<Rightarrow> flash_dev \<Rightarrow> TsFlashHrRecordFrame list \<Rightarrow> bool" where
  "log_inv r d fs \<longleftrightarrow>
     (\<forall>k<length fs. hr_header (fs ! k) = HR_RECORD_FRAME_HEADER \<and> unat (hr_index (fs ! k)) = k + 1) \<and>
     (\<forall>k. live_from r (length fs) \<le> k \<and> k < length fs \<longrightarrow>
        Flash_Read d (slot_base r (k mod slots r)) 10 = hr_frame_buf (fs ! k)) \<and>
     (\<forall>p < slots r. (\<forall>k. live_from r (length fs) \<le> k \<and> k < length fs \<longrightarrow> k mod slots r \<noteq> p) \<longrightarrow>
        slot_erased d (slot_base r p))"

lemma pages_cases:
  "hr_record_pages r = 1 \<and> hr_record_max_num r = 1 \<or>
   2 \<le> hr_record_pages r \<and> hr_record_pages r \<le> 9 \<and> hr_record_max_num r = 25 * (hr_record_pages r - 1)"
  by (cases r) (simp_all add: hr_record_pages_def hr_record_max_num_def)

lemma pages_bounds: "1 \<le> hr_record_pages r" "hr_record_pages r \<le> 9"
  using pages_cases [of r] by auto

lemma slots_pos: "0 < slots r"
  using pages_bounds [of r] by (simp add: slots_def)

lemma start_aligned: "hr_start_addr r mod 256 = 0"
  by (cases r) (simp_all add: hr_start_addr_def FLASH_LAST_PAGE_START_ADDR_def FLASH_PAGE_SIZE_def)

lemma start_even: "hr_start_addr r mod 2 = 0"
  using start_aligned [of r] by presburger

lemma slot_base_even: "slot_base r p mod 2 = 0"
  using start_even [of r] unfolding slot_base_def by presburger

lemma slot_of_record:
  "slot_base r (k mod slots r) = hr_start_addr r + 256 * (k div 25 mod hr_record_pages r) + 10 * (k mod 25)"
proof -
  have "k mod slots r = 25 * (k div 25 mod hr_record_pages r) + k mod 25"
    unfolding slots_def by (rule mod_mult2_eq)
  then have "k mod slots r div 25 = k div 25 mod hr_record_pages r" "k mod slots r mod 25 = k mod 25"
    by simp_all
  then show ?thesis by (simp add: slot_base_def)
qed

lemma slot_disjoint:
  assumes "p \<noteq> q" "i < 10"
  shows "slot_base r p + i < slot_base r q \<or> slot_base r q + 10 \<le> slot_base r p + i"
proof -
  have pq: "p = 25 * (p div 25) + p mod 25" "q = 25 * (q div 25) + q mod 25" by simp_all
  have lt: "p mod 25 < 25" "q mod 25 < 25" by simp_all
  consider "p div 25 < q div 25" | "q div 25 < p div 25" | "p div 25 = q div 25" "p mod 25 < q mod 25"
    | "p div 25 = q div 25" "q mod 25 < p mod 25"
    using pq assms(1) by (metis linorder_neqE_nat)
  then show ?thesis
    by cases (use lt assms(2) in \<open>simp_all add: slot_base_def\<close>, linarith+)
qed

lemma slot_in_page:
  assumes "i < 10"
  shows "hr_start_addr r + 256 * g \<le> slot_base r p + i \<and> slot_base r p + i < hr_start_addr r + 256 * g + 256 \<longleftrightarrow>
    p div 25 = g"
proof -
  have "10 * (p mod 25) + i < 256"
  proof -
    have "p mod 25 \<le> 24" using mod_less_divisor [of 25 p] by linarith
    then show ?thesis using assms by linarith
  qed
  then show ?thesis unfolding slot_base_def by linarith
qed

lemma slot_page_lt: "p < slots r \<Longrightarrow> p div 25 < hr_record_pages r"
  by (simp add: slots_def div_less_iff_less_mult mult.commute)

lemma live_from_le: "live_from r n \<le> n"
proof (cases "hr_record_pages r = 1")
  case False
  have "25 * (n div 25 + 1 - hr_record_pages r) \<le> 25 * (n div 25)" using pages_bounds [of r] by simp
  also have "\<dots> \<le> n" by simp
  finally show ?thesis using False by (simp add: live_from_def)
next
  case True
  have "25 * (n div 25) \<le> n" by simp
  then show ?thesis using True by (simp add: live_from_def del: times_div_less_eq_dividend)
qed

text \<open>The newest record's slot holds none of the live ones: the live records span less than the circle.\<close>

lemma live_window:
  assumes "live_from r n \<le> k" "k < n" "hr_record_pages r = 1 \<longrightarrow> n mod 25 \<noteq> 24"
  shows "k mod slots r \<noteq> n mod slots r"
proof
  assume eq: "k mod slots r = n mod slots r"
  have n: "n = 25 * (n div 25) + n mod 25" "n mod 25 < 25" by simp_all
  have "n - k < slots r"
  proof (cases "hr_record_pages r = 1")
    case True
    then have "n mod 25 < 24" using assms(3) n(2) by linarith
    moreover have "25 * (n div 25) - 1 \<le> k" using True assms(1) by (simp add: live_from_def)
    ultimately have "n - k < 25" using n(1) assms(2) by linarith
    then show ?thesis using True by (simp add: slots_def)
  next
    case False
    then show ?thesis using assms(1,2) n pages_cases [of r] by (simp add: live_from_def slots_def)
  qed
  moreover have "(n - k) mod slots r = 0"
    using eq assms(2) by (metis less_imp_le mod_eq_dvd_iff_nat mod_0_imp_dvd dvd_imp_mod_0)
  ultimately show False using assms(2) by simp
qed

lemma newest_live:
  assumes "k < n" "n \<le> k + hr_record_max_num r"
  shows "live_from r n \<le> k"
proof -
  have n: "n = 25 * (n div 25) + n mod 25" "n mod 25 < 25" by simp_all
  show ?thesis
  proof (cases "hr_record_pages r = 1")
    case True
    then have "hr_record_max_num r = 1" using pages_cases [of r] by auto
    then show ?thesis using True assms n by (simp add: live_from_def)
  next
    case False
    then show ?thesis using assms n pages_cases [of r] by (simp add: live_from_def)
  qed
qed

subsection \<open>The address computations\<close>

lemma unat_pages: "unat (of_nat (hr_record_pages r) :: u32) = hr_record_pages r"
  using pages_bounds [of r] by (intro unat_of_nat_lt) simp

lemma unat_prev: "unat w = k + 1 \<Longrightarrow> unat (w - 1) = k" for w :: "'a::len word"
  by (subst unat_sub_le) (simp_all add: word_le_nat_alt unat_1)

lemma unat_u8_small: "unat x < 256 \<Longrightarrow> unat (ucast x :: u8) = unat x" for x :: u32
  by (simp add: unsigned_ucast_eq take_bit_nat_eq_self)

lemma page_of_ok:
  assumes "unat w = k + 1"
  shows "unat (page_of r w) = k div 25 mod hr_record_pages r"
proof -
  have u: "unat ((w - 1) div 25 mod of_nat (hr_record_pages r)) = k div 25 mod hr_record_pages r"
    by (simp only: unat_mod unat_div unat_pages unat_prev [OF assms]) simp
  have "k div 25 mod hr_record_pages r < hr_record_pages r" using pages_bounds [of r] by simp
  then have "k div 25 mod hr_record_pages r < 256" using pages_bounds [of r] by linarith
  then show ?thesis unfolding page_of_def u [symmetric] by (rule unat_u8_small)
qed

lemma in_page_of_ok:
  assumes "unat w = k + 1"
  shows "unat (in_page_of w) = 10 * (k mod 25)"
proof -
  have m: "unat ((w - 1) mod 25) = k mod 25"
    by (simp only: unat_mod unat_prev [OF assms]) simp
  have lt: "k mod 25 < 25" by simp
  have "unat ((w - 1) mod 25 * 10) = k mod 25 * 10"
    using m lt by (simp add: unat_word_ariths)
  moreover have "k mod 25 * 10 < 256" using lt by linarith
  ultimately show ?thesis unfolding in_page_of_def by (simp add: unat_u8_small mult.commute)
qed

lemma record_addr_ok:
  assumes "unat w = k + 1"
  shows "record_addr r (page_of r w) (in_page_of w) = slot_base r (k mod slots r)"
  by (simp add: record_addr_def FLASH_PAGE_SIZE_def page_of_ok [OF assms] in_page_of_ok [OF assms]
      slot_of_record)

text \<open>When the code erases, and which page: the next one, when 24 records of the current one are used.\<close>

lemma write_record_erases_ok:
  fixes w :: u16 and r :: TeRecord
  defines "n \<equiv> unat w"
  defines "P \<equiv> hr_record_pages r"
  shows "write_record_erases r w =
    (if n mod 25 = 24 \<and> P \<le> n div 25 + 1 then Some (of_nat ((n div 25 + 1) mod P)) else None)"
proof (cases "n = 0")
  case True
  then have "w = 0" by (simp add: n_def unat_0_iff)
  then show ?thesis using True
    by (simp add: write_record_erases_def Let_def FLASH_PAGE_HR_RECORD_NUM_def)
next
  case False
  define C where "C = n div 25"
  have n: "n = 25 * C + n mod 25" "n mod 25 < 25" by (simp_all add: C_def)
  have u: "unat (ucast w :: u32) = n" by (simp add: unat_ucast_up n_def)
  then have u1: "unat (ucast w :: u32) = (n - 1) + 1" using False by simp
  have page: "unat (page_of r (ucast w)) = (n - 1) div 25 mod P"
    unfolding P_def by (rule page_of_ok [OF u1])
  have inp: "unat (ucast ((ucast w - 1 :: u32) mod 25) :: u8) = (n - 1) mod 25"
  proof -
    have "unat ((ucast w - 1 :: u32) mod 25) = (n - 1) mod 25"
      by (simp only: unat_mod unat_prev [OF u1]) simp
    moreover have "(n - 1) mod 25 < 256" by (rule less_trans [of _ 25]) simp_all
    ultimately show ?thesis by (simp add: unat_u8_small)
  qed
  have in24: "(n - 1) mod 25 + 1 = 24 \<longleftrightarrow> n mod 25 = 24"
  proof -
    have "n mod 25 = (if Suc ((n - 1) mod 25) = 25 then 0 else Suc ((n - 1) mod 25))"
      using mod_Suc [of "n - 1" 25] False by simp
    then show ?thesis by auto
  qed
  show ?thesis
  proof (cases "n mod 25 = 24")
    case no: False
    then have "\<not> unat (ucast ((ucast w - 1 :: u32) mod 25) :: u8) + 1 = 25 - 1"
      using in24 inp by simp
    then show ?thesis using no by (simp add: write_record_erases_def Let_def FLASH_PAGE_HR_RECORD_NUM_def)
  next
    case yes: True
    then have nC: "n = 25 * C + 24" using n by simp
    have "n - 1 = 25 * C + 23" using nC by simp
    then have page': "unat (page_of r (ucast w)) = C mod P" using page by simp
    have P: "1 \<le> P" "P \<le> 9" unfolding P_def by (rule pages_bounds)+
    have CP: "C mod P < P" using P by simp
    have Suc: "(C + 1) mod P = (if C mod P = P - 1 then 0 else C mod P + 1)"
      using mod_Suc [of C P] P by auto
    have in24': "unat (ucast ((ucast w - 1 :: u32) mod 25) :: u8) + 1 = FLASH_PAGE_HR_RECORD_NUM - 1"
      using in24 inp yes by (simp add: FLASH_PAGE_HR_RECORD_NUM_def)
    show ?thesis
    proof (cases "C mod P = P - 1")
      case True
      have "P \<le> C + 1"
      proof (rule ccontr)
        assume "\<not> P \<le> C + 1"
        then show False using True by simp
      qed
      then show ?thesis using True in24' page' Suc yes
        by (simp add: write_record_erases_def Let_def P_def [symmetric] C_def [symmetric])
    next
      case wrap: False
      then have P2: "2 \<le> P" using CP by linarith
      then have mx: "hr_record_max_num r = 25 * (P - 1)" using pages_cases [of r] unfolding P_def by auto
      define st where "st = (if unat w \<le> hr_record_max_num r then 0
        else page_of r (ucast (w - (of_nat (hr_record_max_num r) - 1))))"
      have pw: "page_of r (ucast w) = of_nat (C mod P)" by (metis page' word_of_nat_unat)
      have "int (C mod P) = int (unat st) - 1 \<longleftrightarrow> P \<le> C + 1"
      proof (cases "n \<le> 25 * (P - 1)")
        case True
        then have "st = 0" by (simp add: st_def mx n_def)
        moreover have "\<not> P \<le> C + 1" using True nC by linarith
        ultimately show ?thesis by simp
      next
        case False
        then have PC: "P \<le> C + 1" using nC by linarith
        have m1: "unat (of_nat (25 * (P - 1)) - 1 :: u16) = 25 * (P - 1) - 1"
        proof -
          have "unat (of_nat (25 * (P - 1)) :: u16) = (25 * (P - 1) - 1) + 1"
            using P2 P by (subst unat_of_nat_lt) simp_all
          then show ?thesis by (rule unat_prev)
        qed
        have "unat (w - (of_nat (25 * (P - 1)) - 1)) = (n - 25 * (P - 1)) + 1"
        proof -
          have "of_nat (25 * (P - 1)) - 1 \<le> w"
            using m1 False by (simp add: word_le_nat_alt n_def)
          then have "unat (w - (of_nat (25 * (P - 1)) - 1)) = n - (25 * (P - 1) - 1)"
            using m1 by (simp add: unat_sub_le n_def)
          then show ?thesis using False P2 by simp
        qed
        then have "unat (ucast (w - (of_nat (25 * (P - 1)) - 1)) :: u32) = (n - 25 * (P - 1)) + 1"
          by (simp add: unat_ucast_up)
        then have "unat st = (n - 25 * (P - 1)) div 25 mod P"
          using False by (simp add: st_def mx n_def [symmetric] page_of_ok P_def)
        also have "n - 25 * (P - 1) = 25 * (C + 1 - P) + 24"
          using nC PC P2 by linarith
        also have "(25 * (C + 1 - P) + 24) div 25 = C + 1 - P" by simp
        also have "(C + 1 - P) mod P = (C + 1) mod P" by (rule le_mod_geq [OF PC, symmetric])
        finally have "unat st = C mod P + 1" using Suc wrap by simp
        then show ?thesis using PC by simp
      qed
      then show ?thesis using wrap in24' page' Suc yes CP
        by (simp add: write_record_erases_def Let_def P_def [symmetric] C_def [symmetric] st_def [symmetric])
          (simp add: pw)
    qed
  qed
qed

subsection \<open>The highest index\<close>

lemma foldl_max_upper:
  "(\<And>x m. x \<in> set xs \<Longrightarrow> m \<le> b \<Longrightarrow> f m x \<le> b) \<Longrightarrow> m \<le> b \<Longrightarrow> foldl f m xs \<le> b" for b :: "'a::order"
  by (induction xs arbitrary: m) simp_all

lemma foldl_max_mono: "(\<And>m x. m \<le> f m x) \<Longrightarrow> m \<le> foldl f m xs" for m :: "'a::order"
proof (induction xs arbitrary: m)
  case (Cons x xs)
  have "m \<le> f m x" by (rule Cons.prems)
  also have "f m x \<le> foldl f (f m x) xs" by (rule Cons.IH) (rule Cons.prems)
  finally show ?case by simp
qed simp

lemma foldl_max_lower:
  "(\<And>m x. m \<le> f m x) \<Longrightarrow> x \<in> set xs \<Longrightarrow> (\<And>m. v \<le> f m x) \<Longrightarrow> v \<le> foldl f m xs"
  for v :: "'a::order"
proof (induction xs arbitrary: m)
  case (Cons y ys)
  show ?case
  proof (cases "x = y")
    case True
    have "v \<le> f m y" using Cons.prems(3) True by simp
    also have "f m y \<le> foldl f (f m y) ys" by (rule foldl_max_mono) (rule Cons.prems(1))
    finally show ?thesis by simp
  next
    case False
    then show ?thesis using Cons.prems by (simp add: Cons.IH)
  qed
qed simp

lemma slot_addr_base: "i < 25 \<Longrightarrow> slot_addr r g i = slot_base r (25 * g + i)"
  by (simp add: slot_addr_def slot_base_def FLASH_PAGE_SIZE_def FLASH_HR_ONE_RECORD_SIZE_def)

lemma max_index_upper:
  assumes "\<And>p. p < slots r \<Longrightarrow> half (fl_mem d) (slot_base r p) = HR_RECORD_FRAME_HEADER \<Longrightarrow>
    half (fl_mem d) (slot_base r p + 2) \<le> b"
  shows "Flash_GetMaxIndex_Records d r \<le> b"
  unfolding Flash_GetMaxIndex_Records_def FLASH_PAGE_HR_RECORD_NUM_def
proof (intro foldl_max_upper)
  fix g i m assume "g \<in> set [0..<hr_record_pages r]" "i \<in> set [0..<25 :: nat]" "m \<le> b"
  then have "25 * g + i < slots r" "i < 25" by (auto simp: slots_def)
  then show "(if half (fl_mem d) (slot_addr r g i) = HR_RECORD_FRAME_HEADER
      then max m (half (fl_mem d) (slot_addr r g i + 2)) else m) \<le> b"
    using assms [of "25 * g + i"] \<open>m \<le> b\<close> by (simp add: slot_addr_base)
qed simp_all

lemma max_index_lower:
  assumes "p < slots r" "half (fl_mem d) (slot_base r p) = HR_RECORD_FRAME_HEADER"
  shows "half (fl_mem d) (slot_base r p + 2) \<le> Flash_GetMaxIndex_Records d r"
proof -
  have b: "p div 25 \<in> set [0..<hr_record_pages r]" "p mod 25 \<in> set [0..<25 :: nat]"
    using slot_page_lt [OF assms(1)] by simp_all
  have "slot_addr r (p div 25) (p mod 25) = slot_base r p" by (simp add: slot_addr_base)
  then show ?thesis
    unfolding Flash_GetMaxIndex_Records_def FLASH_PAGE_HR_RECORD_NUM_def
    by (intro foldl_max_lower [OF _ b(1)] foldl_max_lower [OF _ b(2)] foldl_max_mono)
      (use assms(2) in simp_all)
qed

lemma le16_half: "i + 1 < 10 \<Longrightarrow> le16 (Flash_Read d a 10) i = half (fl_mem d) (a + i)"
  by (simp add: le16_def half_def Flash_Read_def add.assoc)

lemma hr_frame_halves:
  "le16 (hr_frame_buf f) 0 = hr_header f" "le16 (hr_frame_buf f) 2 = hr_index f"
  "le16 (hr_frame_buf f) 4 = hr_year f" "length (hr_frame_buf f) = 10"
  by (simp_all add: le16_def hr_frame_buf_def bytes_u16)

lemma hr_record_frame_roundtrip: "hr_frame_struct (hr_frame_buf f) = f"
  by (simp add: hr_frame_struct_def hr_frame_halves) (simp add: hr_frame_buf_def)

lemma slot_erased_half:
  assumes "slot_erased d a" "a mod 2 = 0"
  shows "half (fl_mem d) a = 0xE339"
  using assms(1) [unfolded slot_erased_def, rule_format, of 0]
    assms(1) [unfolded slot_erased_def, rule_format, of 1] assms(2)
  by (intro half_erased) simp_all

lemma log_max_index:
  assumes inv: "log_inv r d fs" and len: "length fs < 65536"
  shows "unat (Flash_GetMaxIndex_Records d r) = length fs"
proof -
  let ?n = "length fs"
  have live: "half (fl_mem d) (slot_base r (k mod slots r)) = HR_RECORD_FRAME_HEADER"
    "unat (half (fl_mem d) (slot_base r (k mod slots r) + 2)) = k + 1"
    if k: "live_from r ?n \<le> k" "k < ?n" for k
  proof -
    have b: "Flash_Read d (slot_base r (k mod slots r)) 10 = hr_frame_buf (fs ! k)"
      and f: "hr_header (fs ! k) = HR_RECORD_FRAME_HEADER" "unat (hr_index (fs ! k)) = k + 1"
      using inv k by (auto simp: log_inv_def)
    show "half (fl_mem d) (slot_base r (k mod slots r)) = HR_RECORD_FRAME_HEADER"
      using le16_half [of 0 d "slot_base r (k mod slots r)"] b f(1) hr_frame_halves(1) by simp
    show "unat (half (fl_mem d) (slot_base r (k mod slots r) + 2)) = k + 1"
      using le16_half [of 2 d "slot_base r (k mod slots r)"] b f(2) hr_frame_halves(2) by simp
  qed
  have upper: "Flash_GetMaxIndex_Records d r \<le> of_nat ?n"
  proof (rule max_index_upper)
    fix p assume p: "p < slots r" "half (fl_mem d) (slot_base r p) = HR_RECORD_FRAME_HEADER"
    have "\<not> slot_erased d (slot_base r p)"
      using slot_erased_half [OF _ slot_base_even, of d r p] p(2) by (auto simp: HR_RECORD_FRAME_HEADER_def)
    then obtain k where k: "live_from r ?n \<le> k" "k < ?n" "k mod slots r = p"
      using inv p(1) unfolding log_inv_def by blast
    then show "half (fl_mem d) (slot_base r p + 2) \<le> of_nat ?n"
      using live(2) [OF k(1,2)] len by (simp add: word_le_nat_alt unat_of_nat_lt)
  qed
  have n16: "unat (of_nat ?n :: u16) = ?n" using len by (intro unat_of_nat_lt) simp
  show ?thesis
  proof (cases "?n = 0")
    case True
    then show ?thesis using upper by (simp add: word_le_nat_alt)
  next
    case False
    have nl: "live_from r ?n \<le> ?n - 1"
      using False pages_cases [of r] by (intro newest_live) auto
    have "(?n - 1) mod slots r < slots r" using slots_pos [of r] by simp
    then have "half (fl_mem d) (slot_base r ((?n - 1) mod slots r) + 2) \<le> Flash_GetMaxIndex_Records d r"
      using live(1) [OF nl] False by (intro max_index_lower) simp_all
    then show ?thesis using live(2) [OF nl] False upper n16 by (simp add: word_le_nat_alt)
  qed
qed

subsection \<open>Writing a record\<close>

text \<open>Whether the \<open>n\<close>-th write erases a page, and which.\<close>

definition log_erases :: "TeRecord \<Rightarrow> nat \<Rightarrow> bool" where
  "log_erases r n \<longleftrightarrow> n mod 25 = 24 \<and> hr_record_pages r \<le> n div 25 + 1"

definition log_erased_page :: "TeRecord \<Rightarrow> nat \<Rightarrow> nat" where
  "log_erased_page r n = (n div 25 + 1) mod hr_record_pages r"

lemma log_erased_page_lt: "log_erased_page r n < hr_record_pages r"
  using pages_bounds [of r] by (simp add: log_erased_page_def)

lemma live_from_Suc:
  "\<not> log_erases r n \<Longrightarrow> live_from r (n + 1) = live_from r n"
proof -
  assume ne: "\<not> log_erases r n"
  define C where "C = n div 25"
  have d: "(n + 1) div 25 = (if n mod 25 = 24 then C + 1 else C)"
    using div_Suc [of n 25] mod_Suc [of n 25] by (auto simp: C_def split: if_splits)
  show ?thesis
  proof (cases "n mod 25 = 24")
    case True
    then have "\<not> hr_record_pages r \<le> C + 1" using ne by (simp add: log_erases_def C_def)
    then show ?thesis using d True by (simp add: live_from_def C_def)
  qed (use d in \<open>simp add: live_from_def C_def\<close>)
qed

lemma live_from_erase:
  assumes "log_erases r n"
  shows "live_from r n \<le> live_from r (n + 1)"
    and "live_from r (n + 1) \<le> k \<Longrightarrow> k < n \<Longrightarrow> k div 25 mod hr_record_pages r \<noteq> log_erased_page r n"
    and "live_from r n \<le> k \<Longrightarrow> k < live_from r (n + 1) \<Longrightarrow>
      k div 25 mod hr_record_pages r = log_erased_page r n"
proof -
  define C P where "C = n div 25" and "P = hr_record_pages r"
  have n: "n = 25 * C + 24" and PC: "P \<le> C + 1"
    using assms mult_div_mod_eq [of 25 n] by (simp_all add: log_erases_def C_def P_def)
  have d: "n div 25 = C" "(n + 1) div 25 = C + 1" using n by simp_all
  have P: "1 \<le> P" unfolding P_def by (rule pages_bounds)
  have g: "log_erased_page r n = (C + 1) mod P" by (simp add: log_erased_page_def C_def P_def)
  have lf: "live_from r n = (if P = 1 then 25 * C - 1 else 25 * (C + 1 - P))"
    "live_from r (n + 1) = (if P = 1 then n else 25 * (C + 2 - P))"
    unfolding live_from_def d P_def [symmetric] using n by simp_all
  have "C + 1 - P \<le> C + 2 - P" "25 * C - 1 \<le> n" using n by linarith+
  then show "live_from r n \<le> live_from r (n + 1)" unfolding lf by simp
  show "k div 25 mod hr_record_pages r \<noteq> log_erased_page r n" if k: "live_from r (n + 1) \<le> k" "k < n"
  proof (cases "P = 1")
    case False
    define q where "q = k div 25"
    have q: "C + 2 - P \<le> q" "q \<le> C" using k n False unfolding lf q_def by auto
    show ?thesis
    proof
      assume "k div 25 mod hr_record_pages r = log_erased_page r n"
      then have "q mod P = (C + 1) mod P" unfolding g by (simp add: q_def P_def)
      then have "(C + 1 - q) mod P = 0"
        using q by (metis le_SucI Suc_eq_plus1 mod_eq_dvd_iff_nat dvd_imp_mod_0)
      moreover have "0 < C + 1 - q" "C + 1 - q < P" using q PC by linarith+
      ultimately show False by simp
    qed
  qed (use k lf in simp)
  show "k div 25 mod hr_record_pages r = log_erased_page r n"
    if k: "live_from r n \<le> k" "k < live_from r (n + 1)"
  proof (cases "P = 1")
    case False
    have "k div 25 = C + 1 - P" using k False PC unfolding lf by simp
    then show ?thesis unfolding g P_def [symmetric] using le_mod_geq [OF PC] by simp
  qed (simp add: g P_def)
qed

lemma Flash_ErasePage_Records_ok:
  assumes hw: "flash_hw_ok hw" and g: "g < hr_record_pages r"
  shows "Flash_ErasePage_Records hw d r (of_nat g) =
    (True, d\<lparr>fl_mem := erase_at (fl_mem d) (hr_start_addr r + 256 * g), fl_saved_irq := fl_irq d,
       fl_locked := True\<rparr>)"
proof -
  have u: "unat (of_nat g :: u8) = g"
    using g pages_bounds [of r] by (intro unat_of_nat_lt) simp
  have le: "g \<le> hr_record_pages r - 1" using g by simp
  let ?a = "hr_start_addr r + 256 * g"
  have al: "?a mod 256 = 0" using start_aligned [of r] by (simp add: mod_simps)
  have ev: "(?a + 2 * i) mod 2 = 0" for i using start_even [of r] by presburger
  have "half (erase_at m ?a) (?a + 2 * i) = 0xE339" if "i < 128" for i m
    using that by (intro half_erased ev) (simp_all add: erase_at_def)
  then show ?thesis
    using le by (simp add: Flash_ErasePage_Records_def Let_def u FLASH_PAGE_SIZE_def flash_fast_erase [OF hw al]
        list_all_iff)
qed

lemma read_slot_cong:
  "(\<And>i. i < 10 \<Longrightarrow> fl_mem d' (a + i) = fl_mem d (a + i)) \<Longrightarrow> Flash_Read d' a 10 = Flash_Read d a 10"
  by (simp add: Flash_Read_def)

text \<open>A log that is ready for its next record: the invariant with the bounds of the next state.\<close>

definition log_ready :: "TeRecord \<Rightarrow> flash_dev \<Rightarrow> TsFlashHrRecordFrame list \<Rightarrow> bool" where
  "log_ready r d fs \<longleftrightarrow>
     (\<forall>k. live_from r (length fs + 1) \<le> k \<and> k < length fs \<longrightarrow>
        Flash_Read d (slot_base r (k mod slots r)) 10 = hr_frame_buf (fs ! k)) \<and>
     (\<forall>p < slots r. (\<forall>k. live_from r (length fs + 1) \<le> k \<and> k < length fs \<longrightarrow> k mod slots r \<noteq> p) \<longrightarrow>
        slot_erased d (slot_base r p))"

lemma log_prepare:
  assumes hw: "flash_hw_ok hw" and inv: "log_inv r d fs"
  shows "log_ready r
    (if log_erases r (length fs)
     then snd (Flash_ErasePage_Records hw d r (of_nat (log_erased_page r (length fs)))) else d) fs"
proof (cases "log_erases r (length fs)")
  case False
  then show ?thesis using inv by (simp add: log_ready_def log_inv_def live_from_Suc [simplified])
next
  case True
  let ?n = "length fs" and ?g = "log_erased_page r (length fs)"
  let ?a = "hr_start_addr r + 256 * ?g"
  define d1 where "d1 = snd (Flash_ErasePage_Records hw d r (of_nat ?g))"
  have mem: "fl_mem d1 = erase_at (fl_mem d) ?a"
    unfolding d1_def Flash_ErasePage_Records_ok [OF hw log_erased_page_lt] by simp
  have page: "fl_mem d1 (slot_base r p + i) =
      (if p div 25 = ?g then erased_byte (slot_base r p + i) else fl_mem d (slot_base r p + i))"
    if "i < 10" for p i
    using slot_in_page [OF that, of r ?g p] by (auto simp: mem erase_at_def)
  have pos: "k mod slots r div 25 = k div 25 mod hr_record_pages r" for k
  proof -
    have "k mod slots r = 25 * (k div 25 mod hr_record_pages r) + k mod 25"
      unfolding slots_def by (rule mod_mult2_eq)
    then show ?thesis by simp
  qed
  have "Flash_Read d1 (slot_base r (k mod slots r)) 10 = hr_frame_buf (fs ! k)"
    if k: "live_from r (?n + 1) \<le> k" "k < ?n" for k
  proof -
    have "Flash_Read d1 (slot_base r (k mod slots r)) 10 = Flash_Read d (slot_base r (k mod slots r)) 10"
      using live_from_erase(2) [OF True k] pos [of k] by (intro read_slot_cong) (simp add: page)
    moreover have "live_from r ?n \<le> k" using live_from_erase(1) [OF True] k by simp
    ultimately show ?thesis using inv k(2) by (simp add: log_inv_def)
  qed
  moreover have "slot_erased d1 (slot_base r p)"
    if p: "p < slots r" "\<forall>k. live_from r (?n + 1) \<le> k \<and> k < ?n \<longrightarrow> k mod slots r \<noteq> p" for p
  proof (cases "p div 25 = ?g")
    case True
    then show ?thesis by (simp add: slot_erased_def page)
  next
    case False
    have "k mod slots r \<noteq> p" if k: "live_from r ?n \<le> k" "k < ?n" for k
    proof (cases "live_from r (?n + 1) \<le> k")
      case no: False
      then have "k div 25 mod hr_record_pages r = ?g" using live_from_erase(3) [OF \<open>log_erases r ?n\<close>] k by simp
      then show ?thesis using False pos [of k] by auto
    qed (use p k in simp)
    then have "slot_erased d (slot_base r p)" using inv p(1) by (simp add: log_inv_def)
    then show ?thesis using False by (simp add: slot_erased_def page)
  qed
  ultimately show ?thesis using True by (simp add: log_ready_def d1_def)
qed

lemma log_append:
  assumes hw: "flash_hw_ok hw" and inv: "log_inv r d0 fs" and ready: "log_ready r d fs"
    and len: "length fs < 65535"
    and f: "hr_header f = HR_RECORD_FRAME_HEADER" "unat (hr_index f) = length fs + 1"
  shows "\<exists>d'. Flash_Write_RecordIndex hw d f r (hr_index f) = Some d' \<and> log_inv r d' (fs @ [f]) \<and>
    (\<forall>a. fl_mem d' a \<noteq> fl_mem d a \<longrightarrow>
       hr_start_addr r \<le> a \<and> a < hr_start_addr r + 256 * hr_record_pages r) \<and>
    fl_locked d' \<and> fl_irq d' = fl_irq d"
proof -
  let ?n = "length fs"
  let ?q = "?n mod slots r"
  have u: "unat (ucast (hr_index f) :: u32) = ?n + 1" using f(2) by (simp add: unat_ucast_up)
  have addr: "record_addr r (page_of r (ucast (hr_index f))) (in_page_of (ucast (hr_index f))) = slot_base r ?q"
    by (rule record_addr_ok [OF u])
  have qs: "?q < slots r" using slots_pos [of r] by simp
  have other: "k mod slots r \<noteq> ?q" if k: "live_from r (?n + 1) \<le> k" "k < ?n" for k
  proof (rule live_window [OF _ k(2)])
    have "live_from r ?n \<le> live_from r (?n + 1)"
      using live_from_erase(1) [of r ?n] live_from_Suc [of r ?n] by (cases "log_erases r ?n") simp_all
    then show "live_from r ?n \<le> k" using k(1) by simp
    show "hr_record_pages r = 1 \<longrightarrow> ?n mod 25 \<noteq> 24"
    proof (intro impI notI)
      assume P: "hr_record_pages r = 1" "?n mod 25 = 24"
      then have "live_from r (?n + 1) = ?n"
        using mult_div_mod_eq [of 25 ?n] div_Suc [of ?n 25] mod_Suc [of ?n 25] by (simp add: live_from_def)
      then show False using k by simp
    qed
  qed
  have "slot_erased d (slot_base r ?q)" using ready qs other by (simp add: log_ready_def)
  then have er: "\<And>j. j < 10 \<Longrightarrow> fl_mem d (slot_base r ?q + j) = erased_byte (slot_base r ?q + j)"
    by (simp add: slot_erased_def)
  define d' where "d' = d\<lparr>fl_mem := overlay (fl_mem d) (slot_base r ?q) (hr_frame_buf f),
    fl_saved_irq := fl_irq d, fl_locked := True\<rparr>"
  have wr: "Flash_Write_RecordIndex hw d f r (hr_index f) = Some d'"
    using Flash_Write_erased [OF hw slot_base_even hr_frame_halves(4) _ er]
    by (simp add: Flash_Write_RecordIndex_def addr HR_RECORD_FRAME_LEN_def d'_def)
  have new: "Flash_Read d' (slot_base r ?q) 10 = hr_frame_buf f"
    by (rule nth_equalityI) (simp_all add: Flash_Read_def hr_frame_halves d'_def overlay_in)
  have keep: "fl_mem d' (slot_base r p + i) = fl_mem d (slot_base r p + i)" if "p \<noteq> ?q" "i < 10" for p i
    using slot_disjoint [OF that, of r] by (simp add: d'_def overlay_other hr_frame_halves)
  have "log_inv r d' (fs @ [f])"
    unfolding log_inv_def
  proof (intro conjI allI impI)
    fix k assume "k < length (fs @ [f])"
    then show "hr_header ((fs @ [f]) ! k) = HR_RECORD_FRAME_HEADER" "unat (hr_index ((fs @ [f]) ! k)) = k + 1"
      using inv f by (auto simp: log_inv_def nth_append less_Suc_eq)
  next
    fix k assume k: "live_from r (length (fs @ [f])) \<le> k \<and> k < length (fs @ [f])"
    show "Flash_Read d' (slot_base r (k mod slots r)) 10 = hr_frame_buf ((fs @ [f]) ! k)"
    proof (cases "k = ?n")
      case False
      then have k': "live_from r (?n + 1) \<le> k" "k < ?n" using k by auto
      have "Flash_Read d' (slot_base r (k mod slots r)) 10 = Flash_Read d (slot_base r (k mod slots r)) 10"
        using other [OF k'] by (intro read_slot_cong keep) simp_all
      then show ?thesis using ready k' by (simp add: log_ready_def nth_append)
    qed (simp add: new)
  next
    fix p assume p: "p < slots r"
      "\<forall>k. live_from r (length (fs @ [f])) \<le> k \<and> k < length (fs @ [f]) \<longrightarrow> k mod slots r \<noteq> p"
    have "live_from r (?n + 1) \<le> ?n" using newest_live [of ?n "?n + 1" r] pages_cases [of r] by auto
    then have "p \<noteq> ?q" using p(2) by auto
    moreover have "slot_erased d (slot_base r p)"
      using ready p by (simp add: log_ready_def)
    ultimately show "slot_erased d' (slot_base r p)" by (simp add: slot_erased_def keep)
  qed
  moreover have "hr_start_addr r \<le> a \<and> a < hr_start_addr r + 256 * hr_record_pages r"
    if "fl_mem d' a \<noteq> fl_mem d a" for a
  proof -
    have "\<not> (a < slot_base r ?q \<or> slot_base r ?q + 10 \<le> a)"
    proof
      assume "a < slot_base r ?q \<or> slot_base r ?q + 10 \<le> a"
      then have "fl_mem d' a = fl_mem d a"
        using overlay_other [of a "slot_base r ?q" "hr_frame_buf f" "fl_mem d"]
        by (simp add: d'_def hr_frame_halves)
      with that show False by simp
    qed
    then have "slot_base r ?q \<le> a" "a < slot_base r ?q + 10" by simp_all
    then obtain i where i: "a = slot_base r ?q + i" "i < 10"
      by (metis add_less_cancel_left le_Suc_ex)
    have "?q div 25 < hr_record_pages r" by (rule slot_page_lt [OF qs])
    then have "256 * (?q div 25) + 256 \<le> 256 * hr_record_pages r" by linarith
    then show ?thesis using slot_in_page [OF i(2), of r "?q div 25" ?q] i(1) by linarith
  qed
  moreover have "fl_locked d'" "fl_irq d' = fl_irq d" by (simp_all add: d'_def)
  ultimately show ?thesis using wr by blast
qed

text \<open>One write, from the state of the log to the next.\<close>

lemma Flash_Write_Record_step:
  assumes hw: "flash_hw_ok hw" and inv: "log_inv r d fs" and len: "length fs < 65535"
    and clock: "BSP_Get_RTC_Time s = Some (name, s')"
  shows "\<exists>d'. Flash_Write_Record hw (d, s) r = Some (d', s') \<and>
    log_inv r d' (fs @ [record_now (of_nat (length fs + 1)) (RtcDateTime s')]) \<and>
    (\<forall>a. fl_mem d' a \<noteq> fl_mem d a \<longrightarrow>
       hr_start_addr r \<le> a \<and> a < hr_start_addr r + 256 * hr_record_pages r) \<and>
    fl_locked d' \<and> fl_irq d' = fl_irq d"
proof -
  let ?n = "length fs" and ?g = "log_erased_page r (length fs)"
  define mx where "mx = Flash_GetMaxIndex_Records d r"
  have mx: "unat mx = ?n" unfolding mx_def using log_max_index [OF inv] len by simp
  then have mxw: "mx = of_nat ?n" by (metis word_of_nat_unat)
  define d1 where "d1 = (if log_erases r ?n then snd (Flash_ErasePage_Records hw d r (of_nat ?g)) else d)"
  have er: "write_record_erases r mx = (if log_erases r ?n then Some (of_nat ?g) else None)"
    using write_record_erases_ok [of r mx] by (simp add: mx log_erases_def log_erased_page_def)
  have d1: "(case write_record_erases r mx of None \<Rightarrow> d
      | Some page \<Rightarrow> snd (Flash_ErasePage_Records hw d r page)) = d1"
    by (simp add: er d1_def)
  have ready: "log_ready r d1 fs" unfolding d1_def by (rule log_prepare [OF hw inv])
  have irq: "fl_irq d1 = fl_irq d"
    by (simp add: d1_def Flash_ErasePage_Records_ok [OF hw log_erased_page_lt])
  have mem1: "hr_start_addr r \<le> a \<and> a < hr_start_addr r + 256 * hr_record_pages r"
    if "fl_mem d1 a \<noteq> fl_mem d a" for a
  proof -
    have "hr_start_addr r + 256 * ?g \<le> a" "a < hr_start_addr r + 256 * ?g + 256"
      using that by (simp_all add: d1_def Flash_ErasePage_Records_ok [OF hw log_erased_page_lt] erase_at_def
          split: if_splits)
    moreover have "256 * ?g + 256 \<le> 256 * hr_record_pages r" using log_erased_page_lt [of r ?n] by linarith
    ultimately show ?thesis by linarith
  qed
  define f where "f = record_now (mx + 1) (RtcDateTime s')"
  have f: "hr_header f = HR_RECORD_FRAME_HEADER" "hr_index f = mx + 1" "f = record_now (of_nat (?n + 1)) (RtcDateTime s')"
    by (simp_all add: f_def record_now_def mxw add.commute)
  have idx: "unat (hr_index f) = ?n + 1"
    unfolding f(2) using mx len by (subst unat_add_lt) simp_all
  obtain d' where d': "Flash_Write_RecordIndex hw d1 f r (hr_index f) = Some d'" "log_inv r d' (fs @ [f])"
    "\<forall>a. fl_mem d' a \<noteq> fl_mem d1 a \<longrightarrow> hr_start_addr r \<le> a \<and> a < hr_start_addr r + 256 * hr_record_pages r"
    "fl_locked d'" "fl_irq d' = fl_irq d1"
    using log_append [OF hw inv ready len f(1) idx] by blast
  have "Flash_Write_Record hw (d, s) r = Some (d', s')"
    using clock d'(1) by (simp add: Flash_Write_Record_def Let_def mx_def [symmetric] d1 f_def [symmetric] f(2))
  moreover have "hr_start_addr r \<le> a \<and> a < hr_start_addr r + 256 * hr_record_pages r"
    if "fl_mem d' a \<noteq> fl_mem d a" for a
    using that d'(3) mem1 [of a] by (cases "fl_mem d' a = fl_mem d1 a") auto
  ultimately show ?thesis using d'(2,4,5) f(3) irq by auto
qed

text \<open>Reading the record of index \<open>k + 1\<close> while it is live.\<close>

lemma log_read_live:
  assumes inv: "log_inv r d fs" and k: "live_from r (length fs) \<le> k" "k < length fs" and w: "unat w = k + 1"
  shows "Flash_Read d (record_addr r (page_of r w) (in_page_of w)) HR_RECORD_FRAME_LEN = hr_frame_buf (fs ! k)"
  using inv k by (simp add: record_addr_ok [OF w] log_inv_def HR_RECORD_FRAME_LEN_def)

lemma log_num:
  assumes inv: "log_inv r d fs" and len: "length fs < 65536"
  shows "unat (Flash_GetNum_Records d r) = min (length fs) (hr_record_max_num r)"
proof -
  have mx: "unat (Flash_GetMaxIndex_Records d r) = length fs" by (rule log_max_index [OF inv len])
  have b: "hr_record_max_num r < 256" using pages_cases [of r] by auto
  show ?thesis
  proof (cases "length fs \<le> hr_record_max_num r")
    case True
    then show ?thesis using mx b
      by (simp add: Flash_GetNum_Records_def Let_def unsigned_ucast_eq take_bit_nat_eq_self)
  next
    case False
    then show ?thesis using mx b by (simp add: Flash_GetNum_Records_def Let_def unat_of_nat_lt)
  qed
qed

text \<open>A region of erased pages is the empty log.\<close>

lemma log_inv_erased:
  assumes "\<forall>a. hr_start_addr r \<le> a \<and> a < hr_start_addr r + 256 * hr_record_pages r \<longrightarrow>
    fl_mem d a = erased_byte a"
  shows "log_inv r d []"
proof -
  have "slot_erased d (slot_base r p)" if "p < slots r" for p
    unfolding slot_erased_def
  proof (intro allI impI)
    fix i :: nat assume i: "i < 10"
    have "p div 25 < hr_record_pages r" by (rule slot_page_lt [OF that])
    then have "256 * (p div 25) + 256 \<le> 256 * hr_record_pages r" by linarith
    then have "hr_start_addr r \<le> slot_base r p + i \<and>
        slot_base r p + i < hr_start_addr r + 256 * hr_record_pages r"
      using slot_in_page [OF i, of r "p div 25" p] by linarith
    then show "fl_mem d (slot_base r p + i) = erased_byte (slot_base r p + i)" using assms by simp
  qed
  then show ?thesis by (simp add: log_inv_def)
qed

lemma erase_pages_mem:
  assumes hw: "flash_hw_ok hw"
  shows "g + n \<le> hr_record_pages r \<Longrightarrow>
    fl_mem (erase_pages hw r g n d) a =
      (if hr_start_addr r + 256 * g \<le> a \<and> a < hr_start_addr r + 256 * (g + n) then erased_byte a
       else fl_mem d a)"
proof (induction n arbitrary: g d)
  case (Suc n)
  have g: "g < hr_record_pages r" using Suc.prems by simp
  let ?d = "snd (Flash_ErasePage_Records hw d r (of_nat g))"
  have "fl_mem ?d a = erase_at (fl_mem d) (hr_start_addr r + 256 * g) a"
    by (simp add: Flash_ErasePage_Records_ok [OF hw g])
  moreover have "fl_mem (erase_pages hw r (g + 1) n ?d) a =
      (if hr_start_addr r + 256 * (g + 1) \<le> a \<and> a < hr_start_addr r + 256 * (g + 1 + n) then erased_byte a
       else fl_mem ?d a)"
    using Suc.prems by (intro Suc.IH) simp
  ultimately show ?case by (auto simp: erase_at_def)
qed auto

subsection \<open>Runs of writes\<close>

text \<open>
  A history of writes to one log, the \<open>i\<close>-th when the clock's counter has reached \<open>cs ! i\<close>, and what
  the clock reads at these moments.
\<close>

fun log_run :: "flash_hw \<Rightarrow> TeRecord \<Rightarrow> u32 list \<Rightarrow> flash_dev \<times> rtc \<Rightarrow> (flash_dev \<times> rtc) option" where
  "log_run hw r [] ds = Some ds"
| "log_run hw r (c # cs) ds =
     do { ds \<leftarrow> Flash_Write_Record hw (fst ds, (snd ds)\<lparr>rtc_counter := c\<rparr>) r; log_run hw r cs ds }"

fun clock_run :: "u32 list \<Rightarrow> rtc \<Rightarrow> TsRtcDateTime list option" where
  "clock_run [] s = Some []"
| "clock_run (c # cs) s =
     do { (_, s) \<leftarrow> BSP_Get_RTC_Time (s\<lparr>rtc_counter := c\<rparr>);
          dts \<leftarrow> clock_run cs s;
          Some (RtcDateTime s # dts) }"

definition records_from :: "nat \<Rightarrow> TsRtcDateTime list \<Rightarrow> TsFlashHrRecordFrame list" where
  "records_from k dts = map (\<lambda>i. record_now (of_nat (k + i + 1)) (dts ! i)) [0..<length dts]"

lemma records_from_Cons:
  "records_from k (dt # dts) = record_now (of_nat (k + 1)) dt # records_from (k + 1) dts"
proof -
  have "[0..<length (dt # dts)] = 0 # map Suc [0..<length dts]"
    by (simp only: list.size upt_conv_Cons map_Suc_upt add_0_right add_Suc_right zero_less_Suc)
  then show ?thesis unfolding records_from_def by simp
qed

lemma log_run_ok:
  assumes hw: "flash_hw_ok hw"
  shows "log_inv r d fs \<Longrightarrow> length fs + length cs < 65536 \<Longrightarrow> clock_run cs s = Some dts \<Longrightarrow>
    length dts = length cs \<and>
    (\<exists>d' s'. log_run hw r cs (d, s) = Some (d', s') \<and> log_inv r d' (fs @ records_from (length fs) dts) \<and>
      (\<forall>a. fl_mem d' a \<noteq> fl_mem d a \<longrightarrow>
         hr_start_addr r \<le> a \<and> a < hr_start_addr r + 256 * hr_record_pages r))"
proof (induction cs arbitrary: d s fs dts)
  case Nil
  then show ?case by (simp add: records_from_def)
next
  case (Cons c cs)
  obtain name s1 dts1 where clk: "BSP_Get_RTC_Time (s\<lparr>rtc_counter := c\<rparr>) = Some (name, s1)"
    "clock_run cs s1 = Some dts1" "dts = RtcDateTime s1 # dts1"
    using Cons.prems(3) by (auto split: bind_splits)
  have len: "length fs < 65535" using Cons.prems(2) by simp
  define f where "f = record_now (of_nat (length fs + 1)) (RtcDateTime s1)"
  obtain d1 where d1: "Flash_Write_Record hw (d, s\<lparr>rtc_counter := c\<rparr>) r = Some (d1, s1)"
    "log_inv r d1 (fs @ [f])"
    "\<forall>a. fl_mem d1 a \<noteq> fl_mem d a \<longrightarrow> hr_start_addr r \<le> a \<and> a < hr_start_addr r + 256 * hr_record_pages r"
    using Flash_Write_Record_step [OF hw Cons.prems(1) len clk(1)] by (auto simp: f_def)
  have "length (fs @ [f]) + length cs < 65536" using Cons.prems(2) by simp
  from Cons.IH [OF d1(2) this clk(2)]
  obtain d' s' where IH: "length dts1 = length cs" "log_run hw r cs (d1, s1) = Some (d', s')"
    "log_inv r d' ((fs @ [f]) @ records_from (length (fs @ [f])) dts1)"
    "\<forall>a. fl_mem d' a \<noteq> fl_mem d1 a \<longrightarrow> hr_start_addr r \<le> a \<and> a < hr_start_addr r + 256 * hr_record_pages r"
    by blast
  have "(fs @ [f]) @ records_from (length (fs @ [f])) dts1 = fs @ records_from (length fs) dts"
    by (simp add: clk(3) records_from_Cons f_def)
  moreover have "hr_start_addr r \<le> a \<and> a < hr_start_addr r + 256 * hr_record_pages r"
    if "fl_mem d' a \<noteq> fl_mem d a" for a
    using that IH(4) d1(3) by (cases "fl_mem d' a = fl_mem d1 a") auto
  ultimately show ?case using IH d1(1) clk(3) by auto
qed

definition region_erased :: "TeRecord \<Rightarrow> flash_dev \<Rightarrow> bool" where
  "region_erased r d \<longleftrightarrow>
     list_all (\<lambda>a. fl_mem d a = erased_byte a)
       [hr_start_addr r..<hr_start_addr r + 256 * hr_record_pages r]"

lemma region_erased_log: "region_erased r d \<Longrightarrow> log_inv r d []"
  by (rule log_inv_erased) (auto simp: region_erased_def list_all_iff)

lemma log_run_from_erased:
  assumes "flash_hw_ok hw" "region_erased r d" "clock_run cs s = Some dts" "length cs < 65536"
  obtains d' s' where "log_run hw r cs (d, s) = Some (d', s')" "log_inv r d' (records_from 0 dts)"
    "length dts = length cs" "length (records_from 0 dts) = length cs"
    "\<forall>a. fl_mem d' a \<noteq> fl_mem d a \<longrightarrow> hr_start_addr r \<le> a \<and> a < hr_start_addr r + 256 * hr_record_pages r"
proof -
  have lt: "length ([] :: TsFlashHrRecordFrame list) + length cs < 65536" using assms(4) by simp
  have run: "length dts = length cs"
    "\<exists>d' s'. log_run hw r cs (d, s) = Some (d', s') \<and> log_inv r d' (records_from 0 dts) \<and>
      (\<forall>a. fl_mem d' a \<noteq> fl_mem d a \<longrightarrow> hr_start_addr r \<le> a \<and> a < hr_start_addr r + 256 * hr_record_pages r)"
    using log_run_ok [OF assms(1) region_erased_log [OF assms(2)] lt assms(3)] by simp_all
  moreover from run(1) have "length (records_from 0 dts) = length cs" by (simp add: records_from_def)
  ultimately show ?thesis using that by blast
qed

text \<open>
  The moments at which the clock can be read, and what it then reads: \<open>dated c dt\<close> when \<open>dt\<close> holds the date and the time of
  day of the counter \<open>c\<close>.
\<close>

definition clock_readable :: "u32 \<Rightarrow> bool" where
  "clock_readable c \<longleftrightarrow>
     (\<exists>y m d. valid_date y m d \<and> \<not> leap_year_end y m d \<and> 0 < day_number y m d \<and> unat c div 86400 = day_number y m d) \<and>
     (unat c div 86400 + 4) mod 7 \<noteq> 0"

definition dated :: "u32 \<Rightarrow> TsRtcDateTime \<Rightarrow> bool" where
  "dated c dt \<longleftrightarrow>
     (\<exists>y m d. valid_date y m d \<and> unat c div 86400 = day_number y m d \<and> date_fields dt y m d) \<and>
     time_fields dt (unat c mod 86400 div 3600) (unat c mod 86400 mod 3600 div 60) (unat c mod 86400 mod 60)"

lemma clock_read:
  assumes "rtc_cache_ok s" "clock_readable c"
  shows "\<exists>name s'. BSP_Get_RTC_Time (s\<lparr>rtc_counter := c\<rparr>) = Some (name, s') \<and> rtc_cache_ok s' \<and> dated c (RtcDateTime s')"
proof -
  obtain y m d where d: "valid_date y m d" "\<not> leap_year_end y m d" "0 < day_number y m d" "unat c div 86400 = day_number y m d"
    and w: "(day_number y m d + 4) mod 7 \<noteq> 0"
    using assms(2) unfolding clock_readable_def by metis
  let ?s = "s\<lparr>rtc_counter := c\<rparr>" and ?sod = "unat c mod 86400"
  have c: "unat (rtc_counter ?s) = day_number y m d * 86400 + ?sod" "?sod < 86400" by (simp_all flip: d(4))
  have ok: "rtc_cache_ok ?s" using assms(1) by (simp add: rtc_cache_ok_def)
  obtain s' where s': "RTC_Get ?s = Some (rtc_counter ?s, s')" "rtc_reads ?s y m d ?sod s'" "rtc_cache_ok s'"
    using RTC_Get_date [OF d(1,2) c rtc_cache_hit [OF ok d(1,3)]] rtc_reads_cache d(1) by blast
  have "dated c (RtcDateTime s')" using s'(2) d unfolding rtc_reads_def dated_def by metis
  moreover obtain name s'' where "BSP_Get_RTC_Time ?s = Some (name, s'')"
    using BSP_Get_RTC_Time_names [OF ok d(1-3) c] w by auto
  moreover from this have "s'' = s'" using s'(1) by (auto simp: BSP_Get_RTC_Time_def split: Option.bind_splits)
  ultimately show ?thesis using s'(3) by blast
qed

lemma clock_run_readable:
  "rtc_cache_ok s \<Longrightarrow> \<forall>c \<in> set cs. clock_readable c \<Longrightarrow> \<exists>dts. clock_run cs s = Some dts \<and> list_all2 dated cs dts"
proof (induction cs arbitrary: s)
  case (Cons c cs)
  obtain name s' where s': "BSP_Get_RTC_Time (s\<lparr>rtc_counter := c\<rparr>) = Some (name, s')" "rtc_cache_ok s'" "dated c (RtcDateTime s')"
    using clock_read Cons.prems by (metis list.set_intros(1))
  obtain dts where "clock_run cs s' = Some dts" "list_all2 dated cs dts" using Cons.IH [OF s'(2)] Cons.prems(2) by auto
  then show ?case using s'(1,3) by simp
qed simp

lemma records_nth: "k < length dts \<Longrightarrow> records_from 0 dts ! k = record_now (of_nat (k + 1)) (dts ! k)"
  by (simp add: records_from_def)

subsection \<open>Reading a record back\<close>

text \<open>Which record \<open>Flash_Read_Record\<close> returns, by the number of records written and the index asked for.\<close>

lemma Flash_Read_Record_number:
  assumes inv: "log_inv r d fs" and len: "length fs < 65536"
    and j: "1 \<le> unat j" "unat j \<le> hr_record_max_num r" "unat j \<le> length fs"
    and k: "k = (if length fs \<le> hr_record_max_num r then unat j - 1
                 else if r = kRecordSensoEndOfLife then length fs - 1 else length fs + unat j - 51)"
    and j50: "length fs \<le> hr_record_max_num r \<or> unat j \<le> 50"
  shows "hr_frame_struct (Flash_Read_Record d r j) = fs ! k \<and> k < length fs"
proof -
  let ?n = "length fs"
  define mx where "mx = Flash_GetMaxIndex_Records d r"
  have mx: "unat mx = ?n" unfolding mx_def by (rule log_max_index [OF inv len])
  have uj: "unat (ucast j :: u16) = unat j" "unat (ucast j :: u32) = unat j"
    by (simp_all add: unat_ucast_up)
  have le: "ucast j \<le> mx" using j by (simp add: word_le_nat_alt uj mx)
  have rd: "hr_frame_struct (Flash_Read d (record_addr r (page_of r w) (in_page_of w)) HR_RECORD_FRAME_LEN) =
      fs ! k"
    if "live_from r ?n \<le> k" "k < ?n" "unat w = k + 1" for k w
    using log_read_live [OF inv that] by (simp add: hr_record_frame_roundtrip)
  show ?thesis
  proof (cases "?n \<le> hr_record_max_num r")
    case True
    then have kj: "k = unat j - 1" using k by simp
    then have "live_from r ?n \<le> k" "k < ?n" using newest_live [of k ?n r] True j by auto
    moreover have "unat (ucast j :: u32) = k + 1" using kj j uj by simp
    ultimately show ?thesis
      using rd [of k "ucast j"] le True by (simp add: Flash_Read_Record_def Let_def mx_def [symmetric] mx)
  next
    case gt: False
    show ?thesis
    proof (cases "r = kRecordSensoEndOfLife")
      case True
      then have kn: "k = ?n - 1" using k gt by simp
      have P1: "hr_record_pages r = 1" using True by (simp add: hr_record_pages_def)
      have w: "unat (ucast mx :: u32) = k + 1" using kn gt mx by (simp add: unat_ucast_up)
      have pg: "page_of r (ucast mx) = 0"
        using page_of_ok [OF w, of r] P1 by (simp add: unat_0_iff)
      have nlt: "\<not> record_nat r < record_nat kRecordSensoEndOfLife" using True by simp
      have kl: "live_from r ?n \<le> k" "k < ?n"
        using newest_live [of k ?n r] kn gt True by (auto simp: hr_record_max_num_def)
      show ?thesis
        unfolding Flash_Read_Record_def Let_def mx_def [symmetric]
        using rd [OF kl w] le gt mx pg nlt kl(2) by simp
    next
      case False
      then have kn: "k = ?n + unat j - 51" using k gt by simp
      have m50: "50 \<le> hr_record_max_num r" using False by (cases r) (simp_all add: hr_record_max_num_def)
      have j50': "unat j \<le> 50" using j50 gt by simp
      have r50: "unat (50 - ucast j :: u16) = 50 - unat j"
        using j50' by (simp add: unat_sub_le word_le_nat_alt uj)
      have big: "50 < ?n" using m50 gt by simp
      have "unat (mx - (50 - ucast j)) = ?n - (50 - unat j)"
        using r50 big by (simp add: unat_sub_le word_le_nat_alt mx)
      then have "unat (mx - (50 - ucast j)) = k + 1"
        using kn j50' j(1) big by arith
      then have w: "unat (ucast (mx - (50 - ucast j)) :: u32) = k + 1" by (simp add: unat_ucast_up)
      have "live_from r ?n \<le> k" "k < ?n"
        using newest_live [of k ?n r] kn m50 gt j j50' by auto
      moreover have "record_nat r < record_nat kRecordSensoEndOfLife" using False by (cases r) simp_all
      ultimately show ?thesis
        using rd [OF _ _ w] le gt by (simp add: Flash_Read_Record_def Let_def mx_def [symmetric] mx)
    qed
  qed
qed

subsection \<open>Properties of the logs\<close>

text \<open>
  Hardware for the witnesses: an erased cell takes the data, any other cell keeps the conjunction of the
  two; a fresh device; the clock at a Wednesday in 2023.
\<close>

definition sample_hw :: flash_hw where
  "sample_hw = \<lparr>hw_erased = 0xE339, hw_prog = (\<lambda>old data. if old = 0xE339 then data else old AND data)\<rparr>"

definition sample_dev :: flash_dev where
  "sample_dev = \<lparr>fl_mem = erased_byte, fl_locked = True, fl_irq = True, fl_saved_irq = True\<rparr>"

definition sample_time :: u32 where "sample_time = 1679493500"

lemma sample_hw_ok: "flash_hw_ok sample_hw"
  by (auto simp: flash_hw_ok_def sample_hw_def fun_eq_iff)

lemma sample_dev_erased: "region_erased r sample_dev"
  by (simp add: region_erased_def list_all_iff sample_dev_def)

lemma sample_readable: "clock_readable sample_time"
proof -
  have nd: "day_number 2023 3 22 = 19438"
    by (simp add: day_number_def days_before_year_closed days_before_month_table leap_def)
  have "valid_date 2023 3 22" "\<not> leap_year_end 2023 3 22"
    by (simp_all add: valid_date_def mon_days_def leap_def leap_year_end_def)
  moreover have "unat sample_time div 86400 = day_number 2023 3 22" by (simp add: nd sample_time_def)
  moreover have "0 < day_number 2023 3 22" "(unat sample_time div 86400 + 4) mod 7 \<noteq> 0" by (simp_all add: nd sample_time_def)
  ultimately show ?thesis unfolding clock_readable_def by blast
qed

lemma sample_times_readable: "\<forall>c \<in> set (replicate n sample_time). clock_readable c"
  using sample_readable by auto

lemma sample_clock: "\<exists>dts. clock_run (replicate n sample_time) rtc_boot = Some dts"
  using clock_run_readable [OF rtc_boot_cache, of "replicate n sample_time"] sample_times_readable by blast

text \<open>C1: Whatever the number of writes (up to the 16-bit index), a log that starts erased never loses one of
  its newest records: every write succeeds, the highest index is the number of writes, the count
  reported is that number capped at the log's capacity, and each of the newest records up to the
  capacity is in its slot with the date and time of its write, the Gregorian date of the counter. No byte outside the
  log's pages changes. This is for writes at moments when the clock can be read: from 1970-01-02 to 2099-12-31, on no Sunday
  and not on the last day of a leap year, where \<open>BSP_Get_RTC_Time\<close> reads outside its tables; the date the clock caches is
  the one of its day count; and the flash controller stores what is programmed into an erased cell.\<close>

theorem flash_log_keeps_newest:
  assumes "flash_hw_ok hw" "region_erased r d" "rtc_cache_ok s" "\<forall>c \<in> set cs. clock_readable c" "length cs < 65536"
  shows "\<exists>dts d' s'. log_run hw r cs (d, s) = Some (d', s') \<and> list_all2 dated cs dts \<and>
    unat (Flash_GetMaxIndex_Records d' r) = length cs \<and>
    unat (Flash_GetNum_Records d' r) = min (length cs) (hr_record_max_num r) \<and>
    (\<forall>k. k < length cs \<and> length cs \<le> k + hr_record_max_num r \<longrightarrow>
       hr_frame_struct (Flash_Read d' (slot_base r (k mod slots r)) 10) =
         record_now (of_nat (k + 1)) (dts ! k)) \<and>
    (\<forall>a. fl_mem d' a \<noteq> fl_mem d a \<longrightarrow>
       hr_start_addr r \<le> a \<and> a < hr_start_addr r + 256 * hr_record_pages r)"
proof -
  obtain dts where dts: "clock_run cs s = Some dts" "list_all2 dated cs dts"
    using clock_run_readable [OF assms(3,4)] by blast
  obtain d' s' where run: "log_run hw r cs (d, s) = Some (d', s')" "log_inv r d' (records_from 0 dts)"
    "length dts = length cs" "length (records_from 0 dts) = length cs"
    "\<forall>a. fl_mem d' a \<noteq> fl_mem d a \<longrightarrow> hr_start_addr r \<le> a \<and> a < hr_start_addr r + 256 * hr_record_pages r"
    by (rule log_run_from_erased [OF assms(1,2) dts(1) assms(5)])
  have "hr_frame_struct (Flash_Read d' (slot_base r (k mod slots r)) 10) =
      record_now (of_nat (k + 1)) (dts ! k)"
    if k: "k < length cs" "length cs \<le> k + hr_record_max_num r" for k
    using run(2-4) newest_live [OF k] k(1) records_nth [of k dts]
    by (simp add: log_inv_def hr_record_frame_roundtrip)
  then show ?thesis
    using run dts(2) log_max_index [OF run(2)] log_num [OF run(2)] assms(5)
    by (intro exI [of _ dts] exI [of _ d'] exI [of _ s']) simp
qed

theorem flash_log_keeps_newest_witness:
  "\<exists>dts d' s'. log_run sample_hw kRecordPowerOn (replicate 1000 sample_time) (sample_dev, rtc_boot) = Some (d', s') \<and>
    unat (Flash_GetMaxIndex_Records d' kRecordPowerOn) = 1000 \<and>
    unat (Flash_GetNum_Records d' kRecordPowerOn) = 50 \<and>
    hr_frame_struct (Flash_Read d' (slot_base kRecordPowerOn (950 mod slots kRecordPowerOn)) 10) =
      record_now 951 (dts ! 950)"
proof -
  have m: "hr_record_max_num kRecordPowerOn = 50" by (simp add: hr_record_max_num_def)
  define cs where "cs = replicate 1000 sample_time"
  have l: "length cs = 1000" unfolding cs_def by (rule length_replicate)
  have len: "length cs < 65536" unfolding l by simp
  obtain dts d' s' where r: "log_run sample_hw kRecordPowerOn cs (sample_dev, rtc_boot) = Some (d', s')"
    "unat (Flash_GetMaxIndex_Records d' kRecordPowerOn) = length cs"
    "unat (Flash_GetNum_Records d' kRecordPowerOn) = min (length cs) (hr_record_max_num kRecordPowerOn)"
    "\<forall>k. k < length cs \<and> length cs \<le> k + hr_record_max_num kRecordPowerOn \<longrightarrow>
       hr_frame_struct (Flash_Read d' (slot_base kRecordPowerOn (k mod slots kRecordPowerOn)) 10) =
         record_now (of_nat (k + 1)) (dts ! k)"
    using flash_log_keeps_newest [OF sample_hw_ok sample_dev_erased rtc_boot_cache sample_times_readable [of 1000, folded cs_def] len] by blast
  show ?thesis
    unfolding cs_def [symmetric] using r(1-3) r(4) [rule_format, of 950] by (intro exI [of _ dts] exI [of _ d'] exI [of _ s']) (simp add: l m)
qed

text \<open>While a log has not outgrown its capacity, or when its capacity is 50 or 1, reading index \<open>j\<close> returns
  the \<open>j\<close>-th of the records the log still reports, oldest first: index 1 is the oldest of the newest
  \<open>min n max\<close> records and index \<open>min n max\<close> the last one written.\<close>

theorem Flash_Read_Record_newest:
  assumes "flash_hw_ok hw" "region_erased r d" "clock_run cs s = Some dts" "length cs < 65536"
    and "1 \<le> unat j" "unat j \<le> min (length cs) (hr_record_max_num r)"
    and "length cs \<le> hr_record_max_num r \<or> hr_record_max_num r \<le> 50"
  shows "\<exists>d' s'. log_run hw r cs (d, s) = Some (d', s') \<and>
    hr_frame_struct (Flash_Read_Record d' r j) =
      (let k = length cs - min (length cs) (hr_record_max_num r) + unat j - 1
       in record_now (of_nat (k + 1)) (dts ! k))"
proof -
  obtain d' s' where run: "log_run hw r cs (d, s) = Some (d', s')" "log_inv r d' (records_from 0 dts)"
    "length dts = length cs" "length (records_from 0 dts) = length cs"
    by (rule log_run_from_erased [OF assms(1-4)])
  let ?k = "length cs - min (length cs) (hr_record_max_num r) + unat j - 1"
  have "hr_frame_struct (Flash_Read_Record d' r j) = records_from 0 dts ! ?k \<and> ?k < length (records_from 0 dts)"
  proof (rule Flash_Read_Record_number [OF run(2)])
    have "50 \<le> hr_record_max_num r \<or> r = kRecordSensoEndOfLife"
      by (cases r) (simp_all add: hr_record_max_num_def)
    moreover have "r = kRecordSensoEndOfLife \<Longrightarrow> hr_record_max_num r = 1" by (simp add: hr_record_max_num_def)
    ultimately show "?k = (if length (records_from 0 dts) \<le> hr_record_max_num r then unat j - 1
        else if r = kRecordSensoEndOfLife then length (records_from 0 dts) - 1
        else length (records_from 0 dts) + unat j - 51)"
      using assms(5-7) run(4) by auto
  qed (use assms(4-7) run(4) in auto)
  then show ?thesis
    using run by (intro exI [of _ d'] exI [of _ s']) (simp add: records_nth Let_def)
qed

theorem Flash_Read_Record_newest_witness:
  "\<exists>dts d' s'. log_run sample_hw kRecordPowerDown (replicate 120 sample_time) (sample_dev, rtc_boot) =
      Some (d', s') \<and>
    hr_frame_struct (Flash_Read_Record d' kRecordPowerDown 50) = record_now 120 (dts ! 119)"
proof -
  obtain dts where c: "clock_run (replicate 120 sample_time) rtc_boot = Some dts" using sample_clock by blast
  have m: "hr_record_max_num kRecordPowerDown = 50" by (simp add: hr_record_max_num_def)
  have l: "length (replicate 120 sample_time) = 120" by (rule length_replicate)
  have "\<exists>d' s'. log_run sample_hw kRecordPowerDown (replicate 120 sample_time) (sample_dev, rtc_boot) =
        Some (d', s') \<and>
      hr_frame_struct (Flash_Read_Record d' kRecordPowerDown 50) =
        (let k = length (replicate 120 sample_time) -
             min (length (replicate 120 sample_time)) (hr_record_max_num kRecordPowerDown) + unat (50 :: u8) - 1
         in record_now (of_nat (k + 1)) (dts ! k))"
    by (rule Flash_Read_Record_newest [OF sample_hw_ok sample_dev_erased c]) (simp_all only: m l, simp_all)
  then show ?thesis unfolding m l by (simp add: Let_def) blast
qed

text \<open>Once a log of capacity 100 or 200 has outgrown it, reading index \<open>j\<close> up to 50 returns the \<open>j\<close>-th of
  the newest 50 records and not of the newest \<open>max\<close> records that the log still holds and reports: the
  index is redirected by the constant 50 whatever the log's capacity, so that the older records the
  log keeps cannot be read back in order.\<close>

theorem Flash_Read_Record_hardcoded_50:
  assumes "flash_hw_ok hw" "region_erased r d" "clock_run cs s = Some dts" "length cs < 65536"
    and "50 < hr_record_max_num r" "hr_record_max_num r < length cs" "1 \<le> unat j" "unat j \<le> 50"
  shows "\<exists>d' s'. log_run hw r cs (d, s) = Some (d', s') \<and>
    unat (Flash_GetNum_Records d' r) = hr_record_max_num r \<and>
    hr_frame_struct (Flash_Read_Record d' r j) =
      record_now (of_nat (length cs - 50 + unat j)) (dts ! (length cs - 51 + unat j)) \<and>
    length cs - 50 + unat j \<noteq> length cs - hr_record_max_num r + unat j"
proof -
  obtain d' s' where run: "log_run hw r cs (d, s) = Some (d', s')" "log_inv r d' (records_from 0 dts)"
    "length dts = length cs" "length (records_from 0 dts) = length cs"
    by (rule log_run_from_erased [OF assms(1-4)])
  let ?k = "length cs + unat j - 51"
  have k: "?k = length cs - 51 + unat j" "length cs - 51 + unat j + 1 = length cs - 50 + unat j"
    using assms(5-8) by arith+
  have "hr_frame_struct (Flash_Read_Record d' r j) = records_from 0 dts ! ?k \<and> ?k < length (records_from 0 dts)"
  proof (rule Flash_Read_Record_number [OF run(2)])
    have "r \<noteq> kRecordSensoEndOfLife" using assms(5) by (auto simp: hr_record_max_num_def)
    then show "?k = (if length (records_from 0 dts) \<le> hr_record_max_num r then unat j - 1
        else if r = kRecordSensoEndOfLife then length (records_from 0 dts) - 1
        else length (records_from 0 dts) + unat j - 51)"
      using assms(6) run(4) by auto
  qed (use assms(4-8) run(4) in auto)
  moreover have "unat (Flash_GetNum_Records d' r) = hr_record_max_num r"
    using log_num [OF run(2)] run(4) assms(4,6) by simp
  moreover have "length cs - 50 + unat j \<noteq> length cs - hr_record_max_num r + unat j"
    using assms(5,6) by arith
  moreover have "records_from 0 dts ! ?k = record_now (of_nat (?k + 1)) (dts ! ?k)"
    if "?k < length (records_from 0 dts)"
    using that run(3,4) by (intro records_nth) simp
  ultimately show ?thesis
    using run(1) unfolding k by metis
qed

theorem Flash_Read_Record_hardcoded_50_witness:
  "\<exists>dts d' s'. log_run sample_hw kRecordAlarm (replicate 201 sample_time) (sample_dev, rtc_boot) =
      Some (d', s') \<and>
    unat (Flash_GetNum_Records d' kRecordAlarm) = 200 \<and>
    hr_frame_struct (Flash_Read_Record d' kRecordAlarm 1) = record_now 152 (dts ! 151)"
proof -
  define cs where "cs = replicate 201 sample_time"
  obtain dts where c: "clock_run cs rtc_boot = Some dts" unfolding cs_def using sample_clock by blast
  have m: "hr_record_max_num kRecordAlarm = 200" by (simp add: hr_record_max_num_def)
  have l: "length cs = 201" unfolding cs_def by (rule length_replicate)
  have "\<exists>d' s'. log_run sample_hw kRecordAlarm cs (sample_dev, rtc_boot) = Some (d', s') \<and>
      unat (Flash_GetNum_Records d' kRecordAlarm) = hr_record_max_num kRecordAlarm \<and>
      hr_frame_struct (Flash_Read_Record d' kRecordAlarm 1) =
        record_now (of_nat (length cs - 50 + unat (1 :: u8))) (dts ! (length cs - 51 + unat (1 :: u8))) \<and>
      length cs - 50 + unat (1 :: u8) \<noteq> length cs - hr_record_max_num kRecordAlarm + unat (1 :: u8)"
    by (rule Flash_Read_Record_hardcoded_50 [OF sample_hw_ok sample_dev_erased c]) (simp_all add: m l)
  then have "\<exists>d' s'. log_run sample_hw kRecordAlarm cs (sample_dev, rtc_boot) = Some (d', s') \<and>
      unat (Flash_GetNum_Records d' kRecordAlarm) = 200 \<and>
      hr_frame_struct (Flash_Read_Record d' kRecordAlarm 1) = record_now 152 (dts ! 151)"
    unfolding m l by simp
  then show ?thesis unfolding cs_def by (rule exI)
qed

subsection \<open>The configuration page\<close>

lemma overlay_bytes: "map (\<lambda>i. overlay m a xs (a + i)) [0..<length xs] = xs"
  by (rule nth_equalityI) (simp_all add: overlay_in)

lemma config_page_set:
  assumes hw: "flash_hw_ok hw" and len: "off + length xs \<le> 256"
  shows "do { page_buf \<leftarrow> blit (fst (Flash_ErasePage_ReadConfigInfo hw d)) off xs;
              Flash_Write_ConfigInfo hw (snd (Flash_ErasePage_ReadConfigInfo hw d)) page_buf } =
    Some (d\<lparr>fl_mem := overlay (fl_mem d) (FLASH_CONFIG_INFO_START_ADDR + off) xs,
            fl_saved_irq := fl_irq d, fl_locked := True\<rparr>)"
proof -
  let ?C = FLASH_CONFIG_INFO_START_ADDR
  have C: "?C mod 256 = 0"
    by (simp add: FLASH_CONFIG_INFO_START_ADDR_def FLASH_LAST_PAGE_START_ADDR_def FLASH_PAGE_SIZE_def)
  then have C2: "?C mod 2 = 0" by presburger
  define b0 where "b0 = Flash_Read d ?C 256"
  define d1 where "d1 = d\<lparr>fl_mem := erase_at (fl_mem d) ?C, fl_saved_irq := fl_irq d, fl_locked := True\<rparr>"
  have rc: "Flash_ErasePage_ReadConfigInfo hw d = (b0, d1)"
    by (simp add: Flash_ErasePage_ReadConfigInfo_def Flash_ErasePage_ConfigInfo_def
        flash_fast_erase [OF hw C] d1_def b0_def FLASH_PAGE_SIZE_def)
  have l0: "length b0 = 256" by (simp add: b0_def Flash_Read_def)
  obtain b1 where b1: "blit b0 off xs = Some b1" using len l0 by (simp add: blit_def)
  have l1: "length b1 = 256" using blit_length [OF b1] l0 by simp
  have "Flash_Write hw d1 ?C b1 256 =
      Some (256, d1\<lparr>fl_mem := overlay (fl_mem d1) ?C b1, fl_saved_irq := fl_irq d1, fl_locked := True\<rparr>)"
    by (rule Flash_Write_erased [OF hw C2]) (simp_all add: l1 d1_def erase_at_def)
  moreover have "overlay (fl_mem d1) ?C b1 = overlay (fl_mem d) (?C + off) xs"
  proof
    fix a
    show "overlay (fl_mem d1) ?C b1 a = overlay (fl_mem d) (?C + off) xs a"
    proof (cases "?C \<le> a \<and> a < ?C + 256")
      case True
      then have i: "a - ?C < 256" "a = ?C + (a - ?C)" by linarith+
      have "b1 ! (a - ?C) = (if off \<le> a - ?C \<and> a - ?C < off + length xs then xs ! (a - ?C - off)
          else b0 ! (a - ?C))"
        using blit_nth [OF b1] i(1) l0 by simp
      moreover have "b0 ! (a - ?C) = fl_mem d a" using i by (simp add: b0_def Flash_Read_def)
      moreover have "(off \<le> a - ?C \<and> a - ?C < off + length xs) =
          (?C + off \<le> a \<and> a < ?C + off + length xs)" using True by auto
      ultimately show ?thesis using True l1 by (simp add: overlay_def diff_diff_left)
    next
      case False
      then have "\<not> (?C + off \<le> a \<and> a < ?C + off + length xs)" using len by auto
      then show ?thesis using False l1 by (auto simp: overlay_def d1_def erase_at_def)
    qed
  qed
  ultimately show ?thesis
    by (simp add: rc b1 Flash_Write_ConfigInfo_def FLASH_PAGE_SIZE_def d1_def)
qed


lemma config_addrs:
  "FLASH_CONFIG_INFO_START_ADDR = 134479616" "FLASH_ALARM_VALUE_ADDR = 134479632"
  "FLASH_INIT_FLAG_ADDR = 134479870" "pt_addr kFactoryTimeId = 134479616" "pt_addr kExpirationTimeId = 134479624"
  by (simp_all add: FLASH_CONFIG_INFO_START_ADDR_def FLASH_LAST_PAGE_START_ADDR_def FLASH_PAGE_SIZE_def
      FLASH_ALARM_VALUE_ADDR_def FLASH_INIT_FLAG_ADDR_def pt_addr_def FLASH_FACTORY_TIME_START_ADDR_def
      FLASH_EXPIRATION_TIME_START_ADDR_def)

definition pt_frame_of :: "u16 \<Rightarrow> u8 \<Rightarrow> u8 \<Rightarrow> u8 \<Rightarrow> u8 \<Rightarrow> u8 \<Rightarrow> TsFlashProductTimeLimitFrame" where
  "pt_frame_of y mon dy h mi sc = \<lparr>pt_header = FLASH_PRODUCT_TIME_FRAME_HEADER, pt_year = y, pt_month = mon,
     pt_day = dy, pt_hour = h, pt_minute = mi, pt_second = sc\<rparr>"

lemma pt_frame_roundtrip: "pt_frame_struct (pt_frame_buf f) = f"
  by (cases f) (simp add: pt_frame_struct_def pt_frame_buf_def le16_def bytes_u16)

lemma length_pt_frame_buf [simp]: "length (pt_frame_buf f) = 8"
  by (simp add: pt_frame_buf_def)

lemma Flash_SetProductTimeLimit_mem:
  assumes hw: "flash_hw_ok hw"
  shows "Flash_SetProductTimeLimit hw d y mon dy h mi sc i =
    Some (d\<lparr>fl_mem := overlay (fl_mem d) (pt_addr i) (pt_frame_buf (pt_frame_of y mon dy h mi sc)),
            fl_saved_irq := fl_irq d, fl_locked := True\<rparr>)"
proof -
  let ?off = "pt_addr i - FLASH_CONFIG_INFO_START_ADDR"
  have a: "FLASH_CONFIG_INFO_START_ADDR + ?off = pt_addr i" "?off + 8 \<le> 256"
    by (cases i; simp add: config_addrs)+
  show ?thesis
    using config_page_set [OF hw, of ?off "pt_frame_buf (pt_frame_of y mon dy h mi sc)" d] a
    by (simp add: Flash_SetProductTimeLimit_def pt_frame_of_def [symmetric] case_prod_beta Let_def)
qed

lemma Flash_GetProductTimeLimit_overlay:
  "fl_mem d = overlay m (pt_addr i) (pt_frame_buf f) \<Longrightarrow>
    Flash_GetProductTimeLimit d i = (pt_header f = FLASH_PRODUCT_TIME_FRAME_HEADER, f)"
  using overlay_bytes [of m "pt_addr i" "pt_frame_buf f"]
  by (simp add: Flash_GetProductTimeLimit_def Flash_Read_def pt_frame_roundtrip Let_def)

lemma Flash_Read_cong:
  "(\<And>k. k < n \<Longrightarrow> fl_mem d' (a + k) = fl_mem d (a + k)) \<Longrightarrow> Flash_Read d' a n = Flash_Read d a n"
  by (simp add: Flash_Read_def)

lemma Flash_GetProductTimeLimit_other:
  "fl_mem d' = overlay (fl_mem d) a xs \<Longrightarrow> pt_addr i + 8 \<le> a \<or> a + length xs \<le> pt_addr i \<Longrightarrow>
    Flash_GetProductTimeLimit d' i = Flash_GetProductTimeLimit d i"
proof -
  assume "fl_mem d' = overlay (fl_mem d) a xs" "pt_addr i + 8 \<le> a \<or> a + length xs \<le> pt_addr i"
  then have "Flash_Read d' (pt_addr i) 8 = Flash_Read d (pt_addr i) 8"
    by (intro Flash_Read_cong) (auto simp: overlay_def)
  then show ?thesis by (simp add: Flash_GetProductTimeLimit_def)
qed

lemma Flash_Get_AlarmLel_other:
  "fl_mem d' = overlay (fl_mem d) a xs \<Longrightarrow> a + length xs \<le> FLASH_ALARM_VALUE_ADDR \<Longrightarrow>
    Flash_Get_AlarmLel d' = Flash_Get_AlarmLel d"
proof -
  assume "fl_mem d' = overlay (fl_mem d) a xs" "a + length xs \<le> FLASH_ALARM_VALUE_ADDR"
  then have "Flash_Read d' FLASH_ALARM_VALUE_ADDR 4 = Flash_Read d FLASH_ALARM_VALUE_ADDR 4"
    by (intro Flash_Read_cong) (auto simp: overlay_def)
  then show ?thesis by (simp add: Flash_Get_AlarmLel_def)
qed

text \<open>The factory and expiry dates: what is stored is what is read back, marked as ready; storing one
  leaves the other date, the alarm threshold and every byte outside the eight of the frame as they
  were, though the whole page is erased and written again on the way.\<close>

theorem flash_product_time_roundtrip:
  assumes "flash_hw_ok hw"
  shows "\<exists>d'. Flash_SetProductTimeLimit hw d y mon dy h mi sc i = Some d' \<and>
    Flash_GetProductTimeLimit d' i =
      (True, \<lparr>pt_header = FLASH_PRODUCT_TIME_FRAME_HEADER, pt_year = y, pt_month = mon, pt_day = dy,
              pt_hour = h, pt_minute = mi, pt_second = sc\<rparr>) \<and>
    (\<forall>i'. i' \<noteq> i \<longrightarrow> Flash_GetProductTimeLimit d' i' = Flash_GetProductTimeLimit d i') \<and>
    Flash_Get_AlarmLel d' = Flash_Get_AlarmLel d \<and>
    (\<forall>a. a < pt_addr i \<or> pt_addr i + 8 \<le> a \<longrightarrow> fl_mem d' a = fl_mem d a)"
proof -
  let ?f = "pt_frame_of y mon dy h mi sc"
  define d' where "d' = d\<lparr>fl_mem := overlay (fl_mem d) (pt_addr i) (pt_frame_buf ?f),
            fl_saved_irq := fl_irq d, fl_locked := True\<rparr>"
  have set: "Flash_SetProductTimeLimit hw d y mon dy h mi sc i = Some d'"
    unfolding d'_def by (rule Flash_SetProductTimeLimit_mem [OF assms])
  have mem: "fl_mem d' = overlay (fl_mem d) (pt_addr i) (pt_frame_buf ?f)" by (simp add: d'_def)
  have "Flash_GetProductTimeLimit d' i = (True, ?f)"
    by (simp add: Flash_GetProductTimeLimit_overlay [OF mem] pt_frame_of_def)
  moreover have "Flash_GetProductTimeLimit d' i' = Flash_GetProductTimeLimit d i'" if "i' \<noteq> i" for i'
    using that by (intro Flash_GetProductTimeLimit_other [OF mem]) (cases i; cases i'; simp add: config_addrs)
  moreover have "Flash_Get_AlarmLel d' = Flash_Get_AlarmLel d"
    by (intro Flash_Get_AlarmLel_other [OF mem]) (cases i; simp add: config_addrs)
  ultimately show ?thesis
    by (intro exI [of _ d']) (simp add: set pt_frame_of_def mem overlay_other)
qed

theorem flash_product_time_roundtrip_witness:
  "\<exists>d'. Flash_SetProductTimeLimit sample_hw sample_dev 2028 2 29 23 59 59 kExpirationTimeId = Some d' \<and>
    snd (Flash_GetProductTimeLimit d' kExpirationTimeId) =
      \<lparr>pt_header = 0xA5, pt_year = 2028, pt_month = 2, pt_day = 29, pt_hour = 23, pt_minute = 59, pt_second = 59\<rparr> \<and>
    Flash_GetProductTimeLimit d' kFactoryTimeId = Flash_GetProductTimeLimit sample_dev kFactoryTimeId"
  using flash_product_time_roundtrip [OF sample_hw_ok, of sample_dev 2028 2 29 23 59 59 kExpirationTimeId]
  by (auto simp: FLASH_PRODUCT_TIME_FRAME_HEADER_def)

lemma Flash_Set_AlarmLel_get:
  assumes "flash_hw_ok hw"
  shows "\<exists>d'. Flash_Set_AlarmLel hw d v = Some d' \<and> Flash_Get_AlarmLel d' = v \<and>
    (\<exists>xs. length xs = 4 \<and> fl_mem d' = overlay (fl_mem d) FLASH_ALARM_VALUE_ADDR xs)"
proof -
  let ?h = FLASH_CONFIG_INFO_FRAME_HEADER
  define xs where "xs = [byte_at ?h 0, byte_at ?h 8, byte_at v 0, byte_at v 8]"
  have l: "length xs = 4" by (simp add: xs_def)
  define d' where "d' = d\<lparr>fl_mem := overlay (fl_mem d) FLASH_ALARM_VALUE_ADDR xs,
            fl_saved_irq := fl_irq d, fl_locked := True\<rparr>"
  have mem: "fl_mem d' = overlay (fl_mem d) FLASH_ALARM_VALUE_ADDR xs" by (simp add: d'_def)
  have set: "Flash_Set_AlarmLel hw d v = Some d'"
    using config_page_set [OF assms, of "FLASH_ALARM_VALUE_ADDR - FLASH_CONFIG_INFO_START_ADDR" xs d]
    by (simp add: Flash_Set_AlarmLel_def case_prod_beta Let_def xs_def config_addrs d'_def)
  have "Flash_Read d' FLASH_ALARM_VALUE_ADDR 4 = xs"
    using overlay_bytes [of "fl_mem d" FLASH_ALARM_VALUE_ADDR xs] by (simp add: Flash_Read_def mem l)
  then have "Flash_Get_AlarmLel d' = v"
    by (simp add: Flash_Get_AlarmLel_def xs_def le16_def bytes_u16 Let_def)
  then show ?thesis using set mem l by blast
qed

text \<open>The alarm threshold that is stored is the one read back; both dates and every byte outside the
  four of the frame keep their values.\<close>

theorem flash_alarm_value_roundtrip:
  assumes "flash_hw_ok hw"
  shows "\<exists>d'. Flash_Set_AlarmLel hw d v = Some d' \<and> Flash_Get_AlarmLel d' = v \<and>
    (\<forall>i. Flash_GetProductTimeLimit d' i = Flash_GetProductTimeLimit d i) \<and>
    (\<forall>a. a < FLASH_ALARM_VALUE_ADDR \<or> FLASH_ALARM_VALUE_ADDR + 4 \<le> a \<longrightarrow> fl_mem d' a = fl_mem d a)"
proof -
  obtain d' xs where set: "Flash_Set_AlarmLel hw d v = Some d'" "Flash_Get_AlarmLel d' = v" and l: "length xs = 4"
    and mem: "fl_mem d' = overlay (fl_mem d) FLASH_ALARM_VALUE_ADDR xs"
    using Flash_Set_AlarmLel_get [OF assms] by blast
  have "Flash_GetProductTimeLimit d' i = Flash_GetProductTimeLimit d i" for i
    by (intro Flash_GetProductTimeLimit_other [OF mem]) (cases i; simp add: config_addrs l)
  then show ?thesis by (intro exI [of _ d']) (simp add: set mem overlay_other l)
qed

theorem flash_alarm_value_roundtrip_witness:
  "\<exists>d'. Flash_Set_AlarmLel sample_hw sample_dev 250 = Some d' \<and> Flash_Get_AlarmLel d' = 250"
  using flash_alarm_value_roundtrip [OF sample_hw_ok, of sample_dev 250] by auto


subsection \<open>First start\<close>

definition in_region :: "TeRecord \<Rightarrow> nat \<Rightarrow> bool" where
  "in_region r a \<longleftrightarrow> hr_start_addr r \<le> a \<and> a < hr_start_addr r + 256 * hr_record_pages r"

lemma in_region_below: "in_region r a \<Longrightarrow> a < FLASH_CONFIG_INFO_START_ADDR"
  by (cases r) (simp_all add: in_region_def hr_start_addr_def hr_record_pages_def config_addrs
      FLASH_LAST_PAGE_START_ADDR_def FLASH_PAGE_SIZE_def)

lemma in_all_records: "r \<in> set all_records"
  by (cases r) (simp_all add: all_records_def)

lemma erase_all_mem:
  assumes hw: "flash_hw_ok hw"
  shows "fl_mem (foldl (\<lambda>d r. erase_pages hw r 0 (hr_record_pages r) d) d rs) a =
    (if \<exists>r\<in>set rs. in_region r a then erased_byte a else fl_mem d a)"
proof (induction rs arbitrary: d)
  case (Cons r rs)
  have "fl_mem (erase_pages hw r 0 (hr_record_pages r) d) a = (if in_region r a then erased_byte a else fl_mem d a)"
    by (simp add: erase_pages_mem [OF hw] in_region_def)
  then show ?case by (simp add: Cons.IH)
qed simp

lemma BSP_Flash_EraseRecodrs_mem:
  assumes hw: "flash_hw_ok hw"
  shows "fl_mem (BSP_Flash_EraseRecodrs hw d) a =
    (if (\<exists>r. in_region r a) \<or> FLASH_CONFIG_INFO_START_ADDR \<le> a \<and> a < FLASH_CONFIG_INFO_START_ADDR + 256
     then erased_byte a else fl_mem d a)"
proof -
  have C: "FLASH_CONFIG_INFO_START_ADDR mod 256 = 0" by (simp add: config_addrs)
  show ?thesis
    by (auto simp: BSP_Flash_EraseRecodrs_def Flash_ErasePage_ConfigInfo_def flash_fast_erase [OF hw C]
        erase_at_def erase_all_mem [OF hw] in_all_records)
qed

definition init_flag_set :: "flash_dev \<Rightarrow> bool" where
  "init_flag_set d \<longleftrightarrow> half (fl_mem d) FLASH_INIT_FLAG_ADDR = FLASH_FIRST_INIT_VALUE"

lemma BSP_Flash_Init_mem:
  assumes hw: "flash_hw_ok hw" and first: "\<not> init_flag_set d"
  obtains d' where "BSP_Flash_Init hw d = Some d'"
    "fl_mem d' = overlay (overlay (overlay (fl_mem (BSP_Flash_EraseRecodrs hw d)) FLASH_INIT_FLAG_ADDR [0xA2, 0xA2])
       (pt_addr kFactoryTimeId) (pt_frame_buf (pt_frame_of 2023 3 22 13 58 20)))
       (pt_addr kExpirationTimeId) (pt_frame_buf (pt_frame_of 2028 3 22 13 58 20))"
proof -
  let ?e = "BSP_Flash_EraseRecodrs hw d"
  have flag: "[ucast (FLASH_FIRST_INIT_VALUE mod 256), ucast (FLASH_FIRST_INIT_VALUE div 256)] = [0xA2, 0xA2 :: u8]"
    by (simp add: FLASH_FIRST_INIT_VALUE_def)
  have e: "fl_mem ?e (FLASH_INIT_FLAG_ADDR + j) = erased_byte (FLASH_INIT_FLAG_ADDR + j)" if "j < 2" for j
    using that by (simp add: BSP_Flash_EraseRecodrs_mem [OF hw] config_addrs)
  have ev: "FLASH_INIT_FLAG_ADDR mod 2 = 0" by (simp add: config_addrs)
  have "Flash_Write hw ?e FLASH_INIT_FLAG_ADDR [0xA2, 0xA2] 2 =
      Some (2, ?e\<lparr>fl_mem := overlay (fl_mem ?e) FLASH_INIT_FLAG_ADDR [0xA2, 0xA2],
                  fl_saved_irq := fl_irq ?e, fl_locked := True\<rparr>)"
    by (rule Flash_Write_erased [OF hw ev _ _ e]) simp_all
  then show ?thesis
    using that first
    by (simp add: BSP_Flash_Init_def init_flag_set_def flag Let_def Flash_SetProductTimeLimit_mem [OF hw])
qed

text \<open>The first start. A device whose flag is set is left as it is. Otherwise every log is emptied, both
  dates get their defaults, no alarm threshold is stored, nothing below the logs or above the page is
  touched, and the flag is set, so that starting again changes nothing.\<close>

theorem BSP_Flash_Init_once:
  assumes hw: "flash_hw_ok hw"
  shows "\<exists>d'. BSP_Flash_Init hw d = Some d' \<and> BSP_Flash_Init hw d' = Some d' \<and>
    (init_flag_set d \<longrightarrow> d' = d) \<and>
    (\<not> init_flag_set d \<longrightarrow>
       (\<forall>r. log_inv r d' [] \<and> Flash_GetNum_Records d' r = 0) \<and>
       Flash_GetProductTimeLimit d' kFactoryTimeId = (True, pt_frame_of 2023 3 22 13 58 20) \<and>
       Flash_GetProductTimeLimit d' kExpirationTimeId = (True, pt_frame_of 2028 3 22 13 58 20) \<and>
       Flash_Get_AlarmLel d' = 0 \<and>
       (\<forall>a. a < hr_start_addr kRecordAlarm \<or> FLASH_CONFIG_INFO_START_ADDR + 256 \<le> a \<longrightarrow>
          fl_mem d' a = fl_mem d a))"
proof (cases "init_flag_set d")
  case True
  then show ?thesis by (intro exI [of _ d]) (simp add: BSP_Flash_Init_def init_flag_set_def)
next
  case False
  let ?e = "BSP_Flash_EraseRecodrs hw d"
  obtain d' where init: "BSP_Flash_Init hw d = Some d'" and
    mem: "fl_mem d' = overlay (overlay (overlay (fl_mem ?e) FLASH_INIT_FLAG_ADDR [0xA2, 0xA2])
       (pt_addr kFactoryTimeId) (pt_frame_buf (pt_frame_of 2023 3 22 13 58 20)))
       (pt_addr kExpirationTimeId) (pt_frame_buf (pt_frame_of 2028 3 22 13 58 20))"
    by (rule BSP_Flash_Init_mem [OF hw False])
  have low: "fl_mem d' a = fl_mem ?e a" if "a < FLASH_CONFIG_INFO_START_ADDR \<or> FLASH_CONFIG_INFO_START_ADDR + 256 \<le> a" for a
    using that by (auto simp: mem overlay_def config_addrs)
  have logs: "log_inv r d' []" for r
  proof (rule log_inv_erased, intro allI impI)
    fix a assume "hr_start_addr r \<le> a \<and> a < hr_start_addr r + 256 * hr_record_pages r"
    then have ir: "in_region r a" by (simp add: in_region_def)
    then have "fl_mem ?e a = erased_byte a" by (auto simp: BSP_Flash_EraseRecodrs_mem [OF hw])
    then show "fl_mem d' a = erased_byte a" using low in_region_below [OF ir] by simp
  qed
  have num: "Flash_GetNum_Records d' r = 0" for r
    using log_num [OF logs [of r]] by (simp add: unat_0_iff)
  have fact: "Flash_GetProductTimeLimit d' kFactoryTimeId = (True, pt_frame_of 2023 3 22 13 58 20)"
  proof -
    define d0 where "d0 = d\<lparr>fl_mem := overlay (overlay (fl_mem ?e) FLASH_INIT_FLAG_ADDR [0xA2, 0xA2])
       (pt_addr kFactoryTimeId) (pt_frame_buf (pt_frame_of 2023 3 22 13 58 20))\<rparr>"
    have "Flash_GetProductTimeLimit d' kFactoryTimeId = Flash_GetProductTimeLimit d0 kFactoryTimeId"
      by (rule Flash_GetProductTimeLimit_other [where a = "pt_addr kExpirationTimeId"
            and xs = "pt_frame_buf (pt_frame_of 2028 3 22 13 58 20)"]) (simp add: mem d0_def, simp add: config_addrs)
    moreover have "fl_mem d0 = overlay (overlay (fl_mem ?e) FLASH_INIT_FLAG_ADDR [0xA2, 0xA2])
       (pt_addr kFactoryTimeId) (pt_frame_buf (pt_frame_of 2023 3 22 13 58 20))" by (simp add: d0_def)
    ultimately show ?thesis by (simp add: Flash_GetProductTimeLimit_overlay pt_frame_of_def)
  qed
  have expi: "Flash_GetProductTimeLimit d' kExpirationTimeId = (True, pt_frame_of 2028 3 22 13 58 20)"
    by (simp add: Flash_GetProductTimeLimit_overlay [OF mem] pt_frame_of_def)
  have cfg: "fl_mem ?e a = erased_byte a"
    if "FLASH_CONFIG_INFO_START_ADDR \<le> a" "a < FLASH_CONFIG_INFO_START_ADDR + 256" for a
    using that by (simp add: BSP_Flash_EraseRecodrs_mem [OF hw])
  have "Flash_Read d' FLASH_ALARM_VALUE_ADDR 4 = [0x39, 0xE3, 0x39, 0xE3]"
    using cfg [of "FLASH_ALARM_VALUE_ADDR"] cfg [of "FLASH_ALARM_VALUE_ADDR + 1"]
      cfg [of "FLASH_ALARM_VALUE_ADDR + 2"] cfg [of "FLASH_ALARM_VALUE_ADDR + 3"]
    by (simp add: Flash_Read_def mem overlay_def config_addrs erased_byte_def upt_rec)
  then have alarm: "Flash_Get_AlarmLel d' = 0"
    by (simp add: Flash_Get_AlarmLel_def le16_def FLASH_CONFIG_INFO_FRAME_HEADER_def)
  have "half (fl_mem d') FLASH_INIT_FLAG_ADDR = 0xA2A2"
    by (simp add: half_def mem overlay_def config_addrs)
  then have flag: "init_flag_set d'" by (simp add: init_flag_set_def FLASH_FIRST_INIT_VALUE_def)
  have out: "fl_mem d' a = fl_mem d a"
    if "a < hr_start_addr kRecordAlarm \<or> FLASH_CONFIG_INFO_START_ADDR + 256 \<le> a" for a
  proof -
    have "\<not> in_region r a" for r
    proof -
      have "hr_start_addr kRecordAlarm \<le> hr_start_addr r"
        by (cases r) (simp_all add: hr_start_addr_def FLASH_LAST_PAGE_START_ADDR_def FLASH_PAGE_SIZE_def)
      then show ?thesis using that in_region_below [of r a] by (auto simp: in_region_def)
    qed
    moreover have "hr_start_addr kRecordAlarm < FLASH_CONFIG_INFO_START_ADDR"
      by (rule in_region_below [of kRecordAlarm]) (simp add: in_region_def hr_record_pages_def)
    ultimately show ?thesis using that low [of a] by (auto simp: BSP_Flash_EraseRecodrs_mem [OF hw])
  qed
  have "BSP_Flash_Init hw d' = Some d'" using flag by (simp add: BSP_Flash_Init_def init_flag_set_def)
  then show ?thesis
    using init False logs num fact expi alarm out by (intro exI [of _ d']) auto
qed

theorem BSP_Flash_Init_once_witness:
  "\<exists>d'. BSP_Flash_Init sample_hw sample_dev = Some d' \<and> BSP_Flash_Init sample_hw d' = Some d' \<and>
    Flash_GetProductTimeLimit d' kExpirationTimeId = (True, pt_frame_of 2028 3 22 13 58 20)"
proof -
  have "\<not> init_flag_set sample_dev"
    by (simp add: init_flag_set_def half_def sample_dev_def erased_byte_def config_addrs FLASH_FIRST_INIT_VALUE_def)
  then show ?thesis using BSP_Flash_Init_once [OF sample_hw_ok, of sample_dev] by auto
qed

end
