(* ===== verification/Hr.thy ===== *)
theory Hr
  imports Lwrb Flash
begin

text \<open>
  The history-record protocol (\<open>bsp/src/bsp_hr.c\<close>, \<open>bsp_hr.h\<close>): frames
  \<open>AA C1 C2 L DATA CS 55\<close> arrive over UART2 in a LwRB ring buffer, and the thread answers queries on the
  flash logs, the clock and the configuration. Parameters: \<open>UART2_RxCheck\<close>, which moves received
  bytes into the ring buffer and has no source here, and whether \<open>rt_malloc\<close> finds memory.
  What is sent is the list of bytes given to \<open>rt_device_write\<close>. The flash functions' answers
  \<open>READY\<close>/\<open>NoREADY\<close> are \<open>Some\<close>/\<open>None\<close> of \<open>Flash_GetRecord\<close>.
\<close>

subsection \<open>Frames\<close>

definition FRAME_HEADER :: u8 where "FRAME_HEADER = 0xAA"
definition FRAME_TAIL :: u8 where "FRAME_TAIL = 0x55"
definition HOST_FRAME_MIN_LEN :: u8 where "HOST_FRAME_MIN_LEN = 6"

datatype TeFrameC2 = kNumOfRecords | kAlarmRecord | kAlarmRcyRecord | kFaultRecord | kFaultRcyRecord
  | kPowerFailureRecord | kPowerOnRecord | kSensorFailureRecord | kGetCurrentTime
  | kGetCurrentTimeSecond | kSetCurrentTime | kSetFactoryTime | kSetExpirationTime | kSetAlarmValue
  | kOutSysStatus | kGetAlarmValue | kGetMqVoltage | kSetSysStatus | kGetSysStatus | kEraseRecords
  | kGetFactoryTime | kGetExpirationTime | kReboot

text \<open>The constants in the order of their values, from 0.\<close>

definition all_c2 :: "TeFrameC2 list" where
  "all_c2 = [kNumOfRecords, kAlarmRecord, kAlarmRcyRecord, kFaultRecord, kFaultRcyRecord,
     kPowerFailureRecord, kPowerOnRecord, kSensorFailureRecord, kGetCurrentTime, kGetCurrentTimeSecond,
     kSetCurrentTime, kSetFactoryTime, kSetExpirationTime, kSetAlarmValue, kOutSysStatus,
     kGetAlarmValue, kGetMqVoltage, kSetSysStatus, kGetSysStatus, kEraseRecords, kGetFactoryTime,
     kGetExpirationTime, kReboot]"

definition frame_c2 :: "u8 \<Rightarrow> TeFrameC2 option" where
  "frame_c2 c2 = (if unat c2 < length all_c2 then Some (all_c2 ! unat c2) else None)"

record TsFrameData =
  fr_c1 :: u8
  fr_c2 :: u8
  fr_len :: u8
  fr_data :: "u8 list"

text \<open>The sum of \<open>len\<close> bytes of the array from \<open>off\<close> on.\<close>

definition HR_CheckSum :: "u8 list \<Rightarrow> nat \<Rightarrow> nat \<Rightarrow> u8 option" where
  "HR_CheckSum data off len = map_option (foldl (+) 0) (subarr data off len)"

text \<open>
  The search loop at index \<open>i\<close> with \<open>n\<close> rounds to go. The inner \<open>None\<close> is the null pointer the
  function returns; the outer one an access outside the array \<open>p_src\<close> points to, which may be longer
  than the \<open>src_len\<close> bytes it was told of.
\<close>

fun get_frame_from :: "bool \<Rightarrow> u8 list \<Rightarrow> nat \<Rightarrow> nat \<Rightarrow> TsFrameData option option" where
  "get_frame_from mem_ok p_src i 0 = Some None"
| "get_frame_from mem_ok p_src i (Suc n) =
     do { b \<leftarrow> rd p_src i;
          if b = FRAME_HEADER
          then do {
            data_field_len \<leftarrow> rd p_src (i + 3);
            tail \<leftarrow> rd p_src (i + 3 + unat data_field_len + 2);
            if tail = FRAME_TAIL
            then do {
              check_sum \<leftarrow> HR_CheckSum p_src i (4 + unat data_field_len);
              cs \<leftarrow> rd p_src (i + 3 + unat data_field_len + 1);
              if cs = check_sum
              then (if \<not> mem_ok then Some None
                    else do {
                      c1 \<leftarrow> rd p_src (i + 1);
                      c2 \<leftarrow> rd p_src (i + 2);
                      data \<leftarrow> subarr p_src (i + 4) (unat data_field_len);
                      Some (Some \<lparr>fr_c1 = c1, fr_c2 = c2, fr_len = data_field_len, fr_data = data\<rparr>) })
              else get_frame_from mem_ok p_src (i + 1) n }
            else get_frame_from mem_ok p_src (i + 1) n }
          else get_frame_from mem_ok p_src (i + 1) n }"

definition HR_GetFrameData :: "bool \<Rightarrow> u8 list \<Rightarrow> u8 \<Rightarrow> TsFrameData option option" where
  "HR_GetFrameData mem_ok p_src src_len = get_frame_from mem_ok p_src 0 (unat src_len)"

text \<open>
  \<open>TsRawFrameData\<close> is the length and the buffer of 256 bytes. \<open>len - 2\<close> is an \<open>int\<close>: below zero it
  is an index before the buffer.
\<close>

definition HR_GenerateRawFrame :: "u8 \<Rightarrow> u8 \<Rightarrow> u8 list \<Rightarrow> u8 \<Rightarrow> (u8 \<times> u8 list) option" where
  "HR_GenerateRawFrame c1 c2 p_src src_len =
     (let len = src_len + 6;
          buf = replicate 256 0
      in do {
        buf \<leftarrow> blit buf 0 [FRAME_HEADER, c1, c2, src_len];
        src \<leftarrow> subarr p_src 0 (unat src_len);
        buf \<leftarrow> blit buf 4 src;
        if unat len < 2 then None
        else do {
          cs \<leftarrow> HR_CheckSum buf 0 (unat len - 2);
          buf \<leftarrow> wr buf (unat len - 2) cs;
          buf \<leftarrow> wr buf (unat len - 1) FRAME_TAIL;
          Some (len, buf) } })"

subsection \<open>Commands\<close>

text \<open>The reply's fields: \<open>data_field\<close> is 64 bytes, cleared first.\<close>

record hr_reply =
  rp_c1 :: u8
  rp_len :: u8
  rp_field :: "u8 list"

definition data_field0 :: "u8 list" where "data_field0 = replicate 64 0"

definition put_field :: "u8 list \<Rightarrow> u8 list" where
  "put_field b = b @ drop (length b) data_field0"

definition clear_field :: "u8 list \<Rightarrow> u8 \<Rightarrow> u8 list" where
  "clear_field f data_len = replicate (unat data_len) 0 @ drop (unat data_len) f"

definition total_bytes :: "TsTotalRecords \<Rightarrow> u8 list" where
  "total_bytes t = [tr_alarm t, tr_alarm_rcy t, tr_fault t, tr_fault_rcy t, tr_power_failure t,
     tr_power_on t, tr_sensor_failure t]"

text \<open>\<open>data_field\<close> after \<open>Flash_GetRecord\<close>, for the record type with number \<open>record_type\<close>.\<close>

definition record_field :: "flash_dev \<Rightarrow> nat \<Rightarrow> u8 \<Rightarrow> u8 list" where
  "record_field d record_type index =
     (case Flash_GetRecord d record_type index of Some b \<Rightarrow> put_field b | None \<Rightarrow> data_field0)"

definition time_bytes :: "TsRtcDateTime \<Rightarrow> u8 list" where
  "time_bytes dt = [ucast (drop_bit 8 (year dt) AND 0xFF), ucast (year dt AND 0xFF), month dt, day dt,
     hour dt, minute dt]"

definition limit_bytes :: "TsFlashProductTimeLimitFrame \<Rightarrow> u8 list" where
  "limit_bytes f = [ucast (drop_bit 8 (pt_year f)), ucast (pt_year f), pt_month f, pt_day f, pt_hour f,
     pt_minute f, pt_second f]"

definition be16 :: "u8 \<Rightarrow> u8 \<Rightarrow> u16" where
  "be16 h l = push_bit 8 (ucast h) OR ucast l"

text \<open>\<open>kSetCurrentTime\<close> copies the host's fields into the global time, sets the clock and reads it.\<close>

definition hr_set_current_time :: "u8 list \<Rightarrow> rtc \<Rightarrow> (u8 list \<times> rtc) option" where
  "hr_set_current_time data s =
     do { b4 \<leftarrow> rd data 4; b5 \<leftarrow> rd data 5; b6 \<leftarrow> rd data 6; b3 \<leftarrow> rd data 3; b2 \<leftarrow> rd data 2;
          b0 \<leftarrow> rd data 0; b1 \<leftarrow> rd data 1;
          let dt = (RtcDateTime s)\<lparr>hour := b4, minute := b5, second := b6, day := b3, month := b2,
                     year := be16 b0 b1\<rparr>;
          (_, s) \<leftarrow> RTC_Set (s\<lparr>RtcDateTime := dt\<rparr>) (year dt) (month dt) (day dt) (hour dt) (minute dt)
                    (second dt);
          (_, s) \<leftarrow> BSP_Get_RTC_Time s;
          Some (put_field (time_bytes (RtcDateTime s) @ [second (RtcDateTime s)]), s) }"

definition hr_set_limit ::
  "flash_hw \<Rightarrow> u8 list \<Rightarrow> TeFlashProductTimeLimitId \<Rightarrow> flash_dev \<Rightarrow> (u8 list \<times> flash_dev) option" where
  "hr_set_limit hw data i d =
     do { b0 \<leftarrow> rd data 0; b1 \<leftarrow> rd data 1; b2 \<leftarrow> rd data 2; b3 \<leftarrow> rd data 3; b4 \<leftarrow> rd data 4;
          b5 \<leftarrow> rd data 5; b6 \<leftarrow> rd data 6;
          d \<leftarrow> Flash_SetProductTimeLimit hw d (be16 b0 b1) b2 b3 b4 b5 b6 i;
          Some (put_field (limit_bytes (snd (Flash_GetProductTimeLimit d i))), d) }"

definition hr_set_alarm :: "flash_hw \<Rightarrow> u8 list \<Rightarrow> flash_dev \<Rightarrow> (u8 list \<times> flash_dev) option" where
  "hr_set_alarm hw data d =
     do { b0 \<leftarrow> rd data 0; b1 \<leftarrow> rd data 1;
          let v = be16 b0 b1;
          d \<leftarrow> Flash_Set_AlarmLel hw d v;
          Some (put_field [ucast (drop_bit 8 v), ucast v], d) }"

text \<open>The \<open>switch\<close> of \<open>HR_ProcessData\<close>; every case goes on to \<open>send\<close>.\<close>

definition hr_switch :: "flash_hw \<Rightarrow> TsFrameData \<Rightarrow> flash_dev \<times> rtc \<Rightarrow> (hr_reply \<times> flash_dev \<times> rtc) option" where
  "hr_switch hw fr ds =
     (case ds of (d, s) \<Rightarrow>
      let c1 = fr_c1 fr;
          reply = (\<lambda>n f. \<lparr>rp_c1 = c1, rp_len = n, rp_field = f\<rparr>)
      in case frame_c2 (fr_c2 fr) of
           Some kNumOfRecords \<Rightarrow>
             Some (\<lparr>rp_c1 = 0, rp_len = 7, rp_field = put_field (total_bytes (Flash_GetTotalRecord d))\<rparr>, d, s)
         | Some kAlarmRecord \<Rightarrow>
             (let f = record_field d 1 c1
              in Some (reply 6 (if f ! 0 = 0 then clear_field f 6 else f), d, s))
         | Some kAlarmRcyRecord \<Rightarrow> Some (reply 6 (record_field d 2 c1), d, s)
         | Some kFaultRecord \<Rightarrow> Some (reply 6 (record_field d 3 c1), d, s)
         | Some kFaultRcyRecord \<Rightarrow> Some (reply 6 (record_field d 4 c1), d, s)
         | Some kPowerFailureRecord \<Rightarrow> Some (reply 6 (record_field d 5 c1), d, s)
         | Some kPowerOnRecord \<Rightarrow> Some (reply 6 (record_field d 6 c1), d, s)
         | Some kSensorFailureRecord \<Rightarrow>
             (let f = record_field d 7 1
              in Some (reply 7 (if c1 \<noteq> 0 then clear_field f 7
                                else if f ! 1 = 0 then clear_field f 7 else f[0 := 1]), d, s))
         | Some kGetCurrentTime \<Rightarrow>
             do { (_, s) \<leftarrow> BSP_Get_RTC_Time s; Some (reply 6 (put_field (time_bytes (RtcDateTime s))), d, s) }
         | Some kGetCurrentTimeSecond \<Rightarrow>
             do { (_, s) \<leftarrow> BSP_Get_RTC_Time s;
                  Some (reply 7 (put_field (time_bytes (RtcDateTime s) @ [second (RtcDateTime s)])), d, s) }
         | Some kSetCurrentTime \<Rightarrow>
             do { (f, s) \<leftarrow> hr_set_current_time (fr_data fr) s; Some (reply 7 f, d, s) }
         | Some kSetFactoryTime \<Rightarrow>
             do { (f, d) \<leftarrow> hr_set_limit hw (fr_data fr) kFactoryTimeId d; Some (reply 7 f, d, s) }
         | Some kSetExpirationTime \<Rightarrow>
             do { (f, d) \<leftarrow> hr_set_limit hw (fr_data fr) kExpirationTimeId d; Some (reply 7 f, d, s) }
         | Some kSetAlarmValue \<Rightarrow>
             do { (f, d) \<leftarrow> hr_set_alarm hw (fr_data fr) d; Some (reply 2 f, d, s) }
         | Some kGetAlarmValue \<Rightarrow>
             (let v = Flash_Get_AlarmLel d
              in Some (reply 2 (put_field [ucast (drop_bit 8 v), ucast v]), d, s))
         | _ \<Rightarrow> Some (reply 0 data_field0, d, s))"

definition HR_ProcessData :: "flash_hw \<Rightarrow> TsFrameData \<Rightarrow> flash_dev \<times> rtc \<Rightarrow> (u8 list \<times> flash_dev \<times> rtc) option" where
  "HR_ProcessData hw fr ds =
     do { (rp, ds) \<leftarrow> hr_switch hw fr ds;
          let f = (if rp_c1 rp = 0 \<and> 0 < fr_c2 fr \<and> fr_c2 fr < 7 then clear_field (rp_field rp) (rp_len rp)
                   else rp_field rp);
          (len, buf) \<leftarrow> HR_GenerateRawFrame (rp_c1 rp) (fr_c2 fr) f (rp_len rp);
          Some (take (unat len) buf, ds) }"

subsection \<open>The thread\<close>

text \<open>One round of \<open>hr_thread_entry\<close>: the ring buffer, the thread's array of 32 bytes, the stores.\<close>

record hr_thread =
  hr_rb :: lwrb
  hr_buf :: "u8 list"
  hr_flash :: flash_dev
  hr_rtc :: rtc

definition hr_thread_step ::
  "flash_hw \<Rightarrow> (lwrb \<Rightarrow> lwrb) \<Rightarrow> bool \<Rightarrow> hr_thread \<Rightarrow> (u8 list \<times> hr_thread) option" where
  "hr_thread_step hw UART2_RxCheck mem_ok t =
     (let rb = UART2_RxCheck (hr_rb t);
          buf_len = ucast (lwrb_get_full rb) :: u8
      in do {
        (_, data, rb) \<leftarrow> lwrb_read rb (Some (hr_buf t)) (ucast buf_len);
        let t = t\<lparr>hr_rb := rb, hr_buf := the data\<rparr>;
        if HOST_FRAME_MIN_LEN \<le> buf_len
        then do {
          HostFrameData \<leftarrow> HR_GetFrameData mem_ok (hr_buf t) buf_len;
          case HostFrameData of
            None \<Rightarrow> Some ([], t)
          | Some fr \<Rightarrow> do { (out, d, s) \<leftarrow> HR_ProcessData hw fr (hr_flash t, hr_rtc t);
                            Some (out, t\<lparr>hr_flash := d, hr_rtc := s\<rparr>) } }
        else Some ([], t) })"

subsection \<open>Frames: what is generated is what is found\<close>

definition raw_frame :: "u8 \<Rightarrow> u8 \<Rightarrow> u8 list \<Rightarrow> u8 list" where
  "raw_frame c1 c2 data =
     (let body = [FRAME_HEADER, c1, c2, of_nat (length data)] @ data
      in body @ [foldl (+) 0 body, FRAME_TAIL])"

lemma take4: "take (4 + n) (a # b # c # d # xs) = a # b # c # d # take n xs"
  by (simp add: eval_nat_numeral)

lemma drop4: "drop (4 + n) (a # b # c # d # xs) = drop n xs"
  by (simp add: eval_nat_numeral)

lemma length_raw_frame [simp]: "length (raw_frame c1 c2 data) = length data + 6"
  by (simp add: raw_frame_def Let_def)

lemma take_raw_frame:
  "take (4 + length data) (raw_frame c1 c2 data) = [FRAME_HEADER, c1, c2, of_nat (length data)] @ data"
  by (simp add: raw_frame_def Let_def take4)

lemma nth_raw_frame:
  "raw_frame c1 c2 data ! 0 = FRAME_HEADER" "raw_frame c1 c2 data ! 1 = c1" "raw_frame c1 c2 data ! 2 = c2"
  "raw_frame c1 c2 data ! 3 = of_nat (length data)"
  "raw_frame c1 c2 data ! (length data + 4) =
     foldl (+) 0 ([FRAME_HEADER, c1, c2, of_nat (length data)] @ data)"
  "raw_frame c1 c2 data ! (length data + 5) = FRAME_TAIL"
  by (simp_all add: raw_frame_def Let_def nth_append nth_Cons split: nat.split)

lemma HR_GenerateRawFrame_ok:
  assumes n: "unat src_len \<le> 249" "unat src_len \<le> length src"
  shows "\<exists>buf. HR_GenerateRawFrame c1 c2 src src_len = Some (src_len + 6, buf) \<and>
    unat (src_len + 6) = unat src_len + 6 \<and>
    take (unat src_len + 6) buf = raw_frame c1 c2 (take (unat src_len) src)"
proof -
  let ?n = "unat src_len" and ?h = "[FRAME_HEADER, c1, c2, src_len]"
  define data where "data = take ?n src"
  have ld: "length data = ?n" using n by (simp add: data_def)
  have len: "unat (src_len + 6) = ?n + 6" using n by (subst unat_add_lt) simp_all
  define b1 where "b1 = ?h @ data @ replicate (252 - ?n) 0"
  have b1: "do { buf \<leftarrow> blit (replicate 256 0) 0 ?h; src' \<leftarrow> subarr src 0 ?n; blit buf 4 src' } = Some b1"
    using n ld by (simp add: b1_def blit_def data_def drop4)
  have l1: "length b1 = 256" using n ld by (simp add: b1_def)
  define cs where "cs = foldl (+) 0 (?h @ data)"
  have "subarr b1 0 (?n + 4) = Some (?h @ data)"
  proof -
    have b1': "b1 = (?h @ data) @ replicate (252 - ?n) 0" by (simp add: b1_def)
    have "?n + 4 = length (?h @ data)" using ld by simp
    then have "take (?n + 4) b1 = ?h @ data" unfolding b1' by (metis append_eq_conv_conj)
    then show ?thesis using l1 n by (simp add: subarr_def)
  qed
  then have cs: "HR_CheckSum b1 0 (?n + 4) = Some cs" by (simp add: HR_CheckSum_def cs_def)
  define b3 where "b3 = (b1[?n + 4 := cs])[?n + 5 := FRAME_TAIL]"
  have w: "wr b1 (?n + 4) cs = Some (b1[?n + 4 := cs])"
    "wr (b1[?n + 4 := cs]) (?n + 5) FRAME_TAIL = Some b3"
    using n l1 by (simp_all add: b3_def)
  have gen: "HR_GenerateRawFrame c1 c2 src src_len = Some (src_len + 6, b3)"
  proof -
    obtain x y where x: "blit (replicate 256 0) 0 ?h = Some x" "subarr src 0 ?n = Some y" "blit x 4 y = Some b1"
      using b1 by (auto split: bind_splits)
    show ?thesis
      using len x cs w by (simp add: HR_GenerateRawFrame_def Let_def add.commute [of "unat src_len"])
  qed
  have "take (?n + 6) b3 = raw_frame c1 c2 data"
  proof (rule nth_equalityI)
    show "length (take (?n + 6) b3) = length (raw_frame c1 c2 data)" using n l1 ld by (simp add: b3_def)
    fix i assume "i < length (take (?n + 6) b3)"
    then have i: "i < ?n + 6" by simp
    have b1': "b1 = (?h @ data) @ replicate (252 - ?n) 0" by (simp add: b1_def)
    have "b1 ! i = (?h @ data) ! i" if "i < ?n + 4"
      using that ld unfolding b1' by (subst nth_append) simp
    moreover have hd: "?h @ data = [FRAME_HEADER, c1, c2, of_nat (length data)] @ data"
      using ld by (simp add: word_of_nat_unat)
    moreover have "raw_frame c1 c2 data ! i = take (4 + length data) (raw_frame c1 c2 data) ! i" if "i < ?n + 4"
      using that ld by simp
    ultimately have below: "b1 ! i = raw_frame c1 c2 data ! i" if "i < ?n + 4"
      using that unfolding take_raw_frame by simp
    have b3: "b3 ! i = (if i = ?n + 5 then FRAME_TAIL else if i = ?n + 4 then cs else b1 ! i)"
      using i n l1 by (simp add: b3_def nth_list_update)
    consider "i < ?n + 4" | "i = ?n + 4" | "i = ?n + 5" using i by linarith
    then show "take (?n + 6) b3 ! i = raw_frame c1 c2 data ! i"
    proof cases
      case 1
      then show ?thesis using i b3 below by simp
    next
      case 2
      then show ?thesis using i b3 nth_raw_frame(5) [of c1 c2 data] ld hd by (simp add: cs_def)
    next
      case 3
      then show ?thesis using i b3 nth_raw_frame(6) [of c1 c2 data] ld by simp
    qed
  qed
  then show ?thesis using gen len by (auto simp: data_def)
qed

text \<open>At a frame in the array the search accepts it; before it, bytes that are no header are passed over.\<close>

lemma get_frame_here:
  assumes p: "take (length data + 6) (drop i p) = raw_frame c1 c2 data" and d: "length data < 256"
    and len: "i + length data + 6 \<le> length p"
  shows "get_frame_from True p i (Suc n) =
    Some (Some \<lparr>fr_c1 = c1, fr_c2 = c2, fr_len = of_nat (length data), fr_data = data\<rparr>)"
proof -
  let ?n = "length data"
  have at: "p ! (i + k) = raw_frame c1 c2 data ! k" if "k < ?n + 6" for k
  proof -
    have "raw_frame c1 c2 data ! k = drop i p ! k" using that by (simp flip: p)
    then show ?thesis using that len by simp
  qed
  have rds: "p ! i = FRAME_HEADER" "p ! (i + 1) = c1" "p ! (i + 2) = c2" "p ! (i + 3) = of_nat ?n"
    "p ! (i + 3 + ?n + 1) = foldl (+) 0 ([FRAME_HEADER, c1, c2, of_nat ?n] @ data)"
    "p ! (i + 3 + ?n + 2) = FRAME_TAIL"
    using at [of 0] at [of 1] at [of 2] at [of 3] at [of "?n + 4"] at [of "?n + 5"] nth_raw_frame [of c1 c2 data]
    by (simp_all add: add_ac)
  have u: "unat (of_nat ?n :: u8) = ?n" using d by (simp add: unat_of_nat_lt)
  have "take (?n + 4) (drop i p) = take (?n + 4) (take (?n + 6) (drop i p))" by simp
  then have t4: "take (4 + ?n) (drop i p) = [FRAME_HEADER, c1, c2, of_nat ?n] @ data"
    unfolding p using take_raw_frame [of data c1 c2] by (simp add: add_ac)
  have "take ?n (drop (i + 4) p) = drop 4 (take (4 + ?n) (drop i p))" by (simp add: drop_take add_ac)
  then have dat: "take ?n (drop (i + 4) p) = data" unfolding t4 by simp
  have cs: "HR_CheckSum p i (4 + ?n) = Some (foldl (+) 0 ([FRAME_HEADER, c1, c2, of_nat ?n] @ data))"
    using len by (simp only: HR_CheckSum_def subarr_def t4) simp
  have sub: "subarr p (i + 4) ?n = Some data" using len dat by simp
  have rd: "rd p i = Some FRAME_HEADER" "rd p (i + 1) = Some c1" "rd p (i + 2) = Some c2"
    "rd p (i + 3) = Some (of_nat ?n)" "rd p (i + 3 + ?n + 2) = Some FRAME_TAIL"
    "rd p (i + 3 + ?n + 1) = Some (foldl (+) 0 ([FRAME_HEADER, c1, c2, of_nat ?n] @ data))"
    using rds len unfolding rd_def by simp_all
  show ?thesis
    by (simp only: get_frame_from.simps bind.simps Option.bind.bind_lunit simp_thms if_True if_False rd u cs sub)
qed

lemma get_frame_skip:
  "FRAME_HEADER \<notin> set (take k (drop i p)) \<Longrightarrow> i + k \<le> length p \<Longrightarrow> k \<le> n \<Longrightarrow>
     get_frame_from ok p i n = get_frame_from ok p (i + k) (n - k)"
proof (induction k arbitrary: i n)
  case (Suc k)
  then obtain n' where n: "n = Suc n'" by (cases n) auto
  have dr: "drop i p = p ! i # drop (i + 1) p" using Suc.prems(2) by (simp add: Cons_nth_drop_Suc)
  have "p ! i \<noteq> FRAME_HEADER" "FRAME_HEADER \<notin> set (take k (drop (i + 1) p))"
    using Suc.prems(1) by (auto simp: dr)
  then show ?case using Suc.IH [of "i + 1" n'] Suc.prems by (simp add: n)
qed simp

lemma get_frame_sound:
  "get_frame_from ok p i n = Some (Some fr) \<Longrightarrow>
    \<exists>j. i \<le> j \<and> j < i + n \<and> j + length (fr_data fr) + 6 \<le> length p \<and> unat (fr_len fr) = length (fr_data fr) \<and>
      take (length (fr_data fr) + 6) (drop j p) = raw_frame (fr_c1 fr) (fr_c2 fr) (fr_data fr)"
proof (induction n arbitrary: i)
  case (Suc n)
  show ?case
  proof (cases "get_frame_from ok p (i + 1) n = Some (Some fr)")
    case True
    then show ?thesis using Suc.IH [of "i + 1"] by (metis Suc_eq_plus1 add_Suc_right add_Suc less_Suc_eq_le less_imp_le_nat Suc_leD)
  next
    case False
    define L where "L = p ! (i + 3)"
    have here: "p ! i = FRAME_HEADER" "i + 3 + unat L + 2 < length p"
      "p ! (i + 3 + unat L + 2) = FRAME_TAIL" "HR_CheckSum p i (4 + unat L) = Some (p ! (i + 3 + unat L + 1))"
      "fr = \<lparr>fr_c1 = p ! (i + 1), fr_c2 = p ! (i + 2), fr_len = L, fr_data = take (unat L) (drop (i + 4) p)\<rparr>"
      using Suc.prems False
      by (auto simp: rd_def subarr_def L_def split: if_splits bind_splits)
    have ld: "length (fr_data fr) = unat L" using here(2,5) by simp
    have cs: "foldl (+) 0 (take (4 + unat L) (drop i p)) = p ! (i + 3 + unat L + 1)"
      using here(2,4) by (simp add: HR_CheckSum_def)
    have d: "drop i p = p ! i # p ! (i + 1) # p ! (i + 2) # L # drop (i + 4) p"
      using here(2) by (simp add: L_def Cons_nth_drop_Suc eval_nat_numeral)
    have t4: "take (4 + unat L) (drop i p) = [FRAME_HEADER, fr_c1 fr, fr_c2 fr, of_nat (length (fr_data fr))] @ fr_data fr"
      unfolding d take4 using here(1,5) ld by (simp add: word_of_nat_unat)
    have "take (unat L + 6) (drop i p) = take (4 + unat L) (drop i p) @ [p ! (i + 3 + unat L + 1), p ! (i + 3 + unat L + 2)]"
    proof -
      have "Suc (4 + unat L) < length (drop i p)" using here(2) by simp
      then have t: "take (Suc (Suc (4 + unat L))) (drop i p) =
          take (4 + unat L) (drop i p) @ [drop i p ! (4 + unat L), drop i p ! Suc (4 + unat L)]"
        by (simp only: take_Suc_conv_app_nth Suc_lessD append_assoc append_Cons append_Nil)
      have e: "unat L + 6 = Suc (Suc (4 + unat L))" by simp
      have n: "drop i p ! (4 + unat L) = p ! (i + 3 + unat L + 1)"
        "drop i p ! Suc (4 + unat L) = p ! (i + 3 + unat L + 2)"
        using here(2) by (simp_all add: add_ac)
      show ?thesis unfolding e t n by (rule refl)
    qed
    then have "take (unat L + 6) (drop i p) = raw_frame (fr_c1 fr) (fr_c2 fr) (fr_data fr)"
      unfolding raw_frame_def Let_def by (simp only: t4 here(3) cs [symmetric] append_assoc)
    then show ?thesis using ld here(2,5) by (intro exI [of _ i]) simp
  qed
qed simp

lemma HR_GetFrameData_after_noise:
  assumes "FRAME_HEADER \<notin> set noise" "length noise < unat n" "length data < 256"
  shows "HR_GetFrameData True (noise @ raw_frame c1 c2 data @ rest) n =
    Some (Some \<lparr>fr_c1 = c1, fr_c2 = c2, fr_len = of_nat (length data), fr_data = data\<rparr>)"
proof -
  let ?p = "noise @ raw_frame c1 c2 data @ rest"
  obtain m where m: "unat n - length noise = Suc m" using assms(2) by (cases "unat n - length noise") auto
  have "get_frame_from True ?p 0 (unat n) = get_frame_from True ?p (0 + length noise) (unat n - length noise)"
    using assms(1,2) by (intro get_frame_skip) simp_all
  moreover have "get_frame_from True ?p (length noise) (Suc m) =
      Some (Some \<lparr>fr_c1 = c1, fr_c2 = c2, fr_len = of_nat (length data), fr_data = data\<rparr>)"
    using assms(3) by (intro get_frame_here) simp_all
  ultimately show ?thesis by (simp only: HR_GetFrameData_def m add_0)
qed

subsection \<open>Properties of the frames\<close>

text \<open>C32: A frame of up to 249 data bytes that \<open>HR_GenerateRawFrame\<close> builds is found by
  \<open>HR_GetFrameData\<close> with its two control codes and its data, whatever bytes other than a header come
  before it and whatever follows it.\<close>

theorem hr_frame_roundtrip:
  assumes "unat src_len \<le> 249" "unat src_len \<le> length src"
    and "FRAME_HEADER \<notin> set noise" "length noise < unat n"
  shows "\<exists>len buf. HR_GenerateRawFrame c1 c2 src src_len = Some (len, buf) \<and> unat len = unat src_len + 6 \<and>
    HR_GetFrameData True (noise @ take (unat len) buf @ rest) n =
      Some (Some \<lparr>fr_c1 = c1, fr_c2 = c2, fr_len = src_len, fr_data = take (unat src_len) src\<rparr>)"
proof -
  obtain buf where "HR_GenerateRawFrame c1 c2 src src_len = Some (src_len + 6, buf)"
    "unat (src_len + 6) = unat src_len + 6"
    "take (unat src_len + 6) buf = raw_frame c1 c2 (take (unat src_len) src)"
    using HR_GenerateRawFrame_ok [OF assms(1,2)] by blast
  moreover have "length (take (unat src_len) src) = unat src_len" using assms(2) by simp
  ultimately show ?thesis
    using HR_GetFrameData_after_noise [OF assms(3,4), of "take (unat src_len) src"]
    by (intro exI [of _ "src_len + 6"] exI [of _ buf]) (simp add: word_of_nat_unat)
qed

theorem hr_frame_roundtrip_witness:
  "\<exists>len buf. HR_GenerateRawFrame 1 0x0D [0x0B, 0xB8] 2 = Some (len, buf) \<and> unat len = 8 \<and>
    HR_GetFrameData True ([0x55, 0] @ take (unat len) buf @ []) 10 =
      Some (Some \<lparr>fr_c1 = 1, fr_c2 = 0x0D, fr_len = 2, fr_data = [0x0B, 0xB8]\<rparr>)"
  using hr_frame_roundtrip [of 2 "[0x0B, 0xB8]" "[0x55, 0]" 10 1 "0x0D" "[]"]
  by (simp add: FRAME_HEADER_def)

text \<open>C33: Nothing but a frame is accepted: whatever \<open>HR_GetFrameData\<close> returns stands in the array, at a
  position below the length it was given, with header, length, data, checksum and tail in place.\<close>

theorem HR_GetFrameData_sound:
  assumes "HR_GetFrameData mem_ok p n = Some (Some fr)"
  shows "\<exists>i. i < unat n \<and> unat (fr_len fr) = length (fr_data fr) \<and>
    take (length (fr_data fr) + 6) (drop i p) = raw_frame (fr_c1 fr) (fr_c2 fr) (fr_data fr)"
  using get_frame_sound [of mem_ok p 0 "unat n" fr] assms by (auto simp: HR_GetFrameData_def)

theorem HR_GetFrameData_sound_witness:
  "\<exists>i. i < unat (6 :: u8) \<and> unat (0 :: u8) = length ([] :: u8 list) \<and>
    take (length ([] :: u8 list) + 6) (drop i [0xAA, 0, 0, 0, 0xAA, 0x55]) = raw_frame 0 0 []"
proof -
  have f: "raw_frame 0 0 [] = [0xAA, 0, 0, 0, 0xAA, 0x55]"
    by (simp add: raw_frame_def FRAME_HEADER_def FRAME_TAIL_def Let_def)
  have "HR_GetFrameData True [0xAA, 0, 0, 0, 0xAA, 0x55] 6 =
      Some (Some \<lparr>fr_c1 = 0, fr_c2 = 0, fr_len = 0, fr_data = []\<rparr>)"
    using HR_GetFrameData_after_noise [of "[]" 6 "[]" 0 0 "[]"] by (simp add: f)
  from HR_GetFrameData_sound [OF this] show ?thesis by simp
qed

text \<open>The search does not compare the length byte with the bytes it has: at a header whose length byte
  or whose announced end lies beyond the array, the first such header the search meets, it reads
  outside the array. Three bytes \<open>AA\<close> at the end of the thread's array are enough.\<close>

theorem HR_GetFrameData_overrun:
  assumes "i < unat n" "unat n \<le> length p" "FRAME_HEADER \<notin> set (take i p)" "p ! i = FRAME_HEADER"
    and "length p \<le> i + 3 \<or> length p \<le> i + 5 + unat (p ! (i + 3))"
  shows "HR_GetFrameData mem_ok p n = None"
proof -
  obtain m where m: "unat n - i = Suc m" using assms(1) by (cases "unat n - i") auto
  have "get_frame_from mem_ok p 0 (unat n) = get_frame_from mem_ok p (0 + i) (unat n - i)"
    using assms(1-3) by (intro get_frame_skip) simp_all
  also have "\<dots> = None"
  proof (cases "length p \<le> i + 3")
    case True
    then show ?thesis using assms(1,2,4) by (simp add: m rd_def)
  next
    case False
    then show ?thesis using assms(1,2,4,5) by (simp add: m rd_def add_ac)
  qed
  finally show ?thesis by (simp add: HR_GetFrameData_def)
qed

theorem HR_GetFrameData_overrun_witness:
  "HR_GetFrameData True (replicate 28 0 @ [0xAA, 0, 0, 200]) 32 = None"
  by (rule HR_GetFrameData_overrun [of 28])
    (simp_all add: FRAME_HEADER_def nth_append take_append)

subsection \<open>Replies\<close>

lemma length_put_field [simp]: "length b \<le> 64 \<Longrightarrow> length (put_field b) = 64"
  by (simp add: put_field_def data_field0_def)

lemma length_data_field0 [simp]: "length data_field0 = 64"
  by (simp add: data_field0_def)

lemma length_clear_field [simp]: "unat n \<le> length f \<Longrightarrow> length (clear_field f n) = length f"
  by (simp add: clear_field_def)

lemma length_record_field [simp]: "length (record_field d t i) = 64"
  by (auto simp: record_field_def Flash_GetRecord_def Let_def split: option.split if_splits)

lemma length_total_bytes [simp]: "length (total_bytes t) = 7"
  by (simp add: total_bytes_def)

lemma length_limit_bytes [simp]: "length (limit_bytes f) = 7"
  by (simp add: limit_bytes_def)

lemma take_put_field [simp]: "take (length b) (put_field b) = b"
  by (simp add: put_field_def)

text \<open>The length of the reply's data field, by command.\<close>

fun reply_len :: "TeFrameC2 option \<Rightarrow> u8" where
  "reply_len (Some c) =
     (if c \<in> {kAlarmRecord, kAlarmRcyRecord, kFaultRecord, kFaultRcyRecord, kPowerFailureRecord,
              kPowerOnRecord, kGetCurrentTime} then 6
      else if c \<in> {kNumOfRecords, kSensorFailureRecord, kGetCurrentTimeSecond, kSetCurrentTime,
                   kSetFactoryTime, kSetExpirationTime} then 7
      else if c \<in> {kSetAlarmValue, kGetAlarmValue} then 2 else 0)"
| "reply_len None = 0"

lemma reply_len_le: "unat (reply_len c) \<le> 7"
  by (cases c) auto

lemma ucast_and_255: "ucast (x AND 255) = (ucast x :: u8)" for x :: u16
proof -
  have e: "(255 :: u16) = mask 8" by (simp add: mask_eq_exp_minus_1)
  show ?thesis unfolding e by (rule bit_word_eqI) (simp only: bit_mask_iff bit_and_iff bit_unsigned_iff, simp)
qed

lemma be16_bytes: "ucast (drop_bit 8 (be16 h l)) = h" "ucast (be16 h l) = l"
proof -
  have "byte_at (be16 h l) 8 = h" "byte_at (be16 h l) 0 = l"
    by (simp_all only: be16_def byte_at_half_0 byte_at_half_8)
  then show "ucast (drop_bit 8 (be16 h l)) = h" "ucast (be16 h l) = l"
    by (simp_all add: byte_at_def ucast_and_255)
qed

lemma frame_c2_zero: "frame_c2 c2 = Some kNumOfRecords \<longleftrightarrow> c2 = 0"
proof -
  have "all_c2 ! n = kNumOfRecords \<longleftrightarrow> n = 0" if "n < length all_c2" for n
  proof -
    have "distinct all_c2" by (simp add: all_c2_def)
    moreover have "all_c2 ! 0 = kNumOfRecords" "0 < length all_c2" by (simp_all add: all_c2_def)
    ultimately show ?thesis using that nth_eq_iff_index_eq [of all_c2 n 0] by metis
  qed
  then show ?thesis by (auto simp: frame_c2_def unat_0_iff) (simp_all add: all_c2_def)
qed

lemma take_nths: "n \<le> length xs \<Longrightarrow> take n xs = map ((!) xs) [0..<n]"
  by (rule nth_equalityI) simp_all

lemma upt_2_7: "[0..<2] = [0, 1]" "[0..<7] = [0, 1, 2, 3, 4, 5, 6]"
  by (simp_all add: upt_rec)

lemma hr_set_limit_ok:
  assumes hw: "flash_hw_ok hw" and "7 \<le> length data"
  shows "\<exists>d'. hr_set_limit hw data i d = Some (put_field (take 7 data), d') \<and>
    Flash_SetProductTimeLimit hw d (be16 (data ! 0) (data ! 1)) (data ! 2) (data ! 3) (data ! 4) (data ! 5)
      (data ! 6) i = Some d'"
proof -
  let ?f = "pt_frame_of (be16 (data ! 0) (data ! 1)) (data ! 2) (data ! 3) (data ! 4) (data ! 5) (data ! 6)"
  define d' where "d' = d\<lparr>fl_mem := overlay (fl_mem d) (pt_addr i) (pt_frame_buf ?f),
            fl_saved_irq := fl_irq d, fl_locked := True\<rparr>"
  have get: "Flash_GetProductTimeLimit d' i = (True, ?f)"
    by (subst Flash_GetProductTimeLimit_overlay [of _ "fl_mem d" _ ?f])
      (simp add: d'_def, simp add: pt_frame_of_def)
  have "limit_bytes ?f = take 7 data"
    unfolding take_nths [OF assms(2)] upt_2_7 by (simp add: limit_bytes_def pt_frame_of_def be16_bytes)
  moreover have "rd data 0 = Some (data ! 0)" using assms(2) by (auto intro: rd_Some)
  ultimately show ?thesis
    using assms(2) get Flash_SetProductTimeLimit_mem [OF hw]
    by (intro exI [of _ d']) (simp add: hr_set_limit_def d'_def)
qed

lemma hr_set_limit_stored:
  assumes hw: "flash_hw_ok hw" and len: "7 \<le> length data"
  shows "\<exists>d'. hr_set_limit hw data i d = Some (put_field (take 7 data), d') \<and>
    limit_bytes (snd (Flash_GetProductTimeLimit d' i)) = take 7 data \<and> fst (Flash_GetProductTimeLimit d' i) \<and>
    (\<forall>i'. i' \<noteq> i \<longrightarrow> Flash_GetProductTimeLimit d' i' = Flash_GetProductTimeLimit d i')"
proof -
  let ?f = "pt_frame_of (be16 (data ! 0) (data ! 1)) (data ! 2) (data ! 3) (data ! 4) (data ! 5) (data ! 6)"
  obtain d' where d': "hr_set_limit hw data i d = Some (put_field (take 7 data), d')"
    "Flash_SetProductTimeLimit hw d (be16 (data ! 0) (data ! 1)) (data ! 2) (data ! 3) (data ! 4) (data ! 5)
      (data ! 6) i = Some d'"
    using hr_set_limit_ok [OF hw len] by blast
  have mem: "fl_mem d' = overlay (fl_mem d) (pt_addr i) (pt_frame_buf ?f)"
    using d'(2) by (auto simp: Flash_SetProductTimeLimit_mem [OF hw])
  have "Flash_GetProductTimeLimit d' i = (True, ?f)"
    by (simp add: Flash_GetProductTimeLimit_overlay [OF mem] pt_frame_of_def)
  moreover have "limit_bytes ?f = take 7 data"
    unfolding take_nths [OF len] upt_2_7 by (simp add: limit_bytes_def pt_frame_of_def be16_bytes)
  moreover have "Flash_GetProductTimeLimit d' i' = Flash_GetProductTimeLimit d i'" if "i' \<noteq> i" for i'
    using that by (intro Flash_GetProductTimeLimit_other [OF mem]) (cases i; cases i'; simp add: config_addrs)
  ultimately show ?thesis using d'(1) by auto
qed

lemma hr_set_alarm_ok:
  assumes hw: "flash_hw_ok hw" and "2 \<le> length data"
  shows "\<exists>d'. hr_set_alarm hw data d = Some (put_field (take 2 data), d') \<and>
    Flash_Set_AlarmLel hw d (be16 (data ! 0) (data ! 1)) = Some d' \<and>
    Flash_Get_AlarmLel d' = be16 (data ! 0) (data ! 1)"
proof -
  let ?v = "be16 (data ! 0) (data ! 1)"
  obtain d' where d': "Flash_Set_AlarmLel hw d ?v = Some d'" "Flash_Get_AlarmLel d' = ?v"
    using Flash_Set_AlarmLel_get [OF hw] by blast
  have "[ucast (drop_bit 8 ?v), ucast ?v] = take 2 data"
    unfolding take_nths [OF assms(2)] upt_2_7 by (simp add: be16_bytes)
  moreover have "rd data 0 = Some (data ! 0)" "rd data 1 = Some (data ! 1)" using assms(2) by (auto intro: rd_Some)
  ultimately show ?thesis using d' by (simp add: hr_set_alarm_def Let_def)
qed

lemma hr_switch_ok:
  assumes hw: "flash_hw_ok hw" and data: "7 \<le> length (fr_data fr)"
    and c: "frame_c2 (fr_c2 fr) \<notin> {Some kGetCurrentTime, Some kGetCurrentTimeSecond, Some kSetCurrentTime}"
  shows "\<exists>rp d'. hr_switch hw fr (d, s) = Some (rp, d', s) \<and> rp_len rp = reply_len (frame_c2 (fr_c2 fr)) \<and>
    rp_c1 rp = (if frame_c2 (fr_c2 fr) = Some kNumOfRecords then 0 else fr_c1 fr) \<and>
    length (rp_field rp) = 64"
proof -
  obtain d1 where d1: "hr_set_limit hw (fr_data fr) kFactoryTimeId d = Some (put_field (take 7 (fr_data fr)), d1)"
    using hr_set_limit_ok [OF hw data] by blast
  obtain d2 where d2: "hr_set_limit hw (fr_data fr) kExpirationTimeId d = Some (put_field (take 7 (fr_data fr)), d2)"
    using hr_set_limit_ok [OF hw data] by blast
  obtain d3 where d3: "hr_set_alarm hw (fr_data fr) d = Some (put_field (take 2 (fr_data fr)), d3)"
    using hr_set_alarm_ok [OF hw, of "fr_data fr" d] data by auto
  show ?thesis
  proof (cases "frame_c2 (fr_c2 fr)")
    case None
    then show ?thesis by (simp add: hr_switch_def)
  next
    case (Some k)
    then show ?thesis
      using c by (cases k) (simp_all add: hr_switch_def Let_def d1 d2 d3)
  qed
qed

lemma HR_ProcessData_send:
  assumes sw: "hr_switch hw fr ds = Some (rp, ds')" and len: "unat (rp_len rp) \<le> 7" "length (rp_field rp) = 64"
  shows "HR_ProcessData hw fr ds = Some (raw_frame (rp_c1 rp) (fr_c2 fr)
    (if rp_c1 rp = 0 \<and> 0 < fr_c2 fr \<and> fr_c2 fr < 7 then replicate (unat (rp_len rp)) 0
     else take (unat (rp_len rp)) (rp_field rp)), ds')"
proof -
  define f where "f = (if rp_c1 rp = 0 \<and> 0 < fr_c2 fr \<and> fr_c2 fr < 7 then clear_field (rp_field rp) (rp_len rp)
      else rp_field rp)"
  have lf: "length f = 64" using len by (simp add: f_def)
  obtain buf where "HR_GenerateRawFrame (rp_c1 rp) (fr_c2 fr) f (rp_len rp) = Some (rp_len rp + 6, buf)"
    "unat (rp_len rp + 6) = unat (rp_len rp) + 6"
    "take (unat (rp_len rp) + 6) buf = raw_frame (rp_c1 rp) (fr_c2 fr) (take (unat (rp_len rp)) f)"
    using HR_GenerateRawFrame_ok [of "rp_len rp" f] len lf by auto
  moreover have "take (unat (rp_len rp)) f = (if rp_c1 rp = 0 \<and> 0 < fr_c2 fr \<and> fr_c2 fr < 7
      then replicate (unat (rp_len rp)) 0 else take (unat (rp_len rp)) (rp_field rp))"
    by (simp add: f_def clear_field_def)
  ultimately show ?thesis using sw by (simp add: HR_ProcessData_def f_def [symmetric])
qed

text \<open>C30: Every host frame with at least seven data bytes, whatever its codes, known or not, gets exactly one
  answer, the clock commands apart: a frame that the host's own search reads back, with the same second
  code, the first code (0 for the totals) and the length the command calls for.\<close>

theorem HR_ProcessData_reply:
  assumes hw: "flash_hw_ok hw" and data: "7 \<le> length (fr_data fr)"
    and c: "frame_c2 (fr_c2 fr) \<notin> {Some kGetCurrentTime, Some kGetCurrentTimeSecond, Some kSetCurrentTime}"
  shows "\<exists>out d' data'. HR_ProcessData hw fr (d, s) = Some (out, d', s) \<and>
    length out = unat (reply_len (frame_c2 (fr_c2 fr))) + 6 \<and>
    HR_GetFrameData True out (of_nat (length out)) =
      Some (Some \<lparr>fr_c1 = (if fr_c2 fr = 0 then 0 else fr_c1 fr), fr_c2 = fr_c2 fr,
                  fr_len = reply_len (frame_c2 (fr_c2 fr)), fr_data = data'\<rparr>)"
proof -
  obtain rp d' where rp: "hr_switch hw fr (d, s) = Some (rp, d', s)" "rp_len rp = reply_len (frame_c2 (fr_c2 fr))"
    "rp_c1 rp = (if frame_c2 (fr_c2 fr) = Some kNumOfRecords then 0 else fr_c1 fr)" "length (rp_field rp) = 64"
    using hr_switch_ok [OF hw data c] by blast
  let ?n = "unat (reply_len (frame_c2 (fr_c2 fr)))"
  have n: "?n \<le> 7" by (rule reply_len_le)
  define data' where "data' = (if rp_c1 rp = 0 \<and> 0 < fr_c2 fr \<and> fr_c2 fr < 7
    then replicate (unat (rp_len rp)) 0 else take (unat (rp_len rp)) (rp_field rp))"
  have ld: "length data' = ?n" using rp n by (simp add: data'_def)
  have c1: "rp_c1 rp = (if fr_c2 fr = 0 then 0 else fr_c1 fr)"
    using rp(3) frame_c2_zero [of "fr_c2 fr"] by simp
  have out: "HR_ProcessData hw fr (d, s) = Some (raw_frame (rp_c1 rp) (fr_c2 fr) data', d', s)"
    using HR_ProcessData_send [OF rp(1)] rp(2,4) n by (simp add: data'_def)
  have "HR_GetFrameData True ([] @ raw_frame (rp_c1 rp) (fr_c2 fr) data' @ []) (of_nat (?n + 6)) =
      Some (Some \<lparr>fr_c1 = rp_c1 rp, fr_c2 = fr_c2 fr, fr_len = of_nat (length data'), fr_data = data'\<rparr>)"
  proof (rule HR_GetFrameData_after_noise)
    have "unat (of_nat (?n + 6) :: u8) = ?n + 6" using n by (intro unat_of_nat_lt) simp
    then show "length ([] :: u8 list) < unat (of_nat (?n + 6) :: u8)" by simp
  qed (use ld n in simp_all)
  then show ?thesis
    using out ld c1
    by (intro exI [of _ "raw_frame (rp_c1 rp) (fr_c2 fr) data'"] exI [of _ d'] exI [of _ data'])
      (simp add: word_of_nat_unat)
qed

theorem HR_ProcessData_reply_witness:
  "\<exists>out d' data'. HR_ProcessData sample_hw \<lparr>fr_c1 = 0, fr_c2 = 0x0C, fr_len = 7, fr_data = [7, 0xEC, 3, 0x1A, 9, 0x1E, 0]\<rparr>
      (sample_dev, rtc_boot) = Some (out, d', rtc_boot) \<and> length out = 13 \<and>
    HR_GetFrameData True out (of_nat (length out)) =
      Some (Some \<lparr>fr_c1 = 0, fr_c2 = 0x0C, fr_len = 7, fr_data = data'\<rparr>)"
  using HR_ProcessData_reply [OF sample_hw_ok, of "\<lparr>fr_c1 = 0, fr_c2 = 0x0C, fr_len = 7,
      fr_data = [7, 0xEC, 3, 0x1A, 9, 0x1E, 0]\<rparr>" sample_dev rtc_boot]
  by (simp add: frame_c2_def all_c2_def)

text \<open>A frame of \<open>kSetCurrentTime\<close>, \<open>kSetFactoryTime\<close>, \<open>kSetExpirationTime\<close> or
  \<open>kSetAlarmValue\<close> with a valid checksum but fewer data bytes than the command reads (seven, or two) is
  not refused: the handler reads beyond the data it was given.\<close>

theorem HR_ProcessData_short_frame:
  assumes "frame_c2 (fr_c2 fr) \<in> {Some kSetCurrentTime, Some kSetFactoryTime, Some kSetExpirationTime} \<and>
      length (fr_data fr) < 7 \<or>
    frame_c2 (fr_c2 fr) = Some kSetAlarmValue \<and> length (fr_data fr) < 2"
  shows "HR_ProcessData hw fr ds = None"
proof -
  have rd: "rd (fr_data fr) 6 = None" if "length (fr_data fr) < 7" using that by (simp add: rd_def)
  have rd1: "rd (fr_data fr) 1 = None" if "length (fr_data fr) < 2" using that by (simp add: rd_def)
  have none: "x \<bind> (\<lambda>_. None) = None" for x :: "'a option" by (cases x) simp_all
  obtain d s where ds: "ds = (d, s)" by (cases ds)
  have "hr_switch hw fr ds = None"
    using assms by (auto simp: hr_switch_def ds Let_def hr_set_current_time_def hr_set_limit_def
        hr_set_alarm_def rd rd1 [unfolded One_nat_def] none)
  then show ?thesis by (simp add: HR_ProcessData_def)
qed

theorem HR_ProcessData_short_frame_witness:
  "HR_GetFrameData True [0xAA, 0, 0x0D, 0, 0xB7, 0x55] 6 = Some (Some \<lparr>fr_c1 = 0, fr_c2 = 0x0D, fr_len = 0, fr_data = []\<rparr>) \<and>
   HR_ProcessData sample_hw \<lparr>fr_c1 = 0, fr_c2 = 0x0D, fr_len = 0, fr_data = []\<rparr> (sample_dev, rtc_boot) = None"
proof
  have f: "raw_frame 0 0x0D [] = [0xAA, 0, 0x0D, 0, 0xB7, 0x55]"
    by (simp add: raw_frame_def FRAME_HEADER_def FRAME_TAIL_def Let_def)
  show "HR_GetFrameData True [0xAA, 0, 0x0D, 0, 0xB7, 0x55] 6 =
      Some (Some \<lparr>fr_c1 = 0, fr_c2 = 0x0D, fr_len = 0, fr_data = []\<rparr>)"
    using HR_GetFrameData_after_noise [of "[]" 6 "[]" 0 "0x0D" "[]"] by (simp add: f)
  show "HR_ProcessData sample_hw \<lparr>fr_c1 = 0, fr_c2 = 0x0D, fr_len = 0, fr_data = []\<rparr> (sample_dev, rtc_boot) = None"
    by (rule HR_ProcessData_short_frame) (simp add: frame_c2_def all_c2_def)
qed

text \<open>Setting the alarm threshold: the answer repeats the two bytes of the host, and from then on
  \<open>kGetAlarmValue\<close> answers with them.\<close>

theorem hr_alarm_value_set_get:
  assumes hw: "flash_hw_ok hw" and fr: "fr_c2 fr = 0x0D" "2 \<le> length (fr_data fr)" and g: "fr_c2 g = 0x0F"
  shows "\<exists>d'. HR_ProcessData hw fr (d, s) = Some (raw_frame (fr_c1 fr) 0x0D (take 2 (fr_data fr)), d', s) \<and>
    HR_ProcessData hw g (d', s') = Some (raw_frame (fr_c1 g) 0x0F (take 2 (fr_data fr)), d', s')"
proof -
  obtain d' where d': "hr_set_alarm hw (fr_data fr) d = Some (put_field (take 2 (fr_data fr)), d')"
    "Flash_Get_AlarmLel d' = be16 (fr_data fr ! 0) (fr_data fr ! 1)"
    using hr_set_alarm_ok [OF hw fr(2)] by blast
  have c: "frame_c2 (fr_c2 fr) = Some kSetAlarmValue" "frame_c2 (fr_c2 g) = Some kGetAlarmValue"
    by (simp_all add: fr(1) g frame_c2_def all_c2_def)
  have t2: "take 2 (fr_data fr) = [fr_data fr ! 0, fr_data fr ! 1]"
    unfolding take_nths [OF fr(2)] upt_2_7 by simp
  have tk: "take 2 (put_field [x, y]) = [x, y]" for x y :: u8
    by (simp add: put_field_def)
  have f: "length (put_field (take 2 (fr_data fr))) = 64" by simp
  have "hr_switch hw fr (d, s) =
      Some (\<lparr>rp_c1 = fr_c1 fr, rp_len = 2, rp_field = put_field (take 2 (fr_data fr))\<rparr>, d', s)"
    by (simp add: hr_switch_def c d' Let_def)
  from HR_ProcessData_send [OF this]
  have 1: "HR_ProcessData hw fr (d, s) = Some (raw_frame (fr_c1 fr) 0x0D (take 2 (fr_data fr)), d', s)"
    using f by (simp add: fr(1) t2 tk)
  have "hr_switch hw g (d', s') =
      Some (\<lparr>rp_c1 = fr_c1 g, rp_len = 2, rp_field = put_field (take 2 (fr_data fr))\<rparr>, d', s')"
    by (simp add: hr_switch_def c d' Let_def be16_bytes t2 [unfolded One_nat_def])
  from HR_ProcessData_send [OF this]
  have "HR_ProcessData hw g (d', s') = Some (raw_frame (fr_c1 g) 0x0F (take 2 (fr_data fr)), d', s')"
    using f by (simp add: g t2 tk)
  then show ?thesis using 1 by blast
qed

theorem hr_alarm_value_set_get_witness:
  "\<exists>d'. HR_ProcessData sample_hw \<lparr>fr_c1 = 0, fr_c2 = 0x0D, fr_len = 2, fr_data = [0x0B, 0xB8]\<rparr> (sample_dev, rtc_boot) =
      Some (raw_frame 0 0x0D [0x0B, 0xB8], d', rtc_boot) \<and>
    HR_ProcessData sample_hw \<lparr>fr_c1 = 0, fr_c2 = 0x0F, fr_len = 0, fr_data = []\<rparr> (d', rtc_boot) =
      Some (raw_frame 0 0x0F [0x0B, 0xB8], d', rtc_boot)"
  using hr_alarm_value_set_get [OF sample_hw_ok, of "\<lparr>fr_c1 = 0, fr_c2 = 0x0D, fr_len = 2, fr_data = [0x0B, 0xB8]\<rparr>"
      "\<lparr>fr_c1 = 0, fr_c2 = 0x0F, fr_len = 0, fr_data = []\<rparr>" sample_dev rtc_boot rtc_boot] by simp

text \<open>Setting the factory or the expiry date: the answer repeats the seven bytes of the host, and the store
  then holds that date, the other one being kept.\<close>

theorem hr_limit_time_set:
  assumes hw: "flash_hw_ok hw" and data: "7 \<le> length (fr_data fr)"
    and i: "fr_c2 fr = 0x0B \<and> i = kFactoryTimeId \<or> fr_c2 fr = 0x0C \<and> i = kExpirationTimeId"
  shows "\<exists>d'. HR_ProcessData hw fr (d, s) =
      Some (raw_frame (fr_c1 fr) (fr_c2 fr) (take 7 (fr_data fr)), d', s) \<and>
    limit_bytes (snd (Flash_GetProductTimeLimit d' i)) = take 7 (fr_data fr) \<and>
    fst (Flash_GetProductTimeLimit d' i) \<and>
    (\<forall>i'. i' \<noteq> i \<longrightarrow> Flash_GetProductTimeLimit d' i' = Flash_GetProductTimeLimit d i')"
proof -
  obtain d' where d': "hr_set_limit hw (fr_data fr) i d = Some (put_field (take 7 (fr_data fr)), d')"
    "limit_bytes (snd (Flash_GetProductTimeLimit d' i)) = take 7 (fr_data fr)"
    "fst (Flash_GetProductTimeLimit d' i)"
    "\<forall>i'. i' \<noteq> i \<longrightarrow> Flash_GetProductTimeLimit d' i' = Flash_GetProductTimeLimit d i'"
    using hr_set_limit_stored [OF hw data] by blast
  have c: "frame_c2 (fr_c2 fr) = Some (if i = kFactoryTimeId then kSetFactoryTime else kSetExpirationTime)"
    "\<not> fr_c2 fr < 7" using i by (auto simp: frame_c2_def all_c2_def)
  have "hr_switch hw fr (d, s) =
      Some (\<lparr>rp_c1 = fr_c1 fr, rp_len = 7, rp_field = put_field (take 7 (fr_data fr))\<rparr>, d', s)"
    using d'(1) by (cases i) (simp_all add: hr_switch_def c Let_def)
  moreover have "take 7 (put_field (take 7 (fr_data fr))) = take 7 (fr_data fr)"
    using take_put_field [of "take 7 (fr_data fr)"] data by simp
  ultimately have "HR_ProcessData hw fr (d, s) =
      Some (raw_frame (fr_c1 fr) (fr_c2 fr) (take 7 (fr_data fr)), d', s)"
    using HR_ProcessData_send [of hw fr "(d, s)"] c(2) by simp
  then show ?thesis using d'(2-4) by blast
qed

theorem hr_limit_time_set_witness:
  "\<exists>d'. HR_ProcessData sample_hw \<lparr>fr_c1 = 0, fr_c2 = 0x0C, fr_len = 7, fr_data = [7, 0xEC, 3, 0x1A, 9, 0x1E, 0]\<rparr>
      (sample_dev, rtc_boot) = Some (raw_frame 0 0x0C [7, 0xEC, 3, 0x1A, 9, 0x1E, 0], d', rtc_boot) \<and>
    limit_bytes (snd (Flash_GetProductTimeLimit d' kExpirationTimeId)) = [7, 0xEC, 3, 0x1A, 9, 0x1E, 0]"
  using hr_limit_time_set [OF sample_hw_ok, of "\<lparr>fr_c1 = 0, fr_c2 = 0x0C, fr_len = 7,
      fr_data = [7, 0xEC, 3, 0x1A, 9, 0x1E, 0]\<rparr>" kExpirationTimeId sample_dev rtc_boot]
  by auto

subsection \<open>Querying the logs\<close>

lemma time_bytes_year: "ucast (y div 256) = (ucast (drop_bit 8 y AND 0xFF) :: u8)"
  "ucast (y mod 256) = (ucast (y AND 0xFF) :: u8)" for y :: u16
proof -
  have "drop_bit 8 y = y div 256" by (simp add: drop_bit_eq_div)
  then show "ucast (y div 256) = (ucast (drop_bit 8 y AND 0xFF) :: u8)" by (simp add: ucast_and_255)
  have "take_bit 8 y = y mod 256" by (simp add: take_bit_eq_mod)
  moreover have "take_bit 8 y = y AND 0xFF" by (simp add: take_bit_eq_mask mask_eq_exp_minus_1)
  ultimately show "ucast (y mod 256) = (ucast (y AND 0xFF) :: u8)" by simp
qed

lemma length_time_bytes [simp]: "length (time_bytes dt) = 6"
  by (simp add: time_bytes_def)

lemma record_field_of:
  assumes "hr_frame_struct (Flash_Read_Record d r j) = record_now n dt"
  shows "record_field d (record_nat r + 1) j = put_field (time_bytes dt)"
proof -
  have "all_records ! record_nat r = r" "record_nat r + 1 < 8" by (cases r; simp add: all_records_def)+
  then show ?thesis
    using assms by (simp add: record_field_def Flash_GetRecord_def record_now_def time_bytes_def time_bytes_year)
qed

lemma hr_record_reply:
  assumes c2: "unat (fr_c2 fr) = record_nat r + 1" and r: "r \<noteq> kRecordSensoEndOfLife" and c1: "fr_c1 fr \<noteq> 0"
    and rec: "hr_frame_struct (Flash_Read_Record d r (fr_c1 fr)) = record_now n dt"
    and yr: "r = kRecordAlarm \<longrightarrow> 256 \<le> unat (year dt)"
  shows "HR_ProcessData hw fr (d, s) = Some (raw_frame (fr_c1 fr) (fr_c2 fr) (time_bytes dt), d, s)"
proof -
  let ?f = "put_field (time_bytes dt)"
  have f0: "?f ! 0 = ucast (year dt div 256)" by (simp add: put_field_def time_bytes_def time_bytes_year)
  have al: "?f ! 0 \<noteq> 0" if "r = kRecordAlarm"
  proof -
    have d: "unat (year dt div 256) = unat (year dt) div 256" by (simp add: unat_div)
    have "unat (year dt) div 256 < 256" by (simp add: div_less_iff_less_mult)
    then have "unat (ucast (year dt div 256) :: u8) = unat (year dt) div 256"
      by (simp add: unsigned_ucast_eq take_bit_nat_eq_self d)
    moreover have "0 < unat (year dt) div 256" using yr that by (simp add: div_greater_zero_iff)
    ultimately show ?thesis unfolding f0 by (auto simp: unat_0_iff)
  qed
  have rf: "record_field d (record_nat r + 1) (fr_c1 fr) = ?f" by (rule record_field_of [OF rec])
  have "hr_switch hw fr (d, s) = Some (\<lparr>rp_c1 = fr_c1 fr, rp_len = 6, rp_field = ?f\<rparr>, d, s)"
  proof (cases r)
    case kRecordAlarm
    then have "record_field d 1 (fr_c1 fr) = ?f" using rf by simp
    then show ?thesis using kRecordAlarm c2 al
      by (simp add: hr_switch_def frame_c2_def all_c2_def Let_def)
  next
    case kRecordSensoEndOfLife
    then show ?thesis using r by simp
  qed (use rf c2 in \<open>simp_all add: hr_switch_def frame_c2_def all_c2_def Let_def eval_nat_numeral\<close>)
  moreover have "take 6 ?f = time_bytes dt" by (simp add: put_field_def)
  ultimately show ?thesis using HR_ProcessData_send [of hw fr "(d, s)"] c1 by simp
qed

text \<open>C2: From the clock through the flash to the wire: after any number (below 65536) of events of one kind, logged into an
  erased region as the clock goes on, asking for record \<open>j\<close> of that kind is answered with the date and time of the event of
  that number among those the log reports. The kinds are all but the sensor's end of life, and the log has not outgrown
  its capacity or has one of at most 50 records. The events happen at moments when the clock can be read
  (1970-01-02 to 2099-12-31, on no Sunday and not on the last day of a leap year, where \<open>BSP_Get_RTC_Time\<close> reads outside its
  tables), the date the clock caches is the one of its day count, and the flash controller stores what is programmed
  into an erased cell.\<close>

theorem hr_record_query:
  assumes "flash_hw_ok hw" "region_erased r d" "rtc_cache_ok s" "\<forall>c \<in> set cs. clock_readable c" "length cs < 65536"
    and r: "r \<noteq> kRecordSensoEndOfLife" and c2: "unat (fr_c2 fr) = record_nat r + 1"
    and j: "1 \<le> unat (fr_c1 fr)" "unat (fr_c1 fr) \<le> min (length cs) (hr_record_max_num r)"
    and lim: "length cs \<le> hr_record_max_num r \<or> hr_record_max_num r \<le> 50"
    and k: "k = length cs - min (length cs) (hr_record_max_num r) + unat (fr_c1 fr) - 1"
  shows "\<exists>dt d' s'. log_run hw r cs (d, s) = Some (d', s') \<and> dated (cs ! k) dt \<and>
    HR_ProcessData hw fr (d', s') = Some (raw_frame (fr_c1 fr) (fr_c2 fr) (time_bytes dt), d', s')"
proof -
  obtain dts where dts: "clock_run cs s = Some dts" "list_all2 dated cs dts"
    using clock_run_readable [OF assms(3,4)] by blast
  obtain d' s' where run: "log_run hw r cs (d, s) = Some (d', s')" "log_inv r d' (records_from 0 dts)"
    "length dts = length cs" "length (records_from 0 dts) = length cs"
    by (rule log_run_from_erased [OF assms(1,2) dts(1) assms(5)])
  have "hr_frame_struct (Flash_Read_Record d' r (fr_c1 fr)) = records_from 0 dts ! k \<and>
      k < length (records_from 0 dts)"
  proof (rule Flash_Read_Record_number [OF run(2)])
    have "50 \<le> hr_record_max_num r" using r by (cases r) (simp_all add: hr_record_max_num_def)
    then show "k = (if length (records_from 0 dts) \<le> hr_record_max_num r then unat (fr_c1 fr) - 1
        else if r = kRecordSensoEndOfLife then length (records_from 0 dts) - 1
        else length (records_from 0 dts) + unat (fr_c1 fr) - 51)"
      using lim run(4) r j unfolding k by auto
  qed (use assms(5) j lim run(4) in auto)
  then have kn: "k < length cs" and rec: "hr_frame_struct (Flash_Read_Record d' r (fr_c1 fr)) = record_now (of_nat (k + 1)) (dts ! k)"
    using run(3,4) by (simp_all add: records_nth)
  have dated: "dated (cs ! k) (dts ! k)" using dts(2) kn by (simp add: list_all2_conv_all_nth)
  then have "256 \<le> unat (year (dts ! k))" by (auto simp: dated_def date_fields_def valid_date_def)
  moreover have "fr_c1 fr \<noteq> 0" using j(1) by (auto simp: unat_gt_0)
  ultimately show ?thesis using hr_record_reply [OF c2 r _ rec] run(1) dated by blast
qed

theorem hr_record_query_witness:
  "\<exists>dt d' s'. log_run sample_hw kRecordPowerOn (replicate 60 sample_time) (sample_dev, rtc_boot) = Some (d', s') \<and>
    dated sample_time dt \<and>
    HR_ProcessData sample_hw \<lparr>fr_c1 = 50, fr_c2 = 6, fr_len = 0, fr_data = []\<rparr> (d', s') =
      Some (raw_frame 50 6 (time_bytes dt), d', s')"
proof -
  define cs where "cs = replicate 60 sample_time"
  define fr :: TsFrameData where "fr = \<lparr>fr_c1 = 50, fr_c2 = 6, fr_len = 0, fr_data = []\<rparr>"
  have m: "hr_record_max_num kRecordPowerOn = 50" by (simp add: hr_record_max_num_def)
  have l: "length cs = 60" unfolding cs_def by (rule length_replicate)
  have nth: "cs ! 59 = sample_time" unfolding cs_def by (rule nth_replicate) simp
  have "\<exists>dt d' s'. log_run sample_hw kRecordPowerOn cs (sample_dev, rtc_boot) = Some (d', s') \<and> dated (cs ! 59) dt \<and>
    HR_ProcessData sample_hw fr (d', s') = Some (raw_frame (fr_c1 fr) (fr_c2 fr) (time_bytes dt), d', s')"
    by (rule hr_record_query [OF sample_hw_ok sample_dev_erased rtc_boot_cache sample_times_readable [of 60, folded cs_def]])
      (simp_all add: m l fr_def)
  then show ?thesis unfolding nth unfolding cs_def fr_def by simp
qed

subsection \<open>The thread\<close>

lemma lwrb_read_overflow:
  assumes inv: "lwrb_inv b" and d: "length d < min (unat btr) (length (lwrb_content b))"
  shows "lwrb_read b (Some d) btr = None"
proof -
  have v: "BUF_IS_VALID b" using inv by simp
  define full where "full = lwrb_get_full b"
  define k where "k = min full btr"
  define t where "t = min (lw_size b - lw_r b) k"
  have uk: "unat k = min (unat btr) (length (lwrb_content b))"
    by (simp add: k_def full_def unat_min min.commute)
  have go: "btr \<noteq> 0" "full \<noteq> 0" using d by (auto simp: full_def)
  have tk: "t \<le> k" by (simp add: t_def)
  have dk: "length d < unat k" using d uk by simp
  have rest: "unat (k - t) = unat k - unat t" using tk by (rule unat_sub_le)
  have len: "length src = n" if "subarr m off n = Some src" for m off n and src :: "u8 list"
    using that by (auto simp: subarr_def split: if_splits)
  have "do { src \<leftarrow> subarr (the (lw_buff b)) (unat (lw_r b)) (unat t);
             d \<leftarrow> blit d 0 src;
             (d, p) \<leftarrow> (if k - t > 0
                        then do { src \<leftarrow> subarr (the (lw_buff b)) 0 (unat (k - t));
                                  d \<leftarrow> blit d (unat t) src; Some (d, k - t) }
                        else Some (d, lw_r b + t));
             g d p } = None" for g :: "u8 list \<Rightarrow> u32 \<Rightarrow> (u8 \<times> u8 list option \<times> u32 option \<times> lwrb) option"
  proof (cases "subarr (the (lw_buff b)) (unat (lw_r b)) (unat t)")
    case (Some src)
    show ?thesis
    proof (cases "blit d 0 src")
      case b: (Some d1)
      have "unat t \<le> length d" using b len [OF Some] by (auto simp: blit_def split: if_splits)
      then have lt: "unat t < unat k" using dk by simp
      then have pos: "k - t > 0" using rest by (simp add: word_less_nat_alt)
      have none: "blit d1 (unat t) src2 = None" if "subarr (the (lw_buff b)) 0 (unat (k - t)) = Some src2" for src2
        using len [OF that] blit_length [OF b] rest lt dk by (simp add: blit_def)
      show ?thesis
        by (cases "subarr (the (lw_buff b)) 0 (unat (k - t))") (simp_all add: Some b pos none)
    qed (simp add: Some)
  qed simp
  then have "lwrb_read_ex b (Some d) btr (Some 0) 0 = None"
    unfolding lwrb_read_ex_def Let_def full_def [symmetric] k_def [symmetric] t_def [symmetric]
    using v go by simp
  then show ?thesis by (simp add: lwrb_read_def)
qed

text \<open>The thread gives \<open>lwrb_read\<close> the number of bytes that wait, not the size of its own array: with more
  than 32 (and fewer than 256) bytes waiting, the read runs over the end of the array on its stack.\<close>

theorem hr_thread_overflow:
  assumes "lwrb_inv (UART2_RxCheck (hr_rb t))" "length (hr_buf t) = 32"
    and "32 < length (lwrb_content (UART2_RxCheck (hr_rb t)))"
    and "length (lwrb_content (UART2_RxCheck (hr_rb t))) < 256"
  shows "hr_thread_step hw UART2_RxCheck mem_ok t = None"
proof -
  let ?rb = "UART2_RxCheck (hr_rb t)"
  define n where "n = (ucast (lwrb_get_full ?rb) :: u8)"
  have u: "unat n = length (lwrb_content ?rb)"
    using assms(4) by (simp add: n_def unsigned_ucast_eq take_bit_nat_eq_self)
  then have "unat (ucast n :: u32) = length (lwrb_content ?rb)" by (simp add: unat_ucast_up)
  then have "lwrb_read ?rb (Some (hr_buf t)) (ucast n) = None"
    using assms(2,3) by (intro lwrb_read_overflow [OF assms(1)]) simp
  then show ?thesis by (simp add: hr_thread_step_def n_def [symmetric] Let_def)
qed

theorem hr_thread_overflow_witness:
  "hr_thread_step sample_hw (\<lambda>rb. rb) True
    \<lparr>hr_rb = \<lparr>lw_buff = Some (replicate 64 0), lw_size = 64, lw_r = 0, lw_w = 33, lw_evt_fn = False, lw_arg = 0,
              lw_evts = []\<rparr>,
     hr_buf = replicate 32 0, hr_flash = sample_dev, hr_rtc = rtc_boot\<rparr> = None"
  by (rule hr_thread_overflow)
    (simp_all add: lwrb_inv_def lwrb_get_full_def BUF_IS_VALID_def)

text \<open>When what waits is one frame of at most 26 data bytes, one round of the thread handles exactly that
  frame: the answer and the new state are those of \<open>HR_ProcessData\<close>, and the ring buffer is empty.\<close>

theorem hr_thread_answers:
  assumes inv: "lwrb_inv (UART2_RxCheck (hr_rb t))" and buf: "length (hr_buf t) = 32"
    and content: "lwrb_content (UART2_RxCheck (hr_rb t)) = raw_frame c1 c2 data" "length data \<le> 26"
  shows "\<exists>rb' buf'. lwrb_inv rb' \<and> lwrb_content rb' = [] \<and>
    hr_thread_step hw UART2_RxCheck True t =
      map_option (\<lambda>(out, d, s). (out, \<lparr>hr_rb = rb', hr_buf = buf', hr_flash = d, hr_rtc = s\<rparr>))
        (HR_ProcessData hw \<lparr>fr_c1 = c1, fr_c2 = c2, fr_len = of_nat (length data), fr_data = data\<rparr>
          (hr_flash t, hr_rtc t))"
proof -
  let ?rb = "UART2_RxCheck (hr_rb t)" and ?f = "raw_frame c1 c2 data"
  define n where "n = (ucast (lwrb_get_full ?rb) :: u8)"
  have full: "unat (lwrb_get_full ?rb) = length data + 6" using content by (simp flip: length_lwrb_content)
  have u: "unat n = length data + 6"
    using full content(2) by (simp add: n_def unsigned_ucast_eq take_bit_nat_eq_self)
  have u32: "unat (ucast n :: u32) = length data + 6" using u by (simp add: unat_ucast_up)
  obtain buf' rb' where rd: "lwrb_read ?rb (Some (hr_buf t)) (ucast n) =
      Some (of_nat (min (unat (ucast n :: u32)) (length (lwrb_content ?rb))), Some buf', rb')"
    "buf' = take (unat (ucast n :: u32)) (lwrb_content ?rb) @
      drop (min (unat (ucast n :: u32)) (length (lwrb_content ?rb))) (hr_buf t)"
    "lwrb_inv rb'" "lwrb_content rb' = drop (unat (ucast n :: u32)) (lwrb_content ?rb)"
    using lwrb_read_law [OF inv, of "ucast n" "hr_buf t"] u32 content buf by auto
  have buf': "buf' = [] @ ?f @ drop (length data + 6) (hr_buf t)"
    using rd(2) u32 content by simp
  have empty: "lwrb_content rb' = []" using rd(4) u32 content by simp
  have get: "HR_GetFrameData True buf' n =
      Some (Some \<lparr>fr_c1 = c1, fr_c2 = c2, fr_len = of_nat (length data), fr_data = data\<rparr>)"
    unfolding buf' using u content(2) by (intro HR_GetFrameData_after_noise) simp_all
  have upd: "t\<lparr>hr_rb := a, hr_buf := b, hr_flash := d, hr_rtc := s\<rparr> =
      \<lparr>hr_rb = a, hr_buf = b, hr_flash = d, hr_rtc = s\<rparr>" for a b d s by (cases t) simp
  have min: "HOST_FRAME_MIN_LEN \<le> n" using u by (simp add: HOST_FRAME_MIN_LEN_def word_le_nat_alt)
  show ?thesis
  proof (intro exI conjI)
    show "hr_thread_step hw UART2_RxCheck True t =
      map_option (\<lambda>(out, d, s). (out, \<lparr>hr_rb = rb', hr_buf = buf', hr_flash = d, hr_rtc = s\<rparr>))
        (HR_ProcessData hw \<lparr>fr_c1 = c1, fr_c2 = c2, fr_len = of_nat (length data), fr_data = data\<rparr>
          (hr_flash t, hr_rtc t))"
      by (cases "HR_ProcessData hw \<lparr>fr_c1 = c1, fr_c2 = c2, fr_len = of_nat (length data), fr_data = data\<rparr>
          (hr_flash t, hr_rtc t)")
        (auto simp: hr_thread_step_def n_def [symmetric] Let_def rd(1) get min upd)
  qed (use rd(3) empty in simp_all)
qed

theorem hr_thread_answers_witness:
  "\<exists>rb' buf'. lwrb_inv rb' \<and> lwrb_content rb' = [] \<and>
    hr_thread_step sample_hw (\<lambda>rb. rb) True
      \<lparr>hr_rb = \<lparr>lw_buff = Some [0xAA, 0, 0x0F, 0, 0xB9, 0x55, 0, 0], lw_size = 8, lw_r = 0, lw_w = 6,
                lw_evt_fn = False, lw_arg = 0, lw_evts = []\<rparr>,
       hr_buf = replicate 32 0, hr_flash = sample_dev, hr_rtc = rtc_boot\<rparr> =
      map_option (\<lambda>(out, d, s). (out, \<lparr>hr_rb = rb', hr_buf = buf', hr_flash = d, hr_rtc = s\<rparr>))
        (HR_ProcessData sample_hw \<lparr>fr_c1 = 0, fr_c2 = 0x0F, fr_len = 0, fr_data = []\<rparr> (sample_dev, rtc_boot))"
proof -
  define t where "t = \<lparr>hr_rb = \<lparr>lw_buff = Some [0xAA, 0, 0x0F, 0, 0xB9, 0x55, 0, 0], lw_size = 8, lw_r = 0, lw_w = 6,
                lw_evt_fn = False, lw_arg = 0, lw_evts = []\<rparr>,
       hr_buf = replicate 32 0, hr_flash = sample_dev, hr_rtc = rtc_boot\<rparr>"
  have f: "raw_frame 0 0x0F [] = [0xAA, 0, 0x0F, 0, 0xB9, 0x55]"
    by (simp add: raw_frame_def FRAME_HEADER_def FRAME_TAIL_def Let_def)
  have c: "lwrb_content (hr_rb t) = raw_frame 0 0x0F []"
    unfolding f by (simp add: t_def lwrb_content_def lwrb_get_full_def BUF_IS_VALID_def circ_def upt_rec)
  have inv: "lwrb_inv (hr_rb t)" by (simp add: t_def lwrb_inv_def BUF_IS_VALID_def)
  have "length (hr_buf t) = 32" by (simp add: t_def)
  from hr_thread_answers [of "\<lambda>rb. rb" t, OF inv this c, of sample_hw]
  show ?thesis by (simp add: t_def)
qed

end
