(* ===== verification/Flex_Button.thy ===== *)
theory Flex_Button
  imports Prelude
begin

text \<open>
  The button library (\<open>common/FlexibleButton/flexible_button.c\<close>, \<open>flexible_button.h\<close>) and its
  use by the board (\<open>bsp/src/bsp_button.c\<close>). A button is addressed by a number, its structure found in
  \<open>btn_mem\<close>; the linked list is \<open>btn_list\<close>, head first, so that a structure's \<open>next\<close> is its
  successor there. The user's read function is the parameter \<open>pin\<close>, by address; a null one is
  \<open>usr_button_read = False\<close>. Callbacks are recorded in \<open>btn_trace\<close>, with the address and the
  event the structure holds when the callback runs.
\<close>

subsection \<open>State\<close>

datatype flex_button_event_t = FLEX_BTN_PRESS_DOWN | FLEX_BTN_PRESS_CLICK | FLEX_BTN_PRESS_DOUBLE_CLICK
  | FLEX_BTN_PRESS_REPEAT_CLICK | FLEX_BTN_PRESS_SHORT_START | FLEX_BTN_PRESS_SHORT_UP
  | FLEX_BTN_PRESS_LONG_START | FLEX_BTN_PRESS_LONG_UP | FLEX_BTN_PRESS_LONG_HOLD
  | FLEX_BTN_PRESS_LONG_HOLD_UP | FLEX_BTN_PRESS_MAX | FLEX_BTN_PRESS_NONE

datatype FLEX_BTN_STAGE = FLEX_BTN_STAGE_DEFAULT | FLEX_BTN_STAGE_DOWN | FLEX_BTN_STAGE_MULTIPLE_CLICK

record flex_button =
  usr_button_read :: bool
  btn_cb :: bool
  scan_cnt :: u16
  click_cnt :: u16
  max_multiple_clicks_interval :: u16
  debounce_tick :: u16
  short_press_start_tick :: u16
  long_press_start_tick :: u16
  long_hold_start_tick :: u16
  btn_id :: u8
  pressed_logic_level :: bool
  btn_event :: flex_button_event_t
  btn_status :: FLEX_BTN_STAGE

record flex_state =
  btn_list :: "nat list"
  btn_mem :: "nat \<Rightarrow> flex_button"
  g_logic_level :: u32
  g_btn_status_reg :: u32
  button_cnt :: u8
  btn_trace :: "(nat \<times> flex_button_event_t) list"

definition FLEX_MS_TO_SCAN_CNT :: "u16 \<Rightarrow> u16" where
  "FLEX_MS_TO_SCAN_CNT ms = ms div (1000 div 50)"

definition MAX_MULTIPLE_CLICKS_INTERVAL :: u16 where
  "MAX_MULTIPLE_CLICKS_INTERVAL = FLEX_MS_TO_SCAN_CNT 300"

subsection \<open>Registration\<close>

text \<open>
  The button, or a null pointer. \<open>pressed_logic_level << button_cnt\<close> shifts an \<open>int\<close>: from 32 on
  it has no defined value.
\<close>

definition flex_button_register :: "flex_state \<Rightarrow> nat option \<Rightarrow> (int \<times> flex_state) option" where
  "flex_button_register s button =
     (case button of
        None \<Rightarrow> Some (-1, s)
      | Some p \<Rightarrow>
          if button_cnt s > 4 * 8 then Some (-1, s)
          else if p \<in> set (btn_list s) then Some (-1, s)
          else
            let b = (btn_mem s p)\<lparr>btn_status := FLEX_BTN_STAGE_DEFAULT, btn_event := FLEX_BTN_PRESS_NONE,
                       scan_cnt := 0, click_cnt := 0,
                       max_multiple_clicks_interval := MAX_MULTIPLE_CLICKS_INTERVAL\<rparr>;
                s = s\<lparr>btn_mem := (btn_mem s)(p := b), btn_list := p # btn_list s\<rparr>
            in if unat (button_cnt s) \<ge> 32 then None
               else let s = s\<lparr>g_logic_level := g_logic_level s OR
                              push_bit (unat (button_cnt s)) (if pressed_logic_level b then 1 else 0),
                            button_cnt := button_cnt s + 1\<rparr>
                    in Some (int (unat (button_cnt s)), s))"

subsection \<open>Scanning\<close>

fun flex_read_loop :: "(nat \<Rightarrow> u8) \<Rightarrow> (nat \<Rightarrow> flex_button) \<Rightarrow> nat list \<Rightarrow> u8 \<Rightarrow> u32 \<Rightarrow> u32 option" where
  "flex_read_loop pin m [] i raw_data = Some raw_data"
| "flex_read_loop pin m (target # rest) i raw_data =
     (if \<not> usr_button_read (m target) then Some raw_data
      else if unat i \<ge> 32 then None
      else flex_read_loop pin m rest (i - 1) (raw_data OR push_bit (unat i) (ucast (pin target))))"

definition flex_button_read :: "(nat \<Rightarrow> u8) \<Rightarrow> flex_state \<Rightarrow> flex_state option" where
  "flex_button_read pin s =
     do { raw_data \<leftarrow> flex_read_loop pin (btn_mem s) (btn_list s) (button_cnt s - 1) 0;
          Some (s\<lparr>g_btn_status_reg := NOT raw_data XOR g_logic_level s\<rparr>) }"

text \<open>\<open>BTN_IS_PRESSED(i)\<close>\<close>

definition BTN_IS_PRESSED :: "u32 \<Rightarrow> u8 \<Rightarrow> bool option" where
  "BTN_IS_PRESSED reg i =
     (if unat i \<ge> 32 then None else Some (reg AND push_bit (unat i) 1 \<noteq> 0))"

definition EVENT_SET_AND_EXEC_CB ::
  "flex_button \<Rightarrow> flex_button_event_t \<Rightarrow> flex_button \<times> flex_button_event_t list" where
  "EVENT_SET_AND_EXEC_CB b evt = (b\<lparr>btn_event := evt\<rparr>, if btn_cb b then [evt] else [])"

text \<open>\<open>click_cnt < FLEX_BTN_PRESS_REPEAT_CLICK ? click_cnt : FLEX_BTN_PRESS_REPEAT_CLICK\<close>\<close>

definition click_event :: "u16 \<Rightarrow> flex_button_event_t" where
  "click_event n =
     (if unat n < 3
      then [FLEX_BTN_PRESS_DOWN, FLEX_BTN_PRESS_CLICK, FLEX_BTN_PRESS_DOUBLE_CLICK] ! unat n
      else FLEX_BTN_PRESS_REPEAT_CLICK)"

text \<open>The counter at the head of the loop body, then its \<open>switch\<close>.\<close>

definition btn_count :: "flex_button \<Rightarrow> flex_button" where
  "btn_count b =
     (if btn_status b \<noteq> FLEX_BTN_STAGE_DEFAULT
      then let b = b\<lparr>scan_cnt := scan_cnt b + 1\<rparr>
           in if unat (scan_cnt b) \<ge> 2 ^ 16 - 1 then b\<lparr>scan_cnt := long_hold_start_tick b\<rparr> else b
      else b)"

definition btn_held :: "flex_button \<Rightarrow> flex_button \<times> flex_button_event_t list" where
  "btn_held b =
     (if click_cnt b > 0
      then if scan_cnt b > max_multiple_clicks_interval b
           then let (b, t) = EVENT_SET_AND_EXEC_CB b (click_event (click_cnt b))
                in (b\<lparr>btn_status := FLEX_BTN_STAGE_DOWN, scan_cnt := 0, click_cnt := 0\<rparr>, t)
           else (b, [])
      else if scan_cnt b \<ge> long_hold_start_tick b
      then if btn_event b \<noteq> FLEX_BTN_PRESS_LONG_HOLD
           then EVENT_SET_AND_EXEC_CB b FLEX_BTN_PRESS_LONG_HOLD else (b, [])
      else if scan_cnt b \<ge> long_press_start_tick b
      then if btn_event b \<noteq> FLEX_BTN_PRESS_LONG_START
           then EVENT_SET_AND_EXEC_CB b FLEX_BTN_PRESS_LONG_START else (b, [])
      else if scan_cnt b \<ge> short_press_start_tick b
      then if btn_event b \<noteq> FLEX_BTN_PRESS_SHORT_START
           then EVENT_SET_AND_EXEC_CB b FLEX_BTN_PRESS_SHORT_START else (b, [])
      else (b, []))"

definition btn_released :: "flex_button \<Rightarrow> flex_button \<times> flex_button_event_t list" where
  "btn_released b =
     (let up = (\<lambda>e. let (b, t) = EVENT_SET_AND_EXEC_CB b e
                    in (b\<lparr>btn_status := FLEX_BTN_STAGE_DEFAULT\<rparr>, t))
      in if scan_cnt b \<ge> long_hold_start_tick b then up FLEX_BTN_PRESS_LONG_HOLD_UP
         else if scan_cnt b \<ge> long_press_start_tick b then up FLEX_BTN_PRESS_LONG_UP
         else if scan_cnt b \<ge> short_press_start_tick b then up FLEX_BTN_PRESS_SHORT_UP
         else (b\<lparr>btn_status := FLEX_BTN_STAGE_MULTIPLE_CLICK, click_cnt := click_cnt b + 1\<rparr>, []))"

definition btn_step :: "bool \<Rightarrow> flex_button \<Rightarrow> flex_button \<times> flex_button_event_t list" where
  "btn_step pressed b =
     (let b = btn_count b
      in case btn_status b of
           FLEX_BTN_STAGE_DEFAULT \<Rightarrow>
             if pressed
             then let (b, t) = EVENT_SET_AND_EXEC_CB (b\<lparr>scan_cnt := 0, click_cnt := 0\<rparr>) FLEX_BTN_PRESS_DOWN
                  in (b\<lparr>btn_status := FLEX_BTN_STAGE_DOWN\<rparr>, t)
             else (b\<lparr>btn_event := FLEX_BTN_PRESS_NONE\<rparr>, [])
         | FLEX_BTN_STAGE_DOWN \<Rightarrow> if pressed then btn_held b else btn_released b
         | FLEX_BTN_STAGE_MULTIPLE_CLICK \<Rightarrow>
             if pressed then (b\<lparr>btn_status := FLEX_BTN_STAGE_DOWN, scan_cnt := 0\<rparr>, [])
             else if scan_cnt b > max_multiple_clicks_interval b
             then let (b, t) = EVENT_SET_AND_EXEC_CB b (click_event (click_cnt b))
                  in (b\<lparr>btn_status := FLEX_BTN_STAGE_DEFAULT\<rparr>, t)
             else (b, []))"

fun flex_process_loop :: "nat list \<Rightarrow> u8 \<Rightarrow> u8 \<Rightarrow> flex_state \<Rightarrow> (u8 \<times> flex_state) option" where
  "flex_process_loop [] i active s = Some (active, s)"
| "flex_process_loop (target # rest) i active s =
     do { pressed \<leftarrow> BTN_IS_PRESSED (g_btn_status_reg s) i;
          let (b, t) = btn_step pressed (btn_mem s target);
          flex_process_loop rest (i - 1)
            (if btn_status b \<noteq> FLEX_BTN_STAGE_DEFAULT then active + 1 else active)
            (s\<lparr>btn_mem := (btn_mem s)(target := b), btn_trace := btn_trace s @ map (Pair target) t\<rparr>) }"

definition flex_button_process :: "flex_state \<Rightarrow> (u8 \<times> flex_state) option" where
  "flex_button_process s = flex_process_loop (btn_list s) (button_cnt s - 1) 0 s"

definition flex_button_event_read :: "flex_state \<Rightarrow> nat \<Rightarrow> flex_button_event_t" where
  "flex_button_event_read s button = btn_event (btn_mem s button)"

definition flex_button_scan :: "(nat \<Rightarrow> u8) \<Rightarrow> flex_state \<Rightarrow> (u8 \<times> flex_state) option" where
  "flex_button_scan pin s = do { s \<leftarrow> flex_button_read pin s; flex_button_process s }"

subsection \<open>The board's button\<close>

text \<open>
  \<open>BSP_Button_Init\<close>: one button, at address 0, read from the pin PB12 (the parameter \<open>pin_b12\<close>, with
  any other id a failed assertion), pressed at level 0.
\<close>

definition common_btn_read :: "u8 \<Rightarrow> flex_button \<Rightarrow> u8 option" where
  "common_btn_read pin_b12 btn = (if btn_id btn = 0 then Some pin_b12 else None)"

definition zero_button :: flex_button where
  "zero_button = \<lparr>usr_button_read = False, btn_cb = False, scan_cnt = 0, click_cnt = 0,
     max_multiple_clicks_interval = 0, debounce_tick = 0, short_press_start_tick = 0,
     long_press_start_tick = 0, long_hold_start_tick = 0, btn_id = 0, pressed_logic_level = False,
     btn_event = FLEX_BTN_PRESS_DOWN, btn_status = FLEX_BTN_STAGE_DEFAULT\<rparr>"

definition BSP_Button_Init :: "flex_state \<Rightarrow> flex_state option" where
  "BSP_Button_Init s =
     (let b = zero_button\<lparr>btn_id := 0, usr_button_read := True, btn_cb := True, pressed_logic_level := False,
                short_press_start_tick := FLEX_MS_TO_SCAN_CNT 1500,
                long_press_start_tick := FLEX_MS_TO_SCAN_CNT 3000,
                long_hold_start_tick := FLEX_MS_TO_SCAN_CNT 4500\<rparr>
      in map_option snd (flex_button_register (s\<lparr>btn_mem := (btn_mem s)(0 := b)\<rparr>) (Some 0)))"

subsection \<open>One button over a run of scans\<close>

fun btn_run :: "bool list \<Rightarrow> flex_button \<Rightarrow> flex_button \<times> flex_button_event_t list" where
  "btn_run [] b = (b, [])"
| "btn_run (p # ps) b =
     (let (b, t) = btn_step p b; (b, t') = btn_run ps b in (b, t @ t'))"

lemma btn_run_append:
  "btn_run (ps @ qs) b = (let (b, t) = btn_run ps b; (b, t') = btn_run qs b in (b, t @ t'))"
  by (induction ps arbitrary: b) (auto simp: split_beta Let_def)

lemma btn_run_one: "btn_run [p] b = btn_step p b"
  by (simp add: split_beta)

text \<open>The four thresholds in order, none at the counter's limit.\<close>

definition btn_ticks_ok :: "flex_button \<Rightarrow> bool" where
  "btn_ticks_ok b \<longleftrightarrow> btn_cb b \<and> 0 < unat (short_press_start_tick b) \<and>
     short_press_start_tick b < long_press_start_tick b \<and> long_press_start_tick b < long_hold_start_tick b \<and>
     unat (long_hold_start_tick b) < 65535 \<and> unat (max_multiple_clicks_interval b) < 65534"

text \<open>A button in the middle of a gesture: only these four fields differ from the registered one.\<close>

definition btn_at :: "flex_button \<Rightarrow> FLEX_BTN_STAGE \<Rightarrow> nat \<Rightarrow> nat \<Rightarrow> flex_button_event_t \<Rightarrow> flex_button" where
  "btn_at b st c k e = b\<lparr>scan_cnt := of_nat c, click_cnt := of_nat k, btn_event := e, btn_status := st\<rparr>"

lemma btn_at_sel [simp]:
  "btn_status (btn_at b st c k e) = st" "scan_cnt (btn_at b st c k e) = of_nat c"
  "click_cnt (btn_at b st c k e) = of_nat k" "btn_event (btn_at b st c k e) = e"
  "btn_cb (btn_at b st c k e) = btn_cb b"
  "short_press_start_tick (btn_at b st c k e) = short_press_start_tick b"
  "long_press_start_tick (btn_at b st c k e) = long_press_start_tick b"
  "long_hold_start_tick (btn_at b st c k e) = long_hold_start_tick b"
  "max_multiple_clicks_interval (btn_at b st c k e) = max_multiple_clicks_interval b"
  by (simp_all add: btn_at_def)

lemma u16_cmp:
  fixes x :: u16
  assumes "c < 65536"
  shows "of_nat c \<ge> x \<longleftrightarrow> unat x \<le> c" "of_nat c > x \<longleftrightarrow> unat x < c"
  using assms by (simp_all add: word_le_nat_alt word_less_nat_alt unat_of_nat_lt)

lemma u16_pos: "c < 65536 \<Longrightarrow> (0 :: u16) < of_nat c \<longleftrightarrow> 0 < c"
  by (simp add: word_less_nat_alt unat_of_nat_lt)

text \<open>The counter advances by one, and from its limit goes back to the hold threshold.\<close>

definition next_cnt :: "flex_button \<Rightarrow> nat \<Rightarrow> nat" where
  "next_cnt b c = (if c + 1 = 65535 then unat (long_hold_start_tick b) else c + 1)"

lemma next_cnt_lt: "c < 65535 \<Longrightarrow> btn_ticks_ok b \<Longrightarrow> next_cnt b c < 65535"
  by (auto simp: next_cnt_def btn_ticks_ok_def)

lemma btn_count_at:
  assumes "c < 65535" "st \<noteq> FLEX_BTN_STAGE_DEFAULT"
  shows "btn_count (btn_at b st c k e) = btn_at b st (next_cnt b c) k e"
proof -
  have u: "unat (of_nat c + 1 :: u16) = c + 1"
    using assms(1) by (subst unat_add_lt) (simp_all add: unat_of_nat_lt)
  have s: "(of_nat c + 1 :: u16) = of_nat (c + 1)" by simp
  have w: "of_nat (unat x) = x" for x :: u16 by (rule word_of_nat_unat)
  show ?thesis
    using assms u by (simp add: btn_count_def Let_def next_cnt_def) (simp add: btn_at_def w)
qed

lemma btn_step_press_default:
  assumes "btn_cb b" "btn_status b = FLEX_BTN_STAGE_DEFAULT"
  shows "btn_step True b = (btn_at b FLEX_BTN_STAGE_DOWN 0 0 FLEX_BTN_PRESS_DOWN, [FLEX_BTN_PRESS_DOWN])"
  using assms by (simp add: btn_step_def btn_count_def EVENT_SET_AND_EXEC_CB_def btn_at_def Let_def)

lemma btn_step_down_held:
  assumes "c < 65535" "btn_ticks_ok b"
  shows "btn_step True (btn_at b FLEX_BTN_STAGE_DOWN c k e) =
    btn_held (btn_at b FLEX_BTN_STAGE_DOWN (next_cnt b c) k e)"
  using assms by (simp add: btn_step_def btn_count_at Let_def)

lemma btn_step_down_released:
  assumes "c < 65535" "btn_ticks_ok b"
  shows "btn_step False (btn_at b FLEX_BTN_STAGE_DOWN c k e) =
    btn_released (btn_at b FLEX_BTN_STAGE_DOWN (next_cnt b c) k e)"
  using assms by (simp add: btn_step_def btn_count_at Let_def)

text \<open>The event that stands after a hold of \<open>n\<close> scans beyond the first, and those reported on the way.\<close>

definition hold_event :: "flex_button \<Rightarrow> nat \<Rightarrow> flex_button_event_t" where
  "hold_event b n =
     (if unat (long_hold_start_tick b) \<le> n then FLEX_BTN_PRESS_LONG_HOLD
      else if unat (long_press_start_tick b) \<le> n then FLEX_BTN_PRESS_LONG_START
      else if unat (short_press_start_tick b) \<le> n then FLEX_BTN_PRESS_SHORT_START
      else FLEX_BTN_PRESS_DOWN)"

definition hold_starts :: "flex_button \<Rightarrow> nat \<Rightarrow> flex_button_event_t list" where
  "hold_starts b n =
     (if unat (short_press_start_tick b) \<le> n then [FLEX_BTN_PRESS_SHORT_START] else []) @
     (if unat (long_press_start_tick b) \<le> n then [FLEX_BTN_PRESS_LONG_START] else []) @
     (if unat (long_hold_start_tick b) \<le> n then [FLEX_BTN_PRESS_LONG_HOLD] else [])"

definition hold_up :: "flex_button \<Rightarrow> nat \<Rightarrow> flex_button_event_t list" where
  "hold_up b n =
     (if unat (long_hold_start_tick b) \<le> n then [FLEX_BTN_PRESS_LONG_HOLD_UP]
      else if unat (long_press_start_tick b) \<le> n then [FLEX_BTN_PRESS_LONG_UP]
      else if unat (short_press_start_tick b) \<le> n then [FLEX_BTN_PRESS_SHORT_UP]
      else [])"

text \<open>The counter after \<open>n\<close> scans: \<open>n\<close> itself, until it has wrapped to somewhere above the hold threshold.\<close>

fun hold_cnt :: "flex_button \<Rightarrow> nat \<Rightarrow> nat" where
  "hold_cnt b 0 = 0"
| "hold_cnt b (Suc n) = next_cnt b (hold_cnt b n)"

lemma hold_cnt_cases:
  assumes "btn_ticks_ok b"
  shows "hold_cnt b n < 65535 \<and>
    (hold_cnt b n = n \<or> unat (long_hold_start_tick b) \<le> n \<and> unat (long_hold_start_tick b) \<le> hold_cnt b n)"
proof (induction n)
  case (Suc n)
  have h: "unat (long_hold_start_tick b) < 65535" using assms by (simp add: btn_ticks_ok_def)
  show ?case using Suc h by (auto simp: next_cnt_def)
qed simp

lemma hold_cnt_cmp:
  assumes ok: "btn_ticks_ok b" and t: "t \<in> {unat (short_press_start_tick b), unat (long_press_start_tick b), unat (long_hold_start_tick b)}"
  shows "t \<le> hold_cnt b n \<longleftrightarrow> t \<le> n"
proof -
  have "t \<le> unat (long_hold_start_tick b)"
    using ok t by (auto simp: btn_ticks_ok_def word_less_nat_alt)
  then show ?thesis using hold_cnt_cases [OF ok, of n] by auto
qed

lemma hold_event_Suc:
  assumes ok: "btn_ticks_ok b"
  shows "btn_held (btn_at b FLEX_BTN_STAGE_DOWN (hold_cnt b (Suc n)) 0 (hold_event b n)) =
    (btn_at b FLEX_BTN_STAGE_DOWN (hold_cnt b (Suc n)) 0 (hold_event b (Suc n)),
     drop (length (hold_starts b n)) (hold_starts b (Suc n)))"
proof -
  let ?c = "hold_cnt b (Suc n)"
  have c: "?c < 65536" using hold_cnt_cases [OF ok, of "Suc n"] by linarith
  have cmp: "unat (short_press_start_tick b) \<le> ?c \<longleftrightarrow> unat (short_press_start_tick b) \<le> Suc n"
    "unat (long_press_start_tick b) \<le> ?c \<longleftrightarrow> unat (long_press_start_tick b) \<le> Suc n"
    "unat (long_hold_start_tick b) \<le> ?c \<longleftrightarrow> unat (long_hold_start_tick b) \<le> Suc n"
    by (simp_all only: hold_cnt_cmp [OF ok] insert_iff simp_thms)
  have ord: "unat (short_press_start_tick b) < unat (long_press_start_tick b)"
    "unat (long_press_start_tick b) < unat (long_hold_start_tick b)"
    using ok by (auto simp: btn_ticks_ok_def word_less_nat_alt)
  have upd: "(btn_at b FLEX_BTN_STAGE_DOWN c k e)\<lparr>btn_event := e'\<rparr> = btn_at b FLEX_BTN_STAGE_DOWN c k e'" for c k e e'
    by (simp add: btn_at_def)
  have cb: "btn_cb b" using ok by (simp add: btn_ticks_ok_def)
  have H: "btn_held (btn_at b FLEX_BTN_STAGE_DOWN ?c 0 e) =
     (if unat (long_hold_start_tick b) \<le> Suc n
      then (btn_at b FLEX_BTN_STAGE_DOWN ?c 0 FLEX_BTN_PRESS_LONG_HOLD,
            if e \<noteq> FLEX_BTN_PRESS_LONG_HOLD then [FLEX_BTN_PRESS_LONG_HOLD] else [])
      else if unat (long_press_start_tick b) \<le> Suc n
      then (btn_at b FLEX_BTN_STAGE_DOWN ?c 0 FLEX_BTN_PRESS_LONG_START,
            if e \<noteq> FLEX_BTN_PRESS_LONG_START then [FLEX_BTN_PRESS_LONG_START] else [])
      else if unat (short_press_start_tick b) \<le> Suc n
      then (btn_at b FLEX_BTN_STAGE_DOWN ?c 0 FLEX_BTN_PRESS_SHORT_START,
            if e \<noteq> FLEX_BTN_PRESS_SHORT_START then [FLEX_BTN_PRESS_SHORT_START] else [])
      else (btn_at b FLEX_BTN_STAGE_DOWN ?c 0 e, []))" for e
    using cb by (simp add: btn_held_def u16_cmp [OF c] cmp EVENT_SET_AND_EXEC_CB_def upd del: hold_cnt.simps)
  show ?thesis
    unfolding H using ord by (simp add: hold_event_def hold_starts_def)
qed

lemma hold_starts_Suc:
  "btn_ticks_ok b \<Longrightarrow>
    hold_starts b n @ drop (length (hold_starts b n)) (hold_starts b (Suc n)) = hold_starts b (Suc n)"
  by (auto simp: hold_starts_def btn_ticks_ok_def word_less_nat_alt)

lemma btn_run_hold:
  assumes ok: "btn_ticks_ok b"
  shows "btn_run (replicate n True) (btn_at b FLEX_BTN_STAGE_DOWN 0 0 FLEX_BTN_PRESS_DOWN) =
    (btn_at b FLEX_BTN_STAGE_DOWN (hold_cnt b n) 0 (hold_event b n), hold_starts b n)"
proof (induction n)
  case 0
  have "0 < unat (short_press_start_tick b)" "0 < unat (long_press_start_tick b)" "0 < unat (long_hold_start_tick b)"
    using ok by (auto simp: btn_ticks_ok_def word_less_nat_alt)
  then show ?case by (simp add: hold_event_def hold_starts_def)
next
  case (Suc n)
  have c: "hold_cnt b n < 65535" using hold_cnt_cases [OF ok] by blast
  have st: "btn_step True (btn_at b FLEX_BTN_STAGE_DOWN (hold_cnt b n) 0 (hold_event b n)) =
      btn_held (btn_at b FLEX_BTN_STAGE_DOWN (hold_cnt b (Suc n)) 0 (hold_event b n))"
    using btn_step_down_held [OF c ok] by simp
  have r: "replicate (Suc n) True = replicate n True @ [True]" by (simp add: replicate_append_same)
  show ?case
    unfolding r btn_run_append Suc.IH btn_run_one Let_def prod.case st hold_event_Suc [OF ok]
    by (simp only: prod.case hold_starts_Suc [OF ok])
qed

lemma btn_step_release_hold:
  assumes ok: "btn_ticks_ok b"
  shows "snd (btn_step False (btn_at b FLEX_BTN_STAGE_DOWN (hold_cnt b n) 0 e)) = hold_up b (Suc n)"
proof -
  have c: "hold_cnt b n < 65535" using hold_cnt_cases [OF ok] by blast
  have c': "hold_cnt b (Suc n) < 65536" using hold_cnt_cases [OF ok, of "Suc n"] by linarith
  have cmp: "unat (short_press_start_tick b) \<le> hold_cnt b (Suc n) \<longleftrightarrow> unat (short_press_start_tick b) \<le> Suc n"
    "unat (long_press_start_tick b) \<le> hold_cnt b (Suc n) \<longleftrightarrow> unat (long_press_start_tick b) \<le> Suc n"
    "unat (long_hold_start_tick b) \<le> hold_cnt b (Suc n) \<longleftrightarrow> unat (long_hold_start_tick b) \<le> Suc n"
    by (simp_all only: hold_cnt_cmp [OF ok] insert_iff simp_thms)
  have st: "btn_step False (btn_at b FLEX_BTN_STAGE_DOWN (hold_cnt b n) 0 e) =
      btn_released (btn_at b FLEX_BTN_STAGE_DOWN (hold_cnt b (Suc n)) 0 e)"
    using btn_step_down_released [OF c ok] by simp
  have "btn_cb b" using ok by (simp add: btn_ticks_ok_def)
  then show ?thesis
    unfolding st btn_released_def Let_def btn_at_sel u16_cmp [OF c'] cmp
    by (simp add: hold_up_def EVENT_SET_AND_EXEC_CB_def split_beta)
qed

text \<open>Holding a button, for however long, reports the press, then the start of the short press, of the long
  press and of the long hold, each once and at its tick, whatever the 16-bit counter does meanwhile;
  letting go reports the one end that fits the number of scans.\<close>

theorem btn_hold_events:
  assumes ok: "btn_ticks_ok b" and st: "btn_status b = FLEX_BTN_STAGE_DEFAULT"
  shows "snd (btn_run (replicate (Suc n) True @ [False]) b) =
    FLEX_BTN_PRESS_DOWN # hold_starts b n @ hold_up b (Suc n)"
proof -
  have cb: "btn_cb b" using ok by (simp add: btn_ticks_ok_def)
  have "btn_run (replicate (Suc n) True @ [False]) b =
      (let (b1, t1) = btn_step True b; (b2, t2) = btn_run (replicate n True) b1; (b3, t3) = btn_step False b2
       in (b3, t1 @ t2 @ t3))"
    by (simp add: btn_run_append split_beta Let_def)
  then show ?thesis
    by (simp add: btn_step_press_default [OF cb st] btn_run_hold [OF ok] split_beta Let_def
        btn_step_release_hold [OF ok])
qed

definition sample_button :: flex_button where
  "sample_button = zero_button\<lparr>usr_button_read := True, btn_cb := True, btn_event := FLEX_BTN_PRESS_NONE,
     max_multiple_clicks_interval := 15, short_press_start_tick := 75, long_press_start_tick := 150,
     long_hold_start_tick := 225\<rparr>"

lemma sample_button_ok: "btn_ticks_ok sample_button" "btn_status sample_button = FLEX_BTN_STAGE_DEFAULT"
  by (simp_all add: btn_ticks_ok_def sample_button_def zero_button_def)

theorem btn_hold_events_witness:
  "snd (btn_run (replicate (Suc 70000) True @ [False]) sample_button) =
    [FLEX_BTN_PRESS_DOWN, FLEX_BTN_PRESS_SHORT_START, FLEX_BTN_PRESS_LONG_START, FLEX_BTN_PRESS_LONG_HOLD,
     FLEX_BTN_PRESS_LONG_HOLD_UP]"
  unfolding btn_hold_events [OF sample_button_ok, of 70000]
  by (simp add: hold_starts_def hold_up_def sample_button_def)

subsection \<open>Clicks\<close>

lemma btn_run_down_quiet:
  assumes ok: "btn_ticks_ok b" and k: "k < 65536"
  shows "(if k = 0 then c + m < unat (short_press_start_tick b)
          else c + m \<le> unat (max_multiple_clicks_interval b)) \<Longrightarrow>
    btn_run (replicate m True) (btn_at b FLEX_BTN_STAGE_DOWN c k e) =
      (btn_at b FLEX_BTN_STAGE_DOWN (c + m) k e, [])"
proof (induction m arbitrary: c)
  case (Suc m)
  have lim: "unat (short_press_start_tick b) < 65535" "unat (max_multiple_clicks_interval b) < 65534"
    "unat (short_press_start_tick b) < unat (long_press_start_tick b)"
    "unat (long_press_start_tick b) < unat (long_hold_start_tick b)"
    using ok by (auto simp: btn_ticks_ok_def word_less_nat_alt)
  have c: "c + 1 < 65535" using Suc.prems lim by (simp split: if_splits)
  then have n: "next_cnt b c = c + 1" by (simp add: next_cnt_def)
  have "btn_held (btn_at b FLEX_BTN_STAGE_DOWN (c + 1) k e) = (btn_at b FLEX_BTN_STAGE_DOWN (c + 1) k e, [])"
  proof (cases "k = 0")
    case True
    have lt: "c + 1 < unat (short_press_start_tick b)" using Suc.prems True by simp
    have "c + 1 < 65536" using c by simp
    from u16_cmp [OF this] lt lim show ?thesis using True by (simp add: btn_held_def)
  next
    case False
    have le: "c + 1 \<le> unat (max_multiple_clicks_interval b)" using Suc.prems False by simp
    have "c + 1 < 65536" using c by simp
    from u16_cmp(2) [OF this] le False k show ?thesis by (simp add: btn_held_def u16_pos)
  qed
  then have "btn_step True (btn_at b FLEX_BTN_STAGE_DOWN c k e) = (btn_at b FLEX_BTN_STAGE_DOWN (c + 1) k e, [])"
    using btn_step_down_held [of c b k e] c ok n by simp
  moreover have "btn_run (replicate m True) (btn_at b FLEX_BTN_STAGE_DOWN (c + 1) k e) =
      (btn_at b FLEX_BTN_STAGE_DOWN (c + 1 + m) k e, [])"
    using Suc.prems by (intro Suc.IH) (simp split: if_splits)
  ultimately show ?case by simp
qed simp

lemma btn_step_click_up:
  assumes ok: "btn_ticks_ok b" and c: "c + 1 < unat (short_press_start_tick b)" and k: "k + 1 < 65536"
  shows "btn_step False (btn_at b FLEX_BTN_STAGE_DOWN c k e) =
    (btn_at b FLEX_BTN_STAGE_MULTIPLE_CLICK (c + 1) (k + 1) e, [])"
proof -
  have lim: "unat (short_press_start_tick b) < 65535"
    "unat (short_press_start_tick b) < unat (long_press_start_tick b)"
    "unat (long_press_start_tick b) < unat (long_hold_start_tick b)"
    using ok by (auto simp: btn_ticks_ok_def word_less_nat_alt)
  have n: "next_cnt b c = c + 1" using c lim by (simp add: next_cnt_def)
  have c6: "c + 1 < 65536" using c lim by simp
  have "btn_released (btn_at b FLEX_BTN_STAGE_DOWN (c + 1) k e) =
      (btn_at b FLEX_BTN_STAGE_MULTIPLE_CLICK (c + 1) (k + 1) e, [])"
    using u16_cmp [OF c6] c lim by (simp add: btn_released_def Let_def) (simp add: btn_at_def)
  then show ?thesis using btn_step_down_released [of c b k e] c lim ok n by simp
qed

lemma btn_step_multi:
  assumes ok: "btn_ticks_ok b" and c: "c + 1 < 65535"
  shows "btn_step False (btn_at b FLEX_BTN_STAGE_MULTIPLE_CLICK c k e) =
     (if unat (max_multiple_clicks_interval b) < c + 1
      then (btn_at b FLEX_BTN_STAGE_DEFAULT (c + 1) k (click_event (of_nat k)), [click_event (of_nat k)])
      else (btn_at b FLEX_BTN_STAGE_MULTIPLE_CLICK (c + 1) k e, []))"
    "btn_step True (btn_at b FLEX_BTN_STAGE_MULTIPLE_CLICK c k e) = (btn_at b FLEX_BTN_STAGE_DOWN 0 k e, [])"
proof -
  have n: "next_cnt b c = c + 1" using c by (simp add: next_cnt_def)
  have c6: "c + 1 < 65536" using c by simp
  have "btn_cb b" using ok by (simp add: btn_ticks_ok_def)
  with u16_cmp [OF c6] c n
  show "btn_step False (btn_at b FLEX_BTN_STAGE_MULTIPLE_CLICK c k e) =
     (if unat (max_multiple_clicks_interval b) < c + 1
      then (btn_at b FLEX_BTN_STAGE_DEFAULT (c + 1) k (click_event (of_nat k)), [click_event (of_nat k)])
      else (btn_at b FLEX_BTN_STAGE_MULTIPLE_CLICK (c + 1) k e, []))"
    by (simp add: btn_step_def btn_count_at Let_def EVENT_SET_AND_EXEC_CB_def) (simp add: btn_at_def)
  show "btn_step True (btn_at b FLEX_BTN_STAGE_MULTIPLE_CLICK c k e) = (btn_at b FLEX_BTN_STAGE_DOWN 0 k e, [])"
    using c n by (simp add: btn_step_def btn_count_at Let_def) (simp add: btn_at_def)
qed

lemma btn_run_default_quiet:
  "btn_status b = FLEX_BTN_STAGE_DEFAULT \<Longrightarrow>
    btn_status (fst (btn_run (replicate m False) b)) = FLEX_BTN_STAGE_DEFAULT \<and>
    snd (btn_run (replicate m False) b) = []"
proof (induction m arbitrary: b)
  case (Suc m)
  then have "btn_step False b = (b\<lparr>btn_event := FLEX_BTN_PRESS_NONE\<rparr>, [])"
    by (simp add: btn_step_def btn_count_def)
  then show ?case using Suc.IH [of "b\<lparr>btn_event := FLEX_BTN_PRESS_NONE\<rparr>"] Suc.prems by (simp add: split_beta Let_def)
qed simp

lemma btn_run_multi_quiet:
  assumes ok: "btn_ticks_ok b"
  shows "c + m \<le> unat (max_multiple_clicks_interval b) \<Longrightarrow>
    btn_run (replicate m False) (btn_at b FLEX_BTN_STAGE_MULTIPLE_CLICK c k e) =
      (btn_at b FLEX_BTN_STAGE_MULTIPLE_CLICK (c + m) k e, [])"
proof (induction m arbitrary: c)
  case (Suc m)
  have "c + 1 < 65535" using Suc.prems ok by (simp add: btn_ticks_ok_def)
  from btn_step_multi(1) [OF ok this, of k e]
  have "btn_step False (btn_at b FLEX_BTN_STAGE_MULTIPLE_CLICK c k e) =
      (btn_at b FLEX_BTN_STAGE_MULTIPLE_CLICK (c + 1) k e, [])" using Suc.prems by simp
  then show ?case using Suc.IH [of "c + 1"] Suc.prems by simp
qed simp

lemma btn_run_multi_end:
  assumes ok: "btn_ticks_ok b"
  shows "0 < m \<Longrightarrow> c + 1 < 65535 \<Longrightarrow> unat (max_multiple_clicks_interval b) < c + m \<Longrightarrow>
    btn_status (fst (btn_run (replicate m False) (btn_at b FLEX_BTN_STAGE_MULTIPLE_CLICK c k e))) = FLEX_BTN_STAGE_DEFAULT \<and>
    snd (btn_run (replicate m False) (btn_at b FLEX_BTN_STAGE_MULTIPLE_CLICK c k e)) = [click_event (of_nat k)]"
proof (induction m arbitrary: c)
  case (Suc m)
  show ?case
  proof (cases "unat (max_multiple_clicks_interval b) < c + 1")
    case True
    then show ?thesis
      using btn_step_multi(1) [OF ok Suc.prems(2), of k e]
        btn_run_default_quiet [of "btn_at b FLEX_BTN_STAGE_DEFAULT (c + 1) k (click_event (of_nat k))" m]
      by (simp add: split_beta Let_def)
  next
    case False
    have m: "0 < m" using False Suc.prems(3) by (cases m) auto
    have "c + 1 + 1 < 65535" using False ok by (simp add: btn_ticks_ok_def)
    from Suc.IH [OF m this] show ?thesis
      using btn_step_multi(1) [OF ok Suc.prems(2), of k e] False Suc.prems(3) by (simp add: split_beta Let_def)
  qed
qed simp

text \<open>
  A gesture of clicks: for each the scans the button is down and the scans it is up. Every click is
  shorter than a short press; between two clicks less than the interval passes from press to press,
  after the last one more, and from the second on a click is not held longer than the interval.
\<close>

fun click_scans :: "(nat \<times> nat) list \<Rightarrow> bool list" where
  "click_scans [] = []"
| "click_scans ((p, q) # gs) = replicate p True @ replicate q False @ click_scans gs"

fun click_gaps :: "flex_button \<Rightarrow> (nat \<times> nat) list \<Rightarrow> bool" where
  "click_gaps b [] = False"
| "click_gaps b [(p, q)] = (2 \<le> q \<and> unat (max_multiple_clicks_interval b) + 1 < p + q)"
| "click_gaps b ((p, q) # g # gs) =
     (1 \<le> q \<and> p + q \<le> unat (max_multiple_clicks_interval b) + 1 \<and>
      fst g \<le> unat (max_multiple_clicks_interval b) + 1 \<and> click_gaps b (g # gs))"

definition click_gesture :: "flex_button \<Rightarrow> (nat \<times> nat) list \<Rightarrow> bool" where
  "click_gesture b gs \<longleftrightarrow>
     list_all (\<lambda>g. 1 \<le> fst g \<and> fst g < unat (short_press_start_tick b)) gs \<and> click_gaps b gs"

lemma btn_run_clicks:
  assumes ok: "btn_ticks_ok b"
  shows "click_gesture b ((p, q) # gs) \<Longrightarrow> k + 1 + length gs < 65536 \<Longrightarrow>
    (k = 0 \<or> p \<le> unat (max_multiple_clicks_interval b) + 1) \<Longrightarrow>
    btn_status (fst (btn_run (replicate (p - 1) True @ replicate q False @ click_scans gs)
      (btn_at b FLEX_BTN_STAGE_DOWN 0 k e))) = FLEX_BTN_STAGE_DEFAULT \<and>
    snd (btn_run (replicate (p - 1) True @ replicate q False @ click_scans gs)
      (btn_at b FLEX_BTN_STAGE_DOWN 0 k e)) = [click_event (of_nat (k + 1 + length gs))]"
proof (induction gs arbitrary: p q k)
  case Nil
  have g: "1 \<le> p" "p < unat (short_press_start_tick b)" "2 \<le> q" "unat (max_multiple_clicks_interval b) + 1 < p + q"
    using Nil.prems(1) by (auto simp: click_gesture_def)
  obtain q' where q: "q = Suc q'" using g(3) by (cases q) auto
  have lim: "unat (short_press_start_tick b) < 65534"
    using ok by (auto simp: btn_ticks_ok_def word_less_nat_alt)
  have down: "btn_run (replicate (p - 1) True) (btn_at b FLEX_BTN_STAGE_DOWN 0 k e) =
      (btn_at b FLEX_BTN_STAGE_DOWN (0 + (p - 1)) k e, [])"
    using g Nil.prems by (intro btn_run_down_quiet [OF ok]) auto
  have up: "btn_step False (btn_at b FLEX_BTN_STAGE_DOWN (p - 1) k e) =
      (btn_at b FLEX_BTN_STAGE_MULTIPLE_CLICK p (k + 1) e, [])"
    using btn_step_click_up [OF ok, of "p - 1" k e] g Nil.prems(2) by simp
  have "0 < q'" "p + 1 < 65535" "unat (max_multiple_clicks_interval b) < p + q'"
    using q g lim by simp_all
  from btn_run_multi_end [OF ok this, of "k + 1" e] down up show ?case
    by (simp add: q btn_run_append split_beta Let_def)
next
  case (Cons g gs)
  obtain p2 q2 where g2: "g = (p2, q2)" by (cases g)
  have g: "1 \<le> p" "p < unat (short_press_start_tick b)" "1 \<le> q"
    "p + q \<le> unat (max_multiple_clicks_interval b) + 1" "p2 \<le> unat (max_multiple_clicks_interval b) + 1"
    "1 \<le> p2" "click_gesture b ((p2, q2) # gs)"
    using Cons.prems(1) by (auto simp: click_gesture_def g2)
  obtain q' where q: "q = Suc q'" using g(3) by (cases q) auto
  obtain p2' where p2: "p2 = Suc p2'" using g(6) by (cases p2) auto
  have lim: "unat (max_multiple_clicks_interval b) < 65534" using ok by (simp add: btn_ticks_ok_def)
  have down: "btn_run (replicate (p - 1) True) (btn_at b FLEX_BTN_STAGE_DOWN 0 k e) =
      (btn_at b FLEX_BTN_STAGE_DOWN (0 + (p - 1)) k e, [])"
    using g Cons.prems by (intro btn_run_down_quiet [OF ok]) auto
  have up: "btn_step False (btn_at b FLEX_BTN_STAGE_DOWN (p - 1) k e) =
      (btn_at b FLEX_BTN_STAGE_MULTIPLE_CLICK p (k + 1) e, [])"
    using btn_step_click_up [OF ok, of "p - 1" k e] g Cons.prems(2) by simp
  have gap: "btn_run (replicate q' False) (btn_at b FLEX_BTN_STAGE_MULTIPLE_CLICK p (k + 1) e) =
      (btn_at b FLEX_BTN_STAGE_MULTIPLE_CLICK (p + q') (k + 1) e, [])"
    using g q by (intro btn_run_multi_quiet [OF ok]) simp
  have again: "btn_step True (btn_at b FLEX_BTN_STAGE_MULTIPLE_CLICK (p + q') (k + 1) e) =
      (btn_at b FLEX_BTN_STAGE_DOWN 0 (k + 1) e, [])"
    using g q lim by (intro btn_step_multi(2) [OF ok]) simp
  have "btn_status (fst (btn_run (replicate (p2 - 1) True @ replicate q2 False @ click_scans gs)
      (btn_at b FLEX_BTN_STAGE_DOWN 0 (k + 1) e))) = FLEX_BTN_STAGE_DEFAULT \<and>
    snd (btn_run (replicate (p2 - 1) True @ replicate q2 False @ click_scans gs)
      (btn_at b FLEX_BTN_STAGE_DOWN 0 (k + 1) e)) = [click_event (of_nat (k + 1 + 1 + length gs))]"
    using Cons.prems(2) g by (intro Cons.IH) auto
  then show ?case
    using down up gap again by (simp add: g2 q p2 btn_run_append split_beta Let_def add_ac)
qed

text \<open>C31: A gesture of \<open>n\<close> clicks is reported as a press and then one event that names it: a click, a double
  click, or from three on a repeated click; after it the button is at rest again.\<close>

theorem btn_click_events:
  assumes ok: "btn_ticks_ok b" and st: "btn_status b = FLEX_BTN_STAGE_DEFAULT"
    and g: "click_gesture b gs" "length gs < 65536"
  shows "btn_run (click_scans gs) b = (fst (btn_run (click_scans gs) b),
      [FLEX_BTN_PRESS_DOWN,
       if length gs = 1 then FLEX_BTN_PRESS_CLICK else if length gs = 2 then FLEX_BTN_PRESS_DOUBLE_CLICK
       else FLEX_BTN_PRESS_REPEAT_CLICK]) \<and>
    btn_status (fst (btn_run (click_scans gs) b)) = FLEX_BTN_STAGE_DEFAULT"
proof -
  obtain p q gs' where gs: "gs = (p, q) # gs'" using g(1) by (cases gs) (auto simp: click_gesture_def)
  obtain p' where p: "p = Suc p'" using g(1) by (cases p) (auto simp: gs click_gesture_def)
  have cb: "btn_cb b" using ok by (simp add: btn_ticks_ok_def)
  have run: "btn_status (fst (btn_run (replicate (p - 1) True @ replicate q False @ click_scans gs')
      (btn_at b FLEX_BTN_STAGE_DOWN 0 0 FLEX_BTN_PRESS_DOWN))) = FLEX_BTN_STAGE_DEFAULT \<and>
    snd (btn_run (replicate (p - 1) True @ replicate q False @ click_scans gs')
      (btn_at b FLEX_BTN_STAGE_DOWN 0 0 FLEX_BTN_PRESS_DOWN)) = [click_event (of_nat (0 + 1 + length gs'))]"
    using g by (intro btn_run_clicks [OF ok]) (simp_all add: gs)
  have "unat (of_nat (0 + 1 + length gs') :: u16) = length gs" using g(2) by (subst unat_of_nat_lt) (simp_all add: gs)
  then have ce: "click_event (of_nat (0 + 1 + length gs')) =
      (if length gs = 1 then FLEX_BTN_PRESS_CLICK else if length gs = 2 then FLEX_BTN_PRESS_DOUBLE_CLICK
       else FLEX_BTN_PRESS_REPEAT_CLICK)"
    using g by (auto simp: click_event_def gs nth_Cons split: nat.splits)
  have step: "btn_run (click_scans gs) b =
      (fst (btn_run (replicate (p - 1) True @ replicate q False @ click_scans gs')
         (btn_at b FLEX_BTN_STAGE_DOWN 0 0 FLEX_BTN_PRESS_DOWN)),
       FLEX_BTN_PRESS_DOWN # snd (btn_run (replicate (p - 1) True @ replicate q False @ click_scans gs')
         (btn_at b FLEX_BTN_STAGE_DOWN 0 0 FLEX_BTN_PRESS_DOWN)))"
    by (simp add: gs p btn_step_press_default [OF cb st] split_beta Let_def)
  show ?thesis unfolding step run [THEN conjunct2] ce using run by simp
qed

theorem btn_click_events_witness:
  "snd (btn_run (click_scans [(3, 5), (2, 20)]) sample_button) =
    [FLEX_BTN_PRESS_DOWN, FLEX_BTN_PRESS_DOUBLE_CLICK]"
proof -
  have "click_gesture sample_button [(3, 5), (2, 20)]" by (simp add: click_gesture_def sample_button_def)
  from btn_click_events [OF sample_button_ok this]
  have "btn_run (click_scans [(3, 5), (2, 20)]) sample_button =
    (fst (btn_run (click_scans [(3, 5), (2, 20)]) sample_button),
     [FLEX_BTN_PRESS_DOWN, FLEX_BTN_PRESS_DOUBLE_CLICK])" by simp
  then show ?thesis by (metis snd_conv)
qed

subsection \<open>All registered buttons\<close>

text \<open>
  What registration keeps: at most 32 buttons, each once, each with a read function, and the bit of
  the logic level of each, the first registered at bit 0.
\<close>

definition flex_inv :: "flex_state \<Rightarrow> bool" where
  "flex_inv s \<longleftrightarrow>
     distinct (btn_list s) \<and> length (btn_list s) = unat (button_cnt s) \<and> unat (button_cnt s) \<le> 32 \<and>
     (\<forall>p\<in>set (btn_list s). usr_button_read (btn_mem s p)) \<and>
     (\<forall>j<32. bit (g_logic_level s) j \<longleftrightarrow>
        j < length (btn_list s) \<and> pressed_logic_level (btn_mem s (rev (btn_list s) ! j)))"

lemma bit_push_01: "unat v \<le> 1 \<Longrightarrow> n < 32 \<Longrightarrow> bit (push_bit n (ucast (v :: u8)) :: u32) j \<longleftrightarrow> j = n \<and> v = 1"
proof -
  assume v: "unat v \<le> 1" and n: "n < 32"
  then have "v = 0 \<or> v = 1" by (auto simp: word_unat_eq_iff le_Suc_eq)
  then show ?thesis using n by (auto simp: bit_simps)
qed

lemma idx_u8: "n \<le> 32 \<Longrightarrow> (of_nat (Suc n) - 1 :: u8) = of_nat n \<and> (n < 32 \<longrightarrow> unat (of_nat n :: u8) = n)"
  by (simp add: unat_of_nat_lt)

lemma rev_nth_last: "rev (x # xs) ! length xs = x"
  by (simp add: nth_append)

lemma rev_nth_tail: "j < length xs \<Longrightarrow> rev (x # xs) ! j = rev xs ! j"
  by (simp add: nth_append)

lemma flex_read_loop_bits:
  "\<forall>p\<in>set xs. usr_button_read (m p) \<and> unat (pin p) \<le> 1 \<Longrightarrow> length xs \<le> 32 \<Longrightarrow>
    \<exists>raw'. flex_read_loop pin m xs (of_nat (length xs) - 1) raw = Some raw' \<and>
      (\<forall>j<32. bit raw' j \<longleftrightarrow> bit raw j \<or> j < length xs \<and> pin (rev xs ! j) = 1)"
proof (induction xs arbitrary: raw)
  case (Cons x xs)
  have i: "(of_nat (length (x # xs)) - 1 :: u8) = of_nat (length xs)" "unat (of_nat (length xs) :: u8) = length xs"
    using idx_u8 [of "length xs"] Cons.prems(2) by simp_all
  define raw1 where "raw1 = raw OR push_bit (length xs) (ucast (pin x))"
  obtain raw' where raw': "flex_read_loop pin m xs (of_nat (length xs) - 1) raw1 = Some raw'"
    "\<forall>j<32. bit raw' j \<longleftrightarrow> bit raw1 j \<or> j < length xs \<and> pin (rev xs ! j) = 1"
    using Cons.IH [of raw1] Cons.prems by auto
  have "flex_read_loop pin m (x # xs) (of_nat (length (x # xs)) - 1) raw = Some raw'"
    using Cons.prems raw'(1) unfolding i(1) by (simp add: i(2) raw1_def)
  moreover have "bit raw' j \<longleftrightarrow> bit raw j \<or> j < length (x # xs) \<and> pin (rev (x # xs) ! j) = 1" if j: "j < 32" for j
  proof -
    have "bit raw1 j \<longleftrightarrow> bit raw j \<or> j = length xs \<and> pin x = 1"
      using bit_push_01 [of "pin x" "length xs" j] Cons.prems by (simp add: raw1_def bit_or_iff)
    then show ?thesis
      using raw'(2) j rev_nth_last [of x xs] rev_nth_tail [of j xs x] by (auto simp: less_Suc_eq)
  qed
  ultimately show ?case by blast
qed simp

lemma BTN_IS_PRESSED_bit: "unat i < 32 \<Longrightarrow> BTN_IS_PRESSED reg i = Some (bit reg (unat i))"
proof -
  assume i: "unat i < 32"
  have "bit (reg AND push_bit (unat i) 1) j \<longleftrightarrow> bit reg j \<and> j = unat i" for j
    using i by (auto simp: bit_simps)
  then have "reg AND push_bit (unat i) 1 \<noteq> 0 \<longleftrightarrow> bit reg (unat i)"
    by (metis bit_0_eq bot_apply bot_bool_def bit_word_eqI)
  then show ?thesis using i by (simp add: BTN_IS_PRESSED_def)
qed

lemma flex_process_loop_each:
  "distinct xs \<Longrightarrow> length xs \<le> 32 \<Longrightarrow> (\<forall>j<length xs. bit (g_btn_status_reg s) j = pressed (rev xs ! j)) \<Longrightarrow>
    unat act + length xs < 256 \<Longrightarrow>
    \<exists>n s'. flex_process_loop xs (of_nat (length xs) - 1) act s = Some (n, s') \<and>
      s' = s\<lparr>btn_mem := btn_mem s', btn_trace := btn_trace s'\<rparr> \<and>
      btn_mem s' = (\<lambda>p. if p \<in> set xs then fst (btn_step (pressed p) (btn_mem s p)) else btn_mem s p) \<and>
      btn_trace s' = btn_trace s @ concat (map (\<lambda>p. map (Pair p) (snd (btn_step (pressed p) (btn_mem s p)))) xs) \<and>
      unat n = unat act + length (filter (\<lambda>p. btn_status (btn_mem s' p) \<noteq> FLEX_BTN_STAGE_DEFAULT) xs)"
proof (induction xs arbitrary: s act)
  case (Cons x xs)
  have i: "(of_nat (length (x # xs)) - 1 :: u8) = of_nat (length xs)" "unat (of_nat (length xs) :: u8) = length xs"
    using idx_u8 [of "length xs"] Cons.prems(2) by simp_all
  have "bit (g_btn_status_reg s) (length xs) = pressed x"
    using Cons.prems(3) rev_nth_last [of x xs] by auto
  then have pr: "BTN_IS_PRESSED (g_btn_status_reg s) (of_nat (length xs)) = Some (pressed x)"
    using BTN_IS_PRESSED_bit [of "of_nat (length xs)"] i(2) Cons.prems(2) by simp
  obtain b t where bt: "btn_step (pressed x) (btn_mem s x) = (b, t)" by (cases "btn_step (pressed x) (btn_mem s x)")
  define s1 where "s1 = s\<lparr>btn_mem := (btn_mem s)(x := b), btn_trace := btn_trace s @ map (Pair x) t\<rparr>"
  define act1 where "act1 = (if btn_status b \<noteq> FLEX_BTN_STAGE_DEFAULT then act + 1 else act)"
  have u1: "unat act1 = unat act + (if btn_status b \<noteq> FLEX_BTN_STAGE_DEFAULT then 1 else 0)"
    using Cons.prems(4) by (simp add: act1_def) (subst unat_add_lt, simp_all)
  have bits: "\<forall>j<length xs. bit (g_btn_status_reg s1) j = pressed (rev xs ! j)"
    using Cons.prems(3) rev_nth_tail [of _ xs x] by (auto simp: s1_def less_Suc_eq)
  have d: "distinct xs" and l: "length xs \<le> 32" and a: "unat act1 + length xs < 256"
    using Cons.prems u1 by auto
  obtain n s' where IH: "flex_process_loop xs (of_nat (length xs) - 1) act1 s1 = Some (n, s')"
      "s' = s1\<lparr>btn_mem := btn_mem s', btn_trace := btn_trace s'\<rparr>"
      "btn_mem s' = (\<lambda>p. if p \<in> set xs then fst (btn_step (pressed p) (btn_mem s1 p)) else btn_mem s1 p)"
      "btn_trace s' = btn_trace s1 @ concat (map (\<lambda>p. map (Pair p) (snd (btn_step (pressed p) (btn_mem s1 p)))) xs)"
      "unat n = unat act1 + length (filter (\<lambda>p. btn_status (btn_mem s' p) \<noteq> FLEX_BTN_STAGE_DEFAULT) xs)"
    using Cons.IH [OF d l bits a] by (elim exE conjE) (rule that)
  have x: "x \<notin> set xs" using Cons.prems(1) by simp
  have m1: "btn_mem s1 p = btn_mem s p" if "p \<in> set xs" for p using that x by (auto simp: s1_def)
  have tr: "map (\<lambda>p. map (Pair p) (snd (btn_step (pressed p) (btn_mem s1 p)))) xs =
      map (\<lambda>p. map (Pair p) (snd (btn_step (pressed p) (btn_mem s p)))) xs"
    by (rule map_cong) (simp_all add: m1)
  have loop: "flex_process_loop (x # xs) (of_nat (length (x # xs)) - 1) act s = Some (n, s')"
    using IH(1) pr bt unfolding i(1) by (simp add: s1_def act1_def)
  have mem: "btn_mem s' = (\<lambda>p. if p \<in> set (x # xs) then fst (btn_step (pressed p) (btn_mem s p)) else btn_mem s p)"
    unfolding IH(3) using x bt by (auto simp: fun_eq_iff s1_def)
  have upd: "s' = s\<lparr>btn_mem := btn_mem s', btn_trace := btn_trace s'\<rparr>"
    by (subst IH(2)) (simp add: s1_def)
  have "btn_mem s' x = b" using x bt by (simp add: IH(3) s1_def)
  then have cnt: "unat n = unat act +
      length (filter (\<lambda>p. btn_status (btn_mem s' p) \<noteq> FLEX_BTN_STAGE_DEFAULT) (x # xs))"
    using IH(5) u1 by simp
  have trace: "btn_trace s' = btn_trace s @
      concat (map (\<lambda>p. map (Pair p) (snd (btn_step (pressed p) (btn_mem s p)))) (x # xs))"
    unfolding IH(4) tr by (simp add: s1_def bt)
  show ?case using loop mem upd cnt trace by blast
qed simp

lemma btn_step_keeps:
  "usr_button_read (fst (btn_step p b)) = usr_button_read b"
  "pressed_logic_level (fst (btn_step p b)) = pressed_logic_level b"
  by (simp_all add: btn_step_def btn_count_def btn_held_def btn_released_def EVENT_SET_AND_EXEC_CB_def Let_def
      split: FLEX_BTN_STAGE.split)

text \<open>One scan of up to 32 registered buttons advances every one of them by one step of its own machine, on
  whether its own pin is at its own pressed level, and touches no other structure; the events are
  reported button by button, and the result counts those not at rest.\<close>

theorem flex_button_scan_each:
  assumes inv: "flex_inv s" and pins: "\<forall>p\<in>set (btn_list s). unat (pin p) \<le> 1"
  shows "\<exists>n s'. flex_button_scan pin s = Some (n, s') \<and> flex_inv s' \<and> btn_list s' = btn_list s \<and>
      btn_mem s' = (\<lambda>p. if p \<in> set (btn_list s)
        then fst (btn_step ((pin p = 1) = pressed_logic_level (btn_mem s p)) (btn_mem s p)) else btn_mem s p) \<and>
      btn_trace s' = btn_trace s @ concat (map (\<lambda>p. map (Pair p)
        (snd (btn_step ((pin p = 1) = pressed_logic_level (btn_mem s p)) (btn_mem s p)))) (btn_list s)) \<and>
      unat n = length (filter (\<lambda>p. btn_status (btn_mem s' p) \<noteq> FLEX_BTN_STAGE_DEFAULT) (btn_list s))"
proof -
  let ?xs = "btn_list s"
  define pr where "pr p = ((pin p = 1) = pressed_logic_level (btn_mem s p))" for p
  have I: "distinct ?xs" "length ?xs \<le> 32" "\<forall>p\<in>set ?xs. usr_button_read (btn_mem s p)"
    "\<forall>j<32. bit (g_logic_level s) j \<longleftrightarrow> j < length ?xs \<and> pressed_logic_level (btn_mem s (rev ?xs ! j))"
    "of_nat (length ?xs) = button_cnt s"
    using inv by (simp_all add: flex_inv_def word_of_nat_unat)
  obtain raw where raw: "flex_read_loop pin (btn_mem s) ?xs (button_cnt s - 1) 0 = Some raw"
    "\<forall>j<32. bit raw j \<longleftrightarrow> j < length ?xs \<and> pin (rev ?xs ! j) = 1"
    using flex_read_loop_bits [of ?xs "btn_mem s" pin 0] I pins by auto
  define s1 where "s1 = s\<lparr>g_btn_status_reg := NOT raw XOR g_logic_level s\<rparr>"
  have read: "flex_button_read pin s = Some s1" by (simp add: flex_button_read_def raw s1_def)
  have bits: "\<forall>j<length ?xs. bit (g_btn_status_reg s1) j = pr (rev ?xs ! j)"
  proof (intro allI impI)
    fix j assume j: "j < length ?xs"
    then have j32: "j < 32" using I(2) by simp
    have "bit (g_btn_status_reg s1) j \<longleftrightarrow> bit raw j = bit (g_logic_level s) j"
      using j32 by (auto simp: s1_def bit_simps)
    then show "bit (g_btn_status_reg s1) j = pr (rev ?xs ! j)"
      using raw(2) I(4) j j32 by (simp add: pr_def)
  qed
  have lt: "unat (0 :: u8) + length ?xs < 256" using I(2) by simp
  obtain n s' where P: "flex_process_loop ?xs (of_nat (length ?xs) - 1) 0 s1 = Some (n, s')"
      "s' = s1\<lparr>btn_mem := btn_mem s', btn_trace := btn_trace s'\<rparr>"
      "btn_mem s' = (\<lambda>p. if p \<in> set ?xs then fst (btn_step (pr p) (btn_mem s1 p)) else btn_mem s1 p)"
      "btn_trace s' = btn_trace s1 @ concat (map (\<lambda>p. map (Pair p) (snd (btn_step (pr p) (btn_mem s1 p)))) ?xs)"
      "unat n = unat (0 :: u8) + length (filter (\<lambda>p. btn_status (btn_mem s' p) \<noteq> FLEX_BTN_STAGE_DEFAULT) ?xs)"
    using flex_process_loop_each [OF I(1,2) bits lt] by (elim exE conjE) (rule that)
  have sel: "btn_list s' = ?xs" "button_cnt s' = button_cnt s" "g_logic_level s' = g_logic_level s"
    by (subst P(2), simp add: s1_def)+
  have lev: "pressed_logic_level (btn_mem s' p) = pressed_logic_level (btn_mem s p)"
    "usr_button_read (btn_mem s' p) = usr_button_read (btn_mem s p)" for p
    by (simp_all add: P(3) btn_step_keeps s1_def)
  have "flex_inv s'" using inv by (simp add: flex_inv_def sel lev)
  moreover have "flex_button_scan pin s = Some (n, s')"
    using P(1) I(5) by (simp add: flex_button_scan_def read flex_button_process_def s1_def)
  moreover have "btn_mem s1 = btn_mem s" "btn_trace s1 = btn_trace s" by (simp_all add: s1_def)
  ultimately show ?thesis using P(3-5) sel(1) unfolding pr_def by auto
qed

text \<open>Registration.\<close>

definition flex_boot :: flex_state where
  "flex_boot = \<lparr>btn_list = [], btn_mem = (\<lambda>_. zero_button), g_logic_level = 0, g_btn_status_reg = 0,
     button_cnt = 0, btn_trace = []\<rparr>"

lemma flex_boot_inv: "flex_inv flex_boot"
  by (simp add: flex_inv_def flex_boot_def)

lemma flex_button_register_ok:
  assumes inv: "flex_inv s" and p: "p \<notin> set (btn_list s)" "unat (button_cnt s) < 32" "usr_button_read (btn_mem s p)"
  shows "\<exists>s'. flex_button_register s (Some p) = Some (int (unat (button_cnt s) + 1), s') \<and> flex_inv s' \<and>
    btn_list s' = p # btn_list s \<and> btn_status (btn_mem s' p) = FLEX_BTN_STAGE_DEFAULT \<and>
    (\<forall>q. q \<noteq> p \<longrightarrow> btn_mem s' q = btn_mem s q)"
proof -
  let ?n = "unat (button_cnt s)"
  define b where "b = (btn_mem s p)\<lparr>btn_status := FLEX_BTN_STAGE_DEFAULT, btn_event := FLEX_BTN_PRESS_NONE,
      scan_cnt := 0, click_cnt := 0, max_multiple_clicks_interval := MAX_MULTIPLE_CLICKS_INTERVAL\<rparr>"
  have bb: "pressed_logic_level b = pressed_logic_level (btn_mem s p)" "usr_button_read b"
    "btn_status b = FLEX_BTN_STAGE_DEFAULT" using p(3) by (simp_all add: b_def)
  define s' where "s' = s\<lparr>btn_mem := (btn_mem s)(p := b), btn_list := p # btn_list s,
      g_logic_level := g_logic_level s OR push_bit ?n (if pressed_logic_level b then 1 else 0),
      button_cnt := button_cnt s + 1\<rparr>"
  have u: "unat (button_cnt s + 1) = ?n + 1" using p(2) by (subst unat_add_lt) simp_all
  have "\<not> 4 * 8 < button_cnt s" using p(2) by (simp add: word_less_nat_alt)
  then have reg: "flex_button_register s (Some p) = Some (int (?n + 1), s')"
    using p(1,2) arg_cong [OF u, of int] by (simp add: flex_button_register_def Let_def b_def [symmetric] s'_def)
  have len: "length (btn_list s) = ?n" using inv by (simp add: flex_inv_def)
  have lv: "bit (g_logic_level s') j \<longleftrightarrow> j < length (btn_list s') \<and>
      pressed_logic_level (btn_mem s' (rev (btn_list s') ! j))" if j: "j < 32" for j
  proof -
    have old: "bit (g_logic_level s) j \<longleftrightarrow> j < length (btn_list s) \<and> pressed_logic_level (btn_mem s (rev (btn_list s) ! j))"
      using inv j by (simp add: flex_inv_def)
    have new: "bit (g_logic_level s') j \<longleftrightarrow> bit (g_logic_level s) j \<or> j = ?n \<and> pressed_logic_level b"
      using p(2) by (auto simp: s'_def bit_simps)
    consider "j < ?n" | "j = ?n" | "?n < j" by linarith
    then show ?thesis
    proof cases
      case 1
      then have "rev (btn_list s') ! j = rev (btn_list s) ! j" "rev (btn_list s) ! j \<in> set (btn_list s)"
        using len rev_nth_tail [of j "btn_list s" p] nth_mem [of j "rev (btn_list s)"] by (simp_all add: s'_def)
      then show ?thesis using 1 old new len p(1) by (auto simp: s'_def)
    next
      case 2
      then have "rev (btn_list s') ! j = p" using len rev_nth_last [of p "btn_list s"] by (simp add: s'_def)
      then show ?thesis using 2 old new len by (simp add: s'_def)
    next
      case 3
      then show ?thesis using old new len by (auto simp: s'_def)
    qed
  qed
  have "flex_inv s'"
    unfolding flex_inv_def using inv p u bb lv by (auto simp: flex_inv_def s'_def)
  then show ?thesis using reg bb by (auto simp: s'_def)
qed

text \<open>Registering a new button while there are fewer than 32 puts it first in the list with the next number,
  at rest, and keeps the invariant that scanning relies on; a null pointer and a button already
  registered are refused with -1 and change nothing. With 32 buttons registered the test lets one more
  through, and its level is shifted by 32.\<close>

theorem flex_button_register_inv:
  assumes inv: "flex_inv s" and rd: "usr_button_read (btn_mem s p)"
  shows "flex_button_register s None = Some (-1, s) \<and>
    (p \<in> set (btn_list s) \<longrightarrow> flex_button_register s (Some p) = Some (-1, s)) \<and>
    (p \<notin> set (btn_list s) \<and> unat (button_cnt s) < 32 \<longrightarrow>
      (\<exists>s'. flex_button_register s (Some p) = Some (int (unat (button_cnt s) + 1), s') \<and> flex_inv s' \<and>
         btn_list s' = p # btn_list s \<and> btn_status (btn_mem s' p) = FLEX_BTN_STAGE_DEFAULT \<and>
         (\<forall>q. q \<noteq> p \<longrightarrow> btn_mem s' q = btn_mem s q))) \<and>
    (p \<notin> set (btn_list s) \<and> unat (button_cnt s) = 32 \<longrightarrow> flex_button_register s (Some p) = None)"
proof -
  have le: "\<not> 4 * 8 < button_cnt s" using inv by (simp add: flex_inv_def word_less_nat_alt)
  have "flex_button_register s None = Some (-1, s)" by (simp add: flex_button_register_def)
  moreover have "p \<in> set (btn_list s) \<Longrightarrow> flex_button_register s (Some p) = Some (-1, s)"
    by (simp add: flex_button_register_def)
  moreover have "p \<notin> set (btn_list s) \<Longrightarrow> unat (button_cnt s) = 32 \<Longrightarrow> flex_button_register s (Some p) = None"
    using le by (simp add: flex_button_register_def Let_def)
  ultimately show ?thesis using flex_button_register_ok [OF inv _ _ rd] by blast
qed

theorem flex_button_register_inv_witness:
  "\<exists>s'. flex_button_register (flex_boot\<lparr>btn_mem := (\<lambda>_. sample_button)\<rparr>) (Some 7) = Some (1, s') \<and>
    flex_inv s' \<and> btn_list s' = [7]"
proof -
  have "flex_inv (flex_boot\<lparr>btn_mem := (\<lambda>_. sample_button)\<rparr>)"
    using flex_boot_inv by (simp add: flex_inv_def flex_boot_def)
  from flex_button_register_inv [OF this, of 7] show ?thesis
    by (auto simp: flex_boot_def sample_button_def)
qed

lemma BSP_Button_Init_ok:
  "\<exists>s. BSP_Button_Init flex_boot = Some s \<and> flex_inv s \<and> btn_list s = [0] \<and>
    btn_ticks_ok (btn_mem s 0) \<and> btn_status (btn_mem s 0) = FLEX_BTN_STAGE_DEFAULT \<and>
    \<not> pressed_logic_level (btn_mem s 0)"
proof -
  have t: "FLEX_MS_TO_SCAN_CNT 1500 = 75" "FLEX_MS_TO_SCAN_CNT 3000 = 150" "FLEX_MS_TO_SCAN_CNT 4500 = 225"
    "MAX_MULTIPLE_CLICKS_INTERVAL = 15"
    by (simp_all add: FLEX_MS_TO_SCAN_CNT_def MAX_MULTIPLE_CLICKS_INTERVAL_def)
  show ?thesis
    by (auto simp: BSP_Button_Init_def flex_button_register_def flex_boot_def zero_button_def Let_def t
        flex_inv_def btn_ticks_ok_def word_less_nat_alt nth_Cons split: nat.splits)
qed

theorem flex_button_scan_each_witness:
  "\<exists>s n s'. BSP_Button_Init flex_boot = Some s \<and> flex_button_scan (\<lambda>_. 0) s = Some (n, s') \<and> unat n = 1 \<and>
    btn_trace s' = btn_trace s @ [(0, FLEX_BTN_PRESS_DOWN)]"
proof -
  obtain s where s: "BSP_Button_Init flex_boot = Some s" "flex_inv s" "btn_list s = [0]"
    "btn_ticks_ok (btn_mem s 0)" "btn_status (btn_mem s 0) = FLEX_BTN_STAGE_DEFAULT"
    "\<not> pressed_logic_level (btn_mem s 0)"
    using BSP_Button_Init_ok by blast
  have cb: "btn_cb (btn_mem s 0)" using s(4) by (simp add: btn_ticks_ok_def)
  have "\<exists>n s'. flex_button_scan (\<lambda>_. 0) s = Some (n, s') \<and> flex_inv s' \<and> btn_list s' = btn_list s \<and>
      btn_mem s' = (\<lambda>p. if p \<in> set (btn_list s)
        then fst (btn_step (((0 :: u8) = 1) = pressed_logic_level (btn_mem s p)) (btn_mem s p)) else btn_mem s p) \<and>
      btn_trace s' = btn_trace s @ concat (map (\<lambda>p. map (Pair p)
        (snd (btn_step (((0 :: u8) = 1) = pressed_logic_level (btn_mem s p)) (btn_mem s p)))) (btn_list s)) \<and>
      unat n = length (filter (\<lambda>p. btn_status (btn_mem s' p) \<noteq> FLEX_BTN_STAGE_DEFAULT) (btn_list s))"
    by (rule flex_button_scan_each [OF s(2)]) simp
  then show ?thesis
    using s(1,3,6) by (auto simp: btn_step_press_default [OF cb s(5)])
qed

end
