(* ===== verification/Agile_Led.thy ===== *)
theory Agile_Led
  imports Prelude
begin

text \<open>
  The LED library (\<open>common/agile_led/agile_led.c\<close>, \<open>agile_led.h\<close>) with the parts of the kernel it
  uses (\<open>rt_tick_from_millisecond\<close> of \<open>clock.c\<close>, the single linked list of \<open>rtservice.h\<close>) and the
  board's LEDs (\<open>bsp/src/bsp_led.c\<close>, \<open>bsp_led.h\<close>). LED objects are addressed by numbers; \<open>led_mem\<close> is
  the heap, \<open>None\<close> where no object is. The linked list of running objects is the list of addresses
  \<open>slist_head\<close>. Parameters: the address \<open>rt_malloc\<close> returns, \<open>None\<close> when there is no memory, and
  whether the light array finds memory, and what the completion callbacks do. A callback is the number of a
  function, \<open>None\<close> the null pointer; number 0 is the library's default, which only logs, the others are
  functions on the environment that the program supplies. The calls of callbacks are recorded in \<open>led_done\<close>. The
  mutex is recursive, so that a callback may use the library, and it is free whenever another call starts; taking
  it before \<open>agile_led_env_init\<close> has made it a mutex fails the kernel's assertion. The clock stands still
  during a call.
\<close>

subsection \<open>State\<close>

datatype agile_led_type = AGILE_LED_TYPE_DYNAMIC | AGILE_LED_TYPE_STATIC

record agile_led =
  led_type :: agile_led_type
  active :: bool
  led_pin :: u32
  active_logic :: u32
  light_arr :: "u32 list option"
  arr_num :: u32
  arr_index :: u32
  loop_init :: u32
  loop_cnt :: u32
  tick_timeout :: u32
  compelete :: "nat option"

record led_env =
  is_init :: bool
  slist_head :: "nat list"
  led_mem :: "nat \<Rightarrow> agile_led option"
  led_pins :: "u32 \<Rightarrow> u32"
  led_tick :: u32
  led_done :: "nat list"

type_synonym led_callbacks = "nat \<Rightarrow> nat \<Rightarrow> led_env \<Rightarrow> led_env option"

definition PIN_LOW :: u32 where "PIN_LOW = 0"
definition RT_TICK_MAX :: u32 where "RT_TICK_MAX = 0xffffffff"
definition RT_EOK :: int where "RT_EOK = 0"
definition RT_ERROR :: int where "RT_ERROR = 1"
definition RT_ENOMEM :: int where "RT_ENOMEM = 3"

text \<open>The pointer is not null and points to an object.\<close>

definition led_at :: "led_env \<Rightarrow> nat option \<Rightarrow> (nat \<times> agile_led) option" where
  "led_at env led = do { p \<leftarrow> led; l \<leftarrow> led_mem env p; Some (p, l) }"

definition led_put :: "led_env \<Rightarrow> nat \<Rightarrow> agile_led \<Rightarrow> led_env" where
  "led_put env p l = env\<lparr>led_mem := (led_mem env)(p := Some l)\<rparr>"

definition led_lock :: "led_env \<Rightarrow> unit option" where
  "led_lock env = rt_assert (is_init env)"

definition rt_pin_write :: "led_env \<Rightarrow> u32 \<Rightarrow> u32 \<Rightarrow> led_env" where
  "rt_pin_write env pin v = env\<lparr>led_pins := (led_pins env)(pin := v)\<rparr>"

definition c_not :: "u32 \<Rightarrow> u32" where "c_not v = (if v = 0 then 1 else 0)"

text \<open>\<open>ms\<close> is a signed 32-bit number; one tick is a millisecond.\<close>

definition rt_tick_from_millisecond :: "u32 \<Rightarrow> u32" where
  "rt_tick_from_millisecond ms =
     (if sint ms < 0 then 0xffffffff
      else let tick = 1000 * (ms div 1000) in tick + (1000 * (ms mod 1000) + 999) div 1000)"

subsection \<open>The light pattern\<close>

text \<open>\<open>atoi\<close> of the C library; a value outside \<open>int\<close> is undefined.\<close>

fun atoi_digits :: "string \<Rightarrow> int \<Rightarrow> int" where
  "atoi_digits [] acc = acc"
| "atoi_digits (c # cs) acc =
     (let d = of_char c :: int
      in if 48 \<le> d \<and> d \<le> 57 then atoi_digits cs (acc * 10 + (d - 48)) else acc)"

definition atoi :: "string \<Rightarrow> u32 option" where
  "atoi s =
     (let s = dropWhile (\<lambda>c. c \<in> set [CHR '' '', CHR 0x09, CHR 0x0A, CHR 0x0B, CHR 0x0C, CHR 0x0D]) s;
          v = (case s of
                 [] \<Rightarrow> 0
               | c # cs \<Rightarrow> if c = CHR ''-'' then - atoi_digits cs 0
                          else if c = CHR ''+'' then atoi_digits cs 0 else atoi_digits s 0)
      in if - (2 ^ 31) \<le> v \<and> v < 2 ^ 31 then Some (word_of_int v) else None)"

text \<open>\<open>strchr (ptr, ',')\<close> and the step over the comma, from a pointer that may be null.\<close>

definition after_comma :: "string \<Rightarrow> string option" where
  "after_comma s = (case dropWhile (\<lambda>c. c \<noteq> CHR '','') s of [] \<Rightarrow> None | _ # t \<Rightarrow> Some t)"

fun fill_light :: "nat \<Rightarrow> string option \<Rightarrow> u32 list option" where
  "fill_light 0 ptr = Some []"
| "fill_light (Suc n) ptr =
     do { s \<leftarrow> ptr; v \<leftarrow> atoi s; rest \<leftarrow> fill_light n (after_comma s); Some (v # rest) }"

text \<open>An empty string makes the code look at the byte before it: undefined.\<close>

definition agile_led_get_light_arr :: "agile_led \<Rightarrow> string \<Rightarrow> bool \<Rightarrow> (int \<times> agile_led) option" where
  "agile_led_get_light_arr l light_mode mem_ok =
     do { rt_assert (led_type l = AGILE_LED_TYPE_DYNAMIC);
          rt_assert (light_arr l = None);
          rt_assert (arr_num l = 0);
          rt_assert (light_mode \<noteq> []);
          let num = length (filter (\<lambda>c. c = CHR '','') light_mode) +
                    (if last light_mode \<noteq> CHR '','' then 1 else 0);
          let l = l\<lparr>arr_num := of_nat num\<rparr>;
          if arr_num l = 0 then Some (- RT_ERROR, l)
          else if \<not> mem_ok then Some (- RT_ENOMEM, l)
          else do { arr \<leftarrow> fill_light (unat (arr_num l)) (Some light_mode);
                    Some (RT_EOK, l\<lparr>light_arr := Some arr\<rparr>) } }"

subsection \<open>Objects\<close>

text \<open>The default callback asserts its object and logs its pin.\<close>

definition agile_led_default_compelete_callback :: nat where "agile_led_default_compelete_callback = 0"

definition led_default_complete :: "nat \<Rightarrow> led_env \<Rightarrow> led_env option" where
  "led_default_complete p env = do { (p, l) \<leftarrow> led_at env (Some p); Some env }"

text \<open>The call through the pointer.\<close>

definition led_complete :: "led_callbacks \<Rightarrow> nat option \<Rightarrow> nat \<Rightarrow> led_env \<Rightarrow> led_env option" where
  "led_complete cbs cb p env =
     (case cb of
       None \<Rightarrow> Some env
     | Some f \<Rightarrow>
         let env = env\<lparr>led_done := led_done env @ [p]\<rparr>
         in if f = agile_led_default_compelete_callback then led_default_complete p env else cbs f p env)"

definition agile_led_create ::
  "led_env \<Rightarrow> nat option \<Rightarrow> bool \<Rightarrow> u32 \<Rightarrow> u32 \<Rightarrow> string option \<Rightarrow> u32 \<Rightarrow> (nat option \<times> led_env) option" where
  "agile_led_create env new mem_ok pin logic light_mode loops =
     (if \<not> is_init env then Some (None, env)
      else case new of
        None \<Rightarrow> Some (None, env)
      | Some p \<Rightarrow>
          let l = \<lparr>led_type = AGILE_LED_TYPE_DYNAMIC, active = False, led_pin = pin, active_logic = logic,
                   light_arr = None, arr_num = 0, arr_index = 0, loop_init = 0, loop_cnt = 0,
                   tick_timeout = 0, compelete = None\<rparr>
          in do {
            (r, l) \<leftarrow> (case light_mode of None \<Rightarrow> Some (RT_EOK, l)
                                      | Some m \<Rightarrow> agile_led_get_light_arr l m mem_ok);
            if r \<noteq> RT_EOK then Some (None, env)
            else
              let l = l\<lparr>loop_init := loops, loop_cnt := loops, tick_timeout := led_tick env,
                        compelete := Some agile_led_default_compelete_callback\<rparr>
              in Some (Some p, rt_pin_write (led_put env p l) pin (c_not logic)) })"




subsection \<open>Running\<close>

definition agile_led_start :: "led_env \<Rightarrow> nat option \<Rightarrow> (int \<times> led_env) option" where
  "agile_led_start env led =
     do { (p, l) \<leftarrow> led_at env led;
          led_lock env;
          if active l then Some (- RT_ERROR, env)
          else if light_arr l = None \<or> arr_num l = 0 then Some (- RT_ERROR, env)
          else
            let l = l\<lparr>arr_index := 0, loop_cnt := loop_init l, tick_timeout := led_tick env, active := True\<rparr>
            in Some (RT_EOK, (led_put env p l)\<lparr>slist_head := slist_head env @ [p]\<rparr>) }"

definition agile_led_stop :: "led_env \<Rightarrow> nat option \<Rightarrow> (int \<times> led_env) option" where
  "agile_led_stop env led =
     do { (p, l) \<leftarrow> led_at env led;
          led_lock env;
          if \<not> active l then Some (RT_EOK, env)
          else Some (RT_EOK, (led_put env p (l\<lparr>active := False\<rparr>))\<lparr>slist_head := remove1 p (slist_head env)\<rparr>) }"

definition agile_led_dynamic_change_light_mode ::
  "led_env \<Rightarrow> nat option \<Rightarrow> bool \<Rightarrow> string option \<Rightarrow> u32 \<Rightarrow> (int \<times> led_env) option" where
  "agile_led_dynamic_change_light_mode env led mem_ok light_mode loops =
     do { (p, l) \<leftarrow> led_at env led;
          rt_assert (led_type l = AGILE_LED_TYPE_DYNAMIC);
          led_lock env;
          (r, l) \<leftarrow> (case light_mode of
                      None \<Rightarrow> Some (RT_EOK, l)
                    | Some m \<Rightarrow> agile_led_get_light_arr (l\<lparr>light_arr := None, arr_num := 0\<rparr>) m mem_ok);
          if r \<noteq> RT_EOK
          then do { (_, env) \<leftarrow> agile_led_stop (led_put env p l) (Some p); Some (- RT_ERROR, env) }
          else Some (RT_EOK, led_put env p (l\<lparr>loop_init := loops, arr_index := 0, loop_cnt := loops,
                               tick_timeout := led_tick env\<rparr>)) }"

definition agile_led_set_light_mode ::
  "led_env \<Rightarrow> nat option \<Rightarrow> bool \<Rightarrow> string option \<Rightarrow> u32 \<Rightarrow> (int \<times> led_env) option" where
  "agile_led_set_light_mode env led mem_ok light_mode loops =
     agile_led_dynamic_change_light_mode env led mem_ok light_mode loops"



definition agile_led_on :: "led_env \<Rightarrow> nat option \<Rightarrow> led_env option" where
  "agile_led_on env led =
     do { (p, l) \<leftarrow> led_at env led; Some (rt_pin_write env (led_pin l) (active_logic l)) }"

definition agile_led_off :: "led_env \<Rightarrow> nat option \<Rightarrow> led_env option" where
  "agile_led_off env led =
     do { (p, l) \<leftarrow> led_at env led; Some (rt_pin_write env (led_pin l) (c_not (active_logic l))) }"

lemma u32_suc_below: "i < num \<Longrightarrow> unat (i + 1) = unat i + 1 \<and> unat i < unat num" for i num :: u32
proof -
  assume "i < num"
  then have lt: "unat i < unat num" by (simp add: word_less_nat_alt)
  have "unat i + 1 < 4294967296" using lt u32_bound [of num] by linarith
  then have "unat (i + 1) = unat i + 1" by (subst unat_add_lt) simp_all
  then show ?thesis using lt by simp
qed

text \<open>The entries of length 0 that \<open>goto __repeat\<close> passes over.\<close>

function led_skip :: "u32 list option \<Rightarrow> u32 \<Rightarrow> u32 \<Rightarrow> u32 option" where
  "led_skip arr num i =
     (if i < num
      then do { a \<leftarrow> arr; v \<leftarrow> rd a (unat i); if v = 0 then led_skip arr num (i + 1) else Some i }
      else Some i)"
  by auto

termination
proof (relation "measure (\<lambda>(_, num, i). unat num - unat i)")
  fix arr :: "u32 list option" and num i :: u32
  assume "i < num"
  then have "unat (i + 1) = unat i + 1" "unat i < unat num" using u32_suc_below by blast+
  then show "((arr, num, i + 1), arr, num, i) \<in> measure (\<lambda>(_, num, i). unat num - unat i)" by simp
qed simp

declare led_skip.simps [simp del]

text \<open>One object's turn in \<open>agile_led_process\<close>, its loop counter not being 0.\<close>

definition led_turn :: "led_env \<Rightarrow> nat \<Rightarrow> agile_led \<Rightarrow> led_env option" where
  "led_turn env p l =
     (if led_tick env - tick_timeout l < RT_TICK_MAX div 2
      then do {
        i \<leftarrow> led_skip (light_arr l) (arr_num l) (arr_index l);
        let l = l\<lparr>arr_index := i\<rparr>;
        if i < arr_num l
        then do {
          env \<leftarrow> (if i mod 2 \<noteq> 0 then agile_led_off env (Some p) else agile_led_on env (Some p));
          v \<leftarrow> rd (the (light_arr l)) (unat i);
          Some (led_put env p (l\<lparr>tick_timeout := led_tick env + rt_tick_from_millisecond v,
                                  arr_index := i + 1\<rparr>)) }
        else Some (led_put env p (l\<lparr>arr_index := 0,
               loop_cnt := (if sint (loop_cnt l) > 0 then loop_cnt l - 1 else loop_cnt l)\<rparr>)) }
      else Some env)"

text \<open>
  The loop over the list, begun again at its head after an object has been stopped and its callback called. The
  callback may change the list, so that the loop may run for ever: that is \<open>None\<close>.
\<close>

partial_function (option) led_process_loop :: "led_callbacks \<Rightarrow> nat list \<Rightarrow> led_env \<Rightarrow> led_env option" where
  "led_process_loop cbs nodes env =
     (case nodes of
       [] \<Rightarrow> Some env
     | p # nodes \<Rightarrow>
         do { l \<leftarrow> led_mem env p;
              if loop_cnt l = 0
              then do { (_, env) \<leftarrow> agile_led_stop env (Some p);
                        env \<leftarrow> led_complete cbs (compelete l) p env;
                        led_process_loop cbs (slist_head env) env }
              else do { env \<leftarrow> led_turn env p l; led_process_loop cbs nodes env } })"

lemma led_process_loop_Nil [simp]: "led_process_loop cbs [] env = Some env"
  by (subst led_process_loop.simps) simp

lemma led_process_loop_Cons:
  "led_process_loop cbs (p # nodes) env =
     do { l \<leftarrow> led_mem env p;
          if loop_cnt l = 0
          then do { (_, env) \<leftarrow> agile_led_stop env (Some p);
                    env \<leftarrow> led_complete cbs (compelete l) p env;
                    led_process_loop cbs (slist_head env) env }
          else do { env \<leftarrow> led_turn env p l; led_process_loop cbs nodes env } }"
  by (subst led_process_loop.simps) simp

definition agile_led_process :: "led_callbacks \<Rightarrow> led_env \<Rightarrow> led_env option" where
  "agile_led_process cbs env = do { led_lock env; led_process_loop cbs (slist_head env) env }"

definition agile_led_env_init :: "led_env \<Rightarrow> led_env" where
  "agile_led_env_init env = (if is_init env then env else env\<lparr>is_init := True\<rparr>)"

subsection \<open>The board's LEDs\<close>

record board_leds =
  led_r :: "nat option"
  led_g :: "nat option"
  led_b :: "nat option"

definition LED_STOP :: "led_env \<Rightarrow> nat option \<Rightarrow> led_env option" where
  "LED_STOP env led = do { env \<leftarrow> agile_led_off env led; map_option snd (agile_led_stop env led) }"

definition LED_NetInComm :: "bool \<Rightarrow> board_leds \<Rightarrow> led_env \<Rightarrow> led_env option" where
  "LED_NetInComm mem_ok b env =
     do { env \<leftarrow> LED_STOP env (led_r b);
          env \<leftarrow> LED_STOP env (led_b b);
          (_, env) \<leftarrow> agile_led_set_light_mode env (led_g b) mem_ok (Some ''3200,10'') 1;
          map_option snd (agile_led_start env (led_g b)) }"

definition LED_NetFail :: "bool \<Rightarrow> board_leds \<Rightarrow> led_env \<Rightarrow> led_env option" where
  "LED_NetFail mem_ok b env =
     do { env \<leftarrow> LED_STOP env (led_r b);
          env \<leftarrow> LED_STOP env (led_b b);
          (_, env) \<leftarrow> agile_led_set_light_mode env (led_g b) mem_ok (Some ''250,250'') 6;
          map_option snd (agile_led_start env (led_g b)) }"

text \<open>The three pins and the memory the three allocations find are parameters.\<close>

definition BSP_LED_Init ::
  "u32 \<Rightarrow> u32 \<Rightarrow> u32 \<Rightarrow> nat option \<Rightarrow> nat option \<Rightarrow> nat option \<Rightarrow> led_env \<Rightarrow> (board_leds \<times> led_env) option" where
  "BSP_LED_Init pin_r pin_g pin_b new_r new_g new_b env =
     do { (r, env) \<leftarrow> agile_led_create env new_r True pin_r PIN_LOW (Some ''1000,2000'') 1;
          (g, env) \<leftarrow> agile_led_create env new_g True pin_g PIN_LOW (Some ''1000,2000'') 1;
          (b, env) \<leftarrow> agile_led_create env new_b True pin_b PIN_LOW (Some ''1000,2000'') 1;
          env \<leftarrow> LED_STOP env r;
          env \<leftarrow> LED_STOP env g;
          env \<leftarrow> LED_STOP env b;
          Some (\<lparr>led_r = r, led_g = g, led_b = b\<rparr>, env) }"

subsection \<open>Invariant\<close>

text \<open>
  An object is sound when its array holds the entries it claims to have; the running ones are those
  of the list, each once, and they have a pattern.
\<close>

definition led_ok :: "agile_led \<Rightarrow> bool" where
  "led_ok l \<longleftrightarrow> (case light_arr l of None \<Rightarrow> \<not> active l | Some a \<Rightarrow> unat (arr_num l) \<le> length a)"

definition led_inv :: "led_env \<Rightarrow> bool" where
  "led_inv env \<longleftrightarrow>
     is_init env \<and> distinct (slist_head env) \<and>
     (\<forall>p. p \<in> set (slist_head env) \<longleftrightarrow> (\<exists>l. led_mem env p = Some l \<and> active l)) \<and>
     (\<forall>p l. led_mem env p = Some l \<longrightarrow> led_ok l)"

lemma led_inv_rt_pin_write [simp]: "led_inv (rt_pin_write env pin v) = led_inv env"
  by (simp add: led_inv_def rt_pin_write_def)

lemma rt_pin_write_sel [simp]:
  "led_tick (rt_pin_write env pin v) = led_tick env" "led_mem (rt_pin_write env pin v) = led_mem env"
  "slist_head (rt_pin_write env pin v) = slist_head env" "led_done (rt_pin_write env pin v) = led_done env"
  "is_init (rt_pin_write env pin v) = is_init env" "led_pins (rt_pin_write env pin v) = (led_pins env)(pin := v)"
  by (simp_all add: rt_pin_write_def)





subsection \<open>The loop ends\<close>

lemma neg_word_u32: "0 < m \<Longrightarrow> m < 4294967296 \<Longrightarrow> unat (- of_nat m :: u32) = 4294967296 - m"
proof -
  assume m: "0 < m" "m < 4294967296"
  have "(- of_nat m :: u32) = of_nat (4294967296 - m)"
    using m by (simp add: of_nat_diff)
  moreover have "unat (of_nat (4294967296 - m) :: u32) = 4294967296 - m"
    using m by (intro unat_of_nat_lt) simp_all
  ultimately show ?thesis by (simp only:)
qed

lemma rt_tick_from_millisecond_id: "unat d < 2147483648 \<Longrightarrow> rt_tick_from_millisecond d = d"
proof -
  assume d: "unat d < 2147483648"
  have m: "unat d = 1000 * (unat d div 1000) + unat d mod 1000" by simp
  have a: "unat (1000 * (d div 1000)) = 1000 * (unat d div 1000)"
    using d by (subst unat_mult_lem [THEN iffD1]) (simp_all add: unat_div)
  have "unat (1000 * (d mod 1000)) = 1000 * (unat d mod 1000)"
    by (subst unat_mult_lem [THEN iffD1]) (simp_all add: unat_mod)
  then have "unat (1000 * (d mod 1000) + 999) = 1000 * (unat d mod 1000) + 999"
    by (subst unat_add_lt) simp_all
  then have b: "unat ((1000 * (d mod 1000) + 999) div 1000) = unat d mod 1000" by (simp add: unat_div)
  have "unat (1000 * (d div 1000) + (1000 * (d mod 1000) + 999) div 1000) = unat d"
    using m d by (subst unat_add_lt) (simp_all add: a b)
  then have "1000 * (d div 1000) + (1000 * (d mod 1000) + 999) div 1000 = d" by (simp only: word_unat_eq_iff)
  then show ?thesis using d sint_neg_u32 [of d] by (simp add: rt_tick_from_millisecond_def Let_def)
qed

definition led_due :: "led_env \<Rightarrow> agile_led \<Rightarrow> bool" where
  "led_due env l \<longleftrightarrow> led_tick env - tick_timeout l < RT_TICK_MAX div 2"

lemma led_due_now: "tick_timeout l = led_tick env \<Longrightarrow> led_due env l"
  by (simp add: led_due_def RT_TICK_MAX_def word_less_nat_alt unat_div)

definition entries_ok :: "u32 list \<Rightarrow> bool" where
  "entries_ok a \<longleftrightarrow> (\<forall>x \<in> set a. 0 < unat x \<and> unat x < 2147483648)"










subsection \<open>Every use of the library\<close>










text \<open>A callback that starts its object again, when it has loops to go and durations as entries.\<close>

definition led_again :: led_callbacks where
  "led_again f p env =
     (case led_mem env p of
       None \<Rightarrow> Some env
     | Some l \<Rightarrow>
         if loop_init l \<noteq> 0 \<and> (case light_arr l of None \<Rightarrow> False | Some a \<Rightarrow> arr_num l \<noteq> 0 \<and> entries_ok (take (unat (arr_num l)) a))
         then map_option snd (agile_led_start env (Some p)) else Some env)"




text \<open>A callback that starts its object again although its number of loops is 0: the loop stops it and calls back for ever.\<close>

lemma led_restart_never_returns:
  assumes "is_init env" "slist_head env = [p]" "led_mem env p = Some l" "active l" "loop_cnt l = 0" "loop_init l = 0"
    "light_arr l \<noteq> None" "arr_num l \<noteq> 0" "compelete l = Some f" "f \<noteq> agile_led_default_compelete_callback"
    and cbs: "\<And>env. cbs f p env = map_option snd (agile_led_start env (Some p))"
  shows "agile_led_process cbs env = None"
proof -
  define again where "again env \<longleftrightarrow> is_init env \<and> slist_head env = [p] \<and> (\<exists>l. led_mem env p = Some l \<and> active l \<and> loop_cnt l = 0 \<and>
    loop_init l = 0 \<and> light_arr l \<noteq> None \<and> arr_num l \<noteq> 0 \<and> compelete l = Some f)" for env :: led_env
  have loop: "c = cbs \<longrightarrow> \<not> (nodes = [p] \<and> again env)" if "led_process_loop c nodes env = Some env'" for c nodes env env'
    using that
  proof (induction rule: led_process_loop.raw_induct [rotated, consumes 1, case_names body])
    case (body loop c nodes env env')
    show ?case
    proof (intro impI notI)
      assume c: "c = cbs" and a: "nodes = [p] \<and> again env"
      then obtain l where l: "is_init env" "slist_head env = [p]" "led_mem env p = Some l" "active l" "loop_cnt l = 0" "loop_init l = 0"
        "light_arr l \<noteq> None" "arr_num l \<noteq> 0" "compelete l = Some f" by (auto simp: again_def)
      define l1 where "l1 = l\<lparr>active := False\<rparr>"
      define env1 where "env1 = env\<lparr>led_mem := (led_mem env)(p := Some l1), slist_head := []\<rparr>"
      have stop: "agile_led_stop env (Some p) = Some (RT_EOK, env1)"
        using l by (simp add: agile_led_stop_def led_at_def led_lock_def led_put_def env1_def l1_def)
      define env2 where "env2 = (led_put (env1\<lparr>led_done := led_done env1 @ [p]\<rparr>) p (l1\<lparr>arr_index := 0, loop_cnt := 0, tick_timeout := led_tick env, active := True\<rparr>))
        \<lparr>slist_head := [p]\<rparr>"
      have cb: "led_complete cbs (Some f) p env1 = Some env2"
        using l assms(10) by (auto simp: led_complete_def cbs agile_led_start_def led_at_def led_lock_def Let_def env1_def env2_def l1_def led_put_def)
      have "again env2" using l by (auto simp: again_def env2_def env1_def l1_def led_put_def)
      moreover have "loop cbs [p] env2 = Some env'" using body(2) a c l stop cb by (simp add: env2_def)
      ultimately show False using body(1) by blast
    qed
  qed
  have "again env" using assms by (simp add: again_def)
  then have "led_process_loop cbs [p] env = None" using loop by (cases "led_process_loop cbs [p] env") auto
  then show ?thesis using assms(1,2) by (simp add: agile_led_process_def led_lock_def)
qed

subsection \<open>The blink pattern\<close>

text \<open>A call of \<open>agile_led_process\<close> in every tick, \<open>n\<close> times.\<close>

fun led_run :: "led_callbacks \<Rightarrow> nat \<Rightarrow> led_env \<Rightarrow> led_env option" where
  "led_run cbs 0 env = Some env"
| "led_run cbs (Suc n) env = do { env \<leftarrow> agile_led_process cbs env; led_run cbs n (env\<lparr>led_tick := led_tick env + 1\<rparr>) }"

text \<open>
  The reference: the entries are durations, the first one lit, then dark and lit in turn; after the last
  entry its level stays.
\<close>

fun wave :: "u32 list \<Rightarrow> bool \<Rightarrow> nat \<Rightarrow> bool" where
  "wave [] b t \<longleftrightarrow> \<not> b"
| "wave (x # xs) b t \<longleftrightarrow> (if t < unat x then b else wave xs (\<not> b) (t - unat x))"

definition duration :: "u32 list \<Rightarrow> nat" where "duration a = sum_list (map unat a)"

lemma duration_simps [simp]: "duration [] = 0" "duration (x # xs) = unat x + duration xs"
  by (simp_all add: duration_def)

definition lit :: "u32 \<Rightarrow> bool \<Rightarrow> u32" where "lit logic b = (if b then logic else c_not logic)"

lemma led_run_add: "led_run cbs (m + n) env = do { e \<leftarrow> led_run cbs m env; led_run cbs n e }"
  by (induction m arbitrary: env) (auto split: Option.bind_splits)

lemma led_run_from: "led_run cbs m env = Some e \<Longrightarrow> k = m + n \<Longrightarrow> led_run cbs k env = led_run cbs n e"
  by (simp add: led_run_add)

text \<open>A state in which \<open>l\<close>, of the pattern \<open>a\<close>, is the only running object.\<close>

definition led_only :: "led_env \<Rightarrow> nat \<Rightarrow> agile_led \<Rightarrow> u32 list \<Rightarrow> bool" where
  "led_only env p l a \<longleftrightarrow>
     is_init env \<and> slist_head env = [p] \<and> led_mem env p = Some l \<and> active l \<and>
     light_arr l = Some a \<and> unat (arr_num l) = length a"

lemma process_only:
  assumes "led_only env p l a" "loop_cnt l \<noteq> 0" "led_turn env p l = Some env'"
  shows "agile_led_process cbs env = Some env'"
  using assms by (simp add: agile_led_process_def led_only_def led_lock_def led_process_loop_Cons)

lemma process_waits:
  assumes "led_only env p l a" "loop_cnt l \<noteq> 0" "\<not> led_due env l"
  shows "agile_led_process cbs env = Some env"
  by (rule process_only [OF assms(1,2)]) (use assms(3) in \<open>simp add: led_turn_def led_due_def\<close>)

lemma led_skip_here:
  assumes "led_only env p l a" "unat (arr_index l) < length a" "a ! unat (arr_index l) \<noteq> 0"
  shows "led_skip (light_arr l) (arr_num l) (arr_index l) = Some (arr_index l)"
  using assms by (subst led_skip.simps) (simp add: led_only_def word_less_nat_alt)

lemma mod2_word: "(i mod 2 \<noteq> 0) = odd (unat i)" for i :: u32
  by (simp add: word_unat_eq_iff unat_mod odd_iff_mod_2_eq_one)

lemma process_next:
  assumes only: "led_only env p l a" and due: "led_due env l" and cnt: "loop_cnt l \<noteq> 0"
    and i: "unat (arr_index l) < length a" and nz: "a ! unat (arr_index l) \<noteq> 0"
  shows "agile_led_process cbs env =
    Some (led_put (rt_pin_write env (led_pin l) (lit (active_logic l) (even (unat (arr_index l))))) p
      (l\<lparr>tick_timeout := led_tick env + rt_tick_from_millisecond (a ! unat (arr_index l)),
         arr_index := arr_index l + 1\<rparr>))"
proof (rule process_only [OF only cnt])
  have lt: "arr_index l < arr_num l" using only i by (simp add: led_only_def word_less_nat_alt)
  show "led_turn env p l =
    Some (led_put (rt_pin_write env (led_pin l) (lit (active_logic l) (even (unat (arr_index l))))) p
      (l\<lparr>tick_timeout := led_tick env + rt_tick_from_millisecond (a ! unat (arr_index l)),
         arr_index := arr_index l + 1\<rparr>))"
    using only due lt i led_skip_here [OF only i nz] mod2_word [of "arr_index l"]
    by (auto simp: led_turn_def led_due_def led_only_def agile_led_on_def agile_led_off_def led_at_def lit_def Let_def)
qed

lemma process_wraps:
  assumes only: "led_only env p l a" and due: "led_due env l" and cnt: "loop_cnt l \<noteq> 0"
    and i: "arr_index l = arr_num l"
  shows "agile_led_process cbs env =
    Some (led_put env p (l\<lparr>arr_index := 0, loop_cnt := (if sint (loop_cnt l) > 0 then loop_cnt l - 1 else loop_cnt l)\<rparr>))"
proof (rule process_only [OF only cnt])
  have "led_skip (light_arr l) (arr_num l) (arr_index l) = Some (arr_index l)"
    using i by (subst led_skip.simps) simp
  then show "led_turn env p l =
    Some (led_put env p (l\<lparr>arr_index := 0, loop_cnt := (if sint (loop_cnt l) > 0 then loop_cnt l - 1 else loop_cnt l)\<rparr>))"
    using due i by (simp add: led_turn_def led_due_def Let_def)
qed

lemma process_calls_back:
  assumes only: "led_only env p l a" and "loop_cnt l = 0"
  shows "\<exists>e1. agile_led_process cbs env = do { e2 \<leftarrow> led_complete cbs (compelete l) p e1; led_process_loop cbs (slist_head e2) e2 } \<and>
    slist_head e1 = [] \<and> led_pins e1 = led_pins env \<and> led_mem e1 = (led_mem env)(p := Some (l\<lparr>active := False\<rparr>)) \<and> led_done e1 = led_done env"
  using assms
  by (auto simp: agile_led_process_def led_only_def led_lock_def led_process_loop_Cons agile_led_stop_def led_at_def led_put_def Let_def
      intro!: exI [of _ "env\<lparr>led_mem := (led_mem env)(p \<mapsto> l\<lparr>active := False\<rparr>), slist_head := []\<rparr>"])

lemma process_stops:
  assumes only: "led_only env p l a" and "loop_cnt l = 0" and "compelete l \<in> {None, Some agile_led_default_compelete_callback}"
  shows "\<exists>env'. agile_led_process cbs env = Some env' \<and> slist_head env' = [] \<and> led_pins env' = led_pins env \<and>
    led_mem env' = (led_mem env)(p := Some (l\<lparr>active := False\<rparr>)) \<and>
    led_done env' = led_done env @ (if compelete l = None then [] else [p])"
  using assms
  by (auto simp: agile_led_process_def led_only_def led_lock_def led_process_loop_Cons agile_led_stop_def led_at_def
      led_put_def Let_def led_complete_def led_default_complete_def)

lemma led_only_tick [simp]: "led_only (env\<lparr>led_tick := t\<rparr>) p l a = led_only env p l a"
  by (simp add: led_only_def)

lemma led_only_pin [simp]: "led_only (rt_pin_write env pin v) p l a = led_only env p l a"
  by (simp add: led_only_def)

lemma led_only_put:
  "led_only env p l a \<Longrightarrow> active l' \<Longrightarrow> light_arr l' = light_arr l \<Longrightarrow> arr_num l' = arr_num l \<Longrightarrow>
    led_only (led_put env p l') p l' a"
  by (simp add: led_only_def led_put_def)

text \<open>Before its time an object is left alone.\<close>

lemma led_run_waits:
  assumes "led_only env p l a" "loop_cnt l \<noteq> 0"
    "tick_timeout l = led_tick env + of_nat m" "m < 2147483648" "k \<le> m"
  shows "led_run cbs k env = Some (env\<lparr>led_tick := led_tick env + of_nat k\<rparr>)"
  using assms(1,3-5)
proof (induction k arbitrary: env m)
  case (Suc k)
  have "led_tick env - tick_timeout l = - of_nat m" by (simp add: Suc.prems(2))
  moreover have "unat (- of_nat m :: u32) = 4294967296 - m"
    using Suc.prems(3,4) by (intro neg_word_u32) simp_all
  ultimately have "\<not> led_due env l"
    using Suc.prems(3,4) by (simp add: led_due_def word_less_nat_alt RT_TICK_MAX_def unat_div)
  then have proc: "agile_led_process cbs env = Some env" using process_waits [OF Suc.prems(1) assms(2)] by blast
  have "tick_timeout l = led_tick (env\<lparr>led_tick := led_tick env + 1\<rparr>) + of_nat (m - 1)"
    using Suc.prems(2,4) by (cases m) simp_all
  then have "led_run cbs k (env\<lparr>led_tick := led_tick env + 1\<rparr>) =
      Some (env\<lparr>led_tick := led_tick env + 1 + of_nat k\<rparr>)"
    using Suc.IH [of "env\<lparr>led_tick := led_tick env + 1\<rparr>" "m - 1"] Suc.prems by simp
  then show ?case using proc by (simp add: add.assoc)
qed simp

text \<open>
  Where a run of calls leaves the single object: the same pattern and counters, the pin at level \<open>b\<close>,
  \<open>t\<close> ticks later.
\<close>

definition led_then :: "led_env \<Rightarrow> nat \<Rightarrow> agile_led \<Rightarrow> u32 list \<Rightarrow> led_env \<Rightarrow> agile_led \<Rightarrow> bool" where
  "led_then env p l a env' l' \<longleftrightarrow>
     led_only env' p l' a \<and> loop_cnt l' = loop_cnt l \<and> loop_init l' = loop_init l \<and> led_pin l' = led_pin l \<and>
     active_logic l' = active_logic l \<and> compelete l' = compelete l \<and> led_done env' = led_done env"

lemma led_then_trans: "led_then env p l a e1 l1 \<Longrightarrow> led_then e1 p l1 a e2 l2 \<Longrightarrow> led_then env p l a e2 l2"
  by (simp add: led_then_def)

lemma led_entry:
  assumes only: "led_only env p l a" and due: "led_due env l" and cnt: "loop_cnt l \<noteq> 0"
    and i: "unat (arr_index l) < length a" and x: "a ! unat (arr_index l) = x" "0 < unat x" "unat x < 2147483648"
  shows "\<exists>env1 l1. led_then env p l a env1 l1 \<and> tick_timeout l1 = led_tick env1 + x - 1 \<and>
    arr_index l1 = arr_index l + 1 \<and>
    led_pins env1 (led_pin l) = lit (active_logic l) (even (unat (arr_index l))) \<and>
    (\<forall>k<unat x. led_run cbs (Suc k) env = Some (env1\<lparr>led_tick := led_tick env1 + of_nat k\<rparr>))"
proof -
  define l1 where "l1 = l\<lparr>tick_timeout := led_tick env + x, arr_index := arr_index l + 1\<rparr>"
  define e where "e = led_put (rt_pin_write env (led_pin l) (lit (active_logic l) (even (unat (arr_index l))))) p l1"
  define env1 where "env1 = e\<lparr>led_tick := led_tick env + 1\<rparr>"
  have "a ! unat (arr_index l) \<noteq> 0" using x by auto
  then have proc: "agile_led_process cbs env = Some e"
    using process_next [OF only due cnt i] x by (simp add: e_def l1_def rt_tick_from_millisecond_id)
  have only1: "led_only env1 p l1 a"
    unfolding env1_def e_def led_only_tick
    by (rule led_only_put [where l = l]) (use only in \<open>simp_all add: l1_def led_only_def\<close>)
  have tick: "led_tick e = led_tick env" "led_tick env1 = led_tick env + 1"
    by (simp_all add: env1_def e_def led_put_def)
  have then1: "led_then env p l a env1 l1"
    using only1 by (simp add: led_then_def l1_def env1_def e_def led_put_def)
  have "tick_timeout l1 = led_tick env1 + of_nat (unat x - 1)"
    using x(2) by (simp add: l1_def env1_def of_nat_diff word_of_nat_unat)
  then have wait: "led_run cbs k env1 = Some (env1\<lparr>led_tick := led_tick env1 + of_nat k\<rparr>)" if "k < unat x" for k
    using led_run_waits [of env1 p l1 a "unat x - 1" k] only1 that cnt x by (simp add: l1_def)
  have "led_run cbs (Suc k) env = Some (env1\<lparr>led_tick := led_tick env1 + of_nat k\<rparr>)" if "k < unat x" for k
    using wait [OF that] proc tick by (simp add: env1_def)
  then show ?thesis
    using then1 by (intro exI [of _ env1] exI [of _ l1]) (simp add: l1_def env1_def e_def led_put_def)
qed

lemma led_then_tick [simp]: "led_then env p l a (e\<lparr>led_tick := t\<rparr>) l' = led_then env p l a e l'"
  by (simp add: led_then_def)

text \<open>From an entry that is due to the end of the array.\<close>

lemma led_segments:
  assumes "led_only env p l a" "led_due env l" "loop_cnt l \<noteq> 0" "entries_ok a"
    "xs = drop (unat (arr_index l)) a" "unat (arr_index l) \<le> length a"
  shows "(\<forall>t < duration xs. \<exists>e. led_run cbs (Suc t) env = Some e \<and>
      led_pins e (led_pin l) = lit (active_logic l) (wave xs (even (unat (arr_index l))) t)) \<and>
    (\<exists>e l'. led_run cbs (duration xs) env = Some e \<and> led_then env p l a e l' \<and>
      arr_index l' = arr_num l' \<and> (xs \<noteq> [] \<longrightarrow> tick_timeout l' = led_tick e \<and>
      led_pins e (led_pin l) = lit (active_logic l) (wave xs (even (unat (arr_index l))) (duration xs))))"
  using assms
proof (induction xs arbitrary: env l)
  case Nil
  then have "arr_index l = arr_num l" by (simp add: word_unat_eq_iff led_only_def)
  then show ?case using Nil by (auto simp: led_then_def intro!: exI [of _ l])
next
  case (Cons x xs)
  let ?i = "unat (arr_index l)" and ?b = "even (unat (arr_index l))"
  have i: "?i < length a" using Cons.prems(5) by (metis drop_all list.distinct(1) not_le)
  have ax: "a ! ?i = x" and xs: "xs = drop (Suc ?i) a"
    using Cons.prems(5) Cons_nth_drop_Suc [OF i] by (metis list.inject)+
  have x: "0 < unat x" "unat x < 2147483648" using Cons.prems(4) i ax nth_mem [OF i] by (auto simp: entries_ok_def)
  obtain env1 l1 where e1: "led_then env p l a env1 l1" "tick_timeout l1 = led_tick env1 + x - 1"
    "arr_index l1 = arr_index l + 1" "led_pins env1 (led_pin l) = lit (active_logic l) ?b"
    "\<And>k. k < unat x \<Longrightarrow> led_run cbs (Suc k) env = Some (env1\<lparr>led_tick := led_tick env1 + of_nat k\<rparr>)"
    using led_entry [OF Cons.prems(1-3) i ax x] by blast
  define e where "e = env1\<lparr>led_tick := led_tick env1 + x - 1\<rparr>"
  have run_x: "led_run cbs (unat x) env = Some e"
    using e1(5) [of "unat x - 1"] x(1) by (simp add: e_def of_nat_diff word_of_nat_unat algebra_simps)
  have "arr_index l < arr_num l" using i Cons.prems(1) by (simp add: led_only_def word_less_nat_alt)
  then have i1: "unat (arr_index l1) = Suc ?i" using u32_suc_below e1(3) by simp
  have th: "led_then env p l a e l1" using e1(1) by (simp add: e_def)
  then have only1: "led_only e p l1 a" and same: "led_pin l1 = led_pin l" "active_logic l1 = active_logic l"
    and cnt1: "loop_cnt l1 \<noteq> 0"
    using Cons.prems(3) by (simp_all add: led_then_def)
  have now: "tick_timeout l1 = led_tick e" using e1(2) by (simp add: e_def)
  note due1 = led_due_now [OF now]
  have IH1: "\<exists>e'. led_run cbs (Suc t) e = Some e' \<and>
      led_pins e' (led_pin l) = lit (active_logic l) (wave xs (\<not> ?b) t)" if "t < duration xs" for t
    using Cons.IH [OF only1 due1 cnt1 Cons.prems(4)] i i1 xs same that by simp
  obtain e2 l2 where e2: "led_run cbs (duration xs) e = Some e2" "led_then e p l1 a e2 l2"
    "arr_index l2 = arr_num l2"
    "xs \<noteq> [] \<longrightarrow> tick_timeout l2 = led_tick e2 \<and> led_pins e2 (led_pin l) = lit (active_logic l) (wave xs (\<not> ?b) (duration xs))"
    using Cons.IH [OF only1 due1 cnt1 Cons.prems(4)] i i1 xs same by auto
  have pins_e: "led_pins e (led_pin l) = lit (active_logic l) ?b" using e1(4) by (simp add: e_def)
  have "\<exists>e'. led_run cbs (Suc t) env = Some e' \<and>
      led_pins e' (led_pin l) = lit (active_logic l) (wave (x # xs) ?b t)" if t: "t < duration (x # xs)" for t
  proof (cases "t < unat x")
    case True
    then show ?thesis using e1(4,5) by simp
  next
    case False
    then have "led_run cbs (Suc t) env = led_run cbs (Suc (t - unat x)) e" by (intro led_run_from [OF run_x]) simp
    then show ?thesis using IH1 [of "t - unat x"] t False by simp
  qed
  moreover have "led_run cbs (duration (x # xs)) env = Some e2" using led_run_add run_x e2(1) by simp
  moreover have "led_then env p l a e2 l2" using led_then_trans [OF th e2(2)] .
  moreover have "led_pins e2 (led_pin l) = lit (active_logic l) (wave (x # xs) ?b (duration (x # xs)))"
    using e2(1,4) pins_e by (cases "xs = []") simp_all
  moreover have "tick_timeout l2 = led_tick e2"
  proof (cases "xs = []")
    case True
    then have "e2 = e" using e2(1) by simp
    moreover have "led_mem e p = Some l1" "led_mem e2 p = Some l2" using only1 e2(2) by (simp_all add: led_then_def led_only_def)
    ultimately show ?thesis using now by simp
  qed (use e2(4) in blast)
  ultimately show ?case using e2(3) by blast
qed

text \<open>A cycle: the pattern and one more tick.\<close>

lemma led_cycle:
  assumes only: "led_only env p l a" and due: "led_due env l" and cnt: "loop_cnt l \<noteq> 0" and ok: "entries_ok a"
    and i: "arr_index l = 0" and ne: "a \<noteq> []"
  defines "cnt' \<equiv> (if sint (loop_cnt l) > 0 then loop_cnt l - 1 else loop_cnt l)"
  shows "(\<forall>t \<le> duration a. \<exists>e. led_run cbs (Suc t) env = Some e \<and>
      led_pins e (led_pin l) = lit (active_logic l) (wave a True t)) \<and>
    (\<exists>e l'. led_run cbs (Suc (duration a)) env = Some e \<and> led_only e p l' a \<and> led_due e l' \<and> arr_index l' = 0 \<and>
      loop_cnt l' = cnt' \<and> led_pin l' = led_pin l \<and> active_logic l' = active_logic l \<and>
      compelete l' = compelete l \<and> led_done e = led_done env)"
proof -
  have "a = drop (unat (arr_index l)) a" "unat (arr_index l) \<le> length a" using i by simp_all
  from led_segments [where cbs = cbs, OF only due cnt ok this] ne i
  obtain e l1 where early: "\<And>t. t < duration a \<Longrightarrow> \<exists>e. led_run cbs (Suc t) env = Some e \<and>
      led_pins e (led_pin l) = lit (active_logic l) (wave a True t)"
    and e: "led_run cbs (duration a) env = Some e" "led_then env p l a e l1" "tick_timeout l1 = led_tick e"
    "arr_index l1 = arr_num l1" "led_pins e (led_pin l) = lit (active_logic l) (wave a True (duration a))"
    by auto
  have only1: "led_only e p l1 a" "loop_cnt l1 = loop_cnt l" "led_pin l1 = led_pin l"
    "active_logic l1 = active_logic l" "compelete l1 = compelete l" "led_done e = led_done env"
    using e(2) by (simp_all add: led_then_def)
  define l2 where "l2 = l1\<lparr>arr_index := 0, loop_cnt := cnt'\<rparr>"
  define e2 where "e2 = (led_put e p l2)\<lparr>led_tick := led_tick e + 1\<rparr>"
  have "loop_cnt l1 \<noteq> 0" using cnt only1(2) by simp
  from process_wraps [OF only1(1) led_due_now [OF e(3)] this e(4)]
  have "agile_led_process cbs e = Some (led_put e p l2)" by (simp add: l2_def cnt'_def only1(2))
  then have "led_run cbs (Suc 0) e = Some e2" by (simp add: e2_def led_put_def)
  then have run: "led_run cbs (Suc (duration a)) env = Some e2"
    using led_run_add [of cbs "duration a" "Suc 0" env] e(1) by simp
  have only2: "led_only e2 p l2 a"
    unfolding e2_def led_only_tick
    by (rule led_only_put [OF only1(1)]) (use only1(1) in \<open>simp_all add: l2_def led_only_def\<close>)
  have "tick_timeout l2 = led_tick e2 - 1" by (simp add: e(3) e2_def led_put_def l2_def)
  then have due2: "led_due e2 l2" by (simp add: led_due_def RT_TICK_MAX_def word_less_nat_alt unat_div)
  have "led_pins e2 (led_pin l) = lit (active_logic l) (wave a True (duration a))"
    using e(5) by (simp add: e2_def led_put_def)
  then have "\<exists>e. led_run cbs (Suc t) env = Some e \<and> led_pins e (led_pin l) = lit (active_logic l) (wave a True t)"
    if "t \<le> duration a" for t
    using that early run by (cases "t = duration a") auto
  moreover have "arr_index l2 = 0" "loop_cnt l2 = cnt'" "led_pin l2 = led_pin l" "active_logic l2 = active_logic l"
    "compelete l2 = compelete l" "led_done e2 = led_done env"
    by (simp_all add: l2_def only1 e2_def led_put_def)
  ultimately show ?thesis using run only2 due2 by blast
qed

text \<open>All cycles.\<close>

lemma led_cycles:
  assumes "led_only env p l a" "led_due env l" "entries_ok a" "arr_index l = 0" "a \<noteq> []"
    "loop_cnt l \<noteq> 0" "0 \<le> sint (loop_cnt l) \<longrightarrow> t < unat (loop_cnt l) * Suc (duration a)"
  shows "\<exists>e. led_run cbs (Suc t) env = Some e \<and>
    led_pins e (led_pin l) = lit (active_logic l) (wave a True (t mod Suc (duration a)))"
  using assms
proof (induction t arbitrary: env l rule: less_induct)
  case (less t)
  let ?S = "Suc (duration a)"
  note C = led_cycle [where cbs = cbs, OF less.prems(1,2,6,3,4,5)]
  show ?case
  proof (cases "t < ?S")
    case True
    then show ?thesis using C by (simp add: less_Suc_eq_le)
  next
    case False
    obtain e l' where e: "led_run cbs ?S env = Some e" "led_only e p l' a" "led_due e l'" "arr_index l' = 0"
      "loop_cnt l' = (if sint (loop_cnt l) > 0 then loop_cnt l - 1 else loop_cnt l)" "led_pin l' = led_pin l"
      "active_logic l' = active_logic l"
      using C by blast
    have cnt: "loop_cnt l' \<noteq> 0 \<and> (0 \<le> sint (loop_cnt l') \<longrightarrow> t - ?S < unat (loop_cnt l') * ?S)"
    proof (cases "sint (loop_cnt l) > 0")
      case True
      then have lt: "t < unat (loop_cnt l) * ?S" using less.prems(7) by simp
      have n: "unat (loop_cnt l') = unat (loop_cnt l) - 1"
        using e(5) True less.prems(6) by (simp add: unat_minus_one)
      have "?S < unat (loop_cnt l) * ?S" using lt False by (meson le_less_trans not_less)
      then have "1 * ?S < unat (loop_cnt l) * ?S" by (simp only: mult_1)
      then have "1 < unat (loop_cnt l)" by (simp only: mult_less_cancel2)
      then have "loop_cnt l' \<noteq> 0" using n by auto
      moreover have "unat (loop_cnt l') * ?S = unat (loop_cnt l) * ?S - ?S" by (simp only: n diff_mult_distrib mult_1)
      moreover have "t - ?S < unat (loop_cnt l) * ?S - ?S" using lt False by (intro diff_less_mono) (simp_all only: not_less)
      ultimately show ?thesis by (simp only: simp_thms)
    next
      case False
      moreover have "sint (loop_cnt l) \<noteq> 0" using less.prems(6) signed_word_eqI [of "loop_cnt l" 0] by auto
      ultimately have "loop_cnt l' = loop_cnt l" "sint (loop_cnt l) < 0" using e(5) by auto
      then show ?thesis using less.prems(6) by simp
    qed
    have "t - ?S < t" using False by simp
    from less.IH [OF this e(2,3) less.prems(3) e(4) less.prems(5) conjunct1 [OF cnt] conjunct2 [OF cnt]]
    obtain e' where "led_run cbs (Suc (t - ?S)) e = Some e'"
      "led_pins e' (led_pin l) = lit (active_logic l) (wave a True ((t - ?S) mod ?S))"
      using e(6,7) by auto
    moreover have "led_run cbs (Suc t) env = led_run cbs (Suc (t - ?S)) e"
      by (rule led_run_from [OF e(1)]) (use False in simp)
    moreover have "(t - ?S) mod ?S = t mod ?S" using False by (simp add: le_mod_geq)
    ultimately show ?thesis by simp
  qed
qed

lemma led_cycles_over:
  assumes "led_only env p l a" "led_due env l" "entries_ok a" "arr_index l = 0" "a \<noteq> []"
    "0 \<le> sint (loop_cnt l)"
  shows "\<exists>e l'. led_run cbs (unat (loop_cnt l) * Suc (duration a)) env = Some e \<and> led_only e p l' a \<and>
    loop_cnt l' = 0 \<and> compelete l' = compelete l \<and> led_done e = led_done env"
  using assms
proof (induction "unat (loop_cnt l)" arbitrary: env l)
  case 0
  then have "loop_cnt l = 0" by (simp add: word_unat_eq_iff)
  then show ?case using 0 by auto
next
  case (Suc n)
  let ?S = "Suc (duration a)"
  have cnt: "loop_cnt l \<noteq> 0" using Suc.hyps(2) by auto
  moreover have "sint (loop_cnt l) \<noteq> 0" using cnt signed_word_eqI [of "loop_cnt l" 0] by auto
  ultimately have pos: "sint (loop_cnt l) > 0" using Suc.prems(6) by simp
  obtain e l' where e: "led_run cbs ?S env = Some e" "led_only e p l' a" "led_due e l'" "arr_index l' = 0"
    "loop_cnt l' = loop_cnt l - 1" "compelete l' = compelete l" "led_done e = led_done env"
    using led_cycle [where cbs = cbs, OF Suc.prems(1,2) cnt Suc.prems(3,4,5)] pos by auto
  have n: "n = unat (loop_cnt l')" using e(5) cnt Suc.hyps(2) by (simp add: unat_minus_one)
  have "0 \<le> sint (loop_cnt l')"
    using pos sint_neg_u32 [of "loop_cnt l"] sint_neg_u32 [of "loop_cnt l'"] n Suc.hyps(2) by linarith
  from Suc.hyps(1) [OF n e(2,3) Suc.prems(3) e(4) Suc.prems(5) this]
  obtain e2 l2 where e2: "led_run cbs (n * ?S) e = Some e2" "led_only e2 p l2 a" "loop_cnt l2 = 0"
    "compelete l2 = compelete l'" "led_done e2 = led_done e"
    unfolding n by blast
  have "led_run cbs (?S + n * ?S) env = Some e2" by (simp only: led_run_add e(1) e2(1) bind.simps Option.bind_lunit)
  then have "led_run cbs (unat (loop_cnt l) * ?S) env = Some e2" by (simp only: Suc.hyps(2) [symmetric] mult_Suc)
  then show ?case using e2 e(6,7) by auto
qed

text \<open>C38: With no other object running, \<open>agile_led_start\<close> and a call of \<open>agile_led_process\<close> in every tick make
  the pin follow the object's array: the first entry's number of ticks lit, the second's dark, and so on, then one
  more tick at the last level, and again; after the object's number of loops it is stopped and is in no list any more,
  and then its callback is called, any one, on that state; when it is the library's default one it has been called once
  and nothing else happens. With a negative number of loops the
  pattern goes on for ever. The entries of the array are durations below \<open>2 ^ 31\<close>, and the number of loops is not 0.\<close>

theorem agile_led_blinks:
  assumes "is_init env" "slist_head env = []" "led_mem env p = Some l" "\<not> active l"
    "light_arr l = Some a" "unat (arr_num l) = length a" "entries_ok a" "a \<noteq> []" "loop_init l \<noteq> 0"
  shows "\<exists>env0. agile_led_start env (Some p) = Some (RT_EOK, env0) \<and>
    (\<forall>t. sint (loop_init l) < 0 \<or> t < unat (loop_init l) * (duration a + 1) \<longrightarrow>
      (\<exists>e. led_run cbs (t + 1) env0 = Some e \<and>
        led_pins e (led_pin l) = lit (active_logic l) (wave a True (t mod (duration a + 1))))) \<and>
    (0 < sint (loop_init l) \<longrightarrow>
      (\<exists>e e1. led_run cbs (unat (loop_init l) * (duration a + 1)) env0 = Some e \<and>
        agile_led_process cbs e = do { e2 \<leftarrow> led_complete cbs (compelete l) p e1; led_process_loop cbs (slist_head e2) e2 } \<and>
        slist_head e1 = [] \<and> (\<exists>l'. led_mem e1 p = Some l' \<and> \<not> active l') \<and> led_done e1 = led_done env)) \<and>
    (0 < sint (loop_init l) \<longrightarrow> compelete l \<in> {None, Some agile_led_default_compelete_callback} \<longrightarrow>
      (\<exists>e. led_run cbs (unat (loop_init l) * (duration a + 1) + 1) env0 = Some e \<and> slist_head e = [] \<and>
        (\<exists>l'. led_mem e p = Some l' \<and> \<not> active l') \<and>
        led_done e = led_done env @ (if compelete l = None then [] else [p])))"
proof -
  define l0 where "l0 = l\<lparr>arr_index := 0, loop_cnt := loop_init l, tick_timeout := led_tick env, active := True\<rparr>"
  define env0 where "env0 = (led_put env p l0)\<lparr>slist_head := [p]\<rparr>"
  have "arr_num l \<noteq> 0" using assms(6,8) by auto
  then have start: "agile_led_start env (Some p) = Some (RT_EOK, env0)"
    using assms by (simp add: agile_led_start_def led_at_def led_lock_def env0_def l0_def Let_def)
  have only: "led_only env0 p l0 a"
    using assms by (simp add: led_only_def env0_def l0_def led_put_def)
  have due: "led_due env0 l0" by (rule led_due_now) (simp add: l0_def env0_def led_put_def)
  have l0: "arr_index l0 = 0" "loop_cnt l0 = loop_init l" "led_pin l0 = led_pin l" "active_logic l0 = active_logic l"
    "compelete l0 = compelete l" "led_done env0 = led_done env"
    by (simp_all add: l0_def env0_def led_put_def)
  have "\<exists>e. led_run cbs (t + 1) env0 = Some e \<and>
        led_pins e (led_pin l) = lit (active_logic l) (wave a True (t mod (duration a + 1)))"
    if "sint (loop_init l) < 0 \<or> t < unat (loop_init l) * (duration a + 1)" for t
    using led_cycles [where cbs = cbs, OF only due assms(7) l0(1) assms(8), of t] that assms(9) l0 by auto
  moreover have "\<exists>e. led_run cbs (unat (loop_init l) * (duration a + 1) + 1) env0 = Some e \<and> slist_head e = [] \<and>
        (\<exists>l'. led_mem e p = Some l' \<and> \<not> active l') \<and>
        led_done e = led_done env @ (if compelete l = None then [] else [p])"
    if pos: "0 < sint (loop_init l)" and c: "compelete l \<in> {None, Some agile_led_default_compelete_callback}"
  proof -
    obtain e l' where e: "led_run cbs (unat (loop_init l) * Suc (duration a)) env0 = Some e" "led_only e p l' a"
      "loop_cnt l' = 0" "compelete l' = compelete l" "led_done e = led_done env"
      using led_cycles_over [where cbs = cbs, OF only due assms(7) l0(1) assms(8)] pos l0 by auto
    obtain e' where e': "agile_led_process cbs e = Some e'" "slist_head e' = []"
      "led_mem e' = (led_mem e)(p := Some (l'\<lparr>active := False\<rparr>))"
      "led_done e' = led_done e @ (if compelete l' = None then [] else [p])"
      using process_stops [OF e(2,3), of cbs] c e(4) by auto
    have "led_run cbs (unat (loop_init l) * (duration a + 1) + 1) env0 = Some (e'\<lparr>led_tick := led_tick e' + 1\<rparr>)"
      using led_run_add [of cbs "unat (loop_init l) * Suc (duration a)" "Suc 0" env0] e(1) e'(1) by simp
    then show ?thesis using e e' by simp
  qed
  moreover have "\<exists>e e1. led_run cbs (unat (loop_init l) * (duration a + 1)) env0 = Some e \<and>
        agile_led_process cbs e = do { e2 \<leftarrow> led_complete cbs (compelete l) p e1; led_process_loop cbs (slist_head e2) e2 } \<and>
        slist_head e1 = [] \<and> (\<exists>l'. led_mem e1 p = Some l' \<and> \<not> active l') \<and> led_done e1 = led_done env"
    if pos: "0 < sint (loop_init l)"
  proof -
    obtain e l' where e: "led_run cbs (unat (loop_init l) * Suc (duration a)) env0 = Some e" "led_only e p l' a"
      "loop_cnt l' = 0" "compelete l' = compelete l" "led_done e = led_done env"
      using led_cycles_over [where cbs = cbs, OF only due assms(7) l0(1) assms(8)] pos l0 by auto
    obtain e1 where "agile_led_process cbs e = do { e2 \<leftarrow> led_complete cbs (compelete l') p e1; led_process_loop cbs (slist_head e2) e2 }"
      "slist_head e1 = []" "led_mem e1 = (led_mem e)(p := Some (l'\<lparr>active := False\<rparr>))" "led_done e1 = led_done e"
      using process_calls_back [OF e(2,3), of cbs] by blast
    then show ?thesis using e by (intro exI [of _ e] exI [of _ e1]) simp
  qed
  ultimately show ?thesis using start by blast
qed

text \<open>The pattern of three ticks lit and two dark, twice.\<close>

theorem agile_led_blinks_witness:
  "\<exists>l env0. agile_led_start \<lparr>is_init = True, slist_head = [], led_mem = [5 \<mapsto> l], led_pins = (\<lambda>_. 1), led_tick = 0xfffffffe,
       led_done = []\<rparr> (Some 5) = Some (RT_EOK, env0) \<and> light_arr l = Some [3, 2] \<and>
     (\<exists>e. led_run led_again 11 env0 = Some e \<and> led_pins e 7 = c_not 0) \<and> (\<exists>e. led_run led_again 13 env0 = Some e \<and> led_done e = [5])"
proof -
  define l where "l = \<lparr>led_type = AGILE_LED_TYPE_STATIC, active = False, led_pin = 7, active_logic = 0,
    light_arr = Some [3, 2], arr_num = 2, arr_index = 0, loop_init = 2, loop_cnt = 2, tick_timeout = 0,
    compelete = Some agile_led_default_compelete_callback\<rparr>"
  define env :: led_env where "env = \<lparr>is_init = True, slist_head = [], led_mem = [5 \<mapsto> l], led_pins = (\<lambda>_. 1),
    led_tick = 0xfffffffe, led_done = []\<rparr>"
  have s: "sint (2 :: u32) = 2" by simp
  obtain env0 where e: "agile_led_start env (Some 5) = Some (RT_EOK, env0)"
    "\<forall>t. sint (loop_init l) < 0 \<or> t < unat (loop_init l) * (duration [3, 2] + 1) \<longrightarrow>
      (\<exists>e. led_run led_again (t + 1) env0 = Some e \<and>
        led_pins e (led_pin l) = lit (active_logic l) (wave [3, 2] True (t mod (duration [3, 2] + 1))))"
    "0 < sint (loop_init l) \<longrightarrow> compelete l \<in> {None, Some agile_led_default_compelete_callback} \<longrightarrow>
      (\<exists>e. led_run led_again (unat (loop_init l) * (duration [3, 2] + 1) + 1) env0 = Some e \<and> slist_head e = [] \<and>
        (\<exists>l'. led_mem e 5 = Some l' \<and> \<not> active l') \<and>
        led_done e = led_done env @ (if compelete l = None then [] else [5]))"
    using agile_led_blinks [of env 5 l "[3, 2]" led_again] by (auto simp: env_def l_def entries_ok_def)
  have "\<exists>e. led_run led_again 11 env0 = Some e \<and> led_pins e 7 = c_not 0"
    using e(2) [THEN spec, of 10] by (simp add: l_def lit_def)
  moreover have "\<exists>e. led_run led_again 13 env0 = Some e \<and> led_done e = [5]"
    using e(3) by (simp add: l_def env_def) blast
  ultimately show ?thesis using e(1) unfolding env_def by (intro exI [of _ l] exI [of _ env0]) (simp add: l_def)
qed

subsection \<open>The board's start\<close>

text \<open>\<open>BSP_LED_Init\<close> ends in a failed assertion when \<open>agile_led_env_init\<close> has not been called (nothing in the
  firmware calls it): no object is created and \<open>LED_STOP\<close> is given a null pointer. After \<open>agile_led_env_init\<close>, with
  memory for three objects, it leaves three dark LEDs with the pattern 1000, 2000, none of them running.\<close>

theorem BSP_LED_Init_needs_env:
  assumes "slist_head env = []" "distinct [r, g, b]"
  shows "(\<not> is_init env \<longrightarrow> BSP_LED_Init pr pg pb (Some r) (Some g) (Some b) env = None) \<and>
    (\<exists>e. BSP_LED_Init pr pg pb (Some r) (Some g) (Some b) (agile_led_env_init env) =
        Some (\<lparr>led_r = Some r, led_g = Some g, led_b = Some b\<rparr>, e) \<and> slist_head e = [] \<and>
      (\<forall>p \<in> {r, g, b}. \<exists>l. led_mem e p = Some l \<and> light_arr l = Some [1000, 2000] \<and> unat (arr_num l) = 2 \<and>
         \<not> active l \<and> loop_init l = 1) \<and>
      (\<forall>pin \<in> {pr, pg, pb}. led_pins e pin = 1))"
proof -
  have "fill_light (Suc (Suc 0)) (Some ''1000,2000'') = Some [1000, 2000]" by (simp add: after_comma_def atoi_def)
  then have fill: "fill_light 2 (Some ''1000,2000'') = Some [1000, 2000]" by (simp only: numeral_2_eq_2)
  have arr: "agile_led_get_light_arr l ''1000,2000'' True =
      Some (RT_EOK, l\<lparr>arr_num := 2, light_arr := Some [1000, 2000]\<rparr>)"
    if "led_type l = AGILE_LED_TYPE_DYNAMIC" "light_arr l = None" "arr_num l = 0" for l
    using that
    by (simp add: agile_led_get_light_arr_def RT_EOK_def Let_def fill)
  show ?thesis
    using assms
    by (auto simp: BSP_LED_Init_def agile_led_create_def LED_STOP_def agile_led_off_def agile_led_stop_def
        led_at_def led_lock_def led_put_def arr Let_def agile_led_env_init_def PIN_LOW_def c_not_def)
qed

theorem BSP_LED_Init_needs_env_witness:
  "\<exists>e. BSP_LED_Init 0 1 25 (Some 1) (Some 2) (Some 3) (agile_led_env_init
      \<lparr>is_init = False, slist_head = [], led_mem = Map.empty, led_pins = (\<lambda>_. 0), led_tick = 0, led_done = []\<rparr>) =
        Some (\<lparr>led_r = Some 1, led_g = Some 2, led_b = Some 3\<rparr>, e) \<and> slist_head e = [] \<and> led_pins e 25 = 1"
  using BSP_LED_Init_needs_env [of "\<lparr>is_init = False, slist_head = [], led_mem = Map.empty, led_pins = (\<lambda>_. 0),
      led_tick = 0, led_done = []\<rparr>" 1 2 3 0 1 25] by auto

end
