(* ===== verification/Lcd.thy ===== *)
theory Lcd
  imports Prelude
begin

text \<open>
  The segment display (\<open>bsp/src/bsp_lcd_1621.c\<close>, \<open>bsp_lcd_1621.h\<close>, \<open>B8\<close> of \<open>bsp_sys.h\<close>). The state is
  the buffer \<open>_lcd_buffer\<close> and the history of the writes to the three pins that lead to the display
  controller; the delays between them are left out. \<open>rt_pin_mode\<close> changes no level. An access to the
  buffer out of its bounds is \<open>None\<close>. The reference is the display's side of the wire: a shift register
  that takes the data pin's level when the write clock rises while the chip is selected.
\<close>

subsection \<open>Pins, commands, positions\<close>

definition GET_PIN :: "nat \<Rightarrow> nat \<Rightarrow> nat" where "GET_PIN port pin = 16 * port + pin"

definition LCD_CS_PIN :: nat where "LCD_CS_PIN = GET_PIN 0 6"
definition LCD_DATA_PIN :: nat where "LCD_DATA_PIN = GET_PIN 2 5"
definition LCD_WR_PIN :: nat where "LCD_WR_PIN = GET_PIN 2 4"

definition LCD_BUFFER_LEN :: u8 where "LCD_BUFFER_LEN = 14"
definition SYS_EN :: u8 where "SYS_EN = 0x01"
definition LCD_ON :: u8 where "LCD_ON = 0x03"
definition WDT_DIS :: u8 where "WDT_DIS = 0x05"
definition XTAL_32K :: u8 where "XTAL_32K = 0x17"
definition BIAS_3_4COM :: u8 where "BIAS_3_4COM = 0x2B"
definition WR_CMD :: u8 where "WR_CMD = 0x80"
definition WR_DATA :: u8 where "WR_DATA = 0xA0"

type_synonym TeLcdSeg = nat

datatype TeLcdCom = kLcdCom1 | kLcdCom2 | kLcdCom3 | kLcdCom4

datatype TeLcdSegmentShowControl = kShowClose | kShowOpen

datatype TeLcdIconIndex =
    kS1OverPress | kS2UnderPress | kS3OverCurrent | kS4Leakage | kS5PressTimingValves
  | kS6Network | kS7LeakHunting | kS8FFault | kS9Alarm
  | kL1Line | kL2Line | kL3Line | kL4Line
  | kK1SelfCloseingValveOn | kK2SelfCloseingValveOff | kK3HandValveOn | kK4HandValveOff
  | kIconPoint | kIconKpa | kIconMin

datatype TeLcdNumIndex = kKpaNum1 | kKpaNum2 | kKpaNum3 | kMinNum1 | kMinNum2

fun num_seg :: "TeLcdNumIndex \<Rightarrow> TeLcdSeg" where
  "num_seg kKpaNum1 = 1"
| "num_seg kKpaNum2 = 3"
| "num_seg kKpaNum3 = 5"
| "num_seg kMinNum1 = 9"
| "num_seg kMinNum2 = 11"

text \<open>A binary literal, written as a hexadecimal number whose digits are the bits.\<close>

definition B8 :: "u32 \<Rightarrow> u8" where
  "B8 x =
     (if x AND 0x0000000F \<noteq> 0 then 1 else 0) + (if x AND 0x000000F0 \<noteq> 0 then 2 else 0) +
     (if x AND 0x00000F00 \<noteq> 0 then 4 else 0) + (if x AND 0x0000F000 \<noteq> 0 then 8 else 0) +
     (if x AND 0x000F0000 \<noteq> 0 then 16 else 0) + (if x AND 0x00F00000 \<noteq> 0 then 32 else 0) +
     (if x AND 0x0F000000 \<noteq> 0 then 64 else 0) + (if x AND 0xF0000000 \<noteq> 0 then 128 else 0)"

subsection \<open>The serial line\<close>

record lcd =
  lcd_buffer :: "u8 list"
  lcd_wire :: "(nat \<times> bool) list"

definition lcd_pin :: "nat \<Rightarrow> bool \<Rightarrow> lcd \<Rightarrow> lcd" where
  "lcd_pin pin v s = s\<lparr>lcd_wire := lcd_wire s @ [(pin, v)]\<rparr>"

definition lcd_write_one :: "u8 \<Rightarrow> nat \<Rightarrow> lcd \<Rightarrow> lcd" where
  "lcd_write_one byte i s =
     (let s = lcd_pin LCD_WR_PIN False s;
          s = (if push_bit i (ucast byte :: u32) AND 0x80 \<noteq> 0 then lcd_pin LCD_DATA_PIN True s
               else lcd_pin LCD_DATA_PIN False s)
      in lcd_pin LCD_WR_PIN True s)"

definition LCD_WriteBit :: "u8 \<Rightarrow> u8 \<Rightarrow> lcd \<Rightarrow> lcd" where
  "LCD_WriteBit byte num s = fold (lcd_write_one byte) [0..<unat num] s"

definition LCD_WriteSeg :: "u8 \<Rightarrow> u8 \<Rightarrow> lcd \<Rightarrow> lcd" where
  "LCD_WriteSeg seg_6bit com_4bit s =
     (let s = lcd_pin LCD_CS_PIN False s;
          s = LCD_WriteBit WR_DATA 3 s;
          s = LCD_WriteBit (push_bit 2 seg_6bit) 6 s;
          s = LCD_WriteBit (push_bit 4 com_4bit) 4 s
      in lcd_pin LCD_CS_PIN True s)"

definition LCD_WriteCmd :: "u8 \<Rightarrow> lcd \<Rightarrow> lcd" where
  "LCD_WriteCmd cmd s =
     (let s = lcd_pin LCD_CS_PIN False s;
          s = LCD_WriteBit WR_CMD 3 s;
          s = LCD_WriteBit cmd 8 s;
          s = LCD_WriteBit 0 1 s
      in lcd_pin LCD_CS_PIN True s)"

fun lcd_refresh_loop :: "nat list \<Rightarrow> lcd \<Rightarrow> lcd option" where
  "lcd_refresh_loop [] s = Some s"
| "lcd_refresh_loop (i # is) s =
     do { b \<leftarrow> rd (lcd_buffer s) i; lcd_refresh_loop is (LCD_WriteSeg (of_nat i) b s) }"

definition LCD_Refresh :: "lcd \<Rightarrow> lcd option" where
  "LCD_Refresh s = lcd_refresh_loop [0..<unat LCD_BUFFER_LEN] s"

definition LCD_Clear :: "lcd \<Rightarrow> lcd option" where
  "LCD_Clear s = LCD_Refresh (s\<lparr>lcd_buffer := replicate (unat LCD_BUFFER_LEN) 0\<rparr>)"

subsection \<open>Segments, icons, digits\<close>

definition LCD_ShowSegment :: "TeLcdSeg \<Rightarrow> TeLcdCom \<Rightarrow> TeLcdSegmentShowControl \<Rightarrow> lcd \<Rightarrow> lcd option" where
  "LCD_ShowSegment seg com mode s =
     do { b \<leftarrow> rd (lcd_buffer s) seg;
          let b = (case mode of
            kShowClose \<Rightarrow>
              (case com of kLcdCom1 \<Rightarrow> b AND B8 0x11110111 | kLcdCom2 \<Rightarrow> b AND B8 0x11111011
                         | kLcdCom3 \<Rightarrow> b AND B8 0x11111101 | kLcdCom4 \<Rightarrow> b AND B8 0x11111110)
          | kShowOpen \<Rightarrow>
              (case com of kLcdCom1 \<Rightarrow> b OR B8 0x00001000 | kLcdCom2 \<Rightarrow> b OR B8 0x00000100
                         | kLcdCom3 \<Rightarrow> b OR B8 0x00000010 | kLcdCom4 \<Rightarrow> b OR B8 0x00000001));
          a \<leftarrow> wr (lcd_buffer s) seg b;
          Some (s\<lparr>lcd_buffer := a\<rparr>) }"

fun icon_place :: "TeLcdIconIndex \<Rightarrow> TeLcdSeg \<times> TeLcdCom" where
  "icon_place kS1OverPress = (0, kLcdCom4)"
| "icon_place kS2UnderPress = (0, kLcdCom3)"
| "icon_place kS3OverCurrent = (0, kLcdCom2)"
| "icon_place kS4Leakage = (0, kLcdCom1)"
| "icon_place kS5PressTimingValves = (2, kLcdCom1)"
| "icon_place kS6Network = (7, kLcdCom3)"
| "icon_place kS7LeakHunting = (7, kLcdCom2)"
| "icon_place kS8FFault = (8, kLcdCom4)"
| "icon_place kS9Alarm = (13, kLcdCom4)"
| "icon_place kL1Line = (6, kLcdCom1)"
| "icon_place kL2Line = (10, kLcdCom1)"
| "icon_place kL3Line = (8, kLcdCom1)"
| "icon_place kL4Line = (13, kLcdCom1)"
| "icon_place kK1SelfCloseingValveOn = (8, kLcdCom2)"
| "icon_place kK2SelfCloseingValveOff = (8, kLcdCom3)"
| "icon_place kK3HandValveOn = (13, kLcdCom2)"
| "icon_place kK4HandValveOff = (13, kLcdCom3)"
| "icon_place kIconPoint = (4, kLcdCom1)"
| "icon_place kIconKpa = (7, kLcdCom4)"
| "icon_place kIconMin = (12, kLcdCom1)"

definition LCD_ShowIcon :: "TeLcdIconIndex \<Rightarrow> TeLcdSegmentShowControl \<Rightarrow> lcd \<Rightarrow> lcd option" where
  "LCD_ShowIcon index mode s = (case icon_place index of (seg, com) \<Rightarrow> LCD_ShowSegment seg com mode s)"

text \<open>The seven calls, for the segments A to G, that each branch of \<open>LCD_ShowNum\<close> makes.\<close>

definition show_seven ::
  "TeLcdSeg \<Rightarrow> TeLcdSegmentShowControl \<Rightarrow> TeLcdSegmentShowControl \<Rightarrow> TeLcdSegmentShowControl \<Rightarrow>
    TeLcdSegmentShowControl \<Rightarrow> TeLcdSegmentShowControl \<Rightarrow> TeLcdSegmentShowControl \<Rightarrow> TeLcdSegmentShowControl \<Rightarrow>
    lcd \<Rightarrow> lcd option" where
  "show_seven index a b c d e f g s =
     do { s \<leftarrow> LCD_ShowSegment index kLcdCom4 a s;
          s \<leftarrow> LCD_ShowSegment (index + 1) kLcdCom4 b s;
          s \<leftarrow> LCD_ShowSegment (index + 1) kLcdCom2 c s;
          s \<leftarrow> LCD_ShowSegment index kLcdCom1 d s;
          s \<leftarrow> LCD_ShowSegment index kLcdCom2 e s;
          s \<leftarrow> LCD_ShowSegment index kLcdCom3 f s;
          LCD_ShowSegment (index + 1) kLcdCom3 g s }"

definition LCD_ShowNum :: "TeLcdNumIndex \<Rightarrow> u8 \<Rightarrow> TeLcdSegmentShowControl \<Rightarrow> lcd \<Rightarrow> lcd option" where
  "LCD_ShowNum index num mode s =
     (let i = num_seg index; On = kShowOpen; Cl = kShowClose in
      case mode of
        kShowOpen \<Rightarrow>
          if num = 0 then show_seven i On On On On On On Cl s
          else if num = 1 then show_seven i Cl On On Cl Cl Cl Cl s
          else if num = 2 then show_seven i On On Cl On On Cl On s
          else if num = 3 then show_seven i On On On On Cl Cl On s
          else if num = 4 then show_seven i Cl On On Cl Cl On On s
          else if num = 5 then show_seven i On Cl On On Cl On On s
          else if num = 6 then show_seven i On Cl On On On On On s
          else if num = 7 then show_seven i On On On Cl Cl Cl Cl s
          else if num = 8 then show_seven i On On On On On On On s
          else if num = 9 then show_seven i On On On On Cl On On s
          else Some s
      | kShowClose \<Rightarrow> show_seven i Cl Cl Cl Cl Cl Cl Cl s)"

text \<open>\<open>num_1\<close> and its siblings are bytes: the quotients are cut to 8 bits.\<close>

definition LCD_ShowPressure :: "u32 \<Rightarrow> TeLcdSegmentShowControl \<Rightarrow> lcd \<Rightarrow> lcd option" where
  "LCD_ShowPressure pressure mode s =
     do { s \<leftarrow> LCD_ShowIcon kIconPoint mode s;
          s \<leftarrow> LCD_ShowIcon kIconKpa mode s;
          s \<leftarrow> LCD_ShowNum kKpaNum1 0 kShowClose s;
          (num_2, num_3, s) \<leftarrow>
            (if 10000 \<le> pressure
             then do { s \<leftarrow> LCD_ShowNum kKpaNum1 (ucast (pressure div 10000)) mode s;
                       Some (ucast ((pressure div 1000) mod 10) :: u8, ucast ((pressure div 100) mod 10) :: u8, s) }
             else if 1000 \<le> pressure
             then Some (ucast (pressure div 1000), ucast ((pressure div 100) mod 10), s)
             else if 100 \<le> pressure then Some (0, ucast (pressure div 100), s)
             else Some (0, 0, s));
          s \<leftarrow> LCD_ShowNum kKpaNum2 num_2 mode s;
          LCD_ShowNum kKpaNum3 num_3 mode s }"

definition LCD_ShowTime :: "u8 \<Rightarrow> TeLcdSegmentShowControl \<Rightarrow> lcd \<Rightarrow> lcd option" where
  "LCD_ShowTime time mode s =
     do { s \<leftarrow> LCD_ShowIcon kIconMin mode s;
          s \<leftarrow> (if 10 \<le> time then LCD_ShowNum kMinNum1 (time div 10) mode s
                else LCD_ShowNum kMinNum1 0 kShowClose s);
          LCD_ShowNum kMinNum2 (time mod 10) mode s }"

definition LCD_Init :: "lcd \<Rightarrow> lcd option" where
  "LCD_Init s =
     (let s = lcd_pin LCD_CS_PIN True s;
          s = lcd_pin LCD_WR_PIN True s;
          s = lcd_pin LCD_DATA_PIN True s;
          s = LCD_WriteCmd SYS_EN s;
          s = LCD_WriteCmd BIAS_3_4COM s;
          s = LCD_WriteCmd XTAL_32K s;
          s = LCD_WriteCmd WDT_DIS s;
          s = LCD_WriteCmd LCD_ON s
      in do { s \<leftarrow> LCD_Clear s;
              s \<leftarrow> LCD_ShowIcon kS5PressTimingValves kShowOpen s;
              LCD_Refresh s })"

subsection \<open>What the buffer shows\<close>

fun com_bit :: "TeLcdCom \<Rightarrow> nat" where
  "com_bit kLcdCom1 = 3" | "com_bit kLcdCom2 = 2" | "com_bit kLcdCom3 = 1" | "com_bit kLcdCom4 = 0"

definition lcd_on :: "lcd \<Rightarrow> TeLcdSeg \<times> TeLcdCom \<Rightarrow> bool" where
  "lcd_on s = (\<lambda>(seg, com). bit (lcd_buffer s ! seg) (com_bit com))"

definition lcd_ok :: "lcd \<Rightarrow> bool" where "lcd_ok s \<longleftrightarrow> length (lcd_buffer s) = 14"

definition lcd_set :: "TeLcdSeg \<times> TeLcdCom \<Rightarrow> bool \<Rightarrow> lcd \<Rightarrow> lcd" where
  "lcd_set = (\<lambda>(seg, com) v s. s\<lparr>lcd_buffer := (lcd_buffer s)[seg :=
     (if v then set_bit (com_bit com) (lcd_buffer s ! seg) else unset_bit (com_bit com) (lcd_buffer s ! seg))]\<rparr>)"

lemma com_bit_less: "com_bit com < 4" by (cases com) simp_all

lemma com_bit_inj [simp]: "com_bit a = com_bit b \<longleftrightarrow> a = b" by (cases a; cases b) simp_all

lemma lcd_set_sel [simp]:
  "lcd_ok (lcd_set c v s) = lcd_ok s" "lcd_wire (lcd_set c v s) = lcd_wire s"
  by (simp_all add: lcd_set_def lcd_ok_def split: prod.splits)

lemma lcd_on_set [simp]:
  "lcd_ok s \<Longrightarrow> fst c < 14 \<Longrightarrow> lcd_on (lcd_set c v s) = (lcd_on s)(c := v)"
  using com_bit_less [of "snd c"]
  by (auto simp: lcd_on_def lcd_set_def lcd_ok_def bit_set_bit_iff bit_unset_bit_iff fun_eq_iff nth_list_update
      split: prod.splits if_splits)

lemma B8_values:
  "B8 0x11110111 = - 9" "B8 0x11111011 = - 5" "B8 0x11111101 = - 3" "B8 0x11111110 = - 2"
  "B8 0x00001000 = 8" "B8 0x00000100 = 4" "B8 0x00000010 = 2" "B8 0x00000001 = 1"
  by (simp_all add: B8_def)

lemma show_segment [simp]:
  assumes "lcd_ok s" "seg < 14"
  shows "LCD_ShowSegment seg com mode s = Some (lcd_set (seg, com) (mode = kShowOpen) s)"
proof -
  have "(case mode of
            kShowClose \<Rightarrow>
              (case com of kLcdCom1 \<Rightarrow> b AND B8 0x11110111 | kLcdCom2 \<Rightarrow> b AND B8 0x11111011
                         | kLcdCom3 \<Rightarrow> b AND B8 0x11111101 | kLcdCom4 \<Rightarrow> b AND B8 0x11111110)
          | kShowOpen \<Rightarrow>
              (case com of kLcdCom1 \<Rightarrow> b OR B8 0x00001000 | kLcdCom2 \<Rightarrow> b OR B8 0x00000100
                         | kLcdCom3 \<Rightarrow> b OR B8 0x00000010 | kLcdCom4 \<Rightarrow> b OR B8 0x00000001)) =
        (if mode = kShowOpen then set_bit (com_bit com) b else unset_bit (com_bit com) b)" for b
    unfolding B8_values
    by (cases mode; cases com; simp add: set_bit_eq_or unset_bit_eq_and_not push_bit_eq_mult)
  then show ?thesis using assms by (simp add: LCD_ShowSegment_def lcd_set_def lcd_ok_def Let_def)
qed

text \<open>The seven segments of a digit, and the usual seven-segment font with A in its lowest bit.\<close>

definition digit_cells :: "TeLcdSeg \<Rightarrow> (TeLcdSeg \<times> TeLcdCom) list" where
  "digit_cells i = [(i, kLcdCom4), (i + 1, kLcdCom4), (i + 1, kLcdCom2), (i, kLcdCom1), (i, kLcdCom2),
     (i, kLcdCom3), (i + 1, kLcdCom3)]"

definition font :: "u8 list" where "font = [0x3F, 0x06, 0x5B, 0x4F, 0x66, 0x6D, 0x7D, 0x07, 0x7F, 0x6F]"

definition glyph :: "nat \<Rightarrow> bool list" where "glyph n = map (bit (font ! n)) [0..<7]"

definition seven_at :: "lcd \<Rightarrow> TeLcdNumIndex \<Rightarrow> bool list" where
  "seven_at s index = map (lcd_on s) (digit_cells (num_seg index))"

text \<open>Reading the display: the digit shown, and a dark place.\<close>

definition read_digit :: "lcd \<Rightarrow> TeLcdNumIndex \<Rightarrow> nat option" where
  "read_digit s index = find (\<lambda>n. glyph n = seven_at s index) [0..<10]"

definition dark :: "lcd \<Rightarrow> TeLcdNumIndex \<Rightarrow> bool" where
  "dark s index \<longleftrightarrow> seven_at s index = replicate 7 False"

definition icon_on :: "lcd \<Rightarrow> TeLcdIconIndex \<Rightarrow> bool" where
  "icon_on s index = lcd_on s (icon_place index)"

definition put_seven :: "TeLcdNumIndex \<Rightarrow> bool list \<Rightarrow> lcd \<Rightarrow> lcd" where
  "put_seven index bs s = fold (\<lambda>(c, v). lcd_set c v) (zip (digit_cells (num_seg index)) bs) s"

lemma digit_cells_ok: "c \<in> set (digit_cells (num_seg index)) \<Longrightarrow> fst c < 14"
  by (cases index) (auto simp: digit_cells_def)

lemma digit_cells_distinct: "distinct (digit_cells (num_seg index))"
  by (simp add: digit_cells_def)

lemma digit_cells_disjoint:
  "a \<noteq> b \<Longrightarrow> set (digit_cells (num_seg a)) \<inter> set (digit_cells (num_seg b)) = {}"
  by (cases a; cases b; simp add: digit_cells_def)

lemma icon_not_digit: "icon_place i \<notin> set (digit_cells (num_seg index))"
  by (cases i; cases index; simp add: digit_cells_def)

lemma icon_place_inj [simp]: "icon_place i = icon_place j \<longleftrightarrow> i = j"
  by (cases i; cases j; simp)

lemma icon_place_ok [simp]: "fst (icon_place i) < 14"
  by (cases i) simp_all

declare icon_place.simps [simp del]

lemma show_icon [simp]:
  "lcd_ok s \<Longrightarrow> LCD_ShowIcon i mode s = Some (lcd_set (icon_place i) (mode = kShowOpen) s)"
  using icon_place_ok [of i] by (cases "icon_place i") (simp add: LCD_ShowIcon_def)

lemma fold_lcd_set:
  assumes "lcd_ok s" "\<forall>c \<in> set (map fst cs). fst c < 14"
  shows "lcd_ok (fold (\<lambda>(c, v). lcd_set c v) cs s) \<and>
    lcd_wire (fold (\<lambda>(c, v). lcd_set c v) cs s) = lcd_wire s \<and>
    lcd_on (fold (\<lambda>(c, v). lcd_set c v) cs s) = fold (\<lambda>(c, v) f. f(c := v)) cs (lcd_on s)"
  using assms by (induction cs arbitrary: s) auto

lemma fold_upd:
  "distinct (map fst cs) \<Longrightarrow>
    fold (\<lambda>(c, v) f. f(c := v)) cs f c = (case map_of cs c of None \<Rightarrow> f c | Some v \<Rightarrow> v)"
proof (induction cs arbitrary: f)
  case (Cons x cs)
  then show ?case
    by (cases x) (auto split: option.splits dest!: map_of_SomeD intro: rev_image_eqI)
qed simp

lemma put_seven_facts:
  assumes "lcd_ok s" "length bs = 7"
  shows "lcd_ok (put_seven index bs s)" "lcd_wire (put_seven index bs s) = lcd_wire s"
    "seven_at (put_seven index bs s) index = bs"
    "c \<notin> set (digit_cells (num_seg index)) \<Longrightarrow> lcd_on (put_seven index bs s) c = lcd_on s c"
proof -
  let ?cs = "zip (digit_cells (num_seg index)) bs"
  have len: "length (digit_cells (num_seg index)) = length bs" using assms(2) by (simp add: digit_cells_def)
  then have "\<forall>c \<in> set (map fst ?cs). fst c < 14" using digit_cells_ok by simp
  note F = fold_lcd_set [OF assms(1) this]
  have d: "distinct (map fst ?cs)" using len digit_cells_distinct by simp
  show "lcd_ok (put_seven index bs s)" "lcd_wire (put_seven index bs s) = lcd_wire s"
    using F by (simp_all add: put_seven_def)
  have on: "lcd_on (put_seven index bs s) c = (case map_of ?cs c of None \<Rightarrow> lcd_on s c | Some v \<Rightarrow> v)" for c
    using F fold_upd [OF d] by (simp add: put_seven_def)
  show "seven_at (put_seven index bs s) index = bs"
  proof (rule nth_equalityI)
    fix i assume "i < length (seven_at (put_seven index bs s) index)"
    then have i: "i < length bs" using len by (simp add: seven_at_def)
    then have "map_of ?cs (digit_cells (num_seg index) ! i) = Some (bs ! i)"
      using len digit_cells_distinct by (simp add: map_of_zip_nth)
    then show "seven_at (put_seven index bs s) index ! i = bs ! i" using i len by (simp add: seven_at_def on)
  qed (simp add: seven_at_def len)
  show "lcd_on (put_seven index bs s) c = lcd_on s c" if "c \<notin> set (digit_cells (num_seg index))"
    using that map_of_zip_is_None [OF len, THEN iffD2] by (simp add: on)
qed

lemma put_seven_other:
  assumes "lcd_ok s" "length bs = 7"
  shows "a \<noteq> index \<Longrightarrow> seven_at (put_seven index bs s) a = seven_at s a"
    "icon_on (put_seven index bs s) i = icon_on s i"
  using put_seven_facts(4) [OF assms] digit_cells_disjoint [of a index] icon_not_digit
  by (auto simp: seven_at_def icon_on_def)

lemma set_icon:
  assumes "lcd_ok s"
  shows "icon_on (lcd_set (icon_place i) v s) j = (if j = i then v else icon_on s j)"
    "seven_at (lcd_set (icon_place i) v s) index = seven_at s index"
  using assms icon_not_digit [of i] by (auto simp: icon_on_def seven_at_def)

lemma show_seven [simp]:
  "lcd_ok s \<Longrightarrow> show_seven (num_seg index) a b c d e f g s =
    Some (put_seven index (map (\<lambda>m. m = kShowOpen) [a, b, c, d, e, f, g]) s)"
  by (cases index) (simp_all add: show_seven_def put_seven_def digit_cells_def)

lemma glyphs:
  "glyph 0 = [True, True, True, True, True, True, False]"
  "glyph (Suc 0) = [False, True, True, False, False, False, False]"
  "glyph 2 = [True, True, False, True, True, False, True]"
  "glyph 3 = [True, True, True, True, False, False, True]"
  "glyph 4 = [False, True, True, False, False, True, True]"
  "glyph 5 = [True, False, True, True, False, True, True]"
  "glyph 6 = [True, False, True, True, True, True, True]"
  "glyph 7 = [True, True, True, False, False, False, False]"
  "glyph 8 = [True, True, True, True, True, True, True]"
  "glyph 9 = [True, True, True, True, False, True, True]"
  by (simp_all add: glyph_def font_def upt_rec)

lemma less_10: "n < 10 \<Longrightarrow> n = 0 \<or> n = Suc 0 \<or> n = 2 \<or> n = 3 \<or> n = 4 \<or> n = 5 \<or> n = 6 \<or> n = 7 \<or> n = 8 \<or> n = 9"
  for n :: nat by arith

lemma show_num [simp]:
  assumes "lcd_ok s" "unat num < 10"
  shows "LCD_ShowNum index num kShowOpen s = Some (put_seven index (glyph (unat num)) s)"
proof -
  have "num = 0 \<or> num = 1 \<or> num = 2 \<or> num = 3 \<or> num = 4 \<or> num = 5 \<or> num = 6 \<or> num = 7 \<or> num = 8 \<or> num = 9"
    using less_10 [OF assms(2)] by (simp add: word_unat_eq_iff)
  then show ?thesis using assms(1) by (elim disjE; simp add: LCD_ShowNum_def glyphs)
qed

lemma show_num_close [simp]:
  "lcd_ok s \<Longrightarrow> LCD_ShowNum index num kShowClose s = Some (put_seven index (replicate 7 False) s)"
  by (simp add: LCD_ShowNum_def numeral_eq_Suc)

lemma glyph_length [simp]: "length (glyph n) = 7"
  by (simp add: glyph_def)

lemma read_glyph:
  assumes "seven_at s index = glyph n" "n < 10"
  shows "read_digit s index = Some n"
proof -
  have d: "[0..<10] = [0, Suc 0, 2, 3, 4, 5, 6, 7, 8, 9 :: nat]" by (simp add: upt_rec)
  show ?thesis
    using less_10 [OF assms(2)] unfolding read_digit_def assms(1) d
    by (elim disjE; hypsubst) (simp_all add: glyphs)
qed

text \<open>C40: For a pressure below 100000 the display shows its hundreds, its thousands and, when there are any, its
  ten thousands as digits of the usual font (without a ten thousands digit that place is dark), with the decimal
  point and the unit lit; the other digits and icons stay as they were, and nothing is sent yet.\<close>

theorem LCD_ShowPressure_shows:
  assumes "lcd_ok s" "unat p < 100000"
  shows "\<exists>s'. LCD_ShowPressure p kShowOpen s = Some s' \<and> lcd_ok s' \<and> lcd_wire s' = lcd_wire s \<and>
    (if unat p < 10000 then dark s' kKpaNum1 else read_digit s' kKpaNum1 = Some (unat p div 10000)) \<and>
    read_digit s' kKpaNum2 = Some (unat p div 1000 mod 10) \<and> read_digit s' kKpaNum3 = Some (unat p div 100 mod 10) \<and>
    (\<forall>i. icon_on s' i = (i = kIconPoint \<or> i = kIconKpa \<or> icon_on s i)) \<and>
    (\<forall>index \<in> {kMinNum1, kMinNum2}. seven_at s' index = seven_at s index)"
proof -
  have w: "unat (ucast (v :: u32) :: u8) = unat v" if "unat v < 10" for v
    using that by (simp add: unsigned_ucast_eq take_bit_nat_eq_self)
  let ?n1 = "unat p div 10000" and ?n2 = "unat p div 1000 mod 10" and ?n3 = "unat p div 100 mod 10"
  define s1 where "s1 = lcd_set (icon_place kIconKpa) True (lcd_set (icon_place kIconPoint) True s)"
  define s2 where "s2 = put_seven kKpaNum1 (replicate 7 False) s1"
  define s3 where "s3 = (if unat p < 10000 then s2 else put_seven kKpaNum1 (glyph ?n1) s2)"
  define s4 where "s4 = put_seven kKpaNum3 (glyph ?n3) (put_seven kKpaNum2 (glyph ?n2) s3)"
  have ok1: "lcd_ok s1" using assms(1) by (simp add: s1_def)
  have ok2: "lcd_ok s2" using ok1 by (simp add: s2_def put_seven_facts)
  have ok3: "lcd_ok s3" using ok2 by (simp add: s3_def put_seven_facts)
  have u: "unat (ucast (p div 10000) :: u8) = ?n1" "unat (ucast (p div 1000 mod 10) :: u8) = ?n2"
    "unat (ucast (p div 100 mod 10) :: u8) = ?n3"
    by (use assms(2) in \<open>simp add: w unat_div unat_mod\<close>)+
  have small: "unat (ucast (p div 1000) :: u8) = ?n2" if "unat p < 10000"
    using that by (simp add: w unat_div)
  have tiny: "unat (ucast (p div 100) :: u8) = ?n3" "?n2 = 0" if "unat p < 1000"
    using that by (simp_all add: w unat_div)
  have "LCD_ShowPressure p kShowOpen s =
      do { s \<leftarrow> LCD_ShowNum kKpaNum1 0 kShowClose s1;
          (num_2, num_3, s) \<leftarrow>
            (if 10000 \<le> unat p
             then do { s \<leftarrow> LCD_ShowNum kKpaNum1 (ucast (p div 10000)) kShowOpen s;
                       Some (ucast ((p div 1000) mod 10) :: u8, ucast ((p div 100) mod 10) :: u8, s) }
             else if 1000 \<le> unat p
             then Some (ucast (p div 1000), ucast ((p div 100) mod 10), s)
             else if 100 \<le> unat p then Some (0, ucast (p div 100), s)
             else Some (0, 0, s));
          s \<leftarrow> LCD_ShowNum kKpaNum2 num_2 kShowOpen s;
          LCD_ShowNum kKpaNum3 num_3 kShowOpen s }"
    using assms(1) by (simp add: LCD_ShowPressure_def s1_def word_le_nat_alt)
  also have "\<dots> = Some s4"
  proof -
    have c2: "LCD_ShowNum kKpaNum2 num kShowOpen s3 = Some (put_seven kKpaNum2 (glyph ?n2) s3)"
      if "unat num = ?n2" for num
      using ok3 that by simp
    have c3: "LCD_ShowNum kKpaNum3 num kShowOpen (put_seven kKpaNum2 (glyph ?n2) s3) = Some s4"
      if "unat num = ?n3" for num
      using ok3 that by (simp add: s4_def put_seven_facts)
    have c1: "LCD_ShowNum kKpaNum1 0 kShowClose s1 = Some s2" using ok1 by (simp add: s2_def)
    consider "10000 \<le> unat p" | "unat p < 10000" "1000 \<le> unat p" | "unat p < 1000" "100 \<le> unat p" | "unat p < 100"
      by linarith
    then show ?thesis
    proof cases
      case 1
      then have "LCD_ShowNum kKpaNum1 (ucast (p div 10000)) kShowOpen s2 = Some s3"
        using show_num [OF ok2, of "ucast (p div 10000)" kKpaNum1] u(1) assms(2) by (simp add: s3_def)
      then show ?thesis using 1 c1 c2 [OF u(2)] c3 [OF u(3)] by simp
    next
      case 2
      then show ?thesis using c1 c2 [OF small] c3 [OF u(3)] by (simp add: s3_def)
    next
      case 3
      then have "unat (0 :: u8) = ?n2" using tiny by simp
      then show ?thesis using 3 c1 c2 [of 0] c3 [OF tiny(1)] by (simp add: s3_def)
    next
      case 4
      then have "unat (0 :: u8) = ?n2" "unat (0 :: u8) = ?n3" by simp_all
      then show ?thesis using 4 c1 c2 [of 0] c3 [of 0] by (simp add: s3_def)
    qed
  qed
  finally have "LCD_ShowPressure p kShowOpen s = Some s4" .
  moreover have "lcd_ok s4" "lcd_wire s4 = lcd_wire s"
    using ok1 ok2 ok3 assms(1) by (simp_all add: s4_def s3_def s2_def s1_def put_seven_facts)
  moreover have "seven_at s4 kKpaNum2 = glyph ?n2" "seven_at s4 kKpaNum3 = glyph ?n3"
    "seven_at s4 kKpaNum1 = (if unat p < 10000 then replicate 7 False else glyph ?n1)"
    "\<forall>index \<in> {kMinNum1, kMinNum2}. seven_at s4 index = seven_at s index"
    "icon_on s4 i = (i = kIconPoint \<or> i = kIconKpa \<or> icon_on s i)" for i
    using ok1 ok2 ok3 assms(1)
    by (auto simp: s4_def s3_def s2_def s1_def put_seven_facts put_seven_other set_icon)
  ultimately show ?thesis
    using assms(2) by (auto simp: dark_def intro!: read_glyph exI [of _ s4])
qed

theorem LCD_ShowPressure_shows_witness:
  "\<exists>s'. LCD_ShowPressure 12345 kShowOpen \<lparr>lcd_buffer = replicate 14 0, lcd_wire = []\<rparr> = Some s' \<and>
    read_digit s' kKpaNum1 = Some 1 \<and> read_digit s' kKpaNum2 = Some 2 \<and> read_digit s' kKpaNum3 = Some 3"
  using LCD_ShowPressure_shows [of "\<lparr>lcd_buffer = replicate 14 0, lcd_wire = []\<rparr>" 12345]
  by (auto simp: lcd_ok_def)

lemma show_num_big [simp]:
  assumes "10 \<le> unat num"
  shows "LCD_ShowNum index num kShowOpen s = Some s"
  using assms by (auto simp: LCD_ShowNum_def Let_def)

text \<open>The minutes below 100 are shown as one or two digits of the usual font with the unit lit. From 100 on the
  tens place keeps what it showed before, and only the last digit is right.\<close>

theorem LCD_ShowTime_shows:
  assumes "lcd_ok s"
  shows "\<exists>s'. LCD_ShowTime t kShowOpen s = Some s' \<and> lcd_ok s' \<and> lcd_wire s' = lcd_wire s \<and>
    (if unat t < 10 then dark s' kMinNum1
     else if unat t < 100 then read_digit s' kMinNum1 = Some (unat t div 10)
     else seven_at s' kMinNum1 = seven_at s kMinNum1) \<and>
    read_digit s' kMinNum2 = Some (unat t mod 10) \<and>
    (\<forall>i. icon_on s' i = (i = kIconMin \<or> icon_on s i)) \<and>
    (\<forall>index \<in> {kKpaNum1, kKpaNum2, kKpaNum3}. seven_at s' index = seven_at s index)"
proof -
  define s1 where "s1 = lcd_set (icon_place kIconMin) True s"
  define s2 where "s2 = (if unat t < 10 then put_seven kMinNum1 (replicate 7 False) s1
    else if unat t < 100 then put_seven kMinNum1 (glyph (unat t div 10)) s1 else s1)"
  define s3 where "s3 = put_seven kMinNum2 (glyph (unat t mod 10)) s2"
  have ok1: "lcd_ok s1" using assms by (simp add: s1_def)
  have ok2: "lcd_ok s2" using ok1 by (simp add: s2_def put_seven_facts)
  have m: "unat (t mod 10) = unat t mod 10" "unat (t div 10) = unat t div 10" by (simp_all add: unat_mod unat_div)
  have last: "LCD_ShowNum kMinNum2 (t mod 10) kShowOpen s2 = Some s3"
    using ok2 m(1) by (simp add: s3_def)
  have "LCD_ShowTime t kShowOpen s = Some s3"
  proof (cases "unat t < 10")
    case True
    then have "LCD_ShowNum kMinNum1 0 kShowClose s1 = Some s2" using ok1 by (simp add: s2_def)
    then show ?thesis using True last assms by (simp add: LCD_ShowTime_def s1_def [symmetric] word_le_nat_alt)
  next
    case False
    then have "LCD_ShowNum kMinNum1 (t div 10) kShowOpen s1 = Some s2" using ok1 m(2) by (simp add: s2_def)
    then show ?thesis using False last assms by (simp add: LCD_ShowTime_def s1_def [symmetric] word_le_nat_alt)
  qed
  moreover have "lcd_ok s3" "lcd_wire s3 = lcd_wire s"
    using ok1 ok2 by (simp_all add: s3_def s2_def s1_def put_seven_facts)
  moreover have "seven_at s3 kMinNum2 = glyph (unat t mod 10)"
    "seven_at s3 kMinNum1 = (if unat t < 10 then replicate 7 False
       else if unat t < 100 then glyph (unat t div 10) else seven_at s kMinNum1)"
    "\<forall>index \<in> {kKpaNum1, kKpaNum2, kKpaNum3}. seven_at s3 index = seven_at s index"
    "icon_on s3 i = (i = kIconMin \<or> icon_on s i)" for i
    using ok1 ok2 assms
    by (auto simp: s3_def s2_def s1_def put_seven_facts put_seven_other set_icon)
  ultimately show ?thesis by (auto simp: dark_def intro!: read_glyph exI [of _ s3])
qed

theorem LCD_ShowTime_shows_witness:
  "\<exists>s'. LCD_ShowTime 42 kShowOpen \<lparr>lcd_buffer = replicate 14 0xFF, lcd_wire = []\<rparr> = Some s' \<and>
    read_digit s' kMinNum1 = Some 4 \<and> read_digit s' kMinNum2 = Some 2"
  using LCD_ShowTime_shows [of "\<lparr>lcd_buffer = replicate 14 0xFF, lcd_wire = []\<rparr>" 42]
  by (auto simp: lcd_ok_def)

subsection \<open>What the display receives\<close>

record lcd_chip =
  chip_cs :: bool
  chip_wr :: bool
  chip_data :: bool
  chip_in :: "bool list"
  chip_frames :: "bool list list"

definition chip_step :: "nat \<times> bool \<Rightarrow> lcd_chip \<Rightarrow> lcd_chip" where
  "chip_step = (\<lambda>(pin, v) c.
     if pin = LCD_CS_PIN then
       (if chip_cs c \<and> \<not> v then c\<lparr>chip_cs := False, chip_in := []\<rparr>
        else if \<not> chip_cs c \<and> v then c\<lparr>chip_cs := True, chip_frames := chip_frames c @ [chip_in c]\<rparr> else c)
     else if pin = LCD_WR_PIN then
       (if v \<and> \<not> chip_wr c \<and> \<not> chip_cs c then c\<lparr>chip_wr := True, chip_in := chip_in c @ [chip_data c]\<rparr>
        else c\<lparr>chip_wr := v\<rparr>)
     else if pin = LCD_DATA_PIN then c\<lparr>chip_data := v\<rparr> else c)"

definition chip_of :: "lcd_chip \<Rightarrow> lcd \<Rightarrow> lcd_chip" where
  "chip_of c s = fold chip_step (lcd_wire s) c"

text \<open>Bits arrive with the highest first. A frame starts with 101 for data and 100 for a command.\<close>

datatype chip_op = WriteData nat nat | SendCommand nat | BadFrame

fun bits_val :: "nat \<Rightarrow> bool list \<Rightarrow> nat" where
  "bits_val v [] = v"
| "bits_val v (b # bs) = bits_val (2 * v + (if b then 1 else 0)) bs"

definition decode_frame :: "bool list \<Rightarrow> chip_op" where
  "decode_frame bs =
     (if length bs = 13 \<and> take 3 bs = [True, False, True]
      then WriteData (bits_val 0 (take 6 (drop 3 bs))) (bits_val 0 (drop 9 bs))
      else if length bs = 12 \<and> take 3 bs = [True, False, False]
      then SendCommand (bits_val 0 (take 8 (drop 3 bs)))
      else BadFrame)"

definition chip_ops :: "lcd_chip \<Rightarrow> lcd \<Rightarrow> chip_op list" where
  "chip_ops c s = map decode_frame (chip_frames (chip_of c s))"

definition top_bits :: "u8 \<Rightarrow> nat \<Rightarrow> bool list" where
  "top_bits byte n = map (\<lambda>i. bit byte (7 - i)) [0..<n]"

lemma pins [simp]: "LCD_CS_PIN = 6" "LCD_WR_PIN = 36" "LCD_DATA_PIN = 37"
  by (simp_all add: LCD_CS_PIN_def LCD_WR_PIN_def LCD_DATA_PIN_def GET_PIN_def)

lemma chip_of_pin: "chip_of c (lcd_pin pin v s) = chip_step (pin, v) (chip_of c s)"
  by (simp add: chip_of_def lcd_pin_def)

lemma lcd_pin_buffer [simp]: "lcd_buffer (lcd_pin pin v s) = lcd_buffer s"
  by (simp add: lcd_pin_def)

lemma shifted_bit:
  assumes "i < 8"
  shows "push_bit i (ucast byte :: u32) AND 0x80 \<noteq> 0 \<longleftrightarrow> bit (byte :: u8) (7 - i)"
proof -
  have "push_bit i (ucast byte :: u32) AND 2 ^ 7 \<noteq> 0 \<longleftrightarrow> bit (push_bit i (ucast byte :: u32)) 7"
    by (simp only: and_exp_eq_0_iff_not_bit not_not)
  moreover have "7 - i < 32" by simp
  ultimately show ?thesis using assms by (simp add: bit_push_bit_iff bit_ucast_iff del: not_less)
qed

lemma chip_write_one:
  assumes "\<not> chip_cs (chip_of c s)" "i < 8"
  shows "chip_of c (lcd_write_one byte i s) =
    (chip_of c s)\<lparr>chip_wr := True, chip_data := bit byte (7 - i), chip_in := chip_in (chip_of c s) @ [bit byte (7 - i)]\<rparr>"
  using assms
  by (cases "chip_of c s") (simp add: lcd_write_one_def Let_def chip_of_pin chip_step_def shifted_bit)

lemma chip_write_bits:
  assumes "\<not> chip_cs (chip_of c s)" "n \<le> 8"
  shows "let d = chip_of c (fold (lcd_write_one byte) [0..<n] s) in
    chip_in d = chip_in (chip_of c s) @ top_bits byte n \<and> \<not> chip_cs d \<and> chip_frames d = chip_frames (chip_of c s) \<and>
    lcd_buffer (fold (lcd_write_one byte) [0..<n] s) = lcd_buffer s"
  using assms(2)
proof (induction n)
  case (Suc n)
  then show ?case by (simp add: Let_def chip_write_one top_bits_def) (simp add: lcd_write_one_def Let_def)
qed (simp add: assms(1) top_bits_def)

lemma chip_WriteBit:
  assumes "\<not> chip_cs (chip_of c s)" "unat n \<le> 8"
  shows "chip_in (chip_of c (LCD_WriteBit byte n s)) = chip_in (chip_of c s) @ top_bits byte (unat n)"
    "\<not> chip_cs (chip_of c (LCD_WriteBit byte n s))"
    "chip_frames (chip_of c (LCD_WriteBit byte n s)) = chip_frames (chip_of c s)"
    "lcd_buffer (LCD_WriteBit byte n s) = lcd_buffer s"
  using chip_write_bits [OF assms] by (simp_all add: LCD_WriteBit_def Let_def)

lemma bits_val_append: "bits_val v (xs @ ys) = bits_val (bits_val v xs) ys"
  by (induction xs arbitrary: v) simp_all

lemma bits_val_msb: "bits_val 0 (map (\<lambda>i. bit x (n - Suc i)) [0..<n]) = take_bit n x" for x :: nat
proof (induction n arbitrary: x)
  case (Suc n)
  have "bit x (Suc n - Suc i) = bit (x div 2) (n - Suc i)" if "i < n" for i
    using that by (simp add: Suc_diff_Suc flip: bit_Suc)
  then have "map (\<lambda>i. bit x (Suc n - Suc i)) [0..<Suc n] = map (\<lambda>i. bit (x div 2) (n - Suc i)) [0..<n] @ [odd x]"
    by (simp add: bit_0)
  moreover have "take_bit (Suc n) x = 2 * take_bit n (x div 2) + (if odd x then 1 else 0)"
    by (simp add: take_bit_Suc mod_2_eq_odd)
  ultimately show ?case using Suc.IH [of "x div 2"] by (simp only: bits_val_append bits_val.simps)
qed simp

lemma bits_val_top: "n \<le> 8 \<Longrightarrow> bits_val 0 (top_bits (push_bit (8 - n) byte) n) = unat byte mod 2 ^ n" for byte :: u8
proof -
  assume n: "n \<le> 8"
  have "bit (push_bit (8 - n) byte) (7 - i) = bit (unat byte) (n - Suc i)" if "i < n" for i
  proof -
    have "8 - n \<le> 7 - i" "7 - i - (8 - n) = n - Suc i" "7 - i < 8" using that n by simp_all
    then show ?thesis by (simp add: bit_push_bit_iff bit_unsigned_iff)
  qed
  then have "top_bits (push_bit (8 - n) byte) n = map (\<lambda>i. bit (unat byte) (n - Suc i)) [0..<n]"
    by (simp add: top_bits_def)
  then show ?thesis by (simp add: bits_val_msb take_bit_eq_mod)
qed

lemma top_bits_length: "length (top_bits byte n) = n"
  by (simp add: top_bits_def)

lemma top_bits_marks: "top_bits WR_DATA 3 = [True, False, True]" "top_bits WR_CMD 3 = [True, False, False]"
  by (simp_all add: top_bits_def WR_DATA_def WR_CMD_def upt_rec)

lemmas top_bits_simps = top_bits_length top_bits_marks

text \<open>A transfer: pieces of bytes between the falling and the rising edge of the chip select.\<close>

definition transfer :: "(u8 \<times> u8) list \<Rightarrow> lcd \<Rightarrow> lcd" where
  "transfer ps s = lcd_pin LCD_CS_PIN True (fold (\<lambda>(b, n). LCD_WriteBit b n) ps (lcd_pin LCD_CS_PIN False s))"

lemma chip_pieces:
  assumes "\<not> chip_cs (chip_of c s)" "\<forall>p \<in> set ps. unat (snd p) \<le> 8"
  shows "chip_in (chip_of c (fold (\<lambda>(b, n). LCD_WriteBit b n) ps s)) =
      chip_in (chip_of c s) @ concat (map (\<lambda>(b, n). top_bits b (unat n)) ps)"
    "\<not> chip_cs (chip_of c (fold (\<lambda>(b, n). LCD_WriteBit b n) ps s))"
    "chip_frames (chip_of c (fold (\<lambda>(b, n). LCD_WriteBit b n) ps s)) = chip_frames (chip_of c s)"
    "lcd_buffer (fold (\<lambda>(b, n). LCD_WriteBit b n) ps s) = lcd_buffer s"
  using assms by (induction ps arbitrary: s) (auto simp: chip_WriteBit)

lemma chip_transfer:
  assumes "chip_cs (chip_of c s)" "\<forall>p \<in> set ps. unat (snd p) \<le> 8"
  shows "chip_ops c (transfer ps s) =
      chip_ops c s @ [decode_frame (concat (map (\<lambda>(b, n). top_bits b (unat n)) ps))]"
    "chip_cs (chip_of c (transfer ps s))" "lcd_buffer (transfer ps s) = lcd_buffer s"
proof -
  define s1 where "s1 = lcd_pin LCD_CS_PIN False s"
  have s1: "\<not> chip_cs (chip_of c s1)" "chip_in (chip_of c s1) = []"
    "chip_frames (chip_of c s1) = chip_frames (chip_of c s)" "lcd_buffer s1 = lcd_buffer s"
    using assms(1) by (simp_all add: s1_def chip_of_pin chip_step_def)
  note P = chip_pieces [OF s1(1) assms(2)]
  show "chip_ops c (transfer ps s) =
      chip_ops c s @ [decode_frame (concat (map (\<lambda>(b, n). top_bits b (unat n)) ps))]"
    "chip_cs (chip_of c (transfer ps s))" "lcd_buffer (transfer ps s) = lcd_buffer s"
    using P s1(2-4) unfolding transfer_def s1_def [symmetric]
    by (simp_all add: chip_ops_def chip_of_pin chip_step_def)
qed

lemma chip_WriteSeg:
  assumes "chip_cs (chip_of c s)"
  shows "chip_ops c (LCD_WriteSeg seg com s) = chip_ops c s @ [WriteData (unat seg mod 64) (unat com mod 16)]"
    "chip_cs (chip_of c (LCD_WriteSeg seg com s))" "lcd_buffer (LCD_WriteSeg seg com s) = lcd_buffer s"
proof -
  have t: "LCD_WriteSeg seg com s = transfer [(WR_DATA, 3), (push_bit 2 seg, 6), (push_bit 4 com, 4)] s"
    by (simp add: LCD_WriteSeg_def transfer_def Let_def)
  have "bits_val 0 (top_bits (push_bit 2 seg) 6) = unat seg mod 64" "bits_val 0 (top_bits (push_bit 4 com) 4) = unat com mod 16"
    using bits_val_top [of 6 seg] bits_val_top [of 4 com] by simp_all
  then have "decode_frame ([True, False, True] @ top_bits (push_bit 2 seg) 6 @ top_bits (push_bit 4 com) 4) =
      WriteData (unat seg mod 64) (unat com mod 16)"
    by (simp add: decode_frame_def top_bits_simps)
  then show "chip_ops c (LCD_WriteSeg seg com s) = chip_ops c s @ [WriteData (unat seg mod 64) (unat com mod 16)]"
    "chip_cs (chip_of c (LCD_WriteSeg seg com s))" "lcd_buffer (LCD_WriteSeg seg com s) = lcd_buffer s"
    unfolding t using assms by (simp_all add: chip_transfer top_bits_simps)
qed

lemma chip_WriteCmd:
  assumes "chip_cs (chip_of c s)"
  shows "chip_ops c (LCD_WriteCmd cmd s) = chip_ops c s @ [SendCommand (unat cmd)]"
    "chip_cs (chip_of c (LCD_WriteCmd cmd s))" "lcd_buffer (LCD_WriteCmd cmd s) = lcd_buffer s"
proof -
  have t: "LCD_WriteCmd cmd s = transfer [(WR_CMD, 3), (cmd, 8), (0, 1)] s"
    by (simp add: LCD_WriteCmd_def transfer_def Let_def)
  have "bits_val 0 (top_bits cmd 8) = unat cmd" using bits_val_top [of 8 cmd] by simp
  then have "decode_frame ([True, False, False] @ top_bits cmd 8 @ top_bits 0 1) = SendCommand (unat cmd)"
    by (simp add: decode_frame_def top_bits_simps)
  then show "chip_ops c (LCD_WriteCmd cmd s) = chip_ops c s @ [SendCommand (unat cmd)]"
    "chip_cs (chip_of c (LCD_WriteCmd cmd s))" "lcd_buffer (LCD_WriteCmd cmd s) = lcd_buffer s"
    unfolding t using assms by (simp_all add: chip_transfer top_bits_simps)
qed

lemma chip_refresh_loop:
  assumes "chip_cs (chip_of c s)" "\<forall>i \<in> set is. i < length (lcd_buffer s) \<and> i < 64"
  shows "\<exists>s'. lcd_refresh_loop is s = Some s' \<and> lcd_buffer s' = lcd_buffer s \<and> chip_cs (chip_of c s') \<and>
    chip_ops c s' = chip_ops c s @ map (\<lambda>i. WriteData i (unat (lcd_buffer s ! i) mod 16)) is"
  using assms
proof (induction "is" arbitrary: s)
  case (Cons i "is")
  have "unat (of_nat i :: u8) mod 64 = i" using Cons.prems(2) by (simp add: unat_of_nat_lt)
  then show ?case
    using Cons.IH [of "LCD_WriteSeg (of_nat i) (lcd_buffer s ! i) s"] Cons.prems chip_WriteSeg [OF Cons.prems(1)] by simp
qed simp

lemma chip_refresh:
  assumes "lcd_ok s" "chip_cs (chip_of c s)"
  shows "\<exists>s'. LCD_Refresh s = Some s' \<and> lcd_buffer s' = lcd_buffer s \<and> chip_cs (chip_of c s') \<and>
    chip_ops c s' = chip_ops c s @ map (\<lambda>i. WriteData i (unat (lcd_buffer s ! i) mod 16)) [0..<14]"
  using chip_refresh_loop [OF assms(2), of "[0..<14]"] assms(1)
  by (simp add: LCD_Refresh_def LCD_BUFFER_LEN_def lcd_ok_def)

text \<open>Refreshing sends the display, over the three pins, one write for each of the 14 segment addresses in
  order, with the four common lines of the buffer, and leaves the chip deselected; the buffer is kept.\<close>

theorem LCD_Refresh_sends:
  assumes "lcd_ok s" "chip_cs (chip_of c s)"
  shows "\<exists>s'. LCD_Refresh s = Some s' \<and> lcd_buffer s' = lcd_buffer s \<and> chip_cs (chip_of c s') \<and>
    chip_ops c s' = chip_ops c s @ map (\<lambda>i. WriteData i (unat (lcd_buffer s ! i) mod 16)) [0..<14]"
  using assms by (rule chip_refresh)

theorem LCD_Refresh_sends_witness:
  "\<exists>s'. LCD_Refresh \<lparr>lcd_buffer = replicate 14 0xA5, lcd_wire = []\<rparr> = Some s' \<and>
    chip_ops \<lparr>chip_cs = True, chip_wr = True, chip_data = True, chip_in = [], chip_frames = []\<rparr> s' =
      map (\<lambda>i. WriteData i 5) [0..<14]"
  using LCD_Refresh_sends [of "\<lparr>lcd_buffer = replicate 14 0xA5, lcd_wire = []\<rparr>"
      "\<lparr>chip_cs = True, chip_wr = True, chip_data = True, chip_in = [], chip_frames = []\<rparr>"]
  by (auto simp: lcd_ok_def chip_of_def chip_ops_def nth_replicate cong: map_cong)

text \<open>Initialisation switches the oscillator on, sets four commons with a third bias, selects the crystal,
  disables the watchdog flag and turns the display on, then clears all segments and shows the one icon for
  pressure, time and valves.\<close>

theorem LCD_Init_sends:
  assumes "chip_cs (chip_of c s)"
  shows "\<exists>s'. LCD_Init s = Some s' \<and> lcd_buffer s' = (replicate 14 0)[2 := 8] \<and> icon_on s' kS5PressTimingValves \<and>
    chip_ops c s' = chip_ops c s @ map SendCommand [1, 0x2B, 0x17, 5, 3] @
      map (\<lambda>i. WriteData i 0) [0..<14] @ map (\<lambda>i. WriteData i (if i = 2 then 8 else 0)) [0..<14]"
proof -
  define s1 where "s1 = lcd_pin LCD_DATA_PIN True (lcd_pin LCD_WR_PIN True (lcd_pin LCD_CS_PIN True s))"
  have s1: "chip_cs (chip_of c s1)" "chip_ops c s1 = chip_ops c s"
    using assms by (simp_all add: s1_def chip_of_pin chip_step_def chip_ops_def)
  define s2 where "s2 = fold LCD_WriteCmd [SYS_EN, BIAS_3_4COM, XTAL_32K, WDT_DIS, LCD_ON] s1"
  have s2: "chip_cs (chip_of c s2)" "chip_ops c s2 = chip_ops c s @ map SendCommand [1, 0x2B, 0x17, 5, 3]"
    using s1 by (simp_all add: s2_def chip_WriteCmd SYS_EN_def BIAS_3_4COM_def XTAL_32K_def WDT_DIS_def LCD_ON_def)
  define s3 where "s3 = s2\<lparr>lcd_buffer := replicate 14 0\<rparr>"
  have s3: "lcd_ok s3" "chip_of c s3 = chip_of c s2" "chip_ops c s3 = chip_ops c s2"
    by (simp_all add: s3_def lcd_ok_def chip_of_def chip_ops_def)
  obtain s4 where s4: "LCD_Refresh s3 = Some s4" "lcd_buffer s4 = replicate 14 0" "chip_cs (chip_of c s4)"
    "chip_ops c s4 = chip_ops c s3 @ map (\<lambda>i. WriteData i 0) [0..<14]"
    using chip_refresh [OF s3(1), of c] s2(1) s3(2) by (auto simp: s3_def nth_replicate cong: map_cong)
  define s5 where "s5 = lcd_set (icon_place kS5PressTimingValves) True s4"
  have ok4: "lcd_ok s4" using s4(2) by (simp add: lcd_ok_def)
  have "lcd_wire s5 = lcd_wire s4" by (simp add: s5_def)
  then have s5: "lcd_ok s5" "chip_of c s5 = chip_of c s4" "chip_ops c s5 = chip_ops c s4"
    "lcd_buffer s5 = (replicate 14 0)[2 := 8]" "icon_on s5 kS5PressTimingValves"
    using ok4 s4(2)
    by (simp_all add: s5_def chip_of_def chip_ops_def lcd_ok_def icon_place.simps lcd_set_def set_icon set_bit_eq_or icon_on_def lcd_on_def)
  obtain s6 where s6: "LCD_Refresh s5 = Some s6" "lcd_buffer s6 = lcd_buffer s5"
    "chip_ops c s6 = chip_ops c s5 @ map (\<lambda>i. WriteData i (unat (lcd_buffer s5 ! i) mod 16)) [0..<14]"
    using chip_refresh [OF s5(1), of c] s4(3) s5(2) by auto
  have "map (\<lambda>i. WriteData i (unat (lcd_buffer s5 ! i) mod 16)) [0..<14] =
      map (\<lambda>i. WriteData i (if i = 2 then 8 else 0)) [0..<14]"
    by (simp add: s5(4) nth_list_update)
  then have "chip_ops c s6 = chip_ops c s @ map SendCommand [1, 0x2B, 0x17, 5, 3] @
      map (\<lambda>i. WriteData i 0) [0..<14] @ map (\<lambda>i. WriteData i (if i = 2 then 8 else 0)) [0..<14]"
    using s6(3) s5(3) s4(4) s3(3) s2(2) by simp
  moreover have "LCD_Init s = Some s6"
  proof -
    have "LCD_Init s = do { s \<leftarrow> LCD_Clear s2; s \<leftarrow> LCD_ShowIcon kS5PressTimingValves kShowOpen s; LCD_Refresh s }"
      by (simp add: LCD_Init_def Let_def s2_def s1_def)
    then show ?thesis
      using s4(1) s6(1) ok4 by (simp add: LCD_Clear_def LCD_BUFFER_LEN_def s3_def s5_def)
  qed
  moreover have "icon_on s6 kS5PressTimingValves" using s5(5) s6(2) by (simp add: icon_on_def lcd_on_def)
  ultimately show ?thesis using s6(2) s5(4) by auto
qed

theorem LCD_Init_sends_witness:
  "\<exists>s'. LCD_Init \<lparr>lcd_buffer = replicate 14 7, lcd_wire = []\<rparr> = Some s' \<and>
    take 5 (chip_ops \<lparr>chip_cs = True, chip_wr = False, chip_data = True, chip_in = [], chip_frames = []\<rparr> s') =
      map SendCommand [1, 0x2B, 0x17, 5, 3]"
proof -
  have "chip_cs (chip_of \<lparr>chip_cs = True, chip_wr = False, chip_data = True, chip_in = [], chip_frames = []\<rparr>
      \<lparr>lcd_buffer = replicate 14 7, lcd_wire = []\<rparr>)"
    by (simp add: chip_of_def)
  from LCD_Init_sends [OF this] show ?thesis by (auto simp: chip_ops_def chip_of_def)
qed

end
