(* ===== verification/Alloc_Spec.thy ===== *)
theory Alloc_Spec
  imports Prelude
begin

text \<open>
  The contract of a heap as its clients rely on it: a request returns null or a region that overlaps none
  of the live ones, and a live region can be given back. A client program is a list of requests and
  releases of pointers it holds; that every such program runs is proved once, from the contract.
\<close>

datatype heap_op = Get u32 | Drop nat

fun heap_run ::
  "('s \<Rightarrow> u32 \<Rightarrow> (nat option \<times> 's) option) \<Rightarrow> ('s \<Rightarrow> nat option \<Rightarrow> 's option) \<Rightarrow>
    heap_op list \<Rightarrow> 's \<Rightarrow> nat list \<Rightarrow> ('s \<times> nat list) option" where
  "heap_run alloc free [] s own = Some (s, own)"
| "heap_run alloc free (Get n # ops) s own =
     do { (r, s) \<leftarrow> alloc s n;
          heap_run alloc free ops s (case r of None \<Rightarrow> own | Some p \<Rightarrow> own @ [p]) }"
| "heap_run alloc free (Drop i # ops) s own =
     (if i < length own
      then do { s \<leftarrow> free s (Some (own ! i)); heap_run alloc free ops s (take i own @ drop (Suc i) own) }
      else heap_run alloc free ops s own)"

locale allocator =
  fixes inv :: "'s \<Rightarrow> bool"
    and live :: "'s \<Rightarrow> (nat \<times> nat) set"
    and alloc :: "'s \<Rightarrow> u32 \<Rightarrow> (nat option \<times> 's) option"
    and free :: "'s \<Rightarrow> nat option \<Rightarrow> 's option"
    and granted :: "u32 \<Rightarrow> nat"
  assumes alloc_live: "inv s \<Longrightarrow> \<exists>r s'. alloc s n = Some (r, s') \<and> inv s' \<and>
      (case r of None \<Rightarrow> live s' = live s
       | Some p \<Rightarrow> \<exists>k. granted n \<le> k \<and> (p, k) \<notin> live s \<and> live s' = insert (p, k) (live s))"
    and free_live: "inv s \<Longrightarrow> (p, k) \<in> live s \<Longrightarrow>
      \<exists>s'. free s (Some p) = Some s' \<and> inv s' \<and> live s' = live s - {(p, k)}"
    and live_disjoint: "inv s \<Longrightarrow> (p, k) \<in> live s \<Longrightarrow> (q, j) \<in> live s \<Longrightarrow> (p, k) \<noteq> (q, j) \<Longrightarrow>
      p + k \<le> q \<or> q + j \<le> p"
    and live_pos: "inv s \<Longrightarrow> (p, k) \<in> live s \<Longrightarrow> 0 < k"
begin

lemma live_unique: "inv s \<Longrightarrow> (p, k) \<in> live s \<Longrightarrow> (p, j) \<in> live s \<Longrightarrow> k = j"
  using live_disjoint [of s p k p j] live_pos [of s p k] live_pos [of s p j] by fastforce

definition holds :: "'s \<Rightarrow> nat list \<Rightarrow> bool" where
  "holds s own \<longleftrightarrow> inv s \<and> distinct own \<and> set own = fst ` live s"

lemma holds_get:
  assumes h: "holds s own"
  shows "\<exists>r s'. alloc s n = Some (r, s') \<and> holds s' (case r of None \<Rightarrow> own | Some p \<Rightarrow> own @ [p])"
proof -
  have i: "inv s" using h by (simp add: holds_def)
  obtain r s' where a: "alloc s n = Some (r, s')" "inv s'"
    "case r of None \<Rightarrow> live s' = live s
     | Some p \<Rightarrow> \<exists>k. granted n \<le> k \<and> (p, k) \<notin> live s \<and> live s' = insert (p, k) (live s)"
    using alloc_live [OF i] by blast
  show ?thesis
  proof (cases r)
    case None
    then show ?thesis using a h by (auto simp: holds_def)
  next
    case (Some p)
    then obtain k where k: "(p, k) \<notin> live s" "live s' = insert (p, k) (live s)" using a(3) by auto
    have "p \<notin> fst ` live s"
    proof
      assume "p \<in> fst ` live s"
      then obtain j where "(p, j) \<in> live s" by auto
      then show False using live_unique [OF a(2), of p j k] k by auto
    qed
    then show ?thesis using a Some h k by (auto simp: holds_def)
  qed
qed

lemma holds_drop:
  assumes h: "holds s own" and i: "i < length own"
  shows "\<exists>s'. free s (Some (own ! i)) = Some s' \<and> holds s' (take i own @ drop (Suc i) own)"
proof -
  have own: "inv s" "distinct own" "set own = fst ` live s" using h by (simp_all add: holds_def)
  then obtain k where k: "(own ! i, k) \<in> live s" using nth_mem [OF i] by auto
  obtain s' where s': "free s (Some (own ! i)) = Some s'" "inv s'" "live s' = live s - {(own ! i, k)}"
    using free_live [OF own(1) k] by blast
  have split: "own = take i own @ own ! i # drop (Suc i) own" using i by (rule id_take_nth_drop)
  have "distinct (take i own @ own ! i # drop (Suc i) own)" using own(2) by (rule subst [OF split, of distinct])
  then have d: "distinct (take i own @ drop (Suc i) own)"
    "own ! i \<notin> set (take i own @ drop (Suc i) own)"
    by (simp_all del: append_take_drop_id)
  have "set own = set (take i own @ own ! i # drop (Suc i) own)" using split by (rule arg_cong)
  also have "\<dots> = insert (own ! i) (set (take i own @ drop (Suc i) own))" by simp
  finally have "set (take i own @ drop (Suc i) own) = fst ` live s - {own ! i}" using d(2) own(3) by auto
  also have "\<dots> = fst ` live s'"
  proof (intro set_eqI iffI)
    fix q assume "q \<in> fst ` live s - {own ! i}"
    then obtain j where "(q, j) \<in> live s" "q \<noteq> own ! i" by auto
    then have "(q, j) \<in> live s'" by (simp add: s'(3))
    then show "q \<in> fst ` live s'" by (rule image_eqI [rotated]) simp
  next
    fix q assume "q \<in> fst ` live s'"
    then obtain j where "(q, j) \<in> live s'" by auto
    then have j: "(q, j) \<in> live s - {(own ! i, k)}" by (simp only: s'(3))
    then have "q \<noteq> own ! i" using live_unique [OF own(1) k, of j] j by auto
    then show "q \<in> fst ` live s - {own ! i}" using j by (auto intro: image_eqI [rotated])
  qed
  finally show ?thesis using s' d(1) by (auto simp: holds_def)
qed

lemma run_holds:
  "holds s own \<Longrightarrow> \<exists>s' own'. heap_run alloc free ops s own = Some (s', own') \<and> holds s' own'"
proof (induction ops arbitrary: s own)
  case (Cons op ops)
  show ?case
  proof (cases op)
    case (Get n)
    then show ?thesis using holds_get [OF Cons.prems, of n] Cons.IH by fastforce
  next
    case (Drop i)
    then show ?thesis using holds_drop [OF Cons.prems, of i] Cons.IH Cons.prems by fastforce
  qed
qed auto

end

end
