(* ===== verification/Mem.thy ===== *)
theory Mem
  imports Alloc_Spec
begin

text \<open>
  The kernel's heap: the small memory allocator (\<open>rt-thread/src/mem.c\<close>) and the functions of
  \<open>kservice.c\<close> that pass it the system heap. Addresses inside the heap are offsets from \<open>heap_ptr\<close>, which
  is aligned to 4; a null pointer is \<open>None\<close>. The memory is seen in two ways: \<open>items\<close> holds the block headers
  by their offsets, \<open>bytes\<close> the data. The low bit of a header's \<open>pool_ptr\<close> is the used flag, the rest the
  pool's address; \<open>None\<close> is the value 0 that a header gets when its block is merged into another. Offsets
  and sums of offsets and aligned sizes are below \<open>2 ^ 32\<close>, since a size is compared with the size of the
  heap first; subtractions wrap. The alignment of a requested size is done on the 32-bit size. The
  assertions on the kernel object's type are left out, and so is the lock, which makes each call atomic.
\<close>

subsection \<open>State\<close>

definition RT_ALIGN :: "u32 \<Rightarrow> u32" where "RT_ALIGN sz = (sz + 3) AND NOT 3"
definition RT_ALIGN_DOWN :: "u32 \<Rightarrow> u32" where "RT_ALIGN_DOWN sz = sz AND NOT 3"

definition SIZEOF_STRUCT_MEM :: nat where "SIZEOF_STRUCT_MEM = 12"
definition MIN_SIZE :: nat where "MIN_SIZE = 12"
definition MIN_SIZE_ALIGNED :: nat where "MIN_SIZE_ALIGNED = unat (RT_ALIGN (of_nat MIN_SIZE))"
definition SIZEOF_SMALL_MEM :: u32 where "SIZEOF_SMALL_MEM = 56"

record mem_item =
  pool_ptr :: "bool option"
  item_next :: nat
  item_prev :: nat

record small_mem =
  items :: "nat \<Rightarrow> mem_item option"
  bytes :: "nat \<Rightarrow> u8"
  lfree :: nat
  mem_size_aligned :: nat
  mem_used :: nat
  mem_max :: nat

definition MEM_USED :: "bool option" where "MEM_USED = Some True"
definition MEM_FREED :: "bool option" where "MEM_FREED = Some False"
definition MEM_ISUSED :: "mem_item \<Rightarrow> bool" where "MEM_ISUSED it \<longleftrightarrow> pool_ptr it = MEM_USED"

definition heap_end :: "small_mem \<Rightarrow> nat" where "heap_end m = mem_size_aligned m + SIZEOF_STRUCT_MEM"

definition sub32 :: "nat \<Rightarrow> nat \<Rightarrow> nat" where "sub32 a b = (if b \<le> a then a - b else a + 2 ^ 32 - b)"

definition put_item :: "small_mem \<Rightarrow> nat \<Rightarrow> mem_item \<Rightarrow> small_mem" where
  "put_item m p it = m\<lparr>items := (items m)(p := Some it)\<rparr>"

definition set_next :: "small_mem \<Rightarrow> nat \<Rightarrow> nat \<Rightarrow> small_mem option" where
  "set_next m p v = do { it \<leftarrow> items m p; Some (put_item m p (it\<lparr>item_next := v\<rparr>)) }"

definition set_prev :: "small_mem \<Rightarrow> nat \<Rightarrow> nat \<Rightarrow> small_mem option" where
  "set_prev m p v = do { it \<leftarrow> items m p; Some (put_item m p (it\<lparr>item_prev := v\<rparr>)) }"

definition set_pool :: "small_mem \<Rightarrow> nat \<Rightarrow> bool option \<Rightarrow> small_mem option" where
  "set_pool m p v = do { it \<leftarrow> items m p; Some (put_item m p (it\<lparr>pool_ptr := v\<rparr>)) }"

subsection \<open>Operations\<close>

text \<open>The two halves of \<open>plug_holes\<close>: the merge with the block behind, then with the block before.\<close>

definition plug_forward :: "small_mem \<Rightarrow> nat \<Rightarrow> small_mem option" where
  "plug_forward m mem =
     do { it \<leftarrow> items m mem;
          let nmem = item_next it;
          nit \<leftarrow> items m nmem;
          if mem \<noteq> nmem \<and> \<not> MEM_ISUSED nit \<and> nmem \<noteq> heap_end m
          then do {
            let m = (if lfree m = nmem then m\<lparr>lfree := mem\<rparr> else m);
            m \<leftarrow> set_pool m nmem None;
            m \<leftarrow> set_next m mem (item_next nit);
            set_prev m (item_next nit) mem }
          else Some m }"

definition plug_backward :: "small_mem \<Rightarrow> nat \<Rightarrow> small_mem option" where
  "plug_backward m mem =
     do { it \<leftarrow> items m mem;
          let pmem = item_prev it;
          pit \<leftarrow> items m pmem;
          if pmem \<noteq> mem \<and> \<not> MEM_ISUSED pit
          then do {
            let m = (if lfree m = mem then m\<lparr>lfree := pmem\<rparr> else m);
            m \<leftarrow> set_pool m mem None;
            m \<leftarrow> set_next m pmem (item_next it);
            set_prev m (item_next it) pmem }
          else Some m }"

definition plug_holes :: "small_mem \<Rightarrow> nat \<Rightarrow> small_mem option" where
  "plug_holes m mem =
     do { rt_assert (mem < heap_end m);
          m \<leftarrow> plug_forward m mem;
          plug_backward m mem }"

text \<open>The result is the heap's address and its state, or null when the memory is too small.\<close>

definition rt_smem_init :: "u32 \<Rightarrow> u32 \<Rightarrow> (u32 \<times> small_mem) option" where
  "rt_smem_init begin_addr sz =
     (let small_mem = RT_ALIGN begin_addr;
          start_addr = small_mem + SIZEOF_SMALL_MEM;
          begin_align = RT_ALIGN start_addr;
          end_align = RT_ALIGN_DOWN (begin_addr + sz)
      in if end_align > 2 * of_nat SIZEOF_STRUCT_MEM \<and> end_align - 2 * of_nat SIZEOF_STRUCT_MEM \<ge> start_addr
         then
           let mem_size = unat (end_align - begin_align - 2 * of_nat SIZEOF_STRUCT_MEM);
               e = mem_size + SIZEOF_STRUCT_MEM
           in Some (begin_align,
                \<lparr>items = [0 \<mapsto> \<lparr>pool_ptr = MEM_FREED, item_next = e, item_prev = 0\<rparr>,
                          e \<mapsto> \<lparr>pool_ptr = MEM_USED, item_next = e, item_prev = e\<rparr>],
                 bytes = (\<lambda>_. 0), lfree = 0, mem_size_aligned = mem_size, mem_used = 0, mem_max = 0\<rparr>)
         else None)"

text \<open>The search for a free block that is large enough.\<close>

fun smem_find :: "nat \<Rightarrow> small_mem \<Rightarrow> nat \<Rightarrow> nat \<Rightarrow> nat option option" where
  "smem_find 0 m ptr sz = None"
| "smem_find (Suc fuel) m ptr sz =
     (if ptr \<le> mem_size_aligned m - sz
      then do {
        it \<leftarrow> items m ptr;
        if \<not> MEM_ISUSED it \<and> sub32 (item_next it) (ptr + SIZEOF_STRUCT_MEM) \<ge> sz then Some (Some ptr)
        else smem_find fuel m (item_next it) sz }
      else Some None)"

text \<open>The next free block from the pointer to the lowest free one.\<close>

fun smem_next_free :: "nat \<Rightarrow> small_mem \<Rightarrow> nat \<Rightarrow> nat option" where
  "smem_next_free 0 m p = None"
| "smem_next_free (Suc fuel) m p =
     do { it \<leftarrow> items m p;
          if MEM_ISUSED it \<and> p \<noteq> heap_end m then smem_next_free fuel m (item_next it) else Some p }"

definition smem_fuel :: "small_mem \<Rightarrow> nat" where "smem_fuel m = mem_size_aligned m + SIZEOF_STRUCT_MEM + 2"

definition smem_account :: "small_mem \<Rightarrow> nat \<Rightarrow> small_mem" where
  "smem_account m n = (let u = mem_used m + n in m\<lparr>mem_used := u, mem_max := max (mem_max m) u\<rparr>)"

text \<open>
  The block at \<open>ptr\<close> is split: a new free block is made at \<open>ptr2\<close> and put between it and the next one, the
  same statements in the allocation and in the shrinking of a block.
\<close>

definition smem_split :: "small_mem \<Rightarrow> nat \<Rightarrow> nat \<Rightarrow> small_mem option" where
  "smem_split m ptr ptr2 =
     do { it \<leftarrow> items m ptr;
          let m = put_item m ptr2 \<lparr>pool_ptr = MEM_FREED, item_next = item_next it, item_prev = ptr\<rparr>;
          m \<leftarrow> set_next m ptr ptr2;
          if item_next it \<noteq> mem_size_aligned m + SIZEOF_STRUCT_MEM then set_prev m (item_next it) ptr2 else Some m }"

definition smem_take :: "small_mem \<Rightarrow> nat \<Rightarrow> nat \<Rightarrow> (nat option \<times> small_mem) option" where
  "smem_take m ptr sz =
     do { it \<leftarrow> items m ptr;
          m \<leftarrow> (if sub32 (item_next it) (ptr + SIZEOF_STRUCT_MEM) \<ge> sz + SIZEOF_STRUCT_MEM + MIN_SIZE_ALIGNED
                then do {
                  m \<leftarrow> smem_split m ptr (ptr + SIZEOF_STRUCT_MEM + sz);
                  Some (smem_account m (sz + SIZEOF_STRUCT_MEM)) }
                else Some (smem_account m (sub32 (item_next it) ptr)));
          m \<leftarrow> set_pool m ptr MEM_USED;
          m \<leftarrow> (if ptr = lfree m
                then do {
                  p \<leftarrow> smem_next_free (smem_fuel m) m (lfree m);
                  it \<leftarrow> items m p;
                  rt_assert (p = heap_end m \<or> \<not> MEM_ISUSED it);
                  Some (m\<lparr>lfree := p\<rparr>) }
                else Some m);
          rt_assert (ptr + SIZEOF_STRUCT_MEM + sz \<le> heap_end m);
          rt_assert ((ptr + SIZEOF_STRUCT_MEM) mod 4 = 0);
          rt_assert (ptr mod 4 = 0);
          Some (Some (ptr + SIZEOF_STRUCT_MEM), m) }"

definition rt_smem_alloc :: "small_mem \<Rightarrow> u32 \<Rightarrow> (nat option \<times> small_mem) option" where
  "rt_smem_alloc m sz =
     (if sz = 0 then Some (None, m)
      else
        let sz = unat (RT_ALIGN sz);
            sz = (if sz < MIN_SIZE_ALIGNED then MIN_SIZE_ALIGNED else sz)
        in if sz > mem_size_aligned m then Some (None, m)
           else do {
             r \<leftarrow> smem_find (smem_fuel m) m (lfree m) sz;
             case r of None \<Rightarrow> Some (None, m) | Some ptr \<Rightarrow> smem_take m ptr sz })"

definition rt_smem_free :: "small_mem \<Rightarrow> nat option \<Rightarrow> small_mem option" where
  "rt_smem_free m rmem =
     (case rmem of
        None \<Rightarrow> Some m
      | Some rmem \<Rightarrow>
          do { rt_assert (rmem mod 4 = 0);
               rt_assert (SIZEOF_STRUCT_MEM \<le> rmem);
               let mem = rmem - SIZEOF_STRUCT_MEM;
               it \<leftarrow> items m mem;
               rt_assert (pool_ptr it \<noteq> None);
               rt_assert (MEM_ISUSED it);
               rt_assert (rmem < heap_end m);
               nit \<leftarrow> items m (item_next it);
               rt_assert (pool_ptr nit \<noteq> None);
               m \<leftarrow> set_pool m mem MEM_FREED;
               let m = (if mem < lfree m then m\<lparr>lfree := mem\<rparr> else m);
               let m = m\<lparr>mem_used := sub32 (mem_used m) (sub32 (item_next it) mem)\<rparr>;
               plug_holes m mem })"

definition copy_bytes :: "(nat \<Rightarrow> u8) \<Rightarrow> nat \<Rightarrow> nat \<Rightarrow> nat \<Rightarrow> nat \<Rightarrow> u8" where
  "copy_bytes b dst src n = (\<lambda>a. if dst \<le> a \<and> a < dst + n then b (src + (a - dst)) else b a)"

text \<open>The branch of \<open>rt_smem_realloc\<close> that splits the block: its rest is freed and merged.\<close>

definition smem_shrink :: "small_mem \<Rightarrow> nat \<Rightarrow> nat \<Rightarrow> nat \<Rightarrow> small_mem option" where
  "smem_shrink m ptr sz n =
     do { let m = m\<lparr>mem_used := sub32 (mem_used m) (sz - n)\<rparr>;
          let ptr2 = ptr + SIZEOF_STRUCT_MEM + n;
          m \<leftarrow> smem_split m ptr ptr2;
          let m = (if ptr2 < lfree m then m\<lparr>lfree := ptr2\<rparr> else m);
          plug_holes m ptr2 }"

definition rt_smem_realloc :: "small_mem \<Rightarrow> nat option \<Rightarrow> u32 \<Rightarrow> (nat option \<times> small_mem) option" where
  "rt_smem_realloc m rmem newsize =
     (let newsize = RT_ALIGN newsize; n = unat newsize
      in if n > mem_size_aligned m then Some (None, m)
         else if n = 0 then do { m \<leftarrow> rt_smem_free m rmem; Some (None, m) }
         else case rmem of
           None \<Rightarrow> rt_smem_alloc m newsize
         | Some rm \<Rightarrow>
             do { rt_assert (rm mod 4 = 0);
                  rt_assert (rm < heap_end m);
                  rt_assert (SIZEOF_STRUCT_MEM \<le> rm);
                  let ptr = rm - SIZEOF_STRUCT_MEM;
                  it \<leftarrow> items m ptr;
                  let sz = sub32 (sub32 (item_next it) ptr) SIZEOF_STRUCT_MEM;
                  if sz = n then Some (rmem, m)
                  else if n + SIZEOF_STRUCT_MEM + MIN_SIZE < sz
                  then do { m \<leftarrow> smem_shrink m ptr sz n; Some (rmem, m) }
                  else do {
                    (nmem, m) \<leftarrow> rt_smem_alloc m newsize;
                    case nmem of
                      None \<Rightarrow> Some (None, m)
                    | Some nm \<Rightarrow>
                        do { m \<leftarrow> rt_smem_free (m\<lparr>bytes := copy_bytes (bytes m) nm rm (if sz < n then sz else n)\<rparr>) rmem;
                             Some (nmem, m) } } })"

subsection \<open>The system heap\<close>

definition rt_malloc :: "small_mem \<Rightarrow> u32 \<Rightarrow> (nat option \<times> small_mem) option" where
  "rt_malloc m sz = rt_smem_alloc m sz"

definition rt_realloc :: "small_mem \<Rightarrow> nat option \<Rightarrow> u32 \<Rightarrow> (nat option \<times> small_mem) option" where
  "rt_realloc m rmem newsize = rt_smem_realloc m rmem newsize"

definition rt_free :: "small_mem \<Rightarrow> nat option \<Rightarrow> small_mem option" where
  "rt_free m rmem = (case rmem of None \<Rightarrow> Some m | Some _ \<Rightarrow> rt_smem_free m rmem)"

definition rt_calloc :: "small_mem \<Rightarrow> u32 \<Rightarrow> u32 \<Rightarrow> (nat option \<times> small_mem) option" where
  "rt_calloc m count sz =
     do { (p, m) \<leftarrow> rt_malloc m (count * sz);
          case p of
            None \<Rightarrow> Some (None, m)
          | Some a \<Rightarrow>
              Some (p, m\<lparr>bytes := (\<lambda>i. if a \<le> i \<and> i < a + unat (count * sz) then 0 else bytes m i)\<rparr>) }"

subsection \<open>The list of blocks\<close>

text \<open>
  The heap as a list of blocks, each its length with the header and whether it is used: \<open>heap_list its q p bs e\<close>
  says that the headers form this list from offset \<open>p\<close> to \<open>e\<close>, with \<open>q\<close> as the first one's predecessor.
\<close>

fun heap_list :: "(nat \<Rightarrow> mem_item option) \<Rightarrow> nat \<Rightarrow> nat \<Rightarrow> (nat \<times> bool) list \<Rightarrow> nat \<Rightarrow> bool" where
  "heap_list its q p [] e \<longleftrightarrow> p = e"
| "heap_list its q p ((n, u) # bs) e \<longleftrightarrow>
     its p = Some \<lparr>pool_ptr = Some u, item_next = p + n, item_prev = q\<rparr> \<and> 12 \<le> n \<and> n mod 4 = 0 \<and>
     heap_list its p (p + n) bs e"

definition total :: "(nat \<times> bool) list \<Rightarrow> nat" where "total bs = sum_list (map fst bs)"

lemma total_simps [simp]:
  "total [] = 0" "total ((n, u) # bs) = n + total bs" "total (xs @ ys) = total xs + total ys"
  by (simp_all add: total_def)

fun last_of :: "nat \<Rightarrow> nat \<Rightarrow> (nat \<times> bool) list \<Rightarrow> nat" where
  "last_of q p [] = q"
| "last_of q p ((n, u) # bs) = last_of p (p + n) bs"

lemma last_of_snoc [simp]: "last_of q p (xs @ [(n, u)]) = p + total xs"
  by (induction q p xs rule: last_of.induct) simp_all

lemma heap_list_append [simp]:
  "heap_list its q p (xs @ ys) e \<longleftrightarrow>
    heap_list its q p xs (p + total xs) \<and> heap_list its (last_of q p xs) (p + total xs) ys e"
  by (induction q p xs rule: last_of.induct) (auto simp: add.assoc)

lemma heap_list_end: "heap_list its q p bs e \<Longrightarrow> e = p + total bs"
  by (induction its q p bs e rule: heap_list.induct) auto

lemma heap_list_mod: "heap_list its q p bs e \<Longrightarrow> total bs mod 4 = 0"
  by (induction its q p bs e rule: heap_list.induct) (auto simp: mod_add_eq [symmetric])

lemma heap_list_length: "heap_list its q p bs e \<Longrightarrow> p + 12 * length bs \<le> e"
  by (induction its q p bs e rule: heap_list.induct) auto

text \<open>Writing a header outside of the list, and changing the first one's predecessor.\<close>

lemma heap_list_other: "x < p \<or> e \<le> x \<Longrightarrow> heap_list its q p bs e \<Longrightarrow> heap_list (its(x := v)) q p bs e"
proof (induction its q p bs e rule: heap_list.induct)
  case (2 its q p n u bs e)
  then have "e = p + n + total bs" using heap_list_end by auto
  then show ?case using 2 by auto
qed simp

lemma heap_list_prev:
  assumes "heap_list its q p bs e" "its p = Some it"
  shows "heap_list (its(p := Some (it\<lparr>item_prev := q'\<rparr>))) q' p bs e"
proof (cases bs)
  case (Cons b rest)
  obtain n u where b: "b = (n, u)" by (cases b)
  have "heap_list (its(p := Some (it\<lparr>item_prev := q'\<rparr>))) p (p + n) rest e"
    by (rule heap_list_other) (use assms Cons b in auto)
  then show ?thesis using assms Cons b by auto
qed (use assms in simp)

lemma tail_prev:
  assumes "heap_list its q p zs e" "its e = Some \<lparr>pool_ptr = Some True, item_next = e, item_prev = v\<rparr>"
  shows "\<exists>it. its p = Some it \<and> heap_list (its(p := Some (it\<lparr>item_prev := q'\<rparr>))) q' p zs e \<and>
    (\<exists>v. (its(p := Some (it\<lparr>item_prev := q'\<rparr>))) e = Some \<lparr>pool_ptr = Some True, item_next = e, item_prev = v\<rparr>)"
proof -
  obtain it where it: "its p = Some it" using assms by (cases zs) auto
  then show ?thesis using heap_list_prev [OF assms(1) it] assms(2) by auto
qed

lemma heap_list_head: "heap_list its q p bs e \<Longrightarrow> bs \<noteq> [] \<Longrightarrow> p < e"
  using heap_list_end [of its q p bs e] by (cases bs) auto

definition no_free_pair :: "(nat \<times> bool) list \<Rightarrow> bool" where
  "no_free_pair bs = successively (\<lambda>a b. snd a \<or> snd b) bs"

lemma no_free_pair_Nil [simp]: "no_free_pair []" by (simp add: no_free_pair_def)

lemma no_free_pair_append:
  "no_free_pair (xs @ ys) \<longleftrightarrow>
    no_free_pair xs \<and> no_free_pair ys \<and> (xs = [] \<or> ys = [] \<or> snd (last xs) \<or> snd (hd ys))"
  by (auto simp: no_free_pair_def successively_append_iff)

lemma no_free_pair_Cons:
  "no_free_pair (x # ys) \<longleftrightarrow> no_free_pair ys \<and> (ys = [] \<or> snd x \<or> snd (hd ys))"
  by (cases ys) (auto simp: no_free_pair_def)

definition used_total :: "(nat \<times> bool) list \<Rightarrow> nat" where "used_total bs = total (filter snd bs)"

lemma used_total_simps [simp]:
  "used_total [] = 0" "used_total ((n, u) # bs) = (if u then n else 0) + used_total bs"
  "used_total (xs @ ys) = used_total xs + used_total ys"
  by (simp_all add: used_total_def)

text \<open>The lists' headers and the header at the end of the heap.\<close>

definition heap_blocks :: "small_mem \<Rightarrow> (nat \<times> bool) list \<Rightarrow> bool" where
  "heap_blocks m bs \<longleftrightarrow>
     heap_list (items m) 0 0 bs (heap_end m) \<and> bs \<noteq> [] \<and>
     (\<exists>v. items m (heap_end m) = Some \<lparr>pool_ptr = Some True, item_next = heap_end m, item_prev = v\<rparr>) \<and>
     heap_end m + 36 < 2 ^ 32"

text \<open>A block in use has at least a word of data; a free one may be empty.\<close>

definition used_ok :: "(nat \<times> bool) list \<Rightarrow> bool" where
  "used_ok bs \<longleftrightarrow> list_all (\<lambda>(n, u). u \<longrightarrow> 16 \<le> n) bs"

lemma used_ok_simps [simp]:
  "used_ok []" "used_ok ((n, u) # bs) \<longleftrightarrow> (u \<longrightarrow> 16 \<le> n) \<and> used_ok bs"
  "used_ok (xs @ ys) \<longleftrightarrow> used_ok xs \<and> used_ok ys"
  by (simp_all add: used_ok_def)

definition heap_abs :: "small_mem \<Rightarrow> (nat \<times> bool) list \<Rightarrow> bool" where
  "heap_abs m bs \<longleftrightarrow>
     heap_blocks m bs \<and> no_free_pair bs \<and> used_ok bs \<and> lfree m = total (takeWhile snd bs) \<and> mem_used m = used_total bs"

lemma MIN_SIZE_ALIGNED [simp]: "MIN_SIZE_ALIGNED = 12"
  by (simp add: MIN_SIZE_ALIGNED_def MIN_SIZE_def RT_ALIGN_def)

lemma SIZEOF_STRUCT_MEM [simp]: "SIZEOF_STRUCT_MEM = 12" by (simp add: SIZEOF_STRUCT_MEM_def)

lemma sub32_le [simp]: "b \<le> a \<Longrightarrow> sub32 a b = a - b" by (simp add: sub32_def)

lemma put_item_sel [simp]:
  "items (put_item m p it) = (items m)(p := Some it)" "lfree (put_item m p it) = lfree m"
  "mem_size_aligned (put_item m p it) = mem_size_aligned m" "mem_used (put_item m p it) = mem_used m"
  "mem_max (put_item m p it) = mem_max m" "bytes (put_item m p it) = bytes m" "heap_end (put_item m p it) = heap_end m"
  by (simp_all add: put_item_def heap_end_def)

lemma heap_end_upd [simp]:
  "heap_end (m\<lparr>lfree := x\<rparr>) = heap_end m" "heap_end (m\<lparr>mem_used := x\<rparr>) = heap_end m"
  "heap_end (m\<lparr>mem_max := x\<rparr>) = heap_end m" "heap_end (m\<lparr>bytes := b\<rparr>) = heap_end m"
  "heap_end (m\<lparr>items := its\<rparr>) = heap_end m"
  by (simp_all add: heap_end_def)

text \<open>A state is determined, for the lists, by its headers and its size.\<close>

lemma heap_blocks_split:
  "heap_blocks m (xs @ (n, u) # ys) \<longleftrightarrow>
    heap_list (items m) 0 0 xs (total xs) \<and>
    items m (total xs) = Some \<lparr>pool_ptr = Some u, item_next = total xs + n, item_prev = last_of 0 0 xs\<rparr> \<and>
    12 \<le> n \<and> n mod 4 = 0 \<and> heap_list (items m) (total xs) (total xs + n) ys (heap_end m) \<and>
    (\<exists>v. items m (heap_end m) = Some \<lparr>pool_ptr = Some True, item_next = heap_end m, item_prev = v\<rparr>) \<and>
    heap_end m + 36 < 2 ^ 32"
  by (auto simp: heap_blocks_def)

lemma heap_blocks_bounds:
  assumes "heap_blocks m (xs @ (n, u) # ys)"
  shows "total xs + n \<le> heap_end m" "ys = [] \<longleftrightarrow> total xs + n = heap_end m" "total xs mod 4 = 0"
    "heap_end m = mem_size_aligned m + 12" "heap_end m = total xs + n + total ys"
proof -
  have l: "heap_list (items m) (total xs) (total xs + n) ys (heap_end m)" "heap_list (items m) 0 0 xs (total xs)"
    using assms by (simp_all add: heap_blocks_split)
  show "heap_end m = total xs + n + total ys" using heap_list_end [OF l(1)] .
  then show "total xs + n \<le> heap_end m" by simp
  show "ys = [] \<longleftrightarrow> total xs + n = heap_end m"
    using heap_list_head [OF l(1)] l(1) by (cases ys) auto
  show "total xs mod 4 = 0" using heap_list_mod [OF l(2)] .
  show "heap_end m = mem_size_aligned m + 12" by (simp add: heap_end_def)
qed

definition same_rest :: "small_mem \<Rightarrow> small_mem \<Rightarrow> bool" where
  "same_rest m m' \<longleftrightarrow> mem_used m' = mem_used m \<and> mem_max m' = mem_max m \<and> bytes m' = bytes m \<and>
     mem_size_aligned m' = mem_size_aligned m"

lemma same_rest_end: "same_rest m m' \<Longrightarrow> heap_end m' = heap_end m"
  by (simp add: same_rest_def heap_end_def)

text \<open>Two neighbouring blocks become one, with the header of the first.\<close>

lemma merge_blocks:
  assumes b: "heap_blocks m (xs @ (n, u) # (k, w) # zs)"
  defines "p \<equiv> total xs"
  shows "\<exists>it. items m (p + n + k) = Some it \<and>
    heap_blocks (m\<lparr>items := (items m)(p + n := x, p := Some \<lparr>pool_ptr = Some u, item_next = p + n + k, item_prev = last_of 0 0 xs\<rparr>,
        p + n + k := Some (it\<lparr>item_prev := p\<rparr>))\<rparr>) (xs @ (n + k, u) # zs)"
proof -
  let ?h = "\<lparr>pool_ptr = Some u, item_next = p + n + k, item_prev = last_of 0 0 xs\<rparr>"
  let ?its = "(items m)(p + n := x, p := Some ?h)"
  have s: "heap_list (items m) 0 0 xs p" "12 \<le> n" "n mod 4 = 0" "12 \<le> k" "k mod 4 = 0"
    "heap_list (items m) (p + n) (p + n + k) zs (heap_end m)" "heap_end m + 36 < 2 ^ 32"
    using b by (simp_all add: heap_blocks_split p_def)
  obtain v where e: "items m (heap_end m) = Some \<lparr>pool_ptr = Some True, item_next = heap_end m, item_prev = v\<rparr>"
    using b by (auto simp: heap_blocks_split)
  have "p + n + k \<le> heap_end m" using heap_list_end [OF s(6)] by simp
  then have e': "?its (heap_end m) = Some \<lparr>pool_ptr = Some True, item_next = heap_end m, item_prev = v\<rparr>"
    using e s(2,4) by simp
  have "heap_list ?its (p + n) (p + n + k) zs (heap_end m)"
    using s(2,4,6) by (intro heap_list_other) simp_all
  from tail_prev [OF this e'] obtain it v' where it: "?its (p + n + k) = Some it"
    "heap_list (?its(p + n + k := Some (it\<lparr>item_prev := p\<rparr>))) p (p + n + k) zs (heap_end m)"
    "(?its(p + n + k := Some (it\<lparr>item_prev := p\<rparr>))) (heap_end m) =
       Some \<lparr>pool_ptr = Some True, item_next = heap_end m, item_prev = v'\<rparr>"
    by blast
  have "heap_list (?its(p + n + k := Some (it\<lparr>item_prev := p\<rparr>))) 0 0 xs p"
    using s(1) by (intro heap_list_other) simp_all
  moreover have "(n + k) mod 4 = 0" using s(3,5) by auto
  ultimately show ?thesis
    using it s by (intro exI [of _ it]) (auto simp: heap_blocks_split p_def add.assoc)
qed

lemma plug_forward_merge:
  assumes b: "heap_blocks m (xs @ (n, False) # (k, False) # zs)"
  shows "\<exists>m'. plug_forward m (total xs) = Some m' \<and> heap_blocks m' (xs @ (n + k, False) # zs) \<and> same_rest m m' \<and>
    lfree m' = (if lfree m = total xs + n then total xs else lfree m)"
proof -
  let ?p = "total xs"
  have s: "items m ?p = Some \<lparr>pool_ptr = Some False, item_next = ?p + n, item_prev = last_of 0 0 xs\<rparr>"
    "items m (?p + n) = Some \<lparr>pool_ptr = Some False, item_next = ?p + n + k, item_prev = ?p\<rparr>" "12 \<le> n" "12 \<le> k"
    using b by (simp_all add: heap_blocks_split)
  have ne: "?p + n \<noteq> heap_end m" using heap_blocks_bounds(2) [OF b] by simp
  obtain it where it: "items m (?p + n + k) = Some it"
    "heap_blocks (m\<lparr>items := (items m)(?p + n := Some \<lparr>pool_ptr = None, item_next = ?p + n + k, item_prev = ?p\<rparr>,
        ?p := Some \<lparr>pool_ptr = Some False, item_next = ?p + n + k, item_prev = last_of 0 0 xs\<rparr>,
        ?p + n + k := Some (it\<lparr>item_prev := ?p\<rparr>))\<rparr>) (xs @ (n + k, False) # zs)"
    using merge_blocks [OF b] by blast
  let ?m = "m\<lparr>items := (items m)(?p + n := Some \<lparr>pool_ptr = None, item_next = ?p + n + k, item_prev = ?p\<rparr>,
        ?p := Some \<lparr>pool_ptr = Some False, item_next = ?p + n + k, item_prev = last_of 0 0 xs\<rparr>,
        ?p + n + k := Some (it\<lparr>item_prev := ?p\<rparr>)), lfree := (if lfree m = ?p + n then ?p else lfree m)\<rparr>"
  have "plug_forward m ?p = Some ?m"
    using s ne it(1) by (simp add: plug_forward_def MEM_ISUSED_def MEM_USED_def set_pool_def set_next_def set_prev_def put_item_def Let_def)
  moreover have "heap_blocks ?m (xs @ (n + k, False) # zs)" using it(2) by (simp add: heap_blocks_def heap_end_def)
  ultimately show ?thesis by (auto simp: same_rest_def)
qed

lemma plug_forward_used:
  assumes b: "heap_blocks m (xs @ (n, u) # ys)" and "ys \<noteq> [] \<longrightarrow> snd (hd ys)"
  shows "plug_forward m (total xs) = Some m"
proof -
  have "items m (total xs) = Some \<lparr>pool_ptr = Some u, item_next = total xs + n, item_prev = last_of 0 0 xs\<rparr>"
    "heap_list (items m) (total xs) (total xs + n) ys (heap_end m)"
    "\<exists>v. items m (heap_end m) = Some \<lparr>pool_ptr = Some True, item_next = heap_end m, item_prev = v\<rparr>"
    using b by (simp_all add: heap_blocks_split)
  then show ?thesis
    using assms(2) by (cases ys) (auto simp: plug_forward_def MEM_ISUSED_def MEM_USED_def)
qed

lemma plug_backward_merge:
  assumes b: "heap_blocks m (xs @ (k, False) # (n, False) # zs)"
  shows "\<exists>m'. plug_backward m (total xs + k) = Some m' \<and> heap_blocks m' (xs @ (k + n, False) # zs) \<and> same_rest m m' \<and>
    lfree m' = (if lfree m = total xs + k then total xs else lfree m)"
proof -
  let ?p = "total xs"
  have s: "items m ?p = Some \<lparr>pool_ptr = Some False, item_next = ?p + k, item_prev = last_of 0 0 xs\<rparr>"
    "items m (?p + k) = Some \<lparr>pool_ptr = Some False, item_next = ?p + k + n, item_prev = ?p\<rparr>" "12 \<le> n" "12 \<le> k"
    using b by (simp_all add: heap_blocks_split)
  obtain it where it: "items m (?p + k + n) = Some it"
    "heap_blocks (m\<lparr>items := (items m)(?p + k := Some \<lparr>pool_ptr = None, item_next = ?p + k + n, item_prev = ?p\<rparr>,
        ?p := Some \<lparr>pool_ptr = Some False, item_next = ?p + k + n, item_prev = last_of 0 0 xs\<rparr>,
        ?p + k + n := Some (it\<lparr>item_prev := ?p\<rparr>))\<rparr>) (xs @ (k + n, False) # zs)"
    using merge_blocks [OF b] by blast
  let ?m = "m\<lparr>items := (items m)(?p + k := Some \<lparr>pool_ptr = None, item_next = ?p + k + n, item_prev = ?p\<rparr>,
        ?p := Some \<lparr>pool_ptr = Some False, item_next = ?p + k + n, item_prev = last_of 0 0 xs\<rparr>,
        ?p + k + n := Some (it\<lparr>item_prev := ?p\<rparr>)), lfree := (if lfree m = ?p + k then ?p else lfree m)\<rparr>"
  have "plug_backward m (?p + k) = Some ?m"
    using s it(1) by (simp add: plug_backward_def MEM_ISUSED_def MEM_USED_def set_pool_def set_next_def set_prev_def put_item_def Let_def)
  moreover have "heap_blocks ?m (xs @ (k + n, False) # zs)" using it(2) by (simp add: heap_blocks_def heap_end_def)
  ultimately show ?thesis by (auto simp: same_rest_def)
qed

lemma plug_backward_used:
  assumes b: "heap_blocks m (xs @ (n, u) # ys)" and "xs \<noteq> [] \<longrightarrow> snd (last xs)"
  shows "plug_backward m (total xs) = Some m"
proof (cases xs rule: rev_cases)
  case Nil
  then show ?thesis using b by (auto simp: heap_blocks_def plug_backward_def)
next
  case (snoc ws x)
  obtain k w where x: "x = (k, w)" by (cases x)
  then have "items m (total ws) = Some \<lparr>pool_ptr = Some True, item_next = total ws + k, item_prev = last_of 0 0 ws\<rparr>"
    "items m (total xs) = Some \<lparr>pool_ptr = Some u, item_next = total xs + n, item_prev = total ws\<rparr>"
    using b assms(2) snoc by (auto simp: heap_blocks_split)
  then show ?thesis by (simp add: plug_backward_def MEM_ISUSED_def MEM_USED_def)
qed

subsection \<open>Merging a freed block\<close>

text \<open>The list after a free block \<open>n\<close> between \<open>xs\<close> and \<open>ys\<close> has been merged with its free neighbours.\<close>

definition join_right :: "nat \<Rightarrow> (nat \<times> bool) list \<Rightarrow> nat \<times> (nat \<times> bool) list" where
  "join_right n ys = (case ys of (k, False) # zs \<Rightarrow> (n + k, zs) | _ \<Rightarrow> (n, ys))"

definition join :: "(nat \<times> bool) list \<Rightarrow> nat \<Rightarrow> (nat \<times> bool) list \<Rightarrow> (nat \<times> bool) list" where
  "join xs n ys =
     (case join_right n ys of (n', ys') \<Rightarrow>
        if xs \<noteq> [] \<and> \<not> snd (last xs) then butlast xs @ (fst (last xs) + n', False) # ys' else xs @ (n', False) # ys')"

lemma takeWhile_free [simp]: "takeWhile snd (xs @ (n, False) # ys) = takeWhile snd xs"
  by (induction xs) auto

lemma total_takeWhile: "total (takeWhile snd xs) \<le> total xs"
  by (induction xs) (auto simp: total_def)

lemma plug_forward_ok:
  assumes b: "heap_blocks m (xs @ (n, False) # ys)" and ok: "no_free_pair ys" and lf: "lfree m \<le> total xs"
  shows "\<exists>m'. plug_forward m (total xs) = Some m' \<and> same_rest m m' \<and> lfree m' = lfree m \<and>
    (case join_right n ys of (n', ys') \<Rightarrow> heap_blocks m' (xs @ (n', False) # ys') \<and> no_free_pair ys' \<and>
       (ys' = [] \<or> snd (hd ys')) \<and> used_total ys' = used_total ys \<and>
       used_ok ys' = used_ok ys)"
proof (cases "ys \<noteq> [] \<and> \<not> snd (hd ys)")
  case True
  then obtain k zs where ys: "ys = (k, False) # zs" by (cases ys) auto
  have "12 \<le> n" using b by (simp add: heap_blocks_split)
  then show ?thesis
    using plug_forward_merge [of m xs n k zs] b lf ok by (auto simp: ys join_right_def no_free_pair_Cons)
next
  case False
  then have "join_right n ys = (n, ys)" by (auto simp: join_right_def split: list.splits bool.splits)
  then show ?thesis
    using plug_forward_used [OF b] False b ok by (auto simp: same_rest_def)
qed

lemma plug_holes_ok:
  assumes b: "heap_blocks m (xs @ (n, False) # ys)" and ok: "no_free_pair xs" "no_free_pair ys"
    and lf: "lfree m = total (takeWhile snd xs)" and u: "mem_used m = used_total xs + used_total ys"
    and uo: "used_ok xs" "used_ok ys"
  shows "\<exists>m'. plug_holes m (total xs) = Some m' \<and> heap_abs m' (join xs n ys) \<and> same_rest m m'"
proof -
  have lt: "total xs < heap_end m" using heap_blocks_bounds(1) [OF b] b by (simp add: heap_blocks_split)
  obtain n' ys' where j: "join_right n ys = (n', ys')" by (cases "join_right n ys")
  obtain m1 where m1: "plug_forward m (total xs) = Some m1" "same_rest m m1" "lfree m1 = lfree m"
    "heap_blocks m1 (xs @ (n', False) # ys')" "no_free_pair ys'" "ys' = [] \<or> snd (hd ys')" "used_total ys' = used_total ys" "used_ok ys'"
    using uo plug_forward_ok [OF b ok(2)] lf total_takeWhile [of xs] j by auto
  show ?thesis
  proof (cases "xs \<noteq> [] \<and> \<not> snd (last xs)")
    case True
    then obtain ws k where xs: "xs = ws @ [(k, False)]" by (cases xs rule: rev_cases) auto
    have b1: "heap_blocks m1 (ws @ (k, False) # (n', False) # ys')" using m1(4) by (simp add: xs)
    then have "12 \<le> k" by (simp add: heap_blocks_split)
    then have "lfree m1 \<noteq> total ws + k" using m1(3) lf total_takeWhile [of ws] by (simp add: xs)
    then obtain m2 where m2: "plug_backward m1 (total ws + k) = Some m2" "same_rest m1 m2" "lfree m2 = lfree m1"
      "heap_blocks m2 (ws @ (k + n', False) # ys')"
      using plug_backward_merge [OF b1] by auto
    have "no_free_pair (ws @ (k + n', False) # ys')"
      using ok(1) m1(5,6) by (auto simp: xs no_free_pair_append no_free_pair_Cons)
    then have "heap_abs m2 (join xs n ys)"
      using m2 m1 lf u uo by (simp add: heap_abs_def join_def j xs same_rest_def)
    moreover have "same_rest m m2" using m1(2) m2(2) by (simp add: same_rest_def)
    ultimately show ?thesis using m1(1) m2(1) lt by (auto simp: plug_holes_def xs)
  next
    case False
    then have pb: "plug_backward m1 (total xs) = Some m1" by (intro plug_backward_used [OF m1(4)]) auto
    have "no_free_pair (xs @ (n', False) # ys')"
      using ok(1) m1(5,6) False by (auto simp: no_free_pair_append no_free_pair_Cons)
    moreover have "join xs n ys = xs @ (n', False) # ys'" using False by (auto simp: join_def j)
    ultimately have "heap_abs m1 (join xs n ys)"
      using m1 lf u uo by (simp add: heap_abs_def same_rest_def)
    then show ?thesis using pb m1(1,2) lt by (auto simp: plug_holes_def)
  qed
qed

text \<open>Freeing a used block.\<close>

lemma rt_smem_free_ok:
  assumes a: "heap_abs m (xs @ (n, True) # ys)"
  shows "\<exists>m'. rt_smem_free m (Some (total xs + 12)) = Some m' \<and> heap_abs m' (join xs n ys) \<and> bytes m' = bytes m \<and>
    mem_max m' = mem_max m \<and> mem_size_aligned m' = mem_size_aligned m"
proof -
  let ?p = "total xs"
  have b: "heap_blocks m (xs @ (n, True) # ys)" using a by (simp add: heap_abs_def)
  have s: "items m ?p = Some \<lparr>pool_ptr = Some True, item_next = ?p + n, item_prev = last_of 0 0 xs\<rparr>"
    "12 \<le> n" "n mod 4 = 0" "heap_list (items m) 0 0 xs ?p" "heap_list (items m) ?p (?p + n) ys (heap_end m)"
    "heap_end m + 36 < 2 ^ 32"
    using b by (simp_all add: heap_blocks_split)
  obtain v where e: "items m (heap_end m) = Some \<lparr>pool_ptr = Some True, item_next = heap_end m, item_prev = v\<rparr>"
    using b by (auto simp: heap_blocks_split)
  obtain nit w where nit: "items m (?p + n) = Some nit" "pool_ptr nit = Some w" using s(5) e by (cases ys) auto
  note bd = heap_blocks_bounds [OF b]
  define m1 where "m1 = m\<lparr>items := (items m)(?p := Some \<lparr>pool_ptr = Some False, item_next = ?p + n, item_prev = last_of 0 0 xs\<rparr>),
      lfree := min ?p (lfree m), mem_used := mem_used m - n\<rparr>"
  have b1: "heap_blocks m1 (xs @ (n, False) # ys)"
    using s e bd(1) by (auto simp: heap_blocks_split m1_def intro!: heap_list_other)
  have ok: "no_free_pair xs" "no_free_pair ys" using a by (auto simp: heap_abs_def no_free_pair_append no_free_pair_Cons)
  have "lfree m = total (takeWhile snd (xs @ (n, True) # ys))" using a by (simp add: heap_abs_def)
  moreover have "takeWhile snd (xs @ (n, True) # ys) = (if list_all snd xs then xs @ (n, True) # takeWhile snd ys else takeWhile snd xs)"
    by (induction xs) auto
  ultimately have lf: "lfree m = total (if list_all snd xs then xs @ (n, True) # takeWhile snd ys else takeWhile snd xs)"
    by (simp only:)
  have "lfree m1 = total (takeWhile snd xs)"
  proof (cases "list_all snd xs")
    case True
    then have t: "takeWhile snd xs = xs" by (simp add: takeWhile_eq_all_conv list_all_iff)
    then show ?thesis using True lf by (simp add: m1_def t del: takeWhile_eq_all_conv)
  next
    case False
    then show ?thesis using lf total_takeWhile [of xs] by (simp add: m1_def)
  qed
  moreover have "mem_used m1 = used_total xs + used_total ys" "n \<le> mem_used m" using a by (simp_all add: heap_abs_def m1_def)
  moreover have "used_ok xs" "used_ok ys" "16 \<le> n" using a by (simp_all add: heap_abs_def)
  ultimately obtain m2 where m2: "plug_holes m1 ?p = Some m2" "heap_abs m2 (join xs n ys)" "same_rest m1 m2"
    using plug_holes_ok [OF b1 ok] by blast
  have "?p + 12 < heap_end m" using bd(1) \<open>16 \<le> n\<close> by simp
  then have "rt_smem_free m (Some (?p + 12)) = plug_holes m1 ?p"
    using s(1) nit bd(3) \<open>n \<le> mem_used m\<close>
    by (simp add: rt_smem_free_def MEM_ISUSED_def MEM_USED_def MEM_FREED_def set_pool_def put_item_def m1_def Let_def
        mod_add_eq [symmetric] min_def del: not_None_eq)
  then show ?thesis using m2 by (auto simp: same_rest_def m1_def)
qed

subsection \<open>Searching and taking a block\<close>

text \<open>First fit.\<close>

fun first_fit :: "nat \<Rightarrow> nat \<Rightarrow> (nat \<times> bool) list \<Rightarrow> nat option" where
  "first_fit sz p [] = None"
| "first_fit sz p ((n, u) # bs) = (if \<not> u \<and> sz + 12 \<le> n then Some p else first_fit sz (p + n) bs)"

lemma first_fit_None: "first_fit sz p bs = None \<longleftrightarrow> (\<forall>(n, u) \<in> set bs. u \<or> n < sz + 12)"
  by (induction sz p bs rule: first_fit.induct) auto

lemma first_fit_Some:
  "first_fit sz p bs = Some r \<Longrightarrow> \<exists>xs n ys. bs = xs @ (n, False) # ys \<and> r = p + total xs \<and> sz + 12 \<le> n \<and>
    (\<forall>(k, u) \<in> set xs. u \<or> k < sz + 12)"
proof (induction sz p bs rule: first_fit.induct)
  case (2 sz p n u bs)
  show ?case
  proof (cases "\<not> u \<and> sz + 12 \<le> n")
    case True
    then show ?thesis using 2 by (intro exI [of _ "[]"]) auto
  next
    case False
    with 2 obtain xs k ys where "bs = xs @ (k, False) # ys" "r = p + n + total xs" "sz + 12 \<le> k"
      "\<forall>(k, u) \<in> set xs. u \<or> k < sz + 12"
      by auto
    then show ?thesis using False by (intro exI [of _ "(n, u) # xs"]) auto
  qed
qed simp

lemma first_fit_skip:
  "first_fit sz p bs = first_fit sz (p + total (takeWhile snd bs)) (dropWhile snd bs)"
  by (induction sz p bs rule: first_fit.induct) (auto simp: add.assoc)

lemma smem_find_ok:
  assumes "heap_list (items m) q p bs (heap_end m)" "length bs < fuel" "sz \<le> mem_size_aligned m"
    "heap_end m + 36 < 2 ^ 32" "0 < sz"
  shows "smem_find fuel m p sz = Some (first_fit sz p bs)"
  using assms
proof (induction fuel arbitrary: q p bs)
  case (Suc fuel)
  have e: "heap_end m = mem_size_aligned m + 12" by (simp add: heap_end_def)
  show ?case
  proof (cases bs)
    case Nil
    then have "\<not> p \<le> mem_size_aligned m - sz" using Suc.prems e by simp
    then show ?thesis using Nil by simp
  next
    case (Cons b rest)
    obtain n u where b: "b = (n, u)" by (cases b)
    have it: "items m p = Some \<lparr>pool_ptr = Some u, item_next = p + n, item_prev = q\<rparr>" "12 \<le> n"
      "heap_list (items m) p (p + n) rest (heap_end m)"
      using Suc.prems(1) Cons b by simp_all
    have ih: "smem_find fuel m (p + n) sz = Some (first_fit sz (p + n) rest)"
      using Suc.IH [OF it(3)] Suc.prems Cons by simp
    show ?thesis
    proof (cases "p \<le> mem_size_aligned m - sz")
      case True
      then show ?thesis using it ih by (auto simp: Cons b MEM_ISUSED_def MEM_USED_def)
    next
      case False
      have "fst x \<le> heap_end m - p" if "x \<in> set bs" for x
        using heap_list_end [OF Suc.prems(1)] that by (simp add: total_def member_le_sum_list)
      then have "\<forall>(k, u) \<in> set bs. u \<or> k < sz + 12" using False e Suc.prems(3) by fastforce
      then have "first_fit sz p bs = None" by (simp only: first_fit_None)
      then show ?thesis using False by simp
    qed
  qed
qed simp

lemma smem_next_free_ok:
  assumes "heap_list (items m) q p bs (heap_end m)" "length bs < fuel"
    "items m (heap_end m) = Some \<lparr>pool_ptr = Some True, item_next = heap_end m, item_prev = v\<rparr>"
  shows "smem_next_free fuel m p = Some (p + total (takeWhile snd bs))"
  using assms(1,2)
proof (induction fuel arbitrary: q p bs)
  case (Suc fuel)
  show ?case
  proof (cases bs)
    case Nil
    then show ?thesis using Suc.prems assms(3) by simp
  next
    case (Cons b rest)
    obtain n u where b: "b = (n, u)" by (cases b)
    have it: "items m p = Some \<lparr>pool_ptr = Some u, item_next = p + n, item_prev = q\<rparr>"
      "heap_list (items m) p (p + n) rest (heap_end m)" "p < heap_end m"
      using Suc.prems(1) Cons b heap_list_head [OF Suc.prems(1)] by simp_all
    then show ?thesis
      using Suc.IH [OF it(2)] Suc.prems(2) by (auto simp: Cons b MEM_ISUSED_def MEM_USED_def)
  qed
qed simp

lemma takeWhile_app: "takeWhile snd (xs @ zs) = (if list_all snd xs then xs @ takeWhile snd zs else takeWhile snd xs)"
  by (induction xs) auto

lemma total_takeWhile_eq: "heap_list its q p xs e \<Longrightarrow> total (takeWhile snd xs) = total xs \<longleftrightarrow> list_all snd xs"
  by (induction its q p xs e rule: heap_list.induct) auto

lemma takeWhile_item:
  "heap_list its q p bs e \<Longrightarrow> its e = Some it \<Longrightarrow>
    \<exists>it. its (p + total (takeWhile snd bs)) = Some it \<and> (p + total (takeWhile snd bs) = e \<or> \<not> MEM_ISUSED it)"
  by (induction its q p bs e rule: heap_list.induct) (auto simp: add.assoc MEM_ISUSED_def MEM_USED_def)

text \<open>The list after \<open>sz\<close> bytes have been taken from the free block \<open>n\<close>.\<close>

definition take_list :: "nat \<Rightarrow> nat \<Rightarrow> (nat \<times> bool) list" where
  "take_list sz n = (if sz + 36 \<le> n then [(sz + 12, True), (n - sz - 12, False)] else [(n, True)])"

lemma total_take_list [simp]: "total (take_list sz n) = n"
  by (simp add: take_list_def)

text \<open>A block is split: a used one of \<open>k\<close> bytes, and a free one of the rest.\<close>

lemma split_block:
  assumes b: "heap_blocks m (xs @ (n, u) # ys)" and k: "12 \<le> k" "k + 12 \<le> n" "k mod 4 = 0"
  shows "\<exists>m'. smem_split m (total xs) (total xs + k) = Some m' \<and>
    heap_blocks m' (xs @ (k, u) # (n - k, False) # ys) \<and> same_rest m m' \<and> lfree m' = lfree m"
proof -
  let ?p = "total xs"
  define m1 where "m1 = put_item (put_item m (?p + k) \<lparr>pool_ptr = MEM_FREED, item_next = ?p + n, item_prev = ?p\<rparr>) ?p
    \<lparr>pool_ptr = Some u, item_next = ?p + k, item_prev = last_of 0 0 xs\<rparr>"
  have s: "heap_list (items m) 0 0 xs ?p" "12 \<le> n" "n mod 4 = 0"
    "items m ?p = Some \<lparr>pool_ptr = Some u, item_next = ?p + n, item_prev = last_of 0 0 xs\<rparr>"
    "heap_list (items m) ?p (?p + n) ys (heap_end m)" "heap_end m + 36 < 2 ^ 32"
    using b by (simp_all add: heap_blocks_split)
  obtain v where e: "items m (heap_end m) = Some \<lparr>pool_ptr = Some True, item_next = heap_end m, item_prev = v\<rparr>"
    using b by (auto simp: heap_blocks_split)
  have le: "?p + n \<le> heap_end m" using heap_blocks_bounds(1) [OF b] by simp
  have l1: "heap_list (items m1) 0 0 xs ?p" unfolding m1_def put_item_sel
    using s(1) k by (intro heap_list_other) simp_all
  have l2: "heap_list (items m1) ?p (?p + n) ys (heap_end m)" unfolding m1_def put_item_sel
    using s(5) k by (intro heap_list_other) simp_all
  have e1: "items m1 (heap_end m) = Some \<lparr>pool_ptr = Some True, item_next = heap_end m, item_prev = v\<rparr>"
    using e le k by (simp add: m1_def)
  have i1: "items m1 ?p = Some \<lparr>pool_ptr = Some u, item_next = ?p + k, item_prev = last_of 0 0 xs\<rparr>"
    "items m1 (?p + k) = Some \<lparr>pool_ptr = Some False, item_next = ?p + n, item_prev = ?p\<rparr>"
    using k by (simp_all add: m1_def MEM_FREED_def)
  have md: "(n - k) mod 4 = 0" using s(3) k by (metis le_add1 le_trans mod_eq_0_iff_dvd dvd_diff_nat)
  have rest: "same_rest m m1" "lfree m1 = lfree m" "heap_end m1 = heap_end m"
    by (simp_all add: same_rest_def m1_def)
  have split: "smem_split m ?p (?p + k) =
      (if ?p + n \<noteq> heap_end m then set_prev m1 (?p + n) (?p + k) else Some m1)"
    using s(4) k by (simp add: smem_split_def set_next_def Let_def m1_def heap_end_def)
  show ?thesis
  proof (cases "?p + n = heap_end m")
    case True
    then have "ys = []" using heap_blocks_bounds(2) [OF b] by simp
    then have "heap_blocks m1 (xs @ (k, u) # (n - k, False) # ys)"
      using True l1 i1 e1 s k md rest by (simp add: heap_blocks_split)
    then show ?thesis using True rest split by simp
  next
    case False
    obtain it v' where it: "items m1 (?p + n) = Some it"
      "heap_list ((items m1)(?p + n := Some (it\<lparr>item_prev := ?p + k\<rparr>))) (?p + k) (?p + n) ys (heap_end m)"
      "((items m1)(?p + n := Some (it\<lparr>item_prev := ?p + k\<rparr>))) (heap_end m) =
         Some \<lparr>pool_ptr = Some True, item_next = heap_end m, item_prev = v'\<rparr>"
      using tail_prev [OF l2 e1] by blast
    define m' where "m' = put_item m1 (?p + n) (it\<lparr>item_prev := ?p + k\<rparr>)"
    have i: "items m' = (items m1)(?p + n := Some (it\<lparr>item_prev := ?p + k\<rparr>))" "heap_end m' = heap_end m"
      "same_rest m m'" "lfree m' = lfree m"
      using rest by (simp_all add: m'_def same_rest_def)
    have "heap_list (items m') 0 0 xs ?p" unfolding i(1) using l1 s(2) by (intro heap_list_other) simp_all
    moreover have "items m' ?p = items m1 ?p" "items m' (?p + k) = items m1 (?p + k)" using k by (simp_all add: i(1))
    ultimately have "heap_blocks m' (xs @ (k, u) # (n - k, False) # ys)"
      using it(2,3) i(2) i1 s k md unfolding i(1) [symmetric] by (simp add: heap_blocks_split) 
    moreover have "smem_split m ?p (?p + k) = Some m'" using split False it(1) by (simp add: set_prev_def m'_def)
    ultimately show ?thesis using i by blast
  qed
qed

lemma set_pool_ok:
  assumes b: "heap_blocks m (xs @ (n, u) # ys)"
  shows "\<exists>m'. set_pool m (total xs) (Some w) = Some m' \<and> heap_blocks m' (xs @ (n, w) # ys) \<and> same_rest m m' \<and>
    lfree m' = lfree m"
proof -
  have s: "items m (total xs) = Some \<lparr>pool_ptr = Some u, item_next = total xs + n, item_prev = last_of 0 0 xs\<rparr>" "12 \<le> n"
    using b by (simp_all add: heap_blocks_split)
  have le: "total xs + n \<le> heap_end m" using heap_blocks_bounds(1) [OF b] .
  let ?m = "put_item m (total xs) \<lparr>pool_ptr = Some w, item_next = total xs + n, item_prev = last_of 0 0 xs\<rparr>"
  have "heap_blocks ?m (xs @ (n, w) # ys)"
    using b s le by (auto simp: heap_blocks_split intro!: heap_list_other)
  then show ?thesis using s by (simp add: set_pool_def same_rest_def put_item_def)
qed

lemma heap_blocks_cong:
  "items m' = items m \<Longrightarrow> mem_size_aligned m' = mem_size_aligned m \<Longrightarrow> heap_blocks m' bs = heap_blocks m bs"
  by (simp add: heap_blocks_def heap_end_def)

lemma smem_account_blocks [simp]: "heap_blocks (smem_account m n) bs = heap_blocks m bs"
  by (rule heap_blocks_cong) (simp_all add: smem_account_def Let_def)

lemma blocks_fuel: "heap_blocks m bs \<Longrightarrow> length bs < smem_fuel m"
  using heap_list_length [of "items m" 0 0 bs "heap_end m"] by (simp add: heap_blocks_def smem_fuel_def heap_end_def)

lemma smem_take_ok:
  assumes a: "heap_abs m (xs @ (n, False) # ys)" and sz: "12 \<le> sz" "sz mod 4 = 0" "sz + 12 \<le> n"
  shows "\<exists>m'. smem_take m (total xs) sz = Some (Some (total xs + 12), m') \<and> heap_abs m' (xs @ take_list sz n @ ys) \<and>
    bytes m' = bytes m \<and> mem_size_aligned m' = mem_size_aligned m \<and> mem_max m' = max (mem_max m) (mem_used m')"
proof -
  let ?p = "total xs" and ?bs = "xs @ take_list sz n @ ys"
  have b: "heap_blocks m (xs @ (n, False) # ys)" using a by (simp add: heap_abs_def)
  have s: "items m ?p = Some \<lparr>pool_ptr = Some False, item_next = ?p + n, item_prev = last_of 0 0 xs\<rparr>"
    "12 \<le> n" "n mod 4 = 0"
    using b by (simp_all add: heap_blocks_split)
  note bd = heap_blocks_bounds [OF b]
  define got where "got = fst (hd (take_list sz n))"
  define rest where "rest = tl (take_list sz n) @ ys"
  have bs: "?bs = xs @ (got, True) # rest" by (simp add: got_def rest_def take_list_def)
  have "\<exists>m1. (if sub32 (?p + n) (?p + 12) \<ge> sz + 12 + 12
        then do { m \<leftarrow> smem_split m ?p (?p + 12 + sz); Some (smem_account m (sz + 12)) }
        else Some (smem_account m (sub32 (?p + n) ?p))) = Some m1 \<and>
      heap_blocks m1 (xs @ (got, False) # rest) \<and> lfree m1 = lfree m \<and> bytes m1 = bytes m \<and>
      mem_size_aligned m1 = mem_size_aligned m \<and> mem_used m1 = mem_used m + got \<and>
      mem_max m1 = max (mem_max m) (mem_used m1)"
  proof (cases "sz + 36 \<le> n")
    case True
    have k: "12 \<le> 12 + sz" "12 + sz + 12 \<le> n" "(12 + sz) mod 4 = 0" using True sz(2) by (simp_all add: mod_add_eq [symmetric])
    obtain m1 where m1: "smem_split m ?p (?p + (12 + sz)) = Some m1"
      "heap_blocks m1 (xs @ (12 + sz, False) # (n - (12 + sz), False) # ys)" "same_rest m m1" "lfree m1 = lfree m"
      using split_block [OF b k] by blast
    have got: "got = 12 + sz" "rest = (n - (12 + sz), False) # ys" using True by (simp_all add: got_def rest_def take_list_def)
    have "heap_blocks (smem_account m1 (sz + 12)) (xs @ (got, False) # rest)"
      using m1(2) by (simp add: got)
    moreover have "smem_split m ?p (?p + 12 + sz) = Some m1" using m1(1) by (simp only: add.assoc)
    moreover have "sz + 12 + 12 \<le> sub32 (?p + n) (?p + 12)" using True by simp
    ultimately show ?thesis
      using m1(3,4) got(1) by (intro exI [of _ "smem_account m1 (sz + 12)"]) (simp add: smem_account_def Let_def same_rest_def)
  next
    case False
    have su: "sub32 (?p + n) (?p + 12) = n - 12" "sub32 (?p + n) ?p = n" using s(2) by simp_all
    moreover have "got = n" "rest = ys" using False by (simp_all add: got_def rest_def take_list_def)
    moreover have "heap_blocks (smem_account m n) (xs @ (n, False) # ys)"
      using b by simp
    moreover have "\<not> sz + 12 + 12 \<le> sub32 (?p + n) (?p + 12)" unfolding su using False by linarith
    ultimately show ?thesis by (intro exI [of _ "smem_account m n"]) (simp add: smem_account_def Let_def)
  qed
  then obtain m1 where m1: "(if sub32 (?p + n) (?p + 12) \<ge> sz + 12 + 12
        then do { m \<leftarrow> smem_split m ?p (?p + 12 + sz); Some (smem_account m (sz + 12)) }
        else Some (smem_account m (sub32 (?p + n) ?p))) = Some m1"
    "heap_blocks m1 (xs @ (got, False) # rest)" "lfree m1 = lfree m" "bytes m1 = bytes m"
    "mem_size_aligned m1 = mem_size_aligned m" "mem_used m1 = mem_used m + got" "mem_max m1 = max (mem_max m) (mem_used m1)"
    by blast
  obtain m2 where m2: "set_pool m1 ?p MEM_USED = Some m2" "heap_blocks m2 (xs @ (got, True) # rest)" "same_rest m1 m2"
    "lfree m2 = lfree m1"
    using set_pool_ok [OF m1(2), of True] by (auto simp: MEM_USED_def)
  define q where "q = (if ?p = lfree m then ?p + total (takeWhile snd ((got, True) # rest)) else lfree m)"
  obtain v where e2: "items m2 (heap_end m2) = Some \<lparr>pool_ptr = Some True, item_next = heap_end m2, item_prev = v\<rparr>"
    using m2(2) by (auto simp: heap_blocks_split)
  have ends: "heap_end m2 = heap_end m" using same_rest_end [OF m2(3)] m1(5) by (simp add: heap_end_def)
  have next_free: "smem_next_free (smem_fuel m2) m2 ?p = Some (?p + total (takeWhile snd ((got, True) # rest)))"
  proof (rule smem_next_free_ok [OF _ _ e2])
    show "heap_list (items m2) (last_of 0 0 xs) ?p ((got, True) # rest) (heap_end m2)"
      using m2(2) by (simp add: heap_blocks_def)
    show "length ((got, True) # rest) < smem_fuel m2" using blocks_fuel [OF m2(2)] by simp
  qed
  define m3 where "m3 = m2\<lparr>lfree := q\<rparr>"
  have blocks3: "heap_blocks m3 (xs @ (got, True) # rest)"
    using m2(2) by (rule heap_blocks_cong [THEN iffD2, rotated 2]) (simp_all add: m3_def)
  have lf: "lfree m = total (takeWhile snd xs)" using a by (simp add: heap_abs_def)
  have lfree3: "(if ?p = lfree m2 then do {
                  p \<leftarrow> smem_next_free (smem_fuel m2) m2 (lfree m2);
                  it \<leftarrow> items m2 p;
                  rt_assert (p = heap_end m2 \<or> \<not> MEM_ISUSED it);
                  Some (m2\<lparr>lfree := p\<rparr>) }
                else Some m2) = Some m3"
  proof (cases "?p = lfree m")
    case True
    let ?q = "?p + total (takeWhile snd ((got, True) # rest))"
    have "\<exists>it. items m2 ?q = Some it \<and> (?q = heap_end m2 \<or> \<not> MEM_ISUSED it)"
    proof -
      have "heap_list (items m2) (last_of 0 0 xs) ?p ((got, True) # rest) (heap_end m2)"
        using m2(2) by (simp add: heap_blocks_def)
      from takeWhile_item [where e = "heap_end m2" and p = ?p and bs = "(got, True) # rest", OF this e2]
      show ?thesis .
    qed
    then show ?thesis using True next_free m2(4) m1(3) by (auto simp: m3_def q_def)
  next
    case False
    then show ?thesis using m2(4) m1(3) by (simp add: m3_def q_def)
  qed
  have ends3: "heap_end m3 = heap_end m" using ends by (simp add: m3_def)
  have asserts: "?p + 12 + sz \<le> heap_end m3" "(?p + 12) mod 4 = 0" "?p mod 4 = 0"
    using bd(1,3) sz(3) ends3 by (simp_all add: mod_add_eq [symmetric])
  have "smem_take m ?p sz = Some (Some (?p + 12), m3)"
    by (simp only: smem_take_def s(1) Option.bind_lunit mem_item.select_convs SIZEOF_STRUCT_MEM MIN_SIZE_ALIGNED
        m1(1) m2(1) lfree3 asserts rt_assert_True simp_thms)
  moreover have "heap_abs m3 ?bs"
  proof -
    have "heap_list (items m) 0 0 xs ?p" using b by (simp add: heap_blocks_split)
    from total_takeWhile_eq [OF this] have "?p = lfree m \<longleftrightarrow> list_all snd xs" unfolding lf by (rule subst [OF eq_commute])
    then have "q = total (takeWhile snd ?bs)"
      unfolding bs takeWhile_app using lf by (cases "list_all snd xs") (simp_all add: q_def)
    moreover have "no_free_pair ?bs" "used_ok ?bs"
      using a sz s(2) by (auto simp: heap_abs_def no_free_pair_append no_free_pair_Cons take_list_def)
    moreover have "mem_used m3 = used_total ?bs"
      using a m1(6) m2(3) unfolding bs by (simp add: heap_abs_def m3_def same_rest_def rest_def got_def take_list_def)
    ultimately show ?thesis using blocks3 unfolding heap_abs_def bs by (simp add: m3_def)
  qed
  moreover have "bytes m3 = bytes m" "mem_size_aligned m3 = mem_size_aligned m" "mem_max m3 = max (mem_max m) (mem_used m3)"
    using m2(3) m1 by (simp_all add: m3_def same_rest_def)
  ultimately show ?thesis by blast
qed

subsection \<open>Allocation\<close>

text \<open>The size a request is rounded to.\<close>

definition request :: "u32 \<Rightarrow> nat" where "request sz = max 12 (unat (RT_ALIGN sz))"

lemma unat_RT_ALIGN: "unat sz + 3 < 2 ^ 32 \<Longrightarrow> unat (RT_ALIGN sz) = (unat sz + 3) div 4 * 4"
proof -
  assume "unat sz + 3 < 2 ^ 32"
  then have "unat (sz + 3) = unat sz + 3" by (subst unat_add_lt) simp_all
  then show ?thesis by (simp only: RT_ALIGN_def unat_and_not_3)
qed

lemma RT_ALIGN_mod: "unat (RT_ALIGN sz) mod 4 = 0"
  unfolding RT_ALIGN_def unat_and_not_3 by simp

lemma request_mod: "request sz mod 4 = 0"
  using RT_ALIGN_mod [of sz] by (simp add: request_def max_def)

lemma request_12: "12 \<le> request sz" by (simp add: request_def)

lemma request_ge: "unat sz + 3 < 2 ^ 32 \<Longrightarrow> unat sz \<le> request sz"
proof -
  assume "unat sz + 3 < 2 ^ 32"
  then have "unat (RT_ALIGN sz) = (unat sz + 3) div 4 * 4" by (rule unat_RT_ALIGN)
  then show ?thesis by (simp add: request_def)
qed

lemma request_huge: "0xFFFFFFFD \<le> sz \<Longrightarrow> request sz = 12"
proof -
  assume "0xFFFFFFFD \<le> sz"
  then have "4294967293 \<le> unat sz" by (simp add: word_le_nat_alt)
  moreover have "unat sz < 4294967296" by (rule u32_bound)
  ultimately have "unat sz = 4294967293 \<or> unat sz = 4294967294 \<or> unat sz = 4294967295" by linarith
  then have "sz = 0xFFFFFFFD \<or> sz = 0xFFFFFFFE \<or> sz = 0xFFFFFFFF" by (simp add: word_unat_eq_iff)
  then show ?thesis by (elim disjE) (simp_all add: request_def RT_ALIGN_def)
qed

lemma rt_smem_alloc_ok:
  assumes a: "heap_abs m bs" and sz: "sz \<noteq> 0"
  shows "case first_fit (request sz) 0 bs of
      None \<Rightarrow> rt_smem_alloc m sz = Some (None, m)
    | Some p \<Rightarrow> \<exists>xs n ys m'. bs = xs @ (n, False) # ys \<and> p = total xs \<and> request sz + 12 \<le> n \<and>
        rt_smem_alloc m sz = Some (Some (p + 12), m') \<and> heap_abs m' (xs @ take_list (request sz) n @ ys) \<and>
        bytes m' = bytes m \<and> mem_size_aligned m' = mem_size_aligned m"
proof (cases "mem_size_aligned m < request sz")
  case True
  have l: "heap_list (items m) 0 0 bs (heap_end m)" using a by (simp add: heap_abs_def heap_blocks_def)
  have "fst x \<le> heap_end m" if "x \<in> set bs" for x
    using heap_list_end [OF l] that by (simp add: total_def member_le_sum_list)
  then have "\<forall>(k, u) \<in> set bs. u \<or> k < request sz + 12" using True by (fastforce simp: heap_end_def)
  then have "first_fit (request sz) 0 bs = None" by (simp only: first_fit_None)
  moreover have "rt_smem_alloc m sz = Some (None, m)"
    using True sz by (simp add: rt_smem_alloc_def Let_def request_def max_def split: if_splits)
  ultimately show ?thesis by simp
next
  case False
  have b: "heap_blocks m bs" and lf: "lfree m = total (takeWhile snd bs)" using a by (simp_all add: heap_abs_def)
  have l: "heap_list (items m) 0 0 bs (heap_end m)" "heap_end m + 36 < 2 ^ 32" using b by (simp_all add: heap_blocks_def)
  have "heap_list (items m) 0 0 (takeWhile snd bs @ dropWhile snd bs) (heap_end m)" using l(1) by simp
  then have d: "heap_list (items m) (last_of 0 0 (takeWhile snd bs)) (lfree m) (dropWhile snd bs) (heap_end m)"
    unfolding heap_list_append lf by simp
  have "length (dropWhile snd bs) < smem_fuel m"
    using blocks_fuel [OF b] length_dropWhile_le [of snd bs] by linarith
  then have f: "smem_find (smem_fuel m) m (lfree m) (request sz) = Some (first_fit (request sz) 0 bs)"
    unfolding first_fit_skip [of "request sz" 0 bs] add_0 lf [symmetric]
    by (rule smem_find_ok [OF d _ _ l(2)]) (use False in \<open>simp_all add: request_def max_def split: if_splits\<close>)
  have alloc: "rt_smem_alloc m sz =
      (case first_fit (request sz) 0 bs of None \<Rightarrow> Some (None, m) | Some ptr \<Rightarrow> smem_take m ptr (request sz))"
  proof -
    have r: "(if unat (RT_ALIGN sz) < 12 then 12 else unat (RT_ALIGN sz)) = request sz"
      by (simp add: request_def max_def)
    show ?thesis
      unfolding rt_smem_alloc_def Let_def MIN_SIZE_ALIGNED r using f False sz by simp
  qed
  show ?thesis
  proof (cases "first_fit (request sz) 0 bs")
    case None
    then show ?thesis using alloc by simp
  next
    case (Some p)
    then obtain xs n ys where bs: "bs = xs @ (n, False) # ys" "p = total xs" "request sz + 12 \<le> n"
      using first_fit_Some [OF Some] by (elim exE conjE) (rule that, simp_all)
    obtain m' where "smem_take m (total xs) (request sz) = Some (Some (total xs + 12), m')"
      "heap_abs m' (xs @ take_list (request sz) n @ ys)" "bytes m' = bytes m" "mem_size_aligned m' = mem_size_aligned m"
      using smem_take_ok [OF a [unfolded bs(1)] request_12 request_mod bs(3)] by blast
    moreover have "rt_smem_alloc m sz = smem_take m (total xs) (request sz)" using alloc Some bs(2) by simp
    ultimately show ?thesis
      unfolding Some option.case
      by (intro exI [of _ xs] exI [of _ n] exI [of _ ys] exI [of _ m']) (simp add: bs)
  qed
qed

subsection \<open>The live regions\<close>

text \<open>The data regions in use, by offset and length, found by following the headers as \<open>memcheck\<close> does.\<close>

fun smem_walk :: "nat \<Rightarrow> small_mem \<Rightarrow> nat \<Rightarrow> (nat \<times> nat) list" where
  "smem_walk 0 m p = []"
| "smem_walk (Suc fuel) m p =
     (if p = heap_end m then []
      else case items m p of
        None \<Rightarrow> []
      | Some it \<Rightarrow>
          (if MEM_ISUSED it then [(p + SIZEOF_STRUCT_MEM, item_next it - p - SIZEOF_STRUCT_MEM)] else []) @
          smem_walk fuel m (item_next it))"

definition smem_live :: "small_mem \<Rightarrow> (nat \<times> nat) list" where
  "smem_live m = smem_walk (smem_fuel m) m 0"

fun live_list :: "nat \<Rightarrow> (nat \<times> bool) list \<Rightarrow> (nat \<times> nat) list" where
  "live_list p [] = []"
| "live_list p ((n, u) # bs) = (if u then [(p + 12, n - 12)] else []) @ live_list (p + n) bs"

lemma live_list_append [simp]: "live_list p (xs @ ys) = live_list p xs @ live_list (p + total xs) ys"
  by (induction p xs rule: live_list.induct) (auto simp: add.assoc)

lemma smem_walk_ok:
  "heap_list (items m) q p bs (heap_end m) \<Longrightarrow> length bs < fuel \<Longrightarrow> smem_walk fuel m p = live_list p bs"
proof (induction fuel arbitrary: q p bs)
  case (Suc fuel)
  show ?case
  proof (cases bs)
    case (Cons b rest)
    obtain n u where b: "b = (n, u)" by (cases b)
    have "p \<noteq> heap_end m" using heap_list_head [OF Suc.prems(1)] Cons by simp
    moreover have "smem_walk fuel m (p + n) = live_list (p + n) rest"
      using Suc.IH [of p "p + n" rest] Suc.prems Cons b by simp
    ultimately show ?thesis using Suc.prems(1) by (simp add: Cons b MEM_ISUSED_def MEM_USED_def)
  qed (use Suc.prems in simp)
qed simp

lemma smem_live_abs: "heap_abs m bs \<Longrightarrow> smem_live m = live_list 0 bs"
  using smem_walk_ok [of m 0 0 bs "smem_fuel m"] blocks_fuel [of m bs]
  by (simp add: smem_live_def heap_abs_def heap_blocks_def)

lemma live_list_bounds:
  "(r, k) \<in> set (live_list p bs) \<Longrightarrow> used_ok bs \<Longrightarrow> p + 12 \<le> r \<and> r + k \<le> p + total bs \<and> 4 \<le> k"
  by (induction p bs rule: live_list.induct) (auto split: if_splits)

lemma live_list_split:
  "(r, k) \<in> set (live_list p bs) \<Longrightarrow> used_ok bs \<Longrightarrow>
    \<exists>xs ys. bs = xs @ (k + 12, True) # ys \<and> r = p + total xs + 12"
proof (induction p bs rule: live_list.induct)
  case (2 p n u bs)
  show ?case
  proof (cases "u \<and> r = p + 12 \<and> k = n - 12")
    case True
    then show ?thesis using 2(3) by (intro exI [of _ "[]"] exI [of _ bs]) simp
  next
    case False
    then have "(r, k) \<in> set (live_list (p + n) bs)" using 2(2) by (auto split: if_splits)
    then obtain xs ys where "bs = xs @ (k + 12, True) # ys" "r = p + n + total xs + 12" using 2 by auto
    then show ?thesis by (intro exI [of _ "(n, u) # xs"] exI [of _ ys]) simp
  qed
qed simp

lemma live_list_disjoint:
  "used_ok bs \<Longrightarrow> (r, k) \<in> set (live_list p bs) \<Longrightarrow> (t, j) \<in> set (live_list p bs) \<Longrightarrow> (r, k) \<noteq> (t, j) \<Longrightarrow>
    r + k \<le> t \<or> t + j \<le> r"
proof (induction p bs rule: live_list.induct)
  case (2 p n u bs)
  then show ?case
    using live_list_bounds [of r k "p + n" bs] live_list_bounds [of t j "p + n" bs] by (auto split: if_splits)
qed simp

lemma live_list_distinct: "used_ok bs \<Longrightarrow> distinct (map fst (live_list p bs))"
proof (induction p bs rule: live_list.induct)
  case (2 p n u bs)
  then show ?case using live_list_bounds [of _ _ "p + n" bs] by fastforce
qed simp

lemma live_join: "live_list 0 (join xs n ys) = live_list 0 xs @ live_list (total xs + n) ys"
proof -
  have r: "live_list (p + fst (join_right n ys)) (snd (join_right n ys)) = live_list (p + n) ys" for p
    by (cases "ys \<noteq> [] \<and> \<not> snd (hd ys)")
      (auto simp: join_right_def neq_Nil_conv add.assoc split: list.splits bool.splits prod.splits)
  obtain n' ys' where j: "join_right n ys = (n', ys')" by (cases "join_right n ys")
  show ?thesis
  proof (cases "xs \<noteq> [] \<and> \<not> snd (last xs)")
    case True
    then obtain ws k where xs: "xs = ws @ [(k, False)]" by (cases xs rule: rev_cases) auto
    then show ?thesis using r [of "total ws + k"] j by (simp add: join_def add.assoc)
  next
    case False
    then have "join xs n ys = xs @ (n', False) # ys'" using j by (auto simp: join_def)
    then show ?thesis using r [of "total xs"] j by simp
  qed
qed

definition smem_inv :: "small_mem \<Rightarrow> bool" where "smem_inv m \<longleftrightarrow> (\<exists>bs. heap_abs m bs)"

text \<open>The room a request gets: at least its size, but for the sizes that wrap when they are aligned.\<close>

definition room :: "u32 \<Rightarrow> nat" where "room sz = (if unat sz + 3 < 2 ^ 32 then unat sz else 12)"

lemma smem_inv_live:
  assumes "smem_inv m"
  shows "distinct (map fst (smem_live m))"
    "(p, k) \<in> set (smem_live m) \<Longrightarrow> 4 \<le> k \<and> 12 \<le> p \<and> p + k \<le> heap_end m \<and> p mod 4 = 0"
    "(p, k) \<in> set (smem_live m) \<Longrightarrow> (q, j) \<in> set (smem_live m) \<Longrightarrow> (p, k) \<noteq> (q, j) \<Longrightarrow> p + k \<le> q \<or> q + j \<le> p"
proof -
  obtain bs where a: "heap_abs m bs" using assms by (auto simp: smem_inv_def)
  then have u: "used_ok bs" and b: "heap_blocks m bs" by (simp_all add: heap_abs_def)
  note l = smem_live_abs [OF a]
  show "distinct (map fst (smem_live m))" using live_list_distinct [OF u] by (simp add: l)
  show "4 \<le> k \<and> 12 \<le> p \<and> p + k \<le> heap_end m \<and> p mod 4 = 0" if "(p, k) \<in> set (smem_live m)"
  proof -
    have i: "(p, k) \<in> set (live_list 0 bs)" using that by (simp add: l)
    obtain xs ys where bs: "bs = xs @ (k + 12, True) # ys" "p = total xs + 12" using live_list_split [OF i u] by auto
    have "heap_end m = total bs" using heap_list_end b by (fastforce simp: heap_blocks_def)
    moreover have "total xs mod 4 = 0" using heap_blocks_bounds(3) b bs(1) by blast
    ultimately show ?thesis using live_list_bounds [OF i u] bs(2) by (simp add: mod_add_eq [symmetric])
  qed
  show "p + k \<le> q \<or> q + j \<le> p" if "(p, k) \<in> set (smem_live m)" "(q, j) \<in> set (smem_live m)" "(p, k) \<noteq> (q, j)"
    using live_list_disjoint [OF u] that by (simp add: l)
qed

lemma smem_alloc_live:
  assumes "smem_inv m"
  shows "\<exists>r m'. rt_smem_alloc m sz = Some (r, m') \<and> smem_inv m' \<and> bytes m' = bytes m \<and>
    (case r of
       None \<Rightarrow> m' = m
     | Some p \<Rightarrow> \<exists>k. room sz \<le> k \<and> (p, k) \<notin> set (smem_live m) \<and> set (smem_live m') = insert (p, k) (set (smem_live m)))"
proof (cases "sz = 0")
  case True
  then show ?thesis using assms by (simp add: rt_smem_alloc_def)
next
  case False
  obtain bs where a: "heap_abs m bs" using assms by (auto simp: smem_inv_def)
  show ?thesis
  proof (cases "first_fit (request sz) 0 bs")
    case None
    then show ?thesis using rt_smem_alloc_ok [OF a False] assms by simp
  next
    case (Some p)
    then obtain xs n ys m' where r: "bs = xs @ (n, False) # ys" "p = total xs" "request sz + 12 \<le> n"
      "rt_smem_alloc m sz = Some (Some (p + 12), m')" "heap_abs m' (xs @ take_list (request sz) n @ ys)" "bytes m' = bytes m"
      using rt_smem_alloc_ok [OF a False] by auto
    define k where "k = (if request sz + 36 \<le> n then request sz else n - 12)"
    have "live_list (total xs) (take_list (request sz) n @ ys) = (p + 12, k) # live_list (total xs + n) ys"
      using r(2) by (simp add: take_list_def k_def)
    then have live: "smem_live m' = live_list 0 xs @ (p + 12, k) # live_list (total xs + n) ys"
      using smem_live_abs [OF r(5)] by simp
    moreover have "smem_live m = live_list 0 xs @ live_list (total xs + n) ys" using smem_live_abs [OF a] by (simp add: r(1))
    moreover have inv: "smem_inv m'" using r(5) by (auto simp: smem_inv_def)
    moreover have "(p + 12, k) \<notin> set (smem_live m)"
      using smem_inv_live(1) [OF inv] live \<open>smem_live m = _\<close> by (force simp: image_iff)
    moreover have "room sz \<le> k"
      using r(3) request_ge [of sz] request_12 [of sz] by (auto simp: room_def k_def)
    ultimately show ?thesis using r(4,6) by auto
  qed
qed

lemma smem_free_live:
  assumes "smem_inv m" "(p, k) \<in> set (smem_live m)"
  shows "\<exists>m'. rt_smem_free m (Some p) = Some m' \<and> smem_inv m' \<and> bytes m' = bytes m \<and>
    set (smem_live m') = set (smem_live m) - {(p, k)}"
proof -
  obtain bs where a: "heap_abs m bs" using assms by (auto simp: smem_inv_def)
  then have u: "used_ok bs" by (simp add: heap_abs_def)
  note l = smem_live_abs [OF a]
  obtain xs ys where bs: "bs = xs @ (k + 12, True) # ys" "p = total xs + 12"
    using live_list_split [OF assms(2) [unfolded l] u] by auto
  obtain m' where m': "rt_smem_free m (Some p) = Some m'" "heap_abs m' (join xs (k + 12) ys)" "bytes m' = bytes m"
    using rt_smem_free_ok [OF a [unfolded bs(1)]] bs(2) by auto
  have "smem_live m = live_list 0 xs @ (p, k) # live_list (total xs + (k + 12)) ys" using l bs by simp
  moreover have "smem_live m' = live_list 0 xs @ live_list (total xs + (k + 12)) ys"
    using smem_live_abs [OF m'(2)] live_join by simp
  moreover have "distinct (smem_live m)" using smem_inv_live(1) [OF assms(1)] by (simp add: distinct_map)
  ultimately show ?thesis using m' by (auto simp: smem_inv_def)
qed

subsection \<open>The contract of a heap\<close>

interpretation heap: allocator smem_inv "\<lambda>m. set (smem_live m)" rt_malloc rt_free room
proof
  fix m n
  assume inv: "smem_inv m"
  show "\<exists>r m'. rt_malloc m n = Some (r, m') \<and> smem_inv m' \<and>
      (case r of None \<Rightarrow> set (smem_live m') = set (smem_live m)
       | Some p \<Rightarrow> \<exists>k. room n \<le> k \<and> (p, k) \<notin> set (smem_live m) \<and>
           set (smem_live m') = insert (p, k) (set (smem_live m)))"
  proof -
    obtain r m' where "rt_smem_alloc m n = Some (r, m')" "smem_inv m'"
      "case r of None \<Rightarrow> m' = m
       | Some p \<Rightarrow> \<exists>k. room n \<le> k \<and> (p, k) \<notin> set (smem_live m) \<and>
           set (smem_live m') = insert (p, k) (set (smem_live m))"
      using smem_alloc_live [OF inv] by blast
    then show ?thesis unfolding rt_malloc_def by (cases r) auto
  qed
next
  fix m p k
  assume "smem_inv m" "(p, k) \<in> set (smem_live m)"
  from smem_free_live [OF this]
  show "\<exists>m'. rt_free m (Some p) = Some m' \<and> smem_inv m' \<and> set (smem_live m') = set (smem_live m) - {(p, k)}"
    by (auto simp: rt_free_def)
next
  fix m p k q j
  assume "smem_inv m" "(p, k) \<in> set (smem_live m)" "(q, j) \<in> set (smem_live m)" "(p, k) \<noteq> (q, j)"
  then show "p + k \<le> q \<or> q + j \<le> p" by (rule smem_inv_live(3))
next
  fix m p k
  assume "smem_inv m" "(p, k) \<in> set (smem_live m)"
  from smem_inv_live(2) [OF this] show "0 < k" by simp
qed

lemma unat_RT_ALIGN_DOWN: "unat (RT_ALIGN_DOWN v) = unat v div 4 * 4"
  unfolding RT_ALIGN_DOWN_def by (rule unat_and_not_3)

lemma rt_smem_init_abs:
  assumes fits: "unat begin_addr + 64 \<le> 2 ^ 32" "unat begin_addr + unat sz < 2 ^ 32"
    and init: "rt_smem_init begin_addr sz = Some (a, m)"
  shows "heap_abs m [(mem_size_aligned m + 12, False)]" "unat a mod 4 = 0" "unat begin_addr + 56 \<le> unat a"
    "unat a + heap_end m + 12 \<le> unat begin_addr + unat sz"
proof -
  let ?s = "RT_ALIGN begin_addr" and ?e = "RT_ALIGN_DOWN (begin_addr + sz)"
  have s: "unat ?s = (unat begin_addr + 3) div 4 * 4" using fits(1) by (intro unat_RT_ALIGN) simp
  then have "unat ?s + 56 < 2 ^ 32" using fits(1) div_times_less_eq_dividend [of "unat begin_addr + 3" 4] by simp
  then have start: "unat (?s + 56) = unat ?s + 56" by (subst unat_add_lt) simp_all
  have al: "unat (RT_ALIGN (?s + 56)) = unat ?s + 56"
  proof -
    have "unat ?s + 56 + 3 < 2 ^ 32"
      using s fits(1) div_times_less_eq_dividend [of "unat begin_addr + 3" 4]
      by simp
    then have "unat (?s + 56) + 3 < 2 ^ 32" by (simp only: start)
    from unat_RT_ALIGN [OF this] show ?thesis using start s by simp
  qed
  have sum: "unat (begin_addr + sz) = unat begin_addr + unat sz"
    using fits(2) by (intro unat_add_lt) simp
  have e: "unat ?e = (unat begin_addr + unat sz) div 4 * 4" by (simp only: unat_RT_ALIGN_DOWN sum)
  have c: "?e > 24" "?e - 24 \<ge> ?s + 56" "a = RT_ALIGN (?s + 56)"
    "mem_size_aligned m = unat (?e - RT_ALIGN (?s + 56) - 24)"
    using init by (auto simp: rt_smem_init_def Let_def SIZEOF_SMALL_MEM_def split: if_splits)
  have e24: "unat (?e - 24) = unat ?e - 24" "24 < unat ?e"
    using c(1) by (simp_all add: unat_sub_le word_less_nat_alt word_le_nat_alt)
  then have le: "unat ?s + 56 \<le> unat ?e - 24" using c(2) start by (simp add: word_le_nat_alt)
  have "?e - RT_ALIGN (?s + 56) - 24 = ?e - 24 - RT_ALIGN (?s + 56)" by simp
  then have ms: "mem_size_aligned m = unat ?e - 24 - (unat ?s + 56)"
    using c(4) le al e24 by (simp add: unat_sub_le word_le_nat_alt)
  show "unat a mod 4 = 0" using c(3) al s by simp
  show "unat begin_addr + 56 \<le> unat a" using c(3) al s by simp
  have "heap_end m = unat ?e - 24 - (unat ?s + 56) + 12" by (simp add: heap_end_def ms)
  then show end': "unat a + heap_end m + 12 \<le> unat begin_addr + unat sz" using c(3) al le e by simp
  have m: "m = \<lparr>items = [0 \<mapsto> \<lparr>pool_ptr = MEM_FREED, item_next = heap_end m, item_prev = 0\<rparr>,
                          heap_end m \<mapsto> \<lparr>pool_ptr = MEM_USED, item_next = heap_end m, item_prev = heap_end m\<rparr>],
                 bytes = (\<lambda>_. 0), lfree = 0, mem_size_aligned = mem_size_aligned m, mem_used = 0, mem_max = 0\<rparr>"
    using init by (auto simp: rt_smem_init_def Let_def heap_end_def split: if_splits)
  have "4 dvd unat ?e" "4 dvd unat ?s" by (simp_all add: e s)
  then have "mem_size_aligned m mod 4 = 0" by (simp add: ms dvd_diff_nat flip: dvd_eq_mod_eq_0)
  moreover have "heap_end m + 36 < 2 ^ 32" using end' c(3) al fits(2) by simp
  moreover have "items m 0 = Some \<lparr>pool_ptr = Some False, item_next = heap_end m, item_prev = 0\<rparr>"
    "items m (heap_end m) = Some \<lparr>pool_ptr = Some True, item_next = heap_end m, item_prev = heap_end m\<rparr>"
    "lfree m = 0" "mem_used m = 0"
    by (subst m, simp add: MEM_FREED_def MEM_USED_def heap_end_def)+
  ultimately show "heap_abs m [(mem_size_aligned m + 12, False)]"
    by (auto simp: heap_abs_def heap_blocks_def no_free_pair_def heap_end_def mod_add_eq [symmetric])
qed

lemma rt_smem_init_holds:
  assumes "unat begin_addr + 64 \<le> 2 ^ 32" "unat begin_addr + unat sz < 2 ^ 32"
    "rt_smem_init begin_addr sz = Some (a, m)"
  shows "heap.holds m []"
proof -
  have a: "heap_abs m [(mem_size_aligned m + 12, False)]" by (rule rt_smem_init_abs(1) [OF assms])
  have "smem_live m = []" using smem_live_abs [OF a] by simp
  then show ?thesis using a by (auto simp: heap.holds_def smem_inv_def)
qed

text \<open>C34: After \<open>rt_smem_init\<close>, whatever a program allocates and gives back, no assertion of the allocator fails and no
  access leaves the heap; the pointers the program holds are exactly the live regions, each region is aligned,
  inside the heap and overlaps no other.\<close>

theorem heap_programs_run:
  assumes "unat begin_addr + 64 \<le> 2 ^ 32" "unat begin_addr + unat sz < 2 ^ 32"
    "rt_smem_init begin_addr sz = Some (a, m)"
  shows "\<exists>m' own. heap_run rt_malloc rt_free ops m [] = Some (m', own) \<and> distinct own \<and>
    set own = fst ` set (smem_live m') \<and>
    (\<forall>(p, k) \<in> set (smem_live m'). p mod 4 = 0 \<and> 12 \<le> p \<and> p + k \<le> heap_end m' \<and>
       (\<forall>(q, j) \<in> set (smem_live m'). q \<noteq> p \<longrightarrow> p + k \<le> q \<or> q + j \<le> p))"
proof -
  obtain m' own where r: "heap_run rt_malloc rt_free ops m [] = Some (m', own)" "heap.holds m' own"
    using heap.run_holds [OF rt_smem_init_holds [OF assms]] by blast
  then have i: "smem_inv m'" "distinct own" "set own = fst ` set (smem_live m')" by (simp_all add: heap.holds_def)
  have "p mod 4 = 0 \<and> 12 \<le> p \<and> p + k \<le> heap_end m' \<and>
       (\<forall>(q, j) \<in> set (smem_live m'). q \<noteq> p \<longrightarrow> p + k \<le> q \<or> q + j \<le> p)"
    if "(p, k) \<in> set (smem_live m')" for p k
    using smem_inv_live(2) [OF i(1) that] smem_inv_live(3) [OF i(1) that] by auto
  then show ?thesis using r(1) i(2,3) by blast
qed

theorem heap_programs_run_witness:
  "\<exists>a m. rt_smem_init 0x20001002 0x400 = Some (a, m) \<and>
    (\<exists>m' own. heap_run rt_malloc rt_free [Get 5, Get 100, Drop 0, Get 30, Drop 1] m [] = Some (m', own) \<and> distinct own)"
proof -
  obtain a m where i: "rt_smem_init 0x20001002 0x400 = Some (a, m)"
    by (simp add: rt_smem_init_def RT_ALIGN_def RT_ALIGN_DOWN_def SIZEOF_SMALL_MEM_def Let_def)
  have "unat (0x20001002 :: u32) + 64 \<le> 2 ^ 32" "unat (0x20001002 :: u32) + unat (0x400 :: u32) < 2 ^ 32" by simp_all
  from heap_programs_run [OF this i, of "[Get 5, Get 100, Drop 0, Get 30, Drop 1]"]
  show ?thesis using i by (intro exI [of _ a] exI [of _ m]) (elim exE conjE, intro conjI exI, assumption+)
qed

text \<open>A request is given the first free block, in address order, that holds its aligned size (at least 12 bytes)
  and a header; null is returned only when there is none.\<close>

theorem rt_malloc_first_fit:
  assumes "heap_abs m bs" "sz \<noteq> 0"
  shows "\<exists>m'. rt_malloc m sz = Some (map_option (\<lambda>p. p + 12) (first_fit (request sz) 0 bs), m')"
proof (cases "first_fit (request sz) 0 bs")
  case None
  then show ?thesis using rt_smem_alloc_ok [OF assms] by (simp add: rt_malloc_def)
next
  case (Some p)
  then obtain m' where "rt_smem_alloc m sz = Some (Some (p + 12), m')" using rt_smem_alloc_ok [OF assms] by auto
  then show ?thesis using Some by (simp add: rt_malloc_def)
qed

theorem rt_malloc_first_fit_witness:
  "\<exists>a m m'. rt_smem_init 0x20001000 0x400 = Some (a, m) \<and> rt_malloc m 17 = Some (Some 12, m')"
proof -
  obtain a m where i: "rt_smem_init 0x20001000 0x400 = Some (a, m)" "mem_size_aligned m = 944"
    by (simp add: rt_smem_init_def RT_ALIGN_def RT_ALIGN_DOWN_def SIZEOF_SMALL_MEM_def Let_def)
  have "heap_abs m [(956, False)]" using rt_smem_init_abs(1) [OF _ _ i(1)] i(2) by simp
  from rt_malloc_first_fit [OF this, of 17] i show ?thesis by (simp add: request_def RT_ALIGN_def)
qed

lemma join_take_list:
  assumes "no_free_pair (xs @ (n, False) # ys)"
  shows "join xs (fst (hd (take_list sz n))) (tl (take_list sz n) @ ys) = xs @ (n, False) # ys"
proof -
  have x: "xs = [] \<or> snd (last xs)" and y: "ys = [] \<or> snd (hd ys)"
    using assms by (auto simp: no_free_pair_append no_free_pair_Cons)
  have "join_right (fst (hd (take_list sz n))) (tl (take_list sz n) @ ys) = (n, ys)"
    using y by (auto simp: take_list_def join_right_def split: list.splits bool.splits)
  then show ?thesis using x by (auto simp: join_def)
qed

text \<open>Freeing what has just been allocated restores the list of blocks as it was, with the lowest free block and the
  count of used bytes: the block that was split is merged again.\<close>

theorem rt_malloc_free_restores:
  assumes "heap_abs m bs" "rt_malloc m sz = Some (Some p, m1)"
  shows "\<exists>m2. rt_free m1 (Some p) = Some m2 \<and> heap_abs m2 bs \<and> lfree m2 = lfree m \<and> mem_used m2 = mem_used m \<and>
    bytes m2 = bytes m"
proof -
  have sz: "sz \<noteq> 0" using assms(2) by (auto simp: rt_malloc_def rt_smem_alloc_def)
  obtain q where "first_fit (request sz) 0 bs = Some q"
    using rt_smem_alloc_ok [OF assms(1) sz] assms(2) by (auto simp: rt_malloc_def split: option.splits)
  then obtain xs n ys where r: "bs = xs @ (n, False) # ys" "p = total xs + 12"
    "heap_abs m1 (xs @ take_list (request sz) n @ ys)" "bytes m1 = bytes m"
    using rt_smem_alloc_ok [OF assms(1) sz] assms(2) by (auto simp: rt_malloc_def)
  define got rest where "got = fst (hd (take_list (request sz) n))" and "rest = tl (take_list (request sz) n) @ ys"
  have "xs @ take_list (request sz) n @ ys = xs @ (got, True) # rest" by (simp add: got_def rest_def take_list_def)
  then obtain m2 where m2: "rt_free m1 (Some p) = Some m2" "heap_abs m2 (join xs got rest)" "bytes m2 = bytes m1"
    using rt_smem_free_ok [of m1 xs got rest] r(2,3) by (auto simp: rt_free_def)
  have "no_free_pair (xs @ (n, False) # ys)" using assms(1) r(1) by (simp add: heap_abs_def)
  then have "join xs got rest = bs" unfolding got_def rest_def r(1) by (rule join_take_list)
  then show ?thesis using m2 r(4) assms(1) by (auto simp: heap_abs_def)
qed

theorem rt_malloc_free_restores_witness:
  "\<exists>a m m1 m2. rt_smem_init 0x20001000 0x400 = Some (a, m) \<and> rt_malloc m 17 = Some (Some 12, m1) \<and>
    rt_free m1 (Some 12) = Some m2 \<and> heap_abs m2 [(956, False)]"
proof -
  obtain a m where i: "rt_smem_init 0x20001000 0x400 = Some (a, m)" "mem_size_aligned m = 944"
    by (simp add: rt_smem_init_def RT_ALIGN_def RT_ALIGN_DOWN_def SIZEOF_SMALL_MEM_def Let_def)
  have a: "heap_abs m [(956, False)]" using rt_smem_init_abs(1) [OF _ _ i(1)] i(2) by simp
  obtain m1 where "rt_malloc m 17 = Some (Some 12, m1)"
    using rt_smem_alloc_ok [OF a, of 17] by (auto simp: rt_malloc_def request_def RT_ALIGN_def)
  with rt_malloc_free_restores [OF a this] i(1) show ?thesis by blast
qed

text \<open>A request within three bytes of \<open>2 ^ 32\<close> wraps to 0 when its size is aligned and is granted: with one free
  block of 48 bytes or more the caller gets 12 bytes for the 4 GB asked for.\<close>

theorem rt_malloc_huge_request:
  assumes "heap_abs m [(n, False)]" "48 \<le> n" "0xFFFFFFFD \<le> sz"
  shows "\<exists>m'. rt_malloc m sz = Some (Some 12, m') \<and> smem_live m' = [(12, 12)]"
proof -
  have r: "request sz = 12" using assms(3) by (rule request_huge)
  have sz: "sz \<noteq> 0" using assms(3) by auto
  have "first_fit (request sz) 0 [(n, False)] = Some 0" using assms(2) r by simp
  then obtain xs k ys m' where m': "[(n, False)] = xs @ (k, False) # ys" "0 = total xs"
    "rt_smem_alloc m sz = Some (Some 12, m')" "heap_abs m' (xs @ take_list 12 k @ ys)"
    using rt_smem_alloc_ok [OF assms(1) sz] r by auto
  have "xs = []" "k = n" "ys = []" using m'(1) by (cases xs; simp)+
  then have "smem_live m' = live_list 0 (take_list 12 n)" using smem_live_abs [OF m'(4)] by simp
  then show ?thesis using m'(3) assms(2) by (simp add: rt_malloc_def take_list_def)
qed

theorem rt_malloc_huge_request_witness:
  "\<exists>a m m'. rt_smem_init 0x20001000 0x400 = Some (a, m) \<and> rt_malloc m 0xFFFFFFFE = Some (Some 12, m') \<and>
    smem_live m' = [(12, 12)]"
proof -
  obtain a m where i: "rt_smem_init 0x20001000 0x400 = Some (a, m)" "mem_size_aligned m = 944"
    by (simp add: rt_smem_init_def RT_ALIGN_def RT_ALIGN_DOWN_def SIZEOF_SMALL_MEM_def Let_def)
  have a: "heap_abs m [(956, False)]" using rt_smem_init_abs(1) [OF _ _ i(1)] i(2) by simp
  from rt_malloc_huge_request [OF a, of "0xFFFFFFFE"] i(1) show ?thesis by auto
qed

subsection \<open>Resizing\<close>

lemma heap_abs_bytes [simp]: "heap_abs (m\<lparr>bytes := b\<rparr>) bs = heap_abs m bs"
  by (simp add: heap_abs_def heap_blocks_def)

lemma smem_live_bytes [simp]: "smem_inv m \<Longrightarrow> smem_live (m\<lparr>bytes := b\<rparr>) = smem_live m"
  using smem_live_abs by (fastforce simp: smem_inv_def)

lemma smem_inv_bytes [simp]: "smem_inv (m\<lparr>bytes := b\<rparr>) = smem_inv m"
  by (simp add: smem_inv_def)

lemma heap_abs_used:
  assumes a: "heap_abs m (xs @ (k, True) # ys)"
  shows "lfree m < total xs + k \<longleftrightarrow> \<not> list_all snd xs" "\<not> list_all snd xs \<Longrightarrow> lfree m = total (takeWhile snd xs)"
    "mem_used m = used_total xs + k + used_total ys"
  using a total_takeWhile [of xs] by (auto simp: heap_abs_def takeWhile_app heap_blocks_split)

lemma smem_shrink_ok:
  assumes a: "heap_abs m (xs @ (sz + 12, True) # ys)" and n: "0 < n" "n mod 4 = 0" "n + 24 < sz"
  shows "\<exists>m'. smem_shrink m (total xs) sz n = Some m' \<and> heap_abs m' (join (xs @ [(n + 12, True)]) (sz - n) ys) \<and> bytes m' = bytes m"
proof -
  let ?p = "total xs"
  let ?xs = "xs @ [(n + 12, True)]"
  define m1 where "m1 = m\<lparr>mem_used := sub32 (mem_used m) (sz - n)\<rparr>"
  have "heap_blocks m (xs @ (sz + 12, True) # ys)" using a by (simp add: heap_abs_def)
  then have b: "heap_blocks m1 (xs @ (sz + 12, True) # ys)"
    by (rule heap_blocks_cong [THEN iffD2, rotated 2]) (simp_all add: m1_def)
  have "(n + 12) mod 4 = 0" using n(2) by (simp add: mod_add_eq [symmetric])
  then obtain m2 where m2: "smem_split m1 ?p (?p + (n + 12)) = Some m2"
    "heap_blocks m2 (xs @ (n + 12, True) # (sz + 12 - (n + 12), False) # ys)" "same_rest m1 m2" "lfree m2 = lfree m1"
    using split_block [OF b, of "n + 12"] n by auto
  define m3 where "m3 = (if ?p + 12 + n < lfree m2 then m2\<lparr>lfree := ?p + 12 + n\<rparr> else m2)"
  have "heap_blocks m2 (?xs @ (sz - n, False) # ys)" using m2(2) by simp
  then have b3: "heap_blocks m3 (?xs @ (sz - n, False) # ys)"
    by (rule heap_blocks_cong [THEN iffD2, rotated 2]) (simp_all add: m3_def)
  have ok: "no_free_pair ?xs" "no_free_pair ys"
    using a by (auto simp: heap_abs_def no_free_pair_append no_free_pair_Cons)
  have lf: "lfree m3 = total (takeWhile snd ?xs)"
  proof (cases "list_all snd xs")
    case True
    have "\<not> lfree m < ?p + (sz + 12)" using heap_abs_used(1) [OF a] True by simp
    then show ?thesis using True m2(4) n by (simp add: m3_def m1_def takeWhile_app)
  next
    case False
    then show ?thesis
      using heap_abs_used(2) [OF a False] m2(4) total_takeWhile [of xs] by (simp add: m3_def m1_def takeWhile_app)
  qed
  have used: "mem_used m3 = used_total ?xs + used_total ys"
    using heap_abs_used(3) [OF a] m2(3) n by (simp add: m3_def m1_def same_rest_def)
  have uo: "used_ok ?xs" "used_ok ys" using a n by (auto simp: heap_abs_def)
  obtain m4 where m4: "plug_holes m3 (total ?xs) = Some m4" "heap_abs m4 (join ?xs (sz - n) ys)" "same_rest m3 m4"
    using plug_holes_ok [OF b3 ok lf used uo] by blast
  have "total ?xs = ?p + 12 + n" "?p + (n + 12) = ?p + 12 + n" by simp_all
  then have "smem_shrink m ?p sz n = Some m4"
    using m2(1) m4(1) by (simp only: smem_shrink_def Let_def SIZEOF_STRUCT_MEM m1_def [symmetric] Option.bind_lunit m3_def [symmetric])
  then show ?thesis using m4 m2(3) by (auto simp: same_rest_def m3_def m1_def)
qed

lemma rt_smem_realloc_eq:
  assumes i: "smem_inv m" and live: "(rm, sz) \<in> set (smem_live m)" and n: "n = unat (RT_ALIGN newsz)" "0 < n"
  shows "rt_smem_realloc m (Some rm) newsz =
     (if n > mem_size_aligned m then Some (None, m)
      else if sz = n then Some (Some rm, m)
      else if n + 24 < sz then do { m \<leftarrow> smem_shrink m (rm - 12) sz n; Some (Some rm, m) }
      else do {
        (nmem, m) \<leftarrow> rt_smem_alloc m (RT_ALIGN newsz);
        case nmem of
          None \<Rightarrow> Some (None, m)
        | Some nm \<Rightarrow> do { m \<leftarrow> rt_smem_free (m\<lparr>bytes := copy_bytes (bytes m) nm rm (min sz n)\<rparr>) (Some rm); Some (nmem, m) } })"
proof -
  obtain bs where a: "heap_abs m bs" using i by (auto simp: smem_inv_def)
  then have u: "used_ok bs" by (simp add: heap_abs_def)
  obtain xs ys where bs: "bs = xs @ (sz + 12, True) # ys" "rm = total xs + 12"
    using live_list_split [OF live [unfolded smem_live_abs [OF a]] u] by auto
  have it: "items m (rm - 12) = Some \<lparr>pool_ptr = Some True, item_next = total xs + (sz + 12), item_prev = last_of 0 0 xs\<rparr>"
    using a by (simp add: bs heap_abs_def heap_blocks_split)
  have bd: "4 \<le> sz" "12 \<le> rm" "rm + sz \<le> heap_end m" "rm mod 4 = 0" using smem_inv_live(2) [OF i live] by simp_all
  then have as: "rt_assert (rm mod 4 = 0) = Some ()" "rt_assert (rm < heap_end m) = Some ()" "rt_assert (12 \<le> rm) = Some ()"
    by simp_all
  have s: "sub32 (sub32 (total xs + (sz + 12)) (rm - 12)) 12 = sz" using bs(2) by simp
  have m: "(if sz < n then sz else n) = min sz n" by (simp add: min_def)
  have n12: "MIN_SIZE = 12" "n + 12 + 12 = n + 24" by (simp_all add: MIN_SIZE_def)
  have z: "(n = 0) = False" using n(2) by simp
  show ?thesis
    unfolding rt_smem_realloc_def Let_def n(1) [symmetric] option.case SIZEOF_STRUCT_MEM as it Option.bind_lunit
      mem_item.select_convs s m n12 z if_False
    by simp
qed

lemma smem_shrink_live:
  assumes i: "smem_inv m" and live: "(rm, k) \<in> set (smem_live m)" and n: "0 < n" "n mod 4 = 0" "n + 24 < k"
  shows "\<exists>m'. smem_shrink m (rm - 12) k n = Some m' \<and> smem_inv m' \<and> bytes m' = bytes m \<and>
    set (smem_live m') = insert (rm, n) (set (smem_live m) - {(rm, k)})"
proof -
  obtain bs where a: "heap_abs m bs" using i by (auto simp: smem_inv_def)
  then have u: "used_ok bs" by (simp add: heap_abs_def)
  obtain xs ys where bs: "bs = xs @ (k + 12, True) # ys" "rm = total xs + 12"
    using live_list_split [OF live [unfolded smem_live_abs [OF a]] u] by auto
  obtain m' where m': "smem_shrink m (total xs) k n = Some m'" "heap_abs m' (join (xs @ [(n + 12, True)]) (k - n) ys)"
    "bytes m' = bytes m"
    using smem_shrink_ok [OF a [unfolded bs(1)] n] by blast
  have l: "smem_live m = live_list 0 xs @ (rm, k) # live_list (total xs + (k + 12)) ys"
    using smem_live_abs [OF a] bs by simp
  have e: "live_list (total (xs @ [(n + 12, True)]) + (k - n)) ys = live_list (total xs + (k + 12)) ys"
    using n(3) by (intro arg_cong2 [of _ _ _ _ live_list]) simp_all
  have l': "smem_live m' = live_list 0 xs @ (rm, n) # live_list (total xs + (k + 12)) ys"
    unfolding smem_live_abs [OF m'(2)] live_join e using bs(2) by simp
  have "distinct (smem_live m)" using smem_inv_live(1) [OF i] by (simp add: distinct_map)
  then show ?thesis using m' l l' bs(2) by (auto simp: smem_inv_def)
qed

text \<open>The data is moved to a new region and the old one is given back.\<close>

lemma smem_move_live:
  assumes i: "smem_inv m" and live: "(rm, k) \<in> set (smem_live m)" and n: "unat al = n" "n + 3 < 2 ^ 32"
    and alloc: "rt_smem_alloc m al = Some (Some nm, m1)"
  shows "\<exists>j m'. rt_smem_free (m1\<lparr>bytes := copy_bytes (bytes m1) nm rm (min k n)\<rparr>) (Some rm) = Some m' \<and> smem_inv m' \<and>
    n \<le> j \<and> set (smem_live m') = insert (nm, j) (set (smem_live m) - {(rm, k)}) \<and>
    bytes m' = copy_bytes (bytes m) nm rm (min k n) \<and>
    (\<forall>(q, l) \<in> set (smem_live m). q + l \<le> nm \<or> nm + j \<le> q)"
proof -
  obtain j where m1: "smem_inv m1" "bytes m1 = bytes m" "room al \<le> j" "(nm, j) \<notin> set (smem_live m)"
    "set (smem_live m1) = insert (nm, j) (set (smem_live m))"
    using smem_alloc_live [OF i, of al] alloc by auto
  let ?m = "m1\<lparr>bytes := copy_bytes (bytes m1) nm rm (min k n)\<rparr>"
  have j: "n \<le> j" using m1(3) n by (simp add: room_def)
  have "smem_inv ?m" "(rm, k) \<in> set (smem_live ?m)" using m1(1,5) live by simp_all
  from smem_free_live [OF this] obtain m' where m': "rt_smem_free ?m (Some rm) = Some m'" "smem_inv m'"
    "bytes m' = copy_bytes (bytes m1) nm rm (min k n)" "set (smem_live m') = set (smem_live ?m) - {(rm, k)}"
    by auto
  have "set (smem_live m') = insert (nm, j) (set (smem_live m) - {(rm, k)})"
    using m'(4) m1(1,4,5) live by auto
  moreover have "q + l \<le> nm \<or> nm + j \<le> q" if "(q, l) \<in> set (smem_live m)" for q l
    using smem_inv_live(3) [OF m1(1), of q l nm j] that m1(4,5) by auto
  ultimately show ?thesis using m' j m1(2) by auto
qed

lemma RT_ALIGN_wraps: "sz = 0 \<or> 0xFFFFFFFD \<le> sz \<Longrightarrow> RT_ALIGN sz = 0"
proof -
  assume "sz = 0 \<or> 0xFFFFFFFD \<le> sz"
  moreover have "unat sz < 4294967296" by (rule u32_bound)
  ultimately have "sz = 0 \<or> unat sz = 4294967293 \<or> unat sz = 4294967294 \<or> unat sz = 4294967295"
    by (auto simp: word_le_nat_alt simp del: u32_bound)
  then have "sz = 0 \<or> sz = 0xFFFFFFFD \<or> sz = 0xFFFFFFFE \<or> sz = 0xFFFFFFFF" by (simp add: word_unat_eq_iff)
  then show ?thesis by (elim disjE) (simp_all add: RT_ALIGN_def)
qed

text \<open>C35: Resizing a region that is live. For the size 0, and for the sizes from \<open>0xFFFFFFFD\<close> on, which the rounding wraps to 0, the region
  is released and the result is the null pointer; no byte changes. For every other size: when the null pointer is returned, nothing
  has changed; otherwise the region that is returned has at least the new size, begins with the old data up to the
  smaller of the two sizes, and replaces the old one; no byte of another live region changes. In all cases the heap is
  consistent.\<close>

theorem rt_realloc_keeps_data:
  assumes i: "smem_inv m" and live: "(rm, k) \<in> set (smem_live m)"
  shows "\<exists>r m'. rt_realloc m (Some rm) newsz = Some (r, m') \<and> smem_inv m' \<and>
    (if newsz = 0 \<or> 0xFFFFFFFD \<le> newsz
     then r = None \<and> set (smem_live m') = set (smem_live m) - {(rm, k)} \<and> bytes m' = bytes m
     else case r of
       None \<Rightarrow> m' = m
     | Some p \<Rightarrow> \<exists>j. unat newsz \<le> j \<and> set (smem_live m') = insert (p, j) (set (smem_live m) - {(rm, k)}) \<and>
         (\<forall>x < min k (unat newsz). bytes m' (p + x) = bytes m (rm + x)) \<and>
         (\<forall>(q, l) \<in> set (smem_live m) - {(rm, k)}. \<forall>x < l. bytes m' (q + x) = bytes m (q + x)))"
proof (cases "newsz = 0 \<or> 0xFFFFFFFD \<le> newsz")
  case True
  then have "RT_ALIGN newsz = 0" by (rule RT_ALIGN_wraps)
  moreover obtain m' where "rt_smem_free m (Some rm) = Some m'" "smem_inv m'" "bytes m' = bytes m"
    "set (smem_live m') = set (smem_live m) - {(rm, k)}"
    using smem_free_live [OF i live] by auto
  ultimately show ?thesis using True by (simp add: rt_realloc_def rt_smem_realloc_def Let_def)
next
  case False
  then have sz: "0 < newsz" "unat newsz + 3 < 2 ^ 32" by (auto simp: word_le_nat_alt word_neq_0_conv)
  define n where "n = unat (RT_ALIGN newsz)"
  have al: "n = (unat newsz + 3) div 4 * 4" using unat_RT_ALIGN [OF sz(2)] by (simp add: n_def)
  moreover have "0 < unat newsz" using sz(1) by (simp add: word_less_nat_alt)
  ultimately have n: "0 < n" "n mod 4 = 0" "unat newsz \<le> n" by simp_all
  have n32: "n + 3 < 2 ^ 32" if "n \<le> mem_size_aligned m"
  proof -
    obtain bs where "heap_abs m bs" using i by (auto simp: smem_inv_def)
    then show ?thesis using that by (simp add: heap_abs_def heap_blocks_def heap_end_def)
  qed
  note eq = rt_smem_realloc_eq [OF i live n_def n(1)]
  consider (huge) "n > mem_size_aligned m" | (same) "n \<le> mem_size_aligned m" "k = n"
    | (less) "n \<le> mem_size_aligned m" "n + 24 < k" | (move) "n \<le> mem_size_aligned m" "k \<noteq> n" "\<not> n + 24 < k"
    by linarith
  then have "\<exists>r m'. rt_realloc m (Some rm) newsz = Some (r, m') \<and> smem_inv m' \<and>
    (case r of
       None \<Rightarrow> m' = m
     | Some p \<Rightarrow> \<exists>j. unat newsz \<le> j \<and> set (smem_live m') = insert (p, j) (set (smem_live m) - {(rm, k)}) \<and>
         (\<forall>x < min k (unat newsz). bytes m' (p + x) = bytes m (rm + x)) \<and>
         (\<forall>(q, l) \<in> set (smem_live m) - {(rm, k)}. \<forall>x < l. bytes m' (q + x) = bytes m (q + x)))"
  proof cases
    case huge
    then show ?thesis using eq i by (simp add: rt_realloc_def)
  next
    case same
    then show ?thesis using eq i n(3) live by (auto simp: rt_realloc_def intro!: exI [of _ k])
  next
    case less
    obtain m' where m': "smem_shrink m (rm - 12) k n = Some m'" "smem_inv m'" "bytes m' = bytes m"
      "set (smem_live m') = insert (rm, n) (set (smem_live m) - {(rm, k)})"
      using smem_shrink_live [OF i live n(1,2) less(2)] by blast
    have "rt_realloc m (Some rm) newsz = Some (Some rm, m')" using eq less m'(1) by (simp add: rt_realloc_def)
    then show ?thesis using m' n(3) by (intro exI conjI) (assumption, assumption, auto)
  next
    case move
    obtain r m1 where r: "rt_smem_alloc m (RT_ALIGN newsz) = Some (r, m1)" "r = None \<longrightarrow> m1 = m"
      using smem_alloc_live [OF i, of "RT_ALIGN newsz"] by (auto split: option.splits)
    show ?thesis
    proof (cases r)
      case None
      then show ?thesis using eq move r i by (simp add: rt_realloc_def)
    next
      case (Some nm)
      then obtain j m' where m': "rt_smem_free (m1\<lparr>bytes := copy_bytes (bytes m1) nm rm (min k n)\<rparr>) (Some rm) = Some m'"
        "smem_inv m'" "n \<le> j" "set (smem_live m') = insert (nm, j) (set (smem_live m) - {(rm, k)})"
        "bytes m' = copy_bytes (bytes m) nm rm (min k n)"
        "\<forall>(q, l) \<in> set (smem_live m). q + l \<le> nm \<or> nm + j \<le> q"
        using smem_move_live [OF i live n_def [symmetric] n32 [OF move(1)], of nm m1] r(1) by blast
      have ret: "rt_realloc m (Some rm) newsz = Some (Some nm, m')" using eq move r(1) Some m'(1) by (simp add: rt_realloc_def)
      have "bytes m' (nm + x) = bytes m (rm + x)" if "x < min k (unat newsz)" for x
        using that n(3) by (simp add: m'(5) copy_bytes_def)
      moreover have "bytes m' (q + x) = bytes m (q + x)" if "(q, l) \<in> set (smem_live m)" "x < l" for q l x
        using m'(3,6) that by (fastforce simp: m'(5) copy_bytes_def)
      ultimately show ?thesis
        unfolding ret using m'(2,3,4) n(3) by (intro exI [of _ "Some nm"] exI [of _ m']) (auto intro!: exI [of _ j])
    qed
  qed
  then show ?thesis unfolding if_not_P [OF False] .
qed

theorem rt_realloc_keeps_data_witness:
  "\<exists>a m m1 k r m'. rt_smem_init 0x20001000 0x400 = Some (a, m) \<and> rt_malloc m 17 = Some (Some 12, m1) \<and>
    (12, k) \<in> set (smem_live m1) \<and> rt_realloc m1 (Some 12) 40 = Some (r, m') \<and> smem_inv m'"
proof -
  obtain a m where i: "rt_smem_init 0x20001000 0x400 = Some (a, m)" "mem_size_aligned m = 944"
    by (simp add: rt_smem_init_def RT_ALIGN_def RT_ALIGN_DOWN_def SIZEOF_SMALL_MEM_def Let_def)
  have a: "heap_abs m [(956, False)]" using rt_smem_init_abs(1) [OF _ _ i(1)] i(2) by simp
  then have inv: "smem_inv m" by (auto simp: smem_inv_def)
  obtain m1 where m1: "rt_malloc m 17 = Some (Some 12, m1)"
    using rt_smem_alloc_ok [OF a, of 17] by (auto simp: rt_malloc_def request_def RT_ALIGN_def)
  then obtain k where k: "smem_inv m1" "(12, k) \<in> set (smem_live m1)"
    using smem_alloc_live [OF inv, of 17] by (auto simp: rt_malloc_def)
  from rt_realloc_keeps_data [OF k, of 40] obtain r m' where "rt_realloc m1 (Some 12) 40 = Some (r, m')" "smem_inv m'" by blast
  then show ?thesis using i(1) m1 k(2) by blast
qed

end
