(* ===== verification/Kernel.thy ===== *)
theory Kernel
  imports Prelude
begin

text \<open>
  The threads, the scheduler and the timers of the RT-Thread kernel as it is configured here: one processor, 32
  priorities, a skip list of one level, soft timers (\<open>rt-thread/src/scheduler.c\<close>, \<open>thread.c\<close>, \<open>timer.c\<close>,
  \<open>clock.c\<close>, \<open>idle.c\<close>, \<open>irq.c\<close>, and \<open>__rt_ffs\<close> of \<open>kservice.c\<close>). The state is a record that the IPC objects extend.
  The code between disabling and enabling the interrupts is atomic, and no interrupt is modelled between two such
  parts of one call, so a call is a function of the state up to its call of the scheduler; what follows that call in the calling thread, once it runs again, is a function of
  its own. A node of an intrusive list is the name of the list it is in (\<open>tlist\<close>, \<open>row\<close>); linking or
  initialising a node that is linked already, which would corrupt the lists, leaves the model with \<open>None\<close>. The
  object registry, the stacks and the hooks are left out. The function of an application's timer is recorded in \<open>fired\<close>.
\<close>

subsection \<open>State\<close>

type_synonym tid = nat

datatype thread_stat = RT_THREAD_INIT | RT_THREAD_READY | RT_THREAD_SUSPEND | RT_THREAD_RUNNING | RT_THREAD_CLOSE

datatype list_id = Ready nat | Sem nat | Mutex nat | Event nat | Mb_recv nat | Mb_send nat | Mq_recv nat | Mq_send nat | Defunct

datatype timer_id = Thread_Timer tid | App_Timer nat

datatype timer_list_id = Hard | Soft | Hard_Check | Soft_Check

record rt_timer =
  row :: "timer_list_id option"
  timer_init_tick :: u32
  timeout_tick :: u32
  activated :: bool
  periodic :: bool
  soft_timer :: bool

record rt_thread =
  tlist :: "list_id option"
  error :: int
  stat :: thread_stat
  stat_yield :: bool
  current_priority :: u8
  number_mask :: u32
  event_set :: u32
  event_info :: u8
  init_tick :: u32
  remaining_tick :: u32

record kernel =
  rt_tick :: u32
  threads :: "tid \<Rightarrow> rt_thread"
  thread_lists :: "list_id \<Rightarrow> tid list"
  rt_thread_ready_priority_group :: u32
  rt_current_thread :: "tid option"
  rt_current_priority :: u8
  rt_scheduler_lock_nest :: u16
  rt_interrupt_nest :: u8
  timers :: "timer_id \<Rightarrow> rt_timer"
  timer_lists :: "timer_list_id \<Rightarrow> timer_id list"
  soft_timer_busy :: bool
  fired :: "(nat \<times> u32) list"

definition RT_EOK :: int where "RT_EOK = 0"
definition RT_ERROR :: int where "RT_ERROR = 1"
definition RT_ETIMEOUT :: int where "RT_ETIMEOUT = 2"
definition RT_EFULL :: int where "RT_EFULL = 3"
definition RT_EINVAL :: int where "RT_EINVAL = 10"
definition RT_THREAD_PRIORITY_MAX :: nat where "RT_THREAD_PRIORITY_MAX = 32"
definition RT_TICK_MAX :: u32 where "RT_TICK_MAX = 0xFFFFFFFF"
definition TICK_HALF :: u32 where "TICK_HALF = RT_TICK_MAX div 2"

text \<open>The threads the kernel starts itself.\<close>

definition idle :: tid where "idle = 0"
definition timer_thread :: tid where "timer_thread = 1"
definition main_thread :: tid where "main_thread = 2"

definition upd_thread :: "tid \<Rightarrow> (rt_thread \<Rightarrow> rt_thread) \<Rightarrow> 'a kernel_scheme \<Rightarrow> 'a kernel_scheme" where
  "upd_thread t f s = s\<lparr>threads := (threads s)(t := f (threads s t))\<rparr>"

definition upd_timer :: "timer_id \<Rightarrow> (rt_timer \<Rightarrow> rt_timer) \<Rightarrow> 'a kernel_scheme \<Rightarrow> 'a kernel_scheme" where
  "upd_timer i f s = s\<lparr>timers := (timers s)(i := f (timers s i))\<rparr>"

subsection \<open>Thread lists\<close>

definition rt_list_remove :: "tid \<Rightarrow> 'a kernel_scheme \<Rightarrow> 'a kernel_scheme" where
  "rt_list_remove t s =
     (case tlist (threads s t) of
        None \<Rightarrow> s
      | Some l \<Rightarrow> upd_thread t (\<lambda>th. th\<lparr>tlist := None\<rparr>)
          (s\<lparr>thread_lists := (thread_lists s)(l := remove1 t (thread_lists s l))\<rparr>))"

text \<open>The list \<open>l\<close> becomes \<open>ts\<close>, which has \<open>t\<close> as its new element.\<close>

definition link_thread :: "list_id \<Rightarrow> tid \<Rightarrow> tid list \<Rightarrow> 'a kernel_scheme \<Rightarrow> 'a kernel_scheme option" where
  "link_thread l t ts s =
     (if tlist (threads s t) = None
      then Some (upd_thread t (\<lambda>th. th\<lparr>tlist := Some l\<rparr>) (s\<lparr>thread_lists := (thread_lists s)(l := ts)\<rparr>))
      else None)"

definition rt_list_insert_after :: "list_id \<Rightarrow> tid \<Rightarrow> 'a kernel_scheme \<Rightarrow> 'a kernel_scheme option" where
  "rt_list_insert_after l t s = link_thread l t (t # thread_lists s l) s"

definition rt_list_insert_before :: "list_id \<Rightarrow> tid \<Rightarrow> 'a kernel_scheme \<Rightarrow> 'a kernel_scheme option" where
  "rt_list_insert_before l t s = link_thread l t (thread_lists s l @ [t]) s"

subsection \<open>The lowest bit that is set\<close>

definition lowest_bit_bitmap :: "nat list" where
  "lowest_bit_bitmap =
    [0, 0, 1, 0, 2, 0, 1, 0, 3, 0, 1, 0, 2, 0, 1, 0,
     4, 0, 1, 0, 2, 0, 1, 0, 3, 0, 1, 0, 2, 0, 1, 0,
     5, 0, 1, 0, 2, 0, 1, 0, 3, 0, 1, 0, 2, 0, 1, 0,
     4, 0, 1, 0, 2, 0, 1, 0, 3, 0, 1, 0, 2, 0, 1, 0,
     6, 0, 1, 0, 2, 0, 1, 0, 3, 0, 1, 0, 2, 0, 1, 0,
     4, 0, 1, 0, 2, 0, 1, 0, 3, 0, 1, 0, 2, 0, 1, 0,
     5, 0, 1, 0, 2, 0, 1, 0, 3, 0, 1, 0, 2, 0, 1, 0,
     4, 0, 1, 0, 2, 0, 1, 0, 3, 0, 1, 0, 2, 0, 1, 0,
     7, 0, 1, 0, 2, 0, 1, 0, 3, 0, 1, 0, 2, 0, 1, 0,
     4, 0, 1, 0, 2, 0, 1, 0, 3, 0, 1, 0, 2, 0, 1, 0,
     5, 0, 1, 0, 2, 0, 1, 0, 3, 0, 1, 0, 2, 0, 1, 0,
     4, 0, 1, 0, 2, 0, 1, 0, 3, 0, 1, 0, 2, 0, 1, 0,
     6, 0, 1, 0, 2, 0, 1, 0, 3, 0, 1, 0, 2, 0, 1, 0,
     4, 0, 1, 0, 2, 0, 1, 0, 3, 0, 1, 0, 2, 0, 1, 0,
     5, 0, 1, 0, 2, 0, 1, 0, 3, 0, 1, 0, 2, 0, 1, 0,
     4, 0, 1, 0, 2, 0, 1, 0, 3, 0, 1, 0, 2, 0, 1, 0]"

definition rt_ffs :: "u32 \<Rightarrow> nat option" where
  "rt_ffs v =
     (if v = 0 then Some 0
      else if v AND 0xff \<noteq> 0 then do { x \<leftarrow> rd lowest_bit_bitmap (unat (v AND 0xff)); Some (x + 1) }
      else if v AND 0xff00 \<noteq> 0 then do { x \<leftarrow> rd lowest_bit_bitmap (unat (drop_bit 8 (v AND 0xff00))); Some (x + 9) }
      else if v AND 0xff0000 \<noteq> 0 then do { x \<leftarrow> rd lowest_bit_bitmap (unat (drop_bit 16 (v AND 0xff0000))); Some (x + 17) }
      else do { x \<leftarrow> rd lowest_bit_bitmap (unat (drop_bit 24 (v AND 0xff000000))); Some (x + 25) })"

subsection \<open>The scheduler\<close>

text \<open>The ready list of a thread's priority; there is none from 32 on.\<close>

definition ready_list :: "tid \<Rightarrow> 'a kernel_scheme \<Rightarrow> list_id option" where
  "ready_list t s =
     (let p = unat (current_priority (threads s t)) in if p < RT_THREAD_PRIORITY_MAX then Some (Ready p) else None)"

definition highest_priority_thread :: "'a kernel_scheme \<Rightarrow> (tid \<times> nat) option" where
  "highest_priority_thread s =
     do { n \<leftarrow> rt_ffs (rt_thread_ready_priority_group s);
          case n of
            0 \<Rightarrow> None
          | Suc p \<Rightarrow> (case thread_lists s (Ready p) of [] \<Rightarrow> None | t # _ \<Rightarrow> Some (t, p)) }"

definition rt_schedule_insert_thread :: "tid \<Rightarrow> 'a kernel_scheme \<Rightarrow> 'a kernel_scheme option" where
  "rt_schedule_insert_thread t s =
     (if rt_current_thread s = Some t then Some (upd_thread t (\<lambda>th. th\<lparr>stat := RT_THREAD_RUNNING\<rparr>) s)
      else
        do { let s = upd_thread t (\<lambda>th. th\<lparr>stat := RT_THREAD_READY\<rparr>) s;
             l \<leftarrow> ready_list t s;
             s \<leftarrow> (if stat_yield (threads s t) then rt_list_insert_before l t s else rt_list_insert_after l t s);
             Some (s\<lparr>rt_thread_ready_priority_group :=
               rt_thread_ready_priority_group s OR number_mask (threads s t)\<rparr>) })"

definition rt_schedule_remove_thread :: "tid \<Rightarrow> 'a kernel_scheme \<Rightarrow> 'a kernel_scheme option" where
  "rt_schedule_remove_thread t s =
     (let s = rt_list_remove t s in
      do { l \<leftarrow> ready_list t s;
           Some (if thread_lists s l = []
                 then s\<lparr>rt_thread_ready_priority_group :=
                   rt_thread_ready_priority_group s AND NOT (number_mask (threads s t))\<rparr>
                 else s) })"

text \<open>
  The highest ready thread is chosen, or the current one when it runs and keeps the processor. The switch of
  the contexts is the change of \<open>rt_current_thread\<close>; in an interrupt it takes effect when that ends.
\<close>

definition rt_schedule :: "'a kernel_scheme \<Rightarrow> 'a kernel_scheme option" where
  "rt_schedule s =
     (if rt_scheduler_lock_nest s \<noteq> 0 \<or> rt_thread_ready_priority_group s = 0 then Some s
      else
        do { (to_thread, hp) \<leftarrow> highest_priority_thread s;
             cur \<leftarrow> rt_current_thread s;
             let running = (stat (threads s cur) = RT_THREAD_RUNNING);
             let prio = unat (current_priority (threads s cur));
             let keep = (running \<and> (prio < hp \<or> prio = hp \<and> \<not> stat_yield (threads s cur)));
             let s = (if running then upd_thread cur (\<lambda>th. th\<lparr>stat_yield := False\<rparr>) s else s);
             if \<not> keep \<and> to_thread \<noteq> cur
             then do {
               let s = s\<lparr>rt_current_priority := of_nat hp, rt_current_thread := Some to_thread\<rparr>;
               s \<leftarrow> (if running then rt_schedule_insert_thread cur s else Some s);
               s \<leftarrow> rt_schedule_remove_thread to_thread s;
               Some (upd_thread to_thread (\<lambda>th. th\<lparr>stat := RT_THREAD_RUNNING\<rparr>) s) }
             else do {
               s \<leftarrow> rt_schedule_remove_thread cur s;
               Some (upd_thread cur (\<lambda>th. th\<lparr>stat := RT_THREAD_RUNNING\<rparr>) s) } })"

definition rt_system_scheduler_init :: "'a kernel_scheme \<Rightarrow> 'a kernel_scheme" where
  "rt_system_scheduler_init s =
     s\<lparr>rt_scheduler_lock_nest := 0, rt_thread_ready_priority_group := 0,
       thread_lists := (\<lambda>l. case l of Ready p \<Rightarrow> (if p < RT_THREAD_PRIORITY_MAX then [] else thread_lists s l) | _ \<Rightarrow> thread_lists s l)\<rparr>"

definition rt_system_scheduler_start :: "'a kernel_scheme \<Rightarrow> 'a kernel_scheme option" where
  "rt_system_scheduler_start s =
     do { (to_thread, hp) \<leftarrow> highest_priority_thread s;
          let s = s\<lparr>rt_current_thread := Some to_thread\<rparr>;
          s \<leftarrow> rt_schedule_remove_thread to_thread s;
          Some (upd_thread to_thread (\<lambda>th. th\<lparr>stat := RT_THREAD_RUNNING, stat_yield := False\<rparr>) s) }"

definition rt_enter_critical :: "'a kernel_scheme \<Rightarrow> 'a kernel_scheme" where
  "rt_enter_critical s = s\<lparr>rt_scheduler_lock_nest := rt_scheduler_lock_nest s + 1\<rparr>"

definition rt_exit_critical :: "'a kernel_scheme \<Rightarrow> 'a kernel_scheme option" where
  "rt_exit_critical s =
     (let s = s\<lparr>rt_scheduler_lock_nest := rt_scheduler_lock_nest s - 1\<rparr> in
      if sint (rt_scheduler_lock_nest s) \<le> 0
      then (let s = s\<lparr>rt_scheduler_lock_nest := 0\<rparr> in if rt_current_thread s \<noteq> None then rt_schedule s else Some s)
      else Some s)"

definition rt_critical_level :: "'a kernel_scheme \<Rightarrow> u16" where
  "rt_critical_level s = rt_scheduler_lock_nest s"

definition rt_interrupt_enter :: "'a kernel_scheme \<Rightarrow> 'a kernel_scheme" where
  "rt_interrupt_enter s = s\<lparr>rt_interrupt_nest := rt_interrupt_nest s + 1\<rparr>"

definition rt_interrupt_leave :: "'a kernel_scheme \<Rightarrow> 'a kernel_scheme" where
  "rt_interrupt_leave s = s\<lparr>rt_interrupt_nest := rt_interrupt_nest s - 1\<rparr>"

subsection \<open>Timers\<close>

definition timer_remove :: "timer_id \<Rightarrow> 'a kernel_scheme \<Rightarrow> 'a kernel_scheme" where
  "timer_remove i s =
     (case row (timers s i) of
        None \<Rightarrow> s
      | Some l \<Rightarrow> upd_timer i (\<lambda>t. t\<lparr>row := None\<rparr>)
          (s\<lparr>timer_lists := (timer_lists s)(l := remove1 i (timer_lists s l))\<rparr>))"

definition link_timer :: "timer_list_id \<Rightarrow> timer_id \<Rightarrow> timer_id list \<Rightarrow> 'a kernel_scheme \<Rightarrow> 'a kernel_scheme option" where
  "link_timer l i is s =
     (if row (timers s i) = None
      then Some (upd_timer i (\<lambda>t. t\<lparr>row := Some l\<rparr>) (s\<lparr>timer_lists := (timer_lists s)(l := is)\<rparr>))
      else None)"

definition rt_timer_init :: "timer_id \<Rightarrow> u32 \<Rightarrow> bool \<Rightarrow> bool \<Rightarrow> 'a kernel_scheme \<Rightarrow> 'a kernel_scheme option" where
  "rt_timer_init i time per soft s =
     do { rt_assert (time < TICK_HALF);
          if row (timers s i) \<noteq> None then None else
          Some (upd_timer i (\<lambda>_. \<lparr>row = None, timer_init_tick = time, timeout_tick = 0, activated = False,
            periodic = per, soft_timer = soft\<rparr>) s) }"

definition rt_timer_detach :: "timer_id \<Rightarrow> 'a kernel_scheme \<Rightarrow> 'a kernel_scheme" where
  "rt_timer_detach i s = upd_timer i (\<lambda>t. t\<lparr>activated := False\<rparr>) (timer_remove i s)"

definition rt_timer_stop :: "timer_id \<Rightarrow> 'a kernel_scheme \<Rightarrow> int \<times> 'a kernel_scheme" where
  "rt_timer_stop i s =
     (if \<not> activated (timers s i) then (- RT_ERROR, s)
      else (RT_EOK, upd_timer i (\<lambda>t. t\<lparr>activated := False\<rparr>) (timer_remove i s)))"

text \<open>The place in the list: behind the timers that are due earlier or at the same tick.\<close>

fun timer_place :: "(timer_id \<Rightarrow> rt_timer) \<Rightarrow> timer_id \<Rightarrow> timer_id list \<Rightarrow> timer_id list" where
  "timer_place ts i [] = [i]"
| "timer_place ts i (t # rest) =
     (if timeout_tick (ts t) - timeout_tick (ts i) = 0 then t # timer_place ts i rest
      else if timeout_tick (ts t) - timeout_tick (ts i) < TICK_HALF then i # t # rest
      else t # timer_place ts i rest)"

datatype timer_cmd = Get_Time | Set_Time u32 | Set_Oneshot | Set_Periodic | Get_State | Get_Remain_Time

text \<open>The value a command reads, when it reads one, and the new state.\<close>

definition rt_timer_control :: "timer_id \<Rightarrow> timer_cmd \<Rightarrow> 'a kernel_scheme \<Rightarrow> (u32 option \<times> 'a kernel_scheme) option" where
  "rt_timer_control i cmd s =
     (case cmd of
        Get_Time \<Rightarrow> Some (Some (timer_init_tick (timers s i)), s)
      | Set_Time v \<Rightarrow> do { rt_assert (v < TICK_HALF); Some (None, upd_timer i (\<lambda>t. t\<lparr>timer_init_tick := v\<rparr>) s) }
      | Set_Oneshot \<Rightarrow> Some (None, upd_timer i (\<lambda>t. t\<lparr>periodic := False\<rparr>) s)
      | Set_Periodic \<Rightarrow> Some (None, upd_timer i (\<lambda>t. t\<lparr>periodic := True\<rparr>) s)
      | Get_State \<Rightarrow> Some (Some (if activated (timers s i) then 1 else 0), s)
      | Get_Remain_Time \<Rightarrow> Some (Some (timeout_tick (timers s i)), s))"

definition timer_list_next_timeout :: "timer_list_id \<Rightarrow> 'a kernel_scheme \<Rightarrow> u32 option" where
  "timer_list_next_timeout l s =
     (case timer_lists s l of [] \<Rightarrow> None | i # _ \<Rightarrow> Some (timeout_tick (timers s i)))"

definition rt_timer_next_timeout_tick :: "'a kernel_scheme \<Rightarrow> u32" where
  "rt_timer_next_timeout_tick s =
     (case timer_list_next_timeout Hard s of None \<Rightarrow> RT_TICK_MAX | Some v \<Rightarrow> v)"

subsection \<open>Suspending and resuming\<close>

definition rt_thread_resume :: "tid \<Rightarrow> 'a kernel_scheme \<Rightarrow> (int \<times> 'a kernel_scheme) option" where
  "rt_thread_resume t s =
     (if stat (threads s t) \<noteq> RT_THREAD_SUSPEND then Some (- RT_ERROR, s)
      else
        do { let s = rt_list_remove t s;
             let s = snd (rt_timer_stop (Thread_Timer t) s);
             s \<leftarrow> rt_schedule_insert_thread t s;
             Some (RT_EOK, s) })"

definition rt_thread_suspend :: "tid \<Rightarrow> 'a kernel_scheme \<Rightarrow> (int \<times> 'a kernel_scheme) option" where
  "rt_thread_suspend t s =
     do { rt_assert (rt_current_thread s = Some t);
          if stat (threads s t) \<noteq> RT_THREAD_READY \<and> stat (threads s t) \<noteq> RT_THREAD_RUNNING then Some (- RT_ERROR, s)
          else do {
            s \<leftarrow> rt_schedule_remove_thread t s;
            let s = upd_thread t (\<lambda>th. th\<lparr>stat := RT_THREAD_SUSPEND\<rparr>) s;
            Some (RT_EOK, snd (rt_timer_stop (Thread_Timer t) s)) } }"

definition rt_timer_start :: "timer_id \<Rightarrow> 'a kernel_scheme \<Rightarrow> 'a kernel_scheme option" where
  "rt_timer_start i s =
     do { let s = timer_remove i s;
          let s = upd_timer i (\<lambda>t. t\<lparr>activated := False, timeout_tick := rt_tick s + timer_init_tick t\<rparr>) s;
          let l = (if soft_timer (timers s i) then Soft else Hard);
          s \<leftarrow> link_timer l i (timer_place (timers s) i (timer_lists s l)) s;
          let s = upd_timer i (\<lambda>t. t\<lparr>activated := True\<rparr>) s;
          if soft_timer (timers s i) \<and> \<not> soft_timer_busy s \<and> stat (threads s timer_thread) = RT_THREAD_SUSPEND
          then do { (_, s) \<leftarrow> rt_thread_resume timer_thread s; rt_schedule s }
          else Some s }"

text \<open>A thread's own timer ends its waiting.\<close>

definition thread_timeout :: "tid \<Rightarrow> 'a kernel_scheme \<Rightarrow> 'a kernel_scheme option" where
  "thread_timeout t s =
     do { rt_assert (stat (threads s t) = RT_THREAD_SUSPEND);
          let s = upd_thread t (\<lambda>th. th\<lparr>error := - RT_ETIMEOUT\<rparr>) s;
          let s = rt_list_remove t s;
          s \<leftarrow> rt_schedule_insert_thread t s;
          rt_schedule s }"

definition timeout_func :: "timer_id \<Rightarrow> 'a kernel_scheme \<Rightarrow> 'a kernel_scheme option" where
  "timeout_func i s =
     (case i of Thread_Timer t \<Rightarrow> thread_timeout t s | App_Timer n \<Rightarrow> Some (s\<lparr>fired := fired s @ [(n, rt_tick s)]\<rparr>))"

text \<open>A timer that is due: what the checks of the two lists do with it.\<close>

definition timer_expire :: "timer_list_id \<Rightarrow> timer_id \<Rightarrow> 'a kernel_scheme \<Rightarrow> 'a kernel_scheme option" where
  "timer_expire tmp i s =
     do { let s = timer_remove i s;
          let s = (if periodic (timers s i) then s else upd_timer i (\<lambda>t. t\<lparr>activated := False\<rparr>) s);
          s \<leftarrow> link_timer tmp i (i # timer_lists s tmp) s;
          let s = (if tmp = Soft_Check then s\<lparr>soft_timer_busy := True\<rparr> else s);
          s \<leftarrow> timeout_func i s;
          let s = (if tmp = Soft_Check then s\<lparr>soft_timer_busy := False\<rparr> else s);
          if timer_lists s tmp = [] then Some s
          else do {
            let s = timer_remove i s;
            if periodic (timers s i) \<and> activated (timers s i)
            then rt_timer_start i (upd_timer i (\<lambda>t. t\<lparr>activated := False\<rparr>) s)
            else Some s } }"

partial_function (option) rt_timer_check :: "'a kernel_scheme \<Rightarrow> 'a kernel_scheme option" where
  "rt_timer_check s =
     (case timer_lists s Hard of
        [] \<Rightarrow> Some s
      | i # _ \<Rightarrow>
          if rt_tick s - timeout_tick (timers s i) < TICK_HALF
          then do { s \<leftarrow> timer_expire Hard_Check i s; rt_timer_check s }
          else Some s)"

partial_function (option) rt_soft_timer_check :: "'a kernel_scheme \<Rightarrow> 'a kernel_scheme option" where
  "rt_soft_timer_check s =
     (case timer_lists s Soft of
        [] \<Rightarrow> Some s
      | i # _ \<Rightarrow>
          if rt_tick s - timeout_tick (timers s i) < TICK_HALF
          then do { s \<leftarrow> timer_expire Soft_Check i s; rt_soft_timer_check s }
          else Some s)"

definition rt_tick_set :: "u32 \<Rightarrow> 'a kernel_scheme \<Rightarrow> 'a kernel_scheme" where
  "rt_tick_set v s = s\<lparr>rt_tick := v\<rparr>"

definition rt_tick_increase :: "'a kernel_scheme \<Rightarrow> 'a kernel_scheme option" where
  "rt_tick_increase s =
     do { let s = s\<lparr>rt_tick := rt_tick s + 1\<rparr>;
          t \<leftarrow> rt_current_thread s;
          let s = upd_thread t (\<lambda>th. th\<lparr>remaining_tick := remaining_tick th - 1\<rparr>) s;
          s \<leftarrow> (if remaining_tick (threads s t) = 0
                then rt_schedule (upd_thread t (\<lambda>th. th\<lparr>remaining_tick := init_tick th, stat_yield := True\<rparr>) s)
                else Some s);
          rt_timer_check s }"

definition rt_thread_yield :: "'a kernel_scheme \<Rightarrow> 'a kernel_scheme option" where
  "rt_thread_yield s =
     do { t \<leftarrow> rt_current_thread s;
          rt_schedule (upd_thread t (\<lambda>th. th\<lparr>remaining_tick := init_tick th, stat_yield := True\<rparr>) s) }"

text \<open>The thread's timer is set and started, and the processor is given away.\<close>

definition start_thread_timer :: "tid \<Rightarrow> u32 \<Rightarrow> 'a kernel_scheme \<Rightarrow> 'a kernel_scheme option" where
  "start_thread_timer t v s =
     do { (_, s) \<leftarrow> rt_timer_control (Thread_Timer t) (Set_Time v) s;
          rt_timer_start (Thread_Timer t) s }"

definition rt_thread_sleep :: "u32 \<Rightarrow> 'a kernel_scheme \<Rightarrow> 'a kernel_scheme option" where
  "rt_thread_sleep tick s =
     do { t \<leftarrow> rt_current_thread s;
          let s = upd_thread t (\<lambda>th. th\<lparr>error := RT_EOK\<rparr>) s;
          (_, s) \<leftarrow> rt_thread_suspend t s;
          s \<leftarrow> start_thread_timer t tick s;
          rt_schedule s }"

text \<open>What the sleeping thread \<open>t\<close> does when it runs again: the time that is over is not an error.\<close>

definition rt_thread_sleep_end :: "tid \<Rightarrow> 'a kernel_scheme \<Rightarrow> int \<times> 'a kernel_scheme" where
  "rt_thread_sleep_end t s =
     (let s = (if error (threads s t) = - RT_ETIMEOUT then upd_thread t (\<lambda>th. th\<lparr>error := RT_EOK\<rparr>) s else s)
      in (error (threads s t), s))"

definition rt_thread_delay :: "u32 \<Rightarrow> 'a kernel_scheme \<Rightarrow> 'a kernel_scheme option" where
  "rt_thread_delay tick s = rt_thread_sleep tick s"

text \<open>The new value of the variable \<open>tick\<close> points to, whether the thread sleeps, and the state.\<close>

definition rt_thread_delay_until :: "u32 \<Rightarrow> u32 \<Rightarrow> 'a kernel_scheme \<Rightarrow> (u32 \<times> bool \<times> 'a kernel_scheme) option" where
  "rt_thread_delay_until tick inc_tick s =
     do { t \<leftarrow> rt_current_thread s;
          let s = upd_thread t (\<lambda>th. th\<lparr>error := RT_EOK\<rparr>) s;
          let cur_tick = rt_tick s;
          if cur_tick - tick < inc_tick
          then do {
            let tick = tick + inc_tick;
            (_, s) \<leftarrow> rt_thread_suspend t s;
            s \<leftarrow> start_thread_timer t (tick - cur_tick) s;
            s \<leftarrow> rt_schedule s;
            Some (tick, True, s) }
          else Some (cur_tick, False, s) }"

definition thread_init :: "tid \<Rightarrow> u8 \<Rightarrow> u32 \<Rightarrow> 'a kernel_scheme \<Rightarrow> 'a kernel_scheme option" where
  "thread_init t priority tick s =
     do { rt_assert (unat priority < RT_THREAD_PRIORITY_MAX);
          if tlist (threads s t) \<noteq> None then None else
          rt_timer_init (Thread_Timer t) 0 False False
            (upd_thread t (\<lambda>_. \<lparr>tlist = None, error = RT_EOK, stat = RT_THREAD_INIT, stat_yield = False,
               current_priority = priority, number_mask = 0, event_set = 0, event_info = 0,
               init_tick = tick, remaining_tick = tick\<rparr>) s) }"

text \<open>\<open>1 << priority\<close>, for a 32-bit value.\<close>

definition set_priority :: "tid \<Rightarrow> u8 \<Rightarrow> 'a kernel_scheme \<Rightarrow> 'a kernel_scheme option" where
  "set_priority t p s =
     (if unat p < 32 then Some (upd_thread t (\<lambda>th. th\<lparr>current_priority := p, number_mask := push_bit (unat p) 1\<rparr>) s) else None)"

definition rt_thread_startup :: "tid \<Rightarrow> 'a kernel_scheme \<Rightarrow> 'a kernel_scheme option" where
  "rt_thread_startup t s =
     do { rt_assert (stat (threads s t) = RT_THREAD_INIT);
          s \<leftarrow> set_priority t (current_priority (threads s t)) s;
          let s = upd_thread t (\<lambda>th. th\<lparr>stat := RT_THREAD_SUSPEND, stat_yield := False\<rparr>) s;
          (_, s) \<leftarrow> rt_thread_resume t s;
          if rt_current_thread s \<noteq> None then rt_schedule s else Some s }"

definition rt_thread_defunct_enqueue :: "tid \<Rightarrow> 'a kernel_scheme \<Rightarrow> 'a kernel_scheme option" where
  "rt_thread_defunct_enqueue t s = rt_list_insert_after Defunct t s"

definition rt_thread_defunct_dequeue :: "'a kernel_scheme \<Rightarrow> tid option \<times> 'a kernel_scheme" where
  "rt_thread_defunct_dequeue s =
     (case thread_lists s Defunct of [] \<Rightarrow> (None, s) | t # _ \<Rightarrow> (Some t, rt_list_remove t s))"

text \<open>
  \<open>rt_thread_detach\<close> and \<open>rt_thread_delete\<close>, which differ in the object's kind only. They have two atomic parts: the thread is
  taken out of its list with the interrupts disabled by \<open>rt_schedule_remove_thread\<close>, and the rest is done after they
  are disabled again. A call runs both without an interrupt between them; what one there can do is
  \<open>rt_thread_detach_window\<close>.
\<close>

definition detach_unready :: "tid \<Rightarrow> 'a kernel_scheme \<Rightarrow> 'a kernel_scheme option" where
  "detach_unready t s = (if stat (threads s t) \<noteq> RT_THREAD_INIT then rt_schedule_remove_thread t s else Some s)"

definition detach_close :: "tid \<Rightarrow> 'a kernel_scheme \<Rightarrow> 'a kernel_scheme option" where
  "detach_close t s =
     (let s = rt_timer_detach (Thread_Timer t) s;
          s = upd_thread t (\<lambda>th. th\<lparr>stat := RT_THREAD_CLOSE, stat_yield := False\<rparr>) s
      in rt_thread_defunct_enqueue t s)"

definition rt_thread_detach :: "tid \<Rightarrow> 'a kernel_scheme \<Rightarrow> 'a kernel_scheme option" where
  "rt_thread_detach t s =
     (if stat (threads s t) = RT_THREAD_CLOSE then Some s
      else do { s \<leftarrow> detach_unready t s; detach_close t s })"

definition thread_exit :: "'a kernel_scheme \<Rightarrow> 'a kernel_scheme option" where
  "thread_exit s =
     do { t \<leftarrow> rt_current_thread s;
          s \<leftarrow> rt_schedule_remove_thread t s;
          let s = rt_timer_detach (Thread_Timer t) s;
          let s = upd_thread t (\<lambda>th. th\<lparr>stat := RT_THREAD_CLOSE, stat_yield := False\<rparr>) s;
          s \<leftarrow> rt_thread_defunct_enqueue t s;
          rt_schedule s }"

datatype thread_cmd = Change_Priority u8 | Startup | Close

definition rt_thread_control :: "tid \<Rightarrow> thread_cmd \<Rightarrow> 'a kernel_scheme \<Rightarrow> 'a kernel_scheme option" where
  "rt_thread_control t cmd s =
     (case cmd of
        Change_Priority p \<Rightarrow>
          if stat (threads s t) = RT_THREAD_READY
          then do {
            s \<leftarrow> rt_schedule_remove_thread t s;
            s \<leftarrow> set_priority t p s;
            rt_schedule_insert_thread t s }
          else set_priority t p s
      | Startup \<Rightarrow> rt_thread_startup t s
      | Close \<Rightarrow> do { s \<leftarrow> rt_thread_detach t s; rt_schedule s })"

text \<open>
  The loop of the timer thread: it waits for the next soft timer, or for one to be started, and then checks the list.
\<close>

definition timer_thread_wait :: "'a kernel_scheme \<Rightarrow> 'a kernel_scheme option" where
  "timer_thread_wait s =
     (case timer_list_next_timeout Soft s of
        None \<Rightarrow> do { t \<leftarrow> rt_current_thread s; (_, s) \<leftarrow> rt_thread_suspend t s; rt_schedule s }
      | Some next_timeout \<Rightarrow>
          if next_timeout - rt_tick s < TICK_HALF then rt_thread_delay (next_timeout - rt_tick s) s else Some s)"

subsection \<open>Start-up\<close>

definition rt_system_timer_init :: "'a kernel_scheme \<Rightarrow> 'a kernel_scheme" where
  "rt_system_timer_init s = s\<lparr>timer_lists := (timer_lists s)(Hard := [])\<rparr>"

definition rt_application_init :: "'a kernel_scheme \<Rightarrow> 'a kernel_scheme option" where
  "rt_application_init s = do { s \<leftarrow> thread_init main_thread 5 20 s; rt_thread_startup main_thread s }"

definition rt_system_timer_thread_init :: "'a kernel_scheme \<Rightarrow> 'a kernel_scheme option" where
  "rt_system_timer_thread_init s =
     do { s \<leftarrow> thread_init timer_thread 4 10 (s\<lparr>timer_lists := (timer_lists s)(Soft := [])\<rparr>);
          rt_thread_startup timer_thread s }"

definition rt_thread_idle_init :: "'a kernel_scheme \<Rightarrow> 'a kernel_scheme option" where
  "rt_thread_idle_init s =
     do { s \<leftarrow> thread_init idle (of_nat (RT_THREAD_PRIORITY_MAX - 1)) 32 s; rt_thread_startup idle s }"

definition rtthread_startup :: "'a kernel_scheme \<Rightarrow> 'a kernel_scheme option" where
  "rtthread_startup s =
     do { let s = rt_system_timer_init s;
          let s = rt_system_scheduler_init s;
          s \<leftarrow> rt_application_init s;
          s \<leftarrow> rt_system_timer_thread_init s;
          s \<leftarrow> rt_thread_idle_init s;
          rt_system_scheduler_start s }"

end
