(* ===== verification/Sched.thy ===== *)
theory Sched
  imports Kernel
begin

text \<open>
  The scheduler (\<open>rt-thread/src/scheduler.c\<close>): the invariant of the thread lists and the ready group, its
  preservation by every operation, and the choice of the thread that runs.
\<close>

subsection \<open>The lowest bit\<close>

fun bitmap_from :: "nat \<Rightarrow> nat list \<Rightarrow> bool" where
  "bitmap_from b [] = True"
| "bitmap_from b (k # ks) = (k < 8 \<and> b mod 2 ^ k = 0 \<and> odd (b div 2 ^ k) \<and> bitmap_from (b + 1) ks)"

lemma bitmap_from_nth:
  "bitmap_from b ks \<Longrightarrow> i < length ks \<Longrightarrow> ks ! i < 8 \<and> (b + i) mod 2 ^ (ks ! i) = 0 \<and> odd ((b + i) div 2 ^ (ks ! i))"
proof (induction b ks arbitrary: i rule: bitmap_from.induct)
  case (2 b k ks)
  then show ?case by (cases i) auto
qed simp

lemma lowest_bit_bitmap_ok: "bitmap_from 1 (tl lowest_bit_bitmap)"
  by (simp add: lowest_bit_bitmap_def)

lemma lowest_bit_length: "length lowest_bit_bitmap = 256" by (simp add: lowest_bit_bitmap_def)

lemma lowest_bit_bitmap_bit:
  assumes "0 < b" "b < 256"
  shows "lowest_bit_bitmap ! b < 8" "bit b (lowest_bit_bitmap ! b)" "q < lowest_bit_bitmap ! b \<Longrightarrow> \<not> bit b q"
proof -
  let ?k = "lowest_bit_bitmap ! b"
  have k: "?k < 8" "b mod 2 ^ ?k = 0" "odd (b div 2 ^ ?k)"
    using bitmap_from_nth [OF lowest_bit_bitmap_ok, of "b - 1"] assms by (simp_all add: lowest_bit_length nth_tl)
  show "?k < 8" by (rule k(1))
  show "bit b ?k" using k(3) by (simp add: bit_iff_odd)
  show "\<not> bit b q" if "q < ?k" using k(2) that bit_take_bit_iff [of ?k b q] by (simp add: take_bit_eq_mod)
qed

text \<open>One byte of a word is looked up in the table.\<close>

lemma lowest_bit_byte:
  fixes v w :: u32
  assumes w: "\<And>q. bit w q \<longleftrightarrow> q < 8 \<and> bit v (q + k)" and nz: "w \<noteq> 0"
  shows "\<exists>x. rd lowest_bit_bitmap (unat w) = Some x \<and> x < 8 \<and> bit v (x + k) \<and> (\<forall>q < x + k. k \<le> q \<longrightarrow> \<not> bit v q)"
proof -
  have eq: "take_bit 8 w = w" using w by (intro bit_word_eqI) (auto simp: bit_take_bit_iff)
  have "unat (take_bit 8 w) < 2 ^ 8" by (simp only: unsigned_take_bit_eq) (rule take_bit_nat_less_exp)
  then have lt: "unat w < 256" by (simp add: eq)
  have pos: "0 < unat w" using nz by (simp add: unat_gt_0)
  let ?x = "lowest_bit_bitmap ! unat w"
  have bits: "bit (unat w) q = bit w q" for q by (auto simp: bit_unsigned_iff bit_imp_le_length)
  have "\<not> bit v q" if "q < ?x + k" "k \<le> q" for q
    using lowest_bit_bitmap_bit(1,3) [OF pos lt] w [of "q - k"] that bits by fastforce
  then show ?thesis using lowest_bit_bitmap_bit(1,2) [OF pos lt] lt w bits by (auto simp: rd_def lowest_bit_length)
qed

lemma rt_ffs_ok:
  assumes "v \<noteq> 0"
  shows "\<exists>p < 32. rt_ffs v = Some (Suc p) \<and> bit v p \<and> (\<forall>q < p. \<not> bit v q)"
proof -
  have b0: "bit (v AND 0xff) q \<longleftrightarrow> q < 8 \<and> bit v (q + 0)" for q
  proof -
    have m: "(0xff :: u32) = mask 8" by (simp add: mask_eq_exp_minus_1)
    show ?thesis unfolding m by (auto simp: bit_simps)
  qed
  have hi: "bit (drop_bit k (v AND push_bit k 0xff)) q \<longleftrightarrow> q < 8 \<and> bit v (q + k)" if "k \<le> 24" for q k
  proof -
    have m: "(0xff :: u32) = mask 8" by (simp add: mask_eq_exp_minus_1)
    show ?thesis unfolding m using that by (auto simp: bit_simps ac_simps dest: bit_imp_le_length)
  qed
  have nz: "drop_bit k (v AND push_bit k 0xff) \<noteq> 0 \<longleftrightarrow> v AND push_bit k 0xff \<noteq> 0" for k :: nat
  proof -
    have "push_bit k (drop_bit k (v AND push_bit k 0xff)) = v AND push_bit k 0xff"
      by (rule bit_word_eqI) (auto simp: bit_simps)
    then show ?thesis by (metis push_bit_of_0 drop_bit_of_0)
  qed
  have p: "push_bit 8 0xff = (0xff00 :: u32)" "push_bit 16 0xff = (0xff0000 :: u32)" "push_bit 24 0xff = (0xff000000 :: u32)"
    by (simp_all add: push_bit_eq_mult)
  have zero: "\<not> bit v q" if "v AND push_bit k 0xff = 0" "k \<le> q" "q < k + 8" "k \<le> 24" for q k
    using hi [of k "q - k"] that by simp
  have zero0: "\<not> bit v q" if "v AND 0xff = 0" "q < 8" for q using b0 [of q] that by simp
  have zero1: "\<not> bit v q" if "v AND 0xff00 = 0" "8 \<le> q" "q < 16" for q using zero [of 8 q] that p by simp
  have zero2: "\<not> bit v q" if "v AND 0xff0000 = 0" "16 \<le> q" "q < 24" for q using zero [of 16 q] that p by simp
  have zero3: "\<not> bit v q" if "v AND 0xff000000 = 0" "24 \<le> q" "q < 32" for q using zero [of 24 q] that p by simp
  consider "v AND 0xff \<noteq> 0" | "v AND 0xff = 0" "v AND 0xff00 \<noteq> 0" | "v AND 0xff = 0" "v AND 0xff00 = 0" "v AND 0xff0000 \<noteq> 0"
    | "v AND 0xff = 0" "v AND 0xff00 = 0" "v AND 0xff0000 = 0" by blast
  then show ?thesis
  proof cases
    case 1
    obtain x where "rd lowest_bit_bitmap (unat (v AND 0xff)) = Some x" "x < 8" "bit v (x + 0)"
      "\<forall>q < x + 0. 0 \<le> q \<longrightarrow> \<not> bit v q"
      using lowest_bit_byte [OF b0 1] by blast
    then show ?thesis using 1 assms by (intro exI [of _ x]) (simp add: rt_ffs_def)
  next
    case 2
    obtain x where x: "rd lowest_bit_bitmap (unat (drop_bit 8 (v AND 0xff00))) = Some x" "x < 8" "bit v (x + 8)"
      "\<forall>q < x + 8. 8 \<le> q \<longrightarrow> \<not> bit v q"
      using lowest_bit_byte [OF hi [of 8]] nz [of 8] 2 p by auto
    then show ?thesis using 2 assms zero0 by (intro exI [of _ "x + 8"]) (force simp: rt_ffs_def not_le)
  next
    case 3
    obtain x where x: "rd lowest_bit_bitmap (unat (drop_bit 16 (v AND 0xff0000))) = Some x" "x < 8" "bit v (x + 16)"
      "\<forall>q < x + 16. 16 \<le> q \<longrightarrow> \<not> bit v q"
      using lowest_bit_byte [OF hi [of 16]] nz [of 16] 3 p by auto
    have "\<not> bit v q" if "q < x + 16" for q
    proof
      assume b: "bit v q"
      then have "q < 16" using x(4) that by (metis not_le)
      then show False using b zero0 [OF 3(1), of q] zero1 [OF 3(2), of q] by linarith
    qed
    then show ?thesis using 3 assms x by (intro exI [of _ "x + 16"]) (simp add: rt_ffs_def)
  next
    case 4
    have "v AND 0xff000000 \<noteq> 0"
    proof
      assume z: "v AND 0xff000000 = 0"
      have "\<not> bit v q" for q
      proof
        assume b: "bit v q"
        then have "q < 32" using bit_imp_le_length [of v q] by simp
        then show False
          using b zero0 [OF 4(1), of q] zero1 [OF 4(2), of q] zero2 [OF 4(3), of q] zero3 [OF z, of q] by linarith
      qed
      then have "v = 0" by (intro bit_word_eqI) simp
      then show False using assms by simp
    qed
    then obtain x where x: "rd lowest_bit_bitmap (unat (drop_bit 24 (v AND 0xff000000))) = Some x" "x < 8" "bit v (x + 24)"
      "\<forall>q < x + 24. 24 \<le> q \<longrightarrow> \<not> bit v q"
      using lowest_bit_byte [OF hi [of 24]] nz [of 24] p by auto
    have "\<not> bit v q" if "q < x + 24" for q
    proof
      assume b: "bit v q"
      then have "q < 24" using x(4) that by (metis not_le)
      then show False using b zero0 [OF 4(1), of q] zero1 [OF 4(2), of q] zero2 [OF 4(3), of q] by linarith
    qed
    then show ?thesis using 4 assms x by (intro exI [of _ "x + 24"]) (simp add: rt_ffs_def)
  qed
qed

subsection \<open>The invariant of the lists\<close>

text \<open>Every thread is in the list its node names and in no other, once.\<close>

definition links_ok :: "'a kernel_scheme \<Rightarrow> bool" where
  "links_ok s \<longleftrightarrow>
     (\<forall>l. distinct (thread_lists s l) \<and> (\<forall>t. t \<in> set (thread_lists s l) \<longleftrightarrow> tlist (threads s t) = Some l))"

text \<open>A thread's state agrees with the list it is in, and its mask with its priority.\<close>

definition place_ok :: "rt_thread \<Rightarrow> bool" where
  "place_ok th \<longleftrightarrow>
     (case tlist th of
        None \<Rightarrow> stat th \<noteq> RT_THREAD_READY
      | Some (Ready p) \<Rightarrow> stat th = RT_THREAD_READY \<and> unat (current_priority th) = p
      | Some Defunct \<Rightarrow> stat th = RT_THREAD_CLOSE
      | Some _ \<Rightarrow> stat th = RT_THREAD_SUSPEND)"

definition prio_ok :: "rt_thread \<Rightarrow> bool" where
  "prio_ok th \<longleftrightarrow>
     (stat th \<noteq> RT_THREAD_INIT \<longrightarrow> unat (current_priority th) < 32 \<and> number_mask th = push_bit (unat (current_priority th)) 1)"

definition thread_ok :: "rt_thread \<Rightarrow> bool" where "thread_ok th \<longleftrightarrow> place_ok th \<and> prio_ok th"

text \<open>A bit of the ready group is set when the ready list of that priority is not empty.\<close>

definition group_ok :: "'a kernel_scheme \<Rightarrow> bool" where
  "group_ok s \<longleftrightarrow> (\<forall>p < 32. bit (rt_thread_ready_priority_group s) p \<longleftrightarrow> thread_lists s (Ready p) \<noteq> [])"

definition lists_inv :: "'a kernel_scheme \<Rightarrow> bool" where
  "lists_inv s \<longleftrightarrow> links_ok s \<and> (\<forall>t. thread_ok (threads s t)) \<and> group_ok s"

text \<open>The invariant but for the thread \<open>t\<close>, which is in no list.\<close>

definition lists_inv_but :: "tid \<Rightarrow> 'a kernel_scheme \<Rightarrow> bool" where
  "lists_inv_but t s \<longleftrightarrow>
     links_ok s \<and> tlist (threads s t) = None \<and> (\<forall>u. u \<noteq> t \<longrightarrow> thread_ok (threads s u)) \<and> group_ok s"

lemma upd_thread_simps [simp]:
  "threads (upd_thread t f s) = (threads s)(t := f (threads s t))" "thread_lists (upd_thread t f s) = thread_lists s"
  "rt_thread_ready_priority_group (upd_thread t f s) = rt_thread_ready_priority_group s"
  "rt_current_thread (upd_thread t f s) = rt_current_thread s" "rt_tick (upd_thread t f s) = rt_tick s"
  "rt_scheduler_lock_nest (upd_thread t f s) = rt_scheduler_lock_nest s"
  "timers (upd_thread t f s) = timers s" "timer_lists (upd_thread t f s) = timer_lists s"
  "soft_timer_busy (upd_thread t f s) = soft_timer_busy s" "fired (upd_thread t f s) = fired s"
  "rt_interrupt_nest (upd_thread t f s) = rt_interrupt_nest s"
  "kernel.more (upd_thread t f s) = kernel.more s"
  by (simp_all add: upd_thread_def)

lemma lists_inv_links: "lists_inv s \<Longrightarrow> links_ok s" by (simp add: lists_inv_def)

lemma links_ok_D:
  assumes "links_ok s"
  shows "distinct (thread_lists s l)" "t \<in> set (thread_lists s l) \<longleftrightarrow> tlist (threads s t) = Some l"
  using assms by (simp_all add: links_ok_def)

lemma lists_inv_but_intro:
  "lists_inv s \<Longrightarrow> tlist (threads s t) = None \<Longrightarrow> lists_inv_but t s"
  by (simp add: lists_inv_def lists_inv_but_def)

lemma lists_inv_but_done:
  "lists_inv_but t s \<Longrightarrow> thread_ok (threads s t) \<Longrightarrow> lists_inv s"
  unfolding lists_inv_def lists_inv_but_def by metis

text \<open>What a step that links or unlinks \<open>t\<close> leaves alone.\<close>

definition same_timers :: "'a kernel_scheme \<Rightarrow> 'a kernel_scheme \<Rightarrow> bool" where
  "same_timers s s' \<longleftrightarrow>
     rt_tick s' = rt_tick s \<and> timers s' = timers s \<and> timer_lists s' = timer_lists s \<and> soft_timer_busy s' = soft_timer_busy s \<and>
     fired s' = fired s \<and> rt_scheduler_lock_nest s' = rt_scheduler_lock_nest s \<and> rt_interrupt_nest s' = rt_interrupt_nest s \<and>
     kernel.more s' = kernel.more s"

lemma same_timers_refl [simp]: "same_timers s s" by (simp add: same_timers_def)

lemma same_timers_trans: "same_timers s s' \<Longrightarrow> same_timers s' s'' \<Longrightarrow> same_timers s s''"
  by (simp add: same_timers_def)

lemma same_timers_upd [simp]: "same_timers s (upd_thread t f s') = same_timers s s'"
  by (simp add: same_timers_def)

definition only_thread :: "tid \<Rightarrow> 'a kernel_scheme \<Rightarrow> 'a kernel_scheme \<Rightarrow> bool" where
  "only_thread t s s' \<longleftrightarrow> same_timers s s' \<and> rt_current_thread s' = rt_current_thread s \<and> (\<forall>u. u \<noteq> t \<longrightarrow> threads s' u = threads s u)"

lemma only_thread_refl [simp]: "only_thread t s s" by (simp add: only_thread_def)

lemma only_thread_trans: "only_thread t s s' \<Longrightarrow> only_thread t s' s'' \<Longrightarrow> only_thread t s s''"
  by (auto simp: only_thread_def dest: same_timers_trans)

lemma only_thread_upd [simp]: "only_thread t s s' \<Longrightarrow> only_thread t s (upd_thread t f s')"
  by (simp add: only_thread_def)

subsection \<open>Linking and unlinking\<close>

lemma rt_list_remove_ok:
  assumes "links_ok s"
  shows "links_ok (rt_list_remove t s)" "only_thread t s (rt_list_remove t s)"
    "threads (rt_list_remove t s) t = (threads s t)\<lparr>tlist := None\<rparr>"
    "thread_lists (rt_list_remove t s) l = removeAll t (thread_lists s l)"
    "rt_thread_ready_priority_group (rt_list_remove t s) = rt_thread_ready_priority_group s"
proof -
  note d = links_ok_D [OF assms]
  have r: "removeAll t (thread_lists s l) = thread_lists s l" if "tlist (threads s t) \<noteq> Some l" for l
    using d(2) [of t l] that by simp
  have lists: "thread_lists (rt_list_remove t s) l = removeAll t (thread_lists s l)" for l
    using r [of l] distinct_remove1_removeAll [OF d(1) [of l], of t] by (auto simp: rt_list_remove_def split: option.splits)
  have th: "threads (rt_list_remove t s) = (threads s)(t := (threads s t)\<lparr>tlist := None\<rparr>)"
    by (auto simp: rt_list_remove_def fun_eq_iff split: option.splits)
  show "threads (rt_list_remove t s) t = (threads s t)\<lparr>tlist := None\<rparr>" by (simp add: th)
  show "thread_lists (rt_list_remove t s) l = removeAll t (thread_lists s l)" by (rule lists)
  show "links_ok (rt_list_remove t s)" using d by (auto simp: links_ok_def lists th distinct_removeAll)
  show "only_thread t s (rt_list_remove t s)"
    by (auto simp: only_thread_def same_timers_def rt_list_remove_def split: option.splits)
  show "rt_thread_ready_priority_group (rt_list_remove t s) = rt_thread_ready_priority_group s"
    by (auto simp: rt_list_remove_def split: option.splits)
qed

lemma link_thread_ok:
  assumes "links_ok s" "tlist (threads s t) = None" "distinct ts" "set ts = insert t (set (thread_lists s l))"
  shows "\<exists>s'. link_thread l t ts s = Some s' \<and> links_ok s' \<and> only_thread t s s' \<and>
    threads s' t = (threads s t)\<lparr>tlist := Some l\<rparr> \<and> thread_lists s' = (thread_lists s)(l := ts) \<and>
    rt_thread_ready_priority_group s' = rt_thread_ready_priority_group s"
proof -
  note d = links_ok_D [OF assms(1)]
  show ?thesis
    using assms(2-4) d by (auto simp: link_thread_def links_ok_def only_thread_def same_timers_def)
qed

lemma bit_number_mask: "prio_ok th \<Longrightarrow> stat th \<noteq> RT_THREAD_INIT \<Longrightarrow> bit (number_mask th) q \<longleftrightarrow> q = unat (current_priority th)"
  by (auto simp: prio_ok_def bit_simps dest: bit_imp_le_length)

lemma ready_list_ok: "prio_ok (threads s t) \<Longrightarrow> stat (threads s t) \<noteq> RT_THREAD_INIT \<Longrightarrow>
    ready_list t s = Some (Ready (unat (current_priority (threads s t))))"
  by (simp add: ready_list_def prio_ok_def RT_THREAD_PRIORITY_MAX_def Let_def)

lemma prio_ok_tlist [simp]: "prio_ok (th\<lparr>tlist := x\<rparr>) = prio_ok th"
  by (simp add: prio_ok_def)

lemma rt_schedule_remove_thread_ok:
  assumes inv: "lists_inv s" and st: "stat (threads s t) \<noteq> RT_THREAD_INIT"
  shows "\<exists>s'. rt_schedule_remove_thread t s = Some s' \<and> lists_inv_but t s' \<and> only_thread t s s' \<and>
    threads s' t = (threads s t)\<lparr>tlist := None\<rparr> \<and> (\<forall>l. thread_lists s' l = removeAll t (thread_lists s l))"
proof -
  let ?r = "rt_list_remove t s" and ?p = "unat (current_priority (threads s t))"
  have ok: "thread_ok (threads s u)" for u using inv by (simp add: lists_inv_def)
  have pr: "prio_ok (threads s t)" using ok by (simp add: thread_ok_def)
  note r = rt_list_remove_ok [OF lists_inv_links [OF inv], of t]
  note d = links_ok_D [OF lists_inv_links [OF inv]]
  have rl: "ready_list t ?r = Some (Ready ?p)" using pr st by (subst ready_list_ok) (simp_all add: r)
  have others: "t \<notin> set (thread_lists s (Ready q))" if "q \<noteq> ?p" for q
    using ok [of t] that d(2) [of t "Ready q"] by (auto simp: thread_ok_def place_ok_def)
  define s' where "s' = (if thread_lists ?r (Ready ?p) = []
    then ?r\<lparr>rt_thread_ready_priority_group := rt_thread_ready_priority_group ?r AND NOT (number_mask (threads ?r t))\<rparr> else ?r)"
  have lists': "thread_lists s' l = removeAll t (thread_lists s l)" for l by (simp add: s'_def r)
  have thr: "threads s' = threads ?r" by (simp add: s'_def)
  have mask: "bit (number_mask (threads s t)) q \<longleftrightarrow> q = ?p" for q using bit_number_mask [OF pr st] .
  have g: "group_ok s" using inv by (simp add: lists_inv_def)
  have "group_ok s'"
    unfolding group_ok_def lists'
  proof (intro allI impI)
    fix q :: nat assume q: "q < 32"
    have "bit (rt_thread_ready_priority_group s') q \<longleftrightarrow>
        bit (rt_thread_ready_priority_group s) q \<and> \<not> (q = ?p \<and> removeAll t (thread_lists s (Ready ?p)) = [])"
      using q mask [of q] by (auto simp: s'_def r bit_simps)
    then show "bit (rt_thread_ready_priority_group s') q \<longleftrightarrow> removeAll t (thread_lists s (Ready q)) \<noteq> []"
      using g q others [of q] by (cases "q = ?p") (auto simp: group_ok_def)
  qed
  moreover have "links_ok s'" using r(1) by (simp add: s'_def links_ok_def)
  ultimately have "lists_inv_but t s'"
    using ok r(2,3) by (auto simp: lists_inv_but_def thr only_thread_def)
  moreover have "rt_schedule_remove_thread t s = Some s'" using rl by (simp add: rt_schedule_remove_thread_def s'_def Let_def)
  moreover have "only_thread t s s'" using r(2) by (simp add: s'_def only_thread_def same_timers_def)
  ultimately show ?thesis using r(3) lists' thr by auto
qed

lemma rt_schedule_insert_thread_ok:
  assumes inv: "lists_inv_but t s" and pr: "prio_ok (threads s t)" and st: "stat (threads s t) \<noteq> RT_THREAD_INIT"
    and cur: "rt_current_thread s \<noteq> Some t"
  defines "p \<equiv> unat (current_priority (threads s t))"
  shows "\<exists>s'. rt_schedule_insert_thread t s = Some s' \<and> lists_inv s' \<and> only_thread t s s' \<and>
    threads s' t = (threads s t)\<lparr>stat := RT_THREAD_READY, tlist := Some (Ready p)\<rparr> \<and>
    thread_lists s' = (thread_lists s)(Ready p :=
      (if stat_yield (threads s t) then thread_lists s (Ready p) @ [t] else t # thread_lists s (Ready p)))"
proof -
  let ?u = "upd_thread t (\<lambda>th. th\<lparr>stat := RT_THREAD_READY\<rparr>) s"
  let ?ts = "if stat_yield (threads s t) then thread_lists s (Ready p) @ [t] else t # thread_lists s (Ready p)"
  have l: "links_ok s" "tlist (threads s t) = None" "group_ok s" using inv by (simp_all add: lists_inv_but_def)
  note d = links_ok_D [OF l(1)]
  have lu: "links_ok ?u" using d by (auto simp: links_ok_def)
  have rl: "ready_list t ?u = Some (Ready p)" using pr st unfolding p_def by (subst ready_list_ok) (simp_all add: prio_ok_def)
  have p32: "p < 32" using pr st by (simp add: prio_ok_def p_def)
  have nin: "t \<notin> set (thread_lists s (Ready p))" using d(2) l(2) by simp
  then have ts: "distinct ?ts" "set ?ts = insert t (set (thread_lists ?u (Ready p)))" using d(1) by auto
  obtain s1 where s1: "link_thread (Ready p) t ?ts ?u = Some s1" "links_ok s1" "only_thread t ?u s1"
    "threads s1 t = (threads s t)\<lparr>stat := RT_THREAD_READY, tlist := Some (Ready p)\<rparr>"
    "thread_lists s1 = (thread_lists s)(Ready p := ?ts)" "rt_thread_ready_priority_group s1 = rt_thread_ready_priority_group s"
    using link_thread_ok [OF lu _ ts] l(2) by auto
  define s' where "s' = s1\<lparr>rt_thread_ready_priority_group := rt_thread_ready_priority_group s1 OR number_mask (threads s1 t)\<rparr>"
  have "rt_schedule_insert_thread t s = Some s'"
    using cur rl s1(1)
    by (cases "stat_yield (threads s t)") (simp_all add: rt_schedule_insert_thread_def rt_list_insert_before_def rt_list_insert_after_def s'_def Let_def)
  moreover have "only_thread t s s'"
    using s1(3) by (auto simp: s'_def only_thread_def same_timers_def)
  moreover have "group_ok s'"
  proof -
    have "bit (number_mask (threads s t)) q \<longleftrightarrow> q = p" for q using bit_number_mask [OF pr st] by (simp add: p_def)
    then show ?thesis using l(3) s1(4,5,6) by (auto simp: group_ok_def s'_def bit_simps)
  qed
  moreover have "\<forall>u. thread_ok (threads s' u)"
  proof
    fix u
    show "thread_ok (threads s' u)"
      using pr st s1(3,4) inv
      by (cases "u = t") (auto simp: s'_def thread_ok_def place_ok_def prio_ok_def p_def only_thread_def lists_inv_but_def)
  qed
  moreover have "links_ok s'" using s1(2) by (simp add: s'_def links_ok_def)
  ultimately show ?thesis
    using s1(4,5) by (simp add: lists_inv_def s'_def)
qed

subsection \<open>The choice of the next thread\<close>

lemma highest_priority_thread_ok:
  assumes inv: "lists_inv s" and g: "rt_thread_ready_priority_group s \<noteq> 0"
  shows "\<exists>t p ts. highest_priority_thread s = Some (t, p) \<and> p < 32 \<and> thread_lists s (Ready p) = t # ts \<and>
    (\<forall>q < p. thread_lists s (Ready q) = []) \<and> stat (threads s t) = RT_THREAD_READY \<and>
    unat (current_priority (threads s t)) = p"
proof -
  obtain p where p: "p < 32" "rt_ffs (rt_thread_ready_priority_group s) = Some (Suc p)"
    "bit (rt_thread_ready_priority_group s) p" "\<forall>q < p. \<not> bit (rt_thread_ready_priority_group s) q"
    using rt_ffs_ok [OF g] by blast
  have gr: "group_ok s" "\<And>t. thread_ok (threads s t)" using inv by (simp_all add: lists_inv_def)
  then obtain t ts where t: "thread_lists s (Ready p) = t # ts" using p(1,3) by (auto simp: group_ok_def neq_Nil_conv)
  then have "tlist (threads s t) = Some (Ready p)"
    using links_ok_D(2) [OF lists_inv_links [OF inv], of t "Ready p"] by simp
  then have "stat (threads s t) = RT_THREAD_READY" "unat (current_priority (threads s t)) = p"
    using gr(2) [of t] by (simp_all add: thread_ok_def place_ok_def)
  then show ?thesis using p t gr(1) by (auto simp: highest_priority_thread_def group_ok_def)
qed

definition running :: "rt_thread \<Rightarrow> bool" where "running th \<longleftrightarrow> stat th = RT_THREAD_RUNNING"

text \<open>There is a current thread, and no other one has the state of running.\<close>

definition cur_ok :: "'a kernel_scheme \<Rightarrow> bool" where
  "cur_ok s \<longleftrightarrow>
     (\<exists>c. rt_current_thread s = Some c \<and> stat (threads s c) \<noteq> RT_THREAD_INIT \<and> stat (threads s c) \<noteq> RT_THREAD_READY) \<and>
     (\<forall>t. stat (threads s t) = RT_THREAD_RUNNING \<longrightarrow> rt_current_thread s = Some t)"

definition runnable :: "rt_thread \<Rightarrow> bool" where
  "runnable th \<longleftrightarrow> stat th = RT_THREAD_READY \<or> stat th = RT_THREAD_RUNNING"

definition sched_inv :: "'a kernel_scheme \<Rightarrow> bool" where
  "sched_inv s \<longleftrightarrow> lists_inv s \<and> cur_ok s \<and> runnable (threads s idle)"

text \<open>The current thread runs, and no ready thread has a higher priority.\<close>

definition settled :: "'a kernel_scheme \<Rightarrow> bool" where
  "settled s \<longleftrightarrow>
     (\<exists>c. rt_current_thread s = Some c \<and> stat (threads s c) = RT_THREAD_RUNNING \<and>
       (\<forall>t. stat (threads s t) = RT_THREAD_READY \<longrightarrow> current_priority (threads s c) \<le> current_priority (threads s t)))"

lemma ready_in_list:
  assumes "lists_inv s" "stat (threads s t) = RT_THREAD_READY"
  shows "t \<in> set (thread_lists s (Ready (unat (current_priority (threads s t)))))"
proof -
  have "thread_ok (threads s t)" using assms(1) by (simp add: lists_inv_def)
  then have "tlist (threads s t) = Some (Ready (unat (current_priority (threads s t))))"
    using assms(2) by (auto simp: thread_ok_def place_ok_def split: option.splits list_id.splits)
  then show ?thesis using links_ok_D(2) [OF lists_inv_links [OF assms(1)]] by simp
qed

lemma group_zero:
  assumes "lists_inv s" "rt_thread_ready_priority_group s = 0"
  shows "stat (threads s t) \<noteq> RT_THREAD_READY"
proof
  assume r: "stat (threads s t) = RT_THREAD_READY"
  have "prio_ok (threads s t)" using assms(1) by (simp add: lists_inv_def thread_ok_def)
  then have "unat (current_priority (threads s t)) < 32" using r by (simp add: prio_ok_def)
  then show False
    using ready_in_list [OF assms(1) r] assms by (force simp: lists_inv_def group_ok_def)
qed

lemma sched_inv_D:
  assumes "sched_inv s"
  shows "lists_inv s" "links_ok s" "group_ok s" "thread_ok (threads s t)" "cur_ok s" "runnable (threads s idle)"
  using assms by (simp_all add: sched_inv_def lists_inv_def)

lemma current_thread:
  assumes "sched_inv s"
  obtains c where "rt_current_thread s = Some c" "stat (threads s c) \<noteq> RT_THREAD_INIT" "stat (threads s c) \<noteq> RT_THREAD_READY"
    "\<And>t. stat (threads s t) = RT_THREAD_RUNNING \<Longrightarrow> t = c"
  using sched_inv_D(5) [OF assms] by (auto simp: cur_ok_def)

lemma runnable_simps [simp]:
  "runnable (th\<lparr>stat := RT_THREAD_RUNNING\<rparr>)" "runnable (th\<lparr>stat := RT_THREAD_READY\<rparr>)"
  "runnable (th\<lparr>tlist := l\<rparr>) = runnable th" "runnable (th\<lparr>stat_yield := b\<rparr>) = runnable th"
  "\<not> runnable (th\<lparr>stat := RT_THREAD_SUSPEND\<rparr>)" "\<not> runnable (th\<lparr>stat := RT_THREAD_CLOSE\<rparr>)"
  "runnable (th\<lparr>error := e\<rparr>) = runnable th" "runnable (th\<lparr>remaining_tick := v\<rparr>) = runnable th"
  by (simp_all add: runnable_def)

lemma running_unlinked: "thread_ok th \<Longrightarrow> stat th = RT_THREAD_RUNNING \<Longrightarrow> tlist th = None"
  by (auto simp: thread_ok_def place_ok_def split: option.splits list_id.splits)

text \<open>Whether the current thread keeps the processor when \<open>p\<close> is the highest ready priority.\<close>

definition keeps :: "rt_thread \<Rightarrow> nat \<Rightarrow> bool" where
  "keeps th p \<longleftrightarrow> stat th = RT_THREAD_RUNNING \<and>
     (unat (current_priority th) < p \<or> unat (current_priority th) = p \<and> \<not> stat_yield th)"

lemma lists_inv_upd:
  assumes "lists_inv s" "\<And>th. tlist (f th) = tlist th" "thread_ok (f (threads s t))"
  shows "lists_inv (upd_thread t f s)"
  using assms by (auto simp: lists_inv_def links_ok_def group_ok_def)

lemma thread_ok_cong:
  "tlist th' = tlist th \<Longrightarrow> stat th' = stat th \<Longrightarrow> current_priority th' = current_priority th \<Longrightarrow>
    number_mask th' = number_mask th \<Longrightarrow> thread_ok th' = thread_ok th"
  by (simp add: thread_ok_def place_ok_def prio_ok_def cong: option.case_cong list_id.case_cong)

lemma thread_ok_upd [simp]:
  "thread_ok (th\<lparr>stat_yield := b\<rparr>) = thread_ok th" "thread_ok (th\<lparr>error := e\<rparr>) = thread_ok th"
  "thread_ok (th\<lparr>remaining_tick := v\<rparr>) = thread_ok th" "thread_ok (th\<lparr>event_set := w\<rparr>) = thread_ok th"
  "thread_ok (th\<lparr>event_info := i\<rparr>) = thread_ok th"
  by (rule thread_ok_cong, simp_all)+

lemma removeAll_thread_lists:
  "links_ok s \<Longrightarrow> tlist (threads s t) = None \<Longrightarrow> removeAll t (thread_lists s l) = thread_lists s l"
  using links_ok_D(2) [of s t l] by simp

lemma rt_schedule_keep:
  assumes inv: "sched_inv s" and lock: "rt_scheduler_lock_nest s = 0" and c: "rt_current_thread s = Some c"
    and h: "highest_priority_thread s = Some (t, p)" "keeps (threads s c) p" and g: "rt_thread_ready_priority_group s \<noteq> 0"
  shows "\<exists>s'. rt_schedule s = Some s' \<and> lists_inv s' \<and> only_thread c s s' \<and>
    threads s' c = (threads s c)\<lparr>stat_yield := False\<rparr> \<and> thread_lists s' = thread_lists s"
proof -
  let ?u = "upd_thread c (\<lambda>th. th\<lparr>stat_yield := False\<rparr>) s"
  have run: "stat (threads s c) = RT_THREAD_RUNNING" using h(2) by (simp add: keeps_def)
  have ok: "thread_ok (threads s c)" using sched_inv_D(4) [OF inv] .
  have tl: "tlist (threads s c) = None" using running_unlinked [OF ok run] .
  have u: "lists_inv ?u" using sched_inv_D(1) [OF inv] ok by (intro lists_inv_upd) simp_all
  have "stat (threads ?u c) \<noteq> RT_THREAD_INIT" using run by simp
  from rt_schedule_remove_thread_ok [OF u this] obtain s1 where s1: "rt_schedule_remove_thread c ?u = Some s1"
    "lists_inv_but c s1" "only_thread c ?u s1" "threads s1 c = (threads s c)\<lparr>stat_yield := False\<rparr>"
    "\<forall>l. thread_lists s1 l = removeAll c (thread_lists s l)"
    using tl by auto
  have "thread_lists s1 = thread_lists s"
    using s1(5) removeAll_thread_lists [OF sched_inv_D(2) [OF inv] tl] by auto
  moreover have eq: "upd_thread c (\<lambda>th. th\<lparr>stat := RT_THREAD_RUNNING\<rparr>) s1 = s1"
    using s1(4) run by (simp add: upd_thread_def fun_upd_idem)
  moreover have "lists_inv s1" using lists_inv_but_done [OF s1(2)] s1(4) ok by simp
  moreover have "rt_schedule s = Some s1"
    using lock g c h s1(1) run eq unfolding rt_schedule_def keeps_def Let_def by auto
  moreover have "only_thread c s s1" using s1(3) by (auto simp: only_thread_def same_timers_def)
  ultimately show ?thesis using s1(4) by blast
qed

text \<open>The ready lists after a running thread \<open>c\<close> has been put back and \<open>t\<close> has been taken out.\<close>

definition switch_lists :: "tid \<Rightarrow> tid \<Rightarrow> 'a kernel_scheme \<Rightarrow> list_id \<Rightarrow> tid list" where
  "switch_lists c t s l =
     removeAll t (if stat (threads s c) = RT_THREAD_RUNNING \<and> l = Ready (unat (current_priority (threads s c)))
       then c # thread_lists s l else thread_lists s l)"

lemma rt_schedule_switch:
  assumes inv: "sched_inv s" and lock: "rt_scheduler_lock_nest s = 0" and c: "rt_current_thread s = Some c"
    and h: "highest_priority_thread s = Some (t, p)" "\<not> keeps (threads s c) p" and g: "rt_thread_ready_priority_group s \<noteq> 0"
  shows "\<exists>s'. rt_schedule s = Some s' \<and> lists_inv s' \<and> rt_current_thread s' = Some t \<and> same_timers s s' \<and> t \<noteq> c \<and>
    threads s' t = (threads s t)\<lparr>tlist := None, stat := RT_THREAD_RUNNING\<rparr> \<and>
    threads s' c = (if stat (threads s c) = RT_THREAD_RUNNING
      then (threads s c)\<lparr>stat_yield := False, stat := RT_THREAD_READY, tlist := Some (Ready (unat (current_priority (threads s c))))\<rparr>
      else threads s c) \<and>
    (\<forall>u. u \<noteq> t \<longrightarrow> u \<noteq> c \<longrightarrow> threads s' u = threads s u) \<and> thread_lists s' = switch_lists c t s"
proof -
  let ?run = "stat (threads s c) = RT_THREAD_RUNNING"
  let ?u = "if ?run then upd_thread c (\<lambda>th. th\<lparr>stat_yield := False\<rparr>) s else s"
  let ?v = "?u\<lparr>rt_current_priority := of_nat p, rt_current_thread := Some t\<rparr>"
  have c': "stat (threads s c) \<noteq> RT_THREAD_READY" using sched_inv_D(5) [OF inv] c by (simp add: cur_ok_def)
  have ready: "stat (threads s t) = RT_THREAD_READY"
    using highest_priority_thread_ok [OF sched_inv_D(1) [OF inv] g] h(1) by auto
  then have ne: "t \<noteq> c" using c' by auto
  have ok: "thread_ok (threads s c)" using sched_inv_D(4) [OF inv] .
  have u: "lists_inv ?u" using sched_inv_D(1) [OF inv] ok by (auto intro: lists_inv_upd)
  then have v: "lists_inv ?v" by (simp add: lists_inv_def links_ok_def group_ok_def)
  have "\<exists>s1. (if ?run then rt_schedule_insert_thread c ?v else Some ?v) = Some s1 \<and> lists_inv s1 \<and> only_thread c ?v s1 \<and>
    threads s1 c = (if ?run
      then (threads s c)\<lparr>stat_yield := False, stat := RT_THREAD_READY, tlist := Some (Ready (unat (current_priority (threads s c))))\<rparr>
      else threads s c) \<and>
    thread_lists s1 = (if ?run then (thread_lists s)(Ready (unat (current_priority (threads s c))) :=
        c # thread_lists s (Ready (unat (current_priority (threads s c))))) else thread_lists s)"
  proof (cases ?run)
    case True
    have "tlist (threads ?v c) = None" using running_unlinked [OF ok True] True by simp
    then have "lists_inv_but c ?v" by (rule lists_inv_but_intro [OF v])
    moreover have "prio_ok (threads ?v c)" using v by (simp add: lists_inv_def thread_ok_def)
    moreover have "stat (threads ?v c) \<noteq> RT_THREAD_INIT" using True by simp
    moreover have "rt_current_thread ?v \<noteq> Some c" using ne by simp
    ultimately show ?thesis using rt_schedule_insert_thread_ok [of c ?v] True by simp
  next
    case False
    then show ?thesis using v by simp
  qed
  then obtain s1 where s1: "(if ?run then rt_schedule_insert_thread c ?v else Some ?v) = Some s1" "lists_inv s1" "only_thread c ?v s1"
    "threads s1 c = (if ?run
      then (threads s c)\<lparr>stat_yield := False, stat := RT_THREAD_READY, tlist := Some (Ready (unat (current_priority (threads s c))))\<rparr>
      else threads s c)"
    "thread_lists s1 = (if ?run then (thread_lists s)(Ready (unat (current_priority (threads s c))) :=
        c # thread_lists s (Ready (unat (current_priority (threads s c))))) else thread_lists s)"
    by blast
  have st: "threads s1 t = threads s t" using s1(3) ne by (simp add: only_thread_def)
  have "stat (threads s1 t) \<noteq> RT_THREAD_INIT" using st ready by simp
  from rt_schedule_remove_thread_ok [OF s1(2) this] obtain s2 where s2: "rt_schedule_remove_thread t s1 = Some s2"
    "lists_inv_but t s2" "only_thread t s1 s2" "threads s2 t = (threads s t)\<lparr>tlist := None\<rparr>"
    "\<forall>l. thread_lists s2 l = removeAll t (thread_lists s1 l)"
    using st by auto
  let ?s' = "upd_thread t (\<lambda>th. th\<lparr>stat := RT_THREAD_RUNNING\<rparr>) s2"
  have "prio_ok (threads s t)" using sched_inv_D(4) [OF inv] by (simp add: thread_ok_def)
  then have tok: "thread_ok (threads ?s' t)" using s2(4) ready by (simp add: thread_ok_def place_ok_def prio_ok_def)
  have "lists_inv_but t ?s'" using s2(2) by (auto simp: lists_inv_but_def links_ok_def group_ok_def)
  from lists_inv_but_done [OF this tok] have "lists_inv ?s'" .
  moreover have "rt_schedule s = Some ?s'"
    using lock g c h ne s1(1) s2(1) unfolding rt_schedule_def keeps_def Let_def by (cases ?run) simp_all
  moreover have "same_timers s ?s'"
    using s1(3) s2(3) by (cases ?run) (simp_all add: only_thread_def same_timers_def)
  moreover have "rt_current_thread ?s' = Some t" using s1(3) s2(3) by (simp add: only_thread_def)
  moreover have "threads ?s' c = threads s1 c" using s2(3) ne by (auto simp: only_thread_def)
  moreover have "\<forall>w. w \<noteq> t \<longrightarrow> w \<noteq> c \<longrightarrow> threads ?s' w = threads s w"
    using s1(3) s2(3) by (cases ?run) (auto simp: only_thread_def)
  moreover have "thread_lists ?s' = switch_lists c t s"
    using s2(5) s1(5) by (auto simp: switch_lists_def)
  ultimately show ?thesis using s1(4) s2(4) ne by auto
qed

subsection \<open>The effect of the scheduler\<close>

definition is_ready :: "list_id \<Rightarrow> bool" where
  "is_ready l \<longleftrightarrow> (case l of Ready _ \<Rightarrow> True | _ \<Rightarrow> False)"

lemma is_ready_simps [simp]:
  "is_ready (Ready p)" "\<not> is_ready (Sem i)" "\<not> is_ready (Mutex i)" "\<not> is_ready (Event i)" "\<not> is_ready (Mb_recv i)"
  "\<not> is_ready (Mb_send i)" "\<not> is_ready (Mq_recv i)" "\<not> is_ready (Mq_send i)" "\<not> is_ready Defunct"
  by (simp_all add: is_ready_def)

text \<open>Only the place and the state of threads that can run change, and they still can.\<close>

definition sched_frame :: "'a kernel_scheme \<Rightarrow> 'a kernel_scheme \<Rightarrow> bool" where
  "sched_frame s s' \<longleftrightarrow>
     same_timers s s' \<and> (\<forall>l. \<not> is_ready l \<longrightarrow> thread_lists s' l = thread_lists s l) \<and>
     (\<forall>t. runnable (threads s' t) = runnable (threads s t)) \<and>
     (\<forall>t. \<not> runnable (threads s t) \<longrightarrow> threads s' t = threads s t) \<and>
     (\<forall>t. \<exists>l x y. threads s' t = (threads s t)\<lparr>tlist := l, stat := x, stat_yield := y\<rparr>)"

lemma thread_same: "th = th\<lparr>tlist := tlist th, stat := stat th, stat_yield := stat_yield th\<rparr>"
  for th :: rt_thread
  by (cases th) simp

lemma sched_frame_refl [simp]: "sched_frame s s"
  unfolding sched_frame_def using thread_same by fastforce

lemma sched_frame_trans:
  assumes "sched_frame s s'" "sched_frame s' s''"
  shows "sched_frame s s''"
proof -
  have "\<exists>l x y. threads s'' t = (threads s t)\<lparr>tlist := l, stat := x, stat_yield := y\<rparr>" for t
  proof -
    obtain l x y l' x' y' where "threads s' t = (threads s t)\<lparr>tlist := l, stat := x, stat_yield := y\<rparr>"
      "threads s'' t = (threads s' t)\<lparr>tlist := l', stat := x', stat_yield := y'\<rparr>"
      using assms unfolding sched_frame_def by metis
    then show ?thesis by (intro exI [of _ l'] exI [of _ x'] exI [of _ y']) simp
  qed
  then show ?thesis using assms by (auto simp: sched_frame_def intro: same_timers_trans)
qed

lemma sched_frame_data:
  assumes "sched_frame s s'"
  shows "current_priority (threads s' t) = current_priority (threads s t)" "error (threads s' t) = error (threads s t)"
    "event_set (threads s' t) = event_set (threads s t)" "event_info (threads s' t) = event_info (threads s t)"
    "number_mask (threads s' t) = number_mask (threads s t)" "remaining_tick (threads s' t) = remaining_tick (threads s t)"
    "init_tick (threads s' t) = init_tick (threads s t)"
proof -
  obtain l x y where "threads s' t = (threads s t)\<lparr>tlist := l, stat := x, stat_yield := y\<rparr>"
    using assms unfolding sched_frame_def by metis
  then show "current_priority (threads s' t) = current_priority (threads s t)" "error (threads s' t) = error (threads s t)"
    "event_set (threads s' t) = event_set (threads s t)" "event_info (threads s' t) = event_info (threads s t)"
    "number_mask (threads s' t) = number_mask (threads s t)" "remaining_tick (threads s' t) = remaining_tick (threads s t)"
    "init_tick (threads s' t) = init_tick (threads s t)" by simp_all
qed

lemma ready_above:
  assumes inv: "lists_inv s" and above: "\<forall>q < p. thread_lists s (Ready q) = []" and r: "stat (threads s t) = RT_THREAD_READY"
  shows "p \<le> unat (current_priority (threads s t))"
  using ready_in_list [OF inv r] above by (metis empty_iff empty_set not_le)

definition scheduled :: "'a kernel_scheme \<Rightarrow> 'a kernel_scheme \<Rightarrow> bool" where
  "scheduled s s' \<longleftrightarrow> sched_inv s' \<and> sched_frame s s' \<and> settled s'"

lemma rt_schedule_keep_ok:
  assumes inv: "sched_inv s" and lock: "rt_scheduler_lock_nest s = 0" and g: "rt_thread_ready_priority_group s \<noteq> 0"
    and c: "rt_current_thread s = Some c" "stat (threads s c) \<noteq> RT_THREAD_INIT" "stat (threads s c) \<noteq> RT_THREAD_READY"
      "\<And>t. stat (threads s t) = RT_THREAD_RUNNING \<Longrightarrow> t = c"
    and h: "highest_priority_thread s = Some (t, p)" "p < 32" "thread_lists s (Ready p) = t # ts"
      "\<forall>q < p. thread_lists s (Ready q) = []" "stat (threads s t) = RT_THREAD_READY" "unat (current_priority (threads s t)) = p"
    and keep: "keeps (threads s c) p"
  shows "\<exists>s'. rt_schedule s = Some s' \<and> scheduled s s'"
proof -
  note L = sched_inv_D [OF inv]
  have run: "stat (threads s c) = RT_THREAD_RUNNING" "unat (current_priority (threads s c)) \<le> p"
    using keep by (auto simp: keeps_def)
  obtain s' where s': "rt_schedule s = Some s'" "lists_inv s'" "only_thread c s s'"
    "threads s' c = (threads s c)\<lparr>stat_yield := False\<rparr>" "thread_lists s' = thread_lists s"
    using rt_schedule_keep [OF inv lock c(1) h(1) keep g] by blast
  have others: "threads s' u = threads s u" if "u \<noteq> c" for u using s'(3) that by (simp add: only_thread_def)
  have stat: "stat (threads s' u) = stat (threads s u)" for u using others s'(4) by (cases "u = c") simp_all
  have pri: "current_priority (threads s' u) = current_priority (threads s u)" for u using others s'(4) by (cases "u = c") simp_all
  have cur: "rt_current_thread s' = Some c" using s'(3) c(1) by (simp add: only_thread_def)
  have ex: "\<exists>l x y. threads s' u = (threads s u)\<lparr>tlist := l, stat := x, stat_yield := y\<rparr>" for u
  proof (cases "u = c")
    case True
    have "threads s' c = (threads s c)\<lparr>tlist := tlist (threads s c), stat := stat (threads s c), stat_yield := False\<rparr>"
      using s'(4) by simp
    then show ?thesis unfolding True by blast
  next
    case False
    then show ?thesis using others [OF False] thread_same by metis
  qed
  have r: "runnable (threads s' u) = runnable (threads s u)" for u by (simp add: runnable_def stat)
  have not_r: "threads s' u = threads s u" if "\<not> runnable (threads s u)" for u
    using that others [of u] run(1) by (cases "u = c") (auto simp: runnable_def)
  have "sched_inv s'"
    unfolding sched_inv_def using s'(2) L(6) c cur stat r by (auto simp: cur_ok_def)
  moreover have "sched_frame s s'"
    unfolding sched_frame_def using s'(3,5) not_r r ex by (simp add: only_thread_def)
  moreover have "settled s'"
  proof -
    have "current_priority (threads s c) \<le> current_priority (threads s u)" if "stat (threads s u) = RT_THREAD_READY" for u
      using ready_above [OF L(1) h(4) that] run(2) by (simp add: word_le_nat_alt)
    then show ?thesis using cur run(1) by (auto simp: settled_def stat pri)
  qed
  ultimately show ?thesis using s'(1) by (auto simp: scheduled_def)
qed

lemma rt_schedule_switch_ok:
  assumes inv: "sched_inv s" and lock: "rt_scheduler_lock_nest s = 0" and g: "rt_thread_ready_priority_group s \<noteq> 0"
    and c: "rt_current_thread s = Some c" "stat (threads s c) \<noteq> RT_THREAD_INIT" "stat (threads s c) \<noteq> RT_THREAD_READY"
      "\<And>t. stat (threads s t) = RT_THREAD_RUNNING \<Longrightarrow> t = c"
    and h: "highest_priority_thread s = Some (t, p)" "p < 32" "thread_lists s (Ready p) = t # ts"
      "\<forall>q < p. thread_lists s (Ready q) = []" "stat (threads s t) = RT_THREAD_READY" "unat (current_priority (threads s t)) = p"
    and no_keep: "\<not> keeps (threads s c) p"
  shows "\<exists>s'. rt_schedule s = Some s' \<and> scheduled s s'"
proof -
  note L = sched_inv_D [OF inv]
  obtain s' where s': "rt_schedule s = Some s'" "lists_inv s'" "rt_current_thread s' = Some t" "same_timers s s'" "t \<noteq> c"
    "threads s' t = (threads s t)\<lparr>tlist := None, stat := RT_THREAD_RUNNING\<rparr>"
    "threads s' c = (if stat (threads s c) = RT_THREAD_RUNNING
      then (threads s c)\<lparr>stat_yield := False, stat := RT_THREAD_READY, tlist := Some (Ready (unat (current_priority (threads s c))))\<rparr>
      else threads s c)"
    "\<forall>u. u \<noteq> t \<longrightarrow> u \<noteq> c \<longrightarrow> threads s' u = threads s u" "thread_lists s' = switch_lists c t s"
    using rt_schedule_switch [OF inv lock c(1) h(1) no_keep g] by blast
  have ex: "\<exists>l x y. threads s' u = (threads s u)\<lparr>tlist := l, stat := x, stat_yield := y\<rparr>" for u
  proof -
    consider "u = t" | "u = c" "stat (threads s c) = RT_THREAD_RUNNING" | "threads s' u = threads s u"
      using s'(7,8) by fastforce
    then show ?thesis
    proof cases
      case 1
      have "threads s' t = (threads s t)\<lparr>tlist := None, stat := RT_THREAD_RUNNING, stat_yield := stat_yield (threads s t)\<rparr>"
        using s'(6) by simp
      then show ?thesis unfolding 1 by blast
    next
      case 2
      then have "threads s' c = (threads s c)\<lparr>tlist := Some (Ready (unat (current_priority (threads s c)))),
          stat := RT_THREAD_READY, stat_yield := False\<rparr>" using s'(7) by simp
      then show ?thesis unfolding 2(1) by blast
    next
      case 3
      then show ?thesis using thread_same by metis
    qed
  qed
  have stat: "stat (threads s' u) = (if u = t then RT_THREAD_RUNNING
      else if u = c \<and> stat (threads s c) = RT_THREAD_RUNNING then RT_THREAD_READY else stat (threads s u))" for u
    using s'(5,6,7,8) by (cases "u = t"; cases "u = c") auto
  have pri: "current_priority (threads s' u) = current_priority (threads s u)" for u
    using ex [of u] by (elim exE) simp
  have r: "runnable (threads s' u) = runnable (threads s u)" for u
    using h(5) by (auto simp: runnable_def stat)
  have not_r: "threads s' u = threads s u" if "\<not> runnable (threads s u)" for u
    using that h(5) s'(7,8) by (cases "u = t"; cases "u = c") (auto simp: runnable_def)
  have "sched_inv s'"
    unfolding sched_inv_def
  proof (intro conjI)
    show "cur_ok s'" unfolding cur_ok_def using s'(3) c(4) by (auto simp: stat split: if_splits)
    show "runnable (threads s' idle)" using r L(6) by simp
  qed (rule s'(2))
  moreover have "sched_frame s s'"
  proof -
    have "switch_lists c t s l = thread_lists s l" if "\<not> is_ready l" for l
    proof -
      have "tlist (threads s t) = Some (Ready p)"
        using links_ok_D(2) [OF L(2), of t "Ready p"] h(3) by simp
      then have "t \<notin> set (thread_lists s l)" using links_ok_D(2) [OF L(2), of t l] that by auto
      then show ?thesis using that by (auto simp: switch_lists_def)
    qed
    then show ?thesis unfolding sched_frame_def using s'(4,9) ex r not_r by auto
  qed
  moreover have "settled s'"
  proof -
    have "current_priority (threads s t) \<le> current_priority (threads s u)" if "stat (threads s' u) = RT_THREAD_READY" for u
    proof (cases "u = c \<and> stat (threads s c) = RT_THREAD_RUNNING")
      case True
      then show ?thesis using no_keep h(6) by (auto simp: keeps_def word_le_nat_alt)
    next
      case False
      then have "stat (threads s u) = RT_THREAD_READY" using that by (auto simp: stat split: if_splits)
      from ready_above [OF L(1) h(4) this] show ?thesis using h(6) by (simp add: word_le_nat_alt)
    qed
    then show ?thesis using s'(3) by (auto simp: settled_def pri stat)
  qed
  ultimately show ?thesis using s'(1) by (auto simp: scheduled_def)
qed

lemma rt_schedule_ok:
  assumes inv: "sched_inv s"
  shows "\<exists>s'. rt_schedule s = Some s' \<and> sched_inv s' \<and> sched_frame s s' \<and> (rt_scheduler_lock_nest s = 0 \<longrightarrow> settled s')"
proof -
  obtain c where c: "rt_current_thread s = Some c" "stat (threads s c) \<noteq> RT_THREAD_INIT" "stat (threads s c) \<noteq> RT_THREAD_READY"
    "\<And>t. stat (threads s t) = RT_THREAD_RUNNING \<Longrightarrow> t = c"
    using current_thread [OF inv] by blast
  note L = sched_inv_D [OF inv]
  consider (lock) "rt_scheduler_lock_nest s \<noteq> 0" | (none) "rt_scheduler_lock_nest s = 0" "rt_thread_ready_priority_group s = 0"
    | (some) "rt_scheduler_lock_nest s = 0" "rt_thread_ready_priority_group s \<noteq> 0" by blast
  then show ?thesis
  proof cases
    case lock
    then show ?thesis using inv by (simp add: rt_schedule_def)
  next
    case none
    have "stat (threads s idle) = RT_THREAD_RUNNING" using L(6) group_zero [OF L(1) none(2)] by (auto simp: runnable_def)
    then have "settled s" using c group_zero [OF L(1) none(2)] by (auto simp: settled_def)
    then show ?thesis using none inv by (simp add: rt_schedule_def)
  next
    case some
    obtain t p ts where h: "highest_priority_thread s = Some (t, p)" "p < 32" "thread_lists s (Ready p) = t # ts"
      "\<forall>q < p. thread_lists s (Ready q) = []" "stat (threads s t) = RT_THREAD_READY" "unat (current_priority (threads s t)) = p"
      using highest_priority_thread_ok [OF L(1) some(2)] by blast
    have "\<exists>s'. rt_schedule s = Some s' \<and> scheduled s s'"
      using rt_schedule_keep_ok [OF inv some c h] rt_schedule_switch_ok [OF inv some c h] by blast
    then show ?thesis by (auto simp: scheduled_def)
  qed
qed

end
