(* ===== verification/Thread.thy ===== *)
theory Thread
  imports Sched
begin

text \<open>
  Threads and timers (\<open>rt-thread/src/thread.c\<close>, \<open>timer.c\<close>, \<open>clock.c\<close>): the invariant of the kernel's state, its
  preservation by suspending, resuming, the timers and the tick, and how long a thread sleeps.
\<close>

subsection \<open>Timer lists\<close>

definition timer_links :: "'a kernel_scheme \<Rightarrow> bool" where
  "timer_links s \<longleftrightarrow>
     (\<forall>l. distinct (timer_lists s l) \<and> (\<forall>i. i \<in> set (timer_lists s l) \<longleftrightarrow> row (timers s i) = Some l))"

text \<open>A timer's flags agree with the list it is in. A periodic timer has a time, which the code does not check.\<close>

definition timer_ok :: "timer_id \<Rightarrow> rt_timer \<Rightarrow> bool" where
  "timer_ok i t \<longleftrightarrow>
     (row t = None \<longrightarrow> \<not> activated t) \<and> (row t = Some Hard \<longrightarrow> activated t \<and> \<not> soft_timer t) \<and>
     (row t = Some Soft \<longrightarrow> activated t \<and> soft_timer t) \<and>
     (row t = Some Hard_Check \<or> row t = Some Soft_Check \<longrightarrow> activated t \<longrightarrow> periodic t) \<and>
     timer_init_tick t < TICK_HALF \<and> (periodic t \<longrightarrow> 0 < timer_init_tick t) \<and>
     (\<forall>x. i = Thread_Timer x \<longrightarrow> \<not> periodic t \<and> \<not> soft_timer t)"

text \<open>The ticks from one before the current one to the timer's, so that a timer that is due has 0 or 1.\<close>

definition remaining :: "'a kernel_scheme \<Rightarrow> timer_id \<Rightarrow> nat" where
  "remaining s i = unat (timeout_tick (timers s i) - (rt_tick s - 1))"

definition hard_sorted :: "'a kernel_scheme \<Rightarrow> bool" where
  "hard_sorted s \<longleftrightarrow>
     sorted_wrt (\<lambda>i j. remaining s i \<le> remaining s j) (timer_lists s Hard) \<and>
     (\<forall>i \<in> set (timer_lists s Hard). remaining s i \<le> unat TICK_HALF)"

definition timer_inv :: "'a kernel_scheme \<Rightarrow> bool" where
  "timer_inv s \<longleftrightarrow> timer_links s \<and> (\<forall>i. timer_ok i (timers s i)) \<and> hard_sorted s"

text \<open>A thread's timer is active only while the thread waits.\<close>

definition timed_ok :: "'a kernel_scheme \<Rightarrow> bool" where
  "timed_ok s \<longleftrightarrow> (\<forall>t. activated (timers s (Thread_Timer t)) \<longrightarrow> stat (threads s t) = RT_THREAD_SUSPEND)"

definition kernel_inv :: "'a kernel_scheme \<Rightarrow> bool" where
  "kernel_inv s \<longleftrightarrow> sched_inv s \<and> timer_inv s \<and> timed_ok s"

text \<open>Between the calls no check of the timers is under way, and no hard timer is overdue.\<close>

definition quiet :: "'a kernel_scheme \<Rightarrow> bool" where
  "quiet s \<longleftrightarrow> timer_lists s Hard_Check = [] \<and> timer_lists s Soft_Check = [] \<and>
     (\<forall>i \<in> set (timer_lists s Hard). 1 \<le> remaining s i)"

lemma upd_timer_simps [simp]:
  "timers (upd_timer i f s) = (timers s)(i := f (timers s i))" "timer_lists (upd_timer i f s) = timer_lists s"
  "threads (upd_timer i f s) = threads s" "thread_lists (upd_timer i f s) = thread_lists s"
  "rt_thread_ready_priority_group (upd_timer i f s) = rt_thread_ready_priority_group s"
  "rt_current_thread (upd_timer i f s) = rt_current_thread s" "rt_tick (upd_timer i f s) = rt_tick s"
  "rt_scheduler_lock_nest (upd_timer i f s) = rt_scheduler_lock_nest s"
  "soft_timer_busy (upd_timer i f s) = soft_timer_busy s" "fired (upd_timer i f s) = fired s"
  "rt_interrupt_nest (upd_timer i f s) = rt_interrupt_nest s"
  "kernel.more (upd_timer i f s) = kernel.more s"
  by (simp_all add: upd_timer_def)

lemma TICK_HALF: "TICK_HALF = 0x7FFFFFFF" by (simp add: TICK_HALF_def RT_TICK_MAX_def)

lemma timer_links_D:
  assumes "timer_links s"
  shows "distinct (timer_lists s l)" "i \<in> set (timer_lists s l) \<longleftrightarrow> row (timers s i) = Some l"
  using assms by (simp_all add: timer_links_def)

text \<open>What a step on the timers leaves alone, and the timers but for \<open>i\<close>.\<close>

definition only_timer :: "timer_id \<Rightarrow> 'a kernel_scheme \<Rightarrow> 'a kernel_scheme \<Rightarrow> bool" where
  "only_timer i s s' \<longleftrightarrow>
     threads s' = threads s \<and> thread_lists s' = thread_lists s \<and> rt_current_thread s' = rt_current_thread s \<and>
     rt_thread_ready_priority_group s' = rt_thread_ready_priority_group s \<and> rt_tick s' = rt_tick s \<and>
     rt_scheduler_lock_nest s' = rt_scheduler_lock_nest s \<and> fired s' = fired s \<and> soft_timer_busy s' = soft_timer_busy s \<and>
     kernel.more s' = kernel.more s \<and> rt_interrupt_nest s' = rt_interrupt_nest s \<and> (\<forall>j. j \<noteq> i \<longrightarrow> timers s' j = timers s j)"

lemma only_timer_refl [simp]: "only_timer i s s" by (simp add: only_timer_def)

lemma only_timer_trans: "only_timer i s s' \<Longrightarrow> only_timer i s' s'' \<Longrightarrow> only_timer i s s''"
  by (simp add: only_timer_def)

lemma only_timer_upd [simp]: "only_timer i s (upd_timer i f s') = only_timer i s s'"
  by (simp add: only_timer_def)

lemma timer_remove_ok:
  assumes "timer_links s"
  shows "timer_links (timer_remove i s)" "only_timer i s (timer_remove i s)"
    "timers (timer_remove i s) i = (timers s i)\<lparr>row := None\<rparr>"
    "timer_lists (timer_remove i s) l = removeAll i (timer_lists s l)"
proof -
  note d = timer_links_D [OF assms]
  have r: "removeAll i (timer_lists s l) = timer_lists s l" if "row (timers s i) \<noteq> Some l" for l
    using d(2) [of i l] that by simp
  have lists: "timer_lists (timer_remove i s) l = removeAll i (timer_lists s l)" for l
    using r [of l] distinct_remove1_removeAll [OF d(1) [of l], of i] by (auto simp: timer_remove_def split: option.splits)
  have ts: "timers (timer_remove i s) = (timers s)(i := (timers s i)\<lparr>row := None\<rparr>)"
    by (auto simp: timer_remove_def fun_eq_iff split: option.splits)
  show "timers (timer_remove i s) i = (timers s i)\<lparr>row := None\<rparr>" by (simp add: ts)
  show "timer_lists (timer_remove i s) l = removeAll i (timer_lists s l)" by (rule lists)
  show "timer_links (timer_remove i s)" using d by (auto simp: timer_links_def lists ts distinct_removeAll)
  show "only_timer i s (timer_remove i s)" by (auto simp: only_timer_def timer_remove_def split: option.splits)
qed

lemma link_timer_ok:
  assumes "timer_links s" "row (timers s i) = None" "distinct is" "set is = insert i (set (timer_lists s l))"
  shows "\<exists>s'. link_timer l i is s = Some s' \<and> timer_links s' \<and> only_timer i s s' \<and>
    timers s' i = (timers s i)\<lparr>row := Some l\<rparr> \<and> timer_lists s' = (timer_lists s)(l := is)"
  using assms(2-4) timer_links_D [OF assms(1)] by (auto simp: link_timer_def timer_links_def only_timer_def)

lemma remaining_cong:
  "rt_tick s' = rt_tick s \<Longrightarrow> timeout_tick (timers s' i) = timeout_tick (timers s i) \<Longrightarrow> remaining s' i = remaining s i"
  by (simp add: remaining_def)

text \<open>Taking timers out of the hard list keeps its order.\<close>

lemma sorted_wrt_removeAll: "sorted_wrt P xs \<Longrightarrow> sorted_wrt P (removeAll x xs)"
  by (induction xs) auto

lemma sorted_wrt_cong: "sorted_wrt P xs \<Longrightarrow> (\<And>x y. x \<in> set xs \<Longrightarrow> y \<in> set xs \<Longrightarrow> P x y \<Longrightarrow> Q x y) \<Longrightarrow> sorted_wrt Q xs"
  by (induction xs) auto

lemma hard_sorted_removeAll:
  assumes "hard_sorted s" "timer_lists s' Hard = removeAll i (timer_lists s Hard)" "rt_tick s' = rt_tick s"
    "\<And>j. j \<noteq> i \<Longrightarrow> timers s' j = timers s j"
  shows "hard_sorted s'"
proof -
  have rem: "remaining s' j = remaining s j" if "j \<noteq> i" for j
    by (rule remaining_cong) (simp_all add: assms(3) assms(4) [OF that])
  have "sorted_wrt (\<lambda>i j. remaining s i \<le> remaining s j) (removeAll i (timer_lists s Hard))"
    using assms(1) by (intro sorted_wrt_removeAll) (simp add: hard_sorted_def)
  then have "sorted_wrt (\<lambda>i j. remaining s' i \<le> remaining s' j) (removeAll i (timer_lists s Hard))"
    by (rule sorted_wrt_cong) (auto simp: rem)
  then show ?thesis using assms(1) rem by (auto simp: hard_sorted_def assms(2))
qed

text \<open>The place found for a timer keeps the list sorted: differences of ticks are compared modulo \<open>2 ^ 32\<close>.\<close>

lemma tick_less:
  fixes a b base :: u32
  assumes "unat (a - base) \<le> unat TICK_HALF" "1 \<le> unat (b - base)" "unat (b - base) \<le> unat TICK_HALF"
  shows "a - b = 0 \<longleftrightarrow> unat (a - base) = unat (b - base)"
    "a - b \<noteq> 0 \<Longrightarrow> a - b < TICK_HALF \<longleftrightarrow> unat (b - base) < unat (a - base)"
proof -
  let ?x = "a - base" and ?y = "b - base"
  have d: "a - b = ?x - ?y" by simp
  show "a - b = 0 \<longleftrightarrow> unat ?x = unat ?y" unfolding word_unat_eq_iff [symmetric] by auto
  show "a - b < TICK_HALF \<longleftrightarrow> unat ?y < unat ?x" if "a - b \<noteq> 0"
  proof (cases "?y \<le> ?x")
    case True
    then have "unat (a - b) = unat ?x - unat ?y" unfolding d by (rule unat_sub_le)
    then show ?thesis using assms that True
      by (auto simp: word_less_nat_alt word_le_nat_alt TICK_HALF word_unat_eq_iff)
  next
    case False
    then have "unat (a - b) = 2 ^ 32 + unat ?x - unat ?y"
      unfolding d by (subst unat_sub_if') (simp add: word_le_nat_alt)
    then show ?thesis using assms False by (auto simp: word_less_nat_alt word_le_nat_alt TICK_HALF)
  qed
qed

lemma set_timer_place: "set (timer_place ts i xs) = insert i (set xs)"
  by (induction xs) (auto simp: Let_def)

lemma distinct_timer_place: "distinct xs \<Longrightarrow> i \<notin> set xs \<Longrightarrow> distinct (timer_place ts i xs)"
  by (induction xs) (auto simp: set_timer_place)

lemma sorted_wrt_insert_mid:
  fixes f :: "'b \<Rightarrow> nat"
  assumes "sorted_wrt (\<lambda>i j. f i \<le> f j) xs"
  shows "sorted_wrt (\<lambda>i j. f i \<le> f j) (takeWhile (\<lambda>j. f j \<le> f i) xs @ i # dropWhile (\<lambda>j. f j \<le> f i) xs)"
  using assms
proof (induction xs)
  case (Cons x xs)
  have "set (takeWhile (\<lambda>j. f j \<le> f i) xs) \<subseteq> set xs" "set (dropWhile (\<lambda>j. f j \<le> f i) xs) \<subseteq> set xs"
    by (auto dest: set_takeWhileD set_dropWhileD)
  then show ?case using Cons by fastforce
qed simp

lemma timer_place_sorted:
  assumes "sorted_wrt (\<lambda>i j. rem i \<le> rem j) xs" "\<And>j. j \<in> insert i (set xs) \<Longrightarrow> rem j = unat (timeout_tick (ts j) - base)"
    "\<And>j. j \<in> set xs \<Longrightarrow> rem j \<le> unat TICK_HALF" "1 \<le> rem i" "rem i \<le> unat TICK_HALF"
  shows "timer_place ts i xs = takeWhile (\<lambda>j. rem j \<le> rem i) xs @ i # dropWhile (\<lambda>j. rem j \<le> rem i) xs"
  using assms
proof (induction xs)
  case (Cons j xs)
  have r: "rem j = unat (timeout_tick (ts j) - base)" "rem i = unat (timeout_tick (ts i) - base)" using Cons.prems(2) by simp_all
  have "rem j \<le> unat TICK_HALF" using Cons.prems(3) by simp
  note t = tick_less [of "timeout_tick (ts j)" base "timeout_tick (ts i)", folded r, OF this Cons.prems(4,5)]
  show ?case
  proof (cases "rem j \<le> rem i")
    case True
    then have "timer_place ts i (j # xs) = j # timer_place ts i xs" using t by auto
    moreover have "timer_place ts i xs = takeWhile (\<lambda>j. rem j \<le> rem i) xs @ i # dropWhile (\<lambda>j. rem j \<le> rem i) xs"
      by (rule Cons.IH) (use Cons.prems(1) in simp, rule Cons.prems(2), use Cons.prems(3-5) in auto)
    ultimately show ?thesis using True by simp
  next
    case False
    then show ?thesis using t by auto
  qed
qed simp

subsection \<open>Starting and stopping\<close>

lemma sched_inv_cong:
  "threads s' = threads s \<Longrightarrow> thread_lists s' = thread_lists s \<Longrightarrow> rt_current_thread s' = rt_current_thread s \<Longrightarrow>
    rt_thread_ready_priority_group s' = rt_thread_ready_priority_group s \<Longrightarrow> sched_inv s' = sched_inv s"
  by (simp add: sched_inv_def lists_inv_def links_ok_def group_ok_def cur_ok_def)

lemma sched_inv_timer: "only_timer i s s' \<Longrightarrow> sched_inv s' = sched_inv s"
  by (rule sched_inv_cong) (simp_all add: only_timer_def)

lemma kernel_inv_timer:
  assumes "kernel_inv s" "only_timer i s s'" "timer_inv s'"
    "\<And>t. i = Thread_Timer t \<Longrightarrow> activated (timers s' i) \<Longrightarrow> stat (threads s t) = RT_THREAD_SUSPEND"
  shows "kernel_inv s'"
proof -
  have "timed_ok s'"
    unfolding timed_ok_def
  proof (intro allI impI)
    fix t assume a: "activated (timers s' (Thread_Timer t))"
    show "stat (threads s' t) = RT_THREAD_SUSPEND"
      using assms(1,2) a assms(4) by (cases "i = Thread_Timer t") (auto simp: only_timer_def kernel_inv_def timed_ok_def)
  qed
  then show ?thesis using assms(1,3) sched_inv_timer [OF assms(2)] by (simp add: kernel_inv_def)
qed

lemma kernel_inv_D:
  assumes "kernel_inv s"
  shows "sched_inv s" "timer_inv s" "timer_links s" "timer_ok i (timers s i)" "hard_sorted s" "timed_ok s"
  using assms by (simp_all add: kernel_inv_def timer_inv_def)

lemma timer_inv_stopped:
  assumes inv: "timer_inv s" and o: "only_timer i s s'" and l: "timer_links s'"
    and t: "timer_ok i (timers s' i)" and h: "timer_lists s' Hard = removeAll i (timer_lists s Hard)"
  shows "timer_inv s'"
proof -
  have "timer_ok j (timers s' j)" for j
    using inv o t by (cases "j = i") (simp_all add: timer_inv_def only_timer_def)
  moreover have "hard_sorted s'"
    using inv o h by (intro hard_sorted_removeAll [of s s' i]) (simp_all add: timer_inv_def only_timer_def)
  ultimately show ?thesis using l by (simp add: timer_inv_def)
qed

lemma timer_links_upd: "timer_links s \<Longrightarrow> (\<And>t. row (f t) = row t) \<Longrightarrow> timer_links (upd_timer i f s)"
  by (simp add: timer_links_def)

lemma rt_timer_detach_ok:
  fixes s :: "'a kernel_scheme" and i :: timer_id
  assumes inv: "kernel_inv s"
  defines "s' \<equiv> rt_timer_detach i s"
  shows "kernel_inv s'" "only_timer i s s'" "\<not> activated (timers s' i)" "\<And>l. timer_lists s' l = removeAll i (timer_lists s l)"
proof -
  note r = timer_remove_ok [OF kernel_inv_D(3) [OF inv], of i]
  show o: "only_timer i s s'" using r(2) by (simp add: s'_def rt_timer_detach_def)
  have t: "timers s' i = (timers s i)\<lparr>row := None, activated := False\<rparr>" using r(3) by (simp add: s'_def rt_timer_detach_def)
  then show a: "\<not> activated (timers s' i)" by simp
  show lists: "timer_lists s' l = removeAll i (timer_lists s l)" for l using r(4) by (simp add: s'_def rt_timer_detach_def)
  have "timer_links s'" using r(1) by (simp add: s'_def rt_timer_detach_def timer_links_upd)
  moreover have "timer_ok i (timers s' i)" using kernel_inv_D(4) [OF inv, of i] by (simp add: t timer_ok_def)
  ultimately have "timer_inv s'" using timer_inv_stopped [OF kernel_inv_D(2) [OF inv] o] lists by blast
  then show "kernel_inv s'" using kernel_inv_timer [OF inv o] a by blast
qed

lemma rt_timer_stop_ok:
  fixes s :: "'a kernel_scheme" and i :: timer_id
  assumes inv: "kernel_inv s"
  defines "s' \<equiv> snd (rt_timer_stop i s)"
  shows "kernel_inv s'" "only_timer i s s'" "\<not> activated (timers s' i)" "set (timer_lists s' l) \<subseteq> set (timer_lists s l)"
proof -
  have e: "s' = (if activated (timers s i) then rt_timer_detach i s else s)"
    by (simp add: s'_def rt_timer_stop_def rt_timer_detach_def)
  show "kernel_inv s'" "only_timer i s s'" "\<not> activated (timers s' i)" "set (timer_lists s' l) \<subseteq> set (timer_lists s l)"
    using rt_timer_detach_ok [OF inv, of i] inv by (auto simp: e)
qed

lemma quiet_sub:
  assumes "quiet s" "\<And>l. set (timer_lists s' l) \<subseteq> set (timer_lists s l)" "rt_tick s' = rt_tick s"
    "\<And>j. j \<in> set (timer_lists s' Hard) \<Longrightarrow> timeout_tick (timers s' j) = timeout_tick (timers s j)"
  shows "quiet s'"
proof -
  have "remaining s' j = remaining s j" if "j \<in> set (timer_lists s' Hard)" for j
    by (rule remaining_cong) (simp_all add: assms(3) assms(4) [OF that])
  moreover have "timer_lists s' l = []" if "timer_lists s l = []" for l using assms(2) [of l] that by simp
  ultimately show ?thesis using assms(1) assms(2) [of Hard] unfolding quiet_def by fastforce
qed

lemma quiet_stop: "kernel_inv s \<Longrightarrow> quiet s \<Longrightarrow> quiet (snd (rt_timer_stop i s))"
proof -
  assume i: "kernel_inv s" and q: "quiet s"
  note k = rt_timer_stop_ok [OF i, of i]
  have row: "row (timers (snd (rt_timer_stop i s)) i) \<noteq> Some Hard"
    using kernel_inv_D(4) [OF k(1), of i] k(3) by (auto simp: timer_ok_def)
  show ?thesis
  proof (rule quiet_sub [OF q k(4)])
    show "rt_tick (snd (rt_timer_stop i s)) = rt_tick s" using k(2) by (simp add: only_timer_def)
    fix j assume "j \<in> set (timer_lists (snd (rt_timer_stop i s)) Hard)"
    then have "j \<noteq> i" using row timer_links_D(2) [OF kernel_inv_D(3) [OF k(1)]] by auto
    then show "timeout_tick (timers (snd (rt_timer_stop i s)) j) = timeout_tick (timers s j)" using k(2) by (simp add: only_timer_def)
  qed
qed

text \<open>Starting a timer of the hard list, whose own flags may still be those of a timer being restarted.\<close>

lemma rt_timer_start_hard:
  assumes l: "timer_links s" and others: "\<And>j. j \<noteq> i \<Longrightarrow> timer_ok j (timers s j)" and h: "hard_sorted s"
    and t: "timer_ok i ((timers s i)\<lparr>row := None, activated := False\<rparr>)" and hard: "\<not> soft_timer (timers s i)"
  shows "\<exists>s'. rt_timer_start i s = Some s' \<and> only_timer i s s' \<and> timer_inv s' \<and>
    timers s' i = (timers s i)\<lparr>row := Some Hard, activated := True, timeout_tick := rt_tick s + timer_init_tick (timers s i)\<rparr> \<and>
    set (timer_lists s' Hard) = insert i (set (timer_lists s Hard)) \<and>
    (\<forall>l. l \<noteq> Hard \<longrightarrow> timer_lists s' l = removeAll i (timer_lists s l))"
proof -
  let ?r = "timer_remove i s"
  note r = timer_remove_ok [OF l, of i]
  define s1 where "s1 = upd_timer i (\<lambda>t. t\<lparr>activated := False, timeout_tick := rt_tick ?r + timer_init_tick t\<rparr>) ?r"
  have tick: "rt_tick ?r = rt_tick s" "rt_tick s1 = rt_tick s" using r(2) by (simp_all add: s1_def only_timer_def)
  have t1: "timers s1 i = (timers s i)\<lparr>row := None, activated := False, timeout_tick := rt_tick s + timer_init_tick (timers s i)\<rparr>"
    using r(3) by (simp add: s1_def tick)
  have l1: "timer_links s1" unfolding s1_def using r(1) by (rule timer_links_upd) simp
  have lists1: "timer_lists s1 m = removeAll i (timer_lists s m)" for m using r(4) by (simp add: s1_def)
  have o1: "only_timer i s s1" using r(2) by (simp add: s1_def)
  have h1: "hard_sorted s1" using o1 by (intro hard_sorted_removeAll [OF h lists1]) (simp_all add: only_timer_def)
  have v: "timer_init_tick (timers s i) < TICK_HALF" using t by (simp add: timer_ok_def)
  have "rt_tick s + timer_init_tick (timers s i) - (rt_tick s - 1) = timer_init_tick (timers s i) + 1" by simp
  moreover have "unat (timer_init_tick (timers s i) + 1) = unat (timer_init_tick (timers s i)) + 1"
    using v by (subst unat_add_lt) (simp_all add: TICK_HALF word_less_nat_alt)
  ultimately have rem: "remaining s1 i = unat (timer_init_tick (timers s i)) + 1"
    using t1 by (simp add: remaining_def tick)
  then have rem': "1 \<le> remaining s1 i" "remaining s1 i \<le> unat TICK_HALF" using v by (simp_all add: word_less_nat_alt)
  let ?P = "\<lambda>j. remaining s1 j \<le> remaining s1 i"
  have place: "timer_place (timers s1) i (timer_lists s1 Hard) =
      takeWhile ?P (timer_lists s1 Hard) @ i # dropWhile ?P (timer_lists s1 Hard)"
    using h1 rem' by (intro timer_place_sorted [of "remaining s1" _ _ _ "rt_tick s1 - 1"]) (auto simp: hard_sorted_def remaining_def)
  let ?is = "timer_place (timers s1) i (timer_lists s1 Hard)"
  have d: "distinct ?is" "set ?is = insert i (set (timer_lists s1 Hard))"
    using timer_links_D(1) [OF l1] lists1 by (simp_all add: distinct_timer_place set_timer_place)
  obtain s2 where s2: "link_timer Hard i ?is s1 = Some s2" "timer_links s2" "only_timer i s1 s2"
    "timers s2 i = (timers s1 i)\<lparr>row := Some Hard\<rparr>" "timer_lists s2 = (timer_lists s1)(Hard := ?is)"
    using link_timer_ok [OF l1 _ d] t1 by auto
  define s' where "s' = upd_timer i (\<lambda>t. t\<lparr>activated := True\<rparr>) s2"
  have t': "timers s' i = (timers s i)\<lparr>row := Some Hard, activated := True, timeout_tick := rt_tick s + timer_init_tick (timers s i)\<rparr>"
    using s2(4) t1 by (simp add: s'_def)
  have o: "only_timer i s s'" using only_timer_trans [OF o1 s2(3)] by (simp add: s'_def)
  have "\<not> soft_timer (timers s1 i)" "\<not> soft_timer (timers s2 i)" using t1 s2(4) hard by simp_all
  then have start: "rt_timer_start i s = Some s'"
    unfolding rt_timer_start_def Let_def s1_def [symmetric] using s2(1) by (simp add: s'_def [symmetric])
  have remj: "remaining s' j = remaining s1 j" for j
    using s2(3,4) by (intro remaining_cong; cases "j = i") (simp_all add: s'_def only_timer_def)
  have "sorted_wrt (\<lambda>i j. remaining s1 i \<le> remaining s1 j) (timer_lists s1 Hard)"
    using h1 by (simp add: hard_sorted_def)
  then have "sorted_wrt (\<lambda>i j. remaining s1 i \<le> remaining s1 j) ?is"
    unfolding place using sorted_wrt_insert_mid [of "remaining s1"] by blast
  moreover have "timer_lists s' Hard = ?is" using s2(5) by (simp add: s'_def)
  ultimately have "hard_sorted s'"
    using h1 rem' d(2) unfolding hard_sorted_def remj by auto
  moreover have "timer_links s'" unfolding s'_def using s2(2) by (rule timer_links_upd) simp
  moreover have "timer_ok j (timers s' j)" for j
    using others [of j] o t t' hard by (cases "j = i") (auto simp: timer_ok_def only_timer_def)
  ultimately have "timer_inv s'" by (simp add: timer_inv_def)
  moreover have "set (timer_lists s' Hard) = insert i (set (timer_lists s Hard))" using s2(5) d(2) lists1 by (auto simp: s'_def)
  moreover have "\<forall>l. l \<noteq> Hard \<longrightarrow> timer_lists s' l = removeAll i (timer_lists s l)" using s2(5) lists1 by (simp add: s'_def)
  ultimately show ?thesis using start o t' by blast
qed

subsection \<open>Waking threads\<close>

text \<open>The current thread runs; and, unless the scheduler is locked, none that is ready has a higher priority.\<close>

definition cur_running :: "'a kernel_scheme \<Rightarrow> bool" where
  "cur_running s \<longleftrightarrow> (\<exists>c. rt_current_thread s = Some c \<and> stat (threads s c) = RT_THREAD_RUNNING)"

definition sound :: "'a kernel_scheme \<Rightarrow> bool" where
  "sound s \<longleftrightarrow> cur_running s \<and> (rt_scheduler_lock_nest s = 0 \<longrightarrow> settled s)"

lemma sound_running: "sound s \<Longrightarrow> cur_running s" by (simp add: sound_def)

lemma settled_running: "settled s \<Longrightarrow> cur_running s" by (auto simp: settled_def cur_running_def)

lemma sound_cong:
  "threads s' = threads s \<Longrightarrow> rt_current_thread s' = rt_current_thread s \<Longrightarrow>
    rt_scheduler_lock_nest s' = rt_scheduler_lock_nest s \<Longrightarrow> sound s' = sound s"
  by (simp add: sound_def cur_running_def settled_def)

lemma cur_running_only:
  "cur_running s \<Longrightarrow> only_thread t s s' \<Longrightarrow> stat (threads s t) \<noteq> RT_THREAD_RUNNING \<Longrightarrow> cur_running s'"
  by (auto simp: cur_running_def only_thread_def)

lemma cur_running_but:
  assumes "cur_running s" "rt_current_thread s' = rt_current_thread s" "threads s' = (threads s)(t := th)"
    "stat (threads s t) = RT_THREAD_SUSPEND"
  shows "cur_running s'"
proof -
  obtain c where c: "rt_current_thread s = Some c" "stat (threads s c) = RT_THREAD_RUNNING" using assms(1) by (auto simp: cur_running_def)
  then have "c \<noteq> t" using assms(4) by auto
  then have "stat (threads s' c) = RT_THREAD_RUNNING" unfolding assms(3) using c(2) by simp
  then show ?thesis using c(1) by (simp add: cur_running_def assms(2))
qed

definition same_data :: "rt_thread \<Rightarrow> rt_thread \<Rightarrow> bool" where
  "same_data th th' \<longleftrightarrow>
     current_priority th' = current_priority th \<and> number_mask th' = number_mask th \<and> event_set th' = event_set th \<and>
     event_info th' = event_info th"

lemma same_data_simps [simp]:
  "same_data th th" "same_data th (th\<lparr>tlist := l\<rparr>)" "same_data th (th\<lparr>stat := x\<rparr>)" "same_data th (th\<lparr>error := e\<rparr>)"
  by (simp_all add: same_data_def)

text \<open>
  A step that wakes the threads \<open>W\<close>, which leave the lists they waited in; every other thread that waits is as before,
  and those that run or are ready may change places.
\<close>

definition wakes :: "tid set \<Rightarrow> 'a kernel_scheme \<Rightarrow> 'a kernel_scheme \<Rightarrow> bool" where
  "wakes W s s' \<longleftrightarrow>
     rt_tick s' = rt_tick s \<and> rt_scheduler_lock_nest s' = rt_scheduler_lock_nest s \<and> kernel.more s' = kernel.more s \<and>
     fired s' = fired s \<and> rt_interrupt_nest s' = rt_interrupt_nest s \<and> (quiet s \<longrightarrow> quiet s') \<and>
     (\<forall>i. i \<notin> Thread_Timer ` W \<longrightarrow> timers s' i = timers s i) \<and>
     (\<forall>t. runnable (threads s' t) \<longleftrightarrow> runnable (threads s t) \<or> t \<in> W) \<and>
     (\<forall>t. t \<notin> W \<longrightarrow> \<not> runnable (threads s t) \<longrightarrow> threads s' t = threads s t) \<and>
     (\<forall>l. \<not> is_ready l \<longrightarrow> thread_lists s' l = filter (\<lambda>t. t \<notin> W) (thread_lists s l)) \<and>
     (\<forall>t. same_data (threads s t) (threads s' t)) \<and> (\<forall>t. t \<notin> W \<longrightarrow> error (threads s' t) = error (threads s t))"

lemma same_data_trans: "same_data a b \<Longrightarrow> same_data b c \<Longrightarrow> same_data a c"
  by (simp add: same_data_def)

lemma wakes_trans:
  assumes "wakes V s s'" "wakes W s' s''"
  shows "wakes (V \<union> W) s s''"
proof -
  have "same_data (threads s t) (threads s'' t)" for t
    using assms same_data_trans unfolding wakes_def by metis
  moreover have "threads s'' t = threads s t" if "t \<notin> V \<union> W" "\<not> runnable (threads s t)" for t
    using assms that by (simp add: wakes_def)
  moreover have "thread_lists s'' l = filter (\<lambda>t. t \<notin> V \<union> W) (thread_lists s l)" if "\<not> is_ready l" for l
    using assms that by (simp add: wakes_def conj_commute)
  moreover have "timers s'' i = timers s i" if "i \<notin> Thread_Timer ` (V \<union> W)" for i
    using assms that by (simp add: wakes_def image_Un)
  ultimately show ?thesis using assms unfolding wakes_def by auto
qed

lemma wakes_refl: "wakes {} s s" by (simp add: wakes_def)

lemma quiet_cong:
  "rt_tick s' = rt_tick s \<Longrightarrow> timers s' = timers s \<Longrightarrow> timer_lists s' = timer_lists s \<Longrightarrow> quiet s' = quiet s"
  by (simp add: quiet_def remaining_def)

lemma same_timers_quiet: "same_timers s s' \<Longrightarrow> quiet s' = quiet s"
  by (rule quiet_cong) (simp_all add: same_timers_def)

lemma same_timers_inv: "same_timers s s' \<Longrightarrow> timer_inv s' = timer_inv s"
  by (simp add: same_timers_def timer_inv_def timer_links_def hard_sorted_def remaining_def)

lemma sched_frame_wakes: "sched_frame s s' \<Longrightarrow> wakes {} s s'"
  using same_timers_quiet [of s s'] sched_frame_data [of s s']
  by (simp add: wakes_def sched_frame_def same_timers_def same_data_def)

lemma rt_schedule_kernel:
  assumes inv: "kernel_inv s"
  shows "\<exists>s'. rt_schedule s = Some s' \<and> kernel_inv s' \<and> wakes {} s s' \<and> same_timers s s' \<and>
    (rt_scheduler_lock_nest s = 0 \<longrightarrow> settled s') \<and> (cur_running s \<longrightarrow> sound s')"
proof -
  obtain s' where s': "rt_schedule s = Some s'" "sched_inv s'" "sched_frame s s'" "rt_scheduler_lock_nest s = 0 \<longrightarrow> settled s'"
    using rt_schedule_ok [OF kernel_inv_D(1) [OF inv]] by blast
  have st: "same_timers s s'" using s'(3) by (simp add: sched_frame_def)
  have "timed_ok s'"
    unfolding timed_ok_def
  proof (intro allI impI)
    fix t assume "activated (timers s' (Thread_Timer t))"
    then have "stat (threads s t) = RT_THREAD_SUSPEND"
      using kernel_inv_D(6) [OF inv] st by (simp add: timed_ok_def same_timers_def)
    then show "stat (threads s' t) = RT_THREAD_SUSPEND" using s'(3) by (simp add: sched_frame_def runnable_def)
  qed
  then have "kernel_inv s'"
    using s'(2) kernel_inv_D(2) [OF inv] same_timers_inv [OF st] by (simp add: kernel_inv_def)
  moreover have "sound s'" if "cur_running s"
  proof (cases "rt_scheduler_lock_nest s = 0")
    case True
    then show ?thesis using s'(4) settled_running by (simp add: sound_def)
  next
    case False
    then have "s' = s" using s'(1) by (simp add: rt_schedule_def)
    then show ?thesis using that False by (simp add: sound_def)
  qed
  ultimately show ?thesis using s' sched_frame_wakes st by blast
qed

lemma not_ready_list:
  assumes "sched_inv s" "stat (threads s t) \<noteq> RT_THREAD_READY"
  shows "t \<notin> set (thread_lists s (Ready p))"
proof
  assume "t \<in> set (thread_lists s (Ready p))"
  then have "tlist (threads s t) = Some (Ready p)" using links_ok_D(2) [OF sched_inv_D(2) [OF assms(1)]] by simp
  then show False using sched_inv_D(4) [OF assms(1), of t] assms(2) by (simp add: thread_ok_def place_ok_def)
qed

text \<open>A waiting thread is unlinked, and then made ready.\<close>

lemma unlink_waiting:
  assumes inv: "kernel_inv s" and st: "stat (threads s t) = RT_THREAD_SUSPEND"
  defines "s' \<equiv> rt_list_remove t s"
  shows "kernel_inv s'" "same_timers s s'" "threads s' = (threads s)(t := (threads s t)\<lparr>tlist := None\<rparr>)"
    "rt_current_thread s' = rt_current_thread s" "\<And>l. thread_lists s' l = removeAll t (thread_lists s l)"
proof -
  note S = kernel_inv_D(1) [OF inv]
  note r = rt_list_remove_ok [OF sched_inv_D(2) [OF S], of t]
  show o: "same_timers s s'" "rt_current_thread s' = rt_current_thread s" using r(2) by (simp_all add: s'_def only_thread_def)
  show lists: "thread_lists s' l = removeAll t (thread_lists s l)" for l by (simp add: s'_def r(4))
  show th: "threads s' = (threads s)(t := (threads s t)\<lparr>tlist := None\<rparr>)"
    using r(2,3) by (auto simp: s'_def only_thread_def fun_eq_iff)
  have "thread_lists s' (Ready p) = thread_lists s (Ready p)" for p
    using not_ready_list [OF S, of t] st by (simp add: lists)
  then have "group_ok s'" using sched_inv_D(3) [OF S] r(5) by (simp add: group_ok_def s'_def)
  moreover have "thread_ok (threads s' u)" for u
    using sched_inv_D(4) [OF S, of u] st by (auto simp: th thread_ok_def place_ok_def)
  ultimately have "sched_inv s'"
    using r(1) S st o(2) by (auto simp: sched_inv_def lists_inv_def cur_ok_def th s'_def [symmetric])
  moreover have "timed_ok s'" using kernel_inv_D(6) [OF inv] o(1) by (simp add: timed_ok_def th same_timers_def)
  ultimately show "kernel_inv s'" using same_timers_inv [OF o(1)] kernel_inv_D(2) [OF inv] by (simp add: kernel_inv_def)
qed

lemma insert_waiting:
  assumes inv: "kernel_inv s" and st: "stat (threads s t) = RT_THREAD_SUSPEND" "tlist (threads s t) = None"
    and off: "\<not> activated (timers s (Thread_Timer t))"
  shows "\<exists>s'. rt_schedule_insert_thread t s = Some s' \<and> kernel_inv s' \<and> wakes {t} s s' \<and> same_timers s s' \<and>
    error (threads s' t) = error (threads s t) \<and> (cur_running s \<longrightarrow> cur_running s')"
proof -
  note S = kernel_inv_D(1) [OF inv]
  have nin: "t \<notin> set (thread_lists s l)" for l using links_ok_D(2) [OF sched_inv_D(2) [OF S]] st(2) by simp
  have rem: "filter (\<lambda>u. u \<noteq> t) (thread_lists s l) = thread_lists s l" for l
    by (rule filter_True) (use nin [of l] in auto)
  have pr: "prio_ok (threads s t)" using sched_inv_D(4) [OF S] by (simp add: thread_ok_def)
  have ne: "stat (threads s t) \<noteq> RT_THREAD_INIT" "t \<noteq> idle" using st(1) sched_inv_D(6) [OF S] by (auto simp: runnable_def)
  have "\<exists>s'. rt_schedule_insert_thread t s = Some s' \<and> lists_inv s' \<and> only_thread t s s' \<and> cur_ok s' \<and>
      (\<exists>x l. threads s' t = (threads s t)\<lparr>stat := x, tlist := l\<rparr> \<and> runnable (threads s' t)) \<and>
      (\<forall>l. \<not> is_ready l \<longrightarrow> thread_lists s' l = thread_lists s l)"
  proof (cases "rt_current_thread s = Some t")
    case True
    let ?s' = "upd_thread t (\<lambda>th. th\<lparr>stat := RT_THREAD_RUNNING\<rparr>) s"
    have "lists_inv ?s'"
      by (rule lists_inv_upd) (use sched_inv_D(1,4) [OF S] st pr in \<open>auto simp: thread_ok_def place_ok_def prio_ok_def\<close>)
    moreover have "cur_ok ?s'" using sched_inv_D(5) [OF S] True by (auto simp: cur_ok_def)
    moreover have "threads ?s' t = (threads s t)\<lparr>stat := RT_THREAD_RUNNING, tlist := None\<rparr>" using st(2) by simp
    ultimately show ?thesis
      using True by (intro exI [of _ ?s']) (auto simp: rt_schedule_insert_thread_def)
  next
    case False
    have but: "lists_inv_but t s" using sched_inv_D(1) [OF S] st(2) by (rule lists_inv_but_intro)
    obtain s' where s': "rt_schedule_insert_thread t s = Some s'" "lists_inv s'" "only_thread t s s'"
      "threads s' t = (threads s t)\<lparr>stat := RT_THREAD_READY, tlist := Some (Ready (unat (current_priority (threads s t))))\<rparr>"
      "thread_lists s' = (thread_lists s)(Ready (unat (current_priority (threads s t))) :=
        (if stat_yield (threads s t) then thread_lists s (Ready (unat (current_priority (threads s t)))) @ [t]
         else t # thread_lists s (Ready (unat (current_priority (threads s t))))))"
      using rt_schedule_insert_thread_ok [OF but pr ne(1) False] by blast
    have t': "stat (threads s' t) = RT_THREAD_READY" using s'(4) by simp
    have cur: "rt_current_thread s' = rt_current_thread s" using s'(3) by (simp add: only_thread_def)
    obtain c where c: "rt_current_thread s = Some c" "stat (threads s c) \<noteq> RT_THREAD_INIT"
      "stat (threads s c) \<noteq> RT_THREAD_READY" "\<And>u. stat (threads s u) = RT_THREAD_RUNNING \<Longrightarrow> u = c"
      using current_thread [OF S] by blast
    have "c \<noteq> t" using c(1) False by auto
    then have "threads s' c = threads s c" using s'(3) by (simp add: only_thread_def)
    moreover have "u = c" if "stat (threads s' u) = RT_THREAD_RUNNING" for u
      using that t' c(4) s'(3) by (cases "u = t") (simp_all add: only_thread_def)
    ultimately have "cur_ok s'" using c(1-3) cur by (auto simp: cur_ok_def)
    then show ?thesis using s' by auto
  qed
  then obtain s' x l where s': "rt_schedule_insert_thread t s = Some s'" "lists_inv s'" "only_thread t s s'" "cur_ok s'"
    "threads s' t = (threads s t)\<lparr>stat := x, tlist := l\<rparr>" "runnable (threads s' t)"
    "\<forall>l. \<not> is_ready l \<longrightarrow> thread_lists s' l = thread_lists s l" by blast
  have th: "threads s' u = threads s u" if "u \<noteq> t" for u using s'(3) that by (simp add: only_thread_def)
  have sm: "same_timers s s'" using s'(3) by (simp add: only_thread_def)
  have "sched_inv s'" using s'(2,4) ne(2) th [of idle] sched_inv_D(6) [OF S] by (simp add: sched_inv_def)
  moreover have "timed_ok s'"
    unfolding timed_ok_def
  proof (intro allI impI)
    fix u assume a: "activated (timers s' (Thread_Timer u))"
    then have "u \<noteq> t" using off sm by (auto simp: same_timers_def)
    then show "stat (threads s' u) = RT_THREAD_SUSPEND"
      using a kernel_inv_D(6) [OF inv] th sm by (simp add: timed_ok_def same_timers_def)
  qed
  ultimately have "kernel_inv s'" using same_timers_inv [OF sm] kernel_inv_D(2) [OF inv] by (simp add: kernel_inv_def)
  moreover have "wakes {t} s s'"
  proof -
    have "same_data (threads s u) (threads s' u)" for u
      using th s'(5) by (cases "u = t") (simp_all add: same_data_def)
    moreover have "runnable (threads s' u) = (runnable (threads s u) \<or> u = t)" for u
      using th s'(6) by (cases "u = t") simp_all
    ultimately show ?thesis
      using s'(7) th sm same_timers_quiet [OF sm] rem by (auto simp: wakes_def same_timers_def)
  qed
  moreover have "cur_running s \<longrightarrow> cur_running s'" using cur_running_only [OF _ s'(3)] st(1) by simp
  ultimately show ?thesis using s'(1,5) sm by auto
qed

lemma rt_thread_resume_ok:
  assumes inv: "kernel_inv s" and st: "stat (threads s t) = RT_THREAD_SUSPEND"
  shows "\<exists>s'. rt_thread_resume t s = Some (RT_EOK, s') \<and> kernel_inv s' \<and> wakes {t} s s' \<and>
    error (threads s' t) = error (threads s t) \<and> (cur_running s \<longrightarrow> cur_running s')"
proof -
  let ?s1 = "rt_list_remove t s"
  note u = unlink_waiting [OF inv st]
  let ?s2 = "snd (rt_timer_stop (Thread_Timer t) ?s1)"
  note k = rt_timer_stop_ok [OF u(1), of "Thread_Timer t"]
  have th: "threads ?s2 = (threads s)(t := (threads s t)\<lparr>tlist := None\<rparr>)" using k(2) u(3) by (simp add: only_timer_def)
  have lists: "thread_lists ?s2 l = removeAll t (thread_lists s l)" for l using k(2) u(5) by (simp add: only_timer_def)
  obtain s' where s': "rt_schedule_insert_thread t ?s2 = Some s'" "kernel_inv s'" "wakes {t} ?s2 s'"
    "error (threads s' t) = error (threads ?s2 t)" "cur_running ?s2 \<longrightarrow> cur_running s'"
    using insert_waiting [OF k(1), of t] st k(3) by (auto simp: th)
  have "rt_current_thread ?s2 = rt_current_thread s" using k(2) u(4) by (simp add: only_timer_def)
  then have c: "cur_running s \<Longrightarrow> cur_running ?s2" using cur_running_but th st by blast
  have r: "rt_thread_resume t s = Some (RT_EOK, s')" using st s'(1) by (simp add: rt_thread_resume_def)
  have q: "quiet s \<Longrightarrow> quiet ?s2" using same_timers_quiet [OF u(2)] quiet_stop [OF u(1)] by simp
  have data: "same_data (threads s v) (threads ?s2 v)" for v by (simp add: th)
  have "wakes {t} s s'"
    unfolding wakes_def
  proof (intro conjI allI impI)
    show "quiet s'" if "quiet s" using q [OF that] s'(3) by (simp add: wakes_def)
    show "timers s' i = timers s i" if "i \<notin> Thread_Timer ` {t}" for i
      using that s'(3) k(2) u(2) by (simp add: wakes_def only_timer_def same_timers_def)
    show "runnable (threads s' v) = (runnable (threads s v) \<or> v \<in> {t})" for v using s'(3) by (simp add: wakes_def th)
    show "threads s' v = threads s v" if "v \<notin> {t}" "\<not> runnable (threads s v)" for v
      using that s'(3) by (simp add: wakes_def th)
    show "thread_lists s' l = filter (\<lambda>v. v \<notin> {t}) (thread_lists s l)" if "\<not> is_ready l" for l
      using that s'(3) by (simp add: wakes_def lists removeAll_filter)
    show "same_data (threads s v) (threads s' v)" for v using s'(3) data same_data_trans unfolding wakes_def by metis
    show "error (threads s' v) = error (threads s v)" if "v \<notin> {t}" for v using that s'(3) by (simp add: wakes_def th)
  qed (use s'(3) k(2) u(2) in \<open>simp_all add: wakes_def only_timer_def same_timers_def\<close>)
  then show ?thesis using r s' c by (auto simp: th)
qed

subsection \<open>Waiting\<close>

text \<open>
  The current thread \<open>t\<close> gives the processor up: it waits, in the lists \<open>L\<close>. Between the steps of this
  (\<open>gives_up\<close>) it is still the current thread.
\<close>

definition waits :: "tid \<Rightarrow> (list_id \<Rightarrow> tid list) \<Rightarrow> 'a kernel_scheme \<Rightarrow> 'a kernel_scheme \<Rightarrow> bool" where
  "waits t L s s' \<longleftrightarrow>
     rt_tick s' = rt_tick s \<and> rt_scheduler_lock_nest s' = rt_scheduler_lock_nest s \<and> kernel.more s' = kernel.more s \<and>
     fired s' = fired s \<and> rt_interrupt_nest s' = rt_interrupt_nest s \<and> (quiet s \<longrightarrow> quiet s') \<and>
     (\<forall>i. i \<noteq> Thread_Timer t \<longrightarrow> timers s' i = timers s i) \<and>
     (\<forall>u. u \<noteq> t \<longrightarrow> runnable (threads s' u) = runnable (threads s u)) \<and>
     (\<forall>u. u \<noteq> t \<longrightarrow> \<not> runnable (threads s u) \<longrightarrow> threads s' u = threads s u) \<and>
     (\<forall>l. \<not> is_ready l \<longrightarrow> thread_lists s' l = L l) \<and>
     (\<forall>u. same_data (threads s u) (threads s' u)) \<and> (\<forall>u. error (threads s' u) = error (threads s u)) \<and>
     stat (threads s' t) = RT_THREAD_SUSPEND"

definition gives_up :: "tid \<Rightarrow> (list_id \<Rightarrow> tid list) \<Rightarrow> 'a kernel_scheme \<Rightarrow> 'a kernel_scheme \<Rightarrow> bool" where
  "gives_up t L s s' \<longleftrightarrow> waits t L s s' \<and> rt_current_thread s' = Some t \<and> (\<forall>u. u \<noteq> t \<longrightarrow> threads s' u = threads s u)"

lemma waits_scheduled:
  assumes "waits t L s s'" "wakes {} s' s''"
  shows "waits t L s s''"
proof -
  have "stat (threads s'' t) = RT_THREAD_SUSPEND"
  proof -
    have "\<not> runnable (threads s' t)" using assms(1) by (simp add: waits_def runnable_def)
    then show ?thesis using assms by (simp add: waits_def wakes_def)
  qed
  moreover have "same_data (threads s u) (threads s'' u)" for u
    using assms same_data_trans unfolding waits_def wakes_def by metis
  ultimately show ?thesis using assms by (simp add: waits_def wakes_def)
qed

lemma rt_thread_suspend_ok:
  assumes inv: "kernel_inv s" and c: "rt_current_thread s = Some t" "stat (threads s t) = RT_THREAD_RUNNING" "t \<noteq> idle"
  shows "\<exists>s'. rt_thread_suspend t s = Some (RT_EOK, s') \<and> kernel_inv s' \<and> gives_up t (thread_lists s) s s' \<and>
    threads s' t = (threads s t)\<lparr>stat := RT_THREAD_SUSPEND\<rparr> \<and> tlist (threads s' t) = None \<and>
    thread_lists s' = thread_lists s \<and> \<not> activated (timers s' (Thread_Timer t))"
proof -
  note S = kernel_inv_D(1) [OF inv]
  have tl: "tlist (threads s t) = None" using running_unlinked [OF sched_inv_D(4) [OF S] c(2)] .
  obtain s1 where s1: "rt_schedule_remove_thread t s = Some s1" "lists_inv_but t s1" "only_thread t s s1"
    "threads s1 t = (threads s t)\<lparr>tlist := None\<rparr>" "\<forall>l. thread_lists s1 l = removeAll t (thread_lists s l)"
    using rt_schedule_remove_thread_ok [OF sched_inv_D(1) [OF S], of t] c(2) by auto
  have t1: "threads s1 t = threads s t"
    using s1(4) tl by (cases "threads s t") simp
  have lists: "thread_lists s1 = thread_lists s"
    using s1(5) removeAll_thread_lists [OF sched_inv_D(2) [OF S] tl] by auto
  define s2 where "s2 = upd_thread t (\<lambda>th. th\<lparr>stat := RT_THREAD_SUSPEND\<rparr>) s1"
  have th2: "threads s2 = (threads s)(t := (threads s t)\<lparr>stat := RT_THREAD_SUSPEND\<rparr>)"
    using s1(3) t1 by (auto simp: s2_def only_thread_def fun_eq_iff)
  have sm: "same_timers s s2" using s1(3) by (simp add: s2_def only_thread_def)
  have cur: "rt_current_thread s2 = Some t" using s1(3) c(1) by (simp add: s2_def only_thread_def)
  have "lists_inv_but t s2" using s1(2) by (simp add: s2_def lists_inv_but_def links_ok_def group_ok_def)
  moreover have "thread_ok (threads s2 t)"
    using sched_inv_D(4) [OF S, of t] tl c(2) by (simp add: th2 thread_ok_def place_ok_def prio_ok_def)
  ultimately have "lists_inv s2" by (rule lists_inv_but_done)
  moreover have "cur_ok s2" using sched_inv_D(5) [OF S] c(1) cur by (auto simp: cur_ok_def th2)
  ultimately have "sched_inv s2" using sched_inv_D(6) [OF S] c(3) by (simp add: sched_inv_def th2)
  moreover have "timed_ok s2" using kernel_inv_D(6) [OF inv] sm by (simp add: timed_ok_def th2 same_timers_def)
  ultimately have k2: "kernel_inv s2" using same_timers_inv [OF sm] kernel_inv_D(2) [OF inv] by (simp add: kernel_inv_def)
  let ?s' = "snd (rt_timer_stop (Thread_Timer t) s2)"
  note k = rt_timer_stop_ok [OF k2, of "Thread_Timer t"]
  have r: "rt_thread_suspend t s = Some (RT_EOK, ?s')" using c s1(1) by (simp add: rt_thread_suspend_def s2_def)
  have q: "quiet ?s'" if "quiet s" using that same_timers_quiet [OF sm] quiet_stop [OF k2] by simp
  have th: "threads ?s' = (threads s)(t := (threads s t)\<lparr>stat := RT_THREAD_SUSPEND\<rparr>)" using k(2) by (simp add: only_timer_def th2)
  have lists': "thread_lists ?s' = thread_lists s" using k(2) lists by (simp add: only_timer_def s2_def)
  have f: "rt_tick ?s' = rt_tick s" "rt_scheduler_lock_nest ?s' = rt_scheduler_lock_nest s" "kernel.more ?s' = kernel.more s"
    "rt_interrupt_nest ?s' = rt_interrupt_nest s" "fired ?s' = fired s" "\<forall>i. i \<noteq> Thread_Timer t \<longrightarrow> timers ?s' i = timers s i" "rt_current_thread ?s' = Some t"
    using k(2) sm cur by (simp_all add: only_timer_def same_timers_def)
  have "gives_up t (thread_lists s) s ?s'"
    unfolding gives_up_def waits_def th lists' using f q by simp
  then show ?thesis using r k th lists' tl by auto
qed

text \<open>The thread's timer is started while the thread gives up the processor.\<close>

lemma start_thread_timer_ok:
  assumes inv: "kernel_inv s" and g: "gives_up t L s0 s" and v: "v < TICK_HALF"
  shows "\<exists>s'. start_thread_timer t v s = Some s' \<and> kernel_inv s' \<and> gives_up t L s0 s' \<and> threads s' = threads s \<and>
    activated (timers s' (Thread_Timer t)) \<and> timeout_tick (timers s' (Thread_Timer t)) = rt_tick s + v"
proof -
  let ?i = "Thread_Timer t"
  define s1 where "s1 = upd_timer ?i (\<lambda>t. t\<lparr>timer_init_tick := v\<rparr>) s"
  have ok: "timer_ok j (timers s j)" for j using kernel_inv_D(4) [OF inv] .
  have l1: "timer_links s1" unfolding s1_def using kernel_inv_D(3) [OF inv] by (rule timer_links_upd) simp
  have rem: "remaining s1 j = remaining s j" for j by (rule remaining_cong) (simp_all add: s1_def)
  have h1: "hard_sorted s1" using kernel_inv_D(5) [OF inv] by (simp add: hard_sorted_def rem) (simp add: s1_def)
  have i1: "timer_ok ?i ((timers s1 ?i)\<lparr>row := None, activated := False\<rparr>)" "\<not> soft_timer (timers s1 ?i)"
    using ok [of ?i] v by (simp_all add: s1_def timer_ok_def)
  have others: "timer_ok j (timers s1 j)" if "j \<noteq> ?i" for j using ok that by (simp add: s1_def)
  obtain s' where s': "rt_timer_start ?i s1 = Some s'" "only_timer ?i s1 s'" "timer_inv s'"
    "timers s' ?i = (timers s1 ?i)\<lparr>row := Some Hard, activated := True, timeout_tick := rt_tick s1 + timer_init_tick (timers s1 ?i)\<rparr>"
    "set (timer_lists s' Hard) = insert ?i (set (timer_lists s1 Hard))"
    "\<forall>l. l \<noteq> Hard \<longrightarrow> timer_lists s' l = removeAll ?i (timer_lists s1 l)"
    using rt_timer_start_hard [OF l1 others h1 i1] by blast
  have o: "only_timer ?i s s'" using s'(2) by (simp add: s1_def only_timer_def)
  have t': "timeout_tick (timers s' ?i) = rt_tick s + v" using s'(4) by (simp add: s1_def)
  have st: "stat (threads s t) = RT_THREAD_SUSPEND" using g by (simp add: gives_up_def waits_def)
  have "kernel_inv s'" using kernel_inv_timer [OF inv o s'(3)] st by simp
  moreover have "start_thread_timer t v s = Some s'"
    using v s'(1) by (simp add: start_thread_timer_def rt_timer_control_def s1_def)
  moreover have "quiet s'" if "quiet s"
  proof -
    have e: "rt_tick s + v - (rt_tick s - 1) = v + 1" by simp
    have "unat (rt_tick s + v - (rt_tick s - 1)) = unat v + 1"
      unfolding e using v by (subst unat_add_lt) (simp_all add: TICK_HALF word_less_nat_alt)
    then have "1 \<le> remaining s' ?i" using o t' by (simp add: remaining_def only_timer_def)
    moreover have "remaining s' j = remaining s j" if "j \<noteq> ?i" for j
      using o that by (intro remaining_cong) (simp_all add: only_timer_def)
    ultimately have "1 \<le> remaining s' j" if "j \<in> set (timer_lists s' Hard)" for j
      using that \<open>quiet s\<close> s'(5) by (cases "j = ?i") (auto simp: quiet_def s1_def)
    then show ?thesis using that s'(6) by (simp add: quiet_def s1_def)
  qed
  ultimately show ?thesis using g o s'(4) t' by (auto simp: gives_up_def waits_def only_timer_def)
qed

lemma kernel_inv_upd:
  assumes inv: "kernel_inv s" and f: "\<And>th. tlist (f th) = tlist th" "\<And>th. stat (f th) = stat th"
    "\<And>th. current_priority (f th) = current_priority th" "\<And>th. number_mask (f th) = number_mask th"
  shows "kernel_inv (upd_thread t f s)"
proof -
  note S = kernel_inv_D(1) [OF inv]
  have stat: "stat (threads (upd_thread t f s) u) = stat (threads s u)" for u by (simp add: f)
  have "thread_ok (f (threads s t))" using sched_inv_D(4) [OF S, of t] thread_ok_cong [of "f (threads s t)" "threads s t"] f by simp
  then have "lists_inv (upd_thread t f s)" by (intro lists_inv_upd [OF sched_inv_D(1) [OF S]]) (simp_all add: f)
  moreover have "cur_ok (upd_thread t f s)" using sched_inv_D(5) [OF S] unfolding cur_ok_def stat by simp
  moreover have "runnable (threads (upd_thread t f s) idle)" using sched_inv_D(6) [OF S] unfolding runnable_def stat .
  moreover have "timed_ok (upd_thread t f s)" using kernel_inv_D(6) [OF inv] unfolding timed_ok_def stat by simp
  moreover have "timer_inv (upd_thread t f s)" using kernel_inv_D(2) [OF inv] same_timers_inv [of s "upd_thread t f s"] by simp
  ultimately show ?thesis by (simp add: kernel_inv_def sched_inv_def)
qed

lemma kernel_inv_fired [simp]: "kernel_inv (s\<lparr>fired := x\<rparr>) = kernel_inv s"
  by (simp add: kernel_inv_def sched_inv_def lists_inv_def links_ok_def group_ok_def cur_ok_def timer_inv_def timer_links_def
      hard_sorted_def remaining_def timed_ok_def)

subsection \<open>Timers that are due\<close>

text \<open>The threads \<open>W\<close> are woken because their time is over.\<close>

definition times_out :: "tid set \<Rightarrow> 'a kernel_scheme \<Rightarrow> 'a kernel_scheme \<Rightarrow> bool" where
  "times_out W s s' \<longleftrightarrow>
     rt_scheduler_lock_nest s' = rt_scheduler_lock_nest s \<and> kernel.more s' = kernel.more s \<and>
     rt_interrupt_nest s' = rt_interrupt_nest s \<and>
     (\<forall>t. t \<notin> W \<longrightarrow> timers s' (Thread_Timer t) = timers s (Thread_Timer t)) \<and>
     (\<forall>t. runnable (threads s' t) \<longleftrightarrow> runnable (threads s t) \<or> t \<in> W) \<and>
     (\<forall>t. t \<notin> W \<longrightarrow> \<not> runnable (threads s t) \<longrightarrow> threads s' t = threads s t) \<and>
     (\<forall>l. \<not> is_ready l \<longrightarrow> thread_lists s' l = filter (\<lambda>t. t \<notin> W) (thread_lists s l)) \<and>
     (\<forall>t. same_data (threads s t) (threads s' t)) \<and>
     (\<forall>t. error (threads s' t) = (if t \<in> W then - RT_ETIMEOUT else error (threads s t)))"

lemma times_out_trans:
  assumes "times_out V s s'" "times_out W s' s''"
  shows "times_out (V \<union> W) s s''"
proof -
  have "same_data (threads s t) (threads s'' t)" for t
    using assms same_data_trans unfolding times_out_def by metis
  moreover have "threads s'' t = threads s t" if "t \<notin> V \<union> W" "\<not> runnable (threads s t)" for t
    using assms that by (simp add: times_out_def)
  moreover have "thread_lists s'' l = filter (\<lambda>t. t \<notin> V \<union> W) (thread_lists s l)" if "\<not> is_ready l" for l
    using assms that by (simp add: times_out_def conj_commute)
  ultimately show ?thesis using assms unfolding times_out_def by auto
qed

lemma times_out_refl: "times_out {} s s" by (simp add: times_out_def)

lemma times_out_timer: "only_timer i s s' \<Longrightarrow> (\<And>t. i \<noteq> Thread_Timer t) \<Longrightarrow> times_out {} s s'"
  by (simp add: times_out_def only_timer_def) metis

text \<open>A timer has been taken from the hard list to the list of the check.\<close>

definition expiring :: "timer_id \<Rightarrow> 'a kernel_scheme \<Rightarrow> 'a kernel_scheme option" where
  "expiring i s =
     link_timer Hard_Check i (i # timer_lists (timer_remove i s) Hard_Check)
       (if periodic (timers (timer_remove i s) i) then timer_remove i s
        else upd_timer i (\<lambda>t. t\<lparr>activated := False\<rparr>) (timer_remove i s))"

lemma expiring_ok:
  assumes inv: "kernel_inv s" and i: "i \<in> set (timer_lists s Hard)" and chk: "timer_lists s Hard_Check = []"
  shows "\<exists>s'. expiring i s = Some s' \<and> kernel_inv s' \<and> only_timer i s s' \<and>
    timers s' i = (timers s i)\<lparr>row := Some Hard_Check, activated := periodic (timers s i)\<rparr> \<and>
    timer_lists s' = (timer_lists s)(Hard := removeAll i (timer_lists s Hard), Hard_Check := [i])"
proof -
  note r = timer_remove_ok [OF kernel_inv_D(3) [OF inv], of i]
  have row: "row (timers s i) = Some Hard" using timer_links_D(2) [OF kernel_inv_D(3) [OF inv]] i by blast
  then have act: "activated (timers s i)" "\<not> soft_timer (timers s i)" using kernel_inv_D(4) [OF inv, of i] by (simp_all add: timer_ok_def)
  define s1 where "s1 = (if periodic (timers (timer_remove i s) i) then timer_remove i s
        else upd_timer i (\<lambda>t. t\<lparr>activated := False\<rparr>) (timer_remove i s))"
  have t1: "timers s1 i = (timers s i)\<lparr>row := None, activated := periodic (timers s i)\<rparr>"
    using r(3) act by (cases "timers s i") (simp add: s1_def)
  have l1: "timer_links s1" using r(1) by (simp add: s1_def timer_links_upd)
  have o1: "only_timer i s s1" using r(2) by (simp add: s1_def)
  have nin: "removeAll i (timer_lists s l) = timer_lists s l" if "l \<noteq> Hard" for l
    using timer_links_D(2) [OF kernel_inv_D(3) [OF inv], of i l] row that by simp
  have lists1: "timer_lists s1 = (timer_lists s)(Hard := removeAll i (timer_lists s Hard))"
    using r(4) nin by (auto simp: s1_def)
  obtain s' where s': "link_timer Hard_Check i [i] s1 = Some s'" "timer_links s'" "only_timer i s1 s'"
    "timers s' i = (timers s1 i)\<lparr>row := Some Hard_Check\<rparr>" "timer_lists s' = (timer_lists s1)(Hard_Check := [i])"
    using link_timer_ok [OF l1, of i "[i]" Hard_Check] t1 lists1 chk by auto
  have e: "expiring i s = Some s'" using s'(1) r(4) chk by (simp add: expiring_def s1_def [symmetric])
  have t': "timers s' i = (timers s i)\<lparr>row := Some Hard_Check, activated := periodic (timers s i)\<rparr>" using s'(4) t1 by simp
  have o: "only_timer i s s'" using only_timer_trans [OF o1 s'(3)] .
  have ti: "timer_ok i (timers s' i)" using kernel_inv_D(4) [OF inv, of i] by (auto simp: t' timer_ok_def)
  have h: "timer_lists s' Hard = removeAll i (timer_lists s Hard)" using s'(5) lists1 by simp
  have "timer_inv s'" using timer_inv_stopped [OF kernel_inv_D(2) [OF inv] o s'(2) ti h] .
  then have "kernel_inv s'"
  proof (rule kernel_inv_timer [OF inv o])
    fix t assume "i = Thread_Timer t"
    then show "stat (threads s t) = RT_THREAD_SUSPEND" using act kernel_inv_D(6) [OF inv] by (simp add: timed_ok_def)
  qed
  then show ?thesis using e o t' s'(5) lists1 by auto
qed

lemma timer_expire_Hard:
  "timer_expire Hard_Check i s =
     do { s \<leftarrow> expiring i s;
          s \<leftarrow> timeout_func i s;
          if timer_lists s Hard_Check = [] then Some s
          else (let s = timer_remove i s in
            if periodic (timers s i) \<and> activated (timers s i)
            then rt_timer_start i (upd_timer i (\<lambda>t. t\<lparr>activated := False\<rparr>) s)
            else Some s) }"
  by (simp add: timer_expire_def expiring_def Let_def)

lemma thread_timeout_ok:
  assumes inv: "kernel_inv s" and st: "stat (threads s t) = RT_THREAD_SUSPEND" and off: "\<not> activated (timers s (Thread_Timer t))"
  shows "\<exists>s'. thread_timeout t s = Some s' \<and> kernel_inv s' \<and> times_out {t} s s' \<and> same_timers s s' \<and>
    (cur_running s \<longrightarrow> sound s')"
proof -
  let ?s1 = "upd_thread t (\<lambda>th. th\<lparr>error := - RT_ETIMEOUT\<rparr>) s"
  have k1: "kernel_inv ?s1" by (rule kernel_inv_upd [OF inv]) simp_all
  have "stat (threads ?s1 t) = RT_THREAD_SUSPEND" using st by simp
  note u = unlink_waiting [OF k1 this]
  let ?s2 = "rt_list_remove t ?s1"
  have "stat (threads ?s2 t) = RT_THREAD_SUSPEND" "tlist (threads ?s2 t) = None" "\<not> activated (timers ?s2 (Thread_Timer t))"
    using u(2,3) st off by (simp_all add: same_timers_def)
  from insert_waiting [OF u(1) this] obtain s3 where s3: "rt_schedule_insert_thread t ?s2 = Some s3" "kernel_inv s3"
    "wakes {t} ?s2 s3" "same_timers ?s2 s3" "error (threads s3 t) = error (threads ?s2 t)"
    "cur_running ?s2 \<longrightarrow> cur_running s3" by blast
  obtain s' where s': "rt_schedule s3 = Some s'" "kernel_inv s'" "wakes {} s3 s'" "same_timers s3 s'"
    "cur_running s3 \<longrightarrow> sound s'"
    using rt_schedule_kernel [OF s3(2)] by blast
  have "rt_current_thread ?s2 = rt_current_thread s" "threads ?s2 = (threads s)(t := (threads s t)\<lparr>error := - RT_ETIMEOUT, tlist := None\<rparr>)"
    using u(3,4) by simp_all
  then have c: "cur_running s \<Longrightarrow> cur_running ?s2" using cur_running_but st by blast
  have w: "wakes {t} ?s2 s'" using wakes_trans [OF s3(3) s'(3)] by simp
  have sm: "same_timers s s'" using same_timers_trans [OF same_timers_trans [OF u(2) s3(4)] s'(4)] by (simp add: same_timers_def)
  have r: "thread_timeout t s = Some s'" using st s3(1) s'(1) by (simp add: thread_timeout_def)
  have th: "threads ?s2 = (threads s)(t := (threads s t)\<lparr>error := - RT_ETIMEOUT, tlist := None\<rparr>)" using u(3) by simp
  have err: "error (threads s' t) = - RT_ETIMEOUT"
  proof -
    have "error (threads s3 t) = - RT_ETIMEOUT" using s3(5) th by simp
    then show ?thesis using s'(3) by (simp add: wakes_def)
  qed
  have "times_out {t} s s'"
    unfolding times_out_def
  proof (intro conjI allI impI)
    show "runnable (threads s' v) = (runnable (threads s v) \<or> v \<in> {t})" for v using w by (simp add: wakes_def th)
    show "threads s' v = threads s v" if "v \<notin> {t}" "\<not> runnable (threads s v)" for v using that w by (simp add: wakes_def th)
    show "thread_lists s' l = filter (\<lambda>v. v \<notin> {t}) (thread_lists s l)" if "\<not> is_ready l" for l
      using that w u(5) by (simp add: wakes_def removeAll_filter)
    have "same_data (threads s v) (threads ?s2 v)" for v by (simp add: th same_data_def)
    then show "same_data (threads s v) (threads s' v)" for v using w same_data_trans unfolding wakes_def by metis
    show "error (threads s' v) = (if v \<in> {t} then - RT_ETIMEOUT else error (threads s v))" for v
      using w err by (simp add: wakes_def th)
  qed (use sm in \<open>simp_all add: same_timers_def\<close>)
  then show ?thesis using r s'(2,5) sm c s3(6) by blast
qed

definition owner :: "timer_id \<Rightarrow> tid set" where
  "owner i = (case i of Thread_Timer t \<Rightarrow> {t} | App_Timer _ \<Rightarrow> {})"

lemma owner_simps [simp]: "owner (Thread_Timer t) = {t}" "owner (App_Timer n) = {}"
  by (simp_all add: owner_def)

text \<open>What one due timer leaves: it is gone from the list, or its next time is in the future.\<close>

definition expired :: "timer_id \<Rightarrow> 'a kernel_scheme \<Rightarrow> 'a kernel_scheme \<Rightarrow> bool" where
  "expired i s s' \<longleftrightarrow>
     kernel_inv s' \<and> (sound s \<longrightarrow> sound s') \<and> (cur_running s \<longrightarrow> cur_running s') \<and> rt_tick s' = rt_tick s \<and>
     times_out (owner i) s s' \<and> timer_lists s' Hard_Check = [] \<and> timer_lists s' Soft_Check = timer_lists s Soft_Check \<and>
     (\<forall>j. j \<noteq> i \<longrightarrow> timers s' j = timers s j) \<and> (\<forall>j. j \<noteq> i \<longrightarrow> j \<in> set (timer_lists s' Hard) \<longleftrightarrow> j \<in> set (timer_lists s Hard)) \<and>
     (i \<in> set (timer_lists s' Hard) \<longrightarrow> periodic (timers s i) \<and> 2 \<le> remaining s' i)"

lemma timer_expire_thread:
  assumes inv: "kernel_inv s" and i: "Thread_Timer t \<in> set (timer_lists s Hard)" and chk: "timer_lists s Hard_Check = []"
  shows "\<exists>s'. timer_expire Hard_Check (Thread_Timer t) s = Some s' \<and> expired (Thread_Timer t) s s'"
proof -
  let ?i = "Thread_Timer t"
  have row: "row (timers s ?i) = Some Hard" using timer_links_D(2) [OF kernel_inv_D(3) [OF inv]] i by blast
  then have act: "activated (timers s ?i)" "\<not> periodic (timers s ?i)" using kernel_inv_D(4) [OF inv, of ?i] by (simp_all add: timer_ok_def)
  then have st: "stat (threads s t) = RT_THREAD_SUSPEND" using kernel_inv_D(6) [OF inv] by (simp add: timed_ok_def)
  obtain s1 where s1: "expiring ?i s = Some s1" "kernel_inv s1" "only_timer ?i s s1"
    "timers s1 ?i = (timers s ?i)\<lparr>row := Some Hard_Check, activated := periodic (timers s ?i)\<rparr>"
    "timer_lists s1 = (timer_lists s)(Hard := removeAll ?i (timer_lists s Hard), Hard_Check := [?i])"
    using expiring_ok [OF inv i chk] by blast
  have "stat (threads s1 t) = RT_THREAD_SUSPEND" "\<not> activated (timers s1 ?i)"
    using s1(3,4) st act by (simp_all add: only_timer_def)
  from thread_timeout_ok [OF s1(2) this] obtain s2 where s2: "thread_timeout t s1 = Some s2" "kernel_inv s2"
    "times_out {t} s1 s2" "same_timers s1 s2" "cur_running s1 \<longrightarrow> sound s2" by blast
  let ?s' = "timer_remove ?i s2"
  note r = timer_remove_ok [OF kernel_inv_D(3) [OF s2(2)], of ?i]
  have lists2: "timer_lists s2 = timer_lists s1" "timers s2 = timers s1" using s2(4) by (simp_all add: same_timers_def)
  have t': "timers ?s' ?i = (timers s ?i)\<lparr>row := None, activated := False\<rparr>"
    using r(3) lists2 s1(4) act by simp
  have "\<not> activated (timers ?s' ?i)" "\<not> periodic (timers ?s' ?i)" using t' act(2) by simp_all
  then have e: "timer_expire Hard_Check ?i s = Some ?s'"
    using s1(1) s2(1) lists2 s1(5) by (simp add: timer_expire_Hard timeout_func_def)
  have ti: "timer_ok ?i (timers ?s' ?i)" using kernel_inv_D(4) [OF inv, of ?i] by (simp add: t' timer_ok_def)
  have k: "kernel_inv ?s'"
  proof (rule kernel_inv_timer [OF s2(2) r(2)])
    show "timer_inv ?s'" by (rule timer_inv_stopped [OF kernel_inv_D(2) [OF s2(2)] r(2,1) ti r(4)])
  qed (use t' in simp)
  have "times_out (owner ?i) s ?s'"
  proof -
    have "times_out {t} s s2"
      using s1(3) s2(3) by (simp add: times_out_def only_timer_def)
    then show ?thesis using r(2) by (simp add: times_out_def only_timer_def)
  qed
  moreover have "timer_lists ?s' Hard_Check = []" "timer_lists ?s' Soft_Check = timer_lists s Soft_Check"
    "timer_lists ?s' Hard = removeAll ?i (timer_lists s Hard)"
  proof -
    have "?i \<notin> set (timer_lists s Soft_Check)" using timer_links_D(2) [OF kernel_inv_D(3) [OF inv]] row by simp
    then show "timer_lists ?s' Hard_Check = []" "timer_lists ?s' Soft_Check = timer_lists s Soft_Check"
      "timer_lists ?s' Hard = removeAll ?i (timer_lists s Hard)" using r(4) lists2 s1(5) by simp_all
  qed
  moreover have "\<forall>j. j \<noteq> ?i \<longrightarrow> timers ?s' j = timers s j" using r(2) s1(3) lists2 by (simp add: only_timer_def)
  moreover have run: "sound ?s'" if "cur_running s"
  proof -
    have "cur_running s1" using that s1(3) by (simp add: cur_running_def only_timer_def)
    then show "sound ?s'" using s2(5) r(2) sound_cong [of ?s' s2] by (simp add: only_timer_def)
  qed
  moreover have "(sound s \<longrightarrow> sound ?s') \<and> (cur_running s \<longrightarrow> cur_running ?s')" using run sound_running by blast
  moreover have "rt_tick ?s' = rt_tick s" using r(2) s1(3) s2(4) by (simp add: only_timer_def same_timers_def)
  ultimately show ?thesis using e k by (simp add: expired_def)
qed

lemma timer_expire_app:
  assumes inv: "kernel_inv s" and i: "App_Timer n \<in> set (timer_lists s Hard)" and chk: "timer_lists s Hard_Check = []"
  shows "\<exists>s'. timer_expire Hard_Check (App_Timer n) s = Some s' \<and> expired (App_Timer n) s s'"
proof -
  let ?i = "App_Timer n"
  have row: "row (timers s ?i) = Some Hard" using timer_links_D(2) [OF kernel_inv_D(3) [OF inv]] i by blast
  have ok: "timer_ok j (timers s j)" for j using kernel_inv_D(4) [OF inv] .
  have act: "activated (timers s ?i)" "\<not> soft_timer (timers s ?i)" using ok [of ?i] row by (simp_all add: timer_ok_def)
  have nS: "?i \<notin> set (timer_lists s Soft_Check)" using timer_links_D(2) [OF kernel_inv_D(3) [OF inv]] row by simp
  obtain s1 where s1: "expiring ?i s = Some s1" "kernel_inv s1" "only_timer ?i s s1"
    "timers s1 ?i = (timers s ?i)\<lparr>row := Some Hard_Check, activated := periodic (timers s ?i)\<rparr>"
    "timer_lists s1 = (timer_lists s)(Hard := removeAll ?i (timer_lists s Hard), Hard_Check := [?i])"
    using expiring_ok [OF inv i chk] by blast
  let ?s2 = "s1\<lparr>fired := fired s1 @ [(n, rt_tick s1)]\<rparr>"
  have k2: "kernel_inv ?s2" using s1(2) by simp
  let ?s3 = "timer_remove ?i ?s2"
  note r = timer_remove_ok [OF kernel_inv_D(3) [OF k2], of ?i]
  have t3: "timers ?s3 ?i = (timers s ?i)\<lparr>row := None, activated := periodic (timers s ?i)\<rparr>" using r(3) s1(4) by simp
  have lists3: "timer_lists ?s3 Hard_Check = []" "timer_lists ?s3 Soft_Check = timer_lists s Soft_Check"
    "timer_lists ?s3 Hard = removeAll ?i (timer_lists s Hard)" using r(4) s1(5) nS by simp_all
  have o3: "\<forall>j. j \<noteq> ?i \<longrightarrow> timers ?s3 j = timers s j" using r(2) s1(3) by (simp add: only_timer_def)
  have h3: "hard_sorted ?s3"
    by (rule hard_sorted_removeAll [OF kernel_inv_D(5) [OF k2] r(4)]) (use r(2) in \<open>simp_all add: only_timer_def\<close>)
  have ne: "?i \<noteq> Thread_Timer t" for t by simp
  have e: "timer_expire Hard_Check ?i s =
      (if periodic (timers s ?i) then rt_timer_start ?i (upd_timer ?i (\<lambda>t. t\<lparr>activated := False\<rparr>) ?s3) else Some ?s3)"
    using s1(1,5) t3 by (simp add: timer_expire_Hard timeout_func_def Let_def)
  have out3: "times_out {} s ?s3" using r(2) s1(3) by (simp add: times_out_def only_timer_def)
  have s3: "sound ?s3 = sound s" "cur_running ?s3 = cur_running s" "rt_tick ?s3 = rt_tick s"
    using r(2) s1(3) sound_cong [of ?s3 s] by (simp_all add: only_timer_def cur_running_def)
  show ?thesis
  proof (cases "periodic (timers s ?i)")
    case False
    have t: "timer_ok ?i (timers ?s3 ?i)" using ok [of ?i] False by (simp add: t3 timer_ok_def)
    have "kernel_inv ?s3"
    proof (rule kernel_inv_timer [OF k2 r(2)])
      show "timer_inv ?s3" by (rule timer_inv_stopped [OF kernel_inv_D(2) [OF k2] r(2,1) t r(4)])
    qed simp
    then show ?thesis using e False out3 lists3 o3 s3 by (simp add: expired_def)
  next
    case True
    let ?s4 = "upd_timer ?i (\<lambda>t. t\<lparr>activated := False\<rparr>) ?s3"
    have l4: "timer_links ?s4" using r(1) by (rule timer_links_upd) simp
    have rem4: "remaining ?s4 j = remaining ?s3 j" for j by (rule remaining_cong) simp_all
    have h4: "hard_sorted ?s4" using h3 unfolding hard_sorted_def rem4 by simp
    have t4: "timer_ok ?i ((timers ?s4 ?i)\<lparr>row := None, activated := False\<rparr>)" "\<not> soft_timer (timers ?s4 ?i)"
      using ok [of ?i] act by (simp_all add: t3 timer_ok_def)
    have ok4: "timer_ok j (timers ?s4 j)" if "j \<noteq> ?i" for j using ok [of j] o3 that by simp
    obtain s' where s': "rt_timer_start ?i ?s4 = Some s'" "only_timer ?i ?s4 s'" "timer_inv s'"
      "timers s' ?i = (timers ?s4 ?i)\<lparr>row := Some Hard, activated := True, timeout_tick := rt_tick ?s4 + timer_init_tick (timers ?s4 ?i)\<rparr>"
      "set (timer_lists s' Hard) = insert ?i (set (timer_lists ?s4 Hard))"
      "\<forall>l. l \<noteq> Hard \<longrightarrow> timer_lists s' l = removeAll ?i (timer_lists ?s4 l)"
      using rt_timer_start_hard [OF l4 ok4 h4 t4] by blast
    have o: "only_timer ?i ?s2 s'" using r(2) s'(2) by (simp add: only_timer_def)
    have "kernel_inv s'" by (rule kernel_inv_timer [OF k2 o s'(3)]) simp
    moreover have "times_out {} s s'"
    proof -
      have "times_out {} s ?s4" using out3 by (simp add: times_out_def)
      from times_out_trans [OF this times_out_timer [OF s'(2) ne]] show ?thesis by simp
    qed
    moreover have "2 \<le> remaining s' ?i"
    proof -
      have p: "0 < timer_init_tick (timers s ?i)" "timer_init_tick (timers s ?i) < TICK_HALF" using ok [of ?i] True by (simp_all add: timer_ok_def)
      have "timeout_tick (timers s' ?i) - (rt_tick s' - 1) = timer_init_tick (timers s ?i) + 1"
        using s'(2,4) t3 by (simp add: only_timer_def)
      then have "remaining s' ?i = unat (timer_init_tick (timers s ?i) + 1)" by (simp only: remaining_def)
      then show ?thesis using p by (subst (asm) unat_add_lt) (simp_all add: TICK_HALF word_less_nat_alt)
    qed
    ultimately show ?thesis
      using e True s'(1,2,5,6) lists3 o3 nS s3 sound_cong [of s' ?s3] by (simp add: expired_def only_timer_def cur_running_def)
  qed
qed

lemma timer_expire_ok:
  assumes "kernel_inv s" "i \<in> set (timer_lists s Hard)" "timer_lists s Hard_Check = []"
  shows "\<exists>s'. timer_expire Hard_Check i s = Some s' \<and> expired i s s'"
  using timer_expire_thread timer_expire_app assms by (cases i) blast+

lemma due_iff:
  assumes "remaining s i \<le> unat TICK_HALF"
  shows "rt_tick s - timeout_tick (timers s i) < TICK_HALF \<longleftrightarrow> remaining s i \<le> 1"
proof -
  let ?r = "timeout_tick (timers s i) - (rt_tick s - 1)"
  have e: "rt_tick s - timeout_tick (timers s i) = 1 - ?r" by simp
  show ?thesis
  proof (cases "?r \<le> 1")
    case True
    have "unat (1 - ?r) = unat (1 :: u32) - unat ?r" by (rule unat_sub_le [OF True])
    then have "unat (rt_tick s - timeout_tick (timers s i)) \<le> 1" unfolding e by simp
    then have "rt_tick s - timeout_tick (timers s i) < TICK_HALF" by (simp add: word_less_nat_alt TICK_HALF)
    moreover have "remaining s i \<le> 1" using True unfolding remaining_def by (simp only: word_le_nat_alt unat_1)
    ultimately show ?thesis by simp
  next
    case False
    then have "unat (1 - ?r) = 2 ^ 32 + 1 - unat ?r" by (subst unat_sub_if') (simp add: word_le_nat_alt)
    moreover have "1 < unat ?r" "unat ?r \<le> unat TICK_HALF" using False assms by (simp_all add: remaining_def word_le_nat_alt)
    ultimately show ?thesis unfolding e by (simp add: remaining_def word_less_nat_alt TICK_HALF)
  qed
qed

text \<open>The timers that are due, and the threads among their owners.\<close>

definition due :: "'a kernel_scheme \<Rightarrow> timer_id set" where
  "due s = {i \<in> set (timer_lists s Hard). remaining s i \<le> 1}"

definition due_threads :: "'a kernel_scheme \<Rightarrow> tid set" where
  "due_threads s = {t. Thread_Timer t \<in> due s}"

lemma due_expired:
  assumes "expired i s s'" "i \<in> due s"
  shows "due s' = due s - {i}" "due_threads s = owner i \<union> due_threads s'"
proof -
  have "remaining s' j = remaining s j" if "j \<noteq> i" for j
    using assms(1) that by (intro remaining_cong) (simp_all add: expired_def)
  moreover have "j \<in> set (timer_lists s' Hard) \<longleftrightarrow> j \<in> set (timer_lists s Hard)" if "j \<noteq> i" for j
    using assms(1) that by (simp add: expired_def)
  moreover have "i \<notin> due s'" using assms(1) by (auto simp: due_def expired_def)
  ultimately have "j \<in> due s' \<longleftrightarrow> j \<in> due s - {i}" for j by (cases "j = i") (simp_all add: due_def)
  then show d: "due s' = due s - {i}" by blast
  show "due_threads s = owner i \<union> due_threads s'"
    using assms(2) by (cases i) (auto simp: due_threads_def d)
qed

lemma rt_timer_check_ok:
  assumes "kernel_inv s" "timer_lists s Hard_Check = []"
  shows "\<exists>s'. rt_timer_check s = Some s' \<and> kernel_inv s' \<and> (sound s \<longrightarrow> sound s') \<and> (cur_running s \<longrightarrow> cur_running s') \<and>
    rt_tick s' = rt_tick s \<and> times_out (due_threads s) s s' \<and> timer_lists s' Hard_Check = [] \<and> timer_lists s' Soft_Check = timer_lists s Soft_Check \<and>
    (\<forall>i \<in> set (timer_lists s' Hard). 2 \<le> remaining s' i)"
  using assms
proof (induction "card (due s)" arbitrary: s rule: less_induct)
  case less
  have sorted: "sorted_wrt (\<lambda>i j. remaining s i \<le> remaining s j) (timer_lists s Hard)"
    "\<forall>i \<in> set (timer_lists s Hard). remaining s i \<le> unat TICK_HALF"
    using kernel_inv_D(5) [OF less.prems(1)] by (simp_all add: hard_sorted_def)
  have fin: "finite (due s)" by (simp add: due_def)
  show ?case
  proof (cases "timer_lists s Hard")
    case Nil
    then show ?thesis using less.prems by (simp add: rt_timer_check.simps due_threads_def due_def times_out_refl)
  next
    case (Cons i rest)
    have iff: "rt_tick s - timeout_tick (timers s i) < TICK_HALF \<longleftrightarrow> remaining s i \<le> 1"
      using due_iff [of s i] sorted(2) Cons by simp
    show ?thesis
    proof (cases "remaining s i \<le> 1")
      case True
      then have i: "i \<in> due s" by (simp add: due_def Cons)
      obtain s1 where s1: "timer_expire Hard_Check i s = Some s1" "expired i s s1"
        using timer_expire_ok [OF less.prems(1) _ less.prems(2), of i] Cons by auto
      note d = due_expired [OF s1(2) i]
      have "card (due s1) < card (due s)" unfolding d(1) using i fin by (rule card_Diff1_less [rotated])
      then obtain s' where s': "rt_timer_check s1 = Some s'" "kernel_inv s'" "sound s1 \<longrightarrow> sound s'" "cur_running s1 \<longrightarrow> cur_running s'"
        "rt_tick s' = rt_tick s1"
        "times_out (due_threads s1) s1 s'" "timer_lists s' Hard_Check = []" "timer_lists s' Soft_Check = timer_lists s1 Soft_Check"
        "\<forall>i \<in> set (timer_lists s' Hard). 2 \<le> remaining s' i"
        using less.hyps [of s1] s1(2) by (auto simp: expired_def)
      have "rt_timer_check s = Some s'"
        using s1(1) s'(1) iff True Cons by (subst rt_timer_check.simps) simp
      moreover have "times_out (due_threads s) s s'"
        unfolding d(2) by (rule times_out_trans [OF _ s'(6)]) (use s1(2) in \<open>simp add: expired_def\<close>)
      ultimately show ?thesis using s' s1(2) by (simp add: expired_def)
    next
      case False
      have late: "2 \<le> remaining s j" if "j \<in> set (timer_lists s Hard)" for j
        using sorted(1) False that by (auto simp: Cons)
      then have "due s = {}" by (force simp: due_def)
      then show ?thesis
        using less.prems iff False Cons late by (subst rt_timer_check.simps) (simp add: due_threads_def times_out_refl)
    qed
  qed
qed

end
