(* ===== verification/Ticks.thy ===== *)
theory Ticks
  imports Thread
begin

text \<open>
  The calls of the kernel, one after another: the tick interrupt, giving the processor away, sleeping, starting and
  ending threads, the timers of the application. Every call keeps the state consistent and none fails an assertion;
  a sleeping thread is woken at the right tick, whatever else happens.
\<close>

subsection \<open>The tick\<close>

text \<open>A thread waits with its timer set to the tick \<open>d\<close>.\<close>

definition asleep :: "tid \<Rightarrow> u32 \<Rightarrow> 'a kernel_scheme \<Rightarrow> bool" where
  "asleep t d s \<longleftrightarrow> stat (threads s t) = RT_THREAD_SUSPEND \<and> activated (timers s (Thread_Timer t)) \<and>
     timeout_tick (timers s (Thread_Timer t)) = d"

lemma asleep_not_runnable: "asleep t d s \<Longrightarrow> \<not> runnable (threads s t)"
  by (simp add: asleep_def runnable_def)

lemma asleep_wakes: "wakes W s s' \<Longrightarrow> t \<notin> W \<Longrightarrow> asleep t d s \<Longrightarrow> asleep t d s'"
  using asleep_not_runnable [of t d s] by (auto simp: wakes_def asleep_def)

lemma asleep_waits: "waits u L s s' \<Longrightarrow> t \<noteq> u \<Longrightarrow> asleep t d s \<Longrightarrow> asleep t d s'"
  using asleep_not_runnable [of t d s] by (auto simp: waits_def asleep_def)

lemma asleep_times_out: "times_out W s s' \<Longrightarrow> t \<notin> W \<Longrightarrow> asleep t d s \<Longrightarrow> asleep t d s'"
  using asleep_not_runnable [of t d s] by (auto simp: times_out_def asleep_def)

text \<open>
  What no call for threads and timers changes: the objects of IPC, and the lists of those that wait for one, which
  only lose the threads that are woken; a thread that still waits keeps what it waits for.
\<close>

definition wait_list :: "list_id \<Rightarrow> bool" where
  "wait_list l \<longleftrightarrow> \<not> is_ready l \<and> l \<noteq> Defunct"

definition same_wait :: "rt_thread \<Rightarrow> rt_thread \<Rightarrow> bool" where
  "same_wait th th' \<longleftrightarrow> event_set th' = event_set th \<and> event_info th' = event_info th \<and> error th' = error th"

definition kept :: "'a kernel_scheme \<Rightarrow> 'a kernel_scheme \<Rightarrow> bool" where
  "kept s s' \<longleftrightarrow> rt_interrupt_nest s' = rt_interrupt_nest s \<and> kernel.more s' = kernel.more s \<and>
     (\<exists>W. (\<forall>l. wait_list l \<longrightarrow> thread_lists s' l = filter (\<lambda>t. t \<notin> W) (thread_lists s l)) \<and>
       (\<forall>t. t \<notin> W \<longrightarrow> same_wait (threads s t) (threads s' t)))"

lemma wait_list_simps [simp]: "\<not> wait_list (Ready p)" "\<not> wait_list Defunct" "wait_list (Sem i)" "wait_list (Mutex i)"
  "wait_list (Event i)" "wait_list (Mb_recv i)" "wait_list (Mb_send i)" "wait_list (Mq_recv i)" "wait_list (Mq_send i)"
  by (simp_all add: wait_list_def)

lemma same_wait_refl [simp]: "same_wait th th" by (simp add: same_wait_def)

lemma keptI:
  assumes "rt_interrupt_nest s' = rt_interrupt_nest s" "kernel.more s' = kernel.more s"
    "\<And>l. wait_list l \<Longrightarrow> thread_lists s' l = filter (\<lambda>t. t \<notin> W) (thread_lists s l)"
    "\<And>t. t \<notin> W \<Longrightarrow> same_wait (threads s t) (threads s' t)"
  shows "kept s s'"
  using assms unfolding kept_def by blast

lemma kept_same_lists:
  assumes "rt_interrupt_nest s' = rt_interrupt_nest s" "kernel.more s' = kernel.more s"
    "\<And>l. wait_list l \<Longrightarrow> thread_lists s' l = thread_lists s l" "\<And>t. same_wait (threads s t) (threads s' t)"
  shows "kept s s'"
  using assms by (intro keptI [where W = "{}"]) simp_all

lemma kept_refl [simp]: "kept s s" by (rule kept_same_lists) simp_all

lemma kept_trans:
  assumes "kept s s'" "kept s' s''"
  shows "kept s s''"
proof -
  obtain V W where V: "\<forall>l. wait_list l \<longrightarrow> thread_lists s' l = filter (\<lambda>t. t \<notin> V) (thread_lists s l)"
    "\<forall>t. t \<notin> V \<longrightarrow> same_wait (threads s t) (threads s' t)"
    and W: "\<forall>l. wait_list l \<longrightarrow> thread_lists s'' l = filter (\<lambda>t. t \<notin> W) (thread_lists s' l)"
    "\<forall>t. t \<notin> W \<longrightarrow> same_wait (threads s' t) (threads s'' t)"
    using assms unfolding kept_def by blast
  show ?thesis
  proof (rule keptI [where W = "V \<union> W"])
    show "thread_lists s'' l = filter (\<lambda>t. t \<notin> V \<union> W) (thread_lists s l)" if "wait_list l" for l
      using V(1) W(1) that by (simp add: conj_commute)
    show "same_wait (threads s t) (threads s'' t)" if "t \<notin> V \<union> W" for t
      using V(2) W(2) that by (simp add: same_wait_def)
  qed (use assms in \<open>simp_all add: kept_def\<close>)
qed

lemma same_data_wait: "same_data th th' \<Longrightarrow> error th' = error th \<Longrightarrow> same_wait th th'"
  by (simp add: same_data_def same_wait_def)

lemma kept_wakes: "wakes W s s' \<Longrightarrow> kept s s'"
  by (rule keptI [where W = W]) (simp_all add: wakes_def wait_list_def same_data_wait)

lemma kept_times_out: "times_out W s s' \<Longrightarrow> kept s s'"
  by (rule keptI [where W = W]) (simp_all add: times_out_def wait_list_def same_data_wait)

lemma kept_waits: "waits t (thread_lists s) s s' \<Longrightarrow> kept s s'"
  by (rule kept_same_lists) (simp_all add: waits_def wait_list_def same_data_wait)

text \<open>A thread that does not wait is in none of these lists.\<close>

lemma not_waiting:
  assumes "sched_inv s" "stat (threads s t) \<noteq> RT_THREAD_SUSPEND" "wait_list l"
  shows "t \<notin> set (thread_lists s l)"
proof
  assume "t \<in> set (thread_lists s l)"
  then have "tlist (threads s t) = Some l" using links_ok_D(2) [OF sched_inv_D(2) [OF assms(1)]] by simp
  then show False using sched_inv_D(4) [OF assms(1), of t] assms(2,3) by (cases l) (simp_all add: thread_ok_def place_ok_def)
qed

lemma filter_not_waiting:
  assumes "sched_inv s" "stat (threads s t) \<noteq> RT_THREAD_SUSPEND" "wait_list l"
  shows "filter (\<lambda>u. u \<notin> {t}) (thread_lists s l) = thread_lists s l"
  by (rule filter_True) (use not_waiting [OF assms] in auto)

text \<open>A thread's timer that is active is in the hard list.\<close>

lemma thread_timer_hard:
  assumes "timer_inv s"
  shows "Thread_Timer t \<in> set (timer_lists s Hard) \<longleftrightarrow> activated (timers s (Thread_Timer t))"
proof -
  have "timer_ok (Thread_Timer t) (timers s (Thread_Timer t))" "timer_links s" using assms by (simp_all add: timer_inv_def)
  then show ?thesis
    using timer_links_D(2) [of s "Thread_Timer t" Hard] timer_list_id.exhaust [of "the (row (timers s (Thread_Timer t)))"]
    by (cases "row (timers s (Thread_Timer t))") (auto simp: timer_ok_def)
qed

lemma remaining_next:
  assumes "1 \<le> remaining s i"
  shows "remaining (s\<lparr>rt_tick := rt_tick s + 1\<rparr>) i = remaining s i - 1"
    "remaining (s\<lparr>rt_tick := rt_tick s + 1\<rparr>) i = unat (timeout_tick (timers s i) - rt_tick s)"
proof -
  let ?x = "timeout_tick (timers s i) - (rt_tick s - 1)"
  have "1 \<le> ?x" using assms by (simp add: remaining_def word_le_nat_alt)
  then have "unat (?x - 1) = unat ?x - 1" using unat_sub_le [of 1 ?x] by simp
  moreover have "?x - 1 = timeout_tick (timers s i) - rt_tick s" by simp
  ultimately show "remaining (s\<lparr>rt_tick := rt_tick s + 1\<rparr>) i = unat (timeout_tick (timers s i) - rt_tick s)"
    "remaining (s\<lparr>rt_tick := rt_tick s + 1\<rparr>) i = remaining s i - 1"
    by (simp_all add: remaining_def)
qed

lemma kernel_inv_next:
  assumes inv: "kernel_inv s" and q: "quiet s"
  shows "kernel_inv (s\<lparr>rt_tick := rt_tick s + 1\<rparr>)"
proof -
  let ?s = "s\<lparr>rt_tick := rt_tick s + 1\<rparr>"
  have rem: "remaining ?s i = remaining s i - 1" if "i \<in> set (timer_lists s Hard)" for i
    using q that by (intro remaining_next) (simp add: quiet_def)
  have "hard_sorted ?s"
  proof -
    have "sorted_wrt (\<lambda>i j. remaining s i \<le> remaining s j) (timer_lists s Hard)"
      using kernel_inv_D(5) [OF inv] by (simp add: hard_sorted_def)
    then have "sorted_wrt (\<lambda>i j. remaining ?s i \<le> remaining ?s j) (timer_lists s Hard)"
      by (rule sorted_wrt_cong) (use rem in auto)
    then show ?thesis using kernel_inv_D(5) [OF inv] rem by (auto simp: hard_sorted_def)
  qed
  moreover have "timer_links ?s" using kernel_inv_D(3) [OF inv] by (simp add: timer_links_def)
  moreover have "timed_ok ?s" using kernel_inv_D(6) [OF inv] by (simp add: timed_ok_def)
  moreover have "sched_inv ?s" using kernel_inv_D(1) [OF inv] by (simp add: sched_inv_cong [of ?s s])
  ultimately show ?thesis using kernel_inv_D(4) [OF inv] by (simp add: kernel_inv_def timer_inv_def)
qed

text \<open>The threads that the tick wakes: those whose time is the current tick or the next.\<close>

definition waking :: "'a kernel_scheme \<Rightarrow> tid set" where
  "waking s = {t. activated (timers s (Thread_Timer t)) \<and> timeout_tick (timers s (Thread_Timer t)) - rt_tick s \<le> 1}"

lemma due_threads_next:
  assumes inv: "kernel_inv s" and q: "quiet s"
  shows "due_threads (s\<lparr>rt_tick := rt_tick s + 1\<rparr>) = waking s"
proof -
  have "t \<in> due_threads (s\<lparr>rt_tick := rt_tick s + 1\<rparr>) \<longleftrightarrow> t \<in> waking s" for t
  proof (cases "Thread_Timer t \<in> set (timer_lists s Hard)")
    case True
    then have r: "remaining (s\<lparr>rt_tick := rt_tick s + 1\<rparr>) (Thread_Timer t) = unat (timeout_tick (timers s (Thread_Timer t)) - rt_tick s)"
      using q by (intro remaining_next) (simp add: quiet_def)
    then show ?thesis
      using True thread_timer_hard [OF kernel_inv_D(2) [OF inv]]
      by (auto simp: due_threads_def due_def waking_def word_le_nat_alt)
  next
    case False
    then show ?thesis
      using thread_timer_hard [OF kernel_inv_D(2) [OF inv]] by (auto simp: due_threads_def due_def waking_def)
  qed
  then show ?thesis by blast
qed

lemma same_run:
  assumes "\<And>u. stat (threads s' u) = stat (threads s u)" "rt_current_thread s' = rt_current_thread s"
  shows "cur_running s' = cur_running s"
    "(\<And>u. current_priority (threads s' u) = current_priority (threads s u)) \<Longrightarrow>
      rt_scheduler_lock_nest s' = rt_scheduler_lock_nest s \<Longrightarrow> sound s' = sound s"
  by (simp_all add: sound_def cur_running_def settled_def assms)

lemma sound_upd:
  "(\<And>th. stat (f th) = stat th) \<Longrightarrow> (\<And>th. current_priority (f th) = current_priority th) \<Longrightarrow>
    sound (upd_thread t f s) = sound s"
  by (rule same_run) simp_all

lemma cur_running_upd: "(\<And>th. stat (f th) = stat th) \<Longrightarrow> cur_running (upd_thread t f s) = cur_running s"
  by (rule same_run) simp_all

lemma times_out_wakes:
  assumes "wakes {} s s'" "same_timers s s'"
  shows "times_out {} s s'"
  using assms by (simp add: wakes_def times_out_def same_timers_def)

lemma times_out_upd:
  assumes "runnable (threads s t)" "\<And>th. same_data th (f th)" "\<And>th. stat (f th) = stat th" "\<And>th. error (f th) = error th"
  shows "times_out {} s (upd_thread t f s)"
  using assms by (auto simp: times_out_def runnable_def)

lemma current_runnable: "cur_running s \<Longrightarrow> rt_current_thread s = Some t \<Longrightarrow> runnable (threads s t)"
  by (auto simp: cur_running_def runnable_def)

lemma times_out_tick: "times_out W (s\<lparr>rt_tick := x\<rparr>) s' = times_out W s s'"
  by (simp add: times_out_def)

text \<open>The end of a time slice.\<close>

definition time_slice :: "tid \<Rightarrow> 'a kernel_scheme \<Rightarrow> 'a kernel_scheme option" where
  "time_slice t s =
     (if remaining_tick (threads s t) = 0
      then rt_schedule (upd_thread t (\<lambda>th. th\<lparr>remaining_tick := init_tick th, stat_yield := True\<rparr>) s)
      else Some s)"

lemma time_slice_ok:
  assumes inv: "kernel_inv s" and q: "timer_lists s Hard_Check = []" and c: "cur_running s" "rt_current_thread s = Some t"
  shows "\<exists>s'. time_slice t s = Some s' \<and> kernel_inv s' \<and> (sound s \<longrightarrow> sound s') \<and> cur_running s' \<and> times_out {} s s' \<and> same_timers s s'"
proof (cases "remaining_tick (threads s t) = 0")
  case True
  let ?f = "\<lambda>th. th\<lparr>remaining_tick := init_tick th, stat_yield := True\<rparr>"
  let ?s1 = "upd_thread t ?f s"
  have k1: "kernel_inv ?s1" by (rule kernel_inv_upd [OF inv]) simp_all
  have c1: "cur_running ?s1" using c(1) by (subst cur_running_upd) simp_all
  obtain s' where s': "rt_schedule ?s1 = Some s'" "kernel_inv s'" "wakes {} ?s1 s'" "same_timers ?s1 s'" "sound s'"
    using rt_schedule_kernel [OF k1] c1 by blast
  have "times_out {} s ?s1" using current_runnable [OF c] by (rule times_out_upd) (simp_all add: same_data_def)
  then have "times_out {} s s'" using times_out_trans [OF _ times_out_wakes [OF s'(3,4)]] by simp
  moreover have "same_timers s s'" using s'(4) by (simp add: same_timers_def)
  ultimately show ?thesis using True s' sound_running by (auto simp: time_slice_def)
next
  case False
  then show ?thesis using inv c by (simp add: time_slice_def times_out_refl)
qed

lemma rt_tick_increase_slice:
  "rt_tick_increase s =
     do { t \<leftarrow> rt_current_thread s;
          s \<leftarrow> time_slice t (upd_thread t (\<lambda>th. th\<lparr>remaining_tick := remaining_tick th - 1\<rparr>) (s\<lparr>rt_tick := rt_tick s + 1\<rparr>));
          rt_timer_check s }"
  by (simp add: rt_tick_increase_def time_slice_def Let_def)

text \<open>What holds between the calls of the kernel.\<close>

definition operational :: "'a kernel_scheme \<Rightarrow> bool" where
  "operational s \<longleftrightarrow> kernel_inv s \<and> quiet s \<and> cur_running s \<and> rt_scheduler_lock_nest s < 0x8000"

lemma operational_D:
  assumes "operational s"
  shows "kernel_inv s" "quiet s" "cur_running s" "rt_scheduler_lock_nest s < 0x8000"
  using assms by (simp_all add: operational_def)

lemma rt_tick_increase_ok:
  assumes op: "operational s"
  shows "\<exists>s'. rt_tick_increase s = Some s' \<and> operational s' \<and> (sound s \<longrightarrow> sound s') \<and> rt_tick s' = rt_tick s + 1 \<and>
    times_out (waking s) s s'"
proof -
  note o = operational_D [OF op]
  obtain t where c: "rt_current_thread s = Some t" using o(3) by (auto simp: cur_running_def)
  let ?f = "\<lambda>th. th\<lparr>remaining_tick := remaining_tick th - 1\<rparr>"
  let ?s1 = "s\<lparr>rt_tick := rt_tick s + 1\<rparr>"
  let ?s2 = "upd_thread t ?f ?s1"
  have k1: "kernel_inv ?s1" using kernel_inv_next [OF o(1,2)] .
  have k2: "kernel_inv ?s2" by (rule kernel_inv_upd [OF k1]) simp_all
  have c1: "cur_running ?s1" "sound ?s1 = sound s" using o(3) sound_cong [of ?s1 s] by (simp_all add: cur_running_def)
  then have c2: "cur_running ?s2" "rt_current_thread ?s2 = Some t" using c by (simp_all add: cur_running_upd)
  have snd2: "sound ?s2 = sound s" using c1(2) by (subst sound_upd) simp_all
  have chk: "timer_lists ?s2 Hard_Check = []" using o(2) by (simp add: quiet_def)
  obtain s3 where s3: "time_slice t ?s2 = Some s3" "kernel_inv s3" "sound ?s2 \<longrightarrow> sound s3" "cur_running s3"
    "times_out {} ?s2 s3" "same_timers ?s2 s3"
    using time_slice_ok [OF k2 chk c2] by blast
  have l3: "timer_lists s3 = timer_lists s" "timers s3 = timers s" "rt_tick s3 = rt_tick s + 1"
    using s3(6) by (simp_all add: same_timers_def)
  have due: "due_threads s3 = waking s"
    using due_threads_next [OF o(1,2)] by (simp add: due_threads_def due_def remaining_def l3)
  obtain s' where s': "rt_timer_check s3 = Some s'" "kernel_inv s'" "sound s3 \<longrightarrow> sound s'" "cur_running s3 \<longrightarrow> cur_running s'"
    "rt_tick s' = rt_tick s3"
    "times_out (due_threads s3) s3 s'" "timer_lists s' Hard_Check = []" "timer_lists s' Soft_Check = timer_lists s3 Soft_Check"
    "\<forall>i \<in> set (timer_lists s' Hard). 2 \<le> remaining s' i"
    using rt_timer_check_ok [OF s3(2)] l3 chk by auto
  have run: "rt_tick_increase s = Some s'" using c s3(1) s'(1) by (simp add: rt_tick_increase_slice)
  have "times_out {} ?s1 ?s2"
    using current_runnable [OF c1(1)] c by (intro times_out_upd) (simp_all add: same_data_def)
  then have "times_out {} s ?s2" by (simp add: times_out_tick)
  from times_out_trans [OF times_out_trans [OF this s3(5)] s'(6)] have out: "times_out (waking s) s s'" by (simp add: due)
  have "quiet s'" using s'(7,8,9) o(2) l3 by (fastforce simp: quiet_def)
  moreover have "rt_scheduler_lock_nest s' < 0x8000" using out o(4) by (simp add: times_out_def)
  ultimately have "operational s'" using s'(2,4) s3(4) by (simp add: operational_def)
  then show ?thesis using run out s'(3,5) s3(3) snd2 l3(3) by auto
qed

end
