(* ===== verification/Kernel_Calls.thy ===== *)
theory Kernel_Calls
  imports Ticks
begin

text \<open>
  Programs of kernel calls: every call of the kernel's interface for threads and timers, with the conditions under
  which it may be called, keeps the state consistent.
\<close>

subsection \<open>Giving the processor away\<close>

text \<open>A call that is not the tick: the sleeping threads but for \<open>V\<close> go on sleeping, and those who wait, wait.\<close>

definition calm :: "tid set \<Rightarrow> 'a kernel_scheme \<Rightarrow> 'a kernel_scheme \<Rightarrow> bool" where
  "calm V s s' \<longleftrightarrow> operational s' \<and> rt_tick s' = rt_tick s \<and> kept s s' \<and> (\<forall>t d. t \<notin> V \<longrightarrow> asleep t d s \<longrightarrow> asleep t d s')"

lemma calm_refl: "operational s \<Longrightarrow> calm V s s" by (simp add: calm_def)

lemma calm_trans: "calm V s s' \<Longrightarrow> calm W s' s'' \<Longrightarrow> calm (V \<union> W) s s''"
  using kept_trans by (auto simp: calm_def)

lemma calm_wakes:
  assumes "operational s" "kernel_inv s'" "cur_running s'" "wakes W s s'"
  shows "calm W s s'"
proof -
  have "asleep t d s'" if "t \<notin> W" "asleep t d s" for t d by (rule asleep_wakes [OF assms(4) that])
  moreover have "rt_tick s' = rt_tick s" "quiet s" "quiet s \<longrightarrow> quiet s'" "rt_scheduler_lock_nest s' = rt_scheduler_lock_nest s"
    using assms(1,4) by (simp_all add: wakes_def operational_def)
  ultimately show ?thesis using assms(1-3) kept_wakes [OF assms(4)] by (simp add: calm_def operational_def)
qed

text \<open>A change of a thread's data.\<close>

lemma calm_upd:
  assumes "operational s" "kernel_inv (upd_thread t f s)" "\<And>th. stat (f th) = stat th"
    and w: "same_wait (threads s t) (f (threads s t)) \<or> stat (threads s t) \<noteq> RT_THREAD_SUSPEND"
  shows "calm V s (upd_thread t f s)"
proof -
  have "cur_running (upd_thread t f s)" using assms(1,3) by (simp add: cur_running_upd operational_def)
  moreover have "quiet (upd_thread t f s)" using assms(1) same_timers_quiet [of s "upd_thread t f s"] by (simp add: operational_def)
  moreover have "asleep u d (upd_thread t f s)" if "asleep u d s" for u d
    using that assms(3) by (cases "u = t") (simp_all add: asleep_def)
  moreover have "kept s (upd_thread t f s)"
  proof (cases "stat (threads s t) = RT_THREAD_SUSPEND")
    case True
    then show ?thesis using w by (intro kept_same_lists) simp_all
  next
    case False
    have S: "sched_inv s" using assms(1) by (simp add: operational_def kernel_inv_def)
    show ?thesis by (rule keptI [where W = "{t}"]) (simp_all add: filter_not_waiting [OF S False, simplified])
  qed
  ultimately show ?thesis using assms(1,2) by (simp add: calm_def operational_def)
qed

lemma rt_schedule_calm:
  assumes op: "operational s"
  shows "\<exists>s'. rt_schedule s = Some s' \<and> calm {} s s' \<and> (rt_scheduler_lock_nest s = 0 \<longrightarrow> settled s')"
proof -
  note o = operational_D [OF op]
  obtain s' where s': "rt_schedule s = Some s'" "kernel_inv s'" "wakes {} s s'" "cur_running s \<longrightarrow> sound s'"
    "rt_scheduler_lock_nest s = 0 \<longrightarrow> settled s'"
    using rt_schedule_kernel [OF o(1)] by blast
  then show ?thesis using o(3) calm_wakes [OF op s'(2) _ s'(3)] sound_running by blast
qed

lemma rt_thread_yield_calm:
  assumes op: "operational s"
  shows "\<exists>s'. rt_thread_yield s = Some s' \<and> calm {} s s' \<and> (rt_scheduler_lock_nest s = 0 \<longrightarrow> settled s')"
proof -
  note o = operational_D [OF op]
  obtain t where c: "rt_current_thread s = Some t" using o(3) by (auto simp: cur_running_def)
  let ?s1 = "upd_thread t (\<lambda>th. th\<lparr>remaining_tick := init_tick th, stat_yield := True\<rparr>) s"
  have "kernel_inv ?s1" by (rule kernel_inv_upd [OF o(1)]) simp_all
  then have c1: "calm {} s ?s1" by (rule calm_upd [OF op]) (simp_all add: same_wait_def)
  then obtain s' where "rt_schedule ?s1 = Some s'" "calm {} ?s1 s'" "rt_scheduler_lock_nest ?s1 = 0 \<longrightarrow> settled s'"
    using rt_schedule_calm [of ?s1] by (auto simp: calm_def)
  then show ?thesis using c calm_trans [OF c1] by (simp add: rt_thread_yield_def)
qed

text \<open>The current thread suspends itself, with a timer or without.\<close>

definition suspend_self :: "tid \<Rightarrow> u32 option \<Rightarrow> 'a kernel_scheme \<Rightarrow> 'a kernel_scheme option" where
  "suspend_self t v s =
     do { (_, s) \<leftarrow> rt_thread_suspend t s;
          s \<leftarrow> (case v of None \<Rightarrow> Some s | Some v \<Rightarrow> start_thread_timer t v s);
          rt_schedule s }"

lemma suspend_self_calm:
  assumes op: "operational s" and c: "rt_current_thread s = Some t" "t \<noteq> idle" and lock: "rt_scheduler_lock_nest s = 0"
    and v: "\<And>x. v = Some x \<Longrightarrow> x < TICK_HALF"
  shows "\<exists>s'. suspend_self t v s = Some s' \<and> calm {} s s' \<and> settled s' \<and> waits t (thread_lists s) s s' \<and>
    (\<forall>x. v = Some x \<longrightarrow> asleep t (rt_tick s + x) s')"
proof -
  note o = operational_D [OF op]
  have run: "stat (threads s t) = RT_THREAD_RUNNING" using o(3) c(1) by (auto simp: cur_running_def)
  obtain s1 where s1: "rt_thread_suspend t s = Some (RT_EOK, s1)" "kernel_inv s1" "gives_up t (thread_lists s) s s1"
    using rt_thread_suspend_ok [OF o(1) c(1) run c(2)] by blast
  have tick: "rt_tick s1 = rt_tick s" using s1(3) by (simp add: gives_up_def waits_def)
  have "\<exists>s2. (case v of None \<Rightarrow> Some s1 | Some v \<Rightarrow> start_thread_timer t v s1) = Some s2 \<and> kernel_inv s2 \<and>
      gives_up t (thread_lists s) s s2 \<and> (\<forall>x. v = Some x \<longrightarrow> asleep t (rt_tick s + x) s2)"
  proof (cases v)
    case None
    then show ?thesis using s1(2,3) by simp
  next
    case (Some x)
    then show ?thesis using start_thread_timer_ok [OF s1(2,3) v [OF Some]] by (auto simp: asleep_def tick gives_up_def waits_def)
  qed
  then obtain s2 where s2: "(case v of None \<Rightarrow> Some s1 | Some v \<Rightarrow> start_thread_timer t v s1) = Some s2" "kernel_inv s2"
    "gives_up t (thread_lists s) s s2" "\<forall>x. v = Some x \<longrightarrow> asleep t (rt_tick s + x) s2" by blast
  have w2: "waits t (thread_lists s) s s2" using s2(3) by (simp add: gives_up_def)
  obtain s' where s': "rt_schedule s2 = Some s'" "kernel_inv s'" "wakes {} s2 s'" "rt_scheduler_lock_nest s2 = 0 \<longrightarrow> settled s'"
    using rt_schedule_kernel [OF s2(2)] by blast
  have w: "waits t (thread_lists s) s s'" by (rule waits_scheduled [OF w2 s'(3)])
  have set: "settled s'" using s'(4) w2 lock by (simp add: waits_def)
  have "asleep u d s'" if "asleep u d s" for u d
    using asleep_waits [OF w _ that] that run by (cases "u = t") (auto simp: asleep_def)
  then have "calm {} s s'"
    using s'(2) settled_running [OF set] w o(2,4) kept_waits [OF w] by (simp add: calm_def operational_def waits_def)
  moreover have "\<forall>x. v = Some x \<longrightarrow> asleep t (rt_tick s + x) s'" using s2(4) asleep_wakes [OF s'(3)] by simp
  ultimately show ?thesis using s1(1) s2(1) s'(1) set w by (auto simp: suspend_self_def)
qed

text \<open>Clearing the error of the current thread.\<close>

lemma clear_error_calm:
  assumes op: "operational s" and c: "rt_current_thread s = Some t"
  shows "calm {} s (upd_thread t (\<lambda>th. th\<lparr>error := e\<rparr>) s)"
proof (rule calm_upd [OF op])
  show "kernel_inv (upd_thread t (\<lambda>th. th\<lparr>error := e\<rparr>) s)" by (rule kernel_inv_upd) (use op in \<open>simp_all add: operational_def\<close>)
qed (use op c in \<open>auto simp: operational_def cur_running_def\<close>)

lemma rt_thread_sleep_calm:
  assumes op: "operational s" and c: "rt_current_thread s = Some t" "t \<noteq> idle" and lock: "rt_scheduler_lock_nest s = 0"
    and n: "n < TICK_HALF"
  shows "\<exists>s'. rt_thread_sleep n s = Some s' \<and> calm {} s s' \<and> settled s' \<and> asleep t (rt_tick s + n) s' \<and>
    error (threads s' t) = RT_EOK"
proof -
  let ?s1 = "upd_thread t (\<lambda>th. th\<lparr>error := RT_EOK\<rparr>) s"
  have c1: "calm {} s ?s1" by (rule clear_error_calm [OF op c(1)])
  have "\<exists>s'. suspend_self t (Some n) ?s1 = Some s' \<and> calm {} ?s1 s' \<and> settled s' \<and> waits t (thread_lists ?s1) ?s1 s' \<and>
      (\<forall>x. Some n = Some x \<longrightarrow> asleep t (rt_tick ?s1 + x) s')"
    by (rule suspend_self_calm) (use c1 c lock n in \<open>auto simp: calm_def\<close>)
  then obtain s' where s': "suspend_self t (Some n) ?s1 = Some s'" "calm {} ?s1 s'" "settled s'"
    "waits t (thread_lists ?s1) ?s1 s'" "asleep t (rt_tick s + n) s'" by auto
  have "error (threads s' t) = error (threads ?s1 t)" using s'(4) by (simp only: waits_def)
  then show ?thesis using s' c(1) calm_trans [OF c1 s'(2)] by (simp add: rt_thread_sleep_def suspend_self_def)
qed

lemma rt_thread_delay_until_self:
  "rt_thread_delay_until tick inc s =
     do { t \<leftarrow> rt_current_thread s;
          let s = upd_thread t (\<lambda>th. th\<lparr>error := RT_EOK\<rparr>) s;
          if rt_tick s - tick < inc
          then do { s \<leftarrow> suspend_self t (Some (tick + inc - rt_tick s)) s; Some (tick + inc, True, s) }
          else Some (rt_tick s, False, s) }"
  by (simp add: rt_thread_delay_until_def suspend_self_def Let_def split_def cong: if_cong)

lemma rt_thread_delay_until_calm:
  assumes op: "operational s" and c: "rt_current_thread s = Some t" "t \<noteq> idle" and lock: "rt_scheduler_lock_nest s = 0"
    and n: "inc < TICK_HALF"
  shows "\<exists>x b s'. rt_thread_delay_until tick inc s = Some (x, b, s') \<and> calm {} s s' \<and>
    (if rt_tick s - tick < inc then x = tick + inc \<and> b \<and> asleep t x s' else x = rt_tick s \<and> \<not> b)"
proof -
  let ?s1 = "upd_thread t (\<lambda>th. th\<lparr>error := RT_EOK\<rparr>) s"
  have c1: "calm {} s ?s1" by (rule clear_error_calm [OF op c(1)])
  show ?thesis
  proof (cases "rt_tick s - tick < inc")
    case True
    let ?v = "tick + inc - rt_tick s"
    have e: "?v = inc - (rt_tick s - tick)" by simp
    have "?v \<le> inc" unfolding e using True by (intro word_sub_le) simp
    then have "?v < TICK_HALF" using n by simp
    then have "\<exists>s'. suspend_self t (Some ?v) ?s1 = Some s' \<and> calm {} ?s1 s' \<and> settled s' \<and> waits t (thread_lists ?s1) ?s1 s' \<and>
        (\<forall>x. Some ?v = Some x \<longrightarrow> asleep t (rt_tick ?s1 + x) s')"
      using c1 c lock by (intro suspend_self_calm) (auto simp: calm_def)
    then obtain s' where s': "suspend_self t (Some ?v) ?s1 = Some s'" "calm {} ?s1 s'" "asleep t (tick + inc) s'" by auto
    then show ?thesis
      using True c(1) calm_trans [OF c1 s'(2)]
      by (intro exI [of _ "tick + inc"] exI [of _ True]) (simp add: rt_thread_delay_until_self)
  next
    case False
    then show ?thesis using c(1) c1
      by (intro exI [of _ "rt_tick s"] exI [of _ False]) (simp add: rt_thread_delay_until_self)
  qed
qed

subsection \<open>Waking and locking\<close>

lemma rt_thread_resume_calm:
  assumes op: "operational s"
  shows "\<exists>r s'. rt_thread_resume t s = Some (r, s') \<and> calm {t} s s'"
proof (cases "stat (threads s t) = RT_THREAD_SUSPEND")
  case True
  note o = operational_D [OF op]
  obtain s' where "rt_thread_resume t s = Some (RT_EOK, s')" "kernel_inv s'" "wakes {t} s s'" "cur_running s \<longrightarrow> cur_running s'"
    using rt_thread_resume_ok [OF o(1) True] by blast
  then show ?thesis using calm_wakes [OF op] o(3) by blast
qed (simp add: rt_thread_resume_def calm_refl [OF op])

lemma kernel_inv_cong:
  assumes "threads s' = threads s" "thread_lists s' = thread_lists s" "rt_current_thread s' = rt_current_thread s"
    "rt_thread_ready_priority_group s' = rt_thread_ready_priority_group s" "timers s' = timers s" "timer_lists s' = timer_lists s"
    "rt_tick s' = rt_tick s"
  shows "kernel_inv s' = kernel_inv s"
proof -
  have "sched_inv s' = sched_inv s" by (rule sched_inv_cong) (rule assms)+
  moreover have "timer_inv s' = timer_inv s" by (simp add: timer_inv_def timer_links_def hard_sorted_def remaining_def assms)
  ultimately show ?thesis by (simp add: kernel_inv_def timed_ok_def assms)
qed

lemma calm_lock:
  assumes "operational s" "n < 0x8000"
  shows "calm V s (s\<lparr>rt_scheduler_lock_nest := n\<rparr>)"
proof -
  let ?s = "s\<lparr>rt_scheduler_lock_nest := n\<rparr>"
  have "kernel_inv ?s = kernel_inv s" by (rule kernel_inv_cong) simp_all
  moreover have "quiet ?s = quiet s" by (rule quiet_cong) simp_all
  moreover have "kept s ?s" by (rule kept_same_lists) simp_all
  ultimately show ?thesis using assms by (simp add: calm_def operational_def cur_running_def asleep_def)
qed

lemma rt_enter_critical_calm:
  assumes "operational s" "rt_scheduler_lock_nest s < 0x7FFF"
  shows "calm {} s (rt_enter_critical s)" "rt_scheduler_lock_nest (rt_enter_critical s) = rt_scheduler_lock_nest s + 1"
proof -
  have "rt_scheduler_lock_nest s + 1 < 0x8000" using assms(2) by (simp add: word_less_nat_alt unat_word_ariths)
  then show "calm {} s (rt_enter_critical s)" unfolding rt_enter_critical_def by (rule calm_lock [OF assms(1)])
qed (simp add: rt_enter_critical_def)

text \<open>Leaving the last critical section reschedules, and so does leaving one that was not entered.\<close>

lemma rt_exit_critical_calm:
  assumes op: "operational s"
  shows "\<exists>s'. rt_exit_critical s = Some s' \<and> calm {} s s' \<and>
    (if unat (rt_scheduler_lock_nest s) \<le> 1 then rt_scheduler_lock_nest s' = 0 \<and> settled s'
     else s' = s\<lparr>rt_scheduler_lock_nest := rt_scheduler_lock_nest s - 1\<rparr>)"
proof -
  let ?n = "rt_scheduler_lock_nest s"
  have lt: "?n < 0x8000" using op by (simp add: operational_def)
  have sgn: "sint (?n - 1) \<le> 0 \<longleftrightarrow> unat ?n \<le> 1"
  proof (cases "?n = 0")
    case False
    then have u: "unat (?n - 1) = unat ?n - 1" by (simp add: unat_sub_le [of 1 ?n] word_le_nat_alt unat_gt_0 Suc_leI)
    have "uint (?n - 1) < 2 ^ 15" using u lt by (simp add: uint_nat word_less_nat_alt)
    then have "signed_take_bit 15 (uint (?n - 1)) = uint (?n - 1)" 
      using uint_ge_0 [of "?n - 1"] by (intro signed_take_bit_int_eq_self) linarith+
    then have "sint (?n - 1) = int (unat ?n - 1)" using u by (simp add: sint_uint uint_nat)
    then show ?thesis by simp
  qed simp
  show ?thesis
  proof (cases "unat ?n \<le> 1")
    case True
    let ?s1 = "s\<lparr>rt_scheduler_lock_nest := 0\<rparr>"
    have c1: "calm {} s ?s1" by (rule calm_lock [OF op]) simp
    then obtain s' where s': "rt_schedule ?s1 = Some s'" "calm {} ?s1 s'" "rt_scheduler_lock_nest ?s1 = 0 \<longrightarrow> settled s'"
      using rt_schedule_calm [of ?s1] by (auto simp: calm_def)
    have lock: "rt_scheduler_lock_nest s' = 0"
    proof -
      have "sched_inv ?s1" using c1 by (simp add: calm_def operational_def kernel_inv_def)
      from rt_schedule_ok [OF this] s'(1) show ?thesis by (auto simp: sched_frame_def same_timers_def)
    qed
    obtain c where "rt_current_thread s = Some c" using op by (auto simp: operational_def cur_running_def)
    then have "rt_exit_critical s = Some s'" using True sgn s'(1) by (simp add: rt_exit_critical_def)
    then show ?thesis using True s'(3) lock calm_trans [OF c1 s'(2)] by simp
  next
    case False
    then have "?n - 1 < 0x8000" using lt by (simp add: word_less_nat_alt unat_sub_le word_le_nat_alt)
    then have "calm {} s (s\<lparr>rt_scheduler_lock_nest := ?n - 1\<rparr>)" by (rule calm_lock [OF op])
    then show ?thesis using False sgn by (simp add: rt_exit_critical_def)
  qed
qed

subsection \<open>Priorities, and the life of a thread\<close>

lemma operational_current:
  assumes "operational s"
  obtains c where "rt_current_thread s = Some c" "stat (threads s c) = RT_THREAD_RUNNING"
    "\<And>u. stat (threads s u) = RT_THREAD_RUNNING \<Longrightarrow> u = c"
proof -
  obtain c where c: "rt_current_thread s = Some c" "stat (threads s c) = RT_THREAD_RUNNING"
    using operational_D(3) [OF assms] by (auto simp: cur_running_def)
  have "u = c" if "stat (threads s u) = RT_THREAD_RUNNING" for u
    using sched_inv_D(5) [OF kernel_inv_D(1) [OF operational_D(1) [OF assms]]] that c(1) by (simp add: cur_ok_def)
  then show thesis using that c by blast
qed

text \<open>A step on one thread that is not the current one: what it has to keep.\<close>

lemma operational_but:
  assumes op: "operational s" and l: "lists_inv s'" and t: "same_timers s s'" "rt_current_thread s' = rt_current_thread s"
    and th: "\<And>u. u \<noteq> t \<Longrightarrow> threads s' u = threads s u" and c: "rt_current_thread s \<noteq> Some t"
    and st: "stat (threads s' t) \<noteq> RT_THREAD_RUNNING" "t = idle \<longrightarrow> runnable (threads s' t)"
      "activated (timers s (Thread_Timer t)) \<longrightarrow> stat (threads s' t) = RT_THREAD_SUSPEND"
    and w: "\<And>l. wait_list l \<Longrightarrow> thread_lists s' l = filter (\<lambda>u. u \<notin> {t}) (thread_lists s l)"
  shows "operational s'" "calm {t} s s'"
proof -
  note o = operational_D [OF op]
  obtain c where cur: "rt_current_thread s = Some c" "stat (threads s c) = RT_THREAD_RUNNING"
    "\<And>u. stat (threads s u) = RT_THREAD_RUNNING \<Longrightarrow> u = c"
    using operational_current [OF op] by blast
  have cc: "threads s' c = threads s c" using cur(1) c by (intro th) auto
  have "stat (threads s' u) = RT_THREAD_RUNNING \<longleftrightarrow> u = c" for u
    using cur(2) cur(3) [of u] cc th [of u] st(1) by (cases "u = t") auto
  then have "cur_ok s'" using cur(1,2) cc t(2) by (auto simp: cur_ok_def)
  moreover have "runnable (threads s' idle)"
    using sched_inv_D(6) [OF kernel_inv_D(1) [OF o(1)]] th [of idle] st(2) by (cases "idle = t") auto
  ultimately have S: "sched_inv s'" using l by (simp add: sched_inv_def)
  have "timed_ok s'"
    unfolding timed_ok_def
  proof (intro allI impI)
    fix u assume "activated (timers s' (Thread_Timer u))"
    then have "activated (timers s (Thread_Timer u))" using t(1) by (simp add: same_timers_def)
    then show "stat (threads s' u) = RT_THREAD_SUSPEND"
      using st(3) th [of u] kernel_inv_D(6) [OF o(1)] by (cases "u = t") (simp_all add: timed_ok_def)
  qed
  then have "kernel_inv s'" using S same_timers_inv [OF t(1)] kernel_inv_D(2) [OF o(1)] by (simp add: kernel_inv_def)
  moreover have "cur_running s'" using cur(1,2) cc t(2) by (simp add: cur_running_def)
  ultimately show op': "operational s'"
    using o(2,4) same_timers_quiet [OF t(1)] t(1) by (simp add: operational_def same_timers_def)
  have "asleep u d s'" if "u \<noteq> t" "asleep u d s" for u d
    using that th [of u] t(1) by (simp add: asleep_def same_timers_def)
  moreover have "kept s s'" by (rule keptI [where W = "{t}"]) (use w th t(1) in \<open>simp_all add: same_timers_def\<close>)
  ultimately show "calm {t} s s'" using op' t(1) by (simp add: calm_def same_timers_def)
qed

lemma cur_ok_cong:
  "(\<And>u. stat (threads s' u) = stat (threads s u)) \<Longrightarrow> rt_current_thread s' = rt_current_thread s \<Longrightarrow> cur_ok s' = cur_ok s"
  by (simp add: cur_ok_def)

lemma calm_awake:
  assumes "calm (insert t V) s s'" "stat (threads s t) \<noteq> RT_THREAD_SUSPEND"
  shows "calm V s s'"
proof -
  have "asleep u d s'" if "u \<notin> V" "asleep u d s" for u d
  proof -
    have "u \<noteq> t" using that(2) assms(2) by (auto simp: asleep_def)
    then show ?thesis using assms(1) that by (simp add: calm_def)
  qed
  then show ?thesis using assms(1) by (simp add: calm_def)
qed

text \<open>Only the thread \<open>t\<close> gets a new priority, and its place in the ready lists.\<close>

definition reprioritises :: "tid \<Rightarrow> u8 \<Rightarrow> 'a kernel_scheme \<Rightarrow> 'a kernel_scheme \<Rightarrow> bool" where
  "reprioritises t p s s' \<longleftrightarrow> same_timers s s' \<and> rt_current_thread s' = rt_current_thread s \<and>
     (\<forall>u. u \<noteq> t \<longrightarrow> threads s' u = threads s u) \<and> current_priority (threads s' t) = p \<and>
     stat (threads s' t) = stat (threads s t) \<and> same_wait (threads s t) (threads s' t) \<and>
     (\<forall>l. wait_list l \<longrightarrow> thread_lists s' l = thread_lists s l)"

lemma change_priority_calm:
  assumes op: "operational s" and p: "unat p < 32"
  shows "\<exists>s'. rt_thread_control t (Change_Priority p) s = Some s' \<and> calm {} s s' \<and> reprioritises t p s s'"
proof -
  note o = operational_D [OF op]
  note S = kernel_inv_D(1) [OF o(1)]
  let ?f = "\<lambda>th. th\<lparr>current_priority := p, number_mask := push_bit (unat p) 1\<rparr>"
  show ?thesis
  proof (cases "stat (threads s t) = RT_THREAD_READY")
    case False
    have "thread_ok (?f (threads s t))" if "thread_ok (threads s t)"
      using that False p by (auto simp: thread_ok_def place_ok_def prio_ok_def split: option.splits list_id.splits)
    then have "lists_inv (upd_thread t ?f s)"
      using sched_inv_D(1,4) [OF S] by (intro lists_inv_upd) simp_all
    moreover have "cur_ok (upd_thread t ?f s) = cur_ok s" by (rule cur_ok_cong) simp_all
    moreover have "runnable (threads (upd_thread t ?f s) idle)" using sched_inv_D(6) [OF S] by (simp add: runnable_def)
    moreover have "timed_ok (upd_thread t ?f s)" using kernel_inv_D(6) [OF o(1)] by (simp add: timed_ok_def)
    ultimately have "kernel_inv (upd_thread t ?f s)"
      using sched_inv_D(5) [OF S] kernel_inv_D(2) [OF o(1)] same_timers_inv [of s "upd_thread t ?f s"] by (simp add: kernel_inv_def sched_inv_def)
    then have "calm {} s (upd_thread t ?f s)" by (rule calm_upd [OF op]) (simp_all add: same_wait_def)
    moreover have "reprioritises t p s (upd_thread t ?f s)" by (simp add: reprioritises_def same_wait_def)
    ultimately show ?thesis using False p by (auto simp: rt_thread_control_def set_priority_def)
  next
    case True
    obtain s1 where s1: "rt_schedule_remove_thread t s = Some s1" "lists_inv_but t s1" "only_thread t s s1"
      "threads s1 t = (threads s t)\<lparr>tlist := None\<rparr>" "\<forall>l. thread_lists s1 l = removeAll t (thread_lists s l)"
      using rt_schedule_remove_thread_ok [OF sched_inv_D(1) [OF S], of t] True by auto
    let ?s2 = "upd_thread t ?f s1"
    have cur: "rt_current_thread s \<noteq> Some t" using True o(3) by (auto simp: cur_running_def)
    have but: "lists_inv_but t ?s2" using s1(2) by (auto simp: lists_inv_but_def links_ok_def group_ok_def)
    have pr: "prio_ok (threads ?s2 t)" using p by (simp add: prio_ok_def)
    have "stat (threads ?s2 t) \<noteq> RT_THREAD_INIT" "rt_current_thread ?s2 \<noteq> Some t"
      using True cur s1(3,4) by (simp_all add: only_thread_def)
    from rt_schedule_insert_thread_ok [OF but pr this] obtain s' where s1': "rt_schedule_insert_thread t ?s2 = Some s'"
      "lists_inv s'" "only_thread t ?s2 s'"
      "threads s' t = (threads ?s2 t)\<lparr>stat := RT_THREAD_READY, tlist := Some (Ready (unat (current_priority (threads ?s2 t))))\<rparr>"
      "thread_lists s' = (thread_lists ?s2)(Ready (unat (current_priority (threads ?s2 t))) :=
        (if stat_yield (threads ?s2 t) then thread_lists ?s2 (Ready (unat (current_priority (threads ?s2 t)))) @ [t]
         else t # thread_lists ?s2 (Ready (unat (current_priority (threads ?s2 t))))))"
      by blast
    have s2': "current_priority (threads s' t) = p" "stat (threads s' t) = RT_THREAD_READY" using s1'(4) by simp_all
    have "\<forall>l. wait_list l \<longrightarrow> thread_lists s' l = thread_lists s1 l" unfolding s1'(5) by auto
    note s' = s1'(1-3) s2' this
    have sm: "same_timers s s'" "rt_current_thread s' = rt_current_thread s"
      using s1(3) s'(3) by (simp_all add: only_thread_def same_timers_def)
    have th: "threads s' u = threads s u" if "u \<noteq> t" for u using s1(3) s'(3) that by (simp add: only_thread_def)
    have "\<not> activated (timers s (Thread_Timer t))" using True kernel_inv_D(6) [OF o(1)] by (auto simp: timed_ok_def)
    moreover have "thread_lists s' l = filter (\<lambda>u. u \<notin> {t}) (thread_lists s l)" if "wait_list l" for l
      using s'(6) that s1(5) by (simp add: removeAll_filter)
    ultimately have "calm {t} s s'"
      using s'(5) by (intro operational_but(2) [OF op s'(2) sm th cur]) (auto simp: runnable_def)
    then have "calm {} s s'" using True by (auto intro: calm_awake)
    moreover have "reprioritises t p s s'"
    proof -
      have "thread_lists s' l = thread_lists s l" if "wait_list l" for l
        using s'(6) that s1(5) not_waiting [OF S _ that, of t] True by simp
      moreover have "same_wait (threads s t) (threads s' t)" using s1'(4) s1(4) by (simp add: same_wait_def)
      ultimately show ?thesis using sm th s'(4,5) True by (simp add: reprioritises_def)
    qed
    ultimately show ?thesis using True p s1(1) s'(1) by (simp add: rt_thread_control_def set_priority_def)
  qed
qed

text \<open>A thread that does not wait has its timer in no list.\<close>

lemma timer_idle:
  assumes "operational s" "stat (threads s t) \<noteq> RT_THREAD_SUSPEND"
  shows "row (timers s (Thread_Timer t)) = None" "\<not> activated (timers s (Thread_Timer t))"
proof -
  note o = operational_D [OF assms(1)]
  show a: "\<not> activated (timers s (Thread_Timer t))" using kernel_inv_D(6) [OF o(1)] assms(2) by (auto simp: timed_ok_def)
  have ok: "timer_ok (Thread_Timer t) (timers s (Thread_Timer t))" using kernel_inv_D(4) [OF o(1)] .
  have no: "row (timers s (Thread_Timer t)) \<noteq> Some l" if "timer_lists s l = []" for l
    using timer_links_D(2) [OF kernel_inv_D(3) [OF o(1)], of "Thread_Timer t" l] that by simp
  show "row (timers s (Thread_Timer t)) = None"
  proof (cases "row (timers s (Thread_Timer t))")
    case (Some l)
    then show ?thesis using ok a no [of l] o(2) by (cases l) (auto simp: timer_ok_def quiet_def)
  qed simp
qed

text \<open>A timer that is in no list is initialised.\<close>

lemma rt_timer_init_ok:
  assumes inv: "kernel_inv s" and r: "row (timers s i) = None" and t: "time < TICK_HALF" "per \<longrightarrow> 0 < time"
    and k: "\<And>x. i = Thread_Timer x \<Longrightarrow> \<not> per \<and> \<not> soft"
  shows "\<exists>s'. rt_timer_init i time per soft s = Some s' \<and> kernel_inv s' \<and> only_timer i s s' \<and> timer_lists s' = timer_lists s \<and>
    timers s' i = \<lparr>row = None, timer_init_tick = time, timeout_tick = 0, activated = False, periodic = per, soft_timer = soft\<rparr>"
proof -
  let ?t = "\<lparr>row = None, timer_init_tick = time, timeout_tick = 0, activated = False, periodic = per, soft_timer = soft\<rparr>"
  let ?s' = "upd_timer i (\<lambda>_. ?t) s"
  have o: "only_timer i s ?s'" by simp
  have l: "timer_links ?s'" using kernel_inv_D(3) [OF inv] r by (simp add: timer_links_def)
  have "i \<notin> set (timer_lists s Hard)" using timer_links_D(2) [OF kernel_inv_D(3) [OF inv]] r by simp
  then have h: "timer_lists ?s' Hard = removeAll i (timer_lists s Hard)" by simp
  have "timer_ok i (timers ?s' i)" using t k by (simp add: timer_ok_def)
  from timer_inv_stopped [OF kernel_inv_D(2) [OF inv] o l this h] have "kernel_inv ?s'" by (rule kernel_inv_timer [OF inv o]) simp
  then show ?thesis using t r by (simp add: rt_timer_init_def)
qed

lemma thread_init_calm:
  assumes op: "operational s" and t: "stat (threads s t) = RT_THREAD_INIT \<or> stat (threads s t) = RT_THREAD_CLOSE"
    "tlist (threads s t) = None" and p: "unat p < 32"
  shows "\<exists>s'. thread_init t p tick s = Some s' \<and> calm {t} s s' \<and> stat (threads s' t) = RT_THREAD_INIT \<and>
    current_priority (threads s' t) = p"
proof -
  note o = operational_D [OF op]
  let ?th = "\<lparr>tlist = None, error = RT_EOK, stat = RT_THREAD_INIT, stat_yield = False,
     current_priority = p, number_mask = 0, event_set = 0, event_info = 0, init_tick = tick, remaining_tick = tick\<rparr>"
  let ?s1 = "upd_thread t (\<lambda>_. ?th) s"
  have st: "stat (threads s t) \<noteq> RT_THREAD_RUNNING" "stat (threads s t) \<noteq> RT_THREAD_SUSPEND" "\<not> runnable (threads s t)"
    using t(1) by (auto simp: runnable_def)
  have cur: "rt_current_thread s \<noteq> Some t" using st(1) o(3) by (auto simp: cur_running_def)
  have L: "lists_inv s" "links_ok s" "group_ok s" using sched_inv_D [OF kernel_inv_D(1) [OF o(1)]] by simp_all
  have "lists_inv_but t s" using L(1) t(2) by (rule lists_inv_but_intro)
  then have "lists_inv_but t ?s1" by (auto simp: lists_inv_but_def links_ok_def group_ok_def)
  moreover have "thread_ok (threads ?s1 t)" by (simp add: thread_ok_def place_ok_def prio_ok_def)
  ultimately have l1: "lists_inv ?s1" by (rule lists_inv_but_done)
  note a = timer_idle [OF op st(2)]
  have "t \<noteq> idle" using st(3) sched_inv_D(6) [OF kernel_inv_D(1) [OF o(1)]] by auto
  then have c1: "calm {t} s ?s1"
    using a(2) cur filter_not_waiting [OF kernel_inv_D(1) [OF o(1)] st(2)] by (intro operational_but(2) [OF op l1]) simp_all
  then have k1: "kernel_inv ?s1" by (simp add: calm_def operational_def)
  have "\<exists>s'. rt_timer_init (Thread_Timer t) 0 False False ?s1 = Some s' \<and> kernel_inv s' \<and> only_timer (Thread_Timer t) ?s1 s' \<and>
      timer_lists s' = timer_lists ?s1 \<and> timers s' (Thread_Timer t) =
        \<lparr>row = None, timer_init_tick = 0, timeout_tick = 0, activated = False, periodic = False, soft_timer = False\<rparr>"
    by (rule rt_timer_init_ok [OF k1]) (use a(1) in \<open>simp_all add: TICK_HALF\<close>)
  then obtain s' where s': "rt_timer_init (Thread_Timer t) 0 False False ?s1 = Some s'" "kernel_inv s'"
    "only_timer (Thread_Timer t) ?s1 s'" "timer_lists s' = timer_lists ?s1" by blast
  have nin: "Thread_Timer t \<notin> set (timer_lists s Hard)" using timer_links_D(2) [OF kernel_inv_D(3) [OF o(1)]] a(1) by simp
  have "quiet s'"
  proof (rule quiet_sub [of ?s1])
    show "quiet ?s1" using c1 by (simp add: calm_def operational_def)
    show "timeout_tick (timers s' j) = timeout_tick (timers ?s1 j)" if "j \<in> set (timer_lists s' Hard)" for j
    proof -
      have "j \<noteq> Thread_Timer t" using that nin s'(4) by auto
      then show ?thesis using s'(3) by (simp add: only_timer_def)
    qed
  qed (use s'(3,4) in \<open>simp_all add: only_timer_def\<close>)
  moreover have "asleep u d s'" if "u \<noteq> t" "asleep u d ?s1" for u d
  proof -
    have "timers s' (Thread_Timer u) = timers ?s1 (Thread_Timer u)" "threads s' = threads ?s1"
      using s'(3) that(1) by (simp_all add: only_timer_def)
    then show ?thesis using that(2) by (simp only: asleep_def)
  qed
  moreover have "cur_running s'" "rt_scheduler_lock_nest s' < 0x8000" "rt_tick s' = rt_tick ?s1"
    using s'(3) c1 by (simp_all add: only_timer_def calm_def operational_def cur_running_def)
  moreover have "kept ?s1 s'" by (rule kept_same_lists) (use s'(3) in \<open>simp_all add: only_timer_def\<close>)
  ultimately have "calm {t} ?s1 s'" using s'(2) by (simp add: calm_def operational_def)
  from calm_trans [OF c1 this] have "calm {t} s s'" by simp
  moreover have "threads s' t = ?th" using s'(3) by (simp add: only_timer_def)
  ultimately show ?thesis using s'(1) p t(2) by (simp add: thread_init_def RT_THREAD_PRIORITY_MAX_def)
qed

lemma rt_thread_startup_calm:
  assumes op: "operational s" and t: "stat (threads s t) = RT_THREAD_INIT" "unat (current_priority (threads s t)) < 32"
  shows "\<exists>s'. rt_thread_startup t s = Some s' \<and> calm {t} s s' \<and> runnable (threads s' t) \<and>
    (rt_scheduler_lock_nest s = 0 \<longrightarrow> settled s')"
proof -
  note o = operational_D [OF op]
  note S = kernel_inv_D(1) [OF o(1)]
  let ?p = "current_priority (threads s t)"
  let ?f = "\<lambda>th. th\<lparr>current_priority := ?p, number_mask := push_bit (unat ?p) 1, stat := RT_THREAD_SUSPEND, stat_yield := False\<rparr>"
  let ?s1 = "upd_thread t ?f s"
  have cur: "rt_current_thread s \<noteq> Some t" using t(1) o(3) by (auto simp: cur_running_def)
  have nid: "t \<noteq> idle" using t(1) sched_inv_D(6) [OF S] by (auto simp: runnable_def)
  have "thread_ok (?f (threads s t))"
    using sched_inv_D(4) [OF S, of t] t by (auto simp: thread_ok_def place_ok_def prio_ok_def split: option.splits list_id.splits)
  then have "lists_inv ?s1" using sched_inv_D(1) [OF S] by (intro lists_inv_upd) simp_all
  moreover have "stat (threads s t) \<noteq> RT_THREAD_SUSPEND" using t(1) by simp
  note filter_not_waiting [OF S this]
  ultimately have c1: "calm {t} s ?s1" using cur nid by (intro operational_but(2) [OF op]) simp_all
  then have op1: "operational ?s1" by (simp add: calm_def)
  have "stat (threads ?s1 t) = RT_THREAD_SUSPEND" by simp
  from rt_thread_resume_ok [OF operational_D(1) [OF op1] this]
  obtain s2 where s2: "rt_thread_resume t ?s1 = Some (RT_EOK, s2)" "kernel_inv s2" "wakes {t} ?s1 s2"
    "cur_running ?s1 \<longrightarrow> cur_running s2" by blast
  have c2: "calm {t} ?s1 s2" using calm_wakes [OF op1 s2(2) _ s2(3)] s2(4) op1 by (simp add: operational_def)
  then have k2: "kernel_inv s2" "operational s2" by (simp_all add: calm_def operational_def)
  obtain s' where s': "rt_schedule s2 = Some s'" "kernel_inv s'" "wakes {} s2 s'" "rt_scheduler_lock_nest s2 = 0 \<longrightarrow> settled s'"
    "cur_running s2 \<longrightarrow> sound s'"
    using rt_schedule_kernel [OF k2(1)] by blast
  have "calm {} s2 s'" using calm_wakes [OF k2(2) s'(2) _ s'(3)] s'(5) operational_D(3) [OF k2(2)] sound_running by blast
  from calm_trans [OF calm_trans [OF c1 c2] this] have c: "calm {t} s s'" by simp
  have lock: "rt_scheduler_lock_nest s2 = rt_scheduler_lock_nest s" using s2(3) by (simp add: wakes_def)
  have r: "runnable (threads s' t)" using s2(3) s'(3) by (simp add: wakes_def)
  have "rt_current_thread s2 \<noteq> None" using operational_D(3) [OF k2(2)] by (auto simp: cur_running_def)
  moreover have "upd_thread t (\<lambda>th. th\<lparr>stat := RT_THREAD_SUSPEND, stat_yield := False\<rparr>)
      (upd_thread t (\<lambda>th. th\<lparr>current_priority := ?p, number_mask := push_bit (unat ?p) 1\<rparr>) s) = ?s1"
    by (simp add: upd_thread_def)
  ultimately have "rt_thread_startup t s = Some s'"
    using t s2(1) s'(1) by (simp add: rt_thread_startup_def set_priority_def)
  then show ?thesis using c r s'(4) lock by auto
qed

text \<open>Ending a thread: it leaves its list, its timer stops, and it waits for its memory to be freed.\<close>

lemma rt_thread_detach_ok:
  assumes inv: "kernel_inv s" and t: "t \<noteq> idle" "stat (threads s t) \<noteq> RT_THREAD_INIT" "stat (threads s t) \<noteq> RT_THREAD_CLOSE"
  shows "\<exists>s'. rt_thread_detach t s = Some s' \<and> kernel_inv s' \<and> (quiet s \<longrightarrow> quiet s') \<and>
    rt_tick s' = rt_tick s \<and> rt_scheduler_lock_nest s' = rt_scheduler_lock_nest s \<and> rt_current_thread s' = rt_current_thread s \<and>
    (\<forall>u. u \<noteq> t \<longrightarrow> threads s' u = threads s u \<and> timers s' (Thread_Timer u) = timers s (Thread_Timer u)) \<and>
    stat (threads s' t) = RT_THREAD_CLOSE \<and> tlist (threads s' t) = Some Defunct \<and> kept s s'"
proof -
  note S = kernel_inv_D(1) [OF inv]
  let ?i = "Thread_Timer t"
  let ?f = "\<lambda>th. th\<lparr>stat := RT_THREAD_CLOSE, stat_yield := False\<rparr>"
  obtain s1 where s1: "rt_schedule_remove_thread t s = Some s1" "lists_inv_but t s1" "only_thread t s s1"
    "threads s1 t = (threads s t)\<lparr>tlist := None\<rparr>" "\<forall>l. thread_lists s1 l = removeAll t (thread_lists s l)"
    using rt_schedule_remove_thread_ok [OF sched_inv_D(1) [OF S] t(2)] by auto
  let ?s2 = "rt_timer_detach ?i s1" and ?d = "rt_timer_detach ?i s"
  let ?s3 = "upd_thread t ?f ?s2"
  note d = rt_timer_detach_ok [OF inv, of ?i]
  have sm: "rt_tick s1 = rt_tick s" "timers s1 = timers s" "timer_lists s1 = timer_lists s"
    "rt_scheduler_lock_nest s1 = rt_scheduler_lock_nest s" "rt_current_thread s1 = rt_current_thread s"
    using s1(3) by (simp_all add: only_thread_def same_timers_def)
  have r: "timers (timer_remove ?i s1) = timers (timer_remove ?i s)" "timer_lists (timer_remove ?i s1) = timer_lists (timer_remove ?i s)"
    "threads (timer_remove ?i s1) = threads s1" "thread_lists (timer_remove ?i s1) = thread_lists s1"
    "rt_thread_ready_priority_group (timer_remove ?i s1) = rt_thread_ready_priority_group s1"
    "rt_interrupt_nest (timer_remove ?i s1) = rt_interrupt_nest s1" "kernel.more (timer_remove ?i s1) = kernel.more s1"
    "rt_tick (timer_remove ?i s1) = rt_tick s" "rt_current_thread (timer_remove ?i s1) = rt_current_thread s"
    "rt_scheduler_lock_nest (timer_remove ?i s1) = rt_scheduler_lock_nest s"
    using sm by (auto simp: timer_remove_def split: option.splits)
  have tm: "timers ?s3 = timers ?d" "timer_lists ?s3 = timer_lists ?d" by (simp_all add: rt_timer_detach_def r)
  have th2: "threads ?s2 = threads s1" by (simp add: rt_timer_detach_def r)
  have l3: "lists_inv_but t ?s3"
    using s1(2) by (simp add: lists_inv_but_def links_ok_def group_ok_def rt_timer_detach_def r)
  have fr3: "rt_tick ?s3 = rt_tick s" "rt_current_thread ?s3 = rt_current_thread s" "rt_scheduler_lock_nest ?s3 = rt_scheduler_lock_nest s"
    by (simp_all add: rt_timer_detach_def r)
  have links: "links_ok ?s3" "tlist (threads ?s3 t) = None" using l3 by (simp_all add: lists_inv_but_def)
  have nin: "t \<notin> set (thread_lists ?s3 Defunct)" using links_ok_D(2) [OF links(1)] links(2) by simp
  have "distinct (t # thread_lists ?s3 Defunct)" "set (t # thread_lists ?s3 Defunct) = insert t (set (thread_lists ?s3 Defunct))"
    using nin links_ok_D(1) [OF links(1)] by simp_all
  from link_thread_ok [OF links this] obtain s' where s': "link_thread Defunct t (t # thread_lists ?s3 Defunct) ?s3 = Some s'"
    "links_ok s'" "only_thread t ?s3 s'" "threads s' t = (threads ?s3 t)\<lparr>tlist := Some Defunct\<rparr>"
    "thread_lists s' = (thread_lists ?s3)(Defunct := t # thread_lists ?s3 Defunct)"
    "rt_thread_ready_priority_group s' = rt_thread_ready_priority_group ?s3" by blast
  have th: "threads s' u = threads s u" if "u \<noteq> t" for u using s'(3) s1(3) that by (simp add: only_thread_def th2)
  have t': "threads s' t = (threads s t)\<lparr>stat := RT_THREAD_CLOSE, stat_yield := False, tlist := Some Defunct\<rparr>"
    using s'(4) s1(4) by (simp add: th2)
  have ok: "thread_ok (threads s' u)" for u
    using sched_inv_D(4) [OF S, of u] t(2) th [of u] t' by (cases "u = t") (auto simp: thread_ok_def place_ok_def prio_ok_def)
  have "group_ok s'" using l3 s'(5,6) by (simp add: lists_inv_but_def group_ok_def)
  then have "lists_inv s'" using s'(2) ok by (simp add: lists_inv_def)
  moreover have cur: "rt_current_thread s' = rt_current_thread s" using s'(3) fr3 by (simp add: only_thread_def)
  have "cur_ok s'"
  proof -
    obtain c where c: "rt_current_thread s = Some c" "stat (threads s c) \<noteq> RT_THREAD_INIT" "stat (threads s c) \<noteq> RT_THREAD_READY"
      "\<And>u. stat (threads s u) = RT_THREAD_RUNNING \<Longrightarrow> u = c" using current_thread [OF S] by blast
    have "stat (threads s' c) \<noteq> RT_THREAD_INIT" "stat (threads s' c) \<noteq> RT_THREAD_READY"
      using c(2,3) th [of c] t' by (cases "c = t"; simp)+
    moreover have "u = c" if "stat (threads s' u) = RT_THREAD_RUNNING" for u
      using that c(4) [of u] th [of u] t' by (cases "u = t") simp_all
    ultimately show ?thesis using c(1) cur by (auto simp: cur_ok_def)
  qed
  ultimately have S': "sched_inv s'" using sched_inv_D(6) [OF S] th [of idle] t(1) by (simp add: sched_inv_def)
  have tm': "timers s' = timers ?d" "timer_lists s' = timer_lists ?d" "rt_tick s' = rt_tick s"
    "rt_scheduler_lock_nest s' = rt_scheduler_lock_nest s"
    using s'(3) tm fr3 by (simp_all add: only_thread_def same_timers_def)
  have tickd: "rt_tick ?d = rt_tick s" using d(2) by (simp add: only_timer_def)
  have "timer_inv s'"
    using kernel_inv_D(2) [OF d(1)] by (simp add: timer_inv_def timer_links_def hard_sorted_def remaining_def tm' tickd)
  moreover have tu: "timers s' (Thread_Timer u) = timers s (Thread_Timer u)" if "u \<noteq> t" for u
    using d(2) that by (simp add: tm' only_timer_def)
  have "timed_ok s'"
    unfolding timed_ok_def
  proof (intro allI impI)
    fix u assume a: "activated (timers s' (Thread_Timer u))"
    then have "u \<noteq> t" using d(3) by (auto simp: tm')
    then show "stat (threads s' u) = RT_THREAD_SUSPEND" using a tu th kernel_inv_D(6) [OF inv] by (simp add: timed_ok_def)
  qed
  ultimately have "kernel_inv s'" using S' by (simp add: kernel_inv_def)
  moreover have "quiet s'" if "quiet s"
  proof (rule quiet_sub [OF that])
    show "set (timer_lists s' l) \<subseteq> set (timer_lists s l)" for l using d(4) by (auto simp: tm')
    show "timeout_tick (timers s' j) = timeout_tick (timers s j)" if "j \<in> set (timer_lists s' Hard)" for j
    proof -
      have "j \<noteq> ?i" using that d(4) by (auto simp: tm')
      then show ?thesis using d(2) by (simp add: tm' only_timer_def)
    qed
  qed (rule tm')
  moreover have "rt_thread_detach t s = Some s'"
    using t(2,3) s1(1) s'(1) by (simp add: rt_thread_detach_def detach_unready_def detach_close_def rt_thread_defunct_enqueue_def rt_list_insert_after_def)
  moreover have "kept s s'"
  proof (rule keptI [where W = "{t}"])
    show "rt_interrupt_nest s' = rt_interrupt_nest s" "kernel.more s' = kernel.more s"
      using s'(3) s1(3) by (simp_all add: only_thread_def same_timers_def rt_timer_detach_def r)
    show "thread_lists s' l = filter (\<lambda>u. u \<notin> {t}) (thread_lists s l)" if "wait_list l" for l
    proof -
      have "l \<noteq> Defunct" using that by auto
      then show ?thesis using s'(5) s1(5) by (simp add: rt_timer_detach_def r removeAll_filter)
    qed
    show "same_wait (threads s u) (threads s' u)" if "u \<notin> {t}" for u using th that by simp
  qed
  ultimately show ?thesis using tm'(3,4) cur th tu t' by auto
qed

text \<open>
  Between the two parts the thread is in no list, but its timer runs and its state is the old one: when its timer goes
  off there, or another thread's interrupt resumes it, it is inserted into its ready list, and the second part links it into
  the list of ended threads although it is linked.
\<close>

lemma rt_thread_detach_window:
  assumes "rt_schedule_insert_thread t s = Some s'" "rt_current_thread s \<noteq> Some t"
  shows "detach_close t s' = None"
proof -
  have "tlist (threads s' t) \<noteq> None"
    using assms by (auto simp: rt_schedule_insert_thread_def rt_list_insert_before_def rt_list_insert_after_def link_thread_def upd_thread_def Let_def
        split: Option.bind_splits if_splits)
  moreover have "threads (rt_timer_detach (Thread_Timer t) s') = threads s'"
    by (simp add: rt_timer_detach_def timer_remove_def upd_timer_def split: option.splits)
  ultimately show ?thesis
    by (simp add: detach_close_def Let_def rt_thread_defunct_enqueue_def rt_list_insert_after_def link_thread_def upd_thread_def)
qed

lemma rt_thread_detach_calm:
  assumes op: "operational s" and t: "t \<noteq> idle" "stat (threads s t) \<noteq> RT_THREAD_INIT" "rt_current_thread s \<noteq> Some t"
  shows "\<exists>s'. rt_thread_detach t s = Some s' \<and> calm {t} s s' \<and> stat (threads s' t) = RT_THREAD_CLOSE"
proof (cases "stat (threads s t) = RT_THREAD_CLOSE")
  case True
  then show ?thesis using calm_refl [OF op] by (simp add: rt_thread_detach_def)
next
  case False
  note o = operational_D [OF op]
  obtain s' where s': "rt_thread_detach t s = Some s'" "kernel_inv s'" "quiet s \<longrightarrow> quiet s'" "rt_tick s' = rt_tick s"
    "rt_scheduler_lock_nest s' = rt_scheduler_lock_nest s" "rt_current_thread s' = rt_current_thread s"
    "\<forall>u. u \<noteq> t \<longrightarrow> threads s' u = threads s u \<and> timers s' (Thread_Timer u) = timers s (Thread_Timer u)"
    "stat (threads s' t) = RT_THREAD_CLOSE" "kept s s'"
    using rt_thread_detach_ok [OF o(1) t(1,2) False] by blast
  obtain c where c: "rt_current_thread s = Some c" "stat (threads s c) = RT_THREAD_RUNNING" using operational_current [OF op] by blast
  then have "c \<noteq> t" using t(3) by auto
  then have "cur_running s'" using c s'(6,7) by (simp add: cur_running_def)
  then have "operational s'" using s'(2,3,5) o(2,4) by (simp add: operational_def)
  moreover have "asleep u d s'" if "u \<notin> {t}" "asleep u d s" for u d using that s'(7) by (simp add: asleep_def)
  ultimately show ?thesis using s'(1,4,8,9) by (simp add: calm_def)
qed

text \<open>A thread that returns from its function.\<close>

lemma thread_exit_calm:
  assumes op: "operational s" and t: "rt_current_thread s = Some t" "t \<noteq> idle" and lock: "rt_scheduler_lock_nest s = 0"
  shows "\<exists>s'. thread_exit s = Some s' \<and> calm {} s s' \<and> settled s' \<and> stat (threads s' t) = RT_THREAD_CLOSE"
proof -
  note o = operational_D [OF op]
  have run: "stat (threads s t) = RT_THREAD_RUNNING" using o(3) t(1) by (auto simp: cur_running_def)
  obtain s1 where s1: "rt_thread_detach t s = Some s1" "kernel_inv s1" "quiet s \<longrightarrow> quiet s1" "rt_tick s1 = rt_tick s"
    "rt_scheduler_lock_nest s1 = rt_scheduler_lock_nest s" "rt_current_thread s1 = rt_current_thread s"
    "\<forall>u. u \<noteq> t \<longrightarrow> threads s1 u = threads s u \<and> timers s1 (Thread_Timer u) = timers s (Thread_Timer u)"
    "stat (threads s1 t) = RT_THREAD_CLOSE" "kept s s1"
    using rt_thread_detach_ok [OF o(1) t(2)] run by auto
  obtain s' where s': "rt_schedule s1 = Some s'" "kernel_inv s'" "wakes {} s1 s'" "rt_scheduler_lock_nest s1 = 0 \<longrightarrow> settled s'"
    using rt_schedule_kernel [OF s1(2)] by blast
  have set: "settled s'" using s'(4) s1(5) lock by simp
  have e: "thread_exit s = Some s'"
    using t(1) run s1(1) s'(1) by (cases "rt_schedule_remove_thread t s") (simp_all add: thread_exit_def rt_thread_detach_def detach_unready_def detach_close_def)
  have "operational s'"
    using s'(2,3) settled_running [OF set] s1(3,5) o(2,4) by (simp add: operational_def wakes_def)
  moreover have "asleep u d s'" if "asleep u d s" for u d
  proof -
    have "u \<noteq> t" using that run by (auto simp: asleep_def)
    then have "asleep u d s1" using that s1(7) by (simp add: asleep_def)
    then show ?thesis using asleep_wakes [OF s'(3)] by simp
  qed
  moreover have "stat (threads s' t) = RT_THREAD_CLOSE" using s'(3) s1(8) by (simp add: wakes_def runnable_def)
  moreover have "kept s s'" using kept_trans [OF s1(9) kept_wakes [OF s'(3)]] .
  ultimately show ?thesis using e set s1(4) s'(3) by (simp add: calm_def wakes_def)
qed

lemma rt_thread_defunct_dequeue_calm:
  assumes op: "operational s" and r: "rt_thread_defunct_dequeue s = (r, s')"
  shows "calm {} s s'"
proof (cases "thread_lists s Defunct")
  case Nil
  then show ?thesis using r calm_refl [OF op] by (simp add: rt_thread_defunct_dequeue_def)
next
  case (Cons t ts)
  note o = operational_D [OF op]
  note S = kernel_inv_D(1) [OF o(1)]
  have e: "s' = rt_list_remove t s" using r Cons by (simp add: rt_thread_defunct_dequeue_def)
  have tl: "tlist (threads s t) = Some Defunct" using links_ok_D(2) [OF sched_inv_D(2) [OF S], of t Defunct] Cons by simp
  have st: "stat (threads s t) = RT_THREAD_CLOSE" using sched_inv_D(4) [OF S, of t] tl by (simp add: thread_ok_def place_ok_def)
  note m = rt_list_remove_ok [OF sched_inv_D(2) [OF S], of t]
  have nr: "removeAll t (thread_lists s (Ready p)) = thread_lists s (Ready p)" for p
    using links_ok_D(2) [OF sched_inv_D(2) [OF S], of t "Ready p"] tl by simp
  have "group_ok s'" using sched_inv_D(3) [OF S] by (simp add: e group_ok_def m(4,5) nr)
  moreover have th: "threads s' u = threads s u" if "u \<noteq> t" for u using m(2) that by (simp add: e only_thread_def)
  moreover have "thread_ok (threads s' u)" for u
    using sched_inv_D(4) [OF S, of u] th [of u] m(3) st by (cases "u = t") (auto simp: e thread_ok_def place_ok_def)
  ultimately have l: "lists_inv s'" using m(1) by (simp add: lists_inv_def e)
  have sm: "same_timers s s'" "rt_current_thread s' = rt_current_thread s" using m(2) by (simp_all add: e only_thread_def)
  have cur: "rt_current_thread s \<noteq> Some t" using st o(3) by (auto simp: cur_running_def)
  have nid: "t \<noteq> idle" using st sched_inv_D(6) [OF S] by (auto simp: runnable_def)
  have "calm {t} s s'"
    using m(3) st nid timer_idle(2) [OF op, of t]
    by (intro operational_but(2) [OF op l sm th cur]) (simp_all add: e m(4) removeAll_filter)
  then show ?thesis using st by (auto intro: calm_awake)
qed

subsection \<open>The timers of the application\<close>

lemma calm_timer:
  assumes op: "operational s" and k: "kernel_inv s'" "only_timer (App_Timer n) s s'" "quiet s'"
  shows "calm {} s s'"
proof -
  have "kept s s'" by (rule kept_same_lists) (use k(2) in \<open>simp_all add: only_timer_def\<close>)
  then show ?thesis using assms by (simp add: calm_def operational_def cur_running_def asleep_def only_timer_def)
qed

lemma rt_timer_init_calm:
  assumes op: "operational s" and i: "row (timers s (App_Timer n)) = None" "time < TICK_HALF" "per \<longrightarrow> 0 < time"
  shows "\<exists>s'. rt_timer_init (App_Timer n) time per soft s = Some s' \<and> calm {} s s'"
proof -
  note o = operational_D [OF op]
  obtain s' where s': "rt_timer_init (App_Timer n) time per soft s = Some s'" "kernel_inv s'" "only_timer (App_Timer n) s s'"
    "timer_lists s' = timer_lists s"
    using rt_timer_init_ok [OF o(1) i] by auto
  have nin: "App_Timer n \<notin> set (timer_lists s Hard)" using timer_links_D(2) [OF kernel_inv_D(3) [OF o(1)]] i(1) by simp
  have "quiet s'"
  proof (rule quiet_sub [OF o(2)])
    show "timeout_tick (timers s' j) = timeout_tick (timers s j)" if "j \<in> set (timer_lists s' Hard)" for j
    proof -
      have "j \<noteq> App_Timer n" using that nin s'(4) by auto
      then show ?thesis using s'(3) by (simp add: only_timer_def)
    qed
  qed (use s'(3,4) in \<open>simp_all add: only_timer_def\<close>)
  then show ?thesis using calm_timer [OF op s'(2,3)] s'(1) by blast
qed

lemma rt_timer_start_calm:
  assumes op: "operational s" and hard: "\<not> soft_timer (timers s (App_Timer n))"
  shows "\<exists>s'. rt_timer_start (App_Timer n) s = Some s' \<and> calm {} s s' \<and> activated (timers s' (App_Timer n)) \<and>
    timeout_tick (timers s' (App_Timer n)) = rt_tick s + timer_init_tick (timers s (App_Timer n))"
proof -
  let ?i = "App_Timer n"
  note o = operational_D [OF op]
  have ok: "timer_ok j (timers s j)" for j using kernel_inv_D(4) [OF o(1)] .
  have t: "timer_ok ?i ((timers s ?i)\<lparr>row := None, activated := False\<rparr>)" using ok [of ?i] by (simp add: timer_ok_def)
  obtain s' where s': "rt_timer_start ?i s = Some s'" "only_timer ?i s s'" "timer_inv s'"
    "timers s' ?i = (timers s ?i)\<lparr>row := Some Hard, activated := True, timeout_tick := rt_tick s + timer_init_tick (timers s ?i)\<rparr>"
    "set (timer_lists s' Hard) = insert ?i (set (timer_lists s Hard))"
    "\<forall>l. l \<noteq> Hard \<longrightarrow> timer_lists s' l = removeAll ?i (timer_lists s l)"
    using rt_timer_start_hard [OF kernel_inv_D(3) [OF o(1)] ok kernel_inv_D(5) [OF o(1)] t hard] by blast
  have k: "kernel_inv s'" by (rule kernel_inv_timer [OF o(1) s'(2,3)]) simp
  let ?v = "timer_init_tick (timers s ?i)"
  have v: "?v < TICK_HALF" using ok [of ?i] by (simp add: timer_ok_def)
  have e: "rt_tick s + ?v - (rt_tick s - 1) = ?v + 1" by simp
  have "unat (rt_tick s + ?v - (rt_tick s - 1)) = unat ?v + 1"
    unfolding e using v by (subst unat_add_lt) (simp_all add: TICK_HALF word_less_nat_alt)
  then have "1 \<le> remaining s' ?i" using s'(2,4) by (simp add: remaining_def only_timer_def)
  moreover have "remaining s' j = remaining s j" if "j \<noteq> ?i" for j
    using s'(2) that by (intro remaining_cong) (simp_all add: only_timer_def)
  ultimately have "1 \<le> remaining s' j" if "j \<in> set (timer_lists s' Hard)" for j
    using that o(2) s'(5) by (cases "j = ?i") (auto simp: quiet_def)
  then have "quiet s'" using o(2) s'(6) by (simp add: quiet_def)
  then show ?thesis using calm_timer [OF op k s'(2)] s'(1,4) by simp
qed

lemma rt_timer_stop_calm:
  assumes op: "operational s"
  shows "calm {} s (snd (rt_timer_stop (App_Timer n) s))"
  using calm_timer [OF op] rt_timer_stop_ok(1,2) quiet_stop operational_D(1,2) [OF op] by blast

lemma rt_timer_control_calm:
  assumes op: "operational s"
    and cmd: "\<And>v. cmd = Set_Time v \<Longrightarrow> v < TICK_HALF \<and> (periodic (timers s (App_Timer n)) \<longrightarrow> 0 < v)"
      "cmd = Set_Periodic \<Longrightarrow> 0 < timer_init_tick (timers s (App_Timer n))"
  shows "\<exists>r s'. rt_timer_control (App_Timer n) cmd s = Some (r, s') \<and> calm {} s s'"
proof -
  let ?i = "App_Timer n"
  note o = operational_D [OF op]
  have upd: "calm {} s (upd_timer ?i f s)"
    if f: "\<And>t. row (f t) = row t" "\<And>t. timeout_tick (f t) = timeout_tick t" and ok: "timer_ok ?i (f (timers s ?i))" for f
  proof (rule calm_timer [OF op, of _ n])
    let ?s' = "upd_timer ?i f s"
    have rem: "remaining ?s' j = remaining s j" for j by (rule remaining_cong) (simp_all add: f)
    have "timer_inv ?s'"
      using kernel_inv_D(2) [OF o(1)] ok f(1) by (simp add: timer_inv_def timer_links_def hard_sorted_def rem)
    then show "kernel_inv ?s'" using kernel_inv_timer [OF o(1), of ?i ?s'] by simp
    show "quiet ?s'" using o(2) by (simp add: quiet_def rem)
  qed simp
  have i: "timer_ok ?i (timers s ?i)" using kernel_inv_D(4) [OF o(1)] .
  show ?thesis
  proof (cases cmd)
    case (Set_Time v)
    have "timer_ok ?i ((timers s ?i)\<lparr>timer_init_tick := v\<rparr>)" using i cmd(1) [OF Set_Time] by (simp add: timer_ok_def)
    then show ?thesis using upd [of "\<lambda>t. t\<lparr>timer_init_tick := v\<rparr>"] cmd(1) [OF Set_Time] by (simp add: rt_timer_control_def Set_Time)
  next
    case Set_Oneshot
    have "row (timers s ?i) \<noteq> Some l" if "timer_lists s l = []" for l
      using timer_links_D(2) [OF kernel_inv_D(3) [OF o(1)], of ?i l] that by simp
    then have "row (timers s ?i) \<noteq> Some Hard_Check" "row (timers s ?i) \<noteq> Some Soft_Check" using o(2) by (simp_all add: quiet_def)
    then have "timer_ok ?i ((timers s ?i)\<lparr>periodic := False\<rparr>)" using i by (simp add: timer_ok_def)
    then show ?thesis using upd [of "\<lambda>t. t\<lparr>periodic := False\<rparr>"] by (simp add: rt_timer_control_def Set_Oneshot)
  next
    case Set_Periodic
    have "timer_ok ?i ((timers s ?i)\<lparr>periodic := True\<rparr>)" using i cmd(2) [OF Set_Periodic] by (simp add: timer_ok_def)
    then show ?thesis using upd [of "\<lambda>t. t\<lparr>periodic := True\<rparr>"] by (simp add: rt_timer_control_def Set_Periodic)
  qed (simp_all add: rt_timer_control_def calm_refl [OF op])
qed

subsection \<open>Programs of calls\<close>

datatype kcall =
    Tick | Yield | Schedule | Sleep u32 | Delay_Until u32 u32 | Suspend_Self | Resume tid
  | Enter_Critical | Exit_Critical | Set_Priority tid u8
  | Init_Thread tid u8 u32 | Start_Thread tid | Exit_Thread | Detach_Thread tid | Reap
  | Init_Timer nat u32 bool | Start_Timer nat | Stop_Timer nat | Control_Timer nat timer_cmd

fun kcall_step :: "kcall \<Rightarrow> 'a kernel_scheme \<Rightarrow> 'a kernel_scheme option" where
  "kcall_step Tick s = rt_tick_increase s"
| "kcall_step Yield s = rt_thread_yield s"
| "kcall_step Schedule s = rt_schedule s"
| "kcall_step (Sleep n) s = rt_thread_sleep n s"
| "kcall_step (Delay_Until tick inc) s = map_option (\<lambda>(_, _, s). s) (rt_thread_delay_until tick inc s)"
| "kcall_step Suspend_Self s = do { t \<leftarrow> rt_current_thread s; (_, s) \<leftarrow> rt_thread_suspend t s; rt_schedule s }"
| "kcall_step (Resume t) s = map_option snd (rt_thread_resume t s)"
| "kcall_step Enter_Critical s = Some (rt_enter_critical s)"
| "kcall_step Exit_Critical s = rt_exit_critical s"
| "kcall_step (Set_Priority t p) s = rt_thread_control t (Change_Priority p) s"
| "kcall_step (Init_Thread t p tick) s = thread_init t p tick s"
| "kcall_step (Start_Thread t) s = rt_thread_startup t s"
| "kcall_step Exit_Thread s = thread_exit s"
| "kcall_step (Detach_Thread t) s = rt_thread_detach t s"
| "kcall_step Reap s = Some (snd (rt_thread_defunct_dequeue s))"
| "kcall_step (Init_Timer n time per) s = rt_timer_init (App_Timer n) time per False s"
| "kcall_step (Start_Timer n) s = rt_timer_start (App_Timer n) s"
| "kcall_step (Stop_Timer n) s = Some (snd (rt_timer_stop (App_Timer n) s))"
| "kcall_step (Control_Timer n cmd) s = map_option snd (rt_timer_control (App_Timer n) cmd s)"

text \<open>
  When a call may be made. The idle thread never waits, nobody waits with the scheduler locked, times are below half
  the range of the tick, a periodic timer has a time, priorities are below 32, a thread is initialised before it is
  started, and an object that is in use is not initialised again.
\<close>

fun allowed :: "kcall \<Rightarrow> 'a kernel_scheme \<Rightarrow> bool" where
  "allowed (Sleep n) s = (n < TICK_HALF \<and> rt_current_thread s \<noteq> Some idle \<and> rt_scheduler_lock_nest s = 0)"
| "allowed (Delay_Until tick inc) s = (inc < TICK_HALF \<and> rt_current_thread s \<noteq> Some idle \<and> rt_scheduler_lock_nest s = 0)"
| "allowed Suspend_Self s = (rt_current_thread s \<noteq> Some idle \<and> rt_scheduler_lock_nest s = 0)"
| "allowed Exit_Thread s = (rt_current_thread s \<noteq> Some idle \<and> rt_scheduler_lock_nest s = 0)"
| "allowed Enter_Critical s = (rt_scheduler_lock_nest s < 0x7FFF)"
| "allowed (Set_Priority t p) s = (unat p < 32)"
| "allowed (Init_Thread t p tick) s =
     ((stat (threads s t) = RT_THREAD_INIT \<or> stat (threads s t) = RT_THREAD_CLOSE) \<and> tlist (threads s t) = None \<and> unat p < 32)"
| "allowed (Start_Thread t) s = (stat (threads s t) = RT_THREAD_INIT \<and> unat (current_priority (threads s t)) < 32)"
| "allowed (Detach_Thread t) s = (t \<noteq> idle \<and> stat (threads s t) \<noteq> RT_THREAD_INIT \<and> rt_current_thread s \<noteq> Some t)"
| "allowed (Init_Timer n time per) s = (row (timers s (App_Timer n)) = None \<and> time < TICK_HALF \<and> (per \<longrightarrow> 0 < time))"
| "allowed (Start_Timer n) s = (\<not> soft_timer (timers s (App_Timer n)))"
| "allowed (Control_Timer n (Set_Time v)) s = (v < TICK_HALF \<and> (periodic (timers s (App_Timer n)) \<longrightarrow> 0 < v))"
| "allowed (Control_Timer n Set_Periodic) s = (0 < timer_init_tick (timers s (App_Timer n)))"
| "allowed _ s = True"

text \<open>The threads whose waiting a call may end.\<close>

fun disturbs :: "kcall \<Rightarrow> tid set" where
  "disturbs (Resume t) = {t}"
| "disturbs (Detach_Thread t) = {t}"
| "disturbs _ = {}"

inductive kernel_run :: "kcall list \<Rightarrow> 'a kernel_scheme \<Rightarrow> 'a kernel_scheme \<Rightarrow> bool" where
  stop: "kernel_run [] s s"
| call: "allowed c s \<Longrightarrow> kcall_step c s = Some s' \<Longrightarrow> kernel_run cs s' s'' \<Longrightarrow> kernel_run (c # cs) s s''"

inductive_cases kernel_run_NilE [elim!]: "kernel_run [] s s'"
inductive_cases kernel_run_ConsE: "kernel_run (c # cs) s s''"
inductive_simps kernel_run_Nil [simp]: "kernel_run [] s s'"

lemma suspend_self_None:
  "(do { (_, s) \<leftarrow> rt_thread_suspend t s; rt_schedule s }) = suspend_self t None s"
  by (simp add: suspend_self_def)

lemma calm_less: "calm {} s s' \<Longrightarrow> calm V s s'"
  by (simp add: calm_def)

lemma kcall_calm:
  assumes op: "operational s" and a: "allowed c s" and c: "c \<noteq> Tick"
  shows "\<exists>s'. kcall_step c s = Some s' \<and> calm (disturbs c) s s'"
proof -
  obtain t where t: "rt_current_thread s = Some t" using operational_D(3) [OF op] by (auto simp: cur_running_def)
  show ?thesis
  proof (cases c)
    case Yield
    then show ?thesis using rt_thread_yield_calm [OF op] by auto
  next
    case Schedule
    then show ?thesis using rt_schedule_calm [OF op] by auto
  next
    case (Sleep n)
    then have "t \<noteq> idle" "rt_scheduler_lock_nest s = 0" "n < TICK_HALF" using a t by auto
    from rt_thread_sleep_calm [OF op t this] show ?thesis using Sleep by auto
  next
    case (Delay_Until tick inc)
    then have "t \<noteq> idle" "rt_scheduler_lock_nest s = 0" "inc < TICK_HALF" using a t by auto
    from rt_thread_delay_until_calm [OF op t this, of tick] show ?thesis using Delay_Until by auto
  next
    case Suspend_Self
    then have "t \<noteq> idle" "rt_scheduler_lock_nest s = 0" using a t by auto
    from suspend_self_calm [OF op t this, of None] show ?thesis using Suspend_Self t by (auto simp: suspend_self_None)
  next
    case (Resume u)
    then show ?thesis using rt_thread_resume_calm [OF op, of u] by auto
  next
    case Enter_Critical
    then show ?thesis using rt_enter_critical_calm [OF op] a by auto
  next
    case Exit_Critical
    then show ?thesis using rt_exit_critical_calm [OF op] by auto
  next
    case (Set_Priority u p)
    then show ?thesis using change_priority_calm [OF op, of p u] a by auto
  next
    case (Init_Thread u p tick)
    then have u: "stat (threads s u) = RT_THREAD_INIT \<or> stat (threads s u) = RT_THREAD_CLOSE" "tlist (threads s u) = None" "unat p < 32"
      using a by simp_all
    obtain s' where s': "thread_init u p tick s = Some s'" "calm {u} s s'" using thread_init_calm [OF op u] by blast
    have "calm {} s s'" by (rule calm_awake [OF s'(2)]) (use u(1) in auto)
    then show ?thesis using Init_Thread s'(1) by simp
  next
    case (Start_Thread u)
    then have u: "stat (threads s u) = RT_THREAD_INIT" "unat (current_priority (threads s u)) < 32" using a by simp_all
    obtain s' where s': "rt_thread_startup u s = Some s'" "calm {u} s s'" using rt_thread_startup_calm [OF op u] by blast
    have "calm {} s s'" by (rule calm_awake [OF s'(2)]) (use u(1) in auto)
    then show ?thesis using Start_Thread s'(1) by simp
  next
    case Exit_Thread
    then have "t \<noteq> idle" "rt_scheduler_lock_nest s = 0" using a t by auto
    from thread_exit_calm [OF op t this] show ?thesis using Exit_Thread by auto
  next
    case (Detach_Thread u)
    then show ?thesis using rt_thread_detach_calm [OF op, of u] a by auto
  next
    case Reap
    obtain r s' where r: "rt_thread_defunct_dequeue s = (r, s')" by fastforce
    from rt_thread_defunct_dequeue_calm [OF op r] show ?thesis using Reap r by simp
  next
    case (Init_Timer n time per)
    then show ?thesis using rt_timer_init_calm [OF op, of n time per False] a by auto
  next
    case (Start_Timer n)
    then show ?thesis using rt_timer_start_calm [OF op, of n] a by auto
  next
    case (Stop_Timer n)
    then show ?thesis using rt_timer_stop_calm [OF op, of n] by simp
  next
    case (Control_Timer n cmd)
    have "\<exists>r s'. rt_timer_control (App_Timer n) cmd s = Some (r, s') \<and> calm {} s s'"
      by (rule rt_timer_control_calm [OF op]) (use a Control_Timer in auto)
    then show ?thesis using Control_Timer by auto
  qed (use c in simp)
qed

lemma kcall_operational:
  assumes "operational s" "allowed c s"
  shows "\<exists>s'. kcall_step c s = Some s' \<and> operational s'"
proof (cases "c = Tick")
  case True
  then show ?thesis using rt_tick_increase_ok [OF assms(1)] by auto
qed (use kcall_calm [OF assms] in \<open>auto simp: calm_def\<close>)

lemma kernel_run_operational:
  "kernel_run cs s s' \<Longrightarrow> operational s \<Longrightarrow> operational s'"
proof (induction rule: kernel_run.induct)
  case (call c s s' cs s'')
  then show ?case using kcall_operational [OF call.prems call.hyps(1)] by simp
qed

text \<open>How a thread sleeps through a program of calls that does not end its waiting.\<close>

definition ticks :: "kcall list \<Rightarrow> nat" where "ticks cs = count_list cs Tick"

lemma ticks_simps [simp]: "ticks [] = 0" "ticks (c # cs) = (if c = Tick then ticks cs + 1 else ticks cs)"
  by (simp_all add: ticks_def)

lemma asleep_tick:
  assumes op: "operational s" and t: "asleep t d s" and s': "rt_tick_increase s = Some s'"
  shows "if unat (d - rt_tick s) \<le> 1 then runnable (threads s' t) \<and> error (threads s' t) = - RT_ETIMEOUT
    else asleep t d s' \<and> unat (d - rt_tick s') = unat (d - rt_tick s) - 1"
proof -
  have s1: "rt_tick s' = rt_tick s + 1" "times_out (waking s) s s'" using rt_tick_increase_ok [OF op] s' by auto
  have w: "t \<in> waking s \<longleftrightarrow> unat (d - rt_tick s) \<le> 1" using t by (simp add: waking_def asleep_def word_le_nat_alt)
  show ?thesis
  proof (cases "unat (d - rt_tick s) \<le> 1")
    case True
    then show ?thesis using w s1(2) by (simp add: times_out_def)
  next
    case False
    have "1 \<le> d - rt_tick s" using False by (simp add: word_le_nat_alt)
    then have "unat (d - rt_tick s - 1) = unat (d - rt_tick s) - 1" using unat_sub_le [of 1 "d - rt_tick s"] by simp
    moreover have "d - rt_tick s' = d - rt_tick s - 1" unfolding s1(1) by simp
    ultimately have "unat (d - rt_tick s') = unat (d - rt_tick s) - 1" by (simp only:)
    then show ?thesis using False w asleep_times_out [OF s1(2) _ t] by simp
  qed
qed

lemma kernel_run_asleep:
  assumes "kernel_run cs s s'" "operational s" "asleep t d s" "\<And>c. c \<in> set cs \<Longrightarrow> t \<notin> disturbs c"
    "ticks cs < max 1 (unat (d - rt_tick s))"
  shows "asleep t d s' \<and> operational s' \<and> unat (d - rt_tick s') = unat (d - rt_tick s) - ticks cs"
  using assms
proof (induction rule: kernel_run.induct)
  case (stop s)
  then show ?case by simp
next
  case (call c s s' cs s'')
  show ?case
  proof (cases "c = Tick")
    case True
    then have lt: "ticks cs + 1 < max 1 (unat (d - rt_tick s))" using call.prems(4) by simp
    have step: "rt_tick_increase s = Some s'" using True call.hyps(2) by simp
    have s1: "asleep t d s'" "unat (d - rt_tick s') = unat (d - rt_tick s) - 1"
      using asleep_tick [OF call.prems(1,2) step] lt by (auto split: if_splits)
    moreover have "operational s'" using rt_tick_increase_ok [OF call.prems(1)] step by auto
    ultimately have "asleep t d s'' \<and> operational s'' \<and> unat (d - rt_tick s'') = unat (d - rt_tick s') - ticks cs"
      using call.IH call.prems(3) lt by simp
    then show ?thesis using True s1(2) by simp
  next
    case False
    then have "calm (disturbs c) s s'" using kcall_calm [OF call.prems(1) call.hyps(1) False] call.hyps(2) by auto
    then have "asleep t d s'" "operational s'" "rt_tick s' = rt_tick s" using call.prems(2,3) by (auto simp: calm_def)
    then show ?thesis using call.IH call.prems(3,4) False by simp
  qed
qed

text \<open>A thread whose timer runs sleeps through a program with fewer ticks, and the last tick wakes it.\<close>

lemma asleep_run:
  assumes "operational s1" "asleep t d s1" "kernel_run cs s1 s2" "\<forall>c \<in> set cs. t \<notin> disturbs c" "ticks cs < max 1 (unat (d - rt_tick s1))"
  shows "stat (threads s2 t) = RT_THREAD_SUSPEND \<and> (ticks cs + 1 = max 1 (unat (d - rt_tick s1)) \<longrightarrow>
    (\<exists>s3. rt_tick_increase s2 = Some s3 \<and> operational s3 \<and> runnable (threads s3 t) \<and> error (threads s3 t) = - RT_ETIMEOUT))"
proof -
  have s2: "asleep t d s2" "operational s2" "unat (d - rt_tick s2) = unat (d - rt_tick s1) - ticks cs"
    using kernel_run_asleep [OF assms(3,1,2)] assms(4,5) by blast+
  obtain s3 where s3: "rt_tick_increase s2 = Some s3" "operational s3" using rt_tick_increase_ok [OF s2(2)] by blast
  have "runnable (threads s3 t) \<and> error (threads s3 t) = - RT_ETIMEOUT" if "ticks cs + 1 = max 1 (unat (d - rt_tick s1))"
  proof -
    have "unat (d - rt_tick s2) \<le> 1" using s2(3) that by simp
    then show ?thesis using asleep_tick [OF s2(2,1) s3(1)] by simp
  qed
  then show ?thesis using s2(1) s3 by (auto simp: asleep_def)
qed

end
