(* ===== verification/Kernel_Props.thy ===== *)
theory Kernel_Props
  imports Kernel_Calls
begin

text \<open>
  What the kernel promises to its threads: the state its start-up reaches, the choice of the thread that runs, the
  safety of programs of calls, the length of a sleep, and what yielding does among threads of one priority.
\<close>

subsection \<open>Start-up\<close>

text \<open>The zeroed memory the start-up begins with.\<close>

definition blank_thread :: rt_thread where
  "blank_thread = \<lparr>tlist = None, error = 0, stat = RT_THREAD_INIT, stat_yield = False, current_priority = 0, number_mask = 0,
     event_set = 0, event_info = 0, init_tick = 0, remaining_tick = 0\<rparr>"

definition blank_timer :: rt_timer where
  "blank_timer = \<lparr>row = None, timer_init_tick = 0, timeout_tick = 0, activated = False, periodic = False, soft_timer = False\<rparr>"

definition blank_kernel :: kernel where
  "blank_kernel = \<lparr>rt_tick = 0, threads = (\<lambda>_. blank_thread), thread_lists = (\<lambda>_. []), rt_thread_ready_priority_group = 0,
     rt_current_thread = None, rt_current_priority = 0, rt_scheduler_lock_nest = 0, rt_interrupt_nest = 0,
     timers = (\<lambda>_. blank_timer), timer_lists = (\<lambda>_. []), soft_timer_busy = False, fired = []\<rparr>"

definition started_thread :: "list_id option \<Rightarrow> thread_stat \<Rightarrow> u8 \<Rightarrow> u32 \<Rightarrow> rt_thread" where
  "started_thread l st p tick = blank_thread\<lparr>tlist := l, stat := st, current_priority := p, number_mask := push_bit (unat p) 1,
     init_tick := tick, remaining_tick := tick\<rparr>"

text \<open>The state after the start-up: the timer thread runs, the main thread and the idle thread are ready.\<close>

definition booted :: kernel where
  "booted = blank_kernel\<lparr>
     threads := (\<lambda>_. blank_thread)(
       main_thread := started_thread (Some (Ready 5)) RT_THREAD_READY 5 20,
       timer_thread := started_thread None RT_THREAD_RUNNING 4 10,
       idle := started_thread (Some (Ready 31)) RT_THREAD_READY 31 32),
     thread_lists := (\<lambda>_. [])(Ready 5 := [main_thread], Ready 31 := [idle]),
     rt_thread_ready_priority_group := push_bit 5 1 OR push_bit 31 1,
     rt_current_thread := Some timer_thread\<rparr>"

lemmas boot_defs = blank_kernel_def blank_thread_def blank_timer_def started_thread_def main_thread_def timer_thread_def idle_def

text \<open>A thread is initialised and started before the scheduler runs.\<close>

lemma thread_started:
  fixes s :: kernel
  assumes "tlist (threads s t) = None" "timers s (Thread_Timer t) = blank_timer" "rt_current_thread s = None" "unat p < 32"
    "thread_lists s (Ready (unat p)) = []"
  shows "(do { s \<leftarrow> thread_init t p tick s; rt_thread_startup t s }) =
    Some (s\<lparr>threads := (threads s)(t := started_thread (Some (Ready (unat p))) RT_THREAD_READY p tick),
      thread_lists := (thread_lists s)(Ready (unat p) := [t]),
      rt_thread_ready_priority_group := rt_thread_ready_priority_group s OR push_bit (unat p) 1\<rparr>)"
proof -
  have u: "(timers s)(Thread_Timer t := blank_timer) = timers s" using assms(2) by auto
  show ?thesis
    using assms u
    by (simp add: thread_init_def rt_timer_init_def rt_thread_startup_def set_priority_def rt_thread_resume_def rt_list_remove_def
        rt_timer_stop_def rt_schedule_insert_thread_def ready_list_def rt_list_insert_after_def link_thread_def
        upd_thread_def upd_timer_def RT_THREAD_PRIORITY_MAX_def TICK_HALF_def RT_TICK_MAX_def RT_EOK_def started_thread_def
        blank_thread_def blank_timer_def)
qed

lemma rtthread_startup_booted: "rtthread_startup blank_kernel = Some booted"
proof -
  let ?s0 = "blank_kernel"
  have i: "rt_system_scheduler_init (rt_system_timer_init ?s0) = ?s0"
    by (auto simp: rt_system_scheduler_init_def rt_system_timer_init_def blank_kernel_def fun_eq_iff split: list_id.splits)
  let ?s1 = "?s0\<lparr>threads := (threads ?s0)(main_thread := started_thread (Some (Ready 5)) RT_THREAD_READY 5 20),
    thread_lists := (thread_lists ?s0)(Ready 5 := [main_thread]), rt_thread_ready_priority_group := push_bit 5 1\<rparr>"
  have "rt_application_init ?s0 = Some ?s1"
    unfolding rt_application_init_def by (subst thread_started) (simp_all add: blank_kernel_def blank_thread_def)
  moreover let ?s2 = "?s1\<lparr>threads := (threads ?s1)(timer_thread := started_thread (Some (Ready 4)) RT_THREAD_READY 4 10),
    thread_lists := (thread_lists ?s1)(Ready 4 := [timer_thread]), rt_thread_ready_priority_group := push_bit 5 1 OR push_bit 4 1\<rparr>"
  have "?s1\<lparr>timer_lists := (timer_lists ?s1)(Soft := [])\<rparr> = ?s1" by (simp add: blank_kernel_def fun_eq_iff)
  then have "rt_system_timer_thread_init ?s1 = Some ?s2"
    unfolding rt_system_timer_thread_init_def
    by (simp only:, subst thread_started) (simp_all add: blank_kernel_def blank_thread_def main_thread_def timer_thread_def)
  moreover let ?s3 = "?s2\<lparr>threads := (threads ?s2)(idle := started_thread (Some (Ready 31)) RT_THREAD_READY 31 32),
    thread_lists := (thread_lists ?s2)(Ready 31 := [idle]),
    rt_thread_ready_priority_group := push_bit 5 1 OR push_bit 4 1 OR push_bit 31 1\<rparr>"
  have "rt_thread_idle_init ?s2 = Some ?s3"
    unfolding rt_thread_idle_init_def
    by (subst thread_started)
      (simp_all add: blank_kernel_def blank_thread_def main_thread_def timer_thread_def idle_def RT_THREAD_PRIORITY_MAX_def)
  moreover have "rt_system_scheduler_start ?s3 = Some booted"
  proof -
    have "rt_ffs (rt_thread_ready_priority_group ?s3) = Some 5" by (simp add: rt_ffs_def rd_def lowest_bit_bitmap_def)
    then have "highest_priority_thread ?s3 = Some (timer_thread, 4)" by (simp add: highest_priority_thread_def)
    then show ?thesis
      by (simp add: rt_system_scheduler_start_def rt_schedule_remove_thread_def rt_list_remove_def ready_list_def
          RT_THREAD_PRIORITY_MAX_def upd_thread_def booted_def boot_defs fun_eq_iff)
  qed
  ultimately show ?thesis by (simp add: rtthread_startup_def i)
qed

text \<open>A state in which no timer was ever started.\<close>

lemma fresh_operational:
  fixes s :: kernel
  assumes "sched_inv s" "cur_running s" "timers s = (\<lambda>_. blank_timer)" "timer_lists s = (\<lambda>_. [])" "rt_scheduler_lock_nest s = 0"
  shows "operational s"
  using assms by (simp add: operational_def kernel_inv_def timer_inv_def timer_links_def timer_ok_def hard_sorted_def timed_ok_def
      quiet_def blank_timer_def TICK_HALF)

lemma bit_two: "bit (push_bit i 1 OR push_bit j 1 :: u32) p \<longleftrightarrow> p = i \<or> p = j" if "i < 32" "j < 32"
  unfolding bit_or_iff bit_push_bit_iff bit_1_iff using that by auto

lemma booted_operational: "operational booted" "settled booted"
proof -
  have "thread_ok (threads booted t)" for t
    by (simp add: booted_def boot_defs thread_ok_def place_ok_def prio_ok_def)
  moreover have "links_ok booted" by (auto simp: links_ok_def booted_def boot_defs)
  moreover have "group_ok booted"
  proof -
    have g: "rt_thread_ready_priority_group booted = push_bit 5 1 OR push_bit 31 1" by (simp add: booted_def)
    show ?thesis unfolding group_ok_def g by (simp only: bit_two) (simp add: booted_def blank_kernel_def)
  qed
  moreover have "cur_ok booted" "runnable (threads booted idle)"
    by (auto simp: booted_def boot_defs cur_ok_def runnable_def)
  ultimately have "sched_inv booted" by (simp add: sched_inv_def lists_inv_def)
  then show "operational booted"
    by (rule fresh_operational) (simp_all add: cur_running_def booted_def boot_defs)
  show "settled booted" by (auto simp: settled_def booted_def boot_defs)
qed

lemma booted_simps:
  "rt_current_thread booted = Some timer_thread" "rt_scheduler_lock_nest booted = 0" "rt_tick booted = 0"
  by (simp_all add: booted_def blank_kernel_def)

subsection \<open>The lowest bit that is set\<close>

text \<open>\<open>__rt_ffs\<close> returns 0 for 0 and otherwise one more than the number of the lowest bit that is set.\<close>

theorem rt_ffs_lowest_bit:
  "rt_ffs v = Some (if v = 0 then 0 else Suc (LEAST p. bit v p))"
proof (cases "v = 0")
  case False
  obtain p where p: "rt_ffs v = Some (Suc p)" "bit v p" "\<forall>q < p. \<not> bit v q" using rt_ffs_ok [OF False] by blast
  have "(LEAST q. bit v q) = p" using p(2,3) by (intro Least_equality) (auto simp: not_less [symmetric])
  then show ?thesis using p(1) False by simp
qed (simp add: rt_ffs_def)

subsection \<open>The thread that runs\<close>

text \<open>C5: After the scheduler has run, unless it is locked, the current thread runs, no ready thread has a higher
  priority (a smaller number), and the same threads can run as before.
\<close>

theorem rt_schedule_highest_runs:
  assumes "operational s" "rt_scheduler_lock_nest s = 0"
  shows "\<exists>s' c. rt_schedule s = Some s' \<and> rt_current_thread s' = Some c \<and> stat (threads s' c) = RT_THREAD_RUNNING \<and>
    (\<forall>t. stat (threads s' t) = RT_THREAD_READY \<longrightarrow> current_priority (threads s' c) \<le> current_priority (threads s' t)) \<and>
    (\<forall>t. runnable (threads s' t) = runnable (threads s t)) \<and> operational s'"
proof -
  obtain s' where s': "rt_schedule s = Some s'" "calm {} s s'" "settled s'"
    using rt_schedule_calm [OF assms(1)] assms(2) by blast
  have "sched_inv s" using assms(1) by (simp add: operational_def kernel_inv_def)
  then have "\<forall>t. runnable (threads s' t) = runnable (threads s t)"
    using rt_schedule_ok [of s] s'(1) by (auto simp: sched_frame_def)
  then show ?thesis using s' by (auto simp: settled_def calm_def)
qed

theorem rt_schedule_highest_runs_witness:
  "\<exists>s' c. rt_schedule booted = Some s' \<and> rt_current_thread s' = Some c \<and> stat (threads s' c) = RT_THREAD_RUNNING \<and>
    (\<forall>t. stat (threads s' t) = RT_THREAD_READY \<longrightarrow> current_priority (threads s' c) \<le> current_priority (threads s' t)) \<and>
    (\<forall>t. runnable (threads s' t) = runnable (threads booted t)) \<and> operational s'"
  using rt_schedule_highest_runs [of booted] booted_operational(1) booted_simps by simp

subsection \<open>Programs of calls\<close>

text \<open>C3: From the state the start-up leaves, no program of kernel calls, ticks included, fails an assertion or corrupts
  a list: the invariant of the ready lists, the ready group, the threads and the timers holds after every call, and
  every call that may be made returns. Each call runs whole, without an interrupt inside it: what one between the two
  atomic parts of \<open>rt_thread_detach\<close> breaks is \<open>rt_thread_detach_window\<close>.
\<close>

theorem kernel_calls_run:
  assumes "rtthread_startup blank_kernel = Some s" "kernel_run cs s s'"
  shows "operational s' \<and> (\<forall>c. allowed c s' \<longrightarrow> (\<exists>s''. kcall_step c s' = Some s'' \<and> operational s''))"
proof -
  have "s = booted" using assms(1) rtthread_startup_booted by simp
  then have "operational s'" using kernel_run_operational [OF assms(2)] booted_operational(1) by simp
  then show ?thesis using kcall_operational by blast
qed

theorem kernel_calls_run_witness:
  "\<exists>s. kernel_run [Tick] booted s \<and> operational s"
proof -
  obtain s where "kcall_step Tick booted = Some s" using kcall_operational [OF booted_operational(1), of Tick] by auto
  then have r: "kernel_run [Tick] booted s" by (intro kernel_run.call kernel_run.stop) simp_all
  show ?thesis using kernel_calls_run [OF rtthread_startup_booted r] r by blast
qed

subsection \<open>Sleeping\<close>

text \<open>C4: A thread that sleeps \<open>n\<close> ticks waits through every program of calls with fewer than \<open>max 1 n\<close> ticks that does not
  resume or detach it, and is ready again at the end of that tick; its call then returns \<open>RT_EOK\<close>.
\<close>

theorem rt_thread_sleep_wakes:
  assumes op: "operational s" and t: "rt_current_thread s = Some t" "t \<noteq> idle" and lock: "rt_scheduler_lock_nest s = 0"
    and n: "n < TICK_HALF"
  shows "\<exists>s1. rt_thread_sleep n s = Some s1 \<and>
    (\<forall>cs s2. kernel_run cs s1 s2 \<and> (\<forall>c \<in> set cs. t \<notin> disturbs c) \<and> ticks cs < max 1 (unat n) \<longrightarrow>
      stat (threads s2 t) = RT_THREAD_SUSPEND \<and>
      (ticks cs + 1 = max 1 (unat n) \<longrightarrow>
        (\<exists>s3. rt_tick_increase s2 = Some s3 \<and> runnable (threads s3 t) \<and> fst (rt_thread_sleep_end t s3) = RT_EOK)))"
proof -
  obtain s1 where s1: "rt_thread_sleep n s = Some s1" "calm {} s s1" "asleep t (rt_tick s + n) s1"
    using rt_thread_sleep_calm [OF op t lock n] by blast
  have op1: "operational s1" "rt_tick s1 = rt_tick s" using s1(2) by (simp_all add: calm_def)
  have "rt_tick s + n - rt_tick s1 = n" by (simp add: op1(2))
  then show ?thesis using s1(1) asleep_run [OF op1(1) s1(3)] by (fastforce simp: rt_thread_sleep_end_def)
qed

theorem rt_thread_sleep_wakes_witness:
  "\<exists>s1. rt_thread_sleep 1 booted = Some s1 \<and> stat (threads s1 timer_thread) = RT_THREAD_SUSPEND \<and>
    (\<exists>s3. rt_tick_increase s1 = Some s3 \<and> runnable (threads s3 timer_thread) \<and>
      fst (rt_thread_sleep_end timer_thread s3) = RT_EOK)"
proof -
  have "timer_thread \<noteq> idle" "(1 :: u32) < TICK_HALF" by (simp_all add: timer_thread_def idle_def TICK_HALF)
  from rt_thread_sleep_wakes [OF booted_operational(1) booted_simps(1) this(1) booted_simps(2) this(2)]
  show ?thesis using kernel_run.stop by (fastforce simp: ticks_def)
qed

subsection \<open>Yielding\<close>

fun yields :: "nat \<Rightarrow> 'a kernel_scheme \<Rightarrow> 'a kernel_scheme option" where
  "yields 0 s = Some s"
| "yields (Suc n) s = do { s \<leftarrow> rt_thread_yield s; yields n s }"

text \<open>One yield exchanges the current thread and the first of the ready list of its priority.\<close>

lemma rt_thread_yield_exchanges:
  assumes op: "operational s" and set: "settled s" and lock: "rt_scheduler_lock_nest s = 0"
    and c: "rt_current_thread s = Some c" "unat (current_priority (threads s c)) = p" "thread_lists s (Ready p) = b # rest"
  shows "\<exists>s'. rt_thread_yield s = Some s' \<and> operational s' \<and> settled s' \<and> rt_scheduler_lock_nest s' = 0 \<and>
    rt_current_thread s' = Some b \<and> unat (current_priority (threads s' b)) = p \<and> thread_lists s' (Ready p) = c # rest"
proof -
  let ?f = "\<lambda>th. th\<lparr>remaining_tick := init_tick th, stat_yield := True\<rparr>"
  let ?s1 = "upd_thread c ?f s"
  note o = operational_D [OF op]
  have run: "stat (threads s c) = RT_THREAD_RUNNING" using o(3) c(1) by (auto simp: cur_running_def)
  have k1: "kernel_inv ?s1" by (rule kernel_inv_upd [OF o(1)]) simp_all
  note S1 = kernel_inv_D(1) [OF k1]
  note L1 = sched_inv_D [OF S1]
  have p32: "p < 32" using sched_inv_D(4) [OF kernel_inv_D(1) [OF o(1)], of c] run c(2) by (simp add: thread_ok_def prio_ok_def)
  have nz: "rt_thread_ready_priority_group ?s1 \<noteq> 0"
  proof
    assume "rt_thread_ready_priority_group ?s1 = 0"
    then have "thread_lists ?s1 (Ready p) = []" using L1(3) p32 by (simp add: group_ok_def)
    then show False using c(3) by simp
  qed
  obtain t q ts where h: "highest_priority_thread ?s1 = Some (t, q)" "thread_lists s (Ready q) = t # ts"
    "\<forall>r < q. thread_lists s (Ready r) = []" "stat (threads ?s1 t) = RT_THREAD_READY" "unat (current_priority (threads ?s1 t)) = q"
    using highest_priority_thread_ok [OF L1(1) nz] by auto
  have tc: "t \<noteq> c" using h(4) run by auto
  have "q \<le> p" using h(3) c(3) by (metis list.distinct(1) not_le)
  moreover have "current_priority (threads s c) \<le> current_priority (threads s t)"
    using set c(1) h(4) tc by (auto simp: settled_def)
  then have "p \<le> q" using c(2) h(5) tc by (simp add: word_le_nat_alt)
  ultimately have q: "q = p" by simp
  then have tb: "t = b" "ts = rest" using h(2) c(3) by simp_all
  have keep: "\<not> keeps (threads ?s1 c) q" using run c(2) q by (simp add: keeps_def)
  have "rt_scheduler_lock_nest ?s1 = 0" "rt_current_thread ?s1 = Some c" using lock c(1) by simp_all
  from rt_schedule_switch [OF S1 this h(1) keep nz] obtain s' where s': "rt_schedule ?s1 = Some s'"
    "rt_current_thread s' = Some t" "same_timers ?s1 s'" "threads s' t = (threads ?s1 t)\<lparr>tlist := None, stat := RT_THREAD_RUNNING\<rparr>"
    "thread_lists s' = switch_lists c t ?s1" by blast
  have y: "rt_thread_yield s = Some s'" using c(1) s'(1) by (simp add: rt_thread_yield_def)
  have "distinct (b # rest)" using links_ok_D(1) [OF sched_inv_D(2) [OF kernel_inv_D(1) [OF o(1)]], of "Ready p"] c(3) by simp
  then have "thread_lists s' (Ready p) = c # rest"
    using s'(5) run c(2,3) tc tb by (simp add: switch_lists_def removeAll_id)
  moreover obtain s'' where "rt_thread_yield s = Some s''" "calm {} s s''" "settled s''"
    using rt_thread_yield_calm [OF op] lock by blast
  then have "operational s'" "settled s'" using y by (simp_all add: calm_def)
  moreover have "rt_scheduler_lock_nest s' = 0" using s'(3) lock by (simp add: same_timers_def)
  ultimately show ?thesis using y s'(2,4) tb h(5) q by auto
qed

text \<open>Threads of one priority do not take turns. When three or more threads of the highest priority yield whenever
  they run, the first two alternate for ever and the threads behind them in the ready list never run. The scheduler
  clears the mark of yielding before it puts the thread back, and an unmarked thread goes to the head of the list.
\<close>

theorem rt_thread_yield_starves:
  assumes "operational s" "settled s" "rt_scheduler_lock_nest s = 0"
    "rt_current_thread s = Some c" "unat (current_priority (threads s c)) = p" "thread_lists s (Ready p) = b # rest"
  shows "\<exists>s'. yields n s = Some s' \<and> rt_current_thread s' = Some (if even n then c else b) \<and>
    thread_lists s' (Ready p) = (if even n then b else c) # rest"
  using assms
proof (induction n arbitrary: s c b)
  case (Suc n)
  obtain s1 where s1: "rt_thread_yield s = Some s1" "operational s1" "settled s1" "rt_scheduler_lock_nest s1 = 0"
    "rt_current_thread s1 = Some b" "unat (current_priority (threads s1 b)) = p" "thread_lists s1 (Ready p) = c # rest"
    using rt_thread_yield_exchanges [OF Suc.prems] by blast
  obtain s' where "yields n s1 = Some s'" "rt_current_thread s' = Some (if even n then b else c)"
    "thread_lists s' (Ready p) = (if even n then c else b) # rest"
    using Suc.IH [OF s1(2-7)] by blast
  then show ?case using s1(1) by auto
qed simp

text \<open>Three threads of one priority.\<close>

definition crowded :: kernel where
  "crowded = blank_kernel\<lparr>
     threads := (\<lambda>_. blank_thread)(
       timer_thread := started_thread None RT_THREAD_RUNNING 4 10,
       main_thread := started_thread (Some (Ready 4)) RT_THREAD_READY 4 10,
       3 := started_thread (Some (Ready 4)) RT_THREAD_READY 4 10,
       idle := started_thread (Some (Ready 31)) RT_THREAD_READY 31 32),
     thread_lists := (\<lambda>_. [])(Ready 4 := [main_thread, 3], Ready 31 := [idle]),
     rt_thread_ready_priority_group := push_bit 4 1 OR push_bit 31 1,
     rt_current_thread := Some timer_thread\<rparr>"

lemma crowded_operational: "operational crowded" "settled crowded"
proof -
  have "thread_ok (threads crowded t)" for t
    by (simp add: crowded_def boot_defs thread_ok_def place_ok_def prio_ok_def)
  moreover have "links_ok crowded" by (auto simp: links_ok_def crowded_def boot_defs)
  moreover have "group_ok crowded"
  proof -
    have g: "rt_thread_ready_priority_group crowded = push_bit 4 1 OR push_bit 31 1" by (simp add: crowded_def)
    show ?thesis unfolding group_ok_def g by (simp only: bit_two) (simp add: crowded_def blank_kernel_def)
  qed
  moreover have "cur_ok crowded" "runnable (threads crowded idle)"
    by (auto simp: crowded_def boot_defs cur_ok_def runnable_def)
  ultimately have "sched_inv crowded" by (simp add: sched_inv_def lists_inv_def)
  then show "operational crowded"
    by (rule fresh_operational) (simp_all add: cur_running_def crowded_def boot_defs)
  show "settled crowded" by (auto simp: settled_def crowded_def boot_defs)
qed

theorem rt_thread_yield_starves_witness:
  "\<exists>s'. yields 100 crowded = Some s' \<and> rt_current_thread s' = Some timer_thread \<and>
    thread_lists s' (Ready 4) = [main_thread, 3]"
proof -
  have "rt_scheduler_lock_nest crowded = 0" "rt_current_thread crowded = Some timer_thread"
    "unat (current_priority (threads crowded timer_thread)) = 4" "thread_lists crowded (Ready 4) = main_thread # [3]"
    by (simp_all add: crowded_def boot_defs)
  from rt_thread_yield_starves [OF crowded_operational this, of 100] show ?thesis by simp
qed

end
