(* ===== verification/Ipc.thy ===== *)
theory Ipc
  imports Kernel
begin

text \<open>
  Inter-thread communication (\<open>rt-thread/src/ipc.c\<close>): semaphores, mutexes, events, mailboxes and message queues, over
  the threads of the kernel. A call that waits is two functions: the part up to the call of the scheduler, which
  ends in \<open>Waiting\<close>, and what the thread does once it runs again (\<open>_end\<close>, \<open>_resume\<close>). A timeout is a signed 32-bit
  value. The threads that wait for an object are a list of the kernel's state. Initialising an object for which
  threads wait leaves the model.
\<close>

subsection \<open>Objects\<close>

datatype ipc_flag = RT_IPC_FLAG_FIFO | RT_IPC_FLAG_PRIO

datatype ipc_cmd = RT_IPC_CMD_UNKNOWN | RT_IPC_CMD_RESET

record rt_semaphore =
  sem_value :: u16
  sem_flag :: ipc_flag

record rt_mutex =
  mutex_value :: u16
  original_priority :: u8
  mutex_hold :: u8
  mutex_owner :: "tid option"

record rt_event =
  event_bits :: u32
  event_flag :: ipc_flag

record rt_mailbox =
  mb_pool :: "u32 list"
  mb_size :: u16
  mb_entry :: u16
  in_offset :: u16
  out_offset :: u16
  mb_flag :: ipc_flag

text \<open>A slot of a message queue: the link to the next one, by number, and the bytes behind it.\<close>

record rt_mq_message =
  msg_next :: "nat option"
  msg_bytes :: "u8 list"

record rt_messagequeue =
  mq_pool :: "rt_mq_message list"
  msg_size :: u16
  max_msgs :: u16
  mq_entry :: u16
  msg_queue_head :: "nat option"
  msg_queue_tail :: "nat option"
  msg_queue_free :: "nat option"
  mq_flag :: ipc_flag

record ipc = kernel +
  sems :: "nat \<Rightarrow> rt_semaphore"
  mutexes :: "nat \<Rightarrow> rt_mutex"
  events :: "nat \<Rightarrow> rt_event"
  mailboxes :: "nat \<Rightarrow> rt_mailbox"
  mqs :: "nat \<Rightarrow> rt_messagequeue"

definition RT_SEM_VALUE_MAX :: u16 where "RT_SEM_VALUE_MAX = 0xffff"
definition RT_MUTEX_VALUE_MAX :: u16 where "RT_MUTEX_VALUE_MAX = 0xffff"
definition RT_MUTEX_HOLD_MAX :: u8 where "RT_MUTEX_HOLD_MAX = 0xff"
definition RT_MB_ENTRY_MAX :: u16 where "RT_MB_ENTRY_MAX = 0xffff"
definition RT_MQ_ENTRY_MAX :: u16 where "RT_MQ_ENTRY_MAX = 0xffff"
definition RT_EVENT_FLAG_AND :: u8 where "RT_EVENT_FLAG_AND = 1"
definition RT_EVENT_FLAG_OR :: u8 where "RT_EVENT_FLAG_OR = 2"
definition RT_EVENT_FLAG_CLEAR :: u8 where "RT_EVENT_FLAG_CLEAR = 4"

definition upd_sem :: "nat \<Rightarrow> (rt_semaphore \<Rightarrow> rt_semaphore) \<Rightarrow> ipc \<Rightarrow> ipc" where
  "upd_sem i f s = s\<lparr>sems := (sems s)(i := f (sems s i))\<rparr>"

definition upd_mutex :: "nat \<Rightarrow> (rt_mutex \<Rightarrow> rt_mutex) \<Rightarrow> ipc \<Rightarrow> ipc" where
  "upd_mutex i f s = s\<lparr>mutexes := (mutexes s)(i := f (mutexes s i))\<rparr>"

definition upd_event :: "nat \<Rightarrow> (rt_event \<Rightarrow> rt_event) \<Rightarrow> ipc \<Rightarrow> ipc" where
  "upd_event i f s = s\<lparr>events := (events s)(i := f (events s i))\<rparr>"

definition upd_mb :: "nat \<Rightarrow> (rt_mailbox \<Rightarrow> rt_mailbox) \<Rightarrow> ipc \<Rightarrow> ipc" where
  "upd_mb i f s = s\<lparr>mailboxes := (mailboxes s)(i := f (mailboxes s i))\<rparr>"

definition upd_mq :: "nat \<Rightarrow> (rt_messagequeue \<Rightarrow> rt_messagequeue) \<Rightarrow> ipc \<Rightarrow> ipc" where
  "upd_mq i f s = s\<lparr>mqs := (mqs s)(i := f (mqs s i))\<rparr>"

subsection \<open>Waiting for an object\<close>

definition ipc_object_init :: "list_id \<Rightarrow> 'a kernel_scheme \<Rightarrow> 'a kernel_scheme option" where
  "ipc_object_init l s = (if thread_lists s l = [] then Some (s\<lparr>thread_lists := (thread_lists s)(l := [])\<rparr>) else None)"

text \<open>Behind the threads of the same or a higher priority.\<close>

fun prio_place :: "(tid \<Rightarrow> rt_thread) \<Rightarrow> tid \<Rightarrow> tid list \<Rightarrow> tid list" where
  "prio_place ts t [] = [t]"
| "prio_place ts t (u # rest) =
     (if current_priority (ts t) < current_priority (ts u) then t # u # rest else u # prio_place ts t rest)"

definition ipc_list_suspend :: "list_id \<Rightarrow> tid \<Rightarrow> ipc_flag \<Rightarrow> 'a kernel_scheme \<Rightarrow> 'a kernel_scheme option" where
  "ipc_list_suspend l t flag s =
     do { (_, s) \<leftarrow> rt_thread_suspend t s;
          case flag of
            RT_IPC_FLAG_FIFO \<Rightarrow> rt_list_insert_before l t s
          | RT_IPC_FLAG_PRIO \<Rightarrow> link_thread l t (prio_place (threads s) t (thread_lists s l)) s }"

definition ipc_list_resume :: "list_id \<Rightarrow> 'a kernel_scheme \<Rightarrow> 'a kernel_scheme option" where
  "ipc_list_resume l s =
     (case thread_lists s l of
        [] \<Rightarrow> None
      | t # _ \<Rightarrow> do { (_, s) \<leftarrow> rt_thread_resume t s; Some s })"

partial_function (option) ipc_list_resume_all :: "list_id \<Rightarrow> 'a kernel_scheme \<Rightarrow> 'a kernel_scheme option" where
  "ipc_list_resume_all l s =
     (case thread_lists s l of
        [] \<Rightarrow> Some s
      | t # _ \<Rightarrow>
          do { let s = upd_thread t (\<lambda>th. th\<lparr>error := - RT_ERROR\<rparr>) s;
               (_, s) \<leftarrow> rt_thread_resume t s;
               ipc_list_resume_all l s })"

text \<open>\<open>RT_DEBUG_SCHEDULER_AVAILABLE\<close> and \<open>RT_DEBUG_IN_THREAD_CONTEXT\<close>.\<close>

definition thread_context :: "'a kernel_scheme \<Rightarrow> bool" where
  "thread_context s \<longleftrightarrow> rt_current_thread s \<noteq> None \<and> rt_interrupt_nest s = 0"

definition scheduler_available :: "'a kernel_scheme \<Rightarrow> bool" where
  "scheduler_available s \<longleftrightarrow> rt_critical_level s = 0 \<and> thread_context s"

text \<open>The thread waits in \<open>l\<close>, for as long as the timeout says, and gives the processor away.\<close>

definition wait_on :: "list_id \<Rightarrow> tid \<Rightarrow> ipc_flag \<Rightarrow> u32 \<Rightarrow> 'a kernel_scheme \<Rightarrow> 'a kernel_scheme option" where
  "wait_on l t flag timeout s =
     do { s \<leftarrow> ipc_list_suspend l t flag s;
          s \<leftarrow> (if 0 < sint timeout then start_thread_timer t timeout s else Some s);
          rt_schedule s }"

datatype call_result = Returned int | Waiting

subsection \<open>Semaphores\<close>

definition rt_sem_init :: "nat \<Rightarrow> u32 \<Rightarrow> ipc_flag \<Rightarrow> ipc \<Rightarrow> ipc option" where
  "rt_sem_init i value flag s =
     do { rt_assert (value < 0x10000);
          s \<leftarrow> ipc_object_init (Sem i) s;
          Some (upd_sem i (\<lambda>_. \<lparr>sem_value = ucast value, sem_flag = flag\<rparr>) s) }"

definition rt_sem_detach :: "nat \<Rightarrow> ipc \<Rightarrow> ipc option" where
  "rt_sem_detach i s = ipc_list_resume_all (Sem i) s"

definition rt_sem_take :: "nat \<Rightarrow> u32 \<Rightarrow> ipc \<Rightarrow> (call_result \<times> ipc) option" where
  "rt_sem_take i timeout s =
     (if 0 < sem_value (sems s i)
      then Some (Returned RT_EOK, upd_sem i (\<lambda>m. m\<lparr>sem_value := sem_value m - 1\<rparr>) s)
      else if timeout = 0 then Some (Returned (- RT_ETIMEOUT), s)
      else
        do { rt_assert (scheduler_available s);
             t \<leftarrow> rt_current_thread s;
             let s = upd_thread t (\<lambda>th. th\<lparr>error := RT_EOK\<rparr>) s;
             s \<leftarrow> wait_on (Sem i) t (sem_flag (sems s i)) timeout s;
             Some (Waiting, s) })"

definition rt_sem_take_end :: "tid \<Rightarrow> 'a kernel_scheme \<Rightarrow> int" where
  "rt_sem_take_end t s = (if error (threads s t) \<noteq> RT_EOK then error (threads s t) else RT_EOK)"

definition rt_sem_trytake :: "nat \<Rightarrow> ipc \<Rightarrow> (call_result \<times> ipc) option" where
  "rt_sem_trytake i s = rt_sem_take i 0 s"

definition rt_sem_release :: "nat \<Rightarrow> ipc \<Rightarrow> (int \<times> ipc) option" where
  "rt_sem_release i s =
     (if thread_lists s (Sem i) \<noteq> []
      then do { s \<leftarrow> ipc_list_resume (Sem i) s; s \<leftarrow> rt_schedule s; Some (RT_EOK, s) }
      else if sem_value (sems s i) < RT_SEM_VALUE_MAX
      then Some (RT_EOK, upd_sem i (\<lambda>m. m\<lparr>sem_value := sem_value m + 1\<rparr>) s)
      else Some (- RT_EFULL, s))"

definition rt_sem_control :: "nat \<Rightarrow> ipc_cmd \<Rightarrow> u32 \<Rightarrow> ipc \<Rightarrow> (int \<times> ipc) option" where
  "rt_sem_control i cmd arg s =
     (case cmd of
        RT_IPC_CMD_RESET \<Rightarrow>
          do { s \<leftarrow> ipc_list_resume_all (Sem i) s;
               s \<leftarrow> rt_schedule (upd_sem i (\<lambda>m. m\<lparr>sem_value := ucast arg\<rparr>) s);
               Some (RT_EOK, s) }
      | RT_IPC_CMD_UNKNOWN \<Rightarrow> Some (- RT_ERROR, s))"

subsection \<open>Mutexes\<close>

definition rt_mutex_init :: "nat \<Rightarrow> ipc \<Rightarrow> ipc option" where
  "rt_mutex_init i s =
     do { s \<leftarrow> ipc_object_init (Mutex i) s;
          Some (upd_mutex i (\<lambda>_. \<lparr>mutex_value = 1, original_priority = 0xFF, mutex_hold = 0, mutex_owner = None\<rparr>) s) }"

definition rt_mutex_detach :: "nat \<Rightarrow> ipc \<Rightarrow> ipc option" where
  "rt_mutex_detach i s = ipc_list_resume_all (Mutex i) s"

definition rt_mutex_take :: "nat \<Rightarrow> u32 \<Rightarrow> ipc \<Rightarrow> (call_result \<times> ipc) option" where
  "rt_mutex_take i timeout s =
     do { rt_assert (scheduler_available s);
          t \<leftarrow> rt_current_thread s;
          let s = upd_thread t (\<lambda>th. th\<lparr>error := RT_EOK\<rparr>) s;
          let m = mutexes s i;
          if mutex_owner m = Some t then
            (if mutex_hold m < RT_MUTEX_HOLD_MAX
             then Some (Returned RT_EOK, upd_mutex i (\<lambda>m. m\<lparr>mutex_hold := mutex_hold m + 1\<rparr>) s)
             else Some (Returned (- RT_EFULL), s))
          else if 0 < mutex_value m then
            (let s = upd_mutex i (\<lambda>m. m\<lparr>mutex_value := mutex_value m - 1, mutex_owner := Some t,
               original_priority := current_priority (threads s t)\<rparr>) s
             in if mutex_hold m < RT_MUTEX_HOLD_MAX
                then Some (Returned RT_EOK, upd_mutex i (\<lambda>m. m\<lparr>mutex_hold := mutex_hold m + 1\<rparr>) s)
                else Some (Returned (- RT_EFULL), s))
          else if timeout = 0 then
            Some (Returned (- RT_ETIMEOUT), upd_thread t (\<lambda>th. th\<lparr>error := - RT_ETIMEOUT\<rparr>) s)
          else do {
            own \<leftarrow> mutex_owner m;
            s \<leftarrow> (if current_priority (threads s t) < current_priority (threads s own)
                  then rt_thread_control own (Change_Priority (current_priority (threads s t))) s else Some s);
            s \<leftarrow> wait_on (Mutex i) t RT_IPC_FLAG_PRIO timeout s;
            Some (Waiting, s) } }"

definition rt_mutex_take_end :: "tid \<Rightarrow> 'a kernel_scheme \<Rightarrow> int" where
  "rt_mutex_take_end t s = (if error (threads s t) \<noteq> RT_EOK then error (threads s t) else RT_EOK)"

definition rt_mutex_trytake :: "nat \<Rightarrow> ipc \<Rightarrow> (call_result \<times> ipc) option" where
  "rt_mutex_trytake i s = rt_mutex_take i 0 s"

definition rt_mutex_release :: "nat \<Rightarrow> ipc \<Rightarrow> (int \<times> ipc) option" where
  "rt_mutex_release i s =
     do { rt_assert (thread_context s);
          t \<leftarrow> rt_current_thread s;
          if mutex_owner (mutexes s i) \<noteq> Some t
          then Some (- RT_ERROR, upd_thread t (\<lambda>th. th\<lparr>error := - RT_ERROR\<rparr>) s)
          else do {
            let s = upd_mutex i (\<lambda>m. m\<lparr>mutex_hold := mutex_hold m - 1\<rparr>) s;
            let m = mutexes s i;
            if mutex_hold m \<noteq> 0 then Some (RT_EOK, s)
            else do {
              s \<leftarrow> (if original_priority m \<noteq> current_priority (threads s t)
                    then rt_thread_control t (Change_Priority (original_priority m)) s else Some s);
              case thread_lists s (Mutex i) of
                u # _ \<Rightarrow>
                  (let s = upd_mutex i (\<lambda>m. m\<lparr>mutex_owner := Some u, original_priority := current_priority (threads s u)\<rparr>) s
                   in if mutex_hold m < RT_MUTEX_HOLD_MAX
                      then do { s \<leftarrow> ipc_list_resume (Mutex i) (upd_mutex i (\<lambda>m. m\<lparr>mutex_hold := mutex_hold m + 1\<rparr>) s);
                                s \<leftarrow> rt_schedule s;
                                Some (RT_EOK, s) }
                      else Some (- RT_EFULL, s))
              | [] \<Rightarrow>
                  (if mutex_value m < RT_MUTEX_VALUE_MAX
                   then Some (RT_EOK, upd_mutex i (\<lambda>m. m\<lparr>mutex_value := mutex_value m + 1, mutex_owner := None,
                     original_priority := 0xff\<rparr>) s)
                   else Some (- RT_EFULL, s)) } } }"

definition rt_mutex_control :: "nat \<Rightarrow> ipc_cmd \<Rightarrow> ipc \<Rightarrow> int \<times> ipc" where
  "rt_mutex_control i cmd s = (- RT_ERROR, s)"

subsection \<open>Events\<close>

definition rt_event_init :: "nat \<Rightarrow> ipc_flag \<Rightarrow> ipc \<Rightarrow> ipc option" where
  "rt_event_init i flag s =
     do { s \<leftarrow> ipc_object_init (Event i) s;
          Some (upd_event i (\<lambda>_. \<lparr>event_bits = 0, event_flag = flag\<rparr>) s) }"

definition rt_event_detach :: "nat \<Rightarrow> ipc \<Rightarrow> ipc option" where
  "rt_event_detach i s = ipc_list_resume_all (Event i) s"

text \<open>A waiting thread whose condition holds is woken; the bits it waited for may be cleared.\<close>

definition event_wake :: "nat \<Rightarrow> tid \<Rightarrow> ipc \<Rightarrow> ipc option" where
  "event_wake i t s =
     do { let s = (if event_info (threads s t) AND RT_EVENT_FLAG_CLEAR \<noteq> 0
                   then upd_event i (\<lambda>e. e\<lparr>event_bits := event_bits e AND NOT (event_set (threads s t))\<rparr>) s else s);
          (_, s) \<leftarrow> rt_thread_resume t s;
          Some s }"

text \<open>The walk along the waiting threads: the code's error, whether one was woken, and the state.\<close>

fun event_walk :: "nat \<Rightarrow> tid list \<Rightarrow> bool \<Rightarrow> ipc \<Rightarrow> (int \<times> bool \<times> ipc) option" where
  "event_walk i [] need_schedule s = Some (RT_EOK, need_schedule, s)"
| "event_walk i (t # ts) need_schedule s =
     (let th = threads s t; e = event_bits (events s i) in
      if event_info th AND RT_EVENT_FLAG_AND \<noteq> 0 then
        (if event_set th AND e = event_set th
         then do { s \<leftarrow> event_wake i t s; event_walk i ts True s } else event_walk i ts need_schedule s)
      else if event_info th AND RT_EVENT_FLAG_OR \<noteq> 0 then
        (if event_set th AND e \<noteq> 0
         then do { s \<leftarrow> event_wake i t (upd_thread t (\<lambda>th. th\<lparr>event_set := event_set th AND e\<rparr>) s); event_walk i ts True s }
         else event_walk i ts need_schedule s)
      else Some (- RT_EINVAL, need_schedule, s))"

definition rt_event_send :: "nat \<Rightarrow> u32 \<Rightarrow> ipc \<Rightarrow> (int \<times> ipc) option" where
  "rt_event_send i bits s =
     (if bits = 0 then Some (- RT_ERROR, s)
      else
        do { let s = upd_event i (\<lambda>e. e\<lparr>event_bits := event_bits e OR bits\<rparr>) s;
             (r, need_schedule, s) \<leftarrow> event_walk i (thread_lists s (Event i)) False s;
             if r \<noteq> RT_EOK then Some (r, s)
             else do { s \<leftarrow> (if need_schedule then rt_schedule s else Some s); Some (RT_EOK, s) } })"

text \<open>The result, the bits received when it returns at once, and the state.\<close>

definition rt_event_recv :: "nat \<Rightarrow> u32 \<Rightarrow> u8 \<Rightarrow> u32 \<Rightarrow> ipc \<Rightarrow> (call_result \<times> u32 option \<times> ipc) option" where
  "rt_event_recv i bits option timeout s =
     do { rt_assert (scheduler_available s);
          if bits = 0 then Some (Returned (- RT_ERROR), None, s)
          else do {
            t \<leftarrow> rt_current_thread s;
            let s = upd_thread t (\<lambda>th. th\<lparr>error := RT_EOK\<rparr>) s;
            let e = event_bits (events s i);
            ready \<leftarrow> (if option AND RT_EVENT_FLAG_AND \<noteq> 0 then Some (e AND bits = bits)
                      else if option AND RT_EVENT_FLAG_OR \<noteq> 0 then Some (e AND bits \<noteq> 0)
                      else None);
            if ready then
              (let s = upd_thread t (\<lambda>th. th\<lparr>event_set := e AND bits, event_info := option\<rparr>) s;
                   s = (if option AND RT_EVENT_FLAG_CLEAR \<noteq> 0
                        then upd_event i (\<lambda>e. e\<lparr>event_bits := event_bits e AND NOT bits\<rparr>) s else s)
               in Some (Returned (error (threads s t)), Some (e AND bits), s))
            else if timeout = 0 then
              Some (Returned (- RT_ETIMEOUT), None, upd_thread t (\<lambda>th. th\<lparr>error := - RT_ETIMEOUT\<rparr>) s)
            else do {
              let s = upd_thread t (\<lambda>th. th\<lparr>event_set := bits, event_info := option\<rparr>) s;
              s \<leftarrow> wait_on (Event i) t (event_flag (events s i)) timeout s;
              Some (Waiting, None, s) } } }"

definition rt_event_recv_end :: "tid \<Rightarrow> 'a kernel_scheme \<Rightarrow> int \<times> u32 option" where
  "rt_event_recv_end t s =
     (if error (threads s t) \<noteq> RT_EOK then (error (threads s t), None)
      else (error (threads s t), Some (event_set (threads s t))))"

definition rt_event_control :: "nat \<Rightarrow> ipc_cmd \<Rightarrow> ipc \<Rightarrow> (int \<times> ipc) option" where
  "rt_event_control i cmd s =
     (case cmd of
        RT_IPC_CMD_RESET \<Rightarrow>
          do { s \<leftarrow> ipc_list_resume_all (Event i) s;
               s \<leftarrow> rt_schedule (upd_event i (\<lambda>e. e\<lparr>event_bits := 0\<rparr>) s);
               Some (RT_EOK, s) }
      | RT_IPC_CMD_UNKNOWN \<Rightarrow> Some (- RT_ERROR, s))"

subsection \<open>Mailboxes\<close>

text \<open>
  The result of a call that sends or receives: its code and, when one is received, the value; or the thread waits,
  with the rest of its timeout and the tick at which the waiting began.
\<close>

datatype 'v msg_result = Done int "'v option" | Pending u32 u32

definition msg_error :: "int \<Rightarrow> 'v msg_result" where "msg_error e = Done e None"

text \<open>The timeout that is left when the thread runs again.\<close>

definition time_left :: "u32 \<Rightarrow> u32 \<Rightarrow> 'a kernel_scheme \<Rightarrow> u32" where
  "time_left timeout tick s =
     (if 0 < sint timeout
      then (let tick_delta = rt_tick s - tick; timeout = timeout - tick_delta in if sint timeout < 0 then 0 else timeout)
      else timeout)"

definition rt_mb_init :: "nat \<Rightarrow> u32 list \<Rightarrow> u16 \<Rightarrow> ipc_flag \<Rightarrow> ipc \<Rightarrow> ipc option" where
  "rt_mb_init i pool n flag s =
     do { s \<leftarrow> ipc_object_init (Mb_recv i) s;
          s \<leftarrow> ipc_object_init (Mb_send i) s;
          Some (upd_mb i (\<lambda>_. \<lparr>mb_pool = pool, mb_size = n, mb_entry = 0, in_offset = 0, out_offset = 0, mb_flag = flag\<rparr>) s) }"

definition rt_mb_detach :: "nat \<Rightarrow> ipc \<Rightarrow> ipc option" where
  "rt_mb_detach i s = do { s \<leftarrow> ipc_list_resume_all (Mb_recv i) s; ipc_list_resume_all (Mb_send i) s }"

text \<open>The waiting receivers or senders: the first one is woken.\<close>

definition wake_first :: "list_id \<Rightarrow> 'a kernel_scheme \<Rightarrow> 'a kernel_scheme option" where
  "wake_first l s =
     (if thread_lists s l \<noteq> [] then do { s \<leftarrow> ipc_list_resume l s; rt_schedule s } else Some s)"

text \<open>The message goes to the end of the pool; \<open>False\<close> when the counter is at its maximum.\<close>

definition mb_store :: "u32 \<Rightarrow> rt_mailbox \<Rightarrow> (bool \<times> rt_mailbox) option" where
  "mb_store v m =
     do { pool \<leftarrow> wr (mb_pool m) (unat (in_offset m)) v;
          let off = in_offset m + 1;
          let off = (if off \<ge> mb_size m then 0 else off);
          let m = m\<lparr>mb_pool := pool, in_offset := off\<rparr>;
          Some (if mb_entry m < RT_MB_ENTRY_MAX then (True, m\<lparr>mb_entry := mb_entry m + 1\<rparr>) else (False, m)) }"

text \<open>The end of a call that stored a message: the first waiting receiver is woken.\<close>

definition msg_stored :: "list_id \<Rightarrow> bool \<Rightarrow> 'a kernel_scheme \<Rightarrow> (int \<times> 'a kernel_scheme) option" where
  "msg_stored l counted s =
     (if counted then do { s \<leftarrow> wake_first l s; Some (RT_EOK, s) } else Some (- RT_EFULL, s))"

definition mb_put :: "nat \<Rightarrow> u32 \<Rightarrow> ipc \<Rightarrow> ('v msg_result \<times> ipc) option" where
  "mb_put i v s =
     do { (counted, m) \<leftarrow> mb_store v (mailboxes s i);
          (r, s) \<leftarrow> msg_stored (Mb_recv i) counted (upd_mb i (\<lambda>_. m) s);
          Some (msg_error r, s) }"

text \<open>The loop of \<open>rt_mb_send_wait\<close>.\<close>

definition mb_send_loop :: "nat \<Rightarrow> u32 \<Rightarrow> u32 \<Rightarrow> ipc \<Rightarrow> ('v msg_result \<times> ipc) option" where
  "mb_send_loop i v timeout s =
     (if mb_entry (mailboxes s i) = mb_size (mailboxes s i)
      then
        do { t \<leftarrow> rt_current_thread s;
             let s = upd_thread t (\<lambda>th. th\<lparr>error := RT_EOK\<rparr>) s;
             if timeout = 0 then Some (msg_error (- RT_EFULL), s)
             else do {
               s \<leftarrow> wait_on (Mb_send i) t (mb_flag (mailboxes s i)) timeout s;
               Some (Pending timeout (rt_tick s), s) } }
      else mb_put i v s)"

definition rt_mb_send_wait :: "nat \<Rightarrow> u32 \<Rightarrow> u32 \<Rightarrow> ipc \<Rightarrow> ('v msg_result \<times> ipc) option" where
  "rt_mb_send_wait i v timeout s =
     do { rt_assert (timeout \<noteq> 0 \<longrightarrow> scheduler_available s);
          if mb_entry (mailboxes s i) = mb_size (mailboxes s i) \<and> timeout = 0 then Some (msg_error (- RT_EFULL), s)
          else mb_send_loop i v timeout s }"

definition rt_mb_send_resume :: "nat \<Rightarrow> u32 \<Rightarrow> u32 \<Rightarrow> u32 \<Rightarrow> ipc \<Rightarrow> ('v msg_result \<times> ipc) option" where
  "rt_mb_send_resume i v timeout tick s =
     do { t \<leftarrow> rt_current_thread s;
          if error (threads s t) \<noteq> RT_EOK then Some (msg_error (error (threads s t)), s)
          else mb_send_loop i v (time_left timeout tick s) s }"

definition rt_mb_send :: "nat \<Rightarrow> u32 \<Rightarrow> ipc \<Rightarrow> ('v msg_result \<times> ipc) option" where
  "rt_mb_send i v s = rt_mb_send_wait i v 0 s"

text \<open>In front of the first message.\<close>

definition mb_push :: "u32 \<Rightarrow> rt_mailbox \<Rightarrow> rt_mailbox option" where
  "mb_push v m =
     do { let m = m\<lparr>out_offset := (if out_offset m > 0 then out_offset m - 1 else mb_size m - 1)\<rparr>;
          pool \<leftarrow> wr (mb_pool m) (unat (out_offset m)) v;
          Some (m\<lparr>mb_pool := pool, mb_entry := mb_entry m + 1\<rparr>) }"

definition rt_mb_urgent :: "nat \<Rightarrow> u32 \<Rightarrow> ipc \<Rightarrow> (int \<times> ipc) option" where
  "rt_mb_urgent i v s =
     (if mb_entry (mailboxes s i) = mb_size (mailboxes s i) then Some (- RT_EFULL, s)
      else
        do { m \<leftarrow> mb_push v (mailboxes s i);
             msg_stored (Mb_recv i) True (upd_mb i (\<lambda>_. m) s) })"

definition mb_take :: "rt_mailbox \<Rightarrow> (u32 \<times> rt_mailbox) option" where
  "mb_take m =
     do { v \<leftarrow> rd (mb_pool m) (unat (out_offset m));
          let off = out_offset m + 1;
          let off = (if off \<ge> mb_size m then 0 else off);
          let m = m\<lparr>out_offset := off\<rparr>;
          Some (v, if mb_entry m > 0 then m\<lparr>mb_entry := mb_entry m - 1\<rparr> else m) }"

definition mb_get :: "nat \<Rightarrow> ipc \<Rightarrow> (u32 msg_result \<times> ipc) option" where
  "mb_get i s =
     do { (v, m) \<leftarrow> mb_take (mailboxes s i);
          s \<leftarrow> wake_first (Mb_send i) (upd_mb i (\<lambda>_. m) s);
          Some (Done RT_EOK (Some v), s) }"

definition mb_recv_loop :: "nat \<Rightarrow> u32 \<Rightarrow> ipc \<Rightarrow> (u32 msg_result \<times> ipc) option" where
  "mb_recv_loop i timeout s =
     (if mb_entry (mailboxes s i) = 0
      then
        do { t \<leftarrow> rt_current_thread s;
             let s = upd_thread t (\<lambda>th. th\<lparr>error := RT_EOK\<rparr>) s;
             if timeout = 0 then Some (msg_error (- RT_ETIMEOUT), upd_thread t (\<lambda>th. th\<lparr>error := - RT_ETIMEOUT\<rparr>) s)
             else do {
               s \<leftarrow> wait_on (Mb_recv i) t (mb_flag (mailboxes s i)) timeout s;
               Some (Pending timeout (rt_tick s), s) } }
      else mb_get i s)"

definition rt_mb_recv :: "nat \<Rightarrow> u32 \<Rightarrow> ipc \<Rightarrow> (u32 msg_result \<times> ipc) option" where
  "rt_mb_recv i timeout s =
     do { rt_assert (timeout \<noteq> 0 \<longrightarrow> scheduler_available s);
          if mb_entry (mailboxes s i) = 0 \<and> timeout = 0 then Some (msg_error (- RT_ETIMEOUT), s)
          else mb_recv_loop i timeout s }"

definition rt_mb_recv_resume :: "nat \<Rightarrow> u32 \<Rightarrow> u32 \<Rightarrow> ipc \<Rightarrow> (u32 msg_result \<times> ipc) option" where
  "rt_mb_recv_resume i timeout tick s =
     do { t \<leftarrow> rt_current_thread s;
          if error (threads s t) \<noteq> RT_EOK then Some (msg_error (error (threads s t)), s)
          else mb_recv_loop i (time_left timeout tick s) s }"

definition rt_mb_control :: "nat \<Rightarrow> ipc_cmd \<Rightarrow> ipc \<Rightarrow> (int \<times> ipc) option" where
  "rt_mb_control i cmd s =
     (case cmd of
        RT_IPC_CMD_RESET \<Rightarrow>
          do { s \<leftarrow> ipc_list_resume_all (Mb_recv i) s;
               s \<leftarrow> ipc_list_resume_all (Mb_send i) s;
               s \<leftarrow> rt_schedule (upd_mb i (\<lambda>m. m\<lparr>mb_entry := 0, in_offset := 0, out_offset := 0\<rparr>) s);
               Some (RT_EOK, s) }
      | RT_IPC_CMD_UNKNOWN \<Rightarrow> Some (- RT_ERROR, s))"

subsection \<open>Message queues\<close>

text \<open>The slots of the pool, put one by one on the list of free ones.\<close>

definition mq_slot_size :: "u16 \<Rightarrow> nat" where "mq_slot_size m = unat m + 4"

fun mq_slots :: "u8 list \<Rightarrow> u16 \<Rightarrow> nat \<Rightarrow> rt_mq_message list" where
  "mq_slots pool m 0 = []"
| "mq_slots pool m (Suc n) =
     mq_slots pool m n @ [\<lparr>msg_next = (if n = 0 then None else Some (n - 1)),
       msg_bytes = take (unat m) (drop (n * mq_slot_size m + 4) pool)\<rparr>]"

definition mq_empty :: "u8 list \<Rightarrow> u16 \<Rightarrow> u16 \<Rightarrow> ipc_flag \<Rightarrow> rt_messagequeue" where
  "mq_empty pool m n flag =
     \<lparr>mq_pool = mq_slots pool m (unat n), msg_size = m, max_msgs = n, mq_entry = 0, msg_queue_head = None,
      msg_queue_tail = None, msg_queue_free = (if n = 0 then None else Some (unat n - 1)), mq_flag = flag\<rparr>"

text \<open>The pool is memory of \<open>pool_size\<close> bytes; the size of a message is rounded up to a multiple of 4.\<close>

definition rt_mq_init :: "nat \<Rightarrow> u8 list \<Rightarrow> u32 \<Rightarrow> ipc_flag \<Rightarrow> ipc \<Rightarrow> ipc option" where
  "rt_mq_init i pool sz flag s =
     do { s \<leftarrow> ipc_object_init (Mq_recv i) s;
          s \<leftarrow> ipc_object_init (Mq_send i) s;
          let m = ucast ((sz + 3) AND NOT 3);
          Some (upd_mq i (\<lambda>_. mq_empty pool m (of_nat (length pool div mq_slot_size m)) flag) s) }"

definition rt_mq_detach :: "nat \<Rightarrow> ipc \<Rightarrow> ipc option" where
  "rt_mq_detach i s = do { s \<leftarrow> ipc_list_resume_all (Mq_recv i) s; ipc_list_resume_all (Mq_send i) s }"

text \<open>The interrupts are enabled while a message is copied, when the slot is on neither list.\<close>

definition upd_slot :: "nat \<Rightarrow> (rt_mq_message \<Rightarrow> rt_mq_message) \<Rightarrow> rt_messagequeue \<Rightarrow> rt_messagequeue option" where
  "upd_slot k f q = do { m \<leftarrow> rd (mq_pool q) k; pool \<leftarrow> wr (mq_pool q) k (f m); Some (q\<lparr>mq_pool := pool\<rparr>) }"

definition mq_take_free :: "nat \<Rightarrow> rt_messagequeue \<Rightarrow> rt_messagequeue option" where
  "mq_take_free k q = do { m \<leftarrow> rd (mq_pool q) k; Some (q\<lparr>msg_queue_free := msg_next m\<rparr>) }"

definition mq_fill :: "nat \<Rightarrow> u8 list \<Rightarrow> rt_messagequeue \<Rightarrow> rt_messagequeue option" where
  "mq_fill k buf q =
     do { m \<leftarrow> rd (mq_pool q) k;
          bytes \<leftarrow> blit (msg_bytes m) 0 buf;
          upd_slot k (\<lambda>m. m\<lparr>msg_bytes := bytes\<rparr>) q }"

text \<open>The filled slot becomes the last of the queue, or the first; \<open>False\<close> when the counter is at its maximum.\<close>

definition mq_append :: "nat \<Rightarrow> rt_messagequeue \<Rightarrow> (bool \<times> rt_messagequeue) option" where
  "mq_append k q =
     do { q \<leftarrow> (case msg_queue_tail q of None \<Rightarrow> Some q | Some l \<Rightarrow> upd_slot l (\<lambda>m. m\<lparr>msg_next := Some k\<rparr>) q);
          let q = q\<lparr>msg_queue_tail := Some k\<rparr>;
          let q = (if msg_queue_head q = None then q\<lparr>msg_queue_head := Some k\<rparr> else q);
          Some (if mq_entry q < RT_MQ_ENTRY_MAX then (True, q\<lparr>mq_entry := mq_entry q + 1\<rparr>) else (False, q)) }"

definition mq_prepend :: "nat \<Rightarrow> rt_messagequeue \<Rightarrow> (bool \<times> rt_messagequeue) option" where
  "mq_prepend k q =
     do { q \<leftarrow> upd_slot k (\<lambda>m. m\<lparr>msg_next := msg_queue_head q\<rparr>) q;
          let q = q\<lparr>msg_queue_head := Some k\<rparr>;
          let q = (if msg_queue_tail q = None then q\<lparr>msg_queue_tail := Some k\<rparr> else q);
          Some (if mq_entry q < RT_MQ_ENTRY_MAX then (True, q\<lparr>mq_entry := mq_entry q + 1\<rparr>) else (False, q)) }"

definition mq_store :: "nat \<Rightarrow> u8 list \<Rightarrow> rt_messagequeue \<Rightarrow> (bool \<times> rt_messagequeue) option" where
  "mq_store k buf q =
     do { q \<leftarrow> mq_take_free k q;
          q \<leftarrow> upd_slot k (\<lambda>m. m\<lparr>msg_next := None\<rparr>) q;
          q \<leftarrow> mq_fill k buf q;
          mq_append k q }"

definition mq_put :: "nat \<Rightarrow> nat \<Rightarrow> u8 list \<Rightarrow> ipc \<Rightarrow> ('v msg_result \<times> ipc) option" where
  "mq_put i k buf s =
     do { (counted, q) \<leftarrow> mq_store k buf (mqs s i);
          (r, s) \<leftarrow> msg_stored (Mq_recv i) counted (upd_mq i (\<lambda>_. q) s);
          Some (msg_error r, s) }"

definition mq_send_loop :: "nat \<Rightarrow> u8 list \<Rightarrow> u32 \<Rightarrow> ipc \<Rightarrow> ('v msg_result \<times> ipc) option" where
  "mq_send_loop i buf timeout s =
     (case msg_queue_free (mqs s i) of
        None \<Rightarrow>
          do { t \<leftarrow> rt_current_thread s;
               let s = upd_thread t (\<lambda>th. th\<lparr>error := RT_EOK\<rparr>) s;
               if timeout = 0 then Some (msg_error (- RT_EFULL), s)
               else do {
                 s \<leftarrow> wait_on (Mq_send i) t (mq_flag (mqs s i)) timeout s;
                 Some (Pending timeout (rt_tick s), s) } }
      | Some k \<Rightarrow> mq_put i k buf s)"

definition rt_mq_send_wait :: "nat \<Rightarrow> u8 list \<Rightarrow> u32 \<Rightarrow> ipc \<Rightarrow> ('v msg_result \<times> ipc) option" where
  "rt_mq_send_wait i buf timeout s =
     do { rt_assert (buf \<noteq> []);
          rt_assert (timeout \<noteq> 0 \<longrightarrow> scheduler_available s);
          if length buf > unat (msg_size (mqs s i)) then Some (msg_error (- RT_ERROR), s)
          else if msg_queue_free (mqs s i) = None \<and> timeout = 0 then Some (msg_error (- RT_EFULL), s)
          else mq_send_loop i buf timeout s }"

definition rt_mq_send_resume :: "nat \<Rightarrow> u8 list \<Rightarrow> u32 \<Rightarrow> u32 \<Rightarrow> ipc \<Rightarrow> ('v msg_result \<times> ipc) option" where
  "rt_mq_send_resume i buf timeout tick s =
     do { t \<leftarrow> rt_current_thread s;
          if error (threads s t) \<noteq> RT_EOK then Some (msg_error (error (threads s t)), s)
          else mq_send_loop i buf (time_left timeout tick s) s }"

definition rt_mq_send :: "nat \<Rightarrow> u8 list \<Rightarrow> ipc \<Rightarrow> ('v msg_result \<times> ipc) option" where
  "rt_mq_send i buf s = rt_mq_send_wait i buf 0 s"

definition mq_push :: "nat \<Rightarrow> u8 list \<Rightarrow> rt_messagequeue \<Rightarrow> (bool \<times> rt_messagequeue) option" where
  "mq_push k buf q = do { q \<leftarrow> mq_take_free k q; q \<leftarrow> mq_fill k buf q; mq_prepend k q }"

definition rt_mq_urgent :: "nat \<Rightarrow> u8 list \<Rightarrow> ipc \<Rightarrow> (int \<times> ipc) option" where
  "rt_mq_urgent i buf s =
     do { rt_assert (buf \<noteq> []);
          if length buf > unat (msg_size (mqs s i)) then Some (- RT_ERROR, s)
          else (case msg_queue_free (mqs s i) of
              None \<Rightarrow> Some (- RT_EFULL, s)
            | Some k \<Rightarrow>
                do { (counted, q) \<leftarrow> mq_push k buf (mqs s i);
                     msg_stored (Mq_recv i) counted (upd_mq i (\<lambda>_. q) s) }) }"

text \<open>The first message leaves the queue, and its slot becomes free.\<close>

definition mq_unlink :: "rt_messagequeue \<Rightarrow> (nat \<times> rt_messagequeue) option" where
  "mq_unlink q =
     do { k \<leftarrow> msg_queue_head q;
          m \<leftarrow> rd (mq_pool q) k;
          let q = q\<lparr>msg_queue_head := msg_next m\<rparr>;
          let q = (if msg_queue_tail q = Some k then q\<lparr>msg_queue_tail := None\<rparr> else q);
          Some (k, if mq_entry q > 0 then q\<lparr>mq_entry := mq_entry q - 1\<rparr> else q) }"

definition mq_free_slot :: "nat \<Rightarrow> rt_messagequeue \<Rightarrow> rt_messagequeue option" where
  "mq_free_slot k q =
     do { q \<leftarrow> upd_slot k (\<lambda>m. m\<lparr>msg_next := msg_queue_free q\<rparr>) q;
          Some (q\<lparr>msg_queue_free := Some k\<rparr>) }"

definition mq_take :: "nat \<Rightarrow> rt_messagequeue \<Rightarrow> (u8 list \<times> rt_messagequeue) option" where
  "mq_take sz q =
     do { (k, q) \<leftarrow> mq_unlink q;
          m \<leftarrow> rd (mq_pool q) k;
          bytes \<leftarrow> subarr (msg_bytes m) 0 (if sz > unat (msg_size q) then unat (msg_size q) else sz);
          q \<leftarrow> mq_free_slot k q;
          Some (bytes, q) }"

definition mq_get :: "nat \<Rightarrow> nat \<Rightarrow> ipc \<Rightarrow> (u8 list msg_result \<times> ipc) option" where
  "mq_get i sz s =
     do { (bytes, q) \<leftarrow> mq_take sz (mqs s i);
          s \<leftarrow> wake_first (Mq_send i) (upd_mq i (\<lambda>_. q) s);
          Some (Done RT_EOK (Some bytes), s) }"

definition mq_recv_loop :: "nat \<Rightarrow> nat \<Rightarrow> u32 \<Rightarrow> ipc \<Rightarrow> (u8 list msg_result \<times> ipc) option" where
  "mq_recv_loop i sz timeout s =
     (if mq_entry (mqs s i) = 0
      then
        do { t \<leftarrow> rt_current_thread s;
             let s = upd_thread t (\<lambda>th. th\<lparr>error := RT_EOK\<rparr>) s;
             if timeout = 0 then Some (msg_error (- RT_ETIMEOUT), upd_thread t (\<lambda>th. th\<lparr>error := - RT_ETIMEOUT\<rparr>) s)
             else do {
               s \<leftarrow> wait_on (Mq_recv i) t (mq_flag (mqs s i)) timeout s;
               Some (Pending timeout (rt_tick s), s) } }
      else mq_get i sz s)"

definition rt_mq_recv :: "nat \<Rightarrow> nat \<Rightarrow> u32 \<Rightarrow> ipc \<Rightarrow> (u8 list msg_result \<times> ipc) option" where
  "rt_mq_recv i sz timeout s =
     do { rt_assert (sz \<noteq> 0);
          rt_assert (timeout \<noteq> 0 \<longrightarrow> scheduler_available s);
          if mq_entry (mqs s i) = 0 \<and> timeout = 0 then Some (msg_error (- RT_ETIMEOUT), s)
          else mq_recv_loop i sz timeout s }"

definition rt_mq_recv_resume :: "nat \<Rightarrow> nat \<Rightarrow> u32 \<Rightarrow> u32 \<Rightarrow> ipc \<Rightarrow> (u8 list msg_result \<times> ipc) option" where
  "rt_mq_recv_resume i sz timeout tick s =
     do { t \<leftarrow> rt_current_thread s;
          if error (threads s t) \<noteq> RT_EOK then Some (msg_error (error (threads s t)), s)
          else mq_recv_loop i sz (time_left timeout tick s) s }"

text \<open>The reset moves every message's slot back to the free ones: at most one step for each slot of the pool.\<close>

fun mq_flush :: "nat \<Rightarrow> rt_messagequeue \<Rightarrow> rt_messagequeue option" where
  "mq_flush 0 q = (if msg_queue_head q = None then Some q else None)"
| "mq_flush (Suc n) q =
     (case msg_queue_head q of
        None \<Rightarrow> Some q
      | Some k \<Rightarrow>
          do { m \<leftarrow> rd (mq_pool q) k;
               let q = q\<lparr>msg_queue_head := msg_next m\<rparr>;
               let q = (if msg_queue_tail q = Some k then q\<lparr>msg_queue_tail := None\<rparr> else q);
               q \<leftarrow> mq_free_slot k q;
               mq_flush n q })"

definition rt_mq_control :: "nat \<Rightarrow> ipc_cmd \<Rightarrow> ipc \<Rightarrow> (int \<times> ipc) option" where
  "rt_mq_control i cmd s =
     (case cmd of
        RT_IPC_CMD_RESET \<Rightarrow>
          do { s \<leftarrow> ipc_list_resume_all (Mq_recv i) s;
               s \<leftarrow> ipc_list_resume_all (Mq_send i) s;
               q \<leftarrow> mq_flush (length (mq_pool (mqs s i))) (mqs s i);
               s \<leftarrow> rt_schedule (upd_mq i (\<lambda>_. q\<lparr>mq_entry := 0\<rparr>) s);
               Some (RT_EOK, s) }
      | RT_IPC_CMD_UNKNOWN \<Rightarrow> Some (- RT_ERROR, s))"

end
