(* ===== verification/Ipc_Wait.thy ===== *)
theory Ipc_Wait
  imports Ipc Kernel_Calls
begin

text \<open>
  Waiting for an IPC object and waking those who wait: what the lists of waiting threads, the timers and the
  scheduler do, shared by all kinds of objects.
\<close>

subsection \<open>Placing a thread\<close>

definition wait_place :: "ipc_flag \<Rightarrow> (tid \<Rightarrow> rt_thread) \<Rightarrow> tid \<Rightarrow> tid list \<Rightarrow> tid list" where
  "wait_place flag ts t xs = (case flag of RT_IPC_FLAG_FIFO \<Rightarrow> xs @ [t] | RT_IPC_FLAG_PRIO \<Rightarrow> prio_place ts t xs)"

lemma prio_place_split:
  "prio_place ts t xs =
     takeWhile (\<lambda>u. current_priority (ts u) \<le> current_priority (ts t)) xs @ t #
     dropWhile (\<lambda>u. current_priority (ts u) \<le> current_priority (ts t)) xs"
  by (induction xs) auto

lemma set_prio_place: "set (prio_place ts t xs) = insert t (set xs)"
  by (induction xs) auto

lemma distinct_prio_place: "distinct xs \<Longrightarrow> t \<notin> set xs \<Longrightarrow> distinct (prio_place ts t xs)"
  by (induction xs) (auto simp: set_prio_place)

lemma prio_place_cong:
  "(\<And>u. current_priority (ts u) = current_priority (ts' u)) \<Longrightarrow> prio_place ts t xs = prio_place ts' t xs"
  by (induction xs) auto

lemma wait_place_set: "set (wait_place flag ts t xs) = insert t (set xs)"
  by (cases flag) (auto simp: wait_place_def set_prio_place)

lemma wait_place_distinct: "distinct xs \<Longrightarrow> t \<notin> set xs \<Longrightarrow> distinct (wait_place flag ts t xs)"
  by (cases flag) (auto simp: wait_place_def distinct_prio_place)

text \<open>A list in the order of the priorities stays in it.\<close>

lemma prio_place_sorted:
  assumes "sorted_wrt (\<lambda>u v. current_priority (ts u) \<le> current_priority (ts v)) xs"
  shows "sorted_wrt (\<lambda>u v. current_priority (ts u) \<le> current_priority (ts v)) (prio_place ts t xs)"
  using assms by (induction xs) (auto simp: set_prio_place)

subsection \<open>Suspending on a list\<close>

text \<open>A suspended thread that is in no list is linked into the list of an object.\<close>

lemma link_waiting:
  assumes inv: "kernel_inv s" and st: "stat (threads s t) = RT_THREAD_SUSPEND" "tlist (threads s t) = None" and l: "wait_list l"
    and ts: "distinct ts" "set ts = insert t (set (thread_lists s l))"
  shows "\<exists>s'. link_thread l t ts s = Some s' \<and> kernel_inv s' \<and> only_thread t s s' \<and>
    threads s' t = (threads s t)\<lparr>tlist := Some l\<rparr> \<and> thread_lists s' = (thread_lists s)(l := ts)"
proof -
  note S = kernel_inv_D(1) [OF inv]
  obtain s' where s': "link_thread l t ts s = Some s'" "links_ok s'" "only_thread t s s'"
    "threads s' t = (threads s t)\<lparr>tlist := Some l\<rparr>" "thread_lists s' = (thread_lists s)(l := ts)"
    "rt_thread_ready_priority_group s' = rt_thread_ready_priority_group s"
    using link_thread_ok [OF sched_inv_D(2) [OF S] st(2) ts] by blast
  have th: "threads s' u = threads s u" if "u \<noteq> t" for u using s'(3) that by (simp add: only_thread_def)
  have stat: "stat (threads s' u) = stat (threads s u)" for u using th [of u] s'(4) by (cases "u = t") simp_all
  have sm: "same_timers s s'" "rt_current_thread s' = rt_current_thread s" using s'(3) by (simp_all add: only_thread_def)
  have "thread_ok (threads s' u)" for u
    using sched_inv_D(4) [OF S, of u] th [of u] s'(4) st(1) l
    by (cases "u = t"; cases l) (auto simp: thread_ok_def place_ok_def)
  moreover have "group_ok s'" using sched_inv_D(3) [OF S] s'(5,6) l by (auto simp: group_ok_def)
  ultimately have "lists_inv s'" using s'(2) by (simp add: lists_inv_def)
  moreover have "cur_ok s'" using sched_inv_D(5) [OF S] cur_ok_cong [of s' s] stat sm(2) by simp
  moreover have "runnable (threads s' idle)" using sched_inv_D(6) [OF S] stat by (simp add: runnable_def)
  moreover have "timed_ok s'" using kernel_inv_D(6) [OF inv] stat sm(1) by (simp add: timed_ok_def same_timers_def)
  moreover have "timer_inv s'" using kernel_inv_D(2) [OF inv] same_timers_inv [OF sm(1)] by simp
  ultimately show ?thesis using s' by (simp add: kernel_inv_def sched_inv_def)
qed

lemma ipc_list_suspend_ok:
  assumes inv: "kernel_inv s" and c: "rt_current_thread s = Some t" "stat (threads s t) = RT_THREAD_RUNNING" "t \<noteq> idle"
    and l: "wait_list l"
  shows "\<exists>s'. ipc_list_suspend l t flag s = Some s' \<and> kernel_inv s' \<and>
    gives_up t ((thread_lists s)(l := wait_place flag (threads s) t (thread_lists s l))) s s'"
proof -
  obtain s1 where s1: "rt_thread_suspend t s = Some (RT_EOK, s1)" "kernel_inv s1" "gives_up t (thread_lists s) s s1"
    "threads s1 t = (threads s t)\<lparr>stat := RT_THREAD_SUSPEND\<rparr>" "tlist (threads s1 t) = None" "thread_lists s1 = thread_lists s"
    using rt_thread_suspend_ok [OF inv c] by blast
  let ?ts = "wait_place flag (threads s) t (thread_lists s l)"
  have same: "\<And>u. same_data (threads s u) (threads s1 u)" using s1(3) by (simp add: gives_up_def waits_def)
  have "t \<notin> set (thread_lists s l)" using not_waiting [OF kernel_inv_D(1) [OF inv] _ l] c(2) by simp
  moreover have "distinct (thread_lists s l)" using links_ok_D(1) [OF sched_inv_D(2) [OF kernel_inv_D(1) [OF inv]]] .
  ultimately have "distinct ?ts" "set ?ts = insert t (set (thread_lists s1 l))"
    using s1(6) by (simp_all add: wait_place_distinct wait_place_set)
  moreover have "stat (threads s1 t) = RT_THREAD_SUSPEND" using s1(4) by simp
  ultimately obtain s' where s': "link_thread l t ?ts s1 = Some s'" "kernel_inv s'" "only_thread t s1 s'"
    "threads s' t = (threads s1 t)\<lparr>tlist := Some l\<rparr>" "thread_lists s' = (thread_lists s1)(l := ?ts)"
    using link_waiting [OF s1(2) _ s1(5) l] by blast
  have p: "prio_place (threads s1) t xs = prio_place (threads s) t xs" for xs
    using same by (intro prio_place_cong) (simp add: same_data_def)
  have "ipc_list_suspend l t flag s = Some s'"
    using s1(1,6) s'(1) p by (cases flag) (simp_all add: ipc_list_suspend_def wait_place_def rt_list_insert_before_def)
  moreover have "gives_up t ((thread_lists s)(l := ?ts)) s s'"
    unfolding gives_up_def waits_def
  proof (intro conjI allI impI)
    show "same_data (threads s u) (threads s' u)" for u
      using same [of u] s'(3,4) by (cases "u = t") (simp_all add: only_thread_def same_data_def)
    show "error (threads s' u) = error (threads s u)" for u
      using s1(3) s'(3,4) by (cases "u = t") (simp_all add: only_thread_def gives_up_def waits_def)
    show "thread_lists s' m = ((thread_lists s)(l := ?ts)) m" for m using s'(5) s1(6) by simp
    show "quiet s'" if "quiet s" using that s1(3) same_timers_quiet [of s1 s'] s'(3) by (simp add: gives_up_def waits_def only_thread_def)
    show "stat (threads s' t) = RT_THREAD_SUSPEND" using s'(4) s1(4) by simp
  qed (use s1(3) s'(3) in \<open>simp_all add: gives_up_def waits_def only_thread_def same_timers_def\<close>)
  ultimately show ?thesis using s'(2) by blast
qed

text \<open>The state while the thread waits in \<open>l\<close>.\<close>

lemma wait_on_ok:
  assumes op: "operational s" and c: "rt_current_thread s = Some t" "t \<noteq> idle" and lock: "rt_scheduler_lock_nest s = 0"
    and l: "wait_list l" and v: "0 < sint timeout \<longrightarrow> timeout < TICK_HALF"
  shows "\<exists>s'. wait_on l t flag timeout s = Some s' \<and> operational s' \<and> settled s' \<and>
    waits t ((thread_lists s)(l := wait_place flag (threads s) t (thread_lists s l))) s s' \<and>
    (0 < sint timeout \<longrightarrow> asleep t (rt_tick s + timeout) s')"
proof -
  note o = operational_D [OF op]
  have run: "stat (threads s t) = RT_THREAD_RUNNING" using o(3) c(1) by (auto simp: cur_running_def)
  let ?L = "(thread_lists s)(l := wait_place flag (threads s) t (thread_lists s l))"
  obtain s1 where s1: "ipc_list_suspend l t flag s = Some s1" "kernel_inv s1" "gives_up t ?L s s1"
    using ipc_list_suspend_ok [OF o(1) c(1) run c(2) l] by blast
  have tick: "rt_tick s1 = rt_tick s" using s1(3) by (simp add: gives_up_def waits_def)
  have "\<exists>s2. (if 0 < sint timeout then start_thread_timer t timeout s1 else Some s1) = Some s2 \<and> kernel_inv s2 \<and>
      gives_up t ?L s s2 \<and> (0 < sint timeout \<longrightarrow> asleep t (rt_tick s + timeout) s2)"
  proof (cases "0 < sint timeout")
    case False
    then show ?thesis using s1(2,3) by simp
  next
    case True
    then show ?thesis
      using start_thread_timer_ok [OF s1(2,3), of timeout] v by (auto simp: asleep_def tick gives_up_def waits_def)
  qed
  then obtain s2 where s2: "(if 0 < sint timeout then start_thread_timer t timeout s1 else Some s1) = Some s2" "kernel_inv s2"
    "gives_up t ?L s s2" "0 < sint timeout \<longrightarrow> asleep t (rt_tick s + timeout) s2" by blast
  have w2: "waits t ?L s s2" using s2(3) by (simp add: gives_up_def)
  obtain s' where s': "rt_schedule s2 = Some s'" "kernel_inv s'" "wakes {} s2 s'" "rt_scheduler_lock_nest s2 = 0 \<longrightarrow> settled s'"
    using rt_schedule_kernel [OF s2(2)] by blast
  have w: "waits t ?L s s'" by (rule waits_scheduled [OF w2 s'(3)])
  have set: "settled s'" using s'(4) w2 lock by (simp add: waits_def)
  have "operational s'"
    using s'(2) settled_running [OF set] w o(2,4) by (simp add: operational_def waits_def)
  moreover have "0 < sint timeout \<longrightarrow> asleep t (rt_tick s + timeout) s'" using s2(4) asleep_wakes [OF s'(3)] by simp
  ultimately show ?thesis using s1(1) s2(1) s'(1) set w by (auto simp: wait_on_def)
qed

subsection \<open>Waking\<close>

lemma waiting_suspended:
  assumes "operational s" "wait_list l" "t \<in> set (thread_lists s l)"
  shows "stat (threads s t) = RT_THREAD_SUSPEND" "\<not> runnable (threads s t)"
proof -
  have "sched_inv s" using assms(1) by (simp add: operational_def kernel_inv_def)
  from not_waiting [OF this _ assms(2)] show "stat (threads s t) = RT_THREAD_SUSPEND" using assms(3) by blast
  then show "\<not> runnable (threads s t)" by (simp add: runnable_def)
qed

lemma waiting_once:
  assumes "operational s" "t \<in> set (thread_lists s l)" "t \<in> set (thread_lists s l')"
  shows "l = l'"
proof -
  have "links_ok s" using sched_inv_D(2) [OF kernel_inv_D(1) [OF operational_D(1) [OF assms(1)]]] .
  then show ?thesis using assms(2,3) links_ok_D(2) [of s t l] links_ok_D(2) [of s t l'] by simp
qed

lemma waiting_distinct: "operational s \<Longrightarrow> distinct (thread_lists s l)"
  using links_ok_D(1) [OF sched_inv_D(2) [OF kernel_inv_D(1) [OF operational_D(1)]]] .

lemma wakes_operational:
  assumes "operational s" "kernel_inv s'" "wakes W s s'" "cur_running s'"
  shows "operational s'"
  using assms by (simp add: operational_def wakes_def)

lemma resume_waiting:
  assumes op: "operational s" and st: "stat (threads s t) = RT_THREAD_SUSPEND"
  shows "\<exists>s'. rt_thread_resume t s = Some (RT_EOK, s') \<and> operational s' \<and> wakes {t} s s' \<and> error (threads s' t) = error (threads s t)"
proof -
  note o = operational_D [OF op]
  obtain s' where s': "rt_thread_resume t s = Some (RT_EOK, s')" "kernel_inv s'" "wakes {t} s s'"
    "error (threads s' t) = error (threads s t)" "cur_running s \<longrightarrow> cur_running s'"
    using rt_thread_resume_ok [OF o(1) st] by blast
  then show ?thesis using wakes_operational [OF op s'(2,3)] o(3) by blast
qed

text \<open>The first waiting thread is woken, and the scheduler runs.\<close>

lemma wake_first_ok:
  assumes op: "operational s" and l: "wait_list l"
  shows "\<exists>s'. wake_first l s = Some s' \<and> operational s' \<and>
    (case thread_lists s l of
       [] \<Rightarrow> s' = s
     | t # _ \<Rightarrow> wakes {t} s s' \<and> error (threads s' t) = error (threads s t) \<and> (rt_scheduler_lock_nest s = 0 \<longrightarrow> settled s'))"
proof (cases "thread_lists s l")
  case Nil
  then show ?thesis using op by (simp add: wake_first_def)
next
  case (Cons t ts)
  have "stat (threads s t) = RT_THREAD_SUSPEND" using waiting_suspended(1) [OF op l, of t] Cons by simp
  then obtain s1 where s1: "rt_thread_resume t s = Some (RT_EOK, s1)" "operational s1" "wakes {t} s s1"
    "error (threads s1 t) = error (threads s t)"
    using resume_waiting [OF op] by blast
  obtain s' where s': "rt_schedule s1 = Some s'" "kernel_inv s'" "wakes {} s1 s'" "rt_scheduler_lock_nest s1 = 0 \<longrightarrow> settled s'"
    "cur_running s1 \<longrightarrow> sound s'"
    using rt_schedule_kernel [OF operational_D(1) [OF s1(2)]] by blast
  have "operational s'"
    using wakes_operational [OF s1(2) s'(2,3)] s'(5) operational_D(3) [OF s1(2)] sound_running by blast
  moreover have "wakes {t} s s'" using wakes_trans [OF s1(3) s'(3)] by simp
  moreover have "error (threads s' t) = error (threads s t)" using s1(4) s'(3) by (simp add: wakes_def)
  moreover have "rt_scheduler_lock_nest s1 = rt_scheduler_lock_nest s" using s1(3) by (simp add: wakes_def)
  ultimately show ?thesis using Cons s1(1) s'(1,4) by (simp add: wake_first_def ipc_list_resume_def)
qed

text \<open>All the waiting threads are woken with an error.\<close>

lemma ipc_list_resume_all_ok:
  assumes "operational s" "wait_list l"
  shows "\<exists>s'. ipc_list_resume_all l s = Some s' \<and> operational s' \<and> wakes (set (thread_lists s l)) s s' \<and>
    (\<forall>t \<in> set (thread_lists s l). error (threads s' t) = - RT_ERROR)"
  using assms
proof (induction "length (thread_lists s l)" arbitrary: s)
  case 0
  then show ?case by (subst ipc_list_resume_all.simps) (simp add: wakes_refl)
next
  case (Suc n)
  then obtain t ts where ts: "thread_lists s l = t # ts" by (cases "thread_lists s l") simp_all
  have st: "stat (threads s t) = RT_THREAD_SUSPEND" using waiting_suspended(1) [OF Suc.prems, of t] ts by simp
  let ?s1 = "upd_thread t (\<lambda>th. th\<lparr>error := - RT_ERROR\<rparr>) s"
  have k1: "kernel_inv ?s1" by (rule kernel_inv_upd) (use Suc.prems in \<open>simp_all add: operational_def\<close>)
  have "cur_running ?s1" using Suc.prems(1) by (subst cur_running_upd) (simp_all add: operational_def)
  then have op1: "operational ?s1"
    using Suc.prems(1) k1 same_timers_quiet [of s ?s1] by (simp add: operational_def)
  have "stat (threads ?s1 t) = RT_THREAD_SUSPEND" using st by simp
  from resume_waiting [OF op1 this] obtain s2 where s2: "rt_thread_resume t ?s1 = Some (RT_EOK, s2)" "operational s2"
    "wakes {t} ?s1 s2" "error (threads s2 t) = - RT_ERROR" by auto
  have e: "threads ?s1 u = threads s u" if "u \<noteq> t" for u using that by simp
  have w: "wakes {t} s s2"
    unfolding wakes_def
  proof (intro conjI allI impI)
    show "quiet s2" if "quiet s" using that s2(3) same_timers_quiet [of s ?s1] by (simp add: wakes_def)
    show "same_data (threads s u) (threads s2 u)" for u
      using s2(3) same_data_trans [of "threads s u" "threads ?s1 u"] by (simp add: wakes_def)
    show "runnable (threads s2 u) = (runnable (threads s u) \<or> u \<in> {t})" for u using s2(3) by (simp add: wakes_def runnable_def)
  qed (use s2(3) in \<open>auto simp: wakes_def\<close>)
  have d: "distinct (t # ts)" using waiting_distinct [OF Suc.prems(1), of l] ts by simp
  have ts2: "thread_lists s2 l = ts"
  proof -
    have "filter (\<lambda>u. u \<notin> {t}) (t # ts) = ts" using d by (auto simp: filter_id_conv)
    then show ?thesis using w Suc.prems(2) ts by (simp add: wakes_def wait_list_def)
  qed
  have "n = length (thread_lists s2 l)" using Suc.hyps(2) ts ts2 by simp
  from Suc.hyps(1) [OF this s2(2) Suc.prems(2)] obtain s' where s': "ipc_list_resume_all l s2 = Some s'" "operational s'"
    "wakes (set ts) s2 s'" "\<forall>u \<in> set ts. error (threads s' u) = - RT_ERROR"
    unfolding ts2 by blast
  have "error (threads s' t) = - RT_ERROR" using s'(3) s2(4) d by (simp add: wakes_def)
  moreover have "ipc_list_resume_all l s = Some s'" using ts s2(1) s'(1) by (subst ipc_list_resume_all.simps) simp
  moreover have "wakes (set (thread_lists s l)) s s'" using wakes_trans [OF w s'(3)] by (simp add: ts)
  ultimately show ?case using s'(2,4) ts by simp
qed

end
