(* ===== verification/Ipc_Frame.thy ===== *)
theory Ipc_Frame
  imports Ipc_Wait
begin

text \<open>
  What the calls for one IPC object leave as it is, in the other objects and in the threads that wait for them.
\<close>

subsection \<open>Objects and the kernel's state\<close>

lemma upd_object_simps [simp]:
  "threads (upd_sem i f_sem s) = threads s" "thread_lists (upd_sem i f_sem s) = thread_lists s"
  "rt_current_thread (upd_sem i f_sem s) = rt_current_thread s"
  "rt_scheduler_lock_nest (upd_sem i f_sem s) = rt_scheduler_lock_nest s" "rt_tick (upd_sem i f_sem s) = rt_tick s"
  "rt_interrupt_nest (upd_sem i f_sem s) = rt_interrupt_nest s"
  "rt_thread_ready_priority_group (upd_sem i f_sem s) = rt_thread_ready_priority_group s"
  "timers (upd_sem i f_sem s) = timers s" "timer_lists (upd_sem i f_sem s) = timer_lists s"
  "sems (upd_sem i f_sem s) = (sems s)(i := f_sem (sems s i))" "mutexes (upd_sem i f_sem s) = mutexes s"
  "events (upd_sem i f_sem s) = events s" "mailboxes (upd_sem i f_sem s) = mailboxes s" "mqs (upd_sem i f_sem s) = mqs s"
  "threads (upd_mutex i f_mutex s) = threads s" "thread_lists (upd_mutex i f_mutex s) = thread_lists s"
  "rt_current_thread (upd_mutex i f_mutex s) = rt_current_thread s"
  "rt_scheduler_lock_nest (upd_mutex i f_mutex s) = rt_scheduler_lock_nest s"
  "rt_tick (upd_mutex i f_mutex s) = rt_tick s" "rt_interrupt_nest (upd_mutex i f_mutex s) = rt_interrupt_nest s"
  "rt_thread_ready_priority_group (upd_mutex i f_mutex s) = rt_thread_ready_priority_group s"
  "timers (upd_mutex i f_mutex s) = timers s" "timer_lists (upd_mutex i f_mutex s) = timer_lists s"
  "sems (upd_mutex i f_mutex s) = sems s" "mutexes (upd_mutex i f_mutex s) = (mutexes s)(i := f_mutex (mutexes s i))"
  "events (upd_mutex i f_mutex s) = events s" "mailboxes (upd_mutex i f_mutex s) = mailboxes s"
  "mqs (upd_mutex i f_mutex s) = mqs s"
  "threads (upd_event i f_event s) = threads s" "thread_lists (upd_event i f_event s) = thread_lists s"
  "rt_current_thread (upd_event i f_event s) = rt_current_thread s"
  "rt_scheduler_lock_nest (upd_event i f_event s) = rt_scheduler_lock_nest s"
  "rt_tick (upd_event i f_event s) = rt_tick s" "rt_interrupt_nest (upd_event i f_event s) = rt_interrupt_nest s"
  "rt_thread_ready_priority_group (upd_event i f_event s) = rt_thread_ready_priority_group s"
  "timers (upd_event i f_event s) = timers s" "timer_lists (upd_event i f_event s) = timer_lists s"
  "sems (upd_event i f_event s) = sems s" "mutexes (upd_event i f_event s) = mutexes s"
  "events (upd_event i f_event s) = (events s)(i := f_event (events s i))"
  "mailboxes (upd_event i f_event s) = mailboxes s" "mqs (upd_event i f_event s) = mqs s"
  "threads (upd_mb i f_mb s) = threads s" "thread_lists (upd_mb i f_mb s) = thread_lists s"
  "rt_current_thread (upd_mb i f_mb s) = rt_current_thread s"
  "rt_scheduler_lock_nest (upd_mb i f_mb s) = rt_scheduler_lock_nest s" "rt_tick (upd_mb i f_mb s) = rt_tick s"
  "rt_interrupt_nest (upd_mb i f_mb s) = rt_interrupt_nest s"
  "rt_thread_ready_priority_group (upd_mb i f_mb s) = rt_thread_ready_priority_group s"
  "timers (upd_mb i f_mb s) = timers s" "timer_lists (upd_mb i f_mb s) = timer_lists s" "sems (upd_mb i f_mb s) = sems s"
  "mutexes (upd_mb i f_mb s) = mutexes s" "events (upd_mb i f_mb s) = events s"
  "mailboxes (upd_mb i f_mb s) = (mailboxes s)(i := f_mb (mailboxes s i))" "mqs (upd_mb i f_mb s) = mqs s"
  "threads (upd_mq i f_mq s) = threads s" "thread_lists (upd_mq i f_mq s) = thread_lists s"
  "rt_current_thread (upd_mq i f_mq s) = rt_current_thread s"
  "rt_scheduler_lock_nest (upd_mq i f_mq s) = rt_scheduler_lock_nest s" "rt_tick (upd_mq i f_mq s) = rt_tick s"
  "rt_interrupt_nest (upd_mq i f_mq s) = rt_interrupt_nest s"
  "rt_thread_ready_priority_group (upd_mq i f_mq s) = rt_thread_ready_priority_group s"
  "timers (upd_mq i f_mq s) = timers s" "timer_lists (upd_mq i f_mq s) = timer_lists s" "sems (upd_mq i f_mq s) = sems s"
  "mutexes (upd_mq i f_mq s) = mutexes s" "events (upd_mq i f_mq s) = events s"
  "mailboxes (upd_mq i f_mq s) = mailboxes s" "mqs (upd_mq i f_mq s) = (mqs s)(i := f_mq (mqs s i))"
  by (simp_all add: upd_sem_def upd_mutex_def upd_event_def upd_mb_def upd_mq_def)

lemma operational_cong:
  assumes "threads s' = threads s" "thread_lists s' = thread_lists s" "rt_current_thread s' = rt_current_thread s"
    "rt_thread_ready_priority_group s' = rt_thread_ready_priority_group s" "timers s' = timers s" "timer_lists s' = timer_lists s"
    "rt_tick s' = rt_tick s" "rt_scheduler_lock_nest s' = rt_scheduler_lock_nest s"
  shows "operational s' = operational s"
proof -
  have "kernel_inv s' = kernel_inv s" by (rule kernel_inv_cong) (rule assms)+
  moreover have "quiet s' = quiet s" by (rule quiet_cong) (rule assms)+
  ultimately show ?thesis by (simp add: operational_def cur_running_def assms)
qed

lemma operational_upd [simp]:
  "operational (upd_sem i f_sem s) = operational s" "operational (upd_mutex i f_mutex s) = operational s"
  "operational (upd_event i f_event s) = operational s" "operational (upd_mb i f_mb s) = operational s"
  "operational (upd_mq i f_mq s) = operational s"
  by (rule operational_cong; simp)+

lemma same_objects:
  fixes s s' :: ipc
  assumes "kernel.more s' = kernel.more s"
  shows "sems s' = sems s" "mutexes s' = mutexes s" "events s' = events s" "mailboxes s' = mailboxes s" "mqs s' = mqs s"
  using assms by (cases s; cases s'; simp)+

lemma kept_objects:
  fixes s s' :: ipc
  assumes "kept s s'"
  shows "sems s' = sems s" "mutexes s' = mutexes s" "events s' = events s" "mailboxes s' = mailboxes s" "mqs s' = mqs s"
  using same_objects [of s' s] assms by (simp_all add: kept_def)

lemma kept_list:
  assumes "kept s s'" "wait_list l"
  shows "set (thread_lists s' l) \<subseteq> set (thread_lists s l)"
    "t \<in> set (thread_lists s' l) \<Longrightarrow> same_wait (threads s t) (threads s' t)"
  using assms unfolding kept_def by fastforce+

text \<open>A thread that may wait for an object.\<close>

definition may_wait :: "tid \<Rightarrow> 'a kernel_scheme \<Rightarrow> bool" where
  "may_wait t s \<longleftrightarrow> rt_current_thread s = Some t \<and> t \<noteq> idle \<and> scheduler_available s"

lemma may_wait_D:
  assumes "may_wait t s"
  shows "rt_current_thread s = Some t" "t \<noteq> idle" "rt_scheduler_lock_nest s = 0" "scheduler_available s" "thread_context s"
  using assms by (simp_all add: may_wait_def scheduler_available_def rt_critical_level_def)

lemma may_wait_upd [simp]:
  "may_wait u (upd_thread t f s) = may_wait u s" "scheduler_available (upd_thread t f s) = scheduler_available s"
  "thread_context (upd_thread t f s) = thread_context s"
  by (simp_all add: may_wait_def scheduler_available_def rt_critical_level_def thread_context_def)

lemma thread_context_objects [simp]:
  "scheduler_available (upd_sem i f_sem s) = scheduler_available s" "thread_context (upd_sem i f_sem s) = thread_context s"
  "scheduler_available (upd_mutex i f_mutex s) = scheduler_available s" "thread_context (upd_mutex i f_mutex s) = thread_context s"
  "scheduler_available (upd_event i f_event s) = scheduler_available s" "thread_context (upd_event i f_event s) = thread_context s"
  "scheduler_available (upd_mb i f_mb s) = scheduler_available s" "thread_context (upd_mb i f_mb s) = thread_context s"
  "scheduler_available (upd_mq i f_mq s) = scheduler_available s" "thread_context (upd_mq i f_mq s) = thread_context s"
  by (simp_all add: scheduler_available_def rt_critical_level_def thread_context_def)

definition good_timeout :: "u32 \<Rightarrow> bool" where
  "good_timeout v \<longleftrightarrow> (0 < sint v \<longrightarrow> v < TICK_HALF)"

text \<open>The current thread \<open>t\<close> waits in the list \<open>l\<close>; its error is cleared first.\<close>

definition waits_in :: "list_id \<Rightarrow> tid \<Rightarrow> ipc_flag \<Rightarrow> u32 \<Rightarrow> 'a kernel_scheme \<Rightarrow> 'a kernel_scheme \<Rightarrow> bool" where
  "waits_in l t flag timeout s s' \<longleftrightarrow>
     operational s' \<and> settled s' \<and> stat (threads s' t) = RT_THREAD_SUSPEND \<and> error (threads s' t) = RT_EOK \<and>
     thread_lists s' l = wait_place flag (threads s) t (thread_lists s l) \<and>
     (\<forall>m. wait_list m \<longrightarrow> m \<noteq> l \<longrightarrow> thread_lists s' m = thread_lists s m) \<and>
     (\<forall>u. u \<noteq> t \<longrightarrow> same_wait (threads s u) (threads s' u) \<and> runnable (threads s' u) = runnable (threads s u)) \<and>
     (0 < sint timeout \<longrightarrow> asleep t (rt_tick s + timeout) s') \<and>
     (\<forall>u. current_priority (threads s' u) = current_priority (threads s u)) \<and>
     rt_tick s' = rt_tick s \<and> kernel.more s' = kernel.more s \<and> rt_interrupt_nest s' = rt_interrupt_nest s \<and>
     rt_scheduler_lock_nest s' = rt_scheduler_lock_nest s"

text \<open>A change of the current thread's data.\<close>

definition current_data :: "(rt_thread \<Rightarrow> rt_thread) \<Rightarrow> bool" where
  "current_data f \<longleftrightarrow> (\<forall>th. tlist (f th) = tlist th \<and> stat (f th) = stat th \<and> current_priority (f th) = current_priority th \<and>
     number_mask (f th) = number_mask th)"

lemma current_data_calm:
  assumes op: "operational s" and c: "rt_current_thread s = Some t" and f: "current_data f"
  shows "calm {} s (upd_thread t f s)"
proof (rule calm_upd [OF op])
  show "kernel_inv (upd_thread t f s)" by (rule kernel_inv_upd) (use op f in \<open>simp_all add: operational_def current_data_def\<close>)
qed (use op c f in \<open>auto simp: operational_def cur_running_def current_data_def\<close>)

lemma operational_data:
  assumes op: "operational s" and f: "current_data f"
  shows "operational (upd_thread t f s)"
proof -
  have "kernel_inv (upd_thread t f s)" by (rule kernel_inv_upd) (use op f in \<open>simp_all add: operational_def current_data_def\<close>)
  moreover have "cur_running (upd_thread t f s)"
    using op f by (subst cur_running_upd) (simp_all add: operational_def current_data_def)
  ultimately show ?thesis using op same_timers_quiet [of s "upd_thread t f s"] by (simp add: operational_def)
qed

lemma wait_place_cong:
  "(\<And>u. current_priority (ts u) = current_priority (ts' u)) \<Longrightarrow> wait_place flag ts t xs = wait_place flag ts' t xs"
  using prio_place_cong [of ts ts'] by (cases flag) (simp_all add: wait_place_def)

lemma wait_on_in:
  assumes op: "operational s" and t: "may_wait t s" and l: "wait_list l" and v: "good_timeout timeout"
    and f: "current_data f" "error (f (threads s t)) = RT_EOK"
  shows "\<exists>s'. wait_on l t flag timeout (upd_thread t f s) = Some s' \<and> waits_in l t flag timeout s s' \<and>
    event_set (threads s' t) = event_set (f (threads s t)) \<and> event_info (threads s' t) = event_info (f (threads s t))"
proof -
  note m = may_wait_D [OF t]
  let ?s1 = "upd_thread t f s"
  have c1: "calm {} s ?s1" using current_data_calm [OF op m(1) f(1)] .
  then have op1: "operational ?s1" by (simp add: calm_def)
  have v1: "0 < sint timeout \<longrightarrow> timeout < TICK_HALF" using v by (simp add: good_timeout_def)
  have "rt_current_thread ?s1 = Some t" "rt_scheduler_lock_nest ?s1 = 0" using m(1,3) by simp_all
  from wait_on_ok [OF op1 this(1) m(2) this(2) l v1, of flag] obtain s' where s': "wait_on l t flag timeout ?s1 = Some s'"
    "operational s'" "settled s'" "waits t ((thread_lists ?s1)(l := wait_place flag (threads ?s1) t (thread_lists ?s1 l))) ?s1 s'"
    "0 < sint timeout \<longrightarrow> asleep t (rt_tick ?s1 + timeout) s'" by blast
  have p: "wait_place flag (threads ?s1) t xs = wait_place flag (threads s) t xs" for xs
    using f(1) by (intro wait_place_cong) (simp add: current_data_def)
  have data: "same_data (threads ?s1 u) (threads s' u)" "error (threads s' u) = error (threads ?s1 u)" for u
    using s'(4) by (simp_all add: waits_def)
  have "thread_lists s' m = (if m = l then wait_place flag (threads s) t (thread_lists s l) else thread_lists s m)" if "wait_list m" for m
    using s'(4) that p by (simp add: waits_def wait_list_def)
  moreover have "same_wait (threads s u) (threads s' u) \<and> runnable (threads s' u) = runnable (threads s u)" if "u \<noteq> t" for u
  proof -
    have "threads ?s1 u = threads s u" using that by simp
    then show ?thesis using data [of u] that s'(4) by (simp add: same_data_wait waits_def)
  qed
  moreover have "current_priority (threads s' u) = current_priority (threads s u)" for u
    using data(1) [of u] f(1) by (simp add: same_data_def current_data_def)
  moreover have "error (threads s' t) = RT_EOK" using data(2) [of t] f(2) by simp
  ultimately have "waits_in l t flag timeout s s'"
    using s' l by (simp add: waits_in_def) (simp add: waits_def)
  moreover have "event_set (threads s' t) = event_set (f (threads s t))" "event_info (threads s' t) = event_info (f (threads s t))"
    using data(1) [of t] by (simp_all add: same_data_def)
  ultimately show ?thesis using s'(1) by blast
qed

lemma waits_in_list:
  assumes "waits_in l t flag timeout s s'" "wait_list m"
  shows "set (thread_lists s' m) = (if m = l then insert t (set (thread_lists s l)) else set (thread_lists s m))"
  using assms by (auto simp: waits_in_def wait_place_set)

subsection \<open>Frames\<close>

text \<open>
  The lists but for \<open>K\<close> may lose threads, and the threads that stay in one wait for the same. A thread that has come
  into a list of \<open>K\<close> has no error.
\<close>

definition spares :: "list_id set \<Rightarrow> 'a kernel_scheme \<Rightarrow> 'a kernel_scheme \<Rightarrow> bool" where
  "spares K s s' \<longleftrightarrow>
     (\<forall>l. wait_list l \<longrightarrow>
       (l \<notin> K \<longrightarrow> set (thread_lists s' l) \<subseteq> set (thread_lists s l) \<and> (\<forall>t \<in> set (thread_lists s' l). same_wait (threads s t) (threads s' t))) \<and>
       (\<forall>t \<in> set (thread_lists s' l). error (threads s' t) = RT_EOK \<or>
          t \<in> set (thread_lists s l) \<and> error (threads s' t) = error (threads s t)))"

lemma sparesI:
  assumes "\<And>l t. wait_list l \<Longrightarrow> l \<notin> K \<Longrightarrow> t \<in> set (thread_lists s' l) \<Longrightarrow> t \<in> set (thread_lists s l) \<and> same_wait (threads s t) (threads s' t)"
    "\<And>l t. wait_list l \<Longrightarrow> l \<in> K \<Longrightarrow> t \<in> set (thread_lists s' l) \<Longrightarrow>
      error (threads s' t) = RT_EOK \<or> t \<in> set (thread_lists s l) \<and> error (threads s' t) = error (threads s t)"
  shows "spares K s s'"
  unfolding spares_def
proof (intro allI impI conjI subsetI ballI)
  show "error (threads s' t) = RT_EOK \<or> t \<in> set (thread_lists s l) \<and> error (threads s' t) = error (threads s t)"
    if "wait_list l" "t \<in> set (thread_lists s' l)" for l t
    using assms(1) [of l t] assms(2) [of l t] that by (cases "l \<in> K") (simp_all add: same_wait_def)
qed (use assms(1) in blast)+

lemma spares_refl: "spares K s s" by (simp add: spares_def)

lemma sparesD:
  assumes "spares K s s'" "wait_list l" "t \<in> set (thread_lists s' l)"
  shows "l \<notin> K \<Longrightarrow> t \<in> set (thread_lists s l)" "l \<notin> K \<Longrightarrow> same_wait (threads s t) (threads s' t)"
    "error (threads s' t) = RT_EOK \<or> t \<in> set (thread_lists s l) \<and> error (threads s' t) = error (threads s t)"
  using assms unfolding spares_def by blast+

lemma spares_trans:
  assumes "spares K s s'" "spares K s' s''"
  shows "spares K s s''"
proof (rule sparesI)
  fix l t assume l: "wait_list l" "t \<in> set (thread_lists s'' l)"
  { assume K: "l \<notin> K"
    have t': "t \<in> set (thread_lists s' l)" "same_wait (threads s' t) (threads s'' t)" using sparesD [OF assms(2) l] K by blast+
    then show "t \<in> set (thread_lists s l) \<and> same_wait (threads s t) (threads s'' t)"
      using sparesD [OF assms(1) l(1) t'(1)] K by (simp add: same_wait_def) }
  show "error (threads s'' t) = RT_EOK \<or> t \<in> set (thread_lists s l) \<and> error (threads s'' t) = error (threads s t)"
    using sparesD(3) [OF assms(2) l] sparesD(3) [OF assms(1) l(1)] by metis
qed

lemma spares_more: "spares K s s' \<Longrightarrow> K \<subseteq> L \<Longrightarrow> spares L s s'"
  by (rule sparesI) (use sparesD in blast)+

lemma spares_cong:
  "threads s1 = threads s \<Longrightarrow> thread_lists s1 = thread_lists s \<Longrightarrow> spares K s1 s' = spares K s s'"
  "threads s1 = threads s \<Longrightarrow> thread_lists s1 = thread_lists s \<Longrightarrow> spares K s' s1 = spares K s' s"
  by (simp_all add: spares_def)

lemma spares_kept:
  assumes "kept s s'"
  shows "spares K s s'"
proof (rule sparesI)
  fix l t assume "wait_list l" "t \<in> set (thread_lists s' l)"
  then have "t \<in> set (thread_lists s l)" "same_wait (threads s t) (threads s' t)" using kept_list [OF assms] by blast+
  then show "t \<in> set (thread_lists s l) \<and> same_wait (threads s t) (threads s' t)"
    "error (threads s' t) = RT_EOK \<or> t \<in> set (thread_lists s l) \<and> error (threads s' t) = error (threads s t)"
    by (simp_all add: same_wait_def)
qed

lemma spares_waits:
  assumes w: "waits_in l t flag timeout s s'" and st: "stat (threads s t) \<noteq> RT_THREAD_SUSPEND" and op: "operational s"
  shows "spares {l} s s'"
proof (rule sparesI)
  fix m u assume m: "wait_list m" "u \<in> set (thread_lists s' m)"
  have same: "same_wait (threads s u) (threads s' u)" if "u \<noteq> t" using w that by (simp add: waits_in_def)
  { assume "m \<notin> {l}"
    then have u: "u \<in> set (thread_lists s m)" using w m by (simp add: waits_in_def)
    then have "u \<noteq> t" using waiting_suspended(1) [OF op m(1), of u] st by auto
    then show "u \<in> set (thread_lists s m) \<and> same_wait (threads s u) (threads s' u)" using u same by blast }
  assume "m \<in> {l}"
  then have "u = t \<or> u \<in> set (thread_lists s m)" using waits_in_list [OF w m(1)] m(2) by auto
  then show "error (threads s' u) = RT_EOK \<or> u \<in> set (thread_lists s m) \<and> error (threads s' u) = error (threads s u)"
    using same w by (cases "u = t") (simp_all add: waits_in_def same_wait_def)
qed

text \<open>No thread that waits for an object has an error.\<close>

definition wait_ok :: "'a kernel_scheme \<Rightarrow> bool" where
  "wait_ok s \<longleftrightarrow> (\<forall>l. wait_list l \<longrightarrow> (\<forall>t \<in> set (thread_lists s l). error (threads s t) = RT_EOK))"

lemma wait_okD: "wait_ok s \<Longrightarrow> wait_list l \<Longrightarrow> t \<in> set (thread_lists s l) \<Longrightarrow> error (threads s t) = RT_EOK"
  by (simp add: wait_ok_def)

lemma wait_ok_spares: "wait_ok s \<Longrightarrow> spares K s s' \<Longrightarrow> wait_ok s'"
  unfolding wait_ok_def using sparesD(3) by metis

text \<open>The end of a call that has woken threads.\<close>

definition woken :: "tid set \<Rightarrow> 'a kernel_scheme \<Rightarrow> 'a kernel_scheme \<Rightarrow> bool" where
  "woken W s s' \<longleftrightarrow> operational s' \<and> wakes W s s' \<and> (rt_scheduler_lock_nest s = 0 \<longrightarrow> settled s')"

lemma schedule_ok:
  assumes "operational s"
  shows "\<exists>s'. rt_schedule s = Some s' \<and> woken {} s s'"
proof -
  note o = operational_D [OF assms]
  obtain s' where s': "rt_schedule s = Some s'" "kernel_inv s'" "wakes {} s s'" "rt_scheduler_lock_nest s = 0 \<longrightarrow> settled s'"
    "cur_running s \<longrightarrow> sound s'"
    using rt_schedule_kernel [OF o(1)] by blast
  have "operational s'" using wakes_operational [OF assms s'(2,3)] s'(5) o(3) sound_running by blast
  then show ?thesis using s' by (simp add: woken_def)
qed

lemma woken_D:
  assumes "woken W s s'"
  shows "operational s'" "wakes W s s'" "kept s s'" "spares K s s'"
    "\<And>l. wait_list l \<Longrightarrow> thread_lists s' l = filter (\<lambda>t. t \<notin> W) (thread_lists s l)"
    "\<And>t. t \<in> W \<Longrightarrow> runnable (threads s' t)" "\<And>t. t \<notin> W \<Longrightarrow> error (threads s' t) = error (threads s t)"
  using assms kept_wakes [of W s s'] spares_kept [of s s' K] by (simp_all add: woken_def wakes_def wait_list_def)

lemma wakes_emptied: "wakes W s s' \<Longrightarrow> wait_list l \<Longrightarrow> set (thread_lists s l) \<subseteq> W \<Longrightarrow> thread_lists s' l = []"
  by (auto simp: wakes_def wait_list_def filter_empty_conv)

lemma woken_schedule: "wakes V s s1 \<Longrightarrow> woken {} s1 s' \<Longrightarrow> woken V s s'"
  using wakes_trans [of V s s1 "{}" s'] by (simp add: woken_def) (simp add: wakes_def)

lemma wake_first_woken:
  assumes op: "operational s" and l: "wait_list l" and u: "thread_lists s l = u # us"
  shows "\<exists>s'. wake_first l s = Some s' \<and> woken {u} s s' \<and> thread_lists s' l = us \<and> error (threads s' u) = error (threads s u)"
proof -
  obtain s' where s': "wake_first l s = Some s'" "operational s'" "wakes {u} s s'" "error (threads s' u) = error (threads s u)"
    "rt_scheduler_lock_nest s = 0 \<longrightarrow> settled s'"
    using wake_first_ok [OF op l] u by auto
  have "u \<notin> set us" using waiting_distinct [OF op, of l] u by simp
  then have "filter (\<lambda>t. t \<notin> {u}) (u # us) = us" by (auto simp: filter_id_conv)
  then have us: "thread_lists s' l = us" using s'(3) u l by (simp add: wakes_def wait_list_def)
  show ?thesis using s' us by (simp add: woken_def)
qed

lemma may_wait_running: "operational s \<Longrightarrow> may_wait t s \<Longrightarrow> stat (threads s t) \<noteq> RT_THREAD_SUSPEND"
  by (auto simp: operational_def may_wait_def cur_running_def)

text \<open>An object that nobody waits for can be initialised.\<close>

lemma ipc_object_init_ok: "thread_lists s l = [] \<Longrightarrow> ipc_object_init l s = Some s"
  by (simp add: ipc_object_init_def fun_upd_idem)

lemma more_upd_thread [simp]: "kernel.more (upd_thread t f s) = kernel.more s" by (simp add: upd_thread_def)

lemma objects_upd_thread [simp]:
  "sems (upd_thread t f s) = sems s" "mutexes (upd_thread t f s) = mutexes s" "events (upd_thread t f s) = events s"
  "mailboxes (upd_thread t f s) = mailboxes s" "mqs (upd_thread t f s) = mqs s"
  by (simp_all add: upd_thread_def)

lemma error_upd:
  assumes "operational s" "rt_current_thread s = Some t"
  shows "operational (upd_thread t (\<lambda>th. th\<lparr>error := e\<rparr>) s)" "spares K s (upd_thread t (\<lambda>th. th\<lparr>error := e\<rparr>) s)"
proof -
  have "calm {} s (upd_thread t (\<lambda>th. th\<lparr>error := e\<rparr>) s)"
    by (rule current_data_calm [OF assms]) (simp add: current_data_def)
  then show "operational (upd_thread t (\<lambda>th. th\<lparr>error := e\<rparr>) s)" "spares K s (upd_thread t (\<lambda>th. th\<lparr>error := e\<rparr>) s)"
    using spares_kept by (auto simp: calm_def)
qed

lemma running_priority:
  assumes "operational s" "stat (threads s t) \<noteq> RT_THREAD_INIT"
  shows "unat (current_priority (threads s t)) < 32"
  using sched_inv_D(4) [OF kernel_inv_D(1) [OF operational_D(1) [OF assms(1)]], of t] assms(2) by (simp add: thread_ok_def prio_ok_def)

lemma prio_place_cong_set:
  "(\<And>u. u \<in> insert t (set xs) \<Longrightarrow> current_priority (ts u) = current_priority (ts' u)) \<Longrightarrow> prio_place ts t xs = prio_place ts' t xs"
  by (induction xs) auto

lemma upd_thread_id [simp]: "upd_thread t (\<lambda>th. th) s = s" by (simp add: upd_thread_def)

subsection \<open>Waiting for a message, and the end of a call that makes one thread's message or room\<close>

definition head_woken :: "list_id \<Rightarrow> 'a kernel_scheme \<Rightarrow> 'a kernel_scheme \<Rightarrow> bool" where
  "head_woken l s s' \<longleftrightarrow>
     (case thread_lists s l of
        [] \<Rightarrow> threads s' = threads s \<and> thread_lists s' = thread_lists s \<and> rt_current_thread s' = rt_current_thread s
      | u # us \<Rightarrow> thread_lists s' l = us \<and> runnable (threads s' u) \<and> error (threads s' u) = error (threads s u) \<and>
          (rt_scheduler_lock_nest s = 0 \<longrightarrow> settled s'))"

lemma wake_first_head:
  assumes op: "operational s" and l: "wait_list l"
  shows "\<exists>s'. wake_first l s = Some s' \<and> operational s' \<and> kept s s' \<and> head_woken l s s'"
proof (cases "thread_lists s l")
  case Nil
  then show ?thesis using op by (simp add: wake_first_def head_woken_def)
next
  case (Cons u us)
  obtain s' where s': "wake_first l s = Some s'" "woken {u} s s'" "thread_lists s' l = us" "error (threads s' u) = error (threads s u)"
    using wake_first_woken [OF op l Cons] by blast
  then show ?thesis using woken_D [OF s'(2)] Cons by (simp add: head_woken_def woken_def)
qed

lemma msg_stored_ok:
  assumes "operational s" "wait_list l"
  shows "\<exists>s'. msg_stored l True s = Some (RT_EOK, s') \<and> operational s' \<and> kept s s' \<and> head_woken l s s'"
  using wake_first_head [OF assms] by (auto simp: msg_stored_def)

lemma wait_clear_ok:
  assumes op: "operational s" and t: "may_wait t s" "good_timeout timeout" and l: "wait_list l"
  shows "\<exists>s'. wait_on l t flag timeout (upd_thread t (\<lambda>th. th\<lparr>error := RT_EOK\<rparr>) s) = Some s' \<and> waits_in l t flag timeout s s' \<and>
    spares {l} s s'"
proof -
  obtain s' where s': "wait_on l t flag timeout (upd_thread t (\<lambda>th. th\<lparr>error := RT_EOK\<rparr>) s) = Some s'" "waits_in l t flag timeout s s'"
    using wait_on_in [OF op t(1) l t(2), of "\<lambda>th. th\<lparr>error := RT_EOK\<rparr>"] by (auto simp: current_data_def)
  then show ?thesis using spares_waits [OF s'(2) may_wait_running [OF op t(1)] op] by blast
qed

text \<open>An attempt waits, or it gives up, or it is done; \<open>l\<close> is where it waits.\<close>

definition msg_waits :: "list_id \<Rightarrow> tid \<Rightarrow> ipc_flag \<Rightarrow> u32 \<Rightarrow> int \<Rightarrow> 'v msg_result \<Rightarrow> ipc \<Rightarrow> ipc \<Rightarrow> bool" where
  "msg_waits l t flag timeout e r s s' \<longleftrightarrow>
     (if timeout = 0 then r = Done e None \<and> thread_lists s' = thread_lists s
      else r = Pending timeout (rt_tick s) \<and> waits_in l t flag timeout s s')"

lemma sint_neg_half: "v < TICK_HALF \<Longrightarrow> \<not> sint v < 0" for v :: u32
  by (simp add: TICK_HALF sint_neg_u32 word_less_nat_alt)

text \<open>What is left of a timeout that has not run out.\<close>

lemma time_left_good:
  assumes v: "good_timeout timeout" and d: "0 < sint timeout \<longrightarrow> rt_tick s - tick \<le> timeout"
  shows "good_timeout (time_left timeout tick s)"
    "0 < sint timeout \<Longrightarrow> unat (time_left timeout tick s) = unat timeout - unat (rt_tick s - tick)"
proof -
  have pos: "unat (time_left timeout tick s) = unat timeout - unat (rt_tick s - tick) \<and> time_left timeout tick s < TICK_HALF"
    if "0 < sint timeout"
  proof -
    let ?r = "timeout - (rt_tick s - tick)"
    have r: "unat ?r = unat timeout - unat (rt_tick s - tick)" using d that by (intro unat_sub_le) simp
    have half: "timeout < TICK_HALF" using v that by (simp add: good_timeout_def)
    then have lt: "?r < TICK_HALF" using r by (simp add: word_less_nat_alt)
    then have "\<not> sint ?r < 0" by (simp add: sint_neg_half)
    then show ?thesis using that r lt by (simp add: time_left_def Let_def)
  qed
  show "0 < sint timeout \<Longrightarrow> unat (time_left timeout tick s) = unat timeout - unat (rt_tick s - tick)" using pos by simp
  show "good_timeout (time_left timeout tick s)"
  proof (cases "0 < sint timeout")
    case True
    then show ?thesis using pos by (simp add: good_timeout_def)
  next
    case False
    then show ?thesis by (simp add: good_timeout_def time_left_def)
  qed
qed

subsection \<open>Waking everybody in two lists\<close>

lemma resume_both_ok:
  assumes op: "operational s" and l: "wait_list l" "wait_list m"
  shows "\<exists>s1 s2. ipc_list_resume_all l s = Some s1 \<and> ipc_list_resume_all m s1 = Some s2 \<and> operational s2 \<and>
    wakes (set (thread_lists s l) \<union> set (thread_lists s m)) s s2 \<and> thread_lists s2 l = [] \<and> thread_lists s2 m = [] \<and>
    (\<forall>t \<in> set (thread_lists s l) \<union> set (thread_lists s m). runnable (threads s2 t) \<and> error (threads s2 t) = - RT_ERROR)"
proof -
  let ?L = "set (thread_lists s l)"
  obtain s1 where s1: "ipc_list_resume_all l s = Some s1" "operational s1" "wakes ?L s s1"
    "\<forall>t \<in> ?L. error (threads s1 t) = - RT_ERROR"
    using ipc_list_resume_all_ok [OF op l(1)] by blast
  obtain s2 where s2: "ipc_list_resume_all m s1 = Some s2" "operational s2" "wakes (set (thread_lists s1 m)) s1 s2"
    "\<forall>t \<in> set (thread_lists s1 m). error (threads s2 t) = - RT_ERROR"
    using ipc_list_resume_all_ok [OF s1(2) l(2)] by blast
  have m1: "thread_lists s1 m = filter (\<lambda>t. t \<notin> ?L) (thread_lists s m)" using s1(3) l(2) by (simp add: wakes_def wait_list_def)
  have l1: "thread_lists s1 l = []" by (rule wakes_emptied [OF s1(3) l(1)]) simp
  have u: "?L \<union> set (thread_lists s1 m) = ?L \<union> set (thread_lists s m)" unfolding m1 by auto
  have w: "wakes (?L \<union> set (thread_lists s m)) s s2" using wakes_trans [OF s1(3) s2(3)] unfolding u .
  have "thread_lists s2 l = []" "thread_lists s2 m = []" by (rule wakes_emptied [OF w]; use l in simp)+
  moreover have "error (threads s2 t) = - RT_ERROR" if "t \<in> ?L \<union> set (thread_lists s m)" for t
  proof (cases "t \<in> set (thread_lists s1 m)")
    case True
    then show ?thesis using s2(4) by blast
  next
    case False
    then have "t \<in> ?L" using that m1 by auto
    then show ?thesis using s1(4) s2(3) False by (simp add: wakes_def)
  qed
  ultimately show ?thesis using s1(1) s2(1,2) w by (auto simp: wakes_def)
qed

lemma more_wakes: "wakes W s s' \<Longrightarrow> kernel.more s' = kernel.more s" by (simp add: wakes_def)

definition received :: "'v msg_result \<Rightarrow> 'v option" where
  "received r = (case r of Done _ v \<Rightarrow> v | Pending _ _ \<Rightarrow> None)"

lemma errors_differ [simp]: "- RT_EFULL \<noteq> RT_EOK" "- RT_ETIMEOUT \<noteq> RT_EOK" by (simp_all add: RT_EFULL_def RT_ETIMEOUT_def RT_EOK_def)

end
