(* ===== verification/Ipc_Sem.thy ===== *)
theory Ipc_Sem
  imports Ipc_Frame
begin

text \<open>
  Semaphores: nobody waits while there is something to take, and the effect of every call.
\<close>

subsection \<open>Semaphores\<close>

text \<open>When there is something to take, nobody waits for it.\<close>

definition sem_ok :: "nat \<Rightarrow> ipc \<Rightarrow> bool" where
  "sem_ok i s \<longleftrightarrow> (thread_lists s (Sem i) \<noteq> [] \<longrightarrow> sem_value (sems s i) = 0)"

lemma sem_ok_sub:
  assumes "sem_ok i s" "set (thread_lists s' (Sem i)) \<subseteq> set (thread_lists s (Sem i))" "sems s' i = sems s i"
  shows "sem_ok i s'"
  using assms by (auto simp: sem_ok_def)

text \<open>What a call for the semaphore \<open>i\<close> leaves as it is.\<close>

definition sem_step :: "nat \<Rightarrow> ipc \<Rightarrow> ipc \<Rightarrow> bool" where
  "sem_step i s s' \<longleftrightarrow> operational s' \<and> spares {Sem i} s s' \<and> sem_ok i s' \<and>
     kernel.more s' = kernel.more (upd_sem i (\<lambda>_. sems s' i) s)"

lemma more_upd_sem: "kernel.more (upd_sem i f s) = ipc_ext ((sems s)(i := f (sems s i))) (mutexes s) (events s) (mailboxes s) (mqs s) ()"
  by (cases s) (simp add: upd_sem_def)

lemma sem_stepI:
  assumes "operational s'" "spares {Sem i} s s'" "sem_ok i s'" "kernel.more s' = kernel.more (upd_sem i f s)"
  shows "sem_step i s s'"
proof -
  have "sems s' i = f (sems s i)" using same_objects(1) [OF assms(4)] by simp
  then show ?thesis using assms by (simp add: sem_step_def more_upd_sem)
qed

lemma sem_step_upd: "operational s \<Longrightarrow> sem_ok i (upd_sem i f s) \<Longrightarrow> sem_step i s (upd_sem i f s)"
  by (rule sem_stepI) (simp_all add: spares_def)

lemma sem_step_refl: "operational s \<Longrightarrow> sem_ok i s \<Longrightarrow> sem_step i s s"
  by (rule sem_stepI [where f = "\<lambda>x. x"]) (simp_all add: spares_def upd_sem_def)

lemma rt_sem_take_ok:
  assumes op: "operational s" and ok: "sem_ok i s" and t: "timeout \<noteq> 0 \<longrightarrow> may_wait t s \<and> good_timeout timeout"
  shows "\<exists>r s'. rt_sem_take i timeout s = Some (r, s') \<and> sem_step i s s' \<and>
    (if 0 < sem_value (sems s i) then r = Returned RT_EOK \<and> s' = upd_sem i (\<lambda>m. m\<lparr>sem_value := sem_value m - 1\<rparr>) s
     else if timeout = 0 then r = Returned (- RT_ETIMEOUT) \<and> s' = s
     else r = Waiting \<and> waits_in (Sem i) t (sem_flag (sems s i)) timeout s s')"
proof -
  consider (free) "0 < sem_value (sems s i)" | (no) "sem_value (sems s i) = 0" "timeout = 0"
    | (wait) "sem_value (sems s i) = 0" "timeout \<noteq> 0"
    using word_neq_0_conv by blast
  then show ?thesis
  proof cases
    case free
    have "thread_lists s (Sem i) = []" using ok free by (auto simp: sem_ok_def)
    then have "sem_ok i (upd_sem i (\<lambda>m. m\<lparr>sem_value := sem_value m - 1\<rparr>) s)" by (simp add: sem_ok_def)
    then show ?thesis using free sem_step_upd [OF op] by (simp add: rt_sem_take_def)
  next
    case no
    then show ?thesis using sem_step_refl [OF op ok] by (simp add: rt_sem_take_def)
  next
    case wait
    then have t: "may_wait t s" "good_timeout timeout" using t by simp_all
    note m = may_wait_D [OF t(1)]
    obtain s' where s': "wait_on (Sem i) t (sem_flag (sems s i)) timeout (upd_thread t (\<lambda>th. th\<lparr>error := RT_EOK\<rparr>) s) = Some s'"
      "waits_in (Sem i) t (sem_flag (sems s i)) timeout s s'"
      using wait_on_in [OF op t(1) _ t(2), of "Sem i" "\<lambda>th. th\<lparr>error := RT_EOK\<rparr>"] by (auto simp: current_data_def)
    have e: "sems (upd_thread t f s) = sems s" for f by (simp add: upd_thread_def)
    have more: "kernel.more s' = kernel.more s" using s'(2) by (simp add: waits_in_def)
    have "sem_step i s s'"
    proof (rule sem_stepI [where f = "\<lambda>x. x"])
      show "sem_ok i s'" using wait(1) same_objects(1) [OF more] by (simp add: sem_ok_def)
      show "spares {Sem i} s s'" using spares_waits [OF s'(2) may_wait_running [OF op t(1)] op] .
      show "operational s'" using s'(2) by (simp add: waits_in_def)
      show "kernel.more s' = kernel.more (upd_sem i (\<lambda>x. x) s)" using more by (simp add: upd_sem_def)
    qed
    moreover have "rt_sem_take i timeout s = Some (Waiting, s')"
      using wait m(1,4) s'(1) by (simp add: rt_sem_take_def e)
    ultimately show ?thesis using wait s'(2) by simp
  qed
qed

lemma sem_step_woken:
  assumes w: "woken W s s'" and ok: "sem_ok i s"
  shows "sem_step i s s'"
proof -
  have more: "kernel.more s' = kernel.more s" using woken_D(2) [OF w] by (simp add: wakes_def)
  have "sem_ok i s'" using sem_ok_sub [OF ok] woken_D(5) [OF w, of "Sem i"] same_objects(1) [OF more] by auto
  then show ?thesis using woken_D(1,4) [OF w] more
    by (intro sem_stepI [where f = "\<lambda>x. x"]) (simp_all add: upd_sem_def)
qed

lemma rt_sem_release_ok:
  assumes op: "operational s" and ok: "sem_ok i s"
  shows "\<exists>r s'. rt_sem_release i s = Some (r, s') \<and> sem_step i s s' \<and>
    (case thread_lists s (Sem i) of
       u # us \<Rightarrow> r = RT_EOK \<and> woken {u} s s' \<and> thread_lists s' (Sem i) = us \<and> error (threads s' u) = error (threads s u)
     | [] \<Rightarrow> if sem_value (sems s i) = 0xffff then r = - RT_EFULL \<and> s' = s
         else r = RT_EOK \<and> s' = upd_sem i (\<lambda>m. m\<lparr>sem_value := sem_value m + 1\<rparr>) s)"
proof (cases "thread_lists s (Sem i)")
  case Nil
  have "sem_value (sems s i) < RT_SEM_VALUE_MAX \<longleftrightarrow> sem_value (sems s i) \<noteq> 0xffff"
    by (simp add: RT_SEM_VALUE_MAX_def below_max16)
  moreover have "sem_ok i (upd_sem i f s)" for f using Nil by (simp add: sem_ok_def)
  ultimately show ?thesis using Nil sem_step_upd [OF op] sem_step_refl [OF op ok] by (simp add: rt_sem_release_def)
next
  case (Cons u us)
  obtain s' where s': "wake_first (Sem i) s = Some s'" "woken {u} s s'" "thread_lists s' (Sem i) = us"
    "error (threads s' u) = error (threads s u)"
    using wake_first_woken [OF op _ Cons] by auto
  have "rt_sem_release i s = Some (RT_EOK, s')"
    using Cons s'(1) by (auto simp: rt_sem_release_def wake_first_def split: Option.bind_splits)
  then show ?thesis using Cons s' sem_step_woken [OF s'(2) ok] by simp
qed

text \<open>A reset wakes everybody with an error.\<close>

lemma rt_sem_control_ok:
  assumes op: "operational s"
  shows "\<exists>s'. rt_sem_control i RT_IPC_CMD_RESET v s = Some (RT_EOK, s') \<and> sem_step i s s' \<and> sem_value (sems s' i) = ucast v \<and>
    thread_lists s' (Sem i) = [] \<and> (\<forall>t \<in> set (thread_lists s (Sem i)). runnable (threads s' t) \<and> error (threads s' t) = - RT_ERROR)"
proof -
  let ?W = "set (thread_lists s (Sem i))"
  let ?f = "\<lambda>m. m\<lparr>sem_value := ucast v\<rparr>"
  obtain s1 where s1: "ipc_list_resume_all (Sem i) s = Some s1" "operational s1" "wakes ?W s s1"
    "\<forall>t \<in> ?W. error (threads s1 t) = - RT_ERROR"
    using ipc_list_resume_all_ok [OF op] wait_list_simps(3) by blast
  have op2: "operational (upd_sem i ?f s1)" using s1(2) by simp
  obtain s' where s': "rt_schedule (upd_sem i ?f s1) = Some s'" "woken {} (upd_sem i ?f s1) s'" using schedule_ok [OF op2] by blast
  note w = woken_D [OF s'(2)]
  have more: "kernel.more s' = kernel.more (upd_sem i ?f s1)" using w(2) by (simp add: wakes_def)
  have e: "thread_lists s1 (Sem i) = []" by (rule wakes_emptied [OF s1(3)]) simp_all
  then have e': "thread_lists s' (Sem i) = []" using w(5) [of "Sem i"] by simp
  have o1: "sems s1 = sems s" "kernel.more s1 = kernel.more s" using s1(3) same_objects(1) [of s1 s] by (simp_all add: wakes_def)
  have "sem_step i s s'"
  proof (rule sem_stepI [where f = ?f])
    show "spares {Sem i} s s'"
      using spares_trans [OF spares_kept [OF kept_wakes [OF s1(3)]] spares_cong(1) [THEN iffD1, OF _ _ w(4)]] by simp
    show "kernel.more s' = kernel.more (upd_sem i ?f s)" using more o1 same_objects [OF o1(2)] by (simp add: more_upd_sem)
  qed (use w(1) e' in \<open>simp_all add: sem_ok_def\<close>)
  moreover have "sem_value (sems s' i) = ucast v" using same_objects(1) [OF more] by simp
  moreover have "runnable (threads s' t) \<and> error (threads s' t) = - RT_ERROR" if "t \<in> ?W" for t
    using that s1(3,4) w(2,7) by (simp add: wakes_def)
  ultimately show ?thesis using s1(1) s'(1) e' by (simp add: rt_sem_control_def)
qed

lemma rt_sem_detach_ok:
  assumes op: "operational s" and ok: "sem_ok i s"
  shows "\<exists>s'. rt_sem_detach i s = Some s' \<and> sem_step i s s' \<and> thread_lists s' (Sem i) = []"
proof -
  obtain s' where s': "ipc_list_resume_all (Sem i) s = Some s'" "operational s'" "wakes (set (thread_lists s (Sem i))) s s'"
    using ipc_list_resume_all_ok [OF op] wait_list_simps(3) by blast
  have e: "thread_lists s' (Sem i) = []" by (rule wakes_emptied [OF s'(3)]) simp_all
  have "sem_step i s s'"
    using s'(2,3) e spares_kept [OF kept_wakes [OF s'(3)]]
    by (intro sem_stepI [where f = "\<lambda>x. x"]) (simp_all add: sem_ok_def upd_sem_def wakes_def)
  then show ?thesis using s'(1) e by (simp add: rt_sem_detach_def)
qed

lemma rt_sem_init_ok:
  assumes op: "operational s" and "value < 0x10000" "thread_lists s (Sem i) = []"
  shows "\<exists>s'. rt_sem_init i value flag s = Some s' \<and> sem_step i s s' \<and> sems s' i = \<lparr>sem_value = ucast value, sem_flag = flag\<rparr>"
proof -
  have "ipc_object_init (Sem i) s = Some s" by (rule ipc_object_init_ok [OF assms(3)])
  then show ?thesis using assms sem_step_upd [OF op, of i] by (simp add: rt_sem_init_def sem_ok_def)
qed

end
