(* ===== verification/Ipc_Mutex.thy ===== *)
theory Ipc_Mutex
  imports Ipc_Frame
begin

text \<open>
  Mutexes: the owner and those who wait for it, the priority the owner inherits, and the effect of every call.
\<close>

subsection \<open>The invariant\<close>

text \<open>A mutex is free, with nobody waiting, or held by its owner, who does not wait for it.\<close>

definition mutex_ok :: "nat \<Rightarrow> ipc \<Rightarrow> bool" where
  "mutex_ok i s \<longleftrightarrow>
     (let m = mutexes s i in
      case mutex_owner m of
        None \<Rightarrow> mutex_value m = 1 \<and> mutex_hold m = 0 \<and> thread_lists s (Mutex i) = []
      | Some t \<Rightarrow> mutex_value m = 0 \<and> mutex_hold m \<noteq> 0 \<and> unat (original_priority m) < 32 \<and> t \<notin> set (thread_lists s (Mutex i)))"

lemma mutex_ok_free:
  "mutex_owner (mutexes s i) = None \<Longrightarrow>
    mutex_ok i s \<longleftrightarrow> mutex_value (mutexes s i) = 1 \<and> mutex_hold (mutexes s i) = 0 \<and> thread_lists s (Mutex i) = []"
  by (simp add: mutex_ok_def Let_def)

lemma mutex_ok_held:
  "mutex_owner (mutexes s i) = Some t \<Longrightarrow>
    mutex_ok i s \<longleftrightarrow> mutex_value (mutexes s i) = 0 \<and> mutex_hold (mutexes s i) \<noteq> 0 \<and> unat (original_priority (mutexes s i)) < 32 \<and>
      t \<notin> set (thread_lists s (Mutex i))"
  by (simp add: mutex_ok_def Let_def)

lemma mutex_ok_cong:
  assumes "thread_lists s' (Mutex i) = thread_lists s (Mutex i)" "mutexes s' i = mutexes s i"
  shows "mutex_ok i s' = mutex_ok i s"
  unfolding mutex_ok_def assms ..

lemma mutex_ok_sub:
  assumes "mutex_ok i s" "set (thread_lists s' (Mutex i)) \<subseteq> set (thread_lists s (Mutex i))" "mutexes s' i = mutexes s i"
  shows "mutex_ok i s'"
  using assms by (cases "mutex_owner (mutexes s i)") (auto simp: mutex_ok_free mutex_ok_held)

definition mutex_step :: "nat \<Rightarrow> ipc \<Rightarrow> ipc \<Rightarrow> bool" where
  "mutex_step i s s' \<longleftrightarrow> operational s' \<and> spares {Mutex i} s s' \<and> mutex_ok i s' \<and>
     kernel.more s' = kernel.more (upd_mutex i (\<lambda>_. mutexes s' i) s)"

lemma more_upd_mutex: "kernel.more (upd_mutex i f s) = ipc_ext (sems s) ((mutexes s)(i := f (mutexes s i))) (events s) (mailboxes s) (mqs s) ()"
  by (cases s) (simp add: upd_mutex_def)

lemma mutex_stepI:
  assumes "operational s'" "spares {Mutex i} s s'" "mutex_ok i s'" "kernel.more s' = kernel.more (upd_mutex i f s)"
  shows "mutex_step i s s'"
proof -
  have "mutexes s' i = f (mutexes s i)" using same_objects(2) [OF assms(4)] by simp
  then show ?thesis using assms by (simp add: mutex_step_def more_upd_mutex)
qed

lemma upd_mutex_same [simp]: "upd_mutex i (\<lambda>m. m) s = s" by (simp add: upd_mutex_def)

text \<open>The threads have changed as by a call of the kernel, and then the mutex.\<close>

lemma mutex_step_upd:
  assumes "operational s1" "spares {Mutex i} s s1" "kernel.more s1 = kernel.more s" "mutex_ok i (upd_mutex i f s1)"
  shows "mutex_step i s (upd_mutex i f s1)"
proof (rule mutex_stepI [where f = f])
  show "spares {Mutex i} s (upd_mutex i f s1)" using assms(2) by (simp add: spares_def)
  show "kernel.more (upd_mutex i f s1) = kernel.more (upd_mutex i f s)"
    unfolding more_upd_mutex using same_objects [OF assms(3)] by simp
qed (use assms in simp_all)

subsection \<open>Taking\<close>

text \<open>The priority of the owner while \<open>t\<close> waits.\<close>

definition inherited :: "tid \<Rightarrow> (tid \<Rightarrow> rt_thread) \<Rightarrow> tid \<Rightarrow> u8" where
  "inherited own ts t = min (current_priority (ts t)) (current_priority (ts own))"

lemma inherit_ok:
  assumes op: "operational s" and t: "stat (threads s t) \<noteq> RT_THREAD_INIT" "own \<noteq> t"
  shows "\<exists>s'. (if current_priority (threads s t) < current_priority (threads s own)
      then rt_thread_control own (Change_Priority (current_priority (threads s t))) s else Some s) = Some s' \<and>
    calm {} s s' \<and> reprioritises own (inherited own (threads s) t) s s'"
proof (cases "current_priority (threads s t) < current_priority (threads s own)")
  case True
  then show ?thesis
    using change_priority_calm [OF op running_priority [OF op t(1)], of own] by (simp add: inherited_def min_def less_imp_le)
next
  case False
  then show ?thesis using calm_refl [OF op] by (simp add: inherited_def min_def reprioritises_def)
qed

text \<open>The result of an attempt, and the state of the mutex.\<close>

definition mutex_taken :: "nat \<Rightarrow> tid \<Rightarrow> u32 \<Rightarrow> call_result \<Rightarrow> ipc \<Rightarrow> ipc \<Rightarrow> bool" where
  "mutex_taken i t timeout r s s' \<longleftrightarrow>
     (let m = mutexes s i in
      case mutex_owner m of
        None \<Rightarrow> r = Returned RT_EOK \<and>
          mutexes s' i = \<lparr>mutex_value = 0, original_priority = current_priority (threads s t), mutex_hold = 1, mutex_owner = Some t\<rparr>
      | Some own \<Rightarrow>
          if own = t then
            (if mutex_hold m = 0xff then r = Returned (- RT_EFULL) \<and> mutexes s' i = m
             else r = Returned RT_EOK \<and> mutexes s' i = m\<lparr>mutex_hold := mutex_hold m + 1\<rparr>)
          else mutexes s' i = m \<and>
            (if timeout = 0 then r = Returned (- RT_ETIMEOUT)
             else r = Waiting \<and> thread_lists s' (Mutex i) = prio_place (threads s) t (thread_lists s (Mutex i)) \<and>
               current_priority (threads s' own) = inherited own (threads s) t \<and> settled s' \<and>
               stat (threads s' t) = RT_THREAD_SUSPEND \<and> error (threads s' t) = RT_EOK \<and>
               (0 < sint timeout \<longrightarrow> asleep t (rt_tick s + timeout) s')))"

lemma mutex_wait_ok:
  assumes op: "operational s" and ok: "mutex_ok i s" and t: "may_wait t s" "good_timeout timeout" "error (threads s t) = RT_EOK"
    and own: "mutex_owner (mutexes s i) = Some own" "own \<noteq> t"
  shows "\<exists>s1 s'. (if current_priority (threads s t) < current_priority (threads s own)
      then rt_thread_control own (Change_Priority (current_priority (threads s t))) s else Some s) = Some s1 \<and>
    wait_on (Mutex i) t RT_IPC_FLAG_PRIO timeout s1 = Some s' \<and> mutex_step i s s' \<and> mutexes s' = mutexes s \<and>
    thread_lists s' (Mutex i) = prio_place (threads s) t (thread_lists s (Mutex i)) \<and>
    current_priority (threads s' own) = inherited own (threads s) t \<and> settled s' \<and>
    stat (threads s' t) = RT_THREAD_SUSPEND \<and> error (threads s' t) = RT_EOK \<and>
    (0 < sint timeout \<longrightarrow> asleep t (rt_tick s + timeout) s')"
proof -
  note m = may_wait_D [OF t(1)]
  have run: "stat (threads s t) = RT_THREAD_RUNNING" using op m(1) by (auto simp: operational_def cur_running_def)
  have notin: "t \<notin> set (thread_lists s (Mutex i))"
    using not_waiting [OF kernel_inv_D(1) [OF operational_D(1) [OF op]], of t] run by simp
  have own': "own \<notin> set (thread_lists s (Mutex i))" using ok own(1) by (simp add: mutex_ok_held)
  obtain s1 where s1: "(if current_priority (threads s t) < current_priority (threads s own)
      then rt_thread_control own (Change_Priority (current_priority (threads s t))) s else Some s) = Some s1"
    "calm {} s s1" "reprioritises own (inherited own (threads s) t) s s1"
    using inherit_ok [OF op, of t own] run own(2) by auto
  have op1: "operational s1" "kept s s1" "rt_tick s1 = rt_tick s" using s1(2) by (simp_all add: calm_def)
  have th1: "threads s1 u = threads s u" if "u \<noteq> own" for u using s1(3) that by (simp add: reprioritises_def)
  have same: "rt_current_thread s1 = rt_current_thread s" "same_timers s s1" "thread_lists s1 (Mutex i) = thread_lists s (Mutex i)"
    using s1(3) by (simp_all add: reprioritises_def)
  have t1: "may_wait t s1"
    using t(1) same(1,2) op1(2)
    by (simp add: may_wait_def scheduler_available_def rt_critical_level_def thread_context_def same_timers_def kept_def)
  have "error (threads s1 t) = RT_EOK" using th1 [of t] own(2) t(3) by simp
  then obtain s' where s': "wait_on (Mutex i) t RT_IPC_FLAG_PRIO timeout s1 = Some s'"
    "waits_in (Mutex i) t RT_IPC_FLAG_PRIO timeout s1 s'"
    using wait_on_in [OF op1(1) t1 _ t(2), of "Mutex i" "\<lambda>th. th" RT_IPC_FLAG_PRIO] by (auto simp: current_data_def)
  have place: "thread_lists s' (Mutex i) = prio_place (threads s) t (thread_lists s (Mutex i))"
  proof -
    have "prio_place (threads s1) t (thread_lists s (Mutex i)) = prio_place (threads s) t (thread_lists s (Mutex i))"
    proof (rule prio_place_cong_set)
      fix u assume "u \<in> insert t (set (thread_lists s (Mutex i)))"
      then have "u \<noteq> own" using own(2) own' by auto
      then show "current_priority (threads s1 u) = current_priority (threads s u)" using th1 by simp
    qed
    then show ?thesis using s'(2) same(3) by (simp add: waits_in_def wait_place_def)
  qed
  have more: "kernel.more s' = kernel.more s" using s'(2) op1(2) by (simp add: waits_in_def kept_def)
  have "mutex_ok i s'"
    using ok own same_objects(2) [OF more] place by (simp add: mutex_ok_held set_prio_place)
  moreover have "spares {Mutex i} s s'"
    using spares_trans [OF spares_kept [OF op1(2)] spares_waits [OF s'(2) may_wait_running [OF op1(1) t1] op1(1)]] .
  ultimately have "mutex_step i s s'"
    using s'(2) more by (intro mutex_stepI [where f = "\<lambda>m. m"]) (simp_all add: waits_in_def)
  moreover have "current_priority (threads s' own) = inherited own (threads s) t"
    using s'(2) s1(3) by (simp add: reprioritises_def waits_in_def)
  ultimately show ?thesis
    using s1(1) s' place same_objects(2) [OF more] op1(3) by (auto simp: waits_in_def)
qed

lemma rt_mutex_take_ok:
  assumes op: "operational s" and ok: "mutex_ok i s" and t: "may_wait t s" "good_timeout timeout"
  shows "\<exists>r s'. rt_mutex_take i timeout s = Some (r, s') \<and> mutex_step i s s' \<and> mutex_taken i t timeout r s s'"
proof -
  note m = may_wait_D [OF t(1)]
  let ?s0 = "upd_thread t (\<lambda>th. th\<lparr>error := RT_EOK\<rparr>) s"
  have op0: "operational ?s0" and sp0: "\<And>K. spares K s ?s0" using error_upd [OF op m(1)] by blast+
  have e0: "mutex_ok i ?s0 = mutex_ok i s" by (rule mutex_ok_cong) simp_all
  have run: "stat (threads s t) = RT_THREAD_RUNNING" using op m(1) by (auto simp: operational_def cur_running_def)
  have notin: "t \<notin> set (thread_lists s (Mutex i))"
    using not_waiting [OF kernel_inv_D(1) [OF operational_D(1) [OF op]], of t] run by simp
  show ?thesis
  proof (cases "mutex_owner (mutexes s i)")
    case None
    let ?f = "\<lambda>m. m\<lparr>mutex_value := 0, mutex_owner := Some t, original_priority := current_priority (threads s t), mutex_hold := 1\<rparr>"
    have v: "mutex_value (mutexes s i) = 1" "mutex_hold (mutexes s i) = 0" "thread_lists s (Mutex i) = []"
      using ok None by (simp_all add: mutex_ok_free)
    have "unat (current_priority (threads s t)) < 32" using running_priority [OF op] run by simp
    then have "mutex_ok i (upd_mutex i ?f ?s0)" using v by (simp add: mutex_ok_def)
    then have "mutex_step i s (upd_mutex i ?f ?s0)" using mutex_step_upd [OF op0 sp0] by simp
    moreover have "rt_mutex_take i timeout s = Some (Returned RT_EOK, upd_mutex i ?f ?s0)"
      using m(1,4) None v by (simp add: rt_mutex_take_def Let_def RT_MUTEX_HOLD_MAX_def upd_mutex_def)
    moreover have "?f (mutexes s i) =
      \<lparr>mutex_value = 0, original_priority = current_priority (threads s t), mutex_hold = 1, mutex_owner = Some t\<rparr>"
      by (cases "mutexes s i") simp
    ultimately show ?thesis using None by (simp add: mutex_taken_def Let_def)
  next
    case (Some own)
    have v: "mutex_value (mutexes s i) = 0" using ok Some by (simp add: mutex_ok_held)
    consider (again) "own = t" | (no) "own \<noteq> t" "timeout = 0" | (wait) "own \<noteq> t" "timeout \<noteq> 0" by blast
    then show ?thesis
    proof cases
      case again
      let ?f = "\<lambda>m. m\<lparr>mutex_hold := mutex_hold m + 1\<rparr>"
      show ?thesis
      proof (cases "mutex_hold (mutexes s i) = 0xff")
        case True
        have "mutex_step i s ?s0" using mutex_step_upd [OF op0 sp0, of i "\<lambda>m. m"] ok e0 by simp
        then show ?thesis
          using True again Some m(1,4) by (simp add: rt_mutex_take_def Let_def RT_MUTEX_HOLD_MAX_def mutex_taken_def)
      next
        case False
        then have "mutex_hold (mutexes s i) + 1 \<noteq> 0" by (rule below_max8_Suc)
        then have "mutex_ok i (upd_mutex i ?f ?s0)" using ok Some by (simp add: mutex_ok_def Let_def)
        then have "mutex_step i s (upd_mutex i ?f ?s0)" using mutex_step_upd [OF op0 sp0] by simp
        then show ?thesis
          using False again Some m(1,4)
          by (simp add: rt_mutex_take_def Let_def RT_MUTEX_HOLD_MAX_def below_max8 mutex_taken_def)
      qed
    next
      case no
      let ?s1 = "upd_thread t (\<lambda>th. th\<lparr>error := - RT_ETIMEOUT\<rparr>) ?s0"
      have c: "rt_current_thread ?s0 = Some t" using m(1) by simp
      have "mutex_ok i ?s1" using ok mutex_ok_cong [of ?s1 i s] by simp
      then have "mutex_step i s ?s1"
        using mutex_step_upd [OF error_upd(1) [OF op0 c] spares_trans [OF sp0 error_upd(2) [OF op0 c]], where i = i and f = "\<lambda>m. m"]
        by simp
      then show ?thesis using no Some v m(1,4) by (simp add: rt_mutex_take_def Let_def mutex_taken_def)
    next
      case wait
      have o: "mutex_owner (mutexes ?s0 i) = Some own" "error (threads ?s0 t) = RT_EOK" "may_wait t ?s0" using Some t(1) by simp_all
      have th: "current_priority (threads ?s0 u) = current_priority (threads s u)" for u by simp
      obtain s1 s' where s': "(if current_priority (threads ?s0 t) < current_priority (threads ?s0 own)
          then rt_thread_control own (Change_Priority (current_priority (threads ?s0 t))) ?s0 else Some ?s0) = Some s1"
        "wait_on (Mutex i) t RT_IPC_FLAG_PRIO timeout s1 = Some s'" "mutex_step i ?s0 s'" "mutexes s' = mutexes ?s0"
        "thread_lists s' (Mutex i) = prio_place (threads ?s0) t (thread_lists ?s0 (Mutex i))"
        "current_priority (threads s' own) = inherited own (threads ?s0) t" "settled s'"
        "stat (threads s' t) = RT_THREAD_SUSPEND" "error (threads s' t) = RT_EOK"
        "0 < sint timeout \<longrightarrow> asleep t (rt_tick ?s0 + timeout) s'"
        using mutex_wait_ok [OF op0 e0 [THEN iffD2, OF ok] o(3) t(2) o(2,1) wait(1)] by blast
      have p: "prio_place (threads ?s0) t xs = prio_place (threads s) t xs" for xs by (rule prio_place_cong) simp
      have i: "inherited own (threads ?s0) t = inherited own (threads s) t" by (simp add: inherited_def)
      have "mutex_step i s s'"
        using s'(3) spares_trans [OF sp0] by (simp add: mutex_step_def) (simp add: more_upd_mutex)
      moreover have "rt_mutex_take i timeout s = Some (Waiting, s')"
        using wait Some v m(1,4) s'(1,2) by (simp add: rt_mutex_take_def Let_def)
      ultimately show ?thesis
        using wait Some s'(4-10) unfolding p i by (simp add: mutex_taken_def Let_def)
    qed
  qed
qed

subsection \<open>Releasing\<close>

definition mutex_released :: "nat \<Rightarrow> tid \<Rightarrow> int \<Rightarrow> ipc \<Rightarrow> ipc \<Rightarrow> bool" where
  "mutex_released i t r s s' \<longleftrightarrow>
     (let m = mutexes s i in
      if mutex_owner m \<noteq> Some t then r = - RT_ERROR \<and> mutexes s' i = m
      else r = RT_EOK \<and>
        (if mutex_hold m \<noteq> 1 then mutexes s' i = m\<lparr>mutex_hold := mutex_hold m - 1\<rparr>
         else current_priority (threads s' t) = original_priority m \<and>
           (case thread_lists s (Mutex i) of
              [] \<Rightarrow> mutexes s' i = \<lparr>mutex_value = 1, original_priority = 0xff, mutex_hold = 0, mutex_owner = None\<rparr> \<and>
                rt_current_thread s' = rt_current_thread s \<and> (\<forall>u. u \<noteq> t \<longrightarrow> threads s' u = threads s u)
            | u # us \<Rightarrow>
                mutexes s' i = \<lparr>mutex_value = 0, original_priority = current_priority (threads s u), mutex_hold = 1, mutex_owner = Some u\<rparr> \<and>
                thread_lists s' (Mutex i) = us \<and> runnable (threads s' u) \<and> error (threads s' u) = error (threads s u) \<and>
                (rt_scheduler_lock_nest s = 0 \<longrightarrow> settled s'))))"

lemma restore_ok:
  assumes op: "operational s" and p: "unat p < 32"
  shows "\<exists>s'. (if p \<noteq> current_priority (threads s t) then rt_thread_control t (Change_Priority p) s else Some s) = Some s' \<and>
    calm {} s s' \<and> reprioritises t p s s'"
proof (cases "p = current_priority (threads s t)")
  case True
  then show ?thesis using calm_refl [OF op] by (simp add: reprioritises_def)
next
  case False
  then show ?thesis using change_priority_calm [OF op p, of t] by simp
qed

lemma rt_mutex_release_ok:
  assumes op: "operational s" and ok: "mutex_ok i s" and t: "thread_context s" "rt_current_thread s = Some t"
  shows "\<exists>r s'. rt_mutex_release i s = Some (r, s') \<and> mutex_step i s s' \<and> mutex_released i t r s s'"
proof (cases "mutex_owner (mutexes s i) = Some t")
  case False
  let ?s1 = "upd_thread t (\<lambda>th. th\<lparr>error := - RT_ERROR\<rparr>) s"
  have "mutex_ok i ?s1" using ok mutex_ok_cong [of ?s1 i s] by simp
  then have "mutex_step i s ?s1" using mutex_step_upd [OF error_upd [OF op t(2)], where i = i and f = "\<lambda>m. m"] by simp
  then show ?thesis using False t by (simp add: rt_mutex_release_def mutex_released_def)
next
  case True
  let ?f = "\<lambda>m. m\<lparr>mutex_hold := mutex_hold m - 1\<rparr>"
  let ?s1 = "upd_mutex i ?f s"
  have v: "mutex_value (mutexes s i) = 0" "mutex_hold (mutexes s i) \<noteq> 0" "unat (original_priority (mutexes s i)) < 32"
    "t \<notin> set (thread_lists s (Mutex i))" using ok True by (simp_all add: mutex_ok_held)
  show ?thesis
  proof (cases "mutex_hold (mutexes s i) = 1")
    case False
    then have "mutex_ok i ?s1" using v True by (simp add: mutex_ok_def Let_def)
    then have "mutex_step i s ?s1" using mutex_step_upd [OF op spares_refl] by simp
    then show ?thesis using False True t by (simp add: rt_mutex_release_def mutex_released_def Let_def)
  next
    case hold: True
    have op1: "operational ?s1" using op by simp
    obtain s2 where s2: "(if original_priority (mutexes s i) \<noteq> current_priority (threads ?s1 t)
        then rt_thread_control t (Change_Priority (original_priority (mutexes s i))) ?s1 else Some ?s1) = Some s2"
      "calm {} ?s1 s2" "reprioritises t (original_priority (mutexes s i)) ?s1 s2"
      using restore_ok [OF op1 v(3), of t] by blast
    have op2: "operational s2" "kept ?s1 s2" using s2(2) by (simp_all add: calm_def)
    have lists: "thread_lists s2 (Mutex i) = thread_lists s (Mutex i)" using s2(3) by (simp add: reprioritises_def)
    have prio: "current_priority (threads s2 t) = original_priority (mutexes s i)" using s2(3) by (simp add: reprioritises_def)
    have th: "threads s2 u = threads s u" if "u \<noteq> t" for u using s2(3) that by (simp add: reprioritises_def)
    have lock: "rt_scheduler_lock_nest s2 = rt_scheduler_lock_nest s" using s2(3) by (simp add: reprioritises_def same_timers_def)
    have m2: "mutexes s2 = mutexes ?s1" using kept_objects(2) [OF op2(2)] .
    have more2: "kernel.more s2 = kernel.more ?s1" using op2(2) by (simp add: kept_def)
    have "spares {Mutex i} ?s1 s2" by (rule spares_kept [OF op2(2)])
    then have sp2: "spares {Mutex i} s s2" by (simp add: spares_def)
    show ?thesis
    proof (cases "thread_lists s (Mutex i)")
      case Nil
      let ?g = "\<lambda>m. m\<lparr>mutex_value := mutex_value m + 1, mutex_owner := None, original_priority := 0xff\<rparr>"
      let ?s' = "upd_mutex i ?g s2"
      have "?g (?f (mutexes s i)) = \<lparr>mutex_value = 1, original_priority = 0xff, mutex_hold = 0, mutex_owner = None\<rparr>"
        using v(1) hold by (cases "mutexes s i") simp
      then have m': "mutexes ?s' i = \<lparr>mutex_value = 1, original_priority = 0xff, mutex_hold = 0, mutex_owner = None\<rparr>"
        unfolding upd_object_simps m2 fun_upd_same .
      have "mutex_step i s ?s'"
      proof (rule mutex_stepI [where f = "\<lambda>m. ?g (?f m)"])
        show "spares {Mutex i} s ?s'" using sp2 by (simp add: spares_def)
        show "mutex_ok i ?s'" unfolding mutex_ok_def m' using lists Nil by simp
        show "kernel.more ?s' = kernel.more (upd_mutex i (\<lambda>m. ?g (?f m)) s)"
          unfolding more_upd_mutex using same_objects [OF more2] by simp
      qed (use op2 in simp)
      moreover have "rt_mutex_release i s = Some (RT_EOK, ?s')"
        using True hold t v(1) s2(1) lists Nil
        by (simp add: rt_mutex_release_def Let_def RT_MUTEX_VALUE_MAX_def cong: if_cong split del: if_split)
      moreover have "current_priority (threads ?s' t) = original_priority (mutexes s i)" using prio by simp
      moreover have "rt_current_thread ?s' = rt_current_thread s" "\<forall>u. u \<noteq> t \<longrightarrow> threads ?s' u = threads s u"
        using s2(3) th by (simp_all add: reprioritises_def)
      ultimately show ?thesis using True hold Nil m' by (auto simp: mutex_released_def Let_def)
    next
      case (Cons u us)
      let ?g = "\<lambda>m. m\<lparr>mutex_owner := Some u, original_priority := current_priority (threads s u), mutex_hold := 1\<rparr>"
      let ?s3 = "upd_mutex i ?g s2"
      have ut: "u \<noteq> t" using v(4) Cons by auto
      have op3: "operational ?s3" using op2(1) by simp
      have "thread_lists ?s3 (Mutex i) = u # us" using lists Cons by simp
      then obtain s' where s': "wake_first (Mutex i) ?s3 = Some s'" "woken {u} ?s3 s'" "thread_lists s' (Mutex i) = us"
        "error (threads s' u) = error (threads ?s3 u)"
        using wake_first_woken [OF op3 wait_list_simps(4)] by blast
      note w = woken_D [OF s'(2)]
      have more': "kernel.more s' = kernel.more ?s3" using w(2) by (simp add: wakes_def)
      have "?g (?f (mutexes s i)) = \<lparr>mutex_value = 0, original_priority = current_priority (threads s u), mutex_hold = 1, mutex_owner = Some u\<rparr>"
        using v(1) by (cases "mutexes s i") simp
      then have m': "mutexes s' i = \<lparr>mutex_value = 0, original_priority = current_priority (threads s u), mutex_hold = 1, mutex_owner = Some u\<rparr>"
        unfolding same_objects(2) [OF more'] upd_object_simps m2 fun_upd_same .
      have u32: "unat (current_priority (threads s u)) < 32"
        using running_priority [OF op, of u] waiting_suspended(1) [OF op wait_list_simps(4), of u i] Cons by simp
      have d: "u \<notin> set us" using waiting_distinct [OF op, of "Mutex i"] Cons by simp
      have "mutex_step i s s'"
      proof (rule mutex_stepI [where f = "\<lambda>m. ?g (?f m)"])
        have "spares {Mutex i} s2 s'" using w(4) [of "{Mutex i}"] by (simp add: spares_def)
        then show "spares {Mutex i} s s'" using spares_trans [OF sp2] by blast
        show "mutex_ok i s'" unfolding mutex_ok_def m' using u32 s'(3) d by simp
        show "kernel.more s' = kernel.more (upd_mutex i (\<lambda>m. ?g (?f m)) s)"
          unfolding more' more_upd_mutex using same_objects [OF more2] by simp
      qed (use w(1) in simp)
      moreover have "rt_mutex_release i s = Some (RT_EOK, s')"
      proof -
        have "upd_mutex i (\<lambda>m. m\<lparr>mutex_hold := mutex_hold m + 1\<rparr>)
            (upd_mutex i (\<lambda>m. m\<lparr>mutex_owner := Some u, original_priority := current_priority (threads s2 u)\<rparr>) s2) = ?s3"
          using th [OF ut] m2 hold by (simp add: upd_mutex_def)
        then show ?thesis
          using True hold t s2(1) lists Cons s'(1)
          by (simp add: rt_mutex_release_def Let_def RT_MUTEX_HOLD_MAX_def wake_first_def bind_eq_Some_conv cong: if_cong split del: if_split)
      qed
      moreover have "current_priority (threads s' t) = original_priority (mutexes s i)"
        using w(2) prio by (simp add: wakes_def same_data_def)
      moreover have "runnable (threads s' u)" using w(6) by simp
      moreover have "rt_scheduler_lock_nest s = 0 \<longrightarrow> settled s'" using s'(2) lock by (simp add: woken_def)
      ultimately show ?thesis using True hold Cons m' s'(3,4) th [OF ut] by (auto simp: mutex_released_def Let_def)
    qed
  qed
qed

subsection \<open>Initialising and detaching\<close>

lemma rt_mutex_init_ok:
  assumes op: "operational s" and "thread_lists s (Mutex i) = []"
  shows "\<exists>s'. rt_mutex_init i s = Some s' \<and> mutex_step i s s' \<and> mutex_owner (mutexes s' i) = None"
proof -
  let ?f = "\<lambda>_. \<lparr>mutex_value = 1, original_priority = 0xFF, mutex_hold = 0, mutex_owner = None\<rparr>"
  have "mutex_ok i (upd_mutex i ?f s)" using assms(2) by (simp add: mutex_ok_def)
  then have "mutex_step i s (upd_mutex i ?f s)" using mutex_step_upd [OF op spares_refl] by simp
  then show ?thesis using ipc_object_init_ok [OF assms(2)] by (simp add: rt_mutex_init_def)
qed

lemma rt_mutex_detach_ok:
  assumes op: "operational s" and ok: "mutex_ok i s"
  shows "\<exists>s'. rt_mutex_detach i s = Some s' \<and> mutex_step i s s' \<and> thread_lists s' (Mutex i) = [] \<and>
    (\<forall>t \<in> set (thread_lists s (Mutex i)). runnable (threads s' t) \<and> error (threads s' t) = - RT_ERROR)"
proof -
  obtain s' where s': "ipc_list_resume_all (Mutex i) s = Some s'" "operational s'" "wakes (set (thread_lists s (Mutex i))) s s'"
    "\<forall>t \<in> set (thread_lists s (Mutex i)). error (threads s' t) = - RT_ERROR"
    using ipc_list_resume_all_ok [OF op] wait_list_simps(4) by blast
  have e: "thread_lists s' (Mutex i) = []" by (rule wakes_emptied [OF s'(3)]) simp_all
  have more: "kernel.more s' = kernel.more s" using s'(3) by (simp add: wakes_def)
  have "mutex_ok i s'" using mutex_ok_sub [OF ok] e same_objects(2) [OF more] by simp
  then have "mutex_step i s s'"
    using s'(2) more spares_kept [OF kept_wakes [OF s'(3)]] by (intro mutex_stepI [where f = "\<lambda>m. m"]) simp_all
  moreover have "\<forall>t \<in> set (thread_lists s (Mutex i)). runnable (threads s' t)" using s'(3) by (simp add: wakes_def)
  ultimately show ?thesis using s'(1,4) e by (simp add: rt_mutex_detach_def)
qed

end
