(* ===== verification/Ipc_Event.thy ===== *)
theory Ipc_Event
  imports Ipc_Frame
begin

unbundle bit_operations_syntax

text \<open>
  Events: who is served when bits are sent, by a reference function over those who wait, and the invariant that nobody
  waits for bits that are there.
\<close>

subsection \<open>Conditions\<close>

definition event_option :: "u8 \<Rightarrow> bool" where
  "event_option opt \<longleftrightarrow> opt AND RT_EVENT_FLAG_AND \<noteq> 0 \<or> opt AND RT_EVENT_FLAG_OR \<noteq> 0"

text \<open>All of the bits are there, or one of them; and the bits that are received.\<close>

definition event_ready :: "u32 \<Rightarrow> u8 \<Rightarrow> u32 \<Rightarrow> bool" where
  "event_ready bits opt e \<longleftrightarrow> (if opt AND RT_EVENT_FLAG_AND \<noteq> 0 then bits AND e = bits else bits AND e \<noteq> 0)"

definition event_got :: "u32 \<Rightarrow> u8 \<Rightarrow> u32 \<Rightarrow> u32" where
  "event_got bits opt e = (if opt AND RT_EVENT_FLAG_AND \<noteq> 0 then bits else bits AND e)"

definition event_left :: "u32 \<Rightarrow> u8 \<Rightarrow> u32 \<Rightarrow> u32" where
  "event_left got opt e = (if opt AND RT_EVENT_FLAG_CLEAR \<noteq> 0 then e AND NOT got else e)"

text \<open>The waiting threads are served in the order of the list: the bits that stay, and who receives what.\<close>

fun event_serve :: "(tid \<Rightarrow> rt_thread) \<Rightarrow> u32 \<Rightarrow> tid list \<Rightarrow> u32 \<times> (tid \<times> u32) list" where
  "event_serve ts e [] = (e, [])"
| "event_serve ts e (t # q) =
     (let bits = event_set (ts t); opt = event_info (ts t) in
      if event_ready bits opt e
      then let got = event_got bits opt e; (e', W) = event_serve ts (event_left got opt e) q in (e', (t, got) # W)
      else event_serve ts e q)"

lemma event_ready_less: "event_ready bits opt e' \<Longrightarrow> e' AND e = e' \<Longrightarrow> event_ready bits opt e"
  unfolding event_ready_def by (auto simp: bit_eq_iff bit_simps split: if_splits)

lemma event_left_less: "event_left got opt e AND e = event_left got opt e"
  by (auto simp: event_left_def bit_eq_iff bit_simps)

lemma and_less_trans: "a AND b = a \<Longrightarrow> b AND c = b \<Longrightarrow> a AND c = a" for a b c :: u32
  by (metis and.assoc)

text \<open>Bits are only cleared on the way; who is not served has no reason to be, at the end.\<close>

lemma event_serve_ConsE:
  assumes "event_serve ts e (t # q) = (e', W)"
  obtains (served) got W' where "event_ready (event_set (ts t)) (event_info (ts t)) e" "got = event_got (event_set (ts t)) (event_info (ts t)) e"
      "event_serve ts (event_left got (event_info (ts t)) e) q = (e', W')" "W = (t, got) # W'"
    | (skipped) "\<not> event_ready (event_set (ts t)) (event_info (ts t)) e" "event_serve ts e q = (e', W)"
  using assms by (auto simp: Let_def split: if_splits prod.splits)

lemma event_serve_less: "event_serve ts e q = (e', W) \<Longrightarrow> e' AND e = e'"
proof (induction q arbitrary: e W)
  case (Cons t q)
  from Cons.prems show ?case
  proof (cases rule: event_serve_ConsE)
    case (served got W')
    then show ?thesis using Cons.IH and_less_trans event_left_less by blast
  qed (use Cons.IH in blast)
qed simp

lemma event_serve_unserved:
  assumes "event_serve ts e q = (e', W)" "t \<in> set q" "t \<notin> fst ` set W"
  shows "\<not> event_ready (event_set (ts t)) (event_info (ts t)) e'"
  using assms
proof (induction q arbitrary: e W)
  case (Cons u q)
  show ?case
  proof (cases "event_ready (event_set (ts u)) (event_info (ts u)) e")
    case True
    then show ?thesis using Cons by (auto simp: Let_def split: prod.splits)
  next
    case False
    then have r: "event_serve ts e q = (e', W)" using Cons.prems(1) by simp
    show ?thesis
    proof (cases "t \<in> set q")
      case True
      then show ?thesis using Cons.IH [OF r] Cons.prems(3) by simp
    next
      case f: False
      then have "t = u" using Cons.prems(2) by simp
      then show ?thesis using event_ready_less [OF _ event_serve_less [OF r]] False by blast
    qed
  qed
qed simp

lemma event_serve_served: "event_serve ts e q = (e', W) \<Longrightarrow> fst ` set W \<subseteq> set q"
proof (induction q arbitrary: e W)
  case (Cons t q)
  from Cons.prems show ?case
  proof (cases rule: event_serve_ConsE)
    case (served got W')
    then show ?thesis using Cons.IH [OF served(3)] by auto
  qed (use Cons.IH in auto)
qed simp

lemma event_serve_cong: "(\<And>t. t \<in> set q \<Longrightarrow> same_wait (ts t) (ts' t)) \<Longrightarrow> event_serve ts' e q = event_serve ts e q"
  by (induction q arbitrary: e) (auto simp: Let_def same_wait_def split: prod.splits)

subsection \<open>The invariant\<close>

definition waits_for :: "rt_thread \<Rightarrow> u32 \<Rightarrow> bool" where
  "waits_for th e \<longleftrightarrow> event_option (event_info th) \<and> \<not> event_ready (event_set th) (event_info th) e"

definition event_ok :: "nat \<Rightarrow> ipc \<Rightarrow> bool" where
  "event_ok i s \<longleftrightarrow> (\<forall>t \<in> set (thread_lists s (Event i)). waits_for (threads s t) (event_bits (events s i)))"

lemma waits_for_less: "waits_for th e \<Longrightarrow> same_wait th th' \<Longrightarrow> e' AND e = e' \<Longrightarrow> waits_for th' e'"
  using event_ready_less [of "event_set th" "event_info th" e' e] by (auto simp: waits_for_def same_wait_def)

lemma event_ok_sub:
  assumes "event_ok i s" "set (thread_lists s' (Event i)) \<subseteq> set (thread_lists s (Event i))"
    "\<And>t. t \<in> set (thread_lists s' (Event i)) \<Longrightarrow> same_wait (threads s t) (threads s' t)"
    "event_bits (events s' i) AND event_bits (events s i) = event_bits (events s' i)"
  shows "event_ok i s'"
  using assms waits_for_less unfolding event_ok_def by blast

definition event_step :: "nat \<Rightarrow> ipc \<Rightarrow> ipc \<Rightarrow> bool" where
  "event_step i s s' \<longleftrightarrow> operational s' \<and> spares {Event i} s s' \<and> event_ok i s' \<and>
     kernel.more s' = kernel.more (upd_event i (\<lambda>_. events s' i) s)"

lemma more_upd_event: "kernel.more (upd_event i f s) = ipc_ext (sems s) (mutexes s) ((events s)(i := f (events s i))) (mailboxes s) (mqs s) ()"
  by (cases s) (simp add: upd_event_def)

lemma event_stepI:
  assumes "operational s'" "spares {Event i} s s'" "event_ok i s'" "kernel.more s' = kernel.more (upd_event i f s)"
  shows "event_step i s s'"
proof -
  have "events s' i = f (events s i)" using same_objects(3) [OF assms(4)] by simp
  then show ?thesis using assms by (simp add: event_step_def more_upd_event)
qed

lemma upd_event_same [simp]: "upd_event i (\<lambda>m. m) s = s" by (simp add: upd_event_def)

lemma event_step_upd:
  assumes "operational s1" "spares {Event i} s s1" "kernel.more s1 = kernel.more s" "event_ok i (upd_event i f s1)"
  shows "event_step i s (upd_event i f s1)"
proof (rule event_stepI [where f = f])
  show "spares {Event i} s (upd_event i f s1)" using assms(2) by (simp add: spares_def)
  show "kernel.more (upd_event i f s1) = kernel.more (upd_event i f s)"
    unfolding more_upd_event using same_objects [OF assms(3)] by simp
qed (use assms in simp_all)

subsection \<open>Sending\<close>

text \<open>The threads \<open>W\<close> have been woken with what they receive.\<close>

definition serves :: "nat \<Rightarrow> (tid \<times> u32) list \<Rightarrow> ipc \<Rightarrow> ipc \<Rightarrow> bool" where
  "serves i W s s' \<longleftrightarrow> operational s' \<and> rt_tick s' = rt_tick s \<and> rt_scheduler_lock_nest s' = rt_scheduler_lock_nest s \<and>
     rt_interrupt_nest s' = rt_interrupt_nest s \<and> kernel.more s' = kernel.more (upd_event i (\<lambda>_. events s' i) s) \<and>
     event_flag (events s' i) = event_flag (events s i) \<and>
     (\<forall>l. wait_list l \<longrightarrow> thread_lists s' l = filter (\<lambda>t. t \<notin> fst ` set W) (thread_lists s l)) \<and>
     (\<forall>t. runnable (threads s t) \<longrightarrow> runnable (threads s' t)) \<and>
     (\<forall>t. t \<notin> fst ` set W \<longrightarrow> same_wait (threads s t) (threads s' t)) \<and>
     (\<forall>(t, got) \<in> set W. runnable (threads s' t) \<and> event_set (threads s' t) = got \<and> error (threads s' t) = error (threads s t))"

lemma event_wake_ok:
  assumes op: "operational s" and t: "t \<in> set (thread_lists s (Event i))"
    and got: "s0 = upd_thread t (\<lambda>th. th\<lparr>event_set := got\<rparr>) s"
  shows "\<exists>s'. event_wake i t s0 = Some s' \<and> serves i [(t, got)] s s' \<and>
    event_bits (events s' i) = event_left got (event_info (threads s t)) (event_bits (events s i))"
proof -
  let ?f = "\<lambda>e. e\<lparr>event_bits := event_left got (event_info (threads s t)) (event_bits e)\<rparr>"
  let ?s1 = "upd_event i ?f s0"
  have op0: "operational s0" unfolding got by (rule operational_data [OF op]) (simp add: current_data_def)
  then have op1: "operational ?s1" by simp
  have st: "stat (threads s t) = RT_THREAD_SUSPEND" using waiting_suspended(1) [OF op _ t] by simp
  then have "stat (threads ?s1 t) = RT_THREAD_SUSPEND" by (simp add: got)
  then obtain s' where s': "rt_thread_resume t ?s1 = Some (RT_EOK, s')" "operational s'" "wakes {t} ?s1 s'"
    "error (threads s' t) = error (threads ?s1 t)"
    using resume_waiting [OF op1] by blast
  have more: "kernel.more s' = kernel.more ?s1" using s'(3) by (simp add: wakes_def)
  have e: "events s' i = ?f (events s i)" using same_objects(3) [OF more] by (simp add: got)
  have "event_wake i t s0 = Some s'"
  proof -
    have "(if event_info (threads s0 t) AND RT_EVENT_FLAG_CLEAR \<noteq> 0
        then upd_event i (\<lambda>e. e\<lparr>event_bits := event_bits e AND NOT (event_set (threads s0 t))\<rparr>) s0 else s0) = ?s1"
      by (simp add: got event_left_def)
    then show ?thesis using s'(1) by (simp add: event_wake_def Let_def)
  qed
  moreover have "serves i [(t, got)] s s'"
    unfolding serves_def
  proof (intro conjI)
    show "kernel.more s' = kernel.more (upd_event i (\<lambda>_. events s' i) s)"
      unfolding more more_upd_event e by (simp add: got)
    show "\<forall>u. u \<notin> fst ` set [(t, got)] \<longrightarrow> same_wait (threads s u) (threads s' u)"
    proof (intro allI impI)
      fix u assume "u \<notin> fst ` set [(t, got)]"
      then have u: "u \<noteq> t" by simp
      have "threads ?s1 u = threads s u" using u by (simp add: got)
      moreover have "same_data (threads ?s1 u) (threads s' u)" "error (threads s' u) = error (threads ?s1 u)"
        using s'(3) u by (simp_all add: wakes_def del: upd_object_simps)
      ultimately have "same_data (threads s u) (threads s' u)" "error (threads s' u) = error (threads s u)" by simp_all
      then show "same_wait (threads s u) (threads s' u)" by (rule same_data_wait)
    qed
    show "\<forall>l. wait_list l \<longrightarrow> thread_lists s' l = filter (\<lambda>t'. t' \<notin> fst ` set [(t, got)]) (thread_lists s l)"
      using s'(3) by (simp add: wakes_def got wait_list_def)
    have "same_data (threads ?s1 t) (threads s' t)" "runnable (threads s' t)" using s'(3) by (simp_all add: wakes_def)
    then show "\<forall>(t, g) \<in> set [(t, got)]. runnable (threads s' t) \<and> event_set (threads s' t) = g \<and> error (threads s' t) = error (threads s t)"
      using s'(4) by (simp add: got same_data_def)
    show "\<forall>u. runnable (threads s u) \<longrightarrow> runnable (threads s' u)"
    proof (intro allI impI)
      fix u assume "runnable (threads s u)"
      then have "runnable (threads ?s1 u)" by (cases "u = t") (simp_all add: got runnable_def)
      then show "runnable (threads s' u)" using s'(3) by (simp add: wakes_def)
    qed
  qed (use s'(2,3) e in \<open>simp_all add: wakes_def got\<close>)
  ultimately show ?thesis using e by auto
qed

lemma serves_refl: "operational s \<Longrightarrow> serves i [] s s"
  by (simp add: serves_def more_upd_event) (cases s, simp)

lemma serves_trans:
  assumes "serves i V s s'" "serves i W s' s''" "fst ` set V \<inter> fst ` set W = {}"
  shows "serves i (V @ W) s s''"
  unfolding serves_def
proof (intro conjI)
  have e: "kernel.more s' = kernel.more (upd_event i (\<lambda>_. events s' i) s)" using assms(1) by (simp add: serves_def)
  have "kernel.more s'' = kernel.more (upd_event i (\<lambda>_. events s'' i) s')" using assms(2) by (simp add: serves_def)
  then show "kernel.more s'' = kernel.more (upd_event i (\<lambda>_. events s'' i) s)"
    unfolding more_upd_event using same_objects [OF e] fun_upd_upd [of "events s" i "events s' i"] by simp
  have l: "thread_lists s' l = filter (\<lambda>t. t \<notin> fst ` set V) (thread_lists s l)"
    "thread_lists s'' l = filter (\<lambda>t. t \<notin> fst ` set W) (thread_lists s' l)" if "wait_list l" for l
    using assms(1,2) that unfolding serves_def by blast+
  show "\<forall>l. wait_list l \<longrightarrow> thread_lists s'' l = filter (\<lambda>t. t \<notin> fst ` set (V @ W)) (thread_lists s l)"
    using l by (simp add: image_Un conj_commute)
  have r: "runnable (threads s t) \<Longrightarrow> runnable (threads s' t)" "runnable (threads s' t) \<Longrightarrow> runnable (threads s'' t)" for t
    using assms(1,2) unfolding serves_def by blast+
  then show "\<forall>t. runnable (threads s t) \<longrightarrow> runnable (threads s'' t)" by blast
  have w: "t \<notin> fst ` set V \<Longrightarrow> same_wait (threads s t) (threads s' t)" "t \<notin> fst ` set W \<Longrightarrow> same_wait (threads s' t) (threads s'' t)" for t
    using assms(1,2) unfolding serves_def by blast+
  then show "\<forall>t. t \<notin> fst ` set (V @ W) \<longrightarrow> same_wait (threads s t) (threads s'' t)"
    unfolding set_append image_Un Un_iff de_Morgan_disj same_wait_def by metis
  show "\<forall>(t, got) \<in> set (V @ W). runnable (threads s'' t) \<and> event_set (threads s'' t) = got \<and> error (threads s'' t) = error (threads s t)"
  proof (intro ballI, unfold split_paired_all prod.case)
    fix t got assume "(t, got) \<in> set (V @ W)"
    then consider "(t, got) \<in> set V" | "(t, got) \<in> set W" by auto
    then show "runnable (threads s'' t) \<and> event_set (threads s'' t) = got \<and> error (threads s'' t) = error (threads s t)"
    proof cases
      case 1
      then have "t \<notin> fst ` set W" using assms(3) by force
      then have "same_wait (threads s' t) (threads s'' t)" using w(2) by blast
      moreover have "runnable (threads s' t) \<and> event_set (threads s' t) = got \<and> error (threads s' t) = error (threads s t)"
        using assms(1) 1 unfolding serves_def by fast
      ultimately show ?thesis using r(2) by (simp add: same_wait_def)
    next
      case 2
      then have "t \<notin> fst ` set V" using assms(3) by force
      then have "same_wait (threads s t) (threads s' t)" using w(1) by blast
      moreover have "runnable (threads s'' t) \<and> event_set (threads s'' t) = got \<and> error (threads s'' t) = error (threads s' t)"
        using assms(2) 2 unfolding serves_def by fast
      ultimately show ?thesis by (simp add: same_wait_def)
    qed
  qed
qed (use assms(1,2) in \<open>simp_all add: serves_def\<close>)

lemma event_walk_ok:
  assumes "operational s" "set q \<subseteq> set (thread_lists s (Event i))" "distinct q" "\<And>t. t \<in> set q \<Longrightarrow> event_option (event_info (threads s t))"
    "event_serve (threads s) (event_bits (events s i)) q = (e', W)"
  shows "\<exists>s'. event_walk i q need s = Some (RT_EOK, need \<or> W \<noteq> [], s') \<and> serves i W s s' \<and> event_bits (events s' i) = e'"
  using assms
proof (induction q arbitrary: s need W)
  case Nil
  then show ?case using serves_refl by simp
next
  case (Cons t q)
  let ?th = "threads s t"
  let ?e = "event_bits (events s i)"
  have opt: "event_option (event_info ?th)" using Cons.prems(4) by simp
  from Cons.prems(5) show ?case
  proof (cases rule: event_serve_ConsE)
    case skipped
    have q: "set q \<subseteq> set (thread_lists s (Event i))" "distinct q" "\<And>t. t \<in> set q \<Longrightarrow> event_option (event_info (threads s t))"
      using Cons.prems(2-4) by simp_all
    have "event_walk i (t # q) need s = event_walk i q need s"
      using skipped(1) opt by (auto simp: event_ready_def event_option_def Let_def)
    then show ?thesis using Cons.IH [OF Cons.prems(1) q skipped(2), of need] by simp
  next
    case (served got W')
    let ?s0 = "upd_thread t (\<lambda>th. th\<lparr>event_set := got\<rparr>) s"
    have "t \<in> set (thread_lists s (Event i))" using Cons.prems(2) by simp
    then obtain s1 where s1: "event_wake i t ?s0 = Some s1" "serves i [(t, got)] s s1"
      "event_bits (events s1 i) = event_left got (event_info ?th) ?e"
      using event_wake_ok [OF Cons.prems(1) _ refl] by blast
    have same: "upd_thread t (\<lambda>th. th\<lparr>event_set := event_set ?th\<rparr>) s = s" by (simp add: upd_thread_def)
    have step: "event_walk i (t # q) need s = event_walk i q True s1"
    proof (cases "event_info ?th AND RT_EVENT_FLAG_AND \<noteq> 0")
      case True
      then have "got = event_set ?th" using served(2) by (simp add: event_got_def)
      then show ?thesis using True served(1) s1(1) same by (simp add: event_ready_def Let_def)
    next
      case False
      then have "got = event_set ?th AND ?e" using served(2) by (simp add: event_got_def)
      moreover have "upd_thread t (\<lambda>th. th\<lparr>event_set := event_set th AND ?e\<rparr>) s = upd_thread t (\<lambda>th. th\<lparr>event_set := event_set ?th AND ?e\<rparr>) s"
        by (simp add: upd_thread_def)
      ultimately show ?thesis using False served(1) s1(1) opt by (simp add: event_ready_def event_option_def Let_def)
    qed
    have t: "t \<notin> set q" using Cons.prems(3) by simp
    have w: "same_wait (threads s u) (threads s1 u)" if "u \<noteq> t" for u using s1(2) that by (simp add: serves_def)
    have op1: "operational s1" using s1(2) by (simp add: serves_def)
    have q1: "set q \<subseteq> set (thread_lists s1 (Event i))" using s1(2) Cons.prems(2) t by (auto simp: serves_def)
    have o1: "event_option (event_info (threads s1 u))" if "u \<in> set q" for u
    proof -
      have "u \<noteq> t" using that t by auto
      then show ?thesis using w [of u] Cons.prems(4) [of u] that by (simp add: same_wait_def)
    qed
    have "event_serve (threads s1) e q = event_serve (threads s) e q" for e
      by (rule event_serve_cong) (use w t in metis)
    then have e1: "event_serve (threads s1) (event_bits (events s1 i)) q = (e', W')" using served(3) s1(3) by simp
    have d: "distinct q" using Cons.prems(3) by simp
    obtain s' where s': "event_walk i q True s1 = Some (RT_EOK, True \<or> W' \<noteq> [], s')" "serves i W' s1 s'" "event_bits (events s' i) = e'"
      using Cons.IH [OF op1 q1 d o1 e1] by blast
    have "fst ` set [(t, got)] \<inter> fst ` set W' = {}" using event_serve_served [OF served(3)] t by auto
    then have "serves i W s s'" using serves_trans [OF s1(2) s'(2)] served(4) by simp
    then show ?thesis using step s'(1,3) served(4) by simp
  qed
qed

lemma serves_spares:
  assumes "serves i W s s'"
  shows "spares K s s'"
proof (rule sparesI)
  fix l t assume "wait_list l" "t \<in> set (thread_lists s' l)"
  then have t: "t \<in> set (thread_lists s l)" "t \<notin> fst ` set W" using assms by (auto simp: serves_def)
  then have "same_wait (threads s t) (threads s' t)" using assms unfolding serves_def by blast
  then show "t \<in> set (thread_lists s l) \<and> same_wait (threads s t) (threads s' t)"
    "error (threads s' t) = RT_EOK \<or> t \<in> set (thread_lists s l) \<and> error (threads s' t) = error (threads s t)"
    using t(1) by (simp_all add: same_wait_def)
qed

lemma serves_woken:
  assumes "serves i W s s1" "woken {} s1 s'"
  shows "serves i W s s'"
proof -
  note w = woken_D [OF assms(2)]
  have more: "kernel.more s' = kernel.more s1" using w(2) by (simp add: wakes_def)
  have same: "same_wait (threads s1 t) (threads s' t)" for t using w(2) by (simp add: wakes_def same_data_wait)
  have nil: "serves i [] s1 s'"
    unfolding serves_def
  proof (intro conjI)
    show "kernel.more s' = kernel.more (upd_event i (\<lambda>_. events s' i) s1)"
      unfolding more_upd_event same_objects(3) [OF more] using more by (cases s1) simp
  qed (use w(1,2) same same_objects(3) [OF more] in \<open>simp_all add: wakes_def wait_list_def\<close>)
  show ?thesis using serves_trans [OF assms(1) nil] by simp
qed

lemma rt_event_send_ok:
  assumes op: "operational s" and ok: "event_ok i s" and bits: "bits \<noteq> 0"
    and sv: "event_serve (threads s) (event_bits (events s i) OR bits) (thread_lists s (Event i)) = (e', W)"
  shows "\<exists>s'. rt_event_send i bits s = Some (RT_EOK, s') \<and> event_step i s s' \<and> serves i W s s' \<and> event_bits (events s' i) = e' \<and>
    (W \<noteq> [] \<longrightarrow> rt_scheduler_lock_nest s = 0 \<longrightarrow> settled s')"
proof -
  let ?f = "\<lambda>e. e\<lparr>event_bits := event_bits e OR bits\<rparr>"
  let ?s0 = "upd_event i ?f s"
  have op0: "operational ?s0" using op by simp
  have o0: "event_option (event_info (threads ?s0 t))" if "t \<in> set (thread_lists ?s0 (Event i))" for t
    using ok that by (simp add: event_ok_def waits_for_def)
  have "event_serve (threads ?s0) (event_bits (events ?s0 i)) (thread_lists ?s0 (Event i)) = (e', W)" using sv by simp
  from event_walk_ok [OF op0 subset_refl waiting_distinct [OF op0] o0 this, of False]
  obtain s1 where s1: "event_walk i (thread_lists ?s0 (Event i)) False ?s0 = Some (RT_EOK, False \<or> W \<noteq> [], s1)"
    "serves i W ?s0 s1" "event_bits (events s1 i) = e'" by blast
  have sv1: "serves i W s s1"
    using s1(2) unfolding serves_def by (simp add: more_upd_event)
  have op1: "operational s1" using s1(2) by (simp add: serves_def)
  obtain s' where s': "(if W \<noteq> [] then rt_schedule s1 else Some s1) = Some s'" "serves i W s s'"
    "event_bits (events s' i) = e'" "W \<noteq> [] \<longrightarrow> rt_scheduler_lock_nest s = 0 \<longrightarrow> settled s'"
  proof (cases "W = []")
    case True
    then show ?thesis using that [of s1] sv1 s1(3) by simp
  next
    case False
    obtain s2 where s2: "rt_schedule s1 = Some s2" "woken {} s1 s2" using schedule_ok [OF op1] by blast
    have "kernel.more s2 = kernel.more s1" using woken_D(2) [OF s2(2)] by (simp add: wakes_def)
    then have "event_bits (events s2 i) = e'" using same_objects(3) [of s2 s1] s1(3) by simp
    moreover have "rt_scheduler_lock_nest s1 = rt_scheduler_lock_nest s" using sv1 by (simp add: serves_def)
    ultimately show ?thesis using that [of s2] False s2 serves_woken [OF sv1 s2(2)] by (simp add: woken_def)
  qed
  have "event_ok i s'"
    unfolding event_ok_def
  proof
    fix t assume "t \<in> set (thread_lists s' (Event i))"
    then have t: "t \<in> set (thread_lists s (Event i))" "t \<notin> fst ` set W" using s'(2) by (auto simp: serves_def)
    then have "\<not> event_ready (event_set (threads s t)) (event_info (threads s t)) e'" using event_serve_unserved [OF sv] by blast
    moreover have "event_option (event_info (threads s t))" using ok t(1) by (simp add: event_ok_def waits_for_def)
    moreover have "same_wait (threads s t) (threads s' t)" using s'(2) t(2) unfolding serves_def by blast
    ultimately show "waits_for (threads s' t) (event_bits (events s' i))" using s'(3) by (simp add: waits_for_def same_wait_def)
  qed
  then have "event_step i s s'" using s'(2) serves_spares [OF s'(2)] by (simp add: event_step_def) (simp add: serves_def)
  moreover have "rt_event_send i bits s = Some (RT_EOK, s')"
    using bits s1(1) s'(1) by (simp add: rt_event_send_def Let_def)
  ultimately show ?thesis using s' by blast
qed

subsection \<open>Receiving\<close>

definition event_received :: "nat \<Rightarrow> tid \<Rightarrow> u32 \<Rightarrow> u8 \<Rightarrow> u32 \<Rightarrow> call_result \<Rightarrow> u32 option \<Rightarrow> ipc \<Rightarrow> ipc \<Rightarrow> bool" where
  "event_received i t bits opt timeout r got s s' \<longleftrightarrow>
     (let e = event_bits (events s i); e' = event_bits (events s' i) in
      if bits = 0 then r = Returned (- RT_ERROR) \<and> got = None \<and> e' = e
      else if event_ready bits opt e then r = Returned RT_EOK \<and> got = Some (e AND bits) \<and> e' = event_left bits opt e
      else got = None \<and> e' = e \<and>
        (if timeout = 0 then r = Returned (- RT_ETIMEOUT)
         else r = Waiting \<and> thread_lists s' (Event i) = wait_place (event_flag (events s i)) (threads s) t (thread_lists s (Event i)) \<and>
           event_set (threads s' t) = bits \<and> event_info (threads s' t) = opt \<and> error (threads s' t) = RT_EOK \<and>
           stat (threads s' t) = RT_THREAD_SUSPEND \<and> settled s' \<and> (0 < sint timeout \<longrightarrow> asleep t (rt_tick s + timeout) s')))"

lemma event_wait_ok:
  assumes op: "operational s" and ok: "event_ok i s" and t: "may_wait t s" "good_timeout timeout" "error (threads s t) = RT_EOK"
    and c: "event_option opt" "\<not> event_ready bits opt (event_bits (events s i))"
  shows "\<exists>s'. wait_on (Event i) t (event_flag (events s i)) timeout (upd_thread t (\<lambda>th. th\<lparr>event_set := bits, event_info := opt\<rparr>) s) = Some s' \<and>
    waits_in (Event i) t (event_flag (events s i)) timeout s s' \<and> event_step i s s' \<and>
    event_set (threads s' t) = bits \<and> event_info (threads s' t) = opt"
proof -
  obtain s' where s': "wait_on (Event i) t (event_flag (events s i)) timeout (upd_thread t (\<lambda>th. th\<lparr>event_set := bits, event_info := opt\<rparr>) s) = Some s'"
    "waits_in (Event i) t (event_flag (events s i)) timeout s s'" "event_set (threads s' t) = bits" "event_info (threads s' t) = opt"
    using wait_on_in [OF op t(1) wait_list_simps(5) t(2), of "\<lambda>th. th\<lparr>event_set := bits, event_info := opt\<rparr>"] t(3)
    by (auto simp: current_data_def)
  have more: "kernel.more s' = kernel.more s" using s'(2) by (simp add: waits_in_def)
  have "event_ok i s'"
    unfolding event_ok_def
  proof
    fix u assume "u \<in> set (thread_lists s' (Event i))"
    then have u: "u = t \<or> u \<in> set (thread_lists s (Event i))" using waits_in_list [OF s'(2), of "Event i"] by simp
    show "waits_for (threads s' u) (event_bits (events s' i))"
    proof (cases "u = t")
      case True
      then show ?thesis using c s'(3,4) same_objects(3) [OF more] by (simp add: waits_for_def)
    next
      case False
      then have "waits_for (threads s u) (event_bits (events s i))" "same_wait (threads s u) (threads s' u)"
        using u ok s'(2) by (simp_all add: event_ok_def waits_in_def)
      then show ?thesis using same_objects(3) [OF more] by (simp add: waits_for_def same_wait_def)
    qed
  qed
  then have "event_step i s s'"
    using s'(2) more spares_waits [OF s'(2) may_wait_running [OF op t(1)] op]
    by (intro event_stepI [where f = "\<lambda>e. e"]) (simp_all add: waits_in_def)
  then show ?thesis using s' by blast
qed

lemma event_ok_left:
  assumes "event_ok i s" "thread_lists s' (Event i) = thread_lists s (Event i)" "event_bits (events s' i) AND event_bits (events s i) = event_bits (events s' i)"
    "\<And>u. u \<in> set (thread_lists s (Event i)) \<Longrightarrow> same_wait (threads s u) (threads s' u)"
  shows "event_ok i s'"
  using event_ok_sub [OF assms(1) _ _ assms(3)] assms(2,4) by simp

lemma event_step_from:
  assumes "event_step i s0 s'" "spares {Event i} s s0" "kernel.more s0 = kernel.more s"
  shows "event_step i s s'"
  using assms spares_trans [OF assms(2)] same_objects [OF assms(3)] by (simp add: event_step_def more_upd_event)

text \<open>The call, with the condition as one test.\<close>

lemma rt_event_recv_eq:
  assumes "scheduler_available s" "rt_current_thread s = Some t" "bits \<noteq> 0" "event_option opt"
  shows "rt_event_recv i bits opt timeout s =
    (let s0 = upd_thread t (\<lambda>th. th\<lparr>error := RT_EOK\<rparr>) s; e = event_bits (events s i) in
     if event_ready bits opt e then
       Some (Returned RT_EOK, Some (e AND bits), upd_event i (\<lambda>v. v\<lparr>event_bits := event_left bits opt (event_bits v)\<rparr>)
         (upd_thread t (\<lambda>th. th\<lparr>event_set := e AND bits, event_info := opt\<rparr>) s0))
     else if timeout = 0 then Some (Returned (- RT_ETIMEOUT), None, upd_thread t (\<lambda>th. th\<lparr>error := - RT_ETIMEOUT\<rparr>) s0)
     else do { s1 \<leftarrow> wait_on (Event i) t (event_flag (events s i)) timeout
                 (upd_thread t (\<lambda>th. th\<lparr>event_set := bits, event_info := opt\<rparr>) s0);
               Some (Waiting, None, s1) })"
proof (cases "opt AND RT_EVENT_FLAG_AND = 0")
  case True
  then have "opt AND RT_EVENT_FLAG_OR \<noteq> 0" using assms(4) by (simp add: event_option_def)
  then show ?thesis
    using True assms by (cases "event_bits (events s i) AND bits = 0")
      (simp_all add: rt_event_recv_def event_ready_def event_left_def Let_def and.commute [of bits])
next
  case False
  then show ?thesis
    using assms by (cases "event_bits (events s i) AND bits = bits")
      (simp_all add: rt_event_recv_def event_ready_def event_left_def Let_def and.commute [of bits])
qed

lemma rt_event_recv_ok:
  assumes op: "operational s" and ok: "event_ok i s" and t: "may_wait t s" "good_timeout timeout" and o: "event_option opt"
  shows "\<exists>r got s'. rt_event_recv i bits opt timeout s = Some (r, got, s') \<and> event_step i s s' \<and>
    event_received i t bits opt timeout r got s s'"
proof -
  note m = may_wait_D [OF t(1)]
  let ?s0 = "upd_thread t (\<lambda>th. th\<lparr>error := RT_EOK\<rparr>) s"
  let ?e = "event_bits (events s i)"
  have op0: "operational ?s0" and sp0: "\<And>K. spares K s ?s0" using error_upd [OF op m(1)] by blast+
  have run: "stat (threads s t) = RT_THREAD_RUNNING" using op m(1) by (auto simp: operational_def cur_running_def)
  have notin: "t \<notin> set (thread_lists s (Event i))"
    using not_waiting [OF kernel_inv_D(1) [OF operational_D(1) [OF op]], of t] run by simp
  have same: "same_wait (threads s u) (threads ?s0 u)" if "u \<in> set (thread_lists s (Event i))" for u
  proof -
    have "u \<noteq> t" using that notin by auto
    then show ?thesis by simp
  qed
  have ok0: "event_ok i ?s0" by (rule event_ok_left [OF ok]) (use same in simp_all)
  have c0: "rt_current_thread ?s0 = Some t" using m(1) by simp
  note eq = rt_event_recv_eq [OF m(4,1) _ o]
  consider (none) "bits = 0" | (now) "bits \<noteq> 0" "event_ready bits opt ?e"
    | (no) "bits \<noteq> 0" "\<not> event_ready bits opt ?e" "timeout = 0" | (wait) "bits \<noteq> 0" "\<not> event_ready bits opt ?e" "timeout \<noteq> 0"
    by blast
  then show ?thesis
  proof cases
    case none
    have "event_step i s s" using event_step_upd [OF op spares_refl, where f = "\<lambda>e. e" and i = i] ok by simp
    then show ?thesis using none m(4) by (simp add: rt_event_recv_def event_received_def)
  next
    case now
    let ?s1 = "upd_thread t (\<lambda>th. th\<lparr>event_set := ?e AND bits, event_info := opt\<rparr>) ?s0"
    let ?f = "\<lambda>e. e\<lparr>event_bits := event_left bits opt (event_bits e)\<rparr>"
    have op1: "operational ?s1" by (rule operational_data [OF op0]) (simp add: current_data_def)
    have sp1: "spares {Event i} s ?s1"
    proof -
      have "calm {} ?s0 ?s1" by (rule current_data_calm [OF op0 c0]) (simp add: current_data_def)
      then have "kept ?s0 ?s1" by (simp add: calm_def)
      then show ?thesis by (rule spares_trans [OF sp0 spares_kept])
    qed
    have same1: "same_wait (threads s u) (threads (upd_event i ?f ?s1) u)" if "u \<in> set (thread_lists s (Event i))" for u
    proof -
      have "u \<noteq> t" using that notin by auto
      then show ?thesis by simp
    qed
    have "event_ok i (upd_event i ?f ?s1)"
      by (rule event_ok_left [OF ok]) (use same1 event_left_less in simp_all)
    then have "event_step i s (upd_event i ?f ?s1)" using event_step_upd [OF op1 sp1] by simp
    moreover have "rt_event_recv i bits opt timeout s = Some (Returned RT_EOK, Some (?e AND bits), upd_event i ?f ?s1)"
      using now eq by (simp add: Let_def)
    ultimately show ?thesis using now by (simp add: event_received_def)
  next
    case no
    let ?s1 = "upd_thread t (\<lambda>th. th\<lparr>error := - RT_ETIMEOUT\<rparr>) ?s0"
    have op1: "operational ?s1" and sp1: "\<And>K. spares K ?s0 ?s1" using error_upd [OF op0 c0] by blast+
    have "event_ok i ?s1" by (rule event_ok_left [OF ok]) (use same notin in \<open>auto simp: same_wait_def\<close>)
    then have "event_step i s ?s1" using event_step_upd [OF op1 spares_trans [OF sp0 sp1], where f = "\<lambda>e. e" and i = i] by simp
    moreover have "rt_event_recv i bits opt timeout s = Some (Returned (- RT_ETIMEOUT), None, ?s1)"
      using no eq by (simp add: Let_def)
    ultimately show ?thesis using no by (simp add: event_received_def)
  next
    case wait
    let ?f = "\<lambda>th. th\<lparr>event_set := bits, event_info := opt\<rparr>"
    have t0: "may_wait t ?s0" "error (threads ?s0 t) = RT_EOK" "\<not> event_ready bits opt (event_bits (events ?s0 i))"
      using t(1) wait(2) by simp_all
    obtain s' where s': "wait_on (Event i) t (event_flag (events ?s0 i)) timeout (upd_thread t ?f ?s0) = Some s'"
      "waits_in (Event i) t (event_flag (events ?s0 i)) timeout ?s0 s'" "event_step i ?s0 s'"
      "event_set (threads s' t) = bits" "event_info (threads s' t) = opt"
      using event_wait_ok [OF op0 ok0 t0(1) t(2) t0(2) o t0(3)] by blast
    have "event_step i s s'" using event_step_from [OF s'(3) sp0] by simp
    moreover have "rt_event_recv i bits opt timeout s = Some (Waiting, None, s')"
      using wait eq s'(1) by (simp add: Let_def)
    moreover have "wait_place fl (threads ?s0) t xs = wait_place fl (threads s) t xs" for fl xs by (rule wait_place_cong) simp
    moreover have "kernel.more s' = kernel.more s" using s'(2) by (simp add: waits_in_def)
    ultimately show ?thesis
      using wait s'(2,4,5) same_objects(3) [of s' s] by (auto simp: event_received_def waits_in_def)
  qed
qed

subsection \<open>Initialising, resetting and detaching\<close>

lemma rt_event_init_ok:
  assumes op: "operational s" and "thread_lists s (Event i) = []"
  shows "\<exists>s'. rt_event_init i flag s = Some s' \<and> event_step i s s' \<and> event_bits (events s' i) = 0"
proof -
  let ?f = "\<lambda>_. \<lparr>event_bits = 0, event_flag = flag\<rparr>"
  have "event_ok i (upd_event i ?f s)" using assms(2) by (simp add: event_ok_def)
  then have "event_step i s (upd_event i ?f s)" using event_step_upd [OF op spares_refl] by simp
  then show ?thesis using ipc_object_init_ok [OF assms(2)] by (simp add: rt_event_init_def)
qed

lemma event_resume_all_ok:
  assumes op: "operational s"
  shows "\<exists>s'. ipc_list_resume_all (Event i) s = Some s' \<and> operational s' \<and> wakes (set (thread_lists s (Event i))) s s' \<and>
    thread_lists s' (Event i) = [] \<and> (\<forall>t \<in> set (thread_lists s (Event i)). runnable (threads s' t) \<and> error (threads s' t) = - RT_ERROR)"
proof -
  obtain s' where s': "ipc_list_resume_all (Event i) s = Some s'" "operational s'" "wakes (set (thread_lists s (Event i))) s s'"
    "\<forall>t \<in> set (thread_lists s (Event i)). error (threads s' t) = - RT_ERROR"
    using ipc_list_resume_all_ok [OF op] wait_list_simps(5) by blast
  have "thread_lists s' (Event i) = []" by (rule wakes_emptied [OF s'(3)]) simp_all
  then show ?thesis using s' by (simp add: wakes_def)
qed

lemma rt_event_detach_ok:
  assumes op: "operational s"
  shows "\<exists>s'. rt_event_detach i s = Some s' \<and> event_step i s s' \<and> thread_lists s' (Event i) = []"
proof -
  obtain s' where s': "ipc_list_resume_all (Event i) s = Some s'" "operational s'" "wakes (set (thread_lists s (Event i))) s s'"
    "thread_lists s' (Event i) = []" using event_resume_all_ok [OF op] by blast
  have "event_step i s s'"
    using s'(2-4) spares_kept [OF kept_wakes [OF s'(3)]]
    by (intro event_stepI [where f = "\<lambda>e. e"]) (simp_all add: event_ok_def wakes_def)
  then show ?thesis using s'(1,4) by (simp add: rt_event_detach_def)
qed

lemma rt_event_control_ok:
  assumes op: "operational s"
  shows "\<exists>s'. rt_event_control i RT_IPC_CMD_RESET s = Some (RT_EOK, s') \<and> event_step i s s' \<and> event_bits (events s' i) = 0 \<and>
    thread_lists s' (Event i) = [] \<and> (\<forall>t \<in> set (thread_lists s (Event i)). runnable (threads s' t) \<and> error (threads s' t) = - RT_ERROR)"
proof -
  let ?f = "\<lambda>e. e\<lparr>event_bits := 0\<rparr>"
  obtain s1 where s1: "ipc_list_resume_all (Event i) s = Some s1" "operational s1" "wakes (set (thread_lists s (Event i))) s s1"
    "thread_lists s1 (Event i) = []" "\<forall>t \<in> set (thread_lists s (Event i)). runnable (threads s1 t) \<and> error (threads s1 t) = - RT_ERROR"
    using event_resume_all_ok [OF op] by blast
  have op1: "operational (upd_event i ?f s1)" using s1(2) by simp
  obtain s' where s': "rt_schedule (upd_event i ?f s1) = Some s'" "woken {} (upd_event i ?f s1) s'" using schedule_ok [OF op1] by blast
  note w = woken_D [OF s'(2)]
  have more: "kernel.more s' = kernel.more (upd_event i ?f s1)" using w(2) by (simp add: wakes_def)
  have e: "thread_lists s' (Event i) = []" using w(5) [of "Event i"] s1(4) by simp
  have more1: "kernel.more s1 = kernel.more s" using s1(3) by (simp add: wakes_def)
  have "event_step i s s'"
  proof (rule event_stepI [where f = ?f])
    have "spares {Event i} s1 s'" using w(4) [of "{Event i}"] by (simp add: spares_def)
    then show "spares {Event i} s s'" using spares_trans [OF spares_kept [OF kept_wakes [OF s1(3)]]] by blast
    show "kernel.more s' = kernel.more (upd_event i ?f s)"
      unfolding more more_upd_event using same_objects [OF more1] by simp
  qed (use w(1) e in \<open>simp_all add: event_ok_def\<close>)
  moreover have "event_bits (events s' i) = 0" using same_objects(3) [OF more] by simp
  moreover have "runnable (threads s' t) \<and> error (threads s' t) = - RT_ERROR" if "t \<in> set (thread_lists s (Event i))" for t
    using that s1(5) w(2,7) by (simp add: wakes_def)
  ultimately show ?thesis using s1(1) s'(1) e by (simp add: rt_event_control_def)
qed

end
