(* ===== verification/Msg_Spec.thy ===== *)
theory Msg_Spec
  imports Prelude
begin

text \<open>
  The contract of a bounded queue of messages, as the threads that send and receive without waiting rely on it: a message
  goes to the end of the queue, an urgent one to its front, unless the queue is full; and the first one is received,
  unless there is none. What is received for a message need not be the message itself (\<open>holds\<close>). \<open>msg_run\<close> is a
  client: any sequence of attempts, and the contract's lemma says that it receives what the reference \<open>msg_spec\<close> says.
  The calls of mailboxes and of message queues interpret the locale.
\<close>

datatype 'm msg_op = Send 'm | Urgent 'm | Recv

text \<open>The reference: what is received, and what stays.\<close>

fun msg_spec :: "nat \<Rightarrow> 'm msg_op list \<Rightarrow> 'm list \<Rightarrow> 'm list \<times> 'm list" where
  "msg_spec n [] ms = ([], ms)"
| "msg_spec n (Send m # ops) ms = msg_spec n ops (if length ms < n then ms @ [m] else ms)"
| "msg_spec n (Urgent m # ops) ms = msg_spec n ops (if length ms < n then m # ms else ms)"
| "msg_spec n (Recv # ops) ms =
     (case ms of
        [] \<Rightarrow> msg_spec n ops []
      | m # ms' \<Rightarrow> let (out, rest) = msg_spec n ops ms' in (m # out, rest))"

text \<open>The same attempts with the calls of an object.\<close>

fun msg_run ::
  "('m \<Rightarrow> 'q \<Rightarrow> (bool \<times> 'q) option) \<Rightarrow> ('m \<Rightarrow> 'q \<Rightarrow> (bool \<times> 'q) option) \<Rightarrow> ('q \<Rightarrow> ('c option \<times> 'q) option) \<Rightarrow>
   'm msg_op list \<Rightarrow> 'q \<Rightarrow> ('c list \<times> 'q) option" where
  "msg_run put push get [] q = Some ([], q)"
| "msg_run put push get (Send m # ops) q = do { (_, q) \<leftarrow> put m q; msg_run put push get ops q }"
| "msg_run put push get (Urgent m # ops) q = do { (_, q) \<leftarrow> push m q; msg_run put push get ops q }"
| "msg_run put push get (Recv # ops) q =
     do { (c, q) \<leftarrow> get q; (out, q) \<leftarrow> msg_run put push get ops q; Some (case c of None \<Rightarrow> out | Some c \<Rightarrow> c # out, q) }"

locale msg_queue =
  fixes inv :: "'q \<Rightarrow> bool"
    and content :: "'q \<Rightarrow> 'c list"
    and cap :: "'q \<Rightarrow> nat"
    and fits :: "'q \<Rightarrow> 'm \<Rightarrow> bool"
    and holds :: "'c \<Rightarrow> 'm \<Rightarrow> bool"
    and put :: "'m \<Rightarrow> 'q \<Rightarrow> (bool \<times> 'q) option"
    and push :: "'m \<Rightarrow> 'q \<Rightarrow> (bool \<times> 'q) option"
    and get :: "'q \<Rightarrow> ('c option \<times> 'q) option"
  assumes put_law: "inv q \<Longrightarrow> fits q m \<Longrightarrow>
      \<exists>c q'. put m q = Some (length (content q) < cap q, q') \<and> inv q' \<and> holds c m \<and> cap q' = cap q \<and> fits q' = fits q \<and>
        content q' = (if length (content q) < cap q then content q @ [c] else content q)"
    and push_law: "inv q \<Longrightarrow> fits q m \<Longrightarrow>
      \<exists>c q'. push m q = Some (length (content q) < cap q, q') \<and> inv q' \<and> holds c m \<and> cap q' = cap q \<and> fits q' = fits q \<and>
        content q' = (if length (content q) < cap q then c # content q else content q)"
    and get_law: "inv q \<Longrightarrow>
      \<exists>q'. get q = Some (case content q of [] \<Rightarrow> None | c # _ \<Rightarrow> Some c, q') \<and> inv q' \<and> cap q' = cap q \<and> fits q' = fits q \<and>
        content q' = tl (content q)"
begin

lemma msg_run_spec:
  assumes "inv q" "list_all2 holds (content q) ms" "\<And>m. Send m \<in> set ops \<or> Urgent m \<in> set ops \<Longrightarrow> fits q m"
  shows "\<exists>out q'. msg_run put push get ops q = Some (out, q') \<and> inv q' \<and> cap q' = cap q \<and>
    list_all2 holds out (fst (msg_spec (cap q) ops ms)) \<and> list_all2 holds (content q') (snd (msg_spec (cap q) ops ms))"
  using assms
proof (induction ops arbitrary: q ms)
  case Nil
  then show ?case by simp
next
  case (Cons x ops)
  have len: "length ms = length (content q)" using Cons.prems(2) by (simp add: list_all2_lengthD)
  have fits: "fits q m" if "Send m \<in> set ops \<or> Urgent m \<in> set ops" for m using Cons.prems(3) that by auto
  show ?case
  proof (cases x)
    case (Send m)
    then have "fits q m" using Cons.prems(3) by simp
    from put_law [OF Cons.prems(1) this] obtain c q1 where q1: "put m q = Some (length (content q) < cap q, q1)" "inv q1" "holds c m"
      "cap q1 = cap q" "fits q1 = fits q" "content q1 = (if length (content q) < cap q then content q @ [c] else content q)" by blast
    have "list_all2 holds (content q1) (if length ms < cap q then ms @ [m] else ms)"
      using q1(3,6) Cons.prems(2) len by (simp add: list_all2_appendI)
    then show ?thesis using Cons.IH [of q1 "if length ms < cap q then ms @ [m] else ms"] q1 fits Send by simp
  next
    case (Urgent m)
    then have "fits q m" using Cons.prems(3) by simp
    from push_law [OF Cons.prems(1) this] obtain c q1 where q1: "push m q = Some (length (content q) < cap q, q1)" "inv q1" "holds c m"
      "cap q1 = cap q" "fits q1 = fits q" "content q1 = (if length (content q) < cap q then c # content q else content q)" by blast
    have "list_all2 holds (content q1) (if length ms < cap q then m # ms else ms)"
      using q1(3,6) Cons.prems(2) len by simp
    then show ?thesis using Cons.IH [of q1 "if length ms < cap q then m # ms else ms"] q1 fits Urgent by simp
  next
    case Recv
    obtain q1 where q1: "get q = Some (case content q of [] \<Rightarrow> None | c # _ \<Rightarrow> Some c, q1)" "inv q1" "cap q1 = cap q" "fits q1 = fits q"
      "content q1 = tl (content q)" using get_law [OF Cons.prems(1)] by blast
    have "list_all2 holds (content q1) (tl ms)" unfolding q1(5) using Cons.prems(2) by (cases ms; cases "content q") auto
    then obtain out q' where q': "msg_run put push get ops q1 = Some (out, q')" "inv q'" "cap q' = cap q1"
      "list_all2 holds out (fst (msg_spec (cap q1) ops (tl ms)))" "list_all2 holds (content q') (snd (msg_spec (cap q1) ops (tl ms)))"
      using Cons.IH [of q1 "tl ms"] q1 fits by auto
    show ?thesis
    proof (cases ms)
      case Nil
      then show ?thesis using q1 q' Recv Cons.prems(2) by simp
    next
      case m: (Cons m ms')
      then obtain c cs where "content q = c # cs" "holds c m" using Cons.prems(2) by (auto simp: list_all2_Cons2)
      then show ?thesis using q1 q' Recv m by (auto simp: case_prod_beta)
    qed
  qed
qed

end

end
