(* ===== verification/Ipc_Mailbox.thy ===== *)
theory Ipc_Mailbox
  imports Ipc_Frame Circular Msg_Spec
begin

text \<open>
  Mailboxes: the pool as a circular array of values, which is a queue of messages, and the effect of every call.
\<close>

subsection \<open>The pool\<close>

definition mb_ok :: "rt_mailbox \<Rightarrow> bool" where
  "mb_ok m \<longleftrightarrow> length (mb_pool m) = unat (mb_size m) \<and> mb_entry m \<le> mb_size m \<and>
     (if mb_size m = 0 then out_offset m = 0 \<and> in_offset m = 0
      else out_offset m < mb_size m \<and> unat (in_offset m) = (unat (out_offset m) + unat (mb_entry m)) mod unat (mb_size m))"

definition mb_content :: "rt_mailbox \<Rightarrow> u32 list" where
  "mb_content m = circ (mb_pool m) (unat (out_offset m)) (unat (mb_entry m))"

lemma length_mb_content [simp]: "length (mb_content m) = unat (mb_entry m)"
  by (simp add: mb_content_def)

lemma circ_put_single: "s < length a \<Longrightarrow> circ_put a s [v] = a[s := v]"
  by (simp add: circ_put_linear upd_conv_take_nth_drop)

text \<open>The next place of the pool.\<close>

lemma next_offset:
  fixes x n :: u16
  assumes "x < n"
  shows "unat (if n \<le> x + 1 then 0 else x + 1) = (unat x + 1) mod unat n"
proof -
  have s: "unat (x + 1) = unat x + 1" using assms by (rule unat_plus_1)
  show ?thesis
  proof (cases "n \<le> x + 1")
    case True
    then have "unat x + 1 = unat n" using assms s by (simp add: word_le_nat_alt word_less_nat_alt)
    then show ?thesis using True by simp
  next
    case False
    then have "unat x + 1 < unat n" using s by (simp add: word_le_nat_alt)
    then show ?thesis using False s by simp
  qed
qed

lemma mb_okD:
  assumes "mb_ok m" "mb_size m \<noteq> 0"
  shows "length (mb_pool m) = unat (mb_size m)" "unat (mb_entry m) \<le> unat (mb_size m)" "unat (out_offset m) < unat (mb_size m)"
    "unat (in_offset m) = (unat (out_offset m) + unat (mb_entry m)) mod unat (mb_size m)" "in_offset m < mb_size m"
  using assms by (simp_all add: mb_ok_def word_le_nat_alt word_less_nat_alt)

lemma mb_store_ok:
  assumes ok: "mb_ok m" and room: "mb_entry m \<noteq> mb_size m"
  shows "\<exists>m'. mb_store v m = Some (True, m') \<and> mb_ok m' \<and> mb_content m' = mb_content m @ [v] \<and> mb_size m' = mb_size m \<and> mb_flag m' = mb_flag m"
proof -
  have n0: "mb_size m \<noteq> 0" using ok room by (auto simp: mb_ok_def)
  note D = mb_okD [OF ok n0]
  have e: "unat (mb_entry m) < unat (mb_size m)" using D(2) room by (simp add: order_less_le word_unat_eq_iff)
  then have lt: "mb_entry m < mb_size m" by (simp add: word_less_nat_alt)
  have s: "unat (mb_entry m + 1) = unat (mb_entry m) + 1" by (rule unat_plus_1 [OF lt])
  have "mb_entry m \<noteq> 0xffff" using lt below_max16_less by blast
  then have max: "mb_entry m < RT_MB_ENTRY_MAX" by (simp add: RT_MB_ENTRY_MAX_def below_max16)
  let ?in = "unat (in_offset m)" and ?out = "unat (out_offset m)" and ?n = "unat (mb_size m)"
  let ?pool = "(mb_pool m)[?in := v]"
  let ?off = "if mb_size m \<le> in_offset m + 1 then 0 else in_offset m + 1"
  let ?m' = "m\<lparr>mb_pool := ?pool, in_offset := ?off, mb_entry := mb_entry m + 1\<rparr>"
  have "mb_store v m = Some (True, ?m')" using D(1,5) max by (simp add: mb_store_def Let_def word_less_nat_alt)
  moreover have "mb_ok ?m'"
  proof -
    have "unat ?off = (?out + (unat (mb_entry m) + 1)) mod ?n"
      unfolding next_offset [OF D(5)] D(4) by (simp add: mod_simps ac_simps)
    then show ?thesis using D(1-3) n0 s e by (simp add: mb_ok_def word_le_nat_alt word_less_nat_alt)
  qed
  moreover have "mb_content ?m' = mb_content m @ [v]"
  proof -
    have "?pool = circ_put (mb_pool m) ((?out + unat (mb_entry m)) mod length (mb_pool m)) [v]"
      using D by (simp add: circ_put_single)
    then show ?thesis
      using circ_circ_put_append [of ?out "mb_pool m" "unat (mb_entry m)" "[v]"] D(1,3) e s by (simp add: mb_content_def)
  qed
  ultimately show ?thesis by (intro exI [of _ ?m']) simp
qed

lemma mb_push_ok:
  assumes ok: "mb_ok m" and room: "mb_entry m \<noteq> mb_size m"
  shows "\<exists>m'. mb_push v m = Some m' \<and> mb_ok m' \<and> mb_content m' = v # mb_content m \<and> mb_size m' = mb_size m \<and> mb_flag m' = mb_flag m"
proof -
  have n0: "mb_size m \<noteq> 0" using ok room by (auto simp: mb_ok_def)
  note D = mb_okD [OF ok n0]
  let ?out = "unat (out_offset m)" and ?n = "unat (mb_size m)" and ?e = "unat (mb_entry m)"
  have e: "?e < ?n" using D(2) room by (simp add: order_less_le word_unat_eq_iff)
  then have s: "unat (mb_entry m + 1) = ?e + 1" by (intro unat_plus_1 [of _ "mb_size m"]) (simp add: word_less_nat_alt)
  let ?off = "if out_offset m > 0 then out_offset m - 1 else mb_size m - 1"
  have off: "unat ?off = (?out + (?n - 1)) mod ?n"
  proof (cases "out_offset m > 0")
    case True
    then have "0 < ?out" by (simp add: word_less_nat_alt)
    moreover from this have "unat (out_offset m - 1) = ?out - 1" using unat_sub_le [of 1 "out_offset m"] by (simp add: word_le_nat_alt)
    moreover have "(?out + (?n - 1)) mod ?n = ?out - 1"
    proof -
      have eq: "?out + (?n - 1) = (?out - 1) + ?n" using \<open>0 < ?out\<close> D(3) by simp
      have "?out - 1 < ?n" using D(3) by simp
      then show ?thesis unfolding eq by simp
    qed
    ultimately show ?thesis using True by simp
  next
    case False
    then have "?out = 0" by (simp add: word_less_nat_alt)
    moreover have "unat (mb_size m - 1) = ?n - 1" using unat_sub_le [of 1 "mb_size m"] D(3) by (simp add: word_le_nat_alt)
    ultimately show ?thesis using False D(3) by simp
  qed
  have lt: "unat ?off < ?n" unfolding off using D(3) by (intro mod_less_divisor) simp
  let ?pool = "(mb_pool m)[unat ?off := v]"
  let ?m' = "m\<lparr>out_offset := ?off, mb_pool := ?pool, mb_entry := mb_entry m + 1\<rparr>"
  have "mb_push v m = Some ?m'" using lt D(1) by (simp add: mb_push_def Let_def)
  moreover have nxt: "(unat ?off + 1) mod ?n = ?out"
  proof -
    have "(unat ?off + 1) mod ?n = (?out + (?n - 1) + 1) mod ?n" unfolding off by (simp add: mod_simps)
    also have "?out + (?n - 1) + 1 = ?out + ?n" using D(3) by simp
    finally show ?thesis using D(3) by simp
  qed
  moreover have "mb_ok ?m'"
  proof -
    have "(unat ?off + (?e + 1)) mod ?n = ((unat ?off + 1) mod ?n + ?e) mod ?n" by (simp add: mod_simps ac_simps)
    then have "(unat ?off + (?e + 1)) mod ?n = unat (in_offset m)" using nxt D(4) by simp
    then show ?thesis using D(1,2) n0 s e lt by (simp add: mb_ok_def word_le_nat_alt word_less_nat_alt)
  qed
  moreover have "mb_content ?m' = v # mb_content m"
  proof -
    have put: "?pool = circ_put (mb_pool m) ((?out + (?n - 1)) mod length (mb_pool m)) [v]"
      using D(1) off lt by (simp add: circ_put_single)
    have "circ ?pool ?out (?n - 1) = circ (mb_pool m) ?out (?n - 1)"
      unfolding put by (rule circ_circ_put_before) (use D(1,3) in simp_all)
    then have "circ ?pool ?out ?e = circ (mb_pool m) ?out ?e"
      using circ_take [of ?e "?n - 1" ?pool ?out] circ_take [of ?e "?n - 1" "mb_pool m" ?out] e by simp
    moreover have "circ ?pool (unat ?off) 1 = [v]" using D(1) lt by (simp add: circ_def)
    ultimately show ?thesis
      using circ_append [of ?pool "unat ?off" 1 ?e] nxt D(1) s by (simp add: mb_content_def)
  qed
  ultimately show ?thesis by (intro exI [of _ ?m']) simp
qed

lemma mb_take_ok:
  assumes ok: "mb_ok m" and c: "mb_content m = c # cs"
  shows "\<exists>m'. mb_take m = Some (c, m') \<and> mb_ok m' \<and> mb_content m' = cs \<and> mb_size m' = mb_size m \<and> mb_flag m' = mb_flag m"
proof -
  let ?out = "unat (out_offset m)" and ?n = "unat (mb_size m)" and ?e = "unat (mb_entry m)"
  have e: "?e = Suc (length cs)" using c length_mb_content [of m] by simp
  then have n0: "mb_size m \<noteq> 0" using ok by (auto simp: mb_ok_def word_le_nat_alt)
  note D = mb_okD [OF ok n0]
  have s: "unat (mb_entry m - 1) = length cs" using unat_sub_le [of 1 "mb_entry m"] e by (simp add: word_le_nat_alt)
  let ?off = "if mb_size m \<le> out_offset m + 1 then 0 else out_offset m + 1"
  have off: "unat ?off = (?out + 1) mod ?n" by (rule next_offset) (use D(3) in \<open>simp add: word_less_nat_alt\<close>)
  let ?m' = "m\<lparr>out_offset := ?off, mb_entry := mb_entry m - 1\<rparr>"
  have split: "mb_content m = mb_pool m ! ?out # circ (mb_pool m) (unat ?off) (length cs)"
    using circ_append [of "mb_pool m" ?out 1 "length cs"] e D(1,3) off by (simp add: mb_content_def circ_def)
  have "mb_entry m > 0" using e by (simp add: word_less_nat_alt)
  then have "mb_take m = Some (c, ?m')" using split c D(1,3) by (simp add: mb_take_def Let_def)
  moreover have "mb_ok ?m'"
  proof -
    have "((?out + 1) mod ?n + length cs) mod ?n = unat (in_offset m)" unfolding D(4) e by (simp add: mod_simps)
    moreover have "(?out + 1) mod ?n < ?n" using D(3) by (intro mod_less_divisor) simp
    ultimately show ?thesis using D(1,2) n0 s e off by (simp add: mb_ok_def word_le_nat_alt word_less_nat_alt)
  qed
  moreover have "mb_content ?m' = cs" using split c s by (simp add: mb_content_def)
  ultimately show ?thesis by (intro exI [of _ ?m']) simp
qed

subsection \<open>Calls\<close>

definition mb_step :: "nat \<Rightarrow> ipc \<Rightarrow> ipc \<Rightarrow> bool" where
  "mb_step i s s' \<longleftrightarrow> operational s' \<and> spares {Mb_recv i, Mb_send i} s s' \<and> mb_ok (mailboxes s' i) \<and>
     mb_size (mailboxes s' i) = mb_size (mailboxes s i) \<and> kernel.more s' = kernel.more (upd_mb i (\<lambda>_. mailboxes s' i) s)"

lemma more_upd_mb: "kernel.more (upd_mb i f s) = ipc_ext (sems s) (mutexes s) (events s) ((mailboxes s)(i := f (mailboxes s i))) (mqs s) ()"
  by (cases s) (simp add: upd_mb_def)

text \<open>The threads have changed as in a call of the kernel, before or after the mailbox.\<close>

lemma mb_stepI:
  assumes "operational s'" "spares {Mb_recv i, Mb_send i} (upd_mb i (\<lambda>_. m) s) s'" "mb_ok m" "mb_size m = mb_size (mailboxes s i)"
    "kernel.more s' = kernel.more (upd_mb i (\<lambda>_. m) s)"
  shows "mb_step i s s'" "mailboxes s' i = m"
proof -
  show m: "mailboxes s' i = m" using same_objects(4) [OF assms(5)] by simp
  have "spares {Mb_recv i, Mb_send i} s s'" using assms(2) by (simp add: spares_def)
  then show "mb_step i s s'" using assms m by (simp add: mb_step_def)
qed

lemma upd_mb_same [simp]: "upd_mb i (\<lambda>_. mailboxes s i) s = s" "upd_mb i (\<lambda>m. m) s = s" by (simp_all add: upd_mb_def)

lemma mb_step_threads:
  assumes "operational s'" "spares {Mb_recv i, Mb_send i} s s'" "kernel.more s' = kernel.more s" "mb_ok (mailboxes s i)"
  shows "mb_step i s s'" "mailboxes s' i = mailboxes s i"
  using mb_stepI [of s' i "mailboxes s i" s] assms by simp_all

lemma mb_put_ok:
  assumes op: "operational s" and ok: "mb_ok (mailboxes s i)" and room: "mb_entry (mailboxes s i) \<noteq> mb_size (mailboxes s i)"
  shows "\<exists>s'. mb_put i v s = Some (Done RT_EOK None, s') \<and> mb_step i s s' \<and>
    mb_content (mailboxes s' i) = mb_content (mailboxes s i) @ [v] \<and> head_woken (Mb_recv i) s s'"
proof -
  obtain m where m: "mb_store v (mailboxes s i) = Some (True, m)" "mb_ok m" "mb_content m = mb_content (mailboxes s i) @ [v]"
    "mb_size m = mb_size (mailboxes s i)" using mb_store_ok [OF ok room] by blast
  have "operational (upd_mb i (\<lambda>_. m) s)" using op by simp
  from msg_stored_ok [OF this wait_list_simps(6) [of i]] obtain s' where s': "msg_stored (Mb_recv i) True (upd_mb i (\<lambda>_. m) s) = Some (RT_EOK, s')"
    "operational s'" "kept (upd_mb i (\<lambda>_. m) s) s'" "head_woken (Mb_recv i) (upd_mb i (\<lambda>_. m) s) s'" by blast
  have "kernel.more s' = kernel.more (upd_mb i (\<lambda>_. m) s)" using s'(3) by (simp add: kept_def)
  note step = mb_stepI [OF s'(2) spares_kept [OF s'(3)] m(2,4) this]
  have "head_woken (Mb_recv i) s s'" using s'(4) by (simp add: head_woken_def split: list.splits)
  then show ?thesis using m s' step by (simp add: mb_put_def msg_error_def)
qed

lemma mb_get_ok:
  assumes op: "operational s" and ok: "mb_ok (mailboxes s i)" and c: "mb_content (mailboxes s i) = v # vs"
  shows "\<exists>s'. mb_get i s = Some (Done RT_EOK (Some v), s') \<and> mb_step i s s' \<and>
    mb_content (mailboxes s' i) = vs \<and> head_woken (Mb_send i) s s'"
proof -
  obtain m where m: "mb_take (mailboxes s i) = Some (v, m)" "mb_ok m" "mb_content m = vs"
    "mb_size m = mb_size (mailboxes s i)" using mb_take_ok [OF ok c] by blast
  have "operational (upd_mb i (\<lambda>_. m) s)" using op by simp
  from wake_first_head [OF this wait_list_simps(7) [of i]] obtain s' where s': "wake_first (Mb_send i) (upd_mb i (\<lambda>_. m) s) = Some s'"
    "operational s'" "kept (upd_mb i (\<lambda>_. m) s) s'" "head_woken (Mb_send i) (upd_mb i (\<lambda>_. m) s) s'" by blast
  have "kernel.more s' = kernel.more (upd_mb i (\<lambda>_. m) s)" using s'(3) by (simp add: kept_def)
  note step = mb_stepI [OF s'(2) spares_kept [OF s'(3)] m(2,4) this]
  have "head_woken (Mb_send i) s s'" using s'(4) by (simp add: head_woken_def split: list.splits)
  then show ?thesis using m s' step by (simp add: mb_get_def)
qed

lemma mb_wait_ok:
  assumes op: "operational s" and ok: "mb_ok (mailboxes s i)" and t: "may_wait t s" "good_timeout timeout"
    and l: "l = Mb_recv i \<or> l = Mb_send i"
  shows "\<exists>s'. wait_on l t flag timeout (upd_thread t (\<lambda>th. th\<lparr>error := RT_EOK\<rparr>) s) = Some s' \<and> waits_in l t flag timeout s s' \<and>
    mb_step i s s' \<and> mailboxes s' i = mailboxes s i"
proof -
  have wl: "wait_list l" using l by auto
  obtain s' where s': "wait_on l t flag timeout (upd_thread t (\<lambda>th. th\<lparr>error := RT_EOK\<rparr>) s) = Some s'" "waits_in l t flag timeout s s'"
    "spares {l} s s'" using wait_clear_ok [OF op t wl] by blast
  have "spares {Mb_recv i, Mb_send i} s s'" by (rule spares_more [OF s'(3)]) (use l in auto)
  moreover have "operational s'" "kernel.more s' = kernel.more s" using s'(2) by (simp_all add: waits_in_def)
  ultimately show ?thesis using s'(1,2) mb_step_threads [OF _ _ _ ok, of s'] by blast
qed

lemma mb_error_ok:
  assumes op: "operational s" and ok: "mb_ok (mailboxes s i)" and c: "rt_current_thread s = Some t"
  shows "mb_step i s (upd_thread t (\<lambda>th. th\<lparr>error := e\<rparr>) s)"
  using mb_step_threads(1) [OF error_upd [OF op c] _ ok] by simp

lemma mb_send_loop_ok:
  assumes op: "operational s" and ok: "mb_ok (mailboxes s i)" and c: "rt_current_thread s = Some t"
    and t: "timeout \<noteq> 0 \<longrightarrow> may_wait t s \<and> good_timeout timeout"
  shows "\<exists>r s'. mb_send_loop i v timeout s = Some (r, s') \<and> mb_step i s s' \<and>
    (if length (mb_content (mailboxes s i)) = unat (mb_size (mailboxes s i))
     then mailboxes s' i = mailboxes s i \<and> msg_waits (Mb_send i) t (mb_flag (mailboxes s i)) timeout (- RT_EFULL) r s s'
     else r = Done RT_EOK None \<and> mb_content (mailboxes s' i) = mb_content (mailboxes s i) @ [v] \<and> head_woken (Mb_recv i) s s')"
proof (cases "mb_entry (mailboxes s i) = mb_size (mailboxes s i)")
  case False
  then have "length (mb_content (mailboxes s i)) \<noteq> unat (mb_size (mailboxes s i))" by (simp add: word_unat_eq_iff)
  then show ?thesis using mb_put_ok [OF op ok False, of v] False by (auto simp: mb_send_loop_def)
next
  case full: True
  show ?thesis
  proof (cases "timeout = 0")
    case True
    then show ?thesis using full c mb_error_ok [OF op ok c] by (simp add: mb_send_loop_def msg_waits_def msg_error_def)
  next
    case False
    then have t': "may_wait t s" "good_timeout timeout" using t by simp_all
    obtain s' where s': "wait_on (Mb_send i) t (mb_flag (mailboxes s i)) timeout (upd_thread t (\<lambda>th. th\<lparr>error := RT_EOK\<rparr>) s) = Some s'"
      "waits_in (Mb_send i) t (mb_flag (mailboxes s i)) timeout s s'" "mb_step i s s'" "mailboxes s' i = mailboxes s i"
      using mb_wait_ok [OF op ok t', of "Mb_send i"] by blast
    moreover have "rt_tick s' = rt_tick s" using s'(2) by (simp add: waits_in_def)
    ultimately show ?thesis using full False c by (simp add: mb_send_loop_def msg_waits_def)
  qed
qed

lemma mb_recv_loop_ok:
  assumes op: "operational s" and ok: "mb_ok (mailboxes s i)" and c: "rt_current_thread s = Some t"
    and t: "timeout \<noteq> 0 \<longrightarrow> may_wait t s \<and> good_timeout timeout"
  shows "\<exists>r s'. mb_recv_loop i timeout s = Some (r, s') \<and> mb_step i s s' \<and>
    (case mb_content (mailboxes s i) of
       [] \<Rightarrow> mailboxes s' i = mailboxes s i \<and> msg_waits (Mb_recv i) t (mb_flag (mailboxes s i)) timeout (- RT_ETIMEOUT) r s s'
     | v # vs \<Rightarrow> r = Done RT_EOK (Some v) \<and> mb_content (mailboxes s' i) = vs \<and> head_woken (Mb_send i) s s')"
proof (cases "mb_content (mailboxes s i)")
  case (Cons v vs)
  then have "mb_entry (mailboxes s i) \<noteq> 0" using length_mb_content [of "mailboxes s i"] by auto
  then show ?thesis using mb_get_ok [OF op ok Cons] Cons by (simp add: mb_recv_loop_def)
next
  case Nil
  then have none: "mb_entry (mailboxes s i) = 0" using length_mb_content [of "mailboxes s i"] by (simp add: word_unat_eq_iff)
  show ?thesis
  proof (cases "timeout = 0")
    case True
    let ?s0 = "upd_thread t (\<lambda>th. th\<lparr>error := RT_EOK\<rparr>) s"
    let ?s1 = "upd_thread t (\<lambda>th. th\<lparr>error := - RT_ETIMEOUT\<rparr>) ?s0"
    have c0: "rt_current_thread ?s0 = Some t" using c by simp
    note e0 = error_upd [OF op c, where e = RT_EOK]
    have "mb_step i s ?s1"
      using mb_step_threads(1) [OF error_upd(1) [OF e0(1) c0] spares_trans [OF e0(2) error_upd(2) [OF e0(1) c0]] _ ok] by simp
    then show ?thesis using none Nil True c by (simp add: mb_recv_loop_def msg_waits_def msg_error_def)
  next
    case False
    then have t': "may_wait t s" "good_timeout timeout" using t by simp_all
    obtain s' where s': "wait_on (Mb_recv i) t (mb_flag (mailboxes s i)) timeout (upd_thread t (\<lambda>th. th\<lparr>error := RT_EOK\<rparr>) s) = Some s'"
      "waits_in (Mb_recv i) t (mb_flag (mailboxes s i)) timeout s s'" "mb_step i s s'" "mailboxes s' i = mailboxes s i"
      using mb_wait_ok [OF op ok t', of "Mb_recv i"] by blast
    moreover have "rt_tick s' = rt_tick s" using s'(2) by (simp add: waits_in_def)
    ultimately show ?thesis using none Nil False c by (simp add: mb_recv_loop_def msg_waits_def)
  qed
qed

text \<open>What a call to send, or to receive, does at once.\<close>

definition mb_sent :: "nat \<Rightarrow> tid \<Rightarrow> u32 \<Rightarrow> u32 \<Rightarrow> 'v msg_result \<Rightarrow> ipc \<Rightarrow> ipc \<Rightarrow> bool" where
  "mb_sent i t v timeout r s s' \<longleftrightarrow>
     (let m = mailboxes s i in
      if length (mb_content m) = unat (mb_size m)
      then mailboxes s' i = m \<and> msg_waits (Mb_send i) t (mb_flag m) timeout (- RT_EFULL) r s s'
      else r = Done RT_EOK None \<and> mb_content (mailboxes s' i) = mb_content m @ [v] \<and> head_woken (Mb_recv i) s s')"

definition mb_received :: "nat \<Rightarrow> tid \<Rightarrow> u32 \<Rightarrow> u32 msg_result \<Rightarrow> ipc \<Rightarrow> ipc \<Rightarrow> bool" where
  "mb_received i t timeout r s s' \<longleftrightarrow>
     (let m = mailboxes s i in
      case mb_content m of
        [] \<Rightarrow> mailboxes s' i = m \<and> msg_waits (Mb_recv i) t (mb_flag m) timeout (- RT_ETIMEOUT) r s s'
      | v # vs \<Rightarrow> r = Done RT_EOK (Some v) \<and> mb_content (mailboxes s' i) = vs \<and> head_woken (Mb_send i) s s')"

lemma mb_step_refl: "operational s \<Longrightarrow> mb_ok (mailboxes s i) \<Longrightarrow> mb_step i s s"
  by (rule mb_step_threads(1)) (simp_all add: spares_refl)

lemma rt_mb_send_wait_ok:
  assumes op: "operational s" and ok: "mb_ok (mailboxes s i)" and c: "rt_current_thread s = Some t"
    and t: "timeout \<noteq> 0 \<longrightarrow> may_wait t s \<and> good_timeout timeout"
  shows "\<exists>(r :: 'v msg_result) s'. rt_mb_send_wait i v timeout s = Some (r, s') \<and> mb_step i s s' \<and> mb_sent i t v timeout r s s'"
proof (cases "mb_entry (mailboxes s i) = mb_size (mailboxes s i) \<and> timeout = 0")
  case True
  then show ?thesis
    using mb_step_refl [OF op ok] by (auto simp: rt_mb_send_wait_def mb_sent_def msg_waits_def msg_error_def Let_def)
next
  case False
  have "timeout \<noteq> 0 \<longrightarrow> scheduler_available s" using t by (simp add: may_wait_def)
  then have e: "rt_mb_send_wait i v timeout s = (mb_send_loop i v timeout s :: ('v msg_result \<times> ipc) option)"
    using False by (auto simp: rt_mb_send_wait_def)
  show ?thesis unfolding e mb_sent_def Let_def by (rule mb_send_loop_ok [OF op ok c t])
qed

lemma rt_mb_recv_ok:
  assumes op: "operational s" and ok: "mb_ok (mailboxes s i)" and c: "rt_current_thread s = Some t"
    and t: "timeout \<noteq> 0 \<longrightarrow> may_wait t s \<and> good_timeout timeout"
  shows "\<exists>r s'. rt_mb_recv i timeout s = Some (r, s') \<and> mb_step i s s' \<and> mb_received i t timeout r s s'"
proof (cases "mb_entry (mailboxes s i) = 0 \<and> timeout = 0")
  case True
  then have "mb_content (mailboxes s i) = []" by (simp add: mb_content_def)
  then show ?thesis
    using True mb_step_refl [OF op ok] by (auto simp: rt_mb_recv_def mb_received_def msg_waits_def msg_error_def Let_def)
next
  case False
  have "timeout \<noteq> 0 \<longrightarrow> scheduler_available s" using t by (simp add: may_wait_def)
  then have e: "rt_mb_recv i timeout s = mb_recv_loop i timeout s" using False by (auto simp: rt_mb_recv_def)
  show ?thesis unfolding e mb_received_def Let_def by (rule mb_recv_loop_ok [OF op ok c t])
qed

text \<open>The thread that was waiting goes on: it ends with its error, or tries again with the rest of its time.\<close>

lemma rt_mb_send_resume_ok:
  assumes op: "operational s" and ok: "mb_ok (mailboxes s i)" and t: "may_wait t s" "good_timeout timeout"
    and d: "0 < sint timeout \<longrightarrow> rt_tick s - tick \<le> timeout"
  shows "\<exists>r s'. rt_mb_send_resume i v timeout tick s = Some (r, s') \<and> mb_step i s s' \<and>
    (if error (threads s t) \<noteq> RT_EOK then r = Done (error (threads s t)) None \<and> s' = s
     else mb_sent i t v (time_left timeout tick s) r s s')"
proof (cases "error (threads s t) = RT_EOK")
  case False
  then show ?thesis using may_wait_D(1) [OF t(1)] mb_step_refl [OF op ok] by (simp add: rt_mb_send_resume_def msg_error_def)
next
  case True
  note c = may_wait_D(1) [OF t(1)]
  have "time_left timeout tick s \<noteq> 0 \<longrightarrow> may_wait t s \<and> good_timeout (time_left timeout tick s)"
    using t(1) time_left_good(1) [OF t(2) d] by simp
  from mb_send_loop_ok [OF op ok c this, of v] show ?thesis
    using True c by (simp add: rt_mb_send_resume_def mb_sent_def Let_def)
qed

lemma rt_mb_recv_resume_ok:
  assumes op: "operational s" and ok: "mb_ok (mailboxes s i)" and t: "may_wait t s" "good_timeout timeout"
    and d: "0 < sint timeout \<longrightarrow> rt_tick s - tick \<le> timeout"
  shows "\<exists>r s'. rt_mb_recv_resume i timeout tick s = Some (r, s') \<and> mb_step i s s' \<and>
    (if error (threads s t) \<noteq> RT_EOK then r = Done (error (threads s t)) None \<and> s' = s
     else mb_received i t (time_left timeout tick s) r s s')"
proof (cases "error (threads s t) = RT_EOK")
  case False
  then show ?thesis using may_wait_D(1) [OF t(1)] mb_step_refl [OF op ok] by (simp add: rt_mb_recv_resume_def msg_error_def)
next
  case True
  note c = may_wait_D(1) [OF t(1)]
  have "time_left timeout tick s \<noteq> 0 \<longrightarrow> may_wait t s \<and> good_timeout (time_left timeout tick s)"
    using t(1) time_left_good(1) [OF t(2) d] by simp
  from mb_recv_loop_ok [OF op ok c this] show ?thesis
    using True c by (simp add: rt_mb_recv_resume_def mb_received_def Let_def)
qed

lemma rt_mb_urgent_ok:
  assumes op: "operational s" and ok: "mb_ok (mailboxes s i)"
  shows "\<exists>r s'. rt_mb_urgent i v s = Some (r, s') \<and> mb_step i s s' \<and>
    (if length (mb_content (mailboxes s i)) = unat (mb_size (mailboxes s i)) then r = - RT_EFULL \<and> s' = s
     else r = RT_EOK \<and> mb_content (mailboxes s' i) = v # mb_content (mailboxes s i) \<and> head_woken (Mb_recv i) s s')"
proof (cases "mb_entry (mailboxes s i) = mb_size (mailboxes s i)")
  case True
  then show ?thesis using mb_step_refl [OF op ok] by (simp add: rt_mb_urgent_def)
next
  case False
  obtain m where m: "mb_push v (mailboxes s i) = Some m" "mb_ok m" "mb_content m = v # mb_content (mailboxes s i)"
    "mb_size m = mb_size (mailboxes s i)" using mb_push_ok [OF ok False] by blast
  have "operational (upd_mb i (\<lambda>_. m) s)" using op by simp
  from msg_stored_ok [OF this wait_list_simps(6) [of i]] obtain s' where s': "msg_stored (Mb_recv i) True (upd_mb i (\<lambda>_. m) s) = Some (RT_EOK, s')"
    "operational s'" "kept (upd_mb i (\<lambda>_. m) s) s'" "head_woken (Mb_recv i) (upd_mb i (\<lambda>_. m) s) s'" by blast
  have "kernel.more s' = kernel.more (upd_mb i (\<lambda>_. m) s)" using s'(3) by (simp add: kept_def)
  note step = mb_stepI [OF s'(2) spares_kept [OF s'(3)] m(2,4) this]
  have "head_woken (Mb_recv i) s s'" using s'(4) by (simp add: head_woken_def split: list.splits)
  moreover have "length (mb_content (mailboxes s i)) \<noteq> unat (mb_size (mailboxes s i))" using False by (simp add: word_unat_eq_iff)
  ultimately show ?thesis using m s' step False by (simp add: rt_mb_urgent_def)
qed

lemma rt_mb_control_ok:
  assumes op: "operational s" and ok: "mb_ok (mailboxes s i)"
  shows "\<exists>s'. rt_mb_control i RT_IPC_CMD_RESET s = Some (RT_EOK, s') \<and> mb_step i s s' \<and> mb_content (mailboxes s' i) = [] \<and>
    (\<forall>t \<in> set (thread_lists s (Mb_recv i)) \<union> set (thread_lists s (Mb_send i)).
       runnable (threads s' t) \<and> error (threads s' t) = - RT_ERROR)"
proof -
  let ?W = "set (thread_lists s (Mb_recv i)) \<union> set (thread_lists s (Mb_send i))"
  let ?f = "\<lambda>m. m\<lparr>mb_entry := 0, in_offset := 0, out_offset := 0\<rparr>"
  obtain s1 s2 where s2: "ipc_list_resume_all (Mb_recv i) s = Some s1" "ipc_list_resume_all (Mb_send i) s1 = Some s2" "operational s2"
    "wakes ?W s s2" "\<forall>t \<in> ?W. runnable (threads s2 t) \<and> error (threads s2 t) = - RT_ERROR"
    using resume_both_ok [OF op wait_list_simps(6,7)] by blast
  have m2: "mailboxes s2 = mailboxes s" using same_objects(4) [OF more_wakes [OF s2(4)]] .
  have e: "upd_mb i ?f s2 = upd_mb i (\<lambda>_. ?f (mailboxes s i)) s2" using m2 by (simp add: upd_mb_def)
  have "operational (upd_mb i ?f s2)" using s2(3) by simp
  from schedule_ok [OF this] obtain s' where s': "rt_schedule (upd_mb i ?f s2) = Some s'" "woken {} (upd_mb i ?f s2) s'" by blast
  note w = woken_D [OF s'(2)]
  have ok': "mb_ok (?f (mailboxes s i))" using ok by (simp add: mb_ok_def) (auto simp: word_gt_0)
  have more: "kernel.more s' = kernel.more (upd_mb i (\<lambda>_. ?f (mailboxes s i)) s)"
    using more_wakes [OF w(2)] same_objects [OF more_wakes [OF s2(4)]] by (simp add: more_upd_mb)
  have sp: "spares {Mb_recv i, Mb_send i} (upd_mb i (\<lambda>_. ?f (mailboxes s i)) s) s'"
  proof -
    have "spares {Mb_recv i, Mb_send i} s2 s'" using w(4) [of "{Mb_recv i, Mb_send i}"] by (simp add: spares_def)
    then have "spares {Mb_recv i, Mb_send i} s s'" using spares_trans [OF spares_kept [OF kept_wakes [OF s2(4)]]] by blast
    then show ?thesis by (simp add: spares_def)
  qed
  note step = mb_stepI [OF w(1) sp ok' _ more]
  have "runnable (threads s' t) \<and> error (threads s' t) = - RT_ERROR" if "t \<in> ?W" for t
    using that s2(5) w(2,7) by (simp add: wakes_def)
  moreover have "mb_content (?f (mailboxes s i)) = []" by (simp add: mb_content_def)
  ultimately show ?thesis using s2(1,2) s'(1) step by (simp add: rt_mb_control_def)
qed

lemma rt_mb_detach_ok:
  assumes op: "operational s" and ok: "mb_ok (mailboxes s i)"
  shows "\<exists>s'. rt_mb_detach i s = Some s' \<and> mb_step i s s' \<and> thread_lists s' (Mb_recv i) = [] \<and> thread_lists s' (Mb_send i) = []"
proof -
  let ?W = "set (thread_lists s (Mb_recv i)) \<union> set (thread_lists s (Mb_send i))"
  obtain s1 s2 where s2: "ipc_list_resume_all (Mb_recv i) s = Some s1" "ipc_list_resume_all (Mb_send i) s1 = Some s2" "operational s2"
    "wakes ?W s s2" "thread_lists s2 (Mb_recv i) = []" "thread_lists s2 (Mb_send i) = []"
    using resume_both_ok [OF op wait_list_simps(6,7)] by blast
  have "mb_step i s s2" using mb_step_threads(1) [OF s2(3) spares_kept [OF kept_wakes [OF s2(4)]] more_wakes [OF s2(4)] ok] .
  then show ?thesis using s2 by (simp add: rt_mb_detach_def)
qed

lemma rt_mb_init_ok:
  assumes op: "operational s" and l: "thread_lists s (Mb_recv i) = []" "thread_lists s (Mb_send i) = []" and n: "length pool = unat n"
  shows "\<exists>s'. rt_mb_init i pool n flag s = Some s' \<and> operational s' \<and> spares {} s s' \<and> mb_ok (mailboxes s' i) \<and>
    mb_content (mailboxes s' i) = [] \<and> mb_size (mailboxes s' i) = n \<and>
    kernel.more s' = kernel.more (upd_mb i (\<lambda>_. mailboxes s' i) s)"
proof -
  let ?m = "\<lparr>mb_pool = pool, mb_size = n, mb_entry = 0, in_offset = 0, out_offset = 0, mb_flag = flag\<rparr>"
  have "mb_ok ?m" using n by (simp add: mb_ok_def) (auto simp: word_gt_0)
  moreover have "mb_content ?m = []" by (simp add: mb_content_def)
  ultimately show ?thesis
    using op ipc_object_init_ok [OF l(1)] ipc_object_init_ok [OF l(2)] by (simp add: rt_mb_init_def spares_def)
qed

subsection \<open>A mailbox is a bounded queue\<close>

text \<open>The attempts that do not wait, and whether they have done it.\<close>

definition mb_try_send :: "nat \<Rightarrow> u32 \<Rightarrow> ipc \<Rightarrow> (bool \<times> ipc) option" where
  "mb_try_send i v s = map_option (\<lambda>(r :: unit msg_result, s). (r = Done RT_EOK None, s)) (rt_mb_send i v s)"

definition mb_try_urgent :: "nat \<Rightarrow> u32 \<Rightarrow> ipc \<Rightarrow> (bool \<times> ipc) option" where
  "mb_try_urgent i v s = map_option (\<lambda>(r, s). (r = RT_EOK, s)) (rt_mb_urgent i v s)"

definition mb_try_recv :: "nat \<Rightarrow> ipc \<Rightarrow> (u32 option \<times> ipc) option" where
  "mb_try_recv i s = map_option (map_prod received id) (rt_mb_recv i 0 s)"

definition mb_inv :: "nat \<Rightarrow> ipc \<Rightarrow> bool" where
  "mb_inv i s \<longleftrightarrow> operational s \<and> mb_ok (mailboxes s i)"

lemma mb_step_inv: "mb_step i s s' \<Longrightarrow> mb_inv i s' \<and> mb_size (mailboxes s' i) = mb_size (mailboxes s i)"
  by (simp add: mb_step_def mb_inv_def)

lemma mb_room: "mb_ok m \<Longrightarrow> length (mb_content m) < unat (mb_size m) \<longleftrightarrow> length (mb_content m) \<noteq> unat (mb_size m)"
  by (auto simp: mb_ok_def word_le_nat_alt)

interpretation mb: msg_queue "mb_inv i" "\<lambda>s. mb_content (mailboxes s i)" "\<lambda>s. unat (mb_size (mailboxes s i))" "\<lambda>_ _. True" "(=)"
  "mb_try_send i" "mb_try_urgent i" "mb_try_recv i" for i
proof unfold_locales
  fix s v assume inv: "mb_inv i s"
  then have op: "operational s" and ok: "mb_ok (mailboxes s i)" by (simp_all add: mb_inv_def)
  obtain t where c: "rt_current_thread s = Some t" using operational_D(3) [OF op] by (auto simp: cur_running_def)
  note room = mb_room [OF ok]
  show "\<exists>c s'. mb_try_send i v s = Some (length (mb_content (mailboxes s i)) < unat (mb_size (mailboxes s i)), s') \<and> mb_inv i s' \<and> c = v \<and>
      unat (mb_size (mailboxes s' i)) = unat (mb_size (mailboxes s i)) \<and> (\<lambda>_. True) = (\<lambda>_. True) \<and>
      mb_content (mailboxes s' i) = (if length (mb_content (mailboxes s i)) < unat (mb_size (mailboxes s i))
        then mb_content (mailboxes s i) @ [c] else mb_content (mailboxes s i))"
  proof -
    obtain r s' where s': "rt_mb_send_wait i v 0 s = Some (r :: unit msg_result, s')" "mb_step i s s'" "mb_sent i t v 0 r s s'"
      using rt_mb_send_wait_ok [OF op ok c, of 0 v, where 'v = unit] by auto
    then show ?thesis
      using mb_step_inv [OF s'(2)] room by (auto simp: mb_try_send_def rt_mb_send_def mb_sent_def msg_waits_def Let_def split: if_splits)
  qed
  show "\<exists>c s'. mb_try_urgent i v s = Some (length (mb_content (mailboxes s i)) < unat (mb_size (mailboxes s i)), s') \<and> mb_inv i s' \<and> c = v \<and>
      unat (mb_size (mailboxes s' i)) = unat (mb_size (mailboxes s i)) \<and> (\<lambda>_. True) = (\<lambda>_. True) \<and>
      mb_content (mailboxes s' i) = (if length (mb_content (mailboxes s i)) < unat (mb_size (mailboxes s i))
        then c # mb_content (mailboxes s i) else mb_content (mailboxes s i))"
  proof -
    obtain r s' where s': "rt_mb_urgent i v s = Some (r, s')" "mb_step i s s'"
      "if length (mb_content (mailboxes s i)) = unat (mb_size (mailboxes s i)) then r = - RT_EFULL \<and> s' = s
       else r = RT_EOK \<and> mb_content (mailboxes s' i) = v # mb_content (mailboxes s i) \<and> head_woken (Mb_recv i) s s'"
      using rt_mb_urgent_ok [OF op ok, of v] by blast
    then show ?thesis using mb_step_inv [OF s'(2)] room by (auto simp: mb_try_urgent_def split: if_splits)
  qed
next
  fix s assume inv: "mb_inv i s"
  then have op: "operational s" and ok: "mb_ok (mailboxes s i)" by (simp_all add: mb_inv_def)
  obtain t where c: "rt_current_thread s = Some t" using operational_D(3) [OF op] by (auto simp: cur_running_def)
  obtain r s' where s': "rt_mb_recv i 0 s = Some (r, s')" "mb_step i s s'" "mb_received i t 0 r s s'"
    using rt_mb_recv_ok [OF op ok c, of 0] by auto
  then show "\<exists>s'. mb_try_recv i s = Some (case mb_content (mailboxes s i) of [] \<Rightarrow> None | c # _ \<Rightarrow> Some c, s') \<and> mb_inv i s' \<and>
      unat (mb_size (mailboxes s' i)) = unat (mb_size (mailboxes s i)) \<and> (\<lambda>_. True) = (\<lambda>_. True) \<and>
      mb_content (mailboxes s' i) = tl (mb_content (mailboxes s i))"
    using mb_step_inv [OF s'(2)]
    by (cases "mb_content (mailboxes s i)") (auto simp: mb_try_recv_def mb_received_def msg_waits_def received_def Let_def)
qed

end
