(* ===== verification/Ipc_Mq.thy ===== *)
theory Ipc_Mq
  imports Ipc_Frame Msg_Spec
begin

text \<open>
  Message queues: the slots of the pool on two linked lists, the messages and the free ones, which is a queue of
  messages; and the effect of every call.
\<close>

subsection \<open>The linked slots\<close>

text \<open>The slots \<open>xs\<close> are linked in this order from the pointer \<open>s\<close> on, and the last one points to \<open>e\<close>.\<close>

fun linked :: "rt_mq_message list \<Rightarrow> nat option \<Rightarrow> nat list \<Rightarrow> nat option \<Rightarrow> bool" where
  "linked pool s [] e \<longleftrightarrow> s = e"
| "linked pool s (x # xs) e \<longleftrightarrow> s = Some x \<and> x < length pool \<and> linked pool (msg_next (pool ! x)) xs e"

lemma linked_append: "linked pool s (xs @ ys) e \<longleftrightarrow> (\<exists>m. linked pool s xs m \<and> linked pool m ys e)"
  by (induction xs arbitrary: s) auto

lemma linked_upd: "k \<notin> set xs \<Longrightarrow> linked (pool[k := m]) s xs e \<longleftrightarrow> linked pool s xs e"
  by (induction xs arbitrary: s) (auto simp: nth_list_update)

lemma linked_bound: "linked pool s xs e \<Longrightarrow> x \<in> set xs \<Longrightarrow> x < length pool"
  by (induction xs arbitrary: s) auto

lemma linked_None [simp]: "linked pool None xs None \<longleftrightarrow> xs = []"
  by (cases xs) auto

lemma linked_Some: "linked pool (Some k) xs None \<longleftrightarrow> (\<exists>ys. xs = k # ys \<and> k < length pool \<and> linked pool (msg_next (pool ! k)) ys None)"
  by (cases xs) auto

text \<open>The slots that a pointer leads to.\<close>

fun follow :: "rt_mq_message list \<Rightarrow> nat \<Rightarrow> nat option \<Rightarrow> nat list" where
  "follow pool 0 s = []"
| "follow pool (Suc n) s = (case s of None \<Rightarrow> [] | Some k \<Rightarrow> k # follow pool n (msg_next (pool ! k)))"

lemma follow_linked: "linked pool s xs None \<Longrightarrow> follow pool (length xs) s = xs"
  by (induction xs arbitrary: s) auto

definition mq_used :: "rt_messagequeue \<Rightarrow> nat list" where
  "mq_used q = follow (mq_pool q) (unat (mq_entry q)) (msg_queue_head q)"

definition mq_content :: "rt_messagequeue \<Rightarrow> u8 list list" where
  "mq_content q = map (\<lambda>k. msg_bytes (mq_pool q ! k)) (mq_used q)"

subsection \<open>The invariant\<close>

definition mq_lists :: "rt_messagequeue \<Rightarrow> nat list \<Rightarrow> nat list \<Rightarrow> bool" where
  "mq_lists q us fs \<longleftrightarrow>
     linked (mq_pool q) (msg_queue_head q) us None \<and> linked (mq_pool q) (msg_queue_free q) fs None \<and>
     distinct (us @ fs) \<and> set (us @ fs) = {..<length (mq_pool q)} \<and>
     msg_queue_tail q = (if us = [] then None else Some (last us)) \<and> unat (mq_entry q) = length us \<and>
     length (mq_pool q) = unat (max_msgs q) \<and> (\<forall>m \<in> set (mq_pool q). length (msg_bytes m) = unat (msg_size q))"

definition mq_ok :: "rt_messagequeue \<Rightarrow> bool" where "mq_ok q \<longleftrightarrow> (\<exists>us fs. mq_lists q us fs)"

lemma ball_update: "\<forall>m \<in> set pool. P m \<Longrightarrow> P x \<Longrightarrow> \<forall>m \<in> set (pool[k := x]). P m"
  using set_update_subset_insert [of pool k x] by auto

lemma mq_listsD:
  assumes "mq_lists q us fs"
  shows "linked (mq_pool q) (msg_queue_head q) us None" "linked (mq_pool q) (msg_queue_free q) fs None"
    "distinct us" "distinct fs" "set us \<inter> set fs = {}" "set us \<union> set fs = {..<length (mq_pool q)}"
    "msg_queue_tail q = (if us = [] then None else Some (last us))" "unat (mq_entry q) = length us"
    "length us + length fs = unat (max_msgs q)" "length (mq_pool q) = unat (max_msgs q)"
    "\<And>k. k < length (mq_pool q) \<Longrightarrow> length (msg_bytes (mq_pool q ! k)) = unat (msg_size q)"
proof -
  have "length (us @ fs) = card (set (us @ fs))" using assms by (metis mq_lists_def distinct_card)
  then show "length us + length fs = unat (max_msgs q)" using assms by (simp add: mq_lists_def)
qed (use assms in \<open>auto simp: mq_lists_def\<close>)

lemma mq_lists_used: "mq_lists q us fs \<Longrightarrow> mq_used q = us"
  using follow_linked by (simp add: mq_lists_def mq_used_def)

lemma length_mq_content: "mq_lists q us fs \<Longrightarrow> length (mq_content q) = length us"
  by (simp add: mq_content_def mq_lists_used)

lemma mq_okE:
  assumes "mq_ok q"
  obtains us fs where "mq_lists q us fs" "mq_used q = us" "mq_content q = map (\<lambda>k. msg_bytes (mq_pool q ! k)) us"
  using assms by (auto simp: mq_ok_def mq_content_def mq_lists_used)

text \<open>The tests of the code.\<close>

lemma mq_tests:
  assumes "mq_ok q"
  shows "msg_queue_free q = None \<longleftrightarrow> length (mq_content q) = unat (max_msgs q)" "mq_entry q = 0 \<longleftrightarrow> mq_content q = []"
    "length (mq_content q) \<le> unat (max_msgs q)"
proof -
  obtain us fs where l: "mq_lists q us fs" using assms by (auto simp: mq_ok_def)
  note D = mq_listsD [OF l]
  note len = length_mq_content [OF l]
  have "msg_queue_free q = None \<longleftrightarrow> fs = []" using D(2) by (cases fs; cases "msg_queue_free q") auto
  then show "msg_queue_free q = None \<longleftrightarrow> length (mq_content q) = unat (max_msgs q)" using D(9) len by auto
  show "length (mq_content q) \<le> unat (max_msgs q)" using D(9) len by simp
  have "mq_entry q = 0 \<longleftrightarrow> unat (mq_entry q) = 0" by (simp add: word_unat_eq_iff)
  also have "\<dots> \<longleftrightarrow> length (mq_content q) = 0" using D(8) len by simp
  finally show "mq_entry q = 0 \<longleftrightarrow> mq_content q = []" by simp
qed

subsection \<open>Storing and taking\<close>

lemma upd_slot_ok: "k < length (mq_pool q) \<Longrightarrow> upd_slot k f q = Some (q\<lparr>mq_pool := (mq_pool q)[k := f (mq_pool q ! k)]\<rparr>)"
  by (simp add: upd_slot_def)

lemma mq_fill_ok:
  assumes "k < length (mq_pool q)" "length buf \<le> length (msg_bytes (mq_pool q ! k))"
  shows "mq_fill k buf q =
    Some (q\<lparr>mq_pool := (mq_pool q)[k := (mq_pool q ! k)\<lparr>msg_bytes := buf @ drop (length buf) (msg_bytes (mq_pool q ! k))\<rparr>]\<rparr>)"
  using assms by (simp add: mq_fill_def blit_def upd_slot_ok)

text \<open>What a slot holds of a message.\<close>

definition msg_holds :: "u8 list \<Rightarrow> u8 list \<Rightarrow> bool" where "msg_holds c buf \<longleftrightarrow> take (length buf) c = buf"

lemma mq_room:
  assumes "mq_lists q us (k # fs)"
  shows "unat (mq_entry q + 1) = length us + 1" "mq_entry q < RT_MQ_ENTRY_MAX" "k < length (mq_pool q)" "k \<notin> set us" "k \<notin> set fs"
    "msg_queue_free q = Some k" "linked (mq_pool q) (msg_next (mq_pool q ! k)) fs None"
proof -
  note D = mq_listsD [OF assms]
  have "unat (mq_entry q) < unat (max_msgs q)" using D(8,9) by simp
  then have lt: "mq_entry q < max_msgs q" by (simp add: word_less_nat_alt)
  show "unat (mq_entry q + 1) = length us + 1" using unat_plus_1 [OF lt] D(8) by simp
  show "mq_entry q < RT_MQ_ENTRY_MAX" using below_max16_less [OF lt] by (simp add: RT_MQ_ENTRY_MAX_def below_max16)
  show "k < length (mq_pool q)" "msg_queue_free q = Some k" "linked (mq_pool q) (msg_next (mq_pool q ! k)) fs None" using D(2) by simp_all
  show "k \<notin> set us" "k \<notin> set fs" using D(4,5) by auto
qed

lemma mq_store_ok:
  assumes l: "mq_lists q us (k # fs)" and n: "length buf \<le> unat (msg_size q)"
  shows "\<exists>q'. mq_store k buf q = Some (True, q') \<and> mq_lists q' (us @ [k]) fs \<and>
    mq_content q' = mq_content q @ [buf @ drop (length buf) (msg_bytes (mq_pool q ! k))] \<and>
    max_msgs q' = max_msgs q \<and> msg_size q' = msg_size q \<and> mq_flag q' = mq_flag q"
proof -
  note D = mq_listsD [OF l]
  note R = mq_room [OF l]
  let ?bytes = "buf @ drop (length buf) (msg_bytes (mq_pool q ! k))"
  let ?p1 = "(mq_pool q)[k := \<lparr>msg_next = None, msg_bytes = ?bytes\<rparr>]"
  have len: "length buf \<le> length (msg_bytes (mq_pool q ! k))" using D(11) [OF R(3)] n by simp
  let ?q1 = "q\<lparr>msg_queue_free := msg_next (mq_pool q ! k), mq_pool := ?p1\<rparr>"
  have q1: "do { q \<leftarrow> mq_take_free k q; q \<leftarrow> upd_slot k (\<lambda>m. m\<lparr>msg_next := None\<rparr>) q; mq_fill k buf q } = Some ?q1"
    using R(3) len by (simp add: mq_take_free_def upd_slot_ok mq_fill_ok) (cases "mq_pool q ! k", simp)
  have split: "mq_store k buf q = do { q \<leftarrow> do { q \<leftarrow> mq_take_free k q; q \<leftarrow> upd_slot k (\<lambda>m. m\<lparr>msg_next := None\<rparr>) q; mq_fill k buf q }; mq_append k q }"
    by (simp add: mq_store_def)
  have store: "mq_store k buf q = mq_append k ?q1" unfolding split q1 by simp
  have slots: "\<forall>m \<in> set (mq_pool q). length (msg_bytes m) = unat (msg_size q)" using l by (simp add: mq_lists_def)
  have bytes: "length ?bytes = unat (msg_size q)" using D(11) [OF R(3)] n by simp
  have set: "set (us @ [k]) \<union> set fs = {..<length (mq_pool q)}" using D(6) by auto
  have dist: "distinct ((us @ [k]) @ fs)" using D(3-5) by auto
  show ?thesis
  proof (cases us rule: rev_cases)
    case Nil
    let ?q' = "?q1\<lparr>msg_queue_tail := Some k, msg_queue_head := Some k, mq_entry := mq_entry q + 1\<rparr>"
    have "msg_queue_head q = None" "msg_queue_tail q = None" using D(1,7) Nil by simp_all
    then have "mq_store k buf q = Some (True, ?q')" unfolding store using R(2) by (simp add: mq_append_def Let_def)
    moreover have "mq_lists ?q' (us @ [k]) fs"
      using R D(10,11) Nil set dist bytes by (auto simp: mq_lists_def linked_upd in_set_conv_nth nth_list_update)
    ultimately show ?thesis using Nil mq_lists_used [of ?q'] mq_lists_used [OF l] R(3) by (simp add: mq_content_def)
  next
    case (snoc vs l')
    have l': "l' \<in> set us" "l' < length (mq_pool q)" "l' \<noteq> k" "l' \<notin> set vs" "l' \<notin> set fs"
      using linked_bound [OF D(1)] snoc R(4) D(3,5) by auto
    let ?p2 = "?p1[l' := (mq_pool q ! l')\<lparr>msg_next := Some k\<rparr>]"
    let ?q' = "?q1\<lparr>mq_pool := ?p2, msg_queue_tail := Some k, mq_entry := mq_entry q + 1\<rparr>"
    have "msg_queue_head q \<noteq> None" using D(1) snoc by (cases "msg_queue_head q") simp_all
    then have tail: "msg_queue_tail q = Some l'" "msg_queue_head q \<noteq> None" using D(7) snoc by simp_all
    then have "mq_store k buf q = Some (True, ?q')"
      unfolding store using R(2) l' by (simp add: mq_append_def Let_def upd_slot_ok)
    moreover have lists: "mq_lists ?q' (us @ [k]) fs"
    proof -
      have "linked (mq_pool q) (msg_queue_head q) vs (Some l')" using D(1) snoc by (auto simp: linked_append)
      then have "linked ?p2 (msg_queue_head q) vs (Some l')" using l'(4) R(4) snoc by (simp add: linked_upd)
      then have "linked ?p2 (msg_queue_head q) (us @ [k]) None" using snoc l' R(3) by (auto simp: linked_append)
      moreover have "linked ?p2 (msg_next (mq_pool q ! k)) fs None" using R(5,7) l'(5) by (simp add: linked_upd)
      moreover have "\<forall>m \<in> set ?p2. length (msg_bytes m) = unat (msg_size q)"
        using D(11) [OF l'(2)] bytes slots by (intro ball_update) simp_all
      ultimately show ?thesis using R(1) D(10) set dist by (simp add: mq_lists_def)
    qed
    moreover have "mq_content ?q' = mq_content q @ [?bytes]"
    proof -
      have "msg_bytes (?p2 ! j) = msg_bytes (mq_pool q ! j)" if "j \<in> set us" for j
      proof -
        have "j \<noteq> k" using that R(4) by auto
        then show ?thesis using l'(2) by (cases "j = l'") (simp_all add: nth_list_update)
      qed
      then show ?thesis using mq_lists_used [OF lists] mq_lists_used [OF l] R(3) l'(3) by (simp add: mq_content_def)
    qed
    ultimately show ?thesis by (intro exI [of _ ?q']) simp
  qed
qed

lemma mq_push_ok:
  assumes l: "mq_lists q us (k # fs)" and n: "length buf \<le> unat (msg_size q)"
  shows "\<exists>q'. mq_push k buf q = Some (True, q') \<and> mq_lists q' (k # us) fs \<and>
    mq_content q' = (buf @ drop (length buf) (msg_bytes (mq_pool q ! k))) # mq_content q \<and>
    max_msgs q' = max_msgs q \<and> msg_size q' = msg_size q \<and> mq_flag q' = mq_flag q"
proof -
  note D = mq_listsD [OF l]
  note R = mq_room [OF l]
  let ?bytes = "buf @ drop (length buf) (msg_bytes (mq_pool q ! k))"
  let ?p1 = "(mq_pool q)[k := \<lparr>msg_next = msg_queue_head q, msg_bytes = ?bytes\<rparr>]"
  have len: "length buf \<le> length (msg_bytes (mq_pool q ! k))" using D(11) [OF R(3)] n by simp
  let ?q' = "q\<lparr>msg_queue_free := msg_next (mq_pool q ! k), mq_pool := ?p1, msg_queue_head := Some k,
    msg_queue_tail := (if us = [] then Some k else msg_queue_tail q), mq_entry := mq_entry q + 1\<rparr>"
  have tail: "msg_queue_tail q = None \<longleftrightarrow> us = []" using D(7) by simp
  have "mq_push k buf q = Some (True, ?q')"
    using R(2,3) len tail
    by (simp add: mq_push_def mq_take_free_def mq_fill_ok mq_prepend_def upd_slot_ok Let_def) (cases "mq_pool q ! k", simp)
  moreover have lists: "mq_lists ?q' (k # us) fs"
  proof -
    have "\<forall>m \<in> set ?p1. length (msg_bytes m) = unat (msg_size q)"
      using D(11) [OF R(3)] D(11) n R(3) by (auto simp: in_set_conv_nth nth_list_update)
    moreover have "set (k # us) \<union> set fs = {..<length (mq_pool q)}" "distinct ((k # us) @ fs)" using D(3-6) by auto
    ultimately show ?thesis using R D(1,7,10) by (simp add: mq_lists_def linked_upd)
  qed
  moreover have "mq_content ?q' = ?bytes # mq_content q"
  proof -
    have "map (\<lambda>j. msg_bytes (?p1 ! j)) us = map (\<lambda>j. msg_bytes (mq_pool q ! j)) us"
    proof (rule map_cong)
      fix j assume "j \<in> set us"
      then have "j \<noteq> k" using R(4) by auto
      then show "msg_bytes (?p1 ! j) = msg_bytes (mq_pool q ! j)" by simp
    qed simp
    then show ?thesis using mq_lists_used [OF lists] mq_lists_used [OF l] R(3) by (simp add: mq_content_def)
  qed
  ultimately show ?thesis by (intro exI [of _ ?q']) simp
qed

lemma mq_take_ok:
  assumes l: "mq_lists q (k # us) fs"
  shows "\<exists>q'. mq_take sz q = Some (take sz (msg_bytes (mq_pool q ! k)), q') \<and> mq_lists q' us (k # fs) \<and>
    mq_content q' = map (\<lambda>j. msg_bytes (mq_pool q ! j)) us \<and> max_msgs q' = max_msgs q \<and> msg_size q' = msg_size q \<and> mq_flag q' = mq_flag q"
proof -
  note D = mq_listsD [OF l]
  have k: "k < length (mq_pool q)" "k \<notin> set us" "k \<notin> set fs" using D(1,3,5) by auto
  have e: "unat (mq_entry q) = length us + 1" using D(8) by simp
  then have e': "mq_entry q > 0" "unat (mq_entry q - 1) = length us"
    using unat_sub_le [of 1 "mq_entry q"] by (simp_all add: word_less_nat_alt word_le_nat_alt)
  let ?p1 = "(mq_pool q)[k := (mq_pool q ! k)\<lparr>msg_next := msg_queue_free q\<rparr>]"
  let ?q' = "q\<lparr>msg_queue_head := msg_next (mq_pool q ! k), msg_queue_tail := (if us = [] then None else msg_queue_tail q),
    mq_entry := mq_entry q - 1, mq_pool := ?p1, msg_queue_free := Some k\<rparr>"
  have tail: "msg_queue_tail q = Some k \<longleftrightarrow> us = []"
  proof (cases "us = []")
    case False
    then have "last us \<in> set us" by simp
    then have "last us \<noteq> k" using k(2) by metis
    then show ?thesis using False D(7) by simp
  qed (use D(7) in simp)
  have len: "length (msg_bytes (mq_pool q ! k)) = unat (msg_size q)" using D(11) [OF k(1)] .
  have "mq_take sz q = Some (take sz (msg_bytes (mq_pool q ! k)), ?q')"
    using D(1) k(1) tail e'(1) len
    by (simp add: mq_take_def mq_unlink_def Let_def mq_free_slot_def upd_slot_ok split: if_split)
  moreover have lists: "mq_lists ?q' us (k # fs)"
  proof -
    have "\<forall>m \<in> set ?p1. length (msg_bytes m) = unat (msg_size q)"
      using D(11) k(1) by (auto simp: in_set_conv_nth nth_list_update)
    moreover have "set us \<union> set (k # fs) = {..<length (mq_pool q)}" "distinct (us @ k # fs)" using D(3-6) by auto
    moreover have "(if us = [] then None else msg_queue_tail q) = (if us = [] then None else Some (last us))" using D(7) by simp
    ultimately show ?thesis using D(1,2,10) k e'(2) by (simp add: mq_lists_def linked_upd)
  qed
  moreover have "mq_content ?q' = map (\<lambda>j. msg_bytes (mq_pool q ! j)) us"
    using mq_lists_used [OF lists] k by (auto simp: mq_content_def nth_list_update)
  ultimately show ?thesis by (intro exI [of _ ?q']) simp
qed

lemma mq_send_free_ok:
  assumes ok: "mq_ok q" and f: "msg_queue_free q = Some k" and n: "length buf \<le> unat (msg_size q)"
  shows "\<exists>c q'. mq_store k buf q = Some (True, q') \<and> mq_ok q' \<and> mq_content q' = mq_content q @ [c] \<and> msg_holds c buf \<and>
    length c = unat (msg_size q) \<and> max_msgs q' = max_msgs q \<and> msg_size q' = msg_size q \<and> mq_flag q' = mq_flag q"
proof -
  obtain us fs where l: "mq_lists q us fs" using ok by (auto simp: mq_ok_def)
  then obtain fs' where fs: "fs = k # fs'" using mq_listsD(2) [OF l] f by (auto simp: linked_Some)
  have "k < length (mq_pool q)" using mq_room(3) [OF l [unfolded fs]] .
  then have "length (msg_bytes (mq_pool q ! k)) = unat (msg_size q)" using mq_listsD(11) [OF l] by blast
  moreover obtain q' where "mq_store k buf q = Some (True, q')" "mq_lists q' (us @ [k]) fs'"
    "mq_content q' = mq_content q @ [buf @ drop (length buf) (msg_bytes (mq_pool q ! k))]"
    "max_msgs q' = max_msgs q" "msg_size q' = msg_size q" "mq_flag q' = mq_flag q"
    using mq_store_ok [OF l [unfolded fs] n] by blast
  ultimately show ?thesis using n by (auto simp: mq_ok_def msg_holds_def)
qed

lemma mq_push_free_ok:
  assumes ok: "mq_ok q" and f: "msg_queue_free q = Some k" and n: "length buf \<le> unat (msg_size q)"
  shows "\<exists>c q'. mq_push k buf q = Some (True, q') \<and> mq_ok q' \<and> mq_content q' = c # mq_content q \<and> msg_holds c buf \<and>
    length c = unat (msg_size q) \<and> max_msgs q' = max_msgs q \<and> msg_size q' = msg_size q \<and> mq_flag q' = mq_flag q"
proof -
  obtain us fs where l: "mq_lists q us fs" using ok by (auto simp: mq_ok_def)
  then obtain fs' where fs: "fs = k # fs'" using mq_listsD(2) [OF l] f by (auto simp: linked_Some)
  have "k < length (mq_pool q)" using mq_room(3) [OF l [unfolded fs]] .
  then have "length (msg_bytes (mq_pool q ! k)) = unat (msg_size q)" using mq_listsD(11) [OF l] by blast
  moreover obtain q' where "mq_push k buf q = Some (True, q')" "mq_lists q' (k # us) fs'"
    "mq_content q' = (buf @ drop (length buf) (msg_bytes (mq_pool q ! k))) # mq_content q"
    "max_msgs q' = max_msgs q" "msg_size q' = msg_size q" "mq_flag q' = mq_flag q"
    using mq_push_ok [OF l [unfolded fs] n] by blast
  ultimately show ?thesis using n by (auto simp: mq_ok_def msg_holds_def)
qed

lemma mq_take_content:
  assumes ok: "mq_ok q" and c: "mq_content q = c # cs"
  shows "\<exists>q'. mq_take sz q = Some (take sz c, q') \<and> mq_ok q' \<and> mq_content q' = cs \<and> length c = unat (msg_size q) \<and>
    max_msgs q' = max_msgs q \<and> msg_size q' = msg_size q \<and> mq_flag q' = mq_flag q"
proof -
  obtain us fs where l: "mq_lists q us fs" "mq_content q = map (\<lambda>k. msg_bytes (mq_pool q ! k)) us" using ok by (rule mq_okE)
  then obtain k us' where us: "us = k # us'" "c = msg_bytes (mq_pool q ! k)" "cs = map (\<lambda>k. msg_bytes (mq_pool q ! k)) us'"
    using c by auto
  have "k < length (mq_pool q)" using mq_listsD(1) [OF l(1)] us(1) by simp
  then have "length c = unat (msg_size q)" using mq_listsD(11) [OF l(1)] us(2) by blast
  moreover obtain q' where "mq_take sz q = Some (take sz (msg_bytes (mq_pool q ! k)), q')" "mq_lists q' us' (k # fs)"
    "mq_content q' = map (\<lambda>j. msg_bytes (mq_pool q ! j)) us'" "max_msgs q' = max_msgs q" "msg_size q' = msg_size q" "mq_flag q' = mq_flag q"
    using mq_take_ok [OF l(1) [unfolded us(1)]] by blast
  ultimately show ?thesis using us by (auto simp: mq_ok_def)
qed

subsection \<open>Emptying and initialising\<close>

lemma mq_flush_ok:
  assumes "linked (mq_pool q) (msg_queue_head q) us None" "linked (mq_pool q) (msg_queue_free q) fs None"
    "distinct (us @ fs)" "set (us @ fs) = {..<length (mq_pool q)}" "msg_queue_tail q = (if us = [] then None else Some (last us))"
    "length (mq_pool q) = unat (max_msgs q)" "\<forall>m \<in> set (mq_pool q). length (msg_bytes m) = unat (msg_size q)" "length us \<le> n"
  shows "\<exists>q'. mq_flush n q = Some q' \<and> mq_lists (q'\<lparr>mq_entry := 0\<rparr>) [] (rev us @ fs) \<and>
    max_msgs q' = max_msgs q \<and> msg_size q' = msg_size q \<and> mq_flag q' = mq_flag q"
  using assms
proof (induction n arbitrary: q us fs)
  case 0
  then have "us = []" by simp
  then show ?case using 0 by (simp add: mq_lists_def)
next
  case (Suc n)
  show ?case
  proof (cases us)
    case Nil
    then show ?thesis using Suc.prems by (simp add: mq_lists_def)
  next
    case (Cons k us')
    have k: "msg_queue_head q = Some k" "k < length (mq_pool q)" "linked (mq_pool q) (msg_next (mq_pool q ! k)) us' None"
      "k \<notin> set us'" "k \<notin> set fs" using Suc.prems(1,3) Cons by auto
    let ?p1 = "(mq_pool q)[k := (mq_pool q ! k)\<lparr>msg_next := msg_queue_free q\<rparr>]"
    let ?q1 = "q\<lparr>msg_queue_head := msg_next (mq_pool q ! k), msg_queue_tail := (if us' = [] then None else msg_queue_tail q),
      mq_pool := ?p1, msg_queue_free := Some k\<rparr>"
    have tail: "msg_queue_tail q = Some k \<longleftrightarrow> us' = []"
    proof (cases "us' = []")
      case False
      then have "last us' \<in> set us'" by simp
      then have "last us' \<noteq> k" using k(4) by metis
      then show ?thesis using False Suc.prems(5) Cons by simp
    qed (use Suc.prems(5) Cons in simp)
    have "mq_flush (Suc n) q = mq_flush n ?q1"
      using k(1,2) tail by (simp add: mq_free_slot_def upd_slot_ok Let_def)
    moreover have "\<exists>q'. mq_flush n ?q1 = Some q' \<and> mq_lists (q'\<lparr>mq_entry := 0\<rparr>) [] (rev us' @ k # fs) \<and>
      max_msgs q' = max_msgs ?q1 \<and> msg_size q' = msg_size ?q1 \<and> mq_flag q' = mq_flag ?q1"
    proof (rule Suc.IH)
      show "linked (mq_pool ?q1) (msg_queue_head ?q1) us' None" using k(3,4) by (simp add: linked_upd)
      show "linked (mq_pool ?q1) (msg_queue_free ?q1) (k # fs) None" using k(2,5) Suc.prems(2) by (simp add: linked_upd)
      show "distinct (us' @ k # fs)" using Suc.prems(3) Cons by auto
      show "set (us' @ k # fs) = {..<length (mq_pool ?q1)}" using Suc.prems(4) Cons by auto
      show "msg_queue_tail ?q1 = (if us' = [] then None else Some (last us'))" using Suc.prems(5) Cons by simp
      have "\<forall>m \<in> set ?p1. length (msg_bytes m) = unat (msg_size q)"
        by (rule ball_update [OF Suc.prems(7)]) (use Suc.prems(7) k(2) in simp)
      then show "\<forall>m \<in> set (mq_pool ?q1). length (msg_bytes m) = unat (msg_size ?q1)" by simp
    qed (use Suc.prems(6,8) Cons in simp_all)
    ultimately show ?thesis using Cons by simp
  qed
qed

lemma mq_reset_ok:
  assumes "mq_ok q"
  shows "\<exists>q'. mq_flush (length (mq_pool q)) q = Some q' \<and> mq_ok (q'\<lparr>mq_entry := 0\<rparr>) \<and> mq_content (q'\<lparr>mq_entry := 0\<rparr>) = [] \<and>
    max_msgs q' = max_msgs q \<and> msg_size q' = msg_size q \<and> mq_flag q' = mq_flag q"
proof -
  obtain us fs where l: "mq_lists q us fs" using assms by (auto simp: mq_ok_def)
  have "length us \<le> length (mq_pool q)" using mq_listsD(9,10) [OF l] by simp
  moreover note l [unfolded mq_lists_def]
  ultimately obtain q' where q': "mq_flush (length (mq_pool q)) q = Some q'" "mq_lists (q'\<lparr>mq_entry := 0\<rparr>) [] (rev us @ fs)"
    "max_msgs q' = max_msgs q" "msg_size q' = msg_size q" "mq_flag q' = mq_flag q"
    using mq_flush_ok [of q us fs "length (mq_pool q)"] by blast
  have "mq_ok (q'\<lparr>mq_entry := 0\<rparr>)" using q'(2) unfolding mq_ok_def by blast
  moreover have "mq_content (q'\<lparr>mq_entry := 0\<rparr>) = []" using mq_lists_used [OF q'(2)] by (simp add: mq_content_def)
  ultimately show ?thesis using q' by blast
qed

lemma length_mq_slots [simp]: "length (mq_slots pool m n) = n" by (induction n) auto

lemma mq_slots_nth:
  "k < n \<Longrightarrow> mq_slots pool m n ! k =
    \<lparr>msg_next = (if k = 0 then None else Some (k - 1)), msg_bytes = take (unat m) (drop (k * mq_slot_size m + 4) pool)\<rparr>"
  by (induction n) (auto simp: nth_append less_Suc_eq)

lemma mq_slots_linked: "k \<le> n \<Longrightarrow> linked (mq_slots pool m n) (if k = 0 then None else Some (k - 1)) (rev [0..<k]) None"
  by (induction k) (auto simp: mq_slots_nth)

lemma mq_empty_ok:
  assumes "unat n * mq_slot_size m \<le> length pool"
  shows "mq_ok (mq_empty pool m n flag)" "mq_content (mq_empty pool m n flag) = []"
proof -
  have "length (take (unat m) (drop (k * mq_slot_size m + 4) pool)) = unat m" if "k < unat n" for k
  proof -
    have "(k + 1) * mq_slot_size m \<le> unat n * mq_slot_size m" using that by (intro mult_le_mono1) simp
    then have "k * mq_slot_size m + 4 + unat m \<le> length pool" using assms by (simp add: mq_slot_size_def)
    then show ?thesis by simp
  qed
  moreover have "linked (mq_slots pool m (unat n)) (if n = 0 then None else Some (unat n - 1)) (rev [0..<unat n]) None"
    using mq_slots_linked [of "unat n" "unat n" pool m] by (simp add: word_unat_eq_iff)
  ultimately have l: "mq_lists (mq_empty pool m n flag) [] (rev [0..<unat n])"
    by (auto simp: mq_lists_def mq_empty_def in_set_conv_nth mq_slots_nth atLeast0LessThan)
  then show "mq_ok (mq_empty pool m n flag)" by (auto simp: mq_ok_def)
  show "mq_content (mq_empty pool m n flag) = []" using mq_lists_used [OF l] by (simp add: mq_content_def)
qed

subsection \<open>Calls\<close>

definition mq_step :: "nat \<Rightarrow> ipc \<Rightarrow> ipc \<Rightarrow> bool" where
  "mq_step i s s' \<longleftrightarrow> operational s' \<and> spares {Mq_recv i, Mq_send i} s s' \<and> mq_ok (mqs s' i) \<and>
     max_msgs (mqs s' i) = max_msgs (mqs s i) \<and> msg_size (mqs s' i) = msg_size (mqs s i) \<and>
     kernel.more s' = kernel.more (upd_mq i (\<lambda>_. mqs s' i) s)"

lemma more_upd_mq: "kernel.more (upd_mq i f s) = ipc_ext (sems s) (mutexes s) (events s) (mailboxes s) ((mqs s)(i := f (mqs s i))) ()"
  by (cases s) (simp add: upd_mq_def)

lemma mq_stepI:
  assumes "operational s'" "spares {Mq_recv i, Mq_send i} (upd_mq i (\<lambda>_. q) s) s'" "mq_ok q" "max_msgs q = max_msgs (mqs s i)"
    "msg_size q = msg_size (mqs s i)" "kernel.more s' = kernel.more (upd_mq i (\<lambda>_. q) s)"
  shows "mq_step i s s'" "mqs s' i = q"
proof -
  show q: "mqs s' i = q" using same_objects(5) [OF assms(6)] by simp
  have "spares {Mq_recv i, Mq_send i} s s'" using assms(2) by (simp add: spares_def)
  then show "mq_step i s s'" using assms q by (simp add: mq_step_def)
qed

lemma upd_mq_same [simp]: "upd_mq i (\<lambda>_. mqs s i) s = s" by (simp add: upd_mq_def)

lemma mq_step_threads:
  assumes "operational s'" "spares {Mq_recv i, Mq_send i} s s'" "kernel.more s' = kernel.more s" "mq_ok (mqs s i)"
  shows "mq_step i s s'" "mqs s' i = mqs s i"
  using mq_stepI [of s' i "mqs s i" s] assms by simp_all

lemma mq_step_refl: "operational s \<Longrightarrow> mq_ok (mqs s i) \<Longrightarrow> mq_step i s s"
  by (rule mq_step_threads(1)) (simp_all add: spares_refl)

text \<open>A message has been stored; the first waiting receiver is woken.\<close>

lemma mq_stored_ok:
  assumes op: "operational s" and q: "mq_ok q" "max_msgs q = max_msgs (mqs s i)" "msg_size q = msg_size (mqs s i)"
  shows "\<exists>s'. msg_stored (Mq_recv i) True (upd_mq i (\<lambda>_. q) s) = Some (RT_EOK, s') \<and> mq_step i s s' \<and> mqs s' i = q \<and>
    head_woken (Mq_recv i) s s'"
proof -
  have "operational (upd_mq i (\<lambda>_. q) s)" using op by simp
  from msg_stored_ok [OF this wait_list_simps(8) [of i]] obtain s' where s': "msg_stored (Mq_recv i) True (upd_mq i (\<lambda>_. q) s) = Some (RT_EOK, s')"
    "operational s'" "kept (upd_mq i (\<lambda>_. q) s) s'" "head_woken (Mq_recv i) (upd_mq i (\<lambda>_. q) s) s'" by blast
  have "kernel.more s' = kernel.more (upd_mq i (\<lambda>_. q) s)" using s'(3) by (simp add: kept_def)
  note step = mq_stepI [OF s'(2) spares_kept [OF s'(3)] q this]
  have "head_woken (Mq_recv i) s s'" using s'(4) by (simp add: head_woken_def split: list.splits)
  then show ?thesis using s' step by simp
qed

lemma mq_get_ok:
  assumes op: "operational s" and ok: "mq_ok (mqs s i)" and c: "mq_content (mqs s i) = c # cs"
  shows "\<exists>s'. mq_get i sz s = Some (Done RT_EOK (Some (take sz c)), s') \<and> mq_step i s s' \<and>
    mq_content (mqs s' i) = cs \<and> head_woken (Mq_send i) s s'"
proof -
  obtain q where q: "mq_take sz (mqs s i) = Some (take sz c, q)" "mq_ok q" "mq_content q = cs"
    "max_msgs q = max_msgs (mqs s i)" "msg_size q = msg_size (mqs s i)" using mq_take_content [OF ok c] by blast
  have "operational (upd_mq i (\<lambda>_. q) s)" using op by simp
  from wake_first_head [OF this wait_list_simps(9) [of i]] obtain s' where s': "wake_first (Mq_send i) (upd_mq i (\<lambda>_. q) s) = Some s'"
    "operational s'" "kept (upd_mq i (\<lambda>_. q) s) s'" "head_woken (Mq_send i) (upd_mq i (\<lambda>_. q) s) s'" by blast
  have "kernel.more s' = kernel.more (upd_mq i (\<lambda>_. q) s)" using s'(3) by (simp add: kept_def)
  note step = mq_stepI [OF s'(2) spares_kept [OF s'(3)] q(2,4,5) this]
  have "head_woken (Mq_send i) s s'" using s'(4) by (simp add: head_woken_def split: list.splits)
  then show ?thesis using q s' step by (simp add: mq_get_def)
qed

lemma mq_wait_ok:
  assumes op: "operational s" and ok: "mq_ok (mqs s i)" and t: "may_wait t s" "good_timeout timeout"
    and l: "l = Mq_recv i \<or> l = Mq_send i"
  shows "\<exists>s'. wait_on l t flag timeout (upd_thread t (\<lambda>th. th\<lparr>error := RT_EOK\<rparr>) s) = Some s' \<and> waits_in l t flag timeout s s' \<and>
    mq_step i s s' \<and> mqs s' i = mqs s i"
proof -
  have wl: "wait_list l" using l by auto
  obtain s' where s': "wait_on l t flag timeout (upd_thread t (\<lambda>th. th\<lparr>error := RT_EOK\<rparr>) s) = Some s'" "waits_in l t flag timeout s s'"
    "spares {l} s s'" using wait_clear_ok [OF op t wl] by blast
  have "spares {Mq_recv i, Mq_send i} s s'" by (rule spares_more [OF s'(3)]) (use l in auto)
  moreover have "operational s'" "kernel.more s' = kernel.more s" using s'(2) by (simp_all add: waits_in_def)
  ultimately show ?thesis using s'(1,2) mq_step_threads [OF _ _ _ ok, of s'] by blast
qed

text \<open>What a call to send, or to receive, does at once.\<close>

definition mq_sent :: "nat \<Rightarrow> tid \<Rightarrow> u8 list \<Rightarrow> u32 \<Rightarrow> 'v msg_result \<Rightarrow> ipc \<Rightarrow> ipc \<Rightarrow> bool" where
  "mq_sent i t buf timeout r s s' \<longleftrightarrow>
     (let q = mqs s i in
      if length (mq_content q) = unat (max_msgs q)
      then mqs s' i = q \<and> msg_waits (Mq_send i) t (mq_flag q) timeout (- RT_EFULL) r s s'
      else r = Done RT_EOK None \<and> (\<exists>c. mq_content (mqs s' i) = mq_content q @ [c] \<and> msg_holds c buf) \<and> head_woken (Mq_recv i) s s')"

definition mq_received :: "nat \<Rightarrow> tid \<Rightarrow> nat \<Rightarrow> u32 \<Rightarrow> u8 list msg_result \<Rightarrow> ipc \<Rightarrow> ipc \<Rightarrow> bool" where
  "mq_received i t sz timeout r s s' \<longleftrightarrow>
     (let q = mqs s i in
      case mq_content q of
        [] \<Rightarrow> mqs s' i = q \<and> msg_waits (Mq_recv i) t (mq_flag q) timeout (- RT_ETIMEOUT) r s s'
      | c # cs \<Rightarrow> r = Done RT_EOK (Some (take sz c)) \<and> mq_content (mqs s' i) = cs \<and> head_woken (Mq_send i) s s')"

lemma mq_put_ok:
  assumes op: "operational s" and ok: "mq_ok (mqs s i)" and f: "msg_queue_free (mqs s i) = Some k"
    and n: "length buf \<le> unat (msg_size (mqs s i))"
  shows "\<exists>s'. mq_put i k buf s = Some (Done RT_EOK None, s') \<and> mq_step i s s' \<and>
    (\<exists>c. mq_content (mqs s' i) = mq_content (mqs s i) @ [c] \<and> msg_holds c buf) \<and> head_woken (Mq_recv i) s s'"
proof -
  obtain c q where q: "mq_store k buf (mqs s i) = Some (True, q)" "mq_ok q" "mq_content q = mq_content (mqs s i) @ [c]" "msg_holds c buf"
    "max_msgs q = max_msgs (mqs s i)" "msg_size q = msg_size (mqs s i)" using mq_send_free_ok [OF ok f n] by blast
  obtain s' where s': "msg_stored (Mq_recv i) True (upd_mq i (\<lambda>_. q) s) = Some (RT_EOK, s')" "mq_step i s s'" "mqs s' i = q"
    "head_woken (Mq_recv i) s s'" using mq_stored_ok [OF op q(2,5,6)] by blast
  then show ?thesis using q by (auto simp: mq_put_def msg_error_def)
qed

lemma mq_send_loop_ok:
  assumes op: "operational s" and ok: "mq_ok (mqs s i)" and c: "rt_current_thread s = Some t"
    and t: "timeout \<noteq> 0 \<longrightarrow> may_wait t s \<and> good_timeout timeout" and n: "length buf \<le> unat (msg_size (mqs s i))"
  shows "\<exists>r s'. mq_send_loop i buf timeout s = Some (r, s') \<and> mq_step i s s' \<and> mq_sent i t buf timeout r s s'"
proof (cases "msg_queue_free (mqs s i)")
  case (Some k)
  then have "length (mq_content (mqs s i)) \<noteq> unat (max_msgs (mqs s i))" using mq_tests(1) [OF ok] by simp
  then show ?thesis using mq_put_ok [OF op ok Some n] Some by (auto simp: mq_send_loop_def mq_sent_def Let_def)
next
  case None
  then have full: "length (mq_content (mqs s i)) = unat (max_msgs (mqs s i))" using mq_tests(1) [OF ok] by simp
  show ?thesis
  proof (cases "timeout = 0")
    case True
    have "mq_step i s (upd_thread t (\<lambda>th. th\<lparr>error := RT_EOK\<rparr>) s)"
      using mq_step_threads(1) [OF error_upd [OF op c] _ ok] by simp
    then show ?thesis using full None True c by (simp add: mq_send_loop_def mq_sent_def msg_waits_def msg_error_def Let_def)
  next
    case False
    then have t': "may_wait t s" "good_timeout timeout" using t by simp_all
    obtain s' where s': "wait_on (Mq_send i) t (mq_flag (mqs s i)) timeout (upd_thread t (\<lambda>th. th\<lparr>error := RT_EOK\<rparr>) s) = Some s'"
      "waits_in (Mq_send i) t (mq_flag (mqs s i)) timeout s s'" "mq_step i s s'" "mqs s' i = mqs s i"
      using mq_wait_ok [OF op ok t', of "Mq_send i"] by blast
    moreover have "rt_tick s' = rt_tick s" using s'(2) by (simp add: waits_in_def)
    ultimately show ?thesis using full None False c by (simp add: mq_send_loop_def mq_sent_def msg_waits_def Let_def)
  qed
qed

lemma mq_recv_loop_ok:
  assumes op: "operational s" and ok: "mq_ok (mqs s i)" and c: "rt_current_thread s = Some t"
    and t: "timeout \<noteq> 0 \<longrightarrow> may_wait t s \<and> good_timeout timeout"
  shows "\<exists>r s'. mq_recv_loop i sz timeout s = Some (r, s') \<and> mq_step i s s' \<and> mq_received i t sz timeout r s s'"
proof (cases "mq_content (mqs s i)")
  case (Cons m ms)
  then have "mq_entry (mqs s i) \<noteq> 0" using mq_tests(2) [OF ok] by simp
  then show ?thesis using mq_get_ok [OF op ok Cons] Cons by (simp add: mq_recv_loop_def mq_received_def Let_def)
next
  case Nil
  then have none: "mq_entry (mqs s i) = 0" using mq_tests(2) [OF ok] by simp
  show ?thesis
  proof (cases "timeout = 0")
    case True
    let ?s0 = "upd_thread t (\<lambda>th. th\<lparr>error := RT_EOK\<rparr>) s"
    let ?s1 = "upd_thread t (\<lambda>th. th\<lparr>error := - RT_ETIMEOUT\<rparr>) ?s0"
    have c0: "rt_current_thread ?s0 = Some t" using c by simp
    note e0 = error_upd [OF op c, where e = RT_EOK]
    have "mq_step i s ?s1"
      using mq_step_threads(1) [OF error_upd(1) [OF e0(1) c0] spares_trans [OF e0(2) error_upd(2) [OF e0(1) c0]] _ ok] by simp
    then show ?thesis using none Nil True c by (simp add: mq_recv_loop_def mq_received_def msg_waits_def msg_error_def Let_def)
  next
    case False
    then have t': "may_wait t s" "good_timeout timeout" using t by simp_all
    obtain s' where s': "wait_on (Mq_recv i) t (mq_flag (mqs s i)) timeout (upd_thread t (\<lambda>th. th\<lparr>error := RT_EOK\<rparr>) s) = Some s'"
      "waits_in (Mq_recv i) t (mq_flag (mqs s i)) timeout s s'" "mq_step i s s'" "mqs s' i = mqs s i"
      using mq_wait_ok [OF op ok t', of "Mq_recv i"] by blast
    moreover have "rt_tick s' = rt_tick s" using s'(2) by (simp add: waits_in_def)
    ultimately show ?thesis using none Nil False c by (simp add: mq_recv_loop_def mq_received_def msg_waits_def Let_def)
  qed
qed

lemma rt_mq_send_wait_ok:
  assumes op: "operational s" and ok: "mq_ok (mqs s i)" and c: "rt_current_thread s = Some t" and buf: "buf \<noteq> []"
    and t: "timeout \<noteq> 0 \<longrightarrow> may_wait t s \<and> good_timeout timeout"
  shows "\<exists>(r :: 'v msg_result) s'. rt_mq_send_wait i buf timeout s = Some (r, s') \<and> mq_step i s s' \<and>
    (if length buf > unat (msg_size (mqs s i)) then r = Done (- RT_ERROR) None \<and> s' = s else mq_sent i t buf timeout r s s')"
proof -
  have sched: "timeout \<noteq> 0 \<longrightarrow> scheduler_available s" using t by (simp add: may_wait_def)
  consider (long) "length buf > unat (msg_size (mqs s i))"
    | (full) "length buf \<le> unat (msg_size (mqs s i))" "msg_queue_free (mqs s i) = None" "timeout = 0"
    | (attempt) "length buf \<le> unat (msg_size (mqs s i))" "\<not> (msg_queue_free (mqs s i) = None \<and> timeout = 0)" by fastforce
  then show ?thesis
  proof cases
    case long
    then show ?thesis using buf sched mq_step_refl [OF op ok] by (simp add: rt_mq_send_wait_def msg_error_def)
  next
    case full
    then show ?thesis
      using buf mq_step_refl [OF op ok] mq_tests(1) [OF ok] by (simp add: rt_mq_send_wait_def mq_sent_def msg_waits_def msg_error_def Let_def)
  next
    case attempt
    then have e: "rt_mq_send_wait i buf timeout s = (mq_send_loop i buf timeout s :: ('v msg_result \<times> ipc) option)"
      using buf sched by (auto simp: rt_mq_send_wait_def)
    show ?thesis unfolding e using mq_send_loop_ok [OF op ok c t attempt(1)] attempt(1) by simp
  qed
qed

lemma rt_mq_recv_ok:
  assumes op: "operational s" and ok: "mq_ok (mqs s i)" and c: "rt_current_thread s = Some t" and sz: "sz \<noteq> 0"
    and t: "timeout \<noteq> 0 \<longrightarrow> may_wait t s \<and> good_timeout timeout"
  shows "\<exists>r s'. rt_mq_recv i sz timeout s = Some (r, s') \<and> mq_step i s s' \<and> mq_received i t sz timeout r s s'"
proof (cases "mq_entry (mqs s i) = 0 \<and> timeout = 0")
  case True
  then show ?thesis
    using sz mq_step_refl [OF op ok] mq_tests(2) [OF ok]
    by (auto simp: rt_mq_recv_def mq_received_def msg_waits_def msg_error_def Let_def)
next
  case False
  have "timeout \<noteq> 0 \<longrightarrow> scheduler_available s" using t by (simp add: may_wait_def)
  then have e: "rt_mq_recv i sz timeout s = mq_recv_loop i sz timeout s" using False sz by (auto simp: rt_mq_recv_def)
  show ?thesis unfolding e by (rule mq_recv_loop_ok [OF op ok c t])
qed

lemma rt_mq_send_resume_ok:
  assumes op: "operational s" and ok: "mq_ok (mqs s i)" and t: "may_wait t s" "good_timeout timeout"
    and d: "0 < sint timeout \<longrightarrow> rt_tick s - tick \<le> timeout" and n: "length buf \<le> unat (msg_size (mqs s i))"
  shows "\<exists>r s'. rt_mq_send_resume i buf timeout tick s = Some (r, s') \<and> mq_step i s s' \<and>
    (if error (threads s t) \<noteq> RT_EOK then r = Done (error (threads s t)) None \<and> s' = s
     else mq_sent i t buf (time_left timeout tick s) r s s')"
proof (cases "error (threads s t) = RT_EOK")
  case False
  then show ?thesis using may_wait_D(1) [OF t(1)] mq_step_refl [OF op ok] by (simp add: rt_mq_send_resume_def msg_error_def)
next
  case True
  note c = may_wait_D(1) [OF t(1)]
  have "time_left timeout tick s \<noteq> 0 \<longrightarrow> may_wait t s \<and> good_timeout (time_left timeout tick s)"
    using t(1) time_left_good(1) [OF t(2) d] by simp
  from mq_send_loop_ok [OF op ok c this n] show ?thesis using True c by (simp add: rt_mq_send_resume_def)
qed

lemma rt_mq_recv_resume_ok:
  assumes op: "operational s" and ok: "mq_ok (mqs s i)" and t: "may_wait t s" "good_timeout timeout"
    and d: "0 < sint timeout \<longrightarrow> rt_tick s - tick \<le> timeout"
  shows "\<exists>r s'. rt_mq_recv_resume i sz timeout tick s = Some (r, s') \<and> mq_step i s s' \<and>
    (if error (threads s t) \<noteq> RT_EOK then r = Done (error (threads s t)) None \<and> s' = s
     else mq_received i t sz (time_left timeout tick s) r s s')"
proof (cases "error (threads s t) = RT_EOK")
  case False
  then show ?thesis using may_wait_D(1) [OF t(1)] mq_step_refl [OF op ok] by (simp add: rt_mq_recv_resume_def msg_error_def)
next
  case True
  note c = may_wait_D(1) [OF t(1)]
  have "time_left timeout tick s \<noteq> 0 \<longrightarrow> may_wait t s \<and> good_timeout (time_left timeout tick s)"
    using t(1) time_left_good(1) [OF t(2) d] by simp
  from mq_recv_loop_ok [OF op ok c this] show ?thesis using True c by (simp add: rt_mq_recv_resume_def)
qed

lemma rt_mq_urgent_ok:
  assumes op: "operational s" and ok: "mq_ok (mqs s i)" and buf: "buf \<noteq> []"
  shows "\<exists>r s'. rt_mq_urgent i buf s = Some (r, s') \<and> mq_step i s s' \<and>
    (if length buf > unat (msg_size (mqs s i)) then r = - RT_ERROR \<and> s' = s
     else if length (mq_content (mqs s i)) = unat (max_msgs (mqs s i)) then r = - RT_EFULL \<and> s' = s
     else r = RT_EOK \<and> (\<exists>c. mq_content (mqs s' i) = c # mq_content (mqs s i) \<and> msg_holds c buf) \<and> head_woken (Mq_recv i) s s')"
proof (cases "length buf > unat (msg_size (mqs s i))")
  case True
  then show ?thesis using buf mq_step_refl [OF op ok] by (simp add: rt_mq_urgent_def)
next
  case short: False
  then have n: "length buf \<le> unat (msg_size (mqs s i))" by simp
  show ?thesis
  proof (cases "msg_queue_free (mqs s i)")
    case None
    then show ?thesis using buf short mq_step_refl [OF op ok] mq_tests(1) [OF ok] by (simp add: rt_mq_urgent_def)
  next
    case (Some k)
    obtain c q where q: "mq_push k buf (mqs s i) = Some (True, q)" "mq_ok q" "mq_content q = c # mq_content (mqs s i)" "msg_holds c buf"
      "max_msgs q = max_msgs (mqs s i)" "msg_size q = msg_size (mqs s i)" using mq_push_free_ok [OF ok Some n] by blast
    obtain s' where s': "msg_stored (Mq_recv i) True (upd_mq i (\<lambda>_. q) s) = Some (RT_EOK, s')" "mq_step i s s'" "mqs s' i = q"
      "head_woken (Mq_recv i) s s'" using mq_stored_ok [OF op q(2,5,6)] by blast
    have "rt_mq_urgent i buf s = Some (RT_EOK, s')" using buf short Some q(1) s'(1) by (simp add: rt_mq_urgent_def)
    moreover have "length (mq_content (mqs s i)) \<noteq> unat (max_msgs (mqs s i))" using mq_tests(1) [OF ok] Some by simp
    ultimately show ?thesis using short q s' by auto
  qed
qed

lemma rt_mq_control_ok:
  assumes op: "operational s" and ok: "mq_ok (mqs s i)"
  shows "\<exists>s'. rt_mq_control i RT_IPC_CMD_RESET s = Some (RT_EOK, s') \<and> mq_step i s s' \<and> mq_content (mqs s' i) = [] \<and>
    (\<forall>t \<in> set (thread_lists s (Mq_recv i)) \<union> set (thread_lists s (Mq_send i)).
       runnable (threads s' t) \<and> error (threads s' t) = - RT_ERROR)"
proof -
  let ?W = "set (thread_lists s (Mq_recv i)) \<union> set (thread_lists s (Mq_send i))"
  obtain s1 s2 where s2: "ipc_list_resume_all (Mq_recv i) s = Some s1" "ipc_list_resume_all (Mq_send i) s1 = Some s2" "operational s2"
    "wakes ?W s s2" "\<forall>t \<in> ?W. runnable (threads s2 t) \<and> error (threads s2 t) = - RT_ERROR"
    using resume_both_ok [OF op wait_list_simps(8,9)] by blast
  have m2: "mqs s2 = mqs s" using same_objects(5) [OF more_wakes [OF s2(4)]] .
  obtain q where q: "mq_flush (length (mq_pool (mqs s i))) (mqs s i) = Some q" "mq_ok (q\<lparr>mq_entry := 0\<rparr>)" "mq_content (q\<lparr>mq_entry := 0\<rparr>) = []"
    "max_msgs q = max_msgs (mqs s i)" "msg_size q = msg_size (mqs s i)" using mq_reset_ok [OF ok] by blast
  let ?q = "q\<lparr>mq_entry := 0\<rparr>"
  have "operational (upd_mq i (\<lambda>_. ?q) s2)" using s2(3) by simp
  from schedule_ok [OF this] obtain s' where s': "rt_schedule (upd_mq i (\<lambda>_. ?q) s2) = Some s'" "woken {} (upd_mq i (\<lambda>_. ?q) s2) s'" by blast
  note w = woken_D [OF s'(2)]
  have more: "kernel.more s' = kernel.more (upd_mq i (\<lambda>_. ?q) s)"
    using more_wakes [OF w(2)] same_objects [OF more_wakes [OF s2(4)]] by (simp add: more_upd_mq)
  have sp: "spares {Mq_recv i, Mq_send i} (upd_mq i (\<lambda>_. ?q) s) s'"
  proof -
    have "spares {Mq_recv i, Mq_send i} s2 s'" using w(4) [of "{Mq_recv i, Mq_send i}"] by (simp add: spares_def)
    then have "spares {Mq_recv i, Mq_send i} s s'" using spares_trans [OF spares_kept [OF kept_wakes [OF s2(4)]]] by blast
    then show ?thesis by (simp add: spares_def)
  qed
  have dims: "max_msgs ?q = max_msgs (mqs s i)" "msg_size ?q = msg_size (mqs s i)" using q(4,5) by simp_all
  note step = mq_stepI [OF w(1) sp q(2) dims more]
  have "runnable (threads s' t) \<and> error (threads s' t) = - RT_ERROR" if "t \<in> ?W" for t
    using that s2(5) w(2,7) by (simp add: wakes_def)
  then show ?thesis using s2(1,2) m2 q(1,3) s'(1) step by (simp add: rt_mq_control_def)
qed

lemma rt_mq_detach_ok:
  assumes op: "operational s" and ok: "mq_ok (mqs s i)"
  shows "\<exists>s'. rt_mq_detach i s = Some s' \<and> mq_step i s s' \<and> thread_lists s' (Mq_recv i) = [] \<and> thread_lists s' (Mq_send i) = []"
proof -
  let ?W = "set (thread_lists s (Mq_recv i)) \<union> set (thread_lists s (Mq_send i))"
  obtain s1 s2 where s2: "ipc_list_resume_all (Mq_recv i) s = Some s1" "ipc_list_resume_all (Mq_send i) s1 = Some s2" "operational s2"
    "wakes ?W s s2" "thread_lists s2 (Mq_recv i) = []" "thread_lists s2 (Mq_send i) = []"
    using resume_both_ok [OF op wait_list_simps(8,9)] by blast
  have "mq_step i s s2" using mq_step_threads(1) [OF s2(3) spares_kept [OF kept_wakes [OF s2(4)]] more_wakes [OF s2(4)] ok] .
  then show ?thesis using s2 by (simp add: rt_mq_detach_def)
qed

lemma rt_mq_init_ok:
  assumes op: "operational s" and l: "thread_lists s (Mq_recv i) = []" "thread_lists s (Mq_send i) = []"
  shows "\<exists>s'. rt_mq_init i pool sz flag s = Some s' \<and> operational s' \<and> spares {} s s' \<and> mq_ok (mqs s' i) \<and>
    mq_content (mqs s' i) = [] \<and> kernel.more s' = kernel.more (upd_mq i (\<lambda>_. mqs s' i) s)"
proof -
  let ?m = "ucast ((sz + 3) AND NOT 3) :: u16"
  let ?n = "of_nat (length pool div mq_slot_size ?m) :: u16"
  have "unat ?n \<le> length pool div mq_slot_size ?m" by (simp add: unat_of_nat take_bit_eq_mod)
  then have "unat ?n * mq_slot_size ?m \<le> length pool div mq_slot_size ?m * mq_slot_size ?m" by (rule mult_le_mono1)
  also have "\<dots> \<le> length pool" by simp
  finally have "unat ?n * mq_slot_size ?m \<le> length pool" .
  from mq_empty_ok [OF this, of flag] show ?thesis
    using op ipc_object_init_ok [OF l(1)] ipc_object_init_ok [OF l(2)] by (simp add: rt_mq_init_def Let_def spares_def)
qed

text \<open>The size of a message, rounded up, and its 16 bits.\<close>

lemma mq_size_bounds:
  fixes sz :: u32
  assumes "sz < 0xfffd"
  shows "unat (ucast ((sz + 3) AND NOT 3) :: u16) = unat ((sz + 3) AND NOT 3)" "unat sz \<le> unat (ucast ((sz + 3) AND NOT 3) :: u16)"
proof -
  have b: "unat sz < 65533" using assms by (simp add: word_less_nat_alt)
  then have u: "unat (sz + 3) = unat sz + 3" by (subst unat_add_lem [THEN iffD1]) simp_all
  have a: "unat ((sz + 3) AND NOT 3) = (unat sz + 3) div 4 * 4" unfolding unat_and_not_3 u ..
  show c: "unat (ucast ((sz + 3) AND NOT 3) :: u16) = unat ((sz + 3) AND NOT 3)"
    unfolding unsigned_ucast_eq using a b by (simp add: take_bit_eq_mod)
  show "unat sz \<le> unat (ucast ((sz + 3) AND NOT 3) :: u16)" unfolding c a by presburger
qed

subsection \<open>A message queue is a bounded queue\<close>

text \<open>The attempts that do not wait; a receiver has room for \<open>n + 1\<close> bytes.\<close>

definition mq_try_send :: "nat \<Rightarrow> u8 list \<Rightarrow> ipc \<Rightarrow> (bool \<times> ipc) option" where
  "mq_try_send i buf s = map_option (\<lambda>(r :: unit msg_result, s). (r = Done RT_EOK None, s)) (rt_mq_send i buf s)"

definition mq_try_urgent :: "nat \<Rightarrow> u8 list \<Rightarrow> ipc \<Rightarrow> (bool \<times> ipc) option" where
  "mq_try_urgent i buf s = map_option (\<lambda>(r, s). (r = RT_EOK, s)) (rt_mq_urgent i buf s)"

definition mq_try_recv :: "nat \<Rightarrow> nat \<Rightarrow> ipc \<Rightarrow> (u8 list option \<times> ipc) option" where
  "mq_try_recv i n s = map_option (map_prod received id) (rt_mq_recv i (Suc n) 0 s)"

definition mq_inv :: "nat \<Rightarrow> ipc \<Rightarrow> bool" where
  "mq_inv i s \<longleftrightarrow> operational s \<and> mq_ok (mqs s i)"

text \<open>What is received of a message.\<close>

definition msg_part :: "nat \<Rightarrow> u8 list \<Rightarrow> u8 list \<Rightarrow> bool" where
  "msg_part n c buf \<longleftrightarrow> take (length buf) c = take (Suc n) buf"

definition mq_fits :: "nat \<Rightarrow> ipc \<Rightarrow> u8 list \<Rightarrow> bool" where
  "mq_fits i s buf \<longleftrightarrow> buf \<noteq> [] \<and> length buf \<le> unat (msg_size (mqs s i))"

lemma msg_part_holds: "msg_holds c buf \<Longrightarrow> msg_part n (take (Suc n) c) buf"
  by (simp add: msg_part_def msg_holds_def) (metis take_take min.commute)

lemma mq_step_inv:
  "mq_step i s s' \<Longrightarrow> mq_inv i s' \<and> max_msgs (mqs s' i) = max_msgs (mqs s i) \<and> mq_fits i s' = mq_fits i s"
  by (simp add: mq_step_def mq_inv_def mq_fits_def fun_eq_iff)

lemma mq_room_left: "mq_ok q \<Longrightarrow> length (mq_content q) < unat (max_msgs q) \<longleftrightarrow> length (mq_content q) \<noteq> unat (max_msgs q)"
  using mq_tests(3) [of q] by auto

interpretation mq: msg_queue "mq_inv i" "\<lambda>s. map (take (Suc n)) (mq_content (mqs s i))" "\<lambda>s. unat (max_msgs (mqs s i))" "mq_fits i"
  "msg_part n" "mq_try_send i" "mq_try_urgent i" "mq_try_recv i n" for i n
proof unfold_locales
  fix s buf assume inv: "mq_inv i s" and "mq_fits i s buf"
  then have op: "operational s" and ok: "mq_ok (mqs s i)" and buf: "buf \<noteq> []" "length buf \<le> unat (msg_size (mqs s i))"
    by (simp_all add: mq_inv_def mq_fits_def)
  obtain t where c: "rt_current_thread s = Some t" using operational_D(3) [OF op] by (auto simp: cur_running_def)
  note room = mq_room_left [OF ok]
  let ?C = "\<lambda>s. map (take (Suc n)) (mq_content (mqs s i))" and ?N = "\<lambda>s. unat (max_msgs (mqs s i))"
  have self: "msg_part n (take (Suc n) buf) buf" by (rule msg_part_holds) (simp add: msg_holds_def)
  show "\<exists>c s'. mq_try_send i buf s = Some (length (?C s) < ?N s, s') \<and> mq_inv i s' \<and> msg_part n c buf \<and> ?N s' = ?N s \<and>
      mq_fits i s' = mq_fits i s \<and> ?C s' = (if length (?C s) < ?N s then ?C s @ [c] else ?C s)"
  proof -
    obtain r s' where s': "rt_mq_send_wait i buf 0 s = Some (r :: unit msg_result, s')" "mq_step i s s'"
      "if length buf > unat (msg_size (mqs s i)) then r = Done (- RT_ERROR) None \<and> s' = s else mq_sent i t buf 0 r s s'"
      using rt_mq_send_wait_ok [OF op ok c buf(1), of 0, where 'v = unit] by auto
    have sent: "mq_sent i t buf 0 r s s'" using s'(3) buf(2) by simp
    note st = mq_step_inv [OF s'(2)]
    show ?thesis
    proof (cases "length (mq_content (mqs s i)) = unat (max_msgs (mqs s i))")
      case True
      then have "r = Done (- RT_EFULL) None" "mqs s' i = mqs s i" using sent by (simp_all add: mq_sent_def msg_waits_def)
      then show ?thesis using s'(1) st room True self by (auto simp: mq_try_send_def rt_mq_send_def)
    next
      case False
      then obtain c' where "r = Done RT_EOK None" "mq_content (mqs s' i) = mq_content (mqs s i) @ [c']" "msg_holds c' buf"
        using sent by (auto simp: mq_sent_def Let_def)
      then show ?thesis using s'(1) st room False msg_part_holds [of c' buf n] by (auto simp: mq_try_send_def rt_mq_send_def)
    qed
  qed
  show "\<exists>c s'. mq_try_urgent i buf s = Some (length (?C s) < ?N s, s') \<and> mq_inv i s' \<and> msg_part n c buf \<and> ?N s' = ?N s \<and>
      mq_fits i s' = mq_fits i s \<and> ?C s' = (if length (?C s) < ?N s then c # ?C s else ?C s)"
  proof -
    obtain r s' where s': "rt_mq_urgent i buf s = Some (r, s')" "mq_step i s s'"
      "if length buf > unat (msg_size (mqs s i)) then r = - RT_ERROR \<and> s' = s
       else if length (mq_content (mqs s i)) = unat (max_msgs (mqs s i)) then r = - RT_EFULL \<and> s' = s
       else r = RT_EOK \<and> (\<exists>c. mq_content (mqs s' i) = c # mq_content (mqs s i) \<and> msg_holds c buf) \<and> head_woken (Mq_recv i) s s'"
      using rt_mq_urgent_ok [OF op ok buf(1)] by blast
    note st = mq_step_inv [OF s'(2)]
    show ?thesis
    proof (cases "length (mq_content (mqs s i)) = unat (max_msgs (mqs s i))")
      case True
      then have "r = - RT_EFULL" "s' = s" using s'(3) buf(2) by simp_all
      then show ?thesis using s'(1) st room True self by (auto simp: mq_try_urgent_def)
    next
      case False
      then obtain c' where "r = RT_EOK" "mq_content (mqs s' i) = c' # mq_content (mqs s i)" "msg_holds c' buf"
        using s'(3) buf(2) by auto
      then show ?thesis using s'(1) st room False msg_part_holds [of c' buf n] by (auto simp: mq_try_urgent_def)
    qed
  qed
next
  fix s assume inv: "mq_inv i s"
  then have op: "operational s" and ok: "mq_ok (mqs s i)" by (simp_all add: mq_inv_def)
  obtain t where c: "rt_current_thread s = Some t" using operational_D(3) [OF op] by (auto simp: cur_running_def)
  let ?C = "\<lambda>s. map (take (Suc n)) (mq_content (mqs s i))" and ?N = "\<lambda>s. unat (max_msgs (mqs s i))"
  obtain r s' where s': "rt_mq_recv i (Suc n) 0 s = Some (r, s')" "mq_step i s s'" "mq_received i t (Suc n) 0 r s s'"
    using rt_mq_recv_ok [OF op ok c, of "Suc n" 0] by auto
  show "\<exists>s'. mq_try_recv i n s = Some (case ?C s of [] \<Rightarrow> None | c # _ \<Rightarrow> Some c, s') \<and> mq_inv i s' \<and> ?N s' = ?N s \<and>
      mq_fits i s' = mq_fits i s \<and> ?C s' = tl (?C s)"
    using s'(1,3) mq_step_inv [OF s'(2)]
    by (cases "mq_content (mqs s i)") (auto simp: mq_try_recv_def mq_received_def msg_waits_def received_def Let_def)
qed

end
