(* ===== verification/Ipc_Calls.thy ===== *)
theory Ipc_Calls
  imports Ipc_Sem Ipc_Mutex Ipc_Event Ipc_Mailbox Ipc_Mq
begin

text \<open>
  Programs of calls to the kernel and to IPC objects of all kinds, as an inductive relation, and the invariant that every
  call keeps.
\<close>

subsection \<open>Calls\<close>

text \<open>The calls \<open>_again\<close> are a thread that was waiting for a message and goes on.\<close>

datatype icall =
    Kernel_call kcall
  | Sem_init nat u32 ipc_flag | Sem_detach nat | Sem_take nat u32 | Sem_release nat | Sem_reset nat u32
  | Mutex_init nat | Mutex_detach nat | Mutex_take nat u32 | Mutex_release nat
  | Event_init nat ipc_flag | Event_detach nat | Event_send nat u32 | Event_recv nat u32 u8 u32 | Event_reset nat
  | Mb_init nat "u32 list" u16 ipc_flag | Mb_detach nat | Mb_put nat u32 u32 | Mb_put_again nat u32 u32 u32 | Mb_urgent nat u32
  | Mb_get nat u32 | Mb_get_again nat u32 u32 | Mb_reset nat
  | Mq_init nat "u8 list" u32 ipc_flag | Mq_detach nat | Mq_put nat "u8 list" u32 | Mq_put_again nat "u8 list" u32 u32
  | Mq_urgent nat "u8 list" | Mq_get nat nat u32 | Mq_get_again nat nat u32 u32 | Mq_reset nat

fun icall_step :: "icall \<Rightarrow> ipc \<Rightarrow> ipc option" where
  "icall_step (Kernel_call c) s = kcall_step c s"
| "icall_step (Sem_init i v flag) s = rt_sem_init i v flag s"
| "icall_step (Sem_detach i) s = rt_sem_detach i s"
| "icall_step (Sem_take i timeout) s = map_option snd (rt_sem_take i timeout s)"
| "icall_step (Sem_release i) s = map_option snd (rt_sem_release i s)"
| "icall_step (Sem_reset i v) s = map_option snd (rt_sem_control i RT_IPC_CMD_RESET v s)"
| "icall_step (Mutex_init i) s = rt_mutex_init i s"
| "icall_step (Mutex_detach i) s = rt_mutex_detach i s"
| "icall_step (Mutex_take i timeout) s = map_option snd (rt_mutex_take i timeout s)"
| "icall_step (Mutex_release i) s = map_option snd (rt_mutex_release i s)"
| "icall_step (Event_init i flag) s = rt_event_init i flag s"
| "icall_step (Event_detach i) s = rt_event_detach i s"
| "icall_step (Event_send i bits) s = map_option snd (rt_event_send i bits s)"
| "icall_step (Event_recv i bits opt timeout) s = map_option (\<lambda>(_, _, s). s) (rt_event_recv i bits opt timeout s)"
| "icall_step (Event_reset i) s = map_option snd (rt_event_control i RT_IPC_CMD_RESET s)"
| "icall_step (Mb_init i pool n flag) s = rt_mb_init i pool n flag s"
| "icall_step (Mb_detach i) s = rt_mb_detach i s"
| "icall_step (Mb_put i v timeout) s = map_option snd (rt_mb_send_wait i v timeout s :: (unit msg_result \<times> ipc) option)"
| "icall_step (Mb_put_again i v timeout tick) s =
     map_option snd (rt_mb_send_resume i v timeout tick s :: (unit msg_result \<times> ipc) option)"
| "icall_step (Mb_urgent i v) s = map_option snd (rt_mb_urgent i v s)"
| "icall_step (Mb_get i timeout) s = map_option snd (rt_mb_recv i timeout s)"
| "icall_step (Mb_get_again i timeout tick) s = map_option snd (rt_mb_recv_resume i timeout tick s)"
| "icall_step (Mb_reset i) s = map_option snd (rt_mb_control i RT_IPC_CMD_RESET s)"
| "icall_step (Mq_init i pool sz flag) s = rt_mq_init i pool sz flag s"
| "icall_step (Mq_detach i) s = rt_mq_detach i s"
| "icall_step (Mq_put i buf timeout) s = map_option snd (rt_mq_send_wait i buf timeout s :: (unit msg_result \<times> ipc) option)"
| "icall_step (Mq_put_again i buf timeout tick) s =
     map_option snd (rt_mq_send_resume i buf timeout tick s :: (unit msg_result \<times> ipc) option)"
| "icall_step (Mq_urgent i buf) s = map_option snd (rt_mq_urgent i buf s)"
| "icall_step (Mq_get i sz timeout) s = map_option snd (rt_mq_recv i sz timeout s)"
| "icall_step (Mq_get_again i sz timeout tick) s = map_option snd (rt_mq_recv_resume i sz timeout tick s)"
| "icall_step (Mq_reset i) s = map_option snd (rt_mq_control i RT_IPC_CMD_RESET s)"

text \<open>
  When a call may be made. Threads other than the idle thread wait, with the scheduler unlocked and outside interrupts,
  for less than half the range of the tick; an object that nobody waits for is initialised; a mailbox gets memory of its
  size; an event is received with one of its two conditions; a message is not empty; and who was waiting goes on with a
  timeout that has not run out.
\<close>

definition can_wait :: "ipc \<Rightarrow> bool" where
  "can_wait s \<longleftrightarrow> rt_current_thread s \<noteq> Some idle \<and> scheduler_available s"

definition goes_on :: "u32 \<Rightarrow> u32 \<Rightarrow> ipc \<Rightarrow> bool" where
  "goes_on timeout tick s \<longleftrightarrow> can_wait s \<and> good_timeout timeout \<and> (0 < sint timeout \<longrightarrow> rt_tick s - tick \<le> timeout)"

fun icall_allowed :: "icall \<Rightarrow> ipc \<Rightarrow> bool" where
  "icall_allowed (Kernel_call c) s = allowed c s"
| "icall_allowed (Sem_init i v flag) s = (v < 0x10000 \<and> thread_lists s (Sem i) = [])"
| "icall_allowed (Sem_take i timeout) s = (timeout \<noteq> 0 \<longrightarrow> can_wait s \<and> good_timeout timeout)"
| "icall_allowed (Mutex_init i) s = (thread_lists s (Mutex i) = [])"
| "icall_allowed (Mutex_take i timeout) s = (can_wait s \<and> good_timeout timeout)"
| "icall_allowed (Mutex_release i) s = thread_context s"
| "icall_allowed (Event_init i flag) s = (thread_lists s (Event i) = [])"
| "icall_allowed (Event_recv i bits opt timeout) s = (can_wait s \<and> good_timeout timeout \<and> event_option opt)"
| "icall_allowed (Mb_init i pool n flag) s =
     (thread_lists s (Mb_recv i) = [] \<and> thread_lists s (Mb_send i) = [] \<and> length pool = unat n)"
| "icall_allowed (Mb_put i v timeout) s = (timeout \<noteq> 0 \<longrightarrow> can_wait s \<and> good_timeout timeout)"
| "icall_allowed (Mb_put_again i v timeout tick) s = goes_on timeout tick s"
| "icall_allowed (Mb_get i timeout) s = (timeout \<noteq> 0 \<longrightarrow> can_wait s \<and> good_timeout timeout)"
| "icall_allowed (Mb_get_again i timeout tick) s = goes_on timeout tick s"
| "icall_allowed (Mq_init i pool sz flag) s = (thread_lists s (Mq_recv i) = [] \<and> thread_lists s (Mq_send i) = [])"
| "icall_allowed (Mq_put i buf timeout) s = (buf \<noteq> [] \<and> (timeout \<noteq> 0 \<longrightarrow> can_wait s \<and> good_timeout timeout))"
| "icall_allowed (Mq_put_again i buf timeout tick) s = (goes_on timeout tick s \<and> length buf \<le> unat (msg_size (mqs s i)))"
| "icall_allowed (Mq_urgent i buf) s = (buf \<noteq> [])"
| "icall_allowed (Mq_get i sz timeout) s = (sz \<noteq> 0 \<and> (timeout \<noteq> 0 \<longrightarrow> can_wait s \<and> good_timeout timeout))"
| "icall_allowed (Mq_get_again i sz timeout tick) s = goes_on timeout tick s"
| "icall_allowed _ s = True"

inductive ipc_run :: "icall list \<Rightarrow> ipc \<Rightarrow> ipc \<Rightarrow> bool" where
  ipc_stop: "ipc_run [] s s"
| ipc_call: "icall_allowed c s \<Longrightarrow> icall_step c s = Some s' \<Longrightarrow> ipc_run cs s' s'' \<Longrightarrow> ipc_run (c # cs) s s''"

inductive_simps ipc_run_Nil [simp]: "ipc_run [] s s'"
inductive_cases ipc_run_ConsE: "ipc_run (c # cs) s s''"

subsection \<open>The invariant\<close>

definition ipc_inv :: "ipc \<Rightarrow> bool" where
  "ipc_inv s \<longleftrightarrow> operational s \<and> wait_ok s \<and> (\<forall>i. sem_ok i s) \<and> (\<forall>i. mutex_ok i s) \<and> (\<forall>i. event_ok i s) \<and>
     (\<forall>i. mb_ok (mailboxes s i)) \<and> (\<forall>i. mq_ok (mqs s i))"

lemma ipc_invD:
  assumes "ipc_inv s"
  shows "operational s" "sem_ok i s" "mutex_ok i s" "event_ok i s" "mb_ok (mailboxes s i)" "mq_ok (mqs s i)" "wait_ok s"
  using assms by (simp_all add: ipc_inv_def)

text \<open>An object stays as it should be when nothing happens to it, or when its own call keeps it so.\<close>

lemma ipc_inv_frame:
  assumes inv: "ipc_inv s" and op: "operational s'" and sp: "spares K s s'"
    and sem: "\<And>j. (Sem j \<notin> K \<and> sems s' j = sems s j) \<or> sem_ok j s'"
    and mutex: "\<And>j. (Mutex j \<notin> K \<and> mutexes s' j = mutexes s j) \<or> mutex_ok j s'"
    and event: "\<And>j. (Event j \<notin> K \<and> events s' j = events s j) \<or> event_ok j s'"
    and mb: "\<And>j. mailboxes s' j = mailboxes s j \<or> mb_ok (mailboxes s' j)"
    and mq: "\<And>j. mqs s' j = mqs s j \<or> mq_ok (mqs s' j)"
  shows "ipc_inv s'"
  unfolding ipc_inv_def
proof (intro conjI allI)
  have sub: "set (thread_lists s' l) \<subseteq> set (thread_lists s l)" "t \<in> set (thread_lists s' l) \<Longrightarrow> same_wait (threads s t) (threads s' t)"
    if "wait_list l" "l \<notin> K" for l t using sparesD(1,2) [OF sp that(1)] that(2) by blast+
  note I = ipc_invD [OF inv]
  show "operational s'" by (rule op)
  show "wait_ok s'" by (rule wait_ok_spares [OF I(7) sp])
  show "sem_ok j s'" for j using sem [of j] sem_ok_sub [OF I(2) [of j] sub(1)] by auto
  show "mutex_ok j s'" for j using mutex [of j] mutex_ok_sub [OF I(3) [of j] sub(1)] by auto
  show "event_ok j s'" for j using event [of j] event_ok_sub [OF I(4) [of j] sub(1) sub(2) [of "Event j"]] by auto
  show "mb_ok (mailboxes s' j)" for j using mb [of j] I(5) [of j] by auto
  show "mq_ok (mqs s' j)" for j using mq [of j] I(6) [of j] by auto
qed

lemma ipc_inv_kept:
  assumes "ipc_inv s" "operational s'" "kept s s'"
  shows "ipc_inv s'"
  by (rule ipc_inv_frame [OF assms(1,2) spares_kept [OF assms(3), of "{}"]]) (simp_all add: kept_objects [OF assms(3)])

lemma ipc_inv_step:
  assumes inv: "ipc_inv s"
  shows "sem_step i s s' \<Longrightarrow> ipc_inv s'" "mutex_step i s s' \<Longrightarrow> ipc_inv s'" "event_step i s s' \<Longrightarrow> ipc_inv s'"
    "mb_step i s s' \<Longrightarrow> ipc_inv s'" "mq_step i s s' \<Longrightarrow> ipc_inv s'"
proof -
  show "ipc_inv s'" if "sem_step i s s'"
  proof -
    have m: "kernel.more s' = kernel.more (upd_sem i (\<lambda>_. sems s' i) s)" using that by (simp add: sem_step_def)
    have "sem_ok i s'" "spares {Sem i} s s'" "operational s'" using that by (simp_all add: sem_step_def)
    then show ?thesis using same_objects [OF m] by (intro ipc_inv_frame [OF inv, of s' "{Sem i}"]) (simp_all; metis fun_upd_apply)+
  qed
  show "ipc_inv s'" if "mutex_step i s s'"
  proof -
    have m: "kernel.more s' = kernel.more (upd_mutex i (\<lambda>_. mutexes s' i) s)" using that by (simp add: mutex_step_def)
    have "mutex_ok i s'" "spares {Mutex i} s s'" "operational s'" using that by (simp_all add: mutex_step_def)
    then show ?thesis using same_objects [OF m] by (intro ipc_inv_frame [OF inv, of s' "{Mutex i}"]) (simp_all; metis fun_upd_apply)+
  qed
  show "ipc_inv s'" if "event_step i s s'"
  proof -
    have m: "kernel.more s' = kernel.more (upd_event i (\<lambda>_. events s' i) s)" using that by (simp add: event_step_def)
    have "event_ok i s'" "spares {Event i} s s'" "operational s'" using that by (simp_all add: event_step_def)
    then show ?thesis using same_objects [OF m] by (intro ipc_inv_frame [OF inv, of s' "{Event i}"]) (simp_all; metis fun_upd_apply)+
  qed
  show "ipc_inv s'" if "mb_step i s s'"
  proof -
    have m: "kernel.more s' = kernel.more (upd_mb i (\<lambda>_. mailboxes s' i) s)" using that by (simp add: mb_step_def)
    have "mb_ok (mailboxes s' i)" "spares {Mb_recv i, Mb_send i} s s'" "operational s'" using that by (simp_all add: mb_step_def)
    then show ?thesis using same_objects [OF m] by (intro ipc_inv_frame [OF inv, of s' "{Mb_recv i, Mb_send i}"]) (simp_all; metis fun_upd_apply)+
  qed
  show "ipc_inv s'" if "mq_step i s s'"
  proof -
    have m: "kernel.more s' = kernel.more (upd_mq i (\<lambda>_. mqs s' i) s)" using that by (simp add: mq_step_def)
    have "mq_ok (mqs s' i)" "spares {Mq_recv i, Mq_send i} s s'" "operational s'" using that by (simp_all add: mq_step_def)
    then show ?thesis using same_objects [OF m] by (intro ipc_inv_frame [OF inv, of s' "{Mq_recv i, Mq_send i}"]) (simp_all; metis fun_upd_apply)+
  qed
qed

subsection \<open>Every call keeps the invariant\<close>

lemma can_wait_may: "can_wait s \<Longrightarrow> \<exists>t. may_wait t s"
  by (auto simp: can_wait_def may_wait_def scheduler_available_def thread_context_def)

lemma timeout_may:
  assumes "operational s" "timeout \<noteq> 0 \<longrightarrow> can_wait s \<and> good_timeout timeout"
  shows "\<exists>t. rt_current_thread s = Some t \<and> (timeout \<noteq> 0 \<longrightarrow> may_wait t s \<and> good_timeout timeout)"
proof -
  obtain t where t: "rt_current_thread s = Some t" using operational_D(3) [OF assms(1)] by (auto simp: cur_running_def)
  show ?thesis
  proof (cases "timeout = 0")
    case False
    then obtain u where "may_wait u s" using assms(2) can_wait_may by blast
    moreover from this have "u = t" using t by (simp add: may_wait_def)
    ultimately show ?thesis using t assms(2) False by blast
  qed (use t in simp)
qed

lemma goes_on_may:
  assumes "goes_on timeout tick s"
  shows "\<exists>t. may_wait t s" "good_timeout timeout" "0 < sint timeout \<longrightarrow> rt_tick s - tick \<le> timeout"
  using assms can_wait_may by (simp_all add: goes_on_def)

lemma kcall_inv:
  assumes inv: "ipc_inv s" and a: "allowed c s"
  shows "\<exists>s'. kcall_step c s = Some s' \<and> ipc_inv s'"
proof (cases "c = Tick")
  case True
  then show ?thesis
    using rt_tick_increase_ok [OF ipc_invD(1) [OF inv]] ipc_inv_kept [OF inv _ kept_times_out] by auto
next
  case False
  then show ?thesis
    using kcall_calm [OF ipc_invD(1) [OF inv] a] ipc_inv_kept [OF inv] by (auto simp: calm_def)
qed

lemma sem_call_inv:
  assumes inv: "ipc_inv s"
  shows "icall_allowed (Sem_init i v flag) s \<Longrightarrow> \<exists>s'. icall_step (Sem_init i v flag) s = Some s' \<and> ipc_inv s'"
    "\<exists>s'. icall_step (Sem_detach i) s = Some s' \<and> ipc_inv s'"
    "icall_allowed (Sem_take i timeout) s \<Longrightarrow> \<exists>s'. icall_step (Sem_take i timeout) s = Some s' \<and> ipc_inv s'"
    "\<exists>s'. icall_step (Sem_release i) s = Some s' \<and> ipc_inv s'"
    "\<exists>s'. icall_step (Sem_reset i v) s = Some s' \<and> ipc_inv s'"
proof -
  note op = ipc_invD(1) [OF inv] and ok = ipc_invD(2) [OF inv, of i] and step = ipc_inv_step(1) [OF inv]
  show "\<exists>s'. icall_step (Sem_init i v flag) s = Some s' \<and> ipc_inv s'" if "icall_allowed (Sem_init i v flag) s"
  proof -
    have v: "v < 0x10000" "thread_lists s (Sem i) = []" using that by simp_all
    show ?thesis using rt_sem_init_ok [OF op v, of flag] step by auto
  qed
  show "\<exists>s'. icall_step (Sem_detach i) s = Some s' \<and> ipc_inv s'" using rt_sem_detach_ok [OF op ok] step by auto
  show "\<exists>s'. icall_step (Sem_take i timeout) s = Some s' \<and> ipc_inv s'" if a: "icall_allowed (Sem_take i timeout) s"
  proof -
    obtain t where "timeout \<noteq> 0 \<longrightarrow> may_wait t s \<and> good_timeout timeout" using timeout_may [OF op] a by auto
    from rt_sem_take_ok [OF op ok this] show ?thesis using step by auto
  qed
  show "\<exists>s'. icall_step (Sem_release i) s = Some s' \<and> ipc_inv s'" using rt_sem_release_ok [OF op ok] step by auto
  show "\<exists>s'. icall_step (Sem_reset i v) s = Some s' \<and> ipc_inv s'" using rt_sem_control_ok [OF op, of i v] step by auto
qed

lemma mutex_call_inv:
  assumes inv: "ipc_inv s"
  shows "icall_allowed (Mutex_init i) s \<Longrightarrow> \<exists>s'. icall_step (Mutex_init i) s = Some s' \<and> ipc_inv s'"
    "\<exists>s'. icall_step (Mutex_detach i) s = Some s' \<and> ipc_inv s'"
    "icall_allowed (Mutex_take i timeout) s \<Longrightarrow> \<exists>s'. icall_step (Mutex_take i timeout) s = Some s' \<and> ipc_inv s'"
    "icall_allowed (Mutex_release i) s \<Longrightarrow> \<exists>s'. icall_step (Mutex_release i) s = Some s' \<and> ipc_inv s'"
proof -
  note op = ipc_invD(1) [OF inv] and ok = ipc_invD(3) [OF inv, of i] and step = ipc_inv_step(2) [OF inv]
  show "\<exists>s'. icall_step (Mutex_init i) s = Some s' \<and> ipc_inv s'" if "icall_allowed (Mutex_init i) s"
    using rt_mutex_init_ok [OF op, of i] that step by auto
  show "\<exists>s'. icall_step (Mutex_detach i) s = Some s' \<and> ipc_inv s'" using rt_mutex_detach_ok [OF op ok] step by auto
  show "\<exists>s'. icall_step (Mutex_take i timeout) s = Some s' \<and> ipc_inv s'" if a: "icall_allowed (Mutex_take i timeout) s"
  proof -
    obtain t where t: "may_wait t s" "good_timeout timeout" using can_wait_may a by auto
    show ?thesis using rt_mutex_take_ok [OF op ok t] step by auto
  qed
  show "\<exists>s'. icall_step (Mutex_release i) s = Some s' \<and> ipc_inv s'" if a: "icall_allowed (Mutex_release i) s"
  proof -
    obtain t where t: "thread_context s" "rt_current_thread s = Some t" using a by (auto simp: thread_context_def)
    show ?thesis using rt_mutex_release_ok [OF op ok t] step by auto
  qed
qed

lemma event_call_inv:
  assumes inv: "ipc_inv s"
  shows "icall_allowed (Event_init i flag) s \<Longrightarrow> \<exists>s'. icall_step (Event_init i flag) s = Some s' \<and> ipc_inv s'"
    "\<exists>s'. icall_step (Event_detach i) s = Some s' \<and> ipc_inv s'"
    "\<exists>s'. icall_step (Event_send i bits) s = Some s' \<and> ipc_inv s'"
    "icall_allowed (Event_recv i bits opt timeout) s \<Longrightarrow> \<exists>s'. icall_step (Event_recv i bits opt timeout) s = Some s' \<and> ipc_inv s'"
    "\<exists>s'. icall_step (Event_reset i) s = Some s' \<and> ipc_inv s'"
proof -
  note op = ipc_invD(1) [OF inv] and ok = ipc_invD(4) [OF inv, of i] and step = ipc_inv_step(3) [OF inv]
  show "\<exists>s'. icall_step (Event_init i flag) s = Some s' \<and> ipc_inv s'" if "icall_allowed (Event_init i flag) s"
    using rt_event_init_ok [OF op, of i flag] that step by auto
  show "\<exists>s'. icall_step (Event_detach i) s = Some s' \<and> ipc_inv s'" using rt_event_detach_ok [OF op, of i] step by auto
  show "\<exists>s'. icall_step (Event_send i bits) s = Some s' \<and> ipc_inv s'"
  proof (cases "bits = 0")
    case True
    then show ?thesis using inv by (simp add: rt_event_send_def)
  next
    case False
    obtain e' W where "event_serve (threads s) (event_bits (events s i) OR bits) (thread_lists s (Event i)) = (e', W)" by fastforce
    from rt_event_send_ok [OF op ok False this] show ?thesis using step by auto
  qed
  show "\<exists>s'. icall_step (Event_recv i bits opt timeout) s = Some s' \<and> ipc_inv s'" if a: "icall_allowed (Event_recv i bits opt timeout) s"
  proof -
    obtain t where t: "may_wait t s" "good_timeout timeout" "event_option opt" using can_wait_may a by auto
    show ?thesis using rt_event_recv_ok [OF op ok t, of bits] step by auto
  qed
  show "\<exists>s'. icall_step (Event_reset i) s = Some s' \<and> ipc_inv s'" using rt_event_control_ok [OF op, of i] step by auto
qed

text \<open>A new object in place of one that nobody waits for.\<close>

lemma ipc_inv_new:
  assumes "ipc_inv s" "operational s'" "spares {} s s'"
  shows "mb_ok (mailboxes s' i) \<Longrightarrow> kernel.more s' = kernel.more (upd_mb i (\<lambda>_. mailboxes s' i) s) \<Longrightarrow> ipc_inv s'"
    "mq_ok (mqs s' i) \<Longrightarrow> kernel.more s' = kernel.more (upd_mq i (\<lambda>_. mqs s' i) s) \<Longrightarrow> ipc_inv s'"
proof -
  show "ipc_inv s'" if "mb_ok (mailboxes s' i)" "kernel.more s' = kernel.more (upd_mb i (\<lambda>_. mailboxes s' i) s)"
    using same_objects [OF that(2)] that(1) by (intro ipc_inv_frame [OF assms]) (simp_all; metis fun_upd_apply)+
  show "ipc_inv s'" if "mq_ok (mqs s' i)" "kernel.more s' = kernel.more (upd_mq i (\<lambda>_. mqs s' i) s)"
    using same_objects [OF that(2)] that(1) by (intro ipc_inv_frame [OF assms]) (simp_all; metis fun_upd_apply)+
qed

lemma mb_call_inv:
  assumes inv: "ipc_inv s"
  shows "icall_allowed (Mb_init i pool n flag) s \<Longrightarrow> \<exists>s'. icall_step (Mb_init i pool n flag) s = Some s' \<and> ipc_inv s'"
    "\<exists>s'. icall_step (Mb_detach i) s = Some s' \<and> ipc_inv s'"
    "icall_allowed (Mb_put i v timeout) s \<Longrightarrow> \<exists>s'. icall_step (Mb_put i v timeout) s = Some s' \<and> ipc_inv s'"
    "icall_allowed (Mb_put_again i v timeout tick) s \<Longrightarrow> \<exists>s'. icall_step (Mb_put_again i v timeout tick) s = Some s' \<and> ipc_inv s'"
    "\<exists>s'. icall_step (Mb_urgent i v) s = Some s' \<and> ipc_inv s'"
    "icall_allowed (Mb_get i timeout) s \<Longrightarrow> \<exists>s'. icall_step (Mb_get i timeout) s = Some s' \<and> ipc_inv s'"
    "icall_allowed (Mb_get_again i timeout tick) s \<Longrightarrow> \<exists>s'. icall_step (Mb_get_again i timeout tick) s = Some s' \<and> ipc_inv s'"
    "\<exists>s'. icall_step (Mb_reset i) s = Some s' \<and> ipc_inv s'"
proof -
  note op = ipc_invD(1) [OF inv] and ok = ipc_invD(5) [OF inv, of i] and step = ipc_inv_step(4) [OF inv]
  show "\<exists>s'. icall_step (Mb_init i pool n flag) s = Some s' \<and> ipc_inv s'" if a: "icall_allowed (Mb_init i pool n flag) s"
  proof -
    have l: "thread_lists s (Mb_recv i) = []" "thread_lists s (Mb_send i) = []" "length pool = unat n" using a by simp_all
    obtain s' where s': "rt_mb_init i pool n flag s = Some s'" "operational s'" "spares {} s s'" "mb_ok (mailboxes s' i)"
      "kernel.more s' = kernel.more (upd_mb i (\<lambda>_. mailboxes s' i) s)" using rt_mb_init_ok [OF op l, of flag] by blast
    then show ?thesis using ipc_inv_new(1) [OF inv] by simp
  qed
  show "\<exists>s'. icall_step (Mb_detach i) s = Some s' \<and> ipc_inv s'" using rt_mb_detach_ok [OF op ok] step by auto
  show "\<exists>s'. icall_step (Mb_put i v timeout) s = Some s' \<and> ipc_inv s'" if a: "icall_allowed (Mb_put i v timeout) s"
  proof -
    obtain t where t: "rt_current_thread s = Some t" "timeout \<noteq> 0 \<longrightarrow> may_wait t s \<and> good_timeout timeout"
      using timeout_may [OF op] a by auto
    show ?thesis using rt_mb_send_wait_ok [OF op ok t, of v, where 'v = unit] step by auto
  qed
  show "\<exists>s'. icall_step (Mb_put_again i v timeout tick) s = Some s' \<and> ipc_inv s'" if a: "icall_allowed (Mb_put_again i v timeout tick) s"
  proof -
    have g: "goes_on timeout tick s" using a by simp
    obtain t where t: "may_wait t s" using goes_on_may(1) [OF g] by blast
    obtain r s' where "(rt_mb_send_resume i v timeout tick s :: (unit msg_result \<times> ipc) option) = Some (r, s')" "mb_step i s s'"
      using rt_mb_send_resume_ok [OF op ok t goes_on_may(2,3) [OF g], of v] by blast
    then show ?thesis using step by simp
  qed
  show "\<exists>s'. icall_step (Mb_urgent i v) s = Some s' \<and> ipc_inv s'" using rt_mb_urgent_ok [OF op ok, of v] step by auto
  show "\<exists>s'. icall_step (Mb_get i timeout) s = Some s' \<and> ipc_inv s'" if a: "icall_allowed (Mb_get i timeout) s"
  proof -
    obtain t where t: "rt_current_thread s = Some t" "timeout \<noteq> 0 \<longrightarrow> may_wait t s \<and> good_timeout timeout"
      using timeout_may [OF op] a by auto
    show ?thesis using rt_mb_recv_ok [OF op ok t] step by auto
  qed
  show "\<exists>s'. icall_step (Mb_get_again i timeout tick) s = Some s' \<and> ipc_inv s'" if a: "icall_allowed (Mb_get_again i timeout tick) s"
  proof -
    have g: "goes_on timeout tick s" using a by simp
    obtain t where t: "may_wait t s" using goes_on_may(1) [OF g] by blast
    show ?thesis using rt_mb_recv_resume_ok [OF op ok t goes_on_may(2,3) [OF g]] step by auto
  qed
  show "\<exists>s'. icall_step (Mb_reset i) s = Some s' \<and> ipc_inv s'" using rt_mb_control_ok [OF op ok] step by auto
qed

lemma mq_call_inv:
  assumes inv: "ipc_inv s"
  shows "icall_allowed (Mq_init i pool sz flag) s \<Longrightarrow> \<exists>s'. icall_step (Mq_init i pool sz flag) s = Some s' \<and> ipc_inv s'"
    "\<exists>s'. icall_step (Mq_detach i) s = Some s' \<and> ipc_inv s'"
    "icall_allowed (Mq_put i buf timeout) s \<Longrightarrow> \<exists>s'. icall_step (Mq_put i buf timeout) s = Some s' \<and> ipc_inv s'"
    "icall_allowed (Mq_put_again i buf timeout tick) s \<Longrightarrow> \<exists>s'. icall_step (Mq_put_again i buf timeout tick) s = Some s' \<and> ipc_inv s'"
    "icall_allowed (Mq_urgent i buf) s \<Longrightarrow> \<exists>s'. icall_step (Mq_urgent i buf) s = Some s' \<and> ipc_inv s'"
    "icall_allowed (Mq_get i n timeout) s \<Longrightarrow> \<exists>s'. icall_step (Mq_get i n timeout) s = Some s' \<and> ipc_inv s'"
    "icall_allowed (Mq_get_again i n timeout tick) s \<Longrightarrow> \<exists>s'. icall_step (Mq_get_again i n timeout tick) s = Some s' \<and> ipc_inv s'"
    "\<exists>s'. icall_step (Mq_reset i) s = Some s' \<and> ipc_inv s'"
proof -
  note op = ipc_invD(1) [OF inv] and ok = ipc_invD(6) [OF inv, of i] and step = ipc_inv_step(5) [OF inv]
  show "\<exists>s'. icall_step (Mq_init i pool sz flag) s = Some s' \<and> ipc_inv s'" if a: "icall_allowed (Mq_init i pool sz flag) s"
  proof -
    have l: "thread_lists s (Mq_recv i) = []" "thread_lists s (Mq_send i) = []" using a by simp_all
    obtain s' where s': "rt_mq_init i pool sz flag s = Some s'" "operational s'" "spares {} s s'" "mq_ok (mqs s' i)"
      "kernel.more s' = kernel.more (upd_mq i (\<lambda>_. mqs s' i) s)" using rt_mq_init_ok [OF op l, of pool sz flag] by blast
    then show ?thesis using ipc_inv_new(2) [OF inv] by simp
  qed
  show "\<exists>s'. icall_step (Mq_detach i) s = Some s' \<and> ipc_inv s'" using rt_mq_detach_ok [OF op ok] step by auto
  show "\<exists>s'. icall_step (Mq_put i buf timeout) s = Some s' \<and> ipc_inv s'" if a: "icall_allowed (Mq_put i buf timeout) s"
  proof -
    have buf: "buf \<noteq> []" using a by simp
    obtain t where t: "rt_current_thread s = Some t" "timeout \<noteq> 0 \<longrightarrow> may_wait t s \<and> good_timeout timeout"
      using timeout_may [OF op] a by auto
    show ?thesis using rt_mq_send_wait_ok [OF op ok t(1) buf t(2), where 'v = unit] step by auto
  qed
  show "\<exists>s'. icall_step (Mq_put_again i buf timeout tick) s = Some s' \<and> ipc_inv s'" if a: "icall_allowed (Mq_put_again i buf timeout tick) s"
  proof -
    have g: "goes_on timeout tick s" and n: "length buf \<le> unat (msg_size (mqs s i))" using a by simp_all
    obtain t where t: "may_wait t s" using goes_on_may(1) [OF g] by blast
    obtain r s' where "(rt_mq_send_resume i buf timeout tick s :: (unit msg_result \<times> ipc) option) = Some (r, s')" "mq_step i s s'"
      using rt_mq_send_resume_ok [OF op ok t goes_on_may(2,3) [OF g] n] by blast
    then show ?thesis using step by simp
  qed
  show "\<exists>s'. icall_step (Mq_urgent i buf) s = Some s' \<and> ipc_inv s'" if "icall_allowed (Mq_urgent i buf) s"
    using rt_mq_urgent_ok [OF op ok, of buf] that step by auto
  show "\<exists>s'. icall_step (Mq_get i n timeout) s = Some s' \<and> ipc_inv s'" if a: "icall_allowed (Mq_get i n timeout) s"
  proof -
    have n: "n \<noteq> 0" using a by simp
    obtain t where t: "rt_current_thread s = Some t" "timeout \<noteq> 0 \<longrightarrow> may_wait t s \<and> good_timeout timeout"
      using timeout_may [OF op] a by auto
    show ?thesis using rt_mq_recv_ok [OF op ok t(1) n t(2)] step by auto
  qed
  show "\<exists>s'. icall_step (Mq_get_again i n timeout tick) s = Some s' \<and> ipc_inv s'" if a: "icall_allowed (Mq_get_again i n timeout tick) s"
  proof -
    have g: "goes_on timeout tick s" using a by simp
    obtain t where t: "may_wait t s" using goes_on_may(1) [OF g] by blast
    show ?thesis using rt_mq_recv_resume_ok [OF op ok t goes_on_may(2,3) [OF g], of n] step by auto
  qed
  show "\<exists>s'. icall_step (Mq_reset i) s = Some s' \<and> ipc_inv s'" using rt_mq_control_ok [OF op ok] step by auto
qed

lemma kernel_call_inv:
  "ipc_inv s \<Longrightarrow> icall_allowed (Kernel_call c) s \<Longrightarrow> \<exists>s'. icall_step (Kernel_call c) s = Some s' \<and> ipc_inv s'"
  using kcall_inv by simp

lemmas call_inv = kernel_call_inv sem_call_inv mutex_call_inv event_call_inv mb_call_inv mq_call_inv

lemma icall_inv:
  assumes "ipc_inv s" and "icall_allowed c s"
  shows "\<exists>s'. icall_step c s = Some s' \<and> ipc_inv s'"
  by (cases c; insert assms; hypsubst; (rule call_inv; assumption))

lemma ipc_run_inv: "ipc_run cs s s' \<Longrightarrow> ipc_inv s \<Longrightarrow> ipc_inv s'"
proof (induction rule: ipc_run.induct)
  case (ipc_call c s s' cs s'')
  then show ?case using icall_inv [OF ipc_call.prems ipc_call.hyps(1)] by simp
qed

end
