(* ===== verification/Ipc_Props.thy ===== *)
theory Ipc_Props
  imports Ipc_Calls Kernel_Props
begin

unbundle bit_operations_syntax

text \<open>
  What the IPC objects promise to the threads that use them.
\<close>

subsection \<open>The state in which the programs start\<close>

text \<open>Objects of all kinds as their initialisation leaves them, without memory for messages, beside a kernel.\<close>

definition with_objects :: "kernel \<Rightarrow> ipc" where
  "with_objects k = kernel.extend k (ipc.fields
     (\<lambda>_. \<lparr>sem_value = 0, sem_flag = RT_IPC_FLAG_FIFO\<rparr>)
     (\<lambda>_. \<lparr>mutex_value = 1, original_priority = 0xFF, mutex_hold = 0, mutex_owner = None\<rparr>)
     (\<lambda>_. \<lparr>event_bits = 0, event_flag = RT_IPC_FLAG_FIFO\<rparr>)
     (\<lambda>_. \<lparr>mb_pool = [], mb_size = 0, mb_entry = 0, in_offset = 0, out_offset = 0, mb_flag = RT_IPC_FLAG_FIFO\<rparr>)
     (\<lambda>_. mq_empty [] 4 0 RT_IPC_FLAG_FIFO))"

lemma with_objects_simps [simp]:
  "threads (with_objects k) = threads k" "thread_lists (with_objects k) = thread_lists k"
  "rt_current_thread (with_objects k) = rt_current_thread k" "rt_scheduler_lock_nest (with_objects k) = rt_scheduler_lock_nest k"
  "rt_tick (with_objects k) = rt_tick k" "rt_interrupt_nest (with_objects k) = rt_interrupt_nest k"
  "rt_thread_ready_priority_group (with_objects k) = rt_thread_ready_priority_group k" "timers (with_objects k) = timers k"
  "timer_lists (with_objects k) = timer_lists k"
  "sems (with_objects k) i = \<lparr>sem_value = 0, sem_flag = RT_IPC_FLAG_FIFO\<rparr>"
  "mutexes (with_objects k) i = \<lparr>mutex_value = 1, original_priority = 0xFF, mutex_hold = 0, mutex_owner = None\<rparr>"
  "events (with_objects k) i = \<lparr>event_bits = 0, event_flag = RT_IPC_FLAG_FIFO\<rparr>"
  "mailboxes (with_objects k) i = \<lparr>mb_pool = [], mb_size = 0, mb_entry = 0, in_offset = 0, out_offset = 0, mb_flag = RT_IPC_FLAG_FIFO\<rparr>"
  "mqs (with_objects k) i = mq_empty [] 4 0 RT_IPC_FLAG_FIFO"
  by (simp_all add: with_objects_def kernel.defs ipc.defs)

lemmas operational_defs = operational_def kernel_inv_def sched_inv_def lists_inv_def links_ok_def group_ok_def cur_ok_def timer_inv_def
  timer_links_def hard_sorted_def remaining_def timed_ok_def quiet_def cur_running_def

lemma with_objects_operational: "operational (with_objects k) = operational k"
  unfolding operational_defs by simp

lemma with_objects_inv:
  assumes "operational k" "\<And>l. wait_list l \<Longrightarrow> thread_lists k l = []"
  shows "ipc_inv (with_objects k)"
proof -
  have "mq_ok (mq_empty [] 4 0 RT_IPC_FLAG_FIFO)" by (rule mq_empty_ok(1)) simp
  then show ?thesis
    using assms by (simp add: ipc_inv_def with_objects_operational wait_ok_def sem_ok_def mutex_ok_def event_ok_def mb_ok_def)
qed

lemma booted_lists: "wait_list l \<Longrightarrow> thread_lists booted l = []"
  by (cases l) (simp_all add: booted_def)

lemma booted_queue: "thread_lists (with_objects booted) (Mb_recv i) = []" "thread_lists (with_objects booted) (Mb_send i) = []"
  "thread_lists (with_objects booted) (Mq_recv i) = []" "thread_lists (with_objects booted) (Mq_send i) = []"
  by (simp_all add: booted_lists)

lemma booted_objects: "ipc_inv (with_objects booted)"
  by (rule with_objects_inv [OF booted_operational(1) booted_lists])

subsection \<open>Programs of calls\<close>

text \<open>C6: From the state the start-up leaves, no program of calls to the kernel and to semaphores, mutexes, events, mailboxes
  and message queues, in any order and with waiting, timeouts, resets and ticks in between, fails an assertion, leaves the
  memory of a message or corrupts a list. In every state it reaches, nobody waits for a semaphore that has a unit, a mutex is
  free with nobody waiting or has one owner, and nobody waits for events that are there; and every call that may be made returns.
\<close>

theorem ipc_calls_run:
  assumes "rtthread_startup blank_kernel = Some k" "ipc_run cs (with_objects k) s"
  shows "ipc_inv s \<and> (\<forall>c. icall_allowed c s \<longrightarrow> (\<exists>s'. icall_step c s = Some s' \<and> ipc_inv s'))"
proof -
  have "k = booted" using assms(1) rtthread_startup_booted by simp
  then have "ipc_inv s" using ipc_run_inv [OF assms(2)] booted_objects by simp
  then show ?thesis using icall_inv by blast
qed

theorem ipc_calls_run_witness:
  "\<exists>s. ipc_run [Sem_release 0, Kernel_call Tick, Sem_take 0 0] (with_objects booted) s \<and> ipc_inv s"
proof -
  obtain s1 where s1: "icall_step (Sem_release 0) (with_objects booted) = Some s1" "ipc_inv s1"
    using icall_inv [OF booted_objects, of "Sem_release 0"] by auto
  obtain s2 where s2: "icall_step (Kernel_call Tick) s1 = Some s2" "ipc_inv s2"
    using icall_inv [OF s1(2), of "Kernel_call Tick"] by auto
  obtain s3 where s3: "icall_step (Sem_take 0 0) s2 = Some s3" "ipc_inv s3"
    using icall_inv [OF s2(2), of "Sem_take 0 0"] by auto
  have r: "ipc_run [Sem_release 0, Kernel_call Tick, Sem_take 0 0] (with_objects booted) s3"
    using s1 s2 s3 by (intro ipc_run.intros) simp_all
  then show ?thesis using ipc_calls_run [OF rtthread_startup_booted r] by blast
qed

subsection \<open>Semaphores\<close>

text \<open>The abstract semaphore: the units and the queue of those who wait for one.\<close>

type_synonym sem_state = "nat \<times> tid list"

definition sem_abs :: "nat \<Rightarrow> ipc \<Rightarrow> sem_state" where
  "sem_abs i s = (unat (sem_value (sems s i)), thread_lists s (Sem i))"

fun sem_spec_take :: "(tid list \<Rightarrow> tid list) \<Rightarrow> bool \<Rightarrow> sem_state \<Rightarrow> call_result \<times> sem_state" where
  "sem_spec_take place block (n, q) =
     (if 0 < n then (Returned RT_EOK, (n - 1, q))
      else if block then (Waiting, (n, place q))
      else (Returned (- RT_ETIMEOUT), (n, q)))"

fun sem_spec_release :: "sem_state \<Rightarrow> int \<times> sem_state" where
  "sem_spec_release (n, []) = (if n = 65535 then (- RT_EFULL, (n, [])) else (RT_EOK, (n + 1, [])))"
| "sem_spec_release (n, u # q) = (RT_EOK, (n, q))"

lemma sem_take_refines:
  assumes op: "operational s" and ok: "sem_ok i s" and t: "timeout \<noteq> 0 \<longrightarrow> may_wait t s \<and> good_timeout timeout"
  shows "\<exists>r s'. rt_sem_take i timeout s = Some (r, s') \<and> sem_step i s s' \<and>
    (r, sem_abs i s') = sem_spec_take (wait_place (sem_flag (sems s i)) (threads s) t) (timeout \<noteq> 0) (sem_abs i s)"
proof -
  obtain r s' where s': "rt_sem_take i timeout s = Some (r, s')" "sem_step i s s'"
    "if 0 < sem_value (sems s i) then r = Returned RT_EOK \<and> s' = upd_sem i (\<lambda>m. m\<lparr>sem_value := sem_value m - 1\<rparr>) s
     else if timeout = 0 then r = Returned (- RT_ETIMEOUT) \<and> s' = s
     else r = Waiting \<and> waits_in (Sem i) t (sem_flag (sems s i)) timeout s s'"
    using rt_sem_take_ok [OF op ok t] by blast
  have pos: "0 < sem_value (sems s i) \<longleftrightarrow> 0 < unat (sem_value (sems s i))" by (simp add: word_less_nat_alt)
  have "(r, sem_abs i s') = sem_spec_take (wait_place (sem_flag (sems s i)) (threads s) t) (timeout \<noteq> 0) (sem_abs i s)"
  proof (cases "0 < sem_value (sems s i)")
    case True
    then have "unat (sem_value (sems s i) - 1) = unat (sem_value (sems s i)) - 1"
      using unat_sub_le [of 1 "sem_value (sems s i)"] by (simp add: word_le_nat_alt word_less_nat_alt)
    then show ?thesis using s'(3) True by (simp add: sem_abs_def word_less_nat_alt)
  next
    case False
    show ?thesis
    proof (cases "timeout = 0")
      case True
      then show ?thesis using s'(3) False by (simp add: sem_abs_def pos)
    next
      case t0: False
      then have w: "r = Waiting" "waits_in (Sem i) t (sem_flag (sems s i)) timeout s s'" using s'(3) False by simp_all
      have "kernel.more s' = kernel.more s" using w(2) by (simp add: waits_in_def)
      then have "sems s' = sems s" by (rule same_objects)
      then show ?thesis using w False t0 by (simp add: sem_abs_def pos waits_in_def)
    qed
  qed
  then show ?thesis using s'(1,2) by blast
qed

lemma sem_release_refines:
  assumes op: "operational s" and ok: "sem_ok i s"
  shows "\<exists>r s'. rt_sem_release i s = Some (r, s') \<and> sem_step i s s' \<and> (r, sem_abs i s') = sem_spec_release (sem_abs i s) \<and>
    (\<forall>u q. thread_lists s (Sem i) = u # q \<longrightarrow> runnable (threads s' u) \<and> error (threads s' u) = error (threads s u))"
proof -
  obtain r s' where s': "rt_sem_release i s = Some (r, s')" "sem_step i s s'"
    "case thread_lists s (Sem i) of
       u # us \<Rightarrow> r = RT_EOK \<and> woken {u} s s' \<and> thread_lists s' (Sem i) = us \<and> error (threads s' u) = error (threads s u)
     | [] \<Rightarrow> if sem_value (sems s i) = 0xffff then r = - RT_EFULL \<and> s' = s
         else r = RT_EOK \<and> s' = upd_sem i (\<lambda>m. m\<lparr>sem_value := sem_value m + 1\<rparr>) s"
    using rt_sem_release_ok [OF op ok] by blast
  show ?thesis
  proof (cases "thread_lists s (Sem i)")
    case Nil
    have full: "sem_value (sems s i) = 0xffff \<longleftrightarrow> unat (sem_value (sems s i)) = 65535" by (simp add: word_unat_eq_iff)
    have "unat (sem_value (sems s i) + 1) = unat (sem_value (sems s i)) + 1" if "sem_value (sems s i) \<noteq> 0xffff"
      using unat_plus_1 [of "sem_value (sems s i)" "0xffff"] that by (simp add: below_max16)
    then have "(r, sem_abs i s') = sem_spec_release (sem_abs i s)"
      using s'(3) Nil full by (cases "sem_value (sems s i) = 0xffff") (simp_all add: sem_abs_def)
    then show ?thesis using s'(1,2) Nil by simp
  next
    case (Cons u us)
    then have w: "r = RT_EOK" "woken {u} s s'" "thread_lists s' (Sem i) = us" "error (threads s' u) = error (threads s u)" using s'(3) by simp_all
    have "sems s' = sems s" using same_objects(1) [OF more_wakes [OF woken_D(2) [OF w(2)]]] .
    then have "(r, sem_abs i s') = sem_spec_release (sem_abs i s)" using w Cons by (simp add: sem_abs_def)
    then show ?thesis using s'(1,2) w Cons woken_D(6) [OF w(2)] by simp
  qed
qed

text \<open>C7: A semaphore is a counter with a queue. Taking a unit lowers the counter; when there is none the caller is refused at
  once, or queued at the end or by its priority. Releasing wakes the first of the queue, whose call returns \<open>RT_EOK\<close>, and
  otherwise raises the counter, up to 65535.
\<close>

theorem rt_sem_refines:
  assumes inv: "ipc_inv s" and t: "timeout \<noteq> 0 \<longrightarrow> may_wait t s \<and> good_timeout timeout"
  shows "(\<exists>r s'. rt_sem_take i timeout s = Some (r, s') \<and> ipc_inv s' \<and>
      (r, sem_abs i s') = sem_spec_take (wait_place (sem_flag (sems s i)) (threads s) t) (timeout \<noteq> 0) (sem_abs i s)) \<and>
    (\<exists>r s'. rt_sem_release i s = Some (r, s') \<and> ipc_inv s' \<and> (r, sem_abs i s') = sem_spec_release (sem_abs i s) \<and>
      (\<forall>u q. thread_lists s (Sem i) = u # q \<longrightarrow> runnable (threads s' u) \<and> rt_sem_take_end u s' = RT_EOK))"
proof
  note op = ipc_invD(1) [OF inv] and ok = ipc_invD(2) [OF inv, of i] and step = ipc_inv_step(1) [OF inv]
  show "\<exists>r s'. rt_sem_take i timeout s = Some (r, s') \<and> ipc_inv s' \<and>
      (r, sem_abs i s') = sem_spec_take (wait_place (sem_flag (sems s i)) (threads s) t) (timeout \<noteq> 0) (sem_abs i s)"
    using sem_take_refines [OF op ok t] step by blast
  have "error (threads s u) = RT_EOK" if "thread_lists s (Sem i) = u # q" for u q
    using wait_okD [OF ipc_invD(7) [OF inv] wait_list_simps(3) [of i], of u] that by simp
  then show "\<exists>r s'. rt_sem_release i s = Some (r, s') \<and> ipc_inv s' \<and> (r, sem_abs i s') = sem_spec_release (sem_abs i s) \<and>
      (\<forall>u q. thread_lists s (Sem i) = u # q \<longrightarrow> runnable (threads s' u) \<and> rt_sem_take_end u s' = RT_EOK)"
    using sem_release_refines [OF op ok] step unfolding rt_sem_take_end_def by metis
qed

lemma booted_may_wait: "may_wait timer_thread (with_objects booted)"
  by (simp add: may_wait_def scheduler_available_def rt_critical_level_def thread_context_def booted_simps)
    (simp add: booted_def blank_kernel_def timer_thread_def idle_def)

theorem rt_sem_refines_witness:
  "\<exists>s s'. rt_sem_take 0 100 (with_objects booted) = Some (Waiting, s) \<and> sem_abs 0 s = (0, [timer_thread]) \<and>
    rt_sem_release 0 (with_objects booted) = Some (RT_EOK, s') \<and> sem_abs 0 s' = (1, [])"
proof -
  have a: "sem_abs 0 (with_objects booted) = (0, [])" by (simp add: sem_abs_def booted_lists)
  have v: "(100 :: u32) \<noteq> 0 \<longrightarrow> may_wait timer_thread (with_objects booted) \<and> good_timeout 100"
    using booted_may_wait by (simp add: good_timeout_def TICK_HALF)
  from rt_sem_refines [OF booted_objects v, of 0] show ?thesis unfolding a by (simp add: wait_place_def) blast
qed

text \<open>A thread whose wait for a semaphore times out is ready again after exactly as many ticks as it gave, unless it is
  resumed before. Its call returns \<open>-RT_ETIMEOUT\<close>, and it no longer stands in the queue.
\<close>

theorem rt_sem_take_times_out:
  assumes inv: "ipc_inv s" and t: "may_wait t s" and v: "0 < sint timeout" "timeout < TICK_HALF" and none: "sem_value (sems s i) = 0"
  shows "\<exists>s1. rt_sem_take i timeout s = Some (Waiting, s1) \<and> t \<in> set (thread_lists s1 (Sem i)) \<and>
    (\<forall>cs s2. kernel_run cs s1 s2 \<and> (\<forall>c \<in> set cs. t \<notin> disturbs c) \<and> ticks cs < unat timeout \<longrightarrow>
      stat (threads s2 t) = RT_THREAD_SUSPEND \<and>
      (ticks cs + 1 = unat timeout \<longrightarrow>
        (\<exists>s3. rt_tick_increase s2 = Some s3 \<and> runnable (threads s3 t) \<and> rt_sem_take_end t s3 = - RT_ETIMEOUT \<and>
          t \<notin> set (thread_lists s3 (Sem i)))))"
proof -
  note op = ipc_invD(1) [OF inv] and ok = ipc_invD(2) [OF inv, of i]
  have n0: "timeout \<noteq> 0" "max 1 (unat timeout) = unat timeout" using v(1) by (auto simp: max_def Suc_le_eq unat_gt_0)
  have "timeout \<noteq> 0 \<longrightarrow> may_wait t s \<and> good_timeout timeout" using t v(2) by (simp add: good_timeout_def)
  from rt_sem_take_ok [OF op ok this] obtain s1 where s1: "rt_sem_take i timeout s = Some (Waiting, s1)"
    "waits_in (Sem i) t (sem_flag (sems s i)) timeout s s1"
    using none n0(1) by auto
  have w: "operational s1" "asleep t (rt_tick s + timeout) s1" "rt_tick s1 = rt_tick s" using s1(2) v(1) by (simp_all add: waits_in_def)
  then have d: "max 1 (unat (rt_tick s + timeout - rt_tick s1)) = unat timeout" using n0(2) by simp
  have "t \<in> set (thread_lists s1 (Sem i))" using waits_in_list [OF s1(2) wait_list_simps(3)] by simp
  moreover have "stat (threads s2 t) = RT_THREAD_SUSPEND \<and> (ticks cs + 1 = unat timeout \<longrightarrow>
      (\<exists>s3. rt_tick_increase s2 = Some s3 \<and> runnable (threads s3 t) \<and> rt_sem_take_end t s3 = - RT_ETIMEOUT \<and>
        t \<notin> set (thread_lists s3 (Sem i))))"
    if "kernel_run cs s1 s2" "\<forall>c \<in> set cs. t \<notin> disturbs c" "ticks cs < unat timeout" for cs s2
  proof -
    have "rt_sem_take_end t s3 = - RT_ETIMEOUT \<and> t \<notin> set (thread_lists s3 (Sem i))"
      if "operational s3" "runnable (threads s3 t)" "error (threads s3 t) = - RT_ETIMEOUT" for s3 :: ipc
      using that waiting_suspended(2) [OF that(1) wait_list_simps(3), of t i] by (auto simp: rt_sem_take_end_def)
    then show ?thesis using asleep_run [OF w(1,2) that(1,2)] that(3) unfolding d by blast
  qed
  ultimately show ?thesis using s1(1) by blast
qed

theorem rt_sem_take_times_out_witness:
  "\<exists>s1 s3. rt_sem_take 0 1 (with_objects booted) = Some (Waiting, s1) \<and> rt_tick_increase s1 = Some s3 \<and>
    rt_sem_take_end timer_thread s3 = - RT_ETIMEOUT"
proof -
  have "0 < sint (1 :: u32)" "(1 :: u32) < TICK_HALF" "sem_value (sems (with_objects booted) 0) = 0" by (simp_all add: TICK_HALF)
  from rt_sem_take_times_out [OF booted_objects booted_may_wait this]
  show ?thesis using kernel_run.stop by (fastforce simp: ticks_def)
qed

subsection \<open>Mutexes\<close>

text \<open>C8: A free mutex is taken, its owner may take it again up to 255 times, and another thread is refused or waits by its
  priority, while the owner runs with at least that priority. Only the owner can release it; its last release gives it back
  the priority it had and hands the mutex to the first thread waiting, whose call returns \<open>RT_EOK\<close>.
\<close>

theorem rt_mutex_refines:
  assumes inv: "ipc_inv s" and t: "may_wait t s" "good_timeout timeout"
  shows "(\<exists>r s'. rt_mutex_take i timeout s = Some (r, s') \<and> ipc_inv s' \<and> mutex_taken i t timeout r s s') \<and>
    (\<exists>r s'. rt_mutex_release i s = Some (r, s') \<and> ipc_inv s' \<and> mutex_released i t r s s' \<and>
      (\<forall>u q. thread_lists s (Mutex i) = u # q \<longrightarrow> mutex_owner (mutexes s i) = Some t \<longrightarrow> mutex_hold (mutexes s i) = 1 \<longrightarrow>
        mutex_owner (mutexes s' i) = Some u \<and> rt_mutex_take_end u s' = RT_EOK))"
proof
  note op = ipc_invD(1) [OF inv] and ok = ipc_invD(3) [OF inv, of i] and step = ipc_inv_step(2) [OF inv] and m = may_wait_D [OF t(1)]
  show "\<exists>r s'. rt_mutex_take i timeout s = Some (r, s') \<and> ipc_inv s' \<and> mutex_taken i t timeout r s s'"
    using rt_mutex_take_ok [OF op ok t] step by blast
  obtain r s' where s': "rt_mutex_release i s = Some (r, s')" "mutex_step i s s'" "mutex_released i t r s s'"
    using rt_mutex_release_ok [OF op ok m(5,1)] by blast
  have "error (threads s u) = RT_EOK" if "thread_lists s (Mutex i) = u # q" for u q
    using wait_okD [OF ipc_invD(7) [OF inv] wait_list_simps(4) [of i], of u] that by simp
  then have "mutex_owner (mutexes s' i) = Some u \<and> rt_mutex_take_end u s' = RT_EOK"
    if "thread_lists s (Mutex i) = u # q" "mutex_owner (mutexes s i) = Some t" "mutex_hold (mutexes s i) = 1" for u q
    using s'(3) that unfolding mutex_released_def rt_mutex_take_end_def by simp
  then show "\<exists>r s'. rt_mutex_release i s = Some (r, s') \<and> ipc_inv s' \<and> mutex_released i t r s s' \<and>
      (\<forall>u q. thread_lists s (Mutex i) = u # q \<longrightarrow> mutex_owner (mutexes s i) = Some t \<longrightarrow> mutex_hold (mutexes s i) = 1 \<longrightarrow>
        mutex_owner (mutexes s' i) = Some u \<and> rt_mutex_take_end u s' = RT_EOK)"
    using s' step by blast
qed

theorem rt_mutex_refines_witness:
  "\<exists>s' r'. rt_mutex_take 0 100 (with_objects booted) = Some (Returned RT_EOK, s') \<and> mutex_owner (mutexes s' 0) = Some timer_thread \<and>
    (\<exists>s''. rt_mutex_release 0 (with_objects booted) = Some (r', s'') \<and> r' = - RT_ERROR)"
proof -
  have "good_timeout 100" by (simp add: good_timeout_def TICK_HALF)
  from rt_mutex_refines [OF booted_objects booted_may_wait this, of 0]
  show ?thesis by (auto simp: mutex_taken_def mutex_released_def)
qed

text \<open>When the last release of a mutex lowers the owner's priority and no thread waits for the mutex, the scheduler is not
  called: the owner keeps the processor although a ready thread has a higher priority.
\<close>

theorem rt_mutex_release_keeps_processor:
  assumes inv: "ipc_inv s" and t: "thread_context s" "rt_current_thread s = Some t"
    and m: "mutex_owner (mutexes s i) = Some t" "mutex_hold (mutexes s i) = 1" "thread_lists s (Mutex i) = []"
    and u: "stat (threads s u) = RT_THREAD_READY" "current_priority (threads s u) < original_priority (mutexes s i)"
  shows "\<exists>s'. rt_mutex_release i s = Some (RT_EOK, s') \<and> mutex_owner (mutexes s' i) = None \<and> rt_current_thread s' = Some t \<and>
    stat (threads s' u) = RT_THREAD_READY \<and> current_priority (threads s' u) < current_priority (threads s' t)"
proof -
  obtain r s' where s': "rt_mutex_release i s = Some (r, s')" "mutex_released i t r s s'"
    using rt_mutex_release_ok [OF ipc_invD(1,3) [OF inv] t] by blast
  have "stat (threads s t) = RT_THREAD_RUNNING" using ipc_invD(1) [OF inv] t(2) by (auto simp: operational_def cur_running_def)
  then have "u \<noteq> t" using u(1) by auto
  then show ?thesis using s' m t(2) u by (simp add: mutex_released_def)
qed

text \<open>The timer thread has inherited the priority 4 and would run at 10, beside two ready threads of priority 4.\<close>

definition inheriting :: ipc where
  "inheriting = upd_mutex 0 (\<lambda>_. \<lparr>mutex_value = 0, original_priority = 10, mutex_hold = 1, mutex_owner = Some timer_thread\<rparr>)
     (with_objects crowded)"

lemma inheriting_inv: "ipc_inv inheriting"
proof (rule ipc_inv_step(2))
  have l: "thread_lists crowded l = []" if "wait_list l" for l using that by (cases l) (simp_all add: crowded_def boot_defs)
  then show inv: "ipc_inv (with_objects crowded)" by (rule with_objects_inv [OF crowded_operational(1)])
  show "mutex_step 0 (with_objects crowded) inheriting"
    unfolding inheriting_def using ipc_invD(1) [OF inv] spares_refl l [of "Mutex 0"] by (intro mutex_step_upd) (simp_all add: mutex_ok_def)
qed

theorem rt_mutex_release_keeps_processor_witness:
  "\<exists>s'. rt_mutex_release 0 inheriting = Some (RT_EOK, s') \<and> rt_current_thread s' = Some timer_thread \<and>
    stat (threads s' main_thread) = RT_THREAD_READY \<and>
    current_priority (threads s' main_thread) < current_priority (threads s' timer_thread)"
proof -
  have "thread_context inheriting" "rt_current_thread inheriting = Some timer_thread" "mutex_owner (mutexes inheriting 0) = Some timer_thread"
    "mutex_hold (mutexes inheriting 0) = 1" "thread_lists inheriting (Mutex 0) = []" "stat (threads inheriting main_thread) = RT_THREAD_READY"
    "current_priority (threads inheriting main_thread) < original_priority (mutexes inheriting 0)"
    by (simp_all add: inheriting_def thread_context_def crowded_def boot_defs)
  from rt_mutex_release_keeps_processor [OF inheriting_inv this] show ?thesis by blast
qed

subsection \<open>Events\<close>

text \<open>C9: Sending event bits serves the waiting threads in their order as \<open>event_serve\<close> says: whoever waits for all of some
  bits, or for one of them, and finds them among those that are there, leaves the queue with what it waited for as the
  result of its call, and takes the bits with it if it wanted them cleared. The others stay, and so do the other bits.
\<close>

theorem rt_event_send_serves:
  assumes inv: "ipc_inv s" and bits: "bits \<noteq> 0"
    and sv: "event_serve (threads s) (event_bits (events s i) OR bits) (thread_lists s (Event i)) = (e', W)"
  shows "\<exists>s'. rt_event_send i bits s = Some (RT_EOK, s') \<and> ipc_inv s' \<and> event_bits (events s' i) = e' \<and>
    thread_lists s' (Event i) = filter (\<lambda>t. t \<notin> fst ` set W) (thread_lists s (Event i)) \<and>
    (\<forall>(t, got) \<in> set W. runnable (threads s' t) \<and> rt_event_recv_end t s' = (RT_EOK, Some got)) \<and>
    (W \<noteq> [] \<longrightarrow> rt_scheduler_lock_nest s = 0 \<longrightarrow> settled s')"
proof -
  obtain s' where s': "rt_event_send i bits s = Some (RT_EOK, s')" "event_step i s s'" "serves i W s s'" "event_bits (events s' i) = e'"
    "W \<noteq> [] \<longrightarrow> rt_scheduler_lock_nest s = 0 \<longrightarrow> settled s'"
    using rt_event_send_ok [OF ipc_invD(1,4) [OF inv] bits sv] by blast
  have "rt_event_recv_end t s' = (RT_EOK, Some got) \<and> runnable (threads s' t)" if "(t, got) \<in> set W" for t got
  proof -
    have "t \<in> fst ` set W" using that by (metis fst_conv image_eqI)
    then have "t \<in> set (thread_lists s (Event i))" using event_serve_served [OF sv] by blast
    then have "error (threads s t) = RT_EOK" using wait_okD [OF ipc_invD(7) [OF inv] wait_list_simps(5)] by blast
    moreover have "runnable (threads s' t) \<and> event_set (threads s' t) = got \<and> error (threads s' t) = error (threads s t)"
      using s'(3) that by (auto simp: serves_def)
    ultimately show ?thesis by (simp add: rt_event_recv_end_def)
  qed
  moreover have "thread_lists s' (Event i) = filter (\<lambda>t. t \<notin> fst ` set W) (thread_lists s (Event i))" using s'(3) by (simp add: serves_def)
  ultimately show ?thesis using s'(1,4,5) ipc_inv_step(3) [OF inv s'(2)] by blast
qed

text \<open>The timer thread waits for two bits that it clears; with a third one they are sent, which stays.\<close>

theorem rt_event_send_serves_witness:
  "\<exists>s s'. rt_event_recv 0 5 5 100 (with_objects booted) = Some (Waiting, None, s) \<and> rt_event_send 0 7 s = Some (RT_EOK, s') \<and>
    event_bits (events s' 0) = 2 \<and> rt_event_recv_end timer_thread s' = (RT_EOK, Some 5)"
proof -
  have v: "good_timeout 100" "event_option 5" by (simp_all add: good_timeout_def TICK_HALF event_option_def RT_EVENT_FLAG_AND_def)
  obtain r got s where s: "rt_event_recv 0 5 5 100 (with_objects booted) = Some (r, got, s)" "event_step 0 (with_objects booted) s"
    "event_received 0 timer_thread 5 5 100 r got (with_objects booted) s"
    using rt_event_recv_ok [OF ipc_invD(1,4) [OF booted_objects] booted_may_wait v] by blast
  have w: "r = Waiting" "got = None" "thread_lists s (Event 0) = [timer_thread]" "event_set (threads s timer_thread) = 5"
    "event_info (threads s timer_thread) = 5" "event_bits (events s 0) = 0"
    using s(3) by (simp_all add: event_received_def event_ready_def RT_EVENT_FLAG_AND_def wait_place_def booted_lists)
  have "event_serve (threads s) (event_bits (events s 0) OR 7) (thread_lists s (Event 0)) = (2, [(timer_thread, 5)])"
    using w by (simp add: event_ready_def event_got_def event_left_def RT_EVENT_FLAG_AND_def RT_EVENT_FLAG_CLEAR_def)
  from rt_event_send_serves [OF ipc_inv_step(3) [OF booted_objects s(2)] _ this]
  show ?thesis using s(1) w by auto
qed

subsection \<open>Mailboxes and message queues\<close>

text \<open>C10: An initialised mailbox is a bounded queue. Whatever is sent, sent urgently and received in any order without waiting,
  the mails received are those of the reference queue: in order, none lost but those refused when all places are taken.
\<close>

theorem rt_mailbox_fifo:
  assumes inv: "ipc_inv s" and l: "thread_lists s (Mb_recv i) = []" "thread_lists s (Mb_send i) = []" and n: "length pool = unat n"
  shows "\<exists>s1. rt_mb_init i pool n flag s = Some s1 \<and>
    (\<forall>ops. \<exists>s2. msg_run (mb_try_send i) (mb_try_urgent i) (mb_try_recv i) ops s1 = Some (fst (msg_spec (unat n) ops []), s2) \<and>
      mb_content (mailboxes s2 i) = snd (msg_spec (unat n) ops []))"
proof -
  obtain s1 where s1: "rt_mb_init i pool n flag s = Some s1" "operational s1" "mb_ok (mailboxes s1 i)" "mb_content (mailboxes s1 i) = []"
    "mb_size (mailboxes s1 i) = n"
    using rt_mb_init_ok [OF ipc_invD(1) [OF inv] l n] by blast
  have "mb_inv i s1" using s1(2,3) by (simp add: mb_inv_def)
  then show ?thesis using s1(1) mb.msg_run_spec [of i s1 "[]"] s1(4,5) by (fastforce simp: list.rel_eq)
qed

theorem rt_mailbox_fifo_witness:
  "\<exists>s1 s2. rt_mb_init 0 [0, 0] 2 RT_IPC_FLAG_FIFO (with_objects booted) = Some s1 \<and>
    msg_run (mb_try_send 0) (mb_try_urgent 0) (mb_try_recv 0) [Send 7, Urgent 8, Send 9, Recv, Send 10, Recv, Recv, Recv] s1 =
      Some ([8, 7, 10], s2)"
proof -
  have "length [0, 0 :: u32] = unat (2 :: u16)" by simp
  from rt_mailbox_fifo [OF booted_objects booted_queue(1,2) this, of 0 RT_IPC_FLAG_FIFO]
  obtain s1 where s1: "rt_mb_init 0 [0, 0] 2 RT_IPC_FLAG_FIFO (with_objects booted) = Some s1" "\<forall>ops. \<exists>s2.
      msg_run (mb_try_send 0) (mb_try_urgent 0) (mb_try_recv 0) ops s1 = Some (fst (msg_spec (unat (2 :: u16)) ops []), s2)"
    by blast
  show ?thesis using s1(1) s1(2) [THEN spec, of "[Send 7, Urgent 8, Send 9, Recv, Send 10, Recv, Recv, Recv]"] by simp
qed

lemma mq_empty_sizes:
  assumes "q = mq_empty pool M (of_nat (length pool div mq_slot_size M)) flag" "unat M = u" "length pool div (u + 4) < 65536"
  shows "unat (max_msgs q) = length pool div (u + 4)" "msg_size q = M"
  using assms by (simp_all add: mq_empty_def mq_slot_size_def unat_of_nat take_bit_eq_mod)

text \<open>C11: An initialised message queue is a bounded queue. Whatever messages of at most its size are sent, sent urgently and
  received in any order without waiting, what is received starts with the bytes of the messages of the reference queue, in
  order, as far as the receiver has room; the queue holds as many messages as its memory has room for with their headers.
\<close>

theorem rt_messagequeue_fifo:
  assumes inv: "ipc_inv s" and l: "thread_lists s (Mq_recv i) = []" "thread_lists s (Mq_send i) = []"
    and m: "sz < 0xfffd" "k = length pool div (unat ((sz + 3) AND NOT 3) + 4)" "k < 65536"
  shows "\<exists>s1. rt_mq_init i pool sz flag s = Some s1 \<and>
    (\<forall>n ops. (\<forall>buf. Send buf \<in> set ops \<or> Urgent buf \<in> set ops \<longrightarrow> buf \<noteq> [] \<and> length buf \<le> unat sz) \<longrightarrow>
      (\<exists>out s2. msg_run (mq_try_send i) (mq_try_urgent i) (mq_try_recv i n) ops s1 = Some (out, s2) \<and>
        list_all2 (\<lambda>c buf. take (length buf) c = take (Suc n) buf) out (fst (msg_spec k ops []))))"
proof -
  obtain s1 where s1: "rt_mq_init i pool sz flag s = Some s1" "operational s1" "mq_ok (mqs s1 i)" "mq_content (mqs s1 i) = []"
    using rt_mq_init_ok [OF ipc_invD(1) [OF inv] l] by blast
  let ?m = "ucast ((sz + 3) AND NOT 3) :: u16"
  have sz: "unat ?m = unat ((sz + 3) AND NOT 3)" "unat sz \<le> unat ?m" using mq_size_bounds [OF m(1)] by blast+
  have "mqs s1 i = mq_empty pool ?m (of_nat (length pool div mq_slot_size ?m)) flag"
    using s1(1) ipc_object_init_ok [OF l(1)] ipc_object_init_ok [OF l(2)] by (auto simp: rt_mq_init_def Let_def)
  then have q: "unat (max_msgs (mqs s1 i)) = k" "msg_size (mqs s1 i) = ?m"
    using mq_empty_sizes [OF _ sz(1), of "mqs s1 i" pool flag] m(2,3) by blast+
  have "mq_inv i s1" using s1(2,3) by (simp add: mq_inv_def)
  have "\<exists>out s2. msg_run (mq_try_send i) (mq_try_urgent i) (mq_try_recv i n) ops s1 = Some (out, s2) \<and>
      list_all2 (msg_part n) out (fst (msg_spec k ops []))"
    if "\<forall>buf. Send buf \<in> set ops \<or> Urgent buf \<in> set ops \<longrightarrow> buf \<noteq> [] \<and> length buf \<le> unat sz" for n ops
  proof -
    have "mq_fits i s1 buf" if "Send buf \<in> set ops \<or> Urgent buf \<in> set ops" for buf
      using \<open>\<forall>buf. _ buf\<close> that sz(2) q(2) by (force simp: mq_fits_def)
    then show ?thesis using mq.msg_run_spec [OF \<open>mq_inv i s1\<close>, of n "[]" ops] s1(4) q(1) by auto
  qed
  then show ?thesis using s1(1) unfolding msg_part_def by blast
qed

theorem rt_messagequeue_fifo_witness:
  "\<exists>s1 c c' s2. rt_mq_init 0 (replicate 16 0) 4 RT_IPC_FLAG_FIFO (with_objects booted) = Some s1 \<and>
    msg_run (mq_try_send 0) (mq_try_urgent 0) (mq_try_recv 0 3) [Send [1, 2, 3, 4], Urgent [5], Send [6], Recv, Recv, Recv] s1 =
      Some ([c, c'], s2) \<and> take 1 c = [5] \<and> take 4 c' = [1, 2, 3, 4]"
proof -
  have v: "(4 :: u32) < 0xfffd" "2 = length (replicate 16 (0 :: u8)) div (unat ((4 + 3 :: u32) AND NOT 3) + 4)" "2 < (65536 :: nat)"
    by simp_all
  let ?ops = "[Send [1, 2, 3, 4 :: u8], Urgent [5], Send [6], Recv, Recv, Recv]"
  let ?R = "\<lambda>c buf. take (length buf) c = take (Suc 3) (buf :: u8 list)"
  have spec: "fst (msg_spec 2 ?ops []) = [[5], [1, 2, 3, 4]]" by simp
  have f: "\<forall>buf. Send buf \<in> set ?ops \<or> Urgent buf \<in> set ?ops \<longrightarrow> buf \<noteq> [] \<and> length buf \<le> unat (4 :: u32)" by auto
  from rt_messagequeue_fifo [OF booted_objects booted_queue(3,4) v, of 0 RT_IPC_FLAG_FIFO] f
  obtain s1 out s2 where s1: "rt_mq_init 0 (replicate 16 0) 4 RT_IPC_FLAG_FIFO (with_objects booted) = Some s1"
    "msg_run (mq_try_send 0) (mq_try_urgent 0) (mq_try_recv 0 3) ?ops s1 = Some (out, s2)"
    "list_all2 ?R out (fst (msg_spec 2 ?ops []))"
    by blast
  from s1(3) obtain c c' where "out = [c, c']" "?R c [5]" "?R c' [1, 2, 3, 4]" unfolding spec by (auto simp: list_all2_Cons2)
  then have "out = [c, c']" "take 1 c = [5]" "take 4 c' = [1, 2, 3, 4]" by (simp_all add: numeral_eq_Suc)
  then show ?thesis using s1(1,2) by blast
qed

end
