(* ===== verification/At_Chat.thy ===== *)
theory At_Chat
  imports Prelude
begin

text \<open>
  The AT command client, \<open>common/AT Command/at_chat.c\<close> with the options of \<open>at_port.h\<close> (all of them on). An object keeps two
  queues of work items, polls the line of the modem, recognises unsolicited messages (URC) by a table, and runs one
  item at a time: it sends a command and searches the response for a prefix and a suffix, with timeouts and retries.

  Strings are the bytes before their zero. A buffer is a list of all its bytes; a pointer into the receive buffer is an offset. The work
  items live at addresses that grow; the tag and the union of an item are the datatype \<open>work\<close>. What the program that uses
  the client supplies (the adapter's functions, the handlers, and whether the heap has room) is the record \<open>at_client\<close>:
  its functions may change the object, as they call the client's own operations. Whatever is written to the line, and the calls of
  handlers, are also recorded in the field \<open>trace\<close>. The log and the locks have no effect here. The global counters of memory and the
  contexts of work items are fields of the object's record.
\<close>

subsection \<open>Strings\<close>

type_synonym cstring = "u8 list"

text \<open>The string at an offset of a buffer; searching one string in another, and comparing without case.\<close>

definition cstr :: "u8 list \<Rightarrow> nat \<Rightarrow> cstring option" where
  "cstr buf i = (if i \<le> length buf \<and> 0 \<in> set (drop i buf) then Some (takeWhile (\<lambda>b. b \<noteq> 0) (drop i buf)) else None)"

fun strstr :: "cstring \<Rightarrow> cstring \<Rightarrow> nat option" where
  "strstr [] t = (if t = [] then Some 0 else None)"
| "strstr (c # s) t = (if take (length t) (c # s) = t then Some 0 else map_option Suc (strstr s t))"

definition tolower_c :: "u8 \<Rightarrow> u8" where "tolower_c b = (if 65 \<le> b \<and> b \<le> 90 then b + 32 else b)"

definition strcaseeq :: "cstring \<Rightarrow> cstring \<Rightarrow> bool" where "strcaseeq a b \<longleftrightarrow> map tolower_c a = map tolower_c b"

definition AT_DEF_RESP_OK :: cstring where "AT_DEF_RESP_OK = [79, 75]"
definition AT_DEF_RESP_ERR :: cstring where "AT_DEF_RESP_ERR = [69, 82, 82, 79, 82]"
definition AT_DEF_TIMEOUT :: u16 where "AT_DEF_TIMEOUT = 500"
definition AT_DEF_RETRY :: u8 where "AT_DEF_RETRY = 2"
definition AT_URC_TIMEOUT :: u32 where "AT_URC_TIMEOUT = 500"
definition AT_MAX_CMD_LEN :: nat where "AT_MAX_CMD_LEN = 256"
definition AT_LIST_WORK_COUNT :: u16 where "AT_LIST_WORK_COUNT = 32"
definition AT_URC_END_MARKS :: cstring where "AT_URC_END_MARKS = [58, 44, 10]"
definition AT_MEM_LIMIT_SIZE :: u32 where "AT_MEM_LIMIT_SIZE = 6 * 1024"

text \<open>The sizes of the structures on the 32-bit processor.\<close>

definition sizeof_work_item :: u32 where "sizeof_work_item = 44"
definition sizeof_at_info :: u32 where "sizeof_at_info = 156"

subsection \<open>Data\<close>

datatype at_work_state = AT_WORK_STAT_IDLE | AT_WORK_STAT_READY | AT_WORK_STAT_RUN | AT_WORK_STAT_FINISH | AT_WORK_STAT_ABORT
datatype at_resp_code = AT_RESP_OK | AT_RESP_ERROR | AT_RESP_TIMEOUT | AT_RESP_ABORT
datatype at_cmd_priority = AT_PRIORITY_LOW | AT_PRIORITY_HIGH
datatype urc_recv_status = URC_RECV_OK | URC_RECV_TIMEOUT

text \<open>Handlers, contexts and parameters are named by numbers; the parameter 0 is the null pointer.\<close>

record at_urc_info =
  urc_status :: urc_recv_status
  urc_frame :: "u8 list"

record urc_item =
  urc_prefix :: cstring
  endmark :: u8
  urc_handler :: nat

record at_response =
  resp_params :: nat
  resp_code :: at_resp_code
  resp_recvcnt :: u16
  resp_recvbuf :: "u8 list"
  resp_prefix :: nat
  resp_suffix :: nat

record at_raw_trans_conf =
  exit_cmd :: "cstring option"
  on_exit :: "nat option"

record at_adapter =
  has_error :: bool
  adap_urc_bufsize :: u16
  adap_recv_bufsize :: u16

record at_context =
  ctx_state :: at_work_state
  ctx_code :: at_resp_code
  ctx_bufsize :: u16
  resplen :: u16
  respbuf :: "u8 list option"

record at_attr =
  attr_ctx :: "nat option"
  attr_params :: nat
  attr_prefix :: "cstring option"
  attr_suffix :: "cstring option"
  attr_cb :: "nat option"
  attr_timeout :: u16
  attr_retry :: u8
  attr_priority :: at_cmd_priority

datatype work =
    WORK_TYPE_GENERAL nat
  | WORK_TYPE_SINGLLINE "cstring option"
  | WORK_TYPE_MULTILINE "cstring list"
  | WORK_TYPE_CMD "u8 list"
  | WORK_TYPE_CUSTOM "nat option"
  | WORK_TYPE_BUF "u8 list"

record work_item =
  item_attr :: at_attr
  item_state :: at_work_state
  item_code :: at_resp_code
  item_work :: work
  item_size :: u32

datatype at_event =
    At_Write "u8 list" | At_Error | At_Callback nat at_response | Urc_Call nat at_urc_info
  | Raw_Write "u8 list" | Raw_Exit nat

definition MATCH_MASK_PREFIX :: u8 where "MATCH_MASK_PREFIX = 1"
definition MATCH_MASK_SUFFIX :: u8 where "MATCH_MASK_SUFFIX = 2"
definition MATCH_MASK_ERROR :: u8 where "MATCH_MASK_ERROR = 4"

text \<open>The states of a command, \<open>env->state\<close>.\<close>

definition AT_STAT_SEND :: int where "AT_STAT_SEND = 0"
definition AT_STAT_RECV :: int where "AT_STAT_RECV = 1"
definition AT_STAT_RETRY :: int where "AT_STAT_RETRY = 2"

record at_info =
  adap :: at_adapter
  raw_conf :: "at_raw_trans_conf option"
  user_data :: nat
  env_i :: int
  env_j :: int
  env_state :: int
  env_params :: nat
  cursor :: "nat option"
  hlist :: "nat list"
  llist :: "nat list"
  timer :: u32
  next_delay :: u32
  delay_timer :: u32
  recvbuf :: "u8 list"
  at_prefix :: "nat option"
  at_suffix :: "nat option"
  urc_tbl :: "urc_item list"
  urc_item_ptr :: "urc_item option"
  urcbuf :: "u8 list option"
  urc_timer :: u32
  urc_bufsize :: u16
  urc_cnt :: u16
  urc_target :: u16
  urc_tbl_size :: u16
  urc_disable_time :: u16
  list_cnt :: u16
  recv_bufsize :: u16
  recv_cnt :: u16
  match_len :: u16
  match_mask :: u8
  urc_enable :: bool
  urc_match :: bool
  enable :: bool
  disposing :: bool
  err_occur :: bool
  raw_trans :: bool
  items :: "nat \<Rightarrow> work_item option"
  next_addr :: nat
  at_cur_mem :: u32
  at_max_mem :: u32
  ctxs :: "nat \<Rightarrow> at_context"
  at_ms :: u32
  trace :: "at_event list"

record at_client =
  work_fn :: "nat \<Rightarrow> at_info \<Rightarrow> (bool \<times> at_info) option"
  sender_fn :: "nat \<Rightarrow> at_info \<Rightarrow> at_info option"
  cb_fn :: "nat \<Rightarrow> at_response \<Rightarrow> at_info \<Rightarrow> at_info option"
  urc_fn :: "nat \<Rightarrow> at_urc_info \<Rightarrow> at_info \<Rightarrow> (int \<times> at_info) option"
  exit_fn :: "nat \<Rightarrow> at_info \<Rightarrow> at_info option"
  heap_room :: "u32 \<Rightarrow> at_info \<Rightarrow> bool"
  heap_junk :: "nat \<Rightarrow> u8"

definition at_def_attr :: at_attr where
  "at_def_attr = \<lparr>attr_ctx = None, attr_params = 0, attr_prefix = None, attr_suffix = Some AT_DEF_RESP_OK, attr_cb = None,
     attr_timeout = AT_DEF_TIMEOUT, attr_retry = AT_DEF_RETRY, attr_priority = AT_PRIORITY_LOW\<rparr>"

subsection \<open>Memory\<close>

text \<open>False when the limit is reached. A heap without room gives a null pointer, through which the size is stored.\<close>

definition at_core_malloc :: "at_client \<Rightarrow> u32 \<Rightarrow> at_info \<Rightarrow> (bool \<times> at_info) option" where
  "at_core_malloc cl n s =
     (if n + at_cur_mem s > AT_MEM_LIMIT_SIZE then Some (False, s)
      else if \<not> heap_room cl (n + 4) s then None
      else
        let cur = at_cur_mem s + n in
        Some (True, s\<lparr>at_cur_mem := cur, at_max_mem := (if cur > at_max_mem s then cur else at_max_mem s)\<rparr>))"

text \<open>A block is released with the size stored before it.\<close>

definition at_core_free :: "u32 \<Rightarrow> at_info \<Rightarrow> at_info" where
  "at_core_free n s = s\<lparr>at_cur_mem := at_cur_mem s - n\<rparr>"

definition at_max_used_memory :: "at_info \<Rightarrow> u32" where "at_max_used_memory s = at_max_mem s"
definition at_cur_used_memory :: "at_info \<Rightarrow> u32" where "at_cur_used_memory s = at_cur_mem s"

subsection \<open>The line and the environment of a work\<close>

definition note_event :: "at_event \<Rightarrow> at_info \<Rightarrow> at_info" where
  "note_event e s = s\<lparr>trace := trace s @ [e]\<rparr>"

definition send_data :: "u8 list \<Rightarrow> at_info \<Rightarrow> at_info" where
  "send_data bs s = note_event (At_Write bs) s"

definition send_cmdline :: "cstring option \<Rightarrow> at_info \<Rightarrow> at_info" where
  "send_cmdline cmd s = (case cmd of None \<Rightarrow> s | Some c \<Rightarrow> send_data [13, 10] (send_data c s))"

text \<open>\<open>vsnprintf\<close> into a buffer of 256 bytes, from which the first \<open>n\<close> are then read; \<open>text\<close> is the formatted output.\<close>

definition vsn_bytes :: "cstring \<Rightarrow> nat \<Rightarrow> u8 list option" where
  "vsn_bytes txt n =
     (if n \<le> AT_MAX_CMD_LEN then subarr (take (AT_MAX_CMD_LEN - 1) txt @ [0]) 0 n else None)"

definition at_send_line :: "at_client \<Rightarrow> cstring \<Rightarrow> at_info \<Rightarrow> at_info option" where
  "at_send_line cl txt s =
     do { (ok, s) \<leftarrow> at_core_malloc cl (of_nat AT_MAX_CMD_LEN) s;
          if \<not> ok then Some s
          else do {
            buf \<leftarrow> wr (recvbuf s) 0 0;
            line \<leftarrow> vsn_bytes txt (length txt);
            let s = s\<lparr>recv_cnt := 0, recvbuf := buf\<rparr>;
            let s = send_data [13, 10] (send_data line s);
            Some (at_core_free (of_nat AT_MAX_CMD_LEN) s) } }"

definition println :: "at_client \<Rightarrow> cstring \<Rightarrow> at_info \<Rightarrow> at_info option" where
  "println cl txt s = at_send_line cl txt s"

definition get_recv_count :: "at_info \<Rightarrow> u16" where "get_recv_count s = recv_cnt s"
definition get_recvbuf :: "at_info \<Rightarrow> u8 list" where "get_recvbuf s = recvbuf s"

definition recvbuf_clear :: "at_info \<Rightarrow> at_info option" where
  "recvbuf_clear s = do { buf \<leftarrow> wr (recvbuf s) 0 0; Some (s\<lparr>recvbuf := buf, recv_cnt := 0\<rparr>) }"

text \<open>\<open>strstr\<close> with a null pointer is undefined.\<close>

definition recv_strstr :: "nat \<Rightarrow> cstring option \<Rightarrow> at_info \<Rightarrow> nat option option" where
  "recv_strstr k pat s = do { t \<leftarrow> pat; c \<leftarrow> cstr (recvbuf s) k; Some (map_option ((+) k) (strstr c t)) }"

definition find_substr :: "cstring option \<Rightarrow> at_info \<Rightarrow> nat option option" where
  "find_substr pat s = recv_strstr 0 pat s"

definition at_isabort :: "at_info \<Rightarrow> bool option" where
  "at_isabort s =
     (case cursor s of None \<Rightarrow> Some True
      | Some a \<Rightarrow> do { it \<leftarrow> items s a; Some (item_state it = AT_WORK_STAT_ABORT) })"

definition AT_IS_TIMEOUT :: "u32 \<Rightarrow> u32 \<Rightarrow> at_info \<Rightarrow> bool" where
  "AT_IS_TIMEOUT start time s \<longleftrightarrow> at_ms s - start > time"

definition at_is_timeout :: "u32 \<Rightarrow> at_info \<Rightarrow> bool" where "at_is_timeout ms s \<longleftrightarrow> AT_IS_TIMEOUT (timer s) ms s"
definition at_reset_timer :: "at_info \<Rightarrow> at_info" where "at_reset_timer s = s\<lparr>timer := at_ms s\<rparr>"
definition at_next_wait :: "u32 \<Rightarrow> at_info \<Rightarrow> at_info" where "at_next_wait ms s = s\<lparr>next_delay := ms\<rparr>"

definition upd_ctx :: "nat option \<Rightarrow> (at_context \<Rightarrow> at_context) \<Rightarrow> at_info \<Rightarrow> at_info" where
  "upd_ctx c f s = (case c of None \<Rightarrow> s | Some k \<Rightarrow> s\<lparr>ctxs := (ctxs s)(k := f (ctxs s k))\<rparr>)"

definition update_work_state :: "nat \<Rightarrow> at_work_state \<Rightarrow> at_resp_code \<Rightarrow> at_info \<Rightarrow> at_info option" where
  "update_work_state a st code s =
     do { it \<leftarrow> items s a;
          let s = s\<lparr>items := (items s)(a \<mapsto> it\<lparr>item_state := st, item_code := code\<rparr>)\<rparr>;
          Some (upd_ctx (attr_ctx (item_attr it)) (\<lambda>c. c\<lparr>ctx_code := code, ctx_state := st\<rparr>) s) }"

definition at_finish :: "at_resp_code \<Rightarrow> at_info \<Rightarrow> at_info option" where
  "at_finish code s = do { a \<leftarrow> cursor s; update_work_state a AT_WORK_STAT_FINISH code s }"

text \<open>The response is copied into the buffer of the context, if there is one.\<close>

definition store_response :: "nat option \<Rightarrow> at_info \<Rightarrow> at_info option" where
  "store_response c s =
     (case c of None \<Rightarrow> Some s
      | Some k \<Rightarrow>
          (case respbuf (ctxs s k) of None \<Rightarrow> Some s
           | Some rb \<Rightarrow>
               let n = (if recv_cnt s \<ge> ctx_bufsize (ctxs s k) then ctx_bufsize (ctxs s k) - 1 else recv_cnt s) in
               do { bytes \<leftarrow> subarr (recvbuf s) 0 (unat n);
                    rb \<leftarrow> blit rb 0 bytes;
                    Some (upd_ctx c (\<lambda>x. x\<lparr>resplen := n, respbuf := Some rb\<rparr>) s) }))"

definition response :: "at_attr \<Rightarrow> at_resp_code \<Rightarrow> at_info \<Rightarrow> at_response" where
  "response attr code s =
     \<lparr>resp_params = attr_params attr, resp_code = code, resp_recvcnt = recv_cnt s, resp_recvbuf = recvbuf s,
      resp_prefix = (case at_prefix s of None \<Rightarrow> 0 | Some k \<Rightarrow> k), resp_suffix = (case at_suffix s of None \<Rightarrow> 0 | Some k \<Rightarrow> k)\<rparr>"

definition do_at_callback :: "at_client \<Rightarrow> nat \<Rightarrow> at_resp_code \<Rightarrow> at_info \<Rightarrow> at_info option" where
  "do_at_callback cl a code s =
     do { it \<leftarrow> items s a;
          let attr = item_attr it;
          let s = (if (code = AT_RESP_ERROR \<or> code = AT_RESP_TIMEOUT) \<and> has_error (adap s)
                   then (note_event At_Error s)\<lparr>err_occur := True\<rparr> else s\<lparr>err_occur := False\<rparr>);
          s \<leftarrow> store_response (attr_ctx attr) s;
          s \<leftarrow> update_work_state a AT_WORK_STAT_FINISH code s;
          case attr_cb attr of None \<Rightarrow> Some s
          | Some f \<Rightarrow> let r = response attr code s in cb_fn cl f r (note_event (At_Callback f r) s) }"

subsection \<open>Work items\<close>

definition work_item_create :: "at_client \<Rightarrow> u32 \<Rightarrow> at_info \<Rightarrow> (u32 option \<times> at_info) option" where
  "work_item_create cl ext_size s =
     do { let n = sizeof_work_item + ext_size;
          (ok, s) \<leftarrow> at_core_malloc cl n s;
          Some (if ok then Some n else None, s) }"

definition work_item_destroy :: "nat \<Rightarrow> at_info \<Rightarrow> at_info option" where
  "work_item_destroy a s =
     do { it \<leftarrow> items s a; Some (at_core_free (item_size it) (s\<lparr>items := (items s)(a := None)\<rparr>)) }"

fun work_item_destroy_all :: "nat list \<Rightarrow> at_info \<Rightarrow> at_info option" where
  "work_item_destroy_all [] s = Some s"
| "work_item_destroy_all (a # as) s =
     do { s \<leftarrow> work_item_destroy a (s\<lparr>hlist := remove1 a (hlist s), llist := remove1 a (llist s)\<rparr>);
          work_item_destroy_all as s }"

definition work_item_recycle :: "nat \<Rightarrow> at_info \<Rightarrow> at_info option" where
  "work_item_recycle a s =
     (let s = (if list_cnt s \<noteq> 0 then s\<lparr>list_cnt := list_cnt s - 1\<rparr> else s) in
      work_item_destroy a (s\<lparr>hlist := remove1 a (hlist s), llist := remove1 a (llist s)\<rparr>))"

text \<open>The address of the new item, or a null pointer. Commands and data are copied behind the item.\<close>

definition work_extend :: "work \<Rightarrow> u32" where
  "work_extend w = (case w of WORK_TYPE_CMD bs \<Rightarrow> of_nat (length bs) | WORK_TYPE_BUF bs \<Rightarrow> of_nat (length bs) | _ \<Rightarrow> 0)"

definition create_work_item :: "at_client \<Rightarrow> at_attr option \<Rightarrow> work \<Rightarrow> at_info \<Rightarrow> (nat option \<times> at_info) option" where
  "create_work_item cl attr w s =
     do { (n, s) \<leftarrow> work_item_create cl (work_extend w) s;
          case n of None \<Rightarrow> Some (None, s)
          | Some n \<Rightarrow>
              if list_cnt s > AT_LIST_WORK_COUNT then Some (None, at_core_free n s)
              else
                let attr = (case attr of None \<Rightarrow> at_def_attr | Some at \<Rightarrow> at);
                    it = \<lparr>item_attr = attr, item_state = AT_WORK_STAT_READY, item_code = AT_RESP_OK, item_work = w, item_size = n\<rparr>;
                    a = next_addr s;
                    s = s\<lparr>items := (items s)(a \<mapsto> it), next_addr := a + 1\<rparr>
                in Some (Some a, upd_ctx (attr_ctx attr) (\<lambda>c. c\<lparr>ctx_code := AT_RESP_OK, ctx_state := AT_WORK_STAT_READY\<rparr>) s) }"

definition sumit_work_item :: "nat option \<Rightarrow> at_info \<Rightarrow> (nat option \<times> at_info) option" where
  "sumit_work_item a s =
     (case a of None \<Rightarrow> Some (None, s)
      | Some a \<Rightarrow>
          do { it \<leftarrow> items s a;
               let s = (if attr_priority (item_attr it) = AT_PRIORITY_HIGH then s\<lparr>hlist := hlist s @ [a]\<rparr> else s\<lparr>llist := llist s @ [a]\<rparr>);
               Some (Some a, s\<lparr>list_cnt := list_cnt s + 1\<rparr>) })"

definition add_work_item :: "at_client \<Rightarrow> at_attr option \<Rightarrow> work \<Rightarrow> at_info \<Rightarrow> (nat option \<times> at_info) option" where
  "add_work_item cl attr w s =
     do { (a, s) \<leftarrow> create_work_item cl attr w s;
          case a of None \<Rightarrow> Some (None, s) | Some a \<Rightarrow> sumit_work_item (Some a) s }"

definition match_info_init :: "at_attr \<Rightarrow> at_info \<Rightarrow> at_info" where
  "match_info_init attr s =
     (let no_prefix = (attr_prefix attr = None \<or> attr_prefix attr = Some []);
          no_suffix = (attr_suffix attr = None \<or> attr_suffix attr = Some [])
      in s\<lparr>at_prefix := None, at_suffix := None, match_len := 0,
           match_mask := (if no_prefix then MATCH_MASK_PREFIX else 0) OR (if no_suffix then MATCH_MASK_SUFFIX else 0)\<rparr>)"

subsection \<open>The handlers of works\<close>

definition do_work_handler :: "at_client \<Rightarrow> nat \<Rightarrow> at_info \<Rightarrow> (bool \<times> at_info) option" where
  "do_work_handler cl f s =
     (if next_delay s > 0
      then if \<not> AT_IS_TIMEOUT (delay_timer s) (next_delay s) s then Some (False, s)
           else work_fn cl f (s\<lparr>next_delay := 0\<rparr>)
      else work_fn cl f s)"

text \<open>Sending a command; an item without a sender has no bytes behind it.\<close>

definition cmd_send :: "at_client \<Rightarrow> work \<Rightarrow> at_info \<Rightarrow> at_info option" where
  "cmd_send cl w s =
     (case w of
        WORK_TYPE_CUSTOM (Some f) \<Rightarrow> sender_fn cl f s
      | WORK_TYPE_BUF bs \<Rightarrow> Some (send_data bs s)
      | WORK_TYPE_SINGLLINE c \<Rightarrow> Some (send_cmdline c s)
      | WORK_TYPE_CMD bs \<Rightarrow> do { c \<leftarrow> cstr bs 0; Some (send_cmdline (Some c) s) }
      | _ \<Rightarrow> None)"

text \<open>The search for the prefix, for the suffix behind it, and for the word of an error, when bytes have come.\<close>

definition mask_if :: "bool \<Rightarrow> u8 \<Rightarrow> u8" where "mask_if b m = (if b then m else 0)"

definition cmd_match :: "at_attr \<Rightarrow> at_info \<Rightarrow> at_info option" where
  "cmd_match attr s =
     (if match_len s = recv_cnt s then Some s
      else do {
        let s = s\<lparr>match_len := recv_cnt s\<rparr>;
        s \<leftarrow> (if match_mask s AND MATCH_MASK_PREFIX = 0
              then do { k \<leftarrow> recv_strstr 0 (attr_prefix attr) s;
                        Some (s\<lparr>at_prefix := k, match_mask := match_mask s OR mask_if (k \<noteq> None) MATCH_MASK_PREFIX\<rparr>) }
              else Some s);
        s \<leftarrow> (if match_mask s AND MATCH_MASK_PREFIX \<noteq> 0
              then do { k \<leftarrow> recv_strstr (case at_prefix s of None \<Rightarrow> 0 | Some p \<Rightarrow> p) (attr_suffix attr) s;
                        Some (s\<lparr>at_suffix := k, match_mask := match_mask s OR mask_if (k \<noteq> None) MATCH_MASK_SUFFIX\<rparr>) }
              else Some s);
        e \<leftarrow> recv_strstr 0 (Some AT_DEF_RESP_ERR) s;
        Some (s\<lparr>match_mask := match_mask s OR mask_if (e \<noteq> None) MATCH_MASK_ERROR\<rparr>) })"

text \<open>The callback ends the command; without one it goes on.\<close>

definition cmd_done :: "at_client \<Rightarrow> nat \<Rightarrow> at_resp_code \<Rightarrow> at_info \<Rightarrow> (bool \<times> at_info) option" where
  "cmd_done cl a code s = do { s \<leftarrow> do_at_callback cl a code s; Some (True, s) }"

definition cmd_recv :: "at_client \<Rightarrow> nat \<Rightarrow> at_attr \<Rightarrow> at_info \<Rightarrow> (bool \<times> at_info) option" where
  "cmd_recv cl a attr s =
     do { s \<leftarrow> cmd_match attr s;
          let err = (match_mask s AND MATCH_MASK_ERROR \<noteq> 0);
          if err \<and> env_i s \<ge> uint (attr_retry attr) then cmd_done cl a AT_RESP_ERROR (s\<lparr>env_i := env_i s + 1\<rparr>)
          else
            let s = (if err then at_reset_timer (s\<lparr>env_i := env_i s + 1, env_state := AT_STAT_RETRY\<rparr>) else s) in
            if match_mask s AND MATCH_MASK_SUFFIX \<noteq> 0 then cmd_done cl a AT_RESP_OK s
            else if at_is_timeout (ucast (attr_timeout attr)) s
            then if env_i s \<ge> uint (attr_retry attr) then cmd_done cl a AT_RESP_TIMEOUT (s\<lparr>env_i := env_i s + 1\<rparr>)
                 else Some (False, s\<lparr>env_i := env_i s + 1, env_state := AT_STAT_SEND\<rparr>)
            else Some (False, s) }"

definition do_cmd_handler :: "at_client \<Rightarrow> nat \<Rightarrow> at_info \<Rightarrow> (bool \<times> at_info) option" where
  "do_cmd_handler cl a s =
     do { it \<leftarrow> items s a;
          let attr = item_attr it;
          if env_state s = AT_STAT_SEND
          then do {
            s \<leftarrow> cmd_send cl (item_work it) s;
            s \<leftarrow> recvbuf_clear (at_reset_timer (s\<lparr>env_state := AT_STAT_RECV\<rparr>));
            Some (False, match_info_init attr s) }
          else if env_state s = AT_STAT_RECV then cmd_recv cl a attr s
          else if env_state s = AT_STAT_RETRY
          then Some (False, if at_is_timeout 100 s then s\<lparr>env_state := AT_STAT_SEND\<rparr> else s)
          else Some (False, s\<lparr>env_state := AT_STAT_SEND\<rparr>) }"

text \<open>The lines are sent one after the other; the parameter of the environment marks that one has succeeded.\<close>

definition multi_send :: "at_client \<Rightarrow> nat \<Rightarrow> at_attr \<Rightarrow> cstring list \<Rightarrow> at_info \<Rightarrow> (bool \<times> at_info) option" where
  "multi_send cl a attr cmds s =
     (if env_i s = int (length cmds)
      then cmd_done cl a (if env_params s \<noteq> 0 then AT_RESP_OK else AT_RESP_ERROR) s
      else if env_i s < 0 then None
      else do {
        c \<leftarrow> rd cmds (nat (env_i s));
        s \<leftarrow> recvbuf_clear (send_cmdline (Some c) s);
        Some (False, match_info_init attr ((at_reset_timer s)\<lparr>env_state := AT_STAT_RECV\<rparr>)) })"

definition multi_recv :: "at_client \<Rightarrow> nat \<Rightarrow> at_attr \<Rightarrow> at_info \<Rightarrow> (bool \<times> at_info) option" where
  "multi_recv cl a attr s =
     do { ok \<leftarrow> find_substr (attr_suffix attr) s;
          err \<leftarrow> find_substr (Some AT_DEF_RESP_ERR) s;
          if ok \<noteq> None then Some (False, s\<lparr>env_state := 0, env_i := env_i s + 1, env_j := 0, env_params := 1\<rparr>)
          else if err \<noteq> None
          then let s = s\<lparr>env_j := env_j s + 1\<rparr> in
               Some (False, if env_j s \<ge> uint (attr_retry attr) then s\<lparr>env_state := 0, env_j := 0, env_i := env_i s + 1\<rparr>
                 else at_reset_timer (s\<lparr>env_state := AT_STAT_RETRY\<rparr>))
          else if at_is_timeout (ucast AT_DEF_TIMEOUT) s then cmd_done cl a AT_RESP_TIMEOUT s
          else Some (False, s) }"

definition send_multiline_handler :: "at_client \<Rightarrow> nat \<Rightarrow> cstring list \<Rightarrow> at_info \<Rightarrow> (bool \<times> at_info) option" where
  "send_multiline_handler cl a cmds s =
     do { it \<leftarrow> items s a;
          if env_state s = AT_STAT_SEND then multi_send cl a (item_attr it) cmds s
          else if env_state s = AT_STAT_RECV then multi_recv cl a (item_attr it) s
          else if env_state s = AT_STAT_RETRY
          then Some (False, if at_is_timeout 100 s then s\<lparr>env_state := AT_STAT_SEND\<rparr> else s)
          else Some (False, s\<lparr>env_state := AT_STAT_SEND\<rparr>) }"

definition work_handler :: "at_client \<Rightarrow> nat \<Rightarrow> at_info \<Rightarrow> (bool \<times> at_info) option" where
  "work_handler cl a s =
     do { it \<leftarrow> items s a;
          case item_work it of
            WORK_TYPE_GENERAL f \<Rightarrow> do_work_handler cl f s
          | WORK_TYPE_MULTILINE cmds \<Rightarrow> send_multiline_handler cl a cmds s
          | _ \<Rightarrow> do_cmd_handler cl a s }"

subsection \<open>Unsolicited messages\<close>

definition at_obj_set_urc :: "urc_item list \<Rightarrow> int \<Rightarrow> at_info \<Rightarrow> at_info" where
  "at_obj_set_urc tbl count s = s\<lparr>urc_tbl := tbl, urc_tbl_size := of_int count\<rparr>"

definition at_obj_get_urcbuf_count :: "at_info \<Rightarrow> u16" where "at_obj_get_urcbuf_count s = urc_cnt s"

definition at_obj_urc_set_enable :: "bool \<Rightarrow> u16 \<Rightarrow> at_info \<Rightarrow> at_info" where
  "at_obj_urc_set_enable en time s =
     (let s = s\<lparr>urc_enable := en\<rparr> in if \<not> en then s\<lparr>urc_timer := at_ms s, urc_disable_time := time\<rparr> else s)"

text \<open>The first entry of the table whose prefix is in the string; a null table has no entries.\<close>

fun find_urc_from :: "urc_item list \<Rightarrow> nat \<Rightarrow> cstring \<Rightarrow> urc_item option option" where
  "find_urc_from tbl 0 c = Some None"
| "find_urc_from [] (Suc n) c = None"
| "find_urc_from (e # tbl) (Suc n) c = (if strstr c (urc_prefix e) \<noteq> None then Some (Some e) else find_urc_from tbl n c)"

definition find_urc_item :: "u8 list \<Rightarrow> at_info \<Rightarrow> urc_item option option" where
  "find_urc_item buf s =
     (if urc_tbl s = [] then Some None
      else do { c \<leftarrow> cstr buf 0; find_urc_from (urc_tbl s) (unat (urc_tbl_size s)) c })"

definition urc_reset :: "at_info \<Rightarrow> at_info" where
  "urc_reset s = s\<lparr>urc_target := 0, urc_cnt := 0, urc_item_ptr := None, urc_match := False, urc_timer := at_ms s\<rparr>"

definition urc_handler_entry :: "at_client \<Rightarrow> urc_recv_status \<Rightarrow> u8 list \<Rightarrow> at_info \<Rightarrow> at_info option" where
  "urc_handler_entry cl status buf s =
     do { frame \<leftarrow> subarr buf 0 (unat (urc_cnt s));
          let info = \<lparr>urc_status = status, urc_frame = frame\<rparr>;
          (remain, s) \<leftarrow> (case urc_item_ptr s of
              None \<Rightarrow> Some (0, s)
            | Some e \<Rightarrow> urc_fn cl (urc_handler e) info (note_event (Urc_Call (urc_handler e) info) s));
          Some (if remain = 0 \<and> (urc_item_ptr s \<noteq> None \<or> cursor s = None) then urc_reset s
                else s\<lparr>urc_target := of_int (uint (urc_cnt s) + remain), urc_match := True\<rparr>) }"

definition urc_timeout_process :: "at_client \<Rightarrow> u8 list \<Rightarrow> at_info \<Rightarrow> at_info option" where
  "urc_timeout_process cl buf s =
     (if urc_cnt s > 0 \<and> AT_IS_TIMEOUT (urc_timer s) AT_URC_TIMEOUT s
      then do {
        s \<leftarrow> (if urc_cnt s > 2 \<and> urc_item_ptr s \<noteq> None
              then do { buf \<leftarrow> wr buf (unat (urc_cnt s)) 0; urc_handler_entry cl URC_RECV_TIMEOUT buf (s\<lparr>urcbuf := Some buf\<rparr>) }
              else Some s);
        Some (urc_reset s) }
      else Some s)"

text \<open>One byte of the line.\<close>

definition urc_end_of_line :: "at_client \<Rightarrow> u8 \<Rightarrow> u8 list \<Rightarrow> at_info \<Rightarrow> at_info option" where
  "urc_end_of_line cl ch buf s =
     do { buf \<leftarrow> wr buf (unat (urc_cnt s)) 0;
          let s = s\<lparr>urcbuf := Some buf\<rparr>;
          e \<leftarrow> (case urc_item_ptr s of Some e \<Rightarrow> Some (Some e) | None \<Rightarrow> find_urc_item buf s);
          let s = s\<lparr>urc_item_ptr := e\<rparr>;
          if e = None \<and> ch = 10 then Some (urc_reset s)
          else (case e of
              Some e \<Rightarrow> if ch = endmark e then urc_handler_entry cl URC_RECV_OK buf s else Some s
            | None \<Rightarrow> Some s) }"

definition urc_recv_byte :: "at_client \<Rightarrow> u8 \<Rightarrow> at_info \<Rightarrow> at_info option" where
  "urc_recv_byte cl ch s =
     do { buf \<leftarrow> urcbuf s;
          buf \<leftarrow> wr buf (unat (urc_cnt s)) ch;
          let s = s\<lparr>urcbuf := Some buf, urc_cnt := urc_cnt s + 1\<rparr>;
          if urc_cnt s \<ge> urc_bufsize s then Some (urc_reset s)
          else if urc_match s
          then if urc_cnt s \<ge> urc_target s then urc_handler_entry cl URC_RECV_OK buf s else Some s
          else if ch \<notin> set AT_URC_END_MARKS \<and> ch \<noteq> 0 then Some s
          else urc_end_of_line cl ch buf s }"

fun urc_recv_loop :: "at_client \<Rightarrow> u8 list \<Rightarrow> at_info \<Rightarrow> at_info option" where
  "urc_recv_loop cl [] s = Some s"
| "urc_recv_loop cl (ch # bs) s = do { s \<leftarrow> urc_recv_byte cl ch s; urc_recv_loop cl bs s }"

definition urc_recv_process :: "at_client \<Rightarrow> u8 list \<Rightarrow> at_info \<Rightarrow> at_info option" where
  "urc_recv_process cl bs s =
     (case urcbuf s of None \<Rightarrow> Some s
      | Some buf \<Rightarrow>
          if bs = [] then urc_timeout_process cl buf s
          else if \<not> urc_enable s \<and> \<not> AT_IS_TIMEOUT (urc_timer s) (ucast (urc_disable_time s)) s then Some s
          else urc_recv_loop cl bs (s\<lparr>urc_enable := True, urc_timer := at_ms s\<rparr>))"

subsection \<open>Polling\<close>

definition resp_recv_process :: "u8 list \<Rightarrow> at_info \<Rightarrow> at_info option" where
  "resp_recv_process bs s =
     (if bs = [] then Some s
      else do {
        let n = (if unat (recv_cnt s) + length bs \<ge> unat (recv_bufsize s) then 0 else recv_cnt s);
        buf \<leftarrow> blit (recvbuf s) (unat n) bs;
        let m = n + of_nat (length bs);
        buf \<leftarrow> wr buf (unat m) 0;
        Some (s\<lparr>recvbuf := buf, recv_cnt := m\<rparr>) })"

text \<open>The next item, of the queue of high priority if there is one, becomes the current one.\<close>

definition at_work_next :: "at_info \<Rightarrow> nat option" where
  "at_work_next s = (case hlist s of a # _ \<Rightarrow> Some a | [] \<Rightarrow> (case llist s of a # _ \<Rightarrow> Some a | [] \<Rightarrow> None))"

definition at_work_start :: "nat \<Rightarrow> at_info \<Rightarrow> at_info option" where
  "at_work_start a s =
     do { it \<leftarrow> items s a;
          let s = s\<lparr>next_delay := 0, env_i := 0, env_j := 0, env_state := 0, cursor := Some a, env_params := attr_params (item_attr it)\<rparr>;
          s \<leftarrow> recvbuf_clear s;
          let s = at_reset_timer s;
          if item_state it = AT_WORK_STAT_READY then update_work_state a AT_WORK_STAT_RUN (item_code it) s else Some s }"

definition work_over :: "work_item \<Rightarrow> bool" where
  "work_over it \<longleftrightarrow> item_state it = AT_WORK_STAT_FINISH \<or> item_state it = AT_WORK_STAT_ABORT"

definition at_work_end :: "nat \<Rightarrow> at_info \<Rightarrow> at_info option" where
  "at_work_end a s =
     do { it \<leftarrow> items s a;
          s \<leftarrow> (if item_state it = AT_WORK_STAT_RUN then update_work_state a AT_WORK_STAT_FINISH (item_code it) s else Some s);
          s \<leftarrow> work_item_recycle a s;
          Some (s\<lparr>cursor := None\<rparr>) }"

definition at_work_run :: "at_client \<Rightarrow> nat \<Rightarrow> at_info \<Rightarrow> at_info option" where
  "at_work_run cl a s =
     do { it \<leftarrow> items s a;
          (over, s) \<leftarrow> (if work_over it then Some (True, s) else work_handler cl a s);
          if over then at_work_end a s else Some s }"

definition at_work_process :: "at_client \<Rightarrow> at_info \<Rightarrow> at_info option" where
  "at_work_process cl s =
     (case cursor s of
        Some a \<Rightarrow> at_work_run cl a s
      | None \<Rightarrow>
          (case at_work_next s of None \<Rightarrow> Some s
           | Some a \<Rightarrow> do { s \<leftarrow> at_work_start a s; at_work_run cl a s }))"

text \<open>\<open>bs\<close> and \<open>raw\<close> are what the adapter and the other side of the transparent mode have to read.\<close>

definition raw_exit_line :: "at_client \<Rightarrow> at_info \<Rightarrow> at_info option" where
  "raw_exit_line cl s =
     do { c \<leftarrow> raw_conf s;
          cmd \<leftarrow> exit_cmd c;
          line \<leftarrow> cstr (recvbuf s) 0;
          if \<not> strcaseeq cmd line then Some s
          else (case on_exit c of None \<Rightarrow> Some s | Some f \<Rightarrow> exit_fn cl f (note_event (Raw_Exit f) s)) }"

definition raw_exit_byte :: "at_client \<Rightarrow> u8 \<Rightarrow> at_info \<Rightarrow> at_info option" where
  "raw_exit_byte cl b s =
     do { let n = (if recv_cnt s \<ge> recv_bufsize s then 0 else recv_cnt s);
          buf \<leftarrow> wr (recvbuf s) (unat n) b;
          if b = 13 \<or> b = 110
          then do { buf \<leftarrow> wr buf (unat n) 0; raw_exit_line cl (s\<lparr>recvbuf := buf, recv_cnt := 0\<rparr>) }
          else Some (s\<lparr>recvbuf := buf, recv_cnt := n + 1\<rparr>) }"

fun raw_exit_loop :: "at_client \<Rightarrow> u8 list \<Rightarrow> at_info \<Rightarrow> at_info option" where
  "raw_exit_loop cl [] s = Some s"
| "raw_exit_loop cl (b # bs) s = do { s \<leftarrow> raw_exit_byte cl b s; raw_exit_loop cl bs s }"

definition at_raw_trans_process :: "at_client \<Rightarrow> u8 list \<Rightarrow> u8 list \<Rightarrow> at_info \<Rightarrow> at_info option" where
  "at_raw_trans_process cl bs raw s =
     (case raw_conf s of None \<Rightarrow> Some s
      | Some c \<Rightarrow>
          if length bs > 32 \<or> length raw > 32 then None
          else
            let s = (if bs \<noteq> [] then note_event (Raw_Write bs) s else s);
                s = (if raw \<noteq> [] then send_data raw s else s)
            in (if exit_cmd c = None then Some s else raw_exit_loop cl raw s))"

definition at_raw_transport_enter :: "at_raw_trans_conf option \<Rightarrow> at_info \<Rightarrow> at_info" where
  "at_raw_transport_enter c s = s\<lparr>raw_conf := c, raw_trans := True, recv_cnt := 0\<rparr>"

definition at_raw_transport_exit :: "at_info \<Rightarrow> at_info" where
  "at_raw_transport_exit s = s\<lparr>raw_trans := False\<rparr>"

definition at_obj_process :: "at_client \<Rightarrow> u8 list \<Rightarrow> u8 list \<Rightarrow> at_info \<Rightarrow> at_info option" where
  "at_obj_process cl bs raw s =
     (if raw_trans s then at_raw_trans_process cl bs raw s
      else if length bs > 64 then None
      else do {
        s \<leftarrow> urc_recv_process cl bs s;
        s \<leftarrow> resp_recv_process bs s;
        at_work_process cl s })"

subsection \<open>Objects\<close>

text \<open>\<open>s\<close> gives the memory counters, the contexts and the time.\<close>

definition fresh_buf :: "at_client \<Rightarrow> u16 \<Rightarrow> u8 list" where
  "fresh_buf cl n = map (heap_junk cl) [0..<unat n]"

definition at_obj_zero :: "at_adapter \<Rightarrow> at_info \<Rightarrow> at_info" where
  "at_obj_zero ad s =
     \<lparr>adap = ad, raw_conf = None, user_data = 0, env_i = 0, env_j = 0, env_state = 0, env_params = 0, cursor = None,
      hlist = [], llist = [], timer = 0, next_delay = 0, delay_timer = 0, recvbuf = [], at_prefix = None, at_suffix = None,
      urc_tbl = [], urc_item_ptr = None, urcbuf = None, urc_timer = 0, urc_bufsize = 0, urc_cnt = 0, urc_target = 0,
      urc_tbl_size = 0, urc_disable_time = 0, list_cnt = 0, recv_bufsize = 0, recv_cnt = 0, match_len = 0, match_mask = 0,
      urc_enable = False, urc_match = False, enable = False, disposing = False, err_occur = False, raw_trans = False,
      items = (\<lambda>_. None), next_addr = next_addr s, at_cur_mem = at_cur_mem s, at_max_mem = at_max_mem s, ctxs = ctxs s,
      at_ms = at_ms s, trace = trace s\<rparr>"

definition at_least_32 :: "u16 \<Rightarrow> u16" where "at_least_32 n = (if n < 32 then 32 else n)"

text \<open>Destroying an object: its items, its buffers and itself are released.\<close>

definition at_obj_destroy :: "at_info \<Rightarrow> at_info option" where
  "at_obj_destroy s =
     do { s \<leftarrow> work_item_destroy_all (hlist s) s;
          s \<leftarrow> work_item_destroy_all (llist s) s;
          let s = (if recvbuf s \<noteq> [] then at_core_free (ucast (recv_bufsize s)) s else s);
          let s = (if urcbuf s \<noteq> None then at_core_free (ucast (urc_bufsize s)) s else s);
          Some (at_core_free sizeof_at_info s) }"

definition at_obj_create :: "at_client \<Rightarrow> at_adapter \<Rightarrow> at_info \<Rightarrow> (bool \<times> at_info) option" where
  "at_obj_create cl ad s =
     do { (ok, s) \<leftarrow> at_core_malloc cl sizeof_at_info s;
          if \<not> ok then Some (False, s)
          else do {
            let s = at_obj_zero ad s;
            let s = s\<lparr>recv_bufsize := at_least_32 (adap_recv_bufsize ad)\<rparr>;
            (ok, s) \<leftarrow> at_core_malloc cl (ucast (recv_bufsize s)) s;
            if \<not> ok then do { s \<leftarrow> at_obj_destroy s; Some (False, s) }
            else do {
              let s = s\<lparr>recvbuf := fresh_buf cl (recv_bufsize s)\<rparr>;
              (ok, s) \<leftarrow> (if adap_urc_bufsize ad \<noteq> 0
                 then do {
                   let s = s\<lparr>urc_bufsize := at_least_32 (adap_urc_bufsize ad)\<rparr>;
                   (ok, s) \<leftarrow> at_core_malloc cl (ucast (urc_bufsize s)) s;
                   if ok then Some (True, s\<lparr>urcbuf := Some (fresh_buf cl (urc_bufsize s))\<rparr>)
                   else do { s \<leftarrow> at_obj_destroy s; Some (False, s) } }
                 else Some (True, s));
              Some (ok, if ok then s\<lparr>recv_cnt := 0, urc_enable := True, enable := True\<rparr> else s) } } }"

definition at_obj_busy :: "at_info \<Rightarrow> bool" where
  "at_obj_busy s \<longleftrightarrow> hlist s \<noteq> [] \<or> llist s \<noteq> [] \<or> urc_cnt s \<noteq> 0"

definition at_obj_set_enable :: "bool \<Rightarrow> at_info \<Rightarrow> at_info" where "at_obj_set_enable en s = s\<lparr>enable := en\<rparr>"
definition at_obj_set_user_data :: "nat \<Rightarrow> at_info \<Rightarrow> at_info" where "at_obj_set_user_data d s = s\<lparr>user_data := d\<rparr>"
definition at_obj_get_user_data :: "at_info \<Rightarrow> nat" where "at_obj_get_user_data s = user_data s"
definition at_attr_deinit :: "at_attr \<Rightarrow> at_attr" where "at_attr_deinit attr = at_def_attr"

subsection \<open>Requests\<close>

definition queued :: "(nat option \<times> at_info) option \<Rightarrow> (bool \<times> at_info) option" where
  "queued r = map_option (\<lambda>(a, s). (a \<noteq> None, s)) r"

text \<open>\<open>txt\<close> is the formatted command.\<close>

definition at_exec_vcmd :: "at_client \<Rightarrow> at_attr option \<Rightarrow> cstring \<Rightarrow> at_info \<Rightarrow> (bool \<times> at_info) option" where
  "at_exec_vcmd cl attr txt s =
     do { (ok, s) \<leftarrow> at_core_malloc cl (of_nat AT_MAX_CMD_LEN) s;
          if \<not> ok then Some (False, s)
          else do {
            (r, s) \<leftarrow> (if txt \<noteq> []
               then do { bs \<leftarrow> vsn_bytes txt (length txt + 1); queued (add_work_item cl attr (WORK_TYPE_CMD bs) s) }
               else Some (False, s));
            Some (r, at_core_free (of_nat AT_MAX_CMD_LEN) s) } }"

definition at_exec_cmd :: "at_client \<Rightarrow> at_attr option \<Rightarrow> cstring \<Rightarrow> at_info \<Rightarrow> (bool \<times> at_info) option" where
  "at_exec_cmd cl attr txt s = at_exec_vcmd cl attr txt s"

definition at_custom_cmd :: "at_client \<Rightarrow> at_attr option \<Rightarrow> nat option \<Rightarrow> at_info \<Rightarrow> (bool \<times> at_info) option" where
  "at_custom_cmd cl attr sender s = queued (add_work_item cl attr (WORK_TYPE_CUSTOM sender) s)"

definition at_send_data :: "at_client \<Rightarrow> at_attr option \<Rightarrow> u8 list \<Rightarrow> at_info \<Rightarrow> (bool \<times> at_info) option" where
  "at_send_data cl attr bs s = queued (add_work_item cl attr (WORK_TYPE_BUF bs) s)"

definition at_send_singlline :: "at_client \<Rightarrow> at_attr option \<Rightarrow> cstring option \<Rightarrow> at_info \<Rightarrow> (bool \<times> at_info) option" where
  "at_send_singlline cl attr c s = queued (add_work_item cl attr (WORK_TYPE_SINGLLINE c) s)"

definition at_send_multiline :: "at_client \<Rightarrow> at_attr option \<Rightarrow> cstring list \<Rightarrow> at_info \<Rightarrow> (bool \<times> at_info) option" where
  "at_send_multiline cl attr cmds s = queued (add_work_item cl attr (WORK_TYPE_MULTILINE cmds) s)"

definition at_do_work :: "at_client \<Rightarrow> nat \<Rightarrow> nat \<Rightarrow> at_info \<Rightarrow> (bool \<times> at_info) option" where
  "at_do_work cl params f s = queued (add_work_item cl (Some (at_def_attr\<lparr>attr_params := params\<rparr>)) (WORK_TYPE_GENERAL f) s)"

fun abort_list :: "nat list \<Rightarrow> at_info \<Rightarrow> at_info option" where
  "abort_list [] s = Some s"
| "abort_list (a # as) s = do { s \<leftarrow> update_work_state a AT_WORK_STAT_ABORT AT_RESP_ABORT s; abort_list as s }"

definition at_work_abort_all :: "at_info \<Rightarrow> at_info option" where
  "at_work_abort_all s = do { s \<leftarrow> abort_list (hlist s) s; abort_list (llist s) s }"

subsection \<open>Contexts\<close>

definition at_context_init :: "nat \<Rightarrow> u8 list option \<Rightarrow> u32 \<Rightarrow> at_info \<Rightarrow> at_info" where
  "at_context_init k rb n s =
     s\<lparr>ctxs := (ctxs s)(k := \<lparr>ctx_state = AT_WORK_STAT_IDLE, ctx_code = AT_RESP_OK, ctx_bufsize = ucast n, resplen = 0, respbuf = rb\<rparr>)\<rparr>"

definition at_context_attach :: "nat option \<Rightarrow> at_attr \<Rightarrow> at_attr" where "at_context_attach c attr = attr\<lparr>attr_ctx := c\<rparr>"
definition at_work_get_state :: "nat \<Rightarrow> at_info \<Rightarrow> at_work_state" where "at_work_get_state k s = ctx_state (ctxs s k)"

definition at_work_is_busy :: "nat \<Rightarrow> at_info \<Rightarrow> bool" where
  "at_work_is_busy k s \<longleftrightarrow> ctx_state (ctxs s k) = AT_WORK_STAT_RUN \<or> ctx_state (ctxs s k) = AT_WORK_STAT_READY"

definition at_work_is_finish :: "nat \<Rightarrow> at_info \<Rightarrow> bool" where
  "at_work_is_finish k s \<longleftrightarrow> ctx_state (ctxs s k) = AT_WORK_STAT_FINISH \<or> ctx_state (ctxs s k) = AT_WORK_STAT_ABORT"

definition at_work_get_result :: "nat \<Rightarrow> at_info \<Rightarrow> at_resp_code" where "at_work_get_result k s = ctx_code (ctxs s k)"

end
