(* ===== verification/At_Inv.thy ===== *)
theory At_Inv
  imports At_Chat
begin

text \<open>
  The invariant of an AT client object (its buffers, its queues, the item it runs, and its account of memory), what is
  asked of the functions of the program that uses it, and that every operation keeps the invariant.
\<close>

subsection \<open>Strings\<close>

lemma cstr_Some: "i \<le> length buf \<Longrightarrow> 0 \<in> set (drop i buf) \<Longrightarrow> cstr buf i = Some (takeWhile (\<lambda>b. b \<noteq> 0) (drop i buf))"
  by (simp add: cstr_def)

lemma cstr_Some0 [simp]: "0 \<in> set buf \<Longrightarrow> cstr buf 0 = Some (takeWhile (\<lambda>b. b \<noteq> 0) buf)"
  by (simp add: cstr_def)

lemma strstr_bound: "strstr s t = Some k \<Longrightarrow> k + length t \<le> length s \<and> take (length t) (drop k s) = t"
proof (induction s arbitrary: k)
  case Nil
  then show ?case by (simp split: if_splits)
next
  case (Cons c s)
  show ?case
  proof (cases "take (length t) (c # s) = t")
    case True
    then have "length t \<le> length (c # s)" by (metis length_take min.cobounded1)
    then show ?thesis using Cons.prems True by simp
  next
    case False
    then show ?thesis using Cons by auto
  qed
qed

text \<open>The offset found is the first one.\<close>

lemma strstr_first: "strstr s t = Some k \<Longrightarrow> j < k \<Longrightarrow> take (length t) (drop j s) \<noteq> t"
proof (induction s arbitrary: k j)
  case (Cons c s)
  then show ?case by (cases j) (auto split: if_splits)
qed (simp split: if_splits)

lemma strstr_None: "strstr s t = None \<longleftrightarrow> (\<forall>k \<le> length s. take (length t) (drop k s) \<noteq> t)"
proof (induction s)
  case (Cons c s)
  have "(\<forall>k \<le> length (c # s). take (length t) (drop k (c # s)) \<noteq> t) \<longleftrightarrow>
      take (length t) (c # s) \<noteq> t \<and> (\<forall>k \<le> length s. take (length t) (drop k s) \<noteq> t)"
    by (simp only: less_Suc_eq_le [symmetric] length_Cons All_less_Suc2) simp
  then show ?case using Cons.IH by simp
qed simp

text \<open>A string that is found is in front and behind something.\<close>

lemma strstr_iff: "strstr s t \<noteq> None \<longleftrightarrow> (\<exists>u v. s = u @ t @ v)"
proof
  assume "strstr s t \<noteq> None"
  then obtain k where "strstr s t = Some k" by blast
  then have "k + length t \<le> length s" "take (length t) (drop k s) = t" using strstr_bound by blast+
  then have "s = take k s @ t @ drop (length t) (drop k s)" by (metis append_take_drop_id)
  then show "\<exists>u v. s = u @ t @ v" by blast
next
  assume "\<exists>u v. s = u @ t @ v"
  then obtain u v where "s = u @ t @ v" by blast
  then have "length u \<le> length s \<and> take (length t) (drop (length u) s) = t" by simp
  then show "strstr s t \<noteq> None" using strstr_None by blast
qed

subsection \<open>The invariant\<close>

definition recv_ok :: "at_info \<Rightarrow> bool" where
  "recv_ok s \<longleftrightarrow> length (recvbuf s) = unat (recv_bufsize s) \<and> 64 < unat (recv_bufsize s) \<and> recv_cnt s \<le> recv_bufsize s"

text \<open>A command needs a suffix to search, a custom one its sender.\<close>

fun command_work :: "work \<Rightarrow> bool" where
  "command_work (WORK_TYPE_GENERAL f) = False"
| "command_work (WORK_TYPE_MULTILINE cmds) = False"
| "command_work _ = True"

fun work_ok :: "at_attr \<Rightarrow> work \<Rightarrow> bool" where
  "work_ok attr (WORK_TYPE_GENERAL f) = True"
| "work_ok attr (WORK_TYPE_CMD bs) = (attr_suffix attr \<noteq> None \<and> 0 \<in> set bs)"
| "work_ok attr (WORK_TYPE_CUSTOM f) = (attr_suffix attr \<noteq> None \<and> f \<noteq> None)"
| "work_ok attr _ = (attr_suffix attr \<noteq> None)"

definition items_ok :: "at_info \<Rightarrow> bool" where
  "items_ok s \<longleftrightarrow> (\<forall>a it. items s a = Some it \<longrightarrow> work_ok (item_attr it) (item_work it))"

text \<open>What the running item needs: strings in the receive buffer, and a line of a multiline command to send.\<close>

definition prefix_ok :: "at_info \<Rightarrow> bool" where
  "prefix_ok s \<longleftrightarrow> (\<forall>k. at_prefix s = Some k \<longrightarrow> k \<le> length (recvbuf s) \<and> 0 \<in> set (drop k (recvbuf s)))"

definition line_ok :: "cstring list \<Rightarrow> at_info \<Rightarrow> bool" where
  "line_ok cmds s \<longleftrightarrow> 0 \<le> env_i s \<and> env_i s \<le> int (length cmds) \<and> (env_state s = AT_STAT_RECV \<longrightarrow> env_i s < int (length cmds))"

definition mask_ok :: "at_attr \<Rightarrow> at_info \<Rightarrow> bool" where
  "mask_ok attr s \<longleftrightarrow> (match_mask s AND MATCH_MASK_PREFIX = 0 \<longrightarrow> attr_prefix attr \<noteq> None)"

definition work_runs :: "at_attr \<Rightarrow> work \<Rightarrow> at_info \<Rightarrow> bool" where
  "work_runs attr w s \<longleftrightarrow>
     (command_work w \<and> env_state s = AT_STAT_RECV \<longrightarrow> prefix_ok s \<and> mask_ok attr s) \<and> (\<forall>cmds. w = WORK_TYPE_MULTILINE cmds \<longrightarrow> line_ok cmds s)"

definition run_ok :: "at_info \<Rightarrow> bool" where
  "run_ok s \<longleftrightarrow> (\<forall>a it. cursor s = Some a \<longrightarrow> items s a = Some it \<longrightarrow> 0 \<in> set (recvbuf s) \<and> work_runs (item_attr it) (item_work it) s)"

definition queue :: "at_info \<Rightarrow> nat list" where "queue s = hlist s @ llist s"

definition queue_ok :: "at_info \<Rightarrow> bool" where
  "queue_ok s \<longleftrightarrow> distinct (queue s) \<and> set (queue s) = dom (items s) \<and> length (queue s) \<le> 33 \<and> unat (list_cnt s) = length (queue s) \<and>
     (\<forall>a \<in> set (queue s). a < next_addr s)"

definition cursor_ok :: "at_info \<Rightarrow> bool" where
  "cursor_ok s \<longleftrightarrow> (\<forall>a. cursor s = Some a \<longrightarrow> (\<exists>as. hlist s = a # as) \<or> (\<exists>as. llist s = a # as))"

definition urc_ok :: "at_info \<Rightarrow> bool" where
  "urc_ok s \<longleftrightarrow>
     (\<forall>buf. urcbuf s = Some buf \<longrightarrow> length buf = unat (urc_bufsize s) \<and> 32 \<le> unat (urc_bufsize s) \<and> urc_cnt s < urc_bufsize s) \<and>
     (urc_tbl s = [] \<or> unat (urc_tbl_size s) \<le> length (urc_tbl s))"

definition ctx_ok :: "at_info \<Rightarrow> bool" where
  "ctx_ok s \<longleftrightarrow>
     (\<forall>k rb. respbuf (ctxs s k) = Some rb \<longrightarrow> 0 < ctx_bufsize (ctxs s k) \<and> length rb = unat (ctx_bufsize (ctxs s k)))"

text \<open>The account of memory is what is allocated, within the limit; \<open>x\<close> more bytes are in use during a request.\<close>

definition mem_used :: "at_info \<Rightarrow> nat" where
  "mem_used s = 156 + unat (recv_bufsize s) + (if urcbuf s = None then 0 else unat (urc_bufsize s)) +
     (\<Sum>a\<leftarrow>queue s. unat (item_size (the (items s a))))"

definition mem_ok :: "nat \<Rightarrow> at_info \<Rightarrow> bool" where
  "mem_ok x s \<longleftrightarrow> unat (at_cur_mem s) = mem_used s + x \<and> mem_used s + x \<le> 6144"

lemmas at_ok_defs = recv_ok_def items_ok_def run_ok_def queue_ok_def cursor_ok_def urc_ok_def ctx_ok_def mem_ok_def

definition at_ok' :: "nat \<Rightarrow> at_info \<Rightarrow> bool" where
  "at_ok' x s \<longleftrightarrow> recv_ok s \<and> items_ok s \<and> run_ok s \<and> queue_ok s \<and> cursor_ok s \<and> urc_ok s \<and> ctx_ok s \<and> mem_ok x s"

abbreviation at_ok :: "at_info \<Rightarrow> bool" where "at_ok \<equiv> at_ok' 0"

lemma at_ok_D:
  assumes "at_ok' x s"
  shows "recv_ok s" "items_ok s" "run_ok s" "queue_ok s" "cursor_ok s" "urc_ok s" "ctx_ok s" "mem_ok x s"
  using assms by (simp_all add: at_ok'_def)

text \<open>Between the polls no item runs in the transparent mode.\<close>

definition at_inv :: "at_info \<Rightarrow> bool" where "at_inv s \<longleftrightarrow> at_ok s \<and> (raw_trans s \<longrightarrow> cursor s = None)"

subsection \<open>What is asked of the program\<close>

text \<open>
  A function of the program keeps the invariant and the running item; requests it makes go to the ends of the queues.
  It enters the transparent mode only where no item goes on running.
\<close>

definition at_frame :: "at_info \<Rightarrow> at_info \<Rightarrow> bool" where
  "at_frame s s' \<longleftrightarrow> cursor s' = cursor s \<and> at_ms s' = at_ms s \<and> (urcbuf s' = None \<longleftrightarrow> urcbuf s = None) \<and>
     (\<exists>as. hlist s' = hlist s @ as) \<and> (\<exists>as. llist s' = llist s @ as) \<and>
     (\<forall>a it. items s a = Some it \<longrightarrow> (\<exists>it'. items s' a = Some it' \<and> item_attr it' = item_attr it \<and> item_work it' = item_work it))"

definition client_step :: "at_info \<Rightarrow> at_info \<Rightarrow> bool" where
  "client_step s s' \<longleftrightarrow> at_ok s' \<and> at_frame s s'"

text \<open>The same for the client's own steps, which do not enter the transparent mode.\<close>

definition at_step :: "nat \<Rightarrow> at_info \<Rightarrow> at_info \<Rightarrow> bool" where
  "at_step x s s' \<longleftrightarrow> at_ok' x s' \<and> at_frame s s' \<and> raw_trans s' = raw_trans s"

definition client_ok :: "at_client \<Rightarrow> bool" where
  "client_ok cl \<longleftrightarrow>
     (\<forall>n s. heap_room cl n s) \<and>
     (\<forall>f s. at_ok s \<longrightarrow> (\<exists>b s'. work_fn cl f s = Some (b, s') \<and> client_step s s' \<and> (b \<or> raw_trans s' = raw_trans s))) \<and>
     (\<forall>f s. at_ok s \<longrightarrow> (\<exists>s'. sender_fn cl f s = Some s' \<and> client_step s s' \<and> raw_trans s' = raw_trans s)) \<and>
     (\<forall>f r s. at_ok s \<longrightarrow> (\<exists>s'. cb_fn cl f r s = Some s' \<and> client_step s s')) \<and>
     (\<forall>f i s. at_ok s \<longrightarrow> (\<exists>n s'. urc_fn cl f i s = Some (n, s') \<and> client_step s s' \<and> raw_trans s' = raw_trans s)) \<and>
     (\<forall>f s. at_ok s \<longrightarrow> (\<exists>s'. exit_fn cl f s = Some s' \<and> client_step s s' \<and> raw_conf s' = raw_conf s))"

lemma at_frame_refl: "at_frame s s" by (simp add: at_frame_def)

lemma at_frame_trans:
  assumes "at_frame s s'" "at_frame s' s''"
  shows "at_frame s s''"
proof -
  have "\<exists>it'. items s'' a = Some it' \<and> item_attr it' = item_attr it \<and> item_work it' = item_work it" if "items s a = Some it" for a it
  proof -
    from assms(1) that have "\<exists>it1. items s' a = Some it1 \<and> item_attr it1 = item_attr it \<and> item_work it1 = item_work it"
      unfolding at_frame_def by metis
    then obtain it1 where "items s' a = Some it1" "item_attr it1 = item_attr it" "item_work it1 = item_work it" by blast
    then show ?thesis using assms(2) unfolding at_frame_def by metis
  qed
  moreover have "\<exists>as. hlist s'' = hlist s @ as" "\<exists>as. llist s'' = llist s @ as" using assms by (auto simp: at_frame_def)
  ultimately show ?thesis using assms by (simp add: at_frame_def)
qed

lemma at_step_refl: "at_ok' x s \<Longrightarrow> at_step x s s" by (simp add: at_step_def at_frame_refl)

lemma at_step_trans: "at_step x s s' \<Longrightarrow> at_step y s' s'' \<Longrightarrow> at_step y s s''"
  using at_frame_trans by (auto simp: at_step_def)

lemma at_step_client: "client_step s s' \<Longrightarrow> raw_trans s' = raw_trans s \<Longrightarrow> at_step 0 s s'"
  by (simp add: client_step_def at_step_def)

lemma at_step_D: "at_step x s s' \<Longrightarrow> at_ok' x s'" by (simp add: at_step_def)

subsection \<open>Fields that do not matter\<close>

lemma queue_upd [simp]:
  "queue (env_i_update f_env_i s) = queue s" "queue (env_state_update f_env_state s) = queue s" "queue (at_prefix_update f_at_prefix s) = queue s"
  "queue (recvbuf_update f_recvbuf s) = queue s" "queue (recv_cnt_update f_recv_cnt s) = queue s" "queue (ctxs_update f_ctxs s) = queue s"
  "queue (next_addr_update f_next_addr s) = queue s" "queue (list_cnt_update f_list_cnt s) = queue s" "queue (cursor_update f_cursor s) = queue s"
  "queue (urc_cnt_update f_urc_cnt s) = queue s" "queue (at_cur_mem_update f_at_cur_mem s) = queue s" "queue (match_mask_update f_match_mask s) = queue s"
  by (simp_all add: queue_def)

lemma mem_used_upd [simp]:
  "mem_used (env_i_update f_env_i s) = mem_used s" "mem_used (env_state_update f_env_state s) = mem_used s"
  "mem_used (at_prefix_update f_at_prefix s) = mem_used s" "mem_used (recvbuf_update f_recvbuf s) = mem_used s"
  "mem_used (recv_cnt_update f_recv_cnt s) = mem_used s" "mem_used (ctxs_update f_ctxs s) = mem_used s"
  "mem_used (next_addr_update f_next_addr s) = mem_used s" "mem_used (list_cnt_update f_list_cnt s) = mem_used s"
  "mem_used (cursor_update f_cursor s) = mem_used s" "mem_used (urc_cnt_update f_urc_cnt s) = mem_used s"
  "mem_used (at_cur_mem_update f_at_cur_mem s) = mem_used s" "mem_used (match_mask_update f_match_mask s) = mem_used s"
  by (simp_all add: mem_used_def)

lemmas at_ok_rest = recv_ok_def items_ok_def queue_ok_def cursor_ok_def urc_ok_def ctx_ok_def mem_ok_def
lemmas at_ok_fields = at_ok_rest run_ok_def work_runs_def prefix_ok_def mask_ok_def line_ok_def mem_used_def queue_def

lemma at_ok_upd [simp]:
  "at_ok' x (trace_update f_trace s) = at_ok' x s" "at_ok' x (timer_update f_timer s) = at_ok' x s"
  "at_ok' x (next_delay_update f_next_delay s) = at_ok' x s" "at_ok' x (err_occur_update f_err_occur s) = at_ok' x s"
  "at_ok' x (user_data_update f_user_data s) = at_ok' x s" "at_ok' x (enable_update f_enable s) = at_ok' x s"
  "at_ok' x (urc_timer_update f_urc_timer s) = at_ok' x s" "at_ok' x (urc_enable_update f_urc_enable s) = at_ok' x s"
  "at_ok' x (urc_match_update f_urc_match s) = at_ok' x s" "at_ok' x (urc_target_update f_urc_target s) = at_ok' x s"
  "at_ok' x (urc_item_ptr_update f_urc_item_ptr s) = at_ok' x s" "at_ok' x (urc_disable_time_update f_urc_disable_time s) = at_ok' x s"
  "at_ok' x (env_params_update f_env_params s) = at_ok' x s" "at_ok' x (env_j_update f_env_j s) = at_ok' x s"
  "at_ok' x (match_len_update f_match_len s) = at_ok' x s"
  "at_ok' x (at_suffix_update f_at_suffix s) = at_ok' x s" "at_ok' x (at_ms_update f_at_ms s) = at_ok' x s"
  "at_ok' x (raw_trans_update f_raw_trans s) = at_ok' x s" "at_ok' x (raw_conf_update f_raw_conf s) = at_ok' x s"
  "at_ok' x (at_max_mem_update f_at_max_mem s) = at_ok' x s"
  by (simp_all add: at_ok'_def at_ok_fields)

lemma at_frame_upd [simp]:
  "at_frame s (trace_update f_trace s') = at_frame s s'" "at_frame s (timer_update f_timer s') = at_frame s s'"
  "at_frame s (next_delay_update f_next_delay s') = at_frame s s'" "at_frame s (err_occur_update f_err_occur s') = at_frame s s'"
  "at_frame s (urc_timer_update f_urc_timer s') = at_frame s s'" "at_frame s (urc_enable_update f_urc_enable s') = at_frame s s'"
  "at_frame s (urc_match_update f_urc_match s') = at_frame s s'" "at_frame s (urc_target_update f_urc_target s') = at_frame s s'"
  "at_frame s (urc_item_ptr_update f_urc_item_ptr s') = at_frame s s'" "at_frame s (urc_cnt_update f_urc_cnt s') = at_frame s s'"
  "at_frame s (raw_trans_update f_raw_trans s') = at_frame s s'"
  "at_frame s (env_params_update f_env_params s') = at_frame s s'" "at_frame s (env_j_update f_env_j s') = at_frame s s'"
  "at_frame s (env_i_update f_env_i s') = at_frame s s'" "at_frame s (env_state_update f_env_state s') = at_frame s s'"
  "at_frame s (match_len_update f_match_len s') = at_frame s s'" "at_frame s (match_mask_update f_match_mask s') = at_frame s s'"
  "at_frame s (at_suffix_update f_at_suffix s') = at_frame s s'" "at_frame s (at_prefix_update f_at_prefix s') = at_frame s s'"
  "at_frame s (recvbuf_update f_recvbuf s') = at_frame s s'" "at_frame s (recv_cnt_update f_recv_cnt s') = at_frame s s'"
  "at_frame s (ctxs_update f_ctxs s') = at_frame s s'" "at_frame s (at_cur_mem_update f_at_cur_mem s') = at_frame s s'"
  "at_frame s (at_max_mem_update f_at_max_mem s') = at_frame s s'"
  by (simp_all add: at_frame_def)

text \<open>A change of the running item's variables needs \<open>work_runs\<close> only.\<close>

lemma at_ok_env:
  assumes "at_ok' x s"
    "\<And>a it. cursor s = Some a \<Longrightarrow> items s a = Some it \<Longrightarrow> work_runs (item_attr it) (item_work it) s \<Longrightarrow>
      work_runs (item_attr it) (item_work it) (s\<lparr>env_i := i, env_state := st, at_prefix := p, match_mask := m\<rparr>)"
  shows "at_ok' x (s\<lparr>env_i := i, env_state := st, at_prefix := p, match_mask := m\<rparr>)"
proof -
  have "run_ok (s\<lparr>env_i := i, env_state := st, at_prefix := p, match_mask := m\<rparr>)"
    using assms unfolding at_ok'_def run_ok_def by simp
  then show ?thesis using assms(1) by (simp add: at_ok'_def at_ok_rest)
qed

lemma note_event_step: "at_ok' x s \<Longrightarrow> at_step x s (note_event e s)"
  by (simp add: at_step_def note_event_def at_frame_refl)

subsection \<open>The receive buffer\<close>

lemma nul_after: "0 \<in> set (drop k buf) \<longleftrightarrow> (\<exists>p. k \<le> p \<and> p < length buf \<and> buf ! p = 0)"
proof
  assume "0 \<in> set (drop k buf)"
  then obtain i where "i < length buf - k" "drop k buf ! i = 0" unfolding in_set_conv_nth by auto
  then show "\<exists>p. k \<le> p \<and> p < length buf \<and> buf ! p = 0" by (intro exI [of _ "k + i"]) auto
next
  assume "\<exists>p. k \<le> p \<and> p < length buf \<and> buf ! p = 0"
  then obtain p where p: "k \<le> p" "p < length buf" "buf ! p = 0" by blast
  then have "drop k buf ! (p - k) = 0" "p - k < length (drop k buf)" by auto
  then show "0 \<in> set (drop k buf)" by (metis nth_mem)
qed

text \<open>A string stays one when bytes and a zero are written into the buffer.\<close>

lemma nul_kept:
  assumes "0 \<in> set (drop k buf)" "blit buf n xs = Some buf1" "wr buf1 (n + length xs) 0 = Some buf2"
  shows "0 \<in> set (drop k buf2)"
proof -
  obtain p where p: "k \<le> p" "p < length buf" "buf ! p = 0" using assms(1) nul_after by blast
  have len: "length buf1 = length buf" "n + length xs < length buf" "buf2 = buf1[n + length xs := 0]"
    using blit_length [OF assms(2)] assms(3) by (auto simp: wr_def split: if_splits)
  show ?thesis
  proof (cases "p < n \<or> n + length xs < p")
    case True
    then have "buf2 ! p = 0" using blit_nth [OF assms(2), of p] p len by auto
    then show ?thesis using p len unfolding nul_after by auto
  next
    case False
    then have "k \<le> n + length xs" "buf2 ! (n + length xs) = 0" using p len by auto
    then show ?thesis using len unfolding nul_after by auto
  qed
qed

lemma work_runs_buf: "prefix_ok s' \<or> \<not> prefix_ok s \<Longrightarrow> env_i s' = env_i s \<Longrightarrow> env_state s' = env_state s \<Longrightarrow>
    match_mask s' = match_mask s \<Longrightarrow> work_runs attr w s \<Longrightarrow> work_runs attr w s'"
  by (auto simp: work_runs_def line_ok_def mask_ok_def)

lemma recv_written_ok:
  assumes "at_ok' x s" "blit (recvbuf s) n xs = Some buf1" "wr buf1 (n + length xs) 0 = Some buf2" "m \<le> recv_bufsize s"
  shows "at_step x s (s\<lparr>recvbuf := buf2, recv_cnt := m\<rparr>)"
proof -
  let ?s = "s\<lparr>recvbuf := buf2, recv_cnt := m\<rparr>"
  have len: "length buf2 = length (recvbuf s)" using blit_length [OF assms(2)] assms(3) by (auto simp: wr_def split: if_splits)
  have nul: "0 \<in> set (drop k (recvbuf s)) \<Longrightarrow> 0 \<in> set (drop k buf2)" for k using nul_kept [OF _ assms(2,3)] .
  have "prefix_ok ?s" if "prefix_ok s" using that nul len by (simp add: prefix_ok_def)
  then have "work_runs attr w ?s" if "work_runs attr w s" for attr w using that work_runs_buf [of ?s s] by auto
  then have "run_ok ?s" using at_ok_D(3) [OF assms(1)] nul [of 0] by (simp add: run_ok_def)
  then have "at_ok' x ?s" using assms(1,4) len by (simp add: at_ok'_def at_ok_rest)
  then show ?thesis by (simp add: at_step_def at_frame_refl)
qed

lemma recvbuf_clear_ok:
  assumes "at_ok' x s"
  shows "\<exists>s'. recvbuf_clear s = Some s' \<and> at_step x s s'"
proof -
  have len: "0 < length (recvbuf s)" using at_ok_D(1) [OF assms] by (simp add: recv_ok_def)
  have b: "blit (recvbuf s) 0 [] = Some (recvbuf s)" by (simp add: blit_def)
  then show ?thesis
    using recv_written_ok [OF assms b, of "(recvbuf s)[0 := 0]" 0] len by (simp add: recvbuf_clear_def)
qed

lemma resp_recv_process_ok:
  assumes "at_ok' x s" "length bs \<le> 64"
  shows "\<exists>s'. resp_recv_process bs s = Some s' \<and> at_step x s s'"
proof (cases "bs = []")
  case True
  then show ?thesis using at_step_refl [OF assms(1)] by (simp add: resp_recv_process_def)
next
  case False
  have r: "length (recvbuf s) = unat (recv_bufsize s)" "64 < unat (recv_bufsize s)"
    using at_ok_D(1) [OF assms(1)] by (simp_all add: recv_ok_def)
  let ?n = "if unat (recv_cnt s) + length bs \<ge> unat (recv_bufsize s) then 0 else recv_cnt s"
  have n: "unat ?n + length bs < unat (recv_bufsize s)" using r(2) assms(2) by auto
  have b: "unat (of_nat (length bs) :: u16) = length bs" using assms(2) by (simp add: unat_of_nat_lt)
  have m: "unat (?n + of_nat (length bs)) = unat ?n + length bs"
  proof -
    have p: "(2 :: nat) ^ LENGTH(16) = 65536" by simp
    have "unat ?n + unat (of_nat (length bs) :: u16) < 2 ^ LENGTH(16)" unfolding b p by (rule less_trans [OF n u16_bound])
    from unat_add_lt [OF this] show ?thesis unfolding b .
  qed
  obtain buf1 where buf1: "blit (recvbuf s) (unat ?n) bs = Some buf1" using n r(1) by (simp add: blit_def)
  then obtain buf2 where buf2: "wr buf1 (unat ?n + length bs) 0 = Some buf2" using blit_length [OF buf1] n r(1) by (simp add: wr_def)
  have "?n + of_nat (length bs) \<le> recv_bufsize s" using m n by (simp add: word_le_nat_alt)
  then have "at_step x s (s\<lparr>recvbuf := buf2, recv_cnt := ?n + of_nat (length bs)\<rparr>)" using recv_written_ok [OF assms(1) buf1 buf2] by simp
  moreover have "resp_recv_process bs s = Some (s\<lparr>recvbuf := buf2, recv_cnt := ?n + of_nat (length bs)\<rparr>)"
    using False buf1 buf2 m unfolding resp_recv_process_def Let_def by (simp del: of_nat_add split del: if_split)
  ultimately show ?thesis by blast
qed

subsection \<open>Work items\<close>

lemma running_item:
  assumes "at_ok' x s" "cursor s = Some a"
  shows "\<exists>it. items s a = Some it \<and> work_ok (item_attr it) (item_work it) \<and> work_runs (item_attr it) (item_work it) s \<and> 0 \<in> set (recvbuf s)"
proof -
  have "a \<in> set (queue s)" using at_ok_D(5) [OF assms(1)] assms(2) by (auto simp: cursor_ok_def queue_def)
  then obtain it where "items s a = Some it" using at_ok_D(4) [OF assms(1)] by (auto simp: queue_ok_def)
  then show ?thesis using at_ok_D(2,3) [OF assms(1)] assms(2) by (simp add: items_ok_def run_ok_def)
qed

lemma queued_item: "at_ok' x s \<Longrightarrow> a \<in> set (queue s) \<Longrightarrow> \<exists>it. items s a = Some it"
  by (auto dest: at_ok_D(4) simp: queue_ok_def)

text \<open>A change of an item that keeps its work and its size.\<close>

lemma upd_item_ok:
  assumes ok: "at_ok' x s" and it: "items s a = Some it"
    and same: "item_attr it' = item_attr it" "item_work it' = item_work it" "item_size it' = item_size it"
  shows "at_step x s (s\<lparr>items := (items s)(a \<mapsto> it')\<rparr>)"
proof -
  let ?s = "s\<lparr>items := (items s)(a \<mapsto> it')\<rparr>"
  have "unat (item_size (the (items ?s b))) = unat (item_size (the (items s b)))" for b using it same by simp
  then have m: "mem_used ?s = mem_used s" by (simp add: mem_used_def queue_def)
  have "work_runs attr w ?s = work_runs attr w s" for attr w by (simp add: work_runs_def prefix_ok_def mask_ok_def line_ok_def)
  then have "run_ok ?s" using at_ok_D(3) [OF ok] it same by (auto simp: run_ok_def)
  moreover have "items_ok ?s" using at_ok_D(2) [OF ok] it same by (simp add: items_ok_def)
  moreover have "queue_ok ?s" using at_ok_D(4) [OF ok] it by (auto simp: queue_ok_def queue_def)
  ultimately have "at_ok' x ?s"
    using at_ok_D [OF ok] m by (simp add: at_ok'_def recv_ok_def cursor_ok_def urc_ok_def ctx_ok_def mem_ok_def)
  moreover have "at_frame s ?s" using it same by (simp add: at_frame_def)
  ultimately show ?thesis by (simp add: at_step_def)
qed

text \<open>A change of a context's state.\<close>

lemma upd_ctx_ok:
  assumes "at_ok' x s" "\<And>c. respbuf (f c) = respbuf c \<and> ctx_bufsize (f c) = ctx_bufsize c"
  shows "at_step x s (upd_ctx k f s)"
proof (cases k)
  case (Some j)
  have "ctx_ok (s\<lparr>ctxs := (ctxs s)(j := f (ctxs s j))\<rparr>)"
    using at_ok_D(7) [OF assms(1)] assms(2) by (simp add: ctx_ok_def)
  moreover have "run_ok (s\<lparr>ctxs := (ctxs s)(j := f (ctxs s j))\<rparr>)"
    using at_ok_D(3) [OF assms(1)] by (simp add: run_ok_def work_runs_def prefix_ok_def mask_ok_def line_ok_def)
  ultimately have "at_ok' x (s\<lparr>ctxs := (ctxs s)(j := f (ctxs s j))\<rparr>)"
    using at_ok_D [OF assms(1)] by (simp add: at_ok'_def recv_ok_def items_ok_def queue_ok_def cursor_ok_def urc_ok_def mem_ok_def)
  then show ?thesis using Some by (simp add: upd_ctx_def at_step_def at_frame_refl)
qed (simp add: upd_ctx_def at_step_refl assms(1))

lemma update_work_state_ok:
  assumes "at_ok' x s" "items s a = Some it"
  shows "\<exists>s'. update_work_state a st code s = Some s' \<and> at_step x s s' \<and>
    items s' a = Some (it\<lparr>item_state := st, item_code := code\<rparr>) \<and> recvbuf s' = recvbuf s \<and> recv_cnt s' = recv_cnt s \<and>
    hlist s' = hlist s \<and> llist s' = llist s"
proof -
  let ?it = "it\<lparr>item_state := st, item_code := code\<rparr>"
  let ?s = "s\<lparr>items := (items s)(a \<mapsto> ?it)\<rparr>"
  let ?f = "\<lambda>c. c\<lparr>ctx_code := code, ctx_state := st\<rparr>"
  have 1: "at_step x s ?s" by (rule upd_item_ok [OF assms]) simp_all
  have "at_step x ?s (upd_ctx (attr_ctx (item_attr it)) ?f ?s)" by (rule upd_ctx_ok [OF at_step_D [OF 1]]) simp
  then have "at_step x s (upd_ctx (attr_ctx (item_attr it)) ?f ?s)" using at_step_trans [OF 1] by blast
  then show ?thesis using assms(2) by (simp add: update_work_state_def upd_ctx_def split: option.splits)
qed

lemma store_response_ok:
  assumes ok: "at_ok' x s"
  shows "\<exists>s'. store_response c s = Some s' \<and> at_step x s s'"
proof (cases "\<exists>k rb. c = Some k \<and> respbuf (ctxs s k) = Some rb")
  case False
  then show ?thesis using at_step_refl [OF ok] by (auto simp: store_response_def split: option.splits)
next
  case True
  then obtain k rb where c: "c = Some k" "respbuf (ctxs s k) = Some rb" by blast
  have rb: "0 < ctx_bufsize (ctxs s k)" "length rb = unat (ctx_bufsize (ctxs s k))" using at_ok_D(7) [OF ok] c(2) by (simp_all add: ctx_ok_def)
  have r: "unat (recv_cnt s) \<le> length (recvbuf s)" using at_ok_D(1) [OF ok] by (simp add: recv_ok_def word_le_nat_alt)
  let ?n = "if recv_cnt s \<ge> ctx_bufsize (ctxs s k) then ctx_bufsize (ctxs s k) - 1 else recv_cnt s"
  have "unat (ctx_bufsize (ctxs s k) - 1) = length rb - 1" using rb unat_sub_le [of 1 "ctx_bufsize (ctxs s k)"] by (simp add: word_le_nat_alt word_less_nat_alt)
  then have n: "unat ?n \<le> length (recvbuf s)" "unat ?n < length rb" using rb r by (auto simp: word_le_nat_alt word_less_nat_alt)
  obtain bs where bs: "subarr (recvbuf s) 0 (unat ?n) = Some bs" "length bs = unat ?n" using n(1) by (simp add: subarr_def)
  obtain rb' where rb': "blit rb 0 bs = Some rb'" "length rb' = length rb" using n(2) bs(2) by (simp add: blit_def)
  let ?s = "upd_ctx c (\<lambda>x. x\<lparr>resplen := ?n, respbuf := Some rb'\<rparr>) s"
  have "ctx_ok ?s" using at_ok_D(7) [OF ok] c rb rb'(2) by (simp add: ctx_ok_def upd_ctx_def)
  moreover have "run_ok ?s" using at_ok_D(3) [OF ok] c(1) by (simp add: run_ok_def work_runs_def prefix_ok_def mask_ok_def line_ok_def upd_ctx_def)
  ultimately have "at_ok' x ?s"
    using at_ok_D [OF ok] c(1) by (simp add: at_ok'_def recv_ok_def items_ok_def queue_ok_def cursor_ok_def urc_ok_def mem_ok_def upd_ctx_def)
  then have "at_step x s ?s" using c(1) by (simp add: at_step_def upd_ctx_def at_frame_refl)
  moreover have "store_response c s = Some ?s" using c bs(1) rb'(1) by (simp add: store_response_def Let_def)
  ultimately show ?thesis by blast
qed

subsection \<open>Callbacks\<close>

lemma client_okD:
  assumes "client_ok cl"
  shows "heap_room cl n s"
    "at_ok s \<Longrightarrow> \<exists>b s'. work_fn cl f s = Some (b, s') \<and> client_step s s' \<and> (b \<or> raw_trans s' = raw_trans s)"
    "at_ok s \<Longrightarrow> \<exists>s'. sender_fn cl f s = Some s' \<and> client_step s s' \<and> raw_trans s' = raw_trans s"
    "at_ok s \<Longrightarrow> \<exists>s'. cb_fn cl f r s = Some s' \<and> client_step s s'"
    "at_ok s \<Longrightarrow> \<exists>n s'. urc_fn cl f i s = Some (n, s') \<and> client_step s s' \<and> raw_trans s' = raw_trans s"
    "at_ok s \<Longrightarrow> \<exists>s'. exit_fn cl f s = Some s' \<and> client_step s s' \<and> raw_conf s' = raw_conf s"
  using assms unfolding client_ok_def by blast+

text \<open>A command that is over may have entered the transparent mode.\<close>

definition handled :: "bool \<Rightarrow> at_info \<Rightarrow> at_info \<Rightarrow> bool" where
  "handled over s s' \<longleftrightarrow> client_step s s' \<and> (over \<or> raw_trans s' = raw_trans s)"

lemma handled_step: "at_step 0 s s' \<Longrightarrow> handled b s s'" by (simp add: handled_def at_step_def client_step_def)

lemma handled_trans: "at_step 0 s s1 \<Longrightarrow> handled b s1 s' \<Longrightarrow> handled b s s'"
  using at_frame_trans by (auto simp: handled_def client_step_def at_step_def)

lemma do_at_callback_ok:
  assumes cl: "client_ok cl" and ok: "at_ok s" and it: "items s a = Some it"
  shows "\<exists>s'. do_at_callback cl a code s = Some s' \<and> client_step s s'"
proof -
  let ?s0 = "if (code = AT_RESP_ERROR \<or> code = AT_RESP_TIMEOUT) \<and> has_error (adap s)
    then (note_event At_Error s)\<lparr>err_occur := True\<rparr> else s\<lparr>err_occur := False\<rparr>"
  have s0: "at_step 0 s ?s0" using ok by (simp add: at_step_def note_event_def at_frame_refl)
  obtain s1 where s1: "store_response (attr_ctx (item_attr it)) ?s0 = Some s1" "at_step 0 ?s0 s1"
    using store_response_ok [OF at_step_D [OF s0]] by blast
  have f01: "at_step 0 s s1" using at_step_trans [OF s0 s1(2)] .
  obtain it1 where it1: "items s1 a = Some it1" using f01 it by (auto simp: at_step_def at_frame_def)
  obtain s2 where s2: "update_work_state a AT_WORK_STAT_FINISH code s1 = Some s2" "at_step 0 s1 s2"
    using update_work_state_ok [OF at_step_D [OF f01] it1] by blast
  have f02: "at_step 0 s s2" using at_step_trans [OF f01 s2(2)] .
  show ?thesis
  proof (cases "attr_cb (item_attr it)")
    case None
    then have "do_at_callback cl a code s = Some s2"
      using it s1(1) s2(1) by (simp add: do_at_callback_def Let_def cong: if_cong split del: if_split)
    then show ?thesis using f02 by (auto simp: at_step_def client_step_def)
  next
    case (Some f)
    let ?r = "response (item_attr it) code s2"
    have f03: "at_step 0 s (note_event (At_Callback f ?r) s2)" using at_step_trans [OF f02 note_event_step] at_step_D [OF f02] by blast
    obtain s3 where s3: "cb_fn cl f ?r (note_event (At_Callback f ?r) s2) = Some s3"
      "client_step (note_event (At_Callback f ?r) s2) s3"
      using client_okD(4) [OF cl at_step_D [OF f03]] by blast
    have "do_at_callback cl a code s = Some s3"
      using it s1(1) s2(1) Some s3(1) by (simp add: do_at_callback_def Let_def cong: if_cong split del: if_split)
    moreover have "client_step s s3" using f03 s3(2) at_frame_trans by (auto simp: at_step_def client_step_def)
    ultimately show ?thesis by blast
  qed
qed

lemma cmd_done_ok:
  assumes "client_ok cl" "at_ok s" "items s a = Some it"
  shows "\<exists>s'. cmd_done cl a code s = Some (True, s') \<and> handled True s s'"
  using do_at_callback_ok [OF assms, of code] by (auto simp: cmd_done_def handled_def)

end
