(* ===== verification/At_Steps.thy ===== *)
theory At_Steps
  imports At_Inv
begin

text \<open>
  Every step of an AT client keeps its invariant and stays inside its memory: the handlers of the works, the recognition of
  unsolicited messages, the requests, and a poll.
\<close>

subsection \<open>Standard commands\<close>

lemma recv_strstr_ok:
  assumes "k \<le> length (recvbuf s)" "0 \<in> set (drop k (recvbuf s))"
  shows "\<exists>r. recv_strstr k (Some t) s = Some r \<and> (\<forall>j. r = Some j \<longrightarrow> j \<le> length (recvbuf s) \<and> 0 \<in> set (drop j (recvbuf s)))"
proof -
  let ?b = "drop k (recvbuf s)"
  let ?c = "takeWhile (\<lambda>b. b \<noteq> 0) ?b"
  obtain us vs where b: "?b = us @ 0 # vs" "0 \<notin> set us" using split_list_first [OF assms(2)] by blast
  then have "?c = us" by (auto simp: takeWhile_append)
  then have c: "length ?c < length ?b" "?b ! length ?c = 0" using b by simp_all
  have "k + i \<le> length (recvbuf s) \<and> 0 \<in> set (drop (k + i) (recvbuf s))" if "strstr ?c t = Some i" for i
  proof -
    have "i \<le> length ?c" using strstr_bound [OF that] by simp
    then show ?thesis unfolding nul_after using c by (auto intro!: exI [of _ "k + length ?c"])
  qed
  then show ?thesis using assms by (auto simp: recv_strstr_def cstr_def)
qed

lemma cmd_send_ok:
  assumes cl: "client_ok cl" and ok: "at_ok s" and w: "work_ok attr w" "command_work w"
  shows "\<exists>s'. cmd_send cl w s = Some s' \<and> at_step 0 s s'"
proof -
  have data: "at_step 0 s (send_data bs s)" if "at_ok s" for bs s using note_event_step [OF that] by (simp add: send_data_def)
  have line: "at_step 0 s (send_cmdline c s)" for c
    using data [OF ok] at_step_trans [OF data [OF ok] data [OF at_step_D [OF data [OF ok]]]] at_step_refl [OF ok]
    by (auto simp: send_cmdline_def split: option.splits)
  show ?thesis
  proof (cases w)
    case (WORK_TYPE_CUSTOM f)
    then obtain g where "f = Some g" using w(1) by auto
    then show ?thesis using client_okD(3) [OF cl ok, of g] at_step_client WORK_TYPE_CUSTOM by (auto simp: cmd_send_def)
  qed (use w line data [OF ok] in \<open>auto simp: cmd_send_def\<close>)
qed

lemma work_runs_send: "command_work w \<Longrightarrow> env_state s \<noteq> AT_STAT_RECV \<Longrightarrow> work_runs attr w s"
  by (cases w) (simp_all add: work_runs_def)

lemma states_differ [simp]: "AT_STAT_SEND \<noteq> AT_STAT_RECV" "AT_STAT_RETRY \<noteq> AT_STAT_RECV" "(0 :: int) \<noteq> AT_STAT_RECV" "AT_STAT_RECV \<noteq> AT_STAT_SEND"
  by (simp_all add: AT_STAT_SEND_def AT_STAT_RECV_def AT_STAT_RETRY_def)

text \<open>The variables of the running item change so that it still runs.\<close>

lemma env_step:
  assumes "at_ok s" "cursor s = Some a" "items s a = Some it" "work_runs (item_attr it) (item_work it) (s\<lparr>env_i := i, env_state := st, at_prefix := p, match_mask := m\<rparr>)"
  shows "at_step 0 s (s\<lparr>env_i := i, env_state := st, at_prefix := p, match_mask := m\<rparr>)"
proof -
  have "at_ok (s\<lparr>env_i := i, env_state := st, at_prefix := p, match_mask := m\<rparr>)" by (rule at_ok_env [OF assms(1)]) (use assms(2-4) in simp)
  then show ?thesis by (simp add: at_step_def at_frame_refl)
qed

text \<open>The masks are bits.\<close>

lemma mask_zero [simp]:
  "m AND MATCH_MASK_PREFIX = 0 \<longleftrightarrow> \<not> bit m 0" "m AND MATCH_MASK_SUFFIX = 0 \<longleftrightarrow> \<not> bit m 1" "m AND MATCH_MASK_ERROR = 0 \<longleftrightarrow> \<not> bit m 2"
  using and_exp_eq_0_iff_not_bit [of m 0] and_exp_eq_0_iff_not_bit [of m 1] and_exp_eq_0_iff_not_bit [of m 2]
  by (simp_all add: MATCH_MASK_PREFIX_def MATCH_MASK_SUFFIX_def MATCH_MASK_ERROR_def)

lemma mask_bit [simp]:
  "bit (mask_if b MATCH_MASK_PREFIX) k \<longleftrightarrow> b \<and> k = 0" "bit (mask_if b MATCH_MASK_SUFFIX) k \<longleftrightarrow> b \<and> k = 1"
  "bit (mask_if b MATCH_MASK_ERROR) k \<longleftrightarrow> b \<and> k = 2"
proof -
  have "bit (2 :: u8) k \<longleftrightarrow> k = 1" "bit (4 :: u8) k \<longleftrightarrow> k = 2" "bit (1 :: u8) k \<longleftrightarrow> k = 0"
    using bit_exp_iff [of 1 k, where 'a = u8] bit_exp_iff [of 2 k, where 'a = u8] bit_exp_iff [of 0 k, where 'a = u8]
    by (auto simp: bit_1_iff)
  then show "bit (mask_if b MATCH_MASK_PREFIX) k \<longleftrightarrow> b \<and> k = 0" "bit (mask_if b MATCH_MASK_SUFFIX) k \<longleftrightarrow> b \<and> k = 1"
    "bit (mask_if b MATCH_MASK_ERROR) k \<longleftrightarrow> b \<and> k = 2"
    by (simp_all add: mask_if_def MATCH_MASK_PREFIX_def MATCH_MASK_SUFFIX_def MATCH_MASK_ERROR_def)
qed

lemma match_info_init_step:
  assumes ok: "at_ok s" and it: "cursor s = Some a" "items s a = Some it"
  shows "at_step 0 s (match_info_init (item_attr it) s)"
proof -
  let ?m = "match_mask (match_info_init (item_attr it) s)"
  have m: "bit ?m 0 \<longleftrightarrow> attr_prefix (item_attr it) = None \<or> attr_prefix (item_attr it) = Some []"
    using mask_bit(1) [of True 0] mask_bit(2) [of True 0] by (auto simp: match_info_init_def Let_def bit_or_iff mask_if_def)
  have "line_ok cmds (s\<lparr>env_i := env_i s, env_state := env_state s, at_prefix := None, match_mask := ?m\<rparr>) = line_ok cmds s" for cmds
    by (simp add: line_ok_def)
  then have "at_step 0 s (s\<lparr>env_i := env_i s, env_state := env_state s, at_prefix := None, match_mask := ?m\<rparr>)"
    using running_item [OF ok it(1)] it m
    by (intro env_step [OF ok it]) (auto simp: work_runs_def prefix_ok_def mask_ok_def)
  then have "at_ok (s\<lparr>at_prefix := None, match_mask := ?m\<rparr>)" using at_step_D by fastforce
  then have "at_ok (s\<lparr>at_prefix := None, match_mask := ?m, at_suffix := None, match_len := 0\<rparr>)" by simp
  moreover have "match_info_init (item_attr it) s = s\<lparr>at_prefix := None, match_mask := ?m, at_suffix := None, match_len := 0\<rparr>"
    by (simp add: match_info_init_def Let_def)
  ultimately have "at_ok (match_info_init (item_attr it) s)" by simp
  then show ?thesis by (simp add: at_step_def) (simp add: match_info_init_def Let_def at_frame_refl)
qed

lemma cmd_match_ok:
  assumes ok: "at_ok s" and it: "cursor s = Some a" "items s a = Some it" "command_work (item_work it)"
    and suf: "attr_suffix (item_attr it) = Some suf" and st: "env_state s = AT_STAT_RECV"
  shows "\<exists>s'. cmd_match (item_attr it) s = Some s' \<and> at_step 0 s s' \<and> env_state s' = env_state s \<and> env_i s' = env_i s"
proof (cases "match_len s = recv_cnt s")
  case True
  then show ?thesis using at_step_refl [OF ok] by (simp add: cmd_match_def)
next
  case False
  let ?attr = "item_attr it"
  have run: "work_runs ?attr (item_work it) s" "0 \<in> set (recvbuf s)" using running_item [OF ok it(1)] it(2) by auto
  have pok: "prefix_ok s" "\<not> bit (match_mask s) 0 \<longrightarrow> attr_prefix ?attr \<noteq> None" using run(1) it(3) st by (simp_all add: work_runs_def mask_ok_def)
  let ?s0 = "s\<lparr>match_len := recv_cnt s\<rparr>"
  let ?search1 = "if match_mask ?s0 AND MATCH_MASK_PREFIX = 0
      then do { k \<leftarrow> recv_strstr 0 (attr_prefix ?attr) ?s0;
                Some (?s0\<lparr>at_prefix := k, match_mask := match_mask ?s0 OR mask_if (k \<noteq> None) MATCH_MASK_PREFIX\<rparr>) }
      else Some ?s0"
  have s1: "\<exists>p m. ?search1 = Some (?s0\<lparr>at_prefix := p, match_mask := m\<rparr>) \<and> prefix_ok (s\<lparr>at_prefix := p\<rparr>) \<and>
      (bit (match_mask s) 0 \<longrightarrow> bit m 0)"
  proof (cases "bit (match_mask s) 0")
    case False
    then obtain t where t: "attr_prefix ?attr = Some t" using pok(2) by auto
    obtain r where "recv_strstr 0 (Some t) ?s0 = Some r" "\<forall>j. r = Some j \<longrightarrow> j \<le> length (recvbuf s) \<and> 0 \<in> set (drop j (recvbuf s))"
      using recv_strstr_ok [of 0 ?s0 t] run(2) by auto
    then show ?thesis using False t by (auto simp: prefix_ok_def)
  next
    case True
    then show ?thesis using pok by (intro exI [of _ "at_prefix s"] exI [of _ "match_mask s"]) simp
  qed
  then obtain p m where p: "?search1 = Some (?s0\<lparr>at_prefix := p, match_mask := m\<rparr>)" "prefix_ok (s\<lparr>at_prefix := p\<rparr>)"
    "bit (match_mask s) 0 \<longrightarrow> bit m 0" by blast
  let ?s1 = "?s0\<lparr>at_prefix := p, match_mask := m\<rparr>"
  let ?search2 = "if match_mask ?s1 AND MATCH_MASK_PREFIX \<noteq> 0
      then do { k \<leftarrow> recv_strstr (case at_prefix ?s1 of None \<Rightarrow> 0 | Some p \<Rightarrow> p) (attr_suffix ?attr) ?s1;
                Some (?s1\<lparr>at_suffix := k, match_mask := match_mask ?s1 OR mask_if (k \<noteq> None) MATCH_MASK_SUFFIX\<rparr>) }
      else Some ?s1"
  have "\<exists>q n. ?search2 = Some (?s1\<lparr>at_suffix := q, match_mask := n\<rparr>) \<and> (bit m 0 \<longrightarrow> bit n 0)"
  proof (cases "bit m 0")
    case True
    let ?k = "case p of None \<Rightarrow> 0 | Some p \<Rightarrow> p"
    have "?k \<le> length (recvbuf ?s1)" "0 \<in> set (drop ?k (recvbuf ?s1))" using p(2) run(2) by (auto simp: prefix_ok_def split: option.splits)
    then obtain r where "recv_strstr ?k (Some suf) ?s1 = Some r" using recv_strstr_ok by blast
    then show ?thesis
      using True suf by (intro exI [of _ r] exI [of _ "m OR mask_if (r \<noteq> None) MATCH_MASK_SUFFIX"]) (simp add: bit_or_iff)
  next
    case False
    then show ?thesis by (intro exI [of _ "at_suffix s"] exI [of _ m]) simp
  qed
  then obtain q n where q: "?search2 = Some (?s1\<lparr>at_suffix := q, match_mask := n\<rparr>)" "bit m 0 \<longrightarrow> bit n 0" by blast
  let ?s2 = "?s1\<lparr>at_suffix := q, match_mask := n\<rparr>"
  obtain e where e: "recv_strstr 0 (Some AT_DEF_RESP_ERR) ?s2 = Some e" using recv_strstr_ok [of 0 ?s2] run(2) by auto
  let ?n = "n OR mask_if (e \<noteq> None) MATCH_MASK_ERROR"
  let ?s3 = "?s2\<lparr>match_mask := match_mask ?s2 OR mask_if (e \<noteq> None) MATCH_MASK_ERROR\<rparr>"
  have "cmd_match ?attr s = Some ?s3"
    using False p(1) q(1) e unfolding cmd_match_def Let_def by (simp only: if_False Option.bind.bind_lunit)
  moreover have "at_step 0 s ?s3"
  proof -
    let ?b = "s\<lparr>match_len := recv_cnt s, at_suffix := q\<rparr>"
    have "\<not> bit ?n 0 \<longrightarrow> attr_prefix ?attr \<noteq> None" using p(3) q(2) pok(2) by (auto simp: bit_or_iff)
    then have "work_runs ?attr (item_work it) (?b\<lparr>env_i := env_i s, env_state := env_state s, at_prefix := p, match_mask := ?n\<rparr>)"
      using p(2) it(3) by (cases "item_work it") (simp_all add: work_runs_def prefix_ok_def mask_ok_def)
    then have "at_step 0 ?b (?b\<lparr>env_i := env_i s, env_state := env_state s, at_prefix := p, match_mask := ?n\<rparr>)"
      using ok it by (intro env_step) simp_all
    moreover have "?b\<lparr>env_i := env_i s, env_state := env_state s, at_prefix := p, match_mask := ?n\<rparr> = ?s3" by simp
    ultimately have "at_step 0 ?b ?s3" by (simp only:)
    then have "at_ok ?s3" by (rule at_step_D)
    then show ?thesis by (simp add: at_step_def at_frame_refl)
  qed
  ultimately show ?thesis by (intro exI [of _ ?s3]) simp
qed

text \<open>A step that only sets variables of the running item which no search depends on.\<close>

lemma var_step:
  assumes ok: "at_ok s" and it: "cursor s = Some a" "items s a = Some it"
    and r: "work_runs (item_attr it) (item_work it) (s\<lparr>env_i := i, env_state := st\<rparr>)"
  shows "at_step 0 s (s\<lparr>env_i := i, env_state := st\<rparr>)"
proof -
  have "work_runs (item_attr it) (item_work it) (s\<lparr>env_i := i, env_state := st, at_prefix := at_prefix s, match_mask := match_mask s\<rparr>)"
    using r by (simp add: work_runs_def prefix_ok_def mask_ok_def line_ok_def)
  from env_step [OF ok it this] have "at_ok (s\<lparr>env_i := i, env_state := st\<rparr>)" by (simp add: at_step_def)
  then show ?thesis by (simp add: at_step_def at_frame_refl)
qed

lemma command_var_step:
  assumes "at_ok s" "cursor s = Some a" "items s a = Some it" "command_work (item_work it)"
  shows "st \<noteq> AT_STAT_RECV \<Longrightarrow> at_step 0 s (s\<lparr>env_i := i, env_state := st\<rparr>)" "at_step 0 s (s\<lparr>env_i := i\<rparr>)"
proof -
  show "st \<noteq> AT_STAT_RECV \<Longrightarrow> at_step 0 s (s\<lparr>env_i := i, env_state := st\<rparr>)"
    by (rule var_step [OF assms(1-3)]) (simp add: work_runs_send assms(4))
  have "work_runs (item_attr it) (item_work it) s" using running_item [OF assms(1,2)] assms(3) by auto
  then have "work_runs (item_attr it) (item_work it) (s\<lparr>env_i := i, env_state := env_state s\<rparr>)"
    using assms(4) by (cases "item_work it") (simp_all add: work_runs_def prefix_ok_def mask_ok_def)
  from var_step [OF assms(1-3) this] have "at_ok (s\<lparr>env_i := i\<rparr>)" by (simp add: at_step_def)
  then show "at_step 0 s (s\<lparr>env_i := i\<rparr>)" by (simp add: at_step_def at_frame_refl)
qed

lemma at_frame_item:
  assumes "at_frame s s'" "cursor s = Some a" "items s a = Some it"
  obtains it' where "cursor s' = Some a" "items s' a = Some it'" "item_attr it' = item_attr it" "item_work it' = item_work it"
  using assms unfolding at_frame_def by metis

lemma at_step_frame: "at_step x s s' \<Longrightarrow> at_frame s s'" by (simp add: at_step_def)

lemma done_after:
  assumes "client_ok cl" "at_step 0 s s1" "cursor s = Some a" "items s a = Some it"
  shows "\<exists>s'. cmd_done cl a code s1 = Some (True, s') \<and> handled True s s'"
proof -
  obtain it' where "items s1 a = Some it'" using at_frame_item [OF at_step_frame [OF assms(2)] assms(3,4)] by metis
  from cmd_done_ok [OF assms(1) at_step_D [OF assms(2)] this] show ?thesis using handled_trans [OF assms(2)] by blast
qed

lemma cmd_recv_ok:
  assumes cl: "client_ok cl" and ok: "at_ok s" and it: "cursor s = Some a" "items s a = Some it" "command_work (item_work it)"
    and st: "env_state s = AT_STAT_RECV"
  shows "\<exists>over s'. cmd_recv cl a (item_attr it) s = Some (over, s') \<and> handled over s s'"
proof -
  let ?attr = "item_attr it"
  have "work_ok ?attr (item_work it)" using running_item [OF ok it(1)] it(2) by auto
  then obtain suf where suf: "attr_suffix ?attr = Some suf" using it(3) by (cases "item_work it") auto
  obtain s1 where s1: "cmd_match ?attr s = Some s1" "at_step 0 s s1" using cmd_match_ok [OF ok it suf st] by blast
  obtain it1 where it1: "cursor s1 = Some a" "items s1 a = Some it1" "item_work it1 = item_work it"
    using at_frame_item [OF at_step_frame [OF s1(2)] it(1,2)] by metis
  have c1: "command_work (item_work it1)" using it(3) it1(3) by simp
  have ok1: "at_ok s1" using s1(2) by (rule at_step_D)
  note var = command_var_step [OF ok1 it1(1,2) c1]
  have done1: "\<exists>s'. cmd_done cl a code s2 = Some (True, s') \<and> handled True s s'" if "at_step 0 s1 s2" for code s2
    using done_after [OF cl at_step_trans [OF s1(2) that] it(1,2)] .
  let ?err = "match_mask s1 AND MATCH_MASK_ERROR \<noteq> 0"
  have eq: "cmd_recv cl a ?attr s =
      (if ?err \<and> env_i s1 \<ge> uint (attr_retry ?attr) then cmd_done cl a AT_RESP_ERROR (s1\<lparr>env_i := env_i s1 + 1\<rparr>)
       else let s2 = (if ?err then at_reset_timer (s1\<lparr>env_i := env_i s1 + 1, env_state := AT_STAT_RETRY\<rparr>) else s1) in
         if match_mask s2 AND MATCH_MASK_SUFFIX \<noteq> 0 then cmd_done cl a AT_RESP_OK s2
         else if at_is_timeout (ucast (attr_timeout ?attr)) s2
         then if env_i s2 \<ge> uint (attr_retry ?attr) then cmd_done cl a AT_RESP_TIMEOUT (s2\<lparr>env_i := env_i s2 + 1\<rparr>)
              else Some (False, s2\<lparr>env_i := env_i s2 + 1, env_state := AT_STAT_SEND\<rparr>)
         else Some (False, s2))"
    unfolding cmd_recv_def s1(1) by (simp add: Let_def)
  show ?thesis
  proof (cases "?err \<and> env_i s1 \<ge> uint (attr_retry ?attr)")
    case True
    obtain s' where "cmd_done cl a AT_RESP_ERROR (s1\<lparr>env_i := env_i s1 + 1\<rparr>) = Some (True, s')" "handled True s s'"
      using done1 [OF var(2) [of "env_i s1 + 1"], of AT_RESP_ERROR] by blast
    then show ?thesis unfolding eq using True by auto
  next
    case False
    obtain s2 where s2_eq: "s2 = (if ?err then at_reset_timer (s1\<lparr>env_i := env_i s1 + 1, env_state := AT_STAT_RETRY\<rparr>) else s1)" by blast
    have s2: "at_step 0 s1 s2"
    proof (cases ?err)
      case True
      have "at_ok (s1\<lparr>env_i := env_i s1 + 1, env_state := AT_STAT_RETRY\<rparr>)" by (rule at_step_D [OF var(1)]) simp
      then show ?thesis using True by (simp add: s2_eq at_step_def at_reset_timer_def at_frame_refl)
    qed (simp add: s2_eq at_step_refl ok1)
    have ok2: "at_ok s2" using s2 by (rule at_step_D)
    obtain it2 where it2: "cursor s2 = Some a" "items s2 a = Some it2" "item_work it2 = item_work it1"
      using at_frame_item [OF at_step_frame [OF s2] it1(1,2)] by metis
    have c2: "command_work (item_work it2)" using c1 it2(3) by simp
    note var2 = command_var_step [OF ok2 it2(1,2) c2]
    have h: "handled False s s'" if "at_step 0 s2 s'" for s'
      using handled_step [OF at_step_trans [OF s1(2) at_step_trans [OF s2 that]]] .
    have h': "handled False s s2" "handled False s (s2\<lparr>env_i := env_i s2 + 1, env_state := AT_STAT_SEND\<rparr>)"
      using h [OF at_step_refl [OF ok2]] h [OF var2(1)] by simp_all
    obtain s3 where s3: "cmd_done cl a AT_RESP_OK s2 = Some (True, s3)" "handled True s s3" using done1 [OF s2] by blast
    obtain s4 where s4: "cmd_done cl a AT_RESP_TIMEOUT (s2\<lparr>env_i := env_i s2 + 1\<rparr>) = Some (True, s4)" "handled True s s4"
      using done1 [OF at_step_trans [OF s2 var2(2) [of "env_i s2 + 1"]], of AT_RESP_TIMEOUT] by blast
    have "cmd_recv cl a ?attr s =
        (if match_mask s2 AND MATCH_MASK_SUFFIX \<noteq> 0 then Some (True, s3)
         else if at_is_timeout (ucast (attr_timeout ?attr)) s2
         then if env_i s2 \<ge> uint (attr_retry ?attr) then Some (True, s4)
              else Some (False, s2\<lparr>env_i := env_i s2 + 1, env_state := AT_STAT_SEND\<rparr>)
         else Some (False, s2))"
      unfolding eq s2_eq [symmetric] if_not_P [OF False] Let_def s3(1) s4(1) ..
    then show ?thesis using h' s3(2) s4(2) by (simp split: if_split) blast
  qed
qed

text \<open>After the sending the buffer is cleared, and the search begins anew.\<close>

lemma send_then_recv:
  assumes ok: "at_ok s" and it: "cursor s = Some a" "items s a = Some it"
    and w: "command_work (item_work it) \<or> (\<exists>cmds. item_work it = WORK_TYPE_MULTILINE cmds \<and> 0 \<le> env_i s \<and> env_i s < int (length cmds))"
  shows "\<exists>s'. recvbuf_clear (at_reset_timer (s\<lparr>env_state := AT_STAT_RECV\<rparr>)) = Some s' \<and>
    at_step 0 s (match_info_init (item_attr it) s')"
proof -
  let ?f = "match_info_init (item_attr it)"
  have f1: "at_step 0 s (?f s)" by (rule match_info_init_step [OF ok it])
  have ok1: "at_ok (?f s)" using f1 by (rule at_step_D)
  have it1: "cursor (?f s) = Some a" "items (?f s) a = Some it" using it by (simp_all add: match_info_init_def Let_def)
  have "work_runs (item_attr it) (item_work it) ((?f s)\<lparr>env_i := env_i (?f s), env_state := AT_STAT_RECV\<rparr>)"
    using w mask_bit(1) [of True 0] by (auto simp: work_runs_def prefix_ok_def mask_ok_def line_ok_def match_info_init_def Let_def bit_or_iff mask_if_def)
  from var_step [OF ok1 it1 this] have f2: "at_ok ((?f s)\<lparr>env_state := AT_STAT_RECV\<rparr>)" by (simp add: at_step_def)
  let ?s2 = "at_reset_timer ((?f s)\<lparr>env_state := AT_STAT_RECV\<rparr>)"
  have ok2: "at_ok ?s2" using f2 by (simp add: at_reset_timer_def)
  obtain s3 where s3: "recvbuf_clear ?s2 = Some s3" "at_step 0 ?s2 s3" using recvbuf_clear_ok [OF ok2] by blast
  have len: "0 < length (recvbuf s)" using at_ok_D(1) [OF ok] by (simp add: recv_ok_def)
  let ?s' = "(at_reset_timer (s\<lparr>env_state := AT_STAT_RECV\<rparr>))\<lparr>recvbuf := (recvbuf s)[0 := 0], recv_cnt := 0\<rparr>"
  have "recvbuf_clear (at_reset_timer (s\<lparr>env_state := AT_STAT_RECV\<rparr>)) = Some ?s'"
    using len by (simp add: recvbuf_clear_def at_reset_timer_def)
  moreover have "?f ?s' = s3" using s3(1) len by (simp add: recvbuf_clear_def at_reset_timer_def match_info_init_def Let_def split del: if_split) (elim subst, simp split del: if_split)
  moreover have "at_step 0 s ?s2" using f1 ok2 by (simp add: at_step_def at_reset_timer_def)
  ultimately show ?thesis using at_step_trans [OF _ s3(2)] by auto
qed

text \<open>A command is sent, waits for its response, or waits to be sent again.\<close>

lemma do_cmd_handler_ok:
  assumes cl: "client_ok cl" and ok: "at_ok s" and it: "cursor s = Some a" "items s a = Some it" "command_work (item_work it)"
  shows "\<exists>over s'. do_cmd_handler cl a s = Some (over, s') \<and> handled over s s'"
proof -
  let ?attr = "item_attr it"
  note var = command_var_step [OF ok it]
  consider (send) "env_state s = AT_STAT_SEND" | (recv) "env_state s = AT_STAT_RECV" | (other) "env_state s \<noteq> AT_STAT_SEND" "env_state s \<noteq> AT_STAT_RECV"
    by blast
  then show ?thesis
  proof cases
    case send
    have w: "work_ok ?attr (item_work it)" using running_item [OF ok it(1)] it(2) by auto
    obtain s1 where s1: "cmd_send cl (item_work it) s = Some s1" "at_step 0 s s1" using cmd_send_ok [OF cl ok w it(3)] by blast
    obtain it1 where it1: "cursor s1 = Some a" "items s1 a = Some it1" "item_attr it1 = ?attr" "item_work it1 = item_work it"
      using at_frame_item [OF at_step_frame [OF s1(2)] it(1,2)] by metis
    obtain s2 where s2: "recvbuf_clear (at_reset_timer (s1\<lparr>env_state := AT_STAT_RECV\<rparr>)) = Some s2" "at_step 0 s1 (match_info_init ?attr s2)"
      using send_then_recv [OF at_step_D [OF s1(2)] it1(1,2)] it(3) it1(3,4) by metis
    have "do_cmd_handler cl a s = Some (False, match_info_init ?attr s2)"
      unfolding do_cmd_handler_def using it(2) send s1(1) s2(1) by (simp add: Let_def)
    then show ?thesis using handled_step [OF at_step_trans [OF s1(2) s2(2)]] by blast
  next
    case recv
    then show ?thesis using cmd_recv_ok [OF cl ok it recv] it(2) by (simp add: do_cmd_handler_def)
  next
    case other
    have "at_step 0 s (s\<lparr>env_state := AT_STAT_SEND\<rparr>)"
      using var(1) [of AT_STAT_SEND "env_i s"] by simp
    then show ?thesis using other it(2) handled_step at_step_refl [OF ok] by (auto simp: do_cmd_handler_def Let_def)
  qed
qed

subsection \<open>Commands of several lines\<close>

lemma recvbuf_clear_later:
  "recvbuf_clear s = Some s' \<Longrightarrow>
    recvbuf_clear (at_reset_timer (s\<lparr>env_state := st\<rparr>)) = Some ((at_reset_timer s')\<lparr>env_state := st\<rparr>)"
  by (auto simp: recvbuf_clear_def at_reset_timer_def wr_def split: if_splits)

lemma send_cmdline_step: "at_ok s \<Longrightarrow> at_step 0 s (send_cmdline c s)"
  by (simp add: send_cmdline_def send_data_def note_event_def at_step_def at_frame_refl split: option.splits)

lemma multi_send_ok:
  assumes cl: "client_ok cl" and ok: "at_ok s" and it: "cursor s = Some a" "items s a = Some it" "item_work it = WORK_TYPE_MULTILINE cmds"
  shows "\<exists>over s'. multi_send cl a (item_attr it) cmds s = Some (over, s') \<and> handled over s s'"
proof -
  have l: "0 \<le> env_i s" "env_i s \<le> int (length cmds)" using running_item [OF ok it(1)] it(2,3) by (auto simp: work_runs_def line_ok_def)
  show ?thesis
  proof (cases "env_i s = int (length cmds)")
    case True
    then show ?thesis
      using cmd_done_ok [OF cl ok it(2), of AT_RESP_OK] cmd_done_ok [OF cl ok it(2), of AT_RESP_ERROR] by (auto simp: multi_send_def ex_bool_eq)
  next
    case False
    then have c: "nat (env_i s) < length cmds" "env_i s < int (length cmds)" using l by auto
    let ?s1 = "send_cmdline (Some (cmds ! nat (env_i s))) s"
    have s1: "at_step 0 s ?s1" by (rule send_cmdline_step [OF ok])
    obtain s2 where s2: "recvbuf_clear ?s1 = Some s2" using recvbuf_clear_ok [OF at_step_D [OF s1]] by blast
    have it1: "cursor ?s1 = Some a" "items ?s1 a = Some it" "env_i ?s1 = env_i s"
      using it by (simp_all add: send_cmdline_def send_data_def note_event_def)
    have "at_step 0 ?s1 (match_info_init (item_attr it) ((at_reset_timer s2)\<lparr>env_state := AT_STAT_RECV\<rparr>))"
      using send_then_recv [OF at_step_D [OF s1] it1(1,2)] recvbuf_clear_later [OF s2] it(3) it1(3) l(1) c(2) by auto
    then have "handled False s (match_info_init (item_attr it) ((at_reset_timer s2)\<lparr>env_state := AT_STAT_RECV\<rparr>))"
      using handled_step [OF at_step_trans [OF s1]] by blast
    then show ?thesis using False l(1) c(1) s2 by (simp add: multi_send_def ex_bool_eq)
  qed
qed

lemma multi_recv_ok:
  assumes cl: "client_ok cl" and ok: "at_ok s" and it: "cursor s = Some a" "items s a = Some it" "item_work it = WORK_TYPE_MULTILINE cmds"
    and st: "env_state s = AT_STAT_RECV"
  shows "\<exists>over s'. multi_recv cl a (item_attr it) s = Some (over, s') \<and> handled over s s'"
proof -
  have r: "work_ok (item_attr it) (item_work it)" "0 \<in> set (recvbuf s)" and l: "0 \<le> env_i s" "env_i s < int (length cmds)"
    using running_item [OF ok it(1)] it(2,3) st by (auto simp: work_runs_def line_ok_def)
  then obtain suf where suf: "attr_suffix (item_attr it) = Some suf" using it(3) by auto
  obtain k e where k: "find_substr (Some suf) s = Some k" "find_substr (Some AT_DEF_RESP_ERR) s = Some e"
    using recv_strstr_ok [of 0 s] r(2) unfolding find_substr_def by fastforce
  have runs: "work_runs (item_attr it) (item_work it) (s\<lparr>env_i := i, env_state := st\<rparr>)"
    if "i = env_i s \<or> i = env_i s + 1" "st \<noteq> AT_STAT_RECV" for i st
    using that l it(3) by (auto simp: work_runs_def line_ok_def)
  have step: "at_ok (s\<lparr>env_i := i, env_state := st\<rparr>)" if "i = env_i s \<or> i = env_i s + 1" "st \<noteq> AT_STAT_RECV" for i st
    using var_step [OF ok it(1,2) runs [OF that]] by (rule at_step_D)
  have next_line: "handled False s (s\<lparr>env_state := 0, env_i := env_i s + 1, env_j := j, env_params := p\<rparr>)" for j p
  proof -
    have "s\<lparr>env_state := 0, env_i := env_i s + 1\<rparr> = s\<lparr>env_i := env_i s + 1, env_state := 0\<rparr>" by simp
    then have "at_ok (s\<lparr>env_state := 0, env_i := env_i s + 1\<rparr>)" using step [of "env_i s + 1" 0] by (simp only: simp_thms states_differ)
    then show ?thesis by (intro handled_step) (simp add: at_step_def at_frame_refl)
  qed
  have again: "handled False s (at_reset_timer (s\<lparr>env_j := j, env_state := AT_STAT_RETRY\<rparr>))" for j
  proof -
    have "s\<lparr>env_j := j, env_state := AT_STAT_RETRY\<rparr> = s\<lparr>env_i := env_i s, env_state := AT_STAT_RETRY, env_j := j\<rparr>" by simp
    then have "at_ok (s\<lparr>env_j := j, env_state := AT_STAT_RETRY\<rparr>)"
      using step [of "env_i s" AT_STAT_RETRY] by (simp only: at_ok_upd simp_thms states_differ)
    then show ?thesis by (intro handled_step) (simp add: at_step_def at_frame_refl at_reset_timer_def)
  qed
  obtain s' where s': "cmd_done cl a AT_RESP_TIMEOUT s = Some (True, s')" "handled True s s'" using cmd_done_ok [OF cl ok it(2)] by blast
  have fail: "handled False s (s\<lparr>env_state := 0, env_j := j, env_i := env_i s + 1\<rparr>)" for j
  proof -
    have "s\<lparr>env_state := 0, env_j := j, env_i := env_i s + 1\<rparr> =
        s\<lparr>env_state := 0, env_i := env_i s + 1, env_j := j, env_params := env_params s\<rparr>" by simp
    then show ?thesis using next_line [where j = j and p = "env_params s"] by (simp only:)
  qed
  show ?thesis
    using suf k s' next_line [where j = 0 and p = 1] again [of "env_j s + 1"] fail [of 0] handled_step [OF at_step_refl [OF ok]]
    by (cases "k = None"; cases "e = None"; cases "at_is_timeout (ucast AT_DEF_TIMEOUT) s"; cases "env_j s + 1 \<ge> uint (attr_retry (item_attr it))")
      (simp_all add: multi_recv_def Let_def ex_bool_eq)
qed

lemma send_multiline_handler_ok:
  assumes cl: "client_ok cl" and ok: "at_ok s" and it: "cursor s = Some a" "items s a = Some it" "item_work it = WORK_TYPE_MULTILINE cmds"
  shows "\<exists>over s'. send_multiline_handler cl a cmds s = Some (over, s') \<and> handled over s s'"
proof -
  have "work_runs (item_attr it) (item_work it) s" using running_item [OF ok it(1)] it(2) by auto
  then have "work_runs (item_attr it) (item_work it) (s\<lparr>env_i := env_i s, env_state := AT_STAT_SEND\<rparr>)"
    using it(3) by (simp add: work_runs_def line_ok_def)
  from var_step [OF ok it(1,2) this] have "handled False s (s\<lparr>env_state := AT_STAT_SEND\<rparr>)" by (intro handled_step) simp
  moreover have "handled False s s" by (intro handled_step at_step_refl ok)
  moreover have "\<exists>over s'. multi_recv cl a (item_attr it) s = Some (over, s') \<and> handled over s s'" if "env_state s = AT_STAT_RECV"
    using multi_recv_ok [OF cl ok it that] .
  ultimately show ?thesis
    using multi_send_ok [OF cl ok it] it(2) by (simp add: send_multiline_handler_def ex_bool_eq)
qed

subsection \<open>Works\<close>

lemma do_work_handler_ok:
  assumes cl: "client_ok cl" and ok: "at_ok s"
  shows "\<exists>over s'. do_work_handler cl f s = Some (over, s') \<and> handled over s s'"
proof -
  have "\<exists>over s'. work_fn cl f s1 = Some (over, s') \<and> handled over s s'" if "at_step 0 s s1" for s1
    using client_okD(2) [OF cl at_step_D [OF that], of f] handled_trans [OF that] by (auto simp: handled_def)
  moreover have "at_step 0 s (s\<lparr>next_delay := 0\<rparr>)" using ok by (simp add: at_step_def at_frame_refl)
  ultimately show ?thesis
    using at_step_refl [OF ok] handled_step by (auto simp: do_work_handler_def)
qed

lemma work_handler_ok:
  assumes cl: "client_ok cl" and ok: "at_ok s" and it: "cursor s = Some a" "items s a = Some it"
  shows "\<exists>over s'. work_handler cl a s = Some (over, s') \<and> handled over s s'"
  using do_work_handler_ok [OF cl ok] send_multiline_handler_ok [OF cl ok it] do_cmd_handler_ok [OF cl ok it] it(2)
  by (cases "item_work it") (simp_all add: work_handler_def)

lemma at_work_next_in: "at_work_next s = Some a \<Longrightarrow> (\<exists>as. hlist s = a # as) \<or> (\<exists>as. llist s = a # as)"
  by (auto simp: at_work_next_def split: list.splits)

lemma at_work_start_ok:
  assumes ok: "at_ok s" and c: "cursor s = None" "at_work_next s = Some a"
  shows "\<exists>s'. at_work_start a s = Some s' \<and> at_ok s' \<and> cursor s' = Some a \<and> raw_trans s' = raw_trans s \<and> hlist s' = hlist s \<and> llist s' = llist s"
proof -
  have "a \<in> set (queue s)" using at_work_next_in [OF c(2)] by (auto simp: queue_def)
  then obtain it where it: "items s a = Some it" using queued_item [OF ok] by blast
  let ?s1 = "s\<lparr>next_delay := 0, env_i := 0, env_j := 0, env_state := 0, cursor := Some a, env_params := attr_params (item_attr it)\<rparr>"
  have len: "0 < length (recvbuf s)" using at_ok_D(1) [OF ok] by (simp add: recv_ok_def)
  let ?s2 = "at_reset_timer (?s1\<lparr>recvbuf := (recvbuf s)[0 := 0], recv_cnt := 0\<rparr>)"
  have "0 \<in> set ((recvbuf s)[0 := 0])" using len by (cases "recvbuf s") auto
  then have "run_ok ?s2" using it by (simp add: run_ok_def work_runs_def line_ok_def at_reset_timer_def)
  moreover have "cursor_ok ?s2" using at_work_next_in [OF c(2)] by (simp add: cursor_ok_def at_reset_timer_def)
  ultimately have "at_ok (s\<lparr>env_i := 0, env_state := 0, cursor := Some a, recvbuf := (recvbuf s)[0 := 0], recv_cnt := 0\<rparr>)"
    using at_ok_D [OF ok] unfolding at_ok'_def
    by (simp add: recv_ok_def items_ok_def queue_ok_def urc_ok_def ctx_ok_def mem_ok_def cursor_ok_def run_ok_def work_runs_def line_ok_def at_reset_timer_def)
  then have "at_ok (s\<lparr>env_i := 0, env_state := 0, cursor := Some a, recvbuf := (recvbuf s)[0 := 0], recv_cnt := 0, timer := at_ms s,
      next_delay := 0, env_j := 0, env_params := attr_params (item_attr it)\<rparr>)" by simp
  moreover have "?s2 = s\<lparr>env_i := 0, env_state := 0, cursor := Some a, recvbuf := (recvbuf s)[0 := 0], recv_cnt := 0, timer := at_ms s,
      next_delay := 0, env_j := 0, env_params := attr_params (item_attr it)\<rparr>" by (simp add: at_reset_timer_def)
  ultimately have ok2: "at_ok ?s2" by (simp only:)
  have it2: "items ?s2 a = Some it" using it by (simp add: at_reset_timer_def)
  obtain s3 where s3: "update_work_state a AT_WORK_STAT_RUN (item_code it) ?s2 = Some s3" "at_step 0 ?s2 s3"
    "hlist s3 = hlist ?s2 \<and> llist s3 = llist ?s2"
    using update_work_state_ok [OF ok2 it2] by blast
  then have q3: "hlist s3 = hlist s \<and> llist s3 = llist s" by (simp add: at_reset_timer_def)
  have "at_work_start a s = (if item_state it = AT_WORK_STAT_READY then Some s3 else Some ?s2)"
    unfolding s3(1) [symmetric] using it len by (simp add: at_work_start_def recvbuf_clear_def Let_def)
  moreover have "cursor s3 = Some a" "raw_trans s3 = raw_trans s" using s3(2) by (simp_all add: at_step_def at_frame_def at_reset_timer_def)
  ultimately show ?thesis using ok2 at_step_D [OF s3(2)] q3 by (simp add: at_reset_timer_def)
qed

text \<open>The item at the head of its queue is released.\<close>

lemma remove_head: "distinct (queue s) \<Longrightarrow> cursor_ok s \<Longrightarrow> cursor s = Some a \<Longrightarrow>
    queue (s\<lparr>hlist := remove1 a (hlist s), llist := remove1 a (llist s)\<rparr>) = remove1 a (queue s)"
  by (auto simp: queue_def cursor_ok_def remove1_append remove1_idem)

lemma work_item_recycle_ok:
  assumes ok: "at_ok s" and c: "cursor s = Some a"
  shows "\<exists>s'. work_item_recycle a s = Some s' \<and> at_ok (s'\<lparr>cursor := None\<rparr>) \<and>
    hlist s' = remove1 a (hlist s) \<and> llist s' = remove1 a (llist s) \<and> items s' = (items s)(a := None) \<and> recvbuf s' = recvbuf s"
proof -
  obtain it where it: "items s a = Some it" using running_item [OF ok c] by blast
  have q: "distinct (queue s)" "set (queue s) = dom (items s)" "length (queue s) \<le> 33" "unat (list_cnt s) = length (queue s)"
    "\<forall>b \<in> set (queue s). b < next_addr s" using at_ok_D(4) [OF ok] by (simp_all add: queue_ok_def)
  have a: "a \<in> set (queue s)" using q(2) it by blast
  then have pos: "0 < length (queue s)" by (cases "queue s") auto
  then have n: "list_cnt s \<noteq> 0" "unat (list_cnt s - 1) = length (queue s) - 1"
    using q(4) unat_sub_le [of 1 "list_cnt s"] by (auto simp: word_le_nat_alt Suc_le_eq)
  let ?s1 = "s\<lparr>list_cnt := list_cnt s - 1, hlist := remove1 a (hlist s), llist := remove1 a (llist s)\<rparr>"
  let ?s' = "at_core_free (item_size it) (?s1\<lparr>items := (items s)(a := None)\<rparr>)"
  let ?t = "?s'\<lparr>cursor := None\<rparr>"
  have qt: "queue ?t = remove1 a (queue s)"
    using remove_head [OF q(1) at_ok_D(5) [OF ok] c] by (simp add: queue_def at_core_free_def)
  have set_t: "set (remove1 a (queue s)) = set (queue s) - {a}" using q(1) by (simp add: set_remove1_eq)
  have "(\<Sum>b\<leftarrow>remove1 a (queue s). unat (item_size (the (items ?t b)))) = (\<Sum>b\<leftarrow>remove1 a (queue s). unat (item_size (the (items s b))))"
    by (intro arg_cong [of _ _ sum_list] map_cong) (use set_t in \<open>auto simp: at_core_free_def\<close>)
  moreover have "(\<Sum>b\<leftarrow>queue s. unat (item_size (the (items s b)))) =
      unat (item_size it) + (\<Sum>b\<leftarrow>remove1 a (queue s). unat (item_size (the (items s b))))"
    using sum_list_map_remove1 [OF a, of "\<lambda>b. unat (item_size (the (items s b)))"] it by simp
  ultimately have used: "mem_used s = mem_used ?t + unat (item_size it)"
    unfolding mem_used_def qt by (simp add: at_core_free_def)
  have m: "unat (at_cur_mem s) = mem_used s" "mem_used s \<le> 6144" using at_ok_D(8) [OF ok] by (simp_all add: mem_ok_def)
  then have "unat (at_cur_mem s - item_size it) = mem_used ?t" using used unat_sub_le [of "item_size it" "at_cur_mem s"] by (simp add: word_le_nat_alt)
  then have "mem_ok 0 ?t" using m used by (simp add: mem_ok_def) (simp add: at_core_free_def)
  moreover have "queue_ok ?t"
    unfolding queue_ok_def qt using q set_t n pos a by (auto simp: at_core_free_def length_remove1 distinct_remove1)
  moreover have "recv_ok ?t" "items_ok ?t" "run_ok ?t" "cursor_ok ?t" "urc_ok ?t" "ctx_ok ?t"
    using at_ok_D [OF ok] by (simp_all add: recv_ok_def items_ok_def run_ok_def cursor_ok_def urc_ok_def ctx_ok_def at_core_free_def)
  ultimately have "at_ok ?t" by (simp add: at_ok'_def)
  moreover have "work_item_recycle a s = Some ?s'" using n(1) it by (simp add: work_item_recycle_def work_item_destroy_def Let_def)
  ultimately show ?thesis by (simp add: at_core_free_def)
qed

lemma at_work_end_ok:
  assumes ok: "at_ok s" and c: "cursor s = Some a"
  shows "\<exists>s'. at_work_end a s = Some s' \<and> at_ok s' \<and> cursor s' = None \<and>
    hlist s' = remove1 a (hlist s) \<and> llist s' = remove1 a (llist s)"
proof -
  obtain it where it: "items s a = Some it" using running_item [OF ok c] by blast
  obtain s1 where s1: "update_work_state a AT_WORK_STAT_FINISH (item_code it) s = Some s1" "at_step 0 s s1" "hlist s1 = hlist s \<and> llist s1 = llist s"
    using update_work_state_ok [OF ok it] by blast
  let ?s2 = "if item_state it = AT_WORK_STAT_RUN then s1 else s"
  have s2: "at_ok ?s2" "cursor ?s2 = Some a" "hlist ?s2 = hlist s" "llist ?s2 = llist s"
    using ok c s1 by (auto simp: at_step_def at_frame_def)
  obtain s3 where "work_item_recycle a ?s2 = Some s3" "at_ok (s3\<lparr>cursor := None\<rparr>)" "hlist s3 = remove1 a (hlist s)" "llist s3 = remove1 a (llist s)"
    using work_item_recycle_ok [OF s2(1,2)] s2(3,4) by metis
  then show ?thesis using it s1(1) by (simp add: at_work_end_def split: if_splits)
qed

text \<open>A poll of the running item: it goes on, or it is released.\<close>

lemma at_work_run_ok:
  assumes cl: "client_ok cl" and ok: "at_ok s" and c: "cursor s = Some a" and raw: "\<not> raw_trans s"
  shows "\<exists>s'. at_work_run cl a s = Some s' \<and> at_inv s'"
proof -
  obtain it where it: "items s a = Some it" using running_item [OF ok c] by blast
  obtain over s1 where s1: "(if work_over it then Some (True, s) else work_handler cl a s) = Some (over, s1)" "handled over s s1"
    using work_handler_ok [OF cl ok c it] handled_step [OF at_step_refl [OF ok], of True] by (cases "work_over it") auto
  have ok1: "at_ok s1" "cursor s1 = Some a" using s1(2) c by (simp_all add: handled_def client_step_def at_frame_def)
  show ?thesis
  proof (cases over)
    case True
    obtain s2 where "at_work_end a s1 = Some s2" "at_ok s2" "cursor s2 = None" using at_work_end_ok [OF ok1] by blast
    then show ?thesis using it s1(1) True by (simp add: at_work_run_def at_inv_def)
  next
    case False
    then have "\<not> raw_trans s1" using s1(2) raw by (simp add: handled_def)
    then show ?thesis using it s1(1) False ok1 by (simp add: at_work_run_def at_inv_def)
  qed
qed

lemma at_work_process_ok:
  assumes cl: "client_ok cl" and ok: "at_ok s" and raw: "\<not> raw_trans s"
  shows "\<exists>s'. at_work_process cl s = Some s' \<and> at_inv s'"
proof (cases "cursor s")
  case (Some a)
  then show ?thesis using at_work_run_ok [OF cl ok Some raw] by (simp add: at_work_process_def)
next
  case None
  show ?thesis
  proof (cases "at_work_next s")
    case None
    then show ?thesis using \<open>cursor s = None\<close> ok by (simp add: at_work_process_def at_inv_def)
  next
    case (Some a)
    obtain s1 where "at_work_start a s = Some s1" "at_ok s1" "cursor s1 = Some a" "raw_trans s1 = raw_trans s"
      using at_work_start_ok [OF ok None Some] by blast
    then show ?thesis using at_work_run_ok [OF cl, of s1 a] None Some raw by (simp add: at_work_process_def)
  qed
qed

end
