(* ===== verification/At_Calls.thy ===== *)
theory At_Calls
  imports At_Steps
begin

text \<open>
  The recognition of unsolicited messages, the requests, the transparent mode and the creation of an object keep the invariant;
  programs of requests and polls, as an inductive relation.
\<close>

subsection \<open>Unsolicited messages\<close>

lemma at_frame_urcbuf [simp]: "urcbuf s = Some buf \<Longrightarrow> at_frame s (s\<lparr>urcbuf := Some buf'\<rparr>)" by (simp add: at_frame_def)

lemma urc_fields_ok:
  assumes ok: "at_ok s" and b: "urcbuf s = Some buf" "length buf' = length buf" and n: "n < urc_bufsize s"
  shows "at_step 0 s (s\<lparr>urcbuf := Some buf', urc_cnt := n\<rparr>)"
proof -
  let ?s = "s\<lparr>urcbuf := Some buf', urc_cnt := n\<rparr>"
  have "mem_used ?s = mem_used s" using b by (simp add: mem_used_def queue_def)
  moreover have "urc_ok ?s" using at_ok_D(6) [OF ok] b n by (simp add: urc_ok_def)
  moreover have "run_ok ?s" using at_ok_D(3) [OF ok] by (simp add: run_ok_def work_runs_def prefix_ok_def mask_ok_def line_ok_def)
  ultimately have "at_ok ?s"
    using at_ok_D [OF ok] by (simp add: at_ok'_def recv_ok_def items_ok_def queue_ok_def queue_def cursor_ok_def ctx_ok_def mem_ok_def)
  then show ?thesis using b by (simp add: at_step_def)
qed

lemma urc_reset_step:
  assumes ok: "at_ok s"
  shows "at_step 0 s (urc_reset s)"
proof -
  have "at_ok (s\<lparr>urc_cnt := 0\<rparr>)"
  proof (cases "urcbuf s")
    case None
    have "mem_used (s\<lparr>urc_cnt := 0\<rparr>) = mem_used s" by simp
    moreover have "run_ok (s\<lparr>urc_cnt := 0\<rparr>)"
      using at_ok_D(3) [OF ok] by (simp add: run_ok_def work_runs_def prefix_ok_def mask_ok_def line_ok_def)
    ultimately show ?thesis
      using at_ok_D [OF ok] None by (simp add: at_ok'_def recv_ok_def items_ok_def queue_ok_def cursor_ok_def ctx_ok_def mem_ok_def urc_ok_def)
  next
    case (Some buf)
    then have "(0 :: u16) < urc_bufsize s" using at_ok_D(6) [OF ok] by (simp add: urc_ok_def word_less_nat_alt)
    from urc_fields_ok [OF ok Some refl this] have "at_ok (s\<lparr>urcbuf := Some buf, urc_cnt := 0\<rparr>)" by (rule at_step_D)
    moreover have "s\<lparr>urcbuf := Some buf, urc_cnt := 0\<rparr> = s\<lparr>urc_cnt := 0\<rparr>" using Some by (cases s) simp
    ultimately show ?thesis by (simp only:)
  qed
  then have "at_ok (s\<lparr>urc_cnt := 0, urc_target := 0, urc_item_ptr := None, urc_match := False, urc_timer := at_ms s\<rparr>)" by simp
  moreover have "urc_reset s = s\<lparr>urc_cnt := 0, urc_target := 0, urc_item_ptr := None, urc_match := False, urc_timer := at_ms s\<rparr>"
    by (simp add: urc_reset_def)
  ultimately have "at_ok (urc_reset s)" by (simp only:)
  then show ?thesis by (simp add: at_step_def) (simp add: urc_reset_def at_frame_refl)
qed

lemma urc_handler_entry_ok:
  assumes cl: "client_ok cl" and ok: "at_ok s" and n: "unat (urc_cnt s) \<le> length buf"
  shows "\<exists>s'. urc_handler_entry cl status buf s = Some s' \<and> at_step 0 s s'"
proof -
  let ?info = "\<lparr>urc_status = status, urc_frame = take (unat (urc_cnt s)) buf\<rparr>"
  obtain m s1 where s1: "(case urc_item_ptr s of None \<Rightarrow> Some (0, s)
      | Some e \<Rightarrow> urc_fn cl (urc_handler e) ?info (note_event (Urc_Call (urc_handler e) ?info) s)) = Some (m, s1)" "at_step 0 s s1"
  proof (cases "urc_item_ptr s")
    case None
    then show ?thesis using that at_step_refl [OF ok] by simp
  next
    case (Some e)
    have n1: "at_step 0 s (note_event (Urc_Call (urc_handler e) ?info) s)" by (rule note_event_step [OF ok])
    obtain n s1 where "urc_fn cl (urc_handler e) ?info (note_event (Urc_Call (urc_handler e) ?info) s) = Some (n, s1)"
      "client_step (note_event (Urc_Call (urc_handler e) ?info) s) s1" "raw_trans s1 = raw_trans (note_event (Urc_Call (urc_handler e) ?info) s)"
      using client_okD(5) [OF cl at_step_D [OF n1]] by blast
    then show ?thesis using that [of n s1] Some at_step_trans [OF n1] at_step_client by auto
  qed
  have ok1: "at_ok s1" using s1(2) by (rule at_step_D)
  have t: "at_step 0 s1 (s1\<lparr>urc_target := x, urc_match := True\<rparr>)" for x using ok1 by (simp add: at_step_def at_frame_refl)
  show ?thesis
    using s1 n at_step_trans [OF s1(2) urc_reset_step [OF ok1]] at_step_trans [OF s1(2) t]
    by (simp add: urc_handler_entry_def)
qed

lemma urc_timeout_process_ok:
  assumes cl: "client_ok cl" and ok: "at_ok s" and b: "urcbuf s = Some buf"
  shows "\<exists>s'. urc_timeout_process cl buf s = Some s' \<and> at_step 0 s s'"
proof -
  have u: "length buf = unat (urc_bufsize s)" "urc_cnt s < urc_bufsize s" using at_ok_D(6) [OF ok] b by (simp_all add: urc_ok_def)
  then have n: "unat (urc_cnt s) < length buf" by (simp add: word_less_nat_alt)
  let ?buf = "buf[unat (urc_cnt s) := 0]"
  have "at_step 0 s (s\<lparr>urcbuf := Some ?buf, urc_cnt := urc_cnt s\<rparr>)" by (rule urc_fields_ok [OF ok b _ u(2)]) simp
  then have t1: "at_step 0 s (s\<lparr>urcbuf := Some ?buf\<rparr>)" by simp
  obtain s2 where s2: "urc_handler_entry cl URC_RECV_TIMEOUT ?buf (s\<lparr>urcbuf := Some ?buf\<rparr>) = Some s2" "at_step 0 (s\<lparr>urcbuf := Some ?buf\<rparr>) s2"
    using urc_handler_entry_ok [OF cl at_step_D [OF t1], of ?buf] n by auto
  note t2 = at_step_trans [OF t1 s2(2)]
  show ?thesis
    using n s2(1) at_step_trans [OF t2 urc_reset_step [OF at_step_D [OF t2]]] urc_reset_step [OF ok] at_step_refl [OF ok]
    by (simp add: urc_timeout_process_def)
qed

lemma find_urc_from_Some: "n \<le> length tbl \<Longrightarrow> \<exists>e. find_urc_from tbl n c = Some e"
  by (induction tbl n c rule: find_urc_from.induct) auto

lemma urc_end_of_line_ok:
  assumes cl: "client_ok cl" and ok: "at_ok s" and b: "urcbuf s = Some buf"
  shows "\<exists>s'. urc_end_of_line cl ch buf s = Some s' \<and> at_step 0 s s'"
proof -
  have u: "length buf = unat (urc_bufsize s)" "urc_cnt s < urc_bufsize s" "urc_tbl s = [] \<or> unat (urc_tbl_size s) \<le> length (urc_tbl s)"
    using at_ok_D(6) [OF ok] b by (simp_all add: urc_ok_def)
  then have n: "unat (urc_cnt s) < length buf" by (simp add: word_less_nat_alt)
  let ?buf = "buf[unat (urc_cnt s) := 0]"
  have "at_step 0 s (s\<lparr>urcbuf := Some ?buf, urc_cnt := urc_cnt s\<rparr>)" by (rule urc_fields_ok [OF ok b _ u(2)]) simp
  then have t1: "at_step 0 s (s\<lparr>urcbuf := Some ?buf\<rparr>)" by simp
  have "0 \<in> set ?buf" using n by (simp add: set_update_memI)
  then have "\<exists>e. find_urc_item ?buf (s\<lparr>urcbuf := Some ?buf\<rparr>) = Some e"
    using find_urc_from_Some [of "unat (urc_tbl_size s)" "urc_tbl s"] u(3) by (auto simp: find_urc_item_def)
  then obtain e where e: "(case urc_item_ptr s of Some e \<Rightarrow> Some (Some e) | None \<Rightarrow> find_urc_item ?buf (s\<lparr>urcbuf := Some ?buf\<rparr>)) = Some e"
    by (cases "urc_item_ptr s") auto
  let ?s2 = "s\<lparr>urcbuf := Some ?buf, urc_item_ptr := e\<rparr>"
  have t2: "at_step 0 s ?s2" using at_step_D [OF t1] b by (simp add: at_step_def)
  obtain s3 where s3: "urc_handler_entry cl URC_RECV_OK ?buf ?s2 = Some s3" "at_step 0 ?s2 s3"
    using urc_handler_entry_ok [OF cl at_step_D [OF t2], of ?buf] n by auto
  have "urc_end_of_line cl ch buf s =
      (if e = None \<and> ch = 10 then Some (urc_reset ?s2)
       else case e of Some e \<Rightarrow> if ch = endmark e then Some s3 else Some ?s2 | None \<Rightarrow> Some ?s2)"
    using n e s3(1) by (cases e) (simp_all add: urc_end_of_line_def Let_def)
  then show ?thesis
    using at_step_trans [OF t2 urc_reset_step [OF at_step_D [OF t2]]] at_step_trans [OF t2 s3(2)] t2 by (cases e) auto
qed

lemma urc_recv_byte_ok:
  assumes cl: "client_ok cl" and ok: "at_ok s" and b: "urcbuf s = Some buf"
  shows "\<exists>s'. urc_recv_byte cl ch s = Some s' \<and> at_step 0 s s'"
proof -
  have u: "length buf = unat (urc_bufsize s)" "urc_cnt s < urc_bufsize s" "(0 :: u16) < urc_bufsize s"
    using at_ok_D(6) [OF ok] b by (simp_all add: urc_ok_def word_less_nat_alt)
  then have n: "unat (urc_cnt s) < length buf" by (simp add: word_less_nat_alt)
  let ?buf = "buf[unat (urc_cnt s) := ch]"
  let ?s1 = "s\<lparr>urcbuf := Some ?buf, urc_cnt := urc_cnt s + 1\<rparr>"
  show ?thesis
  proof (cases "urc_cnt s + 1 \<ge> urc_bufsize s")
    case True
    have "at_step 0 s (s\<lparr>urcbuf := Some ?buf, urc_cnt := 0\<rparr>)" by (rule urc_fields_ok [OF ok b _ u(3)]) simp
    then have "at_ok (s\<lparr>urcbuf := Some ?buf, urc_cnt := 0\<rparr>)" by (rule at_step_D)
    from urc_reset_step [OF this] have r: "at_ok (urc_reset (s\<lparr>urcbuf := Some ?buf, urc_cnt := 0\<rparr>))" by (rule at_step_D)
    have "urc_reset ?s1 = urc_reset (s\<lparr>urcbuf := Some ?buf, urc_cnt := 0\<rparr>)" by (simp add: urc_reset_def)
    then have "at_ok (urc_reset ?s1)" using r by (simp only:)
    then have "at_step 0 s (urc_reset ?s1)" using b by (simp add: at_step_def) (simp add: urc_reset_def)
    then show ?thesis using True b n by (simp add: urc_recv_byte_def)
  next
    case False
    then have t1: "at_step 0 s ?s1" by (intro urc_fields_ok [OF ok b]) simp_all
    have n1: "unat (urc_cnt s + 1) \<le> length ?buf" using False u(1) by (simp add: word_le_nat_alt)
    have a: "\<exists>s'. urc_handler_entry cl URC_RECV_OK ?buf ?s1 = Some s' \<and> at_step 0 s s'"
      using urc_handler_entry_ok [OF cl at_step_D [OF t1], of ?buf] n1 at_step_trans [OF t1] by fastforce
    have c: "\<exists>s'. urc_end_of_line cl ch ?buf ?s1 = Some s' \<and> at_step 0 s s'"
      using urc_end_of_line_ok [OF cl at_step_D [OF t1], of ?buf] at_step_trans [OF t1] by fastforce
    have d: "\<exists>s'. Some ?s1 = Some s' \<and> at_step 0 s s'" using t1 by blast
    have eq: "urc_recv_byte cl ch s =
        (if urc_match s then if urc_target s \<le> urc_cnt s + 1 then urc_handler_entry cl URC_RECV_OK ?buf ?s1 else Some ?s1
         else if ch \<notin> set AT_URC_END_MARKS \<and> ch \<noteq> 0 then Some ?s1 else urc_end_of_line cl ch ?buf ?s1)"
      using False b n by (simp add: urc_recv_byte_def Let_def cong: if_cong split del: if_split)
    have either: "P (if p then if q then x else y else if r then y else z)" if "P x" "P y" "P z" for P p q r and x y z :: "at_info option"
      using that by simp
    show ?thesis unfolding eq by (rule either [OF a d c])
  qed
qed

lemma urc_recv_loop_ok:
  assumes cl: "client_ok cl"
  shows "at_ok s \<Longrightarrow> urcbuf s \<noteq> None \<Longrightarrow> \<exists>s'. urc_recv_loop cl bs s = Some s' \<and> at_step 0 s s'"
proof (induction bs arbitrary: s)
  case Nil
  then show ?case by (simp add: at_step_refl)
next
  case (Cons ch bs)
  obtain s1 where s1: "urc_recv_byte cl ch s = Some s1" "at_step 0 s s1" using urc_recv_byte_ok [OF cl Cons.prems(1)] Cons.prems(2) by auto
  have "at_ok s1" "urcbuf s1 \<noteq> None" using s1(2) Cons.prems(2) by (simp_all add: at_step_def at_frame_def)
  then show ?case using Cons.IH s1 at_step_trans [OF s1(2)] by fastforce
qed

lemma urc_recv_process_ok:
  assumes cl: "client_ok cl" and ok: "at_ok s"
  shows "\<exists>s'. urc_recv_process cl bs s = Some s' \<and> at_step 0 s s'"
proof (cases "urcbuf s")
  case (Some buf)
  let ?s1 = "s\<lparr>urc_enable := True, urc_timer := at_ms s\<rparr>"
  have t1: "at_step 0 s ?s1" using ok by (simp add: at_step_def at_frame_refl)
  have "\<exists>s'. urc_recv_loop cl bs ?s1 = Some s' \<and> at_step 0 s s'"
    using urc_recv_loop_ok [OF cl at_step_D [OF t1], of bs] at_step_trans [OF t1] Some by fastforce
  then show ?thesis using urc_timeout_process_ok [OF cl ok Some] at_step_refl [OF ok] Some by (simp add: urc_recv_process_def)
qed (simp add: urc_recv_process_def at_step_refl ok)

subsection \<open>Polls\<close>

lemma raw_exit_byte_ok:
  assumes cl: "client_ok cl" and ok: "at_ok s" and c: "cursor s = None" and cf: "raw_conf s = Some conf" "exit_cmd conf \<noteq> None"
  shows "\<exists>s'. raw_exit_byte cl b s = Some s' \<and> at_ok s' \<and> cursor s' = None \<and> raw_conf s' = Some conf"
proof -
  have r: "length (recvbuf s) = unat (recv_bufsize s)" "64 < unat (recv_bufsize s)"
    using at_ok_D(1) [OF ok] by (simp_all add: recv_ok_def)
  obtain n where n_eq: "n = (if recv_cnt s \<ge> recv_bufsize s then 0 else recv_cnt s)" by blast
  have n: "unat n < length (recvbuf s)" unfolding n_eq using r by (auto simp: word_le_nat_alt)
  have upd: "at_ok (s\<lparr>recvbuf := buf, recv_cnt := m\<rparr>)" if "length buf = length (recvbuf s)" "m \<le> recv_bufsize s" for buf m
  proof -
    have "run_ok (s\<lparr>recvbuf := buf, recv_cnt := m\<rparr>)" using c by (simp add: run_ok_def)
    then show ?thesis using at_ok_D [OF ok] that
      by (simp add: at_ok'_def recv_ok_def items_ok_def queue_ok_def cursor_ok_def urc_ok_def ctx_ok_def mem_ok_def)
  qed
  let ?buf = "(recvbuf s)[unat n := b]"
  let ?s1 = "s\<lparr>recvbuf := ?buf[unat n := 0], recv_cnt := 0\<rparr>"
  have ok1: "at_ok ?s1" by (rule upd) simp_all
  have "n + 1 \<le> recv_bufsize s" using n r(1) unat_plus_1 [of n "recv_bufsize s"] by (simp add: word_le_nat_alt word_less_nat_alt)
  then have ok2: "at_ok (s\<lparr>recvbuf := ?buf, recv_cnt := n + 1\<rparr>)" by (intro upd) simp_all
  have nul: "0 \<in> set (?buf[unat n := 0])" using n by (simp add: set_update_memI)
  have ex: "\<exists>s'. exit_fn cl g (note_event (Raw_Exit g) ?s1) = Some s' \<and> at_ok s' \<and> cursor s' = None \<and> raw_conf s' = Some conf" for g
  proof -
    have "at_ok (note_event (Raw_Exit g) ?s1)" using ok1 by (simp add: note_event_def)
    from client_okD(6) [OF cl this, of g] show ?thesis using c cf(1) by (auto simp: client_step_def at_frame_def note_event_def)
  qed
  have line: "\<exists>s'. raw_exit_line cl ?s1 = Some s' \<and> at_ok s' \<and> cursor s' = None \<and> raw_conf s' = Some conf"
    using ok1 ex c nul cf by (cases "on_exit conf") (auto simp: raw_exit_line_def)
  have "raw_exit_byte cl b s =
      (if b = 13 \<or> b = 110 then raw_exit_line cl ?s1 else Some (s\<lparr>recvbuf := ?buf, recv_cnt := n + 1\<rparr>))"
    unfolding raw_exit_byte_def Let_def n_eq [symmetric] using n by (simp cong: if_cong split del: if_split)
  then show ?thesis using line ok2 c cf(1) by (cases "b = 13 \<or> b = 110") (simp_all only: if_True if_False, simp_all)
qed

lemma raw_exit_loop_ok:
  assumes cl: "client_ok cl"
  shows "at_ok s \<Longrightarrow> cursor s = None \<Longrightarrow> raw_conf s = Some conf \<Longrightarrow> exit_cmd conf \<noteq> None \<Longrightarrow>
    \<exists>s'. raw_exit_loop cl bs s = Some s' \<and> at_ok s' \<and> cursor s' = None"
proof (induction bs arbitrary: s)
  case (Cons b bs)
  then show ?case using raw_exit_byte_ok [OF cl Cons.prems, of b] by auto
qed simp

lemma at_raw_trans_process_ok:
  assumes cl: "client_ok cl" and ok: "at_ok s" and c: "cursor s = None" and bs: "length bs \<le> 32" "length raw \<le> 32"
  shows "\<exists>s'. at_raw_trans_process cl bs raw s = Some s' \<and> at_ok s' \<and> cursor s' = None"
proof (cases "raw_conf s")
  case None
  then show ?thesis using ok c by (simp add: at_raw_trans_process_def)
next
  case (Some conf)
  let ?s1 = "if bs \<noteq> [] then note_event (Raw_Write bs) s else s"
  let ?s2 = "if raw \<noteq> [] then send_data raw ?s1 else ?s1"
  have "at_ok ?s2" "cursor ?s2 = None" "raw_conf ?s2 = Some conf" using ok c Some by (simp_all add: note_event_def send_data_def)
  then show ?thesis
    using Some bs raw_exit_loop_ok [OF cl, of ?s2 conf] by (cases "exit_cmd conf") (simp_all add: at_raw_trans_process_def Let_def)
qed

lemma at_obj_process_ok:
  assumes cl: "client_ok cl" and inv: "at_inv s" and bs: "length bs \<le> (if raw_trans s then 32 else 64)" "length raw \<le> 32"
  shows "\<exists>s'. at_obj_process cl bs raw s = Some s' \<and> at_inv s'"
proof (cases "raw_trans s")
  case True
  then show ?thesis
    using at_raw_trans_process_ok [OF cl, of s bs raw] inv bs by (auto simp: at_obj_process_def at_inv_def)
next
  case False
  have ok: "at_ok s" using inv by (simp add: at_inv_def)
  obtain s1 where s1: "urc_recv_process cl bs s = Some s1" "at_step 0 s s1" using urc_recv_process_ok [OF cl ok] by blast
  have "length bs \<le> 64" using bs False by simp
  then obtain s2 where s2: "resp_recv_process bs s1 = Some s2" "at_step 0 s1 s2"
    using resp_recv_process_ok [OF at_step_D [OF s1(2)]] by blast
  have "\<not> raw_trans s2" using s1(2) s2(2) False by (simp add: at_step_def)
  from at_work_process_ok [OF cl at_step_D [OF s2(2)] this] show ?thesis
    using s1(1) s2(1) False \<open>length bs \<le> 64\<close> by (simp add: at_obj_process_def)
qed

subsection \<open>Requests\<close>

lemma at_core_malloc_ok:
  assumes cl: "client_ok cl" and ok: "at_ok' x s" and n: "unat n < 2147483648"
  shows "\<exists>r s'. at_core_malloc cl n s = Some (r, s') \<and> (r \<longleftrightarrow> unat n + unat (at_cur_mem s) \<le> 6144) \<and> at_step (if r then x + unat n else x) s s' \<and>
    hlist s' = hlist s \<and> llist s' = llist s \<and> list_cnt s' = list_cnt s \<and> items s' = items s \<and> next_addr s' = next_addr s"
proof -
  have m: "unat (at_cur_mem s) = mem_used s + x" "mem_used s + x \<le> 6144" using at_ok_D(8) [OF ok] by (simp_all add: mem_ok_def)
  then have sum: "unat (n + at_cur_mem s) = unat n + unat (at_cur_mem s)" "unat (at_cur_mem s + n) = unat (at_cur_mem s) + unat n"
    using n by (simp_all add: unat_add_lt)
  then have le: "\<not> n + at_cur_mem s > AT_MEM_LIMIT_SIZE \<longleftrightarrow> unat n + unat (at_cur_mem s) \<le> 6144"
    by (simp add: AT_MEM_LIMIT_SIZE_def word_less_nat_alt not_less)
  show ?thesis
  proof (cases "unat n + unat (at_cur_mem s) \<le> 6144")
    case False
    then show ?thesis using le at_step_refl [OF ok] by (simp add: at_core_malloc_def ex_bool_eq)
  next
    case True
    let ?s = "s\<lparr>at_cur_mem := at_cur_mem s + n\<rparr>"
    have "mem_ok (x + unat n) ?s" using True m sum(2) by (simp add: mem_ok_def)
    moreover have "run_ok ?s" using at_ok_D(3) [OF ok] by (simp add: run_ok_def work_runs_def prefix_ok_def mask_ok_def line_ok_def)
    ultimately have "at_ok' (x + unat n) ?s"
      using at_ok_D [OF ok] by (simp add: at_ok'_def recv_ok_def items_ok_def queue_ok_def cursor_ok_def urc_ok_def ctx_ok_def)
    then show ?thesis
      using True le client_okD(1) [OF cl] by (simp add: at_core_malloc_def Let_def at_step_def at_frame_refl ex_bool_eq)
  qed
qed

lemma at_core_free_step:
  assumes ok: "at_ok' (x + unat n) s"
  shows "at_step x s (at_core_free n s)"
proof -
  have m: "unat (at_cur_mem s) = mem_used s + (x + unat n)" "mem_used s + (x + unat n) \<le> 6144" using at_ok_D(8) [OF ok] by (simp_all add: mem_ok_def)
  then have "unat (at_cur_mem s - n) = mem_used s + x" using unat_sub_le [of n "at_cur_mem s"] by (simp add: word_le_nat_alt)
  then have "mem_ok x (at_core_free n s)" using m by (simp add: mem_ok_def at_core_free_def)
  moreover have "run_ok (at_core_free n s)"
    using at_ok_D(3) [OF ok] by (simp add: run_ok_def work_runs_def prefix_ok_def mask_ok_def line_ok_def at_core_free_def)
  ultimately have "at_ok' x (at_core_free n s)"
    using at_ok_D [OF ok] by (simp add: at_ok'_def recv_ok_def items_ok_def queue_ok_def cursor_ok_def urc_ok_def ctx_ok_def at_core_free_def)
  then show ?thesis by (simp add: at_step_def) (simp add: at_core_free_def at_frame_refl)
qed

text \<open>The new item stands at the end of the queue of its priority.\<close>

definition enqueue :: "nat \<Rightarrow> work_item \<Rightarrow> at_info \<Rightarrow> at_info" where
  "enqueue a it s =
     (let s = s\<lparr>items := (items s)(a \<mapsto> it), next_addr := a + 1, list_cnt := list_cnt s + 1\<rparr> in
      if attr_priority (item_attr it) = AT_PRIORITY_HIGH then s\<lparr>hlist := hlist s @ [a]\<rparr> else s\<lparr>llist := llist s @ [a]\<rparr>)"

lemma enqueue_simps [simp]:
  "hlist (enqueue a it s) = (if attr_priority (item_attr it) = AT_PRIORITY_HIGH then hlist s @ [a] else hlist s)"
  "llist (enqueue a it s) = (if attr_priority (item_attr it) = AT_PRIORITY_HIGH then llist s else llist s @ [a])"
  "items (enqueue a it s) = (items s)(a \<mapsto> it)" "list_cnt (enqueue a it s) = list_cnt s + 1" "next_addr (enqueue a it s) = a + 1"
  "cursor (enqueue a it s) = cursor s" "recvbuf (enqueue a it s) = recvbuf s" "recv_bufsize (enqueue a it s) = recv_bufsize s"
  "recv_cnt (enqueue a it s) = recv_cnt s" "urcbuf (enqueue a it s) = urcbuf s" "urc_bufsize (enqueue a it s) = urc_bufsize s"
  "urc_cnt (enqueue a it s) = urc_cnt s" "urc_tbl (enqueue a it s) = urc_tbl s" "urc_tbl_size (enqueue a it s) = urc_tbl_size s"
  "ctxs (enqueue a it s) = ctxs s" "at_cur_mem (enqueue a it s) = at_cur_mem s" "env_state (enqueue a it s) = env_state s"
  "env_i (enqueue a it s) = env_i s" "at_prefix (enqueue a it s) = at_prefix s" "match_mask (enqueue a it s) = match_mask s"
  "at_ms (enqueue a it s) = at_ms s" "raw_trans (enqueue a it s) = raw_trans s"
  by (simp_all add: enqueue_def Let_def)

lemma enqueue_step:
  assumes ok: "at_ok' (x + unat (item_size it)) s" and n: "list_cnt s \<le> 32" and w: "work_ok (item_attr it) (item_work it)" and a: "a = next_addr s"
  shows "at_step x s (enqueue a it s)"
proof -
  let ?s = "enqueue a it s"
  have q: "distinct (queue s)" "set (queue s) = dom (items s)" "unat (list_cnt s) = length (queue s)" "\<forall>b \<in> set (queue s). b < next_addr s"
    using at_ok_D(4) [OF ok] by (simp_all add: queue_ok_def)
  have new: "a \<notin> set (queue s)" using q(4) a by blast
  have le: "length (queue s) \<le> 32" using n q(3) by (simp add: word_le_nat_alt)
  have sq: "set (queue ?s) = insert a (set (queue s))" "length (queue ?s) = length (queue s) + 1" "distinct (queue ?s)"
    using new q(1) by (auto simp: queue_def)
  have cnt: "unat (list_cnt s + 1) = length (queue s) + 1"
    using unat_plus_1 [of "list_cnt s" 33] le q(3) by (simp add: word_less_nat_alt)
  have "queue_ok ?s"
    unfolding queue_ok_def sq using q le cnt a sq(3) by (auto intro: less_SucI)
  moreover have "mem_used ?s = mem_used s + unat (item_size it)"
  proof -
    have same: "(\<Sum>b\<leftarrow>bs. unat (item_size (the (items ?s b)))) = (\<Sum>b\<leftarrow>bs. unat (item_size (the (items s b))))" if "a \<notin> set bs" for bs
      using that by (intro arg_cong [of _ _ sum_list] map_cong) auto
    have "a \<notin> set (hlist s)" "a \<notin> set (llist s)" using new by (simp_all add: queue_def)
    then show ?thesis using same [of "hlist s"] same [of "llist s"] by (simp add: mem_used_def queue_def)
  qed
  then have "mem_ok x ?s" using at_ok_D(8) [OF ok] by (simp add: mem_ok_def)
  moreover have "run_ok ?s"
  proof -
    have "cursor s \<noteq> Some a" using at_ok_D(5) [OF ok] new by (auto simp: cursor_ok_def queue_def)
    then show ?thesis
      using at_ok_D(3) [OF ok] by (auto simp: run_ok_def work_runs_def prefix_ok_def mask_ok_def line_ok_def)
  qed
  moreover have "cursor_ok ?s" using at_ok_D(5) [OF ok] by (auto simp: cursor_ok_def)
  ultimately have "at_ok' x ?s"
    using at_ok_D [OF ok] w by (simp add: at_ok'_def recv_ok_def items_ok_def urc_ok_def ctx_ok_def)
  moreover have "items s a = None" using new q(2) by blast
  then have "at_frame s ?s" by (auto simp: at_frame_def)
  ultimately show ?thesis by (simp add: at_step_def)
qed

text \<open>What a request makes, when the queue and the memory have room.\<close>

definition new_item :: "at_attr option \<Rightarrow> work \<Rightarrow> work_item" where
  "new_item attr w =
     \<lparr>item_attr = (case attr of None \<Rightarrow> at_def_attr | Some at \<Rightarrow> at), item_state = AT_WORK_STAT_READY, item_code = AT_RESP_OK, item_work = w,
      item_size = sizeof_work_item + work_extend w\<rparr>"

definition room :: "work \<Rightarrow> at_info \<Rightarrow> bool" where
  "room w s \<longleftrightarrow> list_cnt s \<le> 32 \<and> 44 + unat (work_extend w) + unat (at_cur_mem s) \<le> 6144"

lemma add_work_item_ok:
  assumes cl: "client_ok cl" and ok: "at_ok' x s" and w: "work_ok (item_attr (new_item attr w)) w" and n: "unat (work_extend w) < 2147483000"
  shows "\<exists>r s'. add_work_item cl attr w s = Some (r, s') \<and> at_step x s s' \<and> (r \<noteq> None \<longleftrightarrow> room w s) \<and>
    (room w s \<longrightarrow> items s' (next_addr s) = Some (new_item attr w) \<and>
       (if attr_priority (item_attr (new_item attr w)) = AT_PRIORITY_HIGH then hlist s' = hlist s @ [next_addr s] \<and> llist s' = llist s
        else hlist s' = hlist s \<and> llist s' = llist s @ [next_addr s])) \<and>
    (\<not> room w s \<longrightarrow> hlist s' = hlist s \<and> llist s' = llist s)"
proof -
  let ?n = "sizeof_work_item + work_extend w"
  have un: "unat ?n = 44 + unat (work_extend w)" using n by (simp add: sizeof_work_item_def unat_add_lt)
  then have "unat ?n < 2147483648" using n by simp
  from at_core_malloc_ok [OF cl ok this] obtain r s1 where s1: "at_core_malloc cl ?n s = Some (r, s1)"
    "r \<longleftrightarrow> unat ?n + unat (at_cur_mem s) \<le> 6144" "at_step (if r then x + unat ?n else x) s s1"
    "hlist s1 = hlist s" "llist s1 = llist s" "list_cnt s1 = list_cnt s" "items s1 = items s" "next_addr s1 = next_addr s" by blast
  show ?thesis
  proof (cases r)
    case False
    then have "\<not> room w s" using s1(2) un by (simp add: room_def)
    then show ?thesis using False s1 by (simp add: add_work_item_def create_work_item_def work_item_create_def)
  next
    case True
    then have ok1: "at_ok' (x + unat ?n) s1" and st1: "at_step (x + unat ?n) s s1" using s1(3) by (simp_all add: at_step_def)
    show ?thesis
    proof (cases "list_cnt s > AT_LIST_WORK_COUNT")
      case full: True
      then have "\<not> room w s" by (auto simp: room_def AT_LIST_WORK_COUNT_def)
      moreover have "at_step x s (at_core_free ?n s1)" by (rule at_step_trans [OF st1 at_core_free_step [OF ok1]])
      ultimately show ?thesis
        using True full s1(1,4-8) by (simp add: add_work_item_def create_work_item_def work_item_create_def) (simp add: at_core_free_def)
    next
      case False
      then have rm: "room w s" "list_cnt s1 \<le> 32" using True s1(2,6) un by (simp_all add: room_def AT_LIST_WORK_COUNT_def not_less)
      let ?it = "new_item attr w"
      let ?a = "next_addr s"
      let ?f = "\<lambda>c. c\<lparr>ctx_code := AT_RESP_OK, ctx_state := AT_WORK_STAT_READY\<rparr>"
      have "at_step x s1 (enqueue ?a ?it s1)"
        by (rule enqueue_step) (use ok1 rm(2) w s1(8) in \<open>simp_all add: new_item_def\<close>)
      then have st2: "at_step x s (enqueue ?a ?it s1)" using at_step_trans [OF st1] by blast
      let ?s2 = "upd_ctx (attr_ctx (item_attr ?it)) ?f (enqueue ?a ?it s1)"
      have "at_step x (enqueue ?a ?it s1) ?s2" by (rule upd_ctx_ok [OF at_step_D [OF st2]]) simp
      then have st3: "at_step x s ?s2" using at_step_trans [OF st2] by blast
      have "add_work_item cl attr w s = Some (Some ?a, ?s2)"
        using True False s1(1,4-8)
        by (cases "attr_ctx (item_attr ?it)"; cases "attr_priority (item_attr ?it)")
          (simp_all add: add_work_item_def create_work_item_def work_item_create_def sumit_work_item_def enqueue_def new_item_def Let_def upd_ctx_def)
      moreover have "hlist ?s2 = hlist (enqueue ?a ?it s1)" "llist ?s2 = llist (enqueue ?a ?it s1)" "items ?s2 = items (enqueue ?a ?it s1)"
        by (simp_all add: upd_ctx_def split: option.splits)
      ultimately show ?thesis using rm(1) st3 s1(4,5) by simp
    qed
  qed
qed

text \<open>A request keeps the invariant and tells whether it is queued.\<close>

definition attr_of :: "at_attr option \<Rightarrow> at_attr" where
  "attr_of attr = (case attr of None \<Rightarrow> at_def_attr | Some at \<Rightarrow> at)"

lemma item_attr_new [simp]: "item_attr (new_item attr w) = attr_of attr" "item_work (new_item attr w) = w"
  by (simp_all add: new_item_def attr_of_def)

lemma queued_ok:
  assumes cl: "client_ok cl" and ok: "at_ok' x s" and w: "work_ok (attr_of attr) w" "unat (work_extend w) < 2147483000"
  shows "\<exists>s'. queued (add_work_item cl attr w s) = Some (room w s, s') \<and> at_step x s s'"
proof -
  obtain r s' where "add_work_item cl attr w s = Some (r, s')" "at_step x s s'" "r \<noteq> None \<longleftrightarrow> room w s"
    using add_work_item_ok [OF cl ok _ w(2), of attr] w(1) by auto
  then show ?thesis by (auto simp: queued_def)
qed

lemma vsn_bytes_ok: "length txt \<le> 255 \<Longrightarrow> vsn_bytes txt (length txt + 1) = Some (txt @ [0])"
  by (simp add: vsn_bytes_def AT_MAX_CMD_LEN_def)

lemma at_exec_vcmd_ok:
  assumes cl: "client_ok cl" and ok: "at_ok s" and w: "attr_suffix (attr_of attr) \<noteq> None" and n: "length txt \<le> 255"
  shows "\<exists>r s'. at_exec_vcmd cl attr txt s = Some (r, s') \<and> at_step 0 s s' \<and>
    (r \<longleftrightarrow> txt \<noteq> [] \<and> list_cnt s \<le> 32 \<and> 301 + length txt + unat (at_cur_mem s) \<le> 6144)"
proof -
  let ?n = "of_nat AT_MAX_CMD_LEN :: u32"
  have un: "unat ?n = 256" by (simp add: AT_MAX_CMD_LEN_def)
  then have lt: "unat ?n < 2147483648" by simp
  obtain b s1 where s1: "at_core_malloc cl ?n s = Some (b, s1)" "b \<longleftrightarrow> 256 + unat (at_cur_mem s) \<le> 6144"
    "at_step (if b then 256 else 0) s s1" "list_cnt s1 = list_cnt s"
    using at_core_malloc_ok [OF cl ok lt, unfolded un add_0] by auto
  show ?thesis
  proof (cases b)
    case False
    then show ?thesis using s1 by (auto simp: at_exec_vcmd_def)
  next
    case True
    then have st1: "at_step 256 s s1" using s1(3) by simp
    show ?thesis
    proof (cases "txt = []")
      case nil: True
      have "at_step 0 s1 (at_core_free ?n s1)" by (rule at_core_free_step) (use at_step_D [OF st1] un in simp)
      then show ?thesis using True nil s1(1) at_step_trans [OF st1] by (auto simp: at_exec_vcmd_def)
    next
      case False
      let ?w = "WORK_TYPE_CMD (txt @ [0])"
      have ext: "unat (work_extend ?w) = length txt + 1"
        using n by (simp add: work_extend_def unat_of_nat_lt del: of_nat_Suc of_nat_add)
      obtain s2 where s2: "queued (add_work_item cl attr ?w s1) = Some (room ?w s1, s2)" "at_step 256 s1 s2"
        using queued_ok [OF cl at_step_D [OF st1], of attr ?w] w ext n by auto
      have "at_step 0 s2 (at_core_free ?n s2)" by (rule at_core_free_step) (use at_step_D [OF s2(2)] un in simp)
      moreover have "unat (at_cur_mem s1) = unat (at_cur_mem s) + 256"
      proof -
        have "at_cur_mem s1 = at_cur_mem s + ?n" using s1(1) True by (auto simp: at_core_malloc_def Let_def split: if_splits)
        then show ?thesis using un True s1(2) by (simp add: unat_add_lt)
      qed
      then have "room ?w s1 \<longleftrightarrow> list_cnt s \<le> 32 \<and> 301 + length txt + unat (at_cur_mem s) \<le> 6144"
        using ext s1(4) by (simp add: room_def)
      ultimately show ?thesis
        using True False s1(1) s2 at_step_trans [OF at_step_trans [OF st1 s2(2)]] vsn_bytes_ok [OF n]
        by (auto simp: at_exec_vcmd_def)
    qed
  qed
qed

text \<open>Aborting marks the items; the polls that follow throw them away.\<close>

lemma abort_list_ok: "at_ok s \<Longrightarrow> set as \<subseteq> set (queue s) \<Longrightarrow> \<exists>s'. abort_list as s = Some s' \<and> at_step 0 s s' \<and> hlist s' = hlist s \<and> llist s' = llist s"
proof (induction as arbitrary: s)
  case Nil
  then show ?case by (simp add: at_step_refl)
next
  case (Cons a as)
  obtain it where it: "items s a = Some it" using queued_item [OF Cons.prems(1)] Cons.prems(2) by auto
  obtain s1 where s1: "update_work_state a AT_WORK_STAT_ABORT AT_RESP_ABORT s = Some s1" "at_step 0 s s1" "hlist s1 = hlist s" "llist s1 = llist s"
    using update_work_state_ok [OF Cons.prems(1) it] by blast
  have "set as \<subseteq> set (queue s1)" using Cons.prems(2) s1(3,4) by (simp add: queue_def)
  from Cons.IH [OF at_step_D [OF s1(2)] this] show ?case using s1 at_step_trans [OF s1(2)] by fastforce
qed

lemma at_work_abort_all_ok:
  assumes ok: "at_ok s"
  shows "\<exists>s'. at_work_abort_all s = Some s' \<and> at_step 0 s s'"
proof -
  have "set (hlist s) \<subseteq> set (queue s)" by (simp add: queue_def)
  then obtain s1 where s1: "abort_list (hlist s) s = Some s1" "at_step 0 s s1" "hlist s1 = hlist s" "llist s1 = llist s"
    using abort_list_ok [OF ok] by blast
  have "set (llist s1) \<subseteq> set (queue s1)" by (simp add: queue_def)
  from abort_list_ok [OF at_step_D [OF s1(2)] this] show ?thesis
    using s1 at_step_trans [OF s1(2)] by (auto simp: at_work_abort_all_def)
qed

subsection \<open>What a work may call\<close>

text \<open>The operations of the environment keep what is asked of a function of the program.\<close>

lemma at_client_step: "at_step 0 s s' \<Longrightarrow> client_step s s'" by (simp add: at_step_def client_step_def)

lemma at_send_line_ok:
  assumes cl: "client_ok cl" and ok: "at_ok s" and n: "length cmd \<le> 255"
  shows "\<exists>s'. println cl cmd s = Some s' \<and> client_step s s'"
proof -
  let ?n = "of_nat AT_MAX_CMD_LEN :: u32"
  have un: "unat ?n = 256" by (simp add: AT_MAX_CMD_LEN_def)
  then have lt: "unat ?n < 2147483648" by simp
  obtain b s1 where s1: "at_core_malloc cl ?n s = Some (b, s1)" "at_step (if b then 256 else 0) s s1"
    using at_core_malloc_ok [OF cl ok lt, unfolded un add_0] by auto
  show ?thesis
  proof (cases b)
    case False
    then show ?thesis using s1 at_client_step by (simp add: println_def at_send_line_def)
  next
    case True
    then have st1: "at_step 256 s s1" using s1(2) by simp
    have len: "0 < length (recvbuf s1)" using at_ok_D(1) [OF at_step_D [OF st1]] by (simp add: recv_ok_def)
    obtain s2 where s2: "recvbuf_clear s1 = Some s2" "at_step 256 s1 s2" using recvbuf_clear_ok [OF at_step_D [OF st1]] by blast
    then have e: "s2 = s1\<lparr>recv_cnt := 0, recvbuf := (recvbuf s1)[0 := 0]\<rparr>" using len by (auto simp: recvbuf_clear_def)
    let ?s3 = "send_data [13, 10] (send_data cmd s2)"
    have st3: "at_step 256 s ?s3"
      using at_step_trans [OF st1 s2(2)] by (simp add: send_data_def note_event_def at_step_def)
    have "at_step 0 ?s3 (at_core_free ?n ?s3)" by (rule at_core_free_step) (use at_step_D [OF st3] un in simp)
    moreover have "vsn_bytes cmd (length cmd) = Some cmd"
      using n by (simp add: vsn_bytes_def AT_MAX_CMD_LEN_def)
    then have "println cl cmd s = Some (at_core_free ?n ?s3)"
      using s1(1) True len by (simp add: println_def at_send_line_def e)
    ultimately show ?thesis using at_client_step [OF at_step_trans [OF st3]] by blast
  qed
qed

lemma at_env_ok:
  assumes ok: "at_ok s"
  shows "client_step s (at_reset_timer s)" "client_step s (at_next_wait ms s)" "cursor s = Some a \<Longrightarrow> \<exists>s'. at_finish code s = Some s' \<and> client_step s s'"
proof -
  show "client_step s (at_reset_timer s)" "client_step s (at_next_wait ms s)"
    using ok by (simp_all add: client_step_def at_reset_timer_def at_next_wait_def at_frame_refl)
  assume c: "cursor s = Some a"
  then obtain it where "items s a = Some it" using running_item [OF ok] by blast
  from update_work_state_ok [OF ok this] show "\<exists>s'. at_finish code s = Some s' \<and> client_step s s'"
    using c at_client_step by (simp add: at_finish_def) blast
qed

end
