(* ===== verification/At_Runs.thy ===== *)
theory At_Runs
  imports At_Calls
begin

text \<open>
  The creation of an object, and programs over it: requests, polls and the passing of time in any order, as an inductive relation.
\<close>

subsection \<open>Creation\<close>

definition buf_need :: "at_adapter \<Rightarrow> nat" where
  "buf_need ad = unat (at_least_32 (adap_recv_bufsize ad)) +
     (if adap_urc_bufsize ad = 0 then 0 else unat (at_least_32 (adap_urc_bufsize ad)))"

lemma at_least_32_bound: "32 \<le> unat (at_least_32 n)" by (simp add: at_least_32_def word_less_nat_alt)

lemma at_least_32_small [simp]: "64 < unat n \<Longrightarrow> at_least_32 n = n" by (simp add: at_least_32_def word_less_nat_alt)

lemma malloc_room:
  assumes "client_ok cl" "unat n + unat (at_cur_mem s) \<le> 6144"
  shows "\<exists>m. at_core_malloc cl n s = Some (True, s\<lparr>at_cur_mem := at_cur_mem s + n, at_max_mem := m\<rparr>) \<and> unat (at_cur_mem s + n) = unat (at_cur_mem s) + unat n"
proof -
  have "unat (at_cur_mem s + n) = unat (at_cur_mem s) + unat n" "\<not> n + at_cur_mem s > AT_MEM_LIMIT_SIZE"
    using assms(2) by (simp_all add: unat_add_lt AT_MEM_LIMIT_SIZE_def word_less_nat_alt)
  then show ?thesis
    using client_okD(1) [OF assms(1)]
    by (intro exI [of _ "if at_cur_mem s + n > at_max_mem s then at_cur_mem s + n else at_max_mem s"]) (simp add: at_core_malloc_def Let_def)
qed

text \<open>The object as it is created, when the memory account has room for it.\<close>

definition at_created :: "at_client \<Rightarrow> at_adapter \<Rightarrow> u32 \<Rightarrow> u32 \<Rightarrow> at_info \<Rightarrow> at_info" where
  "at_created cl ad cur m s =
     (let r = at_least_32 (adap_recv_bufsize ad); u = at_least_32 (adap_urc_bufsize ad) in
      (at_obj_zero ad s)\<lparr>recv_bufsize := r, recvbuf := fresh_buf cl r,
        urc_bufsize := if adap_urc_bufsize ad = 0 then 0 else u, urcbuf := if adap_urc_bufsize ad = 0 then None else Some (fresh_buf cl u),
        urc_enable := True, enable := True, at_cur_mem := cur, at_max_mem := m\<rparr>)"

lemma at_obj_create_room:
  assumes cl: "client_ok cl" and room: "156 + buf_need ad + unat (at_cur_mem s) \<le> 6144"
  shows "\<exists>cur m. at_obj_create cl ad s = Some (True, at_created cl ad cur m s) \<and> unat cur = unat (at_cur_mem s) + 156 + buf_need ad"
proof -
  let ?r = "at_least_32 (adap_recv_bufsize ad)" let ?u = "at_least_32 (adap_urc_bufsize ad)"
  have ur: "unat (ucast ?r :: u32) = unat ?r" "unat (ucast ?u :: u32) = unat ?u"
    by (simp_all add: unsigned_ucast_eq take_bit_nat_eq_self less_trans [OF u16_bound])
  obtain m1 where m1: "at_core_malloc cl sizeof_at_info s = Some (True, s\<lparr>at_cur_mem := at_cur_mem s + 156, at_max_mem := m1\<rparr>)"
    "unat (at_cur_mem s + 156) = unat (at_cur_mem s) + 156"
    using malloc_room [OF cl, of sizeof_at_info s] room by (auto simp: sizeof_at_info_def)
  let ?s2 = "(at_obj_zero ad (s\<lparr>at_cur_mem := at_cur_mem s + 156, at_max_mem := m1\<rparr>))\<lparr>recv_bufsize := ?r\<rparr>"
  have c2: "at_cur_mem ?s2 = at_cur_mem s + 156" by (simp add: at_obj_zero_def)
  obtain m2 where m2: "at_core_malloc cl (ucast ?r) ?s2 = Some (True, ?s2\<lparr>at_cur_mem := at_cur_mem s + 156 + ucast ?r, at_max_mem := m2\<rparr>)"
    "unat (at_cur_mem s + 156 + ucast ?r) = unat (at_cur_mem s) + 156 + unat ?r"
    using malloc_room [OF cl, of "ucast ?r" ?s2] room m1(2) unfolding c2 by (auto simp: buf_need_def ur)
  let ?s3 = "?s2\<lparr>at_cur_mem := at_cur_mem s + 156 + ucast ?r, at_max_mem := m2, recvbuf := fresh_buf cl ?r\<rparr>"
  show ?thesis
  proof (cases "adap_urc_bufsize ad = 0")
    case True
    have "at_obj_create cl ad s = Some (True, at_created cl ad (at_cur_mem s + 156 + ucast ?r) m2 s)"
      using True m1 m2 by (simp add: at_obj_create_def at_created_def at_obj_zero_def Let_def)
    then show ?thesis using True m2(2) by (auto simp: buf_need_def)
  next
    case False
    let ?s4 = "?s3\<lparr>urc_bufsize := ?u\<rparr>"
    have c4: "at_cur_mem ?s4 = at_cur_mem s + 156 + ucast ?r" by simp
    obtain m4 where m4: "at_core_malloc cl (ucast ?u) ?s4 = Some (True, ?s4\<lparr>at_cur_mem := at_cur_mem s + 156 + ucast ?r + ucast ?u, at_max_mem := m4\<rparr>)"
      "unat (at_cur_mem s + 156 + ucast ?r + ucast ?u) = unat (at_cur_mem s) + 156 + unat ?r + unat ?u"
      using malloc_room [OF cl, of "ucast ?u" ?s4] room m2(2) False unfolding c4 by (auto simp: buf_need_def ur)
    have "at_obj_create cl ad s = Some (True, at_created cl ad (at_cur_mem s + 156 + ucast ?r + ucast ?u) m4 s)"
      using False m1 m2 m4 by (simp add: at_obj_create_def at_created_def at_obj_zero_def Let_def)
    then show ?thesis using False m4(2) by (auto simp: buf_need_def)
  qed
qed

lemma at_created_ok:
  assumes n: "64 < unat (adap_recv_bufsize ad)" and c: "ctx_ok s" and m: "unat cur = 156 + buf_need ad" "unat cur \<le> 6144"
  shows "at_inv (at_created cl ad cur m s)"
proof -
  have "length (fresh_buf cl k) = unat k" for k by (simp add: fresh_buf_def)
  moreover have "mem_used (at_created cl ad cur m s) = 156 + buf_need ad"
    using n by (simp add: mem_used_def at_created_def at_obj_zero_def Let_def queue_def buf_need_def)
  moreover have "(0 :: u16) < at_least_32 k" for k using at_least_32_bound [of k] by (simp add: word_less_nat_alt)
  ultimately have "at_ok (at_created cl ad cur m s)"
    using n c m at_least_32_bound
    by (simp add: at_ok'_def at_ok_rest) (simp add: at_created_def at_obj_zero_def Let_def queue_def run_ok_def)
  then show ?thesis by (simp add: at_inv_def) (simp add: at_created_def at_obj_zero_def Let_def)
qed

subsection \<open>Programs\<close>

text \<open>What the program and its clock do to the object.\<close>

datatype at_call =
    Poll "u8 list" "u8 list" | Time_Passes u32
  | Exec_Cmd "at_attr option" cstring | Custom_Cmd "at_attr option" "nat option" | Send_Data "at_attr option" "u8 list"
  | Send_Singlline "at_attr option" "cstring option" | Send_Multiline "at_attr option" "cstring list" | Do_Work nat nat
  | Abort_All | Context_Init nat "u8 list option" u32 | Set_Urc "urc_item list" int | Urc_Set_Enable bool u16
  | Raw_Enter "at_raw_trans_conf option" | Raw_Leave | Set_Enable bool | Set_User_Data nat

fun at_call_step :: "at_client \<Rightarrow> at_call \<Rightarrow> at_info \<Rightarrow> (bool \<times> at_info) option" where
  "at_call_step cl (Poll bs raw) s = map_option (Pair True) (at_obj_process cl bs raw s)"
| "at_call_step cl (Time_Passes n) s = Some (True, s\<lparr>at_ms := at_ms s + n\<rparr>)"
| "at_call_step cl (Exec_Cmd attr txt) s = at_exec_cmd cl attr txt s"
| "at_call_step cl (Custom_Cmd attr f) s = at_custom_cmd cl attr f s"
| "at_call_step cl (Send_Data attr bs) s = at_send_data cl attr bs s"
| "at_call_step cl (Send_Singlline attr c) s = at_send_singlline cl attr c s"
| "at_call_step cl (Send_Multiline attr cmds) s = at_send_multiline cl attr cmds s"
| "at_call_step cl (Do_Work params f) s = at_do_work cl params f s"
| "at_call_step cl Abort_All s = map_option (Pair True) (at_work_abort_all s)"
| "at_call_step cl (Context_Init k rb n) s = Some (True, at_context_init k rb n s)"
| "at_call_step cl (Set_Urc tbl n) s = Some (True, at_obj_set_urc tbl n s)"
| "at_call_step cl (Urc_Set_Enable en t) s = Some (True, at_obj_urc_set_enable en t s)"
| "at_call_step cl (Raw_Enter c) s = Some (True, at_raw_transport_enter c s)"
| "at_call_step cl Raw_Leave s = Some (True, at_raw_transport_exit s)"
| "at_call_step cl (Set_Enable en) s = Some (True, at_obj_set_enable en s)"
| "at_call_step cl (Set_User_Data d) s = Some (True, at_obj_set_user_data d s)"

text \<open>
  What the callers keep to: a suffix to wait for, commands below 256 bytes, buffers as long as they say, and the transparent mode only
  between items. A poll reads as many bytes as it asks for.
\<close>

fun at_allowed :: "at_call \<Rightarrow> at_info \<Rightarrow> bool" where
  "at_allowed (Poll bs raw) s = (length bs \<le> (if raw_trans s then 32 else 64) \<and> length raw \<le> 32)"
| "at_allowed (Exec_Cmd attr txt) s = (attr_suffix (attr_of attr) \<noteq> None \<and> length txt \<le> 255)"
| "at_allowed (Custom_Cmd attr f) s = (attr_suffix (attr_of attr) \<noteq> None \<and> f \<noteq> None)"
| "at_allowed (Send_Data attr bs) s = (attr_suffix (attr_of attr) \<noteq> None \<and> length bs < 2147483000)"
| "at_allowed (Send_Singlline attr c) s = (attr_suffix (attr_of attr) \<noteq> None)"
| "at_allowed (Send_Multiline attr cmds) s = (attr_suffix (attr_of attr) \<noteq> None)"
| "at_allowed (Context_Init k rb n) s = (\<forall>b. rb = Some b \<longrightarrow> 0 < n \<and> unat n < 65536 \<and> length b = unat n)"
| "at_allowed (Set_Urc tbl n) s = (0 \<le> n \<and> nat n \<le> length tbl \<and> n < 65536)"
| "at_allowed (Raw_Enter c) s = (cursor s = None)"
| "at_allowed _ s = True"

lemma at_context_init_ok:
  assumes ok: "at_ok s" and rb: "\<forall>b. rb = Some b \<longrightarrow> 0 < n \<and> unat n < 65536 \<and> length b = unat n"
  shows "at_ok (at_context_init k rb n s)"
proof -
  have "0 < (ucast n :: u16) \<and> unat (ucast n :: u16) = unat n" if "0 < n" "unat n < 65536"
  proof -
    have "unat (ucast n :: u16) = unat n" using that by (simp add: unsigned_ucast_eq take_bit_nat_eq_self)
    then show ?thesis using that by (simp add: word_less_nat_alt)
  qed
  then have "ctx_ok (at_context_init k rb n s)" using at_ok_D(7) [OF ok] rb by (simp add: ctx_ok_def at_context_init_def)
  moreover have "run_ok (at_context_init k rb n s)"
    using at_ok_D(3) [OF ok] by (simp add: run_ok_def work_runs_def prefix_ok_def mask_ok_def line_ok_def at_context_init_def)
  ultimately show ?thesis
    using at_ok_D [OF ok] by (simp add: at_ok'_def recv_ok_def items_ok_def queue_ok_def cursor_ok_def urc_ok_def mem_ok_def at_context_init_def)
qed

lemma at_obj_set_urc_ok:
  assumes ok: "at_ok s" and n: "0 \<le> n" "nat n \<le> length tbl" "n < 65536"
  shows "at_ok (at_obj_set_urc tbl n s)"
proof -
  have "unat (of_int n :: u16) \<le> length tbl" using n by (simp add: unat_eq_nat_uint uint_word_of_int)
  then have "urc_ok (at_obj_set_urc tbl n s)" using at_ok_D(6) [OF ok] by (simp add: urc_ok_def at_obj_set_urc_def)
  moreover have "run_ok (at_obj_set_urc tbl n s)"
    using at_ok_D(3) [OF ok] by (simp add: run_ok_def work_runs_def prefix_ok_def mask_ok_def line_ok_def at_obj_set_urc_def)
  moreover have "mem_used (at_obj_set_urc tbl n s) = mem_used s" "queue (at_obj_set_urc tbl n s) = queue s"
    by (simp_all add: mem_used_def queue_def at_obj_set_urc_def)
  ultimately show ?thesis
    using at_ok_D [OF ok]
    by (simp add: at_ok'_def recv_ok_def items_ok_def queue_ok_def cursor_ok_def ctx_ok_def mem_ok_def) (simp add: at_obj_set_urc_def)
qed

lemma at_raw_enter_ok:
  assumes ok: "at_ok s"
  shows "at_ok (at_raw_transport_enter c s)"
proof -
  have "run_ok (s\<lparr>recv_cnt := 0\<rparr>)" using at_ok_D(3) [OF ok] by (simp add: run_ok_def work_runs_def prefix_ok_def mask_ok_def line_ok_def)
  then have "at_ok (s\<lparr>recv_cnt := 0\<rparr>)"
    using at_ok_D [OF ok] by (simp add: at_ok'_def at_ok_rest)
  then have "at_ok (s\<lparr>recv_cnt := 0, raw_conf := c, raw_trans := True\<rparr>)" by simp
  moreover have "at_raw_transport_enter c s = s\<lparr>recv_cnt := 0, raw_conf := c, raw_trans := True\<rparr>" by (simp add: at_raw_transport_enter_def)
  ultimately show ?thesis by (simp only:)
qed

lemma at_inv_step: "at_inv s \<Longrightarrow> at_step 0 s s' \<Longrightarrow> at_inv s'"
  by (auto simp: at_inv_def at_step_def at_frame_def)

lemma at_inv_D: "at_inv s \<Longrightarrow> at_ok s" by (simp add: at_inv_def)

lemma default_suffix [simp]: "attr_suffix at_def_attr = Some AT_DEF_RESP_OK" by (simp add: at_def_attr_def)

text \<open>A call is answered and keeps the invariant.\<close>

lemma queued_call:
  assumes "client_ok cl" "at_inv s" "work_ok (attr_of attr) w" "unat (work_extend w) < 2147483000"
  shows "\<exists>b s'. queued (add_work_item cl attr w s) = Some (b, s') \<and> at_inv s'"
  using queued_ok [OF assms(1) at_inv_D [OF assms(2)] assms(3,4)] at_inv_step [OF assms(2)] by blast

lemma at_call_ok:
  assumes cl: "client_ok cl" and inv: "at_inv s" and al: "at_allowed c s"
  shows "\<exists>b s'. at_call_step cl c s = Some (b, s') \<and> at_inv s'"
proof (cases c)
  case (Poll bs raw)
  then show ?thesis using at_obj_process_ok [OF cl inv, of bs raw] al by auto
next
  case (Time_Passes n)
  then show ?thesis using inv by (simp add: at_inv_def ex_bool_eq)
next
  case (Exec_Cmd attr cmd)
  then obtain r s' where "at_exec_vcmd cl attr cmd s = Some (r, s')" "at_step 0 s s'"
    using at_exec_vcmd_ok [OF cl at_inv_D [OF inv], of attr cmd] al by auto
  then show ?thesis using Exec_Cmd at_inv_step [OF inv] by (simp add: at_exec_cmd_def)
next
  case (Custom_Cmd attr f)
  then show ?thesis using queued_call [OF cl inv, of attr "WORK_TYPE_CUSTOM f"] al by (simp add: at_custom_cmd_def work_extend_def)
next
  case (Send_Data attr bs)
  then show ?thesis
    using queued_call [OF cl inv, of attr "WORK_TYPE_BUF bs"] al by (simp add: at_send_data_def work_extend_def unat_of_nat_lt)
next
  case (Send_Singlline attr c)
  then show ?thesis using queued_call [OF cl inv, of attr "WORK_TYPE_SINGLLINE c"] al by (simp add: at_send_singlline_def work_extend_def)
next
  case (Send_Multiline attr cmds)
  then show ?thesis using queued_call [OF cl inv, of attr "WORK_TYPE_MULTILINE cmds"] al by (simp add: at_send_multiline_def work_extend_def)
next
  case (Do_Work params f)
  then show ?thesis
    using queued_call [OF cl inv, of "Some (at_def_attr\<lparr>attr_params := params\<rparr>)" "WORK_TYPE_GENERAL f"]
    by (simp add: at_do_work_def work_extend_def)
next
  case Abort_All
  then show ?thesis using at_work_abort_all_ok [OF at_inv_D [OF inv]] at_inv_step [OF inv] by auto
next
  case (Context_Init k rb n)
  then have "at_ok (at_context_init k rb n s)" using at_context_init_ok [OF at_inv_D [OF inv], of rb n k] al by simp
  then show ?thesis using Context_Init inv by (simp add: at_inv_def ex_bool_eq) (simp add: at_context_init_def)
next
  case (Set_Urc tbl n)
  then have "at_ok (at_obj_set_urc tbl n s)" using at_obj_set_urc_ok [OF at_inv_D [OF inv], of n tbl] al by simp
  then show ?thesis using Set_Urc inv by (simp add: at_inv_def ex_bool_eq) (simp add: at_obj_set_urc_def)
next
  case (Urc_Set_Enable en t)
  then show ?thesis using inv by (simp add: at_inv_def ex_bool_eq at_obj_urc_set_enable_def Let_def)
next
  case (Raw_Enter c)
  then show ?thesis using at_raw_enter_ok [OF at_inv_D [OF inv], of c] al by (simp add: at_inv_def ex_bool_eq) (simp add: at_raw_transport_enter_def)
next
  case Raw_Leave
  then show ?thesis using inv by (simp add: at_inv_def ex_bool_eq at_raw_transport_exit_def)
next
  case (Set_Enable en)
  then show ?thesis using inv by (simp add: at_inv_def ex_bool_eq at_obj_set_enable_def)
next
  case (Set_User_Data d)
  then show ?thesis using inv by (simp add: at_inv_def ex_bool_eq at_obj_set_user_data_def)
qed

text \<open>The programs: an object is created, and calls follow.\<close>

inductive at_run :: "at_client \<Rightarrow> at_info \<Rightarrow> bool" for cl where
  created: "64 < unat (adap_recv_bufsize ad) \<Longrightarrow> 156 + buf_need ad \<le> 6144 \<Longrightarrow> at_cur_mem s = 0 \<Longrightarrow> ctx_ok s \<Longrightarrow>
    at_obj_create cl ad s = Some (True, s') \<Longrightarrow> at_run cl s'"
| call: "at_run cl s \<Longrightarrow> at_allowed c s \<Longrightarrow> at_call_step cl c s = Some (b, s') \<Longrightarrow> at_run cl s'"

lemma at_run_inv:
  assumes cl: "client_ok cl"
  shows "at_run cl s \<Longrightarrow> at_inv s"
proof (induction rule: at_run.induct)
  case (created ad s s')
  have "156 + buf_need ad + unat (at_cur_mem s) \<le> 6144" using created by simp
  from at_obj_create_room [OF cl this] obtain cur m where
    c: "at_obj_create cl ad s = Some (True, at_created cl ad cur m s)" "unat cur = unat (at_cur_mem s) + 156 + buf_need ad" by blast
  then have "unat cur = 156 + buf_need ad" "unat cur \<le> 6144" using created by simp_all
  then show ?case using at_created_ok [OF created(1,4)] c(1) created(5) by simp
next
  case (call s c b s')
  then show ?case using at_call_ok [OF cl call.IH call.hyps(2)] by auto
qed

inductive_cases at_run_cases: "at_run cl s"

end
