(* ===== verification/At_Serve.thy ===== *)
theory At_Serve
  imports At_Runs
begin

text \<open>
  How an AT client object serves its queues: the order of the items, the release of an object, and what aborting does.
\<close>

subsection \<open>The order of the items\<close>

text \<open>
  The abstract object: the item it runs and the two queues. A poll goes on with the running item, or takes the head of the queue of high
  priority, or the one of low priority when that is empty; an item that is over leaves its queue. Meanwhile requests may come.
\<close>

type_synonym at_queues = "nat option \<times> nat list \<times> nat list"

definition at_abs :: "at_info \<Rightarrow> at_queues" where "at_abs s = (cursor s, hlist s, llist s)"

fun next_item :: "at_queues \<Rightarrow> nat option" where
  "next_item (Some a, hi, lo) = Some a"
| "next_item (None, a # hi, lo) = Some a"
| "next_item (None, [], a # lo) = Some a"
| "next_item (None, [], []) = None"

inductive serve :: "at_queues \<Rightarrow> at_queues \<Rightarrow> bool" where
  idle: "serve (None, [], []) (None, [], [])"
| goes_on: "next_item (c, hi, lo) = Some a \<Longrightarrow> serve (c, hi, lo) (Some a, hi @ h, lo @ l)"
| over_high: "next_item (c, a # hi, lo) = Some a \<Longrightarrow> serve (c, a # hi, lo) (None, hi @ h, lo @ l)"
| over_low: "next_item (c, hi, a # lo) = Some a \<Longrightarrow> serve (c, hi, a # lo) (None, hi @ h, lo @ l)"

lemma next_item_abs: "next_item (at_abs s) = (case cursor s of Some a \<Rightarrow> Some a | None \<Rightarrow> at_work_next s)"
  by (cases "(cursor s, hlist s, llist s)" rule: next_item.cases) (simp_all add: at_abs_def at_work_next_def)

text \<open>An item that runs stands at the head of its queue.\<close>

lemma over_serve:
  assumes ok: "at_ok s" and c: "cursor s = Some a" and n: "next_item (c0, hi, lo) = Some a" and e: "hlist s = hi @ h" "llist s = lo @ l"
    and q: "(\<exists>as. hi = a # as) \<or> (\<exists>as. lo = a # as)" and r: "hlist s' = remove1 a (hlist s)" "llist s' = remove1 a (llist s)" "cursor s' = None"
  shows "serve (c0, hi, lo) (at_abs s')"
proof -
  have d: "distinct (hlist s @ llist s)" using at_ok_D(4) [OF ok] by (simp add: queue_ok_def queue_def)
  from q show ?thesis
  proof (elim disjE exE)
    fix as assume hi: "hi = a # as"
    then have "hlist s' = as @ h" "llist s' = lo @ l" using r(1,2) e d by (simp_all add: remove1_idem)
    then show ?thesis using over_high [of c0 a as lo h l] n hi r(3) by (simp add: at_abs_def)
  next
    fix as assume lo: "lo = a # as"
    then have "a \<notin> set (hlist s)" using d e by auto
    then have "hlist s' = hi @ h" "llist s' = as @ l" using r(1,2) e lo by (simp_all add: remove1_idem)
    then show ?thesis using over_low [of c0 hi a as h l] n lo r(3) by (simp add: at_abs_def)
  qed
qed

lemma at_work_run_serves:
  assumes cl: "client_ok cl" and ok: "at_ok s" and c: "cursor s = Some a" and raw: "\<not> raw_trans s"
    and n: "next_item (c0, hlist s, llist s) = Some a"
  shows "\<exists>s'. at_work_run cl a s = Some s' \<and> serve (c0, hlist s, llist s) (at_abs s')"
proof -
  obtain it where it: "items s a = Some it" using running_item [OF ok c] by blast
  obtain over s1 where s1: "(if work_over it then Some (True, s) else work_handler cl a s) = Some (over, s1)" "handled over s s1"
    using work_handler_ok [OF cl ok c it] handled_step [OF at_step_refl [OF ok], of True] by (cases "work_over it") auto
  obtain h l where hl: "hlist s1 = hlist s @ h" "llist s1 = llist s @ l" using s1(2) by (auto simp: handled_def client_step_def at_frame_def)
  have ok1: "at_ok s1" "cursor s1 = Some a" using s1(2) c by (simp_all add: handled_def client_step_def at_frame_def)
  have head: "(\<exists>as. hlist s = a # as) \<or> (\<exists>as. llist s = a # as)" using at_ok_D(5) [OF ok] c by (simp add: cursor_ok_def)
  show ?thesis
  proof (cases over)
    case True
    obtain s2 where s2: "at_work_end a s1 = Some s2" "cursor s2 = None" "hlist s2 = remove1 a (hlist s1)" "llist s2 = remove1 a (llist s1)"
      using at_work_end_ok [OF ok1] by blast
    have "serve (c0, hlist s, llist s) (at_abs s2)" by (rule over_serve [OF ok1 n hl head s2(3,4,2)])
    then show ?thesis using it s1(1) True s2(1) by (simp add: at_work_run_def)
  next
    case False
    have "serve (c0, hlist s, llist s) (at_abs s1)" using goes_on [OF n, of h l] ok1(2) hl by (simp add: at_abs_def)
    then show ?thesis using it s1(1) False by (simp add: at_work_run_def)
  qed
qed

lemma at_work_process_serves:
  assumes cl: "client_ok cl" and ok: "at_ok s" and raw: "\<not> raw_trans s"
  shows "\<exists>s'. at_work_process cl s = Some s' \<and> serve (at_abs s) (at_abs s')"
proof (cases "cursor s")
  case (Some a)
  then show ?thesis using at_work_run_serves [OF cl ok Some raw, of "Some a"] by (simp add: at_work_process_def at_abs_def)
next
  case None
  show ?thesis
  proof (cases "at_work_next s")
    case none: None
    then have "hlist s = []" "llist s = []" by (simp_all add: at_work_next_def split: list.splits)
    then show ?thesis using None none serve.idle by (simp add: at_work_process_def at_abs_def)
  next
    case (Some a)
    obtain s1 where s1: "at_work_start a s = Some s1" "at_ok s1" "cursor s1 = Some a" "raw_trans s1 = raw_trans s" "hlist s1 = hlist s" "llist s1 = llist s"
      using at_work_start_ok [OF ok None Some] by blast
    have "next_item (None, hlist s1, llist s1) = Some a" using next_item_abs [of s] None Some s1(5,6) by (simp add: at_abs_def)
    from at_work_run_serves [OF cl s1(2,3) _ this] show ?thesis
      using s1 None Some raw by (simp add: at_work_process_def at_abs_def)
  qed
qed

lemma at_obj_process_serves:
  assumes cl: "client_ok cl" and inv: "at_inv s" and raw: "\<not> raw_trans s" and bs: "length bs \<le> 64"
  shows "\<exists>s' h l. at_obj_process cl bs rw s = Some s' \<and> serve (cursor s, hlist s @ h, llist s @ l) (at_abs s')"
proof -
  have ok: "at_ok s" using inv by (rule at_inv_D)
  obtain s1 where s1: "urc_recv_process cl bs s = Some s1" "at_step 0 s s1" using urc_recv_process_ok [OF cl ok] by blast
  obtain s2 where s2: "resp_recv_process bs s1 = Some s2" "at_step 0 s1 s2" using resp_recv_process_ok [OF at_step_D [OF s1(2)] bs] by blast
  have st: "at_step 0 s s2" using at_step_trans [OF s1(2) s2(2)] .
  then obtain h l where "at_abs s2 = (cursor s, hlist s @ h, llist s @ l)" by (auto simp: at_step_def at_frame_def at_abs_def)
  moreover have "\<not> raw_trans s2" using st raw by (simp add: at_step_def)
  ultimately show ?thesis
    using at_work_process_serves [OF cl at_step_D [OF st]] s1(1) s2(1) raw bs by (auto simp: at_obj_process_def)
qed

subsection \<open>Aborting\<close>

lemma abort_list_effect:
  "abort_list as s = Some s' \<Longrightarrow>
    items s' = (\<lambda>a. if a \<in> set as then map_option (\<lambda>it. it\<lparr>item_state := AT_WORK_STAT_ABORT, item_code := AT_RESP_ABORT\<rparr>) (items s a) else items s a) \<and>
    hlist s' = hlist s \<and> llist s' = llist s \<and> trace s' = trace s \<and> cursor s' = cursor s \<and> raw_trans s' = raw_trans s \<and>
    (\<forall>k. ctxs s' k = (if \<exists>a \<in> set as. \<exists>it. items s a = Some it \<and> attr_ctx (item_attr it) = Some k
       then (ctxs s k)\<lparr>ctx_code := AT_RESP_ABORT, ctx_state := AT_WORK_STAT_ABORT\<rparr> else ctxs s k))"
proof (induction as arbitrary: s)
  case (Cons a as)
  then obtain it s1 where it: "items s a = Some it" and s1: "update_work_state a AT_WORK_STAT_ABORT AT_RESP_ABORT s = Some s1"
    and s': "abort_list as s1 = Some s'" by (auto simp: update_work_state_def split: Option.bind_splits)
  let ?f = "\<lambda>it. it\<lparr>item_state := AT_WORK_STAT_ABORT, item_code := AT_RESP_ABORT\<rparr>"
  have e: "items s1 = (items s)(a \<mapsto> ?f it)" "hlist s1 = hlist s" "llist s1 = llist s" "trace s1 = trace s" "cursor s1 = cursor s" "raw_trans s1 = raw_trans s"
    "\<And>k. ctxs s1 k = (if attr_ctx (item_attr it) = Some k then (ctxs s k)\<lparr>ctx_code := AT_RESP_ABORT, ctx_state := AT_WORK_STAT_ABORT\<rparr> else ctxs s k)"
    using s1 it by (cases "attr_ctx (item_attr it)"; auto simp: update_work_state_def upd_ctx_def Let_def)+
  have same: "(\<exists>it'. items s1 b = Some it' \<and> attr_ctx (item_attr it') = Some k) \<longleftrightarrow> (\<exists>it'. items s b = Some it' \<and> attr_ctx (item_attr it') = Some k)" for b k
    using it by (simp add: e(1))
  have "items s' = (\<lambda>b. if b \<in> set (a # as) then map_option ?f (items s b) else items s b)"
    using Cons.IH [OF s'] it by (auto simp: e(1) fun_eq_iff)
  moreover have "ctxs s' k = (if \<exists>b \<in> set (a # as). \<exists>it. items s b = Some it \<and> attr_ctx (item_attr it) = Some k
       then (ctxs s k)\<lparr>ctx_code := AT_RESP_ABORT, ctx_state := AT_WORK_STAT_ABORT\<rparr> else ctxs s k)" for k
  proof -
    have "ctxs s' k = (if \<exists>b \<in> set as. \<exists>it. items s1 b = Some it \<and> attr_ctx (item_attr it) = Some k
       then (ctxs s1 k)\<lparr>ctx_code := AT_RESP_ABORT, ctx_state := AT_WORK_STAT_ABORT\<rparr> else ctxs s1 k)" using Cons.IH [OF s'] by blast
    then show ?thesis unfolding same e(7) using it by auto
  qed
  ultimately show ?case using Cons.IH [OF s'] e by simp
qed simp

text \<open>An item that is over is thrown away without a transmission and without a callback.\<close>

definition all_over :: "at_info \<Rightarrow> bool" where "all_over s \<longleftrightarrow> (\<forall>a it. items s a = Some it \<longrightarrow> item_state it = AT_WORK_STAT_ABORT)"

lemma at_work_run_aborted:
  assumes ok: "at_ok s" and c: "cursor s = Some a" and ab: "all_over s"
  shows "\<exists>s'. at_work_run cl a s = Some s' \<and> at_ok s' \<and> cursor s' = None \<and> queue s' = remove1 a (queue s) \<and> a \<in> set (queue s) \<and>
    all_over s' \<and> trace s' = trace s \<and> ctxs s' = ctxs s"
proof -
  obtain it where it: "items s a = Some it" using running_item [OF ok c] by blast
  then have st: "item_state it = AT_WORK_STAT_ABORT" using ab by (simp add: all_over_def)
  obtain s1 where s1: "work_item_recycle a s = Some s1" "at_ok (s1\<lparr>cursor := None\<rparr>)" "hlist s1 = remove1 a (hlist s)" "llist s1 = remove1 a (llist s)"
    "items s1 = (items s)(a := None)"
    using work_item_recycle_ok [OF ok c] by blast
  have tr: "trace s1 = trace s" "ctxs s1 = ctxs s"
    using s1(1) it by (cases "list_cnt s = 0"; auto simp: work_item_recycle_def work_item_destroy_def at_core_free_def Let_def)+
  have q: "distinct (queue s)" "set (queue s) = dom (items s)" using at_ok_D(4) [OF ok] by (simp_all add: queue_ok_def)
  have "queue (s1\<lparr>cursor := None\<rparr>) = remove1 a (queue s)"
    using remove_head [OF q(1) at_ok_D(5) [OF ok] c] s1(3,4) by (simp add: queue_def)
  moreover have "at_work_run cl a s = Some (s1\<lparr>cursor := None\<rparr>)"
    using it st s1(1) by (simp add: at_work_run_def work_over_def at_work_end_def)
  moreover have "all_over (s1\<lparr>cursor := None\<rparr>)" using ab s1(5) by (simp add: all_over_def)
  ultimately show ?thesis using s1(2) tr q(2) it by auto
qed

lemma at_work_process_aborted:
  assumes ok: "at_ok s" and ab: "all_over s" and ne: "queue s \<noteq> []"
  shows "\<exists>s'. at_work_process cl s = Some s' \<and> at_ok s' \<and> length (queue s') = length (queue s) - 1 \<and> cursor s' = None \<and>
    all_over s' \<and> trace s' = trace s \<and> ctxs s' = ctxs s"
proof (cases "cursor s")
  case (Some a)
  then show ?thesis using at_work_run_aborted [OF ok Some ab, of cl] by (auto simp: at_work_process_def length_remove1)
next
  case None
  obtain a where a: "at_work_next s = Some a"
    using ne that by (cases "hlist s"; cases "llist s") (auto simp: at_work_next_def queue_def)
  obtain s1 where s1: "at_work_start a s = Some s1" "at_ok s1" "cursor s1 = Some a" "hlist s1 = hlist s" "llist s1 = llist s"
    using at_work_start_ok [OF ok None a] by blast
  have "a \<in> set (queue s)" using at_work_next_in [OF a] by (auto simp: queue_def)
  then obtain it where it: "items s a = Some it" using queued_item [OF ok] by blast
  then have "item_state it = AT_WORK_STAT_ABORT" using ab by (simp add: all_over_def)
  then have e: "items s1 = items s" "trace s1 = trace s" "ctxs s1 = ctxs s"
    using s1(1) it by (auto simp: at_work_start_def recvbuf_clear_def at_reset_timer_def Let_def split: Option.bind_splits)
  have q1: "queue s1 = queue s" using s1(4,5) by (simp add: queue_def)
  have "all_over s1" using ab e(1) by (simp add: all_over_def)
  from at_work_run_aborted [OF s1(2,3) this, of cl] show ?thesis
    using None a s1(1) e q1 by (auto simp: at_work_process_def length_remove1)
qed

fun work_polls :: "at_client \<Rightarrow> nat \<Rightarrow> at_info \<Rightarrow> at_info option" where
  "work_polls cl 0 s = Some s"
| "work_polls cl (Suc n) s = do { s \<leftarrow> at_work_process cl s; work_polls cl n s }"

lemma work_polls_aborted:
  "at_ok s \<Longrightarrow> all_over s \<Longrightarrow> length (queue s) = n \<Longrightarrow> (queue s = [] \<longrightarrow> cursor s = None) \<Longrightarrow>
    \<exists>s'. work_polls cl n s = Some s' \<and> queue s' = [] \<and> cursor s' = None \<and> trace s' = trace s \<and> ctxs s' = ctxs s"
proof (induction n arbitrary: s)
  case (Suc n)
  then have "queue s \<noteq> []" by auto
  from at_work_process_aborted [OF Suc.prems(1,2) this, of cl] obtain s1 where
    s1: "at_work_process cl s = Some s1" "at_ok s1" "length (queue s1) = n" "cursor s1 = None" "all_over s1" "trace s1 = trace s" "ctxs s1 = ctxs s"
    using Suc.prems(3) by auto
  then show ?case using Suc.IH [OF s1(2,5,3)] by auto
qed simp

subsection \<open>Releasing an object\<close>

lemma destroy_all_effect:
  "distinct as \<Longrightarrow> \<forall>a \<in> set as. items s a \<noteq> None \<Longrightarrow>
    \<exists>s'. work_item_destroy_all as s = Some s' \<and> at_cur_mem s' = at_cur_mem s - (\<Sum>a\<leftarrow>as. item_size (the (items s a))) \<and>
      (\<forall>b. b \<notin> set as \<longrightarrow> items s' b = items s b) \<and> recvbuf s' = recvbuf s \<and> recv_bufsize s' = recv_bufsize s \<and>
      urcbuf s' = urcbuf s \<and> urc_bufsize s' = urc_bufsize s \<and> (\<forall>b. llist s = b \<longrightarrow> set as \<inter> set b = {} \<longrightarrow> llist s' = b)"
proof (induction as arbitrary: s)
  case (Cons a as)
  then obtain it where it: "items s a = Some it" by auto
  let ?s1 = "at_core_free (item_size it) (s\<lparr>hlist := remove1 a (hlist s), llist := remove1 a (llist s), items := (items s)(a := None)\<rparr>)"
  have d: "work_item_destroy a (s\<lparr>hlist := remove1 a (hlist s), llist := remove1 a (llist s)\<rparr>) = Some ?s1"
    using it by (simp add: work_item_destroy_def)
  have e: "items ?s1 = (items s)(a := None)" "at_cur_mem ?s1 = at_cur_mem s - item_size it" "recvbuf ?s1 = recvbuf s" "urcbuf ?s1 = urcbuf s"
    "recv_bufsize ?s1 = recv_bufsize s" "urc_bufsize ?s1 = urc_bufsize s" "llist ?s1 = remove1 a (llist s)" by (simp_all add: at_core_free_def)
  have n: "a \<notin> set as" and "distinct as" "\<forall>b \<in> set as. items ?s1 b \<noteq> None" using Cons.prems by (auto simp: e(1))
  from Cons.IH [OF this(2,3)] obtain s' where s': "work_item_destroy_all as ?s1 = Some s'"
    "at_cur_mem s' = at_cur_mem ?s1 - (\<Sum>b\<leftarrow>as. item_size (the (items ?s1 b)))" "\<forall>b. b \<notin> set as \<longrightarrow> items s' b = items ?s1 b"
    "recvbuf s' = recvbuf s" "recv_bufsize s' = recv_bufsize s" "urcbuf s' = urcbuf s" "urc_bufsize s' = urc_bufsize s"
    "set as \<inter> set (remove1 a (llist s)) = {} \<longrightarrow> llist s' = remove1 a (llist s)"
    unfolding e by blast
  have "(\<Sum>b\<leftarrow>as. item_size (the (items ?s1 b))) = (\<Sum>b\<leftarrow>as. item_size (the (items s b)))"
    by (intro arg_cong [of _ _ sum_list] map_cong) (use n in \<open>auto simp: e(1)\<close>)
  then have "at_cur_mem s' = at_cur_mem s - (\<Sum>b\<leftarrow>a # as. item_size (the (items s b)))" using s'(2) it by (simp add: e(2))
  then show ?case using d s' by (auto simp: e(1) remove1_idem)
qed simp

lemma at_obj_destroy_effect:
  assumes ok: "at_ok s"
  shows "\<exists>s'. at_obj_destroy s = Some s' \<and> at_cur_mem s' = 0"
proof -
  have q: "distinct (hlist s)" "distinct (llist s)" "set (hlist s) \<inter> set (llist s) = {}" "set (queue s) = dom (items s)"
    using at_ok_D(4) [OF ok] by (auto simp: queue_ok_def queue_def)
  let ?sz = "\<lambda>a. item_size (the (items s a))"
  have "\<forall>a \<in> set (hlist s). items s a \<noteq> None" using q(4) by (auto simp: queue_def)
  from destroy_all_effect [OF q(1) this] obtain s1 where s1: "work_item_destroy_all (hlist s) s = Some s1"
    "at_cur_mem s1 = at_cur_mem s - (\<Sum>a\<leftarrow>hlist s. ?sz a)" "\<forall>b. b \<notin> set (hlist s) \<longrightarrow> items s1 b = items s b"
    "recvbuf s1 = recvbuf s" "recv_bufsize s1 = recv_bufsize s" "urcbuf s1 = urcbuf s" "urc_bufsize s1 = urc_bufsize s" "llist s1 = llist s"
    using q(3) by blast
  have it1: "items s1 b = items s b" if "b \<in> set (llist s)" for b using s1(3) q(3) that by blast
  have "\<forall>a \<in> set (llist s). items s1 a \<noteq> None" using q(4) it1 by (auto simp: queue_def)
  from destroy_all_effect [OF q(2) this] obtain s2 where s2: "work_item_destroy_all (llist s) s1 = Some s2"
    "at_cur_mem s2 = at_cur_mem s1 - (\<Sum>a\<leftarrow>llist s. item_size (the (items s1 a)))"
    "recvbuf s2 = recvbuf s1" "recv_bufsize s2 = recv_bufsize s1" "urcbuf s2 = urcbuf s1" "urc_bufsize s2 = urc_bufsize s1" by blast
  have "(\<Sum>a\<leftarrow>llist s. item_size (the (items s1 a))) = (\<Sum>a\<leftarrow>llist s. ?sz a)"
    by (intro arg_cong [of _ _ sum_list] map_cong) (use it1 in auto)
  then have cur: "at_cur_mem s2 = at_cur_mem s - (\<Sum>a\<leftarrow>queue s. ?sz a)" using s1(2) s2(2) by (simp add: queue_def)
  have "recvbuf s \<noteq> []" using at_ok_D(1) [OF ok] by (auto simp: recv_ok_def)
  let ?u = "if urcbuf s = None then 0 else ucast (urc_bufsize s) :: u32"
  have "\<exists>s'. at_obj_destroy s = Some s' \<and> at_cur_mem s' = at_cur_mem s2 - ucast (recv_bufsize s) - ?u - sizeof_at_info"
    using \<open>recvbuf s \<noteq> []\<close> s1(1,4-8) s2(1,3-6) by (simp add: at_obj_destroy_def at_core_free_def Let_def)
  moreover have "at_cur_mem s = (\<Sum>a\<leftarrow>queue s. ?sz a) + ucast (recv_bufsize s) + ?u + sizeof_at_info"
  proof -
    have "at_cur_mem s = of_nat (mem_used s)" using at_ok_D(8) [OF ok] unfolding mem_ok_def by (metis add_0_right of_nat_unat ucast_id)
    moreover have "of_nat (\<Sum>a\<leftarrow>as. unat (?sz a)) = (\<Sum>a\<leftarrow>as. ?sz a)" for as by (induction as) simp_all
    moreover have "of_nat (unat w) = (ucast w :: u32)" for w :: u16 by simp
    ultimately show ?thesis by (simp add: mem_used_def sizeof_at_info_def)
  qed
  ultimately show ?thesis unfolding cur by auto
qed

end
