(* ===== verification/At_Command.thy ===== *)
theory At_Command
  imports At_Serve
begin

text \<open>
  The commands of an AT client: how a response is classified as it comes in pieces, how often a command is sent, and what happens on a silent line.
\<close>

subsection \<open>The search for a response\<close>

definition no_string :: "cstring option \<Rightarrow> bool" where "no_string p \<longleftrightarrow> p = None \<or> p = Some []"

text \<open>The string in the receive buffer, and when it is the response a command waits for: its suffix stands behind its prefix.\<close>

definition resp_text :: "at_info \<Rightarrow> cstring" where "resp_text s = takeWhile (\<lambda>b. b \<noteq> 0) (recvbuf s)"

definition contains :: "cstring \<Rightarrow> cstring \<Rightarrow> bool" where "contains t p \<longleftrightarrow> (\<exists>u v. t = u @ p @ v)"

definition responds :: "at_attr \<Rightarrow> cstring \<Rightarrow> bool" where
  "responds attr t \<longleftrightarrow>
     (\<exists>u v. t = u @ v \<and> (if no_string (attr_prefix attr) then u = [] else \<exists>w. v = the (attr_prefix attr) @ w) \<and>
       contains v (the (attr_suffix attr)))"

text \<open>What has been found in an earlier part of the response; the first occurrence stays the first one.\<close>

definition matched :: "at_attr \<Rightarrow> cstring \<Rightarrow> at_info \<Rightarrow> bool" where
  "matched attr t s \<longleftrightarrow>
     at_prefix s = (if no_string (attr_prefix attr) then None else strstr t (the (attr_prefix attr))) \<and>
     match_mask s = mask_if (no_string (attr_prefix attr) \<or> at_prefix s \<noteq> None) MATCH_MASK_PREFIX"

lemma contains_strstr: "contains t p \<longleftrightarrow> strstr t p \<noteq> None" using strstr_iff by (simp add: contains_def)

lemma strstr_eqI:
  assumes "take (length p) (drop k t) = p" "k \<le> length t" "\<And>j. j < k \<Longrightarrow> take (length p) (drop j t) \<noteq> p"
  shows "strstr t p = Some k"
proof -
  have "strstr t p \<noteq> None" using strstr_None assms(1,2) by blast
  then obtain i where i: "strstr t p = Some i" by blast
  have "take (length p) (drop i t) = p" using strstr_bound [OF i] by blast
  then have "\<not> i < k" using assms(3) by blast
  moreover have "\<not> k < i" using strstr_first [OF i] assms(1) by blast
  ultimately show ?thesis using i by simp
qed

lemma strstr_append: "strstr t p = Some k \<Longrightarrow> strstr (t @ t') p = Some k"
proof -
  assume k: "strstr t p = Some k"
  note b = strstr_bound [OF k]
  have "take (length p) (drop j (t @ t')) \<noteq> p" if "j < k" for j
    using strstr_first [OF k that] b that by simp
  then show ?thesis using b by (intro strstr_eqI) simp_all
qed

lemma responds_prefix:
  assumes "\<not> no_string (attr_prefix attr)" "strstr t (the (attr_prefix attr)) = Some k"
  shows "responds attr t \<longleftrightarrow> contains (drop k t) (the (attr_suffix attr))"
proof
  let ?p = "the (attr_prefix attr)"
  note b = strstr_bound [OF assms(2)]
  assume "responds attr t"
  then obtain u v w where e: "t = u @ v" "v = ?p @ w" "contains v (the (attr_suffix attr))"
    using assms(1) unfolding responds_def by auto
  from e(3) obtain x y where v: "v = x @ the (attr_suffix attr) @ y" unfolding contains_def by blast
  have "take (length ?p) (drop (length u) t) = ?p" using e(1,2) by simp
  then have "k \<le> length u" using strstr_first [OF assms(2), of "length u"] by (meson not_le)
  then have "drop k t = (drop k u @ x) @ the (attr_suffix attr) @ y" using e(1) v by simp
  then show "contains (drop k t) (the (attr_suffix attr))" unfolding contains_def by blast
next
  let ?p = "the (attr_prefix attr)"
  assume c: "contains (drop k t) (the (attr_suffix attr))"
  have "drop k t = ?p @ drop (length ?p) (drop k t)" using strstr_bound [OF assms(2)] by (metis append_take_drop_id)
  then have w: "\<exists>w. drop k t = ?p @ w" by blast
  have e: "t = take k t @ drop k t" by simp
  show "responds attr t" using assms(1) c w e unfolding responds_def if_not_P [OF assms(1)] by blast
qed

lemma responds_plain: "no_string (attr_prefix attr) \<Longrightarrow> responds attr t \<longleftrightarrow> contains t (the (attr_suffix attr))"
  by (auto simp: responds_def)

lemma responds_none:
  assumes "\<not> no_string (attr_prefix attr)" "strstr t (the (attr_prefix attr)) = None"
  shows "\<not> responds attr t"
  using assms contains_strstr [of t "the (attr_prefix attr)"] by (auto simp: responds_def contains_def)

text \<open>A part of a string is the string from there.\<close>

lemma cstr_Suc: "cstr (b # buf) (Suc k) = cstr buf k" by (simp add: cstr_def)

lemma cstr_drop: "0 \<in> set buf \<Longrightarrow> k \<le> length (takeWhile (\<lambda>b. b \<noteq> 0) buf) \<Longrightarrow> cstr buf k = Some (drop k (takeWhile (\<lambda>b. b \<noteq> 0) buf))"
proof (induction buf arbitrary: k)
  case (Cons b buf)
  then show ?case by (cases "b = 0"; cases k) (auto simp: cstr_Suc)
qed simp

lemma recv_strstr_text:
  assumes "0 \<in> set (recvbuf s)" "k \<le> length (resp_text s)"
  shows "recv_strstr k (Some p) s = Some (map_option ((+) k) (strstr (drop k (resp_text s)) p))"
  using cstr_drop [of "recvbuf s" k] assms by (simp add: recv_strstr_def resp_text_def)

text \<open>The search changes its own fields only.\<close>

definition searched :: "at_info \<Rightarrow> at_info \<Rightarrow> bool" where
  "searched s s1 \<longleftrightarrow>
     s1 = s\<lparr>match_len := match_len s1, at_prefix := at_prefix s1, at_suffix := at_suffix s1, match_mask := match_mask s1\<rparr>"

lemma searched_refl: "searched s s" by (simp add: searched_def)

lemma cmd_match_searched: "cmd_match attr s = Some s1 \<Longrightarrow> searched s s1"
  unfolding cmd_match_def
  by (auto simp: Let_def searched_def split: if_splits Option.bind_splits)

lemma searched_fields:
  assumes "searched s s1"
  shows "env_i s1 = env_i s" "env_state s1 = env_state s" "items s1 = items s" "at_ms s1 = at_ms s" "timer s1 = timer s" "trace s1 = trace s"
    "recvbuf s1 = recvbuf s" "cursor s1 = cursor s"
  by (subst assms [unfolded searched_def], simp)+

lemma mask_if_False [simp]: "mask_if False m = 0" by (simp add: mask_if_def)

text \<open>The first part of the search brings what is matched up to date.\<close>

lemma cmd_match_prefix:
  assumes nul: "0 \<in> set (recvbuf s)" and m: "matched attr t0 s" and t: "resp_text s = t0 @ x"
  shows "\<exists>k m. (if match_mask s AND MATCH_MASK_PREFIX = 0
      then do { k \<leftarrow> recv_strstr 0 (attr_prefix attr) s; Some (s\<lparr>at_prefix := k, match_mask := match_mask s OR mask_if (k \<noteq> None) MATCH_MASK_PREFIX\<rparr>) }
      else Some s) = Some (s\<lparr>at_prefix := k, match_mask := m\<rparr>) \<and> matched attr (resp_text s) (s\<lparr>at_prefix := k, match_mask := m\<rparr>)"
proof (cases "no_string (attr_prefix attr)")
  case True
  then show ?thesis using m by (intro exI [of _ "at_prefix s"] exI [of _ "match_mask s"]) (simp add: matched_def)
next
  case False
  then obtain p where p: "attr_prefix attr = Some p" by (auto simp: no_string_def)
  show ?thesis
  proof (cases "strstr t0 p")
    case None
    have "recv_strstr 0 (Some p) s = Some (strstr (resp_text s) p)"
      using recv_strstr_text [OF nul, of 0 p] by (cases "strstr (resp_text s) p") simp_all
    then show ?thesis using False None m p by (simp add: matched_def)
  next
    case (Some k)
    then have "strstr (resp_text s) p = Some k" using strstr_append t by simp
    then show ?thesis using False Some m p by (intro exI [of _ "at_prefix s"] exI [of _ "match_mask s"]) (simp add: matched_def)
  qed
qed

lemma responds_matched:
  assumes "matched attr t s"
  shows "responds attr t \<longleftrightarrow> bit (match_mask s) 0 \<and> contains (drop (case at_prefix s of None \<Rightarrow> 0 | Some p \<Rightarrow> p) t) (the (attr_suffix attr))"
proof (cases "no_string (attr_prefix attr)")
  case True
  then show ?thesis using assms responds_plain [OF True] by (simp add: matched_def)
next
  case False
  show ?thesis
  proof (cases "strstr t (the (attr_prefix attr))")
    case None
    then show ?thesis using assms False responds_none [OF False None] by (simp add: matched_def)
  next
    case (Some k)
    then show ?thesis using assms False responds_prefix [OF False Some] by (simp add: matched_def)
  qed
qed

lemma matched_prefix_le: "matched attr t s \<Longrightarrow> (case at_prefix s of None \<Rightarrow> 0 | Some p \<Rightarrow> p) \<le> length t"
  using strstr_bound by (fastforce simp: matched_def split: option.splits if_splits)

text \<open>A search when bytes have come: the masks tell of the whole response so far.\<close>

lemma cmd_match_result:
  assumes nul: "0 \<in> set (recvbuf s)" and m: "matched attr t0 s" and t: "resp_text s = t0 @ x" and suf: "attr_suffix attr = Some suf"
    and new: "match_len s \<noteq> recv_cnt s"
  shows "\<exists>s1. cmd_match attr s = Some s1 \<and> searched s s1 \<and>
    (bit (match_mask s1) 1 \<longleftrightarrow> responds attr (resp_text s)) \<and> (bit (match_mask s1) 2 \<longleftrightarrow> contains (resp_text s) AT_DEF_RESP_ERR) \<and>
    (\<not> responds attr (resp_text s) \<longrightarrow> \<not> contains (resp_text s) AT_DEF_RESP_ERR \<longrightarrow> matched attr (resp_text s) s1)"
proof -
  let ?s0 = "s\<lparr>match_len := recv_cnt s\<rparr>"
  let ?t = "resp_text s"
  have t0: "resp_text ?s0 = ?t" by (simp add: resp_text_def)
  have "matched attr t0 ?s0" using m by (simp add: matched_def)
  then obtain k n where k: "(if match_mask ?s0 AND MATCH_MASK_PREFIX = 0
      then do { k \<leftarrow> recv_strstr 0 (attr_prefix attr) ?s0; Some (?s0\<lparr>at_prefix := k, match_mask := match_mask ?s0 OR mask_if (k \<noteq> None) MATCH_MASK_PREFIX\<rparr>) }
      else Some ?s0) = Some (?s0\<lparr>at_prefix := k, match_mask := n\<rparr>)" "matched attr ?t (?s0\<lparr>at_prefix := k, match_mask := n\<rparr>)"
    using cmd_match_prefix [of ?s0 attr t0 x] nul t unfolding t0 by auto
  let ?s1 = "?s0\<lparr>at_prefix := k, match_mask := n\<rparr>"
  let ?k = "case k of None \<Rightarrow> 0 | Some p \<Rightarrow> p"
  have n: "n = mask_if (bit n 0) MATCH_MASK_PREFIX" using k(2) by (simp add: matched_def)
  have t1: "resp_text ?s1 = ?t" by (simp add: resp_text_def)
  have r: "responds attr ?t \<longleftrightarrow> bit n 0 \<and> contains (drop ?k ?t) suf" using responds_matched [OF k(2)] suf by simp
  have le: "?k \<le> length ?t" using matched_prefix_le [OF k(2)] by simp
  let ?q = "map_option ((+) ?k) (strstr (drop ?k ?t) suf)"
  have q: "recv_strstr ?k (Some suf) ?s1 = Some ?q" using recv_strstr_text [of ?s1 ?k suf] nul le unfolding t1 by simp
  let ?s2 = "if bit n 0 then ?s1\<lparr>at_suffix := ?q, match_mask := n OR mask_if (?q \<noteq> None) MATCH_MASK_SUFFIX\<rparr> else ?s1"
  have s2: "(if match_mask ?s1 AND MATCH_MASK_PREFIX \<noteq> 0
      then do { k \<leftarrow> recv_strstr (case at_prefix ?s1 of None \<Rightarrow> 0 | Some p \<Rightarrow> p) (attr_suffix attr) ?s1;
                Some (?s1\<lparr>at_suffix := k, match_mask := match_mask ?s1 OR mask_if (k \<noteq> None) MATCH_MASK_SUFFIX\<rparr>) }
      else Some ?s1) = Some ?s2"
    using q suf by (cases "bit n 0") simp_all
  have "recvbuf ?s2 = recvbuf s" by simp
  then have "0 \<in> set (recvbuf ?s2)" "resp_text ?s2 = ?t" using nul by (simp_all only: resp_text_def)
  then obtain e where e: "recv_strstr 0 (Some AT_DEF_RESP_ERR) ?s2 = Some e" "e \<noteq> None \<longleftrightarrow> contains ?t AT_DEF_RESP_ERR"
    using recv_strstr_text [of ?s2 0 AT_DEF_RESP_ERR] contains_strstr [of ?t AT_DEF_RESP_ERR] by auto
  let ?s3 = "?s2\<lparr>match_mask := match_mask ?s2 OR mask_if (e \<noteq> None) MATCH_MASK_ERROR\<rparr>"
  have s3: "cmd_match attr s = Some ?s3"
    using new k(1) s2 e(1) unfolding cmd_match_def Let_def by (simp only: if_False Option.bind.bind_lunit)
  have b: "\<not> bit n 1" "\<not> bit n 2" using n mask_bit(1) [of "bit n 0"] by (metis one_neq_zero, metis zero_neq_numeral)
  have "bit (match_mask ?s3) 1 \<longleftrightarrow> responds attr ?t"
    using b r contains_strstr [of "drop ?k ?t" suf] by (cases "bit n 0") (simp_all add: bit_or_iff)
  moreover have "bit (match_mask ?s3) 2 \<longleftrightarrow> contains ?t AT_DEF_RESP_ERR"
    using b e(2) by (cases "bit n 0") (simp_all add: bit_or_iff)
  moreover have "matched attr ?t ?s3" if "\<not> responds attr ?t" "\<not> contains ?t AT_DEF_RESP_ERR"
  proof -
    have none: "e = None" using that e(2) by auto
    have "\<exists>q. ?s2 = ?s1\<lparr>at_suffix := q\<rparr>"
    proof (cases "bit n 0")
      case True
      then have q: "?q = None" using that(1) r contains_strstr [of "drop ?k ?t" suf] by auto
      have "?s2 = ?s1\<lparr>at_suffix := None, match_mask := n OR mask_if (None \<noteq> (None :: nat option)) MATCH_MASK_SUFFIX\<rparr>"
        unfolding q using True by (simp only: if_True)
      then have "?s2 = ?s1\<lparr>at_suffix := None\<rparr>" by (simp del: if_split)
      then show ?thesis by blast
    next
      case False
      then have "?s2 = ?s1\<lparr>at_suffix := at_suffix ?s1\<rparr>" by (simp only: if_False) simp
      then show ?thesis by blast
    qed
    then obtain q' where q': "?s2 = ?s1\<lparr>at_suffix := q'\<rparr>" by blast
    show ?thesis unfolding q' using k(2) none by (simp add: matched_def)
  qed
  ultimately show ?thesis using s3 cmd_match_searched [OF s3] by blast
qed

lemma just_reset [simp]: "at_is_timeout t (at_reset_timer s) = False"
  by (simp add: at_is_timeout_def AT_IS_TIMEOUT_def at_reset_timer_def)

lemma matched_init: "attr_suffix attr = Some suf \<Longrightarrow> suf \<noteq> [] \<Longrightarrow> matched attr [] (match_info_init attr s)"
  by (cases "attr_prefix attr") (auto simp: matched_def match_info_init_def Let_def no_string_def mask_if_def)

text \<open>What becomes of a command, by the response so far; \<open>s1\<close> is the state after the search.\<close>

definition verdict :: "at_client \<Rightarrow> nat \<Rightarrow> at_attr \<Rightarrow> at_info \<Rightarrow> at_info \<Rightarrow> (bool \<times> at_info) option" where
  "verdict cl a attr s s1 =
     (let err = contains (resp_text s) AT_DEF_RESP_ERR; last = (env_i s \<ge> uint (attr_retry attr));
      again = at_reset_timer (s1\<lparr>env_i := env_i s + 1, env_state := AT_STAT_RETRY\<rparr>) in
      if err \<and> last then cmd_done cl a AT_RESP_ERROR (s1\<lparr>env_i := env_i s + 1\<rparr>)
      else if responds attr (resp_text s) then cmd_done cl a AT_RESP_OK (if err then again else s1)
      else if err then Some (False, again)
      else if \<not> at_is_timeout (ucast (attr_timeout attr)) s then Some (False, s1)
      else if last then cmd_done cl a AT_RESP_TIMEOUT (s1\<lparr>env_i := env_i s + 1\<rparr>)
      else Some (False, s1\<lparr>env_i := env_i s + 1, env_state := AT_STAT_SEND\<rparr>))"

lemma cmd_recv_result:
  assumes nul: "0 \<in> set (recvbuf s)" and m: "matched attr t0 s" and t: "resp_text s = t0 @ x" and suf: "attr_suffix attr = Some suf"
    and new: "match_len s \<noteq> recv_cnt s"
  shows "\<exists>s1. searched s s1 \<and> (\<not> responds attr (resp_text s) \<longrightarrow> \<not> contains (resp_text s) AT_DEF_RESP_ERR \<longrightarrow> matched attr (resp_text s) s1) \<and>
    cmd_recv cl a attr s = verdict cl a attr s s1"
proof -
  obtain s1 where s1: "cmd_match attr s = Some s1" "searched s s1" "bit (match_mask s1) 1 \<longleftrightarrow> responds attr (resp_text s)"
    "bit (match_mask s1) 2 \<longleftrightarrow> contains (resp_text s) AT_DEF_RESP_ERR"
    "\<not> responds attr (resp_text s) \<longrightarrow> \<not> contains (resp_text s) AT_DEF_RESP_ERR \<longrightarrow> matched attr (resp_text s) s1"
    using cmd_match_result [OF nul m t suf new] by blast
  note f = searched_fields [OF s1(2)]
  have to: "at_is_timeout k s1 = at_is_timeout k s" for k using f by (simp add: at_is_timeout_def AT_IS_TIMEOUT_def)
  have mm: "match_mask (at_reset_timer (s1\<lparr>env_i := i, env_state := j\<rparr>)) = match_mask s1" for i j by (simp add: at_reset_timer_def)
  have "cmd_recv cl a attr s = verdict cl a attr s s1"
  proof (cases "contains (resp_text s) AT_DEF_RESP_ERR")
    case True
    then show ?thesis
      using s1(1,3,4) f(1) mm
      by (cases "uint (attr_retry attr) \<le> env_i s"; cases "responds attr (resp_text s)") (simp_all add: cmd_recv_def verdict_def Let_def)
  next
    case False
    then show ?thesis using s1(1,3,4) f(1) to by (simp add: cmd_recv_def verdict_def Let_def)
  qed
  then show ?thesis using s1(2,5) by blast
qed

subsection \<open>How often a command is sent\<close>

text \<open>How many transmissions a command may still make.\<close>

definition sends_left :: "at_attr \<Rightarrow> at_info \<Rightarrow> int" where
  "sends_left attr s = (if env_state s = AT_STAT_RECV then uint (attr_retry attr) - env_i s else uint (attr_retry attr) + 1 - env_i s)"

definition command_alive :: "at_attr \<Rightarrow> work \<Rightarrow> nat \<Rightarrow> at_info \<Rightarrow> bool" where
  "command_alive attr w a s \<longleftrightarrow> (\<exists>it. items s a = Some it \<and> item_attr it = attr \<and> item_work it = w) \<and> env_i s \<le> uint (attr_retry attr)"

fun own_sender :: "work \<Rightarrow> bool" where
  "own_sender (WORK_TYPE_CUSTOM f) = True"
| "own_sender _ = False"

lemma cmd_send_fields:
  "\<not> own_sender w \<Longrightarrow> cmd_send cl w s = Some s1 \<Longrightarrow> \<exists>tr. s1 = s\<lparr>trace := tr\<rparr>"
  by (cases w) (auto simp: cmd_send_def send_data_def send_cmdline_def note_event_def
      intro: exI [of _ "trace s"] split: option.splits Option.bind_splits)

lemma do_cmd_send:
  assumes "command_alive attr w a s" "\<not> own_sender w" "env_state s = AT_STAT_SEND" "do_cmd_handler cl a s = Some (b, s')"
  shows "\<not> b \<and> command_alive attr w a s' \<and> sends_left attr s' = sends_left attr s - 1"
proof -
  obtain it where it: "items s a = Some it" "item_attr it = attr" "item_work it = w" "env_i s \<le> uint (attr_retry attr)"
    using assms(1) by (auto simp: command_alive_def)
  obtain s1 where s1: "cmd_send cl w s = Some s1" using assms(3,4) it by (auto simp: do_cmd_handler_def Let_def split: Option.bind_splits)
  then obtain tr where tr: "s1 = s\<lparr>trace := tr\<rparr>" using cmd_send_fields [OF assms(2)] by blast
  then show ?thesis
    using assms(3,4) it s1
    by (auto simp: do_cmd_handler_def Let_def recvbuf_clear_def at_reset_timer_def match_info_init_def command_alive_def sends_left_def
        split: Option.bind_splits)
qed

lemma do_cmd_other:
  assumes "command_alive attr w a s" "env_state s \<noteq> AT_STAT_SEND" "do_cmd_handler cl a s = Some (False, s')"
  shows "command_alive attr w a s' \<and> sends_left attr s' \<le> sends_left attr s"
proof -
  obtain it where it: "items s a = Some it" "item_attr it = attr" "item_work it = w" "env_i s \<le> uint (attr_retry attr)"
    using assms(1) by (auto simp: command_alive_def)
  show ?thesis
  proof (cases "env_state s = AT_STAT_RECV")
    case True
    then have r: "cmd_recv cl a attr s = Some (False, s')" using assms(3) it by (simp add: do_cmd_handler_def)
    then obtain s1 where s1: "cmd_match attr s = Some s1" by (auto simp: cmd_recv_def split: Option.bind_splits)
    note f = searched_fields [OF cmd_match_searched [OF s1]]
    have over: "cmd_done cl a c s2 \<noteq> Some (False, s')" for c s2 by (auto simp: cmd_done_def split: Option.bind_splits)
    show ?thesis
      using r s1 it f(1-3) True over
      by (auto simp: cmd_recv_def Let_def at_reset_timer_def at_is_timeout_def AT_IS_TIMEOUT_def command_alive_def sends_left_def split: if_splits)
  next
    case False
    then show ?thesis using assms(2,3) it by (auto simp: do_cmd_handler_def Let_def command_alive_def sends_left_def split: if_splits)
  qed
qed

text \<open>
  A command that is polled, again and again: \<open>gs\<close> is what happens to the object before each poll. The number counts the polls
  that transmit.
\<close>

fun cmd_polls :: "at_client \<Rightarrow> nat \<Rightarrow> (at_info \<Rightarrow> at_info) list \<Rightarrow> at_info \<Rightarrow> (nat \<times> bool \<times> at_info) option" where
  "cmd_polls cl a [] s = Some (0, False, s)"
| "cmd_polls cl a (g # gs) s =
     do { let s = g s;
          let n = (if env_state s = AT_STAT_SEND then 1 else 0);
          (over, s) \<leftarrow> do_cmd_handler cl a s;
          if over then Some (n, True, s)
          else do { (m, r) \<leftarrow> cmd_polls cl a gs s; Some (n + m, r) } }"

definition leaves_command :: "nat \<Rightarrow> (at_info \<Rightarrow> at_info) \<Rightarrow> bool" where
  "leaves_command a g \<longleftrightarrow> (\<forall>s. env_i (g s) = env_i s \<and> env_state (g s) = env_state s \<and>
     map_option (\<lambda>it. (item_attr it, item_work it)) (items (g s) a) = map_option (\<lambda>it. (item_attr it, item_work it)) (items s a))"

lemma leaves_command_alive:
  "leaves_command a g \<Longrightarrow> command_alive attr w a s \<Longrightarrow> command_alive attr w a (g s) \<and> sends_left attr (g s) = sends_left attr s \<and> env_state (g s) = env_state s"
proof -
  assume g: "leaves_command a g" and al: "command_alive attr w a s"
  then have "map_option (\<lambda>it. (item_attr it, item_work it)) (items (g s) a) = Some (attr, w)" "env_i (g s) = env_i s" "env_state (g s) = env_state s"
    by (auto simp: leaves_command_def command_alive_def)
  then show ?thesis using al by (auto simp: command_alive_def sends_left_def)
qed

lemma sends_left_pos: "command_alive attr w a s \<Longrightarrow> 0 \<le> sends_left attr s \<and> (env_state s = AT_STAT_SEND \<longrightarrow> 1 \<le> sends_left attr s)"
  by (auto simp: command_alive_def sends_left_def)

lemma cmd_polls_bound:
  assumes w: "\<not> own_sender w"
  shows "command_alive attr w a s \<Longrightarrow> \<forall>g \<in> set gs. leaves_command a g \<Longrightarrow> cmd_polls cl a gs s = Some (n, r) \<Longrightarrow> int n \<le> sends_left attr s"
proof (induction gs arbitrary: s n r)
  case Nil
  then show ?case using sends_left_pos by auto
next
  case (Cons g gs)
  let ?s = "g s"
  have al: "command_alive attr w a ?s" "sends_left attr ?s = sends_left attr s" using leaves_command_alive [OF _ Cons.prems(1), of g] Cons.prems(2) by auto
  let ?n = "if env_state ?s = AT_STAT_SEND then 1 else 0 :: nat"
  obtain over s1 where s1: "do_cmd_handler cl a ?s = Some (over, s1)" using Cons.prems(3) by (auto simp: Let_def split: Option.bind_splits)
  show ?case
  proof (cases over)
    case True
    then have "n = ?n" using Cons.prems(3) s1 by (simp add: Let_def split: if_splits)
    then show ?thesis using sends_left_pos [OF al(1)] al(2) by (cases "env_state ?s = AT_STAT_SEND") auto
  next
    case False
    then obtain m r' where m: "cmd_polls cl a gs s1 = Some (m, r')" "n = ?n + m"
      using Cons.prems(3) s1 by (auto simp: Let_def split: Option.bind_splits if_splits)
    have s1': "do_cmd_handler cl a ?s = Some (False, s1)" using s1 False by simp
    have "command_alive attr w a s1 \<and> sends_left attr s1 \<le> sends_left attr ?s - int ?n"
      using do_cmd_send [OF al(1) w _ s1] do_cmd_other [OF al(1) _ s1'] by (cases "env_state ?s = AT_STAT_SEND") auto
    then show ?thesis using Cons.IH [OF _ _ m(1)] Cons.prems(2) m(2) al(2) by fastforce
  qed
qed

subsection \<open>A silent line\<close>

definition transmission :: "work \<Rightarrow> at_event list" where
  "transmission w =
     (case w of WORK_TYPE_BUF bs \<Rightarrow> [At_Write bs] | WORK_TYPE_SINGLLINE (Some c) \<Rightarrow> [At_Write c, At_Write [13, 10]]
      | WORK_TYPE_CMD bs \<Rightarrow> [At_Write (takeWhile (\<lambda>b. b \<noteq> 0) bs), At_Write [13, 10]] | _ \<Rightarrow> [])"

lemma cmd_send_transmission:
  "work_ok attr w \<Longrightarrow> command_work w \<Longrightarrow> \<not> own_sender w \<Longrightarrow> cmd_send cl w s = Some (s\<lparr>trace := trace s @ transmission w\<rparr>)"
  by (cases w) (auto simp: cmd_send_def send_data_def send_cmdline_def note_event_def transmission_def split: option.splits)

text \<open>The command is polled, time passes, and it is polled again; this \<open>n\<close> times.\<close>

fun silent_polls :: "at_client \<Rightarrow> nat \<Rightarrow> u32 \<Rightarrow> nat \<Rightarrow> at_info \<Rightarrow> (bool \<times> at_info) option" where
  "silent_polls cl a t 0 s = Some (False, s)"
| "silent_polls cl a t (Suc n) s =
     do { (_, s) \<leftarrow> do_cmd_handler cl a s;
          (over, s) \<leftarrow> do_cmd_handler cl a (s\<lparr>at_ms := at_ms s + t\<rparr>);
          if over then Some (True, s) else silent_polls cl a t n s }"

lemma silent_cycle:
  assumes it: "items s a = Some it" "item_attr it = attr" "item_work it = w" and w: "work_ok attr w" "command_work w" "\<not> own_sender w"
    and suf: "attr_suffix attr = Some suf" "suf \<noteq> []" and st: "env_state s = AT_STAT_SEND" and buf: "recvbuf s \<noteq> []" and t: "ucast (attr_timeout attr) < t"
  shows "\<exists>s1. do_cmd_handler cl a s = Some (False, s1) \<and>
    do_cmd_handler cl a (s1\<lparr>at_ms := at_ms s1 + t\<rparr>) =
      (if env_i s \<ge> uint (attr_retry attr) then cmd_done cl a AT_RESP_TIMEOUT (s1\<lparr>at_ms := at_ms s1 + t, env_i := env_i s + 1\<rparr>)
       else Some (False, s1\<lparr>at_ms := at_ms s1 + t, env_i := env_i s + 1, env_state := AT_STAT_SEND\<rparr>)) \<and>
    items s1 = items s \<and> trace s1 = trace s @ transmission w \<and> at_ms s1 = at_ms s \<and> recvbuf s1 \<noteq> []"
proof -
  let ?s0 = "s\<lparr>trace := trace s @ transmission w, env_state := AT_STAT_RECV, timer := at_ms s, recvbuf := (recvbuf s)[0 := 0], recv_cnt := 0\<rparr>"
  let ?s1 = "match_info_init attr ?s0"
  have send: "do_cmd_handler cl a s = Some (False, ?s1)"
    using it st buf cmd_send_transmission [OF w, of cl s] by (simp add: do_cmd_handler_def Let_def recvbuf_clear_def at_reset_timer_def)
  have f: "items ?s1 = items s" "trace ?s1 = trace s @ transmission w" "at_ms ?s1 = at_ms s" "recvbuf ?s1 \<noteq> []" "env_i ?s1 = env_i s"
    "env_state ?s1 = AT_STAT_RECV" "timer ?s1 = at_ms s" "match_len ?s1 = recv_cnt ?s1"
    using buf by (simp_all add: match_info_init_def Let_def)
  have mm: "\<not> bit (match_mask ?s1) 1" "\<not> bit (match_mask ?s1) 2"
    using matched_init [OF suf, of ?s0] by (simp_all add: matched_def)
  let ?s2 = "?s1\<lparr>at_ms := at_ms ?s1 + t\<rparr>"
  have m: "cmd_match attr ?s2 = Some ?s2" using f(8) by (simp add: cmd_match_def)
  have to: "at_is_timeout (ucast (attr_timeout attr)) ?s2" using t f(3,7) by (simp add: at_is_timeout_def AT_IS_TIMEOUT_def)
  have "do_cmd_handler cl a ?s2 = cmd_recv cl a attr ?s2" using it f(1,6) by (simp add: do_cmd_handler_def)
  also have "\<dots> = (if env_i s \<ge> uint (attr_retry attr) then cmd_done cl a AT_RESP_TIMEOUT (?s2\<lparr>env_i := env_i s + 1\<rparr>)
       else Some (False, ?s2\<lparr>env_i := env_i s + 1, env_state := AT_STAT_SEND\<rparr>))"
    unfolding cmd_recv_def m using mm to f(5) by (simp add: Let_def)
  finally have recv: "do_cmd_handler cl a ?s2 = (if env_i s \<ge> uint (attr_retry attr) then cmd_done cl a AT_RESP_TIMEOUT (?s2\<lparr>env_i := env_i s + 1\<rparr>)
       else Some (False, ?s2\<lparr>env_i := env_i s + 1, env_state := AT_STAT_SEND\<rparr>))" .
  show ?thesis
    by (rule exI [of _ ?s1], intro conjI) (fact send, fact recv, fact f(1), fact f(2), fact f(3), fact f(4))
qed

lemma silent_polls_result:
  assumes it: "item_attr it = attr" "item_work it = w" and w: "work_ok attr w" "command_work w" "\<not> own_sender w"
    and suf: "attr_suffix attr = Some suf" "suf \<noteq> []" and t: "ucast (attr_timeout attr) < t"
  shows "items s a = Some it \<Longrightarrow> env_state s = AT_STAT_SEND \<Longrightarrow> recvbuf s \<noteq> [] \<Longrightarrow> env_i s + int n = uint (attr_retry attr) \<Longrightarrow>
    \<exists>s2. silent_polls cl a t (Suc n) s = cmd_done cl a AT_RESP_TIMEOUT s2 \<and> items s2 = items s \<and>
      trace s2 = trace s @ concat (replicate (Suc n) (transmission w)) \<and> at_ms s2 = at_ms s + of_nat (Suc n) * t"
proof (induction n arbitrary: s)
  case 0
  obtain s1 where s1: "do_cmd_handler cl a s = Some (False, s1)"
    "do_cmd_handler cl a (s1\<lparr>at_ms := at_ms s1 + t\<rparr>) = cmd_done cl a AT_RESP_TIMEOUT (s1\<lparr>at_ms := at_ms s1 + t, env_i := env_i s + 1\<rparr>)"
    "items s1 = items s" "trace s1 = trace s @ transmission w" "at_ms s1 = at_ms s"
    using silent_cycle [OF 0(1) it w suf 0(2,3) t, of cl] 0(4) by auto
  have "silent_polls cl a t (Suc 0) s = cmd_done cl a AT_RESP_TIMEOUT (s1\<lparr>at_ms := at_ms s1 + t, env_i := env_i s + 1\<rparr>)"
    using s1(1,2) by (auto simp: cmd_done_def split: Option.bind_splits)
  then show ?case using s1(3-5) by (intro exI [of _ "s1\<lparr>at_ms := at_ms s1 + t, env_i := env_i s + 1\<rparr>"]) simp
next
  case (Suc n)
  obtain s1 where s1: "do_cmd_handler cl a s = Some (False, s1)"
    "do_cmd_handler cl a (s1\<lparr>at_ms := at_ms s1 + t\<rparr>) = Some (False, s1\<lparr>at_ms := at_ms s1 + t, env_i := env_i s + 1, env_state := AT_STAT_SEND\<rparr>)"
    "items s1 = items s" "trace s1 = trace s @ transmission w" "at_ms s1 = at_ms s" "recvbuf s1 \<noteq> []"
    using silent_cycle [OF Suc.prems(1) it w suf Suc.prems(2,3) t, of cl] Suc.prems(4) by auto
  let ?s2 = "s1\<lparr>at_ms := at_ms s1 + t, env_i := env_i s + 1, env_state := AT_STAT_SEND\<rparr>"
  obtain s3 where s3: "silent_polls cl a t (Suc n) ?s2 = cmd_done cl a AT_RESP_TIMEOUT s3" "items s3 = items ?s2"
    "trace s3 = trace ?s2 @ concat (replicate (Suc n) (transmission w))" "at_ms s3 = at_ms ?s2 + of_nat (Suc n) * t"
    using Suc.IH [of ?s2] Suc.prems s1(3,6) by auto
  have "silent_polls cl a t (Suc (Suc n)) s = silent_polls cl a t (Suc n) ?s2" by (subst silent_polls.simps(2)) (simp add: s1(1,2))
  then show ?case using s1(3-5) s3 by (intro exI [of _ s3]) (simp add: algebra_simps)
qed

end
