(* ===== verification/At_Urc.thy ===== *)
theory At_Urc
  imports At_Command
begin

text \<open>
  The recognition of unsolicited messages, byte by byte, does what a reference does with the whole line: at each end mark the table is searched
  for an entry whose prefix is in the line so far, and the first entry found gets the line.
\<close>

definition entry_for :: "urc_item list \<Rightarrow> cstring \<Rightarrow> urc_item option" where
  "entry_for tbl c = find (\<lambda>e. contains c (urc_prefix e)) tbl"

fun urc_scan :: "urc_item list \<Rightarrow> cstring \<Rightarrow> cstring \<Rightarrow> urc_item option" where
  "urc_scan tbl seen [] = None"
| "urc_scan tbl seen (c # cs) =
     (case (if c \<in> set AT_URC_END_MARKS then entry_for tbl (seen @ [c]) else None) of
        Some e \<Rightarrow> Some e
      | None \<Rightarrow> urc_scan tbl (seen @ [c]) cs)"

lemma urc_scan_snoc:
  "urc_scan tbl seen (p @ [c]) =
     (case urc_scan tbl seen p of Some e \<Rightarrow> Some e
      | None \<Rightarrow> if c \<in> set AT_URC_END_MARKS then entry_for tbl (seen @ p @ [c]) else None)"
  by (induction p arbitrary: seen) (auto split: option.splits)

definition urc_entries :: "at_info \<Rightarrow> urc_item list" where "urc_entries s = take (unat (urc_tbl_size s)) (urc_tbl s)"

lemma find_urc_from_find: "n \<le> length tbl \<Longrightarrow> find_urc_from tbl n c = Some (entry_for (take n tbl) c)"
  by (induction tbl n c rule: find_urc_from.induct) (simp_all add: entry_for_def contains_strstr)

lemma find_urc_item_entry:
  assumes "urc_tbl s = [] \<or> unat (urc_tbl_size s) \<le> length (urc_tbl s)" "0 \<in> set buf"
  shows "find_urc_item buf s = Some (entry_for (urc_entries s) (takeWhile (\<lambda>b. b \<noteq> 0) buf))"
  using assms by (auto simp: find_urc_item_def urc_entries_def find_urc_from_find entry_for_def)

text \<open>What has been read of a line; only the fields of the recognition change.\<close>

definition reading :: "cstring \<Rightarrow> at_info \<Rightarrow> bool" where
  "reading p s \<longleftrightarrow> (\<exists>buf. urcbuf s = Some buf \<and> length buf = unat (urc_bufsize s) \<and> take (length p) buf = p) \<and> unat (urc_cnt s) = length p \<and>
     length p < unat (urc_bufsize s) \<and> urc_item_ptr s = urc_scan (urc_entries s) [] p \<and> \<not> urc_match s \<and>
     (urc_tbl s = [] \<or> unat (urc_tbl_size s) \<le> length (urc_tbl s))"

definition urc_only :: "at_info \<Rightarrow> at_info \<Rightarrow> bool" where
  "urc_only s s' \<longleftrightarrow> s' = s\<lparr>urcbuf := urcbuf s', urc_cnt := urc_cnt s', urc_item_ptr := urc_item_ptr s'\<rparr>"

lemma urc_only_refl: "urc_only s s" by (simp add: urc_only_def)
lemma urc_only_trans: "urc_only s s' \<Longrightarrow> urc_only s' s'' \<Longrightarrow> urc_only s s''"
  by (cases s; cases s'; cases s''; simp add: urc_only_def)

lemma urc_only_entries: "urc_only s s' \<Longrightarrow> urc_entries s' = urc_entries s \<and> urc_bufsize s' = urc_bufsize s"
  by (cases s; cases s'; simp add: urc_only_def urc_entries_def)

lemma read_string: "take (length p) buf = p \<Longrightarrow> length p < length buf \<Longrightarrow> 0 \<notin> set p \<Longrightarrow> takeWhile (\<lambda>b. b \<noteq> 0) (buf[length p := 0]) = p"
proof -
  assume a: "take (length p) buf = p" "length p < length buf" "0 \<notin> set p"
  then have "buf[length p := 0] = p @ 0 # drop (Suc (length p)) buf" by (metis upd_conv_take_nth_drop)
  then show ?thesis using a(3) by (auto simp: takeWhile_append)
qed

text \<open>One byte of the line, at the state it leaves before the end of a line is handled.\<close>

lemma urc_byte_stored:
  assumes r: "reading p s" and n: "length p + 1 < unat (urc_bufsize s)"
  obtains buf where "urcbuf s = Some buf" "wr buf (unat (urc_cnt s)) c = Some (buf[length p := c])" "length buf = unat (urc_bufsize s)"
    "take (length (p @ [c])) (buf[length p := c]) = p @ [c]" "unat (urc_cnt s + 1) = length (p @ [c])" "\<not> urc_cnt s + 1 \<ge> urc_bufsize s"
proof -
  obtain buf where b: "urcbuf s = Some buf" "length buf = unat (urc_bufsize s)" "take (length p) buf = p" "unat (urc_cnt s) = length p"
    using r by (auto simp: reading_def)
  have l: "length p < length buf" using n b(2) by simp
  have "take (length p + 1) (buf[length p := c]) = p @ [c]" using b(3) l by (simp add: take_Suc_conv_app_nth take_update_cancel)
  moreover have cnt: "unat (urc_cnt s + 1) = length p + 1"
    using unat_plus_1 [of "urc_cnt s" "urc_bufsize s"] b(4) n by (simp add: word_less_nat_alt)
  moreover have "\<not> urc_cnt s + 1 \<ge> urc_bufsize s" using cnt n by (simp add: word_le_nat_alt)
  ultimately show ?thesis using that [of buf] b l by (simp add: wr_def)
qed

lemma urc_scan_in: "urc_scan tbl seen q = Some e \<Longrightarrow> e \<in> set tbl"
  by (induction q arbitrary: seen) (auto simp: entry_for_def find_Some_iff split: option.splits if_splits)

lemma urc_end_of_line_eq:
  assumes "wr buf (unat (urc_cnt s)) 0 = Some b"
    "(case urc_item_ptr s of Some e \<Rightarrow> Some (Some e) | None \<Rightarrow> find_urc_item b (s\<lparr>urcbuf := Some b\<rparr>)) = Some e"
  shows "urc_end_of_line cl ch buf s =
    (if e = None \<and> ch = 10 then Some (urc_reset (s\<lparr>urcbuf := Some b, urc_item_ptr := e\<rparr>))
     else (case e of
         Some e' \<Rightarrow> if ch = endmark e' then urc_handler_entry cl URC_RECV_OK b (s\<lparr>urcbuf := Some b, urc_item_ptr := e\<rparr>)
           else Some (s\<lparr>urcbuf := Some b, urc_item_ptr := e\<rparr>)
       | None \<Rightarrow> Some (s\<lparr>urcbuf := Some b, urc_item_ptr := e\<rparr>)))"
  using assms by (simp add: urc_end_of_line_def Let_def)

lemma urc_mark:
  assumes r: "reading p s" and n: "length p + 1 < unat (urc_bufsize s)" and c: "0 \<notin> set (p @ [c])" "c \<in> set AT_URC_END_MARKS"
  shows "\<exists>b s'. urc_recv_byte cl c s =
      (if urc_item_ptr s' = None \<and> c = 10 then Some (urc_reset s')
       else (case urc_item_ptr s' of
           Some e \<Rightarrow> if c = endmark e then urc_handler_entry cl URC_RECV_OK b s' else Some s'
         | None \<Rightarrow> Some s')) \<and>
    reading (p @ [c]) s' \<and> urc_only s s' \<and> subarr b 0 (unat (urc_cnt s')) = Some (p @ [c])"
proof -
  obtain buf where b: "urcbuf s = Some buf" "wr buf (unat (urc_cnt s)) c = Some (buf[length p := c])" "length buf = unat (urc_bufsize s)"
    "take (length (p @ [c])) (buf[length p := c]) = p @ [c]" "unat (urc_cnt s + 1) = length (p @ [c])" "\<not> urc_cnt s + 1 \<ge> urc_bufsize s"
    using urc_byte_stored [OF r n] by blast
  have f: "\<not> urc_match s" "urc_item_ptr s = urc_scan (urc_entries s) [] p" "urc_tbl s = [] \<or> unat (urc_tbl_size s) \<le> length (urc_tbl s)"
    using r by (simp_all add: reading_def)
  let ?s1 = "s\<lparr>urcbuf := Some (buf[length p := c]), urc_cnt := urc_cnt s + 1\<rparr>"
  let ?buf = "(buf[length p := c])[length (p @ [c]) := 0]"
  let ?e = "urc_scan (urc_entries s) [] (p @ [c])"
  have w: "wr (buf[length p := c]) (unat (urc_cnt ?s1)) 0 = Some ?buf" using b(3,5) n by (simp add: wr_def)
  have nul: "0 \<in> set ?buf" using b(3) n by (simp add: set_update_memI)
  have t: "takeWhile (\<lambda>b. b \<noteq> 0) ?buf = p @ [c]" using read_string [OF b(4) _ c(1)] b(3) n by simp
  have "urc_entries (?s1\<lparr>urcbuf := Some ?buf\<rparr>) = urc_entries s" by (simp add: urc_entries_def)
  then have "find_urc_item ?buf (?s1\<lparr>urcbuf := Some ?buf\<rparr>) = Some (entry_for (urc_entries s) (p @ [c]))"
    using find_urc_item_entry [of "?s1\<lparr>urcbuf := Some ?buf\<rparr>" ?buf] f(3) nul t by simp
  then have e: "(case urc_item_ptr ?s1 of Some e \<Rightarrow> Some (Some e) | None \<Rightarrow> find_urc_item ?buf (?s1\<lparr>urcbuf := Some ?buf\<rparr>)) = Some ?e"
    using c(2) f(2) by (simp only:) (simp add: urc_scan_snoc split: option.splits)
  let ?s' = "?s1\<lparr>urcbuf := Some ?buf, urc_item_ptr := ?e\<rparr>"
  have "urc_recv_byte cl c s = urc_end_of_line cl c (buf[length p := c]) ?s1" using c(2) b f(1) by (simp add: urc_recv_byte_def)
  note eq = this [unfolded urc_end_of_line_eq [OF w e]]
  have ip: "urc_item_ptr ?s' = ?e" by simp
  have "reading (p @ [c]) ?s'" using b n f by (simp add: reading_def urc_entries_def take_update_cancel)
  moreover have "urc_only s ?s'" by (simp add: urc_only_def)
  moreover have "subarr ?buf 0 (unat (urc_cnt ?s')) = Some (p @ [c])" using b(3,4,5) n by (simp add: subarr_def take_update_cancel)
  ultimately show ?thesis
    by (intro exI [of _ ?buf] exI [of _ ?s'] conjI) ((unfold ip, rule eq), assumption+)
qed

lemma urc_recv_byte_reads:
  assumes r: "reading p s" and n: "length p + 1 < unat (urc_bufsize s)" and c: "0 \<notin> set (p @ [c])" "c \<noteq> 10"
    and m: "\<forall>e \<in> set (urc_entries s). endmark e = 10"
  shows "\<exists>s'. urc_recv_byte cl c s = Some s' \<and> reading (p @ [c]) s' \<and> urc_only s s'"
proof (cases "c \<in> set AT_URC_END_MARKS")
  case True
  obtain b s' where s': "urc_recv_byte cl c s =
      (if urc_item_ptr s' = None \<and> c = 10 then Some (urc_reset s')
       else (case urc_item_ptr s' of
           Some e \<Rightarrow> if c = endmark e then urc_handler_entry cl URC_RECV_OK b s' else Some s'
         | None \<Rightarrow> Some s'))" "reading (p @ [c]) s'" "urc_only s s'"
    using urc_mark [OF r n c(1) True, of cl] by blast
  have "endmark e = 10" if "urc_item_ptr s' = Some e" for e
    using that s'(2) urc_only_entries [OF s'(3)] urc_scan_in m unfolding reading_def by metis
  then show ?thesis using s' c(2) by (auto split: option.splits)
next
  case False
  obtain buf where b: "urcbuf s = Some buf" "wr buf (unat (urc_cnt s)) c = Some (buf[length p := c])" "length buf = unat (urc_bufsize s)"
    "take (length (p @ [c])) (buf[length p := c]) = p @ [c]" "unat (urc_cnt s + 1) = length (p @ [c])" "\<not> urc_cnt s + 1 \<ge> urc_bufsize s"
    using urc_byte_stored [OF r n] by blast
  let ?s1 = "s\<lparr>urcbuf := Some (buf[length p := c]), urc_cnt := urc_cnt s + 1\<rparr>"
  have f: "\<not> urc_match s" "urc_item_ptr s = urc_scan (urc_entries s) [] p" "urc_tbl s = [] \<or> unat (urc_tbl_size s) \<le> length (urc_tbl s)"
    using r by (simp_all add: reading_def)
  have "urc_recv_byte cl c s = Some ?s1" using False b f(1) c(1) by (simp add: urc_recv_byte_def)
  moreover have "urc_scan (urc_entries s) [] (p @ [c]) = urc_scan (urc_entries s) [] p"
    using False by (simp add: urc_scan_snoc split: option.splits)
  then have "reading (p @ [c]) ?s1" using b n f by (simp add: reading_def urc_entries_def)
  moreover have "urc_only s ?s1" by (simp add: urc_only_def)
  ultimately show ?thesis by blast
qed

lemma urc_recv_loop_reads:
  "reading p s \<Longrightarrow> length p + length l < unat (urc_bufsize s) \<Longrightarrow> 0 \<notin> set (p @ l) \<Longrightarrow> 10 \<notin> set l \<Longrightarrow> \<forall>e \<in> set (urc_entries s). endmark e = 10 \<Longrightarrow>
    \<exists>s'. urc_recv_loop cl (l @ bs) s = urc_recv_loop cl bs s' \<and> reading (p @ l) s' \<and> urc_only s s'"
proof (induction l arbitrary: p s)
  case Nil
  then show ?case using urc_only_refl by auto
next
  case (Cons c l)
  obtain s1 where s1: "urc_recv_byte cl c s = Some s1" "reading (p @ [c]) s1" "urc_only s s1"
    using urc_recv_byte_reads [OF Cons.prems(1), of c cl] Cons.prems by auto
  have "urc_entries s1 = urc_entries s" "urc_bufsize s1 = urc_bufsize s" using urc_only_entries [OF s1(3)] by simp_all
  then obtain s' where "urc_recv_loop cl (l @ bs) s1 = urc_recv_loop cl bs s'" "reading ((p @ [c]) @ l) s'" "urc_only s1 s'"
    using Cons.IH [OF s1(2)] Cons.prems by auto
  then show ?case using s1 urc_only_trans by auto
qed

text \<open>At the end of the line.\<close>

definition urc_dispatch :: "at_client \<Rightarrow> urc_item option \<Rightarrow> cstring \<Rightarrow> at_info \<Rightarrow> at_info option" where
  "urc_dispatch cl e frame s =
     (case e of None \<Rightarrow> Some (urc_reset s)
      | Some e \<Rightarrow>
          let info = \<lparr>urc_status = URC_RECV_OK, urc_frame = frame\<rparr> in
          do { (remain, s) \<leftarrow> urc_fn cl (urc_handler e) info (note_event (Urc_Call (urc_handler e) info) s);
               Some (if remain = 0 \<and> (urc_item_ptr s \<noteq> None \<or> cursor s = None) then urc_reset s
                     else s\<lparr>urc_target := of_int (uint (urc_cnt s) + remain), urc_match := True\<rparr>) })"

lemma urc_recv_line:
  assumes r: "reading p s" and n: "length p + 1 < unat (urc_bufsize s)" and c: "0 \<notin> set p"
    and m: "\<forall>e \<in> set (urc_entries s). endmark e = 10"
  shows "\<exists>s'. urc_recv_byte cl 10 s = urc_dispatch cl (urc_scan (urc_entries s) [] (p @ [10])) (p @ [10]) s' \<and> urc_only s s' \<and> reading (p @ [10]) s'"
proof -
  obtain b s' where s': "urc_recv_byte cl 10 s =
      (if urc_item_ptr s' = None \<and> 10 = (10 :: u8) then Some (urc_reset s')
       else (case urc_item_ptr s' of
           Some e \<Rightarrow> if 10 = endmark e then urc_handler_entry cl URC_RECV_OK b s' else Some s'
         | None \<Rightarrow> Some s'))" "reading (p @ [10]) s'" "urc_only s s'" "subarr b 0 (unat (urc_cnt s')) = Some (p @ [10])"
    using urc_mark [OF r n, of 10 cl] c by (auto simp: AT_URC_END_MARKS_def)
  have e: "urc_item_ptr s' = urc_scan (urc_entries s) [] (p @ [10])" using s'(2) urc_only_entries [OF s'(3)] by (simp add: reading_def)
  have "urc_recv_byte cl 10 s = urc_dispatch cl (urc_item_ptr s') (p @ [10]) s'"
  proof (cases "urc_item_ptr s'")
    case None
    then show ?thesis using s'(1) by (simp add: urc_dispatch_def)
  next
    case (Some e')
    then have "endmark e' = 10" using e urc_scan_in m by metis
    then show ?thesis using s'(1,4) Some by (simp add: urc_dispatch_def urc_handler_entry_def Let_def)
  qed
  then show ?thesis using s'(2,3) e by auto
qed

end
