(* ===== verification/At_Props.thy ===== *)
theory At_Props
  imports At_Urc
begin

text \<open>What the AT command client guarantees, and where it does not do what its description says.\<close>

subsection \<open>A client and an object to try them on\<close>

text \<open>The handlers of this client do nothing; its modem has a receive buffer of 128 bytes and one of 64 for unsolicited messages.\<close>

definition at_quiet :: at_client where
  "at_quiet = \<lparr>work_fn = (\<lambda>f s. Some (True, s)), sender_fn = (\<lambda>f s. Some s), cb_fn = (\<lambda>f r s. Some s), urc_fn = (\<lambda>f i s. Some (0, s)),
     exit_fn = (\<lambda>f s. Some s), heap_room = (\<lambda>n s. True), heap_junk = (\<lambda>_. 0)\<rparr>"

definition at_modem :: at_adapter where "at_modem = \<lparr>has_error = False, adap_urc_bufsize = 64, adap_recv_bufsize = 128\<rparr>"

definition at_boot :: at_info where
  "at_boot = \<lparr>adap = at_modem, raw_conf = None, user_data = 0, env_i = 0, env_j = 0, env_state = 0, env_params = 0, cursor = None,
      hlist = [], llist = [], timer = 0, next_delay = 0, delay_timer = 0, recvbuf = [], at_prefix = None, at_suffix = None,
      urc_tbl = [], urc_item_ptr = None, urcbuf = None, urc_timer = 0, urc_bufsize = 0, urc_cnt = 0, urc_target = 0,
      urc_tbl_size = 0, urc_disable_time = 0, list_cnt = 0, recv_bufsize = 0, recv_cnt = 0, match_len = 0, match_mask = 0,
      urc_enable = False, urc_match = False, enable = False, disposing = False, err_occur = False, raw_trans = False,
      items = (\<lambda>_. None), next_addr = 0, at_cur_mem = 0, at_max_mem = 0,
      ctxs = (\<lambda>_. \<lparr>ctx_state = AT_WORK_STAT_IDLE, ctx_code = AT_RESP_OK, ctx_bufsize = 0, resplen = 0, respbuf = None\<rparr>), at_ms = 0, trace = []\<rparr>"

definition at_fresh :: at_info where "at_fresh = at_created at_quiet at_modem 348 348 at_boot"

lemma at_quiet_ok: "client_ok at_quiet"
  by (simp add: client_ok_def at_quiet_def client_step_def at_frame_refl ex_bool_eq)

lemma at_fresh_fields [simp]:
  "recvbuf at_fresh = replicate 128 0" "recv_bufsize at_fresh = 128" "recv_cnt at_fresh = 0" "urcbuf at_fresh = Some (replicate 64 0)"
  "urc_bufsize at_fresh = 64" "urc_cnt at_fresh = 0" "urc_item_ptr at_fresh = None" "urc_match at_fresh = False" "urc_tbl at_fresh = []"
  "urc_tbl_size at_fresh = 0" "cursor at_fresh = None" "hlist at_fresh = []" "llist at_fresh = []" "list_cnt at_fresh = 0" "at_cur_mem at_fresh = 348"
  "raw_trans at_fresh = False" "env_i at_fresh = 0" "env_state at_fresh = 0" "at_ms at_fresh = 0" "trace at_fresh = []" "next_addr at_fresh = 0"
  "at_prefix at_fresh = None" "match_len at_fresh = 0" "match_mask at_fresh = 0" "items at_fresh = (\<lambda>_. None)"
proof -
  have "fresh_buf at_quiet n = replicate (unat n) 0" for n by (simp add: fresh_buf_def at_quiet_def map_replicate_const)
  then show "recvbuf at_fresh = replicate 128 0" "recv_bufsize at_fresh = 128" "recv_cnt at_fresh = 0" "urcbuf at_fresh = Some (replicate 64 0)"
    "urc_bufsize at_fresh = 64" "urc_cnt at_fresh = 0" "urc_item_ptr at_fresh = None" "urc_match at_fresh = False" "urc_tbl at_fresh = []"
    "urc_tbl_size at_fresh = 0" "cursor at_fresh = None" "hlist at_fresh = []" "llist at_fresh = []" "list_cnt at_fresh = 0" "at_cur_mem at_fresh = 348"
    "raw_trans at_fresh = False" "env_i at_fresh = 0" "env_state at_fresh = 0" "at_ms at_fresh = 0" "trace at_fresh = []" "next_addr at_fresh = 0"
    "at_prefix at_fresh = None" "match_len at_fresh = 0" "match_mask at_fresh = 0" "items at_fresh = (\<lambda>_. None)"
    by (simp_all add: at_fresh_def at_created_def at_obj_zero_def Let_def at_modem_def at_least_32_def at_boot_def)
qed

lemma at_fresh_run: "at_run at_quiet at_fresh"
proof (rule at_run.created)
  show "64 < unat (adap_recv_bufsize at_modem)" "156 + buf_need at_modem \<le> 6144" by (simp_all add: at_modem_def buf_need_def at_least_32_def)
  show "at_cur_mem at_boot = 0" "ctx_ok at_boot" by (simp_all add: at_boot_def ctx_ok_def)
  show "at_obj_create at_quiet at_modem at_boot = Some (True, at_fresh)"
    by (simp add: at_obj_create_def at_core_malloc_def at_quiet_def at_modem_def at_boot_def at_obj_zero_def at_fresh_def at_created_def Let_def
        sizeof_at_info_def AT_MEM_LIMIT_SIZE_def at_least_32_def)
qed

lemma at_fresh_inv: "at_inv at_fresh" by (rule at_run_inv [OF at_quiet_ok at_fresh_run])

text \<open>The object with a command \<open>AT\<close> in its queue, about to be sent.\<close>

definition at_sending :: at_info where
  "at_sending = at_fresh\<lparr>items := [0 \<mapsto> new_item None (WORK_TYPE_CMD [65, 84, 0])], llist := [0], list_cnt := 1, next_addr := 1, cursor := Some 0\<rparr>"

abbreviation at_item :: work_item where "at_item \<equiv> new_item None (WORK_TYPE_CMD [65, 84, 0])"

lemma at_sending_fields: "items at_sending 0 = Some at_item" "env_state at_sending = AT_STAT_SEND" "env_i at_sending = 0" "recvbuf at_sending \<noteq> []"
  "trace at_sending = []"
  by (simp_all add: at_sending_def AT_STAT_SEND_def)

lemma at_item_fields: "work_ok (item_attr at_item) (item_work at_item)" "command_work (item_work at_item)" "\<not> own_sender (item_work at_item)"
  "attr_suffix (item_attr at_item) = Some AT_DEF_RESP_OK" "AT_DEF_RESP_OK \<noteq> []" "ucast (attr_timeout (item_attr at_item)) < (501 :: u32)"
  "unat (attr_retry (item_attr at_item)) + 1 = 3" "transmission (item_work at_item) = [At_Write [65, 84], At_Write [13, 10]]"
  by (simp_all add: attr_of_def at_def_attr_def AT_DEF_RESP_OK_def AT_DEF_TIMEOUT_def AT_DEF_RETRY_def transmission_def)

subsection \<open>Programs run\<close>

text \<open>C12: An AT client object in use stays well formed: after it is created, whatever requests, polls and passing of time follow, its receive buffer, its
queues of at most 33 items, its account of memory (at most 6 KB) and the variables of the running item fit together, and every call of \<open>at_allowed\<close>
is answered and leaves such an object again. This holds where the following does: \<open>rt_malloc\<close> never fails (the client writes through its result without a test,
\<open>at_heap_refuses\<close>); the receive buffer of the adapter has more than 64 bytes (a smaller one is overrun, \<open>at_small_recvbuf\<close>) and the buffers fit the
account; every request has a suffix that is not NULL (the header allows NULL, but then the null pointer is searched for, \<open>at_null_suffix\<close>) and a
formatted command is shorter than 256 bytes; a response buffer and a table of unsolicited messages are as long as their sizes say; the transparent
mode is entered while no item runs, and a read returns no more bytes than asked for; and the functions of the program (callbacks, senders, handlers) keep
the invariant and the running item, as the client's own operations do, and senders, handlers of messages and works that go on do not switch the transparent mode.\<close>

theorem at_programs_run:
  assumes "client_ok cl" "at_run cl s"
  shows "at_inv s \<and> recv_cnt s \<le> recv_bufsize s \<and> length (queue s) \<le> 33 \<and> unat (at_cur_mem s) \<le> 6144 \<and>
    (\<forall>c. at_allowed c s \<longrightarrow> (\<exists>b s'. at_call_step cl c s = Some (b, s') \<and> at_run cl s'))"
proof -
  have inv: "at_inv s" by (rule at_run_inv [OF assms])
  note ok = at_ok_D [OF at_inv_D [OF inv]]
  have "\<exists>b s'. at_call_step cl c s = Some (b, s') \<and> at_run cl s'" if "at_allowed c s" for c
    using at_call_ok [OF assms(1) inv that] at_run.call [OF assms(2) that] by blast
  then show ?thesis using inv ok(1,4,8) by (simp add: recv_ok_def queue_ok_def mem_ok_def)
qed

theorem at_programs_run_witness: "\<exists>b s'. at_call_step at_quiet (Exec_Cmd None [65, 84]) at_fresh = Some (b, s') \<and> at_run at_quiet s'"
proof -
  have "at_allowed (Exec_Cmd None [65, 84]) at_fresh" by (simp add: attr_of_def)
  then show ?thesis using at_programs_run [OF at_quiet_ok at_fresh_run] by blast
qed

subsection \<open>The order of the items\<close>

text \<open>C13: A poll refines two queues: the running item goes on until it is over, then it leaves its queue; the next item is the oldest one of high priority, or the
oldest one of low priority when there is none of high priority. Requests made meanwhile (by the handlers that run) stand at the ends of their queues.\<close>

theorem at_poll_refines_queues:
  assumes "client_ok cl" "at_inv s" "\<not> raw_trans s" "length bs \<le> 64"
  shows "\<exists>s' h l. at_obj_process cl bs raw s = Some s' \<and> serve (cursor s, hlist s @ h, llist s @ l) (at_abs s')"
  by (rule at_obj_process_serves [OF assms])

theorem at_poll_refines_queues_witness:
  "\<exists>s' h l. at_obj_process at_quiet [79, 75] [] at_fresh = Some s' \<and> serve (cursor at_fresh, hlist at_fresh @ h, llist at_fresh @ l) (at_abs s')"
  by (rule at_poll_refines_queues [OF at_quiet_ok at_fresh_inv]) simp_all

subsection \<open>Responses\<close>

text \<open>C14: How a response is classified, however many pieces it comes in: with what an earlier poll has found in the text so far, the search of the next poll finds what
a search of the whole text finds. The command, which has a suffix, ends with an error when the text has the word ERROR and no retry is left; otherwise it ends well exactly if the
suffix stands somewhere from the start of an occurrence of the prefix on; otherwise, on ERROR, it waits to be sent again; otherwise it waits for its timeout.\<close>

theorem at_response_classified:
  assumes "items s a = Some it" "env_state s = AT_STAT_RECV" "attr_suffix (item_attr it) = Some suf" "0 \<in> set (recvbuf s)"
    "matched (item_attr it) t0 s" "resp_text s = t0 @ x" "match_len s \<noteq> recv_cnt s"
  shows "\<exists>s1. searched s s1 \<and> do_cmd_handler cl a s = verdict cl a (item_attr it) s s1 \<and>
    (\<not> responds (item_attr it) (resp_text s) \<longrightarrow> \<not> contains (resp_text s) AT_DEF_RESP_ERR \<longrightarrow> matched (item_attr it) (resp_text s) s1)"
proof -
  have "do_cmd_handler cl a s = cmd_recv cl a (item_attr it) s" using assms(1,2) by (simp add: do_cmd_handler_def)
  then show ?thesis using cmd_recv_result [OF assms(4-6,3,7), of cl a] by auto
qed

definition at_answered :: at_info where
  "at_answered = at_sending\<lparr>env_state := AT_STAT_RECV, recvbuf := [79, 75, 0], recv_cnt := 2, match_mask := 1\<rparr>"

theorem at_response_classified_witness: "\<exists>s1. do_cmd_handler at_quiet 0 at_answered = cmd_done at_quiet 0 AT_RESP_OK s1"
proof -
  have f: "items at_answered 0 = Some (new_item None (WORK_TYPE_CMD [65, 84, 0]))" "env_state at_answered = AT_STAT_RECV" "0 \<in> set (recvbuf at_answered)"
    "match_len at_answered \<noteq> recv_cnt at_answered" "resp_text at_answered = [] @ [79, 75]"
    by (simp_all add: at_answered_def at_sending_def resp_text_def)
  have m: "matched (item_attr (new_item None (WORK_TYPE_CMD [65, 84, 0]))) [] at_answered"
    by (simp add: matched_def no_string_def attr_of_def at_def_attr_def at_answered_def at_sending_def mask_if_def MATCH_MASK_PREFIX_def)
  have s: "attr_suffix (item_attr (new_item None (WORK_TYPE_CMD [65, 84, 0]))) = Some AT_DEF_RESP_OK" by (simp add: attr_of_def)
  have "responds (item_attr (new_item None (WORK_TYPE_CMD [65, 84, 0]))) (resp_text at_answered)" "\<not> contains (resp_text at_answered) AT_DEF_RESP_ERR"
    unfolding f(5) by (simp_all add: responds_plain no_string_def attr_of_def at_def_attr_def contains_strstr AT_DEF_RESP_OK_def AT_DEF_RESP_ERR_def)
  then show ?thesis using at_response_classified [OF f(1,2) s f(3) m f(5,4), of at_quiet] by (auto simp: verdict_def)
qed

text \<open>C16: A command is sent at most once more than its number of retries, whatever comes over the line and whatever happens between the polls, as long as the variables
of the running item and its attributes are left alone.\<close>

theorem at_command_sends_bounded:
  assumes "items s a = Some it" "\<not> own_sender (item_work it)" "env_state s = AT_STAT_SEND" "env_i s = 0"
    "\<forall>g \<in> set gs. leaves_command a g" "cmd_polls cl a gs s = Some (n, r)"
  shows "n \<le> unat (attr_retry (item_attr it)) + 1"
proof -
  have al: "command_alive (item_attr it) (item_work it) a s" using assms(1,4) by (simp add: command_alive_def)
  from cmd_polls_bound [OF assms(2) al assms(5,6)] have "int n \<le> int (unat (attr_retry (item_attr it)) + 1)"
    using assms(3,4) by (simp add: sends_left_def)
  then show ?thesis by (simp only: of_nat_le_iff)
qed

theorem at_command_sends_bounded_witness: "\<exists>n r. cmd_polls at_quiet 0 [\<lambda>s. s] at_sending = Some (n, r) \<and> n = 1 \<and> n \<le> 3"
proof -
  note it = at_sending_fields
  obtain s' where "do_cmd_handler at_quiet 0 at_sending = Some (False, s')"
    using silent_cycle [OF it(1) refl refl at_item_fields(1-5) it(2,4) at_item_fields(6), of at_quiet] by blast
  then have p: "cmd_polls at_quiet 0 [\<lambda>s. s] at_sending = Some (1, False, s')" using it(2) by simp
  have l: "\<forall>g \<in> set [\<lambda>s. s]. leaves_command 0 g" by (simp add: leaves_command_def)
  have "1 \<le> unat (attr_retry (item_attr at_item)) + 1" by (rule at_command_sends_bounded [OF it(1) at_item_fields(3) it(2,3) l p])
  then show ?thesis using p by auto
qed

text \<open>C17: On a silent line a command with a suffix (one that is neither NULL nor empty), which the client sends itself, does end: when more than its timeout passes between a
transmission and the next poll, it is sent exactly once more than its number of retries, and then it is over with the code of a timeout. A command without a
suffix is over with OK at the first poll after its transmission (\<open>at_null_suffix\<close>).\<close>

theorem at_silent_line_times_out:
  assumes "items s a = Some it" "work_ok (item_attr it) (item_work it)" "command_work (item_work it)" "\<not> own_sender (item_work it)"
    "attr_suffix (item_attr it) = Some suf" "suf \<noteq> []" "ucast (attr_timeout (item_attr it)) < t" "env_state s = AT_STAT_SEND" "env_i s = 0" "recvbuf s \<noteq> []"
  shows "\<exists>s2. silent_polls cl a t (unat (attr_retry (item_attr it)) + 1) s = cmd_done cl a AT_RESP_TIMEOUT s2 \<and> items s2 = items s \<and>
    trace s2 = trace s @ concat (replicate (unat (attr_retry (item_attr it)) + 1) (transmission (item_work it)))"
  using silent_polls_result [OF refl refl assms(2-7,1,8,10), of "unat (attr_retry (item_attr it))" cl] assms(9) by auto

theorem at_silent_line_times_out_witness:
  "\<exists>s2. silent_polls at_quiet 0 501 3 at_sending = cmd_done at_quiet 0 AT_RESP_TIMEOUT s2 \<and> trace s2 = concat (replicate 3 [At_Write [65, 84], At_Write [13, 10]])"
proof -
  from at_silent_line_times_out [OF at_sending_fields(1) at_item_fields(1-6) at_sending_fields(2-4), of at_quiet]
  show ?thesis unfolding at_item_fields(7,8) at_sending_fields(5) by auto
qed

subsection \<open>Unsolicited messages\<close>

text \<open>C15: The byte-wise recognition of unsolicited messages is equivalent to a search of the whole line: a line that fits the buffer goes, once and complete, to the handler of
the entry found first at one of its end marks (the first entry of the table whose prefix is in the line so far), and is dropped when there is none. It does
not matter in which pieces the bytes come, as the loop runs byte by byte. The entries end at the line feed.\<close>

theorem at_urc_line_dispatched:
  assumes "urcbuf s = Some buf" "length buf = unat (urc_bufsize s)" "urc_cnt s = 0" "urc_item_ptr s = None" "\<not> urc_match s"
    "urc_tbl s = [] \<or> unat (urc_tbl_size s) \<le> length (urc_tbl s)" "\<forall>e \<in> set (urc_entries s). endmark e = 10"
    "0 \<notin> set l" "10 \<notin> set l" "length l + 1 < unat (urc_bufsize s)"
  shows "\<exists>s'. urc_recv_loop cl (l @ [10]) s = urc_dispatch cl (urc_scan (urc_entries s) [] (l @ [10])) (l @ [10]) s' \<and> urc_only s s'"
proof -
  have "reading [] s" using assms(1-6,10) by (simp add: reading_def)
  then obtain s1 where s1: "urc_recv_loop cl (l @ [10]) s = urc_recv_loop cl [10] s1" "reading l s1" "urc_only s s1"
    using urc_recv_loop_reads [of "[]" s l cl "[10]"] assms(7-10) by auto
  note e = urc_only_entries [OF s1(3)]
  obtain s2 where s2: "urc_recv_byte cl 10 s1 = urc_dispatch cl (urc_scan (urc_entries s) [] (l @ [10])) (l @ [10]) s2" "urc_only s1 s2"
    using urc_recv_line [OF s1(2) _ assms(8), of cl] assms(7,10) e by auto
  have "urc_recv_loop cl [] = Some" by (simp add: fun_eq_iff)
  then have "urc_recv_loop cl (l @ [10]) s = urc_recv_byte cl 10 s1" using s1(1) by simp
  then show ?thesis using s2(1) urc_only_trans [OF s1(3) s2(2)] by (intro exI [of _ s2]) simp
qed

text \<open>A table with the entries \<open>+A\<close> and \<open>+B\<close>, and the line \<open>+B:1\<close>.\<close>

definition at_watching :: at_info where
  "at_watching = at_fresh\<lparr>urc_tbl := [\<lparr>urc_prefix = [43, 65], endmark = 10, urc_handler = 1\<rparr>, \<lparr>urc_prefix = [43, 66], endmark = 10, urc_handler = 2\<rparr>], urc_tbl_size := 2\<rparr>"

theorem at_urc_line_dispatched_witness:
  "\<exists>s'. urc_recv_loop at_quiet ([43, 66, 58, 49] @ [10]) at_watching = Some (urc_reset s') \<and>
    trace s' = [Urc_Call 2 \<lparr>urc_status = URC_RECV_OK, urc_frame = [43, 66, 58, 49, 10]\<rparr>]"
proof -
  let ?l = "[43, 66, 58, 49] :: u8 list" and ?e = "\<lparr>urc_prefix = [43, 66], endmark = 10, urc_handler = 2\<rparr>"
  have en: "urc_entries at_watching = [\<lparr>urc_prefix = [43, 65], endmark = 10, urc_handler = 1\<rparr>, ?e]" by (simp add: urc_entries_def at_watching_def)
  have sc: "urc_scan (urc_entries at_watching) [] (?l @ [10]) = Some ?e"
    unfolding en by (simp add: entry_for_def contains_strstr AT_URC_END_MARKS_def)
  obtain s' where s': "urc_recv_loop at_quiet (?l @ [10]) at_watching = urc_dispatch at_quiet (Some ?e) (?l @ [10]) s'" "urc_only at_watching s'"
  proof -
    have f: "urcbuf at_watching = Some (replicate 64 0)" "length (replicate 64 (0 :: u8)) = unat (urc_bufsize at_watching)" "urc_cnt at_watching = 0"
      "urc_item_ptr at_watching = None" "\<not> urc_match at_watching" "urc_tbl at_watching = [] \<or> unat (urc_tbl_size at_watching) \<le> length (urc_tbl at_watching)"
      by (simp_all add: at_watching_def)
    have g: "\<forall>e \<in> set (urc_entries at_watching). endmark e = 10" "0 \<notin> set ?l" "10 \<notin> set ?l" "length ?l + 1 < unat (urc_bufsize at_watching)"
      unfolding en by (simp_all add: at_watching_def)
    show ?thesis using that at_urc_line_dispatched [OF f g, of at_quiet, unfolded sc] by blast
  qed
  have "trace s' = []" "cursor s' = None" using s'(2) by (cases s'; simp add: urc_only_def at_watching_def)+
  then have d: "urc_dispatch at_quiet (Some ?e) (?l @ [10]) s' =
      Some (urc_reset (s'\<lparr>trace := [Urc_Call 2 \<lparr>urc_status = URC_RECV_OK, urc_frame = ?l @ [10]\<rparr>]\<rparr>))"
    by (simp add: urc_dispatch_def at_quiet_def note_event_def)
  show ?thesis
    unfolding s'(1) d by (intro exI [of _ "s'\<lparr>trace := [Urc_Call 2 \<lparr>urc_status = URC_RECV_OK, urc_frame = ?l @ [10]\<rparr>]\<rparr>"]) simp
qed

subsection \<open>Requests, aborting, releasing\<close>

text \<open>C18: The memory of an object comes back: whatever program of the kind above ran on it (with a heap that never refuses), destroying it releases its items, its buffers and itself, and the account
of memory is at zero, as before the object was created.\<close>

theorem at_memory_returns:
  assumes "client_ok cl" "at_run cl s"
  shows "\<exists>s'. at_obj_destroy s = Some s' \<and> at_cur_used_memory s' = 0"
  using at_obj_destroy_effect [OF at_inv_D [OF at_run_inv [OF assms]]] by (simp add: at_cur_used_memory_def)

theorem at_memory_returns_witness: "\<exists>s'. at_obj_destroy at_fresh = Some s' \<and> at_cur_used_memory s' = 0"
  by (rule at_memory_returns [OF at_quiet_ok at_fresh_run])

text \<open>After all work is aborted, as many polls as there are items empty the queues: nothing more is sent, no callback is called, and every context
attached to one of the items tells that its work was aborted.\<close>

theorem at_abort_drains:
  assumes "at_inv s"
  shows "\<exists>s1 s2. at_work_abort_all s = Some s1 \<and> work_polls cl (length (queue s)) s1 = Some s2 \<and> queue s2 = [] \<and> cursor s2 = None \<and>
    trace s2 = trace s \<and>
    (\<forall>a it k. items s a = Some it \<longrightarrow> attr_ctx (item_attr it) = Some k \<longrightarrow>
       at_work_get_state k s2 = AT_WORK_STAT_ABORT \<and> at_work_get_result k s2 = AT_RESP_ABORT)"
proof -
  have ok: "at_ok s" using assms by (rule at_inv_D)
  have dom: "set (hlist s) \<union> set (llist s) = dom (items s)" using at_ok_D(4) [OF ok] by (simp add: queue_ok_def queue_def)
  obtain s1 where s1: "abort_list (hlist s) s = Some s1" "at_step 0 s s1" "hlist s1 = hlist s" "llist s1 = llist s"
    using abort_list_ok [OF ok, of "hlist s"] by (auto simp: queue_def)
  obtain s2 where s2: "abort_list (llist s) s1 = Some s2" "at_step 0 s1 s2" "hlist s2 = hlist s" "llist s2 = llist s"
    using abort_list_ok [OF at_step_D [OF s1(2)], of "llist s1"] s1(3,4) by (auto simp: queue_def)
  note e1 = abort_list_effect [OF s1(1)] and e2 = abort_list_effect [OF s2(1)]
  have run: "at_work_abort_all s = Some s2" using s1(1,4) s2(1) by (simp add: at_work_abort_all_def)
  have over: "all_over s2"
    unfolding all_over_def
  proof (intro allI impI)
    fix a it assume it: "items s2 a = Some it"
    then have "a \<in> dom (items s)" using e1 e2 by (auto split: if_splits)
    then show "item_state it = AT_WORK_STAT_ABORT" using it e1 e2 dom by (auto split: if_splits)
  qed
  have q: "length (queue s2) = length (queue s)" using s2(3,4) by (simp add: queue_def)
  have c: "queue s2 = [] \<longrightarrow> cursor s2 = None" using at_ok_D(5) [OF at_step_D [OF s2(2)]] by (cases "cursor s2") (auto simp: cursor_ok_def queue_def)
  obtain s3 where s3: "work_polls cl (length (queue s)) s2 = Some s3" "queue s3 = []" "cursor s3 = None" "trace s3 = trace s2" "ctxs s3 = ctxs s2"
    using work_polls_aborted [OF at_step_D [OF s2(2)] over q c, of cl] by blast
  have "ctx_state (ctxs s3 k) = AT_WORK_STAT_ABORT \<and> ctx_code (ctxs s3 k) = AT_RESP_ABORT" if it: "items s a = Some it" "attr_ctx (item_attr it) = Some k" for a it k
  proof -
    have "a \<in> set (hlist s) \<or> a \<in> set (llist s)" using it(1) dom by auto
    then have "(\<exists>b \<in> set (hlist s). \<exists>it. items s b = Some it \<and> attr_ctx (item_attr it) = Some k) \<or>
        (\<exists>b \<in> set (llist s). \<exists>it. items s1 b = Some it \<and> attr_ctx (item_attr it) = Some k)"
      using it e1 by (cases "a \<in> set (hlist s)") auto
    then show ?thesis unfolding s3(5) using e1 e2 by (elim disjE) auto
  qed
  then show ?thesis using run s3(1-4) e1 e2 by (auto simp: at_work_get_state_def at_work_get_result_def)
qed

theorem at_abort_drains_witness:
  "\<exists>s1 s2. at_work_abort_all at_fresh = Some s1 \<and> work_polls at_quiet (length (queue at_fresh)) s1 = Some s2 \<and> queue s2 = [] \<and> trace s2 = []"
  using at_abort_drains [OF at_fresh_inv, of at_quiet] by auto

text \<open>C19: What a request for a command with a suffix is answered while the heap does not refuse: it is queued exactly when the queue and the account of memory have room for it. The formatted command is built in a buffer of
256 bytes, and its length is taken from the formatting and not from the buffer: a command of 256 bytes or more is read from behind the buffer.\<close>

theorem at_exec_cmd_answers:
  assumes "client_ok cl" "at_inv s" "attr_suffix (attr_of attr) \<noteq> None"
  shows "(length cmd \<le> 255 \<longrightarrow>
      (\<exists>s'. at_exec_cmd cl attr cmd s = Some (cmd \<noteq> [] \<and> list_cnt s \<le> 32 \<and> 301 + length cmd + unat (at_cur_mem s) \<le> 6144, s') \<and> at_inv s')) \<and>
    (256 \<le> length cmd \<longrightarrow> 256 + unat (at_cur_mem s) \<le> 6144 \<longrightarrow> at_exec_cmd cl attr cmd s = None)"
proof (intro conjI impI)
  assume "length cmd \<le> 255"
  from at_exec_vcmd_ok [OF assms(1) at_inv_D [OF assms(2)] assms(3) this]
  show "\<exists>s'. at_exec_cmd cl attr cmd s = Some (cmd \<noteq> [] \<and> list_cnt s \<le> 32 \<and> 301 + length cmd + unat (at_cur_mem s) \<le> 6144, s') \<and> at_inv s'"
    using at_inv_step [OF assms(2)] unfolding at_exec_cmd_def by blast
next
  assume n: "256 \<le> length cmd" and m: "256 + unat (at_cur_mem s) \<le> 6144"
  obtain s1 where s1: "at_core_malloc cl (of_nat AT_MAX_CMD_LEN) s = Some (True, s1)"
    using malloc_room [OF assms(1), of "of_nat AT_MAX_CMD_LEN" s] m by (auto simp: AT_MAX_CMD_LEN_def)
  have "cmd \<noteq> []" "vsn_bytes cmd (length cmd + 1) = None" using n by (auto simp: vsn_bytes_def AT_MAX_CMD_LEN_def)
  then show "at_exec_cmd cl attr cmd s = None" using s1 by (simp add: at_exec_cmd_def at_exec_vcmd_def)
qed

theorem at_exec_cmd_answers_witness:
  "(\<exists>s'. at_exec_cmd at_quiet None [65, 84] at_fresh = Some (True, s') \<and> at_inv s') \<and> at_exec_cmd at_quiet None (replicate 256 65) at_fresh = None"
  using at_exec_cmd_answers [OF at_quiet_ok at_fresh_inv, of None "[65, 84]"] at_exec_cmd_answers [OF at_quiet_ok at_fresh_inv, of None "replicate 256 65"]
  by (simp add: attr_of_def)

subsection \<open>Where the code does something else than it means to\<close>

text \<open>When the heap refuses, within the client's own limit, its null pointer is written through: creating an object or requesting a command is undefined.\<close>

lemma at_heap_refuses:
  assumes "\<And>n s. \<not> heap_room cl n s"
  shows "n + at_cur_mem s \<le> AT_MEM_LIMIT_SIZE \<Longrightarrow> at_core_malloc cl n s = None"
    "at_cur_mem s = 0 \<Longrightarrow> at_obj_create cl ad s = None"
    "256 + at_cur_mem s \<le> AT_MEM_LIMIT_SIZE \<Longrightarrow> at_exec_cmd cl attr cmd s = None"
  using assms
  by (simp_all add: at_core_malloc_def at_obj_create_def at_exec_cmd_def at_exec_vcmd_def AT_MAX_CMD_LEN_def AT_MEM_LIMIT_SIZE_def sizeof_at_info_def not_less)

text \<open>A command without a suffix (\<open>fill in NULL if not required\<close>) is over at the first poll after its transmission, before any response; if bytes have come by then, the null
pointer is searched for.\<close>

lemma at_null_suffix:
  assumes "attr_suffix attr = None"
  shows "cmd_recv cl a attr (match_info_init attr (s\<lparr>recv_cnt := 0\<rparr>)) = cmd_done cl a AT_RESP_OK (match_info_init attr (s\<lparr>recv_cnt := 0\<rparr>))"
    "attr_prefix attr = None \<Longrightarrow> n \<noteq> 0 \<Longrightarrow> cmd_match attr ((match_info_init attr s)\<lparr>recv_cnt := n\<rparr>) = None"
proof -
  let ?s = "match_info_init attr (s\<lparr>recv_cnt := 0\<rparr>)"
  have m: "match_mask (match_info_init attr s') = mask_if (no_string (attr_prefix attr)) MATCH_MASK_PREFIX OR mask_if True MATCH_MASK_SUFFIX" for s'
    using assms by (simp add: match_info_init_def Let_def no_string_def mask_if_def)
  have "bit (match_mask ?s) 1" "\<not> bit (match_mask ?s) 2" unfolding m bit_or_iff mask_bit by simp_all
  moreover have "cmd_match attr ?s = Some ?s" by (simp add: cmd_match_def match_info_init_def Let_def)
  ultimately show "cmd_recv cl a attr ?s = cmd_done cl a AT_RESP_OK ?s" by (simp add: cmd_recv_def Let_def)
  assume "attr_prefix attr = None" "n \<noteq> 0"
  then have "bit (match_mask (match_info_init attr s)) 0" unfolding m bit_or_iff mask_bit by (simp add: no_string_def)
  moreover have "match_len (match_info_init attr s) = 0" by (simp add: match_info_init_def Let_def)
  ultimately show "cmd_match attr ((match_info_init attr s)\<lparr>recv_cnt := n\<rparr>) = None"
    using assms \<open>n \<noteq> 0\<close> by (simp add: cmd_match_def recv_strstr_def)
qed

text \<open>A receive buffer of up to 64 bytes is written past its end by one full read.\<close>

lemma at_small_recvbuf:
  assumes "length (recvbuf s) = unat (recv_bufsize s)" "unat (recv_bufsize s) \<le> length bs" "length bs \<le> 64" "bs \<noteq> []"
  shows "resp_recv_process bs s = None"
proof (cases "length bs = length (recvbuf s)")
  case True
  then have "blit (recvbuf s) 0 bs = Some bs" by (simp add: blit_def)
  moreover have "wr bs (unat (of_nat (length bs) :: u16)) 0 = None" using assms(3) by (simp add: wr_def unat_of_nat_lt)
  ultimately show ?thesis using assms True by (cases bs) (auto simp: resp_recv_process_def Let_def simp del: of_nat_Suc)
next
  case False
  then have "blit (recvbuf s) 0 bs = None" using assms(1,2) by (simp add: blit_def)
  then show ?thesis using assms by (cases bs) (auto simp: resp_recv_process_def Let_def simp del: of_nat_Suc)
qed

text \<open>The delay asked for by a work is measured from a timer that nothing sets.\<close>

lemma at_next_wait_no_wait:
  assumes "delay_timer s = 0" "ms < at_ms s"
  shows "do_work_handler cl f (at_next_wait ms s) = work_fn cl f (s\<lparr>next_delay := 0\<rparr>)"
  using assms by (cases "ms = 0") (simp_all add: do_work_handler_def at_next_wait_def AT_IS_TIMEOUT_def word_neq_0_conv)

text \<open>The command that leaves the transparent mode is compared at the letter n, not at a line feed.\<close>

lemma at_raw_exit_at_n:
  assumes "recvbuf s \<noteq> []" "recv_bufsize s \<noteq> 0" "recv_cnt s = 0"
  shows "raw_exit_byte cl 10 s = Some (s\<lparr>recvbuf := (recvbuf s)[0 := 10], recv_cnt := 1\<rparr>)"
    "raw_exit_byte cl 110 s = raw_exit_line cl (s\<lparr>recvbuf := (recvbuf s)[0 := 0], recv_cnt := 0\<rparr>)"
  using assms by (simp_all add: raw_exit_byte_def wr_def Let_def)

text \<open>The queue takes 33 items.\<close>

lemma at_queue_takes_33:
  assumes "client_ok cl" "at_inv s" "length (queue s) = 32" "44 + unat (at_cur_mem s) \<le> 6144"
  shows "\<exists>s'. at_do_work cl params f s = Some (True, s')"
proof -
  have "unat (list_cnt s) = 32" using at_ok_D(4) [OF at_inv_D [OF assms(2)]] assms(3) by (simp add: queue_ok_def)
  then have "room (WORK_TYPE_GENERAL f) s" using assms(4) by (simp add: room_def work_extend_def word_le_nat_alt)
  then show ?thesis
    using queued_ok [OF assms(1) at_inv_D [OF assms(2)], of "Some (at_def_attr\<lparr>attr_params := params\<rparr>)" "WORK_TYPE_GENERAL f"]
    by (auto simp: at_do_work_def work_extend_def)
qed

end
