(* ===== verification/Kmemory.thy ===== *)
theory Kmemory
  imports At_Inv
begin

text \<open>
  The memory and string functions of the kernel, \<open>rt-thread/src/kservice.c\<close> as configured here (the versions that move
  whole words, \<open>RT_KSERVICE_USING_TINY_SIZE\<close> unset). A memory is the list of its bytes, and a pointer an offset
  in it; its first byte is aligned to a word of four bytes. Characters are signed, as the project is compiled (\<open>-fsigned-char\<close>). Lengths are
  natural numbers; a loop over a string ends with \<open>None\<close> where it runs out of the memory.

  Each function is shown to do what the C library specifies, for all alignments and overlaps it has to serve, and
  where one does not, that is shown too.
\<close>

subsection \<open>Filling\<close>

definition LBLOCKSIZE :: nat where "LBLOCKSIZE = 4"

text \<open>A word as it lies in memory.\<close>

definition word_bytes :: "u32 \<Rightarrow> u8 list" where
  "word_bytes w = [ucast w, ucast (drop_bit 8 w), ucast (drop_bit 16 w), ucast (drop_bit 24 w)]"

text \<open>The loops of whole words: the address after them, and the bytes left over.\<close>

function memset_big :: "u8 list \<Rightarrow> nat \<Rightarrow> u32 \<Rightarrow> nat \<Rightarrow> (u8 list \<times> nat \<times> nat) option" where
  "memset_big m a w count =
     (if count < LBLOCKSIZE * 4 then Some (m, a, count)
      else do {
        m \<leftarrow> blit m a (word_bytes w);
        m \<leftarrow> blit m (a + 4) (word_bytes w);
        m \<leftarrow> blit m (a + 8) (word_bytes w);
        m \<leftarrow> blit m (a + 12) (word_bytes w);
        memset_big m (a + 16) w (count - 4 * LBLOCKSIZE) })"
  by pat_completeness auto
termination by (relation "measure (\<lambda>(m, a, w, count). count)") (auto simp: LBLOCKSIZE_def)

function memset_little :: "u8 list \<Rightarrow> nat \<Rightarrow> u32 \<Rightarrow> nat \<Rightarrow> (u8 list \<times> nat \<times> nat) option" where
  "memset_little m a w count =
     (if count < LBLOCKSIZE then Some (m, a, count)
      else do { m \<leftarrow> blit m a (word_bytes w); memset_little m (a + 4) w (count - LBLOCKSIZE) })"
  by pat_completeness auto
termination by (relation "measure (\<lambda>(m, a, w, count). count)") (auto simp: LBLOCKSIZE_def)

fun memset_bytes :: "u8 list \<Rightarrow> nat \<Rightarrow> u8 \<Rightarrow> nat \<Rightarrow> u8 list option" where
  "memset_bytes m a d 0 = Some m"
| "memset_bytes m a d (Suc n) = do { m \<leftarrow> wr m a d; memset_bytes m (a + 1) d n }"

definition memset_buffer :: "u32 \<Rightarrow> u32" where
  "memset_buffer d = (let b = push_bit 8 d OR d in b OR push_bit 16 b)"

definition rt_memset :: "u8 list \<Rightarrow> nat \<Rightarrow> u32 \<Rightarrow> nat \<Rightarrow> u8 list option" where
  "rt_memset m s c count =
     (let d = c AND 0xff in
      do { (m, a, count) \<leftarrow> (if \<not> count < LBLOCKSIZE \<and> s mod 4 = 0
             then do { (m, a, count) \<leftarrow> memset_big m s (memset_buffer d) count; memset_little m a (memset_buffer d) count }
             else Some (m, s, count));
           memset_bytes m a (ucast d) count })"

subsection \<open>Copying\<close>

definition copy_word :: "u8 list \<Rightarrow> nat \<Rightarrow> nat \<Rightarrow> u8 list option" where
  "copy_word m d s = do { w \<leftarrow> subarr m s 4; blit m d w }"

fun memcpy_big :: "u8 list \<Rightarrow> nat \<Rightarrow> nat \<Rightarrow> nat \<Rightarrow> (u8 list \<times> nat \<times> nat \<times> nat) option" where
  "memcpy_big m d s len =
     (if len < 16 then Some (m, d, s, len)
      else do {
        m \<leftarrow> copy_word m d s;
        m \<leftarrow> copy_word m (d + 4) (s + 4);
        m \<leftarrow> copy_word m (d + 8) (s + 8);
        m \<leftarrow> copy_word m (d + 12) (s + 12);
        memcpy_big m (d + 16) (s + 16) (len - 16) })"

fun memcpy_little :: "u8 list \<Rightarrow> nat \<Rightarrow> nat \<Rightarrow> nat \<Rightarrow> (u8 list \<times> nat \<times> nat \<times> nat) option" where
  "memcpy_little m d s len =
     (if len < 4 then Some (m, d, s, len)
      else do { m \<leftarrow> copy_word m d s; memcpy_little m (d + 4) (s + 4) (len - 4) })"

text \<open>Byte by byte, upwards and downwards.\<close>

fun copy_up :: "u8 list \<Rightarrow> nat \<Rightarrow> nat \<Rightarrow> nat \<Rightarrow> u8 list option" where
  "copy_up m d s 0 = Some m"
| "copy_up m d s (Suc n) = do { b \<leftarrow> rd m s; m \<leftarrow> wr m d b; copy_up m (d + 1) (s + 1) n }"

fun copy_down :: "u8 list \<Rightarrow> nat \<Rightarrow> nat \<Rightarrow> nat \<Rightarrow> u8 list option" where
  "copy_down m d s 0 = Some m"
| "copy_down m d s (Suc n) = do { b \<leftarrow> rd m (s + n); m \<leftarrow> wr m (d + n) b; copy_down m d s n }"

definition rt_memcpy :: "u8 list \<Rightarrow> nat \<Rightarrow> nat \<Rightarrow> nat \<Rightarrow> u8 list option" where
  "rt_memcpy m dst src count =
     do { (m, d, s, len) \<leftarrow> (if \<not> count < 16 \<and> dst mod 4 = 0 \<and> src mod 4 = 0
            then do { (m, d, s, len) \<leftarrow> memcpy_big m dst src count; memcpy_little m d s len }
            else Some (m, dst, src, count));
          copy_up m d s len }"

definition rt_memmove :: "u8 list \<Rightarrow> nat \<Rightarrow> nat \<Rightarrow> nat \<Rightarrow> u8 list option" where
  "rt_memmove m dest src n = (if src < dest \<and> dest < src + n then copy_down m dest src n else copy_up m dest src n)"

subsection \<open>Comparing and searching\<close>

fun rt_memcmp :: "u8 list \<Rightarrow> nat \<Rightarrow> nat \<Rightarrow> nat \<Rightarrow> int option" where
  "rt_memcmp m cs ct 0 = Some 0"
| "rt_memcmp m cs ct (Suc n) =
     do { a \<leftarrow> rd m cs;
          b \<leftarrow> rd m ct;
          if uint a - uint b \<noteq> 0 then Some (uint a - uint b) else rt_memcmp m (cs + 1) (ct + 1) n }"

text \<open>The end of a string; a pointer runs upwards and leaves the memory at its end.\<close>

function str_end :: "u8 list \<Rightarrow> nat \<Rightarrow> nat option" where
  "str_end m sc = do { c \<leftarrow> rd m sc; if c = 0 then Some sc else str_end m (sc + 1) }"
  by pat_completeness auto
termination by (relation "measure (\<lambda>(m, sc). length m - sc)") (auto simp: rd_Some_iff)

definition rt_strlen :: "u8 list \<Rightarrow> nat \<Rightarrow> nat option" where
  "rt_strlen m s = map_option (\<lambda>sc. sc - s) (str_end m s)"

function strnlen_loop :: "u8 list \<Rightarrow> nat \<Rightarrow> nat \<Rightarrow> nat \<Rightarrow> nat option" where
  "strnlen_loop m s maxlen sc =
     do { c \<leftarrow> rd m sc; if c \<noteq> 0 \<and> sc - s < maxlen then strnlen_loop m s maxlen (sc + 1) else Some (sc - s) }"
  by pat_completeness auto
termination by (relation "measure (\<lambda>(m, s, maxlen, sc). length m - sc)") (auto simp: rd_Some_iff)

definition rt_strnlen :: "u8 list \<Rightarrow> nat \<Rightarrow> nat \<Rightarrow> nat option" where
  "rt_strnlen m s maxlen = strnlen_loop m s maxlen s"

text \<open>With a string that is not empty the second length is never 0, so that the first one is not either where it is counted down.\<close>

fun strstr_loop :: "u8 list \<Rightarrow> nat \<Rightarrow> nat \<Rightarrow> nat \<Rightarrow> nat \<Rightarrow> nat option option" where
  "strstr_loop m s1 s2 l1 l2 =
     (if l1 < l2 then Some None
      else do {
        r \<leftarrow> rt_memcmp m s1 s2 l2;
        if r = 0 then Some (Some s1)
        else if l1 = 0 then Some None
        else strstr_loop m (s1 + 1) s2 (l1 - 1) l2 })"

definition rt_strstr :: "u8 list \<Rightarrow> nat \<Rightarrow> nat \<Rightarrow> nat option option" where
  "rt_strstr m s1 s2 =
     do { l2 \<leftarrow> rt_strlen m s2;
          if l2 = 0 then Some (Some s1)
          else do { l1 \<leftarrow> rt_strlen m s1; strstr_loop m s1 s2 l1 l2 } }"

definition lower :: "u8 \<Rightarrow> int" where
  "lower c = (if 65 \<le> c \<and> c \<le> 90 then uint c + 32 else uint c)"

function rt_strcasecmp :: "u8 list \<Rightarrow> nat \<Rightarrow> nat \<Rightarrow> int option" where
  "rt_strcasecmp m a b =
     do { ca \<leftarrow> rd m a;
          cb \<leftarrow> rd m b;
          if lower ca = lower cb \<and> lower ca \<noteq> 0 then rt_strcasecmp m (a + 1) (b + 1) else Some (lower ca - lower cb) }"
  by pat_completeness auto
termination by (relation "measure (\<lambda>(m, a, b). length m - a)") (auto simp: rd_Some_iff)

function rt_strcmp :: "u8 list \<Rightarrow> nat \<Rightarrow> nat \<Rightarrow> int option" where
  "rt_strcmp m cs ct =
     do { a \<leftarrow> rd m cs;
          b \<leftarrow> rd m ct;
          if a \<noteq> 0 \<and> a = b then rt_strcmp m (cs + 1) (ct + 1) else Some (sint a - sint b) }"
  by pat_completeness auto
termination by (relation "measure (\<lambda>(m, a, b). length m - a)") (auto simp: rd_Some_iff)

text \<open>The difference is kept in a signed character.\<close>

fun rt_strncmp :: "u8 list \<Rightarrow> nat \<Rightarrow> nat \<Rightarrow> nat \<Rightarrow> int option" where
  "rt_strncmp m cs ct 0 = Some 0"
| "rt_strncmp m cs ct (Suc n) =
     do { a \<leftarrow> rd m cs;
          b \<leftarrow> rd m ct;
          let res = sint (a - b);
          if res \<noteq> 0 \<or> a = 0 then Some res else rt_strncmp m (cs + 1) (ct + 1) n }"

subsection \<open>Copying strings\<close>

function rt_strcpy :: "u8 list \<Rightarrow> nat \<Rightarrow> nat \<Rightarrow> u8 list option" where
  "rt_strcpy m dst src =
     do { c \<leftarrow> rd m src;
          if c = 0 then wr m dst 0
          else do { m \<leftarrow> wr m dst c; rt_strcpy m (dst + 1) (src + 1) } }"
  by pat_completeness auto
termination by (relation "measure (\<lambda>(m, d, s). length m - s)") (auto simp: rd_Some_iff wr_def split: if_splits)

text \<open>The rest is filled with zeros.\<close>

fun rt_strncpy :: "u8 list \<Rightarrow> nat \<Rightarrow> nat \<Rightarrow> nat \<Rightarrow> u8 list option" where
  "rt_strncpy m dst src 0 = Some m"
| "rt_strncpy m dst src (Suc n) =
     do { c \<leftarrow> rd m src;
          m \<leftarrow> wr m dst c;
          if c = 0 then memset_bytes m (dst + 1) 0 n else rt_strncpy m (dst + 1) (src + 1) n }"

declare memset_big.simps [simp del] memset_little.simps [simp del] memcpy_big.simps [simp del] memcpy_little.simps [simp del]
  str_end.simps [simp del] strnlen_loop.simps [simp del] strstr_loop.simps [simp del] rt_strcasecmp.simps [simp del] rt_strcmp.simps [simp del]
  rt_strcpy.simps [simp del]

subsection \<open>Filling and copying do what they should\<close>

lemma blit_step: "blit m a xs = Some m1 \<Longrightarrow> blit m1 (a + length xs) ys = blit m a (xs @ ys)"
  by (auto simp: blit_def ac_simps split: if_splits)

lemma wr_blit: "wr m a d = blit m a [d]" by (simp add: wr_def blit_def upd_conv_take_nth_drop)

lemma blit_nil: "a \<le> length m \<Longrightarrow> blit m a [] = Some m" by (simp add: blit_def)

lemma memset_bytes_blit: "a + n \<le> length m \<Longrightarrow> memset_bytes m a d n = blit m a (replicate n d)"
proof (induction n arbitrary: m a)
  case (Suc n)
  obtain m1 where m1: "blit m a [d] = Some m1" using Suc.prems by (simp add: blit_def)
  have "memset_bytes m1 (a + 1) d n = blit m1 (a + 1) (replicate n d)" using Suc blit_length [OF m1] by simp
  also have "\<dots> = blit m a (replicate (Suc n) d)" using blit_step [OF m1, of "replicate n d"] by simp
  finally show ?case using m1 by (simp add: wr_blit)
qed (simp add: blit_nil)

text \<open>A word of equal bytes.\<close>

lemma bit_byte: "bit (d AND 0xff) n \<longleftrightarrow> bit d n \<and> n < 8" for d :: u32
proof -
  have "(0xff :: u32) = mask 8" by (simp add: mask_eq_decr_exp)
  then show ?thesis unfolding bit_and_iff by (simp only: bit_mask_iff) (auto dest: bit_imp_le_length)
qed

lemma memset_buffer_bytes:
  assumes d: "\<And>n. bit d n \<Longrightarrow> n < 8"
  shows "word_bytes (memset_buffer d) = replicate 4 (ucast d)"
proof -
  have "ucast (drop_bit k (memset_buffer d)) = (ucast d :: u8)" if "k \<in> {0, 8, 16, 24}" for k
    using that by (intro bit_word_eqI) (auto simp: memset_buffer_def Let_def bit_ucast_iff bit_or_iff bit_push_bit_iff bit_drop_bit_eq dest: d)
  from this [of 0] this [of 8] this [of 16] this [of 24] show ?thesis by (simp add: word_bytes_def numeral_eq_Suc)
qed

text \<open>The loops of words advance by some number of bytes, which are filled.\<close>

definition filled :: "u8 list \<Rightarrow> nat \<Rightarrow> u8 \<Rightarrow> nat \<Rightarrow> (u8 list \<times> nat \<times> nat) option \<Rightarrow> bool" where
  "filled m a d count r \<longleftrightarrow> (\<exists>k m'. r = Some (m', a + k, count - k) \<and> k \<le> count \<and> blit m a (replicate k d) = Some m')"

lemma filled_0: "a \<le> length m \<Longrightarrow> filled m a d count (Some (m, a, count))"
  unfolding filled_def by (intro exI [of _ 0]) (simp add: blit_nil)

lemma filled_more:
  assumes "blit m a (replicate j d) = Some m1" "filled m1 (a + j) d (count - j) r" "j \<le> count"
  shows "filled m a d count r"
proof -
  obtain k m' where k: "r = Some (m', a + j + k, count - j - k)" "k \<le> count - j" "blit m1 (a + j) (replicate k d) = Some m'"
    using assms(2) by (auto simp: filled_def)
  have "blit m a (replicate (j + k) d) = Some m'" using blit_step [OF assms(1), of "replicate k d"] k(3) by (simp add: replicate_add)
  then show ?thesis unfolding filled_def using k assms(3) by (intro exI [of _ "j + k"]) (simp add: add.assoc)
qed

lemma memset_little_filled:
  assumes w: "word_bytes w = replicate 4 d"
  shows "a + count \<le> length m \<Longrightarrow> filled m a d count (memset_little m a w count)"
proof (induction count arbitrary: m a rule: less_induct)
  case (less count)
  show ?case
  proof (cases "count < 4")
    case True
    then show ?thesis using less.prems filled_0 [of a m d count] by (simp add: memset_little.simps LBLOCKSIZE_def)
  next
    case False
    then obtain m1 where m1: "blit m a (replicate 4 d) = Some m1" using less.prems by (simp add: blit_def)
    have "filled m1 (a + 4) d (count - 4) (memset_little m1 (a + 4) w (count - 4))"
      using False less blit_length [OF m1] by simp
    from filled_more [OF m1 this] False show ?thesis
      using m1 w by (subst memset_little.simps) (simp add: LBLOCKSIZE_def)
  qed
qed

lemma memset_big_filled:
  assumes w: "word_bytes w = replicate 4 d"
  shows "a + count \<le> length m \<Longrightarrow> filled m a d count (memset_big m a w count)"
proof (induction count arbitrary: m a rule: less_induct)
  case (less count)
  show ?case
  proof (cases "count < 16")
    case True
    then show ?thesis using less.prems filled_0 [of a m d count] by (simp add: memset_big.simps LBLOCKSIZE_def)
  next
    case False
    have l: "length (replicate 4 d) = 4" by simp
    obtain m1 where m1: "blit m a (replicate 4 d) = Some m1" using less.prems False by (simp add: blit_def)
    obtain m2 where m2: "blit m1 (a + 4) (replicate 4 d) = Some m2" using less.prems False blit_length [OF m1] by (simp add: blit_def)
    obtain m3 where m3: "blit m2 (a + 8) (replicate 4 d) = Some m3" using less.prems False blit_length [OF m1] blit_length [OF m2] by (simp add: blit_def)
    obtain m4 where m4: "blit m3 (a + 12) (replicate 4 d) = Some m4"
      using less.prems False blit_length [OF m1] blit_length [OF m2] blit_length [OF m3] by (simp add: blit_def)
    have len: "length m4 = length m" using blit_length [OF m1] blit_length [OF m2] blit_length [OF m3] blit_length [OF m4] by simp
    have "blit m a (replicate 8 d) = Some m2" using blit_step [OF m1, of "replicate 4 d"] m2 by (simp flip: replicate_add)
    from blit_step [OF this, of "replicate 4 d"] m3 have "blit m a (replicate 12 d) = Some m3" by (simp flip: replicate_add)
    from blit_step [OF this, of "replicate 4 d"] m4 have b: "blit m a (replicate 16 d) = Some m4" by (simp flip: replicate_add)
    have "filled m4 (a + 16) d (count - 16) (memset_big m4 (a + 16) w (count - 16))" using False less len by simp
    from filled_more [OF b this] False show ?thesis
      using m1 m2 m3 m4 w by (subst memset_big.simps) (simp add: LBLOCKSIZE_def)
  qed
qed

lemma rt_memset_blit:
  assumes "s + count \<le> length m"
  shows "rt_memset m s c count = blit m s (replicate count (ucast (c AND 0xff)))"
proof -
  let ?d = "c AND 0xff" let ?b = "ucast ?d :: u8"
  have w: "word_bytes (memset_buffer ?d) = replicate 4 ?b" by (rule memset_buffer_bytes) (simp add: bit_byte)
  have tail: "(do { (m', a', count') \<leftarrow> r; memset_bytes m' a' ?b count' }) = blit m s (replicate count ?b)" if f: "filled m s ?b count r" for r
  proof -
    obtain k m' where k: "r = Some (m', s + k, count - k)" "k \<le> count" "blit m s (replicate k ?b) = Some m'" using f by (auto simp: filled_def)
    have "memset_bytes m' (s + k) ?b (count - k) = blit m' (s + k) (replicate (count - k) ?b)"
      using k(2) assms blit_length [OF k(3)] by (intro memset_bytes_blit) simp
    also have "\<dots> = blit m s (replicate count ?b)" using blit_step [OF k(3), of "replicate (count - k) ?b"] k(2) by (simp flip: replicate_add)
    finally show ?thesis using k(1) by simp
  qed
  have "filled m s ?b count (do { (m, a, count) \<leftarrow> memset_big m s (memset_buffer ?d) count; memset_little m a (memset_buffer ?d) count })"
  proof -
    obtain k m' where k: "memset_big m s (memset_buffer ?d) count = Some (m', s + k, count - k)" "k \<le> count" "blit m s (replicate k ?b) = Some m'"
      using memset_big_filled [OF w assms] by (auto simp: filled_def)
    have "filled m' (s + k) ?b (count - k) (memset_little m' (s + k) (memset_buffer ?d) (count - k))"
      using k(2) assms blit_length [OF k(3)] by (intro memset_little_filled [OF w]) simp
    from filled_more [OF k(3) this k(2)] show ?thesis using k(1) by simp
  qed
  moreover have "filled m s ?b count (Some (m, s, count))" using assms by (intro filled_0) simp
  ultimately show ?thesis unfolding rt_memset_def Let_def by (intro tail) simp
qed

text \<open>Part of a copy upwards is done. The source must not be written before it is read.\<close>

definition copied :: "u8 list \<Rightarrow> nat \<Rightarrow> nat \<Rightarrow> nat \<Rightarrow> u8 list \<Rightarrow> bool" where
  "copied m d s k m' \<longleftrightarrow> blit m d (take k (drop s m)) = Some m'"

lemma copied_0: "d \<le> length m \<Longrightarrow> copied m d s 0 m" by (simp add: copied_def blit_nil)

lemma copied_length: "copied m d s k m' \<Longrightarrow> length m' = length m" using blit_length by (auto simp: copied_def)

lemma copied_source:
  assumes c: "copied m d s k m'" and safe: "d \<le> s \<or> s + N \<le> d" and n: "s + N \<le> length m" "k + j \<le> N"
  shows "subarr m' (s + k) j = Some (take j (drop (s + k) m))"
proof -
  have len: "length m' = length m" using copied_length [OF c] .
  have "m' ! (s + k + i) = m ! (s + k + i)" if "i < j" for i
    using blit_nth [OF c [unfolded copied_def], of "s + k + i"] safe n that by auto
  then have "take j (drop (s + k) m') = take j (drop (s + k) m)" using len n by (intro nth_equalityI) auto
  then show ?thesis using len n by simp
qed

lemma copied_step:
  assumes c: "copied m d s k m'" and safe: "d \<le> s \<or> s + N \<le> d" and n: "s + N \<le> length m" "d + N \<le> length m" "k + j \<le> N"
  shows "\<exists>m''. blit m' (d + k) (take j (drop (s + k) m)) = Some m'' \<and> copied m d s (k + j) m''"
proof -
  have l: "length (take k (drop s m)) = k" using n by simp
  have "blit m' (d + k) (take j (drop (s + k) m)) = blit m d (take k (drop s m) @ take j (drop (s + k) m))"
    using blit_step [OF c [unfolded copied_def], of "take j (drop (s + k) m)"] l by simp
  also have "take k (drop s m) @ take j (drop (s + k) m) = take (k + j) (drop s m)" by (simp only: take_add drop_drop add.commute [of s k])
  finally have e: "blit m' (d + k) (take j (drop (s + k) m)) = blit m d (take (k + j) (drop s m))" .
  have "blit m d (take (k + j) (drop s m)) \<noteq> None" using n by (simp add: blit_def)
  then show ?thesis unfolding e copied_def by auto
qed

lemma copy_word_step:
  assumes c: "copied m d s k m'" and safe: "d \<le> s \<or> s + N \<le> d" and n: "s + N \<le> length m" "d + N \<le> length m" "k + 4 \<le> N"
  shows "\<exists>m''. copy_word m' (d + k) (s + k) = Some m'' \<and> copied m d s (k + 4) m''"
  using copied_step [OF assms] copied_source [OF c safe n(1,3)] by (simp add: copy_word_def)

lemma copy_up_copies:
  assumes safe: "d \<le> s \<or> s + N \<le> d" and n: "s + N \<le> length m" "d + N \<le> length m"
  shows "copied m d s k m' \<Longrightarrow> k + j = N \<Longrightarrow> copy_up m' (d + k) (s + k) j = blit m d (take N (drop s m))"
proof (induction j arbitrary: k m')
  case 0
  then show ?case by (simp add: copied_def)
next
  case (Suc j)
  have "subarr m' (s + k) 1 = Some (take 1 (drop (s + k) m))" using copied_source [OF Suc.prems(1) safe n(1), of 1] Suc.prems(2) by simp
  then have b: "rd m' (s + k) = Some (m ! (s + k))" "take 1 (drop (s + k) m) = [m ! (s + k)]"
    using n Suc.prems(2) copied_length [OF Suc.prems(1)] by (auto simp: take_Suc_conv_app_nth subarr_def)
  obtain m'' where m'': "blit m' (d + k) [m ! (s + k)] = Some m''" "copied m d s (k + 1) m''"
    using copied_step [OF Suc.prems(1) safe n, of 1] b(2) Suc.prems(2) by auto
  show ?case using Suc.IH [OF m''(2)] Suc.prems(2) b(1) m''(1) by (simp add: wr_blit)
qed

text \<open>The loops of words leave some of the copy to do.\<close>

definition copies :: "u8 list \<Rightarrow> nat \<Rightarrow> nat \<Rightarrow> nat \<Rightarrow> (u8 list \<times> nat \<times> nat \<times> nat) option \<Rightarrow> bool" where
  "copies m d s N r \<longleftrightarrow> (\<exists>k m'. r = Some (m', d + k, s + k, N - k) \<and> k \<le> N \<and> copied m d s k m')"

lemma memcpy_little_copies:
  assumes safe: "d \<le> s \<or> s + N \<le> d" and n: "s + N \<le> length m" "d + N \<le> length m"
  shows "copied m d s k m' \<Longrightarrow> k + len = N \<Longrightarrow> copies m d s N (memcpy_little m' (d + k) (s + k) len)"
proof (induction len arbitrary: k m' rule: less_induct)
  case (less len)
  show ?case
  proof (cases "len < 4")
    case True
    then show ?thesis using less.prems by (auto simp: memcpy_little.simps copies_def)
  next
    case False
    obtain m'' where m'': "copy_word m' (d + k) (s + k) = Some m''" "copied m d s (k + 4) m''"
      using copy_word_step [OF less.prems(1) safe n] less.prems(2) False by auto
    show ?thesis using less.IH [OF _ m''(2), of "len - 4"] less.prems(2) False m''(1) by (subst memcpy_little.simps) (simp add: ac_simps)
  qed
qed

lemma memcpy_big_copies:
  assumes safe: "d \<le> s \<or> s + N \<le> d" and n: "s + N \<le> length m" "d + N \<le> length m"
  shows "copied m d s k m' \<Longrightarrow> k + len = N \<Longrightarrow> copies m d s N (memcpy_big m' (d + k) (s + k) len)"
proof (induction len arbitrary: k m' rule: less_induct)
  case (less len)
  show ?case
  proof (cases "len < 16")
    case True
    then show ?thesis using less.prems by (auto simp: memcpy_big.simps copies_def)
  next
    case False
    note step = copy_word_step [OF _ safe n]
    obtain m1 where m1: "copy_word m' (d + k) (s + k) = Some m1" "copied m d s (k + 4) m1" using step [OF less.prems(1)] less.prems(2) False by auto
    obtain m2 where m2: "copy_word m1 (d + (k + 4)) (s + (k + 4)) = Some m2" "copied m d s (k + 4 + 4) m2" using step [OF m1(2)] less.prems(2) False by auto
    obtain m3 where m3: "copy_word m2 (d + (k + 4 + 4)) (s + (k + 4 + 4)) = Some m3" "copied m d s (k + 4 + 4 + 4) m3"
      using step [OF m2(2)] less.prems(2) False by auto
    obtain m4 where m4: "copy_word m3 (d + (k + 4 + 4 + 4)) (s + (k + 4 + 4 + 4)) = Some m4" "copied m d s (k + 4 + 4 + 4 + 4) m4"
      using step [OF m3(2)] less.prems(2) False by auto
    show ?thesis
      using less.IH [OF _ m4(2), of "len - 16"] less.prems(2) False m1(1) m2(1) m3(1) m4(1) by (subst memcpy_big.simps) (simp add: ac_simps)
  qed
qed

lemma rt_memcpy_blit:
  assumes safe: "d \<le> s \<or> s + N \<le> d" and n: "s + N \<le> length m" "d + N \<le> length m"
  shows "rt_memcpy m d s N = blit m d (take N (drop s m))"
proof -
  have z: "copied m d s 0 m" using n by (intro copied_0) simp
  have tail: "(do { (m', d', s', len) \<leftarrow> r; copy_up m' d' s' len }) = blit m d (take N (drop s m))" if "copies m d s N r" for r
    using that copy_up_copies [OF safe n] by (auto simp: copies_def)
  have "copies m d s N (do { (m, d, s, len) \<leftarrow> memcpy_big m d s N; memcpy_little m d s len })"
  proof -
    obtain k m' where k: "memcpy_big m d s N = Some (m', d + k, s + k, N - k)" "k \<le> N" "copied m d s k m'"
      using memcpy_big_copies [OF safe n z, of N] by (auto simp: copies_def)
    then show ?thesis using memcpy_little_copies [OF safe n k(3), of "N - k"] by simp
  qed
  moreover have "copies m d s N (Some (m, d, s, N))" unfolding copies_def using z by (intro exI [of _ 0]) simp
  ultimately show ?thesis unfolding rt_memcpy_def by (intro tail) simp
qed

text \<open>Downwards, from the end.\<close>

lemma copy_down_copies:
  assumes safe: "s < d" and n: "s + N \<le> length m" "d + N \<le> length m"
  shows "j \<le> N \<Longrightarrow> blit m (d + j) (take (N - j) (drop (s + j) m)) = Some m' \<Longrightarrow> copy_down m' d s j = blit m d (take N (drop s m))"
proof (induction j arbitrary: m')
  case (Suc j)
  let ?xs = "take (N - Suc j) (drop (s + Suc j) m)"
  have len: "length m' = length m" using blit_length [OF Suc.prems(2)] .
  have "m' ! (s + j) = m ! (s + j)" using blit_nth [OF Suc.prems(2), of "s + j"] safe n Suc.prems(1) by auto
  then have r: "rd m' (s + j) = Some (m ! (s + j))" using n Suc.prems(1) len by simp
  have "Suc j + (N - Suc j) = N" using Suc.prems(1) by simp
  then have l: "length ?xs = N - Suc j" using n by simp
  have e: "take (N - j) (drop (s + j) m) = m ! (s + j) # ?xs"
  proof -
    have "drop (s + j) m = m ! (s + j) # drop (s + Suc j) m" using n Suc.prems(1) by (simp add: Cons_nth_drop_Suc)
    moreover have "N - j = Suc (N - Suc j)" using Suc.prems(1) by simp
    ultimately show ?thesis by simp
  qed
  have "wr m' (d + j) (m ! (s + j)) = blit m (d + j) (m ! (s + j) # ?xs)"
    using Suc.prems n l unfolding wr_blit by (auto simp: blit_def ac_simps min_def split: if_splits)
  then have w: "wr m' (d + j) (m ! (s + j)) = blit m (d + j) (take (N - j) (drop (s + j) m))" using e by simp
  moreover obtain m'' where "blit m (d + j) (take (N - j) (drop (s + j) m)) = Some m''"
    using n Suc.prems(1) by (simp add: blit_def)
  ultimately show ?case using Suc.IH [of m''] Suc.prems(1) r by simp
qed simp

lemma rt_memmove_blit:
  assumes n: "s + N \<le> length m" "d + N \<le> length m"
  shows "rt_memmove m d s N = blit m d (take N (drop s m))"
proof (cases "s < d \<and> d < s + N")
  case True
  then show ?thesis using copy_down_copies [OF _ n, of N m] n by (simp add: rt_memmove_def blit_nil)
next
  case False
  then have "d \<le> s \<or> s + N \<le> d" by auto
  from copy_up_copies [OF this n copied_0, of N] show ?thesis using n unfolding rt_memmove_def if_not_P [OF False] by simp
qed

subsection \<open>Strings\<close>

text \<open>A string in memory: its characters and a zero.\<close>

definition string_at :: "u8 list \<Rightarrow> nat \<Rightarrow> cstring \<Rightarrow> bool" where
  "string_at m a t \<longleftrightarrow> take (length t + 1) (drop a m) = t @ [0] \<and> 0 \<notin> set t"

lemma string_at_Nil [simp]: "string_at m a [] \<longleftrightarrow> rd m a = Some 0"
proof (cases "a < length m")
  case True
  then show ?thesis by (simp add: string_at_def flip: Cons_nth_drop_Suc)
qed (simp add: string_at_def rd_def)

lemma string_at_Cons [simp]: "string_at m a (c # t) \<longleftrightarrow> rd m a = Some c \<and> c \<noteq> 0 \<and> string_at m (a + 1) t"
proof (cases "a < length m")
  case True
  then show ?thesis by (auto simp: string_at_def simp flip: Cons_nth_drop_Suc)
qed (simp add: string_at_def rd_def)

lemma string_at_bound: "string_at m a t \<Longrightarrow> a + length t < length m"
proof (induction t arbitrary: a)
  case Nil
  then show ?case by (simp add: rd_Some_iff)
next
  case (Cons c t)
  then show ?case by fastforce
qed

lemma str_end_string: "string_at m a t \<Longrightarrow> str_end m a = Some (a + length t)"
proof (induction t arbitrary: a)
  case Nil
  then show ?case by (subst str_end.simps) simp
next
  case (Cons c t)
  then show ?case by (subst str_end.simps) simp
qed

lemma rt_strlen_string: "string_at m a t \<Longrightarrow> rt_strlen m a = Some (length t)"
  by (simp add: rt_strlen_def str_end_string)

text \<open>The lexicographic order of characters, read as numbers by \<open>f\<close>.\<close>

definition less_chars :: "(u8 \<Rightarrow> int) \<Rightarrow> cstring \<Rightarrow> cstring \<Rightarrow> bool" where
  "less_chars f t u \<longleftrightarrow> (t, u) \<in> lexord {(a, b). f a < f b}"

lemma less_chars_simps [simp]:
  "less_chars f [] (c # u)" "\<not> less_chars f t []" "less_chars f (a # t) (b # u) \<longleftrightarrow> f a < f b \<or> a = b \<and> less_chars f t u"
  by (simp_all add: less_chars_def)

text \<open>Two strings compare by their signed characters, the zero at the end included.\<close>

lemma sint_zero: "sint a = 0 \<longleftrightarrow> a = 0" for a :: "'a::len word"
  by (metis signed_0 signed_word_eqI)

lemma sint_eq: "sint a = sint b \<longleftrightarrow> a = b" for a :: "'a::len word"
  by (metis signed_word_eqI)

lemma uint_zero: "uint a = 0 \<longleftrightarrow> a = 0" "0 < uint a \<longleftrightarrow> a \<noteq> 0" for a :: "'a::len word"
proof -
  show z: "uint a = 0 \<longleftrightarrow> a = 0" by (simp add: word_uint_eq_iff)
  have "0 \<le> uint a" by simp
  then show "0 < uint a \<longleftrightarrow> a \<noteq> 0" using z by linarith
qed

lemma rt_strcmp_string:
  "string_at m a t \<Longrightarrow> string_at m b u \<Longrightarrow> \<exists>r. rt_strcmp m a b = Some r \<and> (r = 0 \<longleftrightarrow> t = u) \<and> (r < 0 \<longleftrightarrow> less_chars sint (t @ [0]) (u @ [0]))"
proof (induction t arbitrary: a b u)
  case Nil
  then show ?case by (cases u) (subst rt_strcmp.simps; auto simp: sint_zero)+
next
  case (Cons c t)
  show ?case
  proof (cases u)
    case Nil
    then show ?thesis using Cons.prems by (subst rt_strcmp.simps) (auto simp: sint_zero)
  next
    case (Cons d u')
    then show ?thesis
      using Cons.IH [of "a + 1" "b + 1" u'] Cons.prems by (subst rt_strcmp.simps) (auto simp: sint_eq)
  qed
qed

lemma lower_eq: "lower a = lower b \<longleftrightarrow> tolower_c a = tolower_c b"
proof -
  have "lower c = uint (tolower_c c)" for c
  proof (cases "65 \<le> c \<and> c \<le> 90")
    case True
    then have "uint (c + 32) = uint c + 32" by (subst uint_plus_if') (auto simp: word_le_def)
    then show ?thesis using True by (simp add: lower_def tolower_c_def)
  qed (auto simp: lower_def tolower_c_def)
  then show ?thesis by (simp add: word_uint_eq_iff)
qed

lemma lower_0: "lower c = 0 \<longleftrightarrow> c = 0" "lower 0 = lower c \<longleftrightarrow> c = 0" "lower c = lower 0 \<longleftrightarrow> c = 0"
  by (auto simp: lower_def word_le_def word_uint_eq_iff)

lemma rt_strcasecmp_string:
  "string_at m a t \<Longrightarrow> string_at m b u \<Longrightarrow> \<exists>r. rt_strcasecmp m a b = Some r \<and> (r = 0 \<longleftrightarrow> strcaseeq t u)"
proof (induction t arbitrary: a b u)
  case Nil
  then show ?case by (cases u) (subst rt_strcasecmp.simps; auto simp: strcaseeq_def lower_0)+
next
  case (Cons c t)
  show ?case
  proof (cases u)
    case Nil
    then show ?thesis using Cons.prems by (subst rt_strcasecmp.simps) (auto simp: strcaseeq_def lower_0)
  next
    case (Cons d u')
    then show ?thesis
      using Cons.IH [of "a + 1" "b + 1" u'] Cons.prems by (subst rt_strcasecmp.simps) (auto simp: strcaseeq_def lower_0 lower_eq)
  qed
qed

lemma rt_memcmp_equal:
  "a + n \<le> length m \<Longrightarrow> b + n \<le> length m \<Longrightarrow> \<exists>r. rt_memcmp m a b n = Some r \<and> (r = 0 \<longleftrightarrow> take n (drop a m) = take n (drop b m)) \<and>
    (r < 0 \<longleftrightarrow> less_chars uint (take n (drop a m)) (take n (drop b m)))"
proof (induction n arbitrary: a b)
  case (Suc n)
  then have d: "drop a m = m ! a # drop (a + 1) m" "drop b m = m ! b # drop (b + 1) m" by (simp_all add: Cons_nth_drop_Suc)
  show ?case using Suc.IH [of "a + 1" "b + 1"] Suc.prems unfolding d by (auto simp: word_uint_eq_iff)
qed simp

text \<open>The kernel's search is the reference \<open>strstr\<close>.\<close>

lemma string_at_drop: "string_at m a t \<Longrightarrow> k \<le> length t \<Longrightarrow> string_at m (a + k) (drop k t)"
proof (induction k arbitrary: a t)
  case (Suc k)
  then obtain c t' where t: "t = c # t'" by (cases t) auto
  then show ?case using Suc.IH [of "a + 1" t'] Suc.prems by simp
qed simp

lemma string_at_take: "string_at m a t \<Longrightarrow> take (length t) (drop a m) = t"
proof -
  assume s: "string_at m a t"
  have "take (length t) (take (length t + 1) (drop a m)) = t" using s by (simp only: string_at_def) simp
  then show ?thesis by simp
qed

lemma strstr_loop_strstr:
  assumes u: "string_at m b u" "u \<noteq> []"
  shows "string_at m a t \<Longrightarrow> strstr_loop m a b (length t) (length u) = Some (map_option ((+) a) (strstr t u))"
proof (induction t arbitrary: a)
  case Nil
  then show ?case using u(2) by (simp add: strstr_loop.simps)
next
  case (Cons c t)
  show ?case
  proof (cases "length (c # t) < length u")
    case True
    then have "strstr (c # t) u = None" using strstr_bound [of "c # t" u] by (cases "strstr (c # t) u") fastforce+
    then show ?thesis using True by (subst strstr_loop.simps) simp
  next
    case False
    have len: "a + length (c # t) < length m" "b + length u < length m" using string_at_bound [OF Cons.prems] string_at_bound [OF u(1)] by simp_all
    then have "a + length u \<le> length m" "b + length u \<le> length m" using False by simp_all
    from rt_memcmp_equal [OF this] obtain r where r: "rt_memcmp m a b (length u) = Some r" "r = 0 \<longleftrightarrow> take (length u) (drop a m) = take (length u) (drop b m)"
      by blast
    have "take (length u) (drop a m) = take (length u) (c # t)"
      using string_at_take [OF Cons.prems] False by (metis min.absorb1 not_less take_take)
    then have eq: "r = 0 \<longleftrightarrow> take (length u) (c # t) = u" using r(2) string_at_take [OF u(1)] by simp
    have "strstr_loop m (a + 1) b (length t) (length u) = Some (map_option ((+) (a + 1)) (strstr t u))"
      by (rule Cons.IH) (use Cons.prems in simp)
    then have ih: "strstr_loop m (a + 1) b (length t) (length u) = Some (map_option ((+) a) (map_option Suc (strstr t u)))"
      by (cases "strstr t u") simp_all
    show ?thesis using r(1) eq False ih by (subst strstr_loop.simps) simp
  qed
qed

lemma rt_strstr_strstr:
  assumes "string_at m a t" "string_at m b u"
  shows "rt_strstr m a b = Some (map_option ((+) a) (strstr t u))"
proof (cases "u = []")
  case True
  have "strstr t [] = Some 0" by (cases t) simp_all
  then show ?thesis using True rt_strlen_string [OF assms(2)] by (simp add: rt_strstr_def)
next
  case False
  then show ?thesis using assms strstr_loop_strstr [OF assms(2) False assms(1)] rt_strlen_string by (simp add: rt_strstr_def)
qed

lemma rt_strncmp_string:
  "string_at m a t \<Longrightarrow> string_at m b u \<Longrightarrow> \<exists>r. rt_strncmp m a b n = Some r \<and> (r = 0 \<longleftrightarrow> take n t = take n u)"
proof (induction n arbitrary: a b t u)
  case (Suc n)
  have z: "sint (x - y) = 0 \<longleftrightarrow> x = y" for x y :: u8 by (metis eq_iff_diff_eq_0 signed_0 signed_word_eqI)
  have z': "sint x = 0 \<longleftrightarrow> x = 0" for x :: u8 using z [of x 0] by simp
  show ?case using Suc.IH [of "a + 1" _ "b + 1"] Suc.prems by (cases t; cases u) (auto simp: z z' Let_def)
qed simp

text \<open>A maximum length: the character behind it is read all the same.\<close>

lemma strnlen_loop_result:
  "\<forall>i < maxlen - (sc - s). sc + i < length m \<and> m ! (sc + i) \<noteq> 0 \<Longrightarrow> s \<le> sc \<Longrightarrow> sc - s \<le> maxlen \<Longrightarrow>
    strnlen_loop m s maxlen sc = (if s + maxlen < length m then Some maxlen else None)"
proof (induction "maxlen - (sc - s)" arbitrary: sc)
  case 0
  then have "sc = s + maxlen" by simp
  then show ?case by (subst strnlen_loop.simps) (simp add: rd_def)
next
  case (Suc k)
  then have c: "rd m sc = Some (m ! sc)" "m ! sc \<noteq> 0" "sc - s < maxlen" using Suc.prems(1) [rule_format, of 0] by simp_all
  have "\<forall>i < maxlen - (sc + 1 - s). sc + 1 + i < length m \<and> m ! (sc + 1 + i) \<noteq> 0"
  proof (intro allI impI)
    fix i assume "i < maxlen - (sc + 1 - s)"
    then have "Suc i < maxlen - (sc - s)" using Suc.prems(2) by simp
    then show "sc + 1 + i < length m \<and> m ! (sc + 1 + i) \<noteq> 0" using Suc.prems(1) by fastforce
  qed
  then have "strnlen_loop m s maxlen (sc + 1) = (if s + maxlen < length m then Some maxlen else None)" using Suc by (intro Suc.hyps(1)) simp_all
  then show ?case using c by (subst strnlen_loop.simps) simp
qed

lemma rt_strnlen_reads_on:
  "\<forall>i < maxlen. s + i < length m \<and> m ! (s + i) \<noteq> 0 \<Longrightarrow> rt_strnlen m s maxlen = (if s + maxlen < length m then Some maxlen else None)"
  using strnlen_loop_result [of maxlen s s m] by (simp add: rt_strnlen_def)

text \<open>Copying a string to where it does not overlap.\<close>

lemma string_at_kept:
  assumes "string_at m a t" "blit m d xs = Some m'" "a + length t < d \<or> d + length xs \<le> a"
  shows "string_at m' a t"
proof -
  have len: "length m' = length m" using blit_length [OF assms(2)] .
  have b: "a + length t < length m" using string_at_bound [OF assms(1)] .
  have "take (length t + 1) (drop a m') = take (length t + 1) (drop a m)"
    using blit_nth [OF assms(2)] assms(3) len b by (intro nth_equalityI) auto
  then show ?thesis using assms(1) unfolding string_at_def by metis
qed

lemma rt_strcpy_copies:
  "string_at m s t \<Longrightarrow> d + length t < length m \<Longrightarrow> s + length t < d \<or> d + length t < s \<Longrightarrow> rt_strcpy m d s = blit m d (t @ [0])"
proof (induction t arbitrary: m d s)
  case Nil
  then show ?case by (subst rt_strcpy.simps) (simp add: wr_blit)
next
  case (Cons c t)
  obtain m1 where m1: "blit m d [c] = Some m1" using Cons.prems(2) by (simp add: blit_def)
  have "string_at m (s + 1) t" using Cons.prems(1) by simp
  then have "string_at m1 (s + 1) t" using Cons.prems(3) by (intro string_at_kept [OF _ m1]) auto
  then have "rt_strcpy m1 (d + 1) (s + 1) = blit m1 (d + 1) (t @ [0])" using Cons.prems blit_length [OF m1] by (intro Cons.IH) auto
  also have "\<dots> = blit m d ((c # t) @ [0])" using blit_step [OF m1, of "t @ [0]"] by simp
  finally show ?case using Cons.prems(1) m1 by (subst rt_strcpy.simps) (simp add: wr_blit)
qed

lemma rt_strncpy_copies:
  "string_at m s t \<Longrightarrow> d + n \<le> length m \<Longrightarrow> s + length t < d \<or> d + n \<le> s \<Longrightarrow> rt_strncpy m d s n = blit m d (take n (t @ replicate n 0))"
proof (induction n arbitrary: m d s t)
  case 0
  then show ?case by (simp add: blit_nil)
next
  case (Suc n)
  show ?case
  proof (cases t)
    case Nil
    obtain m1 where m1: "blit m d [0] = Some m1" using Suc.prems(2) by (simp add: blit_def)
    have "memset_bytes m1 (d + 1) 0 n = blit m1 (d + 1) (replicate n 0)" using Suc.prems(2) blit_length [OF m1] by (intro memset_bytes_blit) simp
    then show ?thesis using Nil Suc.prems(1) m1 blit_step [OF m1, of "replicate n 0"] by (simp add: wr_blit)
  next
    case (Cons c t')
    obtain m1 where m1: "blit m d [c] = Some m1" using Suc.prems(2) by (simp add: blit_def)
    have "string_at m (s + 1) t'" using Suc.prems(1) Cons by simp
    then have "string_at m1 (s + 1) t'" using Suc.prems(3) Cons by (intro string_at_kept [OF _ m1]) auto
    then have "rt_strncpy m1 (d + 1) (s + 1) n = blit m1 (d + 1) (take n (t' @ replicate n 0))"
      using Suc.prems Cons blit_length [OF m1] by (intro Suc.IH) auto
    also have "\<dots> = blit m d (c # take n (t' @ replicate n 0))" using blit_step [OF m1] by simp
    also have "take n (t' @ replicate n 0) = take n (t' @ replicate (Suc n) 0)" by (simp add: min_def del: replicate_Suc)
    finally show ?thesis using Cons Suc.prems(1) m1 by (simp add: wr_blit)
  qed
qed

subsection \<open>Properties\<close>

text \<open>C26: Filling and moving by whole words is the same as byte by byte, for every address and length inside the memory:
  \<open>rt_memset\<close> stores the low byte of its value into exactly the bytes of the area, \<open>rt_memmove\<close> moves an area to where it
  may overlap itself in either direction, and \<open>rt_memcpy\<close> does what \<open>rt_memmove\<close> does unless the destination starts
  inside the source; nothing else of the memory changes.\<close>

theorem kernel_copies:
  assumes "d + n \<le> length m" "s + n \<le> length m"
  shows "rt_memset m d c n = blit m d (replicate n (ucast (c AND 0xff)))
    \<and> rt_memmove m d s n = blit m d (take n (drop s m))
    \<and> (d \<le> s \<or> s + n \<le> d \<longrightarrow> rt_memcpy m d s n = blit m d (take n (drop s m)))"
  using rt_memset_blit [OF assms(1)] rt_memmove_blit [OF assms(2,1)] rt_memcpy_blit [OF _ assms(2,1)] by blast

theorem kernel_copies_witness:
  "rt_memset [1, 2, 3, 4, 5, 6, 7] 0 0x109 6 = Some [9, 9, 9, 9, 9, 9, 7] \<and> rt_memmove [1, 2, 3, 4, 5, 6, 7] 1 0 6 = Some [1, 1, 2, 3, 4, 5, 6]"
proof -
  have "(1::nat) + 6 \<le> length [1, 2, 3, 4, 5, 6, 7 :: u8]" "(0::nat) + 6 \<le> length [1, 2, 3, 4, 5, 6, 7 :: u8]" by simp_all
  note kernel_copies [OF this, where c = 0] and kernel_copies [OF this(2,2), where c = "0x109"]
  moreover have "replicate 6 x = [x, x, x, x, x, x]" for x :: u8 by (simp add: numeral_eq_Suc)
  moreover have "take 6 (drop 0 [1, 2, 3, 4, 5, 6, 7 :: u8]) = [1, 2, 3, 4, 5, 6]" by (simp add: numeral_eq_Suc)
  ultimately show ?thesis by (simp add: blit_def)
qed

text \<open>C27: On strings in memory the kernel's functions are the reference ones: \<open>rt_strlen\<close> is the length, \<open>rt_strcmp\<close> is 0 for
  equal strings only and negative exactly when the first is before the second in the lexicographic order of the
  signed characters, \<open>rt_strcasecmp\<close> is 0 exactly for strings that differ in the case of letters only, \<open>rt_strncmp\<close>
  is 0 exactly when the first \<open>n\<close> characters agree, and \<open>rt_strstr\<close> finds the first occurrence or reports that there is none.\<close>

theorem kernel_strings:
  assumes "string_at m a t" "string_at m b u"
  shows "rt_strlen m a = Some (length t)
    \<and> (\<exists>r. rt_strcmp m a b = Some r \<and> (r = 0 \<longleftrightarrow> t = u) \<and> (r < 0 \<longleftrightarrow> less_chars sint (t @ [0]) (u @ [0])))
    \<and> (\<exists>r. rt_strcasecmp m a b = Some r \<and> (r = 0 \<longleftrightarrow> strcaseeq t u))
    \<and> (\<exists>r. rt_strncmp m a b n = Some r \<and> (r = 0 \<longleftrightarrow> take n t = take n u))
    \<and> rt_strstr m a b = Some (map_option ((+) a) (strstr t u))"
  using rt_strlen_string [OF assms(1)] rt_strcmp_string [OF assms] rt_strcasecmp_string [OF assms] rt_strncmp_string [OF assms]
    rt_strstr_strstr [OF assms] by blast

theorem kernel_strings_witness:
  "rt_strstr [65, 66, 67, 66, 68, 0, 66, 68, 0] 0 6 = Some (Some 3) \<and> (\<exists>r < 0. rt_strcmp [65, 66, 67, 66, 68, 0, 66, 68, 0] 0 6 = Some r)"
proof -
  have "string_at [65, 66, 67, 66, 68, 0, 66, 68, 0] 0 [65, 66, 67, 66, 68]" "string_at [65, 66, 67, 66, 68, 0, 66, 68, 0] 6 [66, 68]"
    by (simp_all add: string_at_def)
  from kernel_strings [OF this, of 0] show ?thesis by auto
qed

text \<open>The order is not that of the C library for characters above 127: \<open>rt_strcmp\<close> takes them for negative numbers, and
  \<open>rt_strncmp\<close>, which keeps the difference in a signed character, contradicts even \<open>rt_strcmp\<close>.\<close>

lemma rt_strcmp_signed:
  "(\<exists>r < 0. rt_strcmp [0xC3, 0, 0x7A, 0] 0 2 = Some r) \<and> (\<exists>r > 0. rt_memcmp [0xC3, 0, 0x7A, 0] 0 2 (Suc 1) = Some r)"
  by (subst rt_strcmp.simps) (simp add: rd_def)

lemma rt_strncmp_signed:
  "(\<exists>r < 0. rt_strcmp [0xC3, 0, 0x7A, 0] 0 2 = Some r) \<and> (\<exists>r > 0. rt_strncmp [0xC3, 0, 0x7A, 0] 0 2 (Suc 1) = Some r)"
  by (subst rt_strcmp.simps) (simp add: rd_def)

text \<open>With a buffer of 2 characters that is not terminated, asking for at most 2 characters reads past it.\<close>

lemma rt_strnlen_past_maxlen: "rt_strnlen [65, 66] 0 2 = None" "rt_strnlen [65, 66, 67] 0 2 = Some 2"
  using rt_strnlen_reads_on [of 2 0 "[65, 66]"] rt_strnlen_reads_on [of 2 0 "[65, 66, 67]"] by (auto simp: less_2_cases_iff)

end
