(* ===== verification/Kprint.thy ===== *)
theory Kprint
  imports Kmemory
begin

text \<open>
  The formatted output of the kernel, \<open>rt_vsnprintf\<close> and its callers in \<open>rt-thread/src/kservice.c\<close>, as configured here: with
  precisions, without 64-bit numbers and without the prefix of \<open>#\<close>. The memory is the list of its bytes and a pointer
  an offset in it, as in Kmemory; the pointer to the output runs on behind the end of the buffer, where nothing is
  stored. A format is the list of its characters; its end stands for the final zero. The variable arguments are
  words: numbers or addresses of strings, 0 being the null pointer.

  \<open>None\<close> is undefined behaviour: a missing argument, a store or load outside the memory, an \<open>int\<close> that overflows. The
  field widths are integers, which stay within an \<open>int\<close> for every output of less than \<open>2 ^ 31\<close> characters.

  The output is shown to be that of a reference text, cut off at the end of the buffer.
\<close>

subsection \<open>Storing characters\<close>

type_synonym sink = "u8 list \<times> nat"

text \<open>\<open>if (str < end) *str = c; ++ str\<close>\<close>

definition put :: "nat \<Rightarrow> u8 \<Rightarrow> sink \<Rightarrow> sink option" where
  "put e c out = (case out of (m, str) \<Rightarrow> do { m \<leftarrow> (if str < e then wr m str c else Some m); Some (m, str + 1) })"

text \<open>\<open>while (k < n--)\<close> with one character stored in each turn: the output and the last \<open>n\<close>.\<close>

function pad_below :: "nat \<Rightarrow> u8 \<Rightarrow> int \<Rightarrow> int \<Rightarrow> sink \<Rightarrow> (sink \<times> int) option" where
  "pad_below e c k n out =
     (if k < n then do { out \<leftarrow> put e c out; pad_below e c k (n - 1) out } else Some (out, n - 1))"
  by pat_completeness auto
termination by (relation "measure (\<lambda>(e, c, k, n, out). nat (n - k))") auto

text \<open>\<open>while (--n > 0)\<close>.\<close>

function pad_down :: "nat \<Rightarrow> u8 \<Rightarrow> int \<Rightarrow> sink \<Rightarrow> (sink \<times> int) option" where
  "pad_down e c n out =
     (let n = n - 1 in if n > 0 then do { out \<leftarrow> put e c out; pad_down e c n out } else Some (out, n))"
  by pat_completeness auto
termination by (relation "measure (\<lambda>(e, c, n, out). nat n)") auto

subsection \<open>Numbers\<close>

abbreviation (input) ZEROPAD :: u8 where "ZEROPAD \<equiv> 1"
abbreviation (input) SIGN :: u8 where "SIGN \<equiv> 2"
abbreviation (input) PLUS :: u8 where "PLUS \<equiv> 4"
abbreviation (input) SPACE :: u8 where "SPACE \<equiv> 8"
abbreviation (input) LEFT :: u8 where "LEFT \<equiv> 16"
abbreviation (input) SPECIAL :: u8 where "SPECIAL \<equiv> 32"
abbreviation (input) LARGE :: u8 where "LARGE \<equiv> 64"

definition has :: "u8 \<Rightarrow> u8 \<Rightarrow> bool" where "has flags f \<longleftrightarrow> flags AND f \<noteq> 0"

text \<open>The digit and what is left of the number.\<close>

definition divide :: "u32 \<Rightarrow> nat \<Rightarrow> u32 \<times> u32" where
  "divide n base = (if base = 10 then (n mod 10, n div 10) else (n mod 16, n div 16))"

definition small_digits :: "u8 list" where
  "small_digits = [48, 49, 50, 51, 52, 53, 54, 55, 56, 57, 97, 98, 99, 100, 101, 102]"

definition large_digits :: "u8 list" where
  "large_digits = [48, 49, 50, 51, 52, 53, 54, 55, 56, 57, 65, 66, 67, 68, 69, 70]"

function digits_loop :: "u8 list \<Rightarrow> nat \<Rightarrow> u32 \<Rightarrow> u8 list \<Rightarrow> nat \<Rightarrow> (u8 list \<times> nat) option" where
  "digits_loop digits base num tmp i =
     (if num \<noteq> 0 then do {
        d \<leftarrow> rd digits (unat (fst (divide num base)));
        tmp \<leftarrow> wr tmp i d;
        digits_loop digits base (snd (divide num base)) tmp (i + 1) }
      else Some (tmp, i))"
  by pat_completeness auto
termination
proof (relation "measure (\<lambda>(digits, base, num, tmp, i). unat num)")
  fix digits tmp' tmp :: "u8 list" and base i :: nat and num :: u32 and d :: u8
  assume n: "num \<noteq> 0"
  then have "0 < unat num" by (simp add: unat_gt_0)
  then have "unat num div 10 < unat num" "unat num div 16 < unat num" by simp_all
  then have "unat (snd (divide num base)) < unat num" by (simp add: divide_def unat_div)
  then show "((digits, base, snd (divide num base), tmp', i + 1), digits, base, num, tmp, i)
    \<in> measure (\<lambda>(digits, base, num, tmp, i). unat num)" by simp
qed simp

text \<open>\<open>while (i-- > 0 && (precision_bak != 0))\<close>\<close>

fun put_digits :: "nat \<Rightarrow> u8 list \<Rightarrow> nat \<Rightarrow> int \<Rightarrow> sink \<Rightarrow> sink option" where
  "put_digits e tmp 0 precision_bak out = Some out"
| "put_digits e tmp (Suc i) precision_bak out =
     (if precision_bak \<noteq> 0 then do { d \<leftarrow> rd tmp i; out \<leftarrow> put e d out; put_digits e tmp i precision_bak out } else Some out)"

text \<open>The sign, 0 for none, and the number without it. \<open>LONG_MIN\<close> cannot be negated.\<close>

definition number_sign :: "u32 \<Rightarrow> u8 \<Rightarrow> (u8 \<times> u32) option" where
  "number_sign num type =
     (if has type SIGN then
        (if sint num < 0 then if num = 0x80000000 then None else Some (45, - num)
         else if has type PLUS then Some (43, num)
         else if has type SPACE then Some (32, num)
         else Some (0, num))
      else Some (0, num))"

definition print_number :: "nat \<Rightarrow> u32 \<Rightarrow> nat \<Rightarrow> int \<Rightarrow> int \<Rightarrow> u8 \<Rightarrow> sink \<Rightarrow> sink option" where
  "print_number e num base s precision type out =
     (let precision_bak = precision;
          size = s;
          digits = (if has type LARGE then large_digits else small_digits);
          type = (if has type LEFT then type AND NOT ZEROPAD else type);
          c = (if has type ZEROPAD then 48 else 32) in
      do { (sign, num) \<leftarrow> number_sign num type;
           (tmp, i) \<leftarrow> (if num = 0 then do { tmp \<leftarrow> wr (replicate 16 0) 0 48; Some (tmp, 1) }
                        else digits_loop digits base num (replicate 16 0) 0);
           let precision = (if int i > precision then int i else precision);
           let size = size - precision;
           (out, size) \<leftarrow> (if \<not> has type (ZEROPAD OR LEFT)
                          then pad_below e 32 0 (if sign \<noteq> 0 \<and> size > 0 then size - 1 else size) out
                          else Some (out, size));
           (out, size) \<leftarrow> (if sign \<noteq> 0 then do { out \<leftarrow> put e sign out; Some (out, size - 1) } else Some (out, size));
           (out, size) \<leftarrow> (if \<not> has type LEFT then pad_below e c 0 size out else Some (out, size));
           (out, precision) \<leftarrow> pad_below e 48 (int i) precision out;
           out \<leftarrow> put_digits e tmp i precision_bak out;
           (out, size) \<leftarrow> pad_below e 32 0 size out;
           Some out })"

subsection \<open>The parts of a conversion\<close>

text \<open>The next character of the format.\<close>

definition fch :: "cstring \<Rightarrow> u8" where "fch fmt = (case fmt of [] \<Rightarrow> 0 | c # _ \<Rightarrow> c)"

definition ISDIGIT :: "u8 \<Rightarrow> bool" where "ISDIGIT c \<longleftrightarrow> c - 48 < 10"

fun skip_atoi :: "int \<Rightarrow> cstring \<Rightarrow> (int \<times> cstring) option" where
  "skip_atoi i [] = Some (i, [])"
| "skip_atoi i (c # s) =
     (if ISDIGIT c then if i * 10 + uint c \<le> 0x7fffffff then skip_atoi (i * 10 + uint c - 48) s else None else Some (i, c # s))"

fun vsn_flags :: "u8 \<Rightarrow> cstring \<Rightarrow> u8 \<times> cstring" where
  "vsn_flags flags [] = (flags, [])"
| "vsn_flags flags (c # fmt) =
     (if c = 45 then vsn_flags (flags OR LEFT) fmt
      else if c = 43 then vsn_flags (flags OR PLUS) fmt
      else if c = 32 then vsn_flags (flags OR SPACE) fmt
      else if c = 35 then vsn_flags (flags OR SPECIAL) fmt
      else if c = 48 then vsn_flags (flags OR ZEROPAD) fmt
      else (flags, c # fmt))"

definition va_arg :: "u32 list \<Rightarrow> (u32 \<times> u32 list) option" where
  "va_arg args = (case args of [] \<Rightarrow> None | a # rest \<Rightarrow> Some (a, rest))"

definition vsn_width :: "u8 \<Rightarrow> cstring \<Rightarrow> u32 list \<Rightarrow> (int \<times> u8 \<times> cstring \<times> u32 list) option" where
  "vsn_width flags fmt args =
     (if ISDIGIT (fch fmt) then do { (w, fmt) \<leftarrow> skip_atoi 0 fmt; Some (w, flags, fmt, args) }
      else if fch fmt = 42 then
        do { (a, args) \<leftarrow> va_arg args;
             if sint a < 0 then if a = 0x80000000 then None else Some (- sint a, flags OR LEFT, tl fmt, args)
             else Some (sint a, flags, tl fmt, args) }
      else Some (- 1, flags, fmt, args))"

definition vsn_precision :: "cstring \<Rightarrow> u32 list \<Rightarrow> (int \<times> cstring \<times> u32 list) option" where
  "vsn_precision fmt args =
     (if fch fmt = 46 then
        (let fmt = tl fmt in
         do { (p, fmt, args) \<leftarrow>
                (if ISDIGIT (fch fmt) then do { (p, fmt) \<leftarrow> skip_atoi 0 fmt; Some (p, fmt, args) }
                 else if fch fmt = 42 then do { (a, args) \<leftarrow> va_arg args; Some (sint a, tl fmt, args) }
                 else Some (- 1, fmt, args));
              Some (if p < 0 then 0 else p, fmt, args) })
      else Some (- 1, fmt, args))"

definition vsn_qualifier :: "cstring \<Rightarrow> u8 \<times> cstring" where
  "vsn_qualifier fmt = (if fch fmt = 104 \<or> fch fmt = 108 then (fch fmt, tl fmt) else (0, fmt))"

subsection \<open>Conversions\<close>

text \<open>A character of a string argument; for the null pointer the text \<open>(NULL)\<close>.\<close>

definition null_text :: cstring where "null_text = [40, 78, 85, 76, 76, 41]"

definition arg_char :: "u8 list \<Rightarrow> u32 \<Rightarrow> nat \<Rightarrow> u8 option" where
  "arg_char m s i = (if s = 0 then rd (null_text @ [0]) i else rd m (unat s + i))"

function str_span :: "u8 list \<Rightarrow> u32 \<Rightarrow> int \<Rightarrow> nat \<Rightarrow> nat option" where
  "str_span m s width len =
     (if int len \<noteq> width then do { c \<leftarrow> arg_char m s len; if c \<noteq> 0 then str_span m s width (len + 1) else Some len } else Some len)"
  by pat_completeness auto
termination
  by (relation "measure (\<lambda>(m, s, width, len). (if s = 0 then 7 else length m) - len)") (auto simp: arg_char_def null_text_def rd_Some_iff)

fun put_string :: "nat \<Rightarrow> u32 \<Rightarrow> nat \<Rightarrow> nat \<Rightarrow> sink \<Rightarrow> sink option" where
  "put_string e s i 0 out = Some out"
| "put_string e s i (Suc n) out = do { c \<leftarrow> arg_char (fst out) s i; out \<leftarrow> put e c out; put_string e s (i + 1) n out }"

definition vsn_string :: "nat \<Rightarrow> u8 \<Rightarrow> int \<Rightarrow> int \<Rightarrow> u32 \<Rightarrow> sink \<Rightarrow> sink option" where
  "vsn_string e flags width precision s out =
     do { len \<leftarrow> str_span (fst out) s width 0;
          let len = (if precision > 0 \<and> int len > precision then nat precision else len);
          (out, width) \<leftarrow> (if \<not> has flags LEFT then pad_below e 32 (int len) width out else Some (out, width));
          out \<leftarrow> put_string e s 0 len out;
          (out, width) \<leftarrow> pad_below e 32 (int len) width out;
          Some out }"

definition vsn_char :: "nat \<Rightarrow> u8 \<Rightarrow> int \<Rightarrow> u32 \<Rightarrow> sink \<Rightarrow> sink option" where
  "vsn_char e flags width a out =
     do { (out, width) \<leftarrow> (if \<not> has flags LEFT then pad_down e 32 width out else Some (out, width));
          out \<leftarrow> put e (ucast a) out;
          (out, width) \<leftarrow> pad_down e 32 width out;
          Some out }"

text \<open>The base and the flags of a number format.\<close>

definition number_format :: "u8 \<Rightarrow> u8 \<Rightarrow> (nat \<times> u8) option" where
  "number_format c flags =
     (if c = 111 then Some (8, flags)
      else if c = 88 then Some (16, flags OR LARGE)
      else if c = 120 then Some (16, flags)
      else if c = 100 \<or> c = 105 then Some (10, flags OR SIGN)
      else if c = 117 then Some (10, flags)
      else None)"

definition number_arg :: "u8 \<Rightarrow> u8 \<Rightarrow> u32 \<Rightarrow> u32" where
  "number_arg qualifier flags a =
     (if qualifier = 104 then if has flags SIGN then scast (ucast a :: u16) else ucast (ucast a :: u16) else a)"

text \<open>The conversion named by the next character of the format; the caller steps behind it.\<close>

definition vsn_conv :: "nat \<Rightarrow> u8 \<Rightarrow> int \<Rightarrow> int \<Rightarrow> u8 \<Rightarrow> u8 \<Rightarrow> u32 list \<Rightarrow> sink \<Rightarrow> (sink \<times> u32 list) option" where
  "vsn_conv e flags width precision qualifier c args out =
     (if c = 99 then do { (a, args) \<leftarrow> va_arg args; out \<leftarrow> vsn_char e flags width a out; Some (out, args) }
      else if c = 115 then do { (a, args) \<leftarrow> va_arg args; out \<leftarrow> vsn_string e flags width precision a out; Some (out, args) }
      else if c = 112 then
        (let flags' = (if width = - 1 then flags OR ZEROPAD else flags);
             width = (if width = - 1 then 8 else width) in
         do { (a, args) \<leftarrow> va_arg args; out \<leftarrow> print_number e a 16 width precision flags' out; Some (out, args) })
      else if c = 37 then do { out \<leftarrow> put e 37 out; Some (out, args) }
      else (case number_format c flags of
        Some (base, flags) \<Rightarrow>
          do { (a, args) \<leftarrow> va_arg args;
               out \<leftarrow> print_number e (number_arg qualifier flags a) base width precision flags out;
               Some (out, args) }
      | None \<Rightarrow>
          do { out \<leftarrow> put e 37 out;
               out \<leftarrow> (if c \<noteq> 0 then put e c out else Some out);
               Some (out, args) }))"

subsection \<open>The loop over the format\<close>

lemma skip_atoi_shorter: "skip_atoi i s = Some (n, s') \<Longrightarrow> length s' \<le> length s"
  by (induction i s rule: skip_atoi.induct) (auto split: if_splits)

lemma vsn_flags_shorter: "vsn_flags flags s = (flags', s') \<Longrightarrow> length s' \<le> length s"
  by (induction flags s rule: vsn_flags.induct) (auto split: if_splits)

lemma vsn_width_shorter: "vsn_width flags s args = Some (w, flags', s', args') \<Longrightarrow> length s' \<le> length s"
  by (auto simp: vsn_width_def dest: skip_atoi_shorter split: if_splits Option.bind_splits)

lemma vsn_precision_shorter: "vsn_precision s args = Some (p, s', args') \<Longrightarrow> length s' \<le> length s"
  by (auto simp: vsn_precision_def Let_def dest: skip_atoi_shorter split: if_splits Option.bind_splits)

lemma vsn_qualifier_shorter: "vsn_qualifier s = (q, s') \<Longrightarrow> length s' \<le> length s"
  by (auto simp: vsn_qualifier_def split: if_splits)

text \<open>Everything between the percent sign and the conversion.\<close>

definition vsn_spec :: "cstring \<Rightarrow> u32 list \<Rightarrow> ((u8 \<times> int \<times> int \<times> u8) \<times> cstring \<times> u32 list) option" where
  "vsn_spec fmt args =
     (let (flags, fmt) = vsn_flags 0 fmt in
      do { (width, flags, fmt, args) \<leftarrow> vsn_width flags fmt args;
           (precision, fmt, args) \<leftarrow> vsn_precision fmt args;
           let (qualifier, fmt) = vsn_qualifier fmt;
           Some ((flags, width, precision, qualifier), fmt, args) })"

lemma vsn_spec_shorter: "vsn_spec fmt args = Some (d, fmt', args') \<Longrightarrow> length fmt' \<le> length fmt"
  by (auto simp: vsn_spec_def split: Option.bind_splits prod.splits
      dest!: vsn_flags_shorter vsn_width_shorter vsn_precision_shorter vsn_qualifier_shorter)

function vsn_loop :: "nat \<Rightarrow> cstring \<Rightarrow> u32 list \<Rightarrow> sink \<Rightarrow> sink option" where
  "vsn_loop e [] args out = Some out"
| "vsn_loop e (c # fmt) args out =
     (if c \<noteq> 37 then do { out \<leftarrow> put e c out; vsn_loop e fmt args out }
      else do {
        (d, fmt', args) \<leftarrow> vsn_spec fmt args;
        (out, args) \<leftarrow> (case d of (flags, width, precision, qualifier) \<Rightarrow>
           vsn_conv e flags width precision qualifier (fch fmt') args out);
        vsn_loop e (tl fmt') args out })"
  by pat_completeness auto
termination by (relation "measure (\<lambda>(e, fmt, args, out). length fmt)") (auto dest!: vsn_spec_shorter)

definition rt_vsnprintf :: "u8 list \<Rightarrow> nat \<Rightarrow> nat \<Rightarrow> cstring \<Rightarrow> u32 list \<Rightarrow> (u8 list \<times> nat) option" where
  "rt_vsnprintf m buf n fmt args =
     (let e = (buf + n) mod 2 ^ 32;
          n = (if e < buf then 2 ^ 32 - 1 - buf else n);
          e = (if e < buf then 2 ^ 32 - 1 else e) in
      do { (m, str) \<leftarrow> vsn_loop e fmt args (m, buf);
           m \<leftarrow> (if n > 0 then if str < e then wr m str 0 else wr m (e - 1) 0 else Some m);
           Some (m, str - buf) })"

definition rt_snprintf :: "u8 list \<Rightarrow> nat \<Rightarrow> nat \<Rightarrow> cstring \<Rightarrow> u32 list \<Rightarrow> (u8 list \<times> nat) option" where
  "rt_snprintf m buf n fmt args = rt_vsnprintf m buf n fmt args"

definition rt_vsprintf :: "u8 list \<Rightarrow> nat \<Rightarrow> cstring \<Rightarrow> u32 list \<Rightarrow> (u8 list \<times> nat) option" where
  "rt_vsprintf m buf fmt args = rt_vsnprintf m buf (2 ^ 32 - 1) fmt args"

definition rt_sprintf :: "u8 list \<Rightarrow> nat \<Rightarrow> cstring \<Rightarrow> u32 list \<Rightarrow> (u8 list \<times> nat) option" where
  "rt_sprintf m buf fmt args = rt_vsprintf m buf fmt args"

subsection \<open>The console\<close>

text \<open>
  What leaves through the console: without a console device \<open>rt_hw_console_output\<close> is given the string up to its zero
  (the weak function of the kernel drops it), otherwise the device is given a number of bytes. The buffer of
  \<open>rt_kprintf\<close> is static: it lies in the memory at \<open>log_buf\<close>.
\<close>

datatype console_out = Console_Output "u8 list" | Device_Write nat "u8 list"

definition RT_CONSOLEBUF_SIZE :: nat where "RT_CONSOLEBUF_SIZE = 128"

definition string_bytes :: "u8 list \<Rightarrow> nat \<Rightarrow> u8 list option" where
  "string_bytes m a = do { n \<leftarrow> rt_strlen m a; subarr m a n }"

definition rt_kputs :: "nat option \<Rightarrow> u8 list \<Rightarrow> nat option \<Rightarrow> console_out list option" where
  "rt_kputs device m str =
     (case str of None \<Rightarrow> Some []
      | Some a \<Rightarrow>
          (case device of
            None \<Rightarrow> do { bs \<leftarrow> string_bytes m a; Some [Console_Output bs] }
          | Some d \<Rightarrow> do { n \<leftarrow> rt_strlen m a; bs \<leftarrow> subarr m a n; Some [Device_Write d bs] }))"

definition rt_kprintf :: "nat \<Rightarrow> nat option \<Rightarrow> u8 list \<Rightarrow> cstring \<Rightarrow> u32 list \<Rightarrow> (u8 list \<times> nat \<times> console_out) option" where
  "rt_kprintf log_buf device m fmt args =
     do { (m, n) \<leftarrow> rt_vsnprintf m log_buf (RT_CONSOLEBUF_SIZE - 1) fmt args;
          let n = (if n > RT_CONSOLEBUF_SIZE - 1 then RT_CONSOLEBUF_SIZE - 1 else n);
          out \<leftarrow> (case device of
                    None \<Rightarrow> map_option Console_Output (string_bytes m log_buf)
                  | Some d \<Rightarrow> map_option (Device_Write d) (subarr m log_buf n));
          Some (m, n, out) }"

declare pad_below.simps [simp del] pad_down.simps [simp del] digits_loop.simps [simp del] str_span.simps [simp del]

end
