(* ===== verification/Print_Spec.thy ===== *)
theory Print_Spec
  imports Kmemory
begin

text \<open>
  What a format of the C library means, stated without looking at the code that prints it: formats as a list of
  pieces, the characters they are written with, and the text the C standard gives for them. \<open>Kprint_Text\<close> shows that
  \<open>rt_vsnprintf\<close> of \<open>rt-thread/src/kservice.c\<close> prints this text, for every format but those on which it \<open>departs\<close>.

  An \<open>int\<close>, a \<open>long\<close> and a pointer have 32 bits, a \<open>short\<close> has 16. Not among the pieces are \<open>%o\<close>, the flag \<open>#\<close>, a
  precision without a number and letters that are no conversion.
\<close>

subsection \<open>Formats and their characters\<close>

datatype flag = Minus_Flag | Plus_Flag | Space_Flag | Zero_Flag

datatype field = No_Field | Number_Field nat | Star_Field

datatype modifier = Plain | Short | Long

datatype conversion = Conv_d modifier | Conv_i modifier | Conv_u modifier | Conv_x modifier | Conv_X modifier | Conv_c | Conv_s | Conv_p

datatype piece = Lit u8 | Dir "flag list" field field conversion

definition digit_char :: "bool \<Rightarrow> nat \<Rightarrow> u8" where
  "digit_char upper k = (if k < 10 then of_nat (48 + k) else if upper then of_nat (55 + k) else of_nat (87 + k))"

text \<open>A number with base \<open>b\<close>, the highest digit first.\<close>

function positional :: "bool \<Rightarrow> nat \<Rightarrow> nat \<Rightarrow> cstring" where
  "positional upper b n = (if n < b \<or> b < 2 then [digit_char upper n] else positional upper b (n div b) @ [digit_char upper (n mod b)])"
  by pat_completeness auto
termination by (relation "measure (\<lambda>(upper, b, n). n)") auto

declare positional.simps [simp del]

fun flag_char :: "flag \<Rightarrow> u8" where
  "flag_char Minus_Flag = 45"
| "flag_char Plus_Flag = 43"
| "flag_char Space_Flag = 32"
| "flag_char Zero_Flag = 48"

fun field_chars :: "field \<Rightarrow> cstring" where
  "field_chars No_Field = []"
| "field_chars (Number_Field n) = positional False 10 n"
| "field_chars Star_Field = [42]"

definition precision_chars :: "field \<Rightarrow> cstring" where
  "precision_chars p = (if p = No_Field then [] else 46 # field_chars p)"

fun modifier_chars :: "modifier \<Rightarrow> cstring" where
  "modifier_chars Plain = []"
| "modifier_chars Short = [104]"
| "modifier_chars Long = [108]"

fun conversion_chars :: "conversion \<Rightarrow> cstring" where
  "conversion_chars (Conv_d l) = modifier_chars l @ [100]"
| "conversion_chars (Conv_i l) = modifier_chars l @ [105]"
| "conversion_chars (Conv_u l) = modifier_chars l @ [117]"
| "conversion_chars (Conv_x l) = modifier_chars l @ [120]"
| "conversion_chars (Conv_X l) = modifier_chars l @ [88]"
| "conversion_chars Conv_c = [99]"
| "conversion_chars Conv_s = [115]"
| "conversion_chars Conv_p = [112]"

text \<open>A percent sign is written twice.\<close>

fun piece_chars :: "piece \<Rightarrow> cstring" where
  "piece_chars (Lit c) = (if c = 37 then [37, 37] else [c])"
| "piece_chars (Dir fs w p c) = 37 # map flag_char fs @ field_chars w @ precision_chars p @ conversion_chars c"

definition format_chars :: "piece list \<Rightarrow> cstring" where
  "format_chars ps = concat (map piece_chars ps)"

subsection \<open>The text of a conversion\<close>

text \<open>A sign and a text in a field of \<open>w\<close> characters.\<close>

definition field_text :: "flag list \<Rightarrow> bool \<Rightarrow> nat option \<Rightarrow> cstring \<Rightarrow> cstring \<Rightarrow> cstring" where
  "field_text fs zeros w sign t =
     (let n = (case w of None \<Rightarrow> 0 | Some w \<Rightarrow> w) - length (sign @ t) in
      if Minus_Flag \<in> set fs then sign @ t @ replicate n 32
      else if zeros then sign @ replicate n 48 @ t
      else replicate n 32 @ sign @ t)"

text \<open>
  A number: the precision is the least number of digits, and with a precision the flag \<open>0\<close> is ignored; zero with the
  precision 0 has no digits.
\<close>

definition digits_text :: "flag list \<Rightarrow> nat option \<Rightarrow> nat option \<Rightarrow> bool \<Rightarrow> nat \<Rightarrow> cstring \<Rightarrow> nat \<Rightarrow> cstring" where
  "digits_text fs w p upper b sign n =
     (let ds = (if p = Some 0 \<and> n = 0 then [] else positional upper b n);
          least = (case p of None \<Rightarrow> 1 | Some p \<Rightarrow> p) in
      field_text fs (Zero_Flag \<in> set fs \<and> p = None) w sign (replicate (least - length ds) 48 @ ds))"

fun signed_value :: "modifier \<Rightarrow> u32 \<Rightarrow> int" where
  "signed_value Short a = (let v = uint a mod 65536 in if v < 32768 then v else v - 65536)"
| "signed_value _ a = sint a"

fun unsigned_value :: "modifier \<Rightarrow> u32 \<Rightarrow> nat" where
  "unsigned_value Short a = unat a mod 65536"
| "unsigned_value _ a = unat a"

definition signed_text :: "flag list \<Rightarrow> nat option \<Rightarrow> nat option \<Rightarrow> int \<Rightarrow> cstring" where
  "signed_text fs w p v =
     digits_text fs w p False 10
       (if v < 0 then [45] else if Plus_Flag \<in> set fs then [43] else if Space_Flag \<in> set fs then [32] else []) (nat \<bar>v\<bar>)"

text \<open>A pointer is a number with base 16, of eight digits when no width is given. Strings are looked up by their address.\<close>

fun conversion_text :: "(u32 \<Rightarrow> cstring option) \<Rightarrow> flag list \<Rightarrow> nat option \<Rightarrow> nat option \<Rightarrow> conversion \<Rightarrow> u32 \<Rightarrow> cstring option" where
  "conversion_text strs fs w p (Conv_d l) a = Some (signed_text fs w p (signed_value l a))"
| "conversion_text strs fs w p (Conv_i l) a = Some (signed_text fs w p (signed_value l a))"
| "conversion_text strs fs w p (Conv_u l) a = Some (digits_text fs w p False 10 [] (unsigned_value l a))"
| "conversion_text strs fs w p (Conv_x l) a = Some (digits_text fs w p False 16 [] (unsigned_value l a))"
| "conversion_text strs fs w p (Conv_X l) a = Some (digits_text fs w p True 16 [] (unsigned_value l a))"
| "conversion_text strs fs w p Conv_c a = Some (field_text fs False w [] [ucast a])"
| "conversion_text strs fs w p Conv_s a =
     map_option (\<lambda>t. field_text fs False w [] (case p of None \<Rightarrow> t | Some p \<Rightarrow> take p t)) (strs a)"
| "conversion_text strs fs w p Conv_p a =
     Some (if w = None then digits_text (Zero_Flag # fs) (Some 8) p False 16 [] (unat a) else digits_text fs w p False 16 [] (unat a))"

subsection \<open>The text of a format\<close>

text \<open>A width and a precision: none, a number, or the next argument. The numbers in a format are such that they can be read.\<close>

fun field_value :: "field \<Rightarrow> u32 list \<Rightarrow> (int option \<times> u32 list) option" where
  "field_value No_Field args = Some (None, args)"
| "field_value (Number_Field n) args = (if n \<le> 2147483599 then Some (Some (int n), args) else None)"
| "field_value Star_Field (a # args) = Some (Some (sint a), args)"
| "field_value Star_Field [] = None"

fun is_number :: "conversion \<Rightarrow> bool" where
  "is_number Conv_c = False"
| "is_number Conv_s = False"
| "is_number _ = True"

fun is_smallest :: "conversion \<Rightarrow> u32 \<Rightarrow> bool" where
  "is_smallest (Conv_d l) a = (signed_value l a = - 2147483648)"
| "is_smallest (Conv_i l) a = (signed_value l a = - 2147483648)"
| "is_smallest _ a = False"

text \<open>
  Where \<open>rt_vsnprintf\<close> does not print the text of the standard: a number with the precision 0, or with a negative one
  from the arguments; a number with a precision and the flag \<open>0\<close> that fills on the left; the smallest number; a string
  with the precision 0, or one that is longer than its field; the smallest number as a width from the arguments.
\<close>

definition departs :: "flag list \<Rightarrow> int option \<Rightarrow> int option \<Rightarrow> conversion \<Rightarrow> u32 \<Rightarrow> cstring \<Rightarrow> bool" where
  "departs fs w p c a t \<longleftrightarrow>
     w = Some (- 2147483648) \<or> is_smallest c a \<or>
     (case p of None \<Rightarrow> False | Some n \<Rightarrow>
        is_number c \<and> (n \<le> 0 \<or> Minus_Flag \<notin> set fs \<and> (Zero_Flag \<in> set fs \<or> c = Conv_p \<and> w = None)) \<or> c = Conv_s \<and> n = 0) \<or>
     c = Conv_s \<and> (case w of None \<Rightarrow> False | Some n \<Rightarrow> \<bar>n\<bar> < int (length t))"

text \<open>
  A negative width from the arguments is a flag \<open>-\<close> and a width, a negative precision from the arguments is none. The
  width in a format does not begin with a zero, which is a flag. \<open>None\<close>: the format is not one of those that are treated.
\<close>

fun piece_text :: "(u32 \<Rightarrow> cstring option) \<Rightarrow> piece \<Rightarrow> u32 list \<Rightarrow> (cstring \<times> u32 list) option" where
  "piece_text strs (Lit c) args = (if c = 0 then None else Some ([c], args))"
| "piece_text strs (Dir fs w p c) args =
     (if w = Number_Field 0 then None
      else do {
        (w, args) \<leftarrow> field_value w args;
        (p, args) \<leftarrow> field_value p args;
        (case args of [] \<Rightarrow> None | a # args \<Rightarrow> do {
           let fs = (case w of None \<Rightarrow> fs | Some n \<Rightarrow> if n < 0 then Minus_Flag # fs else fs);
           t \<leftarrow> conversion_text strs fs (map_option (\<lambda>n. nat \<bar>n\<bar>) w) (case p of None \<Rightarrow> None | Some n \<Rightarrow> if n < 0 then None else Some (nat n)) c a;
           (if departs fs w p c a t then None else Some (t, args)) }) })"

fun pieces_text :: "(u32 \<Rightarrow> cstring option) \<Rightarrow> piece list \<Rightarrow> u32 list \<Rightarrow> cstring option" where
  "pieces_text strs [] args = Some []"
| "pieces_text strs (x # ps) args = do { (t, args) \<leftarrow> piece_text strs x args; t' \<leftarrow> pieces_text strs ps args; Some (t @ t') }"

subsection \<open>Decimal numerals\<close>

text \<open>A decimal numeral of \<open>v\<close>: digits, no zero in front, and the value.\<close>

definition decimal_numeral :: "cstring \<Rightarrow> int \<Rightarrow> bool" where
  "decimal_numeral ds v \<longleftrightarrow> ds \<noteq> [] \<and> (\<forall>c \<in> set ds. 48 \<le> uint c \<and> uint c \<le> 57) \<and> (hd ds = 48 \<longrightarrow> ds = [48])
     \<and> foldl (\<lambda>n c. n * 10 + (uint c - 48)) 0 ds = v"

lemma digit_char_decimal: "k < 10 \<Longrightarrow> uint (digit_char upper k) = 48 + int k"
proof -
  assume k: "k < 10"
  then have "unat (of_nat (48 + k) :: u8) = 48 + k" by (intro unat_of_nat_lt) simp
  moreover have "digit_char upper k = of_nat (48 + k)" using k by (simp only: digit_char_def if_True)
  ultimately show "uint (digit_char upper k) = 48 + int k" by (simp only: uint_nat of_nat_add of_nat_numeral)
qed

lemma positional_hd: "0 < n \<Longrightarrow> hd (positional False 10 n) \<noteq> 48 \<and> positional False 10 n \<noteq> []"
proof (induction n rule: less_induct)
  case (less n)
  show ?case
  proof (cases "n < 10")
    case True
    have "digit_char False n \<noteq> 48"
    proof
      assume "digit_char False n = 48"
      then have "uint (digit_char False n) = 48" by simp
      then show False using digit_char_decimal [OF True, of False] less.prems by simp
    qed
    then show ?thesis using True by (simp add: positional.simps [of _ _ n])
  next
    case False
    then have "hd (positional False 10 (n div 10)) \<noteq> 48 \<and> positional False 10 (n div 10) \<noteq> []" using less.prems by (intro less.IH) auto
    then show ?thesis using False by (simp add: positional.simps [of _ _ n])
  qed
qed

lemma positional_value:
  "(\<forall>c \<in> set (positional False 10 n). 48 \<le> uint c \<and> uint c \<le> 57) \<and> foldl (\<lambda>n c. n * 10 + (uint c - 48)) 0 (positional False 10 n) = int n"
proof (induction n rule: less_induct)
  case (less n)
  have d: "uint (digit_char False (n mod 10)) = 48 + int (n mod 10)" by (simp add: digit_char_decimal)
  show ?case
  proof (cases "n < 10")
    case True
    then show ?thesis using d by (simp add: positional.simps [of _ _ n])
  next
    case False
    then have "n div 10 < n" by simp
    have split: "positional False 10 n = positional False 10 (n div 10) @ [digit_char False (n mod 10)]"
      using False by (subst positional.simps) simp
    have "int (n div 10) * 10 + int (n mod 10) = int n" by presburger
    moreover have "int (n mod 10) < 10" by simp
    ultimately show ?thesis using less.IH [OF \<open>n div 10 < n\<close>] d unfolding split by auto
  qed
qed

lemma positional_decimal: "decimal_numeral (positional False 10 n) (int n)"
proof -
  have "positional False 10 0 = [48]" by (simp add: positional.simps digit_char_def)
  then show ?thesis using positional_value [of n] positional_hd [of n] by (cases "n = 0") (auto simp: decimal_numeral_def)
qed

end
