(* ===== verification/Kprint_Text.thy ===== *)
theory Kprint_Text
  imports Kprint Print_Spec
begin

text \<open>
  What \<open>rt_vsnprintf\<close> prints. First the buffer is taken away: \<open>number_text\<close>, \<open>string_text\<close>, \<open>char_text\<close> and \<open>format_text\<close> follow
  the code and return the whole text; the code stores the beginning of it, a final zero, and nothing else, and
  returns the length of the whole text. Then this text is shown to be the one the standard gives a format
  (\<open>pieces_text\<close> of \<open>Print_Spec\<close>, which shares no definition with the code): the parsing of flags, width, precision,
  modifier and letter reads what \<open>format_chars\<close> writes, and each conversion yields \<open>conversion_text\<close>.
\<close>

subsection \<open>Storing a text\<close>

fun puts :: "nat \<Rightarrow> cstring \<Rightarrow> sink \<Rightarrow> sink option" where
  "puts e [] out = Some out"
| "puts e (c # cs) out = do { out \<leftarrow> put e c out; puts e cs out }"

lemma puts_append: "puts e (xs @ ys) out = do { out \<leftarrow> puts e xs out; puts e ys out }"
  by (induction e xs out rule: puts.induct) (auto split: Option.bind_splits)

lemma puts_fun: "puts e (xs @ ys) = (\<lambda>out. do { out \<leftarrow> puts e xs out; puts e ys out })" "puts e [] = Some"
  by (auto simp: puts_append)

lemma puts_singleton: "put e c out = puts e [c] out" by (cases "put e c out") simp_all

lemma pad_below_puts: "pad_below e c k n out = map_option (\<lambda>out. (out, min k n - 1)) (puts e (replicate (nat (n - k)) c) out)"
proof (induction e c k n out rule: pad_below.induct)
  case (1 e c k n out)
  show ?case
  proof (cases "k < n")
    case True
    then have "nat (n - k) = Suc (nat (n - 1 - k))" "min k (n - 1) = k" "min k n = k" by auto
    then show ?thesis using 1 True by (subst pad_below.simps) (auto split: Option.bind_splits)
  qed (subst pad_below.simps; simp)
qed

lemma pad_down_puts: "pad_down e c n out = map_option (\<lambda>out. (out, min 0 (n - 1))) (puts e (replicate (nat (n - 1)) c) out)"
proof (induction e c n out rule: pad_down.induct)
  case (1 e c n out)
  show ?case
  proof (cases "n - 1 > 0")
    case True
    then have "nat (n - 1) = Suc (nat (n - 1 - 1))" "min 0 (n - 1 - 1) = 0" "min 0 (n - 1) = 0" by auto
    then show ?thesis using 1 True by (subst pad_down.simps) (auto split: Option.bind_splits)
  qed (subst pad_down.simps; simp)
qed

lemma put_digits_puts:
  "i \<le> length tmp \<Longrightarrow> put_digits e tmp i b out = (if b = 0 then Some out else puts e (rev (take i tmp)) out)"
proof (induction e tmp i b out rule: put_digits.induct)
  case (2 e tmp i b out)
  then have "rev (take (Suc i) tmp) = tmp ! i # rev (take i tmp)" by (simp add: take_Suc_conv_app_nth)
  then show ?case using 2 by (auto split: Option.bind_splits)
qed simp

subsection \<open>The text of a number\<close>

text \<open>The number \<open>n\<close> with base \<open>b\<close>, the highest digit first.\<close>

function numeral_text :: "u8 list \<Rightarrow> nat \<Rightarrow> nat \<Rightarrow> cstring" where
  "numeral_text ds b n = (if n < b \<or> b < 2 then [ds ! n] else numeral_text ds b (n div b) @ [ds ! (n mod b)])"
  by pat_completeness auto
termination by (relation "measure (\<lambda>(ds, b, n). n)") auto

declare numeral_text.simps [simp del]

lemma numeral_text_length: "2 \<le> b \<Longrightarrow> n < b ^ Suc k \<Longrightarrow> length (numeral_text ds b n) \<le> Suc k"
proof (induction k arbitrary: n)
  case (Suc k)
  then have "n div b < b ^ Suc k" by (simp add: less_mult_imp_div_less mult.commute)
  then show ?case using Suc by (subst numeral_text.simps) simp
qed (simp add: numeral_text.simps)

text \<open>The base the code divides by.\<close>

definition radix :: "nat \<Rightarrow> nat" where "radix base = (if base = 10 then 10 else 16)"

lemma radix_bounds: "2 \<le> radix base" "radix base \<le> 16" by (simp_all add: radix_def)

lemma unat_divide: "unat (fst (divide n base)) = unat n mod radix base" "unat (snd (divide n base)) = unat n div radix base"
  by (simp_all add: divide_def radix_def unat_div unat_mod)

lemma u32_numeral_text_length: "length (numeral_text ds (radix base) (unat (n :: u32))) \<le> 10"
proof -
  have "unat n < 4294967296" by simp
  also have "\<dots> < (10::nat) ^ Suc 9" by simp
  also have "\<dots> \<le> radix base ^ Suc 9" by (rule power_mono) (simp_all add: radix_def)
  finally show ?thesis using numeral_text_length [OF radix_bounds(1), where k = 9] by simp
qed

lemma digits_loop_text:
  "length ds = 16 \<Longrightarrow> num \<noteq> 0 \<Longrightarrow> t = numeral_text ds (radix base) (unat num) \<Longrightarrow> i + length t \<le> length tmp \<Longrightarrow>
    \<exists>tmp'. digits_loop ds base num tmp i = Some (tmp', i + length t) \<and> blit tmp i (rev t) = Some tmp'"
proof (induction ds base num tmp i arbitrary: t rule: digits_loop.induct)
  case (1 ds base num tmp i)
  let ?q = "snd (divide num base)" and ?d = "ds ! (unat num mod radix base)"
  have r: "unat num mod radix base < 16"
    using radix_bounds [of base] by (intro order_less_le_trans [OF mod_less_divisor]) linarith+
  then have d: "rd ds (unat (fst (divide num base))) = Some ?d"
    unfolding unat_divide using 1(2) by (intro rd_Some) simp
  have t1: "1 \<le> length t" unfolding 1(4) by (subst numeral_text.simps) simp
  then obtain tmp1 where w: "blit tmp i [?d] = Some tmp1" using 1(5) by (simp add: blit_def)
  then have w': "wr tmp i ?d = Some tmp1" by (simp add: wr_blit)
  have step: "digits_loop ds base num tmp i = digits_loop ds base ?q tmp1 (i + 1)"
    using 1(3) d w' by (subst digits_loop.simps) simp
  show ?case
  proof (cases "?q = 0")
    case True
    then have "unat num div radix base = 0" using unat_divide(2) [of num base] by simp
    then have "unat num < radix base" using radix_bounds [of base] by (simp add: div_eq_0_iff)
    then have "t = [?d]" unfolding 1(4) by (subst numeral_text.simps) simp
    then show ?thesis using step w True by (simp add: digits_loop.simps)
  next
    case False
    let ?t = "numeral_text ds (radix base) (unat ?q)"
    have "unat num div radix base \<noteq> 0" using False by (simp flip: unat_divide(2) add: unat_eq_0)
    then have "\<not> unat num < radix base" by auto
    then have t: "t = ?t @ [?d]"
      unfolding 1(4) using radix_bounds [of base] by (subst numeral_text.simps) (simp add: unat_divide)
    have "i + 1 + length ?t \<le> length tmp1" using 1(5) t blit_length [OF w] by simp
    then obtain tmp2 where "digits_loop ds base ?q tmp1 (i + 1) = Some (tmp2, i + 1 + length ?t)" "blit tmp1 (i + 1) (rev ?t) = Some tmp2"
      using 1(1) [OF 1(3) d w' 1(2) False refl] by blast
    then show ?thesis using step t blit_step [OF w, of "rev ?t"] by simp
  qed
qed

text \<open>What \<open>print_number\<close> prints of a number: \<open>None\<close> for the one that cannot be negated.\<close>

definition number_text :: "u32 \<Rightarrow> nat \<Rightarrow> int \<Rightarrow> int \<Rightarrow> u8 \<Rightarrow> cstring option" where
  "number_text num base width precision type =
     map_option (\<lambda>(sign, a).
       let ds = numeral_text (if has type LARGE then large_digits else small_digits) (radix base) (unat a);
           sg = (if sign = 0 then [] else [sign]);
           body = replicate (nat (precision - int (length ds))) 48 @ (if precision = 0 then [] else ds);
           pad = nat (width - max precision (int (length ds)) - int (length sg)) in
       if has type LEFT then sg @ body @ replicate pad 32
       else if has type ZEROPAD then sg @ replicate pad 48 @ body
       else replicate pad 32 @ sg @ body) (number_sign num type)"

lemma has_and_not: "has (type AND NOT 1) SIGN = has type SIGN" "has (type AND NOT 1) PLUS = has type PLUS"
  "has (type AND NOT 1) SPACE = has type SPACE" "has (type AND NOT 1) LEFT = has type LEFT" "\<not> has (type AND NOT 1) ZEROPAD"
  by (simp_all add: has_def and.assoc)

lemmas has_and_minus = has_and_not [simplified]

lemma has_or: "has type (ZEROPAD OR LEFT) \<longleftrightarrow> has type ZEROPAD \<or> has type LEFT"
proof -
  have "has type (ZEROPAD OR LEFT) \<longleftrightarrow> (type AND 1) OR (type AND 16) \<noteq> 0" by (simp only: has_def bit.conj_disj_distrib)
  then show ?thesis by (simp add: has_def or_eq_0_iff)
qed

lemma number_sign_type: "number_sign num (type AND NOT 1) = number_sign num type"
  by (simp only: number_sign_def has_and_not)

lemma number_digits:
  fixes num :: u32 and base :: nat
  assumes "ds = large_digits \<or> ds = small_digits"
  defines "t \<equiv> numeral_text ds (radix base) (unat num)"
  shows "\<exists>tmp. (if num = 0 then do { tmp \<leftarrow> wr (replicate 16 0) 0 48; Some (tmp, 1) } else digits_loop ds base num (replicate 16 0) 0)
      = Some (tmp, length t) \<and> length t \<le> length tmp \<and> rev (take (length t) tmp) = t"
proof (cases "num = 0")
  case True
  have "t = [48]" using assms(1) radix_bounds [of base] True by (subst t_def, subst numeral_text.simps) (auto simp: large_digits_def small_digits_def)
  then show ?thesis using True by (simp add: wr_def take_Suc_conv_app_nth)
next
  case False
  have "length ds = 16" using assms(1) by (auto simp: large_digits_def small_digits_def)
  moreover have n: "length t \<le> 10" unfolding t_def by (rule u32_numeral_text_length)
  ultimately obtain tmp where "digits_loop ds base num (replicate 16 0) 0 = Some (tmp, length t)" "blit (replicate 16 0) 0 (rev t) = Some tmp"
    using digits_loop_text [OF _ False t_def [THEN meta_eq_to_obj_eq], of 0 "replicate 16 0"] by auto
  then show ?thesis using False n by (auto simp: blit_def)
qed

lemmas put_puts = pad_below_puts put_digits_puts puts_singleton

lemma puts_then: "do { out \<leftarrow> puts e xs out; puts e ys out } = puts e (xs @ ys) out"
  by (simp add: puts_append)

lemma puts_map: "do { (out, n) \<leftarrow> map_option (\<lambda>out. (out, k)) (puts e xs out); f out n } = do { out \<leftarrow> puts e xs out; f out k }"
  by (cases "puts e xs out") simp_all

definition left_type :: "u8 \<Rightarrow> u8" where
  "left_type type = (if has type LEFT then type AND NOT ZEROPAD else type)"

lemma left_type [simp]:
  "number_sign num (left_type type) = number_sign num type" "has (left_type type) LEFT = has type LEFT"
  "has (left_type type) ZEROPAD \<longleftrightarrow> has type ZEROPAD \<and> \<not> has type LEFT"
  "has (left_type type) (ZEROPAD OR LEFT) \<longleftrightarrow> has type ZEROPAD \<or> has type LEFT"
  unfolding has_or by (cases "has type LEFT"; simp only: left_type_def has_and_not number_sign_type if_True if_False simp_thms)+

lemma print_number_text:
  "print_number e num base width precision type out = do { t \<leftarrow> number_text num base width precision type; puts e t out }"
proof (cases "number_sign num type")
  case None
  then show ?thesis
    unfolding print_number_def Let_def left_type_def [symmetric] by (simp add: number_text_def)
next
  case (Some sa)
  obtain sign a where sa: "sa = (sign, a)" by (cases sa)
  let ?ds = "if has type LARGE then large_digits else small_digits"
  let ?t = "numeral_text ?ds (radix base) (unat a)"
  have "?ds = large_digits \<or> ?ds = small_digits" by simp
  from number_digits [OF this] obtain tmp where
    tmp: "(if a = 0 then do { tmp \<leftarrow> wr (replicate 16 0) 0 48; Some (tmp, 1) } else digits_loop ?ds base a (replicate 16 0) 0) = Some (tmp, length ?t)"
    and n: "length ?t \<le> length tmp" and rev: "rev (take (length ?t) tmp) = ?t" by blast
  have m: "(if int (length ?t) > precision then int (length ?t) else precision) = max precision (int (length ?t))" by simp
  let ?P = "max precision (int (length ?t))"
  have zero: "nat (min 0 x - 1 - 0) = 0" "nat (min 0 x - 1 - 1 - 0) = 0" for x :: int by auto
  have P: "nat (?P - int (length ?t)) = nat (precision - int (length ?t))" by auto
  have pad: "nat ((if sign \<noteq> 0 \<and> 0 < x then x - 1 else x) - 0) = nat (x - int (length (if sign = 0 then [] else [sign])))" for x :: int by auto
  show ?thesis
    unfolding print_number_def Let_def left_type_def [symmetric] left_type Some sa bind.bind_lunit prod.case tmp m put_digits_puts [OF n] rev pad_below_puts puts_map puts_singleton
    number_text_def option.map P pad
    by (cases "has type LEFT"; cases "has type ZEROPAD"; cases "sign = 0"; simp add: puts_fun puts_map zero)
qed

subsection \<open>The text of a format\<close>

text \<open>Strings are looked up by their address.\<close>

definition string_text :: "cstring \<Rightarrow> u8 \<Rightarrow> int \<Rightarrow> int \<Rightarrow> cstring" where
  "string_text t flags width precision =
     (let t = (if width \<ge> 0 then take (nat width) t else t);
          t = (if precision > 0 then take (nat precision) t else t);
          pad = replicate (nat (width - int (length t))) 32 in
      if has flags LEFT then t @ pad else pad @ t)"

definition char_text :: "u32 \<Rightarrow> u8 \<Rightarrow> int \<Rightarrow> cstring" where
  "char_text a flags width =
     (let pad = replicate (nat (width - 1)) 32 in if has flags LEFT then ucast a # pad else pad @ [ucast a])"

definition conv_text ::
  "(u32 \<Rightarrow> cstring option) \<Rightarrow> u8 \<Rightarrow> int \<Rightarrow> int \<Rightarrow> u8 \<Rightarrow> u8 \<Rightarrow> u32 list \<Rightarrow> (cstring \<times> u32 list) option" where
  "conv_text strs flags width precision qualifier c args =
     (if c = 99 then do { (a, args) \<leftarrow> va_arg args; Some (char_text a flags width, args) }
      else if c = 115 then do { (a, args) \<leftarrow> va_arg args; t \<leftarrow> strs a; Some (string_text t flags width precision, args) }
      else if c = 112 then
        do { (a, args) \<leftarrow> va_arg args;
             t \<leftarrow> (if width = - 1 then number_text a 16 8 precision (flags OR ZEROPAD) else number_text a 16 width precision flags);
             Some (t, args) }
      else if c = 37 then Some ([37], args)
      else (case number_format c flags of
        Some (base, flags) \<Rightarrow>
          do { (a, args) \<leftarrow> va_arg args;
               t \<leftarrow> number_text (number_arg qualifier flags a) base width precision flags;
               Some (t, args) }
      | None \<Rightarrow> Some (if c \<noteq> 0 then [37, c] else [37], args)))"

function format_text :: "(u32 \<Rightarrow> cstring option) \<Rightarrow> cstring \<Rightarrow> u32 list \<Rightarrow> cstring option" where
  "format_text strs [] args = Some []"
| "format_text strs (c # fmt) args =
     (if c \<noteq> 37 then do { t \<leftarrow> format_text strs fmt args; Some (c # t) }
      else do {
        (d, fmt', args) \<leftarrow> vsn_spec fmt args;
        (t, args) \<leftarrow> (case d of (flags, width, precision, qualifier) \<Rightarrow>
           conv_text strs flags width precision qualifier (fch fmt') args);
        t' \<leftarrow> format_text strs (tl fmt') args;
        Some (t @ t') })"
  by pat_completeness auto
termination by (relation "measure (\<lambda>(strs, fmt, args). length fmt)") (auto dest!: vsn_spec_shorter)

subsection \<open>The buffer holds the beginning of the text\<close>

text \<open>From the memory \<open>m0\<close> the text \<open>t\<close> has been printed into the buffer from \<open>buf\<close> to \<open>e\<close>.\<close>

definition printed :: "u8 list \<Rightarrow> nat \<Rightarrow> nat \<Rightarrow> cstring \<Rightarrow> sink \<Rightarrow> bool" where
  "printed m0 buf e t out \<longleftrightarrow> snd out = buf + length t \<and> blit m0 buf (take (e - buf) t) = Some (fst out)"

lemma puts_printed:
  assumes "buf \<le> e" "e \<le> length m0"
  shows "printed m0 buf e t out \<Longrightarrow> \<exists>out'. puts e xs out = Some out' \<and> printed m0 buf e (t @ xs) out'"
proof (induction xs arbitrary: t out)
  case (Cons c xs)
  obtain m where out: "out = (m, buf + length t)" and m: "blit m0 buf (take (e - buf) t) = Some m"
    using Cons.prems by (cases out) (auto simp: printed_def)
  have "\<exists>m'. put e c out = Some (m', buf + length (t @ [c])) \<and> blit m0 buf (take (e - buf) (t @ [c])) = Some m'"
  proof (cases "buf + length t < e")
    case True
    then have t: "take (e - buf) t = t" "take (e - buf) (t @ [c]) = t @ [c]" by simp_all
    obtain m' where "blit m0 buf (t @ [c]) = Some m'" using True assms by (simp add: blit_def)
    moreover have "wr m (buf + length t) c = blit m0 buf (t @ [c])" using blit_step [of m0 buf t m "[c]"] m t by (simp add: wr_blit)
    ultimately show ?thesis using True t out by (simp add: put_def)
  next
    case False
    then show ?thesis using m out by (simp add: put_def)
  qed
  then obtain m' where "put e c out = Some (m', buf + length (t @ [c]))" "blit m0 buf (take (e - buf) (t @ [c])) = Some m'" by blast
  moreover from this have "printed m0 buf e (t @ [c]) (m', buf + length (t @ [c]))" by (simp add: printed_def)
  ultimately show ?case using Cons.IH [of "t @ [c]"] by simp
qed simp

text \<open>The strings that are printed lie outside the buffer; the null pointer stands for its text.\<close>

definition strings_outside :: "u8 list \<Rightarrow> nat \<Rightarrow> nat \<Rightarrow> (u32 \<Rightarrow> cstring option) \<Rightarrow> bool" where
  "strings_outside m0 buf e strs \<longleftrightarrow> (\<forall>s t. strs s = Some t \<longrightarrow>
     (if s = 0 then t = null_text else string_at m0 (unat s) t \<and> (unat s + length t < buf \<or> e \<le> unat s)))"

lemma string_at_nth: "string_at m a t \<Longrightarrow> i \<le> length t \<Longrightarrow> rd m (a + i) = Some ((t @ [0]) ! i)"
proof (induction t arbitrary: a i)
  case (Cons c t)
  then show ?case using Cons.IH [of "a + 1" "i - 1"] by (cases i) auto
qed simp

lemma string_chars:
  assumes "buf \<le> e" and "strings_outside m0 buf e strs" "strs s = Some t" "printed m0 buf e t' out"
  shows "i \<le> length t \<Longrightarrow> arg_char (fst out) s i = Some ((t @ [0]) ! i)" "0 \<notin> set t"
proof -
  have s: "if s = 0 then t = null_text else string_at m0 (unat s) t \<and> (unat s + length t < buf \<or> e \<le> unat s)"
    using assms(2,3) unfolding strings_outside_def by blast
  show "0 \<notin> set t" using s by (auto simp: null_text_def string_at_def split: if_splits)
  assume i: "i \<le> length t"
  show "arg_char (fst out) s i = Some ((t @ [0]) ! i)"
  proof (cases "s = 0")
    case True
    then show ?thesis using s i by (simp add: arg_char_def)
  next
    case False
    have m: "blit m0 buf (take (e - buf) t') = Some (fst out)" using assms(4) by (simp add: printed_def)
    have "string_at m0 (unat s) t" "unat s + length t < buf \<or> buf + length (take (e - buf) t') \<le> unat s"
      using s False assms(1) by auto
    then have "string_at (fst out) (unat s) t" using string_at_kept [OF _ m] by blast
    then show ?thesis using False i string_at_nth by (simp add: arg_char_def)
  qed
qed

lemma str_span_text:
  assumes "\<And>i. i \<le> length t \<Longrightarrow> arg_char m s i = Some ((t @ [0]) ! i)" "0 \<notin> set t"
  shows "len \<le> length t \<Longrightarrow> width \<ge> 0 \<longrightarrow> len \<le> nat width \<Longrightarrow>
    str_span m s width len = Some (length (if width \<ge> 0 then take (nat width) t else t))"
proof (induction "length t - len" arbitrary: len)
  case 0
  then have len: "len = length t" by simp
  have "arg_char m s len = Some 0" unfolding len using assms(1) [of "length t"] by simp
  then show ?case using len 0 by (subst str_span.simps) auto
next
  case (Suc k)
  then have n: "len < length t" by simp
  then have c: "arg_char m s len = Some (t ! len)" using assms(1) [of len] by (simp add: nth_append)
  have "t ! len \<noteq> 0" using n assms(2) nth_mem by metis
  then show ?case using Suc n c by (subst str_span.simps) (auto intro!: Suc.hyps)
qed

lemma put_string_text:
  assumes b: "buf \<le> e" "e \<le> length m0" and s: "strings_outside m0 buf e strs" "strs s = Some t"
  shows "printed m0 buf e t' out \<Longrightarrow> i + n \<le> length t \<Longrightarrow> put_string e s i n out = puts e (take n (drop i t)) out"
proof (induction n arbitrary: i t' out)
  case (Suc n)
  have c: "arg_char (fst out) s i = Some (t ! i)" using string_chars(1) [OF b(1) s Suc.prems(1), of i] Suc.prems(2) by (simp add: nth_append)
  obtain out' where o: "puts e [t ! i] out = Some out'" "printed m0 buf e (t' @ [t ! i]) out'" using puts_printed [OF b Suc.prems(1)] by blast
  have "drop i t = t ! i # drop (Suc i) t" using Suc.prems(2) by (intro Cons_nth_drop_Suc [symmetric]) simp
  then have "take (Suc n) (drop i t) = t ! i # take n (drop (Suc i) t)" by (simp only: take_Suc_Cons)
  then show ?case using c o(1) [folded puts_singleton] Suc.IH [OF o(2), of "i + 1"] Suc.prems(2) by simp
qed simp

lemma vsn_string_text:
  assumes b: "buf \<le> e" "e \<le> length m0" and s: "strings_outside m0 buf e strs" "strs a = Some t" and p: "printed m0 buf e t' out"
  shows "vsn_string e flags width precision a out = puts e (string_text t flags width precision) out"
proof -
  let ?t1 = "if width \<ge> 0 then take (nat width) t else t"
  let ?t = "if precision > 0 then take (nat precision) ?t1 else ?t1"
  let ?pad = "replicate (nat (width - int (length ?t))) (32 :: u8)"
  have span: "str_span (fst out) a width 0 = Some (length ?t1)"
    using string_chars [OF b(1) s p] by (intro str_span_text) simp_all
  have len: "(if precision > 0 \<and> int (length ?t1) > precision then nat precision else length ?t1) = length ?t" by auto
  have zero: "nat (min x y - 1 - x) = 0" for x y :: int by auto
  have t: "?t = take (length ?t) (drop 0 t)" "0 + length ?t \<le> length t" by (auto simp: min_def)
  have put: "put_string e a 0 (length ?t) out1 = puts e ?t out1" if "printed m0 buf e t1 out1" for t1 out1
    using put_string_text [OF b s that t(2)] t(1) by simp
  show ?thesis
  proof (cases "has flags LEFT")
    case True
    show ?thesis
      using True put [OF p]
      unfolding vsn_string_def span bind.bind_lunit len Let_def string_text_def by (simp add: pad_below_puts puts_fun puts_map)
  next
    case False
    obtain out1 where o: "puts e ?pad out = Some out1" "printed m0 buf e (t' @ ?pad) out1" using puts_printed [OF b p] by blast
    show ?thesis
      using False o(1) put [OF o(2)]
      unfolding vsn_string_def span bind.bind_lunit len Let_def string_text_def by (simp add: pad_below_puts puts_fun zero)
  qed
qed

lemma vsn_char_text: "vsn_char e flags width a out = puts e (char_text a flags width) out"
proof -
  have "nat (min 0 (width - 1) - 1) = 0" by simp
  then show ?thesis
    by (simp add: vsn_char_def char_text_def pad_down_puts puts_map puts_fun)
qed

lemma vsn_conv_text:
  assumes b: "buf \<le> e" "e \<le> length m0" and s: "strings_outside m0 buf e strs" and p: "printed m0 buf e t' out"
    and t: "conv_text strs flags width precision qualifier c args = Some (t, args')"
  shows "vsn_conv e flags width precision qualifier c args out = do { out \<leftarrow> puts e t out; Some (out, args') }"
proof -
  consider "c = 99" | "c = 115" | "c = 112" | "c = 37" | "c \<notin> {99, 115, 112, 37}" by blast
  then show ?thesis
  proof cases
    case 1
    then show ?thesis using t by (auto simp: vsn_conv_def conv_text_def vsn_char_text split: Option.bind_splits)
  next
    case 2
    then obtain a args1 t1 where a: "va_arg args = Some (a, args1)" "strs a = Some t1" "t = string_text t1 flags width precision" "args' = args1"
      using t by (auto simp: conv_text_def split: Option.bind_splits)
    show ?thesis using 2 a(1,3,4) vsn_string_text [OF b s a(2) p] by (simp add: vsn_conv_def)
  next
    case 3
    then show ?thesis using t by (auto simp: vsn_conv_def conv_text_def print_number_text Let_def split: Option.bind_splits if_splits)
  next
    case 4
    then show ?thesis using t by (auto simp: vsn_conv_def conv_text_def split: Option.bind_splits)
  next
    case 5
    show ?thesis
    proof (cases "number_format c flags")
      case None
      then show ?thesis using 5 t by (cases "c = 0") (auto simp: vsn_conv_def conv_text_def split: Option.bind_splits)
    next
      case (Some d)
      then show ?thesis using 5 t by (cases d) (auto simp: vsn_conv_def conv_text_def print_number_text split: Option.bind_splits)
    qed
  qed
qed

lemma vsn_loop_text:
  assumes b: "buf \<le> e" "e \<le> length m0" and s: "strings_outside m0 buf e strs"
  shows "printed m0 buf e t' out \<Longrightarrow> format_text strs fmt args = Some t \<Longrightarrow>
    \<exists>out'. vsn_loop e fmt args out = Some out' \<and> printed m0 buf e (t' @ t) out'"
proof (induction "length fmt" arbitrary: fmt args out t t' rule: less_induct)
  case less
  show ?case
  proof (cases fmt)
    case Nil
    then show ?thesis using less.prems by simp
  next
    case (Cons c fmt1)
    show ?thesis
    proof (cases "c = 37")
      case False
      then obtain t1 where t1: "format_text strs fmt1 args = Some t1" "t = c # t1"
        using less.prems(2) Cons by (auto split: Option.bind_splits)
      obtain out1 where o: "puts e [c] out = Some out1" "printed m0 buf e (t' @ [c]) out1" using puts_printed [OF b less.prems(1)] by blast
      show ?thesis using less.hyps [OF _ o(2) t1(1)] Cons False t1(2) o(1) [folded puts_singleton] by simp
    next
      case True
      then obtain flags width precision qualifier fmt2 args1 where spec: "vsn_spec fmt1 args = Some ((flags, width, precision, qualifier), fmt2, args1)"
        using less.prems(2) Cons by (auto split: Option.bind_splits)
      with True obtain t1 args2 t2 where conv: "conv_text strs flags width precision qualifier (fch fmt2) args1 = Some (t1, args2)"
        and t2: "format_text strs (tl fmt2) args2 = Some t2" "t = t1 @ t2"
        using less.prems(2) Cons by (auto split: Option.bind_splits)
      obtain out1 where o: "puts e t1 out = Some out1" "printed m0 buf e (t' @ t1) out1" using puts_printed [OF b less.prems(1)] by blast
      have step: "vsn_conv e flags width precision qualifier (fch fmt2) args1 out = Some (out1, args2)"
        using vsn_conv_text [OF b s less.prems(1) conv] o(1) by simp
      have "length (tl fmt2) < length fmt" using vsn_spec_shorter [OF spec] Cons by simp
      from less.hyps [OF this o(2) t2(1)] show ?thesis using Cons True spec step t2(2) by simp
    qed
  qed
qed

text \<open>A buffer of \<open>n\<close> bytes: the beginning of the text, its zero, and the length of the whole text.\<close>

lemma rt_vsnprintf_text:
  assumes n: "buf + n \<le> length m" "length m < 2 ^ 32"
    and s: "strings_outside m buf (buf + n) strs" and t: "format_text strs fmt args = Some t"
  shows "\<exists>m'. rt_vsnprintf m buf n fmt args = Some (m', length t) \<and>
    (if n = 0 then m' = m else blit m buf (take (n - 1) t @ [0]) = Some m')"
proof -
  have e: "(buf + n) mod 2 ^ 32 = buf + n" using n by simp
  have "printed m buf (buf + n) [] (m, buf)" using n(1) by (simp add: printed_def blit_nil)
  from vsn_loop_text [OF _ n(1) s this t] obtain m1 str
    where loop: "vsn_loop (buf + n) fmt args (m, buf) = Some (m1, str)" and p: "printed m buf (buf + n) t (m1, str)" by auto
  have str: "str = buf + length t" and m1: "blit m buf (take n t) = Some m1" using p by (simp_all add: printed_def)
  have len: "length m1 = length m" using blit_length [OF m1] .
  show ?thesis
  proof (cases "n = 0")
    case True
    then show ?thesis using loop str m1 n(1) e by (simp add: rt_vsnprintf_def blit_nil)
  next
    case False
    have "\<exists>m'. (if str < buf + n then wr m1 str 0 else wr m1 (buf + n - 1) 0) = Some m' \<and> blit m buf (take (n - 1) t @ [0]) = Some m'"
    proof (cases "length t < n")
      case True
      then have "take n t = t" "take (n - 1) t = t" by simp_all
      moreover obtain m' where "blit m buf (t @ [0]) = Some m'" using n(1) True by (simp add: blit_def)
      moreover have "wr m1 str 0 = blit m buf (t @ [0])" using blit_step [of m buf t m1 "[0]"] m1 \<open>take n t = t\<close> str by (simp add: wr_blit)
      ultimately show ?thesis using True str by simp
    next
      case over: False
      have "take n t = take (n - 1) t @ [t ! (n - 1)]"
        using over False take_Suc_conv_app_nth [of "n - 1" t] by simp
      then have "m1 = take buf m @ (take (n - 1) t @ [t ! (n - 1)]) @ drop (buf + n) m"
        using m1 over n(1) False by (auto simp: blit_def split: if_splits)
      moreover have "blit m buf (take (n - 1) t @ [0]) = Some (take buf m @ (take (n - 1) t @ [0]) @ drop (buf + n) m)"
        using over False n(1) by (simp add: blit_def)
      moreover have "wr m1 (buf + n - 1) 0 = Some (m1 [buf + n - 1 := 0])" using n(1) len False by simp
      moreover have "\<not> buf + n - Suc 0 < buf" using False by simp
      ultimately show ?thesis using over str False n(1) by (simp add: list_update_append)
    qed
    then show ?thesis using loop str False e by (auto simp: rt_vsnprintf_def Let_def)
  qed
qed

subsection \<open>The digits and flags of a format\<close>

lemma digits_chars: "k < 16 \<Longrightarrow> (if upper then large_digits else small_digits) ! k = digit_char upper k"
proof -
  have "\<forall>k \<in> set [0..<16]. large_digits ! k = digit_char True k" by code_simp
  moreover have "\<forall>k \<in> set [0..<16]. small_digits ! k = digit_char False k" by code_simp
  ultimately show "k < 16 \<Longrightarrow> ?thesis" by (cases upper) simp_all
qed

lemma numeral_text_positional:
  "2 \<le> b \<Longrightarrow> b \<le> 16 \<Longrightarrow> numeral_text (if upper then large_digits else small_digits) b n = positional upper b n"
proof (induction n rule: less_induct)
  case (less n)
  have "n mod b < b" using less.prems by simp
  then have "n mod b < 16" "n < b \<Longrightarrow> n < 16" using less.prems(2) by linarith+
  then show ?case
    using less digits_chars [of n upper] digits_chars [of "n mod b" upper]
    by (subst numeral_text.simps, subst positional.simps) auto
qed

lemma has_or_iff: "has (f OR g) b \<longleftrightarrow> has f b \<or> has g b"
  by (simp add: has_def bit.conj_disj_distrib2 or_eq_0_iff)

fun flag_bit :: "flag \<Rightarrow> u8" where
  "flag_bit Minus_Flag = LEFT"
| "flag_bit Plus_Flag = PLUS"
| "flag_bit Space_Flag = SPACE"
| "flag_bit Zero_Flag = ZEROPAD"

text \<open>The flags the code has collected are those of the format.\<close>

definition flags_are :: "u8 \<Rightarrow> flag list \<Rightarrow> bool" where
  "flags_are f fs \<longleftrightarrow> (has f LEFT \<longleftrightarrow> Minus_Flag \<in> set fs) \<and> (has f PLUS \<longleftrightarrow> Plus_Flag \<in> set fs) \<and> (has f SPACE \<longleftrightarrow> Space_Flag \<in> set fs)
     \<and> (has f ZEROPAD \<longleftrightarrow> Zero_Flag \<in> set fs) \<and> \<not> has f SIGN \<and> \<not> has f LARGE"

lemma flags_are_step: "flags_are f fs \<Longrightarrow> flags_are (f OR flag_bit x) (x # fs)"
  by (cases x) (simp_all add: flags_are_def has_or_iff, simp_all add: has_def)

lemma flags_are_set: "set fs = set gs \<Longrightarrow> flags_are f fs \<longleftrightarrow> flags_are f gs"
  by (simp add: flags_are_def)

lemma vsn_flags_chars:
  assumes "fch rest \<notin> {45, 43, 32, 35, 48}"
  shows "flags_are f gs \<Longrightarrow> \<exists>f'. vsn_flags f (map flag_char fs @ rest) = (f', rest) \<and> flags_are f' (fs @ gs)"
proof (induction fs arbitrary: f gs)
  case Nil
  then show ?case using assms by (cases rest) (auto simp: fch_def)
next
  case (Cons x fs)
  obtain f' where "vsn_flags (f OR flag_bit x) (map flag_char fs @ rest) = (f', rest)" "flags_are f' (fs @ x # gs)"
    using Cons.IH [OF flags_are_step [OF Cons.prems, of x]] by blast
  moreover have "flags_are f' (fs @ x # gs) \<longleftrightarrow> flags_are f' ((x # fs) @ gs)" by (rule flags_are_set) auto
  ultimately show ?case by (cases x) auto
qed

lemma skip_atoi_numeral:
  "n + 48 \<le> 0x7fffffff \<Longrightarrow> skip_atoi 0 (positional False 10 n @ rest) = skip_atoi (int n) rest"
proof (induction n arbitrary: rest rule: less_induct)
  case (less n)
  let ?d = "digit_char False (n mod 10)"
  have u: "uint ?d = 48 + int (n mod 10)" by (simp add: digit_char_decimal)
  have "unat ?d = 48 + n mod 10" using u by (metis int_nat_eq nat_int of_nat_add of_nat_numeral unat_eq_nat_uint)
  then have "unat (?d - 48) = n mod 10" using unat_sub_le [of 48 ?d] by (simp add: word_le_nat_alt)
  then have digit: "ISDIGIT ?d" by (simp add: ISDIGIT_def word_less_nat_alt)
  have step: "skip_atoi (int (n div 10)) (?d # rest) = skip_atoi (int n) rest"
  proof -
    have "int (n div 10) * 10 + uint ?d - 48 = int n" unfolding u by presburger
    moreover have "int (n div 10) * 10 + uint ?d \<le> 0x7fffffff" unfolding u using less.prems by presburger
    ultimately show ?thesis using digit by (simp only: skip_atoi.simps if_True)
  qed
  show ?case
  proof (cases "n < 10")
    case True
    then show ?thesis using step by (simp add: positional.simps [of _ 10 n])
  next
    case False
    then have "skip_atoi 0 (positional False 10 (n div 10) @ ?d # rest) = skip_atoi (int (n div 10)) (?d # rest)"
      using less.prems by (intro less.IH) auto
    then show ?thesis using step False by (simp add: positional.simps [of _ 10 n])
  qed
qed

lemma skip_atoi_number:
  assumes "n \<le> 2147483599" "\<not> ISDIGIT (fch rest)"
  shows "skip_atoi 0 (positional False 10 n @ rest) = Some (int n, rest)"
proof -
  have "skip_atoi (int n) rest = Some (int n, rest)" using assms(2) by (cases rest) (simp_all add: fch_def)
  then show ?thesis using assms(1) by (subst skip_atoi_numeral) simp_all
qed

lemma positional_first:
  "\<exists>k ds. positional False 10 n = digit_char False k # ds \<and> k < 10 \<and> (0 < n \<longrightarrow> 0 < k)"
proof (induction n rule: less_induct)
  case (less n)
  show ?case
  proof (cases "n < 10")
    case True
    then show ?thesis by (intro exI [of _ n]) (simp add: positional.simps [of _ _ n])
  next
    case False
    then obtain k ds where "positional False 10 (n div 10) = digit_char False k # ds" "k < 10" "0 < n div 10 \<longrightarrow> 0 < k"
      using less.IH [of "n div 10"] by auto
    then show ?thesis using False by (intro exI [of _ k]) (simp add: positional.simps [of _ _ n])
  qed
qed

lemma positional_fch:
  "ISDIGIT (fch (positional False 10 n @ rest))" "0 < n \<Longrightarrow> fch (positional False 10 n @ rest) \<notin> {45, 43, 32, 35, 48}"
proof -
  obtain k ds where k: "positional False 10 n = digit_char False k # ds" "k < 10" "0 < n \<longrightarrow> 0 < k" using positional_first by blast
  have d: "\<forall>k \<in> set [0..<10]. ISDIGIT (digit_char False k) \<and> digit_char False k \<notin> {45, 43, 32, 35} \<and> (0 < k \<longrightarrow> digit_char False k \<noteq> 48)"
    by code_simp
  show "ISDIGIT (fch (positional False 10 n @ rest))" using k d by (simp add: fch_def)
  show "0 < n \<Longrightarrow> fch (positional False 10 n @ rest) \<notin> {45, 43, 32, 35, 48}" using k d by (simp add: fch_def)
qed

subsection \<open>The fields of a conversion\<close>

fun modifier_char :: "modifier \<Rightarrow> u8" where
  "modifier_char Plain = 0"
| "modifier_char Short = 104"
| "modifier_char Long = 108"

fun letter :: "conversion \<Rightarrow> u8 \<times> u8" where
  "letter (Conv_d l) = (modifier_char l, 100)"
| "letter (Conv_i l) = (modifier_char l, 105)"
| "letter (Conv_u l) = (modifier_char l, 117)"
| "letter (Conv_x l) = (modifier_char l, 120)"
| "letter (Conv_X l) = (modifier_char l, 88)"
| "letter Conv_c = (0, 99)"
| "letter Conv_s = (0, 115)"
| "letter Conv_p = (0, 112)"

lemma modifier_fch:
  "fch (modifier_chars l @ x # rest) \<in> {104, 108, x}"
  "x \<noteq> 104 \<Longrightarrow> x \<noteq> 108 \<Longrightarrow> vsn_qualifier (modifier_chars l @ x # rest) = (modifier_char l, x # rest)"
  by (cases l; simp add: fch_def vsn_qualifier_def)+

lemma conversion_fch: "fch (conversion_chars c @ rest) \<in> {104, 108, 100, 105, 117, 120, 88, 99, 115, 112}"
  using modifier_fch(1) by (cases c) (fastforce simp: fch_def)+

lemma vsn_qualifier_chars: "vsn_qualifier (conversion_chars c @ rest) = (fst (letter c), snd (letter c) # rest)"
  by (cases c) (simp_all add: modifier_fch(2), simp_all add: fch_def vsn_qualifier_def)

lemma conversion_no_field:
  "fch (conversion_chars c @ rest) \<notin> {45, 43, 32, 35, 48, 46, 42}" "\<not> ISDIGIT (fch (conversion_chars c @ rest))"
proof -
  have "\<forall>x \<in> {104, 108, 100, 105, 117, 120, 88, 99, 115, 112}. x \<notin> {45, 43, 32, 35, 48, 46, 42 :: u8} \<and> \<not> ISDIGIT x" by (simp add: ISDIGIT_def)
  then show "fch (conversion_chars c @ rest) \<notin> {45, 43, 32, 35, 48, 46, 42}" "\<not> ISDIGIT (fch (conversion_chars c @ rest))"
    using conversion_fch [of c rest] by blast+
qed

lemma precision_no_field:
  "fch (precision_chars p @ conversion_chars c @ rest) \<notin> {45, 43, 32, 35, 48, 42}"
  "\<not> ISDIGIT (fch (precision_chars p @ conversion_chars c @ rest))"
  using conversion_no_field [of c rest] by (auto simp: precision_chars_def fch_def ISDIGIT_def)

definition int_field :: "int option \<Rightarrow> int" where "int_field w = (case w of None \<Rightarrow> - 1 | Some n \<Rightarrow> \<bar>n\<bar>)"

definition int_precision :: "int option \<Rightarrow> int" where "int_precision p = (case p of None \<Rightarrow> - 1 | Some n \<Rightarrow> max n 0)"

definition width_flags :: "flag list \<Rightarrow> int option \<Rightarrow> flag list" where
  "width_flags fs w = (case w of None \<Rightarrow> fs | Some n \<Rightarrow> if n < 0 then Minus_Flag # fs else fs)"

lemma vsn_precision_chars:
  assumes "field_value p args = Some (p', args')"
  shows "vsn_precision (precision_chars p @ conversion_chars c @ rest) args = Some (int_precision p', conversion_chars c @ rest, args')"
proof (cases p)
  case No_Field
  then show ?thesis using assms conversion_no_field [of c rest] by (simp add: vsn_precision_def precision_chars_def int_precision_def)
next
  case (Number_Field n)
  have "fch (precision_chars p @ xs) = 46" "tl (precision_chars p @ xs) = positional False 10 n @ xs" for xs
    using Number_Field by (simp_all add: precision_chars_def fch_def)
  then show ?thesis
    using Number_Field assms skip_atoi_number [of n "conversion_chars c @ rest"] conversion_no_field [of c rest]
      positional_fch(1) [of n "conversion_chars c @ rest"]
    by (auto simp: vsn_precision_def Let_def int_precision_def split: if_splits)
next
  case Star_Field
  then obtain a where "args = a # args'" "p' = Some (sint a)" using assms by (cases args) auto
  then show ?thesis using Star_Field
    by (simp add: vsn_precision_def precision_chars_def int_precision_def fch_def va_arg_def ISDIGIT_def)
qed

lemma vsn_width_chars:
  assumes "field_value w args = Some (w', args')" "w' \<noteq> Some (- 2147483648)" "flags_are f fs"
    and rest: "fch rest \<noteq> 42" "\<not> ISDIGIT (fch rest)"
  shows "\<exists>f'. vsn_width f (field_chars w @ rest) args = Some (int_field w', f', rest, args') \<and> flags_are f' (width_flags fs w')"
proof (cases w)
  case No_Field
  then show ?thesis using assms by (auto simp: vsn_width_def int_field_def width_flags_def)
next
  case (Number_Field n)
  then show ?thesis
    using assms skip_atoi_number [of n rest] positional_fch(1) [of n rest]
    by (auto simp: vsn_width_def int_field_def width_flags_def split: if_splits)
next
  case Star_Field
  then obtain a where a: "args = a # args'" "w' = Some (sint a)" using assms(1) by (cases args) auto
  then have "a \<noteq> 0x80000000" using assms(2) by auto
  then show ?thesis
    using Star_Field a assms(3) flags_are_step [OF assms(3), of Minus_Flag]
    by (auto simp: vsn_width_def int_field_def width_flags_def fch_def va_arg_def ISDIGIT_def)
qed

lemma vsn_spec_chars:
  assumes w: "field_value w args = Some (w', args1)" "w' \<noteq> Some (- 2147483648)" "w \<noteq> Number_Field 0" and p: "field_value p args1 = Some (p', args2)"
  shows "\<exists>f. vsn_spec (map flag_char fs @ field_chars w @ precision_chars p @ conversion_chars c @ rest) args
      = Some ((f, int_field w', int_precision p', fst (letter c)), snd (letter c) # rest, args2) \<and> flags_are f (width_flags fs w')"
proof -
  let ?rest = "precision_chars p @ conversion_chars c @ rest"
  have "fch (field_chars w @ ?rest) \<notin> {45, 43, 32, 35, 48}"
    using w(3) precision_no_field [of p c rest] positional_fch(2) by (cases w) (auto simp: fch_def)
  moreover have "flags_are 0 []" by (simp add: flags_are_def has_def)
  ultimately obtain f where f: "vsn_flags 0 (map flag_char fs @ field_chars w @ ?rest) = (f, field_chars w @ ?rest)" "flags_are f fs"
    using vsn_flags_chars [of "field_chars w @ ?rest" 0 "[]" fs] by auto
  obtain f' where f': "vsn_width f (field_chars w @ ?rest) args = Some (int_field w', f', ?rest, args1)" "flags_are f' (width_flags fs w')"
    using vsn_width_chars [OF w(1,2) f(2), of ?rest] precision_no_field [of p c rest] by blast
  show ?thesis
    using f(1) f' vsn_precision_chars [OF p, of c rest] vsn_qualifier_chars [of c rest] by (simp add: vsn_spec_def)
qed

subsection \<open>The text of a piece\<close>

lemma positional_length: "length (positional upper b n) \<noteq> 0"
  by (subst positional.simps) simp

lemma number_text_digits:
  assumes n: "number_sign num type = Some (sign, a)" "base = 10 \<or> base = 16"
    and type: "has type LEFT \<longleftrightarrow> Minus_Flag \<in> set fs" "has type ZEROPAD \<longleftrightarrow> Zero_Flag \<in> set fs" "has type LARGE \<longleftrightarrow> upper"
    and p: "case p of None \<Rightarrow> True | Some n \<Rightarrow> 0 < n \<and> (Minus_Flag \<in> set fs \<or> Zero_Flag \<notin> set fs)"
  shows "number_text num base (case w of None \<Rightarrow> - 1 | Some w \<Rightarrow> int w) (case p of None \<Rightarrow> - 1 | Some n \<Rightarrow> int n) type
    = Some (digits_text fs w p upper base (if sign = 0 then [] else [sign]) (unat a))"
proof -
  have b: "radix base = base" "2 \<le> base" "base \<le> 16" using n(2) by (auto simp: radix_def)
  let ?ds = "positional upper base (unat a)" and ?sg = "if sign = 0 then [] else [sign]"
  let ?w = "case w of None \<Rightarrow> - 1 | Some w \<Rightarrow> int w" and ?p = "case p of None \<Rightarrow> - 1 | Some n \<Rightarrow> int n"
  let ?least = "case p of None \<Rightarrow> 1 | Some p \<Rightarrow> p"
  have ds: "numeral_text (if has type LARGE then large_digits else small_digits) (radix base) (unat a) = ?ds"
    using numeral_text_positional [OF b(2,3)] type(3) b(1) by simp
  have k: "1 \<le> length ?ds" using positional_length [of upper base "unat a"] by linarith
  have p0: "?p \<noteq> 0" "p \<noteq> Some 0" using p by (auto split: option.splits)
  have zeros: "nat (?p - int (length ?ds)) = ?least - length ?ds" using k by (cases p) auto
  have pad: "nat (?w - max ?p (int (length ?ds)) - int (length ?sg)) =
      (case w of None \<Rightarrow> 0 | Some w \<Rightarrow> w) - length (?sg @ replicate (?least - length ?ds) 48 @ ?ds)"
    using k by (cases w; cases p) auto
  show ?thesis
    unfolding number_text_def n(1) option.map prod.case ds Let_def zeros pad digits_text_def field_text_def
    using type(1,2) p p0 by (cases p) auto
qed

lemma uint_ucast16: "uint (ucast a :: u16) = uint a mod 65536" for a :: u32
  by (simp add: unsigned_ucast_eq take_bit_eq_mod)

lemma sint16: "sint x = (if uint x < 32768 then uint x else uint x - 65536)" for x :: u16
proof -
  have "bit (uint x) 15 \<longleftrightarrow> \<not> uint x < 32768"
  proof -
    have "0 \<le> uint x" "uint x < 65536" using unsigned_less [of x, where ?'a = int] by simp_all
    then have "uint x div 32768 = (if uint x < 32768 then 0 else 1)" by (auto intro: int_div_pos_eq [of _ _ _ "uint x - 32768"])
    then show ?thesis by (simp add: bit_iff_odd)
  qed
  moreover have "take_bit 16 (uint x) = uint x" using unsigned_less [of x, where ?'a = int] by (intro take_bit_int_eq_self) simp_all
  ultimately show ?thesis by (simp add: sint_uint signed_take_bit_eq_take_bit_minus)
qed

lemma sint_scast16: "sint (scast x :: u32) = sint x" for x :: u16
  by (rule sint_up_scast) (simp add: is_up)

lemma sint_number_arg: "has f SIGN \<Longrightarrow> sint (number_arg (modifier_char l) f a) = signed_value l a"
  by (cases l) (simp_all add: number_arg_def sint_scast16 sint16 uint_ucast16 Let_def)

lemma unat_number_arg: "\<not> has f SIGN \<Longrightarrow> unat (number_arg (modifier_char l) f a) = unsigned_value l a"
proof -
  have "unat (ucast (ucast a :: u16) :: u32) = unat a mod 65536"
    by (simp add: unat_ucast_up unsigned_ucast_eq [where ?'a = nat] take_bit_eq_mod)
  then show "\<not> has f SIGN \<Longrightarrow> ?thesis" by (cases l) (simp_all add: number_arg_def)
qed

lemma sint_abs: "sint x < 0 \<Longrightarrow> unat (- x) = nat (- sint x)" "\<not> sint x < 0 \<Longrightarrow> unat x = nat (sint x)" for x :: u32
proof -
  have "sint x < 0 \<longleftrightarrow> bit (uint x) 31" by (simp add: sint_uint signed_take_bit_negative_iff)
  moreover have "take_bit 32 (uint x) = uint x" using unsigned_less [of x, where ?'a = int] by (intro take_bit_int_eq_self) simp_all
  then have "sint x = uint x - 4294967296 * of_bool (bit (uint x) 31)"
    by (simp add: sint_uint signed_take_bit_eq_take_bit_minus)
  ultimately have s: "sint x = uint x - (if sint x < 0 then 4294967296 else 0)" by simp
  show "unat x = nat (sint x)" if "\<not> sint x < 0" using s that by simp
  assume n: "sint x < 0"
  then have "x \<noteq> 0" by auto
  then have "unat x \<noteq> 0" by (simp add: unat_eq_0)
  then have "unat (- x) = 4294967296 - unat x" using unat_sub_if' [of 0 x] by simp
  then show "unat (- x) = nat (- sint x)" using s n by (simp add: nat_diff_distrib' flip: unat_eq_nat_uint)
qed

lemma number_sign_signed:
  assumes "has f SIGN" "has f PLUS \<longleftrightarrow> Plus_Flag \<in> set fs" "has f SPACE \<longleftrightarrow> Space_Flag \<in> set fs" "sint num \<noteq> - 2147483648"
  shows "\<exists>sign a. number_sign num f = Some (sign, a) \<and> unat a = nat \<bar>sint num\<bar> \<and>
    (if sign = 0 then [] else [sign]) = (if sint num < 0 then [45] else if Plus_Flag \<in> set fs then [43] else if Space_Flag \<in> set fs then [32] else [])"
proof -
  have "num \<noteq> 0x80000000" using assms(4) by auto
  then show ?thesis using assms(1-3) sint_abs [of num] by (auto simp: number_sign_def)
qed

lemma number_text_signed:
  assumes f: "flags_are f fs" and v: "signed_value l a \<noteq> - 2147483648"
    and p: "case p of None \<Rightarrow> True | Some n \<Rightarrow> 0 < n \<and> (Minus_Flag \<in> set fs \<or> Zero_Flag \<notin> set fs)"
  shows "number_text (number_arg (modifier_char l) (f OR SIGN) a) 10 (case w of None \<Rightarrow> - 1 | Some w \<Rightarrow> int w) (case p of None \<Rightarrow> - 1 | Some n \<Rightarrow> int n) (f OR SIGN)
    = Some (signed_text fs w p (signed_value l a))"
proof -
  let ?f = "f OR SIGN"
  have "has SIGN SIGN" "\<not> has SIGN LEFT" "\<not> has SIGN PLUS" "\<not> has SIGN SPACE" "\<not> has SIGN ZEROPAD" "\<not> has SIGN LARGE"
    by (simp_all add: has_def)
  then have t: "has ?f SIGN" "has ?f LEFT \<longleftrightarrow> Minus_Flag \<in> set fs" "has ?f PLUS \<longleftrightarrow> Plus_Flag \<in> set fs" "has ?f SPACE \<longleftrightarrow> Space_Flag \<in> set fs"
    "has ?f ZEROPAD \<longleftrightarrow> Zero_Flag \<in> set fs" "has ?f LARGE \<longleftrightarrow> False"
    using f by (auto simp: flags_are_def has_or_iff)
  note s = sint_number_arg [OF t(1), of l a]
  obtain sign n where n: "number_sign (number_arg (modifier_char l) ?f a) ?f = Some (sign, n)" "unat n = nat \<bar>signed_value l a\<bar>"
    "(if sign = 0 then [] else [sign]) = (if signed_value l a < 0 then [45] else if Plus_Flag \<in> set fs then [43] else if Space_Flag \<in> set fs then [32] else [])"
    using number_sign_signed [OF t(1,3,4), of "number_arg (modifier_char l) ?f a", unfolded s, OF v] by blast
  show ?thesis
    using number_text_digits [OF n(1) disjI1 [OF refl] t(2,5,6) p, of w] unfolding n(2,3) signed_text_def .
qed

lemma number_text_unsigned:
  assumes "\<not> has f SIGN" "base = 10 \<or> base = 16"
    "has f LEFT \<longleftrightarrow> Minus_Flag \<in> set fs" "has f ZEROPAD \<longleftrightarrow> Zero_Flag \<in> set fs" "has f LARGE \<longleftrightarrow> upper"
    and p: "case p of None \<Rightarrow> True | Some n \<Rightarrow> 0 < n \<and> (Minus_Flag \<in> set fs \<or> Zero_Flag \<notin> set fs)"
  shows "number_text num base (case w of None \<Rightarrow> - 1 | Some w \<Rightarrow> int w) (case p of None \<Rightarrow> - 1 | Some n \<Rightarrow> int n) f
    = Some (digits_text fs w p upper base [] (unat num))"
proof -
  have "number_sign num f = Some (0, num)" using assms(1) by (simp add: number_sign_def)
  from number_text_digits [OF this assms(2-5) p, of w] show ?thesis by simp
qed

definition nat_field :: "int option \<Rightarrow> nat option" where "nat_field w = map_option (\<lambda>n. nat \<bar>n\<bar>) w"

definition nat_precision :: "int option \<Rightarrow> nat option" where
  "nat_precision p = (case p of None \<Rightarrow> None | Some n \<Rightarrow> if n < 0 then None else Some (nat n))"

lemma int_field_nat: "int_field w = (case nat_field w of None \<Rightarrow> - 1 | Some n \<Rightarrow> int n)"
  by (cases w) (simp_all add: int_field_def nat_field_def)

lemma number_precision:
  assumes "\<not> departs fs w p c a t" "is_number c"
  shows "int_precision p = (case nat_precision p of None \<Rightarrow> - 1 | Some n \<Rightarrow> int n)"
    "case nat_precision p of None \<Rightarrow> True | Some n \<Rightarrow> 0 < n \<and> (Minus_Flag \<in> set fs \<or> Zero_Flag \<notin> set fs \<and> (c = Conv_p \<longrightarrow> w \<noteq> None))"
  using assms by (auto simp: departs_def int_precision_def nat_precision_def split: option.splits)

lemma number_conv_text:
  assumes f: "flags_are f fs" and d: "\<not> departs fs w p c a t" and n: "is_number c" "c \<noteq> Conv_p"
    and t: "conversion_text strs fs (nat_field w) (nat_precision p) c a = Some t"
  shows "conv_text strs f (int_field w) (int_precision p) (fst (letter c)) (snd (letter c)) (a # args) = Some (t, args)"
proof -
  note p = number_precision [OF d n(1)]
  have p': "case nat_precision p of None \<Rightarrow> True | Some n \<Rightarrow> 0 < n \<and> (Minus_Flag \<in> set fs \<or> Zero_Flag \<notin> set fs)"
    using p(2) by (auto split: option.splits)
  have small: "\<not> is_smallest c a" using d by (simp add: departs_def)
  have "has LARGE LARGE" "\<not> has LARGE LEFT" "\<not> has LARGE ZEROPAD" "\<not> has LARGE SIGN" by (simp_all add: has_def)
  then have f1: "\<not> has f SIGN" "has f LEFT \<longleftrightarrow> Minus_Flag \<in> set fs" "has f ZEROPAD \<longleftrightarrow> Zero_Flag \<in> set fs" "has f LARGE \<longleftrightarrow> False"
    and f2: "\<not> has (f OR LARGE) SIGN" "has (f OR LARGE) LEFT \<longleftrightarrow> Minus_Flag \<in> set fs" "has (f OR LARGE) ZEROPAD \<longleftrightarrow> Zero_Flag \<in> set fs"
      "has (f OR LARGE) LARGE \<longleftrightarrow> True"
    using f by (auto simp: flags_are_def has_or_iff)
  note signed = number_text_signed [OF f _ p', of _ a "nat_field w"]
  note decimal = number_text_unsigned [OF f1(1) disjI1 [OF refl] f1(2-4) p', of _ "nat_field w"]
  note hex = number_text_unsigned [OF f1(1) disjI2 [OF refl] f1(2-4) p', of _ "nat_field w"]
  note large = number_text_unsigned [OF f2(1) disjI2 [OF refl] f2(2-4) p', of _ "nat_field w"]
  show ?thesis
    unfolding int_field_nat p(1)
    using n t small
    by (cases c) (simp_all add: conv_text_def number_format_def va_arg_def signed decimal hex large unat_number_arg f1(1) f2(1))
qed

lemma pointer_conv_text:
  assumes f: "flags_are f fs" and d: "\<not> departs fs w p Conv_p a t"
    and t: "conversion_text strs fs (nat_field w) (nat_precision p) Conv_p a = Some t"
  shows "conv_text strs f (int_field w) (int_precision p) 0 112 (a # args) = Some (t, args)"
proof -
  note p = number_precision [OF d, simplified]
  have z: "has ZEROPAD ZEROPAD" "\<not> has ZEROPAD LEFT" "\<not> has ZEROPAD LARGE" "\<not> has ZEROPAD SIGN" by (simp_all add: has_def)
  show ?thesis
  proof (cases w)
    case None
    have f1: "\<not> has (f OR ZEROPAD) SIGN" "has (f OR ZEROPAD) LEFT \<longleftrightarrow> Minus_Flag \<in> set (Zero_Flag # fs)"
      "has (f OR ZEROPAD) ZEROPAD \<longleftrightarrow> Zero_Flag \<in> set (Zero_Flag # fs)" "has (f OR ZEROPAD) LARGE \<longleftrightarrow> False"
      using f z by (auto simp: flags_are_def has_or_iff)
    have "case nat_precision p of None \<Rightarrow> True | Some n \<Rightarrow> 0 < n \<and> (Minus_Flag \<in> set (Zero_Flag # fs) \<or> Zero_Flag \<notin> set (Zero_Flag # fs))"
      using p(2) None by (auto split: option.splits)
    from number_text_unsigned [OF f1(1) disjI2 [OF refl] f1(2-4) this, of a "Some 8"] show ?thesis
      using None t p(1) by (simp add: conv_text_def va_arg_def int_field_def nat_field_def)
  next
    case (Some n)
    have f1: "\<not> has f SIGN" "has f LEFT \<longleftrightarrow> Minus_Flag \<in> set fs" "has f ZEROPAD \<longleftrightarrow> Zero_Flag \<in> set fs" "has f LARGE \<longleftrightarrow> False"
      using f by (auto simp: flags_are_def)
    have "case nat_precision p of None \<Rightarrow> True | Some n \<Rightarrow> 0 < n \<and> (Minus_Flag \<in> set fs \<or> Zero_Flag \<notin> set fs)"
      using p(2) by (auto split: option.splits)
    moreover have "\<bar>n\<bar> \<noteq> - 1" by arith
    ultimately show ?thesis
      using number_text_unsigned [OF f1(1) disjI2 [OF refl] f1(2-4), of "nat_precision p" a "nat_field w"]
        Some t p(1) by (simp add: conv_text_def va_arg_def int_field_def nat_field_def)
  qed
qed

lemma char_conv_text:
  assumes "flags_are f fs" "conversion_text strs fs (nat_field w) (nat_precision p) Conv_c a = Some t"
  shows "conv_text strs f (int_field w) (int_precision p) 0 99 (a # args) = Some (t, args)"
proof -
  have "nat (int_field w - 1) = (case nat_field w of None \<Rightarrow> 0 | Some w \<Rightarrow> w) - length [ucast a :: u8]"
    by (cases w) (auto simp: int_field_def nat_field_def)
  then show ?thesis
    using assms by (auto simp: conv_text_def va_arg_def char_text_def field_text_def Let_def flags_are_def)
qed

lemma string_conv_text:
  assumes f: "flags_are f fs" and d: "\<not> departs fs w p Conv_s a t"
    and t: "conversion_text strs fs (nat_field w) (nat_precision p) Conv_s a = Some t"
  shows "conv_text strs f (int_field w) (int_precision p) 0 115 (a # args) = Some (t, args)"
proof -
  obtain s where s: "strs a = Some s" using t by (auto split: Option.bind_splits)
  define u where "u = (case nat_precision p of None \<Rightarrow> s | Some p \<Rightarrow> take p s)"
  have t': "t = field_text fs False (nat_field w) [] u" using t s by (simp add: u_def)
  have p: "p \<noteq> Some 0" using d by (auto simp: departs_def)
  have wide: "case w of None \<Rightarrow> True | Some n \<Rightarrow> length u \<le> nat \<bar>n\<bar>"
    using d unfolding t' departs_def by (auto simp: field_text_def Let_def split: option.splits if_splits)
  have cut: "(if int_precision p > 0 then take (nat (int_precision p)) (if int_field w \<ge> 0 then take (nat (int_field w)) s else s)
      else (if int_field w \<ge> 0 then take (nat (int_field w)) s else s)) = u"
    using p wide unfolding u_def int_precision_def int_field_def nat_precision_def
    by (auto split: option.splits if_splits simp: min_def max_def)
  have "nat (int_field w - int (length u)) = (case nat_field w of None \<Rightarrow> 0 | Some w \<Rightarrow> w) - length u"
    by (cases w) (auto simp: int_field_def nat_field_def)
  then have "string_text s f (int_field w) (int_precision p) = t"
    using f unfolding string_text_def Let_def cut t' by (auto simp: field_text_def Let_def flags_are_def)
  then show ?thesis using s by (simp add: conv_text_def va_arg_def)
qed

lemma conv_text_piece:
  assumes "flags_are f fs" "\<not> departs fs w p c a t" "conversion_text strs fs (nat_field w) (nat_precision p) c a = Some t"
  shows "conv_text strs f (int_field w) (int_precision p) (fst (letter c)) (snd (letter c)) (a # args) = Some (t, args)"
proof (cases "is_number c \<and> c \<noteq> Conv_p")
  case True
  then show ?thesis using number_conv_text assms by blast
next
  case False
  then have "c = Conv_p \<or> c = Conv_c \<or> c = Conv_s" by (cases c) simp_all
  then show ?thesis using assms pointer_conv_text char_conv_text string_conv_text by fastforce
qed

text \<open>The text the code prints for the characters of a format is the one the standard gives the format.\<close>

lemma format_text_piece:
  assumes "piece_text strs x args = Some (t, args')"
  shows "format_text strs (piece_chars x @ rest) args = do { t' \<leftarrow> format_text strs rest args'; Some (t @ t') }"
proof (cases x)
  case (Lit c)
  have "vsn_spec (37 # rest) args = Some ((0, - 1, - 1, 0), 37 # rest, args)"
    by (simp add: vsn_spec_def vsn_width_def vsn_precision_def vsn_qualifier_def fch_def ISDIGIT_def)
  then show ?thesis using Lit assms by (cases "c = 37") (auto simp: fch_def conv_text_def split: if_splits)
next
  case (Dir fs w p c)
  obtain w' args1 p' a args2 where w: "w \<noteq> Number_Field 0" "field_value w args = Some (w', args1)" "field_value p args1 = Some (p', a # args2)"
    and t: "conversion_text strs (width_flags fs w') (nat_field w') (nat_precision p') c a = Some t"
    "\<not> departs (width_flags fs w') w' p' c a t" "args' = args2"
    using assms unfolding Dir
    by (auto simp: width_flags_def nat_field_def nat_precision_def Let_def split: if_splits Option.bind_splits list.splits)
  have "w' \<noteq> Some (- 2147483648)" using t(2) by (simp add: departs_def)
  from vsn_spec_chars [OF w(2) this w(1,3)] obtain f where
    "vsn_spec (map flag_char fs @ field_chars w @ precision_chars p @ conversion_chars c @ rest) args
      = Some ((f, int_field w', int_precision p', fst (letter c)), snd (letter c) # rest, a # args2)" "flags_are f (width_flags fs w')"
    by blast
  then show ?thesis using conv_text_piece [OF _ t(2,1)] t(3) unfolding Dir by (simp add: fch_def)
qed

lemma format_text_pieces: "pieces_text strs ps args = Some t \<Longrightarrow> format_text strs (format_chars ps) args = Some t"
proof (induction ps arbitrary: args t)
  case (Cons x ps)
  then obtain t1 args1 t2 where "piece_text strs x args = Some (t1, args1)" "pieces_text strs ps args1 = Some t2" "t = t1 @ t2"
    by (auto split: Option.bind_splits)
  then show ?case using Cons.IH format_text_piece by (simp add: format_chars_def)
qed (simp add: format_chars_def)


lemma positional_u32_length: "length (positional False 10 (unat (n :: u32))) \<le> 10"
  using u32_numeral_text_length [of small_digits 10 n] numeral_text_positional [of 10 False "unat n"] by (simp add: radix_def)

lemma signed_decimal_text:
  assumes "x \<noteq> 0x80000000"
  shows "pieces_text strs [Dir [] No_Field No_Field (Conv_d Plain)] [x]
    = Some ((if sint x < 0 then [45] else []) @ positional False 10 (nat \<bar>sint x\<bar>))"
proof -
  have "sint x \<noteq> - 2147483648"
  proof
    assume "sint x = - 2147483648"
    then have "sint x = sint (0x80000000 :: u32)" by simp
    then show False using assms using signed_word_eqI by blast
  qed
  moreover have "1 \<le> length (positional False 10 (nat \<bar>sint x\<bar>))"
    using positional_length [of False 10 "nat \<bar>sint x\<bar>"] by linarith
  ultimately show ?thesis by (simp add: departs_def signed_text_def digits_text_def field_text_def Let_def)
qed

lemma blit_read: "blit m a xs = Some m' \<Longrightarrow> take (length xs) (drop a m') = xs"
  by (auto simp: blit_def split: if_splits)

subsection \<open>Properties\<close>



text \<open>C25: Numbers survive being printed and read: \<open>%d\<close> prints every word but \<open>0x80000000\<close> into a buffer of at least 12 bytes
  as a string that is the decimal numeral of its signed value, without zeros in front and behind a minus sign when it is
  negative, and returns its length; the kernel's reader of numbers gives the value of the digits back, up to
  \<open>2 ^ 31 - 49\<close>, from where on its addition of a digit overflows.\<close>

theorem printed_number_read_back:
  assumes "buf + n \<le> length m" "length m < 2 ^ 32" "12 \<le> n" "x \<noteq> 0x80000000"
  shows "\<exists>m' ds. rt_vsnprintf m buf n [37, 100] [x] = Some (m', (if sint x < 0 then 1 else 0) + length ds)
    \<and> string_at m' buf ((if sint x < 0 then [45] else []) @ ds)
    \<and> decimal_numeral ds \<bar>sint x\<bar>
    \<and> (\<bar>sint x\<bar> \<le> 2147483599 \<longrightarrow> skip_atoi 0 ds = Some (\<bar>sint x\<bar>, []))"
proof -
  let ?ds = "positional False 10 (nat \<bar>sint x\<bar>)" and ?sg = "if sint x < 0 then [45] else [] :: cstring"
  have "format_chars [Dir [] No_Field No_Field (Conv_d Plain)] = [37, 100]" by (simp add: format_chars_def precision_chars_def)
  then have "format_text (\<lambda>_. None) [37, 100] [x] = Some (?sg @ ?ds)"
    using format_text_pieces [OF signed_decimal_text [OF assms(4)]] by simp
  moreover have "strings_outside m buf (buf + n) (\<lambda>_. None)" by (simp add: strings_outside_def)
  ultimately obtain m' where m': "rt_vsnprintf m buf n [37, 100] [x] = Some (m', length (?sg @ ?ds))" "blit m buf (take (n - 1) (?sg @ ?ds) @ [0]) = Some m'"
    using rt_vsnprintf_text [OF assms(1,2)] assms(3) by fastforce
  have "nat \<bar>sint x\<bar> = unat (if sint x < 0 then - x else x)" using sint_abs [of x] by auto
  then have "length ?ds \<le> 10" using positional_u32_length [of "if sint x < 0 then - x else x"] by simp
  moreover have "length ?sg \<le> 1" by simp
  ultimately have "length (?sg @ ?ds) \<le> n - 1" unfolding length_append using assms(3) by linarith
  then have "take (n - 1) (?sg @ ?ds) = ?sg @ ?ds" by (rule take_all)
  then have at: "take (length (?sg @ ?ds) + 1) (drop buf m') = (?sg @ ?ds) @ [0]" using blit_read [OF m'(2)] by simp
  have num: "decimal_numeral ?ds \<bar>sint x\<bar>" using positional_decimal [of "nat \<bar>sint x\<bar>"] by simp
  then have "0 \<notin> set (?sg @ ?ds)" by (fastforce simp: decimal_numeral_def)
  then have "string_at m' buf (?sg @ ?ds)" using at by (simp only: string_at_def simp_thms)
  moreover have "skip_atoi 0 ?ds = Some (\<bar>sint x\<bar>, [])" if "\<bar>sint x\<bar> \<le> 2147483599"
    using skip_atoi_number [of "nat \<bar>sint x\<bar>" "[]"] that by (simp add: fch_def ISDIGIT_def)
  ultimately show ?thesis using m'(1) num by (intro exI [of _ m'] exI [of _ ?ds]) simp
qed

theorem printed_number_read_back_witness:
  "\<exists>m' ds. rt_vsnprintf (replicate 12 7) 0 12 [37, 100] [- 120] = Some (m', 1 + length ds) \<and> string_at m' 0 (45 # ds)
    \<and> decimal_numeral ds 120 \<and> skip_atoi 0 ds = Some (120, [])"
  using printed_number_read_back [of 0 12 "replicate 12 7" "- 120"] by auto



subsection \<open>Where the text is not what a reader of the format expects\<close>

text \<open>
  Octal numbers come out in base 16, as the division knows the bases 10 and 16 only; a precision of 0 drops every digit
  of a number and not only those of zero; a field width cuts a longer string, where it should be the least width;
  the flag \<open>0\<close> is not ignored when there is a precision, and the smallest number cannot be printed.
\<close>

lemma octal_is_hexadecimal: "vsn_loop 4 [37, 111] [255] ([7, 7, 7, 7], 0) = Some ([102, 102, 7, 7], 2)" by code_simp

lemma precision_zero_drops_digits: "vsn_loop 4 [37, 46, 48, 100] [5] ([7, 7, 7, 7], 0) = Some ([7, 7, 7, 7], 0)" by code_simp

lemma width_cuts_string:
  "vsn_loop 4 [37, 50, 115] [4] ([7, 7, 7, 7, 65, 66, 67, 0], 0) = Some ([65, 66, 7, 7, 65, 66, 67, 0], 2)" by code_simp

lemma zero_flag_with_precision:
  "vsn_loop 8 [37, 48, 52, 46, 50, 100] [5] (replicate 8 7, 0) = Some ([48, 48, 48, 53, 7, 7, 7, 7], 4)"
  "conversion_text strs [Zero_Flag] (Some 4) (Some 2) (Conv_d Plain) 5 = Some [32, 32, 48, 53]"
  by code_simp+

lemma smallest_number_undefined: "vsn_loop 4 [37, 100] [0x80000000] ([7, 7, 7, 7], 0) = None" by code_simp

end
