(* ===== verification/Device.thy ===== *)
theory Device
  imports Kprint Kernel
begin

text \<open>
  The registry of kernel objects (\<open>rt-thread/src/object.c\<close>), the switch of the devices (\<open>rt-thread/src/device.c\<close>) and the choice of
  the console (\<open>rt_console_set_device\<close> in \<open>kservice.c\<close>), as configured here: no modules, no POSIX devices, the operations of a
  device in its structure. Objects are known by their address, 0 being the null pointer. The list of a class is
  the list of its objects, the newest first. What a driver does is the parameter \<open>drv\<close>: for each device the
  functions of its structure, each missing or a function on the whole state; the calls made to them are recorded in
  \<open>calls\<close>. The hooks are unset; the lock of the scheduler and the disabled interrupts have no effect on the registry.

  \<open>None\<close> is a failed assertion, or an object whose links are not those of a list.
\<close>

subsection \<open>Objects\<close>

definition RT_NAME_MAX :: nat where "RT_NAME_MAX = 8"
definition RT_Object_Class_Device :: u8 where "RT_Object_Class_Device = 9"
definition RT_Object_Class_Static :: u8 where "RT_Object_Class_Static = 0x80"

text \<open>The classes that have a list: threads, semaphores, mutexes, events, mailboxes, message queues, devices, timers, memories.\<close>

definition object_container :: "u8 list" where "object_container = [1, 2, 3, 4, 5, 6, 9, 10, 12]"

text \<open>\<open>obj_linked\<close>: the links of the node are those of a list, or of the node itself.\<close>

record rt_object =
  obj_name :: "u8 list"
  obj_type :: u8
  obj_flag :: u8
  obj_linked :: bool

record rt_device =
  flag :: u16
  open_flag :: u16
  ref_count :: u8
  rx_indicate :: "nat option"
  tx_complete :: "nat option"

datatype dev_call =
    Init nat
  | Open nat u16
  | Close nat
  | Read nat int nat
  | Write nat int "u8 list"
  | Control nat int nat
  | Output "u8 list"

record devices =
  object_list :: "u8 \<Rightarrow> nat list"
  objects :: "nat \<Rightarrow> rt_object"
  devs :: "nat \<Rightarrow> rt_device"
  console_device :: nat
  errno :: int
  in_interrupt :: bool
  freed :: "nat list"
  calls :: "dev_call list"

record driver =
  drv_init :: "(devices \<Rightarrow> int \<times> devices) option"
  drv_open :: "(u16 \<Rightarrow> devices \<Rightarrow> int \<times> devices) option"
  drv_close :: "(devices \<Rightarrow> int \<times> devices) option"
  drv_read :: "(int \<Rightarrow> nat \<Rightarrow> devices \<Rightarrow> u8 list \<times> devices) option"
  drv_write :: "(int \<Rightarrow> u8 list \<Rightarrow> devices \<Rightarrow> nat \<times> devices) option"
  drv_control :: "(int \<Rightarrow> nat \<Rightarrow> devices \<Rightarrow> int \<times> devices) option"

definition upd_obj :: "nat \<Rightarrow> (rt_object \<Rightarrow> rt_object) \<Rightarrow> devices \<Rightarrow> devices" where
  "upd_obj ob f s = s\<lparr>objects := (objects s)(ob := f (objects s ob))\<rparr>"

definition upd_dev :: "nat \<Rightarrow> (rt_device \<Rightarrow> rt_device) \<Rightarrow> devices \<Rightarrow> devices" where
  "upd_dev d f s = s\<lparr>devs := (devs s)(d := f (devs s d))\<rparr>"

definition called :: "dev_call \<Rightarrow> devices \<Rightarrow> devices" where
  "called c s = s\<lparr>calls := calls s @ [c]\<rparr>"

definition rt_object_get_information :: "u8 \<Rightarrow> bool" where
  "rt_object_get_information type \<longleftrightarrow> type \<in> set object_container"

definition rt_object_get_length :: "u8 \<Rightarrow> devices \<Rightarrow> nat" where
  "rt_object_get_length type s = (if rt_object_get_information type then length (object_list s type) else 0)"

text \<open>The pointers stored; their number is returned.\<close>

definition rt_object_get_pointers :: "u8 \<Rightarrow> int \<Rightarrow> devices \<Rightarrow> nat list" where
  "rt_object_get_pointers type maxlen s =
     (if maxlen \<le> 0 then [] else if \<not> rt_object_get_information type then [] else take (nat maxlen) (object_list s type))"

definition rt_object_get_type :: "nat \<Rightarrow> devices \<Rightarrow> u8 option" where
  "rt_object_get_type ob s = do { rt_assert (ob \<noteq> 0); Some (obj_type (objects s ob) AND NOT RT_Object_Class_Static) }"

definition rt_object_is_systemobject :: "nat \<Rightarrow> devices \<Rightarrow> bool option" where
  "rt_object_is_systemobject ob s = do { rt_assert (ob \<noteq> 0); Some (obj_type (objects s ob) AND RT_Object_Class_Static \<noteq> 0) }"

text \<open>\<open>rt_strncpy\<close> into the name of an object, and \<open>rt_strncmp\<close> with it: the memory is the name followed by the string.\<close>

definition copy_name :: "u8 list \<Rightarrow> cstring \<Rightarrow> u8 list option" where
  "copy_name old name = map_option (take RT_NAME_MAX) (rt_strncpy (old @ name @ [0]) 0 RT_NAME_MAX RT_NAME_MAX)"

definition name_compare :: "u8 list \<Rightarrow> cstring \<Rightarrow> int option" where
  "name_compare stored name = rt_strncmp (stored @ name @ [0]) 0 RT_NAME_MAX RT_NAME_MAX"

definition in_some_list :: "nat \<Rightarrow> devices \<Rightarrow> bool" where
  "in_some_list ob s \<longleftrightarrow> (\<exists>c \<in> set object_container. ob \<in> set (object_list s c))"

text \<open>Inserting a node that is in a list already would tear that list.\<close>

definition object_insert :: "u8 \<Rightarrow> nat \<Rightarrow> devices \<Rightarrow> devices option" where
  "object_insert type ob s =
     do { rt_assert (\<not> in_some_list ob s);
          let s = upd_obj ob (\<lambda>r. r\<lparr>obj_linked := True\<rparr>) s;
          Some (s\<lparr>object_list := (object_list s)(type := ob # object_list s type)\<rparr>) }"

definition object_unlink :: "nat \<Rightarrow> devices \<Rightarrow> devices option" where
  "object_unlink ob s =
     do { rt_assert (obj_linked (objects s ob));
          Some (s\<lparr>object_list := (\<lambda>c. removeAll ob (object_list s c))\<rparr>) }"

definition rt_object_init :: "nat \<Rightarrow> u8 \<Rightarrow> cstring option \<Rightarrow> devices \<Rightarrow> devices option" where
  "rt_object_init ob type name s =
     do { rt_assert (rt_object_get_information type);
          rt_assert (ob \<notin> set (object_list s type));
          let s = upd_obj ob (\<lambda>r. r\<lparr>obj_type := type OR RT_Object_Class_Static\<rparr>) s;
          name \<leftarrow> name;
          stored \<leftarrow> copy_name (obj_name (objects s ob)) name;
          let s = upd_obj ob (\<lambda>r. r\<lparr>obj_name := stored\<rparr>) s;
          object_insert type ob s }"

definition rt_object_detach :: "nat \<Rightarrow> devices \<Rightarrow> devices option" where
  "rt_object_detach ob s =
     do { rt_assert (ob \<noteq> 0);
          let s = upd_obj ob (\<lambda>r. r\<lparr>obj_type := 0\<rparr>) s;
          object_unlink ob s }"

text \<open>\<open>mem\<close> is what the heap returns, 0 for no memory. The second component is the new object, or the null pointer.\<close>

definition zero_object :: rt_object where
  "zero_object = \<lparr>obj_name = replicate RT_NAME_MAX 0, obj_type = 0, obj_flag = 0, obj_linked = False\<rparr>"

definition rt_object_allocate :: "nat \<Rightarrow> u8 \<Rightarrow> cstring option \<Rightarrow> devices \<Rightarrow> (devices \<times> nat) option" where
  "rt_object_allocate mem type name s =
     do { rt_assert (\<not> in_interrupt s);
          rt_assert (rt_object_get_information type);
          if mem = 0 then Some (s, 0)
          else do {
            let s = upd_obj mem (\<lambda>_. zero_object) s;
            let s = upd_obj mem (\<lambda>r. r\<lparr>obj_type := type, obj_flag := 0\<rparr>) s;
            name \<leftarrow> name;
            stored \<leftarrow> copy_name (obj_name (objects s mem)) name;
            let s = upd_obj mem (\<lambda>r. r\<lparr>obj_name := stored\<rparr>) s;
            s \<leftarrow> object_insert type mem s;
            Some (s, mem) } }"

definition rt_object_delete :: "nat \<Rightarrow> devices \<Rightarrow> devices option" where
  "rt_object_delete ob s =
     do { rt_assert (ob \<noteq> 0);
          rt_assert (obj_type (objects s ob) AND RT_Object_Class_Static = 0);
          let s = upd_obj ob (\<lambda>r. r\<lparr>obj_type := 0\<rparr>) s;
          s \<leftarrow> object_unlink ob s;
          Some (s\<lparr>freed := freed s @ [ob]\<rparr>) }"

fun find_object :: "(nat \<Rightarrow> rt_object) \<Rightarrow> cstring \<Rightarrow> nat list \<Rightarrow> nat option" where
  "find_object objs name [] = Some 0"
| "find_object objs name (ob # obs) =
     do { r \<leftarrow> name_compare (obj_name (objs ob)) name;
          if r = 0 then Some ob else find_object objs name obs }"

definition rt_object_find :: "cstring option \<Rightarrow> u8 \<Rightarrow> devices \<Rightarrow> nat option" where
  "rt_object_find name type s =
     (case name of None \<Rightarrow> Some 0
      | Some n \<Rightarrow>
          if \<not> rt_object_get_information type then Some 0
          else do { rt_assert (\<not> in_interrupt s); find_object (objects s) n (object_list s type) })"

subsection \<open>Devices\<close>

definition RT_DEVICE_FLAG_RDWR :: u16 where "RT_DEVICE_FLAG_RDWR = 3"
definition RT_DEVICE_FLAG_STANDALONE :: u16 where "RT_DEVICE_FLAG_STANDALONE = 8"
definition RT_DEVICE_FLAG_ACTIVATED :: u16 where "RT_DEVICE_FLAG_ACTIVATED = 0x10"
definition RT_DEVICE_FLAG_STREAM :: u16 where "RT_DEVICE_FLAG_STREAM = 0x40"
definition RT_DEVICE_OFLAG_CLOSE :: u16 where "RT_DEVICE_OFLAG_CLOSE = 0"
definition RT_DEVICE_OFLAG_RDWR :: u16 where "RT_DEVICE_OFLAG_RDWR = 3"
definition RT_DEVICE_OFLAG_OPEN :: u16 where "RT_DEVICE_OFLAG_OPEN = 8"
definition RT_DEVICE_OFLAG_MASK :: u16 where "RT_DEVICE_OFLAG_MASK = 0xf0f"
definition RT_ENOSYS :: int where "RT_ENOSYS = 6"
definition RT_EBUSY :: int where "RT_EBUSY = 7"

definition rt_device_find :: "cstring option \<Rightarrow> devices \<Rightarrow> nat option" where
  "rt_device_find name s = rt_object_find name RT_Object_Class_Device s"

definition rt_device_register :: "nat \<Rightarrow> cstring option \<Rightarrow> u16 \<Rightarrow> devices \<Rightarrow> (devices \<times> int) option" where
  "rt_device_register dev name flags s =
     (if dev = 0 then Some (s, - RT_ERROR)
      else do {
        d \<leftarrow> rt_device_find name s;
        if d \<noteq> 0 then Some (s, - RT_ERROR)
        else do {
          s \<leftarrow> rt_object_init dev RT_Object_Class_Device name s;
          let s = upd_dev dev (\<lambda>r. r\<lparr>flag := flags, ref_count := 0, open_flag := 0\<rparr>) s;
          Some (s, RT_EOK) } })"

text \<open>\<open>RT_ASSERT(rt_object_get_type(&dev->parent) == RT_Object_Class_Device)\<close>\<close>

definition assert_device :: "nat \<Rightarrow> devices \<Rightarrow> unit option" where
  "assert_device dev s =
     do { rt_assert (dev \<noteq> 0); t \<leftarrow> rt_object_get_type dev s; rt_assert (t = RT_Object_Class_Device) }"

definition rt_device_unregister :: "nat \<Rightarrow> devices \<Rightarrow> (devices \<times> int) option" where
  "rt_device_unregister dev s =
     do { assert_device dev s;
          b \<leftarrow> rt_object_is_systemobject dev s;
          rt_assert b;
          s \<leftarrow> rt_object_detach dev s;
          Some (s, RT_EOK) }"

definition zero_device :: rt_device where
  "zero_device = \<lparr>flag = 0, open_flag = 0, ref_count = 0, rx_indicate = None, tx_complete = None\<rparr>"

definition rt_device_create :: "nat \<Rightarrow> devices \<Rightarrow> devices \<times> nat" where
  "rt_device_create mem s =
     (if mem \<noteq> 0 then (upd_dev mem (\<lambda>_. zero_device) (upd_obj mem (\<lambda>_. zero_object) s), mem) else (s, 0))"

definition rt_device_destroy :: "nat \<Rightarrow> devices \<Rightarrow> devices option" where
  "rt_device_destroy dev s =
     do { assert_device dev s;
          b \<leftarrow> rt_object_is_systemobject dev s;
          rt_assert (b = False);
          s \<leftarrow> rt_object_detach dev s;
          Some (s\<lparr>freed := freed s @ [dev]\<rparr>) }"

definition activated :: "nat \<Rightarrow> devices \<Rightarrow> bool" where
  "activated dev s \<longleftrightarrow> flag (devs s dev) AND RT_DEVICE_FLAG_ACTIVATED \<noteq> 0"

definition activate :: "nat \<Rightarrow> devices \<Rightarrow> devices" where
  "activate dev = upd_dev dev (\<lambda>r. r\<lparr>flag := flag r OR RT_DEVICE_FLAG_ACTIVATED\<rparr>)"

definition rt_device_init :: "(nat \<Rightarrow> driver) \<Rightarrow> nat \<Rightarrow> devices \<Rightarrow> (devices \<times> int) option" where
  "rt_device_init drv dev s =
     do { rt_assert (dev \<noteq> 0);
          case drv_init (drv dev) of None \<Rightarrow> Some (s, RT_EOK)
          | Some f \<Rightarrow>
              if \<not> activated dev s then
                (let (result, s) = f (called (Init dev) s) in
                 if result \<noteq> RT_EOK then Some (s, result) else Some (activate dev s, result))
              else Some (s, RT_EOK) }"

text \<open>Initialising on the first open: an error is passed on.\<close>

definition open_init :: "(nat \<Rightarrow> driver) \<Rightarrow> nat \<Rightarrow> devices \<Rightarrow> devices \<times> int" where
  "open_init drv dev s =
     (if \<not> activated dev s then
        (case drv_init (drv dev) of None \<Rightarrow> (activate dev s, RT_EOK)
         | Some f \<Rightarrow>
             (let (result, s) = f (called (Init dev) s) in
              if result \<noteq> RT_EOK then (s, result) else (activate dev s, RT_EOK)))
      else (s, RT_EOK))"

definition rt_device_open :: "(nat \<Rightarrow> driver) \<Rightarrow> nat \<Rightarrow> u16 \<Rightarrow> devices \<Rightarrow> (devices \<times> int) option" where
  "rt_device_open drv dev oflag s =
     do { assert_device dev s;
          let (s, result) = open_init drv dev s;
          if result \<noteq> RT_EOK then Some (s, result)
          else if flag (devs s dev) AND RT_DEVICE_FLAG_STANDALONE \<noteq> 0 \<and> open_flag (devs s dev) AND RT_DEVICE_OFLAG_OPEN \<noteq> 0
          then Some (s, - RT_EBUSY)
          else do {
            let (result, s) = (case drv_open (drv dev) of
                Some f \<Rightarrow> f oflag (called (Open dev oflag) s)
              | None \<Rightarrow> (RT_EOK, upd_dev dev (\<lambda>r. r\<lparr>open_flag := oflag AND RT_DEVICE_OFLAG_MASK\<rparr>) s));
            if result = RT_EOK \<or> result = - RT_ENOSYS then do {
              let s = upd_dev dev (\<lambda>r. r\<lparr>open_flag := open_flag r OR RT_DEVICE_OFLAG_OPEN\<rparr>) s;
              let s = upd_dev dev (\<lambda>r. r\<lparr>ref_count := ref_count r + 1\<rparr>) s;
              rt_assert (ref_count (devs s dev) \<noteq> 0);
              Some (s, result) }
            else Some (s, result) } }"

definition rt_device_close :: "(nat \<Rightarrow> driver) \<Rightarrow> nat \<Rightarrow> devices \<Rightarrow> (devices \<times> int) option" where
  "rt_device_close drv dev s =
     do { assert_device dev s;
          if ref_count (devs s dev) = 0 then Some (s, - RT_ERROR)
          else do {
            let s = upd_dev dev (\<lambda>r. r\<lparr>ref_count := ref_count r - 1\<rparr>) s;
            if ref_count (devs s dev) \<noteq> 0 then Some (s, RT_EOK)
            else do {
              let (result, s) = (case drv_close (drv dev) of
                  Some f \<Rightarrow> f (called (Close dev) s) | None \<Rightarrow> (RT_EOK, s));
              if result = RT_EOK \<or> result = - RT_ENOSYS
              then Some (upd_dev dev (\<lambda>r. r\<lparr>open_flag := RT_DEVICE_OFLAG_CLOSE\<rparr>) s, result)
              else Some (s, result) } } }"

text \<open>The error number is that of the running thread.\<close>

definition rt_set_errno :: "int \<Rightarrow> devices \<Rightarrow> devices" where "rt_set_errno e s = s\<lparr>errno := e\<rparr>"

text \<open>The bytes read; their number is returned.\<close>

definition rt_device_read :: "(nat \<Rightarrow> driver) \<Rightarrow> nat \<Rightarrow> int \<Rightarrow> nat \<Rightarrow> devices \<Rightarrow> (devices \<times> u8 list) option" where
  "rt_device_read drv dev pos n s =
     do { assert_device dev s;
          if ref_count (devs s dev) = 0 then Some (rt_set_errno (- RT_ERROR) s, [])
          else (case drv_read (drv dev) of
              Some f \<Rightarrow> (let (bs, s) = f pos n (called (Read dev pos n) s) in Some (s, bs))
            | None \<Rightarrow> Some (rt_set_errno (- RT_ENOSYS) s, [])) }"

definition rt_device_write :: "(nat \<Rightarrow> driver) \<Rightarrow> nat \<Rightarrow> int \<Rightarrow> u8 list \<Rightarrow> devices \<Rightarrow> (devices \<times> nat) option" where
  "rt_device_write drv dev pos bs s =
     do { assert_device dev s;
          if ref_count (devs s dev) = 0 then Some (rt_set_errno (- RT_ERROR) s, 0)
          else (case drv_write (drv dev) of
              Some f \<Rightarrow> (let (n, s) = f pos bs (called (Write dev pos bs) s) in Some (s, n))
            | None \<Rightarrow> Some (rt_set_errno (- RT_ENOSYS) s, 0)) }"

definition rt_device_control :: "(nat \<Rightarrow> driver) \<Rightarrow> nat \<Rightarrow> int \<Rightarrow> nat \<Rightarrow> devices \<Rightarrow> (devices \<times> int) option" where
  "rt_device_control drv dev cmd arg s =
     do { assert_device dev s;
          case drv_control (drv dev) of
            Some f \<Rightarrow> (let (result, s) = f cmd arg (called (Control dev cmd arg) s) in Some (s, result))
          | None \<Rightarrow> Some (s, - RT_ENOSYS) }"

definition rt_device_set_rx_indicate :: "nat \<Rightarrow> nat option \<Rightarrow> devices \<Rightarrow> (devices \<times> int) option" where
  "rt_device_set_rx_indicate dev rx_ind s =
     do { assert_device dev s; Some (upd_dev dev (\<lambda>r. r\<lparr>rx_indicate := rx_ind\<rparr>) s, RT_EOK) }"

definition rt_device_set_tx_complete :: "nat \<Rightarrow> nat option \<Rightarrow> devices \<Rightarrow> (devices \<times> int) option" where
  "rt_device_set_tx_complete dev tx_done s =
     do { assert_device dev s; Some (upd_dev dev (\<lambda>r. r\<lparr>tx_complete := tx_done\<rparr>) s, RT_EOK) }"

subsection \<open>The console\<close>

definition rt_console_set_device :: "(nat \<Rightarrow> driver) \<Rightarrow> cstring option \<Rightarrow> devices \<Rightarrow> (devices \<times> nat) option" where
  "rt_console_set_device drv name s =
     do { let old = console_device s;
          new \<leftarrow> rt_device_find name s;
          if new = old then Some (s, 0)
          else if new \<noteq> 0 then do {
            s \<leftarrow> (if console_device s \<noteq> 0 then map_option fst (rt_device_close drv (console_device s) s) else Some s);
            s \<leftarrow> map_option fst (rt_device_open drv new (RT_DEVICE_OFLAG_RDWR OR RT_DEVICE_FLAG_STREAM) s);
            Some (s\<lparr>console_device := new\<rparr>, old) }
          else Some (s, old) }"

text \<open>What \<open>rt_kprintf\<close> puts out, given to the console.\<close>

definition console_put :: "(nat \<Rightarrow> driver) \<Rightarrow> console_out \<Rightarrow> devices \<Rightarrow> devices option" where
  "console_put drv out s =
     (case out of Console_Output bs \<Rightarrow> Some (called (Output bs) s)
      | Device_Write d bs \<Rightarrow> map_option fst (rt_device_write drv d 0 bs s))"

end
