(* ===== verification/Device_Props.thy ===== *)
theory Device_Props
  imports Device
begin

text \<open>
  The registry keeps its lists apart and the names of the devices different, through every sequence of calls; a device is
  found by the first eight characters of its name. Opening and closing count the users of a device, and the driver
  sees the first and the last of them.
\<close>

subsection \<open>Names\<close>

definition name8 :: "cstring \<Rightarrow> u8 list" where "name8 n = take 8 (n @ replicate 8 0)"

lemma length_name8 [simp]: "length (name8 n) = 8" by (simp add: name8_def)

lemma name8_chars: "0 \<notin> set n \<Longrightarrow> takeWhile (\<lambda>c. c \<noteq> 0) (name8 n) = take 8 n"
proof -
  assume n: "0 \<notin> set n"
  have t: "\<forall>c \<in> set (take 8 n). c \<noteq> 0" using n in_set_takeD by metis
  have "name8 n = take 8 n @ replicate (8 - length n) 0" by (simp add: name8_def)
  then show ?thesis using t by (simp add: takeWhile_append takeWhile_replicate)
qed

lemma name8_eq: "0 \<notin> set n \<Longrightarrow> 0 \<notin> set n' \<Longrightarrow> name8 n = name8 n' \<longleftrightarrow> take 8 n = take 8 n'"
proof
  assume "0 \<notin> set n" "0 \<notin> set n'" "name8 n = name8 n'"
  then show "take 8 n = take 8 n'" using name8_chars by metis
next
  assume e: "take 8 n = take 8 n'"
  have "min (length n) 8 = min (length n') 8" using arg_cong [OF e, of length] by simp
  then have "8 - length n = 8 - length n'" by linarith
  then show "name8 n = name8 n'" using e by (simp add: name8_def)
qed

lemma copy_name_name8:
  assumes "length old = 8" "0 \<notin> set n"
  shows "copy_name old n = Some (name8 n)"
proof -
  let ?m = "old @ n @ [0]"
  have s: "string_at ?m 8 n" using assms by (simp add: string_at_def)
  have "rt_strncpy ?m 0 8 8 = blit ?m 0 (take 8 (n @ replicate 8 0))" using assms(1) by (intro rt_strncpy_copies [OF s]) simp_all
  then show ?thesis using assms(1) unfolding name8_def [symmetric] by (simp add: copy_name_def RT_NAME_MAX_def blit_def)
qed

lemma name_compare_name8:
  assumes "0 \<notin> set n" "0 \<notin> set n'"
  shows "\<exists>r. name_compare (name8 n) n' = Some r \<and> (r = 0 \<longleftrightarrow> name8 n = name8 n')"
proof -
  let ?m = "name8 n @ n' @ [0]" and ?t = "if length n < 8 then n else take 8 n @ n'"
  have "string_at ?m 8 n'" using assms(2) by (simp add: string_at_def)
  moreover have "string_at ?m 0 ?t"
  proof (cases "length n < 8")
    case True
    then have "take (length n + 1) (name8 n) = n @ [0]" by (simp add: name8_def min_def)
    then show ?thesis using True assms(1) by (simp add: string_at_def)
  next
    case False
    then show ?thesis using assms by (auto simp: string_at_def name8_def dest: in_set_takeD)
  qed
  ultimately obtain r where "rt_strncmp ?m 0 8 8 = Some r" "r = 0 \<longleftrightarrow> take 8 ?t = take 8 n'" using rt_strncmp_string by blast
  moreover have "take 8 ?t = take 8 n" by simp
  ultimately show ?thesis using name8_eq [OF assms] by (simp add: name_compare_def RT_NAME_MAX_def)
qed

subsection \<open>The invariant of the registry\<close>

definition object_ok :: "u8 \<Rightarrow> rt_object \<Rightarrow> bool" where
  "object_ok c r \<longleftrightarrow> obj_linked r \<and> obj_type r AND NOT 0x80 = c \<and> (\<exists>n. 0 \<notin> set n \<and> obj_name r = name8 n)"

definition lists_ok :: "(u8 \<Rightarrow> nat list) \<Rightarrow> (nat \<Rightarrow> rt_object) \<Rightarrow> bool" where
  "lists_ok ls objs \<longleftrightarrow>
     (\<forall>c. distinct (ls c) \<and> (c \<notin> set object_container \<longrightarrow> ls c = []) \<and> (\<forall>ob \<in> set (ls c). ob \<noteq> 0 \<and> object_ok c (objs ob)))"

definition names_differ :: "nat list \<Rightarrow> (nat \<Rightarrow> rt_object) \<Rightarrow> bool" where
  "names_differ obs objs \<longleftrightarrow> (\<forall>ob \<in> set obs. \<forall>ob' \<in> set obs. obj_name (objs ob) = obj_name (objs ob') \<longrightarrow> ob = ob')"

definition registry_ok :: "devices \<Rightarrow> bool" where
  "registry_ok s \<longleftrightarrow> lists_ok (object_list s) (objects s) \<and> names_differ (object_list s RT_Object_Class_Device) (objects s) \<and>
     (\<forall>ob. length (obj_name (objects s ob)) = 8 \<and> obj_type (objects s ob) \<noteq> RT_Object_Class_Device)"

lemma registry_cong:
  "object_list s' = object_list s \<Longrightarrow> objects s' = objects s \<Longrightarrow> registry_ok s' = registry_ok s"
  by (simp add: registry_ok_def)

lemma in_some_list_iff: "registry_ok s \<Longrightarrow> in_some_list ob s \<longleftrightarrow> (\<exists>c. ob \<in> set (object_list s c))"
  unfolding in_some_list_def registry_ok_def lists_ok_def by (metis empty_iff list.set(1))

text \<open>An object that is in no list may change; one leaves its list; one enters a list.\<close>

lemma registry_free_object:
  assumes "registry_ok s" "\<not> in_some_list ob s" "length (obj_name r) = 8" "obj_type r \<noteq> RT_Object_Class_Device"
  shows "registry_ok (s\<lparr>objects := (objects s)(ob := r)\<rparr>)"
proof -
  have "ob \<notin> set (object_list s c)" for c using assms(1,2) in_some_list_iff by blast
  then show ?thesis using assms unfolding registry_ok_def lists_ok_def names_differ_def by auto
qed

lemma registry_unlink:
  assumes "registry_ok s" "length (obj_name r) = 8" "obj_type r \<noteq> RT_Object_Class_Device"
  shows "registry_ok (s\<lparr>objects := (objects s)(ob := r), object_list := (\<lambda>c. removeAll ob (object_list s c))\<rparr>)"
  using assms unfolding registry_ok_def lists_ok_def names_differ_def by (auto simp: distinct_removeAll)

lemma registry_enter:
  assumes ok: "registry_ok s" "\<not> in_some_list ob s" and c: "c \<in> set object_container" "ob \<noteq> 0" "object_ok c r" "obj_type r \<noteq> RT_Object_Class_Device"
    and new: "c = RT_Object_Class_Device \<longrightarrow> (\<forall>ob' \<in> set (object_list s c). obj_name (objects s ob') \<noteq> obj_name r)"
  shows "registry_ok (s\<lparr>objects := (objects s)(ob := r), object_list := (object_list s)(c := ob # object_list s c)\<rparr>)"
proof -
  have n: "ob \<notin> set (object_list s c)" for c using ok in_some_list_iff by blast
  have "length (obj_name r) = 8" using c(3) by (auto simp: object_ok_def)
  then show ?thesis using ok(1) n c new unfolding registry_ok_def lists_ok_def names_differ_def by auto
qed

subsection \<open>Finding and changing\<close>

lemma find_object_name8:
  assumes "0 \<notin> set n"
  shows "\<forall>ob \<in> set obs. \<exists>n'. 0 \<notin> set n' \<and> obj_name (objs ob) = name8 n' \<Longrightarrow>
    find_object objs n obs = Some (case filter (\<lambda>ob. obj_name (objs ob) = name8 n) obs of [] \<Rightarrow> 0 | ob # _ \<Rightarrow> ob)"
proof (induction obs)
  case (Cons ob obs)
  then obtain n' where n': "0 \<notin> set n'" "obj_name (objs ob) = name8 n'" by auto
  show ?case using Cons name_compare_name8 [OF n'(1) assms] n'(2) by auto
qed simp

lemma rt_device_find_name8:
  assumes "registry_ok s" "0 \<notin> set n" "\<not> in_interrupt s"
  shows "\<exists>d. rt_device_find (Some n) s = Some d \<and>
    (if d = 0 then \<forall>d' \<in> set (object_list s RT_Object_Class_Device). obj_name (objects s d') \<noteq> name8 n
     else d \<in> set (object_list s RT_Object_Class_Device) \<and> obj_name (objects s d) = name8 n \<and>
       (\<forall>d' \<in> set (object_list s RT_Object_Class_Device). obj_name (objects s d') = name8 n \<longrightarrow> d' = d))"
proof -
  let ?l = "object_list s RT_Object_Class_Device" and ?f = "\<lambda>d. obj_name (objects s d) = name8 n"
  have ok: "\<forall>d \<in> set ?l. d \<noteq> 0 \<and> (\<exists>n'. 0 \<notin> set n' \<and> obj_name (objects s d) = name8 n')" "names_differ ?l (objects s)"
    using assms(1) by (auto simp: registry_ok_def lists_ok_def object_ok_def)
  have find: "rt_device_find (Some n) s = Some (case filter ?f ?l of [] \<Rightarrow> 0 | ob # _ \<Rightarrow> ob)"
    using find_object_name8 [OF assms(2), of ?l "objects s"] ok(1) assms(3)
    by (simp add: rt_device_find_def rt_object_find_def rt_object_get_information_def object_container_def RT_Object_Class_Device_def)
  show ?thesis
  proof (cases "filter ?f ?l")
    case Nil
    then show ?thesis using find by (auto simp: filter_empty_conv)
  next
    case (Cons d ds)
    then have "d \<in> set (filter ?f ?l)" by simp
    then have d: "d \<in> set ?l" "?f d" by simp_all
    have d0: "d \<noteq> 0" using ok(1) d(1) by blast
    have only: "\<forall>d' \<in> set ?l. ?f d' \<longrightarrow> d' = d" using ok(2) d unfolding names_differ_def by metis
    have "rt_device_find (Some n) s = Some d" using find Cons by simp
    then show ?thesis by (rule exI [of _ d, OF conjI]) (subst if_not_P [OF d0], intro conjI d only)
  qed
qed

lemma class_static: "c \<in> set object_container \<Longrightarrow> (c OR 0x80) AND NOT 0x80 = c \<and> c OR 0x80 \<noteq> 9 \<and> c AND NOT 0x80 = c"
  by (auto simp: object_container_def)

lemma upd_obj_simps [simp]:
  "object_list (upd_obj ob f s) = object_list s" "objects (upd_obj ob f s) = (objects s)(ob := f (objects s ob))"
  "in_some_list ob' (upd_obj ob f s) = in_some_list ob' s" "upd_obj ob f (upd_obj ob g s) = upd_obj ob (f \<circ> g) s"
  by (simp_all add: upd_obj_def in_some_list_def)

lemma object_insert_Some:
  "object_insert c ob s = Some s' \<longleftrightarrow> \<not> in_some_list ob s \<and>
    s' = s\<lparr>objects := (objects s)(ob := (objects s ob)\<lparr>obj_linked := True\<rparr>), object_list := (object_list s)(c := ob # object_list s c)\<rparr>"
  by (auto simp: object_insert_def upd_obj_def Let_def split: Option.bind_splits)

lemma rt_object_init_registry:
  assumes ok: "registry_ok s" and ob: "ob \<noteq> 0" and n: "\<And>n. name = Some n \<Longrightarrow> 0 \<notin> set n"
    and new: "\<And>n. name = Some n \<Longrightarrow> c = RT_Object_Class_Device \<Longrightarrow> \<forall>ob' \<in> set (object_list s c). obj_name (objects s ob') \<noteq> name8 n"
    and run: "rt_object_init ob c name s = Some s'"
  shows "registry_ok s'"
proof -
  obtain nm where nm: "name = Some nm" using run by (cases name) (auto simp: rt_object_init_def Let_def split: Option.bind_splits)
  have c: "c \<in> set object_container" using run by (auto simp: rt_object_init_def rt_object_get_information_def split: Option.bind_splits)
  have len: "length (obj_name (objects s ob)) = 8" using ok by (simp add: registry_ok_def)
  let ?r = "(objects s ob)\<lparr>obj_type := c OR 0x80, obj_name := name8 nm, obj_linked := True\<rparr>"
  have "object_insert c ob (upd_obj ob (\<lambda>r. r\<lparr>obj_type := c OR 0x80, obj_name := name8 nm\<rparr>) s) = Some s'"
    using run nm copy_name_name8 [OF len n [OF nm]]
    by (simp add: rt_object_init_def Let_def RT_Object_Class_Static_def o_def split: Option.bind_splits)
  then have s': "s' = s\<lparr>objects := (objects s)(ob := ?r), object_list := (object_list s)(c := ob # object_list s c)\<rparr>" and free: "\<not> in_some_list ob s"
    unfolding object_insert_Some upd_obj_simps(1-3) by (auto simp: upd_obj_def)
  have "object_ok c ?r" "obj_type ?r \<noteq> RT_Object_Class_Device"
    using class_static [OF c] n [OF nm] by (auto simp: object_ok_def RT_Object_Class_Device_def)
  then show ?thesis unfolding s' using registry_enter [OF ok free c ob] new [OF nm] by simp
qed

lemma rt_object_allocate_registry:
  assumes ok: "registry_ok s" and c: "c \<noteq> RT_Object_Class_Device" and free: "\<not> in_some_list mem s" and n: "\<And>n. name = Some n \<Longrightarrow> 0 \<notin> set n"
    and run: "rt_object_allocate mem c name s = Some (s', ob)"
  shows "registry_ok s'"
proof (cases "mem = 0")
  case True
  then show ?thesis using run ok by (auto simp: rt_object_allocate_def split: Option.bind_splits)
next
  case False
  obtain nm where nm: "name = Some nm" using run False by (cases name) (auto simp: rt_object_allocate_def Let_def split: Option.bind_splits)
  have cc: "c \<in> set object_container" using run by (auto simp: rt_object_allocate_def rt_object_get_information_def split: Option.bind_splits)
  let ?r = "zero_object\<lparr>obj_type := c, obj_flag := 0, obj_name := name8 nm, obj_linked := True\<rparr>"
  have len: "length (obj_name zero_object) = 8" by (simp add: zero_object_def RT_NAME_MAX_def)
  have "object_insert c mem (upd_obj mem (\<lambda>r. zero_object\<lparr>obj_type := c, obj_flag := 0, obj_name := name8 nm\<rparr>) s) = Some s'"
    using run nm False copy_name_name8 [OF len n [OF nm]]
    by (simp add: rt_object_allocate_def Let_def o_def split: Option.bind_splits)
  then have s': "s' = s\<lparr>objects := (objects s)(mem := ?r), object_list := (object_list s)(c := mem # object_list s c)\<rparr>"
    unfolding object_insert_Some by (simp add: upd_obj_def)
  have "object_ok c ?r" "obj_type ?r \<noteq> RT_Object_Class_Device"
    using class_static [OF cc] n [OF nm] c by (auto simp: object_ok_def)
  then show ?thesis unfolding s' using registry_enter [OF ok free cc False] c by simp
qed

lemma rt_object_detach_registry:
  assumes "registry_ok s" "rt_object_detach ob s = Some s'"
  shows "registry_ok s'"
proof -
  let ?r = "(objects s ob)\<lparr>obj_type := 0\<rparr>"
  have "s' = s\<lparr>objects := (objects s)(ob := ?r), object_list := (\<lambda>c. removeAll ob (object_list s c))\<rparr>"
    using assms(2) by (auto simp: rt_object_detach_def object_unlink_def upd_obj_def Let_def split: Option.bind_splits)
  then show ?thesis using registry_unlink [OF assms(1), of ?r ob] assms(1) by (simp add: registry_ok_def RT_Object_Class_Device_def)
qed

subsection \<open>Drivers and programs\<close>

text \<open>What is asked of the functions of a driver: they leave the registry, the counters and the flags of the devices alone.
  They may change the open flags, as serial drivers do, and whatever they own.\<close>

definition keeps :: "devices \<Rightarrow> devices \<Rightarrow> bool" where
  "keeps s s' \<longleftrightarrow> object_list s' = object_list s \<and> objects s' = objects s \<and> in_interrupt s' = in_interrupt s \<and>
     calls s' = calls s \<and> console_device s' = console_device s \<and>
     (\<forall>d. ref_count (devs s' d) = ref_count (devs s d) \<and> flag (devs s' d) = flag (devs s d))"

definition driver_ok :: "(nat \<Rightarrow> driver) \<Rightarrow> bool" where
  "driver_ok drv \<longleftrightarrow> (\<forall>d s.
     (\<forall>f. drv_init (drv d) = Some f \<longrightarrow> keeps s (snd (f s))) \<and>
     (\<forall>f oflag. drv_open (drv d) = Some f \<longrightarrow> keeps s (snd (f oflag s))) \<and>
     (\<forall>f. drv_close (drv d) = Some f \<longrightarrow> keeps s (snd (f s))) \<and>
     (\<forall>f pos n. drv_read (drv d) = Some f \<longrightarrow> keeps s (snd (f pos n s))) \<and>
     (\<forall>f pos bs. drv_write (drv d) = Some f \<longrightarrow> keeps s (snd (f pos bs s))) \<and>
     (\<forall>f cmd arg. drv_control (drv d) = Some f \<longrightarrow> keeps s (snd (f cmd arg s))))"

lemma driver_okD:
  assumes "driver_ok drv"
  shows "drv_init (drv d) = Some f1 \<Longrightarrow> f1 s = (r, s') \<Longrightarrow> keeps s s'"
    and "drv_open (drv d) = Some f2 \<Longrightarrow> f2 oflag s = (r, s') \<Longrightarrow> keeps s s'"
    and "drv_close (drv d) = Some f1 \<Longrightarrow> f1 s = (r, s') \<Longrightarrow> keeps s s'"
    and "drv_read (drv d) = Some f3 \<Longrightarrow> f3 pos n s = (bs, s') \<Longrightarrow> keeps s s'"
    and "drv_write (drv d) = Some f4 \<Longrightarrow> f4 pos bs s = (k, s') \<Longrightarrow> keeps s s'"
    and "drv_control (drv d) = Some f5 \<Longrightarrow> f5 cmd arg s = (r, s') \<Longrightarrow> keeps s s'"
  using assms unfolding driver_ok_def by (metis snd_conv)+

text \<open>Nothing in the registry changed.\<close>

definition same_registry :: "devices \<Rightarrow> devices \<Rightarrow> bool" where
  "same_registry s s' \<longleftrightarrow> object_list s' = object_list s \<and> objects s' = objects s"

lemma same_registry_ok: "same_registry s s' \<Longrightarrow> registry_ok s \<Longrightarrow> registry_ok s'"
  unfolding same_registry_def using registry_cong [of s' s] by iprover

lemma same_registry_simps [simp]:
  "same_registry s s" "same_registry s (upd_dev d f s') = same_registry s s'" "same_registry s (called c s') = same_registry s s'"
  "same_registry (called c s) s' = same_registry s s'" "same_registry (upd_dev d f s) s' = same_registry s s'"
  "same_registry s (rt_set_errno e s') = same_registry s s'" "same_registry s (activate d s') = same_registry s s'"
  "same_registry s (s'\<lparr>console_device := k\<rparr>) = same_registry s s'"
  by (simp_all add: same_registry_def upd_dev_def called_def rt_set_errno_def activate_def)

lemma same_registry_trans: "same_registry s s1 \<Longrightarrow> same_registry s1 s2 \<Longrightarrow> same_registry s s2"
  by (simp add: same_registry_def)

lemma keeps_registry: "keeps s s' \<Longrightarrow> same_registry s s'" by (simp add: keeps_def same_registry_def)

lemmas drv_keeps = driver_okD [THEN keeps_registry]

lemma open_init_registry:
  assumes "driver_ok drv" "open_init drv d s = (s', r)"
  shows "same_registry s s'"
  using assms(2) by (auto simp: open_init_def Let_def split: if_splits option.splits prod.splits dest: drv_keeps [OF assms(1)])

lemma rt_device_init_registry:
  assumes "driver_ok drv" "rt_device_init drv d s = Some (s', r)"
  shows "same_registry s s'"
  using assms(2) by (auto simp: rt_device_init_def Let_def split: if_splits option.splits prod.splits Option.bind_splits dest: drv_keeps [OF assms(1)])

lemma rt_device_open_registry:
  assumes ok: "driver_ok drv" and run: "rt_device_open drv d oflag s = Some (s', r)"
  shows "same_registry s s'"
proof -
  obtain s1 r1 where i: "open_init drv d s = (s1, r1)" by (cases "open_init drv d s")
  obtain r2 s2 where o: "(case drv_open (drv d) of Some f \<Rightarrow> f oflag (called (Open d oflag) s1)
      | None \<Rightarrow> (RT_EOK, upd_dev d (\<lambda>r. r\<lparr>open_flag := oflag AND RT_DEVICE_OFLAG_MASK\<rparr>) s1)) = (r2, s2)"
    by fastforce
  have "same_registry s1 s2" using o drv_keeps(2) [OF ok, of d _ oflag "called (Open d oflag) s1" r2 s2] by (auto split: option.splits)
  then have "same_registry s s1" "same_registry s s2" using open_init_registry [OF ok i] same_registry_trans by blast+
  moreover have "same_registry s1 s' \<or> same_registry s2 s'"
    using run unfolding rt_device_open_def Let_def i prod.case o by (auto split: if_splits Option.bind_splits)
  ultimately show ?thesis using same_registry_trans by blast
qed

lemma rt_device_close_registry:
  assumes "driver_ok drv" "rt_device_close drv d s = Some (s', r)"
  shows "same_registry s s'"
  using assms(2) by (auto simp: rt_device_close_def Let_def split: if_splits option.splits prod.splits Option.bind_splits dest: drv_keeps [OF assms(1)])

lemma rt_device_read_registry:
  assumes "driver_ok drv" "rt_device_read drv d pos n s = Some (s', bs)"
  shows "same_registry s s'"
  using assms(2) by (auto simp: rt_device_read_def Let_def split: if_splits option.splits prod.splits Option.bind_splits dest: drv_keeps [OF assms(1)])

lemma rt_device_write_registry:
  assumes "driver_ok drv" "rt_device_write drv d pos bs s = Some (s', k)"
  shows "same_registry s s'"
  using assms(2) by (auto simp: rt_device_write_def Let_def split: if_splits option.splits prod.splits Option.bind_splits dest: drv_keeps [OF assms(1)])

lemma rt_device_control_registry:
  assumes "driver_ok drv" "rt_device_control drv d cmd arg s = Some (s', r)"
  shows "same_registry s s'"
  using assms(2) by (auto simp: rt_device_control_def Let_def split: if_splits option.splits prod.splits Option.bind_splits dest: drv_keeps [OF assms(1)])

lemma rt_console_set_device_registry:
  assumes "driver_ok drv" "rt_console_set_device drv name s = Some (s', r)"
  shows "same_registry s s'"
  using assms(2) by (auto simp: rt_console_set_device_def Let_def split: if_splits Option.bind_splits
      dest!: rt_device_open_registry [OF assms(1)] rt_device_close_registry [OF assms(1)] intro: same_registry_trans)

lemma console_put_registry:
  assumes "driver_ok drv" "console_put drv out s = Some s'"
  shows "same_registry s s'"
  using assms(2) by (auto simp: console_put_def split: console_out.splits dest!: rt_device_write_registry [OF assms(1)])

text \<open>A name is a string of C, or the null pointer.\<close>

definition c_name :: "cstring option \<Rightarrow> bool" where "c_name name \<longleftrightarrow> (\<forall>n. name = Some n \<longrightarrow> 0 \<notin> set n)"

lemma rt_device_register_ok:
  assumes "registry_ok s" "c_name name" "rt_device_register d name flags s = Some (s', r)"
  shows "registry_ok s'"
proof -
  consider "s' = s" | s1 where "d \<noteq> 0" "rt_device_find name s = Some 0" "rt_object_init d RT_Object_Class_Device name s = Some s1" "same_registry s1 s'"
    using assms(3) by (auto simp: rt_device_register_def Let_def split: if_splits Option.bind_splits)
  then show ?thesis
  proof cases
    case 1
    then show ?thesis using assms(1) by simp
  next
    case 2
    have n: "0 \<notin> set n" if "name = Some n" for n using that assms(2) by (simp add: c_name_def)
    have new: "\<forall>ob \<in> set (object_list s RT_Object_Class_Device). obj_name (objects s ob) \<noteq> name8 n" if nm: "name = Some n" for n
    proof -
      have "\<not> in_interrupt s"
        using 2(2) nm by (auto simp: rt_device_find_def rt_object_find_def rt_object_get_information_def object_container_def
            RT_Object_Class_Device_def split: Option.bind_splits)
      then obtain k where "rt_device_find (Some n) s = Some k" and k: "k = 0 \<longrightarrow> ?thesis"
        using rt_device_find_name8 [OF assms(1) n [OF nm]] by (auto split: if_splits)
      then have "k = 0" using 2(2) nm by simp
      then show ?thesis using k by blast
    qed
    have "registry_ok s1" by (rule rt_object_init_registry [OF assms(1) 2(1) n new 2(3)])
    then show ?thesis using same_registry_ok [OF 2(4)] by blast
  qed
qed

lemma rt_object_delete_ok:
  assumes "registry_ok s" "rt_object_delete ob s = Some s'"
  shows "registry_ok s'"
proof -
  obtain s1 where "rt_object_detach ob s = Some s1" "same_registry s1 s'"
    using assms(2) by (auto simp: rt_object_delete_def rt_object_detach_def Let_def same_registry_def split: Option.bind_splits)
  then show ?thesis using rt_object_detach_registry [OF assms(1)] same_registry_ok by blast
qed

lemma rt_device_create_ok:
  assumes "registry_ok s" "\<not> in_some_list mem s"
  shows "registry_ok (fst (rt_device_create mem s))"
proof -
  have "registry_ok (upd_obj mem (\<lambda>_. zero_object) s)"
    unfolding upd_obj_def by (rule registry_free_object [OF assms]) (simp_all add: zero_object_def RT_NAME_MAX_def RT_Object_Class_Device_def)
  then have "registry_ok (upd_dev mem (\<lambda>_. zero_device) (upd_obj mem (\<lambda>_. zero_object) s))" by (rule same_registry_ok [rotated]) simp
  then show ?thesis using assms(1) by (simp add: rt_device_create_def)
qed

text \<open>
  The programs: calls of the functions of both files. The lists of the other classes are used by the rest of the kernel.
  Memory from the heap belongs to no object of a list, and devices are not made by \<open>rt_object_allocate\<close>, which
  nothing in the kernel does.
\<close>

inductive dev_step :: "(nat \<Rightarrow> driver) \<Rightarrow> devices \<Rightarrow> devices \<Rightarrow> bool" for drv where
  st_register: "c_name name \<Longrightarrow> rt_device_register d name flags s = Some (s', r) \<Longrightarrow> dev_step drv s s'"
| st_unregister: "rt_device_unregister d s = Some (s', r) \<Longrightarrow> dev_step drv s s'"
| st_create: "\<not> in_some_list mem s \<Longrightarrow> rt_device_create mem s = (s', d) \<Longrightarrow> dev_step drv s s'"
| st_init: "rt_device_init drv d s = Some (s', r) \<Longrightarrow> dev_step drv s s'"
| st_open: "rt_device_open drv d oflag s = Some (s', r) \<Longrightarrow> dev_step drv s s'"
| st_close: "rt_device_close drv d s = Some (s', r) \<Longrightarrow> dev_step drv s s'"
| st_read: "rt_device_read drv d pos n s = Some (s', bs) \<Longrightarrow> dev_step drv s s'"
| st_write: "rt_device_write drv d pos bs s = Some (s', k) \<Longrightarrow> dev_step drv s s'"
| st_control: "rt_device_control drv d cmd arg s = Some (s', r) \<Longrightarrow> dev_step drv s s'"
| st_rx: "rt_device_set_rx_indicate d f s = Some (s', r) \<Longrightarrow> dev_step drv s s'"
| st_tx: "rt_device_set_tx_complete d f s = Some (s', r) \<Longrightarrow> dev_step drv s s'"
| st_console: "rt_console_set_device drv name s = Some (s', d) \<Longrightarrow> dev_step drv s s'"
| st_put: "console_put drv out s = Some s' \<Longrightarrow> dev_step drv s s'"
| st_object_init: "ob \<noteq> 0 \<Longrightarrow> c \<noteq> RT_Object_Class_Device \<Longrightarrow> c_name name \<Longrightarrow> rt_object_init ob c name s = Some s' \<Longrightarrow> dev_step drv s s'"
| st_object_allocate: "c \<noteq> RT_Object_Class_Device \<Longrightarrow> c_name name \<Longrightarrow> \<not> in_some_list mem s \<Longrightarrow>
    rt_object_allocate mem c name s = Some (s', ob) \<Longrightarrow> dev_step drv s s'"
| st_object_detach: "rt_object_detach ob s = Some s' \<Longrightarrow> dev_step drv s s'"
| st_object_delete: "rt_object_delete ob s = Some s' \<Longrightarrow> dev_step drv s s'"

lemma dev_step_ok:
  assumes "driver_ok drv" "dev_step drv s s'" "registry_ok s"
  shows "registry_ok s'"
  using assms(2)
proof cases
  case (st_unregister d r)
  then have "rt_object_detach d s = Some s'" by (auto simp: rt_device_unregister_def split: Option.bind_splits)
  then show ?thesis by (rule rt_object_detach_registry [OF assms(3)])
next
  case (st_create mem d)
  then show ?thesis using rt_device_create_ok [OF assms(3), of mem] by simp
next
  case (st_rx d f r)
  then have "same_registry s s'" by (auto simp: rt_device_set_rx_indicate_def split: Option.bind_splits)
  then show ?thesis using same_registry_ok assms(3) by blast
next
  case (st_tx d f r)
  then have "same_registry s s'" by (auto simp: rt_device_set_tx_complete_def split: Option.bind_splits)
  then show ?thesis using same_registry_ok assms(3) by blast
next
  case (st_object_init ob c name)
  then show ?thesis by (intro rt_object_init_registry [OF assms(3)]) (auto simp: c_name_def)
next
  case (st_object_allocate c name mem ob)
  then show ?thesis by (intro rt_object_allocate_registry [OF assms(3)]) (auto simp: c_name_def)
next
  case (st_init d r)
  show ?thesis by (rule same_registry_ok [OF rt_device_init_registry [OF assms(1) st_init] assms(3)])
next
  case (st_open d oflag r)
  show ?thesis by (rule same_registry_ok [OF rt_device_open_registry [OF assms(1) st_open] assms(3)])
next
  case (st_close d r)
  show ?thesis by (rule same_registry_ok [OF rt_device_close_registry [OF assms(1) st_close] assms(3)])
next
  case (st_read d pos n bs)
  show ?thesis by (rule same_registry_ok [OF rt_device_read_registry [OF assms(1) st_read] assms(3)])
next
  case (st_write d pos bs k)
  show ?thesis by (rule same_registry_ok [OF rt_device_write_registry [OF assms(1) st_write] assms(3)])
next
  case (st_control d cmd arg r)
  show ?thesis by (rule same_registry_ok [OF rt_device_control_registry [OF assms(1) st_control] assms(3)])
next
  case (st_console name d)
  show ?thesis by (rule same_registry_ok [OF rt_console_set_device_registry [OF assms(1) st_console] assms(3)])
next
  case (st_put out)
  show ?thesis by (rule same_registry_ok [OF console_put_registry [OF assms(1) st_put] assms(3)])
next
  case (st_register name d flags r)
  show ?thesis by (rule rt_device_register_ok [OF assms(3) st_register])
next
  case (st_object_detach ob)
  show ?thesis by (rule rt_object_detach_registry [OF assms(3) st_object_detach])
next
  case (st_object_delete ob)
  show ?thesis by (rule rt_object_delete_ok [OF assms(3) st_object_delete])
qed

text \<open>Before the first call: no object is in a list, all memory is zero.\<close>

definition boot_devices :: devices where
  "boot_devices = \<lparr>object_list = (\<lambda>_. []), objects = (\<lambda>_. zero_object), devs = (\<lambda>_. zero_device), console_device = 0,
     errno = 0, in_interrupt = False, freed = [], calls = []\<rparr>"

lemma boot_ok: "registry_ok boot_devices"
  by (simp add: registry_ok_def lists_ok_def names_differ_def boot_devices_def zero_object_def RT_NAME_MAX_def RT_Object_Class_Device_def)

lemma dev_run_ok:
  assumes "driver_ok drv"
  shows "(dev_step drv)\<^sup>*\<^sup>* s s' \<Longrightarrow> registry_ok s \<Longrightarrow> registry_ok s'"
  by (induction rule: rtranclp_induct) (auto dest: dev_step_ok [OF assms])

subsection \<open>Users of a device\<close>

text \<open>The device is registered and not for one user only; its driver does not fail.\<close>

definition shared_device :: "nat \<Rightarrow> devices \<Rightarrow> bool" where
  "shared_device d s \<longleftrightarrow> assert_device d s = Some () \<and> flag (devs s d) AND RT_DEVICE_FLAG_STANDALONE = 0"

definition driver_succeeds :: "driver \<Rightarrow> bool" where
  "driver_succeeds r \<longleftrightarrow> (\<forall>f s. drv_init r = Some f \<longrightarrow> fst (f s) = RT_EOK) \<and>
     (\<forall>f oflag s. drv_open r = Some f \<longrightarrow> fst (f oflag s) = RT_EOK) \<and> (\<forall>f s. drv_close r = Some f \<longrightarrow> fst (f s) = RT_EOK)"

lemma driver_succeedsD:
  assumes "driver_succeeds r"
  shows "drv_init r = Some f \<Longrightarrow> \<exists>s'. f s = (RT_EOK, s')" "drv_open r = Some g \<Longrightarrow> \<exists>s'. g oflag s = (RT_EOK, s')"
    "drv_close r = Some f \<Longrightarrow> \<exists>s'. f s = (RT_EOK, s')"
proof -
  have e: "fst x = RT_EOK \<Longrightarrow> \<exists>s'. x = (RT_EOK, s')" for x :: "int \<times> devices" by (cases x) simp
  show "\<exists>s'. f s = (RT_EOK, s')" if "drv_init r = Some f" using assms that unfolding driver_succeeds_def by (intro e) blast
  show "\<exists>s'. g oflag s = (RT_EOK, s')" if "drv_open r = Some g" using assms that unfolding driver_succeeds_def by (intro e) blast
  show "\<exists>s'. f s = (RT_EOK, s')" if "drv_close r = Some f" using assms that unfolding driver_succeeds_def by (intro e) blast
qed

definition opening_calls :: "driver \<Rightarrow> nat \<Rightarrow> u16 \<Rightarrow> devices \<Rightarrow> dev_call list" where
  "opening_calls r d oflag s = (if activated d s \<or> drv_init r = None then [] else [Init d]) @ (if drv_open r = None then [] else [Open d oflag])"

lemma flag_activate: "(x OR 0x10) AND 8 = x AND 8" "(x OR 0x10) AND 0x10 \<noteq> 0" for x :: u16
proof -
  have "(x OR 0x10) AND 8 = (x AND 8) OR (0x10 AND 8)" by (simp only: bit.conj_disj_distrib2)
  then show "(x OR 0x10) AND 8 = x AND 8" by simp
  have "(x OR 0x10) AND 0x10 = 0x10" by (simp add: and.commute [of _ "0x10"] or.commute [of _ "0x10"])
  then show "(x OR 0x10) AND 0x10 \<noteq> 0" by simp
qed

lemma shared_cong:
  "same_registry s s' \<Longrightarrow> flag (devs s' d) AND 8 = flag (devs s d) AND 8 \<Longrightarrow> shared_device d s' = shared_device d s"
  by (simp add: shared_device_def same_registry_def assert_device_def rt_object_get_type_def RT_DEVICE_FLAG_STANDALONE_def)

lemma keeps_called:
  assumes "keeps (called c s) s'"
  shows "same_registry s s'" "flag (devs s' d) = flag (devs s d)" "ref_count (devs s' d) = ref_count (devs s d)" "calls s' = calls s @ [c]"
  using keeps_registry [OF assms] assms by (simp_all add: keeps_def called_def same_registry_def)

lemma open_init_succeeds:
  assumes "driver_ok drv" "driver_succeeds (drv d)"
  shows "\<exists>s'. open_init drv d s = (s', RT_EOK) \<and> same_registry s s' \<and> activated d s' \<and> flag (devs s' d) AND 8 = flag (devs s d) AND 8 \<and>
    ref_count (devs s' d) = ref_count (devs s d) \<and> calls s' = calls s @ (if activated d s \<or> drv_init (drv d) = None then [] else [Init d])"
proof -
  obtain s' r where i: "open_init drv d s = (s', r)" by (cases "open_init drv d s")
  note act = activate_def upd_dev_def activated_def RT_DEVICE_FLAG_ACTIVATED_def flag_activate
  show ?thesis
  proof (cases "activated d s \<or> drv_init (drv d) = None")
    case True
    then show ?thesis by (auto simp: open_init_def act same_registry_def)
  next
    case False
    then obtain f where f: "drv_init (drv d) = Some f" by auto
    obtain s1 where s1: "f (called (Init d) s) = (RT_EOK, s1)" using driver_succeedsD(1) [OF assms(2) f] by blast
    have k: "keeps (called (Init d) s) s1" by (rule driver_okD(1) [OF assms(1) f s1])
    then have "same_registry s (activate d s1)" using keeps_registry by fastforce
    moreover have "open_init drv d s = (activate d s1, RT_EOK)" using False f s1 by (simp add: open_init_def)
    ultimately show ?thesis using False k by (auto simp: act keeps_def called_def)
  qed
qed

lemma rt_device_open_succeeds:
  assumes "driver_ok drv" "driver_succeeds (drv d)" "shared_device d s" "unat (ref_count (devs s d)) < 255"
  shows "\<exists>s'. rt_device_open drv d oflag s = Some (s', RT_EOK) \<and> shared_device d s' \<and> activated d s' \<and>
    unat (ref_count (devs s' d)) = unat (ref_count (devs s d)) + 1 \<and> calls s' = calls s @ opening_calls (drv d) d oflag s"
proof -
  obtain s1 where i: "open_init drv d s = (s1, RT_EOK)" "same_registry s s1" "activated d s1" "flag (devs s1 d) AND 8 = flag (devs s d) AND 8"
    "ref_count (devs s1 d) = ref_count (devs s d)" "calls s1 = calls s @ (if activated d s \<or> drv_init (drv d) = None then [] else [Init d])"
    using open_init_succeeds [OF assms(1,2)] by blast
  let ?o = "case drv_open (drv d) of Some f \<Rightarrow> f oflag (called (Open d oflag) s1)
      | None \<Rightarrow> (RT_EOK, upd_dev d (\<lambda>r. r\<lparr>open_flag := oflag AND RT_DEVICE_OFLAG_MASK\<rparr>) s1)"
  have "\<exists>s2. ?o = (RT_EOK, s2) \<and> same_registry s1 s2 \<and> flag (devs s2 d) = flag (devs s1 d) \<and>
    ref_count (devs s2 d) = ref_count (devs s1 d) \<and> calls s2 = calls s1 @ (if drv_open (drv d) = None then [] else [Open d oflag])"
  proof (cases "drv_open (drv d)")
    case None
    then show ?thesis by (simp add: upd_dev_def same_registry_def)
  next
    case (Some f)
    obtain s2 where s2: "f oflag (called (Open d oflag) s1) = (RT_EOK, s2)" using driver_succeedsD(2) [OF assms(2) Some] by blast
    have k: "keeps (called (Open d oflag) s1) s2" by (rule driver_okD(2) [OF assms(1) Some s2])
    then show ?thesis using Some s2 keeps_called [OF k] by simp
  qed
  then obtain s2 where o: "?o = (RT_EOK, s2)" and s2: "same_registry s1 s2" "flag (devs s2 d) = flag (devs s1 d)"
    "ref_count (devs s2 d) = ref_count (devs s1 d)" "calls s2 = calls s1 @ (if drv_open (drv d) = None then [] else [Open d oflag])" by blast
  let ?s = "upd_dev d (\<lambda>r. r\<lparr>ref_count := ref_count r + 1\<rparr>) (upd_dev d (\<lambda>r. r\<lparr>open_flag := open_flag r OR RT_DEVICE_OFLAG_OPEN\<rparr>) s2)"
  have ref: "ref_count (devs ?s d) = ref_count (devs s d) + 1" "flag (devs ?s d) = flag (devs s1 d)" "calls ?s = calls s2"
    using s2 i by (simp_all add: upd_dev_def)
  have "unat (ref_count (devs s d) + 1) = unat (ref_count (devs s d)) + unat (1 :: u8)" using assms(4) by (intro unat_add_lt) simp
  then have n: "unat (ref_count (devs s d) + 1) = unat (ref_count (devs s d)) + 1" by simp
  then have nz: "ref_count (devs ?s d) \<noteq> 0" unfolding ref(1) by (metis Suc_eq_plus1 Zero_not_Suc unsigned_0)
  have a: "assert_device d s = Some ()" "flag (devs s d) AND 8 = 0" using assms(3) by (simp_all add: shared_device_def RT_DEVICE_FLAG_STANDALONE_def)
  have "rt_device_open drv d oflag s = Some (?s, RT_EOK)"
    unfolding rt_device_open_def Let_def i(1) prod.case o using a i(4) nz by (simp add: RT_DEVICE_FLAG_STANDALONE_def)
  moreover have "same_registry s ?s" using same_registry_trans [OF i(2) s2(1)] by simp
  then have "shared_device d ?s" using shared_cong [of s ?s d] ref(2) i(4) assms(3) by simp
  moreover have "activated d ?s" using i(3) ref(2) by (simp add: activated_def)
  ultimately show ?thesis using ref(1,3) n i(6) s2(4) by (auto simp: opening_calls_def)
qed

lemma rt_device_close_succeeds:
  assumes "driver_ok drv" "driver_succeeds (drv d)" "shared_device d s" "ref_count (devs s d) \<noteq> 0"
  shows "\<exists>s'. rt_device_close drv d s = Some (s', RT_EOK) \<and> shared_device d s' \<and>
    unat (ref_count (devs s' d)) = unat (ref_count (devs s d)) - 1 \<and>
    (if ref_count (devs s d) = 1 then open_flag (devs s' d) = 0 \<and> calls s' = calls s @ (if drv_close (drv d) = None then [] else [Close d])
     else calls s' = calls s)"
proof -
  let ?s1 = "upd_dev d (\<lambda>r. r\<lparr>ref_count := ref_count r - 1\<rparr>) s"
  have ref: "ref_count (devs ?s1 d) = ref_count (devs s d) - 1" "calls ?s1 = calls s" "flag (devs ?s1 d) = flag (devs s d)" by (simp_all add: upd_dev_def)
  have n: "unat (ref_count (devs s d) - 1) = unat (ref_count (devs s d)) - 1" using assms(4) unat_minus_one by blast
  have a: "assert_device d s = Some ()" using assms(3) by (simp add: shared_device_def)
  show ?thesis
  proof (cases "ref_count (devs s d) = 1")
    case False
    then have "ref_count (devs ?s1 d) \<noteq> 0" using ref(1) by simp
    then have "rt_device_close drv d s = Some (?s1, RT_EOK)" using a assms(4) by (simp add: rt_device_close_def Let_def)
    moreover have "shared_device d ?s1" using shared_cong [of s ?s1 d] ref(3) assms(3) by simp
    ultimately show ?thesis using False ref n by auto
  next
    case True
    let ?c = "case drv_close (drv d) of Some f \<Rightarrow> f (called (Close d) ?s1) | None \<Rightarrow> (RT_EOK, ?s1)"
    have "\<exists>s2. ?c = (RT_EOK, s2) \<and> same_registry ?s1 s2 \<and> flag (devs s2 d) = flag (devs ?s1 d) \<and>
      ref_count (devs s2 d) = ref_count (devs ?s1 d) \<and> calls s2 = calls ?s1 @ (if drv_close (drv d) = None then [] else [Close d])"
    proof (cases "drv_close (drv d)")
      case (Some f)
      obtain s2 where s2: "f (called (Close d) ?s1) = (RT_EOK, s2)" using driver_succeedsD(3) [OF assms(2) Some] by blast
      have k: "keeps (called (Close d) ?s1) s2" by (rule driver_okD(3) [OF assms(1) Some s2])
      then show ?thesis using Some s2 keeps_called [OF k] by simp
    qed simp
    then obtain s2 where c: "?c = (RT_EOK, s2)" and s2: "same_registry ?s1 s2" "flag (devs s2 d) = flag (devs ?s1 d)"
      "ref_count (devs s2 d) = ref_count (devs ?s1 d)" "calls s2 = calls ?s1 @ (if drv_close (drv d) = None then [] else [Close d])" by blast
    let ?s = "upd_dev d (\<lambda>r. r\<lparr>open_flag := RT_DEVICE_OFLAG_CLOSE\<rparr>) s2"
    have z: "\<not> ref_count (devs ?s1 d) \<noteq> 0" using True ref(1) by simp
    have "rt_device_close drv d s = Some (?s, RT_EOK)" unfolding rt_device_close_def Let_def if_not_P [OF z] c prod.case using a assms(4) by simp
    moreover have "flag (devs ?s d) = flag (devs s d)" "ref_count (devs ?s d) = ref_count (devs s d) - 1" "open_flag (devs ?s d) = 0" "calls ?s = calls s2"
      using s2 ref by (simp_all add: upd_dev_def RT_DEVICE_OFLAG_CLOSE_def)
    moreover have "same_registry s ?s" using s2(1) by simp
    ultimately show ?thesis using True n ref s2(4) shared_cong [of s ?s d] assms(3) by auto
  qed
qed

fun device_opens :: "(nat \<Rightarrow> driver) \<Rightarrow> nat \<Rightarrow> u16 \<Rightarrow> nat \<Rightarrow> devices \<Rightarrow> devices option" where
  "device_opens drv d oflag 0 s = Some s"
| "device_opens drv d oflag (Suc k) s = do { (s, r) \<leftarrow> rt_device_open drv d oflag s; device_opens drv d oflag k s }"

fun device_closes :: "(nat \<Rightarrow> driver) \<Rightarrow> nat \<Rightarrow> nat \<Rightarrow> devices \<Rightarrow> devices option" where
  "device_closes drv d 0 s = Some s"
| "device_closes drv d (Suc k) s = do { (s, r) \<leftarrow> rt_device_close drv d s; device_closes drv d k s }"

lemma device_opens_activated:
  assumes "driver_ok drv" "driver_succeeds (drv d)"
  shows "shared_device d s \<Longrightarrow> activated d s \<Longrightarrow> unat (ref_count (devs s d)) + k < 256 \<Longrightarrow>
    \<exists>s'. device_opens drv d oflag k s = Some s' \<and> shared_device d s' \<and> unat (ref_count (devs s' d)) = unat (ref_count (devs s d)) + k \<and>
      calls s' = calls s @ (if drv_open (drv d) = None then [] else replicate k (Open d oflag))"
proof (induction k arbitrary: s)
  case (Suc k)
  then have "unat (ref_count (devs s d)) < 255" by simp
  from rt_device_open_succeeds [OF assms Suc.prems(1) this, of oflag] obtain s1 where
    s1: "rt_device_open drv d oflag s = Some (s1, RT_EOK)" "shared_device d s1" "activated d s1"
      "unat (ref_count (devs s1 d)) = unat (ref_count (devs s d)) + 1" "calls s1 = calls s @ opening_calls (drv d) d oflag s" by blast
  obtain s' where "device_opens drv d oflag k s1 = Some s'" "shared_device d s'" "unat (ref_count (devs s' d)) = unat (ref_count (devs s1 d)) + k"
    "calls s' = calls s1 @ (if drv_open (drv d) = None then [] else replicate k (Open d oflag))"
    using Suc.IH [OF s1(2,3)] s1(4) Suc.prems(3) by auto
  then show ?case using s1 Suc.prems(2) by (auto simp: opening_calls_def)
qed simp

lemma device_closes_all:
  assumes "driver_ok drv" "driver_succeeds (drv d)"
  shows "shared_device d s \<Longrightarrow> unat (ref_count (devs s d)) = Suc k \<Longrightarrow>
    \<exists>s'. device_closes drv d (Suc k) s = Some s' \<and> ref_count (devs s' d) = 0 \<and> open_flag (devs s' d) = 0 \<and>
      calls s' = calls s @ (if drv_close (drv d) = None then [] else [Close d])"
proof (induction k arbitrary: s)
  case 0
  then have "ref_count (devs s d) = 1" by (simp add: word_unat_eq_iff)
  with rt_device_close_succeeds [OF assms 0(1)] show ?case by (auto simp: unat_eq_0)
next
  case (Suc k)
  then have "ref_count (devs s d) \<noteq> 0" "ref_count (devs s d) \<noteq> 1" by auto
  with rt_device_close_succeeds [OF assms Suc.prems(1)] obtain s1 where
    s1: "rt_device_close drv d s = Some (s1, RT_EOK)" "shared_device d s1" "unat (ref_count (devs s1 d)) = unat (ref_count (devs s d)) - 1" "calls s1 = calls s"
    by auto
  then show ?case using Suc.IH [OF s1(2)] Suc.prems(2) by auto
qed

subsection \<open>Properties\<close>

text \<open>A serial device at address 5, whose driver sets the open flag itself and takes every byte, and its registration.\<close>

definition uart_driver :: "nat \<Rightarrow> driver" where
  "uart_driver d = \<lparr>drv_init = Some (\<lambda>s. (RT_EOK, s)), drv_open = Some (\<lambda>oflag s. (RT_EOK, upd_dev d (\<lambda>r. r\<lparr>open_flag := oflag AND 0xff\<rparr>) s)),
     drv_close = Some (\<lambda>s. (RT_EOK, s)), drv_read = None, drv_write = Some (\<lambda>pos bs s. (length bs, s)), drv_control = None\<rparr>"

lemma uart_driver_ok: "driver_ok uart_driver" "driver_succeeds (uart_driver d)"
  by (simp_all add: driver_ok_def driver_succeeds_def uart_driver_def keeps_def upd_dev_def)

definition uart1 :: cstring where "uart1 = [117, 97, 114, 116, 49]"

definition uart_object :: rt_object where
  "uart_object = \<lparr>obj_name = name8 uart1, obj_type = 0x89, obj_flag = 0, obj_linked = True\<rparr>"

definition with_uart :: devices where
  "with_uart = boot_devices\<lparr>objects := (\<lambda>_. zero_object)(5 := uart_object), object_list := (\<lambda>_. [])(9 := [5]),
     devs := (\<lambda>_. zero_device)(5 := zero_device\<lparr>flag := 0x103\<rparr>)\<rparr>"

lemma register_uart: "rt_device_register 5 (Some uart1) 0x103 boot_devices = Some (with_uart, RT_EOK)"
proof -
  have c: "copy_name (replicate 8 0) uart1 = Some (name8 uart1)" by (rule copy_name_name8) (simp_all add: uart1_def)
  have "rt_device_find (Some uart1) boot_devices = Some 0"
    by (simp add: rt_device_find_def rt_object_find_def boot_devices_def)
  moreover have "rt_object_init 5 9 (Some uart1) boot_devices =
      Some (boot_devices\<lparr>objects := (\<lambda>_. zero_object)(5 := uart_object), object_list := (\<lambda>_. [])(9 := [5])\<rparr>)"
    using c by (simp add: rt_object_init_def object_insert_def in_some_list_def upd_obj_def boot_devices_def zero_object_def uart_object_def
        rt_object_get_information_def object_container_def RT_NAME_MAX_def RT_Object_Class_Static_def fun_eq_iff)
  ultimately show ?thesis
    by (simp add: rt_device_register_def RT_Object_Class_Device_def upd_dev_def with_uart_def boot_devices_def zero_device_def fun_eq_iff)
qed

lemma uart_run: "(dev_step uart_driver)\<^sup>*\<^sup>* boot_devices with_uart"
  using register_uart by (intro r_into_rtranclp st_register [of "Some uart1"]) (auto simp: c_name_def uart1_def)

text \<open>C20: After every program of calls to the registry and to devices whose drivers leave the registry alone, the names of the
  registered devices differ in their first eight characters, and looking a name up finds the one registered device
  whose name agrees with it there, or reports that there is none.\<close>

theorem devices_found_by_name:
  assumes "driver_ok drv" "(dev_step drv)\<^sup>*\<^sup>* boot_devices s" "0 \<notin> set n" "\<not> in_interrupt s"
  shows "\<exists>d. rt_device_find (Some n) s = Some d \<and>
    (if d = 0 then \<forall>d' \<in> set (object_list s RT_Object_Class_Device). obj_name (objects s d') \<noteq> name8 n
     else d \<in> set (object_list s RT_Object_Class_Device) \<and> obj_name (objects s d) = name8 n \<and>
       (\<forall>d' \<in> set (object_list s RT_Object_Class_Device). obj_name (objects s d') = name8 n \<longrightarrow> d' = d))"
  by (rule rt_device_find_name8 [OF dev_run_ok [OF assms(1,2) boot_ok] assms(3,4)])

theorem devices_found_by_name_witness:
  "rt_device_find (Some uart1) with_uart = Some 5 \<and> rt_device_find (Some [117, 97]) with_uart = Some 0"
proof -
  have i: "\<not> in_interrupt with_uart" by (simp add: with_uart_def boot_devices_def)
  have l: "object_list with_uart RT_Object_Class_Device = [5]" "obj_name (objects with_uart 5) = name8 uart1"
    by (simp_all add: with_uart_def RT_Object_Class_Device_def uart_object_def)
  have n: "0 \<notin> set uart1" "0 \<notin> set [117, 97 :: u8]" "take 8 uart1 \<noteq> take 8 [117, 97]" by (simp_all add: uart1_def)
  then have "name8 uart1 \<noteq> name8 [117, 97]" using name8_eq by metis
  note found = devices_found_by_name [OF uart_driver_ok(1) uart_run _ i, unfolded l(1)]
  show ?thesis using found [OF n(1)] found [OF n(2)] l(2) \<open>name8 uart1 \<noteq> name8 [117, 97]\<close> by (auto split: if_splits)
qed

text \<open>C21: A device counts its users: opened \<open>k\<close> times, up to 255, and closed as often, it is closed again; its driver has been
  initialised at most once, has seen every opening and only the last closing.\<close>

theorem device_opens_closes:
  assumes "driver_ok drv" "driver_succeeds (drv d)" "shared_device d s" "ref_count (devs s d) = 0" "0 < k" "k < 256"
  shows "\<exists>s1 s2. device_opens drv d oflag k s = Some s1 \<and> ref_count (devs s1 d) = of_nat k \<and>
    device_closes drv d k s1 = Some s2 \<and> ref_count (devs s2 d) = 0 \<and> open_flag (devs s2 d) = 0 \<and>
    calls s2 = calls s @ (if activated d s \<or> drv_init (drv d) = None then [] else [Init d])
      @ (if drv_open (drv d) = None then [] else replicate k (Open d oflag)) @ (if drv_close (drv d) = None then [] else [Close d])"
proof -
  obtain j where k: "k = Suc j" using assms(5) by (cases k) simp_all
  have z: "unat (ref_count (devs s d)) = 0" using assms(4) by simp
  then have "unat (ref_count (devs s d)) < 255" by simp
  from rt_device_open_succeeds [OF assms(1-3) this, of oflag] obtain s0 where
    s0: "rt_device_open drv d oflag s = Some (s0, RT_EOK)" "shared_device d s0" "activated d s0" "unat (ref_count (devs s0 d)) = 1"
      "calls s0 = calls s @ opening_calls (drv d) d oflag s" using z by auto
  obtain s1 where s1: "device_opens drv d oflag j s0 = Some s1" "shared_device d s1" "unat (ref_count (devs s1 d)) = 1 + j"
    "calls s1 = calls s0 @ (if drv_open (drv d) = None then [] else replicate j (Open d oflag))"
    using device_opens_activated [OF assms(1,2) s0(2,3)] s0(4) assms(6) k by auto
  obtain s2 where s2: "device_closes drv d k s1 = Some s2" "ref_count (devs s2 d) = 0" "open_flag (devs s2 d) = 0"
    "calls s2 = calls s1 @ (if drv_close (drv d) = None then [] else [Close d])"
    using device_closes_all [OF assms(1,2) s1(2)] s1(3) k by auto
  have "ref_count (devs s1 d) = of_nat k" using s1(3) k by (metis add.commute plus_1_eq_Suc word_of_nat_unat)
  moreover have "device_opens drv d oflag k s = Some s1" using s0(1) s1(1) k by simp
  ultimately show ?thesis using s2 s1(4) s0(5) k by (auto simp: opening_calls_def)
qed

theorem device_opens_closes_witness:
  "\<exists>s1 s2. device_opens uart_driver 5 0x43 2 with_uart = Some s1 \<and> device_closes uart_driver 5 2 s1 = Some s2 \<and>
    calls s2 = [Init 5, Open 5 0x43, Open 5 0x43, Close 5]"
proof -
  have "shared_device 5 with_uart" "ref_count (devs with_uart 5) = 0" "\<not> activated 5 with_uart" "calls with_uart = []"
    by (simp_all add: shared_device_def assert_device_def rt_object_get_type_def with_uart_def uart_object_def zero_device_def activated_def boot_devices_def
        RT_Object_Class_Device_def RT_Object_Class_Static_def RT_DEVICE_FLAG_STANDALONE_def RT_DEVICE_FLAG_ACTIVATED_def)
  moreover have "drv_init (uart_driver 5) \<noteq> None" "drv_open (uart_driver 5) \<noteq> None" "drv_close (uart_driver 5) \<noteq> None"
    by (simp_all add: uart_driver_def)
  moreover have "replicate 2 (Open 5 0x43) = [Open 5 0x43, Open 5 0x43]" by (simp add: numeral_2_eq_2)
  ultimately show ?thesis using device_opens_closes [OF uart_driver_ok, of 5 with_uart 2 "0x43"] by auto
qed

text \<open>C22: \<open>rt_device_destroy\<close> cannot succeed: after every program a device made by \<open>rt_device_create\<close> either has no class, before it
  is registered and after it is unregistered, or the mark of a static object, which registering sets; one of the
  assertions of \<open>rt_device_destroy\<close> fails in each case.\<close>

theorem rt_device_destroy_fails:
  assumes "driver_ok drv" "(dev_step drv)\<^sup>*\<^sup>* boot_devices s"
  shows "rt_device_destroy d s = None"
proof (rule ccontr)
  let ?t = "obj_type (objects s d)"
  assume "rt_device_destroy d s \<noteq> None"
  then have t: "?t AND NOT 0x80 = 9" "?t AND 0x80 = 0"
    by (auto simp: rt_device_destroy_def assert_device_def rt_object_get_type_def rt_object_is_systemobject_def
        RT_Object_Class_Device_def RT_Object_Class_Static_def split: Option.bind_splits)
  have "?t = (?t AND NOT 0x80) OR (?t AND 0x80)" by (metis bit.conj_disj_distrib bit.conj_one_right bit.disj_cancel_right or.commute)
  then have "?t = 9" using t by simp
  moreover have "?t \<noteq> 9" using dev_run_ok [OF assms boot_ok] by (simp add: registry_ok_def RT_Object_Class_Device_def)
  ultimately show False by simp
qed

theorem rt_device_destroy_fails_witness: "rt_device_destroy 5 with_uart = None"
  by (rule rt_device_destroy_fails [OF uart_driver_ok(1) uart_run])

text \<open>
  The choice of the console: a name that is not registered is answered like a success, by the old device, and the first choice
  like a failure, by the null pointer. A driver that cannot close its device leaves it marked as open without a user:
  closing it again is refused, and so is opening it when it is for one user only.
\<close>

lemma rt_console_set_unknown:
  "rt_device_find name s = Some 0 \<Longrightarrow> rt_console_set_device drv name s = Some (s, console_device s)"
  by (auto simp: rt_console_set_device_def Let_def)

lemma rt_console_set_first:
  "rt_device_find name s = Some d \<Longrightarrow> d \<noteq> 0 \<Longrightarrow> console_device s = 0 \<Longrightarrow> rt_device_open drv d 0x43 s = Some (s1, r) \<Longrightarrow>
    rt_console_set_device drv name s = Some (s1\<lparr>console_device := d\<rparr>, 0)"
  by (simp add: rt_console_set_device_def RT_DEVICE_OFLAG_RDWR_def RT_DEVICE_FLAG_STREAM_def Let_def)

lemma rt_device_close_error:
  assumes "assert_device d s = Some ()" "ref_count (devs s d) = 1" "drv_close (drv d) = Some f"
    and f: "\<And>s. f s = (- RT_ERROR, s)"
  shows "\<exists>s'. rt_device_close drv d s = Some (s', - RT_ERROR) \<and> ref_count (devs s' d) = 0 \<and> open_flag (devs s' d) = open_flag (devs s d)"
  using assms by (simp add: rt_device_close_def upd_dev_def called_def RT_ERROR_def RT_EOK_def RT_ENOSYS_def)

end
