(* ===== verification/Spec2Isabelle.thy ===== *)
theory Spec2Isabelle
  imports Lwrb Lwutil Ringbuffer Rtc Flash Hr Flex_Button Agile_Led Lcd Mem Kernel_Props Ipc_Props At_Props Kprint_Text Device_Props
begin

text \<open>
  The firmware of a gas alarm on the CH32V303 microcontroller, written in C over the RT-Thread kernel.
  Its own logic is the history of alarms kept in flash, the protocol over which a host reads and sets it,
  the clock, the button, the LEDs and the display, with the byte buffers and libraries these rest on.
  This development translates that logic into functions and proves what it does.

  \<^bold>\<open>How the parts fit.\<close> The interrupt of the UART puts received bytes into an LwRB ring buffer
  (\<open>common/LwRB\<close>). The history thread (\<open>bsp_hr.c\<close>) takes them out, searches a frame, runs its command
  against the record logs and settings of the flash module (\<open>bsp_flash.c\<close>) and the clock (\<open>bsp_rtc.c\<close>),
  and sends the answer. The button thread (\<open>bsp_button.c\<close>) scans the button library
  (\<open>common/FlexibleButton\<close>); the LEDs (\<open>bsp_led.c\<close>) run on the LED library (\<open>common/agile_led\<close>); the display
  (\<open>bsp_lcd_1621.c\<close>) draws into a buffer that it sends over three pins. The kernel's serial driver uses the
  kernel's own ring buffer (\<open>ringbuffer.c\<close>). A modem is spoken to through the AT command client (\<open>common/AT Command\<close>),
  which is polled and runs the program's requests one after the other.

  \<^bold>\<open>Theories and the code they model.\<close>
  \<^item> \<open>Prelude\<close>: bounds-checked arrays, \<open>RT_ASSERT\<close>, facts on machine words.
  \<^item> \<open>Circular\<close>: the reading and writing of a window of a circular array, shared by both ring buffers.
  \<^item> \<open>Fifo_Spec\<close>: the locales \<open>byte_fifo\<close> and \<open>byte_fifo_reset\<close>, the contract of a byte queue
    (what a write appends, what a read takes, what fits), with the histories of transfers proved inside.
  \<^item> \<open>Lwrb\<close>: \<open>common/LwRB/lwrb.c\<close>, every function; interprets both locales.
  \<^item> \<open>Lwutil\<close>: \<open>common/LwUtil/lwutil.c\<close> and the inline functions of \<open>lwutil.h\<close>.
  \<^item> \<open>Ringbuffer\<close>: \<open>rt-thread/components/drivers/ipc/ringbuffer.c\<close>, with its mirrored indices;
    interprets both locales.
  \<^item> \<open>Rtc\<close>: \<open>bsp_rtc.c\<close>, the counter and the calendar.
  \<^item> \<open>Flash\<close>: \<open>bsp_flash.c\<close> and \<open>bsp_flash.h\<close>, the record logs, the product times and the alarm value over a
    byte-addressed memory.
  \<^item> \<open>Hr\<close>: \<open>bsp_hr.c\<close>, the frames and the commands, over \<open>Lwrb\<close>, \<open>Flash\<close> and \<open>Rtc\<close>.
  \<^item> \<open>Flex_Button\<close>: \<open>flexible_button.c\<close> and the board's use of it in \<open>bsp_button.c\<close>.
  \<^item> \<open>Agile_Led\<close>: \<open>agile_led.c\<close>, \<open>rt_tick_from_millisecond\<close> of \<open>clock.c\<close>, \<open>bsp_led.c\<close>.
  \<^item> \<open>Lcd\<close>: \<open>bsp_lcd_1621.c\<close>.
  \<^item> \<open>Alloc_Spec\<close>: the locale \<open>allocator\<close>, the contract of a heap, and the programs of requests and releases
    that run on it.
  \<^item> \<open>Mem\<close>: the kernel's heap, \<open>rt-thread/src/mem.c\<close>, and \<open>rt_malloc\<close>, \<open>rt_realloc\<close>, \<open>rt_calloc\<close>, \<open>rt_free\<close> of
    \<open>kservice.c\<close>; interprets \<open>allocator\<close>.
  \<^item> \<open>Kernel\<close>: the kernel's threads, scheduler, timers and tick as configured here: \<open>scheduler.c\<close>, \<open>thread.c\<close>,
    \<open>timer.c\<close>, \<open>clock.c\<close>, parts of \<open>idle.c\<close>, \<open>irq.c\<close>, \<open>components.c\<close>, and \<open>__rt_ffs\<close> of \<open>kservice.c\<close>. The state
    is one record; the objects of threads and timers are maps from their names.
  \<^item> \<open>Sched\<close>, \<open>Thread\<close>, \<open>Ticks\<close>: the invariants of that state (the ready lists and the group of ready priorities,
    the links of threads, the order of the timers) and that every operation keeps them.
  \<^item> \<open>Kernel_Calls\<close>: programs of kernel calls, as an inductive relation \<open>kernel_run\<close>.
  \<^item> \<open>Kernel_Props\<close>: the start-up, and what the kernel promises.
  \<^item> \<open>Ipc\<close>: semaphores, mutexes, events, mailboxes and message queues, \<open>rt-thread/src/ipc.c\<close>. The state extends
    the kernel's by maps of objects; a call that waits returns \<open>Waiting\<close>, and what it does when its thread runs
    again is a definition of its own (\<open>rt_sem_take_end\<close>, \<open>rt_mb_recv_resume\<close> and the like).
  \<^item> \<open>Ipc_Wait\<close>, \<open>Ipc_Frame\<close>: waiting for an object and waking those who wait, and what these leave alone.
  \<^item> \<open>Ipc_Sem\<close>, \<open>Ipc_Mutex\<close>, \<open>Ipc_Event\<close>, \<open>Ipc_Mailbox\<close>, \<open>Ipc_Mq\<close>: for each kind of object its invariant and the effect
    of every call on every branch. The last two interpret the locale \<open>msg_queue\<close> of \<open>Msg_Spec\<close>, the contract of a
    bounded queue of messages.
  \<^item> \<open>Ipc_Calls\<close>: programs of calls to the kernel and to all kinds of objects (\<open>ipc_run\<close>) and the invariant they keep.
  \<^item> \<open>Ipc_Props\<close>: what the objects promise to the threads that use them.
  \<^item> \<open>At_Chat\<close>: the AT command client, \<open>common/AT Command/at_chat.c\<close> with \<open>at_chat.h\<close> and \<open>at_port.h\<close>, every function.
    The record \<open>at_info\<close> is the C structure with the work items it owns (a map from addresses), the global counters of
    memory, the contexts, the clock, and a trace of what is written and called. What the using program supplies
    (callbacks, senders, handlers, the heap) is the record \<open>at_client\<close> of functions on that state.
  \<^item> \<open>At_Inv\<close>, \<open>At_Steps\<close>, \<open>At_Calls\<close>: the invariant of an object, what is asked of the program's functions (\<open>client_ok\<close>), and
    that the handlers of works, the polls, the recognition of unsolicited messages and the requests keep it.
  \<^item> \<open>At_Runs\<close>: creation, and programs of requests, polls and passing time as an inductive relation \<open>at_run\<close>.
  \<^item> \<open>At_Serve\<close>, \<open>At_Command\<close>, \<open>At_Urc\<close>: the order of the items, aborting and release; the search for responses, retries and timeouts;
    the recognition of a line of the modem.
  \<^item> \<open>At_Props\<close>: what the client promises, and where it does something else than its description.
  \<^item> \<open>Kmemory\<close>: the memory and string functions of \<open>rt-thread/src/kservice.c\<close>, over a list of bytes, each shown to be
    its reference.
  \<^item> \<open>Kprint\<close>: formatted output, \<open>rt_vsnprintf\<close> to \<open>rt_kprintf\<close> of the same file. \<open>Print_Spec\<close>: what a
    format of the C library means (\<open>piece\<close>, \<open>format_chars\<close>, \<open>pieces_text\<close>), defined without the code, and on which formats the
    code \<open>departs\<close> from it. \<open>Kprint_Text\<close>: that the code stores the beginning of this text.
  \<^item> \<open>Device\<close>: the registry of kernel objects and the device switch, \<open>rt-thread/src/object.c\<close> and \<open>device.c\<close>, and
    \<open>rt_console_set_device\<close>. The lists of the classes are lists of addresses; drivers are a parameter. \<open>Device_Props\<close>: the invariant
    of the lists and names over programs of calls (\<open>dev_step\<close>), and what the device switch promises.

  \<^bold>\<open>Conventions.\<close> A C struct is a record with the source's field names, its functions keep their names.
  A function that can leave C's defined behaviour (an access outside an array, a null pointer, a shift by
  the width, a failed assertion that stops the system) returns an option, and \<open>None\<close> is that run; error
  codes are ordinary results. Machine integers are words, so that sums wrap as in C. Loops are structural
  recursion, functions with a measure, or carry fuel. The LED loop starts its list again after each object it
  stops and whose callback it calls; it may run for ever, and is a partial function that is proved to return for the
  callbacks of \<open>callbacks_ok\<close>. The
  searches of the flash logs and of the calendar are bounded by their tables; the walks along the heap's
  headers have one step for each byte of the heap (\<open>smem_fuel\<close>), more than it can hold headers. Callbacks and pin writes are
  recorded in the state; the completion callbacks of the LEDs and the functions of the AT client's program are
  parameters that act on it.

  \<^bold>\<open>What is shown.\<close> For the ring buffers: their invariants, refinement of the queue contract, and every
  other operation against the queue's content, with the forced write that drops the oldest bytes. For the
  flash, at moments when the clock can be read: a log keeps the newest records through wrap-around and page erasure, what a query of the n-th
  newest returns, round trips of the settings, first start. For the protocol: generated frames are found
  again, what is found is a frame of the input, each command's answer and effect, and where it leaves its
  buffers. For the clock: the calendar of a counter value and the round trip of setting and reading. For
  the button: the event of each click pattern and of each duration of a hold. For the LEDs: the running
  list's invariant, the end of the process loop whatever well-behaved callbacks do, and the level of the pin in every tick of a pattern. For
  the display: the digits and icons a value shows and the writes the display receives. For the heap: no
  program of requests and releases fails an assertion, the live regions stay disjoint, aligned and inside,
  a released block is merged again, and resizing keeps the data (and releases the block for the size 0 and sizes that wrap). For the kernel: from the start-up on no program
  of calls and ticks fails an assertion or breaks a list, the scheduler runs a thread of the highest ready
  priority, a sleep lasts as many ticks as it says, and threads of one priority do not take turns. For the
  objects over it: the same safety for programs with calls to them; a semaphore is a counter with a queue, mailboxes and
  message queues are bounded queues, sent events serve the waiting threads as a reference function says, a mutex has
  one owner that inherits priority, and a wait that times out lasts its ticks. For the AT client: every program that keeps
  to its interface runs and leaves the object well formed, polls serve two queues in order, a response is classified the same
  however it is cut into pieces, a command is sent at most once more than its retries and ends on a silent
  line, a line of the modem reaches the handler a reference function names, aborting drains the queues, and releasing
  an object returns its memory. For the kernel's library functions: filling and moving by words equals the plain operation on
  bytes, searching and comparing agree with their references, a formatted text is stored up to the end of its buffer and its
  full length returned (the text the C library gives the format, but where the code departs from it), and a printed number is read back. For objects and devices: lists stay apart, names of devices differ
  and find their device, openings and closings are counted, and the driver sees the first and the last. Several theorems
  state behaviour the code has where its comments say otherwise; these are the findings of the manifest.

  \<^bold>\<open>Parameters.\<close> The contents \<open>rt_malloc\<close> leaves in new memory and whether it finds any (the properties of the AT client are for a heap that does), the UART's receive
  check, the functions of the program that uses the AT client, the drivers of devices, the flash controller (an erased byte reads as 0xE339 repeated, programming an erased cell stores
  the value) are arguments or hypotheses of the definitions that need them.

  \<^bold>\<open>Not modelled.\<close> The vendor's register library (\<open>libraries/hal_libraries\<close>) and the drivers over it
  (\<open>libraries/hal_drivers\<close>): their effect is the hardware. Of \<open>kservice.c\<close> the error numbers of threads, \<open>rt_strdup\<close>, the
  aligned allocations and the version message. The components above the kernel are sequential steps between kernel calls, so nothing
  is claimed about preemption inside one, nor about an interrupt between two atomic parts of a kernel call.
  The shell, the logger, the C library glue and the start-up code: they do not touch the modelled state.
  Of the AT client only \<open>at_work_isvalid\<close>, which reads a mark of an item that may be released. The supply voltage detection
  and the watchdog are register access.
\<close>

end
